(* ===== verification/Prelude.thy ===== *)
theory Prelude
  imports Main "HOL-Library.Word" "HOL-Library.Monad_Syntax" "HOL-Library.Sublist"
begin

unbundle bit_operations_syntax

text \<open>
  Shared vocabulary of the development: the machine types of a 32-bit Cortex-M4 build, the
  reading of \<open>RT_ASSERT\<close> as the option monad, and generic lemmas on lists and words that
  the component theories use.
\<close>

section \<open>Machine types\<close>

type_synonym u8 = "8 word"
type_synonym u16 = "16 word"
type_synonym u32 = "32 word"

text \<open>Addresses of kernel objects. A null pointer is \<open>None\<close> where a field may hold one.\<close>

type_synonym addr = nat

section \<open>Assertions and dead ends\<close>

text \<open>
  The build defines \<open>RT_USING_DEBUG\<close>, so \<open>RT_ASSERT(EX)\<close> calls
  \<open>rt_assert_handler\<close>, which prints and then loops for ever. A computation of the
  model is of type \<open>'a option\<close>: \<open>None\<close> is a failed assertion, the
  dereference of a null or dead pointer, or an array index out of range, after which the
  source defines no further behaviour.
\<close>

definition RT_ASSERT :: "bool \<Rightarrow> unit option" where
  "RT_ASSERT b = (if b then Some () else None)"

lemma RT_ASSERT_simps [simp]:
  "RT_ASSERT True = Some ()" "RT_ASSERT False = None"
  by (simp_all add: RT_ASSERT_def)

lemma RT_ASSERT_eq_Some [simp]: "RT_ASSERT b = Some u \<longleftrightarrow> b"
  by (simp add: RT_ASSERT_def)

lemma RT_ASSERT_bind [simp]: "(RT_ASSERT b \<bind> f = Some y) \<longleftrightarrow> b \<and> f () = Some y"
  by (simp add: RT_ASSERT_def)

lemma RT_ASSERT_bind_if: "RT_ASSERT b \<bind> f = (if b then f () else None)"
  by (simp add: RT_ASSERT_def)

lemma bind_SomeE:
  assumes "(m \<bind> f) = Some y"
  obtains x where "m = Some x" and "f x = Some y"
  using assms by (cases m) auto

section \<open>Collections of facts\<close>

named_theorems list_ops \<open>effect of the list operations on the queues of the kernel\<close>
named_theorems k_frame \<open>fields a kernel operation leaves unchanged\<close>
named_theorems k_inv \<open>operations that keep an invariant\<close>

section \<open>Lists\<close>

lemma distinct_remove1_mem [simp]: "distinct xs \<Longrightarrow> x \<notin> set (remove1 x xs)"
  by auto

lemma remove1_eq_filter: "distinct xs \<Longrightarrow> remove1 x xs = filter (\<lambda>y. y \<noteq> x) xs"
  by (rule distinct_remove1_removeAll [THEN trans]) (auto simp: removeAll_filter_not_eq intro: filter_cong)

lemma take_update_append:
  "i + length ys \<le> length xs \<Longrightarrow> length (take i xs @ ys @ drop (i + length ys) xs) = length xs"
  by simp

section \<open>Words\<close>

lemma unat_minus_le: "b \<le> a \<Longrightarrow> unat (a - b) = unat a - unat (b :: 'a::len word)"
  by (rule unat_sub)

lemma unat_plus_less:
  "unat a + unat b < 2 ^ LENGTH('a) \<Longrightarrow> unat (a + b) = unat a + unat (b :: 'a::len word)"
  by (simp add: unat_word_ariths)

lemma unat_Suc_less:
  assumes "unat (a :: 'a word) < unat (b :: 'a::len word)"
  shows "unat (a + 1) = Suc (unat a)"
proof -
  have "unat b < 2 ^ LENGTH('a)" by (rule unsigned_less)
  with assms have "Suc (unat a) < 2 ^ LENGTH('a)" by linarith
  then have "unat a + unat (1 :: 'a word) < 2 ^ LENGTH('a)" by simp
  from unat_plus_less [OF this] show ?thesis by simp
qed

lemma word_neq_0_unat: "(a :: 'a::len word) \<noteq> 0 \<longleftrightarrow> 0 < unat a"
  by (simp add: unat_gt_0)

end
