(* ===== verification/RtDef.thy ===== *)
theory RtDef
  imports Prelude
begin

text \<open>
  The constants of \<open>rt-thread/include/rtdef.h\<close> that the kernel uses, in the
  configuration of \<open>rtconfig.h\<close> (32 priorities, 8-byte alignment, 100 ticks per
  second). Error codes are \<open>rt_err_t\<close>, a signed word of the CPU; the kernel only
  negates and compares them, so they are integers.
\<close>

section \<open>Error codes\<close>

type_synonym rt_err = int

abbreviation (input) RT_EOK :: rt_err where "RT_EOK \<equiv> 0"
abbreviation (input) RT_ERROR :: rt_err where "RT_ERROR \<equiv> 1"
abbreviation (input) RT_ETIMEOUT :: rt_err where "RT_ETIMEOUT \<equiv> 2"
abbreviation (input) RT_EFULL :: rt_err where "RT_EFULL \<equiv> 3"
abbreviation (input) RT_ENOSYS :: rt_err where "RT_ENOSYS \<equiv> 6"
abbreviation (input) RT_EINTR :: rt_err where "RT_EINTR \<equiv> 9"
abbreviation (input) RT_EINVAL :: rt_err where "RT_EINVAL \<equiv> 10"

section \<open>Limits\<close>

abbreviation (input) RT_TICK_MAX :: u32 where "RT_TICK_MAX \<equiv> 0xffffffff"
abbreviation (input) RT_SEM_VALUE_MAX :: u16 where "RT_SEM_VALUE_MAX \<equiv> 0xffff"
abbreviation (input) RT_MUTEX_HOLD_MAX :: u8 where "RT_MUTEX_HOLD_MAX \<equiv> 0xff"
abbreviation (input) RT_MB_ENTRY_MAX :: u16 where "RT_MB_ENTRY_MAX \<equiv> 0xffff"
abbreviation (input) RT_MQ_ENTRY_MAX :: u16 where "RT_MQ_ENTRY_MAX \<equiv> 0xffff"
abbreviation (input) RT_THREAD_PRIORITY_MAX :: nat where "RT_THREAD_PRIORITY_MAX \<equiv> 32"
abbreviation (input) RT_NAME_MAX :: nat where "RT_NAME_MAX \<equiv> 8"
abbreviation (input) RT_TICK_PER_SECOND :: u32 where "RT_TICK_PER_SECOND \<equiv> 100"

section \<open>Thread states\<close>

abbreviation (input) RT_THREAD_INIT :: u8 where "RT_THREAD_INIT \<equiv> 0"
abbreviation (input) RT_THREAD_CLOSE :: u8 where "RT_THREAD_CLOSE \<equiv> 1"
abbreviation (input) RT_THREAD_READY :: u8 where "RT_THREAD_READY \<equiv> 2"
abbreviation (input) RT_THREAD_RUNNING :: u8 where "RT_THREAD_RUNNING \<equiv> 3"
abbreviation (input) RT_THREAD_SUSPEND_MASK :: u8 where "RT_THREAD_SUSPEND_MASK \<equiv> 4"
abbreviation (input) RT_THREAD_SUSPEND :: u8 where "RT_THREAD_SUSPEND \<equiv> 4"
abbreviation (input) RT_THREAD_SUSPEND_INTERRUPTIBLE :: u8 where "RT_THREAD_SUSPEND_INTERRUPTIBLE \<equiv> 4"
abbreviation (input) RT_THREAD_SUSPEND_KILLABLE :: u8 where "RT_THREAD_SUSPEND_KILLABLE \<equiv> 6"
abbreviation (input) RT_THREAD_SUSPEND_UNINTERRUPTIBLE :: u8 where "RT_THREAD_SUSPEND_UNINTERRUPTIBLE \<equiv> 7"
abbreviation (input) RT_THREAD_STAT_MASK :: u8 where "RT_THREAD_STAT_MASK \<equiv> 7"
abbreviation (input) RT_THREAD_STAT_YIELD :: u8 where "RT_THREAD_STAT_YIELD \<equiv> 8"

text \<open>The suspend flags of \<open>rt_thread_suspend_with_flag\<close> (an enum).\<close>

abbreviation (input) RT_INTERRUPTIBLE :: int where "RT_INTERRUPTIBLE \<equiv> 0"
abbreviation (input) RT_KILLABLE :: int where "RT_KILLABLE \<equiv> 1"
abbreviation (input) RT_UNINTERRUPTIBLE :: int where "RT_UNINTERRUPTIBLE \<equiv> 2"

text \<open>The commands of \<open>rt_thread_control\<close>.\<close>

abbreviation (input) RT_THREAD_CTRL_STARTUP :: int where "RT_THREAD_CTRL_STARTUP \<equiv> 0"
abbreviation (input) RT_THREAD_CTRL_CLOSE :: int where "RT_THREAD_CTRL_CLOSE \<equiv> 1"
abbreviation (input) RT_THREAD_CTRL_CHANGE_PRIORITY :: int where "RT_THREAD_CTRL_CHANGE_PRIORITY \<equiv> 2"

section \<open>Timers\<close>

abbreviation (input) RT_TIMER_FLAG_ACTIVATED :: u8 where "RT_TIMER_FLAG_ACTIVATED \<equiv> 1"
abbreviation (input) RT_TIMER_FLAG_ONE_SHOT :: u8 where "RT_TIMER_FLAG_ONE_SHOT \<equiv> 0"
abbreviation (input) RT_TIMER_FLAG_PERIODIC :: u8 where "RT_TIMER_FLAG_PERIODIC \<equiv> 2"
abbreviation (input) RT_TIMER_FLAG_SOFT_TIMER :: u8 where "RT_TIMER_FLAG_SOFT_TIMER \<equiv> 4"

section \<open>Inter-thread communication\<close>

abbreviation (input) RT_IPC_FLAG_FIFO :: u8 where "RT_IPC_FLAG_FIFO \<equiv> 0"
abbreviation (input) RT_IPC_FLAG_PRIO :: u8 where "RT_IPC_FLAG_PRIO \<equiv> 1"
abbreviation (input) RT_IPC_CMD_RESET :: int where "RT_IPC_CMD_RESET \<equiv> 1"
abbreviation (input) RT_WAITING_FOREVER :: u32 where "RT_WAITING_FOREVER \<equiv> - 1"
abbreviation (input) RT_WAITING_NO :: u32 where "RT_WAITING_NO \<equiv> 0"
abbreviation (input) RT_EVENT_FLAG_AND :: u8 where "RT_EVENT_FLAG_AND \<equiv> 1"
abbreviation (input) RT_EVENT_FLAG_OR :: u8 where "RT_EVENT_FLAG_OR \<equiv> 2"
abbreviation (input) RT_EVENT_FLAG_CLEAR :: u8 where "RT_EVENT_FLAG_CLEAR \<equiv> 4"

section \<open>Alignment\<close>

definition RT_ALIGN :: "u32 \<Rightarrow> u32 \<Rightarrow> u32" where
  "RT_ALIGN sz align = (sz + align - 1) AND NOT (align - 1)"

definition RT_ALIGN_DOWN :: "u32 \<Rightarrow> u32 \<Rightarrow> u32" where
  "RT_ALIGN_DOWN sz align = sz AND NOT (align - 1)"

abbreviation (input) RT_ALIGN_SIZE :: u32 where "RT_ALIGN_SIZE \<equiv> 8"

lemma and_not_mask_eq: "w AND NOT (mask n) = push_bit n (drop_bit n w)" for w :: "'a::len word"
  by (rule bit_word_eqI) (auto simp: bit_simps)

lemma and_minus_8: "unat (w AND - 8) = 8 * (unat w div 8)" for w :: u32
proof -
  have "(- 8 :: u32) = NOT (mask 3)" by (simp add: mask_eq_exp_minus_1)
  then have m: "w AND - 8 = push_bit 3 (drop_bit 3 w)"
    by (simp only: and_not_mask_eq)
  have "unat w < 2 ^ 32" using unsigned_less [of w] by simp
  then have "unat w div 8 * 8 < 2 ^ 32" by linarith
  with m show ?thesis
    by (simp add: push_bit_eq_mult drop_bit_eq_div unat_word_ariths unat_div)
qed

lemma unat_RT_ALIGN_DOWN: "unat (RT_ALIGN_DOWN n RT_ALIGN_SIZE) = 8 * (unat n div 8)"
  by (simp add: RT_ALIGN_DOWN_def and_minus_8)

lemma unat_RT_ALIGN:
  assumes "unat n + 7 < 2 ^ 32"
  shows "unat (RT_ALIGN n RT_ALIGN_SIZE) = 8 * ((unat n + 7) div 8)"
proof -
  have "unat (n + 7) = unat n + 7"
    using unat_plus_less [of n 7] assms by simp
  moreover have "n + 8 - 1 = n + 7" by simp
  ultimately show ?thesis by (simp add: RT_ALIGN_def and_minus_8 add.commute)
qed

end
