(* ===== verification/RtFfs.thy ===== *)
theory RtFfs
  imports RtDef
begin

text \<open>
  The table-driven \<open>__rt_ffs\<close> of \<open>rt-thread/src/kservice.c\<close>, which the
  scheduler uses to find the highest ready priority in its 32-bit group word, proved to return
  one plus the index of the lowest set bit.
\<close>

section \<open>Find first set\<close>

definition lowest_bit_bitmap :: "nat list" where
  "lowest_bit_bitmap = [
    0, 0, 1, 0, 2, 0, 1, 0, 3, 0, 1, 0, 2, 0, 1, 0, 
    4, 0, 1, 0, 2, 0, 1, 0, 3, 0, 1, 0, 2, 0, 1, 0, 
    5, 0, 1, 0, 2, 0, 1, 0, 3, 0, 1, 0, 2, 0, 1, 0, 
    4, 0, 1, 0, 2, 0, 1, 0, 3, 0, 1, 0, 2, 0, 1, 0, 
    6, 0, 1, 0, 2, 0, 1, 0, 3, 0, 1, 0, 2, 0, 1, 0, 
    4, 0, 1, 0, 2, 0, 1, 0, 3, 0, 1, 0, 2, 0, 1, 0, 
    5, 0, 1, 0, 2, 0, 1, 0, 3, 0, 1, 0, 2, 0, 1, 0, 
    4, 0, 1, 0, 2, 0, 1, 0, 3, 0, 1, 0, 2, 0, 1, 0, 
    7, 0, 1, 0, 2, 0, 1, 0, 3, 0, 1, 0, 2, 0, 1, 0, 
    4, 0, 1, 0, 2, 0, 1, 0, 3, 0, 1, 0, 2, 0, 1, 0, 
    5, 0, 1, 0, 2, 0, 1, 0, 3, 0, 1, 0, 2, 0, 1, 0, 
    4, 0, 1, 0, 2, 0, 1, 0, 3, 0, 1, 0, 2, 0, 1, 0, 
    6, 0, 1, 0, 2, 0, 1, 0, 3, 0, 1, 0, 2, 0, 1, 0, 
    4, 0, 1, 0, 2, 0, 1, 0, 3, 0, 1, 0, 2, 0, 1, 0, 
    5, 0, 1, 0, 2, 0, 1, 0, 3, 0, 1, 0, 2, 0, 1, 0, 
    4, 0, 1, 0, 2, 0, 1, 0, 3, 0, 1, 0, 2, 0, 1, 0]"

definition rt_ffs :: "u32 \<Rightarrow> nat" where
  "rt_ffs v =
    (if v = 0 then 0
     else if v AND 0xff \<noteq> 0 then lowest_bit_bitmap ! unat (v AND 0xff) + 1
     else if v AND 0xff00 \<noteq> 0 then lowest_bit_bitmap ! unat (drop_bit 8 (v AND 0xff00)) + 9
     else if v AND 0xff0000 \<noteq> 0 then lowest_bit_bitmap ! unat (drop_bit 16 (v AND 0xff0000)) + 17
     else lowest_bit_bitmap ! unat (drop_bit 24 (v AND 0xff000000)) + 25)"

text \<open>The table holds the index of the lowest set bit of every non-zero byte.\<close>

definition lowest_bit_ok :: "nat \<Rightarrow> nat \<Rightarrow> bool" where
  "lowest_bit_ok b i \<longleftrightarrow> i < 8 \<and> b div 2 ^ i mod 2 = 1 \<and> b mod 2 ^ i = 0"

fun table_ok :: "nat \<Rightarrow> nat list \<Rightarrow> bool" where
  "table_ok b [] \<longleftrightarrow> True"
| "table_ok b (i # is) \<longleftrightarrow> lowest_bit_ok b i \<and> table_ok (b + 1) is"

lemma table_ok_nth: "table_ok b is \<Longrightarrow> k < length is \<Longrightarrow> lowest_bit_ok (b + k) (is ! k)"
proof (induction b "is" arbitrary: k rule: table_ok.induct)
  case (2 b i "is")
  then show ?case by (cases k) auto
qed simp

lemma lowest_bit_table: "table_ok 1 (tl lowest_bit_bitmap)"
  by (simp add: lowest_bit_bitmap_def lowest_bit_ok_def)

lemma lowest_bit_nth: "0 < b \<Longrightarrow> b < 256 \<Longrightarrow> lowest_bit_ok b (lowest_bit_bitmap ! b)"
  using table_ok_nth [OF lowest_bit_table, of "b - 1"]
  by (simp add: nth_tl) (simp add: lowest_bit_bitmap_def)

lemma bit_nat_div: "bit (b :: nat) i \<longleftrightarrow> b div 2 ^ i mod 2 = 1"
  by (simp add: bit_iff_odd odd_iff_mod_2_eq_one)

lemma not_bit_of_mod: "(b :: nat) mod 2 ^ i = 0 \<Longrightarrow> j < i \<Longrightarrow> \<not> bit b j"
  by (metis bit_take_bit_iff bit_0_eq bot_apply take_bit_eq_mod bot_bool_def)

lemma lowest_bit_bitmap_ok:
  assumes "0 < b" and "b < 256"
  shows "lowest_bit_bitmap ! b < 8" and "bit b (lowest_bit_bitmap ! b)"
    and "\<And>j. j < lowest_bit_bitmap ! b \<Longrightarrow> \<not> bit b j"
proof -
  from assms have ok: "lowest_bit_ok b (lowest_bit_bitmap ! b)" by (rule lowest_bit_nth)
  show "lowest_bit_bitmap ! b < 8" using ok by (simp add: lowest_bit_ok_def)
  show "bit b (lowest_bit_bitmap ! b)"
    using ok unfolding lowest_bit_ok_def bit_nat_div by blast
  fix j assume "j < lowest_bit_bitmap ! b"
  then show "\<not> bit b j"
    using ok not_bit_of_mod [of b "lowest_bit_bitmap ! b" j] by (simp add: lowest_bit_ok_def)
qed

text \<open>One byte of the word: the byte at \<open>s\<close> decides the result when the lower bytes are zero.\<close>

definition byte_at :: "nat \<Rightarrow> u32 \<Rightarrow> nat" where
  "byte_at s v = unat (take_bit 8 (drop_bit s v))"

lemma byte_at_less: "byte_at s v < 256"
proof -
  have "byte_at s v = take_bit 8 (unat (drop_bit s v))"
    by (simp add: byte_at_def unsigned_take_bit_eq)
  then show ?thesis by (simp add: take_bit_nat_less_exp [of 8, simplified])
qed

lemma bit_byte_at: "s + 8 \<le> 32 \<Longrightarrow> bit (byte_at s v) i \<longleftrightarrow> i < 8 \<and> bit v (s + i)"
  by (auto simp: byte_at_def bit_simps dest: bit_imp_le_length)

lemma byte_masks:
  fixes v :: u32
  shows "v AND 0xff = take_bit 8 (drop_bit 0 v)"
    and "drop_bit 8 (v AND 0xff00) = take_bit 8 (drop_bit 8 v)"
    and "drop_bit 16 (v AND 0xff0000) = take_bit 8 (drop_bit 16 v)"
    and "drop_bit 24 (v AND 0xff000000) = take_bit 8 (drop_bit 24 v)"
proof -
  have m: "(0xff :: u32) = mask 8" "(0xff00 :: u32) = push_bit 8 (mask 8)"
    "(0xff0000 :: u32) = push_bit 16 (mask 8)" "(0xff000000 :: u32) = push_bit 24 (mask 8)"
    by (simp_all add: mask_eq_exp_minus_1 push_bit_eq_mult)
  show "v AND 0xff = take_bit 8 (drop_bit 0 v)"
    by (simp add: m take_bit_eq_mask)
  show "drop_bit 8 (v AND 0xff00) = take_bit 8 (drop_bit 8 v)"
    by (rule bit_word_eqI) (auto simp: m bit_simps)
  show "drop_bit 16 (v AND 0xff0000) = take_bit 8 (drop_bit 16 v)"
    by (rule bit_word_eqI) (auto simp: m bit_simps)
  show "drop_bit 24 (v AND 0xff000000) = take_bit 8 (drop_bit 24 v)"
    by (rule bit_word_eqI) (auto simp: m bit_simps)
qed

lemma byte_test:
  assumes "s + 8 \<le> 32"
  shows "(v :: u32) AND push_bit s (mask 8) \<noteq> 0 \<longleftrightarrow> byte_at s v \<noteq> 0"
proof -
  have e: "v AND push_bit s (mask 8) = push_bit s (take_bit 8 (drop_bit s v))"
    by (rule bit_word_eqI) (auto simp: bit_simps)
  have d: "drop_bit s (v AND push_bit s (mask 8)) = take_bit 8 (drop_bit s v)"
    using assms by (intro bit_word_eqI) (auto simp: bit_simps)
  have "(v AND push_bit s (mask 8) = 0) = (take_bit 8 (drop_bit s v) = 0)"
    using e d by auto
  then show ?thesis unfolding byte_at_def by (metis unat_eq_zero)
qed

lemma rt_ffs_alt:
  "rt_ffs v =
    (if v = 0 then 0
     else if byte_at 0 v \<noteq> 0 then lowest_bit_bitmap ! byte_at 0 v + 1
     else if byte_at 8 v \<noteq> 0 then lowest_bit_bitmap ! byte_at 8 v + 9
     else if byte_at 16 v \<noteq> 0 then lowest_bit_bitmap ! byte_at 16 v + 17
     else lowest_bit_bitmap ! byte_at 24 v + 25)"
proof -
  have m: "(0xff :: u32) = push_bit 0 (mask 8)" "(0xff00 :: u32) = push_bit 8 (mask 8)"
    "(0xff0000 :: u32) = push_bit 16 (mask 8)"
    by (simp_all add: mask_eq_exp_minus_1 push_bit_eq_mult)
  have t: "v AND 0xff = 0 \<longleftrightarrow> byte_at 0 v = 0" "v AND 0xff00 = 0 \<longleftrightarrow> byte_at 8 v = 0"
    "v AND 0xff0000 = 0 \<longleftrightarrow> byte_at 16 v = 0"
    using byte_test [of 0 v] byte_test [of 8 v] byte_test [of 16 v] unfolding m by auto
  show ?thesis
    unfolding rt_ffs_def t unfolding byte_masks byte_at_def [symmetric] by (rule refl)
qed

lemma lowest_bit_of_byte:
  assumes "s + 8 \<le> 32" and "byte_at s v \<noteq> 0" and low: "\<And>j. j < s \<Longrightarrow> \<not> bit v j"
  defines "i \<equiv> lowest_bit_bitmap ! byte_at s v"
  shows "i < 8" and "bit v (s + i)" and "\<And>j. j < s + i \<Longrightarrow> \<not> bit v j"
proof -
  have b: "0 < byte_at s v" "byte_at s v < 256" using assms(2) byte_at_less by auto
  show "i < 8" using lowest_bit_bitmap_ok(1) [OF b] by (simp add: i_def)
  show "bit v (s + i)"
    using lowest_bit_bitmap_ok(2) [OF b] bit_byte_at [OF assms(1)] by (simp add: i_def)
  fix j assume j: "j < s + i"
  show "\<not> bit v j"
  proof (cases "j < s")
    case True
    then show ?thesis by (rule low)
  next
    case False
    then obtain d where d: "j = s + d" by (metis le_add_diff_inverse not_less)
    with j have "d < lowest_bit_bitmap ! byte_at s v" by (simp add: i_def)
    with lowest_bit_bitmap_ok(1,3) [OF b] have "\<not> bit (byte_at s v) d" "d < 8" by (auto intro: less_trans)
    with bit_byte_at [OF assms(1)] d show ?thesis by blast
  qed
qed

lemma byte_at_zero: "s + 8 \<le> 32 \<Longrightarrow> byte_at s v = 0 \<Longrightarrow> s \<le> j \<Longrightarrow> j < s + 8 \<Longrightarrow> \<not> bit v j"
  using bit_byte_at [of s v "j - s"] by (auto simp: less_diff_conv2)

text \<open>
  The result counts bits from 1: for a non-zero word it is one more than the index of the
  lowest set bit.
\<close>

lemma rt_ffs_of_byte:
  assumes "s + 8 \<le> 32" and "byte_at s v \<noteq> 0" and "\<And>j. j < s \<Longrightarrow> \<not> bit v j"
    and e: "rt_ffs v = lowest_bit_bitmap ! byte_at s v + (s + 1)"
  shows "0 < rt_ffs v \<and> rt_ffs v \<le> 32 \<and> bit v (rt_ffs v - 1) \<and> (\<forall>j < rt_ffs v - 1. \<not> bit v j)"
proof -
  note l = lowest_bit_of_byte [OF assms(1-3)]
  have "rt_ffs v - 1 = s + lowest_bit_bitmap ! byte_at s v" unfolding e by linarith
  then show ?thesis using l assms(1) unfolding e by (auto simp: add.commute)
qed

lemma byte_0_zero: "byte_at 0 v = 0 \<Longrightarrow> j < 8 \<Longrightarrow> \<not> bit v j"
  using byte_at_zero [of 0 v j] by simp

lemma byte_8_zero: "byte_at 0 v = 0 \<Longrightarrow> byte_at 8 v = 0 \<Longrightarrow> j < 16 \<Longrightarrow> \<not> bit v j"
  using byte_at_zero [of 8 v j] byte_0_zero [of v j] by (cases "j < 8") simp_all

lemma byte_16_zero:
  "byte_at 0 v = 0 \<Longrightarrow> byte_at 8 v = 0 \<Longrightarrow> byte_at 16 v = 0 \<Longrightarrow> j < 24 \<Longrightarrow> \<not> bit v j"
  using byte_at_zero [of 16 v j] byte_8_zero [of v j] by (cases "j < 16") simp_all

lemma byte_24_nonzero:
  assumes "byte_at 0 v = 0" "byte_at 8 v = 0" "byte_at 16 v = 0" "v \<noteq> 0"
  shows "byte_at 24 v \<noteq> 0"
proof
  assume z: "byte_at 24 v = 0"
  have "\<not> bit v j" if "j < 32" for j
    using that byte_at_zero [of 24 v j] z byte_16_zero [OF assms(1-3), of j] by (cases "j < 24") simp_all
  then have "v = 0" by (intro bit_word_eqI) simp
  with assms(4) show False by simp
qed

lemma rt_ffs_lowest_bit:
  assumes "v \<noteq> 0"
  shows "0 < rt_ffs v \<and> rt_ffs v \<le> 32 \<and> bit v (rt_ffs v - 1) \<and> (\<forall>j < rt_ffs v - 1. \<not> bit v j)"
proof -
  consider (b0) "byte_at 0 v \<noteq> 0" | (b1) "byte_at 0 v = 0" "byte_at 8 v \<noteq> 0"
    | (b2) "byte_at 0 v = 0" "byte_at 8 v = 0" "byte_at 16 v \<noteq> 0"
    | (b3) "byte_at 0 v = 0" "byte_at 8 v = 0" "byte_at 16 v = 0" by blast
  then show ?thesis
  proof cases
    case b0
    show ?thesis by (rule rt_ffs_of_byte [of 0]) (simp_all add: b0 rt_ffs_alt assms)
  next
    case b1
    show ?thesis
      by (rule rt_ffs_of_byte [of 8]) (simp_all add: b1 rt_ffs_alt assms byte_0_zero)
  next
    case b2
    show ?thesis
      by (rule rt_ffs_of_byte [of 16]) (simp_all add: b2 rt_ffs_alt assms byte_8_zero)
  next
    case b3
    show ?thesis
      by (rule rt_ffs_of_byte [of 24]) (simp_all add: b3 byte_24_nonzero rt_ffs_alt assms byte_16_zero)
  qed
qed

text \<open>For every non-zero group word, \<open>__rt_ffs\<close> returns one more than the index of its
  lowest set bit: the bit it names is set, none below it is.\<close>

theorem rt_ffs_lowest:
  assumes "v \<noteq> 0"
  shows "0 < rt_ffs v \<and> rt_ffs v \<le> 32 \<and> bit v (rt_ffs v - 1) \<and> (\<forall>j < rt_ffs v - 1. \<not> bit v j)"
  using assms by (rule rt_ffs_lowest_bit)

lemma rt_ffs_lowest_witness:
  "0 < rt_ffs 0x50000 \<and> bit (0x50000 :: u32) (rt_ffs 0x50000 - 1)"
  using rt_ffs_lowest [of "0x50000"] by simp

end
