(* ===== verification/KService.thy ===== *)
theory KService
  imports RtDef
begin

text \<open>
  The memory routines of \<open>rt-thread/src/kservice.c\<close> (\<open>rt_memset\<close>,
  \<open>rt_memcpy\<close>, \<open>rt_memmove\<close>). Memory is a map from addresses to bytes; the
  word-wise loops of the source are kept, with little-endian loads and stores. The optimised
  routines are proved equal to one pointwise description of the target.
\<close>

section \<open>Memory routines\<close>

type_synonym mem = "addr \<Rightarrow> u8"

text \<open>Little-endian access to a 32-bit word, as the Cortex-M4 does it.\<close>

definition load_word :: "mem \<Rightarrow> addr \<Rightarrow> u32" where
  "load_word m a = ucast (m a) OR push_bit 8 (ucast (m (a + 1)))
     OR push_bit 16 (ucast (m (a + 2))) OR push_bit 24 (ucast (m (a + 3)))"

definition store_word :: "mem \<Rightarrow> addr \<Rightarrow> u32 \<Rightarrow> mem" where
  "store_word m a w = m(a := ucast w, a + 1 := ucast (drop_bit 8 w),
     a + 2 := ucast (drop_bit 16 w), a + 3 := ucast (drop_bit 24 w))"

lemma load_word_bytes:
  "ucast (load_word m a) = m a" "ucast (drop_bit 8 (load_word m a)) = m (a + 1)"
  "ucast (drop_bit 16 (load_word m a)) = m (a + 2)" "ucast (drop_bit 24 (load_word m a)) = m (a + 3)"
  unfolding load_word_def
  by (rule bit_word_eqI; auto simp: bit_simps dest: bit_imp_le_length)+

text \<open>\<open>rt_memset\<close>: a word-wise loop on an aligned start, then single bytes.\<close>

fun memset_bytes :: "mem \<Rightarrow> addr \<Rightarrow> u8 \<Rightarrow> nat \<Rightarrow> mem" where
  "memset_bytes mem m d 0 = mem"
| "memset_bytes mem m d (Suc count) = memset_bytes (mem(m := d)) (m + 1) d count"

text \<open>
  The two word loops differ in how many stores an iteration makes (four or one); each returns
  memory, the advanced pointer and the remaining count.
\<close>

fun memset_words4 :: "mem \<Rightarrow> addr \<Rightarrow> u32 \<Rightarrow> nat \<Rightarrow> mem \<times> addr \<times> nat" where
  "memset_words4 mem p buffer count =
    (if count \<ge> 16 then
       memset_words4
         (store_word (store_word (store_word (store_word mem p buffer) (p + 4) buffer) (p + 8) buffer) (p + 12) buffer)
         (p + 16) buffer (count - 16)
     else (mem, p, count))"

fun memset_words :: "mem \<Rightarrow> addr \<Rightarrow> u32 \<Rightarrow> nat \<Rightarrow> mem \<times> addr \<times> nat" where
  "memset_words mem p buffer count =
    (if count \<ge> 4 then memset_words (store_word mem p buffer) (p + 4) buffer (count - 4)
     else (mem, p, count))"

declare memset_words4.simps [simp del] memset_words.simps [simp del]

definition rt_memset :: "mem \<Rightarrow> addr \<Rightarrow> u32 \<Rightarrow> nat \<Rightarrow> mem" where
  "rt_memset mem s c count =
    (let d = (ucast c :: u8) in
     if \<not> count < 4 \<and> s mod 4 = 0 then
       let buffer = load_word (\<lambda>_. d) 0;
           (mem, p, count) = memset_words4 mem s buffer count;
           (mem, p, count) = memset_words mem p buffer count
       in memset_bytes mem p d count
     else memset_bytes mem s d count)"

definition fill :: "mem \<Rightarrow> addr \<Rightarrow> nat \<Rightarrow> u8 \<Rightarrow> mem" where
  "fill mem s n d = (\<lambda>a. if s \<le> a \<and> a < s + n then d else mem a)"

lemma fill_0 [simp]: "fill mem s 0 d = mem"
  by (rule ext) (auto simp: fill_def)

lemma fill_fill: "fill (fill mem s n d) (s + n) k d = fill mem s (n + k) d"
  by (auto simp: fill_def)

lemma memset_bytes_eq: "memset_bytes mem m d count = fill mem m count d"
proof (induction mem m d count rule: memset_bytes.induct)
  case (1 mem m d)
  show ?case by simp
next
  case (2 mem m d count)
  have "mem(m := d) = fill mem m 1 d" by (auto simp: fill_def)
  with 2 fill_fill [of mem m 1 d count] show ?case by simp
qed

lemma store_buffer: "store_word mem p (load_word (\<lambda>_. d) 0) = fill mem p 4 d"
proof
  fix a
  show "store_word mem p (load_word (\<lambda>_. d) 0) a = fill mem p 4 d a"
    unfolding store_word_def load_word_bytes fill_def by auto
qed

lemma memset_words4_eq:
  "memset_words4 mem p (load_word (\<lambda>_. d) 0) count = (mem', p', count') \<Longrightarrow>
   mem' = fill mem p (count - count') d \<and> p' = p + (count - count') \<and> count' \<le> count"
proof (induction mem p "load_word (\<lambda>_. d) 0" count arbitrary: mem' p' count' rule: memset_words4.induct)
  case (1 mem p count)
  have four: "store_word (store_word (store_word (store_word mem p (load_word (\<lambda>_. d) 0)) (p + 4) (load_word (\<lambda>_. d) 0))
      (p + 8) (load_word (\<lambda>_. d) 0)) (p + 12) (load_word (\<lambda>_. d) 0) = fill mem p 16 d"
    by (simp add: store_buffer fill_fill [of mem p 4 d 4, simplified] fill_fill [of mem p 8 d 4, simplified]
        fill_fill [of mem p 12 d 4, simplified])
  show ?case
  proof (cases "count \<ge> 16")
    case True
    with 1(2) four have "memset_words4 (fill mem p 16 d) (p + 16) (load_word (\<lambda>_. d) 0) (count - 16) = (mem', p', count')"
      by (simp add: memset_words4.simps [of mem])
    with 1(1) True four have "mem' = fill (fill mem p 16 d) (p + 16) (count - 16 - count') d
        \<and> p' = p + 16 + (count - 16 - count') \<and> count' \<le> count - 16" by simp
    with True fill_fill [of mem p 16 d "count - 16 - count'"] show ?thesis by auto
  next
    case False
    with 1(2) show ?thesis by (auto simp: memset_words4.simps [of mem])
  qed
qed

lemma memset_words_eq:
  "memset_words mem p (load_word (\<lambda>_. d) 0) count = (mem', p', count') \<Longrightarrow>
   mem' = fill mem p (count - count') d \<and> p' = p + (count - count') \<and> count' \<le> count"
proof (induction mem p "load_word (\<lambda>_. d) 0" count arbitrary: mem' p' count' rule: memset_words.induct)
  case (1 mem p count)
  show ?case
  proof (cases "count \<ge> 4")
    case True
    with 1(2) have "memset_words (fill mem p 4 d) (p + 4) (load_word (\<lambda>_. d) 0) (count - 4) = (mem', p', count')"
      by (simp add: memset_words.simps [of mem] store_buffer)
    with 1(1) True store_buffer have "mem' = fill (fill mem p 4 d) (p + 4) (count - 4 - count') d
        \<and> p' = p + 4 + (count - 4 - count') \<and> count' \<le> count - 4" by simp
    with True fill_fill [of mem p 4 d "count - 4 - count'"] show ?thesis by auto
  next
    case False
    with 1(2) show ?thesis by (auto simp: memset_words.simps [of mem])
  qed
qed

lemma rt_memset_eq: "rt_memset mem s c count = fill mem s count (ucast c)"
proof -
  obtain m1 p1 c1 where w4: "memset_words4 mem s (load_word (\<lambda>_. ucast c) 0) count = (m1, p1, c1)"
    by (cases "memset_words4 mem s (load_word (\<lambda>_. ucast c) 0) count") auto
  obtain m2 p2 c2 where w1: "memset_words m1 p1 (load_word (\<lambda>_. ucast c) 0) c1 = (m2, p2, c2)"
    by (cases "memset_words m1 p1 (load_word (\<lambda>_. ucast c) 0) c1") auto
  from memset_words4_eq [OF w4] memset_words_eq [OF w1]
  have "fill m2 p2 c2 (ucast c) = fill mem s count (ucast c)"
    using fill_fill [of mem s "count - c1" "ucast c" "c1 - c2"] fill_fill [of mem s "count - c2" "ucast c" c2]
    by (auto simp: add.assoc)
  then show ?thesis
    by (simp add: rt_memset_def Let_def w4 w1 memset_bytes_eq)
qed

text \<open>\<open>rt_memcpy\<close>: four words at a time, then words, then bytes, always upwards.\<close>

definition copy_word :: "mem \<Rightarrow> addr \<Rightarrow> addr \<Rightarrow> mem" where
  "copy_word mem dst src = store_word mem dst (load_word mem src)"

fun memcpy_words4 :: "mem \<Rightarrow> addr \<Rightarrow> addr \<Rightarrow> nat \<Rightarrow> mem \<times> addr \<times> addr \<times> nat" where
  "memcpy_words4 mem dst src len =
    (if len \<ge> 16 then
       let mem = copy_word mem dst src;
           mem = copy_word mem (dst + 4) (src + 4);
           mem = copy_word mem (dst + 8) (src + 8);
           mem = copy_word mem (dst + 12) (src + 12)
       in memcpy_words4 mem (dst + 16) (src + 16) (len - 16)
     else (mem, dst, src, len))"

fun memcpy_words :: "mem \<Rightarrow> addr \<Rightarrow> addr \<Rightarrow> nat \<Rightarrow> mem \<times> addr \<times> addr \<times> nat" where
  "memcpy_words mem dst src len =
    (if len \<ge> 4 then memcpy_words (copy_word mem dst src) (dst + 4) (src + 4) (len - 4)
     else (mem, dst, src, len))"

declare memcpy_words4.simps [simp del] memcpy_words.simps [simp del]

fun memcpy_bytes :: "mem \<Rightarrow> addr \<Rightarrow> addr \<Rightarrow> nat \<Rightarrow> mem" where
  "memcpy_bytes mem dst src 0 = mem"
| "memcpy_bytes mem dst src (Suc len) = memcpy_bytes (mem(dst := mem src)) (dst + 1) (src + 1) len"

definition rt_memcpy :: "mem \<Rightarrow> addr \<Rightarrow> addr \<Rightarrow> nat \<Rightarrow> mem" where
  "rt_memcpy mem dst src count =
    (if \<not> count < 16 \<and> src mod 4 = 0 \<and> dst mod 4 = 0 then
       let (mem, dst, src, len) = memcpy_words4 mem dst src count;
           (mem, dst, src, len) = memcpy_words mem dst src len
       in memcpy_bytes mem dst src len
     else memcpy_bytes mem dst src count)"

text \<open>\<open>rt_memmove\<close> copies downwards when the target starts inside the source.\<close>

fun memmove_down :: "mem \<Rightarrow> addr \<Rightarrow> addr \<Rightarrow> nat \<Rightarrow> mem" where
  "memmove_down mem tmp s 0 = mem"
| "memmove_down mem tmp s (Suc n) = memmove_down (mem(tmp - 1 := mem (s - 1))) (tmp - 1) (s - 1) n"

definition rt_memmove :: "mem \<Rightarrow> addr \<Rightarrow> addr \<Rightarrow> nat \<Rightarrow> mem" where
  "rt_memmove mem dest src n =
    (if src < dest \<and> dest < src + n then memmove_down mem (dest + n) (src + n) n
     else memcpy_bytes mem dest src n)"

text \<open>The reference: the target range holds what the source range held.\<close>

definition copied :: "mem \<Rightarrow> addr \<Rightarrow> addr \<Rightarrow> nat \<Rightarrow> mem" where
  "copied mem d s n = (\<lambda>a. if d \<le> a \<and> a < d + n then mem (s + (a - d)) else mem a)"

definition fwd_ok :: "addr \<Rightarrow> addr \<Rightarrow> nat \<Rightarrow> bool" where
  "fwd_ok d s n \<longleftrightarrow> d \<le> s \<or> s + n \<le> d"

lemma copied_0 [simp]: "copied mem d s 0 = mem"
  by (rule ext) (auto simp: copied_def)

lemma copied_copied:
  assumes "fwd_ok d s (k + n)"
  shows "copied (copied mem d s k) (d + k) (s + k) n = copied mem d s (k + n)"
proof
  fix a
  from assms show "copied (copied mem d s k) (d + k) (s + k) n a = copied mem d s (k + n) a"
    by (auto simp: copied_def fwd_ok_def add.assoc)
qed

lemma copy_word_eq: "copy_word mem d s = copied mem d s 4"
proof
  fix a
  consider "a = d" | "a = d + 1" | "a = d + 2" | "a = d + 3" | "a < d \<or> d + 4 \<le> a" by linarith
  then show "copy_word mem d s a = copied mem d s 4 a"
    by cases (auto simp: copy_word_def store_word_def load_word_bytes copied_def)
qed

lemma memcpy_bytes_eq: "fwd_ok d s n \<Longrightarrow> memcpy_bytes mem d s n = copied mem d s n"
proof (induction mem d s n rule: memcpy_bytes.induct)
  case (1 mem dst src)
  show ?case by simp
next
  case (2 mem dst src len)
  have "mem(dst := mem src) = copied mem dst src 1" by (auto simp: copied_def)
  moreover have "fwd_ok (dst + 1) (src + 1) len" using 2(2) by (auto simp: fwd_ok_def)
  ultimately show ?case
    using 2 copied_copied [of dst src 1 len mem] by simp
qed

lemma memcpy_words4_eq:
  "memcpy_words4 mem d s n = (mem', d', s', n') \<Longrightarrow> fwd_ok d s n \<Longrightarrow>
   mem' = copied mem d s (n - n') \<and> d' = d + (n - n') \<and> s' = s + (n - n') \<and> n' \<le> n"
proof (induction mem d s n arbitrary: mem' d' s' n' rule: memcpy_words4.induct)
  case (1 mem dst src len)
  show ?case
  proof (cases "len \<ge> 16")
    case True
    have f: "fwd_ok dst src 8" "fwd_ok dst src 12" "fwd_ok dst src 16" "fwd_ok (dst + 16) (src + 16) (len - 16)"
      using 1(3) True by (auto simp: fwd_ok_def)
    define m4 where "m4 = copied mem dst src 16"
    have four: "copy_word (copy_word (copy_word (copy_word mem dst src) (dst + 4) (src + 4)) (dst + 8) (src + 8))
        (dst + 12) (src + 12) = m4"
      using f copied_copied [of dst src 4 4 mem] copied_copied [of dst src 8 4 mem] copied_copied [of dst src 12 4 mem]
      by (simp add: copy_word_eq m4_def)
    with 1(2) True have "memcpy_words4 m4 (dst + 16) (src + 16) (len - 16) = (mem', d', s', n')"
      by (simp add: memcpy_words4.simps [of mem] Let_def)
    with 1(1) [OF True refl refl refl refl] four f
    have "mem' = copied m4 (dst + 16) (src + 16) (len - 16 - n') \<and> d' = dst + 16 + (len - 16 - n')
      \<and> s' = src + 16 + (len - 16 - n') \<and> n' \<le> len - 16" by simp
    moreover have "fwd_ok dst src (16 + (len - 16 - n'))" using 1(3) True by (auto simp: fwd_ok_def)
    ultimately show ?thesis
      using True copied_copied [of dst src 16 "len - 16 - n'" mem] by (auto simp: m4_def)
  next
    case False
    with 1(2) show ?thesis by (auto simp: memcpy_words4.simps [of mem])
  qed
qed

lemma memcpy_words_eq:
  "memcpy_words mem d s n = (mem', d', s', n') \<Longrightarrow> fwd_ok d s n \<Longrightarrow>
   mem' = copied mem d s (n - n') \<and> d' = d + (n - n') \<and> s' = s + (n - n') \<and> n' \<le> n"
proof (induction mem d s n arbitrary: mem' d' s' n' rule: memcpy_words.induct)
  case (1 mem dst src len)
  show ?case
  proof (cases "len \<ge> 4")
    case True
    have f: "fwd_ok (dst + 4) (src + 4) (len - 4)"
      using 1(3) True by (auto simp: fwd_ok_def)
    from 1(2) True have "memcpy_words (copied mem dst src 4) (dst + 4) (src + 4) (len - 4) = (mem', d', s', n')"
      by (simp add: memcpy_words.simps [of mem] copy_word_eq)
    with 1(1) [OF True] f
    have "mem' = copied (copied mem dst src 4) (dst + 4) (src + 4) (len - 4 - n') \<and> d' = dst + 4 + (len - 4 - n')
      \<and> s' = src + 4 + (len - 4 - n') \<and> n' \<le> len - 4" by (simp add: copy_word_eq)
    moreover have "fwd_ok dst src (4 + (len - 4 - n'))" using 1(3) True by (auto simp: fwd_ok_def)
    ultimately show ?thesis
      using True copied_copied [of dst src 4 "len - 4 - n'" mem] by auto
  next
    case False
    with 1(2) show ?thesis by (auto simp: memcpy_words.simps [of mem])
  qed
qed

lemma rt_memcpy_copied:
  assumes "fwd_ok d s n"
  shows "rt_memcpy mem d s n = copied mem d s n"
proof -
  obtain m1 d1 s1 n1 where w4: "memcpy_words4 mem d s n = (m1, d1, s1, n1)"
    by (cases "memcpy_words4 mem d s n") auto
  obtain m2 d2 s2 n2 where w1: "memcpy_words m1 d1 s1 n1 = (m2, d2, s2, n2)"
    by (cases "memcpy_words m1 d1 s1 n1") auto
  note a = memcpy_words4_eq [OF w4 assms]
  have f1: "fwd_ok d1 s1 n1" using a assms by (auto simp: fwd_ok_def)
  note b = memcpy_words_eq [OF w1 f1]
  have f2: "fwd_ok d2 s2 n2" using b f1 by (auto simp: fwd_ok_def)
  have "copied m2 d2 s2 n2 = copied m1 d1 s1 n1"
    using b f1 copied_copied [of d1 s1 "n1 - n2" n2 m1] by simp
  also have "\<dots> = copied mem d s n"
    using a assms copied_copied [of d s "n - n1" n1 mem] by simp
  finally have "memcpy_bytes m2 d2 s2 n2 = copied mem d s n" using memcpy_bytes_eq [OF f2] by simp
  then show ?thesis
    using memcpy_bytes_eq [OF assms] by (simp add: rt_memcpy_def w4 w1)
qed

lemma memmove_down_eq: "s < d \<Longrightarrow> memmove_down mem (d + n) (s + n) n = copied mem d s n"
proof (induction n arbitrary: mem)
  case 0
  show ?case by simp
next
  case (Suc n)
  let ?m = "mem(d + n := mem (s + n))"
  have "memmove_down mem (d + Suc n) (s + Suc n) (Suc n) = copied ?m d s n"
    using Suc by simp
  also have "\<dots> = copied mem d s (Suc n)"
  proof
    fix a
    show "copied ?m d s n a = copied mem d s (Suc n) a"
      using Suc.prems by (auto simp: copied_def less_Suc_eq)
  qed
  finally show ?case .
qed

lemma rt_memmove_copied: "rt_memmove mem d s n = copied mem d s n"
proof (cases "s < d \<and> d < s + n")
  case True
  then show ?thesis by (simp add: rt_memmove_def memmove_down_eq)
next
  case False
  then have f: "fwd_ok d s n" by (auto simp: fwd_ok_def)
  show ?thesis by (simp only: rt_memmove_def False if_False memcpy_bytes_eq [OF f])
qed

section \<open>Properties\<close>

text \<open>\<open>rt_memset\<close> with its unrolled word stores sets exactly the bytes of the
  area to the low byte of \<open>c\<close>, for every alignment and length, and no byte outside it.\<close>

theorem rt_memset_fill: "rt_memset mem s c count = fill mem s count (ucast c)"
  by (rule rt_memset_eq)

text \<open>\<open>rt_memmove\<close> copies correctly for every overlap of source and target: the target
  holds what the source held before the call, no other byte changes.\<close>

theorem rt_memmove_correct: "rt_memmove mem d s n = copied mem d s n"
  by (rule rt_memmove_copied)

text \<open>\<open>rt_memcpy\<close>, with its 16-byte and 4-byte loops, copies like \<open>rt_memmove\<close>
  whenever the target does not start inside the source.\<close>

theorem rt_memcpy_correct:
  assumes "d \<le> s \<or> s + n \<le> d"
  shows "rt_memcpy mem d s n = rt_memmove mem d s n"
proof -
  have "fwd_ok d s n" using assms by (auto simp: fwd_ok_def)
  then show ?thesis by (simp add: rt_memcpy_copied rt_memmove_copied)
qed

lemma rt_memcpy_correct_witness:
  "rt_memcpy (\<lambda>a. of_nat a) 3 8 21 = rt_memmove (\<lambda>a. of_nat a) 3 8 21"
  using rt_memcpy_correct [of 3 8 21 "\<lambda>a. of_nat a"] by simp

end
