(* ===== verification/KString.thy ===== *)
theory KString
  imports KService
begin

text \<open>
  The string routines of \<open>rt-thread/src/kservice.c\<close> over the byte memory of
  \<open>KService\<close>. Plain \<open>char\<close> is unsigned on the ARM target. A routine that scans
  for the terminator is a \<open>partial_function (option)\<close>: \<open>None\<close> is a scan that
  never meets one. The results are characterised by the bytes up to the terminator.
\<close>

section \<open>Comparing memory\<close>

fun rt_memcmp :: "mem \<Rightarrow> addr \<Rightarrow> addr \<Rightarrow> nat \<Rightarrow> int" where
  "rt_memcmp mem su1 su2 0 = 0"
| "rt_memcmp mem su1 su2 (Suc count) =
    (let res = uint (mem su1) - uint (mem su2) in
     if res \<noteq> 0 then res else rt_memcmp mem (su1 + 1) (su2 + 1) count)"

lemma all_less_Suc_shift: "(\<forall>i<Suc n. P i) \<longleftrightarrow> P 0 \<and> (\<forall>i<n. P (Suc i))"
  by (auto simp: less_Suc_eq_0_disj)

lemma rt_memcmp_eq_0: "rt_memcmp mem p q n = 0 \<longleftrightarrow> (\<forall>i<n. mem (p + i) = mem (q + i))"
proof (induction n arbitrary: p q)
  case (Suc n)
  show ?case
    using Suc [of "p + 1" "q + 1"]
    by (simp add: Let_def all_less_Suc_shift [of n "\<lambda>i. mem (p + i) = mem (q + i)"]
        word_uint_eq_iff [symmetric])
qed simp

section \<open>Length\<close>

partial_function (option) strlen_scan :: "mem \<Rightarrow> addr \<Rightarrow> addr option" where
  "strlen_scan mem sc = (if mem sc \<noteq> 0 then strlen_scan mem (sc + 1) else Some sc)"

definition rt_strlen :: "mem \<Rightarrow> addr \<Rightarrow> nat option" where
  "rt_strlen mem s = do { sc \<leftarrow> strlen_scan mem s; Some (sc - s) }"

function strnlen_scan :: "mem \<Rightarrow> addr \<Rightarrow> addr \<Rightarrow> nat \<Rightarrow> addr" where
  "strnlen_scan mem s sc maxlen =
    (if mem sc \<noteq> 0 \<and> sc - s < maxlen then strnlen_scan mem s (sc + 1) maxlen else sc)"
  by auto
termination by (relation "measure (\<lambda>(mem, s, sc, maxlen). s + maxlen - sc)") auto

declare strnlen_scan.simps [simp del]

definition rt_strnlen :: "mem \<Rightarrow> addr \<Rightarrow> nat \<Rightarrow> nat" where
  "rt_strnlen mem s maxlen = strnlen_scan mem s s maxlen - s"

text \<open>A string of length \<open>n\<close> at \<open>s\<close>: no terminator before offset \<open>n\<close>, one there.\<close>

definition c_str :: "mem \<Rightarrow> addr \<Rightarrow> nat \<Rightarrow> bool" where
  "c_str mem s n \<longleftrightarrow> (\<forall>i<n. mem (s + i) \<noteq> 0) \<and> mem (s + n) = 0"

lemma c_str_0: "c_str mem s 0 \<longleftrightarrow> mem s = 0"
  by (simp add: c_str_def)

lemma c_str_Suc: "c_str mem s (Suc n) \<longleftrightarrow> mem s \<noteq> 0 \<and> c_str mem (Suc s) n"
  by (auto simp: c_str_def all_less_Suc_shift [of n "\<lambda>i. mem (s + i) \<noteq> 0"])

lemma c_str_unique: "c_str mem s n \<Longrightarrow> c_str mem s m \<Longrightarrow> n = m"
  by (metis c_str_def linorder_neqE_nat)

lemma strlen_scan_c_str: "c_str mem s n \<Longrightarrow> strlen_scan mem s = Some (s + n)"
proof (induction n arbitrary: s)
  case 0
  then show ?case by (simp add: c_str_0 strlen_scan.simps)
next
  case (Suc n)
  then show ?case by (simp add: c_str_Suc strlen_scan.simps [of mem s])
qed

lemma strlen_scan_sound:
  assumes "strlen_scan mem s = Some e"
  shows "\<exists>n. e = s + n \<and> c_str mem s n"
proof (rule strlen_scan.raw_induct [where P = "\<lambda>mem s e. \<exists>n. e = s + n \<and> c_str mem s n", OF _ assms])
  fix scan :: "mem \<Rightarrow> addr \<Rightarrow> addr option" and mem s e
  assume IH: "\<And>mem s e. scan mem s = Some e \<Longrightarrow> \<exists>n. e = s + n \<and> c_str mem s n"
    and eq: "(if mem s \<noteq> 0 then scan mem (s + 1) else Some s) = Some e"
  show "\<exists>n. e = s + n \<and> c_str mem s n"
  proof (cases "mem s = 0")
    case True
    with eq show ?thesis by (intro exI [of _ 0]) (simp add: c_str_0)
  next
    case False
    with eq IH [of mem "s + 1" e] obtain n where "e = s + 1 + n" "c_str mem (s + 1) n" by auto
    with False show ?thesis by (intro exI [of _ "Suc n"]) (simp add: c_str_Suc)
  qed
qed

lemma rt_strlen_Some: "rt_strlen mem s = Some n \<longleftrightarrow> c_str mem s n"
proof
  assume "rt_strlen mem s = Some n"
  then obtain e where "strlen_scan mem s = Some e" "n = e - s"
    by (auto simp: rt_strlen_def elim: bind_SomeE)
  with strlen_scan_sound [of mem s e] show "c_str mem s n" by auto
next
  assume "c_str mem s n"
  then show "rt_strlen mem s = Some n" by (simp add: rt_strlen_def strlen_scan_c_str)
qed

lemma strnlen_scan_stop:
  assumes "s \<le> sc" and "sc - s \<le> maxlen" and "\<forall>i < sc - s. mem (s + i) \<noteq> 0"
  shows "let e = strnlen_scan mem s sc maxlen in
    s \<le> e \<and> e - s \<le> maxlen \<and> (\<forall>i<e - s. mem (s + i) \<noteq> 0) \<and> (mem e = 0 \<or> e - s = maxlen)"
  using assms
proof (induction mem s sc maxlen rule: strnlen_scan.induct)
  case (1 mem s sc maxlen)
  show ?case
  proof (cases "mem sc \<noteq> 0 \<and> sc - s < maxlen")
    case True
    have "\<forall>i < sc + 1 - s. mem (s + i) \<noteq> 0"
    proof (intro allI impI)
      fix i assume "i < sc + 1 - s"
      then consider "i < sc - s" | "s + i = sc" using 1(2) by linarith
      then show "mem (s + i) \<noteq> 0" using 1(4) True by cases auto
    qed
    then show ?thesis
      using 1(1) [OF True] 1(2) True by (simp add: strnlen_scan.simps [of mem s sc] Suc_diff_le)
  next
    case False
    with 1 show ?thesis by (auto simp: strnlen_scan.simps [of mem s sc])
  qed
qed

lemma rt_strnlen_bounded:
  "rt_strnlen mem s m \<le> m" "i < rt_strnlen mem s m \<Longrightarrow> mem (s + i) \<noteq> 0"
  "rt_strnlen mem s m < m \<Longrightarrow> mem (s + rt_strnlen mem s m) = 0"
  using strnlen_scan_stop [of s s m mem] by (auto simp: rt_strnlen_def Let_def)

section \<open>Copying\<close>

fun strncpy_pad :: "mem \<Rightarrow> addr \<Rightarrow> nat \<Rightarrow> mem" where
  "strncpy_pad mem d 0 = mem"
| "strncpy_pad mem d (Suc n) = strncpy_pad (mem(d := 0)) (d + 1) n"

fun strncpy_loop :: "mem \<Rightarrow> addr \<Rightarrow> addr \<Rightarrow> nat \<Rightarrow> mem" where
  "strncpy_loop mem d s 0 = mem"
| "strncpy_loop mem d s (Suc n) =
    (let c = mem s; mem1 = mem(d := c) in
     if c = 0 then strncpy_pad mem1 (d + 1) n else strncpy_loop mem1 (d + 1) (s + 1) n)"

definition rt_strncpy :: "mem \<Rightarrow> addr \<Rightarrow> addr \<Rightarrow> nat \<Rightarrow> mem" where
  "rt_strncpy mem dst src n = (if n \<noteq> 0 then strncpy_loop mem dst src n else mem)"

partial_function (option) rt_strcpy_loop :: "mem \<Rightarrow> addr \<Rightarrow> addr \<Rightarrow> mem option" where
  "rt_strcpy_loop mem dst src =
    (if mem src \<noteq> 0 then rt_strcpy_loop (mem(dst := mem src)) (dst + 1) (src + 1)
     else Some (mem(dst := 0)))"

text \<open>What \<open>rt_strncpy\<close> leaves at offset \<open>i\<close>: the source up to its terminator, then zeros.\<close>

fun padded :: "mem \<Rightarrow> addr \<Rightarrow> nat \<Rightarrow> u8" where
  "padded mem s 0 = mem s"
| "padded mem s (Suc i) = (if mem s = 0 then 0 else padded mem (s + 1) i)"

lemma padded_cong: "(\<And>i. i \<le> n \<Longrightarrow> m1 (s + i) = m2 (s + i)) \<Longrightarrow> padded m1 s n = padded m2 s n"
proof (induction n arbitrary: s)
  case 0
  from 0 [of 0] show ?case by simp
next
  case (Suc n)
  have "m1 s = m2 s" using Suc.prems [of 0] by simp
  moreover have "padded m1 (Suc s) n = padded m2 (Suc s) n"
    by (rule Suc.IH) (use Suc.prems [of "Suc _"] in simp)
  ultimately show ?case by simp
qed

lemma strncpy_pad_eq:
  "strncpy_pad mem d n = (\<lambda>a. if d \<le> a \<and> a < d + n then 0 else mem a)"
proof (induction n arbitrary: mem d)
  case (Suc n)
  show ?case
    unfolding strncpy_pad.simps Suc by (rule ext) auto
qed (auto simp: fun_eq_iff)

lemma padded_zero: "mem s = 0 \<Longrightarrow> padded mem s n = 0"
  by (cases n) auto

lemma strncpy_loop_eq:
  "d + n \<le> s \<or> s + n \<le> d \<Longrightarrow>
   strncpy_loop mem d s n = (\<lambda>a. if d \<le> a \<and> a < d + n then padded mem s (a - d) else mem a)"
proof (induction n arbitrary: mem d s)
  case 0
  have "(\<lambda>a. if d \<le> a \<and> a < d + 0 then padded mem s (a - d) else mem a) = mem" by (rule ext) auto
  then show ?case by simp
next
  case (Suc n)
  show ?case
  proof (cases "mem s = 0")
    case True
    then have "strncpy_loop mem d s (Suc n) = strncpy_pad (mem(d := 0)) (d + 1) n" by simp
    also have "\<dots> = (\<lambda>a. if d \<le> a \<and> a < d + Suc n then 0 else mem a)"
      by (rule ext) (auto simp: strncpy_pad_eq)
    also have "\<dots> = (\<lambda>a. if d \<le> a \<and> a < d + Suc n then padded mem s (a - d) else mem a)"
      using True by (simp only: padded_zero)
    finally show ?thesis .
  next
    case False
    let ?m = "mem(d := mem s)"
    have IH: "strncpy_loop ?m (d + 1) (s + 1) n =
        (\<lambda>a. if d + 1 \<le> a \<and> a < d + 1 + n then padded ?m (s + 1) (a - (d + 1)) else ?m a)"
      by (rule Suc.IH [of "d + 1" "s + 1" ?m]) (use Suc.prems in linarith)
    have pad: "padded ?m (s + 1) (a - (d + 1)) = padded mem s (a - d)" if "d < a" "a < d + Suc n" for a
    proof -
      obtain i where i: "a = d + Suc i" using \<open>d < a\<close> less_imp_Suc_add [of d a] by auto
      have "padded ?m (s + 1) i = padded mem (s + 1) i"
        by (rule padded_cong) (use that i Suc.prems in auto)
      with i False show ?thesis by simp
    qed
    have "strncpy_loop mem d s (Suc n) a
        = (if d \<le> a \<and> a < d + Suc n then padded mem s (a - d) else mem a)" for a
    proof (cases "d < a \<and> a < d + Suc n")
      case True
      with pad [of a] False IH show ?thesis by (simp add: Let_def)
    next
      case F: False
      with False IH show ?thesis by (cases "a = d") (auto simp: Let_def)
    qed
    then show ?thesis by (rule ext)
  qed
qed

lemma rt_strncpy_eq:
  "d + n \<le> s \<or> s + n \<le> d \<Longrightarrow>
   rt_strncpy mem d s n = (\<lambda>a. if d \<le> a \<and> a < d + n then padded mem s (a - d) else mem a)"
  using strncpy_loop_eq [of d n s mem] by (cases "n = 0") (simp_all add: rt_strncpy_def)

section \<open>Comparing strings\<close>

fun rt_strncmp :: "mem \<Rightarrow> addr \<Rightarrow> addr \<Rightarrow> nat \<Rightarrow> int" where
  "rt_strncmp mem cs ct 0 = 0"
| "rt_strncmp mem cs ct (Suc count) =
    (let res = mem cs - mem ct in
     if res \<noteq> 0 \<or> mem cs = 0 then sint res else rt_strncmp mem (cs + 1) (ct + 1) count)"

partial_function (option) rt_strcmp :: "mem \<Rightarrow> addr \<Rightarrow> addr \<Rightarrow> int option" where
  "rt_strcmp mem cs ct =
    (if mem cs \<noteq> 0 \<and> mem cs = mem ct then rt_strcmp mem (cs + 1) (ct + 1)
     else Some (uint (mem cs) - uint (mem ct)))"

definition tolower :: "u8 \<Rightarrow> int" where
  "tolower c = (let ca = uint c in if ca \<ge> 65 \<and> ca \<le> 90 then ca + 32 else ca)"

partial_function (option) rt_strcasecmp :: "mem \<Rightarrow> addr \<Rightarrow> addr \<Rightarrow> int option" where
  "rt_strcasecmp mem a b =
    (let ca = tolower (mem a); cb = tolower (mem b) in
     if ca = cb \<and> ca \<noteq> 0 then rt_strcasecmp mem (a + 1) (b + 1) else Some (ca - cb))"

lemma rt_strncmp_self_padded:
  assumes "\<And>i. i < n \<Longrightarrow> mem (d + i) = padded mem s i"
  shows "rt_strncmp mem d s n = 0"
  using assms
proof (induction n arbitrary: d s)
  case (Suc n)
  have eq: "mem d = mem s" using Suc.prems [of 0] by simp
  show ?case
  proof (cases "mem s = 0")
    case False
    have "mem (d + 1 + i) = padded mem (s + 1) i" if "i < n" for i
      using Suc.prems [of "Suc i"] that False by simp
    from Suc.IH [OF this] eq False show ?thesis by simp
  qed (simp add: eq)
qed simp

lemma sint_eq_0_u8: "sint (w :: u8) = 0 \<longleftrightarrow> w = 0"
  by (metis signed_0 signed_word_eqI)

lemma rt_strncmp_eq_0:
  "rt_strncmp mem p q n = 0 \<longleftrightarrow>
   (\<forall>i<n. (\<forall>j<i. mem (p + j) \<noteq> 0) \<longrightarrow> mem (p + i) = mem (q + i))"
proof (induction n arbitrary: p q)
  case (Suc n)
  have shift: "(\<forall>i<Suc n. (\<forall>j<i. mem (p + j) \<noteq> 0) \<longrightarrow> mem (p + i) = mem (q + i)) \<longleftrightarrow>
    mem p = mem q \<and> (mem p \<noteq> 0 \<longrightarrow>
      (\<forall>i<n. (\<forall>j<i. mem (p + 1 + j) \<noteq> 0) \<longrightarrow> mem (p + 1 + i) = mem (q + 1 + i)))"
    unfolding all_less_Suc_shift
    by (auto simp: all_less_Suc_shift [where P = "\<lambda>j. mem (p + j) \<noteq> 0"])
  show ?case
    unfolding shift using Suc [of "p + 1" "q + 1"]
    by (auto simp: Let_def sint_eq_0_u8)
qed simp

section \<open>Searching\<close>

fun strstr_loop :: "mem \<Rightarrow> addr \<Rightarrow> addr \<Rightarrow> nat \<Rightarrow> nat \<Rightarrow> addr option" where
  "strstr_loop mem s1 s2 l2 l1 =
    (if l1 \<ge> l2 \<and> l2 \<noteq> 0 then
       (if rt_memcmp mem s1 s2 l2 = 0 then Some s1
        else strstr_loop mem (s1 + 1) s2 l2 (l1 - 1))
     else None)"

declare strstr_loop.simps [simp del]

definition rt_strstr :: "mem \<Rightarrow> addr \<Rightarrow> addr \<Rightarrow> addr option option" where
  "rt_strstr mem s1 s2 = do {
    l2 \<leftarrow> rt_strlen mem s2;
    if l2 = 0 then Some (Some s1)
    else do { l1 \<leftarrow> rt_strlen mem s1; Some (strstr_loop mem s1 s2 l2 l1) } }"

text \<open>\<open>s2\<close>'s characters occur at \<open>s1 + k\<close>, inside the string of length \<open>l1\<close>.\<close>

definition occurs_at :: "mem \<Rightarrow> addr \<Rightarrow> nat \<Rightarrow> addr \<Rightarrow> nat \<Rightarrow> nat \<Rightarrow> bool" where
  "occurs_at mem s1 l1 s2 l2 k \<longleftrightarrow> k + l2 \<le> l1 \<and> (\<forall>i<l2. mem (s1 + k + i) = mem (s2 + i))"

lemma occurs_at_Suc:
  "occurs_at mem s1 l1 s2 l2 (Suc k) \<longleftrightarrow> 0 < l1 \<and> occurs_at mem (s1 + 1) (l1 - 1) s2 l2 k"
  by (auto simp: occurs_at_def)

lemma strstr_loop_spec:
  assumes "0 < l2"
  shows "case strstr_loop mem s1 s2 l2 l1 of
      None \<Rightarrow> (\<forall>k. \<not> occurs_at mem s1 l1 s2 l2 k)
    | Some p \<Rightarrow> \<exists>k. p = s1 + k \<and> occurs_at mem s1 l1 s2 l2 k \<and> (\<forall>j<k. \<not> occurs_at mem s1 l1 s2 l2 j)"
  using assms
proof (induction mem s1 s2 l2 l1 rule: strstr_loop.induct)
  case (1 mem s1 s2 l2 l1)
  note simp1 = strstr_loop.simps [of mem s1 s2 l2 l1]
  consider (short) "l1 < l2" | (here) "l2 \<le> l1" "rt_memcmp mem s1 s2 l2 = 0"
    | (later) "l2 \<le> l1" "rt_memcmp mem s1 s2 l2 \<noteq> 0" by linarith
  then show ?case
  proof cases
    case short
    then show ?thesis by (simp add: simp1 occurs_at_def)
  next
    case here
    then show ?thesis using 1(2) by (auto simp: simp1 occurs_at_def rt_memcmp_eq_0 intro!: exI [of _ 0])
  next
    case later
    then have no: "\<not> occurs_at mem s1 l1 s2 l2 0"
      by (auto simp: occurs_at_def rt_memcmp_eq_0)
    have pos: "0 < l1" using later 1(2) by simp
    have IH: "case strstr_loop mem (s1 + 1) s2 l2 (l1 - 1) of
        None \<Rightarrow> (\<forall>k. \<not> occurs_at mem (s1 + 1) (l1 - 1) s2 l2 k)
      | Some p \<Rightarrow> \<exists>k. p = s1 + 1 + k \<and> occurs_at mem (s1 + 1) (l1 - 1) s2 l2 k \<and>
          (\<forall>j<k. \<not> occurs_at mem (s1 + 1) (l1 - 1) s2 l2 j)"
      using 1 later by auto
    have eq: "strstr_loop mem s1 s2 l2 l1 = strstr_loop mem (s1 + 1) s2 l2 (l1 - 1)"
      using later 1(2) by (simp add: simp1)
    show ?thesis
    proof (cases "strstr_loop mem (s1 + 1) s2 l2 (l1 - 1)")
      case None
      have "\<not> occurs_at mem s1 l1 s2 l2 k" for k
        using no IH None by (cases k) (auto simp: occurs_at_Suc)
      with None eq show ?thesis by simp
    next
      case (Some p)
      with IH obtain k where k: "p = s1 + 1 + k" "occurs_at mem (s1 + 1) (l1 - 1) s2 l2 k"
        "\<forall>j<k. \<not> occurs_at mem (s1 + 1) (l1 - 1) s2 l2 j" by auto
      have "\<forall>j<Suc k. \<not> occurs_at mem s1 l1 s2 l2 j"
        using k no by (simp add: all_less_Suc_shift [of k "\<lambda>j. \<not> occurs_at mem s1 l1 s2 l2 j"] occurs_at_Suc)
      with Some k pos eq show ?thesis by (auto simp: occurs_at_Suc intro!: exI [of _ "Suc k"])
    qed
  qed
qed

section \<open>Properties\<close>

text \<open>\<open>rt_strlen\<close> returns exactly when the string has a terminator, and then the
  offset of the first one.\<close>

theorem rt_strlen_correct:
  "rt_strlen mem s = Some n \<longleftrightarrow> mem (s + n) = 0 \<and> (LEAST k. mem (s + k) = 0) = n"
proof -
  have "c_str mem s n \<longleftrightarrow> mem (s + n) = 0 \<and> (LEAST k. mem (s + k) = 0) = n"
    unfolding c_str_def
    by (metis (mono_tags, lifting) LeastI Least_le leD not_less_Least linorder_neqE_nat)
  then show ?thesis by (simp add: rt_strlen_Some)
qed

text \<open>A bounded copy compares equal to its source: after \<open>rt_strncpy\<close> into an area that
  does not overlap the source, \<open>rt_strncmp\<close> of the two with the same bound returns 0.\<close>

theorem rt_strncpy_strncmp:
  assumes "d + n \<le> s \<or> s + n \<le> d"
  shows "rt_strncmp (rt_strncpy mem d s n) d s n = 0"
proof (rule rt_strncmp_self_padded)
  fix i assume i: "i < n"
  have "padded (rt_strncpy mem d s n) s i = padded mem s i"
    by (rule padded_cong) (use assms i in \<open>auto simp: rt_strncpy_eq [OF assms]\<close>)
  then show "rt_strncpy mem d s n (d + i) = padded (rt_strncpy mem d s n) s i"
    using i by (simp add: rt_strncpy_eq [OF assms])
qed

lemma rt_strncpy_strncmp_witness:
  "rt_strncmp (rt_strncpy (\<lambda>a. if a = 12 then 0 else of_nat a) 0 8 8) 0 8 8 = 0"
  using rt_strncpy_strncmp [of 0 8 8 "\<lambda>a. if a = 12 then 0 else of_nat a"] by simp

text \<open>\<open>rt_strstr\<close> returns the first place where the characters of \<open>s2\<close> occur in the
  string at \<open>s1\<close>, and null exactly when they occur nowhere.\<close>

theorem rt_strstr_first:
  assumes "rt_strlen mem s1 = Some l1" and "rt_strlen mem s2 = Some l2"
  shows "\<exists>r. rt_strstr mem s1 s2 = Some r \<and> (case r of
      None \<Rightarrow> \<forall>k. \<not> occurs_at mem s1 l1 s2 l2 k
    | Some p \<Rightarrow> \<exists>k. p = s1 + k \<and> occurs_at mem s1 l1 s2 l2 k \<and> (\<forall>j<k. \<not> occurs_at mem s1 l1 s2 l2 j))"
proof (cases "l2 = 0")
  case True
  with assms show ?thesis by (simp add: rt_strstr_def occurs_at_def)
next
  case False
  with assms strstr_loop_spec [of l2 mem s1 l1 s2] show ?thesis by (simp add: rt_strstr_def)
qed

definition hello :: mem where
  "hello = (\<lambda>a. if a < 4 then [97, 98, 97, 98] ! a else if a = 10 then 98 else if a = 11 then 97 else 0)"

lemma hello_strlen: "rt_strlen hello 0 = Some 4" "rt_strlen hello 10 = Some 2"
  by (simp_all add: rt_strlen_def strlen_scan.simps hello_def)

lemma rt_strstr_first_witness: "\<exists>r. rt_strstr hello 0 10 = Some r"
  using rt_strstr_first [OF hello_strlen] by blast

text \<open>\<open>rt_strnlen\<close> is the length of the string, cut at \<open>maxlen\<close>.\<close>

theorem rt_strnlen_min:
  assumes "rt_strlen mem s = Some n"
  shows "rt_strnlen mem s m = min n m"
proof -
  have c: "c_str mem s n" using assms by (simp add: rt_strlen_Some)
  have "rt_strnlen mem s m \<le> n"
    using c rt_strnlen_bounded(2) [of n mem s m] by (auto simp: c_str_def not_less [symmetric])
  moreover have "n \<le> rt_strnlen mem s m" if "rt_strnlen mem s m < m"
    using c rt_strnlen_bounded(3) [OF that] by (auto simp: c_str_def not_less [symmetric])
  ultimately show ?thesis using rt_strnlen_bounded(1) [of mem s m] by linarith
qed

lemma rt_strnlen_min_witness: "rt_strnlen hello 0 3 = min 4 3"
  by (rule rt_strnlen_min [OF hello_strlen(1)])

end
