(* ===== verification/KPrintf.thy ===== *)
theory KPrintf
  imports KService
begin

text \<open>
  Formatted output, \<open>print_number\<close> and \<open>rt_vsnprintf\<close> of \<open>rt-thread/src/kservice.c\<close>. The
  format is a list of characters whose end is the terminator; it does not overlap the buffer. Each place
  where the code writes a character has the same three lines, which test the end of the buffer and count the
  character anyway; they are the parameter \<open>put\<close> of the definitions, so that the same definitions
  give the text without a buffer. The write pointer is a machine word, which wraps to 0 behind the last address.
  The \<open>int\<close> variables are integers; where one of them leaves the range of an \<open>int\<close> there is no
  result (\<open>None\<close>).
\<close>

section \<open>Arguments and flags\<close>

text \<open>An argument of a variadic call: a machine word, or a pointer to a string or to nothing.\<close>

datatype va_item = Va_word u32 | Va_str "string option"

fun va_word :: "va_item list \<Rightarrow> (u32 \<times> va_item list) option" where
  "va_word (Va_word w # args) = Some (w, args)"
| "va_word _ = None"

fun va_str :: "va_item list \<Rightarrow> (string option \<times> va_item list) option" where
  "va_str (Va_str s # args) = Some (s, args)"
| "va_str _ = None"

abbreviation (input) ZEROPAD :: u8 where "ZEROPAD \<equiv> 1"
abbreviation (input) SIGN :: u8 where "SIGN \<equiv> 2"
abbreviation (input) PLUS :: u8 where "PLUS \<equiv> 4"
abbreviation (input) SPACE :: u8 where "SPACE \<equiv> 8"
abbreviation (input) LEFT :: u8 where "LEFT \<equiv> 16"
abbreviation (input) SPECIAL :: u8 where "SPECIAL \<equiv> 32"
abbreviation (input) LARGE :: u8 where "LARGE \<equiv> 64"

definition has :: "u8 \<Rightarrow> u8 \<Rightarrow> bool" where "has type f \<longleftrightarrow> type AND f \<noteq> 0"

definition is_digit :: "char \<Rightarrow> bool" where
  "is_digit c \<longleftrightarrow> (of_char c :: u32) - 48 < 10"

text \<open>A number above the largest \<open>int\<close> has no result.\<close>

fun skip_atoi :: "int \<Rightarrow> string \<Rightarrow> (int \<times> string) option" where
  "skip_atoi i [] = Some (i, [])"
| "skip_atoi i (c # s) =
    (if is_digit c then
       if i * 10 + of_char c \<le> 0x7fffffff then skip_atoi (i * 10 + of_char c - 48) s else None
     else Some (i, c # s))"

section \<open>Writing\<close>

type_synonym out = "mem \<times> addr"

text \<open>The lines \<open>if (str < end) *str = c; ++str;\<close>. Behind the last address the pointer is 0.\<close>

definition put_char :: "addr \<Rightarrow> char \<Rightarrow> out \<Rightarrow> out" where
  "put_char end c o1 = (case o1 of (m, str) \<Rightarrow> (if str < end then m(str := of_char c) else m, (str + 1) mod 2 ^ 32))"

text \<open>The loops \<open>while (size-- > 0)\<close>, \<open>while (--field_width > 0)\<close>, \<open>while (len < field_width--)\<close>,
  with the value of the counter after them.\<close>

function put_while :: "(char \<Rightarrow> 'o \<Rightarrow> 'o) \<Rightarrow> char \<Rightarrow> int \<Rightarrow> 'o \<Rightarrow> 'o \<times> int" where
  "put_while put c sz o1 = (if sz > 0 then put_while put c (sz - 1) (put c o1) else (o1, sz - 1))"
  by auto
termination by (relation "measure (\<lambda>(put, c, sz, o1). nat sz)") auto

function put_width :: "(char \<Rightarrow> 'o \<Rightarrow> 'o) \<Rightarrow> int \<Rightarrow> 'o \<Rightarrow> 'o \<times> int" where
  "put_width put w o1 = (if w - 1 > 0 then put_width put (w - 1) (put CHR '' '' o1) else (o1, w - 1))"
  by auto
termination by (relation "measure (\<lambda>(put, w, o1). nat w)") auto

function put_beyond :: "(char \<Rightarrow> 'o \<Rightarrow> 'o) \<Rightarrow> int \<Rightarrow> int \<Rightarrow> 'o \<Rightarrow> 'o \<times> int" where
  "put_beyond put len w o1 = (if len < w then put_beyond put len (w - 1) (put CHR '' '' o1) else (o1, w - 1))"
  by auto
termination by (relation "measure (\<lambda>(put, len, w, o1). nat (w - len))") auto

declare put_while.simps [simp del] put_width.simps [simp del] put_beyond.simps [simp del]

section \<open>Numbers\<close>

definition small_digits :: string where "small_digits = ''0123456789abcdef''"
definition large_digits :: string where "large_digits = ''0123456789ABCDEF''"

text \<open>The digits in \<open>tmp\<close>, the lowest first.\<close>

function number_digits :: "string \<Rightarrow> u32 \<Rightarrow> u32 \<Rightarrow> string" where
  "number_digits digits num base =
    (if num = 0 \<or> base < 2 then [] else digits ! unat (num mod base) # number_digits digits (num div base) base)"
  by auto
termination
proof (relation "measure (\<lambda>(digits, num, base). unat num)")
  fix digits :: string and num base :: u32
  assume "\<not> (num = 0 \<or> base < 2)"
  then have "0 < unat num" "1 < unat base" by (auto simp: unat_gt_0 word_less_nat_alt)
  then show "((digits, num div base, base), digits, num, base) \<in> measure (\<lambda>(digits, num, base). unat num)"
    by (simp add: unat_div)
qed simp

declare number_digits.simps [simp del]

text \<open>The sign and the number without it.\<close>

definition number_sign :: "u32 \<Rightarrow> char \<Rightarrow> u8 \<Rightarrow> string \<times> u32" where
  "number_sign num qualifier type =
    (if has type SIGN then
       let (neg, num) =
         (if qualifier = CHR ''h'' then
            if sint (ucast num :: u16) < 0 then (True, ucast (ucast (- num) :: u16)) else (False, num)
          else if sint num < 0 then (True, - num) else (False, num))
       in (if neg then ''-'' else if has type PLUS then ''+'' else if has type SPACE then '' '' else '''', num)
     else ('''', num))"

text \<open>The variable \<open>size\<close> (here \<open>sz\<close>) only decreases, so it leaves the range of an \<open>int\<close> somewhere exactly when its last value is
  below the range.\<close>

definition print_number :: "(char \<Rightarrow> 'o \<Rightarrow> 'o) \<Rightarrow> u32 \<Rightarrow> u32 \<Rightarrow> char \<Rightarrow> int \<Rightarrow> int \<Rightarrow> u8 \<Rightarrow> 'o \<Rightarrow> 'o option" where
  "print_number put num base qualifier s precision type buf = (
    let sz = s; precision_bak = precision;
      digits = (if has type LARGE then large_digits else small_digits);
      type = (if has type LEFT then type AND NOT ZEROPAD else type);
      c = (if has type ZEROPAD then CHR ''0'' else CHR '' '');
      (sign, num) = number_sign num qualifier type;
      sz = (if has type SPECIAL then if base = 2 \<or> base = 16 then sz - 2 else if base = 8 then sz - 1 else sz else sz);
      tmp = (if num = 0 then ''0'' else number_digits digits num base);
      i = int (length tmp);
      precision = (if i > precision then i else precision);
      sz = sz - precision;
      (buf, sz) = (if \<not> has type (ZEROPAD OR LEFT) then
          put_while put CHR '' '' (if sign \<noteq> '''' \<and> sz > 0 then sz - 1 else sz) buf
        else (buf, sz));
      (buf, sz) = (if sign \<noteq> '''' then (put (hd sign) buf, sz - 1) else (buf, sz));
      buf = (if has type SPECIAL then
          if base = 2 then put CHR ''b'' (put CHR ''0'' buf)
          else if base = 8 then put CHR ''0'' buf
          else if base = 16 then put (if has type LARGE then CHR ''X'' else CHR ''x'') (put CHR ''0'' buf)
          else buf
        else buf);
      (buf, sz) = (if \<not> has type LEFT then put_while put c sz buf else (buf, sz));
      (buf, _) = put_while put CHR ''0'' (precision - i) buf;
      buf = (if precision_bak \<noteq> 0 then fold put (rev tmp) buf else buf);
      (buf, sz) = put_while put CHR '' '' sz buf
    in if - 0x80000000 \<le> sz then Some buf else None)"

section \<open>Directives\<close>

fun read_flags :: "u8 \<Rightarrow> string \<Rightarrow> u8 \<times> string" where
  "read_flags flags [] = (flags, [])"
| "read_flags flags (c # fmt) =
    (if c = CHR ''-'' then read_flags (flags OR LEFT) fmt
     else if c = CHR ''+'' then read_flags (flags OR PLUS) fmt
     else if c = CHR '' '' then read_flags (flags OR SPACE) fmt
     else if c = CHR ''#'' then read_flags (flags OR SPECIAL) fmt
     else if c = CHR ''0'' then read_flags (flags OR ZEROPAD) fmt
     else (flags, c # fmt))"

text \<open>Negating the smallest \<open>int\<close> has no result.\<close>

fun read_width :: "u8 \<Rightarrow> string \<Rightarrow> va_item list \<Rightarrow> (int \<times> u8 \<times> string \<times> va_item list) option" where
  "read_width flags [] args = Some (-1, flags, [], args)"
| "read_width flags (c # fmt) args =
    (if is_digit c then do { (w, fmt) \<leftarrow> skip_atoi 0 (c # fmt); Some (w, flags, fmt, args) }
     else if c = CHR ''*'' then do {
       (a, args) \<leftarrow> va_word args;
       if sint a = - 0x80000000 then None
       else if sint a < 0 then Some (- sint a, flags OR LEFT, fmt, args)
       else Some (sint a, flags, fmt, args) }
     else Some (-1, flags, c # fmt, args))"

fun read_precision :: "string \<Rightarrow> va_item list \<Rightarrow> (int \<times> string \<times> va_item list) option" where
  "read_precision [] args = Some (-1, [], args)"
| "read_precision (c # fmt) args =
    (if c = CHR ''.'' then do {
       (p, fmt, args) \<leftarrow> (case fmt of
           [] \<Rightarrow> Some (-1, [], args)
         | c # fmt' \<Rightarrow>
             if is_digit c then do { (p, fmt) \<leftarrow> skip_atoi 0 fmt; Some (p, fmt, args) }
             else if c = CHR ''*'' then do { (a, args) \<leftarrow> va_word args; Some (sint a, fmt', args) }
             else Some (-1, fmt, args));
       Some (if p < 0 then 0 else p, fmt, args) }
     else Some (-1, c # fmt, args))"

fun read_qualifier :: "string \<Rightarrow> char \<times> string" where
  "read_qualifier [] = (CHR 0x00, [])"
| "read_qualifier (c # fmt) = (if c = CHR ''h'' \<or> c = CHR ''l'' then (c, fmt) else (CHR 0x00, c # fmt))"

definition print_char :: "(char \<Rightarrow> 'o \<Rightarrow> 'o) \<Rightarrow> u8 \<Rightarrow> int \<Rightarrow> u32 \<Rightarrow> 'o \<Rightarrow> 'o" where
  "print_char put flags width a str = (
    let (str, width) = (if \<not> has flags LEFT then put_width put width str else (str, width));
      str = put (char_of (unat (ucast a :: u8))) str;
      (str, _) = put_width put width str
    in str)"

fun str_len :: "int \<Rightarrow> int \<Rightarrow> string \<Rightarrow> int" where
  "str_len len width [] = len"
| "str_len len width (c # s) = (if len \<noteq> width \<and> c \<noteq> CHR 0x00 then str_len (len + 1) width s else len)"

definition print_str :: "(char \<Rightarrow> 'o \<Rightarrow> 'o) \<Rightarrow> u8 \<Rightarrow> int \<Rightarrow> int \<Rightarrow> string option \<Rightarrow> 'o \<Rightarrow> 'o" where
  "print_str put flags width precision s str = (
    let s = (case s of None \<Rightarrow> ''(NULL)'' | Some s \<Rightarrow> s);
      len = str_len 0 width s;
      len = (if precision > 0 \<and> len > precision then precision else len);
      (str, width) = (if \<not> has flags LEFT then put_beyond put len width str else (str, width));
      str = fold put (take (nat len) s) str;
      (str, _) = put_beyond put len width str
    in str)"

text \<open>The argument of an integer conversion.\<close>

definition integer_arg :: "char \<Rightarrow> u8 \<Rightarrow> u32 \<Rightarrow> u32" where
  "integer_arg qualifier flags a =
    (if qualifier = CHR ''h'' then if has flags SIGN then scast (ucast a :: u16) else ucast (ucast a :: u16) else a)"

text \<open>The flags and the base of an integer conversion.\<close>

definition integer_format :: "char \<Rightarrow> u8 \<Rightarrow> (u8 \<times> u32) option" where
  "integer_format c flags =
    (if c = CHR ''b'' then Some (flags, 2)
     else if c = CHR ''o'' then Some (flags, 8)
     else if c = CHR ''X'' then Some (flags OR LARGE, 16)
     else if c = CHR ''x'' then Some (flags, 16)
     else if c = CHR ''d'' \<or> c = CHR ''i'' then Some (flags OR SIGN, 10)
     else if c = CHR ''u'' then Some (flags, 10)
     else None)"

fun convert :: "(char \<Rightarrow> 'o \<Rightarrow> 'o) \<Rightarrow> u8 \<Rightarrow> int \<Rightarrow> int \<Rightarrow> char \<Rightarrow> string \<Rightarrow> va_item list \<Rightarrow> 'o \<Rightarrow> ('o \<times> string \<times> va_item list) option" where
  "convert put flags width precision qualifier [] args str = Some (put CHR ''%'' str, [], args)"
| "convert put flags width precision qualifier (c # fmt) args str =
    (if c = CHR ''c'' then do {
       (a, args) \<leftarrow> va_word args;
       Some (print_char put flags width a str, fmt, args) }
     else if c = CHR ''s'' then do {
       (s, args) \<leftarrow> va_str args;
       Some (print_str put flags width precision s str, fmt, args) }
     else if c = CHR ''p'' then do {
       let (width, flags) = (if width = -1 then (8 + 2, flags OR SPECIAL OR ZEROPAD) else (width, flags));
       (a, args) \<leftarrow> va_word args;
       str \<leftarrow> print_number put a 16 qualifier width precision flags str;
       Some (str, fmt, args) }
     else if c = CHR ''%'' then Some (put CHR ''%'' str, fmt, args)
     else case integer_format c flags of
         None \<Rightarrow> Some (put c (put CHR ''%'' str), fmt, args)
       | Some (flags, base) \<Rightarrow> do {
           (a, args) \<leftarrow> va_word args;
           str \<leftarrow> print_number put (integer_arg qualifier flags a) base qualifier width precision flags str;
           Some (str, fmt, args) })"

definition read_directive :: "string \<Rightarrow> va_item list \<Rightarrow> (u8 \<times> int \<times> int \<times> char \<times> string \<times> va_item list) option" where
  "read_directive fmt args = do {
    let (flags, fmt) = read_flags 0 fmt;
    (width, flags, fmt, args) \<leftarrow> read_width flags fmt args;
    (precision, fmt, args) \<leftarrow> read_precision fmt args;
    let (qualifier, fmt) = read_qualifier fmt;
    Some (flags, width, precision, qualifier, fmt, args) }"

text \<open>The rest of the format gets shorter.\<close>

lemma skip_atoi_length: "skip_atoi i fmt = Some (w, fmt') \<Longrightarrow> length fmt' \<le> length fmt"
proof (induction i fmt rule: skip_atoi.induct)
  case (2 i c s)
  then show ?case by (auto split: if_splits)
qed simp

lemma read_flags_length: "length (snd (read_flags flags fmt)) \<le> length fmt"
  by (induction flags fmt rule: read_flags.induct) auto

lemma read_width_length: "read_width flags fmt args = Some (w, f, fmt', a) \<Longrightarrow> length fmt' \<le> length fmt"
  using skip_atoi_length by (cases "(flags, fmt, args)" rule: read_width.cases) (fastforce split: if_splits bind_splits)+

lemma read_precision_length: "read_precision fmt args = Some (p, fmt', a) \<Longrightarrow> length fmt' \<le> length fmt"
  using skip_atoi_length
  by (cases "(fmt, args)" rule: read_precision.cases) (fastforce split: if_splits bind_splits list.splits)+

lemma read_qualifier_length: "length (snd (read_qualifier fmt)) \<le> length fmt"
  by (cases fmt) auto

lemma read_directive_length:
  assumes "read_directive fmt args = Some (flags, width, precision, qualifier, fmt', args')"
  shows "length fmt' \<le> length fmt"
proof -
  obtain f1 s1 where 1: "read_flags 0 fmt = (f1, s1)" by fastforce
  with assms obtain w f2 s2 a2 where 2: "read_width f1 s1 args = Some (w, f2, s2, a2)"
    by (auto simp: read_directive_def split: bind_splits)
  with assms 1 obtain p s3 a3 where 3: "read_precision s2 a2 = Some (p, s3, a3)"
    by (auto simp: read_directive_def split: bind_splits)
  with assms 1 2 have "fmt' = snd (read_qualifier s3)" by (auto simp: read_directive_def split: prod.splits)
  with read_qualifier_length [of s3] read_precision_length [OF 3] read_width_length [OF 2] read_flags_length [of 0 fmt] 1
  show ?thesis by auto
qed

lemma convert_length: "convert put flags width precision qualifier fmt args str = Some (o1, fmt', args') \<Longrightarrow> length fmt' \<le> length fmt"
  by (cases fmt) (auto split: if_splits bind_splits option.splits)

function vsn_loop :: "(char \<Rightarrow> 'o \<Rightarrow> 'o) \<Rightarrow> string \<Rightarrow> va_item list \<Rightarrow> 'o \<Rightarrow> 'o option" where
  "vsn_loop put [] args str = Some str"
| "vsn_loop put (c # fmt) args str =
    (if c \<noteq> CHR ''%'' then vsn_loop put fmt args (put c str)
     else case read_directive fmt args of
         None \<Rightarrow> None
       | Some (flags, width, precision, qualifier, fmt', args) \<Rightarrow>
           (case convert put flags width precision qualifier fmt' args str of
              None \<Rightarrow> None
            | Some (str, fmt'', args) \<Rightarrow> vsn_loop put fmt'' args str))"
  by pat_completeness auto
termination
proof (relation "measure (\<lambda>(put, fmt, args, str). length fmt)")
  fix put :: "char \<Rightarrow> 'o \<Rightarrow> 'o" and c fmt args str and d y1 x1 y2 x2 y3 x3 y4 x4 fmt' args1 e z1 z2 fmt'' args2
  assume "read_directive fmt args = Some d" "(x1, y1) = d" "(x2, y2) = y1" "(x3, y3) = y2" "(x4, y4) = y3" "(fmt', args1) = y4"
    and "convert put x1 x2 x3 x4 fmt' args1 str = Some e" "(z1, z2) = e" "(fmt'', args2) = z2"
  then have "length fmt' \<le> length fmt" "length fmt'' \<le> length fmt'"
    using read_directive_length [of fmt args x1 x2 x3 x4 fmt' args1] convert_length [of put x1 x2 x3 x4 fmt' args1 str z1 fmt'' args2]
    by auto
  then show "((put, fmt'', args2, z1), put, c # fmt, args, str) \<in> measure (\<lambda>(put, fmt, args, str). length fmt)" by simp
qed simp_all

section \<open>The functions\<close>

text \<open>The result is the difference of two pointers as an \<open>int\<close>.\<close>

definition rt_vsnprintf :: "mem \<Rightarrow> addr \<Rightarrow> nat \<Rightarrow> string \<Rightarrow> va_item list \<Rightarrow> (int \<times> mem) option" where
  "rt_vsnprintf m buf sz fmt args = (
    let end = (buf + sz) mod 2 ^ 32;
      (end, sz) = (if end < buf then (0xffffffff, 0xffffffff - buf) else (end, sz))
    in case vsn_loop (put_char end) fmt args (m, buf) of
        None \<Rightarrow> None
      | Some (m, str) \<Rightarrow> Some (signed_take_bit 31 (int str - int buf), if sz > 0 then if str < end then m(str := 0) else m(end - 1 := 0) else m))"

definition rt_snprintf :: "mem \<Rightarrow> addr \<Rightarrow> nat \<Rightarrow> string \<Rightarrow> va_item list \<Rightarrow> (int \<times> mem) option" where
  "rt_snprintf m buf sz fmt args = rt_vsnprintf m buf sz fmt args"

definition rt_vsprintf :: "mem \<Rightarrow> addr \<Rightarrow> string \<Rightarrow> va_item list \<Rightarrow> (int \<times> mem) option" where
  "rt_vsprintf m buf format arg_ptr = rt_vsnprintf m buf 0xffffffff format arg_ptr"

definition rt_sprintf :: "mem \<Rightarrow> addr \<Rightarrow> string \<Rightarrow> va_item list \<Rightarrow> (int \<times> mem) option" where
  "rt_sprintf m buf format arg_ptr = rt_vsprintf m buf format arg_ptr"

end
