(* ===== verification/KPrintfProps.thy ===== *)
theory KPrintfProps
  imports KPrintf
begin

text \<open>
  What the formatted output writes: the text of a number, a character and a string as reference
  definitions, the text of a format, and how \<open>rt_vsnprintf\<close> puts it into a buffer.
\<close>

section \<open>What the loops write\<close>

lemma replicate_nat_pos: "0 < n \<Longrightarrow> replicate (nat n) c = c # replicate (nat (n - 1)) c"
  by (cases "nat n") (auto simp: nat_diff_distrib)

lemma put_while_eq: "put_while put c n o1 = (fold put (replicate (nat n) c) o1, min n 0 - 1)"
proof (induction "nat n" arbitrary: n o1)
  case 0
  then show ?case by (simp add: put_while.simps)
next
  case (Suc k)
  then have "0 < n" "k = nat (n - 1)" by simp_all
  with Suc(1) [of "n - 1" "put c o1"] show ?case
    by (simp add: put_while.simps [of put c n] replicate_nat_pos)
qed

lemma put_width_eq: "put_width put w o1 = (fold put (replicate (nat (w - 1)) CHR '' '') o1, min (w - 1) 0)"
proof (induction "nat (w - 1)" arbitrary: w o1)
  case 0
  then show ?case by (simp add: put_width.simps)
next
  case (Suc k)
  then have "0 < w - 1" "k = nat (w - 1 - 1)" by simp_all
  with Suc(1) [of "w - 1" "put CHR '' '' o1"] show ?case
    by (simp add: put_width.simps [of put w] replicate_nat_pos)
qed

lemma put_beyond_eq: "put_beyond put len w o1 = (fold put (replicate (nat (w - len)) CHR '' '') o1, min w len - 1)"
proof (induction "nat (w - len)" arbitrary: w o1)
  case 0
  then show ?case by (simp add: put_beyond.simps)
next
  case (Suc k)
  then have "0 < w - len" "k = nat (w - len - 1)" by simp_all
  moreover have e: "w - len - 1 = w - 1 - len" by simp
  ultimately show ?case using Suc(1) [of "w - 1" "put CHR '' '' o1"] replicate_nat_pos [of "w - len" "CHR '' ''", unfolded e]
    by (simp add: put_beyond.simps [of put len w] del: fold_replicate)
qed

lemmas put_loops = put_while_eq put_width_eq put_beyond_eq

section \<open>Numbers\<close>

text \<open>The text of a number: the sign, the prefix of the base, zeros up to the precision, the digits, and padding up to the width. The
  digits are left out when the precision is 0, but they are counted.\<close>

definition number_prefix :: "u32 \<Rightarrow> u8 \<Rightarrow> string" where
  "number_prefix base type =
    (if \<not> has type SPECIAL then '''' else if base = 2 then ''0b'' else if base = 8 then ''0''
     else if base = 16 then if has type LARGE then ''0X'' else ''0x'' else '''')"

definition number_text :: "u32 \<Rightarrow> u32 \<Rightarrow> char \<Rightarrow> int \<Rightarrow> int \<Rightarrow> u8 \<Rightarrow> string" where
  "number_text num base qualifier width precision type = (
    let (sign, n) = number_sign num qualifier type;
      ds = (if n = 0 then ''0'' else rev (number_digits (if has type LARGE then large_digits else small_digits) n base));
      zeros = replicate (nat precision - length ds) CHR ''0'';
      head = sign @ number_prefix base type;
      pad = nat (width - int (length head + length zeros + length ds));
      shown = (if precision = 0 then '''' else ds)
    in if has type LEFT then head @ zeros @ shown @ replicate pad CHR '' ''
       else if has type ZEROPAD then head @ replicate pad CHR ''0'' @ zeros @ shown
       else replicate pad CHR '' '' @ head @ zeros @ shown)"

lemma has_clear: "f AND NOT g = f \<Longrightarrow> has (type AND NOT g) f = has type f"
  by (simp add: has_def and.assoc and.commute [of "NOT g" f])

text \<open>The complement of \<open>ZEROPAD\<close> is \<open>- 2\<close>.\<close>

lemma has_cleared [simp]:
  "has (type AND - 2) SIGN = has type SIGN" "has (type AND - 2) PLUS = has type PLUS"
  "has (type AND - 2) SPACE = has type SPACE" "has (type AND - 2) LEFT = has type LEFT"
  "has (type AND - 2) SPECIAL = has type SPECIAL" "has (type AND - 2) LARGE = has type LARGE"
  using has_clear [of _ ZEROPAD type] by simp_all

lemma has_cleared_zero [simp]: "\<not> has (type AND - 2) ZEROPAD"
  by (simp add: has_def and.assoc)

lemma has_zero_left [simp]: "has type 17 \<longleftrightarrow> has type ZEROPAD \<or> has type LEFT"
proof -
  have "type AND 17 = (type AND ZEROPAD) OR (type AND LEFT)" by (simp add: bit.conj_disj_distrib [symmetric])
  then show ?thesis by (simp add: has_def or_eq_0_iff)
qed

lemma number_sign_cleared [simp]: "number_sign num qualifier (type AND - 2) = number_sign num qualifier type"
  by (simp add: number_sign_def)

lemma number_sign_length: "number_sign num qualifier type = (sign, n) \<Longrightarrow> sign = [] \<or> (\<exists>c. sign = [c])"
  by (auto simp: number_sign_def Let_def split: if_splits)

text \<open>The last value of the variable \<open>size\<close>, and the numbers for which it is an \<open>int\<close>.\<close>

definition number_size :: "u32 \<Rightarrow> u32 \<Rightarrow> char \<Rightarrow> int \<Rightarrow> int \<Rightarrow> u8 \<Rightarrow> int" where
  "number_size num base qualifier width precision type = (
    let (sign, n) = number_sign num qualifier type;
      ds = (if n = 0 then ''0'' else number_digits (if has type LARGE then large_digits else small_digits) n base);
      sz = width - (if \<not> has type SPECIAL then 0 else if base = 2 \<or> base = 16 then 2 else if base = 8 then 1 else 0) - max (int (length ds)) precision;
      sz = (if has type ZEROPAD \<or> has type LEFT then sz else min (if sign \<noteq> [] \<and> sz > 0 then sz - 1 else sz) 0 - 1);
      sz = (if sign \<noteq> [] then sz - 1 else sz);
      sz = (if has type LEFT then sz else min sz 0 - 1)
    in min sz 0 - 1)"

definition number_ok :: "u32 \<Rightarrow> u32 \<Rightarrow> char \<Rightarrow> int \<Rightarrow> int \<Rightarrow> u8 \<Rightarrow> bool" where
  "number_ok num base qualifier width precision type \<longleftrightarrow> - 0x80000000 \<le> number_size num base qualifier width precision type"

lemma print_number_text: "print_number put num base qualifier s precision type buf =
  (if number_ok num base qualifier s precision type then Some (fold put (number_text num base qualifier s precision type) buf) else None)"
proof -
  obtain sign n where sn: "number_sign num qualifier type = (sign, n)" by fastforce
  define tmp where "tmp = (if n = 0 then ''0'' else number_digits (if has type LARGE then large_digits else small_digits) n base)"
  define p where "p = (if int (length tmp) > precision then int (length tmp) else precision)"
  define sz where "sz = (if has type SPECIAL then if base = 2 \<or> base = 16 then s - 2 else if base = 8 then s - 1 else s else s) - p"
  define shown where "shown = (if precision = 0 then '''' else rev tmp)"
  let ?t = "if has type LEFT then type AND NOT ZEROPAD else type" and ?pre = "number_prefix base type"
  let ?zeros = "replicate (nat precision - length tmp) CHR ''0''"
  let ?pad = "nat (sz - int (length sign))"
  have z: "nat (p - int (length tmp)) = nat precision - length tmp" by (simp add: p_def nat_diff_distrib)
  have w: "s - int (length (sign @ ?pre) + length ?zeros + length tmp) = sz - int (length sign)"
    by (simp add: number_prefix_def sz_def p_def)
  have tx: "number_text num base qualifier s precision type =
     (if has type LEFT then sign @ ?pre @ ?zeros @ shown @ replicate ?pad CHR '' ''
       else if has type ZEROPAD then sign @ ?pre @ replicate ?pad CHR ''0'' @ ?zeros @ shown
       else replicate ?pad CHR '' '' @ sign @ ?pre @ ?zeros @ shown)"
    unfolding number_text_def sn Let_def prod.case w [symmetric] by (simp add: tmp_def shown_def)
  have t: "number_sign num qualifier ?t = (sign, n)" "has ?t SPECIAL = has type SPECIAL" "has ?t LARGE = has type LARGE"
    "has ?t LEFT = has type LEFT" "has ?t ZEROPAD = (has type ZEROPAD \<and> \<not> has type LEFT)"
    "has ?t (ZEROPAD OR LEFT) = (has type ZEROPAD \<or> has type LEFT)" using sn by simp_all
  have pre: "(if has type SPECIAL then if base = 2 then put CHR ''b'' (put CHR ''0'' b) else if base = 8 then put CHR ''0'' b
      else if base = 16 then put (if has type LARGE then CHR ''X'' else CHR ''x'') (put CHR ''0'' b) else b else b) = fold put ?pre b" for b
    by (simp add: number_prefix_def)
  have sh: "(if precision \<noteq> 0 then fold put (rev tmp) b else b) = fold put shown b" for b by (simp add: shown_def)
  have ns: "number_size num base qualifier s precision type = (
    let sz = (if has type ZEROPAD \<or> has type LEFT then sz else min (if sign \<noteq> [] \<and> sz > 0 then sz - 1 else sz) 0 - 1);
      sz = (if sign \<noteq> [] then sz - 1 else sz);
      sz = (if has type LEFT then sz else min sz 0 - 1)
    in min sz 0 - 1)"
  proof -
    have "s - (if \<not> has type SPECIAL then 0 else if base = 2 \<or> base = 16 then 2 else if base = 8 then 1 else 0) - max (int (length tmp)) precision = sz"
      by (simp add: sz_def p_def max_def)
    then show ?thesis unfolding number_size_def sn prod.case Let_def tmp_def [symmetric] by simp
  qed
  have pn: "print_number put num base qualifier s precision type buf = (
    let (buf, sz) = (if \<not> (has type ZEROPAD \<or> has type LEFT) then
          put_while put CHR '' '' (if sign \<noteq> '''' \<and> sz > 0 then sz - 1 else sz) buf
        else (buf, sz));
      (buf, sz) = (if sign \<noteq> '''' then (put (hd sign) buf, sz - 1) else (buf, sz));
      buf = fold put ?pre buf;
      (buf, sz) = (if \<not> has type LEFT then put_while put (if has type ZEROPAD \<and> \<not> has type LEFT then CHR ''0'' else CHR '' '') sz buf else (buf, sz));
      (buf, _) = put_while put CHR ''0'' (p - int (length tmp)) buf;
      buf = fold put shown buf;
      (buf, sz) = put_while put CHR '' '' sz buf
    in if - 0x80000000 \<le> sz then Some buf else None)"
    unfolding print_number_def Let_def t prod.case tmp_def [symmetric] p_def [symmetric] sz_def [symmetric] pre sh by (rule refl)
  show ?thesis
    unfolding tx pn put_while_eq z Let_def number_ok_def ns
    using number_sign_length [OF sn] by (cases "has type LEFT"; cases "has type ZEROPAD"; cases "sign = []"; cases "sz > 0"; auto simp: min_def)
qed

section \<open>Characters and strings\<close>

text \<open>A character is padded to the width. A string is cut to the width, then to a positive precision, and padded to the width.\<close>

definition char_text :: "u8 \<Rightarrow> int \<Rightarrow> u32 \<Rightarrow> string" where
  "char_text flags width a = (
    let c = char_of (unat (ucast a :: u8)); pad = replicate (nat (width - 1)) CHR '' ''
    in if has flags LEFT then c # pad else pad @ [c])"

definition str_text :: "u8 \<Rightarrow> int \<Rightarrow> int \<Rightarrow> string option \<Rightarrow> string" where
  "str_text flags width precision s = (
    let s = takeWhile (\<lambda>c. c \<noteq> CHR 0x00) (case s of None \<Rightarrow> ''(NULL)'' | Some s \<Rightarrow> s);
      s = (if width < 0 then s else take (nat width) s);
      s = (if precision > 0 then take (nat precision) s else s);
      pad = replicate (nat width - length s) CHR '' ''
    in if has flags LEFT then s @ pad else pad @ s)"

lemma print_char_text: "print_char put flags width a str = fold put (char_text flags width a) str"
  by (auto simp: print_char_def char_text_def put_width_eq Let_def min_def)

lemma str_len_eq:
  "k \<le> w \<or> w < 0 \<Longrightarrow> 0 \<le> k \<Longrightarrow> str_len k w s = k + int (length (if w < 0 then takeWhile (\<lambda>c. c \<noteq> CHR 0x00) s
     else take (nat (w - k)) (takeWhile (\<lambda>c. c \<noteq> CHR 0x00) s)))"
proof (induction s arbitrary: k)
  case (Cons c s)
  show ?case
  proof (cases "k \<noteq> w \<and> c \<noteq> CHR 0x00")
    case True
    then have "k + 1 \<le> w \<or> w < 0" "0 \<le> k + 1" using Cons.prems by auto
    from Cons.IH [OF this] True Cons.prems have "str_len k w (c # s) = k + 1 + int (length (if w < 0 then takeWhile (\<lambda>c. c \<noteq> CHR 0x00) s
     else take (nat (w - (k + 1))) (takeWhile (\<lambda>c. c \<noteq> CHR 0x00) s)))" by simp
    moreover have "nat (w - k) = Suc (nat (w - (k + 1)))" if "\<not> w < 0" using True Cons.prems that by linarith
    ultimately show ?thesis using True by simp
  next
    case False
    then show ?thesis using Cons.prems by auto
  qed
qed simp

lemma print_str_text: "print_str put flags width precision s str = fold put (str_text flags width precision s) str"
proof -
  define t where "t = (case s of None \<Rightarrow> ''(NULL)'' | Some s \<Rightarrow> s)"
  define u where "u = (if width < 0 then takeWhile (\<lambda>c. c \<noteq> CHR 0x00) t else take (nat width) (takeWhile (\<lambda>c. c \<noteq> CHR 0x00) t))"
  define v where "v = (if precision > 0 then take (nat precision) u else u)"
  have len: "str_len 0 width t = int (length u)" using str_len_eq [of 0 width t] by (simp add: u_def)
  have "prefix u t" unfolding u_def using takeWhile_is_prefix [of "\<lambda>c. c \<noteq> CHR 0x00" t] take_is_prefix [of "nat width" "takeWhile (\<lambda>c. c \<noteq> CHR 0x00) t"]
    by (auto intro: prefix_order.trans)
  moreover have "prefix v u" by (simp add: v_def take_is_prefix)
  ultimately have "prefix v t" by (rule prefix_order.trans [rotated])
  then have sh: "take (length v) t = v" by (auto simp: prefix_def)
  have l2: "(if precision > 0 \<and> int (length u) > precision then precision else int (length u)) = int (length v)"
    by (auto simp: v_def)
  have "print_str put flags width precision s str = (
      let (str, width) = (if \<not> has flags LEFT then put_beyond put (int (length v)) width str else (str, width));
        str = fold put v str;
        (str, _) = put_beyond put (int (length v)) width str
      in str)"
    unfolding print_str_def Let_def t_def [symmetric] len l2 nat_int sh by (rule refl)
  also have "\<dots> = fold put (if has flags LEFT then v @ replicate (nat width - length v) CHR '' ''
      else replicate (nat width - length v) CHR '' '' @ v) str"
  proof -
    have "nat (width - int (length v)) = nat width - length v" by simp
    then show ?thesis by (simp add: put_beyond_eq Let_def min_def)
  qed
  also have "\<dots> = fold put (str_text flags width precision s) str"
    by (simp add: str_text_def Let_def t_def [symmetric] u_def v_def)
  finally show ?thesis .
qed

section \<open>Writing to different outputs\<close>

text \<open>The definitions use an output only through \<open>put\<close>, so they commute with a map of the outputs that does.\<close>

locale output_map =
  fixes put :: "char \<Rightarrow> 'a \<Rightarrow> 'a" and put' :: "char \<Rightarrow> 'b \<Rightarrow> 'b" and h :: "'a \<Rightarrow> 'b"
  assumes put_map: "h (put c o1) = put' c (h o1)"
begin

lemma fold_map: "h (fold put cs o1) = fold put' cs (h o1)"
  by (induction cs arbitrary: o1) (simp_all add: put_map)

lemma print_number_map: "print_number put' num base qualifier s precision type (h o1) = map_option h (print_number put num base qualifier s precision type o1)"
  by (simp add: print_number_text fold_map)

lemma print_char_map: "h (print_char put flags width a o1) = print_char put' flags width a (h o1)"
  by (simp add: print_char_text fold_map)

lemma print_str_map: "h (print_str put flags width precision s o1) = print_str put' flags width precision s (h o1)"
  by (simp add: print_str_text fold_map)

lemma convert_map:
  "convert put' flags width precision qualifier fmt args (h o1) =
    map_option (map_prod h id) (convert put flags width precision qualifier fmt args o1)"
  by (cases fmt) (simp_all add: put_map print_number_map print_char_map print_str_map Let_def bind_map_option map_option_bind split: option.split bind_split)

lemma vsn_loop_map: "vsn_loop put' fmt args (h o1) = map_option h (vsn_loop put fmt args o1)"
proof (induction "length fmt" arbitrary: fmt args o1 rule: less_induct)
  case less
  show ?case
  proof (cases fmt)
    case (Cons c fmt1)
    show ?thesis
    proof (cases "c = CHR ''%''")
      case False
      with less [of fmt1 args "put c o1"] Cons show ?thesis by (simp add: put_map)
    next
      case True
      show ?thesis
      proof (cases "read_directive fmt1 args")
        case (Some d)
        obtain flags width precision qualifier fmt2 args2 where d: "d = (flags, width, precision, qualifier, fmt2, args2)"
          by (cases d) auto
        have l: "length fmt2 \<le> length fmt1" by (rule read_directive_length [OF Some [unfolded d]])
        show ?thesis
        proof (cases "convert put flags width precision qualifier fmt2 args2 o1")
          case None
          with Some d True Cons convert_map [of flags width precision qualifier fmt2 args2 o1] show ?thesis by simp
        next
          case s: (Some r)
          obtain o2 fmt3 args3 where r: "r = (o2, fmt3, args3)" by (cases r) auto
          have "length fmt3 \<le> length fmt2" by (rule convert_length [OF s [unfolded r]])
          with less [of fmt3 args3 o2] l Cons Some d True s r convert_map [of flags width precision qualifier fmt2 args2 o1]
          show ?thesis by simp
        qed
      qed (use True Cons in simp)
    qed
  qed simp
qed

end

section \<open>The text\<close>

text \<open>The characters a format produces, without a buffer.\<close>

definition put_text :: "char \<Rightarrow> string \<Rightarrow> string" where "put_text c s = s @ [c]"

definition printf_text :: "string \<Rightarrow> va_item list \<Rightarrow> string option" where
  "printf_text fmt args = vsn_loop put_text fmt args ''''"

lemma fold_put_text [simp]: "fold put_text cs s = s @ cs"
  by (induction cs arbitrary: s) (simp_all add: put_text_def)

interpretation buffer: output_map put_text "put_char stop" "\<lambda>s. fold (put_char stop) s o1" for stop o1
  by unfold_locales (simp add: put_text_def)

interpretation after: output_map put_text put_text "\<lambda>s. t @ s" for t
  by unfold_locales (simp add: put_text_def)

text \<open>The characters that fit are written, all are counted.\<close>

lemma fold_put_char:
  "p + length s < 2 ^ 32 \<Longrightarrow> fold (put_char end) s (m, p) =
    (\<lambda>a. if p \<le> a \<and> a < end \<and> a < p + length s then of_char (s ! (a - p)) else m a, p + length s)"
proof (induction s arbitrary: m p)
  case (Cons c s)
  have "fold (put_char end) (c # s) (m, p) = fold (put_char end) s (if p < end then m(p := of_char c) else m, p + 1)"
    using Cons.prems by (simp add: put_char_def)
  also have "\<dots> = (\<lambda>a. if p + 1 \<le> a \<and> a < end \<and> a < p + 1 + length s then of_char (s ! (a - (p + 1)))
      else (if p < end then m(p := of_char c) else m) a, p + 1 + length s)" using Cons.prems by (intro Cons.IH) simp
  also have "\<dots> = (\<lambda>a. if p \<le> a \<and> a < end \<and> a < p + length (c # s) then of_char ((c # s) ! (a - p)) else m a, p + length (c # s))"
    by (auto simp: fun_eq_iff nth_Cons')
  finally show ?case .
qed (auto simp: fun_eq_iff)

lemma vsn_loop_buffer:
  "vsn_loop (put_char stop) fmt args (m, p) = map_option (\<lambda>s. fold (put_char stop) s (m, p)) (printf_text fmt args)"
  using buffer.vsn_loop_map [of stop fmt args "''''" "(m, p)"] by (simp add: printf_text_def)

lemma vsn_loop_after: "vsn_loop put_text fmt args t = map_option (\<lambda>s. t @ s) (printf_text fmt args)"
  using after.vsn_loop_map [of fmt args t "''''"] by (simp add: printf_text_def)

text \<open>C37. \<open>rt_vsnprintf\<close> cuts the text of the format to the buffer: a buffer of at least one byte gets as much of the text as
  fits before its last byte, and a terminator after it; no byte outside the buffer and none behind the terminator changes. The result is the
  length of the whole text as an \<open>int\<close>, whether it fits or not, although the comment on the function promises the number of the characters
  that are written. The text depends on the format and the arguments alone. Neither the buffer nor the text, laid out from the start of the
  buffer, reaches the end of the address space, where the write pointer would wrap and pass the test for the end of the buffer again.\<close>

theorem rt_vsnprintf_truncates:
  assumes "buf + sz < 2 ^ 32" and "\<forall>s. printf_text fmt args = Some s \<longrightarrow> buf + length s < 2 ^ 32"
  shows "rt_vsnprintf m buf sz fmt args = map_option (\<lambda>s. (signed_take_bit 31 (int (length s)), \<lambda>a.
    if a < buf \<or> buf + sz \<le> a then m a
    else if a - buf < length s \<and> a - buf < sz - 1 then of_char (s ! (a - buf))
    else if a - buf = min (length s) (sz - 1) then 0 else m a)) (printf_text fmt args)"
proof (cases "printf_text fmt args")
  case None
  with assms show ?thesis by (simp add: rt_vsnprintf_def vsn_loop_buffer)
next
  case (Some s)
  let ?e = "buf + sz"
  have e: "?e mod 2 ^ 32 = ?e" using assms by simp
  have "(if sz > 0 then if buf + length s < ?e
      then (\<lambda>a. if buf \<le> a \<and> a < ?e \<and> a < buf + length s then of_char (s ! (a - buf)) else m a)(buf + length s := 0)
      else (\<lambda>a. if buf \<le> a \<and> a < ?e \<and> a < buf + length s then of_char (s ! (a - buf)) else m a)(?e - 1 := 0)
      else (\<lambda>a. if buf \<le> a \<and> a < ?e \<and> a < buf + length s then of_char (s ! (a - buf)) else m a)) a =
    (if a < buf \<or> ?e \<le> a then m a
    else if a - buf < length s \<and> a - buf < sz - 1 then of_char (s ! (a - buf))
    else if a - buf = min (length s) (sz - 1) then 0 else m a)" for a by (cases s) auto
  moreover have "buf + length s < 2 ^ 32" using assms(2) Some by blast
  note f = fold_put_char [OF this]
  ultimately show ?thesis unfolding rt_vsnprintf_def e vsn_loop_buffer Some option.map f by (simp add: Let_def fun_eq_iff)
qed

section \<open>Decimal numbers\<close>

text \<open>The numeral of a number, with the highest digit first.\<close>

fun decimal :: "nat \<Rightarrow> string" where
  "decimal n = (if n < 10 then [char_of (48 + n)] else decimal (n div 10) @ [char_of (48 + n mod 10)])"

declare decimal.simps [simp del]

definition decimal_int :: "int \<Rightarrow> string" where
  "decimal_int i = (if i < 0 then CHR ''-'' # decimal (nat (- i)) else decimal (nat i))"

lemma small_digit:
  assumes "k < 10"
  shows "small_digits ! k = char_of (48 + k)"
proof -
  have "k = 0 \<or> k = 1 \<or> k = 2 \<or> k = 3 \<or> k = 4 \<or> k = 5 \<or> k = 6 \<or> k = 7 \<or> k = 8 \<or> k = 9" using assms by presburger
  then show ?thesis by (elim disjE) (simp_all add: small_digits_def char_of_def bit_0)
qed

lemma number_digits_decimal: "num \<noteq> 0 \<Longrightarrow> rev (number_digits small_digits num 10) = decimal (unat num)"
proof (induction "unat num" arbitrary: num rule: less_induct)
  case less
  have d: "unat (num div 10) = unat num div 10" "unat (num mod 10) = unat num mod 10" by (simp_all add: unat_div unat_mod)
  have s: "number_digits small_digits num 10 = char_of (48 + unat num mod 10) # number_digits small_digits (num div 10) 10"
    using less.prems small_digit [of "unat num mod 10"] by (simp add: number_digits.simps [of _ num] d)
  show ?case
  proof (cases "unat num < 10")
    case True
    then have z: "num div 10 = 0" using d(1) by (simp add: word_unat_eq_iff)
    have "number_digits small_digits (num div 10) 10 = []" unfolding z by (simp add: number_digits.simps)
    with True s show ?thesis by (simp add: decimal.simps [of "unat num"])
  next
    case False
    then have "num div 10 \<noteq> 0" using d(1) by (auto simp: word_unat_eq_iff)
    with less.hyps [of "num div 10"] less.prems False d s show ?thesis
      by (simp add: decimal.simps [of "unat num"] unat_gt_0 [symmetric])
  qed
qed

lemma number_digits_length: "2 \<le> base \<Longrightarrow> unat num < 2 ^ k \<Longrightarrow> length (number_digits digits num base) \<le> k"
proof (induction k arbitrary: num)
  case 0
  then have "num = 0" by (simp add: unat_eq_0)
  then show ?case by (simp add: number_digits.simps)
next
  case (Suc k)
  show ?case
  proof (cases "num = 0")
    case True
    then show ?thesis by (simp add: number_digits.simps)
  next
    case False
    have b: "\<not> base < 2" "2 \<le> unat base" using Suc.prems(1) by (simp_all add: word_le_nat_alt word_less_nat_alt)
    have "unat num div unat base \<le> unat num div 2" using b(2) by (rule div_le_mono2 [rotated]) simp
    also have "\<dots> < 2 ^ k" using Suc.prems(2) by (simp add: less_mult_imp_div_less)
    finally have "length (number_digits digits (num div base) base) \<le> k" using Suc.IH [OF Suc.prems(1)] by (simp add: unat_div)
    with False b(1) show ?thesis by (simp add: number_digits.simps [of _ num])
  qed
qed

lemma number_text_decimal: "number_text w 10 CHR 0x00 (-1) (-1) SIGN = decimal_int (sint w)"
proof -
  have h: "has SIGN SIGN" "\<not> has SIGN PLUS" "\<not> has SIGN SPACE" "\<not> has SIGN SPECIAL" "\<not> has SIGN LEFT" "\<not> has SIGN ZEROPAD"
    "\<not> has SIGN LARGE" by (simp_all add: has_def)
  have n: "unat (- w) = nat (- sint w)" if "sint w < 0"
  proof -
    have "w \<noteq> 0" using that by auto
    then have u: "0 < uint w" using uint_0_iff [of w] uint_ge_0 [of w] by linarith
    have "uint (- w) = (2 ^ 32 - uint w) mod 2 ^ 32" by (simp add: uint_word_ariths minus_mod_self1)
    also have "\<dots> = 2 ^ 32 - uint w" using u uint_lt2p [of w] by (intro mod_pos_pos_trivial) simp_all
    finally have "uint (- w) = 2 ^ 32 - uint w" .
    moreover have "uint w = (sint w + 2 ^ 32) mod 2 ^ 32" by (simp add: uint_sint [of w] take_bit_eq_mod)
    moreover have "(sint w + 2 ^ 32) mod 2 ^ 32 = sint w + 2 ^ 32" using that sint_ge [of w] by (intro mod_pos_pos_trivial) simp_all
    ultimately show ?thesis unfolding unat_eq_nat_uint by simp
  qed
  have p: "unat w = nat (sint w)" if "\<not> sint w < 0"
  proof -
    have "uint w = sint w mod 2 ^ 32" by (simp add: uint_sint [of w] take_bit_eq_mod)
    moreover have "sint w mod 2 ^ 32 = sint w" using that sint_lt [of w] by (intro mod_pos_pos_trivial) simp_all
    ultimately show ?thesis unfolding unat_eq_nat_uint by simp
  qed
  show ?thesis
  proof (cases "sint w < 0")
    case True
    then have "w \<noteq> 0" by auto
    with True n h number_digits_decimal [of "- w"] show ?thesis
      by (simp add: number_text_def number_sign_def decimal_int_def number_prefix_def)
  next
    case False
    with p h number_digits_decimal [of w] show ?thesis
      by (simp add: number_text_def number_sign_def decimal_int_def number_prefix_def decimal.simps [of 0] char_of_def bit_0)
  qed
qed

lemma number_ok_decimal: "number_ok w 10 CHR 0x00 (-1) (-1) SIGN"
proof -
  have h: "has SIGN SIGN" "\<not> has SIGN PLUS" "\<not> has SIGN SPACE" "\<not> has SIGN SPECIAL" "\<not> has SIGN LEFT" "\<not> has SIGN ZEROPAD"
    "\<not> has SIGN LARGE" by (simp_all add: has_def)
  have l: "length (number_digits small_digits n 10) \<le> 32" for n
    using number_digits_length [of 10 n 32] unsigned_less [of n] by simp
  show ?thesis using l [of w] l [of "- w"]
    by (auto simp: number_ok_def number_size_def number_sign_def h Let_def min_def max_def split: if_splits)
qed

text \<open>A format that starts with text, and a directive without flags.\<close>

lemma vsn_loop_literal: "CHR ''%'' \<notin> set lit \<Longrightarrow> vsn_loop put (lit @ fmt) args o1 = vsn_loop put fmt args (fold put lit o1)"
  by (induction lit arbitrary: o1) auto

lemma printf_text_literal:
  assumes "CHR ''%'' \<notin> set lit"
  shows "printf_text (lit @ fmt) args = map_option (\<lambda>s. lit @ s) (printf_text fmt args)"
  using vsn_loop_literal [OF assms, of put_text fmt args "''''"] vsn_loop_after [of fmt args lit] by (simp add: printf_text_def)

lemma printf_text_decimal:
  assumes "CHR ''%'' \<notin> set lit"
  shows "printf_text (lit @ ''%d'' @ fmt) (Va_word w # args) = map_option (\<lambda>s. lit @ decimal_int (sint w) @ s) (printf_text fmt args)"
proof -
  have "read_directive (CHR ''d'' # fmt) (Va_word w # args) = Some (0, -1, -1, CHR 0x00, CHR ''d'' # fmt, Va_word w # args)"
    by (simp add: read_directive_def is_digit_def)
  moreover have "convert put_text 0 (-1) (-1) CHR 0x00 (CHR ''d'' # fmt) (Va_word w # args) '''' = Some (decimal_int (sint w), fmt, args)"
  proof -
    have "integer_format CHR ''d'' 0 = Some (SIGN, 10)" "integer_arg CHR 0x00 SIGN w = w" by (simp_all add: integer_format_def integer_arg_def)
    then have "convert put_text 0 (-1) (-1) CHR 0x00 (CHR ''d'' # fmt) (Va_word w # args) '''' =
      map_option (\<lambda>s. (s, fmt, args)) (print_number put_text w 10 CHR 0x00 (-1) (-1) SIGN '''')"
      by (cases "print_number put_text w 10 CHR 0x00 (- 1) (- 1) 2 []") simp_all
    then show ?thesis unfolding print_number_text number_text_decimal by (simp add: number_ok_decimal)
  qed
  ultimately have "printf_text (''%d'' @ fmt) (Va_word w # args) = vsn_loop put_text fmt args (decimal_int (sint w))"
    by (simp add: printf_text_def del: convert.simps)
  then have p: "printf_text (''%d'' @ fmt) (Va_word w # args) = map_option (\<lambda>s. decimal_int (sint w) @ s) (printf_text fmt args)"
    unfolding vsn_loop_after .
  show ?thesis unfolding printf_text_literal [OF assms] p by (cases "printf_text fmt args") simp_all
qed


text \<open>The directive \<open>%d\<close> produces the decimal numeral of its argument as a signed number; the text before it is copied and the rest of the
  format is formatted with the rest of the arguments.\<close>

theorem rt_printf_decimal:
  assumes "CHR ''%'' \<notin> set lit"
  shows "printf_text (lit @ ''%d'' @ fmt) (Va_word w # args) = map_option (\<lambda>s. lit @ decimal_int (sint w) @ s) (printf_text fmt args)"
  by (rule printf_text_decimal [OF assms])

lemma skip_atoi_decimal: "n + 48 \<le> 0x7fffffff \<Longrightarrow> skip_atoi 0 (decimal n @ rest) = skip_atoi (int n) rest"
proof (induction n arbitrary: rest rule: decimal.induct)
  case (1 n)
  have digit: "is_digit (char_of (48 + k))" "of_char (char_of (48 + k)) = (48 + int k)" if "k < 10" for k :: nat
  proof -
    have "48 + k < 256" using that by simp
    then have c: "of_char (char_of (48 + k)) = 48 + k" by simp
    have "k = 0 \<or> k = 1 \<or> k = 2 \<or> k = 3 \<or> k = 4 \<or> k = 5 \<or> k = 6 \<or> k = 7 \<or> k = 8 \<or> k = 9" using that by presburger
    then show "is_digit (char_of (48 + k))" by (elim disjE) (simp_all add: is_digit_def char_of_def bit_0)
    show "of_char (char_of (48 + k)) = (48 + int k)" unfolding of_nat_of_char [symmetric, where ?'a = int] c by simp
  qed
  show ?case
  proof (cases "n < 10")
    case True
    with digit [of n] show ?thesis by (simp add: decimal.simps [of n])
  next
    case False
    then have "n div 10 + 48 \<le> 0x7fffffff" using 1(2) by linarith
    note IH = 1(1) [OF False this]
    have e: "int (n div 10) * 10 + int (n mod 10) = int n" by presburger
    then have "int (n div 10) * 10 + (48 + int (n mod 10)) \<le> 0x7fffffff" using 1(2) by linarith
    with IH False digit [of "n mod 10"] e show ?thesis by (simp add: decimal.simps [of n] algebra_simps)
  qed
qed


text \<open>C38. Printing and reading a number: what \<open>%d\<close> prints for a number that \<open>skip_atoi\<close> can hold is read back by it, up to
  the first character that is not a digit.\<close>

theorem rt_printf_read_back:
  assumes "0 \<le> sint w" and "sint w + 48 \<le> 0x7fffffff" and "rest = [] \<or> \<not> is_digit (hd rest)"
  shows "\<exists>s. printf_text ''%d'' [Va_word w] = Some s \<and> skip_atoi 0 (s @ rest) = Some (sint w, rest)"
proof -
  have "printf_text ''%d'' [Va_word w] = Some (decimal_int (sint w))"
    using printf_text_decimal [of "[]" "[]" w "[]"] by (simp add: printf_text_def)
  moreover have "decimal_int (sint w) = decimal (nat (sint w))" using assms(1) by (simp add: decimal_int_def)
  moreover have "skip_atoi 0 (decimal (nat (sint w)) @ rest) = skip_atoi (sint w) rest"
    using skip_atoi_decimal [of "nat (sint w)" rest] assms(1,2) by simp
  moreover have "skip_atoi (sint w) rest = Some (sint w, rest)" using assms(3) by (cases rest) auto
  ultimately show ?thesis by simp
qed

text \<open>The temporary buffer of \<open>print_number\<close> has 32 bytes: no number has more digits in any base, and every digit is
  one of the table.\<close>

theorem print_number_buffer:
  assumes "2 \<le> base" and "base \<le> 16"
  shows "length (number_digits digits num base) \<le> 32 \<and> unat (num mod base) < length small_digits \<and>
    unat (num mod base) < length large_digits"
proof -
  have b: "0 < unat base" "unat base \<le> 16" using assms by (auto simp: word_le_nat_alt)
  have n: "unat num < 2 ^ 32" using unsigned_less [of num] by simp
  have "length (number_digits digits num base) \<le> 32" by (rule number_digits_length [OF assms(1) n])
  moreover have "unat (num mod base) < 16" using mod_less_divisor [OF b(1), of "unat num"] b(2) by (simp add: unat_mod)
  ultimately show ?thesis by (simp add: small_digits_def large_digits_def)
qed

text \<open>Where the code differs from the standard: a width cuts a string, and a number with the precision 0 has no digits.\<close>

lemma rt_printf_width_cuts: "printf_text ''%3s'' [Va_str (Some ''hello'')] = Some ''hel''"
  by (simp add: printf_text_def read_directive_def is_digit_def print_str_text str_text_def has_def Let_def)

lemma rt_printf_precision_0: "printf_text ''<%.0d>'' [Va_word 42] = Some ''<>''"
  using number_digits_length [of 10 42 32 small_digits]
  by (simp add: printf_text_def read_directive_def is_digit_def print_number_text integer_format_def integer_arg_def
      number_ok_def number_size_def number_text_def number_sign_def number_prefix_def has_def Let_def put_text_def)

section \<open>At a concrete input\<close>

lemma printf_text_value: "printf_text ''a=%d'' [Va_word 42] = Some ''a=42''"
  using printf_text_decimal [of "''a=''" "[]" 42 "[]"]
  by (simp add: printf_text_def decimal_int_def decimal.simps char_of_def bit_0)

lemma rt_vsnprintf_truncates_witness:
  "\<exists>m'. rt_vsnprintf (\<lambda>_. 7) 0x2000 4 ''a=%d'' [Va_word 42] = Some (4, m') \<and>
    map m' [0x2000, 0x2001, 0x2002, 0x2003, 0x2004] = [97, 61, 52, 0, 7]"
  using rt_vsnprintf_truncates [of "0x2000" 4 "''a=%d''" "[Va_word 42]" "\<lambda>_. 7"] by (simp add: printf_text_value)

lemma rt_printf_decimal_witness: "printf_text ''x%d'' [Va_word 0xffffffff] = Some ''x-1''"
  using rt_printf_decimal [of "''x''" "[]" "0xffffffff" "[]"]
  by (simp add: printf_text_def decimal_int_def decimal.simps char_of_def bit_0)

lemma rt_printf_read_back_witness: "\<exists>s. printf_text ''%d'' [Va_word 105] = Some s \<and> skip_atoi 0 (s @ '';'') = Some (105, '';'')"
  using rt_printf_read_back [of 105 "'';''"] by (simp add: is_digit_def)

lemma print_number_buffer_witness: "length (number_digits small_digits 0xffffffff 2) \<le> 32"
  using print_number_buffer [of 2 small_digits "0xffffffff"] by simp

end
