(* ===== verification/RingBuffer.thy ===== *)
theory RingBuffer
  imports RtDef
begin

text \<open>
  The byte ring buffer of \<open>rt-thread/components/drivers/ipc/ringbuffer.c\<close>: read and write
  indexes of 31 bits with a one-bit mirror each. The pool is a list of bytes; a copy out of its
  range is \<open>None\<close>. \<open>contents\<close> is the queue of bytes a state stands for, and every
  operation is proved to act on that queue.
\<close>

section \<open>State\<close>

type_synonym index = "31 word"
type_synonym mirror = "1 word"

record rt_ringbuffer =
  buffer_ptr :: "u8 list"
  read_mirror :: mirror
  read_index :: index
  write_mirror :: mirror
  write_index :: index
  buffer_size :: u32

datatype rt_ringbuffer_state = RT_RINGBUFFER_EMPTY | RT_RINGBUFFER_FULL | RT_RINGBUFFER_HALFFULL

text \<open>\<open>rt_memcpy\<close> out of and into a byte array.\<close>

definition slice :: "u8 list \<Rightarrow> nat \<Rightarrow> nat \<Rightarrow> u8 list option" where
  "slice xs i n = (if i + n \<le> length xs then Some (take n (drop i xs)) else None)"

definition blit :: "u8 list \<Rightarrow> nat \<Rightarrow> u8 list \<Rightarrow> u8 list option" where
  "blit xs i ys = (if i + length ys \<le> length xs then Some (take i xs @ ys @ drop (i + length ys) xs) else None)"

section \<open>Operations\<close>

definition rt_ringbuffer_status :: "rt_ringbuffer \<Rightarrow> rt_ringbuffer_state" where
  "rt_ringbuffer_status rb =
    (if read_index rb = write_index rb then
       if read_mirror rb = write_mirror rb then RT_RINGBUFFER_EMPTY else RT_RINGBUFFER_FULL
     else RT_RINGBUFFER_HALFFULL)"

definition rt_ringbuffer_data_len :: "rt_ringbuffer \<Rightarrow> u32" where
  "rt_ringbuffer_data_len rb =
    (case rt_ringbuffer_status rb of
       RT_RINGBUFFER_EMPTY \<Rightarrow> 0
     | RT_RINGBUFFER_FULL \<Rightarrow> buffer_size rb
     | RT_RINGBUFFER_HALFFULL \<Rightarrow>
         let wi = ucast (write_index rb); ri = ucast (read_index rb) in
         if wi > ri then wi - ri else buffer_size rb - (ri - wi))"

definition rt_ringbuffer_space_len :: "rt_ringbuffer \<Rightarrow> u32" where
  "rt_ringbuffer_space_len rb = buffer_size rb - rt_ringbuffer_data_len rb"

definition rt_ringbuffer_init :: "u8 list \<Rightarrow> u32 \<Rightarrow> rt_ringbuffer option" where
  "rt_ringbuffer_init pool sz = do {
    RT_ASSERT (sint sz > 0);
    Some \<lparr>buffer_ptr = pool, read_mirror = 0, read_index = 0, write_mirror = 0, write_index = 0,
      buffer_size = RT_ALIGN_DOWN sz RT_ALIGN_SIZE\<rparr> }"

definition rt_ringbuffer_reset :: "rt_ringbuffer \<Rightarrow> rt_ringbuffer" where
  "rt_ringbuffer_reset rb =
    rb\<lparr>read_mirror := 0, read_index := 0, write_mirror := 0, write_index := 0\<rparr>"

definition rt_ringbuffer_put :: "rt_ringbuffer \<Rightarrow> u8 list \<Rightarrow> u32 \<Rightarrow> (u32 \<times> rt_ringbuffer) option" where
  "rt_ringbuffer_put rb ptr len = (
    let sz = rt_ringbuffer_space_len rb in
    if sz = 0 then Some (0, rb)
    else
      let len = (if sz < len then sz else len);
          first = buffer_size rb - ucast (write_index rb)
      in
      if first > len then do {
        src \<leftarrow> slice ptr 0 (unat len);
        buf \<leftarrow> blit (buffer_ptr rb) (unat (write_index rb)) src;
        Some (len, rb\<lparr>buffer_ptr := buf, write_index := ucast (ucast (write_index rb) + len)\<rparr>)
      } else do {
        src \<leftarrow> slice ptr 0 (unat first);
        buf \<leftarrow> blit (buffer_ptr rb) (unat (write_index rb)) src;
        src2 \<leftarrow> slice ptr (unat first) (unat (len - first));
        buf \<leftarrow> blit buf 0 src2;
        Some (len, rb\<lparr>buffer_ptr := buf, write_mirror := NOT (write_mirror rb),
          write_index := ucast (len - first)\<rparr>)
      })"

definition rt_ringbuffer_put_force :: "rt_ringbuffer \<Rightarrow> u8 list \<Rightarrow> u32 \<Rightarrow> (u32 \<times> rt_ringbuffer) option" where
  "rt_ringbuffer_put_force rb ptr len = (
    let space_length = rt_ringbuffer_space_len rb;
        ptr = (if len > buffer_size rb then drop (unat (len - buffer_size rb)) ptr else ptr);
        len = (if len > buffer_size rb then buffer_size rb else len);
        first = buffer_size rb - ucast (write_index rb)
    in
    if first > len then do {
      src \<leftarrow> slice ptr 0 (unat len);
      buf \<leftarrow> blit (buffer_ptr rb) (unat (write_index rb)) src;
      let rb = rb\<lparr>buffer_ptr := buf, write_index := ucast (ucast (write_index rb) + len)\<rparr>;
      let rb = (if len > space_length then rb\<lparr>read_index := write_index rb\<rparr> else rb);
      Some (len, rb)
    } else do {
      src \<leftarrow> slice ptr 0 (unat first);
      buf \<leftarrow> blit (buffer_ptr rb) (unat (write_index rb)) src;
      src2 \<leftarrow> slice ptr (unat first) (unat (len - first));
      buf \<leftarrow> blit buf 0 src2;
      let rb = rb\<lparr>buffer_ptr := buf, write_mirror := NOT (write_mirror rb),
        write_index := ucast (len - first)\<rparr>;
      let rb = (if len > space_length then
          let rb = (if write_index rb \<le> read_index rb then rb\<lparr>read_mirror := NOT (read_mirror rb)\<rparr> else rb)
          in rb\<lparr>read_index := write_index rb\<rparr>
        else rb);
      Some (len, rb)
    })"

definition rt_ringbuffer_get :: "rt_ringbuffer \<Rightarrow> u32 \<Rightarrow> (u32 \<times> u8 list \<times> rt_ringbuffer) option" where
  "rt_ringbuffer_get rb len = (
    let sz = rt_ringbuffer_data_len rb in
    if sz = 0 then Some (0, [], rb)
    else
      let len = (if sz < len then sz else len);
          first = buffer_size rb - ucast (read_index rb)
      in
      if first > len then do {
        dst \<leftarrow> slice (buffer_ptr rb) (unat (read_index rb)) (unat len);
        Some (len, dst, rb\<lparr>read_index := ucast (ucast (read_index rb) + len)\<rparr>)
      } else do {
        dst \<leftarrow> slice (buffer_ptr rb) (unat (read_index rb)) (unat first);
        dst2 \<leftarrow> slice (buffer_ptr rb) 0 (unat (len - first));
        Some (len, dst @ dst2, rb\<lparr>read_mirror := NOT (read_mirror rb), read_index := ucast (len - first)\<rparr>)
      })"

text \<open>\<open>rt_ringbuffer_peek\<close> hands out a pointer into the pool: the offset, null when empty.\<close>

definition rt_ringbuffer_peek :: "rt_ringbuffer \<Rightarrow> u32 \<times> nat option \<times> rt_ringbuffer" where
  "rt_ringbuffer_peek rb = (
    let sz = rt_ringbuffer_data_len rb in
    if sz = 0 then (0, None, rb)
    else
      let p = Some (unat (read_index rb)) in
      if buffer_size rb - ucast (read_index rb) > sz then
        (sz, p, rb\<lparr>read_index := ucast (ucast (read_index rb) + sz)\<rparr>)
      else
        (buffer_size rb - ucast (read_index rb), p,
          rb\<lparr>read_mirror := NOT (read_mirror rb), read_index := 0\<rparr>))"

definition rt_ringbuffer_putchar :: "rt_ringbuffer \<Rightarrow> u8 \<Rightarrow> (u32 \<times> rt_ringbuffer) option" where
  "rt_ringbuffer_putchar rb ch = (
    if rt_ringbuffer_space_len rb = 0 then Some (0, rb)
    else do {
      buf \<leftarrow> blit (buffer_ptr rb) (unat (write_index rb)) [ch];
      let rb = rb\<lparr>buffer_ptr := buf\<rparr>;
      Some (1,
        if ucast (write_index rb) = buffer_size rb - 1
        then rb\<lparr>write_mirror := NOT (write_mirror rb), write_index := 0\<rparr>
        else rb\<lparr>write_index := write_index rb + 1\<rparr>)
    })"

definition rt_ringbuffer_putchar_force :: "rt_ringbuffer \<Rightarrow> u8 \<Rightarrow> (u32 \<times> rt_ringbuffer) option" where
  "rt_ringbuffer_putchar_force rb ch = do {
    let old_state = rt_ringbuffer_status rb;
    buf \<leftarrow> blit (buffer_ptr rb) (unat (write_index rb)) [ch];
    let rb = rb\<lparr>buffer_ptr := buf\<rparr>;
    Some (1,
      if ucast (write_index rb) = buffer_size rb - 1 then
        let rb = rb\<lparr>write_mirror := NOT (write_mirror rb), write_index := 0\<rparr> in
        if old_state = RT_RINGBUFFER_FULL
        then rb\<lparr>read_mirror := NOT (read_mirror rb), read_index := write_index rb\<rparr> else rb
      else
        let rb = rb\<lparr>write_index := write_index rb + 1\<rparr> in
        if old_state = RT_RINGBUFFER_FULL then rb\<lparr>read_index := write_index rb\<rparr> else rb)
  }"

definition rt_ringbuffer_getchar :: "rt_ringbuffer \<Rightarrow> (u32 \<times> u8 option \<times> rt_ringbuffer) option" where
  "rt_ringbuffer_getchar rb = (
    if rt_ringbuffer_data_len rb = 0 then Some (0, None, rb)
    else do {
      dst \<leftarrow> slice (buffer_ptr rb) (unat (read_index rb)) 1;
      Some (1, Some (hd dst),
        if ucast (read_index rb) = buffer_size rb - 1
        then rb\<lparr>read_mirror := NOT (read_mirror rb), read_index := 0\<rparr>
        else rb\<lparr>read_index := read_index rb + 1\<rparr>)
    })"

text \<open>
  \<open>rt_ringbuffer_create\<close> over the allocator, a parameter: \<open>malloc_rb\<close> says whether the
  control block could be allocated, \<open>malloc_pool\<close> returns the pool, of the size asked for.
\<close>

definition rt_ringbuffer_create :: "bool \<Rightarrow> (u32 \<Rightarrow> u8 list option) \<Rightarrow> u32 \<Rightarrow> rt_ringbuffer option option" where
  "rt_ringbuffer_create malloc_rb malloc_pool sz = do {
    RT_ASSERT (sz > 0);
    let sz = RT_ALIGN_DOWN sz RT_ALIGN_SIZE;
    if \<not> malloc_rb then Some None
    else case malloc_pool sz of
        None \<Rightarrow> Some None
      | Some pool \<Rightarrow> do { rb \<leftarrow> rt_ringbuffer_init pool sz; Some (Some rb) } }"

section \<open>Invariant and abstraction\<close>

definition rb_inv :: "rt_ringbuffer \<Rightarrow> bool" where
  "rb_inv rb \<longleftrightarrow>
    length (buffer_ptr rb) = unat (buffer_size rb) \<and> unat (buffer_size rb) < 2 ^ 31 \<and>
    unat (read_index rb) < unat (buffer_size rb) \<and> unat (write_index rb) < unat (buffer_size rb) \<and>
    (if read_mirror rb = write_mirror rb then unat (read_index rb) \<le> unat (write_index rb)
     else unat (write_index rb) \<le> unat (read_index rb))"

definition contents :: "rt_ringbuffer \<Rightarrow> u8 list" where
  "contents rb =
    (if read_mirror rb = write_mirror rb
     then take (unat (write_index rb) - unat (read_index rb)) (drop (unat (read_index rb)) (buffer_ptr rb))
     else drop (unat (read_index rb)) (buffer_ptr rb) @ take (unat (write_index rb)) (buffer_ptr rb))"

text \<open>The same over natural numbers: \<open>n\<close> bytes, reading at \<open>r\<close>, writing at \<open>w\<close>.\<close>

definition ring :: "bool \<Rightarrow> nat \<Rightarrow> nat \<Rightarrow> u8 list \<Rightarrow> u8 list" where
  "ring same r w buf = (if same then take (w - r) (drop r buf) else drop r buf @ take w buf)"

definition ring_ok :: "bool \<Rightarrow> nat \<Rightarrow> nat \<Rightarrow> nat \<Rightarrow> bool" where
  "ring_ok same r w n \<longleftrightarrow> r < n \<and> w < n \<and> (if same then r \<le> w else w \<le> r)"

definition overwrite :: "u8 list \<Rightarrow> nat \<Rightarrow> u8 list \<Rightarrow> u8 list" where
  "overwrite buf w xs = take w buf @ xs @ drop (w + length xs) buf"

lemma length_overwrite [simp]: "w + length xs \<le> length buf \<Longrightarrow> length (overwrite buf w xs) = length buf"
  by (simp add: overwrite_def)

lemma length_ring: "ring_ok same r w (length buf) \<Longrightarrow>
    length (ring same r w buf) = (if same then w - r else length buf - (r - w))"
  by (auto simp: ring_def ring_ok_def)

lemma ring_le: "ring_ok same r w (length buf) \<Longrightarrow> length (ring same r w buf) \<le> length buf"
  by (auto simp: length_ring ring_ok_def)

text \<open>Appending without reaching the end of the pool, and over the end.\<close>

lemma ring_append:
  assumes ok: "ring_ok same r w (length buf)" and k: "w + length xs < length buf"
    and sp: "length (ring same r w buf) + length xs \<le> length buf"
  shows "ring_ok same r (w + length xs) (length buf)"
    and "ring same r (w + length xs) (overwrite buf w xs) = ring same r w buf @ xs"
proof -
  have sp': "\<not> same \<Longrightarrow> w + length xs \<le> r" using ok sp by (auto simp: length_ring ring_ok_def)
  with ok k show "ring_ok same r (w + length xs) (length buf)" by (auto simp: ring_ok_def)
  show "ring same r (w + length xs) (overwrite buf w xs) = ring same r w buf @ xs"
  proof (cases same)
    case True
    then have "r \<le> w" "w < length buf" using ok by (auto simp: ring_ok_def)
    then show ?thesis using True k by (simp add: ring_def overwrite_def drop_take)
  next
    case False
    with sp' ok k show ?thesis by (simp add: ring_def overwrite_def ring_ok_def)
  qed
qed

lemma ring_append_wrap:
  assumes ok: "ring_ok same r w (length buf)" and k: "length buf - w = length xs"
    and sp: "length (ring same r w buf) + length xs + length ys \<le> length buf"
  shows "ring_ok (\<not> same) r (length ys) (length buf)"
    and "ring (\<not> same) r (length ys) (overwrite (overwrite buf w xs) 0 ys) = ring same r w buf @ xs @ ys"
proof -
  have same: same and sp': "length ys \<le> r"
    using ok sp k by (auto simp: length_ring ring_ok_def split: if_splits)
  with ok k sp show "ring_ok (\<not> same) r (length ys) (length buf)" by (auto simp: ring_ok_def)
  have "r \<le> w" "w < length buf" using ok same by (auto simp: ring_ok_def)
  then show "ring (\<not> same) r (length ys) (overwrite (overwrite buf w xs) 0 ys) = ring same r w buf @ xs @ ys"
    using same sp' k by (simp add: ring_def overwrite_def drop_take)
qed

text \<open>Forced writes that leave the ring full: the read index follows the write index.\<close>

lemma ring_force:
  assumes ok: "ring_ok same r w (length buf)" and k: "w + length xs < length buf"
    and sp: "length buf < length (ring same r w buf) + length xs"
  shows "\<not> same"
    and "ring_ok same (w + length xs) (w + length xs) (length buf)"
    and "ring same (w + length xs) (w + length xs) (overwrite buf w xs)
      = drop (length (ring same r w buf) + length xs - length buf) (ring same r w buf @ xs)"
proof -
  show ns: "\<not> same" using ok k sp by (auto simp: length_ring ring_ok_def)
  with k show "ring_ok same (w + length xs) (w + length xs) (length buf)" by (simp add: ring_ok_def)
  have w: "w \<le> r" "r < length buf" using ok ns by (auto simp: ring_ok_def)
  have l: "length (ring same r w buf) = length buf - r + w" using w ns by (simp add: ring_def)
  have e: "length (ring same r w buf) + length xs - length buf = w + length xs - r"
    "r + (w + length xs - r) = w + length xs"
    using w l sp by auto
  have z: "w + length xs - length buf = 0" "w + length xs - r - (length buf - r) = 0"
    "w + length xs - (length buf + w) = 0" using k w by auto
  show "ring same (w + length xs) (w + length xs) (overwrite buf w xs)
      = drop (length (ring same r w buf) + length xs - length buf) (ring same r w buf @ xs)"
    unfolding e(1) using ns w k e(2) z by (simp add: ring_def overwrite_def add.commute)
qed

lemma ring_force_wrap:
  assumes ok: "ring_ok same r w (length buf)" and k: "length buf - w = length xs"
    and n: "length xs + length ys \<le> length buf"
    and sp: "length buf < length (ring same r w buf) + length xs + length ys"
  shows "same \<longleftrightarrow> \<not> length ys \<le> r"
    and "ring_ok False (length ys) (length ys) (length buf)"
    and "ring False (length ys) (length ys) (overwrite (overwrite buf w xs) 0 ys)
      = drop (length (ring same r w buf) + length xs + length ys - length buf) (ring same r w buf @ xs @ ys)"
proof -
  have w: "w < length buf" "r < length buf" using ok by (auto simp: ring_ok_def)
  have yw: "length ys \<le> w" using k n w by linarith
  show same: "same \<longleftrightarrow> \<not> length ys \<le> r"
    using ok sp k yw by (auto simp: length_ring ring_ok_def split: if_splits)
  show "ring_ok False (length ys) (length ys) (length buf)" using yw w by (simp add: ring_ok_def)
  have over: "overwrite (overwrite buf w xs) 0 ys = ys @ drop (length ys) (take w buf) @ xs"
    using k w yw by (simp add: overwrite_def)
  have full: "ring False (length ys) (length ys) (overwrite (overwrite buf w xs) 0 ys)
      = drop (length ys) (take w buf) @ xs @ ys"
    unfolding over using yw by (simp add: ring_def)
  show "ring False (length ys) (length ys) (overwrite (overwrite buf w xs) 0 ys)
      = drop (length (ring same r w buf) + length xs + length ys - length buf) (ring same r w buf @ xs @ ys)"
  proof (cases same)
    case True
    then have rw: "r \<le> w" using ok by (simp add: ring_ok_def)
    have c: "ring same r w buf = drop r (take w buf)" using True by (simp add: ring_def drop_take)
    have e: "length (ring same r w buf) + length xs + length ys - length buf = length ys - r"
      using c rw w k sp by simp
    have "\<not> length ys \<le> r" using same True by simp
    then have r1: "r + (length ys - r) = length ys" by simp
    have r2: "length ys - r - (w - r) = 0" using yw by simp
    show ?thesis unfolding full e unfolding c using r1 r2 w rw by (simp add: add.commute)
  next
    case False
    then have rw: "w \<le> r" using ok by (simp add: ring_ok_def)
    have c: "ring same r w buf = drop r buf @ take w buf" using False by (simp add: ring_def)
    have e: "length (ring same r w buf) + length xs + length ys - length buf = length buf - r + length ys"
      using c rw w k sp by simp
    have r2: "length buf - r + length ys - (length buf - r) = length ys" by simp
    show ?thesis unfolding full e unfolding c using r2 w rw yw by simp
  qed
qed

text \<open>Reading without reaching the end of the pool, and over the end.\<close>

lemma ring_read:
  assumes ok: "ring_ok same r w (length buf)" and k: "r + k < length buf"
    and len: "k \<le> length (ring same r w buf)"
  shows "ring_ok same (r + k) w (length buf)"
    and "take k (drop r buf) = take k (ring same r w buf)"
    and "ring same (r + k) w buf = drop k (ring same r w buf)"
  using ok k len by (auto simp: ring_ok_def ring_def min_def drop_take add.commute split: if_splits)

lemma ring_read_wrap:
  assumes ok: "ring_ok same r w (length buf)" and k: "length buf - r \<le> k"
    and len: "k \<le> length (ring same r w buf)"
  shows "\<not> same"
    and "ring_ok (\<not> same) (k - (length buf - r)) w (length buf)"
    and "drop r buf @ take (k - (length buf - r)) buf = take k (ring same r w buf)"
    and "ring (\<not> same) (k - (length buf - r)) w buf = drop k (ring same r w buf)"
proof -
  show ns: "\<not> same" using ok k len by (auto simp: length_ring ring_ok_def)
  have w: "w \<le> r" "r < length buf" using ok ns by (auto simp: ring_ok_def)
  have kw: "k - (length buf - r) \<le> w" using len w ns by (simp add: ring_def)
  show "ring_ok (\<not> same) (k - (length buf - r)) w (length buf)"
    using ns w kw by (simp add: ring_ok_def)
  show "drop r buf @ take (k - (length buf - r)) buf = take k (ring same r w buf)"
    using ns w kw k by (simp add: ring_def min_absorb1)
  show "ring (\<not> same) (k - (length buf - r)) w buf = drop k (ring same r w buf)"
    using ns w kw k by (simp add: ring_def drop_take)
qed

section \<open>From words to numbers\<close>

lemma unat_index [simp]: "unat (ucast (i :: index) :: u32) = unat i"
proof -
  have "unat i < 2 ^ 31" using unsigned_less [of i] by simp
  then show ?thesis by (simp add: unsigned_ucast_eq take_bit_nat_eq_self)
qed

lemma unat_to_index: "unat (x :: u32) < 2 ^ 31 \<Longrightarrow> unat (ucast x :: index) = unat x"
  by (simp add: unsigned_ucast_eq take_bit_nat_eq_self)

lemma mirror_cases: "(m :: mirror) = 0 \<or> m = 1"
  by (metis One_nat_def Suc_1 len_num1 less_2_cases_iff numeral_1_eq_Suc_0 power_one_right unat_1 unat_eq_zero unsigned_less word_unat_eq_iff)

lemma mirror_not [simp]:
  "NOT (a :: mirror) = b \<longleftrightarrow> a \<noteq> b" "(a :: mirror) = NOT b \<longleftrightarrow> a \<noteq> b"
  using mirror_cases [of a] mirror_cases [of b] by auto

abbreviation "ring_same rb \<equiv> read_mirror rb = write_mirror rb"
abbreviation "r_ix rb \<equiv> unat (read_index rb)"
abbreviation "w_ix rb \<equiv> unat (write_index rb)"
abbreviation "cap rb \<equiv> unat (buffer_size rb)"

lemma contents_ring: "contents rb = ring (ring_same rb) (r_ix rb) (w_ix rb) (buffer_ptr rb)"
  by (simp add: contents_def ring_def)

lemma rb_inv_ring: "rb_inv rb \<longleftrightarrow>
    length (buffer_ptr rb) = cap rb \<and> cap rb < 2 ^ 31 \<and> ring_ok (ring_same rb) (r_ix rb) (w_ix rb) (length (buffer_ptr rb))"
  by (auto simp: rb_inv_def ring_ok_def)

lemma status_cases:
  "rb_inv rb \<Longrightarrow> rt_ringbuffer_status rb =
    (if r_ix rb = w_ix rb then if ring_same rb then RT_RINGBUFFER_EMPTY else RT_RINGBUFFER_FULL
     else RT_RINGBUFFER_HALFFULL)"
  by (simp add: rt_ringbuffer_status_def word_unat_eq_iff)

lemma data_len:
  assumes "rb_inv rb"
  shows "unat (rt_ringbuffer_data_len rb) = length (contents rb)"
proof -
  have ok: "ring_ok (ring_same rb) (r_ix rb) (w_ix rb) (cap rb)" and b: "length (buffer_ptr rb) = cap rb"
    using assms by (auto simp: rb_inv_ring)
  have l: "length (contents rb) = (if ring_same rb then w_ix rb - r_ix rb else cap rb - (r_ix rb - w_ix rb))"
    using ok b by (simp add: contents_ring length_ring)
  let ?wi = "ucast (write_index rb) :: u32" and ?ri = "ucast (read_index rb) :: u32"
  consider "r_ix rb = w_ix rb" | "r_ix rb < w_ix rb" | "w_ix rb < r_ix rb" by linarith
  then show ?thesis
  proof cases
    case 1
    with l show ?thesis
      by (simp add: rt_ringbuffer_data_len_def status_cases [OF assms])
  next
    case 2
    then have "?ri < ?wi" by (simp add: word_less_nat_alt)
    with 2 l ok show ?thesis
      by (simp add: rt_ringbuffer_data_len_def status_cases [OF assms] Let_def unat_minus_le ring_ok_def
          split: if_splits)
  next
    case 3
    then have lt: "\<not> ?ri < ?wi" and le: "?wi \<le> ?ri" by (simp_all add: word_less_nat_alt word_le_nat_alt)
    have d: "unat (?ri - ?wi) = r_ix rb - w_ix rb" using unat_minus_le [OF le] by simp
    have "r_ix rb < cap rb" using ok by (simp add: ring_ok_def)
    with d have "?ri - ?wi \<le> buffer_size rb" unfolding word_le_nat_alt by linarith
    from unat_minus_le [OF this] 3 lt l d ok show ?thesis
      by (simp add: rt_ringbuffer_data_len_def status_cases [OF assms] Let_def ring_ok_def split: if_splits)
  qed
qed

lemma contents_le: "rb_inv rb \<Longrightarrow> length (contents rb) \<le> cap rb"
  using ring_le [of "ring_same rb" "r_ix rb" "w_ix rb" "buffer_ptr rb"]
  by (auto simp: rb_inv_ring contents_ring)

lemma space_len:
  assumes "rb_inv rb"
  shows "unat (rt_ringbuffer_space_len rb) = cap rb - length (contents rb)"
proof -
  have "rt_ringbuffer_data_len rb \<le> buffer_size rb"
    using contents_le [OF assms] data_len [OF assms] by (simp add: word_le_nat_alt)
  from unat_minus_le [OF this] show ?thesis
    by (simp add: rt_ringbuffer_space_len_def data_len [OF assms])
qed

lemma first_len:
  assumes "rb_inv rb"
  shows "unat (buffer_size rb - ucast (write_index rb)) = cap rb - w_ix rb"
    and "unat (buffer_size rb - ucast (read_index rb)) = cap rb - r_ix rb"
  using assms by (simp_all add: unat_minus_le word_le_nat_alt rb_inv_def)

lemma advance_index:
  assumes "unat (i :: index) + unat (len :: u32) < 2 ^ 31"
  shows "unat (ucast (ucast i + len) :: index) = unat i + unat len"
proof -
  have "unat (ucast i + len :: u32) = unat i + unat len"
    using unat_plus_less [of "ucast i :: u32" len] assms by simp
  with assms show ?thesis by (simp add: unat_to_index)
qed

lemma blit_overwrite: "w + length xs \<le> length buf \<Longrightarrow> blit buf w xs = Some (overwrite buf w xs)"
  by (simp add: blit_def overwrite_def)

lemma slice_take: "i + n \<le> length xs \<Longrightarrow> slice xs i n = Some (take n (drop i xs))"
  by (simp add: slice_def)

lemma overwrite_append:
  assumes "length ys \<le> w" "length buf = w + length xs"
  shows "length (overwrite (overwrite buf w xs) 0 ys) = length buf"
  using assms by simp

section \<open>Operations on the queue of bytes\<close>

text \<open>The word tests of the operations, read as numbers.\<close>

lemma min_len: "unat (if (a :: u32) < b then a else b) = min (unat a) (unat b)"
  by (simp add: word_less_nat_alt min_def)

lemma put_spec:
  assumes inv: "rb_inv rb" and len: "unat len \<le> length ptr"
  defines "k \<equiv> min (cap rb - length (contents rb)) (unat len)"
  shows "\<exists>n rb'. rt_ringbuffer_put rb ptr len = Some (n, rb') \<and> unat n = k \<and> rb_inv rb' \<and>
    buffer_size rb' = buffer_size rb \<and> contents rb' = contents rb @ take k ptr"
proof (cases "rt_ringbuffer_space_len rb = 0")
  case True
  then have "k = 0" using space_len [OF inv] by (simp add: k_def)
  with True inv show ?thesis by (simp add: rt_ringbuffer_put_def)
next
  case False
  define L where "L = (if rt_ringbuffer_space_len rb < len then rt_ringbuffer_space_len rb else len)"
  let ?first = "buffer_size rb - ucast (write_index rb) :: u32"
  have k: "unat L = k" unfolding L_def min_len k_def space_len [OF inv] ..
  have kl: "k \<le> length ptr" using len by (simp add: k_def)
  have ok: "ring_ok (ring_same rb) (r_ix rb) (w_ix rb) (length (buffer_ptr rb))"
    and b: "length (buffer_ptr rb) = cap rb" and m: "cap rb < 2 ^ 31"
    using inv by (auto simp: rb_inv_ring)
  have sp: "length (contents rb) + k \<le> cap rb" using contents_le [OF inv] by (simp add: k_def)
  have w: "w_ix rb < cap rb" using ok b by (simp add: ring_ok_def)
  note first = first_len(1) [OF inv]
  show ?thesis
  proof (cases "?first > L")
    case True
    then have room: "w_ix rb + k < cap rb" using first k by (simp add: word_less_nat_alt)
    let ?xs = "take k ptr"
    let ?rb = "rb\<lparr>buffer_ptr := overwrite (buffer_ptr rb) (w_ix rb) ?xs,
        write_index := ucast (ucast (write_index rb) + L)\<rparr>"
    have lx: "length ?xs = k" using kl by simp
    have wi: "w_ix ?rb = w_ix rb + k" using advance_index [of "write_index rb" L] room m k by simp
    have put: "rt_ringbuffer_put rb ptr len = Some (L, ?rb)"
      unfolding rt_ringbuffer_put_def Let_def L_def [symmetric] if_not_P [OF False] if_P [OF True] k
      using slice_take [of 0 k ptr] blit_overwrite [of "w_ix rb" ?xs "buffer_ptr rb"] kl room b by simp
    have rok: "ring_ok (ring_same ?rb) (r_ix ?rb) (w_ix ?rb) (length (buffer_ptr ?rb))"
      and rc: "contents ?rb = contents rb @ ?xs"
      using ring_append [OF ok, of ?xs] room b sp lx wi by (auto simp: contents_ring)
    with put k b m lx room show ?thesis
      by (intro exI [of _ L] exI [of _ ?rb]) (simp add: rb_inv_ring)
  next
    case False': False
    then have wrap: "cap rb - w_ix rb \<le> k" using first k by (simp add: word_less_nat_alt not_less)
    let ?f = "cap rb - w_ix rb"
    let ?xs = "take ?f ptr" and ?ys = "take (k - ?f) (drop ?f ptr)"
    have "?first \<le> L" using False' by simp
    then have rest: "unat (L - ?first) = k - ?f"
      using unat_minus_le [of ?first L] first k by simp
    let ?rb = "rb\<lparr>buffer_ptr := overwrite (overwrite (buffer_ptr rb) (w_ix rb) ?xs) 0 ?ys,
        write_mirror := NOT (write_mirror rb), write_index := ucast (L - ?first)\<rparr>"
    have lx: "length ?xs = ?f" and ly: "length ?ys = k - ?f" using kl wrap by auto
    have kn: "k \<le> cap rb" using sp by simp
    have "k - ?f < 2 ^ 31" using kn m by linarith
    then have wi: "w_ix ?rb = length ?ys" using unat_to_index [of "L - ?first"] rest ly by simp
    have put: "rt_ringbuffer_put rb ptr len = Some (L, ?rb)"
      unfolding rt_ringbuffer_put_def Let_def L_def [symmetric] if_not_P [OF False] if_not_P [OF False'] first rest
      using slice_take [of 0 ?f ptr] slice_take [of ?f "k - ?f" ptr] kl wrap b w lx ly kn
        blit_overwrite [of "w_ix rb" ?xs "buffer_ptr rb"]
        blit_overwrite [of 0 ?ys "overwrite (buffer_ptr rb) (w_ix rb) ?xs"] by simp
    have split: "?xs @ ?ys = take k ptr"
      using wrap by (metis le_add_diff_inverse take_add)
    have lr: "length (ring (ring_same rb) (r_ix rb) (w_ix rb) (buffer_ptr rb)) + length ?xs + length ?ys
        \<le> length (buffer_ptr rb)"
      using sp wrap b unfolding lx ly contents_ring by simp
    have fx: "length (buffer_ptr rb) - w_ix rb = length ?xs" unfolding lx b ..
    note ra = ring_append_wrap [OF ok fx lr]
    have lb: "length (buffer_ptr ?rb) = cap rb" using lx ly b kn w by simp
    have rok: "ring_ok (ring_same ?rb) (r_ix ?rb) (w_ix ?rb) (length (buffer_ptr ?rb))"
      using ra(1) wi lb b by simp
    have rc: "contents ?rb = contents rb @ take k ptr"
      using ra(2) wi split by (simp add: contents_ring)
    from put k b m lb rok rc show ?thesis
      by (intro exI [of _ L] exI [of _ ?rb]) (simp add: rb_inv_ring)
  qed
qed

lemma put_force_spec:
  assumes inv: "rb_inv rb" and len: "unat len \<le> length ptr"
  defines "all \<equiv> contents rb @ take (unat len) ptr"
  shows "\<exists>n rb'. rt_ringbuffer_put_force rb ptr len = Some (n, rb') \<and> unat n = min (cap rb) (unat len) \<and>
    rb_inv rb' \<and> buffer_size rb' = buffer_size rb \<and> contents rb' = drop (length all - cap rb) all"
proof -
  define L where "L = (if len > buffer_size rb then buffer_size rb else len)"
  define P where "P = (if len > buffer_size rb then drop (unat (len - buffer_size rb)) ptr else ptr)"
  define S where "S = rt_ringbuffer_space_len rb"
  let ?first = "buffer_size rb - ucast (write_index rb) :: u32"
  let ?k = "unat L"
  have k: "?k = min (cap rb) (unat len)" by (simp add: L_def word_less_nat_alt min_def)
  have kl: "?k \<le> length P"
    using len unat_minus_le [of "buffer_size rb" len] by (auto simp: P_def L_def word_less_nat_alt word_le_nat_alt)
  have ok: "ring_ok (ring_same rb) (r_ix rb) (w_ix rb) (length (buffer_ptr rb))"
    and b: "length (buffer_ptr rb) = cap rb" and m: "cap rb < 2 ^ 31"
    using inv by (auto simp: rb_inv_ring)
  have w: "w_ix rb < cap rb" and r: "r_ix rb < cap rb" using ok b by (simp_all add: ring_ok_def)
  have kn: "?k \<le> cap rb" using k by simp
  have c: "length (contents rb) \<le> cap rb" by (rule contents_le [OF inv])
  have S: "L > S \<longleftrightarrow> cap rb < length (contents rb) + ?k"
    using space_len [OF inv] c by (auto simp: S_def word_less_nat_alt)
  have goal: "drop (length all - cap rb) all = drop (length (contents rb) + ?k - cap rb) (contents rb @ take ?k P)"
  proof (cases "len > buffer_size rb")
    case True
    then have le: "cap rb < unat len" and d: "unat (len - buffer_size rb) = unat len - cap rb"
      using unat_minus_le [of "buffer_size rb" len] by (simp_all add: word_less_nat_alt word_le_nat_alt)
    have Pk: "?k = cap rb" "P = drop (unat len - cap rb) ptr" using True d by (simp_all add: L_def P_def)
    have "length all - cap rb = length (contents rb) + (unat len - cap rb)"
      using le len by (simp add: all_def)
    then show ?thesis using le Pk by (simp add: all_def drop_take)
  next
    case False
    then show ?thesis using len by (simp add: L_def P_def all_def)
  qed
  note first = first_len(1) [OF inv]
  note unf = rt_ringbuffer_put_force_def Let_def L_def [symmetric] P_def [symmetric] S_def [symmetric]
  show ?thesis
  proof (cases "?first > L")
    case True
    then have room: "w_ix rb + ?k < cap rb" using first by (simp add: word_less_nat_alt)
    let ?xs = "take ?k P"
    let ?rb = "rb\<lparr>buffer_ptr := overwrite (buffer_ptr rb) (w_ix rb) ?xs,
        write_index := ucast (ucast (write_index rb) + L)\<rparr>"
    let ?rb' = "if L > S then ?rb\<lparr>read_index := write_index ?rb\<rparr> else ?rb"
    have lx: "length ?xs = ?k" using kl by simp
    have wi: "w_ix ?rb = w_ix rb + ?k" using advance_index [of "write_index rb" L] room m by simp
    have put: "rt_ringbuffer_put_force rb ptr len = Some (L, ?rb')"
      unfolding unf if_P [OF True]
      using slice_take [of 0 ?k P] blit_overwrite [of "w_ix rb" ?xs "buffer_ptr rb"] kl room b by simp
    have "rb_inv ?rb' \<and> contents ?rb' = drop (length all - cap rb) all"
    proof (cases "L > S")
      case LS: True
      note f = ring_force [OF ok, of ?xs]
      show ?thesis
        unfolding goal using f LS S wi lx room b m by (simp add: contents_ring rb_inv_ring)
    next
      case LS: False
      note f = ring_append [OF ok, of ?xs]
      show ?thesis
        unfolding goal using f LS S wi lx room b m by (simp add: contents_ring rb_inv_ring)
    qed
    moreover have "buffer_size ?rb' = buffer_size rb" by simp
    ultimately show ?thesis using put k by blast
  next
    case False
    then have wrap: "cap rb - w_ix rb \<le> ?k" using first by (simp add: word_less_nat_alt not_less)
    let ?f = "cap rb - w_ix rb"
    define xs where "xs = take ?f P"
    define ys where "ys = take (?k - ?f) (drop ?f P)"
    define W :: index where "W = ucast (L - ?first)"
    have "?first \<le> L" using False by simp
    then have rest: "unat (L - ?first) = ?k - ?f" using unat_minus_le [of ?first L] first by simp
    define B where "B = overwrite (overwrite (buffer_ptr rb) (w_ix rb) xs) 0 ys"
    let ?rb = "rb\<lparr>buffer_ptr := B, write_mirror := NOT (write_mirror rb), write_index := W\<rparr>"
    have lx: "length xs = ?f" and ly: "length ys = ?k - ?f" using kl wrap by (auto simp: xs_def ys_def)
    have "?k - ?f < 2 ^ 31" using kn m by linarith
    then have wi: "unat W = length ys"
      using unat_to_index [of "L - ?first"] rest ly by (simp add: W_def)
    have bl: "blit (buffer_ptr rb) (w_ix rb) xs = Some (overwrite (buffer_ptr rb) (w_ix rb) xs)"
      "blit (overwrite (buffer_ptr rb) (w_ix rb) xs) 0 ys = Some B"
      using b w lx ly kn by (simp_all add: blit_overwrite B_def)
    have put: "rt_ringbuffer_put_force rb ptr len = Some (L,
        if L > S then (if W \<le> read_index rb then ?rb\<lparr>read_mirror := NOT (read_mirror rb)\<rparr> else ?rb)\<lparr>read_index := W\<rparr>
        else ?rb)"
      unfolding unf if_not_P [OF False] first rest
      using slice_take [of 0 ?f P] slice_take [of ?f "?k - ?f" P] kl wrap bl
      by (simp flip: xs_def ys_def W_def)
    have split: "xs @ ys = take ?k P"
      unfolding xs_def ys_def using wrap by (metis le_add_diff_inverse take_add)
    have sum: "length xs + length ys = ?k" unfolding lx ly using wrap by simp
    have fx: "length (buffer_ptr rb) - w_ix rb = length xs" unfolding lx b ..
    have lb: "length B = cap rb" using lx ly b kn w by (simp add: B_def)
    have lec: "W \<le> read_index rb \<longleftrightarrow> length ys \<le> r_ix rb" using wi by (simp add: word_le_nat_alt)
    show ?thesis
    proof (cases "L > S")
      case LS: True
      have n: "length xs + length ys \<le> length (buffer_ptr rb)" using sum kn b by simp
      have sp: "length (buffer_ptr rb) < length (ring (ring_same rb) (r_ix rb) (w_ix rb) (buffer_ptr rb))
          + length xs + length ys"
        using LS S sum b unfolding contents_ring by simp
      note f = ring_force_wrap [OF ok fx n sp]
      have e: "drop (length (contents rb) + length xs + length ys - length (buffer_ptr rb)) (contents rb @ xs @ ys)
          = drop (length all - cap rb) all"
        by (simp only: goal split sum b add.assoc)
      let ?rb' = "(if W \<le> read_index rb then ?rb\<lparr>read_mirror := NOT (read_mirror rb)\<rparr> else ?rb)\<lparr>read_index := W\<rparr>"
      have fl: "read_mirror ?rb' \<noteq> write_mirror ?rb'" "r_ix ?rb' = length ys" "w_ix ?rb' = length ys"
        "buffer_ptr ?rb' = B" "buffer_size ?rb' = buffer_size rb"
        using f(1) lec wi by auto
      have "rb_inv ?rb'" using f(2) lb b m unfolding rb_inv_ring fl(2-5) by (simp only: fl(1) if_False)
      moreover have "contents ?rb' = drop (length all - cap rb) all"
        using f(3) unfolding contents_ring fl(2-4) B_def [symmetric] e [symmetric] by (simp only: fl(1) refl)
      ultimately show ?thesis using put LS k fl(5) by (intro exI [of _ L] exI [of _ ?rb']) (simp only: if_True simp_thms)
    next
      case LS: False
      have sp: "length (ring (ring_same rb) (r_ix rb) (w_ix rb) (buffer_ptr rb)) + length xs + length ys
          \<le> length (buffer_ptr rb)"
        using LS S sum b unfolding contents_ring by simp
      note f = ring_append_wrap [OF ok fx sp]
      have "contents ?rb = contents rb @ xs @ ys"
        using f(2) wi by (simp add: contents_ring flip: B_def)
      moreover have "length (contents rb) + ?k - cap rb = 0" using LS S by simp
      moreover have "rb_inv ?rb" using f(1) wi lb b m by (simp add: rb_inv_ring)
      ultimately show ?thesis
        using put LS k unfolding goal split by (intro exI [of _ L] exI [of _ ?rb]) simp
    qed
  qed
qed

lemma get_spec:
  fixes len :: u32
  assumes inv: "rb_inv rb"
  defines "k \<equiv> min (length (contents rb)) (unat len)"
  shows "\<exists>n rb'. rt_ringbuffer_get rb len = Some (n, take k (contents rb), rb') \<and> unat n = k \<and>
    rb_inv rb' \<and> buffer_size rb' = buffer_size rb \<and> contents rb' = drop k (contents rb)"
proof (cases "rt_ringbuffer_data_len rb = 0")
  case True
  then have "k = 0" using data_len [OF inv] by (simp add: k_def)
  with True inv show ?thesis by (simp add: rt_ringbuffer_get_def)
next
  case False
  define L where "L = (if rt_ringbuffer_data_len rb < len then rt_ringbuffer_data_len rb else len)"
  let ?first = "buffer_size rb - ucast (read_index rb) :: u32"
  have k: "unat L = k" unfolding L_def min_len k_def data_len [OF inv] ..
  have ok: "ring_ok (ring_same rb) (r_ix rb) (w_ix rb) (length (buffer_ptr rb))"
    and b: "length (buffer_ptr rb) = cap rb" and m: "cap rb < 2 ^ 31"
    using inv by (auto simp: rb_inv_ring)
  have kc: "k \<le> length (ring (ring_same rb) (r_ix rb) (w_ix rb) (buffer_ptr rb))"
    by (simp add: k_def flip: contents_ring)
  have r: "r_ix rb < cap rb" using ok b by (simp add: ring_ok_def)
  note first = first_len(2) [OF inv]
  note unf = rt_ringbuffer_get_def Let_def L_def [symmetric] if_not_P [OF False]
  show ?thesis
  proof (cases "?first > L")
    case True
    then have room: "r_ix rb + k < cap rb" using first k by (simp add: word_less_nat_alt)
    let ?rb = "rb\<lparr>read_index := ucast (ucast (read_index rb) + L)\<rparr>"
    have ri: "r_ix ?rb = r_ix rb + k" using advance_index [of "read_index rb" L] room m k by simp
    have rk: "r_ix rb + k < length (buffer_ptr rb)" using room b by simp
    note f = ring_read [OF ok rk kc]
    have "rt_ringbuffer_get rb len = Some (L, take k (contents rb), ?rb)"
      unfolding unf if_P [OF True] k using slice_take [of "r_ix rb" k "buffer_ptr rb"] room b f(2)
      by (simp add: contents_ring)
    moreover have "rb_inv ?rb \<and> contents ?rb = drop k (contents rb)"
      using f(1,3) ri b m by (simp add: rb_inv_ring contents_ring)
    ultimately show ?thesis using k by (intro exI [of _ L] exI [of _ ?rb]) simp
  next
    case False': False
    let ?f = "cap rb - r_ix rb"
    have wrap: "?f \<le> k" using False' first k by (simp add: word_less_nat_alt not_less)
    have "?first \<le> L" using False' by simp
    then have rest: "unat (L - ?first) = k - ?f" using unat_minus_le [of ?first L] first k by simp
    let ?rb = "rb\<lparr>read_mirror := NOT (read_mirror rb), read_index := ucast (L - ?first)\<rparr>"
    have wb: "length (buffer_ptr rb) - r_ix rb \<le> k" using wrap b by simp
    note f = ring_read_wrap [OF ok wb kc]
    have kn: "k - ?f < cap rb" using f(2) b by (simp add: ring_ok_def)
    then have ri: "r_ix ?rb = k - ?f" using unat_to_index [of "L - ?first"] rest m by simp
    have "rt_ringbuffer_get rb len = Some (L, take k (contents rb), ?rb)"
      unfolding unf if_not_P [OF False'] first rest
      using slice_take [of "r_ix rb" ?f "buffer_ptr rb"] slice_take [of 0 "k - ?f" "buffer_ptr rb"]
        r b kn f(3) by (simp add: contents_ring)
    moreover have "rb_inv ?rb \<and> contents ?rb = drop k (contents rb)"
      using f(2,4) ri b m by (simp add: rb_inv_ring contents_ring)
    ultimately show ?thesis using k by (intro exI [of _ L] exI [of _ ?rb]) simp
  qed
qed

text \<open>\<open>rt_ringbuffer_peek\<close> hands out, and consumes, the part of the queue that is contiguous.\<close>

lemma peek_spec:
  assumes inv: "rb_inv rb" and ne: "contents rb \<noteq> []"
  shows "\<exists>n rb'. rt_ringbuffer_peek rb = (n, Some (r_ix rb), rb') \<and> 0 < unat n \<and>
    unat n \<le> length (contents rb) \<and>
    take (unat n) (drop (r_ix rb) (buffer_ptr rb)) = take (unat n) (contents rb) \<and>
    rb_inv rb' \<and> contents rb' = drop (unat n) (contents rb)"
proof -
  have len: "unat (rt_ringbuffer_data_len rb) = length (contents rb)" by (rule data_len [OF inv])
  then have nz: "rt_ringbuffer_data_len rb \<noteq> 0" using ne by auto
  have ok: "ring_ok (ring_same rb) (r_ix rb) (w_ix rb) (length (buffer_ptr rb))"
    and b: "length (buffer_ptr rb) = cap rb" and m: "cap rb < 2 ^ 31"
    using inv by (auto simp: rb_inv_ring)
  have r: "r_ix rb < cap rb" using ok b by (simp add: ring_ok_def)
  note first = first_len(2) [OF inv]
  show ?thesis
  proof (cases "buffer_size rb - ucast (read_index rb) > rt_ringbuffer_data_len rb")
    case True
    let ?k = "length (contents rb)"
    have room: "r_ix rb + ?k < length (buffer_ptr rb)"
      using True first len b by (simp add: word_less_nat_alt)
    let ?rb = "rb\<lparr>read_index := ucast (ucast (read_index rb) + rt_ringbuffer_data_len rb)\<rparr>"
    have ri: "r_ix ?rb = r_ix rb + ?k"
      using advance_index [of "read_index rb" "rt_ringbuffer_data_len rb"] room b m len by simp
    have "?k \<le> length (ring (ring_same rb) (r_ix rb) (w_ix rb) (buffer_ptr rb))" by (simp add: contents_ring)
    note f = ring_read [OF ok room this]
    have "rt_ringbuffer_peek rb = (rt_ringbuffer_data_len rb, Some (r_ix rb), ?rb)"
      unfolding rt_ringbuffer_peek_def Let_def using nz True by simp
    moreover have "rb_inv ?rb \<and> contents ?rb = drop ?k (contents rb)"
      using f(1,3) ri b m by (simp add: rb_inv_ring contents_ring)
    ultimately show ?thesis using f(2) len ne by (simp add: contents_ring)
  next
    case False
    let ?f = "cap rb - r_ix rb"
    have fk: "?f \<le> length (contents rb)" using False first len by (simp add: word_less_nat_alt not_less)
    let ?rb = "rb\<lparr>read_mirror := NOT (read_mirror rb), read_index := 0\<rparr>"
    have wb: "length (buffer_ptr rb) - r_ix rb \<le> ?f" using b by simp
    have "?f \<le> length (ring (ring_same rb) (r_ix rb) (w_ix rb) (buffer_ptr rb))"
      using fk by (simp add: contents_ring)
    note f = ring_read_wrap [OF ok wb this]
    have "rt_ringbuffer_peek rb = (buffer_size rb - ucast (read_index rb), Some (r_ix rb), ?rb)"
      unfolding rt_ringbuffer_peek_def Let_def using nz False by simp
    moreover have "rb_inv ?rb \<and> contents ?rb = drop ?f (contents rb)"
      using f(2,4) b m by (simp add: rb_inv_ring contents_ring)
    moreover have "take ?f (drop (r_ix rb) (buffer_ptr rb)) = take ?f (contents rb)"
      using f(3) b by (simp add: contents_ring)
    ultimately show ?thesis using first r fk by simp
  qed
qed

text \<open>Single bytes: the index tests against the last byte of the pool.\<close>

lemma last_index:
  assumes "rb_inv rb" and "unat (i :: index) < cap rb"
  shows "(ucast i :: u32) = buffer_size rb - 1 \<longleftrightarrow> unat i + 1 = cap rb"
proof -
  have "unat (buffer_size rb - 1) = cap rb - 1"
    using unat_minus_le [of 1 "buffer_size rb"] assms(2) by (simp add: word_le_nat_alt)
  then show ?thesis using assms(2) by (auto simp: word_unat_eq_iff)
qed

lemma index_Suc: "unat (i :: index) + 1 < 2 ^ 31 \<Longrightarrow> unat (i + 1) = unat i + 1"
  using unat_plus_less [of i 1] by simp

lemma putchar_spec:
  assumes inv: "rb_inv rb" and room: "length (contents rb) < cap rb"
  shows "\<exists>rb'. rt_ringbuffer_putchar rb ch = Some (1, rb') \<and> rb_inv rb' \<and>
    buffer_size rb' = buffer_size rb \<and> contents rb' = contents rb @ [ch]"
proof -
  have ok: "ring_ok (ring_same rb) (r_ix rb) (w_ix rb) (length (buffer_ptr rb))"
    and b: "length (buffer_ptr rb) = cap rb" and m: "cap rb < 2 ^ 31"
    using inv by (auto simp: rb_inv_ring)
  have w: "w_ix rb < cap rb" using ok b by (simp add: ring_ok_def)
  have nz: "rt_ringbuffer_space_len rb \<noteq> 0"
    using space_len [OF inv] room by (auto simp: word_unat_eq_iff)
  have bl: "blit (buffer_ptr rb) (w_ix rb) [ch] = Some (overwrite (buffer_ptr rb) (w_ix rb) [ch])"
    using w b by (simp add: blit_overwrite)
  let ?rb = "rb\<lparr>buffer_ptr := overwrite (buffer_ptr rb) (w_ix rb) [ch]\<rparr>"
  have lb: "length (buffer_ptr ?rb) = cap rb" using w b by simp
  have put: "rt_ringbuffer_putchar rb ch = Some (1,
        if w_ix rb + 1 = cap rb then ?rb\<lparr>write_mirror := NOT (write_mirror rb), write_index := 0\<rparr>
        else ?rb\<lparr>write_index := write_index rb + 1\<rparr>)"
    unfolding rt_ringbuffer_putchar_def Let_def if_not_P [OF nz] bl bind.simps(2)
    by (simp add: last_index [OF inv w])
  show ?thesis
  proof (cases "w_ix rb + 1 = cap rb")
    case True
    have sp: "length (ring (ring_same rb) (r_ix rb) (w_ix rb) (buffer_ptr rb)) + length [ch] + length ([] :: u8 list)
        \<le> length (buffer_ptr rb)"
      using room b by (simp flip: contents_ring)
    have x: "length (buffer_ptr rb) - w_ix rb = length [ch]" using True b by simp
    note f = ring_append_wrap [OF ok x sp]
    have o: "overwrite (overwrite (buffer_ptr rb) (w_ix rb) [ch]) 0 [] = overwrite (buffer_ptr rb) (w_ix rb) [ch]"
      by (simp add: overwrite_def)
    from put True f lb b m show ?thesis unfolding o by (simp add: rb_inv_ring contents_ring)
  next
    case False
    then have wk: "w_ix rb + length [ch] < length (buffer_ptr rb)" using w b by simp
    have sp: "length (ring (ring_same rb) (r_ix rb) (w_ix rb) (buffer_ptr rb)) + length [ch] \<le> length (buffer_ptr rb)"
      using room b by (simp flip: contents_ring)
    note f = ring_append [OF ok wk sp]
    have "unat (write_index rb + 1) = w_ix rb + 1" using index_Suc wk b m by simp
    with put False f lb b m show ?thesis by (simp add: rb_inv_ring contents_ring)
  qed
qed

lemma putchar_full:
  "rb_inv rb \<Longrightarrow> length (contents rb) = cap rb \<Longrightarrow> rt_ringbuffer_putchar rb ch = Some (0, rb)"
  using space_len [of rb] by (simp add: rt_ringbuffer_putchar_def word_unat_eq_iff)

lemma getchar_spec:
  assumes inv: "rb_inv rb" and c: "contents rb = x # xs"
  shows "\<exists>rb'. rt_ringbuffer_getchar rb = Some (1, Some x, rb') \<and> rb_inv rb' \<and>
    buffer_size rb' = buffer_size rb \<and> contents rb' = xs"
proof -
  have ok: "ring_ok (ring_same rb) (r_ix rb) (w_ix rb) (length (buffer_ptr rb))"
    and b: "length (buffer_ptr rb) = cap rb" and m: "cap rb < 2 ^ 31"
    using inv by (auto simp: rb_inv_ring)
  have r: "r_ix rb < cap rb" using ok b by (simp add: ring_ok_def)
  have nz: "rt_ringbuffer_data_len rb \<noteq> 0"
    using data_len [OF inv] c by auto
  have k: "1 \<le> length (ring (ring_same rb) (r_ix rb) (w_ix rb) (buffer_ptr rb))"
    using c by (simp add: contents_ring)
  have get: "rt_ringbuffer_getchar rb = Some (1, Some (hd (take 1 (drop (r_ix rb) (buffer_ptr rb)))),
        if r_ix rb + 1 = cap rb then rb\<lparr>read_mirror := NOT (read_mirror rb), read_index := 0\<rparr>
        else rb\<lparr>read_index := read_index rb + 1\<rparr>)"
    unfolding rt_ringbuffer_getchar_def if_not_P [OF nz]
    using slice_take [of "r_ix rb" 1 "buffer_ptr rb"] r b by (simp add: last_index [OF inv r])
  show ?thesis
  proof (cases "r_ix rb + 1 = cap rb")
    case True
    then have w: "length (buffer_ptr rb) - r_ix rb \<le> 1" using b by simp
    note f = ring_read_wrap [OF ok w k]
    have z: "1 - (length (buffer_ptr rb) - r_ix rb) = 0" using True b by simp
    have d: "take 1 (drop (r_ix rb) (buffer_ptr rb)) = take 1 (contents rb)"
      using f(3) True b by (simp add: contents_ring)
    have "rb_inv (rb\<lparr>read_mirror := NOT (read_mirror rb), read_index := 0\<rparr>) \<and>
        contents (rb\<lparr>read_mirror := NOT (read_mirror rb), read_index := 0\<rparr>) = drop 1 (contents rb)"
      using f(2,4) b m unfolding z by (simp add: rb_inv_ring contents_ring)
    then show ?thesis unfolding get d using True c by simp
  next
    case False
    then have rk: "r_ix rb + 1 < length (buffer_ptr rb)" using r b by simp
    note f = ring_read [OF ok rk k]
    have "unat (read_index rb + 1) = r_ix rb + 1" using index_Suc rk b m by simp
    then have "rb_inv (rb\<lparr>read_index := read_index rb + 1\<rparr>) \<and>
        contents (rb\<lparr>read_index := read_index rb + 1\<rparr>) = drop 1 (contents rb)"
      using f(1,3) b m by (simp add: rb_inv_ring contents_ring)
    then show ?thesis unfolding get f(2) contents_ring [symmetric] using False c by simp
  qed
qed

lemma getchar_empty: "rb_inv rb \<Longrightarrow> contents rb = [] \<Longrightarrow> rt_ringbuffer_getchar rb = Some (0, None, rb)"
  using data_len [of rb] by (simp add: rt_ringbuffer_getchar_def word_unat_eq_iff)

lemma status_full:
  assumes "rb_inv rb"
  shows "rt_ringbuffer_status rb = RT_RINGBUFFER_FULL \<longleftrightarrow> length (contents rb) = cap rb"
proof -
  have ok: "ring_ok (ring_same rb) (r_ix rb) (w_ix rb) (length (buffer_ptr rb))"
    and b: "length (buffer_ptr rb) = cap rb"
    using assms by (auto simp: rb_inv_ring)
  show ?thesis
    unfolding status_cases [OF assms] contents_ring using length_ring [OF ok] ok b
    by (auto simp: ring_ok_def)
qed

lemma putchar_force_spec:
  assumes inv: "rb_inv rb"
  shows "\<exists>rb'. rt_ringbuffer_putchar_force rb ch = Some (1, rb') \<and> rb_inv rb' \<and>
    buffer_size rb' = buffer_size rb \<and>
    contents rb' = drop (length (contents rb) + 1 - cap rb) (contents rb @ [ch])"
proof -
  have ok: "ring_ok (ring_same rb) (r_ix rb) (w_ix rb) (length (buffer_ptr rb))"
    and b: "length (buffer_ptr rb) = cap rb" and m: "cap rb < 2 ^ 31"
    using inv by (auto simp: rb_inv_ring)
  have w: "w_ix rb < cap rb" using ok b by (simp add: ring_ok_def)
  let ?B = "overwrite (buffer_ptr rb) (w_ix rb) [ch]"
  have bl: "blit (buffer_ptr rb) (w_ix rb) [ch] = Some ?B" using w b by (simp add: blit_overwrite)
  have lb: "length ?B = cap rb" using w b by simp
  have full: "rt_ringbuffer_status rb = RT_RINGBUFFER_FULL \<longleftrightarrow> length (contents rb) = cap rb"
    by (rule status_full [OF inv])
  let ?same = "rt_ringbuffer_putchar_force rb ch = rt_ringbuffer_putchar rb ch"
  show ?thesis
  proof (cases "length (contents rb) = cap rb")
    case False
    then have room: "length (contents rb) < cap rb" using contents_le [OF inv] by simp
    then have nz: "rt_ringbuffer_space_len rb \<noteq> 0"
      using space_len [OF inv] by (auto simp: word_unat_eq_iff)
    have "rt_ringbuffer_putchar_force rb ch = rt_ringbuffer_putchar rb ch"
      using full False nz bl by (simp add: rt_ringbuffer_putchar_force_def rt_ringbuffer_putchar_def Let_def)
    then show ?thesis using putchar_spec [OF inv room, of ch] room by simp
  next
    case True
    then have st: "rt_ringbuffer_status rb = RT_RINGBUFFER_FULL" using full by simp
    have d: "length (contents rb) + 1 - cap rb = 1" using True by simp
    have lr: "length (ring (ring_same rb) (r_ix rb) (w_ix rb) (buffer_ptr rb)) = length (buffer_ptr rb)"
      using True b by (simp add: contents_ring)
    show ?thesis
    proof (cases "w_ix rb + 1 = cap rb")
      case wrap: True
      have x: "length (buffer_ptr rb) - w_ix rb = length [ch]" using wrap b by simp
      have n: "length [ch] + length ([] :: u8 list) \<le> length (buffer_ptr rb)" using w b by simp
      have sp: "length (buffer_ptr rb) < length (ring (ring_same rb) (r_ix rb) (w_ix rb) (buffer_ptr rb))
          + length [ch] + length ([] :: u8 list)" using lr by simp
      note f = ring_force_wrap [OF ok x n sp]
      let ?rb = "rb\<lparr>buffer_ptr := ?B, write_mirror := NOT (write_mirror rb), write_index := 0,
          read_mirror := NOT (read_mirror rb), read_index := 0\<rparr>"
      have put: "rt_ringbuffer_putchar_force rb ch = Some (1, ?rb)"
        using wrap st bl by (simp add: rt_ringbuffer_putchar_force_def Let_def last_index [OF inv w])
      have o: "overwrite ?B 0 [] = ?B" by (simp add: overwrite_def)
      have ns: "\<not> ring_same rb" using f(1) by simp
      have "rb_inv ?rb" using f(2) lb b m ns by (simp add: rb_inv_ring)
      moreover have "contents ?rb = drop (length (contents rb) + 1 - cap rb) (contents rb @ [ch])"
        using f(3) ns b unfolding o by (simp add: contents_ring)
      ultimately show ?thesis using put by simp
    next
      case nowrap: False
      then have wk: "w_ix rb + length [ch] < length (buffer_ptr rb)" using w b by simp
      have sp: "length (buffer_ptr rb) < length (ring (ring_same rb) (r_ix rb) (w_ix rb) (buffer_ptr rb)) + length [ch]"
        using lr by simp
      note f = ring_force [OF ok wk sp]
      let ?rb = "rb\<lparr>buffer_ptr := ?B, write_index := write_index rb + 1, read_index := write_index rb + 1\<rparr>"
      have put: "rt_ringbuffer_putchar_force rb ch = Some (1, ?rb)"
        using nowrap st bl by (simp add: rt_ringbuffer_putchar_force_def Let_def last_index [OF inv w])
      have wi: "unat (write_index rb + 1) = w_ix rb + 1" using index_Suc wk b m by simp
      have "rb_inv ?rb" using f(2) lb b m wi by (simp add: rb_inv_ring)
      moreover have "contents ?rb = drop (length (contents rb) + 1 - cap rb) (contents rb @ [ch])"
        using f(3) b wi by (simp add: contents_ring)
      ultimately show ?thesis using put by simp
    qed
  qed
qed

lemma init_spec:
  assumes "8 \<le> unat sz" and "unat sz < 2 ^ 31" and "length pool = 8 * (unat sz div 8)"
  shows "\<exists>rb. rt_ringbuffer_init pool sz = Some rb \<and> rb_inv rb \<and> contents rb = [] \<and>
    cap rb = 8 * (unat sz div 8)"
proof -
  have "int (unat sz) < int (2 ^ 31)" "int 8 \<le> int (unat sz)"
    using assms(1,2) by (simp_all only: of_nat_less_iff of_nat_le_iff)
  then have u: "uint sz < 2 ^ 31" "8 \<le> uint sz" by simp_all
  then have "signed_take_bit 31 (uint sz) = uint sz"
    by (intro signed_take_bit_int_eq_self) simp_all
  then have pos: "sint sz > 0" using u by (simp add: sint_uint)
  have div: "0 < unat sz div 8" using assms(1) by (simp add: div_greater_zero_iff)
  have "8 * (unat sz div 8) \<le> unat sz" by simp
  then have "8 * (unat sz div 8) < 2 ^ 31" using assms(2) by linarith
  then show ?thesis
    using pos assms div
    by (simp add: rt_ringbuffer_init_def rb_inv_def contents_def unat_RT_ALIGN_DOWN)
qed

section \<open>A bounded queue as its users see it\<close>

text \<open>
  The client view: writers put blocks, readers get blocks, and both only know how many
  elements were taken over. \<open>fifo_run\<close> executes a sequence of such calls and collects what
  the queue accepted and what it handed out.
\<close>

datatype 'a fifo_call = Put "'a list" | Get nat

fun fifo_run :: "('s \<Rightarrow> 'a list \<Rightarrow> (nat \<times> 's) option) \<Rightarrow> ('s \<Rightarrow> nat \<Rightarrow> ('a list \<times> 's) option) \<Rightarrow>
    'a fifo_call list \<Rightarrow> 's \<Rightarrow> ('a list \<times> 'a list \<times> 's) option" where
  "fifo_run put get [] s = Some ([], [], s)"
| "fifo_run put get (Put xs # cs) s = do {
     (n, s) \<leftarrow> put s xs;
     (acc, out, s) \<leftarrow> fifo_run put get cs s;
     Some (take n xs @ acc, out, s) }"
| "fifo_run put get (Get n # cs) s = do {
     (ys, s) \<leftarrow> get s n;
     (acc, out, s) \<leftarrow> fifo_run put get cs s;
     Some (acc, ys @ out, s) }"

fun call_ok :: "nat \<Rightarrow> 'a fifo_call \<Rightarrow> bool" where
  "call_ok m (Put xs) \<longleftrightarrow> length xs < m"
| "call_ok m (Get n) \<longleftrightarrow> n < m"

locale bounded_fifo =
  fixes inv :: "'s \<Rightarrow> bool" and q :: "'s \<Rightarrow> 'a list" and room :: "'s \<Rightarrow> nat" and m :: nat
    and put :: "'s \<Rightarrow> 'a list \<Rightarrow> (nat \<times> 's) option"
    and get :: "'s \<Rightarrow> nat \<Rightarrow> ('a list \<times> 's) option"
  assumes put_law: "inv s \<Longrightarrow> length xs < m \<Longrightarrow>
      \<exists>s'. put s xs = Some (min (room s) (length xs), s') \<and> inv s' \<and> q s' = q s @ take (room s) xs"
    and get_law: "inv s \<Longrightarrow> n < m \<Longrightarrow>
      \<exists>s'. get s n = Some (take n (q s), s') \<and> inv s' \<and> q s' = drop n (q s)"
begin

lemma stream:
  assumes "inv s" and "list_all (call_ok m) cs"
  shows "\<exists>acc out s'. fifo_run put get cs s = Some (acc, out, s') \<and> inv s' \<and> q s @ acc = out @ q s'"
  using assms
proof (induction cs arbitrary: s)
  case (Cons c cs)
  show ?case
  proof (cases c)
    case (Put xs)
    then obtain s1 where p: "put s xs = Some (min (room s) (length xs), s1)" "inv s1"
        "q s1 = q s @ take (room s) xs"
      using put_law [of s xs] Cons.prems by auto
    from Cons.IH [OF p(2)] Cons.prems obtain acc out s2 where
      r: "fifo_run put get cs s1 = Some (acc, out, s2)" "inv s2" "q s1 @ acc = out @ q s2" by auto
    have "take (min (room s) (length xs)) xs = take (room s) xs" by (simp add: min_def)
    with Put p r show ?thesis by simp
  next
    case (Get n)
    then obtain s1 where p: "get s n = Some (take n (q s), s1)" "inv s1" "q s1 = drop n (q s)"
      using get_law [of s n] Cons.prems by auto
    from Cons.IH [OF p(2)] Cons.prems obtain acc out s2 where
      r: "fifo_run put get cs s1 = Some (acc, out, s2)" "inv s2" "q s1 @ acc = out @ q s2" by auto
    have "q s @ acc = take n (q s) @ q s1 @ acc" using p(3) by simp
    with Get p r show ?thesis by simp
  qed
qed simp

end

definition rb_put :: "rt_ringbuffer \<Rightarrow> u8 list \<Rightarrow> (nat \<times> rt_ringbuffer) option" where
  "rb_put rb xs = do { (n, rb) \<leftarrow> rt_ringbuffer_put rb xs (of_nat (length xs)); Some (unat n, rb) }"

definition rb_get :: "rt_ringbuffer \<Rightarrow> nat \<Rightarrow> (u8 list \<times> rt_ringbuffer) option" where
  "rb_get rb n = do { (k, xs, rb) \<leftarrow> rt_ringbuffer_get rb (of_nat n); Some (xs, rb) }"

lemma unat_of_nat_32: "n < 2 ^ 32 \<Longrightarrow> unat (of_nat n :: u32) = n"
  by (simp add: unsigned_of_nat take_bit_nat_eq_self)

interpretation rb: bounded_fifo rb_inv contents "\<lambda>rb. cap rb - length (contents rb)" "2 ^ 32" rb_put rb_get
proof
  fix rb :: rt_ringbuffer and xs :: "u8 list"
  assume inv: "rb_inv rb" and l: "length xs < 2 ^ 32"
  let ?l = "of_nat (length xs) :: u32" and ?room = "cap rb - length (contents rb)"
  have u: "unat ?l = length xs" by (rule unat_of_nat_32 [OF l])
  then have "unat ?l \<le> length xs" by simp
  from put_spec [OF inv this] obtain n rb' where
    p: "rt_ringbuffer_put rb xs ?l = Some (n, rb')" "unat n = min ?room (length xs)" "rb_inv rb'"
      "contents rb' = contents rb @ take (min ?room (length xs)) xs"
    unfolding u by blast
  have "take (min ?room (length xs)) xs = take ?room xs" by (simp add: min_def)
  with p show "\<exists>rb'. rb_put rb xs = Some (min ?room (length xs), rb') \<and> rb_inv rb' \<and>
      contents rb' = contents rb @ take ?room xs"
    by (simp add: rb_put_def)
next
  fix rb :: rt_ringbuffer and n :: nat
  assume inv: "rb_inv rb" and l: "n < 2 ^ 32"
  let ?k = "min (length (contents rb)) n"
  from get_spec [OF inv, of "of_nat n"] obtain k rb' where
    p: "rt_ringbuffer_get rb (of_nat n) = Some (k, take ?k (contents rb), rb')" "rb_inv rb'"
      "contents rb' = drop ?k (contents rb)"
    unfolding unat_of_nat_32 [OF l] by blast
  have "take ?k (contents rb) = take n (contents rb)" "drop ?k (contents rb) = drop n (contents rb)"
    by (auto simp: min_def)
  with p show "\<exists>rb'. rb_get rb n = Some (take n (contents rb), rb') \<and> rb_inv rb' \<and>
      contents rb' = drop n (contents rb)"
    by (simp add: rb_get_def)
qed

section \<open>Properties\<close>

definition rb_example :: rt_ringbuffer where
  "rb_example = \<lparr>buffer_ptr = [1, 2, 3, 4, 5, 6, 7, 8], read_mirror = 0, read_index = 6,
    write_mirror = 1, write_index = 3, buffer_size = 8\<rparr>"

lemma rb_example_inv: "rb_inv rb_example"
  by (simp add: rb_example_def rb_inv_def)

text \<open>C29. Over any sequence of \<open>rt_ringbuffer_put\<close> and \<open>rt_ringbuffer_get\<close> calls the ring
  buffer is a lossless queue: no call fails, the invariant is kept, and the bytes stored before
  plus the bytes accepted are, in order, the bytes handed out plus the bytes still stored.\<close>

theorem rt_ringbuffer_stream:
  assumes "rb_inv rb" and "list_all (call_ok (2 ^ 32)) cs"
  shows "\<exists>acc out rb'. fifo_run rb_put rb_get cs rb = Some (acc, out, rb') \<and> rb_inv rb' \<and>
    contents rb @ acc = out @ contents rb'"
  using assms by (rule rb.stream)

lemma rt_ringbuffer_stream_witness:
  "\<exists>acc out rb'. fifo_run rb_put rb_get [Put [10, 11, 12, 13], Get 5, Put [14]] rb_example = Some (acc, out, rb') \<and>
    rb_inv rb' \<and> contents rb_example @ acc = out @ contents rb'"
  by (rule rt_ringbuffer_stream [OF rb_example_inv]) simp

text \<open>\<open>rt_ringbuffer_put_force\<close> never fails and keeps the newest bytes: afterwards the
  buffer holds the last \<open>buffer_size\<close> bytes of the old contents followed by the new data.\<close>

theorem rt_ringbuffer_put_force_newest:
  assumes "rb_inv rb" and "unat len \<le> length ptr"
  shows "\<exists>n rb'. rt_ringbuffer_put_force rb ptr len = Some (n, rb') \<and> rb_inv rb' \<and>
    unat n = min (unat (buffer_size rb)) (unat len) \<and>
    (let all = contents rb @ take (unat len) ptr
     in contents rb' = drop (length all - unat (buffer_size rb)) all)"
  using put_force_spec [OF assms] by (auto simp: Let_def)

lemma rt_ringbuffer_put_force_newest_witness:
  "\<exists>n rb'. rt_ringbuffer_put_force rb_example [20, 21, 22, 23, 24, 25] 6 = Some (n, rb') \<and> rb_inv rb' \<and>
    unat n = 6 \<and> contents rb' = [2, 3, 20, 21, 22, 23, 24, 25]"
  using rt_ringbuffer_put_force_newest [OF rb_example_inv, of 6 "[20, 21, 22, 23, 24, 25]"]
  by (simp add: rb_example_def contents_def)

text \<open>The single-byte operations agree with the same queue: \<open>rt_ringbuffer_putchar_force\<close>
  appends the byte and drops the oldest one only when the buffer is full.\<close>

theorem rt_ringbuffer_putchar_force_newest:
  assumes "rb_inv rb"
  shows "\<exists>rb'. rt_ringbuffer_putchar_force rb ch = Some (1, rb') \<and> rb_inv rb' \<and>
    contents rb' = (if length (contents rb) < unat (buffer_size rb) then contents rb @ [ch]
                    else tl (contents rb @ [ch]))"
proof -
  have "length (contents rb) + 1 - cap rb = (if length (contents rb) < cap rb then 0 else 1)"
    using contents_le [OF assms] by auto
  then show ?thesis using putchar_force_spec [OF assms, of ch] by (auto simp: drop_Suc simp del: drop_append)
qed

lemma rt_ringbuffer_putchar_force_newest_witness:
  "\<exists>rb'. rt_ringbuffer_putchar_force rb_example 9 = Some (1, rb') \<and> rb_inv rb' \<and>
    contents rb' = [7, 8, 1, 2, 3, 9]"
  using rt_ringbuffer_putchar_force_newest [OF rb_example_inv, of 9]
  by (simp add: rb_example_def contents_def)

end
