(* ===== verification/RtList.thy ===== *)
theory RtList
  imports Prelude
begin

text \<open>
  The intrusive lists of \<open>rt-thread/include/rtservice.h\<close>: the circular doubly linked
  \<open>rt_list_t\<close> and the singly linked \<open>rt_slist_t\<close>. Cells are values of a type
  \<open>'c\<close>, the pointers are two maps over cells, and every operation performs the stores of
  the source in their order. \<open>repr\<close> relates the pointers to a family of lists, one per
  head, with the nodes outside all of them linked to themselves; the operations are proved to
  implement the operations on that family that the kernel theories use for their queues, and
  the interface \<open>node_lists\<close> collects these laws.
\<close>

section \<open>The doubly linked list\<close>

record 'c links =
  nxt :: "'c \<Rightarrow> 'c"
  prv :: "'c \<Rightarrow> 'c"

definition set_nxt :: "'c \<Rightarrow> 'c \<Rightarrow> 'c links \<Rightarrow> 'c links" where
  "set_nxt c d h = h\<lparr>nxt := (nxt h)(c := d)\<rparr>"

definition set_prv :: "'c \<Rightarrow> 'c \<Rightarrow> 'c links \<Rightarrow> 'c links" where
  "set_prv c d h = h\<lparr>prv := (prv h)(c := d)\<rparr>"

lemma set_nxt_simps [simp]:
  "nxt (set_nxt c d h) = (nxt h)(c := d)" "prv (set_nxt c d h) = prv h"
  "nxt (set_prv c d h) = nxt h" "prv (set_prv c d h) = (prv h)(c := d)"
  by (simp_all add: set_nxt_def set_prv_def)

definition rt_list_init :: "'c \<Rightarrow> 'c links \<Rightarrow> 'c links" where
  "rt_list_init l h = set_nxt l l (set_prv l l h)"

definition rt_list_insert_after :: "'c \<Rightarrow> 'c \<Rightarrow> 'c links \<Rightarrow> 'c links" where
  "rt_list_insert_after l n h =
    (let h = set_prv (nxt h l) n h;
         h = set_nxt n (nxt h l) h;
         h = set_nxt l n h
     in set_prv n l h)"

definition rt_list_insert_before :: "'c \<Rightarrow> 'c \<Rightarrow> 'c links \<Rightarrow> 'c links" where
  "rt_list_insert_before l n h =
    (let h = set_nxt (prv h l) n h;
         h = set_prv n (prv h l) h;
         h = set_prv l n h
     in set_nxt n l h)"

definition rt_list_remove :: "'c \<Rightarrow> 'c links \<Rightarrow> 'c links" where
  "rt_list_remove n h =
    (let h = set_prv (nxt h n) (prv h n) h;
         h = set_nxt (prv h n) (nxt h n) h
     in set_nxt n n (set_prv n n h))"

definition rt_list_isempty :: "'c \<Rightarrow> 'c links \<Rightarrow> bool" where
  "rt_list_isempty l h \<longleftrightarrow> nxt h l = l"

partial_function (option) rt_list_len_from :: "'c links \<Rightarrow> 'c \<Rightarrow> 'c \<Rightarrow> nat \<Rightarrow> nat option" where
  "rt_list_len_from h l p len =
    (if nxt h p \<noteq> l then rt_list_len_from h l (nxt h p) (len + 1) else Some len)"

definition rt_list_len :: "'c \<Rightarrow> 'c links \<Rightarrow> nat option" where
  "rt_list_len l h = rt_list_len_from h l l 0"

section \<open>Chains of cells\<close>

fun chain :: "'c links \<Rightarrow> 'c \<Rightarrow> 'c list \<Rightarrow> 'c \<Rightarrow> bool" where
  "chain h a [] b \<longleftrightarrow> nxt h a = b \<and> prv h b = a"
| "chain h a (x # xs) b \<longleftrightarrow> nxt h a = x \<and> prv h x = a \<and> chain h x xs b"

lemma chain_append: "chain h a (xs @ y # ys) b \<longleftrightarrow> chain h a xs y \<and> chain h y ys b"
  by (induction xs arbitrary: a) auto

lemma chain_prv: "chain h a xs b \<Longrightarrow> prv h b = last (a # xs)"
  by (induction xs arbitrary: a) auto

lemma chain_nxt: "chain h a xs b \<Longrightarrow> nxt h a = hd (xs @ [b])"
  by (cases xs) auto

lemma chain_cong:
  "chain h a xs b \<Longrightarrow> (\<And>u. u \<in> set (a # xs) \<Longrightarrow> nxt h' u = nxt h u) \<Longrightarrow>
   (\<And>v. v \<in> set (xs @ [b]) \<Longrightarrow> prv h' v = prv h v) \<Longrightarrow> chain h' a xs b"
  by (induction xs arbitrary: a) auto

text \<open>A chain keeps its cells when only its last link is redirected.\<close>

lemma chain_end:
  "chain h a xs n \<Longrightarrow> distinct (a # xs) \<Longrightarrow>
   (\<And>u. u \<in> set (a # xs) \<Longrightarrow> u \<noteq> last (a # xs) \<Longrightarrow> nxt h' u = nxt h u) \<Longrightarrow>
   (\<And>v. v \<in> set xs \<Longrightarrow> prv h' v = prv h v) \<Longrightarrow>
   nxt h' (last (a # xs)) = b \<Longrightarrow> prv h' b = last (a # xs) \<Longrightarrow> chain h' a xs b"
proof (induction xs arbitrary: a)
  case (Cons x xs)
  have "chain h' x xs b"
    by (rule Cons.IH) (use Cons.prems in \<open>auto split: if_splits\<close>)
  moreover have "a \<noteq> last (x # xs)" using Cons.prems(2) last_in_set [of "x # xs"] by auto
  ultimately show ?case using Cons.prems by auto
qed simp

text \<open>The list \<open>xs\<close> hangs off the head cell \<open>l\<close>.\<close>

definition dlist :: "'c links \<Rightarrow> 'c \<Rightarrow> 'c list \<Rightarrow> bool" where
  "dlist h l xs \<longleftrightarrow> chain h l xs l \<and> distinct (l # xs)"

lemma dlist_init: "dlist (rt_list_init l h) l []"
  by (simp add: dlist_def rt_list_init_def)

lemma rt_list_insert_before_chain:
  assumes c: "chain h a xs p" and d: "distinct (a # xs)" and p: "p \<notin> set xs"
    and n: "n \<noteq> p" "n \<noteq> a" "n \<notin> set xs"
  shows "chain (rt_list_insert_before p n h) a (xs @ [n]) p"
proof -
  let ?h = "rt_list_insert_before p n h"
  note q = chain_prv [OF c]
  have qin: "last (a # xs) \<in> set (a # xs)" by (rule last_in_set) simp
  have "chain ?h a xs n"
    by (rule chain_end [OF c d]) (use q n p qin in \<open>auto simp: rt_list_insert_before_def Let_def\<close>)
  moreover have "chain ?h n [] p" using n by (simp add: rt_list_insert_before_def Let_def)
  ultimately show ?thesis by (simp add: chain_append)
qed

lemma rt_list_insert_before_other:
  "n \<noteq> c \<Longrightarrow> prv h p \<noteq> c \<Longrightarrow> nxt (rt_list_insert_before p n h) c = nxt h c"
  "n \<noteq> c \<Longrightarrow> p \<noteq> c \<Longrightarrow> prv (rt_list_insert_before p n h) c = prv h c"
  by (auto simp: rt_list_insert_before_def Let_def)

lemma rt_list_remove_other:
  "n \<noteq> c \<Longrightarrow> prv h n \<noteq> c \<Longrightarrow> nxt (rt_list_remove n h) c = nxt h c"
  "n \<noteq> c \<Longrightarrow> nxt h n \<noteq> c \<Longrightarrow> prv (rt_list_remove n h) c = prv h c"
  by (auto simp: rt_list_remove_def Let_def)

lemma rt_list_insert_after_other:
  "n \<noteq> c \<Longrightarrow> l \<noteq> c \<Longrightarrow> nxt (rt_list_insert_after l n h) c = nxt h c"
  "n \<noteq> c \<Longrightarrow> nxt h l \<noteq> c \<Longrightarrow> prv (rt_list_insert_after l n h) c = prv h c"
  by (auto simp: rt_list_insert_after_def Let_def)

text \<open>Inserting before the cell \<open>p\<close>, an element or the head itself.\<close>

lemma dlist_insert_before:
  assumes "dlist h l (xs @ ys)" and n: "n \<noteq> l" "n \<notin> set (xs @ ys)"
  shows "dlist (rt_list_insert_before (hd (ys @ [l])) n h) l (xs @ n # ys)"
proof (cases ys)
  case Nil
  with assms show ?thesis
    using rt_list_insert_before_chain [of h l xs l n] by (auto simp: dlist_def)
next
  case (Cons p zs)
  let ?h = "rt_list_insert_before p n h"
  from assms Cons have c: "chain h l xs p" "chain h p zs l" and d: "distinct (l # xs @ p # zs)"
    by (auto simp: dlist_def chain_append)
  have qin: "last (l # xs) \<in> set (l # xs)" by (rule last_in_set) simp
  have "chain ?h l (xs @ [n]) p"
    using rt_list_insert_before_chain [OF c(1)] d n Cons by auto
  moreover have "chain ?h p zs l"
  proof (rule chain_cong [OF c(2)])
    fix u assume "u \<in> set (p # zs)"
    with d n Cons qin chain_prv [OF c(1)] show "nxt ?h u = nxt h u"
      by (intro rt_list_insert_before_other) auto
  next
    fix v assume "v \<in> set (zs @ [l])"
    with d n Cons show "prv ?h v = prv h v" by (intro rt_list_insert_before_other) auto
  qed
  ultimately have "chain ?h l ((xs @ [n]) @ p # zs) l" by (simp only: chain_append)
  with Cons d n show ?thesis by (auto simp: dlist_def)
qed

lemma dlist_insert_after:
  assumes "dlist h l xs" and n: "n \<noteq> l" "n \<notin> set xs"
  shows "dlist (rt_list_insert_after l n h) l (n # xs)"
proof -
  have "nxt h l = hd (xs @ [l])" using assms(1) chain_nxt [of h l xs l] by (simp add: dlist_def)
  then have p: "prv h (hd (xs @ [l])) = l"
    using assms(1) by (cases xs) (auto simp: dlist_def)
  have "rt_list_insert_after l n h = rt_list_insert_before (hd (xs @ [l])) n h"
  proof (rule links.equality)
    have "hd (xs @ [l]) \<noteq> n" using n by (cases xs) auto
    then show "prv (rt_list_insert_after l n h) = prv (rt_list_insert_before (hd (xs @ [l])) n h)"
      using p \<open>nxt h l = hd (xs @ [l])\<close>
      by (auto simp: rt_list_insert_after_def rt_list_insert_before_def Let_def)
    show "nxt (rt_list_insert_after l n h) = nxt (rt_list_insert_before (hd (xs @ [l])) n h)"
      using p n \<open>nxt h l = hd (xs @ [l])\<close>
      by (auto simp: rt_list_insert_after_def rt_list_insert_before_def Let_def)
  qed (simp add: rt_list_insert_after_def rt_list_insert_before_def Let_def set_nxt_def set_prv_def)
  then show ?thesis using dlist_insert_before [of h l "[]" xs n] assms by simp
qed

lemma dlist_remove:
  assumes "dlist h l (xs @ n # ys)"
  shows "dlist (rt_list_remove n h) l (xs @ ys)"
proof -
  let ?h = "rt_list_remove n h"
  from assms have c: "chain h l xs n" "chain h n ys l" and d: "distinct (l # xs @ n # ys)"
    by (auto simp: dlist_def chain_append)
  have q: "prv h n = last (l # xs)" and s: "nxt h n = hd (ys @ [l])"
    using chain_prv [OF c(1)] chain_nxt [OF c(2)] .
  have qin: "last (l # xs) \<in> set (l # xs)" by (rule last_in_set) simp
  have qn: "last (l # xs) \<noteq> n" using qin d by auto
  have sn: "hd (ys @ [l]) \<noteq> n" using d by (cases ys) auto
  have e: "chain ?h l xs (hd (ys @ [l]))"
  proof (rule chain_end [OF c(1)])
    show "distinct (l # xs)" using d by simp
  next
    fix u assume "u \<in> set (l # xs)" "u \<noteq> last (l # xs)"
    with d q show "nxt ?h u = nxt h u" by (intro rt_list_remove_other) auto
  next
    fix v assume "v \<in> set xs"
    then have "nxt h n \<noteq> v" using d s by (cases ys) auto
    with \<open>v \<in> set xs\<close> d show "prv ?h v = prv h v" by (intro rt_list_remove_other) auto
  next
    show "nxt ?h (last (l # xs)) = hd (ys @ [l])" "prv ?h (hd (ys @ [l])) = last (l # xs)"
      using q s qn sn by (auto simp: rt_list_remove_def Let_def)
  qed
  show ?thesis
  proof (cases ys)
    case Nil
    with e d show ?thesis by (simp add: dlist_def)
  next
    case (Cons y zs)
    have "chain ?h y zs l"
    proof (rule chain_cong [of h y zs l])
      show "chain h y zs l" using c(2) Cons by simp
    next
      fix u assume "u \<in> set (y # zs)"
      with d Cons q qin show "nxt ?h u = nxt h u" by (intro rt_list_remove_other) auto
    next
      fix v assume "v \<in> set (zs @ [l])"
      with d Cons s show "prv ?h v = prv h v" by (intro rt_list_remove_other) auto
    qed
    with e d Cons show ?thesis by (auto simp: dlist_def chain_append)
  qed
qed

lemma dlist_isempty: "dlist h l xs \<Longrightarrow> rt_list_isempty l h \<longleftrightarrow> xs = []"
  by (cases xs) (auto simp: dlist_def rt_list_isempty_def)

lemma rt_list_len_chain:
  "chain h p xs l \<Longrightarrow> l \<notin> set xs \<Longrightarrow> rt_list_len_from h l p k = Some (k + length xs)"
proof (induction xs arbitrary: p k)
  case Nil
  then show ?case by (simp add: rt_list_len_from.simps)
next
  case (Cons x xs)
  then show ?case by (auto simp: rt_list_len_from.simps [of h l p])
qed

lemma dlist_len: "dlist h l xs \<Longrightarrow> rt_list_len l h = Some (length xs)"
  using rt_list_len_chain [of h l xs l 0] by (simp add: dlist_def rt_list_len_def)

section \<open>A family of lists\<close>

text \<open>
  Heads and nodes are different cells: a head is the list anchor inside an object or the
  scheduler's table, a node the link field inside a thread or timer.
\<close>

datatype ('h, 'n) cell = Head 'h | Node 'n

definition unlinked :: "('h \<Rightarrow> 'n list) \<Rightarrow> 'n \<Rightarrow> bool" where
  "unlinked f n \<longleftrightarrow> (\<forall>l. n \<notin> set (f l))"

definition separate :: "('h \<Rightarrow> 'n list) \<Rightarrow> bool" where
  "separate f \<longleftrightarrow> (\<forall>l. distinct (f l)) \<and> (\<forall>l m n. n \<in> set (f l) \<longrightarrow> n \<in> set (f m) \<longrightarrow> l = m)"

definition repr :: "('h, 'n) cell links \<Rightarrow> ('h \<Rightarrow> 'n list) \<Rightarrow> bool" where
  "repr h f \<longleftrightarrow>
     (\<forall>l. chain h (Head l) (map Node (f l)) (Head l)) \<and> separate f \<and>
     (\<forall>n. unlinked f n \<longrightarrow> nxt h (Node n) = Node n \<and> prv h (Node n) = Node n)"

lemma separate_distinct: "separate f \<Longrightarrow> distinct (f l)"
  and separate_eq: "separate f \<Longrightarrow> n \<in> set (f l) \<Longrightarrow> n \<in> set (f m) \<Longrightarrow> l = m"
  by (auto simp: separate_def)

lemma unlinkedD: "unlinked f n \<Longrightarrow> n \<notin> set (f l)"
  by (simp add: unlinked_def)

lemma separate_add:
  "separate f \<Longrightarrow> unlinked f n \<Longrightarrow> distinct xs \<Longrightarrow> set xs = insert n (set (f l)) \<Longrightarrow> separate (f(l := xs))"
  by (auto simp: separate_def unlinked_def)

lemma separate_remove: "separate f \<Longrightarrow> separate (\<lambda>l. remove1 n (f l))"
  by (auto simp: separate_def)

lemma unlinked_remove: "separate f \<Longrightarrow> unlinked (\<lambda>l. remove1 n (f l)) n"
  by (auto simp: separate_def unlinked_def)

lemma unlinked_remove_iff: "separate f \<Longrightarrow> unlinked (\<lambda>l. remove1 n (f l)) m \<longleftrightarrow> m = n \<or> unlinked f m"
  by (auto simp: separate_def unlinked_def)

lemma unlinked_upd:
  "unlinked f n \<Longrightarrow> set xs = insert n (set (f l)) \<Longrightarrow> unlinked (f(l := xs)) m \<longleftrightarrow> m \<noteq> n \<and> unlinked f m"
  by (auto simp: unlinked_def)

lemma unlinked_grow: "unlinked (f(l := xs)) m \<Longrightarrow> set (f l) \<subseteq> set xs \<Longrightarrow> unlinked f m"
  unfolding unlinked_def by (metis fun_upd_apply subsetD)

lemma repr_dlist: "repr h f \<Longrightarrow> dlist h (Head l) (map Node (f l))"
  by (auto simp: repr_def dlist_def separate_def distinct_map inj_on_def)

lemma repr_separate: "repr h f \<Longrightarrow> separate f"
  by (simp add: repr_def)

text \<open>The neighbours of a cell belong to the list it is in.\<close>

definition in_list :: "('h \<Rightarrow> 'n list) \<Rightarrow> 'h \<Rightarrow> ('h, 'n) cell \<Rightarrow> bool" where
  "in_list f l c \<longleftrightarrow> c = Head l \<or> c \<in> Node ` set (f l)"

lemma in_list_unique: "separate f \<Longrightarrow> in_list f l c \<Longrightarrow> in_list f m c \<Longrightarrow> l = m"
  by (auto simp: in_list_def separate_def)

lemma chain_ends_in: "chain h a xs b \<Longrightarrow> nxt h a \<in> set (xs @ [b]) \<and> prv h b \<in> set (a # xs)"
  using chain_prv [of h a xs b] last_in_set [of "a # xs"] by (cases xs) auto

lemma in_list_neighbours:
  assumes "repr h f" and "in_list f l c"
  shows "in_list f l (nxt h c) \<and> in_list f l (prv h c)"
proof (cases "c = Head l")
  case True
  have "chain h (Head l) (map Node (f l)) (Head l)" using assms(1) by (simp add: repr_def)
  from chain_ends_in [OF this] True show ?thesis by (auto simp: in_list_def)
next
  case False
  with assms(2) obtain n xs ys where "c = Node n" and s: "f l = xs @ n # ys"
    by (auto simp: in_list_def in_set_conv_decomp)
  have "chain h (Head l) (map Node xs @ Node n # map Node ys) (Head l)"
    using assms(1) s by (simp add: repr_def) (metis list.simps(9) map_append)
  then have "chain h (Head l) (map Node xs) (Node n)" "chain h (Node n) (map Node ys) (Head l)"
    by (simp_all add: chain_append)
  from chain_ends_in [OF this(1)] chain_ends_in [OF this(2)] show ?thesis
    using \<open>c = Node n\<close> s by (auto simp: in_list_def)
qed

text \<open>An update that stays inside the list \<open>l\<close> and one new node keeps the other lists.\<close>

lemma repr_update:
  assumes r: "repr h f" and l: "chain h' (Head l) (map Node (g l)) (Head l)"
    and g: "\<And>m. m \<noteq> l \<Longrightarrow> g m = f m" and sep: "separate g"
    and frame: "\<And>c. \<not> in_list f l c \<Longrightarrow> \<not> in_list g l c \<Longrightarrow> nxt h' c = nxt h c \<and> prv h' c = prv h c"
    and new: "\<And>n. unlinked g n \<Longrightarrow> \<not> unlinked f n \<Longrightarrow> nxt h' (Node n) = Node n \<and> prv h' (Node n) = Node n"
  shows "repr h' g"
proof -
  have other: "chain h' (Head m) (map Node (f m)) (Head m)" if m: "m \<noteq> l" for m
  proof -
    have out: "\<not> in_list f l c \<and> \<not> in_list g l c" if "in_list f m c" for c
      using that m in_list_unique [OF repr_separate [OF r], of l c m] in_list_unique [OF sep, of l c m] g [of m]
      by (auto simp: in_list_def)
    show ?thesis
    proof (rule chain_cong [of h])
      show "chain h (Head m) (map Node (f m)) (Head m)" using r by (simp add: repr_def)
    qed (use out frame in \<open>auto simp: in_list_def\<close>)
  qed
  have un: "nxt h' (Node n) = Node n \<and> prv h' (Node n) = Node n" if "unlinked g n" for n
  proof (cases "unlinked f n")
    case True
    with that have "\<not> in_list f l (Node n)" "\<not> in_list g l (Node n)" by (auto simp: in_list_def unlinked_def)
    from frame [OF this] True r show ?thesis by (simp add: repr_def)
  next
    case False
    with new [OF that] show ?thesis by simp
  qed
  have "chain h' (Head m) (map Node (g m)) (Head m)" for m
    using l other [of m] g [of m] by (cases "m = l") simp_all
  with sep un show ?thesis by (simp add: repr_def)
qed

lemma repr_insert_at:
  assumes r: "repr h f" and u: "unlinked f n" and s: "f l = xs @ ys"
    and p: "p = hd (map Node ys @ [Head l])"
  shows "repr (rt_list_insert_before p (Node n) h) (f(l := xs @ n # ys))"
proof (rule repr_update [OF r, where l = l])
  let ?h = "rt_list_insert_before p (Node n) h"
  have d: "dlist ?h (Head l) (map Node xs @ Node n # map Node ys)"
    unfolding p
    by (rule dlist_insert_before) (use repr_dlist [OF r, of l] s unlinkedD [OF u, of l] in auto)
  then show "chain ?h (Head l) (map Node ((f(l := xs @ n # ys)) l)) (Head l)" by (simp add: dlist_def)
  show "separate (f(l := xs @ n # ys))"
    using separate_distinct [OF repr_separate [OF r], of l] unlinkedD [OF u, of l] s
    by (intro separate_add [OF repr_separate [OF r] u]) auto
  have pin: "in_list f l p" using p s by (cases ys) (auto simp: in_list_def)
  fix c
  assume c: "\<not> in_list f l c" "\<not> in_list (f(l := xs @ n # ys)) l c"
  have "Node n \<noteq> c" "p \<noteq> c" "prv h p \<noteq> c"
    using c pin in_list_neighbours [OF r pin] by (auto simp: in_list_def)
  then show "nxt ?h c = nxt h c \<and> prv ?h c = prv h c" by (simp add: rt_list_insert_before_other)
next
  fix m assume "unlinked (f(l := xs @ n # ys)) m" "\<not> unlinked f m"
  moreover from this(1) have "unlinked f m" by (rule unlinked_grow) (use s in auto)
  ultimately show "nxt (rt_list_insert_before p (Node n) h) (Node m) = Node m \<and>
      prv (rt_list_insert_before p (Node n) h) (Node m) = Node m" by blast
qed simp

lemma repr_insert_tail:
  "repr h f \<Longrightarrow> unlinked f n \<Longrightarrow> repr (rt_list_insert_before (Head l) (Node n) h) (f(l := f l @ [n]))"
  using repr_insert_at [of h f n l "f l" "[]" "Head l"] by simp

lemma repr_insert_before:
  "repr h f \<Longrightarrow> unlinked f n \<Longrightarrow> f l = xs @ p # ys \<Longrightarrow>
   repr (rt_list_insert_before (Node p) (Node n) h) (f(l := xs @ n # p # ys))"
  using repr_insert_at [of h f n l xs "p # ys" "Node p"] by simp

lemma repr_insert_head:
  assumes r: "repr h f" and u: "unlinked f n"
  shows "repr (rt_list_insert_after (Head l) (Node n) h) (f(l := n # f l))"
proof (rule repr_update [OF r, where l = l])
  let ?h = "rt_list_insert_after (Head l) (Node n) h"
  have "dlist ?h (Head l) (Node n # map Node (f l))"
    by (rule dlist_insert_after) (use repr_dlist [OF r, of l] unlinkedD [OF u, of l] in auto)
  then show "chain ?h (Head l) (map Node ((f(l := n # f l)) l)) (Head l)" by (simp add: dlist_def)
  show "separate (f(l := n # f l))"
    using separate_distinct [OF repr_separate [OF r], of l] unlinkedD [OF u, of l]
    by (intro separate_add [OF repr_separate [OF r] u]) auto
  have lin: "in_list f l (Head l)" by (simp add: in_list_def)
  fix c
  assume c: "\<not> in_list f l c" "\<not> in_list (f(l := n # f l)) l c"
  have "Node n \<noteq> c" "Head l \<noteq> c" "nxt h (Head l) \<noteq> c"
    using c lin in_list_neighbours [OF r lin] by (auto simp: in_list_def)
  then show "nxt ?h c = nxt h c \<and> prv ?h c = prv h c" by (simp add: rt_list_insert_after_other)
next
  fix m assume "unlinked (f(l := n # f l)) m" "\<not> unlinked f m"
  moreover from this(1) have "unlinked f m" by (rule unlinked_grow) auto
  ultimately show "nxt (rt_list_insert_after (Head l) (Node n) h) (Node m) = Node m \<and>
      prv (rt_list_insert_after (Head l) (Node n) h) (Node m) = Node m" by blast
qed simp

text \<open>\<open>rt_list_remove\<close> takes the node out of whatever list it is in, and is harmless otherwise.\<close>

lemma repr_remove:
  assumes r: "repr h f"
  shows "repr (rt_list_remove (Node n) h) (\<lambda>l. remove1 n (f l))"
proof (cases "unlinked f n")
  case True
  then have self: "nxt h (Node n) = Node n" "prv h (Node n) = Node n" using r by (simp_all add: repr_def)
  have "rt_list_remove (Node n) h = h"
    using self by (simp add: rt_list_remove_def Let_def set_nxt_def set_prv_def fun_upd_idem)
  moreover have "(\<lambda>l. remove1 n (f l)) = f" using unlinkedD [OF True] by (simp add: remove1_idem)
  ultimately show ?thesis using r by simp
next
  case False
  then obtain l xs ys where s: "f l = xs @ n # ys" by (metis unlinked_def split_list)
  let ?h = "rt_list_remove (Node n) h" and ?g = "\<lambda>l. remove1 n (f l)"
  have nl: "n \<in> set (f l)" using s by simp
  have nx: "n \<notin> set xs" "n \<notin> set ys" using separate_distinct [OF repr_separate [OF r], of l] s by auto
  show ?thesis
  proof (rule repr_update [OF r, where l = l])
    have "dlist ?h (Head l) (map Node xs @ map Node ys)"
      by (rule dlist_remove) (use repr_dlist [OF r, of l] s in simp)
    then show "chain ?h (Head l) (map Node (?g l)) (Head l)"
      using s nx by (simp add: dlist_def remove1_append)
    show "separate ?g" by (rule separate_remove [OF repr_separate [OF r]])
    show "?g m = f m" if "m \<noteq> l" for m
    proof -
      have "n \<notin> set (f m)" using that nl separate_eq [OF repr_separate [OF r], of n l m] by auto
      then show ?thesis by (rule remove1_idem)
    qed
    have nin: "in_list f l (Node n)" using nl by (auto simp: in_list_def)
    show "nxt ?h c = nxt h c \<and> prv ?h c = prv h c" if "\<not> in_list f l c" for c
    proof -
      have "Node n \<noteq> c" "nxt h (Node n) \<noteq> c" "prv h (Node n) \<noteq> c"
        using that nin in_list_neighbours [OF r nin] by auto
      then show ?thesis by (simp add: rt_list_remove_other)
    qed
    show "nxt ?h (Node m) = Node m \<and> prv ?h (Node m) = Node m" if "unlinked ?g m" "\<not> unlinked f m" for m
      using that unlinked_remove_iff [OF repr_separate [OF r]]
      by (simp add: rt_list_remove_def Let_def)
  qed
qed

lemma repr_isempty: "repr h f \<Longrightarrow> rt_list_isempty (Head l) h \<longleftrightarrow> f l = []"
  using dlist_isempty [OF repr_dlist, of h f l] by simp

section \<open>The operations on the family\<close>

text \<open>These are the list operations of the kernel theories, over the queues of the whole kernel.\<close>

definition al_remove :: "'n \<Rightarrow> ('h \<Rightarrow> 'n list) \<Rightarrow> 'h \<Rightarrow> 'n list" where
  "al_remove n f = (\<lambda>l. remove1 n (f l))"

definition al_tail :: "'h \<Rightarrow> 'n \<Rightarrow> ('h \<Rightarrow> 'n list) \<Rightarrow> 'h \<Rightarrow> 'n list" where
  "al_tail l n f = f(l := f l @ [n])"

definition al_head :: "'h \<Rightarrow> 'n \<Rightarrow> ('h \<Rightarrow> 'n list) \<Rightarrow> 'h \<Rightarrow> 'n list" where
  "al_head l n f = f(l := n # f l)"

fun put_before :: "'n \<Rightarrow> 'n \<Rightarrow> 'n list \<Rightarrow> 'n list" where
  "put_before p n [] = []"
| "put_before p n (x # xs) = (if x = p then n # x # xs else x # put_before p n xs)"

definition al_before :: "'n \<Rightarrow> 'n \<Rightarrow> ('h \<Rightarrow> 'n list) \<Rightarrow> 'h \<Rightarrow> 'n list" where
  "al_before p n f = (\<lambda>l. put_before p n (f l))"

lemma put_before_notin: "p \<notin> set xs \<Longrightarrow> put_before p n xs = xs"
  by (induction xs) auto

lemma put_before_at: "p \<notin> set xs \<Longrightarrow> put_before p n (xs @ p # ys) = xs @ n # p # ys"
  by (induction xs) auto

lemma al_before_at:
  assumes "separate f" and "f l = xs @ p # ys"
  shows "al_before p n f = f(l := xs @ n # p # ys)"
proof (rule ext)
  fix m
  have pl: "p \<in> set (f l)" and px: "p \<notin> set xs"
    using assms separate_distinct [OF assms(1), of l] by auto
  show "al_before p n f m = (f(l := xs @ n # p # ys)) m"
  proof (cases "m = l")
    case True
    with px assms(2) show ?thesis by (simp add: al_before_def put_before_at)
  next
    case False
    then have "p \<notin> set (f m)" using separate_eq [OF assms(1) pl, of m] by auto
    with False show ?thesis by (simp add: al_before_def put_before_notin)
  qed
qed

text \<open>Stable insertion by a key: behind every element whose key is not larger.\<close>

definition prio_insert :: "('n \<Rightarrow> 'k::linorder) \<Rightarrow> 'n \<Rightarrow> 'n list \<Rightarrow> 'n list" where
  "prio_insert key n xs = takeWhile (\<lambda>p. key p \<le> key n) xs @ n # dropWhile (\<lambda>p. key p \<le> key n) xs"

lemma set_prio_insert [simp]: "set (prio_insert key n xs) = insert n (set xs)"
  unfolding prio_insert_def
  by (metis Un_insert_right list.simps(15) set_append takeWhile_dropWhile_id)

lemma distinct_prio_insert: "distinct xs \<Longrightarrow> n \<notin> set xs \<Longrightarrow> distinct (prio_insert key n xs)"
proof -
  assume d: "distinct xs" "n \<notin> set xs"
  have "distinct (takeWhile P xs @ dropWhile P xs)" for P using d(1) by simp
  with d show ?thesis
    unfolding prio_insert_def
    by (simp del: takeWhile_dropWhile_id) (auto dest: set_takeWhileD set_dropWhileD)
qed

lemma dropWhile_sorted_greater:
  "sorted (map key xs) \<Longrightarrow> p \<in> set (dropWhile (\<lambda>p. key p \<le> k) xs) \<Longrightarrow> k < key p"
  by (induction xs) (auto split: if_splits)

lemma sorted_prio_insert:
  assumes "sorted (map key xs)"
  shows "sorted (map key (prio_insert key n xs))"
proof -
  have "sorted (map key (takeWhile (\<lambda>p. key p \<le> key n) xs @ dropWhile (\<lambda>p. key p \<le> key n) xs))"
    using assms by (simp only: takeWhile_dropWhile_id)
  then show ?thesis
    unfolding prio_insert_def
    by (auto simp: sorted_append simp del: takeWhile_dropWhile_id dest: set_takeWhileD
        dropWhile_sorted_greater [OF assms] less_imp_le)
qed

lemma find_prio_insert:
  "(case find (\<lambda>p. key n < key p) xs of
      None \<Rightarrow> prio_insert key n xs = xs @ [n]
    | Some p \<Rightarrow> \<exists>ys zs. xs = ys @ p # zs \<and> prio_insert key n xs = ys @ n # p # zs)"
proof (induction xs)
  case (Cons x xs)
  show ?case
  proof (cases "key n < key x")
    case True
    then have "\<not> key x \<le> key n" by simp
    then have "prio_insert key n (x # xs) = [] @ n # x # xs" by (simp add: prio_insert_def)
    with True show ?thesis by simp (rule exI [of _ "[]"], simp)
  next
    case False
    then have "key x \<le> key n" by simp
    then have "prio_insert key n (x # xs) = x # prio_insert key n xs" by (simp add: prio_insert_def)
    then show ?thesis
      using Cons False
      by (auto split: option.splits) (metis append_Cons)
  qed
qed (simp add: prio_insert_def)

section \<open>The interface the kernel's queues rest on\<close>

locale node_lists =
  fixes rep :: "'s \<Rightarrow> ('h \<Rightarrow> 'n list) \<Rightarrow> bool"
    and ins_tail :: "'h \<Rightarrow> 'n \<Rightarrow> 's \<Rightarrow> 's"
    and ins_head :: "'h \<Rightarrow> 'n \<Rightarrow> 's \<Rightarrow> 's"
    and ins_before :: "'n \<Rightarrow> 'n \<Rightarrow> 's \<Rightarrow> 's"
    and rem :: "'n \<Rightarrow> 's \<Rightarrow> 's"
    and is_empty :: "'h \<Rightarrow> 's \<Rightarrow> bool"
  assumes rep_separate: "rep s f \<Longrightarrow> separate f"
    and rep_tail: "rep s f \<Longrightarrow> unlinked f n \<Longrightarrow> rep (ins_tail l n s) (al_tail l n f)"
    and rep_head: "rep s f \<Longrightarrow> unlinked f n \<Longrightarrow> rep (ins_head l n s) (al_head l n f)"
    and rep_before: "rep s f \<Longrightarrow> unlinked f n \<Longrightarrow> p \<in> set (f l) \<Longrightarrow> rep (ins_before p n s) (al_before p n f)"
    and rep_rem: "rep s f \<Longrightarrow> rep (rem n s) (al_remove n f)"
    and rep_empty: "rep s f \<Longrightarrow> is_empty l s \<longleftrightarrow> f l = []"
begin

text \<open>Removing a node first makes any insertion of it legal: the kernel's move idiom.\<close>

lemma rep_move:
  assumes "rep s f"
  shows "rep (ins_tail l n (rem n s)) (al_tail l n (al_remove n f))"
proof (rule rep_tail)
  show "rep (rem n s) (al_remove n f)" by (rule rep_rem [OF assms])
  show "unlinked (al_remove n f) n"
    unfolding al_remove_def by (rule unlinked_remove [OF rep_separate [OF assms]])
qed

lemma rep_rem_idem:
  assumes "rep s f"
  shows "rep (rem n (rem n s)) (al_remove n f)"
proof -
  have "al_remove n (al_remove n f) = al_remove n f"
    using unlinked_remove [OF rep_separate [OF assms], of n]
    by (auto simp: al_remove_def fun_eq_iff unlinked_def remove1_idem)
  with rep_rem [OF rep_rem [OF assms]] show ?thesis by metis
qed

text \<open>The scan-and-insert loop of the priority queues is stable insertion by key.\<close>

lemma rep_prio:
  fixes key :: "'n \<Rightarrow> 'k::linorder"
  assumes r: "rep s f" and u: "unlinked f n"
  shows "rep (case find (\<lambda>p. key n < key p) (f l) of None \<Rightarrow> ins_tail l n s | Some p \<Rightarrow> ins_before p n s)
    (f(l := prio_insert key n (f l)))"
proof (cases "find (\<lambda>p. key n < key p) (f l)")
  case None
  with find_prio_insert [of key n "f l"] rep_tail [OF r u, of l] show ?thesis
    by (simp add: al_tail_def)
next
  case (Some p)
  with find_prio_insert [of key n "f l"] obtain ys zs where
    s: "f l = ys @ p # zs" "prio_insert key n (f l) = ys @ n # p # zs" by auto
  have "rep (ins_before p n s) (al_before p n f)" by (rule rep_before [OF r u, of p l]) (simp add: s)
  with Some s al_before_at [OF rep_separate [OF r] s(1)] show ?thesis by simp
qed

end

interpretation ptr: node_lists repr "\<lambda>l n. rt_list_insert_before (Head l) (Node n)"
  "\<lambda>l n. rt_list_insert_after (Head l) (Node n)" "\<lambda>p n. rt_list_insert_before (Node p) (Node n)"
  "\<lambda>n. rt_list_remove (Node n)" "\<lambda>l. rt_list_isempty (Head l)"
proof
  fix h :: "('a, 'b) cell links" and f :: "'a \<Rightarrow> 'b list" and n p :: 'b and l :: 'a
  assume r: "repr h f"
  show "separate f" by (rule repr_separate [OF r])
  show "repr (rt_list_remove (Node n) h) (al_remove n f)"
    unfolding al_remove_def by (rule repr_remove [OF r])
  show "rt_list_isempty (Head l) h \<longleftrightarrow> f l = []" by (rule repr_isempty [OF r])
  assume u: "unlinked f n"
  show "repr (rt_list_insert_before (Head l) (Node n) h) (al_tail l n f)"
    unfolding al_tail_def by (rule repr_insert_tail [OF r u])
  show "repr (rt_list_insert_after (Head l) (Node n) h) (al_head l n f)"
    unfolding al_head_def by (rule repr_insert_head [OF r u])
  assume "p \<in> set (f l)"
  then obtain xs ys where s: "f l = xs @ p # ys" by (metis split_list)
  show "repr (rt_list_insert_before (Node p) (Node n) h) (al_before p n f)"
    using repr_insert_before [OF r u s] al_before_at [OF repr_separate [OF r] s] by simp
qed

interpretation fam: node_lists "\<lambda>s f. s = f \<and> separate f" al_tail al_head al_before al_remove "\<lambda>l f. f l = []"
proof
  fix s f :: "'a \<Rightarrow> 'b list" and n p :: 'b and l :: 'a
  assume r: "s = f \<and> separate f"
  show "separate f" using r ..
  show "al_remove n s = al_remove n f \<and> separate (al_remove n f)"
    using r separate_remove [of f n] by (simp add: al_remove_def)
  show "(s l = []) = (f l = [])" using r by simp
  assume u: "unlinked f n"
  note un = unlinkedD [OF u, of l] and sd = separate_distinct [of f l]
  show "al_tail l n s = al_tail l n f \<and> separate (al_tail l n f)"
    using r un sd separate_add [of f n "f l @ [n]" l] u by (simp add: al_tail_def)
  show "al_head l n s = al_head l n f \<and> separate (al_head l n f)"
    using r un sd separate_add [of f n "n # f l" l] u by (simp add: al_head_def)
  assume "p \<in> set (f l)"
  then obtain xs ys where s: "f l = xs @ p # ys" by (metis split_list)
  have "separate (f(l := xs @ n # p # ys))"
    using r un sd s by (intro separate_add [OF _ u]) auto
  with r al_before_at [of f l xs p ys n] s show "al_before p n s = al_before p n f \<and> separate (al_before p n f)" by simp
qed

section \<open>The singly linked list\<close>

text \<open>The next pointers; null is \<open>None\<close>. The walks to the end do not return on a cycle.\<close>

type_synonym 'c slinks = "'c \<Rightarrow> 'c option"

definition rt_slist_init :: "'c \<Rightarrow> 'c slinks \<Rightarrow> 'c slinks" where
  "rt_slist_init l h = h(l := None)"

partial_function (option) rt_slist_tail :: "'c \<Rightarrow> 'c slinks \<Rightarrow> 'c option" where
  "rt_slist_tail l h = (case h l of None \<Rightarrow> Some l | Some m \<Rightarrow> rt_slist_tail m h)"

definition rt_slist_append :: "'c \<Rightarrow> 'c \<Rightarrow> 'c slinks \<Rightarrow> 'c slinks option" where
  "rt_slist_append l n h = do { node \<leftarrow> rt_slist_tail l h; Some (h(node := Some n, n := None)) }"

definition rt_slist_insert :: "'c \<Rightarrow> 'c \<Rightarrow> 'c slinks \<Rightarrow> 'c slinks" where
  "rt_slist_insert l n h = (let h = h(n := h l) in h(l := Some n))"

partial_function (option) rt_slist_count :: "'c option \<Rightarrow> nat \<Rightarrow> 'c slinks \<Rightarrow> nat option" where
  "rt_slist_count p len h = (case p of None \<Rightarrow> Some len | Some c \<Rightarrow> rt_slist_count (h c) (len + 1) h)"

definition rt_slist_len :: "'c \<Rightarrow> 'c slinks \<Rightarrow> nat option" where
  "rt_slist_len l h = rt_slist_count (h l) 0 h"

partial_function (option) slist_find_prev :: "'c \<Rightarrow> 'c \<Rightarrow> 'c slinks \<Rightarrow> 'c option" where
  "slist_find_prev node n h =
    (case h node of
      None \<Rightarrow> Some node
    | Some m \<Rightarrow> if m \<noteq> n then slist_find_prev m n h else Some node)"

definition rt_slist_remove :: "'c \<Rightarrow> 'c \<Rightarrow> 'c slinks \<Rightarrow> 'c slinks option" where
  "rt_slist_remove l n h = do {
    node \<leftarrow> slist_find_prev l n h;
    Some (case h node of None \<Rightarrow> h | Some m \<Rightarrow> h(node := h m)) }"

definition rt_slist_first :: "'c \<Rightarrow> 'c slinks \<Rightarrow> 'c option" where
  "rt_slist_first l h = h l"

definition rt_slist_isempty :: "'c \<Rightarrow> 'c slinks \<Rightarrow> bool" where
  "rt_slist_isempty l h \<longleftrightarrow> h l = None"

fun sl_chain :: "'c slinks \<Rightarrow> 'c \<Rightarrow> 'c list \<Rightarrow> bool" where
  "sl_chain h a [] \<longleftrightarrow> h a = None"
| "sl_chain h a (x # xs) \<longleftrightarrow> h a = Some x \<and> sl_chain h x xs"

definition slist :: "'c slinks \<Rightarrow> 'c \<Rightarrow> 'c list \<Rightarrow> bool" where
  "slist h l xs \<longleftrightarrow> sl_chain h l xs \<and> distinct (l # xs)"

lemma sl_chain_cong:
  "sl_chain h a xs \<Longrightarrow> (\<And>u. u \<in> set (a # xs) \<Longrightarrow> h' u = h u) \<Longrightarrow> sl_chain h' a xs"
  by (induction xs arbitrary: a) auto

lemma slist_tail_chain: "sl_chain h a xs \<Longrightarrow> rt_slist_tail a h = Some (last (a # xs))"
proof (induction xs arbitrary: a)
  case Nil
  then show ?case by (simp add: rt_slist_tail.simps)
next
  case (Cons x xs)
  then show ?case by (simp add: rt_slist_tail.simps [of a h])
qed

lemma sl_chain_snoc:
  "sl_chain h a xs \<Longrightarrow> distinct (a # xs) \<Longrightarrow> n \<notin> set (a # xs) \<Longrightarrow>
   sl_chain (h(last (a # xs) := Some n, n := None)) a (xs @ [n])"
proof (induction xs arbitrary: a)
  case (Cons x xs)
  have "a \<noteq> last (x # xs)" using Cons.prems(2) last_in_set [of "x # xs"] by auto
  with Cons show ?case by auto
qed auto

lemma slist_append:
  assumes "slist h l xs" and "n \<notin> set (l # xs)"
  shows "\<exists>h'. rt_slist_append l n h = Some h' \<and> slist h' l (xs @ [n])"
  using assms slist_tail_chain [of h l xs] sl_chain_snoc [of h l xs n]
  by (auto simp: rt_slist_append_def slist_def)

lemma slist_insert:
  assumes "slist h l xs" and "n \<notin> set (l # xs)"
  shows "slist (rt_slist_insert l n h) l (n # xs)"
proof -
  have "sl_chain (h(n := h l, l := Some n)) n xs"
  proof (cases xs)
    case Nil
    with assms show ?thesis by (auto simp: slist_def)
  next
    case (Cons y ys)
    have "sl_chain (h(n := h l, l := Some n)) y ys"
      by (rule sl_chain_cong [of h]) (use assms Cons in \<open>auto simp: slist_def\<close>)
    with assms Cons show ?thesis by (auto simp: slist_def)
  qed
  with assms show ?thesis by (auto simp: slist_def rt_slist_insert_def)
qed

lemma slist_count_chain: "sl_chain h a xs \<Longrightarrow> rt_slist_count (h a) k h = Some (k + length xs)"
proof (induction xs arbitrary: a k)
  case Nil
  then show ?case by (simp add: rt_slist_count.simps)
next
  case (Cons x xs)
  then show ?case by (simp add: rt_slist_count.simps [of "Some x"])
qed

lemma slist_len: "slist h l xs \<Longrightarrow> rt_slist_len l h = Some (length xs)"
  using slist_count_chain [of h l xs 0] by (simp add: rt_slist_len_def slist_def)

lemma slist_remove_chain:
  "sl_chain h a xs \<Longrightarrow> distinct (a # xs) \<Longrightarrow>
   \<exists>p. slist_find_prev a n h = Some p \<and> p \<in> set (a # xs) \<and>
     sl_chain (case h p of None \<Rightarrow> h | Some m \<Rightarrow> h(p := h m)) a (remove1 n xs)"
proof (induction xs arbitrary: a)
  case Nil
  then show ?case by (simp add: slist_find_prev.simps)
next
  case (Cons x xs)
  show ?case
  proof (cases "x = n")
    case True
    have "sl_chain (h(a := h n)) a xs"
    proof (cases xs)
      case Nil
      with Cons.prems True show ?thesis by simp
    next
      case (Cons y ys)
      have "sl_chain (h(a := h n)) y ys"
        by (rule sl_chain_cong [of h]) (use Cons Cons.prems True in auto)
      with Cons Cons.prems True show ?thesis by simp
    qed
    with True Cons.prems show ?thesis by (simp add: slist_find_prev.simps [of a])
  next
    case False
    from Cons obtain p where p: "slist_find_prev x n h = Some p" "p \<in> set (x # xs)"
      "sl_chain (case h p of None \<Rightarrow> h | Some m \<Rightarrow> h(p := h m)) x (remove1 n xs)" by auto
    have "p \<noteq> a" using p(2) Cons.prems by auto
    with p False Cons.prems show ?thesis
      by (auto simp: slist_find_prev.simps [of a] split: option.splits)
  qed
qed

lemma slist_remove:
  assumes "slist h l xs"
  shows "\<exists>h'. rt_slist_remove l n h = Some h' \<and> slist h' l (remove1 n xs)"
  using assms slist_remove_chain [of h l xs n]
  by (auto simp: slist_def rt_slist_remove_def notin_set_remove1)

section \<open>Properties\<close>

definition no_links :: "('h, 'n) cell links" where
  "no_links = \<lparr>nxt = (\<lambda>c. c), prv = (\<lambda>c. c)\<rparr>"

lemma repr_no_links: "repr no_links (\<lambda>l. [])"
  by (simp add: repr_def no_links_def separate_def)

text \<open>The pointer code of \<open>rt_list_remove\<close> followed by \<open>rt_list_insert_before\<close> on a
  head, the kernel's way of moving a node, implements on the family of all queues the removal
  of the node wherever it is and its insertion at the tail of the chosen queue; all other
  queues keep their contents.\<close>

theorem rt_list_move_refines:
  assumes "repr h f"
  shows "repr (rt_list_insert_before (Head l) (Node n) (rt_list_remove (Node n) h))
    (al_tail l n (al_remove n f))"
  using assms by (rule ptr.rep_move)

lemma rt_list_move_refines_witness:
  "repr (rt_list_insert_before (Head (1::nat)) (Node (7::nat)) (rt_list_remove (Node 7) no_links))
    (al_tail 1 7 (al_remove 7 (\<lambda>l. [])))"
  by (rule rt_list_move_refines [OF repr_no_links])

text \<open>Scanning a queue for the first node with a larger key and linking the new node before
  it, or at the tail when there is none, is stable insertion: a queue sorted by key stays
  sorted, and the new node comes behind every node with the same key.\<close>

theorem rt_list_priority_insert:
  fixes key :: "'n \<Rightarrow> nat"
  assumes "repr h f" and "unlinked f n" and "sorted (map key (f l))"
  defines "h' \<equiv> (case find (\<lambda>p. key n < key p) (f l) of
      None \<Rightarrow> rt_list_insert_before (Head l) (Node n) h
    | Some p \<Rightarrow> rt_list_insert_before (Node p) (Node n) h)"
  shows "\<exists>xs ys. repr h' (f(l := xs @ n # ys)) \<and> f l = xs @ ys \<and> sorted (map key (xs @ n # ys)) \<and>
    list_all (\<lambda>p. key p \<le> key n) xs \<and> list_all (\<lambda>p. key n < key p) ys"
proof (intro exI conjI)
  let ?xs = "takeWhile (\<lambda>p. key p \<le> key n) (f l)" and ?ys = "dropWhile (\<lambda>p. key p \<le> key n) (f l)"
  have e: "prio_insert key n (f l) = ?xs @ n # ?ys" by (rule prio_insert_def)
  show "repr h' (f(l := ?xs @ n # ?ys))"
    using ptr.rep_prio [OF assms(1,2), where key = key and l = l] by (simp add: h'_def e)
  show "f l = ?xs @ ?ys" by simp
  show "sorted (map key (?xs @ n # ?ys))" using sorted_prio_insert [OF assms(3), of n] by (simp only: e)
  show "list_all (\<lambda>p. key p \<le> key n) ?xs" by (auto simp: list_all_iff dest: set_takeWhileD)
  show "list_all (\<lambda>p. key n < key p) ?ys"
    using dropWhile_sorted_greater [OF assms(3)] by (auto simp: list_all_iff)
qed

lemma rt_list_priority_insert_witness:
  "\<exists>xs ys. repr (rt_list_insert_before (Head (0::nat)) (Node (7::nat)) no_links) ((\<lambda>l. [])(0 := xs @ 7 # ys)) \<and>
    [] = xs @ ys"
proof -
  have u: "unlinked (\<lambda>l :: nat. []) (7 :: nat)" by (simp add: unlinked_def)
  have "sorted (map (\<lambda>n. n) ((\<lambda>l :: nat. []) 0))" by simp
  from rt_list_priority_insert [OF repr_no_links u this] show ?thesis
    unfolding find.simps option.case by blast
qed

text \<open>On a singly linked list \<open>rt_slist_remove\<close> returns, unlinks exactly the first
  occurrence of the node, and leaves the list alone when the node is not in it.\<close>

theorem rt_slist_remove_correct:
  assumes "slist h l xs"
  shows "\<exists>h'. rt_slist_remove l n h = Some h' \<and> slist h' l (remove1 n xs) \<and>
    rt_slist_len l h' = Some (length (remove1 n xs))"
proof -
  from slist_remove [OF assms, of n] obtain h' where
    h: "rt_slist_remove l n h = Some h'" "slist h' l (remove1 n xs)" by (elim exE conjE)
  show ?thesis using h slist_len [OF h(2)] by (intro exI [of _ h'] conjI)
qed

lemma rt_slist_remove_correct_witness:
  "\<exists>h'. rt_slist_remove 0 (2::nat) [0 \<mapsto> 1, 1 \<mapsto> 2, 2 \<mapsto> 3] = Some h' \<and> slist h' 0 [1, 3] \<and>
    rt_slist_len 0 h' = Some (Suc (Suc 0))"
proof -
  have "slist [0 \<mapsto> 1, 1 \<mapsto> 2, 2 \<mapsto> 3] 0 [1, 2, 3 :: nat]" by (simp add: slist_def)
  from rt_slist_remove_correct [OF this, of 2] show ?thesis by simp
qed

end
