(* ===== verification/KState.thy ===== *)
theory KState
  imports RtDef RtList
begin

text \<open>
  The state of the kernel. Object headers (\<open>struct rt_object\<close>) are kept in one map, so
  that the operations of \<open>object.c\<close> act on any kind of object; the rest of each object is
  in a map per type, keyed by the same address. A timer embedded in a thread
  (\<open>thread_timer\<close>) is \<open>ThreadTimer\<close> of the thread's address. The intrusive lists
  are families of lists as in \<open>RtList\<close>: the queues that link \<open>thread->tlist\<close>, the
  timer lists, the object containers and the lists of mutexes a thread holds.
\<close>

section \<open>Objects\<close>

datatype oref = Obj addr | ThreadTimer addr

record rt_object =
  obj_name :: "u8 list"
  obj_type :: u8
  obj_flag :: u8

abbreviation (input) RT_Object_Class_Null :: u8 where "RT_Object_Class_Null \<equiv> 0"
abbreviation (input) RT_Object_Class_Thread :: u8 where "RT_Object_Class_Thread \<equiv> 1"
abbreviation (input) RT_Object_Class_Semaphore :: u8 where "RT_Object_Class_Semaphore \<equiv> 2"
abbreviation (input) RT_Object_Class_Mutex :: u8 where "RT_Object_Class_Mutex \<equiv> 3"
abbreviation (input) RT_Object_Class_Event :: u8 where "RT_Object_Class_Event \<equiv> 4"
abbreviation (input) RT_Object_Class_MailBox :: u8 where "RT_Object_Class_MailBox \<equiv> 5"
abbreviation (input) RT_Object_Class_MessageQueue :: u8 where "RT_Object_Class_MessageQueue \<equiv> 6"
abbreviation (input) RT_Object_Class_MemPool :: u8 where "RT_Object_Class_MemPool \<equiv> 8"
abbreviation (input) RT_Object_Class_Device :: u8 where "RT_Object_Class_Device \<equiv> 9"
abbreviation (input) RT_Object_Class_Timer :: u8 where "RT_Object_Class_Timer \<equiv> 10"
abbreviation (input) RT_Object_Class_Memory :: u8 where "RT_Object_Class_Memory \<equiv> 12"
abbreviation (input) RT_Object_Class_Custom :: u8 where "RT_Object_Class_Custom \<equiv> 14"
abbreviation (input) RT_Object_Class_Static :: u8 where "RT_Object_Class_Static \<equiv> 0x80"

section \<open>Threads and timers\<close>

text \<open>
  \<open>th_stack_guard\<close> is the byte at \<open>stack_addr\<close>, the one the overflow check reads.
  \<open>entry\<close>, \<open>cleanup\<close> and \<open>user_data\<close> are opaque words to the kernel.
\<close>

record rt_thread =
  th_sp :: u32
  th_entry :: u32
  th_parameter :: u32
  th_stack_addr :: u32
  th_stack_size :: u32
  th_stack_guard :: u8
  th_error :: rt_err
  th_stat :: u8
  th_current_priority :: u8
  th_init_priority :: u8
  th_number_mask :: u32
  th_pending_object :: "addr option"
  th_event_set :: u32
  th_event_info :: u8
  th_init_tick :: u32
  th_remaining_tick :: u32
  th_cleanup :: "u32 option"
  th_user_data :: u32

text \<open>A timer calls \<open>_thread_timeout\<close> or a function of the application.\<close>

datatype timer_func = Thread_timeout | User_func nat

record rt_timer =
  tm_func :: timer_func
  tm_parameter :: addr
  tm_init_tick :: u32
  tm_timeout_tick :: u32

section \<open>Objects of inter-thread communication\<close>

record rt_semaphore =
  sem_value :: u16

record rt_mutex =
  mtx_ceiling_priority :: u8
  mtx_priority :: u8
  mtx_hold :: u8
  mtx_owner :: "addr option"

record rt_event =
  evt_set :: u32

record rt_mailbox =
  mb_msg_pool :: "u32 list"
  mb_size :: u16
  mb_entry :: u16
  mb_in_offset :: u16
  mb_out_offset :: u16

text \<open>
  The nodes of a message queue are the slots of its pool, numbered from 0; \<open>mq_next\<close> is the
  link word in front of each slot and \<open>mq_data\<close> the bytes behind it.
\<close>

record rt_messagequeue =
  mq_next :: "nat \<Rightarrow> nat option"
  mq_data :: "nat \<Rightarrow> u8 list"
  mq_msg_size :: u16
  mq_max_msgs :: u16
  mq_entry :: u16
  mq_head :: "nat option"
  mq_tail :: "nat option"
  mq_free :: "nat option"

section \<open>The whole state\<close>

text \<open>
  Heads of the lists that link \<open>thread->tlist\<close>: a row of \<open>rt_thread_priority_table\<close>,
  the \<open>suspend_thread\<close> list of an IPC object, the \<open>suspend_sender_thread\<close> list of a
  mailbox or message queue, and the list of defunct threads. Heads of the lists that link
  \<open>timer->row[0]\<close>: the hard and the soft timer list, and the local list each of the two
  check functions keeps the timer on while its function runs.
\<close>

datatype lhead = ReadyQ nat | SuspendQ addr | SenderQ addr | Defunct

datatype timer_head = HardTimers | SoftTimers | HardCheck | SoftCheck

text \<open>\<open>k_stale\<close> is what the memory of an object that does not exist yet holds in the place of its flag byte.\<close>

record kstate =
  k_obj :: "oref \<rightharpoonup> rt_object"
  k_stale :: "oref \<Rightarrow> u8"
  k_container :: "u8 \<Rightarrow> oref list"
  k_thread :: "addr \<rightharpoonup> rt_thread"
  k_timer :: "oref \<rightharpoonup> rt_timer"
  k_sem :: "addr \<rightharpoonup> rt_semaphore"
  k_mutex :: "addr \<rightharpoonup> rt_mutex"
  k_event :: "addr \<rightharpoonup> rt_event"
  k_mb :: "addr \<rightharpoonup> rt_mailbox"
  k_mq :: "addr \<rightharpoonup> rt_messagequeue"
  k_list :: "lhead \<Rightarrow> addr list"
  k_taken :: "addr \<Rightarrow> addr list"
  k_timers :: "timer_head \<Rightarrow> oref list"
  rt_thread_ready_priority_group :: u32
  rt_scheduler_lock_nest :: "16 word"
  rt_current_thread :: "addr option"
  rt_current_priority :: u8
  rt_interrupt_nest :: u8
  rt_tick :: u32
  soft_timer_status :: u8

text \<open>The static object \<open>_timer_thread\<close>.\<close>

definition timer_thread :: addr where "timer_thread = 1"

definition init_kstate :: kstate where
  "init_kstate = \<lparr>k_obj = Map.empty, k_stale = (\<lambda>_. 0), k_container = (\<lambda>_. []), k_thread = Map.empty, k_timer = Map.empty,
    k_sem = Map.empty, k_mutex = Map.empty, k_event = Map.empty, k_mb = Map.empty, k_mq = Map.empty,
    k_list = (\<lambda>_. []), k_taken = (\<lambda>_. []), k_timers = (\<lambda>_. []), rt_thread_ready_priority_group = 0,
    rt_scheduler_lock_nest = 0, rt_current_thread = None, rt_current_priority = 0, rt_interrupt_nest = 0,
    rt_tick = 0, soft_timer_status = 1\<rparr>"

section \<open>Access\<close>

text \<open>Writing through a pointer needs a live object behind it.\<close>

definition upd :: "('a \<rightharpoonup> 'b) \<Rightarrow> 'a \<Rightarrow> ('b \<Rightarrow> 'b) \<Rightarrow> ('a \<rightharpoonup> 'b) option" where
  "upd m a f = (case m a of None \<Rightarrow> None | Some x \<Rightarrow> Some (m(a \<mapsto> f x)))"

lemma upd_iff: "upd m a f = Some m' \<longleftrightarrow> (\<exists>x. m a = Some x \<and> m' = m(a \<mapsto> f x))"
  by (auto simp: upd_def split: option.splits)

definition upd_obj :: "oref \<Rightarrow> (rt_object \<Rightarrow> rt_object) \<Rightarrow> kstate \<Rightarrow> kstate option" where
  "upd_obj o' f s = do { m \<leftarrow> upd (k_obj s) o' f; Some (s\<lparr>k_obj := m\<rparr>) }"

definition upd_thread :: "addr \<Rightarrow> (rt_thread \<Rightarrow> rt_thread) \<Rightarrow> kstate \<Rightarrow> kstate option" where
  "upd_thread t f s = do { m \<leftarrow> upd (k_thread s) t f; Some (s\<lparr>k_thread := m\<rparr>) }"

definition upd_timer :: "oref \<Rightarrow> (rt_timer \<Rightarrow> rt_timer) \<Rightarrow> kstate \<Rightarrow> kstate option" where
  "upd_timer t f s = do { m \<leftarrow> upd (k_timer s) t f; Some (s\<lparr>k_timer := m\<rparr>) }"

lemma upd_obj_Some [simp]:
  "k_obj s o' = Some h \<Longrightarrow> upd_obj o' f s = Some (s\<lparr>k_obj := (k_obj s)(o' \<mapsto> f h)\<rparr>)"
  by (simp add: upd_obj_def upd_def)

lemma upd_obj_iff:
  "upd_obj o' f s = Some s' \<longleftrightarrow> (\<exists>h. k_obj s o' = Some h \<and> s' = s\<lparr>k_obj := (k_obj s)(o' \<mapsto> f h)\<rparr>)"
  by (auto simp: upd_obj_def upd_def split: option.splits)

lemma upd_thread_Some [simp]:
  "k_thread s t = Some h \<Longrightarrow> upd_thread t f s = Some (s\<lparr>k_thread := (k_thread s)(t \<mapsto> f h)\<rparr>)"
  by (simp add: upd_thread_def upd_def)

lemma upd_thread_iff:
  "upd_thread t f s = Some s' \<longleftrightarrow> (\<exists>h. k_thread s t = Some h \<and> s' = s\<lparr>k_thread := (k_thread s)(t \<mapsto> f h)\<rparr>)"
  by (auto simp: upd_thread_def upd_def split: option.splits)

lemma upd_timer_Some [simp]:
  "k_timer s t = Some h \<Longrightarrow> upd_timer t f s = Some (s\<lparr>k_timer := (k_timer s)(t \<mapsto> f h)\<rparr>)"
  by (simp add: upd_timer_def upd_def)

lemma upd_timer_iff:
  "upd_timer t f s = Some s' \<longleftrightarrow> (\<exists>h. k_timer s t = Some h \<and> s' = s\<lparr>k_timer := (k_timer s)(t \<mapsto> f h)\<rparr>)"
  by (auto simp: upd_timer_def upd_def split: option.splits)

text \<open>The list operations of the state, on the three families.\<close>

definition tlist_remove :: "addr \<Rightarrow> kstate \<Rightarrow> kstate" where
  "tlist_remove t s = s\<lparr>k_list := al_remove t (k_list s)\<rparr>"

definition tlist_tail :: "lhead \<Rightarrow> addr \<Rightarrow> kstate \<Rightarrow> kstate" where
  "tlist_tail l t s = s\<lparr>k_list := al_tail l t (k_list s)\<rparr>"

definition tlist_head :: "lhead \<Rightarrow> addr \<Rightarrow> kstate \<Rightarrow> kstate" where
  "tlist_head l t s = s\<lparr>k_list := al_head l t (k_list s)\<rparr>"

definition tlist_before :: "addr \<Rightarrow> addr \<Rightarrow> kstate \<Rightarrow> kstate" where
  "tlist_before p t s = s\<lparr>k_list := al_before p t (k_list s)\<rparr>"

interpretation tl: node_lists "\<lambda>s f. k_list s = f \<and> separate f" tlist_tail tlist_head tlist_before tlist_remove
  "\<lambda>l s. k_list s l = []"
proof
  fix s :: kstate and f :: "lhead \<Rightarrow> addr list" and n p :: addr and l :: lhead
  assume r: "k_list s = f \<and> separate f"
  then have r': "k_list s = f \<and> separate (k_list s)" and r'': "f = f \<and> separate f" by auto
  show "separate f" using r ..
  show "k_list (tlist_remove n s) = al_remove n f \<and> separate (al_remove n f)"
    using r fam.rep_rem [OF r''] by (simp add: tlist_remove_def)
  show "(k_list s l = []) = (f l = [])" using r by simp
  assume u: "unlinked f n"
  show "k_list (tlist_tail l n s) = al_tail l n f \<and> separate (al_tail l n f)"
    using r fam.rep_tail [OF r'' u] by (simp add: tlist_tail_def)
  show "k_list (tlist_head l n s) = al_head l n f \<and> separate (al_head l n f)"
    using r fam.rep_head [OF r'' u] by (simp add: tlist_head_def)
  assume "p \<in> set (f l)"
  then show "k_list (tlist_before p n s) = al_before p n f \<and> separate (al_before p n f)"
    using r fam.rep_before [OF r'' u] by (simp add: tlist_before_def)
qed

end
