(* ===== verification/Scheduler.thy ===== *)
theory Scheduler
  imports KState RtFfs
begin

text \<open>
  \<open>rt-thread/src/scheduler_up.c\<close>: the ready queues, the choice of the next thread,
  \<open>rt_schedule\<close> and the scheduler lock, with the context checks of \<open>rtthread.h\<close> and
  the interrupt nesting of \<open>irq.c\<close>. A call of \<open>rt_schedule\<close> is the change it makes to
  the kernel's data; what the calling thread does when it runs again is modelled by the callers.
\<close>

section \<open>Context\<close>

text \<open>An array access inside the array.\<close>

abbreviation (input) in_bounds :: "bool \<Rightarrow> unit option" where "in_bounds \<equiv> RT_ASSERT"

definition rt_thread_self :: "kstate \<Rightarrow> addr option" where
  "rt_thread_self s = rt_current_thread s"

definition rt_interrupt_enter :: "kstate \<Rightarrow> kstate" where
  "rt_interrupt_enter s = s\<lparr>rt_interrupt_nest := rt_interrupt_nest s + 1\<rparr>"

definition rt_interrupt_leave :: "kstate \<Rightarrow> kstate" where
  "rt_interrupt_leave s = s\<lparr>rt_interrupt_nest := rt_interrupt_nest s - 1\<rparr>"

definition rt_interrupt_get_nest :: "kstate \<Rightarrow> u8" where
  "rt_interrupt_get_nest s = rt_interrupt_nest s"

definition rt_critical_level :: "kstate \<Rightarrow> u16" where
  "rt_critical_level s = rt_scheduler_lock_nest s"

definition RT_DEBUG_NOT_IN_INTERRUPT :: "kstate \<Rightarrow> unit option" where
  "RT_DEBUG_NOT_IN_INTERRUPT s = RT_ASSERT (rt_interrupt_get_nest s = 0)"

definition RT_DEBUG_IN_THREAD_CONTEXT :: "kstate \<Rightarrow> unit option" where
  "RT_DEBUG_IN_THREAD_CONTEXT s = do {
    RT_ASSERT (rt_thread_self s \<noteq> None);
    RT_DEBUG_NOT_IN_INTERRUPT s }"

text \<open>The operations that use it are called with interrupts enabled.\<close>

definition RT_DEBUG_SCHEDULER_AVAILABLE :: "bool \<Rightarrow> kstate \<Rightarrow> unit option" where
  "RT_DEBUG_SCHEDULER_AVAILABLE need_check s =
    (if need_check then do {
       RT_ASSERT (rt_critical_level s = 0);
       RT_DEBUG_IN_THREAD_CONTEXT s }
     else Some ())"

section \<open>Thread states\<close>

definition state_of :: "rt_thread \<Rightarrow> u8" where
  "state_of th = th_stat th AND RT_THREAD_STAT_MASK"

definition suspended :: "rt_thread \<Rightarrow> bool" where
  "suspended th \<longleftrightarrow> th_stat th AND RT_THREAD_SUSPEND_MASK = RT_THREAD_SUSPEND_MASK"

text \<open>The assignment \<open>thread->stat = c | (thread->stat & ~RT_THREAD_STAT_MASK)\<close>.\<close>

definition set_state :: "u8 \<Rightarrow> rt_thread \<Rightarrow> rt_thread" where
  "set_state c th = th\<lparr>th_stat := c OR (th_stat th AND NOT RT_THREAD_STAT_MASK)\<rparr>"

definition yielding :: "rt_thread \<Rightarrow> bool" where
  "yielding th \<longleftrightarrow> th_stat th AND RT_THREAD_STAT_YIELD \<noteq> 0"

definition clear_yield :: "rt_thread \<Rightarrow> rt_thread" where
  "clear_yield th = th\<lparr>th_stat := th_stat th AND NOT RT_THREAD_STAT_YIELD\<rparr>"

definition prio :: "rt_thread \<Rightarrow> nat" where
  "prio th = unat (th_current_priority th)"

section \<open>Operations\<close>

definition rt_system_scheduler_init :: "kstate \<Rightarrow> kstate" where
  "rt_system_scheduler_init s = s\<lparr>rt_scheduler_lock_nest := 0,
    k_list := (\<lambda>l. case l of ReadyQ p \<Rightarrow> if p < RT_THREAD_PRIORITY_MAX then [] else k_list s l | _ \<Rightarrow> k_list s l),
    rt_thread_ready_priority_group := 0\<rparr>"

definition rt_schedule_insert_thread :: "addr \<Rightarrow> kstate \<Rightarrow> kstate option" where
  "rt_schedule_insert_thread thread s =
    (if rt_current_thread s = Some thread then upd_thread thread (set_state RT_THREAD_RUNNING) s
     else do {
       s \<leftarrow> upd_thread thread (set_state RT_THREAD_READY) s;
       th \<leftarrow> k_thread s thread;
       in_bounds (prio th < RT_THREAD_PRIORITY_MAX);
       let s = (if yielding th then tlist_tail (ReadyQ (prio th)) thread s
                else tlist_head (ReadyQ (prio th)) thread s);
       Some (s\<lparr>rt_thread_ready_priority_group := rt_thread_ready_priority_group s OR th_number_mask th\<rparr>) })"

definition rt_schedule_remove_thread :: "addr \<Rightarrow> kstate \<Rightarrow> kstate option" where
  "rt_schedule_remove_thread thread s = do {
    th \<leftarrow> k_thread s thread;
    let s = tlist_remove thread s;
    in_bounds (prio th < RT_THREAD_PRIORITY_MAX);
    Some (if k_list s (ReadyQ (prio th)) = []
          then s\<lparr>rt_thread_ready_priority_group := rt_thread_ready_priority_group s AND NOT (th_number_mask th)\<rparr>
          else s) }"

definition scheduler_get_highest_priority_thread :: "kstate \<Rightarrow> (addr \<times> nat) option" where
  "scheduler_get_highest_priority_thread s = (
    let number = rt_ffs (rt_thread_ready_priority_group s) in
    if number = 0 then None
    else case k_list s (ReadyQ (number - 1)) of
        [] \<Rightarrow> None
      | thread # _ \<Rightarrow> Some (thread, number - 1))"

text \<open>A detected overflow prints a message and stops with interrupts disabled.\<close>

definition stack_ok :: "rt_thread \<Rightarrow> bool" where
  "stack_ok th \<longleftrightarrow> th_stack_guard th = 35 \<and> \<not> th_sp th \<le> th_stack_addr th \<and>
    \<not> th_sp th > th_stack_addr th + th_stack_size th"

definition scheduler_stack_check :: "addr \<Rightarrow> kstate \<Rightarrow> unit option" where
  "scheduler_stack_check thread s = do {
    th \<leftarrow> k_thread s thread;
    if \<not> stack_ok th then None else Some () }"

definition rt_system_scheduler_start :: "kstate \<Rightarrow> kstate option" where
  "rt_system_scheduler_start s = do {
    (to_thread, highest) \<leftarrow> scheduler_get_highest_priority_thread s;
    let s = s\<lparr>rt_current_thread := Some to_thread\<rparr>;
    s \<leftarrow> rt_schedule_remove_thread to_thread s;
    upd_thread to_thread (\<lambda>th. th\<lparr>th_stat := RT_THREAD_RUNNING\<rparr>) s }"

text \<open>
  The decision part of \<open>rt_schedule\<close>: the thread to run, and whether the running thread
  goes back to its ready queue.
\<close>

definition schedule_choice :: "rt_thread \<Rightarrow> addr \<Rightarrow> addr \<Rightarrow> nat \<Rightarrow> addr \<times> bool" where
  "schedule_choice c cur to_thread highest =
    (if state_of c = RT_THREAD_RUNNING then
       if prio c < highest then (cur, False)
       else if prio c = highest \<and> \<not> yielding c then (cur, False)
       else (to_thread, True)
     else (to_thread, False))"

definition rt_schedule :: "kstate \<Rightarrow> kstate option" where
  "rt_schedule s =
    (if rt_scheduler_lock_nest s = 0 \<and> rt_thread_ready_priority_group s \<noteq> 0 then do {
       (first, highest) \<leftarrow> scheduler_get_highest_priority_thread s;
       cur \<leftarrow> rt_current_thread s;
       c \<leftarrow> k_thread s cur;
       let (to_thread, need_insert_from_thread) = schedule_choice c cur first highest;
       s \<leftarrow> (if state_of c = RT_THREAD_RUNNING then upd_thread cur clear_yield s else Some s);
       if to_thread \<noteq> cur then do {
         let s = s\<lparr>rt_current_priority := of_nat highest, rt_current_thread := Some to_thread\<rparr>;
         s \<leftarrow> (if need_insert_from_thread then rt_schedule_insert_thread cur s else Some s);
         s \<leftarrow> rt_schedule_remove_thread to_thread s;
         s \<leftarrow> upd_thread to_thread (set_state RT_THREAD_RUNNING) s;
         _ \<leftarrow> scheduler_stack_check to_thread s;
         Some s
       } else do {
         s \<leftarrow> rt_schedule_remove_thread cur s;
         upd_thread cur (set_state RT_THREAD_RUNNING) s
       } }
     else Some s)"

definition rt_enter_critical :: "kstate \<Rightarrow> kstate" where
  "rt_enter_critical s = s\<lparr>rt_scheduler_lock_nest := rt_scheduler_lock_nest s + 1\<rparr>"

definition rt_exit_critical :: "kstate \<Rightarrow> kstate option" where
  "rt_exit_critical s = (
    let s = s\<lparr>rt_scheduler_lock_nest := rt_scheduler_lock_nest s - 1\<rparr> in
    if sint (rt_scheduler_lock_nest s) \<le> 0 then
      let s = s\<lparr>rt_scheduler_lock_nest := 0\<rparr> in
      if rt_current_thread s \<noteq> None then rt_schedule s else Some s
    else Some s)"

end
