(* ===== verification/SchedInv.thy ===== *)
theory SchedInv
  imports Scheduler
begin

text \<open>
  The invariant of the scheduler's data and its preservation. Every queued thread is in one
  queue only and in the state that queue stands for; a thread is ready exactly when it is in
  the ready queue of its priority; bit \<open>p\<close> of the group word is set exactly when ready
  queue \<open>p\<close> is not empty; only the current thread runs. Inside an operation the states of
  a few threads do not match yet: \<open>inv_out T\<close> is the invariant with the threads in
  \<open>T\<close> exempt from the conditions on their states.
\<close>

section \<open>State bits\<close>

lemma and_or_mask: "c AND m = c \<Longrightarrow> (c OR (x AND NOT m)) AND m = c" for c m x :: "'a::len word"
  by (simp add: bit.conj_disj_distrib2 and.assoc)

lemma state_of_set_state [simp]: "c AND 7 = c \<Longrightarrow> state_of (set_state c th) = c"
  using and_or_mask [of c 7 "th_stat th"] by (simp add: state_of_def set_state_def)

lemma set_state_simps [simp]:
  "prio (set_state c th) = prio th" "th_number_mask (set_state c th) = th_number_mask th"
  "th_current_priority (set_state c th) = th_current_priority th" "th_error (set_state c th) = th_error th"
  "stack_ok (set_state c th) = stack_ok th"
  by (simp_all add: set_state_def prio_def stack_ok_def)

lemma clear_yield_simps [simp]:
  "prio (clear_yield th) = prio th" "th_number_mask (clear_yield th) = th_number_mask th"
  "th_current_priority (clear_yield th) = th_current_priority th" "th_error (clear_yield th) = th_error th"
  "stack_ok (clear_yield th) = stack_ok th"
  by (simp_all add: clear_yield_def prio_def stack_ok_def)

lemma and_not_and: "NOT b AND m = m \<Longrightarrow> (x AND NOT b) AND m = x AND m" for b m x :: "'a::len word"
  by (simp add: and.assoc)

lemma state_of_clear_yield [simp]: "state_of (clear_yield th) = state_of th"
proof -
  have "NOT (8 :: u8) AND 7 = 7" by simp
  from and_not_and [OF this] show ?thesis by (simp add: state_of_def clear_yield_def)
qed

lemma suspended_clear_yield [simp]: "suspended (clear_yield th) = suspended th"
proof -
  have "NOT (8 :: u8) AND 4 = 4" by simp
  from and_not_and [OF this] show ?thesis by (simp add: suspended_def clear_yield_def)
qed

lemma suspended_state: "suspended th \<longleftrightarrow> state_of th AND 4 = 4"
proof -
  have "(7 :: u8) AND 4 = 4" by simp
  then show ?thesis by (simp add: suspended_def state_of_def and.assoc)
qed

lemma suspended_not: "suspended th \<Longrightarrow> state_of th \<notin> {0, 1, 2, 3}"
  by (auto simp: suspended_state)

lemma yielding_set_state [simp]: "c AND 8 = 0 \<Longrightarrow> yielding (set_state c th) = yielding th"
proof -
  assume c: "c AND 8 = 0"
  have "NOT (7 :: u8) AND 8 = 8" by simp
  then have "(c OR (th_stat th AND NOT 7)) AND 8 = th_stat th AND 8"
    using c by (simp add: bit.conj_disj_distrib2 and.assoc)
  then show ?thesis by (simp add: yielding_def set_state_def)
qed

lemma yielding_clear_yield [simp]: "\<not> yielding (clear_yield th)"
  by (simp add: yielding_def clear_yield_def and.assoc)

section \<open>The invariant\<close>

definition prio_bit :: "rt_thread \<Rightarrow> u32" where
  "prio_bit th = push_bit (prio th) 1"

definition prio_ok :: "rt_thread \<Rightarrow> bool" where
  "prio_ok th \<longleftrightarrow> prio th < RT_THREAD_PRIORITY_MAX \<and> (th_number_mask th = 0 \<or> th_number_mask th = prio_bit th)"

definition queue_state :: "lhead \<Rightarrow> rt_thread \<Rightarrow> bool" where
  "queue_state l th = (case l of
      ReadyQ p \<Rightarrow> p = prio th \<and> state_of th = RT_THREAD_READY \<and> th_number_mask th = prio_bit th
    | SuspendQ _ \<Rightarrow> suspended th
    | SenderQ _ \<Rightarrow> suspended th
    | Defunct \<Rightarrow> state_of th = RT_THREAD_CLOSE)"

definition state_ok :: "kstate \<Rightarrow> addr \<Rightarrow> rt_thread \<Rightarrow> bool" where
  "state_ok s t th \<longleftrightarrow>
    (state_of th \<noteq> RT_THREAD_INIT \<and> state_of th \<noteq> RT_THREAD_CLOSE \<longrightarrow> th_number_mask th = prio_bit th) \<and>
    (state_of th = RT_THREAD_READY \<longrightarrow> t \<in> set (k_list s (ReadyQ (prio th))) \<and> rt_current_thread s \<noteq> Some t) \<and>
    (state_of th = RT_THREAD_RUNNING \<longrightarrow> rt_current_thread s = Some t)"

definition inv_out :: "addr set \<Rightarrow> kstate \<Rightarrow> bool" where
  "inv_out T s \<longleftrightarrow> separate (k_list s) \<and>
    (\<forall>l t. t \<in> set (k_list s l) \<longrightarrow> (\<exists>th. k_thread s t = Some th \<and> queue_state l th)) \<and>
    (\<forall>t th. k_thread s t = Some th \<longrightarrow> prio_ok th \<and> (t \<notin> T \<longrightarrow> state_ok s t th)) \<and>
    (\<forall>p < RT_THREAD_PRIORITY_MAX. bit (rt_thread_ready_priority_group s) p \<longleftrightarrow> k_list s (ReadyQ p) \<noteq> []) \<and>
    (\<forall>c. rt_current_thread s = Some c \<longrightarrow> k_thread s c \<noteq> None)"

definition sched_inv :: "kstate \<Rightarrow> bool" where
  "sched_inv s \<longleftrightarrow> inv_out {} s"

lemma inv_outD:
  assumes "inv_out T s"
  shows "separate (k_list s)"
    and "t \<in> set (k_list s l) \<Longrightarrow> \<exists>th. k_thread s t = Some th \<and> queue_state l th"
    and "k_thread s t = Some th \<Longrightarrow> prio_ok th"
    and "k_thread s t = Some th \<Longrightarrow> t \<notin> T \<Longrightarrow> state_ok s t th"
    and "p < RT_THREAD_PRIORITY_MAX \<Longrightarrow> bit (rt_thread_ready_priority_group s) p \<longleftrightarrow> k_list s (ReadyQ p) \<noteq> []"
    and "rt_current_thread s = Some c \<Longrightarrow> \<exists>th. k_thread s c = Some th"
  using assms by (auto simp: inv_out_def)

lemma inv_outI:
  assumes "separate (k_list s)"
    and "\<And>l t. t \<in> set (k_list s l) \<Longrightarrow> \<exists>th. k_thread s t = Some th \<and> queue_state l th"
    and "\<And>t th. k_thread s t = Some th \<Longrightarrow> prio_ok th"
    and "\<And>t th. k_thread s t = Some th \<Longrightarrow> t \<notin> T \<Longrightarrow> state_ok s t th"
    and "\<And>p. p < RT_THREAD_PRIORITY_MAX \<Longrightarrow> bit (rt_thread_ready_priority_group s) p \<longleftrightarrow> k_list s (ReadyQ p) \<noteq> []"
    and "\<And>c. rt_current_thread s = Some c \<Longrightarrow> \<exists>th. k_thread s c = Some th"
  shows "inv_out T s"
  using assms by (auto simp: inv_out_def)

lemma inv_out_mono: "inv_out T s \<Longrightarrow> T \<subseteq> T' \<Longrightarrow> inv_out T' s"
  unfolding inv_out_def by blast

lemma sched_inv_out: "sched_inv s \<Longrightarrow> inv_out T s"
  unfolding sched_inv_def by (rule inv_out_mono) auto

text \<open>A thread that is not ready, suspended or closed is in no queue.\<close>

lemma queue_state_not_running:
  "queue_state l th \<Longrightarrow> state_of th \<noteq> RT_THREAD_RUNNING \<and> state_of th \<noteq> RT_THREAD_INIT"
  using suspended_not [of th] by (auto simp: queue_state_def split: lhead.splits)

lemma running_unlinked:
  assumes "inv_out T s" and "k_thread s t = Some th" and "state_of th = RT_THREAD_RUNNING \<or> state_of th = RT_THREAD_INIT"
  shows "unlinked (k_list s) t"
  unfolding unlinked_def
proof (intro allI notI)
  fix l assume "t \<in> set (k_list s l)"
  with inv_outD(2) [OF assms(1) this] assms(2,3) queue_state_not_running [of l th] show False by auto
qed

lemma bit_prio_bit: "prio th < 32 \<Longrightarrow> bit (prio_bit th) p \<longleftrightarrow> p = prio th"
  by (auto simp: prio_bit_def bit_exp_iff possible_bit_word)

section \<open>Insertion and removal\<close>

lemma insert_thread_current:
  "rt_current_thread s = Some t \<Longrightarrow> k_thread s t = Some th \<Longrightarrow>
   rt_schedule_insert_thread t s = Some (s\<lparr>k_thread := (k_thread s)(t \<mapsto> set_state RT_THREAD_RUNNING th)\<rparr>)"
  by (simp add: rt_schedule_insert_thread_def)

lemma insert_thread_other:
  "rt_current_thread s \<noteq> Some t \<Longrightarrow> k_thread s t = Some th \<Longrightarrow> prio th < RT_THREAD_PRIORITY_MAX \<Longrightarrow>
   rt_schedule_insert_thread t s = Some (s\<lparr>
     k_thread := (k_thread s)(t \<mapsto> set_state RT_THREAD_READY th),
     k_list := (if yielding th then al_tail else al_head) (ReadyQ (prio th)) t (k_list s),
     rt_thread_ready_priority_group := rt_thread_ready_priority_group s OR th_number_mask th\<rparr>)"
  by (simp add: rt_schedule_insert_thread_def upd_thread_def upd_def tlist_tail_def tlist_head_def Let_def)

lemma remove_thread_eq:
  "k_thread s t = Some th \<Longrightarrow> prio th < RT_THREAD_PRIORITY_MAX \<Longrightarrow>
   rt_schedule_remove_thread t s = Some (s\<lparr>
     k_list := al_remove t (k_list s),
     rt_thread_ready_priority_group :=
       (if al_remove t (k_list s) (ReadyQ (prio th)) = []
        then rt_thread_ready_priority_group s AND NOT (th_number_mask th)
        else rt_thread_ready_priority_group s)\<rparr>)"
  by (simp add: rt_schedule_remove_thread_def tlist_remove_def Let_def)

lemma inv_out_remove:
  assumes inv: "inv_out T s" and th: "k_thread s t = Some th" and T: "state_of th = RT_THREAD_READY \<longrightarrow> t \<in> T"
  shows "\<exists>s'. rt_schedule_remove_thread t s = Some s' \<and> inv_out T s' \<and> unlinked (k_list s') t \<and>
    s' = s\<lparr>k_list := al_remove t (k_list s), rt_thread_ready_priority_group := rt_thread_ready_priority_group s'\<rparr>"
proof -
  have sep: "separate (k_list s)" using inv_outD(1) [OF inv] .
  have po: "prio_ok th" using inv_outD(3) [OF inv th] .
  let ?G = "rt_thread_ready_priority_group s"
  let ?L = "al_remove t (k_list s)"
  let ?s = "s\<lparr>k_list := ?L, rt_thread_ready_priority_group :=
       (if ?L (ReadyQ (prio th)) = [] then ?G AND NOT (th_number_mask th) else ?G)\<rparr>"
  have eq: "rt_schedule_remove_thread t s = Some ?s"
    using remove_thread_eq [OF th] po by (simp add: prio_ok_def)
  have un: "unlinked ?L t" using unlinked_remove [OF sep] by (simp add: al_remove_def)
  have mem: "x \<in> set (?L l) \<longleftrightarrow> x \<noteq> t \<and> x \<in> set (k_list s l)" for x l
    using separate_distinct [OF sep, of l] by (auto simp: al_remove_def)
  have other: "?L l = k_list s l" if "t \<notin> set (k_list s l)" for l
    using that by (simp add: al_remove_def remove1_idem)
  have "inv_out T ?s"
  proof (rule inv_outI)
    show "separate (k_list ?s)" using separate_remove [OF sep] by (simp add: al_remove_def)
    show "\<exists>th. k_thread ?s x = Some th \<and> queue_state l th" if "x \<in> set (k_list ?s l)" for l x
      using that mem inv_outD(2) [OF inv, of x l] by auto
    show "prio_ok h" if "k_thread ?s x = Some h" for x h using that inv_outD(3) [OF inv] by simp
    show "state_ok ?s x h" if h: "k_thread ?s x = Some h" "x \<notin> T" for x h
      using h inv_outD(4) [OF inv, of x h] mem T th by (auto simp: state_ok_def)
    show "\<exists>th. k_thread ?s c = Some th" if "rt_current_thread ?s = Some c" for c
      using that inv_outD(6) [OF inv, of c] by simp
    show "bit (rt_thread_ready_priority_group ?s) p \<longleftrightarrow> k_list ?s (ReadyQ p) \<noteq> []" if p: "p < 32" for p
    proof (cases "p = prio th")
      case True
      show ?thesis
      proof (cases "?L (ReadyQ p) = []")
        case e: True
        have "\<not> bit (?G AND NOT (th_number_mask th)) p"
        proof (cases "th_number_mask th = prio_bit th")
          case True
          then show ?thesis using p \<open>p = prio th\<close> by (simp add: bit_and_iff bit_not_iff bit_prio_bit)
        next
          case False
          have "t \<notin> set (k_list s (ReadyQ p))"
            using inv_outD(2) [OF inv, of t "ReadyQ p"] th False by (auto simp: queue_state_def)
          with other e have "k_list s (ReadyQ p) = []" by metis
          then show ?thesis using inv_outD(5) [OF inv p] by (simp add: bit_and_iff)
        qed
        with e True show ?thesis by simp
      next
        case ne: False
        then have "k_list s (ReadyQ p) \<noteq> []" by (auto simp: al_remove_def)
        with ne True inv_outD(5) [OF inv p] show ?thesis by simp
      qed
    next
      case False
      have "t \<notin> set (k_list s (ReadyQ p))"
        using inv_outD(2) [OF inv, of t "ReadyQ p"] th False by (auto simp: queue_state_def)
      then have l: "?L (ReadyQ p) = k_list s (ReadyQ p)" by (rule other)
      have "bit (NOT (th_number_mask th)) p"
        using po p False bit_prio_bit [of th p] by (auto simp: prio_ok_def bit_not_iff)
      then show ?thesis using l inv_outD(5) [OF inv p] by (simp add: bit_and_iff)
    qed
  qed
  with eq un show ?thesis by (intro exI [of _ ?s]) simp
qed

text \<open>Inserting a thread that is in no queue makes it ready, or running when it is the current one.\<close>

lemma inv_out_insert:
  assumes inv: "inv_out T s" and th: "k_thread s t = Some th" and un: "unlinked (k_list s) t"
    and m: "th_number_mask th = prio_bit th" and nc: "rt_current_thread s \<noteq> Some t"
  shows "\<exists>s'. rt_schedule_insert_thread t s = Some s' \<and> inv_out (T - {t}) s' \<and>
    s' = s\<lparr>k_thread := (k_thread s)(t \<mapsto> set_state RT_THREAD_READY th),
      k_list := (if yielding th then al_tail else al_head) (ReadyQ (prio th)) t (k_list s),
      rt_thread_ready_priority_group := rt_thread_ready_priority_group s OR prio_bit th\<rparr>"
proof -
  have sep: "separate (k_list s)" using inv_outD(1) [OF inv] .
  have po: "prio_ok th" using inv_outD(3) [OF inv th] .
  then have p32: "prio th < 32" by (simp add: prio_ok_def)
  let ?G = "rt_thread_ready_priority_group s" and ?q = "ReadyQ (prio th)"
  let ?L = "(if yielding th then al_tail else al_head) ?q t (k_list s)"
  let ?th = "set_state RT_THREAD_READY th"
  let ?s = "s\<lparr>k_thread := (k_thread s)(t \<mapsto> ?th), k_list := ?L, rt_thread_ready_priority_group := ?G OR prio_bit th\<rparr>"
  have eq: "rt_schedule_insert_thread t s = Some ?s"
    using insert_thread_other [OF nc th p32] m by simp
  have mem: "x \<in> set (?L l) \<longleftrightarrow> x \<in> set (k_list s l) \<or> (x = t \<and> l = ?q)" for x l
    by (auto simp: al_tail_def al_head_def)
  have ne: "?L ?q \<noteq> []" by (simp add: al_tail_def al_head_def)
  have lo: "?L l = k_list s l" if "l \<noteq> ?q" for l using that by (simp add: al_tail_def al_head_def)
  have st: "state_of ?th = 2" by simp
  have sepL: "separate ?L"
    using tl.rep_tail [of s "k_list s" t ?q] tl.rep_head [of s "k_list s" t ?q] sep un by (simp split: if_splits)
  have mb: "prio_bit ?th = prio_bit th" by (simp add: prio_bit_def)
  have "inv_out (T - {t}) ?s"
  proof (rule inv_outI)
    show "separate (k_list ?s)" using sepL by simp
    show "\<exists>h. k_thread ?s x = Some h \<and> queue_state l h" if x: "x \<in> set (k_list ?s l)" for l x
    proof (cases "x = t")
      case True
      then have "l = ?q" using x mem un by (auto simp: unlinked_def)
      with True st m mb show ?thesis by (simp add: queue_state_def)
    next
      case False
      then show ?thesis using x mem inv_outD(2) [OF inv, of x l] by auto
    qed
    show "prio_ok h" if "k_thread ?s x = Some h" for x h
      using that inv_outD(3) [OF inv, of x h] po mb by (auto simp: prio_ok_def split: if_splits)
    show "state_ok ?s x h" if h: "k_thread ?s x = Some h" "x \<notin> T - {t}" for x h
    proof (cases "x = t")
      case True
      then have "h = ?th" using h by simp
      with True st m mb nc mem show ?thesis by (simp add: state_ok_def)
    next
      case False
      then show ?thesis using h inv_outD(4) [OF inv, of x h] mem by (auto simp: state_ok_def)
    qed
    show "\<exists>h. k_thread ?s c = Some h" if "rt_current_thread ?s = Some c" for c
      using that inv_outD(6) [OF inv, of c] by auto
    show "bit (rt_thread_ready_priority_group ?s) p \<longleftrightarrow> k_list ?s (ReadyQ p) \<noteq> []" if p: "p < 32" for p
      using inv_outD(5) [OF inv p] bit_prio_bit [OF p32, of p] ne lo [of "ReadyQ p"]
      by (cases "p = prio th") (auto simp: bit_or_iff)
  qed
  with eq show ?thesis by (intro exI [of _ ?s]) simp
qed

text \<open>Changing the state of a thread that is in no queue.\<close>

lemma inv_out_set:
  assumes inv: "inv_out T s" and th: "k_thread s t = Some th" and un: "unlinked (k_list s) t"
    and po: "prio_ok h" and st: "t \<notin> T' \<longrightarrow> state_ok s t h" and T: "T \<subseteq> insert t T'"
  shows "inv_out T' (s\<lparr>k_thread := (k_thread s)(t \<mapsto> h)\<rparr>)"
proof (rule inv_outI)
  let ?s = "s\<lparr>k_thread := (k_thread s)(t \<mapsto> h)\<rparr>"
  show "separate (k_list ?s)" using inv_outD(1) [OF inv] by simp
  show "\<exists>h. k_thread ?s x = Some h \<and> queue_state l h" if "x \<in> set (k_list ?s l)" for l x
    using that un inv_outD(2) [OF inv, of x l] by (auto simp: unlinked_def)
  show "prio_ok h'" if "k_thread ?s x = Some h'" for x h'
    using that po inv_outD(3) [OF inv, of x h'] by (auto split: if_splits)
  show "state_ok ?s x h'" if h: "k_thread ?s x = Some h'" "x \<notin> T'" for x h'
    using h st T inv_outD(4) [OF inv, of x h'] by (cases "x = t") (auto simp: state_ok_def)
  show "\<exists>h. k_thread ?s c = Some h" if "rt_current_thread ?s = Some c" for c
    using that inv_outD(6) [OF inv, of c] by auto
  show "bit (rt_thread_ready_priority_group ?s) p \<longleftrightarrow> k_list ?s (ReadyQ p) \<noteq> []" if "p < 32" for p
    using inv_outD(5) [OF inv that] by simp
qed

text \<open>Updates of a thread that keep its state, priority and mask.\<close>

lemma inv_out_keep:
  assumes inv: "inv_out T s" and th: "k_thread s t = Some th"
    and h: "state_of h = state_of th" "th_current_priority h = th_current_priority th"
      "th_number_mask h = th_number_mask th"
  shows "inv_out T (s\<lparr>k_thread := (k_thread s)(t \<mapsto> h)\<rparr>)"
proof -
  have e: "prio h = prio th" "prio_bit h = prio_bit th" "suspended h = suspended th"
    using h by (simp_all add: prio_def prio_bit_def suspended_state)
  have q: "queue_state l h = queue_state l th" for l
    using h e by (simp add: queue_state_def split: lhead.splits)
  have p: "prio_ok h = prio_ok th" using h e by (simp add: prio_ok_def)
  show ?thesis
  proof (rule inv_outI)
    let ?s = "s\<lparr>k_thread := (k_thread s)(t \<mapsto> h)\<rparr>"
    show "separate (k_list ?s)" using inv_outD(1) [OF inv] by simp
    show "\<exists>h. k_thread ?s x = Some h \<and> queue_state l h" if "x \<in> set (k_list ?s l)" for l x
    proof (cases "x = t")
      case True
      then show ?thesis using that inv_outD(2) [OF inv, of x l] th q by simp
    next
      case False
      then show ?thesis using that inv_outD(2) [OF inv, of x l] by simp
    qed
    show "prio_ok h'" if "k_thread ?s x = Some h'" for x h'
      using that inv_outD(3) [OF inv, of x] th p by (auto split: if_splits)
    show "state_ok ?s x h'" if "k_thread ?s x = Some h'" "x \<notin> T" for x h'
    proof (cases "x = t")
      case True
      then have "state_ok s t th" using that inv_outD(4) [OF inv th] by simp
      with True that h e show ?thesis by (simp add: state_ok_def)
    next
      case False
      then show ?thesis using that inv_outD(4) [OF inv, of x h'] by (simp add: state_ok_def)
    qed
    show "\<exists>h. k_thread ?s c = Some h" if "rt_current_thread ?s = Some c" for c
      using that inv_outD(6) [OF inv, of c] by auto
    show "bit (rt_thread_ready_priority_group ?s) p \<longleftrightarrow> k_list ?s (ReadyQ p) \<noteq> []" if "p < 32" for p
      using inv_outD(5) [OF inv that] by simp
  qed
qed

end
