(* ===== verification/SchedProps.thy ===== *)
theory SchedProps
  imports SchedInv
begin

text \<open>
  What \<open>rt_schedule\<close> and the operations around it do on a state that satisfies the
  scheduler's invariant: they return, keep the invariant, and leave the highest-priority
  thread running.
\<close>

section \<open>The highest ready thread\<close>

lemma get_highest:
  assumes inv: "inv_out T s" and g: "rt_thread_ready_priority_group s \<noteq> 0"
  shows "\<exists>t rest p. scheduler_get_highest_priority_thread s = Some (t, p) \<and> p < RT_THREAD_PRIORITY_MAX \<and>
    k_list s (ReadyQ p) = t # rest \<and> (\<forall>q<p. k_list s (ReadyQ q) = [])"
proof -
  let ?G = "rt_thread_ready_priority_group s"
  let ?p = "rt_ffs ?G - 1"
  have f: "0 < rt_ffs ?G" "rt_ffs ?G \<le> 32" "bit ?G ?p" "\<forall>j < ?p. \<not> bit ?G j"
    using rt_ffs_lowest_bit [OF g] by auto
  have p: "?p < 32" using f by linarith
  obtain t rest where l: "k_list s (ReadyQ ?p) = t # rest"
    using inv_outD(5) [OF inv p] f(3) by (cases "k_list s (ReadyQ ?p)") auto
  moreover have "k_list s (ReadyQ q) = []" if "q < ?p" for q
    using inv_outD(5) [OF inv, of q] f(4) that p by auto
  ultimately show ?thesis
    using f(1) p unfolding scheduler_get_highest_priority_thread_def Let_def
    by (intro exI [of _ t] exI [of _ rest] exI [of _ ?p]) simp
qed

lemma ready_member:
  assumes "inv_out T s" and "t \<in> set (k_list s (ReadyQ p))"
  shows "\<exists>th. k_thread s t = Some th \<and> prio th = p \<and> state_of th = RT_THREAD_READY \<and> p < RT_THREAD_PRIORITY_MAX
    \<and> th_number_mask th = prio_bit th"
  using inv_outD(2) [OF assms] inv_outD(3) [OF assms(1)] by (fastforce simp: queue_state_def prio_ok_def)

section \<open>Frames\<close>

text \<open>A scheduling step changes the scheduler's fields and, of the threads, only their states.\<close>

definition stat_frame :: "kstate \<Rightarrow> kstate \<Rightarrow> bool" where
  "stat_frame s s' \<longleftrightarrow>
    (\<forall>t. map_option (\<lambda>th. th\<lparr>th_stat := 0\<rparr>) (k_thread s' t) = map_option (\<lambda>th. th\<lparr>th_stat := 0\<rparr>) (k_thread s t))"

text \<open>The rest of the state, with the scheduler's fields blanked.\<close>

definition no_sched :: "kstate \<Rightarrow> kstate" where
  "no_sched s = s\<lparr>k_thread := Map.empty, k_list := (\<lambda>_. []), rt_thread_ready_priority_group := 0,
    rt_current_thread := None, rt_current_priority := 0\<rparr>"

definition runnable :: "rt_thread \<Rightarrow> bool" where
  "runnable th \<longleftrightarrow> state_of th = RT_THREAD_READY \<or> state_of th = RT_THREAD_RUNNING"

lemma runnable_set_state [simp]: "runnable (set_state 2 th)" "runnable (set_state 3 th)"
  by (simp_all add: runnable_def)

definition sched_frame :: "kstate \<Rightarrow> kstate \<Rightarrow> bool" where
  "sched_frame s s' \<longleftrightarrow> no_sched s' = no_sched s \<and> stat_frame s s' \<and>
    (\<forall>l. (\<forall>p. l \<noteq> ReadyQ p) \<longrightarrow> k_list s' l = k_list s l) \<and>
    (\<forall>t th. k_thread s t = Some th \<longrightarrow>
      (if runnable th then \<exists>th'. k_thread s' t = Some th' \<and> runnable th' else k_thread s' t = Some th))"

lemma sched_frame_refl [simp]: "sched_frame s s"
  by (simp add: sched_frame_def stat_frame_def)

lemma sched_frame_trans:
  assumes a: "sched_frame s s1" and b: "sched_frame s1 s2"
  shows "sched_frame s s2"
  unfolding sched_frame_def
proof (intro conjI allI impI)
  show "no_sched s2 = no_sched s" "stat_frame s s2" using a b by (simp_all add: sched_frame_def stat_frame_def)
  show "k_list s2 l = k_list s l" if "\<forall>p. l \<noteq> ReadyQ p" for l using a b that by (simp add: sched_frame_def)
  fix t th assume th: "k_thread s t = Some th"
  show "if runnable th then \<exists>th'. k_thread s2 t = Some th' \<and> runnable th' else k_thread s2 t = Some th"
  proof (cases "runnable th")
    case True
    with a th obtain th1 where "k_thread s1 t = Some th1" "runnable th1" unfolding sched_frame_def by meson
    with b True show ?thesis unfolding sched_frame_def by simp
  next
    case False
    with a th have "k_thread s1 t = Some th" unfolding sched_frame_def by simp
    with b False show ?thesis unfolding sched_frame_def by simp
  qed
qed

lemma no_sched_fields:
  assumes "no_sched s' = no_sched s"
  shows "k_obj s' = k_obj s" "k_container s' = k_container s" "k_timer s' = k_timer s"
    "k_sem s' = k_sem s" "k_mutex s' = k_mutex s" "k_event s' = k_event s" "k_mb s' = k_mb s" "k_mq s' = k_mq s"
    "k_taken s' = k_taken s" "k_timers s' = k_timers s" "rt_scheduler_lock_nest s' = rt_scheduler_lock_nest s"
    "rt_interrupt_nest s' = rt_interrupt_nest s" "rt_tick s' = rt_tick s"
    "soft_timer_status s' = soft_timer_status s" "k_stale s' = k_stale s"
  using arg_cong [OF assms, of k_obj] arg_cong [OF assms, of k_container] arg_cong [OF assms, of k_timer]
    arg_cong [OF assms, of k_sem] arg_cong [OF assms, of k_mutex] arg_cong [OF assms, of k_event]
    arg_cong [OF assms, of k_mb] arg_cong [OF assms, of k_mq] arg_cong [OF assms, of k_taken]
    arg_cong [OF assms, of k_timers] arg_cong [OF assms, of rt_scheduler_lock_nest]
    arg_cong [OF assms, of rt_interrupt_nest] arg_cong [OF assms, of rt_tick]
    arg_cong [OF assms, of soft_timer_status] arg_cong [OF assms, of k_stale]
  by (simp_all add: no_sched_def)

lemmas sched_frame_fields = no_sched_fields [OF sched_frame_def [THEN iffD1, THEN conjunct1]]

lemma sched_frame_quiet:
  "sched_frame s s' \<Longrightarrow> k_thread s t = Some th \<Longrightarrow> state_of th \<noteq> RT_THREAD_READY \<Longrightarrow>
   state_of th \<noteq> RT_THREAD_RUNNING \<Longrightarrow> k_thread s' t = Some th"
  by (simp add: sched_frame_def runnable_def)

lemma sched_frame_runnable:
  "sched_frame s s' \<Longrightarrow> k_thread s t = Some th \<Longrightarrow> runnable th \<Longrightarrow> \<exists>th'. k_thread s' t = Some th' \<and> runnable th'"
  by (simp add: sched_frame_def)

lemma sched_frame_queue: "sched_frame s s' \<Longrightarrow> (\<And>p. l \<noteq> ReadyQ p) \<Longrightarrow> k_list s' l = k_list s l"
  by (simp add: sched_frame_def)

lemma sched_frame_thread:
  assumes "sched_frame s s'" and "k_thread s t = Some th"
  shows "\<exists>x. k_thread s' t = Some (th\<lparr>th_stat := x\<rparr>)"
proof -
  have "map_option (\<lambda>th. th\<lparr>th_stat := 0\<rparr>) (k_thread s' t) = Some (th\<lparr>th_stat := 0\<rparr>)"
    using assms unfolding sched_frame_def stat_frame_def by simp
  then obtain h where h: "k_thread s' t = Some h" "h\<lparr>th_stat := 0\<rparr> = th\<lparr>th_stat := 0\<rparr>" by auto
  have "h = th\<lparr>th_stat := th_stat h\<rparr>" using h(2) by (cases h; cases th) simp
  with h(1) show ?thesis by metis
qed

lemma stat_frame_upd:
  "k_thread s t = Some th \<Longrightarrow> h\<lparr>th_stat := 0\<rparr> = th\<lparr>th_stat := 0\<rparr> \<Longrightarrow>
   stat_frame s (s\<lparr>k_thread := (k_thread s)(t \<mapsto> h)\<rparr>)"
  by (simp add: stat_frame_def)

definition stacks_ok :: "kstate \<Rightarrow> bool" where
  "stacks_ok s \<longleftrightarrow> (\<forall>t th. k_thread s t = Some th \<longrightarrow> stack_ok th)"

section \<open>Scheduling\<close>

text \<open>The common tail: take the chosen thread from its queue and run it.\<close>

lemma run_thread:
  assumes inv: "inv_out {t} s" and th: "k_thread s t = Some th" and cur: "rt_current_thread s = Some t"
    and m: "th_number_mask th = prio_bit th"
  shows "\<exists>s1 s2. rt_schedule_remove_thread t s = Some s1 \<and>
    upd_thread t (set_state RT_THREAD_RUNNING) s1 = Some s2 \<and> sched_inv s2 \<and>
    s2 = s\<lparr>k_thread := (k_thread s)(t \<mapsto> set_state RT_THREAD_RUNNING th), k_list := al_remove t (k_list s),
      rt_thread_ready_priority_group := rt_thread_ready_priority_group s2\<rparr>"
proof -
  from inv_out_remove [OF inv th] obtain s1 where r: "rt_schedule_remove_thread t s = Some s1"
    "inv_out {t} s1" "unlinked (k_list s1) t"
    and e: "s1 = s\<lparr>k_list := al_remove t (k_list s), rt_thread_ready_priority_group := rt_thread_ready_priority_group s1\<rparr>"
    by auto
  let ?th = "set_state RT_THREAD_RUNNING th"
  let ?s = "s1\<lparr>k_thread := (k_thread s1)(t \<mapsto> ?th)\<rparr>"
  have th1: "k_thread s1 t = Some th" and c1: "rt_current_thread s1 = Some t"
    using th cur by (subst e, simp)+
  have pb: "prio_bit ?th = prio_bit th" by (simp add: prio_bit_def)
  have "prio_ok ?th" using inv_outD(3) [OF inv th] pb by (simp add: prio_ok_def)
  moreover have "state_ok s1 t ?th" using c1 m pb by (simp add: state_ok_def)
  ultimately have "inv_out {} ?s" by (intro inv_out_set [OF r(2) th1 r(3)]) simp_all
  then have i: "sched_inv ?s" by (simp add: sched_inv_def)
  have u: "upd_thread t (set_state RT_THREAD_RUNNING) s1 = Some ?s" using th1 by simp
  have "?s = s\<lparr>k_thread := (k_thread s)(t \<mapsto> ?th), k_list := al_remove t (k_list s),
      rt_thread_ready_priority_group := rt_thread_ready_priority_group ?s\<rparr>"
    by (subst e) (simp, subst e, simp)
  with r(1) u i show ?thesis by blast
qed

lemma al_remove_unlinked: "unlinked f t \<Longrightarrow> al_remove t f = f"
  by (simp add: al_remove_def unlinked_def remove1_idem)

lemma running_mask:
  "inv_out T s \<Longrightarrow> k_thread s t = Some th \<Longrightarrow> t \<notin> T \<Longrightarrow> state_of th \<noteq> RT_THREAD_INIT \<Longrightarrow>
   state_of th \<noteq> RT_THREAD_CLOSE \<Longrightarrow> th_number_mask th = prio_bit th"
  using inv_outD(4) [of T s t th] by (simp add: state_ok_def)

lemma prio_bit_simps [simp]:
  "prio_bit (set_state c th) = prio_bit th" "prio_bit (clear_yield th) = prio_bit th"
  by (simp_all add: prio_bit_def)

lemma th_stat_forget [simp]:
  "(set_state c th)\<lparr>th_stat := 0\<rparr> = th\<lparr>th_stat := 0\<rparr>" "(clear_yield th)\<lparr>th_stat := 0\<rparr> = th\<lparr>th_stat := 0\<rparr>"
  by (simp_all add: set_state_def clear_yield_def)

text \<open>The running thread stays.\<close>

lemma schedule_stay:
  assumes inv: "sched_inv s" and lock: "rt_scheduler_lock_nest s = 0"
    and g: "rt_thread_ready_priority_group s \<noteq> 0" and cur: "rt_current_thread s = Some cur"
    and c: "k_thread s cur = Some c"
    and nx: "scheduler_get_highest_priority_thread s = Some (nx, hp)"
    and ch: "schedule_choice c cur nx hp = (cur, False)" and r: "state_of c = RT_THREAD_RUNNING"
  shows "\<exists>s'. rt_schedule s = Some s' \<and> sched_inv s' \<and>
    s' = s\<lparr>k_thread := (k_thread s)(cur \<mapsto> set_state RT_THREAD_RUNNING (clear_yield c)),
      rt_thread_ready_priority_group := rt_thread_ready_priority_group s'\<rparr>"
proof -
  have i0: "inv_out {} s" using inv by (simp add: sched_inv_def)
  let ?s1 = "s\<lparr>k_thread := (k_thread s)(cur \<mapsto> clear_yield c)\<rparr>"
  have u: "unlinked (k_list s) cur" using running_unlinked [OF i0 c] r by simp
  have "inv_out {} ?s1" by (rule inv_out_keep [OF i0 c]) simp_all
  then have i1: "inv_out {cur} ?s1" by (rule inv_out_mono) simp
  have m: "th_number_mask c = prio_bit c" using running_mask [OF i0 c] r by simp
  have "\<exists>s2 s3. rt_schedule_remove_thread cur ?s1 = Some s2 \<and>
    upd_thread cur (set_state RT_THREAD_RUNNING) s2 = Some s3 \<and> sched_inv s3 \<and>
    s3 = ?s1\<lparr>k_thread := (k_thread ?s1)(cur \<mapsto> set_state RT_THREAD_RUNNING (clear_yield c)),
      k_list := al_remove cur (k_list ?s1), rt_thread_ready_priority_group := rt_thread_ready_priority_group s3\<rparr>"
    by (rule run_thread [OF i1]) (simp_all add: cur m)
  then obtain s2 s3 where s2: "rt_schedule_remove_thread cur ?s1 = Some s2"
    and s3: "upd_thread cur (set_state RT_THREAD_RUNNING) s2 = Some s3" and i3: "sched_inv s3"
    and e: "s3 = ?s1\<lparr>k_thread := (k_thread ?s1)(cur \<mapsto> set_state RT_THREAD_RUNNING (clear_yield c)),
      k_list := al_remove cur (k_list ?s1), rt_thread_ready_priority_group := rt_thread_ready_priority_group s3\<rparr>"
    by blast
  have "upd_thread cur clear_yield s = Some ?s1" using c by simp
  then have "rt_schedule s = Some s3"
    using lock g nx cur c ch r s2 s3 by (simp add: rt_schedule_def)
  moreover have "s3 = s\<lparr>k_thread := (k_thread s)(cur \<mapsto> set_state RT_THREAD_RUNNING (clear_yield c)),
      rt_thread_ready_priority_group := rt_thread_ready_priority_group s3\<rparr>"
    by (subst e) (simp add: al_remove_unlinked [OF u])
  ultimately show ?thesis using i3 by blast
qed

text \<open>The running thread goes back to the head of its ready queue and the highest ready thread runs.\<close>

lemma schedule_switch:
  assumes inv: "sched_inv s" and lock: "rt_scheduler_lock_nest s = 0"
    and g: "rt_thread_ready_priority_group s \<noteq> 0" and cur: "rt_current_thread s = Some cur"
    and c: "k_thread s cur = Some c"
    and nx: "scheduler_get_highest_priority_thread s = Some (nx, hp)"
    and ch: "schedule_choice c cur nx hp = (nx, True)" and r: "state_of c = RT_THREAD_RUNNING"
    and th: "k_thread s nx = Some th" and rd: "state_of th = RT_THREAD_READY" and st: "stacks_ok s"
  shows "\<exists>s'. rt_schedule s = Some s' \<and> sched_inv s' \<and>
    s' = s\<lparr>k_thread := (k_thread s)(cur \<mapsto> set_state RT_THREAD_READY (clear_yield c),
                                    nx \<mapsto> set_state RT_THREAD_RUNNING th),
      k_list := al_remove nx (al_head (ReadyQ (prio c)) cur (k_list s)),
      rt_thread_ready_priority_group := rt_thread_ready_priority_group s',
      rt_current_thread := Some nx, rt_current_priority := of_nat hp\<rparr>"
proof -
  have i0: "inv_out {} s" using inv by (simp add: sched_inv_def)
  have ne: "nx \<noteq> cur" using c th r rd by auto
  have u: "unlinked (k_list s) cur" using running_unlinked [OF i0 c] r by simp
  have m: "th_number_mask c = prio_bit c" using running_mask [OF i0 c] r by simp
  have mt: "th_number_mask th = prio_bit th" using running_mask [OF i0 th] rd by simp
  let ?c = "clear_yield c"
  let ?s1 = "s\<lparr>k_thread := (k_thread s)(cur \<mapsto> ?c)\<rparr>"
  let ?s2 = "?s1\<lparr>rt_current_priority := of_nat hp, rt_current_thread := Some nx\<rparr>"
  have i1: "inv_out {} ?s1" by (rule inv_out_keep [OF i0 c]) simp_all
  have i2: "inv_out {cur, nx} ?s2"
  proof (rule inv_outI)
    show "state_ok ?s2 x h" if "k_thread ?s2 x = Some h" "x \<notin> {cur, nx}" for x h
      using that inv_outD(4) [OF i1, of x h] cur by (auto simp: state_ok_def)
    show "\<exists>h. k_thread ?s2 x = Some h" if "rt_current_thread ?s2 = Some x" for x
      using that th by auto
  qed (use inv_outD [OF i1] in auto)
  have c2: "k_thread ?s2 cur = Some ?c" and u2: "unlinked (k_list ?s2) cur" using u by simp_all
  have "\<exists>s3. rt_schedule_insert_thread cur ?s2 = Some s3 \<and> inv_out ({cur, nx} - {cur}) s3 \<and>
    s3 = ?s2\<lparr>k_thread := (k_thread ?s2)(cur \<mapsto> set_state RT_THREAD_READY ?c),
      k_list := (if yielding ?c then al_tail else al_head) (ReadyQ (prio ?c)) cur (k_list ?s2),
      rt_thread_ready_priority_group := rt_thread_ready_priority_group ?s2 OR prio_bit ?c\<rparr>"
    by (rule inv_out_insert [OF i2 c2 u2]) (use m ne in simp_all)
  then obtain s3 where s3: "rt_schedule_insert_thread cur ?s2 = Some s3" and i3: "inv_out {nx} s3"
    and e3: "s3 = ?s2\<lparr>k_thread := (k_thread ?s2)(cur \<mapsto> set_state RT_THREAD_READY ?c),
      k_list := al_head (ReadyQ (prio c)) cur (k_list s),
      rt_thread_ready_priority_group := rt_thread_ready_priority_group ?s2 OR prio_bit c\<rparr>"
    using ne by (auto simp: insert_Diff_if)
  have t3: "k_thread s3 nx = Some th" "rt_current_thread s3 = Some nx"
    unfolding e3 using ne th by simp_all
  from run_thread [OF i3 t3 mt] obtain s4 s5 where s4: "rt_schedule_remove_thread nx s3 = Some s4"
    and s5: "upd_thread nx (set_state RT_THREAD_RUNNING) s4 = Some s5" and i5: "sched_inv s5"
    and e5: "s5 = s3\<lparr>k_thread := (k_thread s3)(nx \<mapsto> set_state RT_THREAD_RUNNING th),
      k_list := al_remove nx (k_list s3), rt_thread_ready_priority_group := rt_thread_ready_priority_group s5\<rparr>"
    by blast
  have "k_thread s5 nx = Some (set_state RT_THREAD_RUNNING th)" by (subst e5) simp
  then have sc: "scheduler_stack_check nx s5 = Some ()"
    using st th by (simp add: scheduler_stack_check_def stacks_ok_def)
  have u1: "upd_thread cur clear_yield s = Some ?s1" using c by simp
  have "rt_schedule s = Some s5"
    unfolding rt_schedule_def
    using lock g nx cur c ch r u1 ne s3 s4 s5 sc by simp
  moreover have "s5 = s\<lparr>k_thread := (k_thread s)(cur \<mapsto> set_state RT_THREAD_READY ?c,
                                    nx \<mapsto> set_state RT_THREAD_RUNNING th),
      k_list := al_remove nx (al_head (ReadyQ (prio c)) cur (k_list s)),
      rt_thread_ready_priority_group := rt_thread_ready_priority_group s5,
      rt_current_thread := Some nx, rt_current_priority := of_nat hp\<rparr>"
    by (subst e5) (simp add: e3)
  ultimately show ?thesis using i5 by blast
qed

text \<open>The current thread does not run any more: the highest ready thread takes over.\<close>

lemma schedule_blocked:
  assumes inv: "sched_inv s" and lock: "rt_scheduler_lock_nest s = 0"
    and g: "rt_thread_ready_priority_group s \<noteq> 0" and cur: "rt_current_thread s = Some cur"
    and c: "k_thread s cur = Some c"
    and nx: "scheduler_get_highest_priority_thread s = Some (nx, hp)"
    and r: "state_of c \<noteq> RT_THREAD_RUNNING"
    and th: "k_thread s nx = Some th" and rd: "state_of th = RT_THREAD_READY" and st: "stacks_ok s"
  shows "\<exists>s'. rt_schedule s = Some s' \<and> sched_inv s' \<and>
    s' = s\<lparr>k_thread := (k_thread s)(nx \<mapsto> set_state RT_THREAD_RUNNING th),
      k_list := al_remove nx (k_list s),
      rt_thread_ready_priority_group := rt_thread_ready_priority_group s',
      rt_current_thread := Some nx, rt_current_priority := of_nat hp\<rparr>"
proof -
  have i0: "inv_out {} s" using inv by (simp add: sched_inv_def)
  have ne: "nx \<noteq> cur" using inv_outD(4) [OF i0 th] rd cur by (simp add: state_ok_def)
  have mt: "th_number_mask th = prio_bit th" using running_mask [OF i0 th] rd by simp
  have ch: "schedule_choice c cur nx hp = (nx, False)" using r by (simp add: schedule_choice_def)
  let ?s2 = "s\<lparr>rt_current_priority := of_nat hp, rt_current_thread := Some nx\<rparr>"
  have i2: "inv_out {nx} ?s2"
  proof (rule inv_outI)
    show "state_ok ?s2 x h" if "k_thread ?s2 x = Some h" "x \<notin> {nx}" for x h
      using that inv_outD(4) [OF i0, of x h] cur c r by (auto simp: state_ok_def)
    show "\<exists>h. k_thread ?s2 x = Some h" if "rt_current_thread ?s2 = Some x" for x
      using that th by auto
  qed (use inv_outD [OF i0] in auto)
  have "\<exists>s4 s5. rt_schedule_remove_thread nx ?s2 = Some s4 \<and>
    upd_thread nx (set_state RT_THREAD_RUNNING) s4 = Some s5 \<and> sched_inv s5 \<and>
    s5 = ?s2\<lparr>k_thread := (k_thread ?s2)(nx \<mapsto> set_state RT_THREAD_RUNNING th),
      k_list := al_remove nx (k_list ?s2), rt_thread_ready_priority_group := rt_thread_ready_priority_group s5\<rparr>"
    by (rule run_thread [OF i2]) (simp_all add: th mt)
  then obtain s4 s5 where s4: "rt_schedule_remove_thread nx ?s2 = Some s4"
    and s5: "upd_thread nx (set_state RT_THREAD_RUNNING) s4 = Some s5" and i5: "sched_inv s5"
    and e5: "s5 = ?s2\<lparr>k_thread := (k_thread ?s2)(nx \<mapsto> set_state RT_THREAD_RUNNING th),
      k_list := al_remove nx (k_list ?s2), rt_thread_ready_priority_group := rt_thread_ready_priority_group s5\<rparr>"
    by blast
  have "k_thread s5 nx = Some (set_state RT_THREAD_RUNNING th)" by (subst e5) simp
  then have sc: "scheduler_stack_check nx s5 = Some ()"
    using st th by (simp add: scheduler_stack_check_def stacks_ok_def)
  have "rt_schedule s = Some s5"
    unfolding rt_schedule_def
    using lock g nx cur c ch r ne s4 s5 sc by simp
  moreover have "s5 = s\<lparr>k_thread := (k_thread s)(nx \<mapsto> set_state RT_THREAD_RUNNING th),
      k_list := al_remove nx (k_list s),
      rt_thread_ready_priority_group := rt_thread_ready_priority_group s5,
      rt_current_thread := Some nx, rt_current_priority := of_nat hp\<rparr>"
    by (subst e5) simp
  ultimately show ?thesis using i5 by blast
qed

text \<open>The queues a switch leaves: no new priority level below the one that was chosen.\<close>

lemma ready_after_switch:
  assumes low: "\<forall>q<p. k_list s (ReadyQ q) = []" and pc: "p \<le> prio c"
    and ne: "al_remove t (al_head (ReadyQ (prio c)) cur (k_list s)) (ReadyQ q) \<noteq> []"
  shows "p \<le> q"
proof (rule ccontr)
  assume "\<not> p \<le> q"
  with low pc have "k_list s (ReadyQ q) = []" "q \<noteq> prio c" by auto
  with ne show False by (simp add: al_remove_def al_head_def)
qed

lemma ready_after_removal:
  assumes low: "\<forall>q<p. k_list s (ReadyQ q) = []" and ne: "al_remove t (k_list s) (ReadyQ q) \<noteq> []"
  shows "p \<le> q"
proof (rule ccontr)
  assume "\<not> p \<le> q"
  with low have "k_list s (ReadyQ q) = []" by simp
  with ne show False by (simp add: al_remove_def)
qed

lemma sched_frameI:
  assumes "s' = s\<lparr>k_thread := k_thread s', k_list := k_list s',
      rt_thread_ready_priority_group := rt_thread_ready_priority_group s',
      rt_current_thread := rt_current_thread s', rt_current_priority := rt_current_priority s'\<rparr>"
    and "stat_frame s s'" and "\<And>l. (\<And>p. l \<noteq> ReadyQ p) \<Longrightarrow> k_list s' l = k_list s l"
    and "\<And>t th. k_thread s t = Some th \<Longrightarrow>
      (if runnable th then \<exists>th'. k_thread s' t = Some th' \<and> runnable th' else k_thread s' t = Some th)"
  shows "sched_frame s s'"
proof -
  have "no_sched s' = no_sched s" by (subst assms(1)) (simp add: no_sched_def)
  with assms(2,3,4) show ?thesis by (simp add: sched_frame_def)
qed

lemma al_ops_other:
  assumes "separate f" and "t \<in> set (f (ReadyQ p))" and "\<And>p. l \<noteq> ReadyQ p"
  shows "al_remove t f l = f l" and "al_remove t (al_head (ReadyQ q) x f) l = f l"
proof -
  have "t \<notin> set (f l)" using separate_eq [OF assms(1,2), of l] assms(3) by auto
  then show "al_remove t f l = f l" "al_remove t (al_head (ReadyQ q) x f) l = f l"
    using assms(3) by (simp_all add: al_remove_def al_head_def remove1_idem)
qed

lemma schedule_spec:
  assumes inv: "sched_inv s" and st: "stacks_ok s" and cur: "rt_current_thread s = Some cur"
  shows "\<exists>s'. rt_schedule s = Some s' \<and> sched_inv s' \<and> sched_frame s s' \<and>
    (rt_scheduler_lock_nest s = 0 \<and> rt_thread_ready_priority_group s \<noteq> 0 \<longrightarrow>
      (\<exists>t th. rt_current_thread s' = Some t \<and> k_thread s' t = Some th \<and> state_of th = RT_THREAD_RUNNING \<and>
        (\<forall>p. k_list s' (ReadyQ p) \<noteq> [] \<longrightarrow> prio th \<le> p)))"
proof (cases "rt_scheduler_lock_nest s = 0 \<and> rt_thread_ready_priority_group s \<noteq> 0")
  case False
  then have "rt_schedule s = Some s" by (auto simp: rt_schedule_def)
  with inv False show ?thesis by (intro exI [of _ s]) (simp, blast)
next
  case True
  then have lock: "rt_scheduler_lock_nest s = 0" and g: "rt_thread_ready_priority_group s \<noteq> 0" by auto
  have i0: "inv_out {} s" using inv by (simp add: sched_inv_def)
  have sep: "separate (k_list s)" using inv_outD(1) [OF i0] .
  obtain c where c: "k_thread s cur = Some c" using inv_outD(6) [OF i0 cur] by auto
  from get_highest [OF i0 g] obtain nx rest hp where
    nx: "scheduler_get_highest_priority_thread s = Some (nx, hp)" and hp: "hp < 32"
    and l: "k_list s (ReadyQ hp) = nx # rest" and low: "\<forall>q<hp. k_list s (ReadyQ q) = []" by blast
  have nin: "nx \<in> set (k_list s (ReadyQ hp))" using l by simp
  from ready_member [OF i0 nin] obtain th where th: "k_thread s nx = Some th" "prio th = hp"
    "state_of th = RT_THREAD_READY" by auto
  note other = al_ops_other [OF sep nin]
  consider (stay) "state_of c = 3" "schedule_choice c cur nx hp = (cur, False)" "prio c \<le> hp"
    | (switch) "state_of c = 3" "schedule_choice c cur nx hp = (nx, True)" "hp \<le> prio c"
    | (blocked) "state_of c \<noteq> 3"
    by (cases "state_of c = 3"; cases "prio c < hp"; cases "prio c = hp"; cases "yielding c")
      (simp_all add: schedule_choice_def)
  then show ?thesis
  proof cases
    case stay
    from schedule_stay [OF inv lock g cur c nx stay(2) stay(1)] obtain s' where s': "rt_schedule s = Some s'" "sched_inv s'"
      and e: "s' = s\<lparr>k_thread := (k_thread s)(cur \<mapsto> set_state RT_THREAD_RUNNING (clear_yield c)),
        rt_thread_ready_priority_group := rt_thread_ready_priority_group s'\<rparr>" by auto
    have f: "k_list s' = k_list s" "rt_current_thread s' = Some cur"
      "k_thread s' = (k_thread s)(cur \<mapsto> set_state RT_THREAD_RUNNING (clear_yield c))"
      using cur by (subst e, simp)+
    have "sched_frame s s'"
    proof (rule sched_frameI)
      show "stat_frame s s'" using c by (simp add: stat_frame_def f)
      show "if runnable h then \<exists>th'. k_thread s' t = Some th' \<and> runnable th' else k_thread s' t = Some h"
        if "k_thread s t = Some h" for t h
        using that c stay(1) by (auto simp: f runnable_def)
    qed (use e f in simp_all)
    moreover have "prio c \<le> q" if "k_list s' (ReadyQ q) \<noteq> []" for q
      using that low stay(3) unfolding f(1) by (metis le_trans not_less)
    ultimately show ?thesis
      using s' f by (intro exI [of _ s'] conjI impI exI [of _ cur] exI [of _ "set_state RT_THREAD_RUNNING (clear_yield c)"]) auto
  next
    case switch
    from schedule_switch [OF inv lock g cur c nx switch(2) switch(1) th(1) th(3) st] obtain s' where
      s': "rt_schedule s = Some s'" "sched_inv s'" and e: "s' = s\<lparr>k_thread := (k_thread s)(cur \<mapsto> set_state RT_THREAD_READY (clear_yield c),
                                    nx \<mapsto> set_state RT_THREAD_RUNNING th),
      k_list := al_remove nx (al_head (ReadyQ (prio c)) cur (k_list s)),
      rt_thread_ready_priority_group := rt_thread_ready_priority_group s',
      rt_current_thread := Some nx, rt_current_priority := of_nat hp\<rparr>" by auto
    have f: "k_list s' = al_remove nx (al_head (ReadyQ (prio c)) cur (k_list s))" "rt_current_thread s' = Some nx"
      "k_thread s' = (k_thread s)(cur \<mapsto> set_state RT_THREAD_READY (clear_yield c), nx \<mapsto> set_state RT_THREAD_RUNNING th)"
      "rt_current_priority s' = of_nat hp"
      by (subst e, simp)+
    have "sched_frame s s'"
    proof (rule sched_frameI)
      show "stat_frame s s'" using c th by (simp add: stat_frame_def f)
      show "if runnable h then \<exists>th'. k_thread s' t = Some th' \<and> runnable th' else k_thread s' t = Some h"
        if "k_thread s t = Some h" for t h
        using that c th switch(1) by (auto simp: f runnable_def)
    qed (use e f other in simp_all)
    moreover have "hp \<le> q" if "k_list s' (ReadyQ q) \<noteq> []" for q
      using ready_after_switch [OF low switch(3)] that unfolding f(1) by blast
    ultimately show ?thesis
      using s' f th by (intro exI [of _ s'] conjI impI exI [of _ nx] exI [of _ "set_state RT_THREAD_RUNNING th"]) auto
  next
    case blocked
    from schedule_blocked [OF inv lock g cur c nx blocked th(1) th(3) st] obtain s' where
      s': "rt_schedule s = Some s'" "sched_inv s'" and e: "s' = s\<lparr>k_thread := (k_thread s)(nx \<mapsto> set_state RT_THREAD_RUNNING th),
      k_list := al_remove nx (k_list s),
      rt_thread_ready_priority_group := rt_thread_ready_priority_group s',
      rt_current_thread := Some nx, rt_current_priority := of_nat hp\<rparr>" by auto
    have f: "k_list s' = al_remove nx (k_list s)" "rt_current_thread s' = Some nx"
      "k_thread s' = (k_thread s)(nx \<mapsto> set_state RT_THREAD_RUNNING th)" "rt_current_priority s' = of_nat hp"
      by (subst e, simp)+
    have "sched_frame s s'"
    proof (rule sched_frameI)
      show "stat_frame s s'" using th by (simp add: stat_frame_def f)
      show "if runnable h then \<exists>th'. k_thread s' t = Some th' \<and> runnable th' else k_thread s' t = Some h"
        if "k_thread s t = Some h" for t h
        using that th by (auto simp: f runnable_def)
    qed (use e f other in simp_all)
    moreover have "hp \<le> q" if "k_list s' (ReadyQ q) \<noteq> []" for q
      using ready_after_removal [OF low] that unfolding f(1) by blast
    ultimately show ?thesis
      using s' f th by (intro exI [of _ s'] conjI impI exI [of _ nx] exI [of _ "set_state RT_THREAD_RUNNING th"]) auto
  qed
qed

end
