(* ===== verification/Object.thy ===== *)
theory Object
  imports SchedProps
begin

text \<open>
  \<open>rt-thread/src/object.c\<close>: the table of object classes, the containers that list the
  objects of each class, and initialisation, detaching, allocation, deletion and search of
  objects. The allocator is a parameter: an allocation takes the address \<open>RT_KERNEL_MALLOC\<close>
  returned, or \<open>None\<close> for a null pointer.
\<close>

section \<open>The containers\<close>

text \<open>
  The \<open>type\<close> fields of \<open>_object_container\<close>. The array has \<open>RT_Object_Info_Unknown\<close>
  elements, the last of which (\<open>RT_Object_Info_Custom\<close>) has no initialiser in this
  configuration and is all zero, its list head included.
\<close>

definition object_container :: "u8 list" where
  "object_container = [RT_Object_Class_Thread, RT_Object_Class_Semaphore, RT_Object_Class_Mutex,
    RT_Object_Class_Event, RT_Object_Class_MailBox, RT_Object_Class_MessageQueue, RT_Object_Class_MemPool,
    RT_Object_Class_Device, RT_Object_Class_Timer, RT_Object_Class_Memory, 0]"

definition rt_object_get_information :: "u8 \<Rightarrow> u8 option" where
  "rt_object_get_information type = find (\<lambda>t. t = type) object_container"

text \<open>Walking the list of the uninitialised element follows a null pointer.\<close>

definition object_list :: "u8 \<Rightarrow> kstate \<Rightarrow> oref list option" where
  "object_list information s = (if information = 0 then None else Some (k_container s information))"

definition rt_object_get_length :: "u8 \<Rightarrow> kstate \<Rightarrow> nat option" where
  "rt_object_get_length type s = (case rt_object_get_information type of
      None \<Rightarrow> Some 0
    | Some information \<Rightarrow> do { l \<leftarrow> object_list information s; Some (length l) })"

definition rt_object_get_pointers :: "u8 \<Rightarrow> int \<Rightarrow> kstate \<Rightarrow> oref list option" where
  "rt_object_get_pointers type maxlen s =
    (if maxlen \<le> 0 then Some []
     else case rt_object_get_information type of
         None \<Rightarrow> Some []
       | Some information \<Rightarrow> do { l \<leftarrow> object_list information s; Some (take (nat maxlen) l) })"

section \<open>Object headers\<close>

text \<open>\<open>rt_strncpy (object->name, name, RT_NAME_MAX)\<close> and \<open>rt_strncmp\<close> over the same bound.\<close>

definition copy_name :: "u8 list \<Rightarrow> u8 list" where
  "copy_name nm = take RT_NAME_MAX (takeWhile (\<lambda>c. c \<noteq> 0) nm @ replicate RT_NAME_MAX 0)"

definition same_name :: "u8 list \<Rightarrow> u8 list \<Rightarrow> bool" where
  "same_name a b \<longleftrightarrow> takeWhile (\<lambda>c. c \<noteq> 0) (take RT_NAME_MAX a) = takeWhile (\<lambda>c. c \<noteq> 0) (take RT_NAME_MAX b)"

definition rt_object_get_type :: "oref \<Rightarrow> kstate \<Rightarrow> u8 option" where
  "rt_object_get_type object s = do { h \<leftarrow> k_obj s object; Some (obj_type h AND NOT RT_Object_Class_Static) }"

definition rt_object_is_systemobject :: "oref \<Rightarrow> kstate \<Rightarrow> bool option" where
  "rt_object_is_systemobject object s =
    do { h \<leftarrow> k_obj s object; Some (obj_type h AND RT_Object_Class_Static \<noteq> 0) }"

text \<open>The checks nearly every operation starts with.\<close>

definition assert_type :: "oref \<Rightarrow> u8 \<Rightarrow> kstate \<Rightarrow> unit option" where
  "assert_type object class s = do { t \<leftarrow> rt_object_get_type object s; RT_ASSERT (t = class) }"

definition assert_static :: "oref \<Rightarrow> bool \<Rightarrow> kstate \<Rightarrow> unit option" where
  "assert_static object b s = do { x \<leftarrow> rt_object_is_systemobject object s; RT_ASSERT (x = b) }"

definition container_insert :: "u8 \<Rightarrow> oref \<Rightarrow> kstate \<Rightarrow> kstate" where
  "container_insert c object s = s\<lparr>k_container := al_head c object (k_container s)\<rparr>"

definition container_remove :: "oref \<Rightarrow> kstate \<Rightarrow> kstate" where
  "container_remove object s = s\<lparr>k_container := al_remove object (k_container s)\<rparr>"

text \<open>The flag byte of the header is not written: it stays what it was.\<close>

definition rt_object_init :: "oref \<Rightarrow> u8 \<Rightarrow> u8 list \<Rightarrow> kstate \<Rightarrow> kstate option" where
  "rt_object_init object type nm s = do {
    information \<leftarrow> rt_object_get_information type;
    let s = rt_enter_critical s;
    l \<leftarrow> object_list information s;
    RT_ASSERT (object \<notin> set l);
    s \<leftarrow> rt_exit_critical s;
    let h = \<lparr>obj_name = copy_name nm, obj_type = type OR RT_Object_Class_Static,
             obj_flag = (case k_obj s object of None \<Rightarrow> k_stale s object | Some h \<Rightarrow> obj_flag h)\<rparr>;
    let s = s\<lparr>k_obj := (k_obj s)(object \<mapsto> h)\<rparr>;
    Some (container_insert information object s) }"

definition rt_object_detach :: "oref \<Rightarrow> kstate \<Rightarrow> kstate option" where
  "rt_object_detach object s = do {
    s \<leftarrow> upd_obj object (\<lambda>h. h\<lparr>obj_type := 0\<rparr>) s;
    Some (container_remove object s) }"

definition rt_object_allocate :: "addr option \<Rightarrow> u8 \<Rightarrow> u8 list \<Rightarrow> kstate \<Rightarrow> (addr option \<times> kstate) option" where
  "rt_object_allocate mem type nm s = do {
    _ \<leftarrow> RT_DEBUG_NOT_IN_INTERRUPT s;
    information \<leftarrow> rt_object_get_information type;
    case mem of
      None \<Rightarrow> Some (None, s)
    | Some a \<Rightarrow> do {
        let s = s\<lparr>k_obj := (k_obj s)(Obj a \<mapsto> \<lparr>obj_name = copy_name nm, obj_type = type, obj_flag = 0\<rparr>)\<rparr>;
        _ \<leftarrow> object_list information s;
        Some (Some a, container_insert information (Obj a) s) } }"

text \<open>\<open>RT_KERNEL_FREE\<close>: nothing lives at the address any more.\<close>

fun free_object :: "oref \<Rightarrow> kstate \<Rightarrow> kstate" where
  "free_object (Obj a) s = s\<lparr>k_obj := (k_obj s)(Obj a := None, ThreadTimer a := None),
     k_thread := (k_thread s)(a := None),
     k_timer := (k_timer s)(Obj a := None, ThreadTimer a := None),
     k_sem := (k_sem s)(a := None), k_mutex := (k_mutex s)(a := None), k_event := (k_event s)(a := None),
     k_mb := (k_mb s)(a := None), k_mq := (k_mq s)(a := None)\<rparr>"
| "free_object (ThreadTimer a) s = s"

definition rt_object_delete :: "oref \<Rightarrow> kstate \<Rightarrow> kstate option" where
  "rt_object_delete object s = do {
    h \<leftarrow> k_obj s object;
    RT_ASSERT (obj_type h AND RT_Object_Class_Static = 0);
    s \<leftarrow> upd_obj object (\<lambda>h. h\<lparr>obj_type := RT_Object_Class_Null\<rparr>) s;
    let s = container_remove object s;
    Some (free_object object s) }"

definition rt_object_find :: "u8 list option \<Rightarrow> u8 \<Rightarrow> kstate \<Rightarrow> (oref option \<times> kstate) option" where
  "rt_object_find nm type s = (case (nm, rt_object_get_information type) of
      (Some n, Some information) \<Rightarrow> do {
        _ \<leftarrow> RT_DEBUG_NOT_IN_INTERRUPT s;
        let s = rt_enter_critical s;
        l \<leftarrow> object_list information s;
        let r = find (\<lambda>ob. case k_obj s ob of None \<Rightarrow> False | Some h \<Rightarrow> same_name (obj_name h) n) l;
        s \<leftarrow> rt_exit_critical s;
        Some (r, s) }
    | _ \<Rightarrow> Some (None, s))"

text \<open>
  \<open>rt_strncpy\<close> out of the name field: reading on behind its 8 bytes, when they hold no
  terminator, leaves the array.
\<close>

definition rt_object_get_name :: "oref option \<Rightarrow> bool \<Rightarrow> nat \<Rightarrow> kstate \<Rightarrow> (rt_err \<times> u8 list) option" where
  "rt_object_get_name object name_given name_size s = (case object of
      Some ob \<Rightarrow>
        if name_given \<and> name_size \<noteq> 0 then do {
          h \<leftarrow> k_obj s ob;
          in_bounds (name_size \<le> RT_NAME_MAX \<or> 0 \<in> set (obj_name h));
          Some (RT_EOK, take name_size (takeWhile (\<lambda>c. c \<noteq> 0) (obj_name h) @ replicate name_size 0)) }
        else Some (- RT_EINVAL, [])
    | None \<Rightarrow> Some (- RT_EINVAL, []))"

text \<open>The custom objects: the rest of the object is never built, as the first step fails.\<close>

definition rt_custom_object_create :: "addr option \<Rightarrow> u8 list \<Rightarrow> kstate \<Rightarrow> (addr option \<times> kstate) option" where
  "rt_custom_object_create mem nm s = rt_object_allocate mem RT_Object_Class_Custom nm s"

section \<open>Lemmas\<close>

lemma information_known:
  "type \<in> {1, 2, 3, 4, 5, 6, 8, 9, 10, 12} \<Longrightarrow> rt_object_get_information type = Some type"
  by (auto simp: rt_object_get_information_def object_container_def)

lemma information_custom: "rt_object_get_information RT_Object_Class_Custom = None"
  by (simp add: rt_object_get_information_def object_container_def)

lemma object_list_known [simp]: "c \<noteq> 0 \<Longrightarrow> object_list c s = Some (k_container s c)"
  by (simp add: object_list_def)

lemma assert_type_Some:
  "assert_type object class s = Some u \<longleftrightarrow>
    (\<exists>h. k_obj s object = Some h \<and> obj_type h AND NOT RT_Object_Class_Static = class)"
  by (auto simp: assert_type_def rt_object_get_type_def split: bind_split)

lemma assert_static_Some:
  "assert_static object b s = Some u \<longleftrightarrow>
    (\<exists>h. k_obj s object = Some h \<and> (obj_type h AND RT_Object_Class_Static \<noteq> 0) = b)"
  by (auto simp: assert_static_def rt_object_is_systemobject_def split: bind_split)

lemma length_copy_name [simp]: "length (copy_name nm) = 8"
  by (simp add: copy_name_def)

lemma takeWhile_take: "takeWhile P (take n xs) = take n (takeWhile P xs)"
  by (induction xs arbitrary: n) (auto simp: take_Cons split: nat.splits)

lemma takeWhile_copy: "takeWhile (\<lambda>c. c \<noteq> 0) (copy_name nm) = take RT_NAME_MAX (takeWhile (\<lambda>c. c \<noteq> (0::u8)) nm)"
proof -
  let ?P = "\<lambda>c. c \<noteq> (0::u8)"
  have "takeWhile ?P (takeWhile ?P nm @ replicate 8 0) = takeWhile ?P nm"
    by (subst takeWhile_append2) (auto dest: set_takeWhileD)
  then show ?thesis unfolding copy_name_def takeWhile_take by (simp only:)
qed

lemma same_name_copy: "same_name (copy_name nm) nm"
  using takeWhile_copy [of nm] by (simp add: same_name_def takeWhile_take)

end
