(* ===== verification/TimerBase.thy ===== *)
theory TimerBase
  imports Object
begin

text \<open>
  The part of \<open>rt-thread/src/timer.c\<close> that does not wake threads: initialisation,
  creation, detaching, deletion, stopping and control of timers, and the next timeout of a
  timer list. A timer's flags are in its object header; its link \<open>row[0]\<close> is in the family
  \<open>k_timers\<close>.
\<close>

definition timer_remove :: "oref \<Rightarrow> kstate \<Rightarrow> kstate" where
  "timer_remove t s = s\<lparr>k_timers := al_remove t (k_timers s)\<rparr>"

text \<open>The two updates of \<open>timer->parent.flag\<close>.\<close>

definition deactivate :: "rt_object \<Rightarrow> rt_object" where
  "deactivate h = h\<lparr>obj_flag := obj_flag h AND NOT RT_TIMER_FLAG_ACTIVATED\<rparr>"

definition activate :: "rt_object \<Rightarrow> rt_object" where
  "activate h = h\<lparr>obj_flag := obj_flag h OR RT_TIMER_FLAG_ACTIVATED\<rparr>"

definition activated :: "rt_object \<Rightarrow> bool" where
  "activated h \<longleftrightarrow> obj_flag h AND RT_TIMER_FLAG_ACTIVATED \<noteq> 0"

definition periodic :: "rt_object \<Rightarrow> bool" where
  "periodic h \<longleftrightarrow> obj_flag h AND RT_TIMER_FLAG_PERIODIC \<noteq> 0"

definition is_soft :: "rt_object \<Rightarrow> bool" where
  "is_soft h \<longleftrightarrow> obj_flag h AND RT_TIMER_FLAG_SOFT_TIMER \<noteq> 0"

definition timer_init :: "oref \<Rightarrow> timer_func \<Rightarrow> addr \<Rightarrow> u32 \<Rightarrow> u8 \<Rightarrow> kstate \<Rightarrow> kstate option" where
  "timer_init t func param time flag s = do {
    s \<leftarrow> upd_obj t (\<lambda>h. h\<lparr>obj_flag := flag\<rparr>) s;
    s \<leftarrow> upd_obj t deactivate s;
    Some (s\<lparr>k_timer := (k_timer s)(t \<mapsto> \<lparr>tm_func = func, tm_parameter = param,
      tm_init_tick = time, tm_timeout_tick = 0\<rparr>)\<rparr>) }"

definition rt_timer_init :: "oref \<Rightarrow> u8 list \<Rightarrow> timer_func \<Rightarrow> addr \<Rightarrow> u32 \<Rightarrow> u8 \<Rightarrow> kstate \<Rightarrow> kstate option" where
  "rt_timer_init t nm func param time flag s = do {
    RT_ASSERT (time < RT_TICK_MAX div 2);
    s \<leftarrow> rt_object_init t RT_Object_Class_Timer nm s;
    timer_init t func param time flag s }"

definition rt_timer_detach :: "oref \<Rightarrow> kstate \<Rightarrow> (rt_err \<times> kstate) option" where
  "rt_timer_detach t s = do {
    _ \<leftarrow> assert_type t RT_Object_Class_Timer s;
    _ \<leftarrow> assert_static t True s;
    let s = timer_remove t s;
    s \<leftarrow> upd_obj t deactivate s;
    s \<leftarrow> rt_object_detach t s;
    Some (RT_EOK, s) }"

definition rt_timer_create :: "addr option \<Rightarrow> u8 list \<Rightarrow> timer_func \<Rightarrow> addr \<Rightarrow> u32 \<Rightarrow> u8 \<Rightarrow> kstate \<Rightarrow>
    (addr option \<times> kstate) option" where
  "rt_timer_create mem nm func param time flag s = do {
    RT_ASSERT (time < RT_TICK_MAX div 2);
    (t, s) \<leftarrow> rt_object_allocate mem RT_Object_Class_Timer nm s;
    case t of
      None \<Rightarrow> Some (None, s)
    | Some a \<Rightarrow> do { s \<leftarrow> timer_init (Obj a) func param time flag s; Some (Some a, s) } }"

definition rt_timer_delete :: "oref \<Rightarrow> kstate \<Rightarrow> (rt_err \<times> kstate) option" where
  "rt_timer_delete t s = do {
    _ \<leftarrow> assert_type t RT_Object_Class_Timer s;
    _ \<leftarrow> assert_static t False s;
    let s = timer_remove t s;
    s \<leftarrow> upd_obj t deactivate s;
    s \<leftarrow> rt_object_delete t s;
    Some (RT_EOK, s) }"

definition rt_timer_stop :: "oref \<Rightarrow> kstate \<Rightarrow> (rt_err \<times> kstate) option" where
  "rt_timer_stop t s = do {
    _ \<leftarrow> assert_type t RT_Object_Class_Timer s;
    h \<leftarrow> k_obj s t;
    if \<not> activated h then Some (- RT_ERROR, s)
    else do {
      let s = timer_remove t s;
      s \<leftarrow> upd_obj t deactivate s;
      Some (RT_EOK, s) } }"

text \<open>The commands of \<open>rt_timer_control\<close>; a get command returns what it stores to \<open>*arg\<close>.\<close>

datatype timer_cmd =
    GET_TIME | SET_TIME u32 | SET_ONESHOT | SET_PERIODIC | GET_STATE | GET_REMAIN_TIME
  | GET_FUNC | SET_FUNC timer_func | GET_PARM | SET_PARM addr | Other_timer_cmd

datatype timer_out = Out_none | Out_tick u32 | Out_func timer_func | Out_parm addr

definition rt_timer_control :: "oref \<Rightarrow> timer_cmd \<Rightarrow> kstate \<Rightarrow> (rt_err \<times> timer_out \<times> kstate) option" where
  "rt_timer_control t cmd s = do {
    _ \<leftarrow> assert_type t RT_Object_Class_Timer s;
    tm \<leftarrow> k_timer s t;
    h \<leftarrow> k_obj s t;
    case cmd of
      GET_TIME \<Rightarrow> Some (RT_EOK, Out_tick (tm_init_tick tm), s)
    | SET_TIME tick \<Rightarrow> do {
        RT_ASSERT (tick < RT_TICK_MAX div 2);
        s \<leftarrow> upd_timer t (\<lambda>tm. tm\<lparr>tm_init_tick := tick\<rparr>) s;
        Some (RT_EOK, Out_none, s) }
    | SET_ONESHOT \<Rightarrow> do {
        s \<leftarrow> upd_obj t (\<lambda>h. h\<lparr>obj_flag := obj_flag h AND NOT RT_TIMER_FLAG_PERIODIC\<rparr>) s;
        Some (RT_EOK, Out_none, s) }
    | SET_PERIODIC \<Rightarrow> do {
        s \<leftarrow> upd_obj t (\<lambda>h. h\<lparr>obj_flag := obj_flag h OR RT_TIMER_FLAG_PERIODIC\<rparr>) s;
        Some (RT_EOK, Out_none, s) }
    | GET_STATE \<Rightarrow> Some (RT_EOK, Out_tick (if activated h then 1 else 0), s)
    | GET_REMAIN_TIME \<Rightarrow> Some (RT_EOK, Out_tick (tm_timeout_tick tm), s)
    | GET_FUNC \<Rightarrow> Some (RT_EOK, Out_func (tm_func tm), s)
    | SET_FUNC f \<Rightarrow> do {
        s \<leftarrow> upd_timer t (\<lambda>tm. tm\<lparr>tm_func := f\<rparr>) s;
        Some (RT_EOK, Out_none, s) }
    | GET_PARM \<Rightarrow> Some (RT_EOK, Out_parm (tm_parameter tm), s)
    | SET_PARM a \<Rightarrow> do {
        s \<leftarrow> upd_timer t (\<lambda>tm. tm\<lparr>tm_parameter := a\<rparr>) s;
        Some (RT_EOK, Out_none, s) }
    | Other_timer_cmd \<Rightarrow> Some (RT_EOK, Out_none, s) }"

text \<open>The result code and the tick stored on success.\<close>

definition timer_list_next_timeout :: "timer_head \<Rightarrow> kstate \<Rightarrow> (rt_err \<times> u32 option) option" where
  "timer_list_next_timeout timer_list s = (case k_timers s timer_list of
      [] \<Rightarrow> Some (- RT_ERROR, None)
    | t # _ \<Rightarrow> do { tm \<leftarrow> k_timer s t; Some (RT_EOK, Some (tm_timeout_tick tm)) })"

definition rt_timer_next_timeout_tick :: "kstate \<Rightarrow> u32 option" where
  "rt_timer_next_timeout_tick s = do {
    (_, r) \<leftarrow> timer_list_next_timeout HardTimers s;
    Some (case r of None \<Rightarrow> RT_TICK_MAX | Some tick \<Rightarrow> tick) }"

definition rt_system_timer_init :: "kstate \<Rightarrow> kstate" where
  "rt_system_timer_init s = s\<lparr>k_timers := (k_timers s)(HardTimers := [])\<rparr>"

section \<open>Lemmas\<close>

lemma activated_simps [simp]:
  "\<not> activated (deactivate h)" "activated (activate h)"
  "obj_type (deactivate h) = obj_type h" "obj_type (activate h) = obj_type h"
proof -
  have "(obj_flag h OR 1) AND 1 = (1 :: u8)" by (simp add: bit.conj_disj_distrib2)
  then show "activated (activate h)" by (simp add: activated_def activate_def)
  have "(obj_flag h AND NOT 1) AND 1 = (0 :: u8)" by (simp only: and.assoc) simp
  then show "\<not> activated (deactivate h)" by (simp add: activated_def deactivate_def)
qed (simp_all add: deactivate_def activate_def)

lemma timer_remove_simps [simp]:
  "k_obj (timer_remove t s) = k_obj s" "k_timer (timer_remove t s) = k_timer s"
  "k_thread (timer_remove t s) = k_thread s" "k_list (timer_remove t s) = k_list s"
  "k_timers (timer_remove t s) = al_remove t (k_timers s)"
  "rt_tick (timer_remove t s) = rt_tick s" "rt_current_thread (timer_remove t s) = rt_current_thread s"
  by (simp_all add: timer_remove_def)

text \<open>The thread timer of a thread whose timer object is initialised.\<close>

definition timer_live :: "oref \<Rightarrow> kstate \<Rightarrow> bool" where
  "timer_live t s \<longleftrightarrow> (\<exists>h tm. k_obj s t = Some h \<and> obj_type h AND NOT RT_Object_Class_Static = RT_Object_Class_Timer \<and>
    k_timer s t = Some tm)"

text \<open>A stop leaves the timer out of every list when only activated timers are listed.\<close>

lemma rt_timer_stop_eq:
  assumes "k_obj s t = Some h" and "obj_type h AND NOT RT_Object_Class_Static = RT_Object_Class_Timer"
  shows "rt_timer_stop t s =
    (if activated h then Some (RT_EOK, s\<lparr>k_timers := al_remove t (k_timers s), k_obj := (k_obj s)(t \<mapsto> deactivate h)\<rparr>)
     else Some (- RT_ERROR, s))"
  using assms by (simp add: rt_timer_stop_def assert_type_def rt_object_get_type_def timer_remove_def Let_def)

end
