(* ===== verification/ThreadBase.thy ===== *)
theory ThreadBase
  imports TimerBase
begin

text \<open>
  The operations of \<open>rt-thread/src/thread.c\<close> that the timers and the IPC objects are
  built on: suspending the current thread, resuming a suspended one, the timeout function of
  the thread timers, yielding, and the queue of defunct threads of \<open>idle.c\<close>. They are
  proved to keep the scheduler's invariant and to move the thread between the states.
\<close>

section \<open>Operations\<close>

definition suspend_stat :: "int \<Rightarrow> u8 option" where
  "suspend_stat suspend_flag =
    (if suspend_flag = RT_INTERRUPTIBLE then Some RT_THREAD_SUSPEND_INTERRUPTIBLE
     else if suspend_flag = RT_KILLABLE then Some RT_THREAD_SUSPEND_KILLABLE
     else if suspend_flag = RT_UNINTERRUPTIBLE then Some RT_THREAD_SUSPEND_UNINTERRUPTIBLE
     else None)"

definition rt_thread_set_suspend_state :: "addr \<Rightarrow> int \<Rightarrow> kstate \<Rightarrow> kstate option" where
  "rt_thread_set_suspend_state thread suspend_flag s = do {
    x \<leftarrow> suspend_stat suspend_flag;
    upd_thread thread (set_state x) s }"

definition rt_thread_suspend_with_flag :: "addr \<Rightarrow> int \<Rightarrow> kstate \<Rightarrow> (rt_err \<times> kstate) option" where
  "rt_thread_suspend_with_flag thread suspend_flag s = do {
    _ \<leftarrow> assert_type (Obj thread) RT_Object_Class_Thread s;
    RT_ASSERT (rt_thread_self s = Some thread);
    th \<leftarrow> k_thread s thread;
    if state_of th \<noteq> RT_THREAD_READY \<and> state_of th \<noteq> RT_THREAD_RUNNING then Some (- RT_ERROR, s)
    else do {
      s \<leftarrow> rt_schedule_remove_thread thread s;
      s \<leftarrow> rt_thread_set_suspend_state thread suspend_flag s;
      (_, s) \<leftarrow> rt_timer_stop (ThreadTimer thread) s;
      Some (RT_EOK, s) } }"

definition rt_thread_suspend :: "addr \<Rightarrow> kstate \<Rightarrow> (rt_err \<times> kstate) option" where
  "rt_thread_suspend thread s = rt_thread_suspend_with_flag thread RT_UNINTERRUPTIBLE s"

definition rt_thread_resume :: "addr \<Rightarrow> kstate \<Rightarrow> (rt_err \<times> kstate) option" where
  "rt_thread_resume thread s = do {
    _ \<leftarrow> assert_type (Obj thread) RT_Object_Class_Thread s;
    th \<leftarrow> k_thread s thread;
    if \<not> suspended th then Some (- RT_ERROR, s)
    else do {
      let s = tlist_remove thread s;
      (_, s) \<leftarrow> rt_timer_stop (ThreadTimer thread) s;
      s \<leftarrow> rt_schedule_insert_thread thread s;
      Some (RT_EOK, s) } }"

definition thread_timeout :: "addr \<Rightarrow> kstate \<Rightarrow> kstate option" where
  "thread_timeout thread s = do {
    th \<leftarrow> k_thread s thread;
    RT_ASSERT (suspended th);
    _ \<leftarrow> assert_type (Obj thread) RT_Object_Class_Thread s;
    s \<leftarrow> upd_thread thread (\<lambda>th. th\<lparr>th_error := - RT_ETIMEOUT\<rparr>) s;
    let s = tlist_remove thread s;
    s \<leftarrow> rt_schedule_insert_thread thread s;
    rt_schedule s }"

definition rt_thread_yield :: "kstate \<Rightarrow> (rt_err \<times> kstate) option" where
  "rt_thread_yield s = do {
    thread \<leftarrow> rt_thread_self s;
    s \<leftarrow> upd_thread thread (\<lambda>th. th\<lparr>th_remaining_tick := th_init_tick th,
      th_stat := th_stat th OR RT_THREAD_STAT_YIELD\<rparr>) s;
    s \<leftarrow> rt_schedule s;
    Some (RT_EOK, s) }"

definition rt_thread_defunct_enqueue :: "addr \<Rightarrow> kstate \<Rightarrow> kstate" where
  "rt_thread_defunct_enqueue thread s = tlist_head Defunct thread s"

definition rt_thread_defunct_dequeue :: "kstate \<Rightarrow> addr option \<times> kstate" where
  "rt_thread_defunct_dequeue s = (case k_list s Defunct of
      [] \<Rightarrow> (None, s)
    | thread # _ \<Rightarrow> (Some thread, tlist_remove thread s))"

section \<open>Well-formed kernel states\<close>

definition is_class :: "oref \<Rightarrow> u8 \<Rightarrow> kstate \<Rightarrow> bool" where
  "is_class r c s \<longleftrightarrow> (\<exists>h. k_obj s r = Some h \<and> obj_type h AND NOT RT_Object_Class_Static = c)"

text \<open>Threads that are not closed are registered and have a live timer.\<close>

definition threads_wf :: "kstate \<Rightarrow> bool" where
  "threads_wf s \<longleftrightarrow> (\<forall>t th. k_thread s t = Some th \<longrightarrow> state_of th \<noteq> RT_THREAD_CLOSE \<longrightarrow>
    is_class (Obj t) RT_Object_Class_Thread s \<and> timer_live (ThreadTimer t) s)"

text \<open>Only live, activated timers are in the two timer lists.\<close>

definition timers_wf :: "kstate \<Rightarrow> bool" where
  "timers_wf s \<longleftrightarrow> separate (k_timers s) \<and>
    (\<forall>l t. t \<in> set (k_timers s l) \<longrightarrow> timer_live t s) \<and>
    (\<forall>l t. l = HardTimers \<or> l = SoftTimers \<longrightarrow> t \<in> set (k_timers s l) \<longrightarrow>
      (\<exists>h. k_obj s t = Some h \<and> activated h))"

lemma timers_wf_activated:
  "timers_wf s \<Longrightarrow> l = HardTimers \<or> l = SoftTimers \<Longrightarrow> t \<in> set (k_timers s l) \<Longrightarrow>
   \<exists>h. k_obj s t = Some h \<and> activated h"
  unfolding timers_wf_def by blast

definition kinv :: "kstate \<Rightarrow> bool" where
  "kinv s \<longleftrightarrow> sched_inv s \<and> threads_wf s \<and> stacks_ok s \<and> timers_wf s"

lemma kinvD:
  assumes "kinv s"
  shows "sched_inv s" "threads_wf s" "stacks_ok s" "timers_wf s" "inv_out T s"
  using assms by (simp_all add: kinv_def sched_inv_out)

lemma assert_type_class: "assert_type r c s = (if is_class r c s then Some () else None)"
proof (cases "k_obj s r")
  case None
  then show ?thesis by (simp add: assert_type_def rt_object_get_type_def is_class_def)
next
  case (Some h)
  then show ?thesis by (simp add: assert_type_def rt_object_get_type_def is_class_def RT_ASSERT_def)
qed

lemma timer_live_class: "timer_live t s \<Longrightarrow> is_class t RT_Object_Class_Timer s"
  by (auto simp: timer_live_def is_class_def)

text \<open>The invariant of the scheduler does not read the objects or the timers.\<close>

lemma inv_out_cong:
  "k_thread s' = k_thread s \<Longrightarrow> k_list s' = k_list s \<Longrightarrow>
   rt_thread_ready_priority_group s' = rt_thread_ready_priority_group s \<Longrightarrow>
   rt_current_thread s' = rt_current_thread s \<Longrightarrow> inv_out T s' = inv_out T s"
  by (simp add: inv_out_def state_ok_def)

section \<open>Stopping a timer\<close>

definition stop_timer :: "oref \<Rightarrow> kstate \<Rightarrow> kstate" where
  "stop_timer t s = (case k_obj s t of
      None \<Rightarrow> s
    | Some h \<Rightarrow> if activated h
        then s\<lparr>k_timers := al_remove t (k_timers s), k_obj := (k_obj s)(t \<mapsto> deactivate h)\<rparr> else s)"

lemma rt_timer_stop_stop_timer:
  "is_class t RT_Object_Class_Timer s \<Longrightarrow> \<exists>r. rt_timer_stop t s = Some (r, stop_timer t s)"
  using rt_timer_stop_eq [of s t] by (auto simp: is_class_def stop_timer_def)

lemma stop_timer_frame [simp]:
  "k_thread (stop_timer t s) = k_thread s" "k_list (stop_timer t s) = k_list s"
  "k_timer (stop_timer t s) = k_timer s" "k_sem (stop_timer t s) = k_sem s"
  "k_mutex (stop_timer t s) = k_mutex s" "k_event (stop_timer t s) = k_event s"
  "k_mb (stop_timer t s) = k_mb s" "k_mq (stop_timer t s) = k_mq s" "k_taken (stop_timer t s) = k_taken s"
  "k_container (stop_timer t s) = k_container s"
  "rt_thread_ready_priority_group (stop_timer t s) = rt_thread_ready_priority_group s"
  "rt_current_thread (stop_timer t s) = rt_current_thread s"
  "rt_current_priority (stop_timer t s) = rt_current_priority s"
  "rt_scheduler_lock_nest (stop_timer t s) = rt_scheduler_lock_nest s"
  "rt_interrupt_nest (stop_timer t s) = rt_interrupt_nest s"
  "rt_tick (stop_timer t s) = rt_tick s" "soft_timer_status (stop_timer t s) = soft_timer_status s"
  by (simp_all add: stop_timer_def split: option.split)

lemma stop_timer_class [simp]: "is_class r c (stop_timer t s) = is_class r c s"
  by (auto simp: stop_timer_def is_class_def split: option.split)

lemma stop_timer_live [simp]: "timer_live r (stop_timer t s) = timer_live r s"
  by (auto simp: stop_timer_def timer_live_def split: option.split)

lemma stop_timer_inv_out [simp]: "inv_out T (stop_timer t s) = inv_out T s"
  by (rule inv_out_cong) simp_all

lemma stop_timer_timers_wf: "timers_wf s \<Longrightarrow> timers_wf (stop_timer t s)"
proof -
  assume wf: "timers_wf s"
  show ?thesis
  proof (cases "\<exists>h. k_obj s t = Some h \<and> activated h")
    case False
    then have "stop_timer t s = s" by (auto simp: stop_timer_def split: option.split)
    with wf show ?thesis by simp
  next
    case True
    then obtain h where h: "k_obj s t = Some h" "activated h" by auto
    let ?s = "stop_timer t s"
    have e: "k_timers ?s = al_remove t (k_timers s)" "k_obj ?s = (k_obj s)(t \<mapsto> deactivate h)"
      using h by (simp_all add: stop_timer_def)
    have sep: "separate (k_timers s)" using wf by (simp add: timers_wf_def)
    have mem: "x \<in> set (k_timers ?s l) \<longleftrightarrow> x \<noteq> t \<and> x \<in> set (k_timers s l)" for x l
      using separate_distinct [OF sep, of l] by (auto simp: e al_remove_def)
    have "separate (k_timers ?s)" using separate_remove [OF sep] by (simp add: e al_remove_def)
    moreover have "timer_live x ?s" if "x \<in> set (k_timers ?s l)" for l x
      using that mem wf by (auto simp: timers_wf_def)
    moreover have "\<exists>h. k_obj ?s x = Some h \<and> activated h"
      if "l = HardTimers \<or> l = SoftTimers" "x \<in> set (k_timers ?s l)" for l x
    proof -
      have x: "x \<noteq> t" "x \<in> set (k_timers s l)" using that mem by auto
      with wf that(1) have "\<exists>h. k_obj s x = Some h \<and> activated h" unfolding timers_wf_def by blast
      with x show ?thesis by (simp add: e)
    qed
    ultimately show ?thesis unfolding timers_wf_def by blast
  qed
qed

lemma stop_timer_threads_wf: "threads_wf s \<Longrightarrow> threads_wf (stop_timer t s)"
  by (simp add: threads_wf_def)

lemma stop_timer_stacks_ok [simp]: "stacks_ok (stop_timer t s) = stacks_ok s"
  by (simp add: stacks_ok_def)

lemma kinv_stop_timer: "kinv s \<Longrightarrow> kinv (stop_timer t s)"
  by (simp add: kinv_def sched_inv_def stop_timer_threads_wf stop_timer_timers_wf)

section \<open>Changes that keep the invariants\<close>

lemma threads_wf_change:
  assumes "threads_wf s" "k_obj s' = k_obj s" "k_timer s' = k_timer s"
    and "\<And>x h'. k_thread s' x = Some h' \<Longrightarrow> state_of h' \<noteq> RT_THREAD_CLOSE \<Longrightarrow>
      \<exists>h. k_thread s x = Some h \<and> state_of h \<noteq> RT_THREAD_CLOSE"
  shows "threads_wf s'"
  unfolding threads_wf_def
proof (intro allI impI)
  fix x h' assume "k_thread s' x = Some h'" "state_of h' \<noteq> 1"
  from assms(4) [OF this] assms(1) have "is_class (Obj x) 1 s \<and> timer_live (ThreadTimer x) s"
    unfolding threads_wf_def by blast
  then show "is_class (Obj x) 1 s' \<and> timer_live (ThreadTimer x) s'"
    using assms(2,3) by (simp add: is_class_def timer_live_def)
qed

lemma stacks_ok_change:
  assumes "stacks_ok s" "\<And>x h'. k_thread s' x = Some h' \<Longrightarrow> \<exists>h. k_thread s x = Some h \<and> stack_ok h' = stack_ok h"
  shows "stacks_ok s'"
  using assms unfolding stacks_ok_def by blast

lemma timers_wf_cong:
  "k_obj s' = k_obj s \<Longrightarrow> k_timer s' = k_timer s \<Longrightarrow> k_timers s' = k_timers s \<Longrightarrow> timers_wf s' = timers_wf s"
  by (simp add: timers_wf_def timer_live_def)

lemma stack_ok_error [simp]: "stack_ok (th\<lparr>th_error := e\<rparr>) = stack_ok th"
  by (simp add: stack_ok_def)

lemma error_simps [simp]:
  "state_of (th\<lparr>th_error := e\<rparr>) = state_of th" "suspended (th\<lparr>th_error := e\<rparr>) = suspended th"
  "prio (th\<lparr>th_error := e\<rparr>) = prio th" "prio_bit (th\<lparr>th_error := e\<rparr>) = prio_bit th"
  "yielding (th\<lparr>th_error := e\<rparr>) = yielding th"
  by (simp_all add: state_of_def suspended_def prio_def prio_bit_def yielding_def)

text \<open>A change of one thread that is neither closed before nor after, and of the queues.\<close>

lemma kinv_one_thread:
  assumes k: "kinv s" and th: "k_thread s t = Some th" and i: "inv_out {} s'"
    and e: "k_thread s' = (k_thread s)(t \<mapsto> h)" "k_obj s' = k_obj s" "k_timer s' = k_timer s" "k_timers s' = k_timers s"
    and st: "state_of th \<noteq> RT_THREAD_CLOSE" and so: "stack_ok h = stack_ok th"
  shows "kinv s'"
proof -
  note kd = kinvD [OF k]
  have "threads_wf s'"
    by (rule threads_wf_change [OF kd(2) e(2,3)]) (use e th st in \<open>auto split: if_splits\<close>)
  moreover have "stacks_ok s'"
    by (rule stacks_ok_change [OF kd(3)]) (use e th so in \<open>auto split: if_splits\<close>)
  moreover have "timers_wf s'" using kd(4) timers_wf_cong [OF e(2,3,4)] by simp
  ultimately show ?thesis using i by (simp add: kinv_def sched_inv_def)
qed

lemma kinv_thread_class:
  assumes "kinv s" and "k_thread s t = Some th" and "state_of th \<noteq> RT_THREAD_CLOSE"
  shows "is_class (Obj t) RT_Object_Class_Thread s" "timer_live (ThreadTimer t) s"
  using assms by (auto simp: kinv_def threads_wf_def)

lemma kinv_error:
  assumes k: "kinv s" and th: "k_thread s t = Some th" and st: "state_of th \<noteq> RT_THREAD_CLOSE"
  shows "kinv (s\<lparr>k_thread := (k_thread s)(t \<mapsto> th\<lparr>th_error := e\<rparr>)\<rparr>)"
proof (rule kinv_one_thread [where h = "th\<lparr>th_error := e\<rparr>", OF k th])
  show "inv_out {} (s\<lparr>k_thread := (k_thread s)(t \<mapsto> th\<lparr>th_error := e\<rparr>)\<rparr>)"
    by (rule inv_out_keep [OF kinvD(5) [OF k] th]) simp_all
qed (simp_all add: st)

section \<open>Suspending and resuming\<close>

lemma suspend_stat_cases:
  "suspend_stat f = Some x \<Longrightarrow> x \<in> {4, 6, 7}"
  by (auto simp: suspend_stat_def split: if_splits)

lemma suspended_set_state: "x \<in> {4, 6, 7} \<Longrightarrow> suspended (set_state x th)"
  by (auto simp: suspended_state)

lemma suspend_spec:
  assumes k: "kinv s" and cur: "rt_current_thread s = Some t" and th: "k_thread s t = Some th"
    and r: "state_of th = RT_THREAD_RUNNING" and x: "suspend_stat f = Some x"
  shows "\<exists>s'. rt_thread_suspend_with_flag t f s = Some (RT_EOK, s') \<and> kinv s' \<and>
    (\<exists>g. s' = stop_timer (ThreadTimer t) (s\<lparr>k_thread := (k_thread s)(t \<mapsto> set_state x th),
      rt_thread_ready_priority_group := g\<rparr>))"
proof -
  note i0 = kinvD(5) [OF k, of "{}"]
  have cl: "is_class (Obj t) 1 s" "timer_live (ThreadTimer t) s"
    using kinv_thread_class [OF k th] r by auto
  have m: "th_number_mask th = prio_bit th" using running_mask [OF i0 th] r by simp
  from inv_out_remove [OF i0 th] r obtain s1 where s1: "rt_schedule_remove_thread t s = Some s1" "inv_out {} s1"
    "unlinked (k_list s1) t" and e1: "s1 = s\<lparr>k_list := al_remove t (k_list s), rt_thread_ready_priority_group := rt_thread_ready_priority_group s1\<rparr>"
    by auto
  have u: "unlinked (k_list s) t" using running_unlinked [OF i0 th] r by simp
  define g where "g = rt_thread_ready_priority_group s1"
  have e: "s1 = s\<lparr>rt_thread_ready_priority_group := g\<rparr>"
    by (subst e1) (simp add: al_remove_unlinked [OF u] g_def)
  let ?h = "set_state x th"
  let ?s = "s\<lparr>k_thread := (k_thread s)(t \<mapsto> ?h), rt_thread_ready_priority_group := g\<rparr>"
  have x': "x \<in> {4, 6, 7}" by (rule suspend_stat_cases [OF x])
  have st: "state_of ?h = x" using x' by auto
  have th1: "k_thread s1 t = Some th" using th e by simp
  have s2: "s1\<lparr>k_thread := (k_thread s1)(t \<mapsto> ?h)\<rparr> = ?s" by (simp add: e)
  have "inv_out {} (s1\<lparr>k_thread := (k_thread s1)(t \<mapsto> ?h)\<rparr>)"
  proof (rule inv_out_set [OF s1(2) th1 s1(3)])
    show "prio_ok ?h" using inv_outD(3) [OF i0 th] by (simp add: prio_ok_def)
    show "t \<notin> {} \<longrightarrow> state_ok s1 t ?h" using st x' m by (auto simp: state_ok_def)
  qed simp
  then have i2: "inv_out {} ?s" by (simp only: s2)
  have k2: "kinv ?s" by (rule kinv_one_thread [where h = ?h, OF k th i2]) (simp_all add: r)
  have cl2: "is_class (ThreadTimer t) 10 ?s"
    using timer_live_class [OF cl(2)] by (simp add: is_class_def)
  from rt_timer_stop_stop_timer [OF cl2] obtain c where
    c: "rt_timer_stop (ThreadTimer t) ?s = Some (c, stop_timer (ThreadTimer t) ?s)" by blast
  have "rt_thread_set_suspend_state t f s1 = Some ?s"
    using x th1 s2 by (simp add: rt_thread_set_suspend_state_def)
  then have "rt_thread_suspend_with_flag t f s = Some (RT_EOK, stop_timer (ThreadTimer t) ?s)"
    using cl cur th r s1(1) c
    by (simp add: rt_thread_suspend_with_flag_def assert_type_class rt_thread_self_def)
  with kinv_stop_timer [OF k2] show ?thesis by blast
qed

lemma suspended_no_ready: "suspended th \<Longrightarrow> state_of th \<noteq> 2 \<and> state_of th \<noteq> 3 \<and> state_of th \<noteq> 0 \<and> state_of th \<noteq> 1"
  using suspended_not [of th] by auto

lemma inv_out_unlink:
  assumes inv: "inv_out T s" and th: "k_thread s t = Some th" and nr: "state_of th \<noteq> RT_THREAD_READY"
  shows "inv_out T (tlist_remove t s)" and "unlinked (k_list (tlist_remove t s)) t"
proof -
  have sep: "separate (k_list s)" using inv_outD(1) [OF inv] .
  let ?L = "al_remove t (k_list s)"
  have mem: "x \<in> set (?L l) \<longleftrightarrow> x \<noteq> t \<and> x \<in> set (k_list s l)" for x l
    using separate_distinct [OF sep, of l] by (auto simp: al_remove_def)
  show "unlinked (k_list (tlist_remove t s)) t" using mem by (simp add: tlist_remove_def unlinked_def)
  have ready: "?L (ReadyQ p) = k_list s (ReadyQ p)" for p
  proof -
    have "t \<notin> set (k_list s (ReadyQ p))"
      using inv_outD(2) [OF inv, of t "ReadyQ p"] th nr by (auto simp: queue_state_def)
    then show ?thesis by (simp add: al_remove_def remove1_idem)
  qed
  show "inv_out T (tlist_remove t s)"
  proof (rule inv_outI)
    show "separate (k_list (tlist_remove t s))"
      using separate_remove [OF sep] by (simp add: tlist_remove_def al_remove_def)
    show "\<exists>h. k_thread (tlist_remove t s) x = Some h \<and> queue_state l h" if "x \<in> set (k_list (tlist_remove t s) l)" for l x
      using that mem inv_outD(2) [OF inv, of x l] by (simp add: tlist_remove_def)
    show "prio_ok h" if "k_thread (tlist_remove t s) x = Some h" for x h
      using that inv_outD(3) [OF inv, of x h] by (simp add: tlist_remove_def)
    show "state_ok (tlist_remove t s) x h" if "k_thread (tlist_remove t s) x = Some h" "x \<notin> T" for x h
      using that inv_outD(4) [OF inv, of x h] ready by (simp add: state_ok_def tlist_remove_def)
    show "\<exists>h. k_thread (tlist_remove t s) c = Some h" if "rt_current_thread (tlist_remove t s) = Some c" for c
      using that inv_outD(6) [OF inv, of c] by (simp add: tlist_remove_def)
    show "bit (rt_thread_ready_priority_group (tlist_remove t s)) p \<longleftrightarrow> k_list (tlist_remove t s) (ReadyQ p) \<noteq> []"
      if "p < 32" for p
      using inv_outD(5) [OF inv that] ready by (simp add: tlist_remove_def)
  qed
qed

text \<open>What a resume does: the thread leaves its list, its timer is stopped, it is ready again.\<close>

definition wake :: "addr \<Rightarrow> rt_thread \<Rightarrow> kstate \<Rightarrow> kstate" where
  "wake t th s =
    (if rt_current_thread s = Some t
     then s\<lparr>k_thread := (k_thread s)(t \<mapsto> set_state RT_THREAD_RUNNING th), k_list := al_remove t (k_list s)\<rparr>
     else s\<lparr>k_thread := (k_thread s)(t \<mapsto> set_state RT_THREAD_READY th),
       k_list := (if yielding th then al_tail else al_head) (ReadyQ (prio th)) t (al_remove t (k_list s)),
       rt_thread_ready_priority_group := rt_thread_ready_priority_group s OR prio_bit th\<rparr>)"

lemma wake_insert:
  assumes inv: "inv_out {} s" and th: "k_thread s t = Some th" and su: "suspended th"
  shows "rt_schedule_insert_thread t (tlist_remove t s) = Some (wake t th s) \<and> inv_out {} (wake t th s)"
proof -
  note n = suspended_no_ready [OF su]
  have m: "th_number_mask th = prio_bit th" using running_mask [OF inv th] n by simp
  note i1 = inv_out_unlink [OF inv th]
  let ?s = "tlist_remove t s"
  have nr: "state_of th \<noteq> 2" using n by simp
  have th1: "k_thread ?s t = Some th" "k_list ?s = al_remove t (k_list s)" "k_thread ?s = k_thread s"
    "rt_current_thread ?s = rt_current_thread s"
    "rt_thread_ready_priority_group ?s = rt_thread_ready_priority_group s"
    using th by (simp_all add: tlist_remove_def)
  show ?thesis
  proof (cases "rt_current_thread s = Some t")
    case True
    have e: "wake t th s = ?s\<lparr>k_thread := (k_thread ?s)(t \<mapsto> set_state 3 th)\<rparr>"
      using True by (simp add: wake_def tlist_remove_def)
    have "inv_out {} (?s\<lparr>k_thread := (k_thread ?s)(t \<mapsto> set_state 3 th)\<rparr>)"
    proof (rule inv_out_set [OF i1(1) [OF nr] th1(1) i1(2) [OF nr]])
      show "prio_ok (set_state 3 th)" using inv_outD(3) [OF inv th] by (simp add: prio_ok_def)
      show "t \<notin> {} \<longrightarrow> state_ok ?s t (set_state 3 th)" using True m th1 by (simp add: state_ok_def)
    qed simp
    moreover have "rt_schedule_insert_thread t ?s = Some (?s\<lparr>k_thread := (k_thread ?s)(t \<mapsto> set_state 3 th)\<rparr>)"
      using insert_thread_current [OF _ th1(1)] True th1 by simp
    ultimately show ?thesis by (simp add: e)
  next
    case False
    have nc: "rt_current_thread ?s \<noteq> Some t" using False th1 by simp
    from inv_out_insert [OF i1(1) [OF nr] th1(1) i1(2) [OF nr] m nc] obtain s' where
      s': "rt_schedule_insert_thread t ?s = Some s'" "inv_out {} s'"
      "s' = ?s\<lparr>k_thread := (k_thread ?s)(t \<mapsto> set_state 2 th),
        k_list := (if yielding th then al_tail else al_head) (ReadyQ (prio th)) t (k_list ?s),
        rt_thread_ready_priority_group := rt_thread_ready_priority_group ?s OR prio_bit th\<rparr>" by auto
    have "s' = wake t th s" unfolding s'(3) using False by (simp add: wake_def tlist_remove_def)
    with s' show ?thesis by simp
  qed
qed

lemma wake_frame [simp]:
  "k_obj (wake t th s) = k_obj s" "k_timer (wake t th s) = k_timer s" "k_timers (wake t th s) = k_timers s"
  "k_sem (wake t th s) = k_sem s" "k_mutex (wake t th s) = k_mutex s" "k_event (wake t th s) = k_event s"
  "k_mb (wake t th s) = k_mb s" "k_mq (wake t th s) = k_mq s" "k_taken (wake t th s) = k_taken s"
  "k_container (wake t th s) = k_container s"
  "rt_scheduler_lock_nest (wake t th s) = rt_scheduler_lock_nest s" "rt_tick (wake t th s) = rt_tick s"
  "rt_interrupt_nest (wake t th s) = rt_interrupt_nest s" "rt_current_thread (wake t th s) = rt_current_thread s"
  "soft_timer_status (wake t th s) = soft_timer_status s"
  by (simp_all add: wake_def)

lemma wake_thread:
  "k_thread (wake t th s) = (k_thread s)(t \<mapsto> set_state (if rt_current_thread s = Some t then 3 else 2) th)"
  by (simp add: wake_def)

lemma wake_queue: "(\<And>p. l \<noteq> ReadyQ p) \<Longrightarrow> k_list (wake t th s) l = remove1 t (k_list s l)"
  by (simp add: wake_def al_remove_def al_tail_def al_head_def)

lemma resume_spec:
  assumes k: "kinv s" and th: "k_thread s t = Some th" and su: "suspended th"
  shows "rt_thread_resume t s = Some (RT_EOK, wake t th (stop_timer (ThreadTimer t) s)) \<and>
    kinv (wake t th (stop_timer (ThreadTimer t) s))"
proof -
  note n = suspended_no_ready [OF su]
  have cl: "is_class (Obj t) 1 s" "timer_live (ThreadTimer t) s"
    using kinv_thread_class [OF k th] n by auto
  let ?s1 = "stop_timer (ThreadTimer t) s"
  have k1: "kinv ?s1" by (rule kinv_stop_timer [OF k])
  have th1: "k_thread ?s1 t = Some th" using th by simp
  note w = wake_insert [OF kinvD(5) [OF k1] th1 su]
  have cl2: "is_class (ThreadTimer t) 10 (tlist_remove t s)"
    using timer_live_class [OF cl(2)] by (simp add: is_class_def tlist_remove_def)
  have comm: "stop_timer (ThreadTimer t) (tlist_remove t s) = tlist_remove t ?s1"
    by (simp add: stop_timer_def tlist_remove_def split: option.split)
  from rt_timer_stop_stop_timer [OF cl2] obtain c where
    c: "rt_timer_stop (ThreadTimer t) (tlist_remove t s) = Some (c, tlist_remove t ?s1)"
    unfolding comm by blast
  have "rt_thread_resume t s = Some (RT_EOK, wake t th ?s1)"
    using cl th su c w by (simp add: rt_thread_resume_def assert_type_class Let_def)
  moreover have "kinv (wake t th ?s1)"
    by (rule kinv_one_thread [where h = "set_state (if rt_current_thread ?s1 = Some t then 3 else 2) th", OF k1 th1])
      (use w wake_thread [of t th ?s1] n in simp_all)
  ultimately show ?thesis by blast
qed

text \<open>Resuming a thread that is not suspended only reports an error.\<close>

lemma resume_not_suspended:
  "kinv s \<Longrightarrow> k_thread s t = Some th \<Longrightarrow> \<not> suspended th \<Longrightarrow> state_of th \<noteq> RT_THREAD_CLOSE \<Longrightarrow>
   rt_thread_resume t s = Some (- RT_ERROR, s)"
  using kinv_thread_class(1) [of s t th] by (simp add: rt_thread_resume_def assert_type_class)

section \<open>Scheduling a well-formed kernel\<close>

lemma sched_frame_back:
  assumes "sched_frame s s'" and "k_thread s' t = Some h'"
  shows "\<exists>h. k_thread s t = Some h \<and> stack_ok h' = stack_ok h \<and> (state_of h = RT_THREAD_CLOSE \<longrightarrow> h' = h)"
proof -
  have "map_option (\<lambda>th. th\<lparr>th_stat := 0\<rparr>) (k_thread s t) = Some (h'\<lparr>th_stat := 0\<rparr>)"
    using assms unfolding sched_frame_def stat_frame_def by (metis option.simps(9))
  then obtain h where h: "k_thread s t = Some h" "h\<lparr>th_stat := 0\<rparr> = h'\<lparr>th_stat := 0\<rparr>" by auto
  have "h' = h\<lparr>th_stat := th_stat h'\<rparr>" using h(2) by (cases h; cases h') simp
  moreover have "stack_ok (h\<lparr>th_stat := th_stat h'\<rparr>) = stack_ok h" by (simp add: stack_ok_def)
  ultimately have "stack_ok h' = stack_ok h" by metis
  moreover have "h' = h" if "state_of h = 1" using sched_frame_quiet [OF assms(1) h(1)] that assms(2) by simp
  ultimately show ?thesis using h(1) by blast
qed

lemma kinv_sched_frame:
  assumes k: "kinv s" and i: "sched_inv s'" and f: "sched_frame s s'"
  shows "kinv s'"
proof -
  note kd = kinvD [OF k] and e = sched_frame_fields [OF f]
  have "threads_wf s'"
  proof (rule threads_wf_change [OF kd(2) e(1,3)])
    fix x h' assume "k_thread s' x = Some h'" "state_of h' \<noteq> 1"
    with sched_frame_back [OF f this(1)] show "\<exists>h. k_thread s x = Some h \<and> state_of h \<noteq> 1" by auto
  qed
  moreover have "stacks_ok s'"
    using sched_frame_back [OF f] by (intro stacks_ok_change [OF kd(3)]) blast
  moreover have "timers_wf s'" using kd(4) timers_wf_cong [OF e(1,3) e(10)] by simp
  ultimately show ?thesis using i by (simp add: kinv_def)
qed

definition highest_running :: "kstate \<Rightarrow> bool" where
  "highest_running s \<longleftrightarrow> (\<exists>t th. rt_current_thread s = Some t \<and> k_thread s t = Some th \<and>
    state_of th = RT_THREAD_RUNNING \<and> (\<forall>p. k_list s (ReadyQ p) \<noteq> [] \<longrightarrow> prio th \<le> p))"

lemma schedule_kinv:
  assumes k: "kinv s" and cur: "rt_current_thread s \<noteq> None"
  shows "\<exists>s'. rt_schedule s = Some s' \<and> kinv s' \<and> sched_frame s s' \<and>
    (rt_scheduler_lock_nest s = 0 \<and> rt_thread_ready_priority_group s \<noteq> 0 \<longrightarrow> highest_running s')"
proof -
  note kd = kinvD [OF k]
  obtain c where c: "rt_current_thread s = Some c" using cur by auto
  from schedule_spec [OF kd(1,3) c] obtain s' where
    s': "rt_schedule s = Some s'" "sched_inv s'" "sched_frame s s'"
      "rt_scheduler_lock_nest s = 0 \<and> rt_thread_ready_priority_group s \<noteq> 0 \<longrightarrow> highest_running s'"
    unfolding highest_running_def by blast
  with kinv_sched_frame [OF k s'(2,3)] show ?thesis by blast
qed

lemma schedule_current: "kinv s \<Longrightarrow> rt_current_thread s \<noteq> None \<Longrightarrow> rt_schedule s = Some s' \<Longrightarrow> rt_current_thread s' \<noteq> None"
proof (cases "rt_scheduler_lock_nest s = 0 \<and> rt_thread_ready_priority_group s \<noteq> 0")
  case True
  assume "kinv s" "rt_current_thread s \<noteq> None" "rt_schedule s = Some s'"
  with schedule_kinv [of s] True show ?thesis by (auto simp: highest_running_def)
next
  case False
  assume "kinv s" "rt_current_thread s \<noteq> None" "rt_schedule s = Some s'"
  with False show ?thesis by (auto simp: rt_schedule_def)
qed

text \<open>The timeout of a waiting thread: error code, ready again, then a scheduling step.\<close>

lemma thread_timeout_spec:
  assumes k: "kinv s" and th: "k_thread s t = Some th" and su: "suspended th" and cur: "rt_current_thread s \<noteq> None"
  defines "h \<equiv> th\<lparr>th_error := - RT_ETIMEOUT\<rparr>"
  shows "\<exists>s'. thread_timeout t s = Some s' \<and> kinv s' \<and>
    sched_frame (wake t h (s\<lparr>k_thread := (k_thread s)(t \<mapsto> h)\<rparr>)) s' \<and> rt_current_thread s' \<noteq> None"
proof -
  note n = suspended_no_ready [OF su]
  let ?s1 = "s\<lparr>k_thread := (k_thread s)(t \<mapsto> h)\<rparr>"
  have k1: "kinv ?s1" unfolding h_def by (rule kinv_error [OF k th]) (use n in simp)
  have th1: "k_thread ?s1 t = Some h" and su1: "suspended h" using su by (simp_all add: h_def)
  note w = wake_insert [OF kinvD(5) [OF k1] th1 su1]
  let ?s2 = "wake t h ?s1"
  have k2: "kinv ?s2"
    by (rule kinv_one_thread [where h = "set_state (if rt_current_thread ?s1 = Some t then 3 else 2) h", OF k1 th1])
      (use w wake_thread [of t h ?s1] n su1 in \<open>simp_all add: h_def\<close>)
  have c2: "rt_current_thread ?s2 \<noteq> None" using cur by simp
  from schedule_kinv [OF k2 c2] obtain s' where s': "rt_schedule ?s2 = Some s'" "kinv s'" "sched_frame ?s2 s'" by blast
  have cl: "is_class (Obj t) 1 s" using kinv_thread_class [OF k th] n by auto
  have u: "upd_thread t (\<lambda>th. th\<lparr>th_error := - 2\<rparr>) s = Some ?s1" using th by (simp add: h_def)
  have "thread_timeout t s = Some s'"
    unfolding thread_timeout_def using th su cl w s'(1) u by (simp add: assert_type_class Let_def)
  with s' schedule_current [OF k2 c2 s'(1)] show ?thesis by blast
qed

section \<open>Properties\<close>

text \<open>A concrete kernel: thread 10 runs, 11 and 12 are ready, all three at priority 5.\<close>

definition ex_thread :: "u8 \<Rightarrow> u8 \<Rightarrow> rt_thread" where
  "ex_thread st p = \<lparr>th_sp = 0x180, th_entry = 0, th_parameter = 0, th_stack_addr = 0x100, th_stack_size = 0x100,
    th_stack_guard = 35, th_error = 0, th_stat = st, th_current_priority = p, th_init_priority = p,
    th_number_mask = push_bit (unat p) 1, th_pending_object = None, th_event_set = 0, th_event_info = 0,
    th_init_tick = 10, th_remaining_tick = 5, th_cleanup = None, th_user_data = 0\<rparr>"

definition ex_header :: "u8 \<Rightarrow> rt_object" where
  "ex_header c = \<lparr>obj_name = [], obj_type = c OR 0x80, obj_flag = 0\<rparr>"

definition ex_timer :: "addr \<Rightarrow> rt_timer" where
  "ex_timer a = \<lparr>tm_func = Thread_timeout, tm_parameter = a, tm_init_tick = 0, tm_timeout_tick = 0\<rparr>"

definition ex_state :: kstate where
  "ex_state = init_kstate\<lparr>
    k_obj := [Obj 10 \<mapsto> ex_header 1, Obj 11 \<mapsto> ex_header 1, Obj 12 \<mapsto> ex_header 1,
      ThreadTimer 10 \<mapsto> ex_header 10, ThreadTimer 11 \<mapsto> ex_header 10, ThreadTimer 12 \<mapsto> ex_header 10],
    k_timer := [ThreadTimer 10 \<mapsto> ex_timer 10, ThreadTimer 11 \<mapsto> ex_timer 11, ThreadTimer 12 \<mapsto> ex_timer 12],
    k_thread := [10 \<mapsto> ex_thread 3 5, 11 \<mapsto> ex_thread 2 5, 12 \<mapsto> ex_thread 2 5],
    k_list := (\<lambda>_. [])(ReadyQ 5 := [11, 12]),
    rt_thread_ready_priority_group := 32,
    rt_current_thread := Some 10,
    rt_current_priority := 5\<rparr>"

lemma bit_32: "bit (32 :: u32) p \<longleftrightarrow> p = 5"
proof -
  have "(32 :: u32) = 2 ^ 5" by simp
  show ?thesis unfolding \<open>(32 :: u32) = 2 ^ 5\<close> bit_exp_iff by (auto simp: possible_bit_word)
qed

lemma ex_kinv: "kinv ex_state"
proof -
  have "inv_out {} ex_state"
  proof (rule inv_outI)
    show "separate (k_list ex_state)" by (auto simp: separate_def ex_state_def init_kstate_def)
    show "\<exists>th. k_thread ex_state t = Some th \<and> queue_state l th" if "t \<in> set (k_list ex_state l)" for l t
      using that by (auto simp: ex_state_def init_kstate_def queue_state_def ex_thread_def state_of_def prio_def
          prio_bit_def split: if_splits)
    show "prio_ok h" if "k_thread ex_state t = Some h" for t h
      using that by (auto simp: ex_state_def init_kstate_def prio_ok_def ex_thread_def prio_def prio_bit_def
          split: if_splits)
    show "state_ok ex_state t h" if "k_thread ex_state t = Some h" "t \<notin> {}" for t h
      using that by (auto simp: ex_state_def init_kstate_def state_ok_def ex_thread_def prio_def prio_bit_def
          state_of_def split: if_splits)
    show "bit (rt_thread_ready_priority_group ex_state) p \<longleftrightarrow> k_list ex_state (ReadyQ p) \<noteq> []" for p
    proof -
      have "rt_thread_ready_priority_group ex_state = 32" by (simp add: ex_state_def)
      then show ?thesis by (simp only: bit_32) (simp add: ex_state_def init_kstate_def)
    qed
    show "\<exists>h. k_thread ex_state c = Some h" if "rt_current_thread ex_state = Some c" for c
      using that by (simp add: ex_state_def init_kstate_def)
  qed
  moreover have "threads_wf ex_state"
    by (auto simp: threads_wf_def ex_state_def init_kstate_def is_class_def timer_live_def ex_header_def split: if_splits)
  moreover have "stacks_ok ex_state"
    by (auto simp: stacks_ok_def ex_state_def init_kstate_def ex_thread_def stack_ok_def split: if_splits)
  moreover have "timers_wf ex_state"
    by (simp add: timers_wf_def ex_state_def init_kstate_def separate_def)
  ultimately show ?thesis by (simp add: kinv_def sched_inv_def)
qed

text \<open>C25. On every well-formed kernel with the scheduler unlocked and a thread ready,
  \<open>rt_schedule\<close> returns, keeps the kernel well-formed, and the current thread is then
  running and no ready thread has a higher priority (a smaller number) than it has.\<close>

theorem rt_schedule_highest:
  assumes "kinv s" and "rt_current_thread s \<noteq> None" and "rt_scheduler_lock_nest s = 0"
    and "rt_thread_ready_priority_group s \<noteq> 0"
  shows "\<exists>s'. rt_schedule s = Some s' \<and> kinv s' \<and> sched_frame s s' \<and> highest_running s'"
  using schedule_kinv [OF assms(1,2)] assms(3,4) by blast

lemma ex_simps [simp]:
  "rt_current_thread ex_state = Some 10" "rt_scheduler_lock_nest ex_state = 0"
  "rt_thread_ready_priority_group ex_state = 32" "k_list ex_state = (\<lambda>_. [])(ReadyQ 5 := [11, 12])"
  "k_thread ex_state = [10 \<mapsto> ex_thread 3 5, 11 \<mapsto> ex_thread 2 5, 12 \<mapsto> ex_thread 2 5]"
  "rt_tick ex_state = 0" "rt_interrupt_nest ex_state = 0" "k_timers ex_state = (\<lambda>_. [])"
  by (simp_all add: ex_state_def init_kstate_def)

lemma rt_schedule_highest_witness:
  "\<exists>s'. rt_schedule ex_state = Some s' \<and> kinv s' \<and> sched_frame ex_state s' \<and> highest_running s'"
  by (rule rt_schedule_highest [OF ex_kinv]) simp_all

text \<open>Resuming a suspended thread succeeds and keeps the kernel well-formed: the thread is
  in the ready queue of its priority and in no other queue (or it is the current thread, which
  runs again), and its timer is in neither timer list.\<close>

theorem rt_thread_resume_ready:
  assumes "kinv s" and "k_thread s t = Some th" and "suspended th"
  shows "\<exists>s' h. rt_thread_resume t s = Some (RT_EOK, s') \<and> kinv s' \<and> k_thread s' t = Some h \<and>
    (if rt_current_thread s = Some t then state_of h = RT_THREAD_RUNNING \<and> unlinked (k_list s') t
     else state_of h = RT_THREAD_READY \<and> (\<forall>l. t \<in> set (k_list s' l) \<longleftrightarrow> l = ReadyQ (prio th))) \<and>
    ThreadTimer t \<notin> set (k_timers s' HardTimers) \<and> ThreadTimer t \<notin> set (k_timers s' SoftTimers)"
proof -
  let ?s = "stop_timer (ThreadTimer t) s"
  let ?s' = "wake t th ?s"
  let ?h = "set_state (if rt_current_thread s = Some t then 3 else 2) th"
  note r = resume_spec [OF assms]
  have sep: "separate (k_list s)" using inv_outD(1) [OF kinvD(5) [OF assms(1)]] .
  have u: "unlinked (al_remove t (k_list s)) t" using unlinked_remove [OF sep] by (simp add: al_remove_def)
  have h: "k_thread ?s' t = Some ?h" by (simp add: wake_thread)
  have l: "if rt_current_thread s = Some t then unlinked (k_list ?s') t
     else (\<forall>l. t \<in> set (k_list ?s' l) \<longleftrightarrow> l = ReadyQ (prio th))"
    using u by (auto simp: wake_def unlinked_def al_tail_def al_head_def)
  have timers: "ThreadTimer t \<notin> set (k_timers ?s' l)" if "l = HardTimers \<or> l = SoftTimers" for l
  proof (cases "\<exists>ob. k_obj s (ThreadTimer t) = Some ob \<and> activated ob")
    case True
    have "separate (k_timers s)" using kinvD(4) [OF assms(1)] by (simp add: timers_wf_def)
    then have "distinct (k_timers s l)" by (rule separate_distinct)
    with True show ?thesis by (auto simp: stop_timer_def al_remove_def)
  next
    case False
    then have "?s = s" by (auto simp: stop_timer_def split: option.split)
    with False timers_wf_activated [OF kinvD(4) [OF assms(1)] that, of "ThreadTimer t"] show ?thesis by auto
  qed
  show ?thesis
    using r h l timers [of HardTimers] timers [of SoftTimers]
    by (intro exI [of _ ?s'] exI [of _ ?h]) auto
qed

definition ex_suspended :: kstate where
  "ex_suspended = ex_state\<lparr>k_thread := (k_thread ex_state)(12 \<mapsto> ex_thread 4 5),
    k_list := (\<lambda>_. [])(ReadyQ 5 := [11], SuspendQ 50 := [12])\<rparr>"

lemma ex_suspended_kinv: "kinv ex_suspended"
proof -
  have "inv_out {} ex_suspended"
  proof (rule inv_outI)
    show "separate (k_list ex_suspended)" by (auto simp: separate_def ex_suspended_def)
    show "\<exists>th. k_thread ex_suspended t = Some th \<and> queue_state l th" if "t \<in> set (k_list ex_suspended l)" for l t
      using that by (auto simp: ex_suspended_def queue_state_def ex_thread_def state_of_def prio_def
          prio_bit_def suspended_def split: if_splits)
    show "prio_ok h" if "k_thread ex_suspended t = Some h" for t h
      using that by (auto simp: ex_suspended_def prio_ok_def ex_thread_def prio_def prio_bit_def split: if_splits)
    show "state_ok ex_suspended t h" if "k_thread ex_suspended t = Some h" "t \<notin> {}" for t h
      using that by (auto simp: ex_suspended_def state_ok_def ex_thread_def prio_def prio_bit_def
          state_of_def split: if_splits)
    show "bit (rt_thread_ready_priority_group ex_suspended) p \<longleftrightarrow> k_list ex_suspended (ReadyQ p) \<noteq> []" for p
    proof -
      have "rt_thread_ready_priority_group ex_suspended = 32" by (simp add: ex_suspended_def)
      then show ?thesis by (simp only: bit_32) (simp add: ex_suspended_def)
    qed
    show "\<exists>h. k_thread ex_suspended c = Some h" if "rt_current_thread ex_suspended = Some c" for c
      using that by (simp add: ex_suspended_def)
  qed
  moreover have "threads_wf ex_suspended"
    by (auto simp: threads_wf_def ex_suspended_def ex_state_def init_kstate_def is_class_def timer_live_def
        ex_header_def split: if_splits)
  moreover have "stacks_ok ex_suspended"
    by (auto simp: stacks_ok_def ex_suspended_def ex_thread_def stack_ok_def split: if_splits)
  moreover have "timers_wf ex_suspended"
    by (simp add: timers_wf_def ex_suspended_def separate_def)
  ultimately show ?thesis by (simp add: kinv_def sched_inv_def)
qed

lemma rt_thread_resume_ready_witness:
  "\<exists>s'. rt_thread_resume 12 ex_suspended = Some (RT_EOK, s') \<and> kinv s' \<and> 12 \<in> set (k_list s' (ReadyQ 5))"
proof -
  have t: "k_thread ex_suspended 12 = Some (ex_thread 4 5)" by (simp add: ex_suspended_def)
  have su: "suspended (ex_thread 4 5)" by (simp add: suspended_def ex_thread_def)
  have "prio (ex_thread 4 5) = 5" "rt_current_thread ex_suspended \<noteq> Some 12"
    by (simp_all add: prio_def ex_thread_def ex_suspended_def)
  with rt_thread_resume_ready [OF ex_suspended_kinv t su] show ?thesis by auto
qed

text \<open>What a yield does to the threads of the same priority.\<close>

definition share :: "kstate \<Rightarrow> nat \<Rightarrow> addr \<Rightarrow> addr list \<Rightarrow> bool" where
  "share s p cur q \<longleftrightarrow> kinv s \<and> rt_scheduler_lock_nest s = 0 \<and> rt_current_thread s = Some cur \<and>
    k_list s (ReadyQ p) = q \<and> (\<forall>r<p. k_list s (ReadyQ r) = []) \<and> p < RT_THREAD_PRIORITY_MAX \<and>
    (\<exists>c. k_thread s cur = Some c \<and> prio c = p \<and> state_of c = RT_THREAD_RUNNING)"

lemma highest_of_share:
  assumes "share s p cur (b # rest)"
  shows "rt_thread_ready_priority_group s \<noteq> 0" "scheduler_get_highest_priority_thread s = Some (b, p)"
proof -
  have k: "kinv s" and q: "k_list s (ReadyQ p) = b # rest" and low: "\<forall>r<p. k_list s (ReadyQ r) = []" and p: "p < 32"
    using assms by (auto simp: share_def)
  note i0 = kinvD(5) [OF k, of "{}"]
  have bp: "bit (rt_thread_ready_priority_group s) p" using inv_outD(5) [OF i0 p] q by simp
  then show g: "rt_thread_ready_priority_group s \<noteq> 0" by auto
  from get_highest [OF i0 g] obtain t r' p' where h: "scheduler_get_highest_priority_thread s = Some (t, p')"
    "k_list s (ReadyQ p') = t # r'" "\<forall>q<p'. k_list s (ReadyQ q) = []" by blast
  have "p' = p"
  proof (rule ccontr)
    assume "p' \<noteq> p"
    then consider "p' < p" | "p < p'" by linarith
    then show False using h q low by cases auto
  qed
  with h q show "scheduler_get_highest_priority_thread s = Some (b, p)" by simp
qed

lemma yield_step:
  assumes sh: "share s p cur (b # rest)"
  shows "\<exists>s'. rt_thread_yield s = Some (RT_EOK, s') \<and> share s' p b (cur # rest)"
proof -
  obtain c where k: "kinv s" and lock: "rt_scheduler_lock_nest s = 0" and cur: "rt_current_thread s = Some cur"
    and q: "k_list s (ReadyQ p) = b # rest" and low: "\<forall>r<p. k_list s (ReadyQ r) = []" and p: "p < 32"
    and c: "k_thread s cur = Some c" "prio c = p" "state_of c = 3"
    using sh by (auto simp: share_def)
  let ?c = "c\<lparr>th_remaining_tick := th_init_tick c, th_stat := th_stat c OR 8\<rparr>"
  let ?s = "s\<lparr>k_thread := (k_thread s)(cur \<mapsto> ?c)\<rparr>"
  have "(th_stat c OR 8) AND 7 = th_stat c AND 7" by (simp add: bit.conj_disj_distrib2)
  then have c3: "state_of ?c = 3" using c(3) by (simp add: state_of_def)
  have cy: "yielding ?c" by (simp add: yielding_def bit.conj_disj_distrib2)
  have cp: "prio ?c = p" using c(2) by (simp add: prio_def)
  have "inv_out {} ?s" by (rule inv_out_keep [OF kinvD(5) [OF k] c(1)]) (use c3 c in simp_all)
  then have ks: "kinv ?s"
    by (rule kinv_one_thread [where h = ?c, OF k c(1)]) (use c in \<open>simp_all add: stack_ok_def\<close>)
  have shs: "share ?s p cur (b # rest)" using ks lock cur q low p c3 cp by (simp add: share_def)
  note hi = highest_of_share [OF shs]
  have bin: "b \<in> set (k_list ?s (ReadyQ p))" using q by simp
  from ready_member [OF kinvD(5) [OF ks, of "{}"] bin] obtain th where
    th: "k_thread ?s b = Some th" "state_of th = 2" "prio th = p" by auto
  have ne: "b \<noteq> cur" using th c3 by auto
  have ch: "schedule_choice ?c cur b p = (b, True)" using c3 cp cy by (simp add: schedule_choice_def)
  have sched: "sched_inv ?s" "stacks_ok ?s" using kinvD [OF ks] by simp_all
  have l0: "rt_scheduler_lock_nest ?s = 0" and cu: "rt_current_thread ?s = Some cur"
    and cc: "k_thread ?s cur = Some ?c" using lock cur by simp_all
  from schedule_switch [OF sched(1) l0 hi(1) cu cc hi(2) ch c3 th(1,2) sched(2)] obtain s' where
    s': "rt_schedule ?s = Some s'" "sched_inv s'" and e: "s' = ?s\<lparr>k_thread := (k_thread ?s)(cur \<mapsto> set_state 2 (clear_yield ?c),
        b \<mapsto> set_state 3 th), k_list := al_remove b (al_head (ReadyQ (prio ?c)) cur (k_list ?s)),
      rt_thread_ready_priority_group := rt_thread_ready_priority_group s',
      rt_current_thread := Some b, rt_current_priority := of_nat p\<rparr>" by blast
  have f: "k_list s' = al_remove b (al_head (ReadyQ p) cur (k_list ?s))" "rt_current_thread s' = Some b"
    "k_thread s' b = Some (set_state 3 th)" "rt_scheduler_lock_nest s' = 0"
    using cp lock by (subst e, simp)+
  have "rt_current_thread ?s \<noteq> None" using cur by simp
  with schedule_kinv [OF ks] s'(1) have k': "kinv s'" by auto
  have "k_list s' (ReadyQ p) = cur # rest" using ne q by (simp add: f al_remove_def al_head_def)
  moreover have "\<forall>r<p. k_list s' (ReadyQ r) = []" using low by (simp add: f al_remove_def al_head_def)
  ultimately have "share s' p b (cur # rest)" using k' f th p by (simp add: share_def)
  moreover have "rt_thread_yield s = Some (RT_EOK, s')"
    unfolding rt_thread_yield_def using cur c(1) s'(1) by (simp add: rt_thread_self_def)
  ultimately show ?thesis by blast
qed

fun yields :: "nat \<Rightarrow> kstate \<Rightarrow> kstate option" where
  "yields 0 s = Some s"
| "yields (Suc n) s = do { (_, s) \<leftarrow> rt_thread_yield s; yields n s }"

text \<open>C26. Yielding among threads of one priority. \<open>rt_schedule\<close> clears the yield flag before it
  inserts the yielding thread, so the thread goes back to the head of its ready queue: however
  often they yield, the two first threads take turns and the threads behind them never move.\<close>

theorem rt_thread_yield_two_share:
  assumes "share s p cur (b # rest)"
  shows "\<exists>s'. yields n s = Some s' \<and>
    (if even n then share s' p cur (b # rest) else share s' p b (cur # rest))"
  using assms
proof (induction n arbitrary: s cur b)
  case (Suc n)
  from yield_step [OF Suc.prems] obtain s1 where
    y: "rt_thread_yield s = Some (RT_EOK, s1)" "share s1 p b (cur # rest)" by blast
  from Suc.IH [OF y(2)] y(1) show ?case by auto
qed simp

lemma rt_thread_yield_two_share_witness:
  "\<exists>s'. yields 1001 ex_state = Some s' \<and> share s' 5 11 [10, 12]"
proof -
  have "share ex_state 5 10 [11, 12]"
    using ex_kinv by (simp add: share_def prio_def state_of_def ex_thread_def)
  from rt_thread_yield_two_share [OF this, of 1001] show ?thesis by simp
qed

end
