(* ===== verification/Timer.thy ===== *)
theory Timer
  imports ThreadBase
begin

text \<open>
  Starting timers and firing expired ones (\<open>rt-thread/src/timer.c\<close>). With
  \<open>RT_TIMER_SKIP_LIST_LEVEL\<close> 1 the skip list is one list, ordered by timeout; times wrap
  around, so \<open>later\<close> compares them through the difference. The two check functions loop as
  long as the first timer has expired, which need not end (a function may start its timer
  again), so they are \<open>partial_function (option)\<close>. Functions of the application are a
  parameter.
\<close>

section \<open>Starting a timer\<close>

definition half_tick :: u32 where "half_tick = RT_TICK_MAX div 2"

definition later :: "rt_timer \<Rightarrow> u32 \<Rightarrow> bool" where
  "later t timeout_tick \<longleftrightarrow> tm_timeout_tick t - timeout_tick \<noteq> 0 \<and> tm_timeout_tick t - timeout_tick < half_tick"

text \<open>The scan for the position, and the insertion after the node it stops at.\<close>

fun timer_insert :: "(oref \<rightharpoonup> rt_timer) \<Rightarrow> u32 \<Rightarrow> oref \<Rightarrow> oref list \<Rightarrow> oref list option" where
  "timer_insert tms timeout_tick timer [] = Some [timer]"
| "timer_insert tms timeout_tick timer (p # ps) = do {
     t \<leftarrow> tms p;
     if later t timeout_tick then Some (timer # p # ps)
     else do { r \<leftarrow> timer_insert tms timeout_tick timer ps; Some (p # r) } }"

definition rt_timer_start :: "oref \<Rightarrow> kstate \<Rightarrow> (rt_err \<times> kstate) option" where
  "rt_timer_start timer s = do {
    _ \<leftarrow> assert_type timer RT_Object_Class_Timer s;
    let s = timer_remove timer s;
    s \<leftarrow> upd_obj timer deactivate s;
    s \<leftarrow> upd_timer timer (\<lambda>t. t\<lparr>tm_timeout_tick := rt_tick s + tm_init_tick t\<rparr>) s;
    h \<leftarrow> k_obj s timer;
    t \<leftarrow> k_timer s timer;
    let timer_list = (if is_soft h then SoftTimers else HardTimers);
    l \<leftarrow> timer_insert (k_timer s) (tm_timeout_tick t) timer (k_timers s timer_list);
    let s = s\<lparr>k_timers := (k_timers s)(timer_list := l)\<rparr>;
    s \<leftarrow> upd_obj timer activate s;
    if is_soft h then do {
      tt \<leftarrow> k_thread s timer_thread;
      if soft_timer_status s = 1 \<and> suspended tt then do {
        (_, s) \<leftarrow> rt_thread_resume timer_thread s;
        s \<leftarrow> rt_schedule s;
        Some (RT_EOK, s)
      } else Some (RT_EOK, s)
    } else Some (RT_EOK, s) }"

section \<open>Firing expired timers\<close>

definition call_timeout :: "(nat \<Rightarrow> addr \<Rightarrow> kstate \<Rightarrow> kstate option) \<Rightarrow> rt_timer \<Rightarrow> kstate \<Rightarrow> kstate option" where
  "call_timeout user t s = (case tm_func t of
      Thread_timeout \<Rightarrow> thread_timeout (tm_parameter t) s
    | User_func f \<Rightarrow> user f (tm_parameter t) s)"

text \<open>
  Before the call: off its list, deactivated unless periodic, on the local list. After the
  call, unless the function detached, stopped or started the timer (the local list is then
  empty): off the local list, and started again when periodic and still active.
\<close>

definition before_fire :: "timer_head \<Rightarrow> oref \<Rightarrow> kstate \<Rightarrow> kstate option" where
  "before_fire local t s = do {
    let s = timer_remove t s;
    h \<leftarrow> k_obj s t;
    s \<leftarrow> (if \<not> periodic h then upd_obj t deactivate s else Some s);
    Some (s\<lparr>k_timers := al_head local t (k_timers s)\<rparr>) }"

definition after_fire :: "timer_head \<Rightarrow> oref \<Rightarrow> kstate \<Rightarrow> kstate option" where
  "after_fire local t s =
    (if k_timers s local = [] then Some s
     else do {
       let s = timer_remove t s;
       h \<leftarrow> k_obj s t;
       if periodic h \<and> activated h then do {
         s \<leftarrow> upd_obj t deactivate s;
         (_, s) \<leftarrow> rt_timer_start t s;
         Some s
       } else Some s })"

partial_function (option) timer_check_loop ::
  "(nat \<Rightarrow> addr \<Rightarrow> kstate \<Rightarrow> kstate option) \<Rightarrow> u32 \<Rightarrow> kstate \<Rightarrow> kstate option" where
  "timer_check_loop user current_tick s = (case k_timers s HardTimers of
      [] \<Rightarrow> Some s
    | t # _ \<Rightarrow> do {
        tm \<leftarrow> k_timer s t;
        if current_tick - tm_timeout_tick tm < half_tick then do {
          s \<leftarrow> before_fire HardCheck t s;
          s \<leftarrow> call_timeout user tm s;
          let current_tick = rt_tick s;
          s \<leftarrow> after_fire HardCheck t s;
          timer_check_loop user current_tick s
        } else Some s })"

definition rt_timer_check :: "(nat \<Rightarrow> addr \<Rightarrow> kstate \<Rightarrow> kstate option) \<Rightarrow> kstate \<Rightarrow> kstate option" where
  "rt_timer_check user s = (
    let s = s\<lparr>k_timers := (k_timers s)(HardCheck := [])\<rparr> in
    timer_check_loop user (rt_tick s) s)"

partial_function (option) soft_timer_check_loop ::
  "(nat \<Rightarrow> addr \<Rightarrow> kstate \<Rightarrow> kstate option) \<Rightarrow> kstate \<Rightarrow> kstate option" where
  "soft_timer_check_loop user s = (case k_timers s SoftTimers of
      [] \<Rightarrow> Some s
    | t # _ \<Rightarrow> do {
        tm \<leftarrow> k_timer s t;
        if rt_tick s - tm_timeout_tick tm < half_tick then do {
          s \<leftarrow> before_fire SoftCheck t s;
          let s = s\<lparr>soft_timer_status := 0\<rparr>;
          s \<leftarrow> call_timeout user tm s;
          let s = s\<lparr>soft_timer_status := 1\<rparr>;
          s \<leftarrow> after_fire SoftCheck t s;
          soft_timer_check_loop user s
        } else Some s })"

definition rt_soft_timer_check :: "(nat \<Rightarrow> addr \<Rightarrow> kstate \<Rightarrow> kstate option) \<Rightarrow> kstate \<Rightarrow> kstate option" where
  "rt_soft_timer_check user s = soft_timer_check_loop user (s\<lparr>k_timers := (k_timers s)(SoftCheck := [])\<rparr>)"

section \<open>The order of a timer list\<close>

text \<open>
  Timeouts within half the tick range of a base \<open>b\<close> are ordered by their distance from
  it; \<open>later\<close> then is that order.
\<close>

definition after_base :: "u32 \<Rightarrow> u32 \<Rightarrow> nat" where
  "after_base b x = unat (x - b)"

definition in_window :: "u32 \<Rightarrow> u32 \<Rightarrow> bool" where
  "in_window b x \<longleftrightarrow> x - b < half_tick"

lemma unat_half_tick: "unat half_tick = 2 ^ 31 - 1"
  by (simp add: half_tick_def unat_div)

lemma unat_diff_wrap:
  fixes x y :: u32
  shows "unat (x - y) = (if unat y \<le> unat x then unat x - unat y else unat x + 2 ^ 32 - unat y)"
  using unat_sub_if' [of x y] by simp

lemma later_after_base:
  assumes "in_window b (tm_timeout_tick t)" and "in_window b x"
  shows "later t x \<longleftrightarrow> after_base b x < after_base b (tm_timeout_tick t)"
proof -
  let ?a = "tm_timeout_tick t - b" and ?c = "x - b"
  have e: "tm_timeout_tick t - x = ?a - ?c" by simp
  have lt: "unat ?a < 2 ^ 31 - 1" "unat ?c < 2 ^ 31 - 1"
    using assms by (simp_all add: in_window_def word_less_nat_alt unat_half_tick)
  have u: "unat (?a - ?c) = (if unat ?c \<le> unat ?a then unat ?a - unat ?c else unat ?a + 2 ^ 32 - unat ?c)"
    by (rule unat_diff_wrap)
  have "later t x \<longleftrightarrow> unat (?a - ?c) \<noteq> 0 \<and> unat (?a - ?c) < 2 ^ 31 - 1"
    unfolding later_def e word_less_nat_alt unat_half_tick by (simp add: unat_eq_zero)
  also have "\<dots> \<longleftrightarrow> unat ?c < unat ?a" using lt unfolding u by (auto split: if_splits)
  finally show ?thesis by (simp add: after_base_def)
qed

text \<open>The timeout of a listed timer.\<close>

definition timeout_of :: "(oref \<rightharpoonup> rt_timer) \<Rightarrow> oref \<Rightarrow> u32" where
  "timeout_of tms t = (case tms t of None \<Rightarrow> 0 | Some tm \<Rightarrow> tm_timeout_tick tm)"

lemma timer_insert_prio:
  assumes "\<And>p. p \<in> set ps \<Longrightarrow> tms p \<noteq> None" and "\<And>p. p \<in> set ps \<Longrightarrow> in_window b (timeout_of tms p)"
    and "in_window b (timeout_of tms t)"
  shows "timer_insert tms (timeout_of tms t) t ps = Some (prio_insert (\<lambda>p. after_base b (timeout_of tms p)) t ps)"
  using assms
proof (induction ps)
  case Nil
  then show ?case by (simp add: prio_insert_def)
next
  case (Cons p ps)
  from Cons.prems(1) [of p] obtain tm where tm: "tms p = Some tm" by auto
  then have to: "timeout_of tms p = tm_timeout_tick tm" by (simp add: timeout_of_def)
  have l: "later tm (timeout_of tms t) \<longleftrightarrow> after_base b (timeout_of tms t) < after_base b (timeout_of tms p)"
    using later_after_base [of b tm "timeout_of tms t"] Cons.prems(2) [of p] Cons.prems(3) to by simp
  show ?case
  proof (cases "later tm (timeout_of tms t)")
    case True
    then have "\<not> after_base b (timeout_of tms p) \<le> after_base b (timeout_of tms t)" using l by simp
    with True tm show ?thesis by (simp add: prio_insert_def)
  next
    case False
    then have "after_base b (timeout_of tms p) \<le> after_base b (timeout_of tms t)" using l by simp
    then have "prio_insert (\<lambda>p. after_base b (timeout_of tms p)) t (p # ps)
        = p # prio_insert (\<lambda>p. after_base b (timeout_of tms p)) t ps" by (simp add: prio_insert_def)
    with False tm Cons show ?thesis by simp
  qed
qed

lemma timer_insert_set:
  "timer_insert tms x t ps = Some l \<Longrightarrow> set l = insert t (set ps) \<and> (distinct ps \<longrightarrow> t \<notin> set ps \<longrightarrow> distinct l)"
proof (induction ps arbitrary: l)
  case (Cons p ps)
  then obtain tm where tm: "tms p = Some tm" by (auto elim: bind_SomeE)
  show ?case
  proof (cases "later tm x")
    case True
    with Cons.prems tm show ?thesis by auto
  next
    case False
    with Cons.prems tm obtain r where "timer_insert tms x t ps = Some r" "l = p # r"
      by (auto elim: bind_SomeE)
    with Cons.IH [of r] show ?thesis by auto
  qed
qed simp

lemma timer_insert_total:
  "(\<And>p. p \<in> set ps \<Longrightarrow> tms p \<noteq> None) \<Longrightarrow> \<exists>l. timer_insert tms x t ps = Some l"
proof (induction ps)
  case (Cons p ps)
  then obtain tm l where "tms p = Some tm" "timer_insert tms x t ps = Some l" by fastforce
  then show ?case by simp
qed simp

end
