(* ===== verification/TimerProps.thy ===== *)
theory TimerProps
  imports Timer
begin

text \<open>
  What the timers guarantee: a started timer is listed behind every timer that expires no
  later, and a check of the hard timers wakes every waiting thread whose timer has expired,
  with the error code of a timeout.
\<close>

section \<open>Keeping the invariant\<close>

lemma kinv_timer_change:
  assumes k: "kinv s" and e: "k_thread s' = k_thread s" "k_list s' = k_list s"
      "rt_thread_ready_priority_group s' = rt_thread_ready_priority_group s" "rt_current_thread s' = rt_current_thread s"
    and c: "\<And>r c. is_class r c s \<Longrightarrow> is_class r c s'" and l: "\<And>r. timer_live r s \<Longrightarrow> timer_live r s'"
    and t: "timers_wf s'"
  shows "kinv s'"
proof -
  note kd = kinvD [OF k]
  have "sched_inv s'" using kd(1) inv_out_cong [OF e] by (simp add: sched_inv_def)
  moreover have "threads_wf s'" using kd(2) c l e(1) by (auto simp: threads_wf_def)
  moreover have "stacks_ok s'" using kd(3) e(1) by (simp add: stacks_ok_def)
  ultimately show ?thesis using t by (simp add: kinv_def)
qed

lemma flag_simps [simp]:
  "is_soft (deactivate h) = is_soft h" "periodic (deactivate h) = periodic h"
proof -
  have "NOT (1 :: u8) AND 4 = 4" "NOT (1 :: u8) AND 2 = 2" by simp_all
  note a = this [THEN and_not_and]
  have e: "obj_flag (deactivate h) = obj_flag h AND NOT 1" by (simp add: deactivate_def)
  show "is_soft (deactivate h) = is_soft h" "periodic (deactivate h) = periodic h"
    by (simp_all only: is_soft_def periodic_def e a)
qed

lemma timers_wf_live: "timers_wf s \<Longrightarrow> t \<in> set (k_timers s l) \<Longrightarrow> timer_live t s"
  unfolding timers_wf_def by blast

text \<open>
  A timer that is in no list is put into one; its header and its data may change, but it stays
  a timer and is active when the list is one of the two timer lists.
\<close>

lemma timers_wf_enter:
  assumes wf: "timers_wf s" and u: "unlinked (k_timers s) t" and d: "distinct xs" "set xs = insert t (set (k_timers s l))"
    and h: "obj_type h AND NOT RT_Object_Class_Static = RT_Object_Class_Timer" "l = HardTimers \<or> l = SoftTimers \<longrightarrow> activated h"
    and e: "k_timers s' = (k_timers s)(l := xs)" "k_obj s' = (k_obj s)(t \<mapsto> h)" "k_timer s' = (k_timer s)(t \<mapsto> tm)"
  shows "timers_wf s'"
  unfolding timers_wf_def
proof (intro conjI allI impI)
  have mem: "x \<in> set (k_timers s' m) \<longleftrightarrow> x = t \<and> m = l \<or> x \<in> set (k_timers s m)" for x m
    using d(2) by (auto simp: e(1))
  show "separate (k_timers s')"
    unfolding e(1) by (rule separate_add [OF _ u d]) (use wf in \<open>simp add: timers_wf_def\<close>)
  show "timer_live x s'" if "x \<in> set (k_timers s' m)" for m x
    using that wf h(1) by (auto simp: mem timers_wf_def timer_live_def e(2,3))
  show "\<exists>h. k_obj s' x = Some h \<and> activated h"
    if "m = HardTimers \<or> m = SoftTimers" "x \<in> set (k_timers s' m)" for m x
  proof (cases "x = t")
    case True
    then have "m = l" using that(2) u by (auto simp: mem unlinked_def)
    with True that(1) h(2) show ?thesis by (auto simp: e(2))
  next
    case False
    with that timers_wf_activated [OF wf that(1)] show ?thesis by (simp add: mem e(2))
  qed
qed

lemma timers_wf_leave:
  assumes wf: "timers_wf s" and e: "k_timers s' = al_remove t (k_timers s)"
    and o': "\<And>x. x \<noteq> t \<Longrightarrow> k_obj s' x = k_obj s x" and m': "k_timer s' = k_timer s"
  shows "timers_wf s'" and "unlinked (k_timers s') t"
proof -
  have sep: "separate (k_timers s)" using wf by (simp add: timers_wf_def)
  have mem: "x \<in> set (k_timers s' l) \<longleftrightarrow> x \<noteq> t \<and> x \<in> set (k_timers s l)" for x l
    using separate_distinct [OF sep, of l] by (auto simp: e al_remove_def)
  show "unlinked (k_timers s') t" using mem by (simp add: unlinked_def)
  show "timers_wf s'"
    unfolding timers_wf_def
  proof (intro conjI allI impI)
    show "separate (k_timers s')" using separate_remove [OF sep] by (simp add: e al_remove_def)
    show "timer_live x s'" if "x \<in> set (k_timers s' l)" for l x
      using that wf o' by (auto simp: mem timers_wf_def timer_live_def m')
    show "\<exists>h. k_obj s' x = Some h \<and> activated h"
      if "l = HardTimers \<or> l = SoftTimers" "x \<in> set (k_timers s' l)" for l x
      using that timers_wf_activated [OF wf that(1)] o' by (simp add: mem)
  qed
qed

section \<open>Frames, and the invariant of threads and timers together\<close>

text \<open>The IPC objects, which waking, suspending and scheduling leave alone.\<close>

definition ipc_same :: "kstate \<Rightarrow> kstate \<Rightarrow> bool" where
  "ipc_same s s' \<longleftrightarrow> k_sem s' = k_sem s \<and> k_mutex s' = k_mutex s \<and> k_event s' = k_event s \<and> k_mb s' = k_mb s \<and>
    k_mq s' = k_mq s \<and> k_taken s' = k_taken s \<and> k_container s' = k_container s \<and>
    rt_scheduler_lock_nest s' = rt_scheduler_lock_nest s \<and> rt_interrupt_nest s' = rt_interrupt_nest s \<and>
    rt_tick s' = rt_tick s \<and> (\<forall>a c. is_class (Obj a) c s' = is_class (Obj a) c s) \<and>
    (\<forall>a. k_obj s' (Obj a) = k_obj s (Obj a))"

lemma ipc_same_refl [simp]: "ipc_same s s"
  by (simp add: ipc_same_def)

lemma ipc_same_trans: "ipc_same s s1 \<Longrightarrow> ipc_same s1 s2 \<Longrightarrow> ipc_same s s2"
  by (simp add: ipc_same_def)

lemma ipc_sameD:
  assumes "ipc_same s s'"
  shows "k_sem s' = k_sem s" "k_mutex s' = k_mutex s" "k_event s' = k_event s" "k_mb s' = k_mb s" "k_mq s' = k_mq s"
    "k_taken s' = k_taken s" "rt_scheduler_lock_nest s' = rt_scheduler_lock_nest s"
    "rt_interrupt_nest s' = rt_interrupt_nest s" "rt_tick s' = rt_tick s"
    "is_class (Obj a) c s' = is_class (Obj a) c s" "k_obj s' (Obj a) = k_obj s (Obj a)"
  using assms by (simp_all add: ipc_same_def)

lemma ipc_same_sched: "sched_frame s s' \<Longrightarrow> ipc_same s s'"
  using sched_frame_fields [of s s'] by (simp add: ipc_same_def is_class_def)

lemma ipc_same_stop [simp]: "ipc_same s (stop_timer (ThreadTimer t) s)"
  by (simp add: ipc_same_def) (simp add: stop_timer_def split: option.split)

text \<open>The timers built into threads are hard one-shot timers that wake their thread.\<close>

definition thread_timers :: "kstate \<Rightarrow> bool" where
  "thread_timers s \<longleftrightarrow>
    (\<forall>t h. k_obj s (ThreadTimer t) = Some h \<longrightarrow> \<not> is_soft h \<and> \<not> periodic h) \<and>
    (\<forall>t tm. k_timer s (ThreadTimer t) = Some tm \<longrightarrow> tm_func tm = Thread_timeout \<and> tm_parameter tm = t)"

lemma thread_timers_cong: "k_obj s' = k_obj s \<Longrightarrow> k_timer s' = k_timer s \<Longrightarrow> thread_timers s' = thread_timers s"
  by (simp add: thread_timers_def)

lemma thread_timers_stop [simp]: "thread_timers s \<Longrightarrow> thread_timers (stop_timer t s)"
  by (auto simp: thread_timers_def stop_timer_def split: option.split)

text \<open>Only the timers of suspended threads are armed: the assertion of \<open>_thread_timeout\<close>.\<close>

definition armed_ok :: "kstate \<Rightarrow> bool" where
  "armed_ok s \<longleftrightarrow> (\<forall>t. ThreadTimer t \<in> set (k_timers s HardTimers) \<longrightarrow>
    (\<exists>th. k_thread s t = Some th \<and> suspended th))"

lemma armed_okI:
  assumes "armed_ok s"
    and "\<And>t. ThreadTimer t \<in> set (k_timers s' HardTimers) \<Longrightarrow> ThreadTimer t \<in> set (k_timers s HardTimers)"
    and "\<And>t th. ThreadTimer t \<in> set (k_timers s' HardTimers) \<Longrightarrow> k_thread s t = Some th \<Longrightarrow> suspended th \<Longrightarrow>
      \<exists>th'. k_thread s' t = Some th' \<and> suspended th'"
  shows "armed_ok s'"
  using assms unfolding armed_ok_def by blast

lemma armed_ok_sched: "armed_ok s \<Longrightarrow> sched_frame s s' \<Longrightarrow> armed_ok s'"
proof (erule armed_okI)
  assume f: "sched_frame s s'"
  show "ThreadTimer t \<in> set (k_timers s' HardTimers) \<Longrightarrow> ThreadTimer t \<in> set (k_timers s HardTimers)" for t
    using sched_frame_fields [OF f] by simp
  show "\<exists>th'. k_thread s' t = Some th' \<and> suspended th'" if "k_thread s t = Some th" "suspended th" for t th
    using sched_frame_quiet [OF f that(1)] suspended_no_ready [OF that(2)] that(2) by blast
qed

text \<open>A stopped timer is in no list.\<close>

lemma stop_timer_mem:
  assumes "timers_wf s" and "l = HardTimers \<or> l = SoftTimers"
  shows "x \<in> set (k_timers (stop_timer t s) l) \<longleftrightarrow> x \<noteq> t \<and> x \<in> set (k_timers s l)"
proof (cases "\<exists>h. k_obj s t = Some h \<and> activated h")
  case True
  then obtain h where "k_obj s t = Some h" "activated h" by auto
  moreover have "distinct (k_timers s l)" using assms(1) by (auto simp: timers_wf_def intro: separate_distinct)
  ultimately show ?thesis by (auto simp: stop_timer_def al_remove_def)
next
  case False
  then have "t \<notin> set (k_timers s l)" using timers_wf_activated [OF assms] by blast
  moreover have "stop_timer t s = s" using False by (auto simp: stop_timer_def split: option.split)
  ultimately show ?thesis by auto
qed

definition kwf :: "kstate \<Rightarrow> bool" where
  "kwf s \<longleftrightarrow> kinv s \<and> thread_timers s \<and> armed_ok s"

lemma kwfD: "kwf s \<Longrightarrow> kinv s" "kwf s \<Longrightarrow> thread_timers s" "kwf s \<Longrightarrow> armed_ok s"
  by (simp_all add: kwf_def)

text \<open>The invariant does not read the IPC objects.\<close>

lemma kwf_same_ipc:
  assumes "k_obj s' = k_obj s" "k_thread s' = k_thread s" "k_timer s' = k_timer s" "k_list s' = k_list s"
    "k_timers s' = k_timers s" "rt_thread_ready_priority_group s' = rt_thread_ready_priority_group s"
    "rt_current_thread s' = rt_current_thread s"
  shows "kwf s' = kwf s"
proof -
  have "kinv s' = kinv s"
    using inv_out_cong [of s' s "{}"] timers_wf_cong [of s' s] assms
    by (simp add: kinv_def sched_inv_def threads_wf_def stacks_ok_def is_class_def timer_live_def)
  then show ?thesis using assms by (simp add: kwf_def thread_timers_def armed_ok_def)
qed

lemma kwf_sched: "kwf s \<Longrightarrow> kinv s' \<Longrightarrow> sched_frame s s' \<Longrightarrow> kwf s'"
  using sched_frame_fields [of s s'] thread_timers_cong [of s' s] armed_ok_sched [of s s'] by (simp add: kwf_def)

text \<open>A new object that is not a thread timer.\<close>

lemma kwf_new_object:
  assumes kw: "kwf s" and n: "k_obj s (Obj a) = None" and e: "k_obj s' = (k_obj s)(Obj a \<mapsto> h)" "k_thread s' = k_thread s"
    "k_timer s' = k_timer s" "k_list s' = k_list s" "k_timers s' = k_timers s"
    "rt_thread_ready_priority_group s' = rt_thread_ready_priority_group s" "rt_current_thread s' = rt_current_thread s"
  shows "kwf s'"
proof -
  note k = kwfD(1) [OF kw]
  have live: "timer_live r s \<Longrightarrow> timer_live r s'" for r using n by (auto simp: timer_live_def e)
  have "timers_wf s'"
    unfolding timers_wf_def
  proof (intro conjI allI impI)
    show "separate (k_timers s')" using kinvD(4) [OF k] by (simp add: e timers_wf_def)
    show "timer_live t s'" if "t \<in> set (k_timers s' l)" for l t
      using timers_wf_live [OF kinvD(4) [OF k], of t l] live that by (simp add: e)
    show "\<exists>h. k_obj s' t = Some h \<and> activated h" if "l = HardTimers \<or> l = SoftTimers" "t \<in> set (k_timers s' l)" for l t
      using timers_wf_activated [OF kinvD(4) [OF k] that(1), of t] that(2) n by (auto simp: e)
  qed
  moreover have "is_class r c s'" if "is_class r c s" for r c using that n by (auto simp: is_class_def e)
  ultimately have "kinv s'" by (rule kinv_timer_change [OF k e(2,4,6,7) _ live, rotated 2])
  moreover have "thread_timers s'" using kwfD(2) [OF kw] by (simp add: thread_timers_def e)
  moreover have "armed_ok s'" using kwfD(3) [OF kw] by (simp add: armed_ok_def e)
  ultimately show ?thesis by (simp add: kwf_def)
qed

section \<open>Starting a timer\<close>

text \<open>The timer a start works on: its new data, and its header while it is off the lists.\<close>

definition restarted :: "oref \<Rightarrow> rt_object \<Rightarrow> rt_timer \<Rightarrow> oref list \<Rightarrow> kstate \<Rightarrow> kstate" where
  "restarted t h tm l s = s\<lparr>
    k_timers := (al_remove t (k_timers s))(HardTimers := l),
    k_obj := (k_obj s)(t \<mapsto> activate (deactivate h)),
    k_timer := (k_timer s)(t \<mapsto> tm\<lparr>tm_timeout_tick := rt_tick s + tm_init_tick tm\<rparr>)\<rparr>"

lemma restarted_simps [simp]:
  "k_thread (restarted t h tm l s) = k_thread s" "k_list (restarted t h tm l s) = k_list s"
  "rt_thread_ready_priority_group (restarted t h tm l s) = rt_thread_ready_priority_group s"
  "rt_current_thread (restarted t h tm l s) = rt_current_thread s"
  "k_timers (restarted t h tm l s) HardTimers = l" "rt_tick (restarted t h tm l s) = rt_tick s"
  "k_mutex (restarted t h tm l s) = k_mutex s" "k_sem (restarted t h tm l s) = k_sem s"
  "rt_scheduler_lock_nest (restarted t h tm l s) = rt_scheduler_lock_nest s"
  by (simp_all add: restarted_def)

lemma start_hard:
  assumes k: "kinv s" and h: "k_obj s t = Some h" "obj_type h AND NOT RT_Object_Class_Static = RT_Object_Class_Timer"
    and hard: "\<not> is_soft h" and tm: "k_timer s t = Some tm"
  shows "\<exists>l. timer_insert ((k_timer s)(t \<mapsto> tm\<lparr>tm_timeout_tick := rt_tick s + tm_init_tick tm\<rparr>))
        (rt_tick s + tm_init_tick tm) t (remove1 t (k_timers s HardTimers)) = Some l \<and>
    rt_timer_start t s = Some (RT_EOK, restarted t h tm l s) \<and> kinv (restarted t h tm l s)"
proof -
  note wf = kinvD(4) [OF k]
  let ?tm = "tm\<lparr>tm_timeout_tick := rt_tick s + tm_init_tick tm\<rparr>" and ?l0 = "remove1 t (k_timers s HardTimers)"
  let ?s1 = "timer_remove t s"
  have sep: "separate (k_timers s)" using wf by (simp add: timers_wf_def)
  note w1 = timers_wf_leave [OF wf, of ?s1 t]
  have w: "timers_wf ?s1" "unlinked (k_timers ?s1) t" by (rule w1; simp)+
  have live: "((k_timer s)(t \<mapsto> ?tm)) p \<noteq> None" if "p \<in> set ?l0" for p
  proof -
    have "p \<in> set (k_timers s HardTimers)" using that by (rule set_remove1_subset [THEN subsetD])
    with wf have "timer_live p s" by (auto simp: timers_wf_def)
    then show ?thesis by (auto simp: timer_live_def)
  qed
  have "\<exists>l. timer_insert ((k_timer s)(t \<mapsto> ?tm)) (rt_tick s + tm_init_tick tm) t ?l0 = Some l"
    by (rule timer_insert_total) (rule live)
  then obtain l where
    l: "timer_insert ((k_timer s)(t \<mapsto> ?tm)) (rt_tick s + tm_init_tick tm) t ?l0 = Some l" by auto
  have soft: "\<not> is_soft (deactivate h)" using hard by simp
  have "rt_timer_start t s = Some (RT_EOK, restarted t h tm l s)"
    using h tm l soft
    by (simp add: rt_timer_start_def assert_type_def rt_object_get_type_def Let_def restarted_def timer_remove_def
        al_remove_def)
  moreover have "kinv (restarted t h tm l s)"
  proof (rule kinv_timer_change [OF k])
    show "is_class r c s \<Longrightarrow> is_class r c (restarted t h tm l s)" for r c
      using h by (auto simp: is_class_def restarted_def)
    show "timer_live r s \<Longrightarrow> timer_live r (restarted t h tm l s)" for r
      using h by (auto simp: timer_live_def restarted_def)
    have d0: "distinct ?l0" "t \<notin> set ?l0" using separate_distinct [OF sep, of HardTimers] by auto
    have sl: "set l = insert t (set ?l0)" "distinct l" using timer_insert_set [OF l] d0 by auto
    show "timers_wf (restarted t h tm l s)"
      by (rule timers_wf_enter [OF w, where l = HardTimers and xs = l and h = "activate (deactivate h)" and tm = ?tm])
        (use sl h in \<open>simp_all add: restarted_def timer_remove_def al_remove_def\<close>)
  qed simp_all
  ultimately show ?thesis using l by blast
qed

text \<open>The order of the hard timer list, seen from tick \<open>b\<close>.\<close>

definition deadline :: "u32 \<Rightarrow> kstate \<Rightarrow> oref \<Rightarrow> nat" where
  "deadline b s t = after_base b (timeout_of (k_timer s) t)"

definition timers_sorted :: "u32 \<Rightarrow> kstate \<Rightarrow> bool" where
  "timers_sorted b s \<longleftrightarrow> sorted (map (deadline b s) (k_timers s HardTimers)) \<and>
    list_all (\<lambda>t. in_window b (timeout_of (k_timer s) t)) (k_timers s HardTimers)"

text \<open>C22. Starting a hard timer returns, keeps the kernel well-formed, sets the timeout to the
  current tick plus the timer's period, modulo the tick range, and links the timer behind every
  timer that expires at the same time or earlier and before every later one: the list stays
  sorted although the ticks wrap around.\<close>

theorem rt_timer_start_sorted:
  assumes k: "kinv s" and h: "k_obj s t = Some h" "obj_type h AND NOT RT_Object_Class_Static = RT_Object_Class_Timer"
    and hard: "\<not> is_soft h" and tm: "k_timer s t = Some tm"
    and srt: "timers_sorted b s" and win: "in_window b (rt_tick s + tm_init_tick tm)"
  shows "\<exists>s' xs ys. rt_timer_start t s = Some (RT_EOK, s') \<and> kinv s' \<and> timers_sorted b s' \<and>
    timeout_of (k_timer s') t = rt_tick s + tm_init_tick tm \<and>
    k_timers s' HardTimers = xs @ t # ys \<and> xs @ ys = remove1 t (k_timers s HardTimers) \<and>
    list_all (\<lambda>p. deadline b s' p \<le> deadline b s' t) xs \<and> list_all (\<lambda>p. deadline b s' t < deadline b s' p) ys"
proof -
  let ?to = "rt_tick s + tm_init_tick tm" and ?l0 = "remove1 t (k_timers s HardTimers)"
  let ?tms = "(k_timer s)(t \<mapsto> tm\<lparr>tm_timeout_tick := ?to\<rparr>)"
  from start_hard [OF k h hard tm] obtain l where l: "timer_insert ?tms ?to t ?l0 = Some l"
    and st: "rt_timer_start t s = Some (RT_EOK, restarted t h tm l s)" and k': "kinv (restarted t h tm l s)" by blast
  define s' where "s' = restarted t h tm l s"
  have tms: "k_timer s' = ?tms" and hl: "k_timers s' HardTimers = l" by (simp_all add: s'_def restarted_def)
  note st = st [folded s'_def] and k' = k' [folded s'_def]
  have tot: "timeout_of ?tms t = ?to" by (simp add: timeout_of_def)
  have "distinct (k_timers s HardTimers)"
    using kinvD(4) [OF k] by (auto simp: timers_wf_def intro: separate_distinct)
  then have nt: "p \<noteq> t \<and> p \<in> set (k_timers s HardTimers)" if "p \<in> set ?l0" for p using that by auto
  have same: "timeout_of ?tms p = timeout_of (k_timer s) p" if "p \<in> set ?l0" for p
    using nt [OF that] by (simp add: timeout_of_def)
  have w0: "in_window b (timeout_of ?tms p)" if "p \<in> set ?l0" for p
    using nt [OF that] srt same [OF that] by (simp add: timers_sorted_def list_all_iff)
  have live: "?tms p \<noteq> None" if "p \<in> set ?l0" for p
    using nt [OF that] kinvD(4) [OF k] by (auto simp: timers_wf_def timer_live_def)
  have "timer_insert ?tms (timeout_of ?tms t) t ?l0 = Some (prio_insert (deadline b s') t ?l0)"
    unfolding deadline_def tms by (rule timer_insert_prio) (use live w0 win tot in auto)
  then have lp: "k_timers s' HardTimers = prio_insert (deadline b s') t ?l0" using l tot hl by simp
  have "map (deadline b s') ?l0 = map (deadline b s) ?l0"
    using same by (intro map_cong) (simp_all add: deadline_def tms)
  moreover have "sorted (map (deadline b s) ?l0)"
    using srt by (simp add: timers_sorted_def sorted_map_remove1)
  ultimately have s0: "sorted (map (deadline b s') ?l0)" by (simp only:)
  let ?xs = "takeWhile (\<lambda>p. deadline b s' p \<le> deadline b s' t) ?l0"
  let ?ys = "dropWhile (\<lambda>p. deadline b s' p \<le> deadline b s' t) ?l0"
  have "timers_sorted b s'"
    using sorted_prio_insert [OF s0, of t] w0 win tot
    by (auto simp: timers_sorted_def tms list_all_iff set_prio_insert lp)
  moreover have "list_all (\<lambda>p. deadline b s' p \<le> deadline b s' t) ?xs"
    by (auto simp: list_all_iff dest: set_takeWhileD)
  moreover have "list_all (\<lambda>p. deadline b s' t < deadline b s' p) ?ys"
    using dropWhile_sorted_greater [OF s0] by (auto simp: list_all_iff)
  ultimately show ?thesis
    by (intro exI [of _ s'] exI [of _ ?xs] exI [of _ ?ys] conjI)
      (use st k' tot in \<open>simp_all add: tms lp prio_insert_def\<close>)
qed

text \<open>
  A concrete kernel around the wrap of the tick: threads 11 and 12 wait, their timers expire
  at ticks \<open>0xfffffffe\<close> and 1, and the tick is 3.
\<close>

definition ex_timed :: kstate where
  "ex_timed = ex_state\<lparr>
    k_thread := [10 \<mapsto> ex_thread 3 5, 11 \<mapsto> ex_thread 4 5, 12 \<mapsto> ex_thread 4 5],
    k_list := (\<lambda>_. [])(SuspendQ 20 := [11, 12]),
    rt_thread_ready_priority_group := 0,
    k_obj := (k_obj ex_state)(ThreadTimer 11 \<mapsto> activate (ex_header 10), ThreadTimer 12 \<mapsto> activate (ex_header 10)),
    k_timer := [ThreadTimer 10 \<mapsto> (ex_timer 10)\<lparr>tm_init_tick := 7\<rparr>,
      ThreadTimer 11 \<mapsto> (ex_timer 11)\<lparr>tm_timeout_tick := 0xfffffffe\<rparr>,
      ThreadTimer 12 \<mapsto> (ex_timer 12)\<lparr>tm_timeout_tick := 1\<rparr>],
    k_timers := (\<lambda>_. [])(HardTimers := [ThreadTimer 11, ThreadTimer 12]),
    rt_tick := 3\<rparr>"

lemma ex_timed_simps [simp]:
  "k_thread ex_timed = [10 \<mapsto> ex_thread 3 5, 11 \<mapsto> ex_thread 4 5, 12 \<mapsto> ex_thread 4 5]"
  "k_list ex_timed = (\<lambda>_. [])(SuspendQ 20 := [11, 12])"
  "k_timers ex_timed = (\<lambda>_. [])(HardTimers := [ThreadTimer 11, ThreadTimer 12])"
  "k_timer ex_timed = [ThreadTimer 10 \<mapsto> (ex_timer 10)\<lparr>tm_init_tick := 7\<rparr>,
      ThreadTimer 11 \<mapsto> (ex_timer 11)\<lparr>tm_timeout_tick := 0xfffffffe\<rparr>,
      ThreadTimer 12 \<mapsto> (ex_timer 12)\<lparr>tm_timeout_tick := 1\<rparr>]"
  "rt_tick ex_timed = 3" "rt_current_thread ex_timed = Some 10" "rt_thread_ready_priority_group ex_timed = 0"
  "k_obj ex_timed (ThreadTimer 10) = Some (ex_header 10)"
  "k_obj ex_timed (ThreadTimer 11) = Some (activate (ex_header 10))"
  "k_obj ex_timed (ThreadTimer 12) = Some (activate (ex_header 10))"
  "k_obj ex_timed (Obj 10) = Some (ex_header 1)" "k_obj ex_timed (Obj 11) = Some (ex_header 1)"
  "k_obj ex_timed (Obj 12) = Some (ex_header 1)"
  by (simp_all add: ex_timed_def ex_state_def)

lemma ex_timed_kinv: "kinv ex_timed"
proof -
  have "inv_out {} ex_timed"
  proof (rule inv_outI)
    show "separate (k_list ex_timed)" by (auto simp: separate_def)
    show "\<exists>th. k_thread ex_timed t = Some th \<and> queue_state l th" if "t \<in> set (k_list ex_timed l)" for l t
      using that by (auto simp: queue_state_def ex_thread_def suspended_def split: if_splits)
    show "prio_ok h" if "k_thread ex_timed t = Some h" for t h
      using that by (auto simp: prio_ok_def ex_thread_def prio_def prio_bit_def split: if_splits)
    show "state_ok ex_timed t h" if "k_thread ex_timed t = Some h" "t \<notin> {}" for t h
      using that by (auto simp: state_ok_def ex_thread_def prio_def prio_bit_def state_of_def split: if_splits)
    show "bit (rt_thread_ready_priority_group ex_timed) p \<longleftrightarrow> k_list ex_timed (ReadyQ p) \<noteq> []" for p by simp
    show "\<exists>h. k_thread ex_timed c = Some h" if "rt_current_thread ex_timed = Some c" for c using that by simp
  qed
  moreover have "threads_wf ex_timed"
    by (auto simp: threads_wf_def is_class_def timer_live_def ex_header_def split: if_splits)
  moreover have "stacks_ok ex_timed"
    by (auto simp: stacks_ok_def ex_thread_def stack_ok_def split: if_splits)
  moreover have "timers_wf ex_timed"
    by (auto simp: timers_wf_def separate_def timer_live_def ex_header_def split: if_splits)
  ultimately show ?thesis by (simp add: kinv_def sched_inv_def)
qed

lemma rt_timer_start_sorted_witness:
  "\<exists>s' xs ys. rt_timer_start (ThreadTimer 10) ex_timed = Some (RT_EOK, s') \<and> kinv s' \<and>
    timers_sorted 0xfffffff0 s' \<and> timeout_of (k_timer s') (ThreadTimer 10) = 10 \<and>
    k_timers s' HardTimers = xs @ ThreadTimer 10 # ys \<and> xs @ ys = [ThreadTimer 11, ThreadTimer 12]"
proof -
  have "timers_sorted 0xfffffff0 ex_timed" "in_window 0xfffffff0 (3 + 7)"
    by (simp_all add: timers_sorted_def deadline_def after_base_def timeout_of_def in_window_def half_tick_def)
  with rt_timer_start_sorted [OF ex_timed_kinv, of "ThreadTimer 10" "ex_header 10"
      "(ex_timer 10)\<lparr>tm_init_tick := 7\<rparr>" "0xfffffff0"]
  show ?thesis by (auto simp: ex_header_def is_soft_def ex_timer_def)
qed

section \<open>Waking the threads whose time is up\<close>

text \<open>A thread timer whose time has come; what its thread is after the check.\<close>

definition due :: "kstate \<Rightarrow> addr \<Rightarrow> bool" where
  "due s p \<longleftrightarrow> rt_tick s - timeout_of (k_timer s) (ThreadTimer p) < half_tick"

definition timed_out :: "kstate \<Rightarrow> addr \<Rightarrow> bool" where
  "timed_out s p \<longleftrightarrow> (\<exists>th. k_thread s p = Some th \<and> runnable th \<and> th_error th = - RT_ETIMEOUT)"

text \<open>The state between \<open>before_fire\<close> and the call of the function.\<close>

definition firing :: "timer_head \<Rightarrow> oref \<Rightarrow> rt_object \<Rightarrow> kstate \<Rightarrow> kstate" where
  "firing c t h s = s\<lparr>k_obj := (k_obj s)(t \<mapsto> deactivate h),
    k_timers := al_head c t (al_remove t (k_timers s))\<rparr>"

lemma firing_simps [simp]:
  "k_thread (firing c t h s) = k_thread s" "k_list (firing c t h s) = k_list s"
  "k_timer (firing c t h s) = k_timer s" "rt_tick (firing c t h s) = rt_tick s"
  "rt_thread_ready_priority_group (firing c t h s) = rt_thread_ready_priority_group s"
  "rt_current_thread (firing c t h s) = rt_current_thread s"
  by (simp_all add: firing_def)

lemma firing_kinv:
  assumes k: "kinv s" and h: "k_obj s t = Some h" and tl: "timer_live t s"
  shows "kinv (firing HardCheck t h s)"
proof (rule kinv_timer_change [OF k])
  have ty: "obj_type h AND NOT RT_Object_Class_Static = RT_Object_Class_Timer" using tl h by (simp add: timer_live_def)
  show "is_class r c s \<Longrightarrow> is_class r c (firing HardCheck t h s)" for r c
    using h by (auto simp: is_class_def firing_def)
  show "timer_live r s \<Longrightarrow> timer_live r (firing HardCheck t h s)" for r
    using h by (auto simp: timer_live_def firing_def)
  obtain tm where tm: "k_timer s t = Some tm" using tl by (auto simp: timer_live_def)
  have sep: "separate (k_timers s)" using kinvD(4) [OF k] by (simp add: timers_wf_def)
  note w = timers_wf_leave [OF kinvD(4) [OF k], of "timer_remove t s" t]
  have w: "timers_wf (timer_remove t s)" "unlinked (k_timers (timer_remove t s)) t" by (rule w; simp)+
  show "timers_wf (firing HardCheck t h s)"
    by (rule timers_wf_enter [OF w, where l = HardCheck and xs = "t # remove1 t (k_timers s HardCheck)"
          and h = "deactivate h" and tm = tm])
      (use ty tm separate_distinct [OF sep, of HardCheck] in
        \<open>auto simp: firing_def al_head_def al_remove_def timer_remove_def\<close>)
qed simp_all

lemma timer_remove_kinv: "kinv s \<Longrightarrow> kinv (timer_remove t s)"
proof (rule kinv_timer_change)
  assume k: "kinv s"
  show "timers_wf (timer_remove t s)" by (rule timers_wf_leave [OF kinvD(4) [OF k]]) simp_all
  show "is_class r c s \<Longrightarrow> is_class r c (timer_remove t s)" "timer_live r s \<Longrightarrow> timer_live r (timer_remove t s)" for r c
    by (simp_all add: is_class_def timer_live_def)
qed (simp_all add: timer_remove_def)

text \<open>One round of the loop: thread \<open>p\<close> is woken, and leaves the queue it waits in.\<close>

definition fired :: "addr \<Rightarrow> kstate \<Rightarrow> kstate \<Rightarrow> bool" where
  "fired p s s' \<longleftrightarrow> ipc_same s s' \<and> k_timer s' = k_timer s \<and> timed_out s' p \<and>
    (\<forall>l. (\<forall>q. l \<noteq> ReadyQ q) \<longrightarrow> k_list s' l = remove1 p (k_list s l)) \<and>
    (\<forall>q th. q \<noteq> p \<longrightarrow> k_thread s q = Some th \<longrightarrow> (if runnable th
      then \<exists>th'. k_thread s' q = Some th' \<and> runnable th' \<and> th_error th' = th_error th
      else k_thread s' q = Some th))"

lemma fired_timed_out: "fired p s s' \<Longrightarrow> timed_out s q \<Longrightarrow> timed_out s' q"
proof (cases "q = p")
  case True
  then show "fired p s s' \<Longrightarrow> timed_out s' q" by (simp add: fired_def)
next
  case False
  assume f: "fired p s s'" and q: "timed_out s q"
  from q obtain th where th: "k_thread s q = Some th" "runnable th" "th_error th = - 2" by (auto simp: timed_out_def)
  from f False th(1) have "if runnable th
      then \<exists>th'. k_thread s' q = Some th' \<and> runnable th' \<and> th_error th' = th_error th
      else k_thread s' q = Some th" unfolding fired_def by blast
  with th show "timed_out s' q" by (auto simp: timed_out_def)
qed

lemma fire_step:
  assumes kw: "kwf s" and cur: "rt_current_thread s \<noteq> None" and hc: "k_timers s HardCheck = []"
    and l: "k_timers s HardTimers = ThreadTimer p # rest" and du: "due s p"
  shows "\<exists>s1 s2 s3 tm. k_timer s (ThreadTimer p) = Some tm \<and> rt_tick s - tm_timeout_tick tm < half_tick \<and>
    before_fire HardCheck (ThreadTimer p) s = Some s1 \<and> call_timeout user tm s1 = Some s2 \<and>
    after_fire HardCheck (ThreadTimer p) s2 = Some s3 \<and> rt_tick s2 = rt_tick s \<and>
    kwf s3 \<and> rt_current_thread s3 \<noteq> None \<and> k_timers s3 HardCheck = [] \<and> k_timers s3 HardTimers = rest \<and> fired p s s3"
proof -
  let ?t = "ThreadTimer p"
  note k = kwfD(1) [OF kw] and tt = kwfD(2) [OF kw] and ao = kwfD(3) [OF kw]
  have tl: "timer_live ?t s" by (rule timers_wf_live [OF kinvD(4) [OF k], of _ HardTimers]) (simp add: l)
  then obtain h tm where h: "k_obj s ?t = Some h" and tm: "k_timer s ?t = Some tm" by (auto simp: timer_live_def)
  have np: "\<not> periodic h" and tf: "tm_func tm = Thread_timeout" "tm_parameter tm = p"
    using tt h tm by (simp_all add: thread_timers_def)
  have lt: "rt_tick s - tm_timeout_tick tm < half_tick" using du tm by (simp add: due_def timeout_of_def)
  obtain th where th: "k_thread s p = Some th" "suspended th" using ao l by (auto simp: armed_ok_def)
  have sep: "separate (k_timers s)" using kinvD(4) [OF k] by (simp add: timers_wf_def)
  have nr: "?t \<notin> set rest" using separate_distinct [OF sep, of HardTimers] l by simp
  let ?s1 = "firing HardCheck ?t h s"
  have b: "before_fire HardCheck ?t s = Some ?s1"
    using h np by (simp add: before_fire_def Let_def firing_def timer_remove_def)
  have k1: "kinv ?s1" by (rule firing_kinv [OF k h tl])
  have q1: "k_timers ?s1 HardTimers = rest" "k_timers ?s1 HardCheck = [?t]"
    using l hc by (simp_all add: firing_def al_head_def al_remove_def)
  let ?h = "th\<lparr>th_error := - RT_ETIMEOUT\<rparr>"
  have th1: "k_thread ?s1 p = Some th" and c1: "rt_current_thread ?s1 \<noteq> None" using th cur by simp_all
  let ?w = "wake p ?h (?s1\<lparr>k_thread := (k_thread ?s1)(p \<mapsto> ?h)\<rparr>)"
  from thread_timeout_spec [OF k1 th1 th(2) c1] obtain s2 where s2: "thread_timeout p ?s1 = Some s2" "kinv s2"
    "sched_frame ?w s2" "rt_current_thread s2 \<noteq> None" by blast
  note f = sched_frame_fields [OF s2(3)]
  have q2: "k_timers s2 = k_timers ?s1" "k_timer s2 = k_timer s" "rt_tick s2 = rt_tick s" using f by simp_all
  have o2: "k_obj s2 = (k_obj s)(?t \<mapsto> deactivate h)" using f by (simp add: firing_def)
  let ?s3 = "timer_remove ?t s2"
  have a: "after_fire HardCheck ?t s2 = Some ?s3"
    using np q1 q2 o2 by (simp add: after_fire_def Let_def)
  have q3: "k_timers ?s3 HardTimers = rest" "k_timers ?s3 HardCheck = []"
    using q1 q2 nr by (simp_all add: al_remove_def remove1_idem)
  have w: "k_thread ?w = (k_thread s)(p \<mapsto> set_state (if rt_current_thread s = Some p then 3 else 2) ?h)"
    by (simp add: wake_thread)
  define h2 where "h2 = set_state (if rt_current_thread s = Some p then 3 else 2) ?h"
  have wp: "k_thread ?w p = Some h2" using w by (simp add: h2_def)
  have h2: "runnable h2" "th_error h2 = - RT_ETIMEOUT" by (simp_all add: h2_def)
  from sched_frame_runnable [OF s2(3) wp h2(1)] obtain h3 where h3: "k_thread s2 p = Some h3" "runnable h3" by blast
  from sched_frame_thread [OF s2(3) wp] h3 h2 have to: "timed_out ?s3 p" by (auto simp: timed_out_def)
  have oth: "if runnable hq then \<exists>th'. k_thread s2 q = Some th' \<and> runnable th' \<and> th_error th' = th_error hq
      else k_thread s2 q = Some hq" if "q \<noteq> p" "k_thread s q = Some hq" for q hq
  proof -
    have wq: "k_thread ?w q = Some hq" using that w by simp
    show ?thesis
    proof (cases "runnable hq")
      case True
      from sched_frame_runnable [OF s2(3) wq True] sched_frame_thread [OF s2(3) wq] True show ?thesis by auto
    next
      case False
      with sched_frame_quiet [OF s2(3) wq] show ?thesis by (simp add: runnable_def)
    qed
  qed
  have ls: "k_list s2 m = remove1 p (k_list s m)" if "\<forall>q. m \<noteq> ReadyQ q" for m
    using sched_frame_queue [OF s2(3), of m] that by (simp add: wake_queue)
  have same: "ipc_same s ?s3"
    using f by (simp add: ipc_same_def is_class_def firing_def timer_remove_def)
  have "fired p s ?s3"
    unfolding fired_def using same q2 to ls oth by simp
  moreover have "kwf ?s3"
    unfolding kwf_def
  proof (intro conjI)
    show "kinv ?s3" by (rule timer_remove_kinv [OF s2(2)])
    show "thread_timers ?s3" using tt h o2 q2 by (simp add: thread_timers_def)
    show "armed_ok ?s3"
    proof (rule armed_okI [OF ao])
      show "ThreadTimer q \<in> set (k_timers ?s3 HardTimers) \<Longrightarrow> ThreadTimer q \<in> set (k_timers s HardTimers)" for q
        using q3 l by simp
      fix q hq assume m: "ThreadTimer q \<in> set (k_timers ?s3 HardTimers)" and hq: "k_thread s q = Some hq" "suspended hq"
      have "q \<noteq> p" using m nr q3 by auto
      with oth [OF this hq(1)] suspended_no_ready [OF hq(2)] hq(2)
      show "\<exists>th'. k_thread ?s3 q = Some th' \<and> suspended th'" by (auto simp: runnable_def)
    qed
  qed
  moreover have "call_timeout user tm ?s1 = Some s2" using tf s2(1) by (simp add: call_timeout_def)
  moreover have "rt_current_thread ?s3 \<noteq> None" using s2(4) by simp
  ultimately show ?thesis using tm lt b a q2(3) q3 by blast
qed

text \<open>The list behind the expired thread timers is empty or starts with a timer not yet due.\<close>

definition not_due :: "kstate \<Rightarrow> oref list \<Rightarrow> bool" where
  "not_due s ts \<longleftrightarrow> (case ts of [] \<Rightarrow> True
    | t # _ \<Rightarrow> (\<exists>tm. k_timer s t = Some tm \<and> half_tick \<le> rt_tick s - tm_timeout_tick tm))"

text \<open>What the rounds together do to the waiting queues and the IPC objects.\<close>

definition checked :: "addr list \<Rightarrow> kstate \<Rightarrow> kstate \<Rightarrow> bool" where
  "checked ps s s' \<longleftrightarrow> ipc_same s s' \<and> list_all (timed_out s') ps \<and>
    (\<forall>l. (\<forall>q. l \<noteq> ReadyQ q) \<longrightarrow> k_list s' l = filter (\<lambda>t. t \<notin> set ps) (k_list s l)) \<and>
    (\<forall>q. timed_out s q \<longrightarrow> timed_out s' q) \<and>
    (\<forall>q th. q \<notin> set ps \<longrightarrow> k_thread s q = Some th \<longrightarrow> \<not> runnable th \<longrightarrow> k_thread s' q = Some th)"

lemma checkedD:
  assumes "checked ps s s'"
  shows "ipc_same s s'" "list_all (timed_out s') ps"
    "(\<And>q. l \<noteq> ReadyQ q) \<Longrightarrow> k_list s' l = filter (\<lambda>t. t \<notin> set ps) (k_list s l)"
    "timed_out s q \<Longrightarrow> timed_out s' q"
    "q \<notin> set ps \<Longrightarrow> k_thread s q = Some th \<Longrightarrow> \<not> runnable th \<Longrightarrow> k_thread s' q = Some th"
  using assms unfolding checked_def by blast+

lemma checked_Cons:
  assumes sep: "separate (k_list s)" and f: "fired p s s1" and c: "checked ps s1 s'"
  shows "checked (p # ps) s s'"
  unfolding checked_def
proof (intro conjI allI impI)
  show "ipc_same s s'" using f checkedD(1) [OF c] ipc_same_trans by (auto simp: fired_def)
  have "timed_out s1 p" using f by (simp add: fired_def)
  then show "list_all (timed_out s') (p # ps)" using checkedD(2,4) [OF c] by simp
  show "timed_out s' q" if "timed_out s q" for q by (rule checkedD(4) [OF c fired_timed_out [OF f that]])
  show "k_list s' m = filter (\<lambda>t. t \<notin> set (p # ps)) (k_list s m)" if m: "\<forall>q. m \<noteq> ReadyQ q" for m
  proof -
    have "k_list s1 m = filter (\<lambda>t. t \<noteq> p) (k_list s m)"
      using m f remove1_eq_filter [OF separate_distinct [OF sep, of m], of p] by (simp add: fired_def)
    with checkedD(3) [OF c, of m] m show ?thesis by (simp add: conj_commute)
  qed
  show "k_thread s' q = Some th" if q: "q \<notin> set (p # ps)" and th: "k_thread s q = Some th" "\<not> runnable th" for q th
  proof (rule checkedD(5) [OF c _ _ th(2)])
    show "q \<notin> set ps" using q by simp
    have "q \<noteq> p" using q by simp
    with f th show "k_thread s1 q = Some th" unfolding fired_def by presburger
  qed
qed

lemma check_loop:
  assumes "kwf s" and "rt_current_thread s \<noteq> None" and "k_timers s HardCheck = []"
    and "k_timers s HardTimers = map ThreadTimer ps @ ts" and "list_all (due s) ps" and "not_due s ts"
  shows "\<exists>s'. timer_check_loop user (rt_tick s) s = Some s' \<and> kwf s' \<and> rt_current_thread s' \<noteq> None \<and>
    k_timers s' HardTimers = ts \<and> checked ps s s'"
  using assms
proof (induction ps arbitrary: s)
  case Nil
  have c: "checked [] s s" by (simp add: checked_def)
  show ?case
  proof (cases ts)
    case Nil
    then have "timer_check_loop user (rt_tick s) s = Some s" using Nil.prems by (simp add: timer_check_loop.simps)
    with Nil.prems Nil c show ?thesis by simp
  next
    case (Cons t ts')
    then obtain tm where "k_timer s t = Some tm" "half_tick \<le> rt_tick s - tm_timeout_tick tm"
      using Nil.prems(6) by (auto simp: not_due_def)
    then have "timer_check_loop user (rt_tick s) s = Some s"
      using Nil.prems Cons by (simp add: timer_check_loop.simps leD)
    with Nil.prems Cons c show ?thesis by simp
  qed
next
  case (Cons p ps)
  have l: "k_timers s HardTimers = ThreadTimer p # (map ThreadTimer ps @ ts)" using Cons.prems(4) by simp
  have du: "due s p" using Cons.prems(5) by simp
  from fire_step [OF Cons.prems(1,2,3) l du, of user] obtain s1 s2 s3 tm where
    st: "k_timer s (ThreadTimer p) = Some tm" "rt_tick s - tm_timeout_tick tm < half_tick"
      "before_fire HardCheck (ThreadTimer p) s = Some s1" "call_timeout user tm s1 = Some s2"
      "after_fire HardCheck (ThreadTimer p) s2 = Some s3" "rt_tick s2 = rt_tick s"
    and r: "kwf s3" "rt_current_thread s3 \<noteq> None" "k_timers s3 HardCheck = []"
      "k_timers s3 HardTimers = map ThreadTimer ps @ ts"
    and fi: "fired p s s3" by auto
  have t3: "rt_tick s3 = rt_tick s" "k_timer s3 = k_timer s" using fi by (simp_all add: fired_def ipc_same_def)
  have "list_all (due s3) ps" using Cons.prems(5) t3 by (simp add: list_all_iff due_def)
  moreover have "not_due s3 ts" using Cons.prems(6) t3 by (cases ts) (simp_all add: not_due_def)
  ultimately obtain s' where s': "timer_check_loop user (rt_tick s3) s3 = Some s'" "kwf s'" "rt_current_thread s' \<noteq> None"
    "k_timers s' HardTimers = ts" "checked ps s3 s'"
    using Cons.IH [OF r] by auto
  have "timer_check_loop user (rt_tick s) s = Some s'"
    using l st s'(1) t3 by (subst timer_check_loop.simps) simp
  moreover have "checked (p # ps) s s'"
    by (rule checked_Cons [OF inv_outD(1) [OF kinvD(5) [OF kwfD(1) [OF Cons.prems(1)], of "{}"]] fi s'(5)])
  ultimately show ?case using s' by auto
qed

lemma timer_check_checked:
  assumes "kwf s" and "rt_current_thread s \<noteq> None" and "k_timers s HardCheck = []"
    and "k_timers s HardTimers = map ThreadTimer ps @ ts" and "list_all (due s) ps" and "not_due s ts"
  shows "\<exists>s'. rt_timer_check user s = Some s' \<and> kwf s' \<and> rt_current_thread s' \<noteq> None \<and>
    k_timers s' HardTimers = ts \<and> checked ps s s'"
proof -
  have e: "s\<lparr>k_timers := (k_timers s)(HardCheck := [])\<rparr> = s" using assms(3) by (simp add: fun_upd_idem)
  from check_loop [OF assms, of user] show ?thesis by (simp add: rt_timer_check_def e)
qed

text \<open>C23. The tick interrupt's \<open>rt_timer_check\<close>: when the hard timer list starts with the
  expired timers of the threads \<open>ps\<close> and continues with timers not due, the loop ends without
  an assertion failing, takes exactly these timers off the list, and each of the threads is
  ready or running afterwards with the error code \<open>-RT_ETIMEOUT\<close>, whatever the callbacks
  of the application are.\<close>

theorem rt_timer_check_wakes:
  assumes "kwf s" and "rt_current_thread s \<noteq> None" and "k_timers s HardCheck = []"
    and "k_timers s HardTimers = map ThreadTimer ps @ ts" and "list_all (due s) ps" and "not_due s ts"
  shows "\<exists>s'. rt_timer_check user s = Some s' \<and> kwf s' \<and> k_timers s' HardTimers = ts \<and>
    list_all (timed_out s') ps \<and> ipc_same s s'"
  using timer_check_checked [OF assms, of user] by (auto simp: checked_def)

lemma ex_timed_kwf: "kwf ex_timed"
proof -
  have "thread_timers ex_timed"
    unfolding thread_timers_def
  proof (intro conjI allI impI)
    fix t h assume "k_obj ex_timed (ThreadTimer t) = Some h"
    then have "h = ex_header 10 \<or> h = activate (ex_header 10)"
      by (auto simp: ex_timed_def ex_state_def split: if_splits)
    then show "\<not> is_soft h" "\<not> periodic h" by (auto simp: is_soft_def periodic_def activate_def ex_header_def)
  qed (auto simp: ex_timer_def split: if_splits)
  moreover have "armed_ok ex_timed" by (simp add: armed_ok_def suspended_def ex_thread_def)
  ultimately show ?thesis using ex_timed_kinv by (simp add: kwf_def)
qed

lemma rt_timer_check_wakes_witness:
  "\<exists>s'. rt_timer_check (\<lambda>_ _ _. None) ex_timed = Some s' \<and> kwf s' \<and> k_timers s' HardTimers = [] \<and>
    timed_out s' 11 \<and> timed_out s' 12"
proof -
  have "list_all (due ex_timed) [11, 12]" "not_due ex_timed []"
    by (simp_all add: due_def timeout_of_def not_due_def half_tick_def)
  with rt_timer_check_wakes [OF ex_timed_kwf, of "[11, 12]" "[]" "\<lambda>_ _ _. None"] show ?thesis by auto
qed

end
