(* ===== verification/IpcBase.thy ===== *)
theory IpcBase
  imports TimerProps
begin

text \<open>
  The part of \<open>rt-thread/src/ipc.c\<close> every IPC object is built on: the queue of the
  threads that wait for an object, suspending the calling thread into it in arrival or priority
  order, and waking its first thread or all of them.

  A call that may block is modelled in two parts. The first part ends with the call of
  \<open>rt_schedule\<close>, and returns \<open>Blocked\<close>; the second one, a definition with the suffix
  \<open>_resume\<close>, is what the thread does when it is scheduled again.
\<close>

datatype 'a outcome = Return 'a | Blocked

section \<open>Operations\<close>

definition ipc_object_init :: "addr \<Rightarrow> kstate \<Rightarrow> kstate" where
  "ipc_object_init ipc s = s\<lparr>k_list := (k_list s)(SuspendQ ipc := [])\<rparr>"

text \<open>The scan for the first thread of lower priority; the inner option is the end of the list.\<close>

fun find_lower :: "(addr \<rightharpoonup> rt_thread) \<Rightarrow> u8 \<Rightarrow> addr list \<Rightarrow> addr option option" where
  "find_lower ths current_priority [] = Some None"
| "find_lower ths current_priority (n # ns) = do {
     sthread \<leftarrow> ths n;
     if current_priority < th_current_priority sthread then Some (Some n)
     else find_lower ths current_priority ns }"

definition ipc_list_suspend :: "lhead \<Rightarrow> addr \<Rightarrow> u8 \<Rightarrow> int \<Rightarrow> kstate \<Rightarrow> (rt_err \<times> kstate) option" where
  "ipc_list_suspend list thread flag suspend_flag s = do {
    th \<leftarrow> k_thread s thread;
    (ret, s) \<leftarrow> (if \<not> suspended th then rt_thread_suspend_with_flag thread suspend_flag s else Some (RT_EOK, s));
    if ret \<noteq> RT_EOK then Some (ret, s)
    else if flag = RT_IPC_FLAG_FIFO then Some (RT_EOK, tlist_tail list thread s)
    else if flag = RT_IPC_FLAG_PRIO then do {
      th \<leftarrow> k_thread s thread;
      n \<leftarrow> find_lower (k_thread s) (th_current_priority th) (k_list s list);
      case n of
        None \<Rightarrow> Some (RT_EOK, tlist_tail list thread s)
      | Some sthread \<Rightarrow> Some (RT_EOK, tlist_before sthread thread s)
    } else None }"

definition ipc_list_resume :: "lhead \<Rightarrow> kstate \<Rightarrow> kstate option" where
  "ipc_list_resume list s = (case k_list s list of
      [] \<Rightarrow> None
    | thread # _ \<Rightarrow> do {
        s \<leftarrow> upd_thread thread (\<lambda>th. th\<lparr>th_error := RT_EOK\<rparr>) s;
        (_, s) \<leftarrow> rt_thread_resume thread s;
        Some s })"

partial_function (option) ipc_list_resume_all :: "lhead \<Rightarrow> kstate \<Rightarrow> kstate option" where
  "ipc_list_resume_all list s = (case k_list s list of
      [] \<Rightarrow> Some s
    | thread # _ \<Rightarrow> do {
        s \<leftarrow> upd_thread thread (\<lambda>th. th\<lparr>th_error := - RT_ERROR\<rparr>) s;
        (_, s) \<leftarrow> rt_thread_resume thread s;
        ipc_list_resume_all list s })"

text \<open>The lines every waiting operation has after \<open>_ipc_list_suspend\<close>.\<close>

definition wait_timer :: "addr \<Rightarrow> u32 \<Rightarrow> kstate \<Rightarrow> kstate option" where
  "wait_timer thread timeout s =
    (if sint timeout > 0 then do {
       (_, _, s) \<leftarrow> rt_timer_control (ThreadTimer thread) (SET_TIME timeout) s;
       (_, s) \<leftarrow> rt_timer_start (ThreadTimer thread) s;
       Some s
     } else Some s)"

section \<open>Waiting queues\<close>

lemma set_state_data [simp]:
  "th_event_set (set_state c th) = th_event_set th" "th_event_info (set_state c th) = th_event_info th"
  "th_pending_object (set_state c th) = th_pending_object th" "th_init_priority (set_state c th) = th_init_priority th"
  by (simp_all add: set_state_def)

text \<open>Heads that link suspended threads.\<close>

definition is_waitq :: "lhead \<Rightarrow> bool" where
  "is_waitq l \<longleftrightarrow> (\<exists>a. l = SuspendQ a \<or> l = SenderQ a)"

lemma is_waitq_simps [simp]: "is_waitq (SuspendQ a)" "is_waitq (SenderQ a)" "\<not> is_waitq (ReadyQ p)" "\<not> is_waitq Defunct"
  by (simp_all add: is_waitq_def)

lemma waitq_suspended:
  assumes "kinv s" and "is_waitq l" and "t \<in> set (k_list s l)"
  shows "\<exists>th. k_thread s t = Some th \<and> suspended th"
  using inv_outD(2) [OF kinvD(5) [OF assms(1), of "{}"] assms(3)] assms(2) by (auto simp: is_waitq_def queue_state_def)

section \<open>Waking\<close>

text \<open>The state after the first waiting thread is woken with error code \<open>e\<close>.\<close>

definition woken :: "rt_err \<Rightarrow> addr \<Rightarrow> rt_thread \<Rightarrow> kstate \<Rightarrow> kstate" where
  "woken e t th s = wake t (th\<lparr>th_error := e\<rparr>)
    (stop_timer (ThreadTimer t) (s\<lparr>k_thread := (k_thread s)(t \<mapsto> th\<lparr>th_error := e\<rparr>)\<rparr>))"

lemma stop_timer_thread_upd [simp]:
  "stop_timer t (s\<lparr>k_thread := m\<rparr>) = (stop_timer t s)\<lparr>k_thread := m\<rparr>"
  by (simp add: stop_timer_def split: option.split)

lemma woken_simps [simp]:
  "k_thread (woken e t th s) = (k_thread s)(t \<mapsto> set_state (if rt_current_thread s = Some t then 3 else 2) (th\<lparr>th_error := e\<rparr>))"
  "rt_current_thread (woken e t th s) = rt_current_thread s"
  by (simp_all add: woken_def wake_thread)

lemma woken_same [simp]: "ipc_same s (woken e t th s)"
proof -
  have "k_obj (stop_timer (ThreadTimer t) s) (Obj a) = k_obj s (Obj a)" for a
    by (simp add: stop_timer_def split: option.split)
  then show ?thesis by (simp add: ipc_same_def woken_def is_class_def)
qed

lemma woken_queue: "(\<And>p. l \<noteq> ReadyQ p) \<Longrightarrow> k_list (woken e t th s) l = remove1 t (k_list s l)"
  by (simp add: woken_def wake_queue)

lemma woken_thread_timers: "thread_timers s \<Longrightarrow> thread_timers (woken e t th s)"
proof -
  assume "thread_timers s"
  then have "thread_timers (stop_timer (ThreadTimer t) s)" by simp
  then show ?thesis by (simp add: thread_timers_def woken_def)
qed

lemma resume_woken:
  assumes k: "kinv s" and th: "k_thread s t = Some th" and su: "suspended th"
  shows "rt_thread_resume t (s\<lparr>k_thread := (k_thread s)(t \<mapsto> th\<lparr>th_error := e\<rparr>)\<rparr>) = Some (RT_EOK, woken e t th s)"
    and "kinv (woken e t th s)"
proof -
  let ?h = "th\<lparr>th_error := e\<rparr>" let ?s = "s\<lparr>k_thread := (k_thread s)(t \<mapsto> ?h)\<rparr>"
  have "kinv ?s" by (rule kinv_error [OF k th]) (use suspended_no_ready [OF su] in simp)
  note r = resume_spec [OF this, of t ?h]
  show "rt_thread_resume t ?s = Some (RT_EOK, woken e t th s)" "kinv (woken e t th s)"
    using r su unfolding woken_def by simp_all
qed

lemma woken_kwf:
  assumes kw: "kwf s" and th: "k_thread s t = Some th" and su: "suspended th"
  shows "kwf (woken e t th s)"
  unfolding kwf_def
proof (intro conjI)
  note k = kwfD(1) [OF kw]
  show "kinv (woken e t th s)" by (rule resume_woken(2) [OF k th su])
  show "thread_timers (woken e t th s)" by (rule woken_thread_timers [OF kwfD(2) [OF kw]])
  have "k_timers (woken e t th s) = k_timers (stop_timer (ThreadTimer t) s)" by (simp add: woken_def)
  then have m: "x \<in> set (k_timers (woken e t th s) HardTimers) \<longleftrightarrow> x \<noteq> ThreadTimer t \<and> x \<in> set (k_timers s HardTimers)" for x
    using stop_timer_mem [OF kinvD(4) [OF k], of HardTimers] by simp
  show "armed_ok (woken e t th s)"
    by (rule armed_okI [OF kwfD(3) [OF kw]]) (use m in auto)
qed

lemma waitq_head_only:
  assumes k: "kinv s" and t: "t \<in> set (k_list s l)" and ne: "m \<noteq> l"
  shows "remove1 t (k_list s m) = k_list s m"
proof -
  have "t \<notin> set (k_list s m)"
    using separate_eq [OF inv_outD(1) [OF kinvD(5) [OF k, of "{}"]] t] ne by auto
  then show ?thesis by (simp add: remove1_idem)
qed

lemma list_resume_spec:
  assumes kw: "kwf s" and l: "is_waitq l" "k_list s l = t # rest"
  shows "\<exists>th. k_thread s t = Some th \<and> suspended th \<and> ipc_list_resume l s = Some (woken RT_EOK t th s) \<and>
    kwf (woken RT_EOK t th s) \<and> k_list (woken RT_EOK t th s) l = rest"
proof -
  note k = kwfD(1) [OF kw]
  from waitq_suspended [OF k l(1), of t] l(2) obtain th where th: "k_thread s t = Some th" "suspended th" by auto
  have "k_list (woken RT_EOK t th s) l = rest" using l by (subst woken_queue) (auto simp: is_waitq_def)
  with th resume_woken [OF k th] woken_kwf [OF kw th] l(2) show ?thesis by (simp add: ipc_list_resume_def)
qed

text \<open>A list of threads, woken one after the other, with the data of each changed by \<open>g\<close>.\<close>

definition all_woken :: "(rt_thread \<Rightarrow> rt_thread) \<Rightarrow> addr list \<Rightarrow> kstate \<Rightarrow> kstate \<Rightarrow> bool" where
  "all_woken g ts s s' \<longleftrightarrow> ipc_same s s' \<and> rt_current_thread s' = rt_current_thread s \<and>
    (\<forall>l. (\<forall>p. l \<noteq> ReadyQ p) \<longrightarrow> k_list s' l = filter (\<lambda>t. t \<notin> set ts) (k_list s l)) \<and>
    (\<forall>t. t \<notin> set ts \<longrightarrow> k_thread s' t = k_thread s t) \<and>
    (\<forall>t \<in> set ts. \<exists>th c. k_thread s t = Some th \<and> k_thread s' t = Some (set_state c (g th)) \<and> (c = 2 \<or> c = 3))"

lemma all_wokenD:
  assumes "all_woken g ts s s'"
  shows "ipc_same s s'" "rt_current_thread s' = rt_current_thread s"
    "(\<And>p. l \<noteq> ReadyQ p) \<Longrightarrow> k_list s' l = filter (\<lambda>t. t \<notin> set ts) (k_list s l)"
    "t \<notin> set ts \<Longrightarrow> k_thread s' t = k_thread s t"
    "t \<in> set ts \<Longrightarrow> \<exists>th c. k_thread s t = Some th \<and> k_thread s' t = Some (set_state c (g th)) \<and> (c = 2 \<or> c = 3)"
  using assms unfolding all_woken_def by blast+

lemma all_woken_runnable:
  "all_woken g ts s s' \<Longrightarrow> t \<in> set ts \<Longrightarrow> \<exists>th th'. k_thread s t = Some th \<and> k_thread s' t = Some th' \<and> runnable th' \<and>
    th_error th' = th_error (g th)"
  using all_wokenD(5) [of g ts s s' t] by (auto simp: runnable_def)

lemma all_woken_Nil [simp]: "all_woken g [] s s"
  by (simp add: all_woken_def)

lemma all_woken_Cons:
  assumes a: "all_woken g [t] s s1" and b: "all_woken g ts s1 s'" and t: "t \<notin> set ts"
  shows "all_woken g (t # ts) s s'"
  unfolding all_woken_def
proof (intro conjI allI impI ballI)
  show "ipc_same s s'" by (rule ipc_same_trans [OF all_wokenD(1) [OF a] all_wokenD(1) [OF b]])
  show "rt_current_thread s' = rt_current_thread s" using all_wokenD(2) [OF a] all_wokenD(2) [OF b] by simp
  show "k_list s' l = filter (\<lambda>x. x \<notin> set (t # ts)) (k_list s l)" if "\<forall>p. l \<noteq> ReadyQ p" for l
    using all_wokenD(3) [OF a, of l] all_wokenD(3) [OF b, of l] that by (simp add: conj_commute)
  show "k_thread s' x = k_thread s x" if "x \<notin> set (t # ts)" for x
    using that all_wokenD(4) [OF a, of x] all_wokenD(4) [OF b, of x] by simp
  show "\<exists>h c. k_thread s x = Some h \<and> k_thread s' x = Some (set_state c (g h)) \<and> (c = 2 \<or> c = 3)"
    if "x \<in> set (t # ts)" for x
  proof (cases "x = t")
    case True
    then have "k_thread s' x = k_thread s1 x" using t all_wokenD(4) [OF b, of x] by simp
    with True all_wokenD(5) [OF a, of t] show ?thesis by simp
  next
    case False
    then have "x \<in> set ts" "k_thread s1 x = k_thread s x" using that all_wokenD(4) [OF a, of x] by auto
    with all_wokenD(5) [OF b, of x] show ?thesis by simp
  qed
qed

lemma woken_all_woken:
  assumes k: "kinv s" and th: "k_thread s t = Some th"
  shows "all_woken (\<lambda>th. th\<lparr>th_error := e\<rparr>) [t] s (woken e t th s)"
proof -
  have "distinct (k_list s l)" for l by (rule separate_distinct [OF inv_outD(1) [OF kinvD(5) [OF k, of "{}"]]])
  then have "remove1 t (k_list s l) = filter (\<lambda>x. x \<noteq> t) (k_list s l)" for l by (rule remove1_eq_filter)
  with th show ?thesis by (auto simp: all_woken_def woken_queue)
qed

text \<open>The error code may be written after the resume as well.\<close>

lemma woken_set_error:
  "(woken e t th s)\<lparr>k_thread := (k_thread (woken e t th s))(t \<mapsto>
     (set_state (if rt_current_thread s = Some t then 3 else 2) (th\<lparr>th_error := e\<rparr>))\<lparr>th_error := e'\<rparr>)\<rparr> = woken e' t th s"
proof -
  have sw: "(set_state c (th\<lparr>th_error := e\<rparr>))\<lparr>th_error := e'\<rparr> = set_state c (th\<lparr>th_error := e'\<rparr>)" for c
    by (cases th) (simp add: set_state_def)
  show ?thesis
    by (rule kstate.equality)
      (simp_all add: sw, simp_all add: woken_def wake_def yielding_def prio_def prio_bit_def)
qed

lemma upd_woken_error: "upd_thread t (\<lambda>th. th\<lparr>th_error := e'\<rparr>) (woken e t th s) = Some (woken e' t th s)"
proof -
  have "k_thread (woken e t th s) t = Some (set_state (if rt_current_thread s = Some t then 3 else 2) (th\<lparr>th_error := e\<rparr>))"
    by simp
  from upd_thread_Some [OF this, of "\<lambda>th. th\<lparr>th_error := e'\<rparr>"] show ?thesis by (simp only: woken_set_error)
qed

lemma all_woken_prepared:
  "all_woken g [t] (s\<lparr>k_thread := (k_thread s)(t \<mapsto> h th)\<rparr>) s' \<Longrightarrow> k_thread s t = Some th \<Longrightarrow>
   all_woken (\<lambda>th. g (h th)) [t] s s'"
  by (auto simp: all_woken_def ipc_same_def is_class_def)

lemma list_resume_all_spec:
  assumes "kwf s" and "is_waitq l" and "k_list s l = ts"
  shows "\<exists>s'. ipc_list_resume_all l s = Some s' \<and> kwf s' \<and> all_woken (\<lambda>th. th\<lparr>th_error := - RT_ERROR\<rparr>) ts s s'"
  using assms
proof (induction ts arbitrary: s)
  case Nil
  then show ?case by (subst ipc_list_resume_all.simps) simp
next
  case (Cons t ts)
  have k: "kinv s" using Cons.prems(1) by (simp add: kwf_def)
  from waitq_suspended [OF k Cons.prems(2), of t] Cons.prems(3) obtain th where
    th: "k_thread s t = Some th" "suspended th" by auto
  note w = resume_woken [OF k th, of "- 1"]
  let ?s = "woken (- 1) t th s"
  have nr: "\<And>p. l \<noteq> ReadyQ p" using Cons.prems(2) by auto
  have "k_list ?s l = ts" using Cons.prems(3) by (subst woken_queue [OF nr]) simp
  from Cons.IH [OF woken_kwf [OF Cons.prems(1) th] Cons.prems(2) this] obtain s' where
    s': "ipc_list_resume_all l ?s = Some s'" "kwf s'" "all_woken (\<lambda>th. th\<lparr>th_error := - 1\<rparr>) ts ?s s'" by blast
  have "ipc_list_resume_all l s = Some s'"
    using Cons.prems(3) th w(1) s'(1) by (subst ipc_list_resume_all.simps) simp
  moreover have "t \<notin> set ts"
    using separate_distinct [OF inv_outD(1) [OF kinvD(5) [OF k, of "{}"]], of l] Cons.prems(3) by simp
  ultimately show ?case using s'(2) all_woken_Cons [OF woken_all_woken [OF k th(1)] s'(3)] by blast
qed

text \<open>Changing the data of a thread that neither the scheduler nor the timers read.\<close>

lemma kwf_thread_data:
  assumes kw: "kwf s" and th: "k_thread s t = Some th" and st: "state_of th \<noteq> RT_THREAD_CLOSE"
    and h: "th_stat h = th_stat th" "th_current_priority h = th_current_priority th"
      "th_number_mask h = th_number_mask th" "stack_ok h = stack_ok th"
  shows "kwf (s\<lparr>k_thread := (k_thread s)(t \<mapsto> h)\<rparr>)"
proof -
  have e: "state_of h = state_of th" "suspended h = suspended th" using h by (simp_all add: state_of_def suspended_def)
  have "inv_out {} (s\<lparr>k_thread := (k_thread s)(t \<mapsto> h)\<rparr>)"
    by (rule inv_out_keep [OF kinvD(5) [OF kwfD(1) [OF kw]] th]) (use h e in simp_all)
  then have "kinv (s\<lparr>k_thread := (k_thread s)(t \<mapsto> h)\<rparr>)"
    by (rule kinv_one_thread [where h = h, OF kwfD(1) [OF kw] th]) (use st h in simp_all)
  then show ?thesis using kwfD(2,3) [OF kw] th e by (auto simp: kwf_def thread_timers_def armed_ok_def)
qed

section \<open>The rest of the kernel\<close>

text \<open>
  A step that may take threads off the waiting queues, but leaves the IPC objects and the
  threads still waiting as they are.
\<close>

definition quiet :: "kstate \<Rightarrow> kstate \<Rightarrow> bool" where
  "quiet s s' \<longleftrightarrow> ipc_same s s' \<and> (\<forall>l. is_waitq l \<longrightarrow> (\<exists>P. k_list s' l = filter P (k_list s l))) \<and>
    (\<forall>l t. is_waitq l \<longrightarrow> t \<in> set (k_list s' l) \<longrightarrow> k_thread s' t = k_thread s t)"

lemma quietD:
  assumes "quiet s s'"
  shows "ipc_same s s'" "is_waitq l \<Longrightarrow> \<exists>P. k_list s' l = filter P (k_list s l)"
    "is_waitq l \<Longrightarrow> t \<in> set (k_list s' l) \<Longrightarrow> k_thread s' t = k_thread s t"
    "is_waitq l \<Longrightarrow> t \<in> set (k_list s' l) \<Longrightarrow> t \<in> set (k_list s l)"
proof -
  show q: "is_waitq l \<Longrightarrow> \<exists>P. k_list s' l = filter P (k_list s l)" and "ipc_same s s'"
    and "is_waitq l \<Longrightarrow> t \<in> set (k_list s' l) \<Longrightarrow> k_thread s' t = k_thread s t"
    using assms unfolding quiet_def by blast+
  show "is_waitq l \<Longrightarrow> t \<in> set (k_list s' l) \<Longrightarrow> t \<in> set (k_list s l)" using q by auto
qed

lemma quiet_empty: "quiet s s' \<Longrightarrow> is_waitq l \<Longrightarrow> k_list s l = [] \<Longrightarrow> k_list s' l = []"
  using quietD(2) [of s s' l] by auto

lemma quiet_trans: "quiet s s1 \<Longrightarrow> quiet s1 s2 \<Longrightarrow> quiet s s2"
  unfolding quiet_def
proof (intro conjI allI impI; elim conjE)
  fix l assume a: "\<forall>l. is_waitq l \<longrightarrow> (\<exists>P. k_list s1 l = filter P (k_list s l))"
    and b: "\<forall>l. is_waitq l \<longrightarrow> (\<exists>P. k_list s2 l = filter P (k_list s1 l))" and l: "is_waitq l"
  from a l obtain P where P: "k_list s1 l = filter P (k_list s l)" by blast
  from b l obtain Q where Q: "k_list s2 l = filter Q (k_list s1 l)" by blast
  show "\<exists>P. k_list s2 l = filter P (k_list s l)" by (rule exI [of _ "\<lambda>t. P t \<and> Q t"]) (simp add: P Q)
  fix t assume t: "t \<in> set (k_list s2 l)"
    and d: "\<forall>l t. is_waitq l \<longrightarrow> t \<in> set (k_list s1 l) \<longrightarrow> k_thread s1 t = k_thread s t"
      "\<forall>l t. is_waitq l \<longrightarrow> t \<in> set (k_list s2 l) \<longrightarrow> k_thread s2 t = k_thread s1 t"
  have "t \<in> set (k_list s1 l)" using t Q by simp
  with d l t show "k_thread s2 t = k_thread s t" by metis
qed (rule ipc_same_trans)

lemma quiet_sched:
  assumes k: "kinv s" and f: "sched_frame s s'"
  shows "quiet s s'"
  unfolding quiet_def
proof (intro conjI allI impI)
  show "ipc_same s s'" by (rule ipc_same_sched [OF f])
  fix l assume l: "is_waitq l"
  have q: "k_list s' l = k_list s l" by (rule sched_frame_queue [OF f]) (use l in auto)
  then show "\<exists>P. k_list s' l = filter P (k_list s l)" by (intro exI [of _ "\<lambda>_. True"]) simp
  fix t assume "t \<in> set (k_list s' l)"
  with q waitq_suspended [OF k l, of t] obtain th where "k_thread s t = Some th" "suspended th" by auto
  with sched_frame_quiet [OF f, of t th] suspended_no_ready [of th] show "k_thread s' t = k_thread s t" by auto
qed

lemma quiet_checked:
  assumes k: "kinv s" and c: "checked ps s s'"
  shows "quiet s s'"
  unfolding quiet_def
proof (intro conjI allI impI)
  show "ipc_same s s'" by (rule checkedD(1) [OF c])
  fix l assume l: "is_waitq l"
  have q: "k_list s' l = filter (\<lambda>t. t \<notin> set ps) (k_list s l)" by (rule checkedD(3) [OF c]) (use l in auto)
  then show "\<exists>P. k_list s' l = filter P (k_list s l)" by blast
  fix t assume "t \<in> set (k_list s' l)"
  with q have t: "t \<in> set (k_list s l)" "t \<notin> set ps" by auto
  from waitq_suspended [OF k l t(1)] obtain th where "k_thread s t = Some th" "suspended th" by auto
  with checkedD(5) [OF c t(2)] suspended_no_ready [of th] show "k_thread s' t = k_thread s t"
    by (auto simp: runnable_def)
qed

lemma quiet_all_woken: "all_woken g ts s s' \<Longrightarrow> quiet s s'"
  unfolding quiet_def
proof (intro conjI allI impI)
  assume w: "all_woken g ts s s'"
  show "ipc_same s s'" by (rule all_wokenD(1) [OF w])
  fix l assume l: "is_waitq l"
  have q: "k_list s' l = filter (\<lambda>t. t \<notin> set ts) (k_list s l)" by (rule all_wokenD(3) [OF w]) (use l in auto)
  then show "\<exists>P. k_list s' l = filter P (k_list s l)" by blast
  show "k_thread s' t = k_thread s t" if "t \<in> set (k_list s' l)" for t
    using that q all_wokenD(4) [OF w, of t] by simp
qed

text \<open>
  What happens around the calls on an object: scheduling steps, and checks of the timers at
  which some thread timers have expired.
\<close>

inductive env_step :: "kstate \<Rightarrow> kstate \<Rightarrow> bool" where
  env_schedule: "rt_schedule s = Some s' \<Longrightarrow> env_step s s'"
| env_tick: "rt_timer_check user s = Some s' \<Longrightarrow> k_timers s HardCheck = [] \<Longrightarrow>
    k_timers s HardTimers = map ThreadTimer ps @ ts \<Longrightarrow> list_all (due s) ps \<Longrightarrow> not_due s ts \<Longrightarrow> env_step s s'"

lemma env_step_quiet:
  assumes kw: "kwf s" and cur: "rt_current_thread s \<noteq> None" and e: "env_step s s'"
  shows "kwf s'" "rt_current_thread s' \<noteq> None" "quiet s s'"
proof -
  from e have "kwf s' \<and> rt_current_thread s' \<noteq> None \<and> quiet s s'"
  proof cases
    case env_schedule
    with schedule_kinv [OF kwfD(1) [OF kw] cur] have f: "kinv s'" "sched_frame s s'" by auto
    with kwf_sched [OF kw f] schedule_current [OF kwfD(1) [OF kw] cur env_schedule] quiet_sched [OF kwfD(1) [OF kw] f(2)]
    show ?thesis by simp
  next
    case (env_tick user ps ts)
    with timer_check_checked [OF kw cur env_tick(2-5), of user] quiet_checked [OF kwfD(1) [OF kw]] show ?thesis by auto
  qed
  then show "kwf s'" "rt_current_thread s' \<noteq> None" "quiet s s'" by auto
qed

text \<open>
  The contract between an IPC object and the rest of the kernel: what well-formed means for the
  object must not be lost in a quiet step.
\<close>

locale ipc_object =
  fixes wf :: "kstate \<Rightarrow> addr \<Rightarrow> bool"
  assumes wf_quiet: "wf s a \<Longrightarrow> quiet s s' \<Longrightarrow> wf s' a"
begin

definition live :: "kstate \<Rightarrow> addr \<Rightarrow> bool" where
  "live s a \<longleftrightarrow> kwf s \<and> wf s a \<and> rt_current_thread s \<noteq> None"

lemma live_env: "live s a \<Longrightarrow> env_step s s' \<Longrightarrow> live s' a \<and> ipc_same s s'"
  unfolding live_def using env_step_quiet wf_quiet quietD(1) by blast

lemma live_schedule:
  assumes "kwf s" and "wf s a" and "rt_current_thread s \<noteq> None"
  shows "\<exists>s'. rt_schedule s = Some s' \<and> live s' a \<and> quiet s s' \<and> sched_frame s s'"
proof -
  from schedule_kinv [OF kwfD(1) [OF assms(1)] assms(3)] obtain s' where s': "rt_schedule s = Some s'" "sched_frame s s'"
    by blast
  have "env_step s s'" by (rule env_schedule [OF s'(1)])
  from env_step_quiet [OF assms(1,3) this] wf_quiet [OF assms(2)] s' show ?thesis unfolding live_def by blast
qed

lemma live_all_woken: "live s a \<Longrightarrow> kwf s' \<Longrightarrow> all_woken g ts s s' \<Longrightarrow> live s' a"
  unfolding live_def using wf_quiet quiet_all_woken all_wokenD(2) by metis

end

section \<open>Suspending\<close>

definition prio_of :: "(addr \<rightharpoonup> rt_thread) \<Rightarrow> addr \<Rightarrow> nat" where
  "prio_of ths t = (case ths t of None \<Rightarrow> 0 | Some th \<Rightarrow> prio th)"

text \<open>The place a waiting thread takes in the queue of an object with the flag; the memory pools, which
  have no flag and put it in front, count as a third value.\<close>

definition enqueue :: "u8 \<Rightarrow> (addr \<rightharpoonup> rt_thread) \<Rightarrow> addr \<Rightarrow> addr list \<Rightarrow> addr list" where
  "enqueue flag ths t q = (if flag = RT_IPC_FLAG_FIFO then q @ [t]
    else if flag = RT_IPC_FLAG_PRIO then prio_insert (prio_of ths) t q else t # q)"

lemma set_enqueue [simp]: "set (enqueue flag ths t q) = insert t (set q)"
  by (simp add: enqueue_def)

lemma distinct_enqueue: "distinct q \<Longrightarrow> t \<notin> set q \<Longrightarrow> distinct (enqueue flag ths t q)"
  by (simp add: enqueue_def distinct_prio_insert)

lemma enqueue_not_Nil [simp]: "enqueue flag ths t q \<noteq> []"
  by (simp add: enqueue_def prio_insert_def)

lemma find_lower_find:
  assumes "\<And>p. p \<in> set q \<Longrightarrow> ths p \<noteq> None" and "ths t = Some th"
  shows "find_lower ths (th_current_priority th) q = Some (find (\<lambda>p. prio_of ths t < prio_of ths p) q)"
  using assms
proof (induction q)
  case (Cons p q)
  from Cons.prems(1) [of p] obtain h where "ths p = Some h" by auto
  with Cons show ?case by (simp add: prio_of_def prio_def word_less_nat_alt)
qed simp

lemma kinv_enqueue:
  assumes k: "kinv s" and u: "unlinked (k_list s) t" and th: "k_thread s t = Some th" "suspended th" and l: "is_waitq l"
    and q: "distinct q" "set q = insert t (set (k_list s l))"
  shows "kinv (s\<lparr>k_list := (k_list s)(l := q)\<rparr>)"
proof -
  let ?s = "s\<lparr>k_list := (k_list s)(l := q)\<rparr>"
  note i = kinvD(5) [OF k, of "{}"]
  have nr: "l \<noteq> ReadyQ p" for p using l by auto
  have qs: "queue_state l th" using l th by (auto simp: is_waitq_def queue_state_def)
  have "inv_out {} ?s"
  proof (rule inv_outI)
    show "separate (k_list ?s)" using separate_add [OF inv_outD(1) [OF i] u q] by simp
    show "\<exists>h. k_thread ?s x = Some h \<and> queue_state m h" if "x \<in> set (k_list ?s m)" for m x
    proof (cases "m = l \<and> x = t")
      case True
      with th qs show ?thesis by simp
    next
      case False
      then have "x \<in> set (k_list s m)" using that q(2) by (auto split: if_splits)
      from inv_outD(2) [OF i this] show ?thesis by simp
    qed
    show "prio_ok h" if "k_thread ?s x = Some h" for x h using inv_outD(3) [OF i, of x h] that by simp
    show "state_ok ?s x h" if "k_thread ?s x = Some h" "x \<notin> {}" for x h
      using inv_outD(4) [OF i, of x h] that nr by (auto simp: state_ok_def)
    show "bit (rt_thread_ready_priority_group ?s) p \<longleftrightarrow> k_list ?s (ReadyQ p) \<noteq> []" if "p < 32" for p
      using inv_outD(5) [OF i that] nr by auto
    show "\<exists>h. k_thread ?s c = Some h" if "rt_current_thread ?s = Some c" for c using inv_outD(6) [OF i] that by simp
  qed
  moreover have "threads_wf ?s" by (rule threads_wf_change [OF kinvD(2) [OF k]]) auto
  moreover have "stacks_ok ?s" using kinvD(3) [OF k] by (simp add: stacks_ok_def)
  moreover have "timers_wf ?s" using kinvD(4) [OF k] timers_wf_cong [of ?s s] by simp
  ultimately show ?thesis by (simp add: kinv_def sched_inv_def)
qed

text \<open>The calling thread waits: suspended, and in the queue.\<close>

definition waiting :: "lhead \<Rightarrow> addr \<Rightarrow> u8 \<Rightarrow> kstate \<Rightarrow> kstate \<Rightarrow> bool" where
  "waiting l t flag s s' \<longleftrightarrow> ipc_same s s' \<and> rt_current_thread s' = rt_current_thread s \<and>
    k_list s' = (k_list s)(l := enqueue flag (k_thread s) t (k_list s l)) \<and>
    (\<exists>th x. k_thread s t = Some th \<and> x \<in> {4, 6, 7} \<and> k_thread s' = (k_thread s)(t \<mapsto> set_state x th))"

text \<open>Suspending the running thread, and then entering it into a queue in one of the three ways.\<close>

lemma suspend_enqueue_spec:
  assumes kw: "kwf s" and cur: "rt_current_thread s = Some t" and th: "k_thread s t = Some th"
    and r: "state_of th = RT_THREAD_RUNNING" and l: "is_waitq l" and x: "suspend_stat sf = Some x"
  shows "\<exists>s1. rt_thread_suspend_with_flag t sf s = Some (RT_EOK, s1) \<and> kinv s1 \<and> unlinked (k_list s1) t \<and>
    k_list s1 = k_list s \<and> k_thread s1 = (k_thread s)(t \<mapsto> set_state x th) \<and>
    (\<forall>flag. let s' = s1\<lparr>k_list := (k_list s)(l := enqueue flag (k_thread s) t (k_list s l))\<rparr> in kwf s' \<and> waiting l t flag s s')"
proof -
  have k: "kinv s" and tt: "thread_timers s" and ao: "armed_ok s" using kw by (simp_all add: kwf_def)
  from suspend_spec [OF k cur th r x] obtain s1 g where s1: "rt_thread_suspend_with_flag t sf s = Some (RT_EOK, s1)"
    "kinv s1" and e: "s1 = stop_timer (ThreadTimer t) (s\<lparr>k_thread := (k_thread s)(t \<mapsto> set_state x th),
      rt_thread_ready_priority_group := g\<rparr>)" by blast
  let ?s0 = "s\<lparr>k_thread := (k_thread s)(t \<mapsto> set_state x th), rt_thread_ready_priority_group := g\<rparr>"
  have l1: "k_list s1 = k_list s" and t1: "k_thread s1 = (k_thread s)(t \<mapsto> set_state x th)" by (simp_all add: e)
  have "thread_timers ?s0" using tt by (simp add: thread_timers_def)
  then have tt1: "thread_timers s1" unfolding e by (rule thread_timers_stop)
  have same: "ipc_same s s1"
    unfolding e by (rule ipc_same_trans [OF _ ipc_same_stop]) (simp add: ipc_same_def is_class_def)
  have u: "unlinked (k_list s1) t" using running_unlinked [OF kinvD(5) [OF k, of "{}"] th] r by (simp add: l1)
  have x': "x \<in> {4, 6, 7}" by (rule suspend_stat_cases [OF x])
  have su: "k_thread s1 t = Some (set_state x th)" "suspended (set_state x th)"
    using suspended_set_state [OF x'] by (simp_all add: t1)
  have sep: "separate (k_list s1)" by (rule inv_outD(1) [OF kinvD(5) [OF s1(2), of "{}"]])
  have "let s' = s1\<lparr>k_list := (k_list s)(l := enqueue flag (k_thread s) t (k_list s l))\<rparr> in kwf s' \<and> waiting l t flag s s'" for flag
  proof -
    let ?s' = "s1\<lparr>k_list := (k_list s)(l := enqueue flag (k_thread s) t (k_list s l))\<rparr>"
    have "kinv (s1\<lparr>k_list := (k_list s1)(l := enqueue flag (k_thread s) t (k_list s l))\<rparr>)"
      by (rule kinv_enqueue [OF s1(2) u su l])
        (use separate_distinct [OF sep, of l] unlinkedD [OF u, of l] l1 in \<open>simp_all add: distinct_enqueue\<close>)
    then have "kinv ?s'" by (simp add: l1)
    moreover have "thread_timers ?s'" using tt1 by (simp add: thread_timers_def)
    moreover have "armed_ok ?s'"
    proof (rule armed_okI [OF ao])
      have "timers_wf ?s0" using kinvD(4) [OF k] timers_wf_cong [of ?s0 s] by simp
      then show "ThreadTimer p \<in> set (k_timers ?s' HardTimers) \<Longrightarrow> ThreadTimer p \<in> set (k_timers s HardTimers)" for p
        using stop_timer_mem [of ?s0 HardTimers "ThreadTimer p" "ThreadTimer t"] by (simp add: e)
      show "\<exists>th'. k_thread ?s' p = Some th' \<and> suspended th'" if "k_thread s p = Some hp" "suspended hp" for p hp
        using that su by (cases "p = t") (simp_all add: t1)
    qed
    moreover have "waiting l t flag s ?s'"
      using same th x' t1 l1 by (auto simp: waiting_def ipc_same_def is_class_def e)
    ultimately show ?thesis by (simp add: kwf_def Let_def)
  qed
  with s1 u l1 t1 show ?thesis by blast
qed

lemma list_suspend_spec:
  assumes kw: "kwf s" and cur: "rt_current_thread s = Some t" and th: "k_thread s t = Some th"
    and r: "state_of th = RT_THREAD_RUNNING" and l: "is_waitq l" and fl: "flag = RT_IPC_FLAG_FIFO \<or> flag = RT_IPC_FLAG_PRIO"
    and x: "suspend_stat sf = Some x"
  shows "\<exists>s'. ipc_list_suspend l t flag sf s = Some (RT_EOK, s') \<and> kwf s' \<and> waiting l t flag s s'"
proof -
  from suspend_enqueue_spec [OF kw cur th r l x] obtain s1 where
    s1: "rt_thread_suspend_with_flag t sf s = Some (RT_EOK, s1)" "kinv s1" "unlinked (k_list s1) t"
      "k_list s1 = k_list s" "k_thread s1 = (k_thread s)(t \<mapsto> set_state x th)"
    and w: "kwf (s1\<lparr>k_list := (k_list s)(l := enqueue flag (k_thread s) t (k_list s l))\<rparr>)"
      "waiting l t flag s (s1\<lparr>k_list := (k_list s)(l := enqueue flag (k_thread s) t (k_list s l))\<rparr>)"
    unfolding Let_def by blast
  let ?s' = "s1\<lparr>k_list := (k_list s)(l := enqueue flag (k_thread s) t (k_list s l))\<rparr>"
  have x': "x \<in> {4, 6, 7}" by (rule suspend_stat_cases [OF x])
  have su: "k_thread s1 t = Some (set_state x th)" using s1(5) by simp
  have sep: "separate (k_list s1)" by (rule inv_outD(1) [OF kinvD(5) [OF s1(2), of "{}"]])
  have pk: "prio_of (k_thread s1) = prio_of (k_thread s)" using th by (auto simp: prio_of_def s1(5))
  have "ipc_list_suspend l t flag sf s = Some (RT_EOK, ?s')"
  proof (cases "flag = RT_IPC_FLAG_FIFO")
    case True
    with th r s1(1) show ?thesis
      by (simp add: ipc_list_suspend_def suspended_state tlist_tail_def al_tail_def enqueue_def s1(4))
  next
    case False
    have live: "k_thread s1 p \<noteq> None" if "p \<in> set (k_list s1 l)" for p
      using waitq_suspended [OF s1(2) l that] by auto
    have f: "find_lower (k_thread s1) (th_current_priority (set_state x th)) (k_list s1 l)
        = Some (find (\<lambda>p. prio_of (k_thread s1) t < prio_of (k_thread s1) p) (k_list s1 l))"
      by (rule find_lower_find) (use live su in simp_all)
    have "k_list (case find (\<lambda>p. prio_of (k_thread s1) t < prio_of (k_thread s1) p) (k_list s1 l) of
        None \<Rightarrow> tlist_tail l t s1 | Some p \<Rightarrow> tlist_before p t s1) = k_list ?s'"
      using tl.rep_prio [where s = s1 and f = "k_list s1" and n = t and key = "prio_of (k_thread s1)" and l = l] sep s1(3,4) False fl
      by (simp add: enqueue_def pk)
    then have m: "(case find (\<lambda>p. prio_of (k_thread s1) t < prio_of (k_thread s1) p) (k_list s1 l) of
        None \<Rightarrow> tlist_tail l t s1 | Some p \<Rightarrow> tlist_before p t s1) = ?s'"
      by (auto simp: tlist_tail_def tlist_before_def split: option.splits)
    show ?thesis
      using th r s1(1) fl False f su m
      by (auto simp: ipc_list_suspend_def suspended_state split: option.splits)
  qed
  with w show ?thesis by blast
qed

section \<open>Waiting with a timeout\<close>

lemma kwf_error:
  "kwf s \<Longrightarrow> k_thread s t = Some th \<Longrightarrow> state_of th \<noteq> RT_THREAD_CLOSE \<Longrightarrow>
   kwf (s\<lparr>k_thread := (k_thread s)(t \<mapsto> th\<lparr>th_error := e\<rparr>)\<rparr>)"
  using kinv_error [of s t th e] by (auto simp: kwf_def thread_timers_def armed_ok_def)

lemma thread_timers_restarted:
  "thread_timers s \<Longrightarrow> k_obj s t = Some h \<Longrightarrow> k_timer s t = Some tm \<Longrightarrow> thread_timers (restarted t h tm l s)"
proof -
  assume t: "thread_timers s" "k_obj s t = Some h" "k_timer s t = Some tm"
  have "NOT (1 :: u8) AND 4 = 4" "NOT (1 :: u8) AND 2 = 2" by simp_all
  have "is_soft (activate h) = is_soft h" "periodic (activate h) = periodic h" for h
    by (simp_all add: is_soft_def periodic_def activate_def bit.conj_disj_distrib2)
  with t show ?thesis by (auto simp: thread_timers_def restarted_def)
qed

lemma set_time_kwf:
  assumes kw: "kwf s" and tm: "k_timer s t = Some tm"
  shows "kwf (s\<lparr>k_timer := (k_timer s)(t \<mapsto> tm\<lparr>tm_init_tick := x\<rparr>)\<rparr>)"
proof -
  let ?s = "s\<lparr>k_timer := (k_timer s)(t \<mapsto> tm\<lparr>tm_init_tick := x\<rparr>)\<rparr>"
  have k: "kinv s" and tt: "thread_timers s" and ao: "armed_ok s" using kw by (simp_all add: kwf_def)
  have live: "timer_live r s \<Longrightarrow> timer_live r ?s" for r by (auto simp: timer_live_def)
  have tw: "timers_wf ?s"
    using kinvD(4) [OF k] live unfolding timers_wf_def by auto
  have "kinv ?s" by (rule kinv_timer_change [OF k _ _ _ _ _ live tw]) (simp_all add: is_class_def)
  moreover have "thread_timers ?s" using tt tm by (auto simp: thread_timers_def)
  moreover have "armed_ok ?s" using ao by (simp add: armed_ok_def)
  ultimately show ?thesis by (simp add: kwf_def)
qed

definition timer_set :: "addr \<Rightarrow> u32 \<Rightarrow> kstate \<Rightarrow> bool" where
  "timer_set t x s \<longleftrightarrow> ThreadTimer t \<in> set (k_timers s HardTimers) \<and>
    timeout_of (k_timer s) (ThreadTimer t) = x"

lemma sint_positive:
  fixes x :: u32
  assumes "sint x > 0"
  shows "sint x = uint x" and "uint x < 2 ^ 31"
proof -
  have s: "sint x = signed_take_bit 31 (uint x)" by (simp add: sint_uint)
  have nb: "\<not> bit (uint x) 31"
  proof
    assume "bit (uint x) 31"
    then have "signed_take_bit 31 (uint x) < 0" by (simp only: signed_take_bit_negative_iff)
    with assms s show False by linarith
  qed
  have "uint x = take_bit (Suc 31) (uint x)"
    using uint_lt2p [of x] by (simp add: take_bit_int_eq_self)
  also have "\<dots> = take_bit 31 (uint x)" using take_bit_Suc_from_most [of 31 "uint x"] nb by simp
  finally have t: "uint x = take_bit 31 (uint x)" .
  then show "uint x < 2 ^ 31" by (metis take_bit_int_less_exp)
  show "sint x = uint x" using s t nb by (metis signed_take_bit_eq_if_positive)
qed

lemma positive_tick:
  fixes x :: u32
  assumes "sint x > 0" and "x \<noteq> 0x7fffffff"
  shows "x < 0xffffffff div 2"
proof -
  have e: "uint (0x7fffffff :: u32) = 2 ^ 31 - 1" by simp
  have "uint x \<noteq> uint (0x7fffffff :: u32)" using assms(2) by (simp only: word_uint_eq_iff not_False_eq_True)
  then have "uint x < uint (0x7fffffff :: u32)" using sint_positive(2) [OF assms(1)] unfolding e by linarith
  then have "x < 0x7fffffff" by (simp only: word_less_def)
  moreover have "(0xffffffff :: u32) div 2 = 0x7fffffff" by simp
  ultimately show ?thesis by (simp only:)
qed

text \<open>A positive timeout restarts the timer of the thread.\<close>

lemma wait_timer_restarts:
  assumes kw: "kwf s" and th: "k_thread s t = Some th" and su: "suspended th"
    and pos: "sint timeout > 0" and to: "timeout \<noteq> 0x7fffffff"
  shows "\<exists>h tm l s1. wait_timer t timeout s = Some (restarted (ThreadTimer t) h tm l s1) \<and>
    kwf (restarted (ThreadTimer t) h tm l s1) \<and> tm_init_tick tm = timeout \<and>
    set l = insert (ThreadTimer t) (set (remove1 (ThreadTimer t) (k_timers s HardTimers))) \<and>
    s1 = s\<lparr>k_timer := (k_timer s)(ThreadTimer t \<mapsto> tm)\<rparr> \<and> k_obj s (ThreadTimer t) = Some h"
proof -
  let ?t = "ThreadTimer t"
  have k: "kinv s" and tt: "thread_timers s" using kw by (simp_all add: kwf_def)
  have live: "timer_live ?t s" by (rule kinv_thread_class(2) [OF k th]) (use suspended_no_ready [OF su] in simp)
  then obtain h tm where h: "k_obj s ?t = Some h" "obj_type h AND NOT 128 = 10" and tm: "k_timer s ?t = Some tm"
    by (auto simp: timer_live_def)
  have lt: "timeout < 0xffffffff div 2" by (rule positive_tick [OF pos to])
  let ?tm = "tm\<lparr>tm_init_tick := timeout\<rparr>"
  let ?s1 = "s\<lparr>k_timer := (k_timer s)(?t \<mapsto> ?tm)\<rparr>"
  have kw1: "kwf ?s1" by (rule set_time_kwf [OF kw tm])
  have c: "rt_timer_control ?t (SET_TIME timeout) s = Some (RT_EOK, Out_none, ?s1)"
    using h tm lt by (simp add: rt_timer_control_def assert_type_class is_class_def)
  have hard: "\<not> is_soft h" using tt h by (simp add: thread_timers_def)
  have h1: "k_obj ?s1 ?t = Some h" and tm1: "k_timer ?s1 ?t = Some ?tm"
    and k1: "kinv ?s1" and tt1: "thread_timers ?s1" using h kw1 by (simp_all add: kwf_def)
  from start_hard [OF k1 h1 h(2) hard tm1] obtain l where
    ti: "timer_insert ((k_timer ?s1)(?t \<mapsto> tm\<lparr>tm_init_tick := timeout, tm_timeout_tick := rt_tick s + timeout\<rparr>))
        (rt_tick s + timeout) ?t (remove1 ?t (k_timers ?s1 HardTimers)) = Some l"
    and st: "rt_timer_start ?t ?s1 = Some (RT_EOK, restarted ?t h ?tm l ?s1)"
    and k2: "kinv (restarted ?t h ?tm l ?s1)" by auto
  have "wait_timer t timeout s = Some (restarted ?t h ?tm l ?s1)" using pos c st by (simp add: wait_timer_def)
  moreover have "armed_ok (restarted ?t h ?tm l ?s1)"
    using kwfD(3) [OF kw] th su timer_insert_set [OF ti] set_remove1_subset [of ?t "k_timers s HardTimers"]
    unfolding armed_ok_def by (auto simp: restarted_def)
  then have "kwf (restarted ?t h ?tm l ?s1)" using k2 thread_timers_restarted [OF tt1 h1 tm1] by (simp add: kwf_def)
  moreover have "set l = insert ?t (set (remove1 ?t (k_timers s HardTimers)))" using timer_insert_set [OF ti] by simp
  ultimately show ?thesis using h by (intro exI [of _ h] exI [of _ ?tm] exI [of _ l] exI [of _ ?s1]) simp
qed

lemma wait_timer_spec:
  assumes kw: "kwf s" and th: "k_thread s t = Some th" and su: "suspended th"
    and to: "timeout \<noteq> 0x7fffffff"
  shows "\<exists>s'. wait_timer t timeout s = Some s' \<and> kwf s' \<and> ipc_same s s' \<and> k_thread s' = k_thread s \<and>
    k_list s' = k_list s \<and> rt_current_thread s' = rt_current_thread s \<and>
    rt_thread_ready_priority_group s' = rt_thread_ready_priority_group s \<and>
    (sint timeout > 0 \<longrightarrow> timer_set t (rt_tick s + timeout) s')"
proof (cases "sint timeout > 0")
  case False
  with kw show ?thesis by (simp add: wait_timer_def)
next
  case True
  from wait_timer_restarts [OF kw th su True to] obtain h tm l s1 where
    w: "wait_timer t timeout s = Some (restarted (ThreadTimer t) h tm l s1)" "kwf (restarted (ThreadTimer t) h tm l s1)"
      "tm_init_tick tm = timeout" "ThreadTimer t \<in> set l" "k_obj s (ThreadTimer t) = Some h"
    and s1: "s1 = s\<lparr>k_timer := (k_timer s)(ThreadTimer t \<mapsto> tm)\<rparr>" by auto
  then show ?thesis
    by (intro exI [of _ "restarted (ThreadTimer t) h tm l s1"])
      (simp add: ipc_same_def is_class_def restarted_def timer_set_def timeout_of_def s1)
qed

text \<open>
  After the scheduling step that ends the first part of a blocking call: the thread is still in
  its queue and suspended, its timer runs when there is a timeout, no other thread has lost
  more than the processor, and when the scheduler is not locked and a thread was ready, the
  processor is with a thread of the highest priority that is ready.
\<close>

definition prev_error :: "kstate \<Rightarrow> addr \<Rightarrow> rt_err" where
  "prev_error s t = (case k_thread s t of None \<Rightarrow> 0 | Some th \<Rightarrow> th_error th)"

definition blocked :: "lhead \<Rightarrow> addr \<Rightarrow> rt_err \<Rightarrow> u8 \<Rightarrow> u32 \<Rightarrow> kstate \<Rightarrow> kstate \<Rightarrow> bool" where
  "blocked l t e flag timeout s s' \<longleftrightarrow> kwf s' \<and> ipc_same s s' \<and> rt_current_thread s' \<noteq> None \<and>
    (\<forall>m. (\<forall>p. m \<noteq> ReadyQ p) \<longrightarrow>
      k_list s' m = (if m = l then enqueue flag (k_thread s) t (k_list s l) else k_list s m)) \<and>
    (\<exists>th x. k_thread s t = Some th \<and> suspended (set_state x th) \<and>
      k_thread s' t = Some (set_state x (th\<lparr>th_error := e\<rparr>))) \<and>
    (\<forall>u th. u \<noteq> t \<longrightarrow> k_thread s u = Some th \<longrightarrow>
      (if runnable th then \<exists>th'. k_thread s' u = Some th' \<and> runnable th' else k_thread s' u = Some th)) \<and>
    (sint timeout > 0 \<longrightarrow> timer_set t (rt_tick s + timeout) s') \<and>
    (rt_scheduler_lock_nest s = 0 \<and> rt_thread_ready_priority_group s \<noteq> 0 \<longrightarrow> highest_running s')"

text \<open>The group of the ready priorities follows from the ready queues.\<close>

lemma ready_group_eq:
  assumes "kinv s" and "kinv s'" and "\<And>p. k_list s' (ReadyQ p) = k_list s (ReadyQ p)"
  shows "rt_thread_ready_priority_group s' = rt_thread_ready_priority_group s"
proof (rule bit_word_eqI)
  fix n
  assume "n < LENGTH(32)"
  then have n: "n < RT_THREAD_PRIORITY_MAX" by simp
  show "bit (rt_thread_ready_priority_group s') n = bit (rt_thread_ready_priority_group s) n"
    using inv_outD(5) [OF kinvD(5) [OF assms(1), of "{}"] n] inv_outD(5) [OF kinvD(5) [OF assms(2), of "{}"] n] assms(3) by simp
qed

lemma ready_group_nonzero:
  assumes k: "kinv s" and th: "k_thread s t = Some th" "runnable th" and c: "rt_current_thread s \<noteq> Some t"
  shows "rt_thread_ready_priority_group s \<noteq> 0"
proof -
  have "state_ok s t th" by (rule inv_outD(4) [OF kinvD(5) [OF k, of "{}"] th(1)]) simp
  with th(2) c have "t \<in> set (k_list s (ReadyQ (prio th)))" by (auto simp: state_ok_def runnable_def)
  moreover have "prio th < RT_THREAD_PRIORITY_MAX"
    using inv_outD(3) [OF kinvD(5) [OF k, of "{}"] th(1)] by (simp add: prio_ok_def)
  ultimately have "bit (rt_thread_ready_priority_group s) (prio th)"
    using inv_outD(5) [OF kinvD(5) [OF k, of "{}"]] by auto
  then show ?thesis by auto
qed

lemma blockedD:
  assumes "blocked l t e flag timeout s s'"
  shows "kwf s'" "ipc_same s s'" "rt_current_thread s' \<noteq> None"
    "(\<And>p. m \<noteq> ReadyQ p) \<Longrightarrow> k_list s' m = (if m = l then enqueue flag (k_thread s) t (k_list s l) else k_list s m)"
    "\<exists>th'. k_thread s' t = Some th' \<and> suspended th' \<and> th_error th' = e"
    "sint timeout > 0 \<Longrightarrow> timer_set t (rt_tick s + timeout) s'"
    "rt_scheduler_lock_nest s = 0 \<Longrightarrow> rt_thread_ready_priority_group s \<noteq> 0 \<Longrightarrow> highest_running s'"
  using assms by (auto simp: blocked_def suspended_def set_state_def)

lemma highest_runs: "highest_running s \<Longrightarrow> k_thread s t = Some th \<Longrightarrow> suspended th \<Longrightarrow> rt_current_thread s \<noteq> Some t"
  by (auto simp: highest_running_def dest: suspended_no_ready)

lemma set_state_error: "(set_state x th)\<lparr>th_error := e\<rparr> = set_state x (th\<lparr>th_error := e\<rparr>)"
  by (simp add: set_state_def)

lemma suspended_set_error [simp]: "suspended (set_state x (th\<lparr>th_error := e\<rparr>)) = suspended (set_state x th)"
  by (simp add: suspended_def set_state_def)

text \<open>Writing the error code before the suspension.\<close>

lemma blocked_error:
  assumes b: "blocked l t e flag timeout (s\<lparr>k_thread := (k_thread s)(t \<mapsto> th\<lparr>th_error := e\<rparr>)\<rparr>) s'"
    and th: "k_thread s t = Some th"
  shows "blocked l t e flag timeout s s'"
proof -
  have "prio_of ((k_thread s)(t \<mapsto> th\<lparr>th_error := e\<rparr>)) = prio_of (k_thread s)"
    using th by (auto simp: prio_of_def)
  then have q: "enqueue flag ((k_thread s)(t \<mapsto> th\<lparr>th_error := e\<rparr>)) t = enqueue flag (k_thread s) t"
    by (intro ext) (simp add: enqueue_def)
  show ?thesis using b th unfolding blocked_def by (simp add: q ipc_same_def is_class_def)
qed

lemma schedule_blocked_spec:
  assumes kw0: "kwf s" and kw: "kwf s1" and w: "waiting l t flag s s1" and l: "is_waitq l" and cur: "rt_current_thread s \<noteq> None"
    and e: "ipc_same s1 s2" "k_thread s2 = k_thread s1" "k_list s2 = k_list s1" "rt_current_thread s2 = rt_current_thread s1"
    and kw2: "kwf s2" and tm: "sint timeout > 0 \<longrightarrow> timer_set t (rt_tick s + timeout) s2"
  shows "\<exists>s3. rt_schedule s2 = Some s3 \<and> blocked l t (prev_error s t) flag timeout s s3"
proof -
  obtain th x where th: "k_thread s t = Some th" "x \<in> {4, 6, 7}" "k_thread s1 = (k_thread s)(t \<mapsto> set_state x th)"
    and w1: "ipc_same s s1" "rt_current_thread s1 = rt_current_thread s"
      "k_list s1 = (k_list s)(l := enqueue flag (k_thread s) t (k_list s l))"
    using w by (auto simp: waiting_def)
  have k2: "kinv s2" using kw2 by (simp add: kwf_def)
  have c2: "rt_current_thread s2 \<noteq> None" using e w1 cur by simp
  from schedule_kinv [OF k2 c2] obtain s3 where s3: "rt_schedule s2 = Some s3" "kinv s3" "sched_frame s2 s3"
    "rt_scheduler_lock_nest s2 = 0 \<and> rt_thread_ready_priority_group s2 \<noteq> 0 \<longrightarrow> highest_running s3" by blast
  have "k_list s2 (ReadyQ p) = k_list s (ReadyQ p)" for p using e w1 l by auto
  then have g: "rt_thread_ready_priority_group s2 = rt_thread_ready_priority_group s"
    by (rule ready_group_eq [OF kwfD(1) [OF kw0] k2])
  have "rt_scheduler_lock_nest s2 = rt_scheduler_lock_nest s"
    using ipc_same_trans [OF w1(1) e(1)] by (simp add: ipc_same_def)
  with g s3(4) have hr: "rt_scheduler_lock_nest s = 0 \<and> rt_thread_ready_priority_group s \<noteq> 0 \<longrightarrow> highest_running s3" by simp
  have c3: "rt_current_thread s3 \<noteq> None" by (rule schedule_current [OF k2 c2 s3(1)])
  have su: "suspended (set_state x th)" by (rule suspended_set_state [OF th(2)])
  have t2: "k_thread s2 t = Some (set_state x th)" using e th by simp
  have t3: "k_thread s3 t = Some (set_state x th)"
    using sched_frame_quiet [OF s3(3) t2] suspended_no_ready [OF su] by blast
  have oth: "if runnable h then \<exists>th'. k_thread s3 u = Some th' \<and> runnable th' else k_thread s3 u = Some h"
    if "u \<noteq> t" "k_thread s u = Some h" for u h
  proof -
    have "k_thread s2 u = Some h" using that e th by simp
    with s3(3) show ?thesis by (simp add: sched_frame_def)
  qed
  have f: "k_timers s3 = k_timers s2" "k_timer s3 = k_timer s2" using sched_frame_fields [OF s3(3)] by simp_all
  have "blocked l t (prev_error s t) flag timeout s s3"
    unfolding blocked_def
  proof (intro conjI allI impI)
    show "kwf s3" by (rule kwf_sched [OF kw2 s3(2,3)])
    show "ipc_same s s3" by (rule ipc_same_trans [OF w1(1) ipc_same_trans [OF e(1) ipc_same_sched [OF s3(3)]]])
    show "rt_current_thread s3 \<noteq> None" by (rule c3)
    show "k_list s3 m = (if m = l then enqueue flag (k_thread s) t (k_list s l) else k_list s m)" if "\<forall>p. m \<noteq> ReadyQ p" for m
      using sched_frame_queue [OF s3(3), of m] that e w1 by simp
    have "th\<lparr>th_error := prev_error s t\<rparr> = th" using th(1) by (simp add: prev_error_def)
    then show "\<exists>th x. k_thread s t = Some th \<and> suspended (set_state x th) \<and>
        k_thread s3 t = Some (set_state x (th\<lparr>th_error := prev_error s t\<rparr>))"
      using th(1) su t3 by (intro exI [of _ th] exI [of _ x]) simp
    show "if runnable h then \<exists>th'. k_thread s3 u = Some th' \<and> runnable th' else k_thread s3 u = Some h"
      if "u \<noteq> t" "k_thread s u = Some h" for u h by (rule oth [OF that])
    show "timer_set t (rt_tick s + timeout) s3" if "0 < sint timeout" using tm that f by (simp add: timer_set_def)
    show "highest_running s3" if "rt_scheduler_lock_nest s = 0 \<and> rt_thread_ready_priority_group s \<noteq> 0" using hr that by blast
  qed
  with s3(1) show ?thesis by blast
qed

text \<open>The three steps of a blocking call together.\<close>

lemma block_spec:
  assumes kw: "kwf s" and cur: "rt_current_thread s = Some t" and th: "k_thread s t = Some th"
    and r: "state_of th = RT_THREAD_RUNNING" and l: "is_waitq l" and fl: "flag = RT_IPC_FLAG_FIFO \<or> flag = RT_IPC_FLAG_PRIO"
    and x: "suspend_stat sf = Some x" and to: "timeout \<noteq> 0x7fffffff"
  shows "\<exists>s1 s2 s3. ipc_list_suspend l t flag sf s = Some (RT_EOK, s1) \<and> wait_timer t timeout s1 = Some s2 \<and>
    rt_schedule s2 = Some s3 \<and> waiting l t flag s s1 \<and> blocked l t (th_error th) flag timeout s s3"
proof -
  from list_suspend_spec [OF kw cur th r l fl x] obtain s1 where
    s1: "ipc_list_suspend l t flag sf s = Some (RT_EOK, s1)" "kwf s1" "waiting l t flag s s1" by blast
  then obtain x where t1: "k_thread s1 t = Some (set_state x th)" "x \<in> {4, 6, 7}"
    using th by (auto simp: waiting_def)
  from wait_timer_spec [OF s1(2) t1(1) suspended_set_state [OF t1(2)] to] obtain s2 where
    s2: "wait_timer t timeout s1 = Some s2" "kwf s2" "ipc_same s1 s2" "k_thread s2 = k_thread s1"
      "k_list s2 = k_list s1" "rt_current_thread s2 = rt_current_thread s1"
      "sint timeout > 0 \<longrightarrow> timer_set t (rt_tick s1 + timeout) s2" by blast
  have "rt_tick s1 = rt_tick s" using s1(3) by (simp add: waiting_def ipc_same_def)
  then have tm: "sint timeout > 0 \<longrightarrow> timer_set t (rt_tick s + timeout) s2" using s2(7) by simp
  have c: "rt_current_thread s \<noteq> None" using cur by simp
  have "prev_error s t = th_error th" using th by (simp add: prev_error_def)
  with schedule_blocked_spec [OF kw s1(2,3) l c s2(3-6,2) tm] s1 s2(1) show ?thesis by auto
qed

text \<open>The queueing flag of an IPC object, and the header of the example objects.\<close>

definition ipc_flag :: "kstate \<Rightarrow> addr \<Rightarrow> u8" where
  "ipc_flag s a = (case k_obj s (Obj a) of None \<Rightarrow> 0 | Some h \<Rightarrow> obj_flag h)"

definition ex_ipc_header :: "u8 \<Rightarrow> u8 \<Rightarrow> rt_object" where
  "ex_ipc_header c flag = \<lparr>obj_name = [], obj_type = c OR 0x80, obj_flag = flag\<rparr>"

text \<open>The context a thread calls the kernel from.\<close>

definition thread_context :: "addr \<Rightarrow> kstate \<Rightarrow> bool" where
  "thread_context t s \<longleftrightarrow> rt_current_thread s = Some t \<and> rt_scheduler_lock_nest s = 0 \<and> rt_interrupt_nest s = 0 \<and>
    (\<exists>th. k_thread s t = Some th \<and> state_of th = RT_THREAD_RUNNING)"

lemma scheduler_available [simp]: "thread_context t s \<Longrightarrow> RT_DEBUG_SCHEDULER_AVAILABLE b s = Some ()"
  by (simp add: thread_context_def RT_DEBUG_SCHEDULER_AVAILABLE_def rt_critical_level_def
      RT_DEBUG_IN_THREAD_CONTEXT_def rt_thread_self_def RT_DEBUG_NOT_IN_INTERRUPT_def rt_interrupt_get_nest_def)

lemma thread_context_error:
  "thread_context t s \<Longrightarrow> k_thread s t = Some th \<Longrightarrow>
   thread_context t (s\<lparr>k_thread := (k_thread s)(t \<mapsto> th\<lparr>th_error := e\<rparr>)\<rparr>)"
  by (simp add: thread_context_def)

lemma block_error_spec:
  assumes kw: "kwf s" and ctx: "thread_context t s" and th: "k_thread s t = Some th"
    and l: "is_waitq l" and fl: "flag = RT_IPC_FLAG_FIFO \<or> flag = RT_IPC_FLAG_PRIO"
    and x: "suspend_stat sf \<noteq> None" and to: "timeout \<noteq> 0x7fffffff"
  shows "\<exists>s1 s2 s3. ipc_list_suspend l t flag sf (s\<lparr>k_thread := (k_thread s)(t \<mapsto> th\<lparr>th_error := e\<rparr>)\<rparr>) = Some (RT_EOK, s1) \<and>
    wait_timer t timeout s1 = Some s2 \<and> rt_schedule s2 = Some s3 \<and>
    waiting l t flag (s\<lparr>k_thread := (k_thread s)(t \<mapsto> th\<lparr>th_error := e\<rparr>)\<rparr>) s1 \<and> blocked l t e flag timeout s s3"
proof -
  let ?s = "s\<lparr>k_thread := (k_thread s)(t \<mapsto> th\<lparr>th_error := e\<rparr>)\<rparr>"
  have r: "state_of th = RT_THREAD_RUNNING" and cur: "rt_current_thread ?s = Some t"
    using ctx th by (simp_all add: thread_context_def)
  have kw1: "kwf ?s" by (rule kwf_error [OF kw th]) (simp add: r)
  have th1: "k_thread ?s t = Some (th\<lparr>th_error := e\<rparr>)" "state_of (th\<lparr>th_error := e\<rparr>) = 3" using r by simp_all
  from x obtain y where y: "suspend_stat sf = Some y" by auto
  from block_spec [OF kw1 cur th1 l fl y to] blocked_error [OF _ th] show ?thesis by fastforce
qed

text \<open>The same for the operations outside \<open>ipc.c\<close>, which suspend the thread and enter it into the queue themselves, at
  its end or its front.\<close>

lemma suspend_block_spec:
  fixes l flag s t th e
  defines "q \<equiv> enqueue flag (k_thread s) t (k_list s l)"
  assumes kw: "kwf s" and ctx: "thread_context t s" and th: "k_thread s t = Some th"
    and l: "is_waitq l" and x: "suspend_stat sf = Some x" and to: "timeout \<noteq> 0x7fffffff"
  shows "\<exists>s1 s2 s3. rt_thread_suspend_with_flag t sf (s\<lparr>k_thread := (k_thread s)(t \<mapsto> th\<lparr>th_error := e\<rparr>)\<rparr>) = Some (RT_EOK, s1) \<and>
    k_list s1 = k_list s \<and> wait_timer t timeout (s1\<lparr>k_list := (k_list s)(l := q)\<rparr>) = Some s2 \<and> rt_schedule s2 = Some s3 \<and>
    blocked l t e flag timeout s s3"
proof -
  let ?h = "th\<lparr>th_error := e\<rparr>" let ?s = "s\<lparr>k_thread := (k_thread s)(t \<mapsto> ?h)\<rparr>"
  have r: "state_of th = RT_THREAD_RUNNING" and cur: "rt_current_thread ?s = Some t"
    using ctx th by (simp_all add: thread_context_def)
  have kw1: "kwf ?s" by (rule kwf_error [OF kw th]) (simp add: r)
  have th1: "k_thread ?s t = Some ?h" "state_of ?h = 3" using r by simp_all
  have "prio_of (k_thread ?s) = prio_of (k_thread s)" using th by (auto simp: prio_of_def)
  then have qe: "enqueue flag (k_thread ?s) t (k_list ?s l) = q" by (simp add: enqueue_def q_def)
  from suspend_enqueue_spec [OF kw1 cur th1 l x] obtain s1 where
    s1: "rt_thread_suspend_with_flag t sf ?s = Some (RT_EOK, s1)" "k_list s1 = k_list ?s"
      "k_thread s1 = (k_thread ?s)(t \<mapsto> set_state x ?h)"
    and w: "kwf (s1\<lparr>k_list := (k_list ?s)(l := q)\<rparr>)" "waiting l t flag ?s (s1\<lparr>k_list := (k_list ?s)(l := q)\<rparr>)"
    unfolding Let_def qe [symmetric] by blast
  define s2 where "s2 = s1\<lparr>k_list := (k_list ?s)(l := q)\<rparr>"
  note w2 = w [folded s2_def]
  have t2: "k_thread s2 t = Some (set_state x ?h)" by (simp add: s2_def s1(3))
  have su: "suspended (set_state x ?h)" by (rule suspended_set_state [OF suspend_stat_cases [OF x]])
  from wait_timer_spec [OF w2(1) t2 su to] obtain s3 where
    s3: "wait_timer t timeout s2 = Some s3" "kwf s3" "ipc_same s2 s3" "k_thread s3 = k_thread s2"
      "k_list s3 = k_list s2" "rt_current_thread s3 = rt_current_thread s2"
      "sint timeout > 0 \<longrightarrow> timer_set t (rt_tick s2 + timeout) s3" by blast
  have "rt_tick s2 = rt_tick ?s" using w2(2) by (simp add: waiting_def ipc_same_def)
  then have ts: "sint timeout > 0 \<longrightarrow> timer_set t (rt_tick ?s + timeout) s3" using s3(7) by simp
  have c: "rt_current_thread ?s \<noteq> None" using cur by simp
  from schedule_blocked_spec [OF kw1 w2 l c s3(3-6,2) ts] obtain s4 where
    s4: "rt_schedule s3 = Some s4" "blocked l t (prev_error ?s t) flag timeout ?s s4" by blast
  have "prev_error ?s t = e" by (simp add: prev_error_def)
  then have "blocked l t e flag timeout s s4" using blocked_error [OF _ th] s4(2) by simp
  with s1 s3(1) s4(1) show ?thesis by (auto simp: s2_def)
qed

text \<open>A thread that may wait.\<close>

lemma ex_timed_context: "thread_context 10 ex_timed"
  by (simp add: thread_context_def ex_timed_def ex_state_def init_kstate_def ex_thread_def state_of_def)

end
