(* ===== verification/Semaphore.thy ===== *)
theory Semaphore
  imports IpcBase
begin

text \<open>
  The counting semaphores of \<open>rt-thread/src/ipc.c\<close>. A released token goes to the first
  waiting thread when there is one, and to the counter otherwise; so the counter is positive
  only while nobody waits.
\<close>

section \<open>Operations\<close>

definition upd_sem :: "addr \<Rightarrow> (rt_semaphore \<Rightarrow> rt_semaphore) \<Rightarrow> kstate \<Rightarrow> kstate option" where
  "upd_sem a f s = do { m \<leftarrow> upd (k_sem s) a f; Some (s\<lparr>k_sem := m\<rparr>) }"

lemma upd_sem_Some [simp]:
  "k_sem s a = Some x \<Longrightarrow> upd_sem a f s = Some (s\<lparr>k_sem := (k_sem s)(a \<mapsto> f x)\<rparr>)"
  by (simp add: upd_sem_def upd_def)

definition rt_sem_init :: "addr \<Rightarrow> u8 list \<Rightarrow> u32 \<Rightarrow> u8 \<Rightarrow> kstate \<Rightarrow> (rt_err \<times> kstate) option" where
  "rt_sem_init sem nm value flag s = do {
    RT_ASSERT (value < 0x10000);
    RT_ASSERT (flag = RT_IPC_FLAG_FIFO \<or> flag = RT_IPC_FLAG_PRIO);
    s \<leftarrow> rt_object_init (Obj sem) RT_Object_Class_Semaphore nm s;
    let s = ipc_object_init sem s;
    let s = s\<lparr>k_sem := (k_sem s)(sem \<mapsto> \<lparr>sem_value = ucast value\<rparr>)\<rparr>;
    s \<leftarrow> upd_obj (Obj sem) (\<lambda>h. h\<lparr>obj_flag := flag\<rparr>) s;
    Some (RT_EOK, s) }"

definition rt_sem_detach :: "addr \<Rightarrow> kstate \<Rightarrow> (rt_err \<times> kstate) option" where
  "rt_sem_detach sem s = do {
    _ \<leftarrow> assert_type (Obj sem) RT_Object_Class_Semaphore s;
    _ \<leftarrow> assert_static (Obj sem) True s;
    s \<leftarrow> ipc_list_resume_all (SuspendQ sem) s;
    s \<leftarrow> rt_object_detach (Obj sem) s;
    Some (RT_EOK, s) }"

definition rt_sem_create :: "addr option \<Rightarrow> u8 list \<Rightarrow> u32 \<Rightarrow> u8 \<Rightarrow> kstate \<Rightarrow> (addr option \<times> kstate) option" where
  "rt_sem_create mem nm value flag s = do {
    RT_ASSERT (value < 0x10000);
    RT_ASSERT (flag = RT_IPC_FLAG_FIFO \<or> flag = RT_IPC_FLAG_PRIO);
    _ \<leftarrow> RT_DEBUG_NOT_IN_INTERRUPT s;
    (a, s) \<leftarrow> rt_object_allocate mem RT_Object_Class_Semaphore nm s;
    case a of
      None \<Rightarrow> Some (None, s)
    | Some sem \<Rightarrow> do {
        let s = ipc_object_init sem s;
        let s = s\<lparr>k_sem := (k_sem s)(sem \<mapsto> \<lparr>sem_value = ucast value\<rparr>)\<rparr>;
        s \<leftarrow> upd_obj (Obj sem) (\<lambda>h. h\<lparr>obj_flag := flag\<rparr>) s;
        Some (Some sem, s) } }"

definition rt_sem_delete :: "addr \<Rightarrow> kstate \<Rightarrow> (rt_err \<times> kstate) option" where
  "rt_sem_delete sem s = do {
    _ \<leftarrow> assert_type (Obj sem) RT_Object_Class_Semaphore s;
    _ \<leftarrow> assert_static (Obj sem) False s;
    _ \<leftarrow> RT_DEBUG_NOT_IN_INTERRUPT s;
    s \<leftarrow> ipc_list_resume_all (SuspendQ sem) s;
    s \<leftarrow> rt_object_delete (Obj sem) s;
    Some (RT_EOK, s) }"

definition sem_take :: "addr \<Rightarrow> u32 \<Rightarrow> int \<Rightarrow> kstate \<Rightarrow> (rt_err outcome \<times> kstate) option" where
  "sem_take sem timeout suspend_flag s = do {
    _ \<leftarrow> assert_type (Obj sem) RT_Object_Class_Semaphore s;
    x \<leftarrow> k_sem s sem;
    _ \<leftarrow> RT_DEBUG_SCHEDULER_AVAILABLE (sem_value x = 0 \<and> timeout \<noteq> 0) s;
    if sem_value x > 0 then do {
      s \<leftarrow> upd_sem sem (\<lambda>x. x\<lparr>sem_value := sem_value x - 1\<rparr>) s;
      Some (Return RT_EOK, s)
    } else if timeout = 0 then Some (Return (- RT_ETIMEOUT), s)
    else do {
      thread \<leftarrow> rt_thread_self s;
      s \<leftarrow> upd_thread thread (\<lambda>th. th\<lparr>th_error := - RT_EINTR\<rparr>) s;
      h \<leftarrow> k_obj s (Obj sem);
      (ret, s) \<leftarrow> ipc_list_suspend (SuspendQ sem) thread (obj_flag h) suspend_flag s;
      if ret \<noteq> RT_EOK then Some (Return ret, s)
      else do {
        s \<leftarrow> wait_timer thread timeout s;
        s \<leftarrow> rt_schedule s;
        Some (Blocked, s) } } }"

text \<open>What the blocked call returns when the thread runs again.\<close>

definition sem_take_resume :: "addr \<Rightarrow> kstate \<Rightarrow> rt_err option" where
  "sem_take_resume thread s = do {
    th \<leftarrow> k_thread s thread;
    Some (if th_error th \<noteq> RT_EOK then th_error th else RT_EOK) }"

definition rt_sem_take :: "addr \<Rightarrow> u32 \<Rightarrow> kstate \<Rightarrow> (rt_err outcome \<times> kstate) option" where
  "rt_sem_take sem time s = sem_take sem time RT_UNINTERRUPTIBLE s"

definition rt_sem_take_interruptible :: "addr \<Rightarrow> u32 \<Rightarrow> kstate \<Rightarrow> (rt_err outcome \<times> kstate) option" where
  "rt_sem_take_interruptible sem time s = sem_take sem time RT_INTERRUPTIBLE s"

definition rt_sem_take_killable :: "addr \<Rightarrow> u32 \<Rightarrow> kstate \<Rightarrow> (rt_err outcome \<times> kstate) option" where
  "rt_sem_take_killable sem time s = sem_take sem time RT_KILLABLE s"

definition rt_sem_trytake :: "addr \<Rightarrow> kstate \<Rightarrow> (rt_err outcome \<times> kstate) option" where
  "rt_sem_trytake sem s = rt_sem_take sem RT_WAITING_NO s"

definition rt_sem_release :: "addr \<Rightarrow> kstate \<Rightarrow> (rt_err \<times> kstate) option" where
  "rt_sem_release sem s = do {
    _ \<leftarrow> assert_type (Obj sem) RT_Object_Class_Semaphore s;
    if k_list s (SuspendQ sem) \<noteq> [] then do {
      s \<leftarrow> ipc_list_resume (SuspendQ sem) s;
      s \<leftarrow> rt_schedule s;
      Some (RT_EOK, s)
    } else do {
      x \<leftarrow> k_sem s sem;
      if sem_value x < RT_SEM_VALUE_MAX then do {
        s \<leftarrow> upd_sem sem (\<lambda>x. x\<lparr>sem_value := sem_value x + 1\<rparr>) s;
        Some (RT_EOK, s)
      } else Some (- RT_EFULL, s) } }"

definition rt_sem_control :: "addr \<Rightarrow> int \<Rightarrow> u32 \<Rightarrow> kstate \<Rightarrow> (rt_err \<times> kstate) option" where
  "rt_sem_control sem cmd arg s = do {
    _ \<leftarrow> assert_type (Obj sem) RT_Object_Class_Semaphore s;
    if cmd = RT_IPC_CMD_RESET then do {
      s \<leftarrow> ipc_list_resume_all (SuspendQ sem) s;
      s \<leftarrow> upd_sem sem (\<lambda>x. x\<lparr>sem_value := ucast arg\<rparr>) s;
      s \<leftarrow> rt_schedule s;
      Some (RT_EOK, s)
    } else Some (- RT_ERROR, s) }"

section \<open>Behaviour of the operations\<close>

definition sem_ok :: "kstate \<Rightarrow> addr \<Rightarrow> bool" where
  "sem_ok s a \<longleftrightarrow> (\<exists>x h. k_sem s a = Some x \<and> k_obj s (Obj a) = Some h \<and>
    obj_type h AND NOT RT_Object_Class_Static = RT_Object_Class_Semaphore \<and>
    (obj_flag h = RT_IPC_FLAG_FIFO \<or> obj_flag h = RT_IPC_FLAG_PRIO) \<and>
    (sem_value x > 0 \<longrightarrow> k_list s (SuspendQ a) = []))"

lemma sem_okD:
  assumes "sem_ok s a"
  shows "is_class (Obj a) RT_Object_Class_Semaphore s" "\<exists>h. k_obj s (Obj a) = Some h \<and> obj_flag h = ipc_flag s a"
    "ipc_flag s a = RT_IPC_FLAG_FIFO \<or> ipc_flag s a = RT_IPC_FLAG_PRIO"
    "k_sem s a = Some x \<Longrightarrow> sem_value x > 0 \<Longrightarrow> k_list s (SuspendQ a) = []"
  using assms by (auto simp: sem_ok_def is_class_def ipc_flag_def)

text \<open>The invariant survives whatever leaves the semaphore alone and only shortens its queue.\<close>

lemma sem_ok_mono:
  assumes "sem_ok s a" and "k_sem s' a = k_sem s a" and "k_obj s' (Obj a) = k_obj s (Obj a)"
    and "\<And>x. k_sem s a = Some x \<Longrightarrow> sem_value x > 0 \<Longrightarrow> k_list s (SuspendQ a) = [] \<Longrightarrow> k_list s' (SuspendQ a) = []"
  shows "sem_ok s' a"
  using assms by (fastforce simp: sem_ok_def)

interpretation sem: ipc_object sem_ok
proof
  fix s s' a assume ok: "sem_ok s a" and q: "quiet s s'"
  show "sem_ok s' a"
    by (rule sem_ok_mono [OF ok]) (use ipc_sameD [OF quietD(1) [OF q]] quiet_empty [OF q] in auto)
qed

lemma take_available:
  assumes "sem_ok s a" and "k_sem s a = Some x" and "sem_value x > 0"
  shows "sem_take a timeout f s = Some (Return RT_EOK, s\<lparr>k_sem := (k_sem s)(a \<mapsto> x\<lparr>sem_value := sem_value x - 1\<rparr>)\<rparr>)"
proof -
  have "RT_DEBUG_SCHEDULER_AVAILABLE (sem_value x = 0 \<and> timeout \<noteq> 0) s = Some ()"
    using assms(3) by (auto simp: RT_DEBUG_SCHEDULER_AVAILABLE_def)
  with sem_okD [OF assms(1)] assms(2,3) show ?thesis by (simp add: sem_take_def assert_type_class)
qed

lemma take_empty:
  assumes "sem_ok s a" and "k_sem s a = Some x" and "sem_value x = 0"
  shows "sem_take a 0 f s = Some (Return (- RT_ETIMEOUT), s)"
  using sem_okD [OF assms(1)] assms(2,3) by (simp add: sem_take_def assert_type_class RT_DEBUG_SCHEDULER_AVAILABLE_def)

lemma take_blocks:
  assumes kw: "kwf s" and ok: "sem_ok s a" and x: "k_sem s a = Some x" "sem_value x = 0"
    and ctx: "thread_context t s" and to: "timeout \<noteq> 0" "timeout \<noteq> 0x7fffffff" and f: "suspend_stat f \<noteq> None"
  shows "\<exists>s'. sem_take a timeout f s = Some (Blocked, s') \<and>
    blocked (SuspendQ a) t (- RT_EINTR) (ipc_flag s a) timeout s s' \<and> sem_ok s' a"
proof -
  obtain th where th: "k_thread s t = Some th" "rt_current_thread s = Some t" using ctx by (auto simp: thread_context_def)
  obtain h where h: "k_obj s (Obj a) = Some h" "obj_flag h = ipc_flag s a" using sem_okD(2) [OF ok] by blast
  from block_error_spec [OF kw ctx th(1) is_waitq_simps(1) sem_okD(3) [OF ok] f to(2), of a "- RT_EINTR"]
  obtain s1 s2 s3 where
    b: "ipc_list_suspend (SuspendQ a) t (ipc_flag s a) f (s\<lparr>k_thread := (k_thread s)(t \<mapsto> th\<lparr>th_error := - 9\<rparr>)\<rparr>) = Some (0, s1)"
      "wait_timer t timeout s1 = Some s2" "rt_schedule s2 = Some s3"
    and bl: "blocked (SuspendQ a) t (- 9) (ipc_flag s a) timeout s s3" by blast
  have "sem_take a timeout f s = Some (Blocked, s3)"
    using sem_okD(1) [OF ok] x to th h b ctx by (simp add: sem_take_def assert_type_class rt_thread_self_def)
  moreover have "sem_ok s3 a"
    by (rule sem_ok_mono [OF ok]) (use ipc_sameD [OF blockedD(2) [OF bl]] x in simp_all)
  ultimately show ?thesis using bl by blast
qed

text \<open>A concrete kernel: the FIFO semaphore 20 with counter 0, and threads 11 and 12 waiting.\<close>

definition ex_sem :: kstate where
  "ex_sem = ex_timed\<lparr>k_obj := (k_obj ex_timed)(Obj 20 \<mapsto> ex_ipc_header 2 0), k_sem := [20 \<mapsto> \<lparr>sem_value = 0\<rparr>]\<rparr>"

lemma ex_sem_simps [simp]:
  "k_sem ex_sem = [20 \<mapsto> \<lparr>sem_value = 0\<rparr>]" "k_list ex_sem = (\<lambda>_. [])(SuspendQ 20 := [11, 12])"
  "k_obj ex_sem (Obj 20) = Some (ex_ipc_header 2 0)" "rt_current_thread ex_sem = Some 10"
  by (simp_all add: ex_sem_def)

lemma ex_sem_kwf: "kwf ex_sem"
proof (rule kwf_new_object [OF ex_timed_kwf])
  show "k_obj ex_timed (Obj 20) = None" by (simp add: ex_timed_def ex_state_def)
  show "k_obj ex_sem = (k_obj ex_timed)(Obj 20 \<mapsto> ex_ipc_header 2 0)" by (simp add: ex_sem_def)
qed (simp_all add: ex_sem_def)

lemma ex_sem_ok: "sem_ok ex_sem 20"
  by (simp add: sem_ok_def ex_ipc_header_def)

lemma ex_sem_context: "thread_context 10 ex_sem"
  by (simp add: thread_context_def ex_sem_def ex_timed_def ex_state_def init_kstate_def ex_thread_def state_of_def)

lemma sem_take_spec:
  assumes "kwf s" and "sem_ok s a" and "k_sem s a = Some x" and "thread_context t s"
    and "timeout \<noteq> 0x7fffffff" and "suspend_stat f \<noteq> None"
  shows "if sem_value x > 0
      then sem_take a timeout f s = Some (Return RT_EOK, s\<lparr>k_sem := (k_sem s)(a \<mapsto> x\<lparr>sem_value := sem_value x - 1\<rparr>)\<rparr>)
    else if timeout = 0 then sem_take a timeout f s = Some (Return (- RT_ETIMEOUT), s)
    else \<exists>s'. sem_take a timeout f s = Some (Blocked, s') \<and>
      blocked (SuspendQ a) t (- RT_EINTR) (ipc_flag s a) timeout s s' \<and>
      sem_ok s' a \<and> sem_take_resume t s' = Some (- RT_EINTR)"
proof (cases "sem_value x > 0")
  case True
  with take_available [OF assms(2,3)] show ?thesis by simp
next
  case False
  then have z: "sem_value x = 0" by (simp add: word_gt_0)
  show ?thesis
  proof (cases "timeout = 0")
    case True
    with take_empty [OF assms(2,3) z] z show ?thesis by simp
  next
    case nz: False
    from take_blocks [OF assms(1,2,3) z assms(4) nz assms(5,6)] obtain s' where
      s': "sem_take a timeout f s = Some (Blocked, s')"
        "blocked (SuspendQ a) t (- 9) (ipc_flag s a) timeout s s'" "sem_ok s' a" by auto
    from blockedD(5) [OF s'(2)] have "sem_take_resume t s' = Some (- 9)" by (auto simp: sem_take_resume_def)
    with s' nz z show ?thesis by auto
  qed
qed

text \<open>C5. The three outcomes of \<open>rt_sem_take\<close> (with any suspend flag): a positive counter is
  decremented; a zero counter without waiting is a timeout that changes nothing; otherwise the
  calling thread is queued in the order of the semaphore's flag, suspended with its timer armed
  for the timeout, and the error code stands at \<open>-RT_EINTR\<close>
  until somebody wakes the thread; when a thread is ready, the processor goes to one of the highest ready priority, which
  is not the caller.\<close>

theorem rt_sem_take_outcomes:
  assumes "kwf s" and "sem_ok s a" and "k_sem s a = Some x" and "thread_context t s"
    and "timeout \<noteq> 0x7fffffff" and "suspend_stat f \<noteq> None"
  shows "if sem_value x > 0
      then sem_take a timeout f s = Some (Return RT_EOK, s\<lparr>k_sem := (k_sem s)(a \<mapsto> x\<lparr>sem_value := sem_value x - 1\<rparr>)\<rparr>)
    else if timeout = 0 then sem_take a timeout f s = Some (Return (- RT_ETIMEOUT), s)
    else \<exists>s'. sem_take a timeout f s = Some (Blocked, s') \<and>
      blocked (SuspendQ a) t (- RT_EINTR) (ipc_flag s a) timeout s s' \<and>
      sem_ok s' a \<and> sem_take_resume t s' = Some (- RT_EINTR) \<and>
      (rt_thread_ready_priority_group s \<noteq> 0 \<longrightarrow> highest_running s' \<and> rt_current_thread s' \<noteq> Some t)"
proof -
  have "highest_running s' \<and> rt_current_thread s' \<noteq> Some t"
    if b: "blocked (SuspendQ a) t (- 9) (ipc_flag s a) timeout s s'" and g: "rt_thread_ready_priority_group s \<noteq> 0" for s'
  proof -
    have h: "highest_running s'" using blockedD(7) [OF b _ g] assms(4) by (simp add: thread_context_def)
    from blockedD(5) [OF b] highest_runs [OF h] h show ?thesis by blast
  qed
  with sem_take_spec [OF assms] show ?thesis by (auto split: if_splits)
qed

text \<open>The same kernel after thread 11 was resumed: it is ready.\<close>

definition ex_sem_ready :: kstate where
  "ex_sem_ready = woken 0 11 (ex_thread 4 5) ex_sem"

lemma ex_sem_ready_facts:
  "kwf ex_sem_ready" "sem_ok ex_sem_ready 20" "k_sem ex_sem_ready 20 = Some \<lparr>sem_value = 0\<rparr>" "thread_context 10 ex_sem_ready"
  "rt_thread_ready_priority_group ex_sem_ready \<noteq> 0" "k_list ex_sem_ready (SuspendQ 20) = [12]" "ipc_flag ex_sem_ready 20 = 0"
proof -
  have th: "k_thread ex_sem 11 = Some (ex_thread 4 5)" "suspended (ex_thread 4 5)"
    by (simp_all add: ex_sem_def ex_timed_def ex_thread_def suspended_def state_of_def)
  show kw: "kwf ex_sem_ready" unfolding ex_sem_ready_def by (rule woken_kwf [OF ex_sem_kwf th])
  have same: "ipc_same ex_sem ex_sem_ready" by (simp add: ex_sem_ready_def)
  show "k_sem ex_sem_ready 20 = Some \<lparr>sem_value = 0\<rparr>" "ipc_flag ex_sem_ready 20 = 0"
    using ipc_sameD(1,11) [OF same] by (simp_all add: ipc_flag_def ex_ipc_header_def)
  with ipc_sameD(11) [OF same, of 20] show "sem_ok ex_sem_ready 20"
    using sem_ok_mono [OF ex_sem_ok, of ex_sem_ready] by simp
  show q: "k_list ex_sem_ready (SuspendQ 20) = [12]" by (simp add: ex_sem_ready_def woken_queue)
  have t: "k_thread ex_sem_ready 11 = Some (set_state 2 (ex_thread 4 5\<lparr>th_error := 0\<rparr>))"
    "k_thread ex_sem_ready 10 = k_thread ex_sem 10" "rt_current_thread ex_sem_ready = Some 10"
    by (simp_all add: ex_sem_ready_def)
  show "thread_context 10 ex_sem_ready"
    using ex_sem_context t(2,3) ipc_sameD [OF same] by (auto simp: thread_context_def)
  show "rt_thread_ready_priority_group ex_sem_ready \<noteq> 0"
    by (rule ready_group_nonzero [OF kwfD(1) [OF kw] t(1)]) (use t(3) in \<open>simp_all add: runnable_def\<close>)
qed

lemma rt_sem_take_outcomes_witness:
  "\<exists>s'. rt_sem_take 20 5 ex_sem_ready = Some (Blocked, s') \<and> k_list s' (SuspendQ 20) = [12, 10] \<and>
    sem_take_resume 10 s' = Some (- RT_EINTR) \<and> timer_set 10 (rt_tick ex_sem_ready + 5) s' \<and> rt_current_thread s' \<noteq> Some 10"
proof -
  note f = ex_sem_ready_facts
  have "suspend_stat 2 \<noteq> None" by (simp add: suspend_stat_def)
  with rt_sem_take_outcomes [OF f(1-4), of 5 2] f(5) obtain s' where
    s': "sem_take 20 5 2 ex_sem_ready = Some (Blocked, s')"
    and b: "blocked (SuspendQ 20) 10 (- 9) (ipc_flag ex_sem_ready 20) 5 ex_sem_ready s'"
    and r: "sem_take_resume 10 s' = Some (- 9)" "rt_current_thread s' \<noteq> Some 10" by auto
  show ?thesis
    using s' r f(6,7) blockedD(4) [OF b, of "SuspendQ 20"] blockedD(6) [OF b] by (auto simp: rt_sem_take_def enqueue_def)
qed

text \<open>The release of a token nobody waits for.\<close>

lemma release_count:
  assumes ok: "sem_ok s a" and x: "k_sem s a = Some x" and q: "k_list s (SuspendQ a) = []"
  shows "rt_sem_release a s = (if sem_value x < RT_SEM_VALUE_MAX
    then Some (RT_EOK, s\<lparr>k_sem := (k_sem s)(a \<mapsto> x\<lparr>sem_value := sem_value x + 1\<rparr>)\<rparr>)
    else Some (- RT_EFULL, s))"
  using sem_okD(1) [OF ok] x q by (simp add: rt_sem_release_def assert_type_class)

lemma release_wakes:
  assumes kw: "kwf s" and ok: "sem_ok s a" and q: "k_list s (SuspendQ a) = t # rest"
    and cur: "rt_current_thread s \<noteq> None"
  shows "\<exists>s'. rt_sem_release a s = Some (RT_EOK, s') \<and> kwf s' \<and> sem_ok s' a \<and> ipc_same s s' \<and>
    k_list s' (SuspendQ a) = rest \<and> rt_current_thread s' \<noteq> None \<and>
    (\<exists>th. k_thread s' t = Some th \<and> runnable th \<and> th_error th = RT_EOK) \<and>
    (rt_scheduler_lock_nest s = 0 \<and> rt_thread_ready_priority_group (woken 0 t (the (k_thread s t)) s) \<noteq> 0 \<longrightarrow> highest_running s')"
proof -
  from list_resume_spec [OF kw is_waitq_simps(1) q] obtain th where
    th: "k_thread s t = Some th" "suspended th" and r: "ipc_list_resume (SuspendQ a) s = Some (woken 0 t th s)"
      "kwf (woken 0 t th s)" "k_list (woken 0 t th s) (SuspendQ a) = rest" by blast
  let ?w = "woken 0 t th s"
  have cw: "rt_current_thread ?w \<noteq> None" using cur by simp
  from schedule_kinv [OF kwfD(1) [OF r(2)] cw] obtain s' where
    s': "rt_schedule ?w = Some s'" "kinv s'" "sched_frame ?w s'"
      "rt_scheduler_lock_nest ?w = 0 \<and> rt_thread_ready_priority_group ?w \<noteq> 0 \<longrightarrow> highest_running s'" by blast
  have same: "ipc_same s s'" by (rule ipc_same_trans [OF woken_same ipc_same_sched [OF s'(3)]])
  have q': "k_list s' (SuspendQ a) = rest" using sched_frame_queue [OF s'(3), of "SuspendQ a"] r(3) by simp
  define h where "h = set_state (if rt_current_thread s = Some t then 3 else 2) (th\<lparr>th_error := 0\<rparr>)"
  have wh: "k_thread ?w t = Some h" and hr: "runnable h" "th_error h = 0" by (simp_all add: h_def)
  from sched_frame_runnable [OF s'(3) wh hr(1)] sched_frame_thread [OF s'(3) wh] hr
  have rt: "\<exists>th. k_thread s' t = Some th \<and> runnable th \<and> th_error th = 0" by auto
  have "rt_sem_release a s = Some (0, s')"
    using sem_okD(1) [OF ok] q r(1) s'(1) by (simp add: rt_sem_release_def assert_type_class)
  moreover have "kwf s'" by (rule kwf_sched [OF r(2) s'(2,3)])
  moreover have "sem_ok s' a"
    by (rule sem_ok_mono [OF ok]) (use ipc_sameD [OF same] q in simp_all)
  moreover have "rt_current_thread s' \<noteq> None" by (rule schedule_current [OF kwfD(1) [OF r(2)] cw s'(1)])
  moreover have "rt_scheduler_lock_nest ?w = rt_scheduler_lock_nest s" using ipc_sameD(7) [OF woken_same] .
  ultimately show ?thesis using same q' rt s'(4) th(1) by auto
qed

text \<open>C6. A release while threads wait: the counter stays, the first thread of the queue is
  ready or running and its blocked \<open>rt_sem_take\<close> will return \<open>RT_EOK\<close>, and the rest of
  the queue keeps its order.\<close>

theorem rt_sem_release_hands_over:
  assumes "kwf s" and "sem_ok s a" and "k_list s (SuspendQ a) = t # rest" and "rt_current_thread s \<noteq> None"
  shows "\<exists>s' th. rt_sem_release a s = Some (RT_EOK, s') \<and> kwf s' \<and> sem_ok s' a \<and> k_sem s' = k_sem s \<and>
    k_list s' (SuspendQ a) = rest \<and> k_thread s' t = Some th \<and> runnable th \<and> sem_take_resume t s' = Some RT_EOK"
proof -
  from release_wakes [OF assms] obtain s' th where
    "rt_sem_release a s = Some (0, s')" "kwf s'" "sem_ok s' a" "ipc_same s s'" "k_list s' (SuspendQ a) = rest"
    "k_thread s' t = Some th" "runnable th" "th_error th = 0" by auto
  then show ?thesis by (auto simp: sem_take_resume_def ipc_same_def)
qed

lemma rt_sem_release_hands_over_witness:
  "\<exists>s' th. rt_sem_release 20 ex_sem = Some (RT_EOK, s') \<and> kwf s' \<and> k_list s' (SuspendQ 20) = [12] \<and>
    k_thread s' 11 = Some th \<and> runnable th \<and> sem_take_resume 11 s' = Some RT_EOK"
  using rt_sem_release_hands_over [OF ex_sem_kwf ex_sem_ok, of 11 "[12]"] by auto

section \<open>Tokens\<close>

text \<open>
  A history of the calls on semaphore \<open>a\<close>, of timer checks and of scheduling steps, with the
  number of successful releases and of successful takes (at once, or by being handed a token).
\<close>

inductive sem_run :: "addr \<Rightarrow> nat \<Rightarrow> nat \<Rightarrow> kstate \<Rightarrow> kstate \<Rightarrow> bool" for a where
  sem_start: "sem_run a 0 0 s s"
| sem_taken: "sem_run a n m s s1 \<Longrightarrow> sem_take a timeout f s1 = Some (Return RT_EOK, s2) \<Longrightarrow>
    thread_context t s1 \<Longrightarrow> timeout \<noteq> 0x7fffffff \<Longrightarrow> suspend_stat f \<noteq> None \<Longrightarrow> sem_run a n (Suc m) s s2"
| sem_refused: "sem_run a n m s s1 \<Longrightarrow> sem_take a timeout f s1 = Some (Return e, s2) \<Longrightarrow> e \<noteq> RT_EOK \<Longrightarrow>
    thread_context t s1 \<Longrightarrow> timeout \<noteq> 0x7fffffff \<Longrightarrow> suspend_stat f \<noteq> None \<Longrightarrow> sem_run a n m s s2"
| sem_waits: "sem_run a n m s s1 \<Longrightarrow> sem_take a timeout f s1 = Some (Blocked, s2) \<Longrightarrow>
    thread_context t s1 \<Longrightarrow> timeout \<noteq> 0x7fffffff \<Longrightarrow> suspend_stat f \<noteq> None \<Longrightarrow> sem_run a n m s s2"
| sem_handed: "sem_run a n m s s1 \<Longrightarrow> rt_sem_release a s1 = Some (RT_EOK, s2) \<Longrightarrow>
    k_list s1 (SuspendQ a) \<noteq> [] \<Longrightarrow> sem_run a (Suc n) (Suc m) s s2"
| sem_counted: "sem_run a n m s s1 \<Longrightarrow> rt_sem_release a s1 = Some (RT_EOK, s2) \<Longrightarrow>
    k_list s1 (SuspendQ a) = [] \<Longrightarrow> sem_run a (Suc n) m s s2"
| sem_overflow: "sem_run a n m s s1 \<Longrightarrow> rt_sem_release a s1 = Some (e, s2) \<Longrightarrow> e \<noteq> RT_EOK \<Longrightarrow> sem_run a n m s s2"
| sem_env: "sem_run a n m s s1 \<Longrightarrow> env_step s1 s2 \<Longrightarrow> sem_run a n m s s2"

definition sem_count :: "kstate \<Rightarrow> addr \<Rightarrow> nat" where
  "sem_count s a = (case k_sem s a of None \<Rightarrow> 0 | Some x \<Rightarrow> unat (sem_value x))"

definition sem_state :: "kstate \<Rightarrow> addr \<Rightarrow> bool" where
  "sem_state s a \<longleftrightarrow> kwf s \<and> sem_ok s a \<and> rt_current_thread s \<noteq> None"

lemma sem_count_eq: "k_sem s' = k_sem s \<Longrightarrow> sem_count s' a = sem_count s a"
  by (simp add: sem_count_def)

lemma take_step:
  assumes st: "sem_state s a" and call: "sem_take a timeout f s = Some (r, s')" and ctx: "thread_context t s"
    and to: "timeout \<noteq> 0x7fffffff" and f: "suspend_stat f \<noteq> None"
  shows "sem_state s' a \<and> (if r = Return RT_EOK then sem_count s a = Suc (sem_count s' a) else sem_count s' a = sem_count s a)"
proof -
  have kw: "kwf s" and ok: "sem_ok s a" and cur: "rt_current_thread s \<noteq> None" using st by (simp_all add: sem_state_def)
  obtain x where x: "k_sem s a = Some x" using ok by (auto simp: sem_ok_def)
  note o' = sem_take_spec [OF kw ok x ctx to f]
  consider (pos) "sem_value x > 0" | (zero) "sem_value x = 0" "timeout = 0" | (wait) "sem_value x = 0" "timeout \<noteq> 0"
    using word_gt_0 [of "sem_value x"] by (cases "sem_value x = 0"; cases "timeout = 0") auto
  then show ?thesis
  proof cases
    case pos
    let ?s = "s\<lparr>k_sem := (k_sem s)(a \<mapsto> x\<lparr>sem_value := sem_value x - 1\<rparr>)\<rparr>"
    have e: "r = Return 0" "s' = ?s" using pos o' call by simp_all
    have q: "k_list s (SuspendQ a) = []" by (rule sem_okD(4) [OF ok x pos])
    have "sem_ok ?s a" using ok q by (auto simp: sem_ok_def)
    moreover have "kwf ?s" using kwf_same_ipc [of ?s s] kw by simp
    moreover have "unat (sem_value x) = Suc (unat (sem_value x - 1))"
      using pos by (simp add: unat_minus_one unat_gt_0)
    ultimately show ?thesis using e x cur by (simp add: sem_state_def sem_count_def)
  next
    case zero
    with o' call st show ?thesis by auto
  next
    case wait
    with o' call obtain b: "blocked (SuspendQ a) t (- 9) (ipc_flag s a) timeout s s'" and "sem_ok s' a" "r = Blocked"
      by auto
    with blockedD(1,3) [OF b] sem_count_eq [OF ipc_sameD(1) [OF blockedD(2) [OF b]]] show ?thesis
      by (simp add: sem_state_def)
  qed
qed

lemma release_step:
  assumes st: "sem_state s a" and call: "rt_sem_release a s = Some (r, s')"
  shows "sem_state s' a \<and> sem_count s' a =
    (if r = RT_EOK \<and> k_list s (SuspendQ a) = [] then Suc (sem_count s a) else sem_count s a)"
proof -
  have kw: "kwf s" and ok: "sem_ok s a" and cur: "rt_current_thread s \<noteq> None" using st by (simp_all add: sem_state_def)
  obtain x where x: "k_sem s a = Some x" using ok by (auto simp: sem_ok_def)
  show ?thesis
  proof (cases "k_list s (SuspendQ a)")
    case (Cons t rest)
    from release_wakes [OF kw ok Cons cur] call have "kwf s'" "sem_ok s' a" "ipc_same s s'" "rt_current_thread s' \<noteq> None"
      by auto
    with Cons sem_count_eq [of s' s] show ?thesis by (simp add: sem_state_def ipc_same_def)
  next
    case Nil
    let ?s = "s\<lparr>k_sem := (k_sem s)(a \<mapsto> x\<lparr>sem_value := sem_value x + 1\<rparr>)\<rparr>"
    note rc = release_count [OF ok x Nil]
    show ?thesis
    proof (cases "sem_value x < RT_SEM_VALUE_MAX")
      case False
      with rc call st show ?thesis by simp
    next
      case True
      have "sem_ok ?s a" using ok Nil x by (auto simp: sem_ok_def)
      moreover have "kwf ?s" using kwf_same_ipc [of ?s s] kw by simp
      moreover have "unat (sem_value x + 1) = Suc (unat (sem_value x))"
        by (rule unat_Suc_less) (use True in \<open>simp only: word_less_nat_alt\<close>)
      moreover have "r = 0" "s' = ?s" using True rc call by simp_all
      ultimately show ?thesis using x cur Nil by (simp add: sem_state_def sem_count_def)
    qed
  qed
qed

text \<open>C4. Conservation of tokens: along every history of takes, releases, timeouts and
  scheduling steps the semaphore stays well-formed (a positive counter means an empty queue),
  and the tokens there were plus those released are those taken plus those left; nothing is
  lost when a waiting thread times out or the counter overflows.\<close>

theorem sem_tokens_conserved:
  assumes "sem_run a n m s s'" and "sem_state s a"
  shows "sem_state s' a \<and> sem_count s a + n = sem_count s' a + m"
  using assms
proof (induction rule: sem_run.induct)
  case (sem_taken n m s s1 timeout f s2 t)
  with take_step [OF _ sem_taken.hyps(2,3,4,5)] show ?case by simp
next
  case (sem_refused n m s s1 timeout f e s2 t)
  with take_step [OF _ sem_refused.hyps(2,4,5,6)] show ?case by simp
next
  case (sem_waits n m s s1 timeout f s2 t)
  with take_step [OF _ sem_waits.hyps(2,3,4,5)] show ?case by simp
next
  case (sem_handed n m s s1 s2)
  with release_step [OF _ sem_handed.hyps(2)] show ?case by simp
next
  case (sem_counted n m s s1 s2)
  with release_step [OF _ sem_counted.hyps(2)] show ?case by simp
next
  case (sem_overflow n m s s1 e s2)
  with release_step [OF _ sem_overflow.hyps(2)] show ?case by simp
next
  case (sem_env n m s s1 s2)
  then have st: "sem.live s1 a" by (simp add: sem_state_def sem.live_def)
  from sem.live_env [OF st sem_env.hyps(2)] have "sem.live s2 a" "sem_count s2 a = sem_count s1 a"
    using sem_count_eq [of s2 s1] by (simp_all add: ipc_same_def)
  with sem_env show ?case by (simp add: sem_state_def sem.live_def)
qed simp

lemma sem_tokens_conserved_witness:
  "\<exists>s'. sem_run 20 1 1 ex_sem s' \<and> sem_state s' 20 \<and> sem_count ex_sem 20 + 1 = sem_count s' 20 + 1"
proof -
  from release_wakes [OF ex_sem_kwf ex_sem_ok, of 11 "[12]"] obtain s' where "rt_sem_release 20 ex_sem = Some (0, s')" by auto
  with sem_run.sem_handed [OF sem_run.sem_start this] have r: "sem_run 20 1 1 ex_sem s'" by simp
  have "sem_state ex_sem 20" using ex_sem_kwf ex_sem_ok by (simp add: sem_state_def)
  with sem_tokens_conserved [OF r] r show ?thesis by blast
qed

end
