(* ===== verification/Event.thy ===== *)
theory Event
  imports IpcBase
begin

text \<open>
  The event sets of \<open>rt-thread/src/ipc.c\<close>. A thread waits for all or for one of the bits
  of a set, and may ask for the bits it receives to be cleared. A send wakes every thread whose
  condition the new set meets, and clears the bits only afterwards, so that all of them see the
  set before any bit is consumed.
\<close>

section \<open>Operations\<close>

definition upd_event :: "addr \<Rightarrow> (rt_event \<Rightarrow> rt_event) \<Rightarrow> kstate \<Rightarrow> kstate option" where
  "upd_event a f s = do { m \<leftarrow> upd (k_event s) a f; Some (s\<lparr>k_event := m\<rparr>) }"

lemma upd_event_Some [simp]:
  "k_event s a = Some x \<Longrightarrow> upd_event a f s = Some (s\<lparr>k_event := (k_event s)(a \<mapsto> f x)\<rparr>)"
  by (simp add: upd_event_def upd_def)

definition rt_event_init :: "addr \<Rightarrow> u8 list \<Rightarrow> u8 \<Rightarrow> kstate \<Rightarrow> (rt_err \<times> kstate) option" where
  "rt_event_init event nm flag s = do {
    RT_ASSERT (flag = RT_IPC_FLAG_FIFO \<or> flag = RT_IPC_FLAG_PRIO);
    s \<leftarrow> rt_object_init (Obj event) RT_Object_Class_Event nm s;
    s \<leftarrow> upd_obj (Obj event) (\<lambda>h. h\<lparr>obj_flag := flag\<rparr>) s;
    let s = ipc_object_init event s;
    Some (RT_EOK, s\<lparr>k_event := (k_event s)(event \<mapsto> \<lparr>evt_set = 0\<rparr>)\<rparr>) }"

definition rt_event_detach :: "addr \<Rightarrow> kstate \<Rightarrow> (rt_err \<times> kstate) option" where
  "rt_event_detach event s = do {
    _ \<leftarrow> assert_type (Obj event) RT_Object_Class_Event s;
    _ \<leftarrow> assert_static (Obj event) True s;
    s \<leftarrow> ipc_list_resume_all (SuspendQ event) s;
    s \<leftarrow> rt_object_detach (Obj event) s;
    Some (RT_EOK, s) }"

definition rt_event_create :: "addr option \<Rightarrow> u8 list \<Rightarrow> u8 \<Rightarrow> kstate \<Rightarrow> (addr option \<times> kstate) option" where
  "rt_event_create mem nm flag s = do {
    RT_ASSERT (flag = RT_IPC_FLAG_FIFO \<or> flag = RT_IPC_FLAG_PRIO);
    _ \<leftarrow> RT_DEBUG_NOT_IN_INTERRUPT s;
    (a, s) \<leftarrow> rt_object_allocate mem RT_Object_Class_Event nm s;
    case a of
      None \<Rightarrow> Some (None, s)
    | Some event \<Rightarrow> do {
        s \<leftarrow> upd_obj (Obj event) (\<lambda>h. h\<lparr>obj_flag := flag\<rparr>) s;
        let s = ipc_object_init event s;
        Some (Some event, s\<lparr>k_event := (k_event s)(event \<mapsto> \<lparr>evt_set = 0\<rparr>)\<rparr>) } }"

definition rt_event_delete :: "addr \<Rightarrow> kstate \<Rightarrow> (rt_err \<times> kstate) option" where
  "rt_event_delete event s = do {
    _ \<leftarrow> assert_type (Obj event) RT_Object_Class_Event s;
    _ \<leftarrow> assert_static (Obj event) False s;
    _ \<leftarrow> RT_DEBUG_NOT_IN_INTERRUPT s;
    s \<leftarrow> ipc_list_resume_all (SuspendQ event) s;
    s \<leftarrow> rt_object_delete (Obj event) s;
    Some (RT_EOK, s) }"

text \<open>
  The test of one waiting thread: the status, and the thread with the bits it receives. A thread
  with neither flag makes the send return \<open>-RT_EINVAL\<close> at once.
\<close>

definition event_check :: "rt_thread \<Rightarrow> u32 \<Rightarrow> (rt_err \<times> rt_thread) option" where
  "event_check th eset =
    (if th_event_info th AND RT_EVENT_FLAG_AND \<noteq> 0 then
       Some (if th_event_set th AND eset = th_event_set th then RT_EOK else - RT_ERROR, th)
     else if th_event_info th AND RT_EVENT_FLAG_OR \<noteq> 0 then
       (if th_event_set th AND eset \<noteq> 0
        then Some (RT_EOK, th\<lparr>th_event_set := th_event_set th AND eset\<rparr>)
        else Some (- RT_ERROR, th))
     else None)"

fun event_wake :: "addr \<Rightarrow> addr list \<Rightarrow> u32 \<Rightarrow> bool \<Rightarrow> kstate \<Rightarrow> (rt_err \<times> u32 \<times> bool \<times> kstate) option" where
  "event_wake event [] need_clear_set need_schedule s = Some (RT_EOK, need_clear_set, need_schedule, s)"
| "event_wake event (n # ns) need_clear_set need_schedule s = do {
     thread \<leftarrow> k_thread s n;
     e \<leftarrow> k_event s event;
     case event_check thread (evt_set e) of
       None \<Rightarrow> Some (- RT_EINVAL, need_clear_set, need_schedule, s)
     | Some (status, thread) \<Rightarrow> do {
         s \<leftarrow> upd_thread n (\<lambda>_. thread) s;
         if status = RT_EOK then do {
           let need_clear_set = (if th_event_info thread AND RT_EVENT_FLAG_CLEAR \<noteq> 0
             then need_clear_set OR th_event_set thread else need_clear_set);
           (_, s) \<leftarrow> rt_thread_resume n s;
           s \<leftarrow> upd_thread n (\<lambda>th. th\<lparr>th_error := RT_EOK\<rparr>) s;
           event_wake event ns need_clear_set True s
         } else event_wake event ns need_clear_set need_schedule s } }"

definition rt_event_send :: "addr \<Rightarrow> u32 \<Rightarrow> kstate \<Rightarrow> (rt_err \<times> kstate) option" where
  "rt_event_send event eset s = do {
    _ \<leftarrow> assert_type (Obj event) RT_Object_Class_Event s;
    if eset = 0 then Some (- RT_ERROR, s)
    else do {
      s \<leftarrow> upd_event event (\<lambda>e. e\<lparr>evt_set := evt_set e OR eset\<rparr>) s;
      if k_list s (SuspendQ event) \<noteq> [] then do {
        (r, need_clear_set, need_schedule, s) \<leftarrow> event_wake event (k_list s (SuspendQ event)) 0 False s;
        if r \<noteq> RT_EOK then Some (r, s)
        else do {
          s \<leftarrow> (if need_clear_set \<noteq> 0
            then upd_event event (\<lambda>e. e\<lparr>evt_set := evt_set e AND NOT need_clear_set\<rparr>) s else Some s);
          s \<leftarrow> (if need_schedule then rt_schedule s else Some s);
          Some (RT_EOK, s) }
      } else Some (RT_EOK, s) } }"

text \<open>A receive returns the error code and what it stores to \<open>*recved\<close>.\<close>

definition event_recv :: "addr \<Rightarrow> u32 \<Rightarrow> u8 \<Rightarrow> u32 \<Rightarrow> int \<Rightarrow> kstate \<Rightarrow>
    ((rt_err \<times> u32 option) outcome \<times> kstate) option" where
  "event_recv event eset opt timeout suspend_flag s = do {
    _ \<leftarrow> assert_type (Obj event) RT_Object_Class_Event s;
    _ \<leftarrow> RT_DEBUG_SCHEDULER_AVAILABLE True s;
    if eset = 0 then Some (Return (- RT_ERROR, None), s)
    else do {
      thread \<leftarrow> rt_thread_self s;
      s \<leftarrow> upd_thread thread (\<lambda>th. th\<lparr>th_error := - RT_EINTR\<rparr>) s;
      e \<leftarrow> k_event s event;
      status \<leftarrow> (if opt AND RT_EVENT_FLAG_AND \<noteq> 0 then
          Some (if evt_set e AND eset = eset then RT_EOK else - RT_ERROR)
        else if opt AND RT_EVENT_FLAG_OR \<noteq> 0 then
          Some (if evt_set e AND eset \<noteq> 0 then RT_EOK else - RT_ERROR)
        else None);
      if status = RT_EOK then do {
        s \<leftarrow> upd_thread thread (\<lambda>th. th\<lparr>th_error := RT_EOK\<rparr>) s;
        let recved = evt_set e AND eset;
        s \<leftarrow> upd_thread thread (\<lambda>th. th\<lparr>th_event_set := evt_set e AND eset, th_event_info := opt\<rparr>) s;
        s \<leftarrow> (if opt AND RT_EVENT_FLAG_CLEAR \<noteq> 0
          then upd_event event (\<lambda>e. e\<lparr>evt_set := evt_set e AND NOT eset\<rparr>) s else Some s);
        th \<leftarrow> k_thread s thread;
        Some (Return (th_error th, Some recved), s)
      } else if timeout = 0 then do {
        s \<leftarrow> upd_thread thread (\<lambda>th. th\<lparr>th_error := - RT_ETIMEOUT\<rparr>) s;
        Some (Return (- RT_ETIMEOUT, None), s)
      } else do {
        s \<leftarrow> upd_thread thread (\<lambda>th. th\<lparr>th_event_set := eset, th_event_info := opt\<rparr>) s;
        h \<leftarrow> k_obj s (Obj event);
        (ret, s) \<leftarrow> ipc_list_suspend (SuspendQ event) thread (obj_flag h) suspend_flag s;
        if ret \<noteq> RT_EOK then Some (Return (ret, None), s)
        else do {
          s \<leftarrow> wait_timer thread timeout s;
          s \<leftarrow> rt_schedule s;
          Some (Blocked, s) } } } }"

definition event_recv_resume :: "addr \<Rightarrow> kstate \<Rightarrow> (rt_err \<times> u32 option) option" where
  "event_recv_resume thread s = do {
    th \<leftarrow> k_thread s thread;
    Some (if th_error th \<noteq> RT_EOK then (th_error th, None) else (th_error th, Some (th_event_set th))) }"

definition rt_event_recv :: "addr \<Rightarrow> u32 \<Rightarrow> u8 \<Rightarrow> u32 \<Rightarrow> kstate \<Rightarrow> ((rt_err \<times> u32 option) outcome \<times> kstate) option" where
  "rt_event_recv event eset opt timeout s = event_recv event eset opt timeout RT_UNINTERRUPTIBLE s"

definition rt_event_recv_interruptible ::
    "addr \<Rightarrow> u32 \<Rightarrow> u8 \<Rightarrow> u32 \<Rightarrow> kstate \<Rightarrow> ((rt_err \<times> u32 option) outcome \<times> kstate) option" where
  "rt_event_recv_interruptible event eset opt timeout s = event_recv event eset opt timeout RT_INTERRUPTIBLE s"

definition rt_event_recv_killable ::
    "addr \<Rightarrow> u32 \<Rightarrow> u8 \<Rightarrow> u32 \<Rightarrow> kstate \<Rightarrow> ((rt_err \<times> u32 option) outcome \<times> kstate) option" where
  "rt_event_recv_killable event eset opt timeout s = event_recv event eset opt timeout RT_KILLABLE s"

definition rt_event_control :: "addr \<Rightarrow> int \<Rightarrow> kstate \<Rightarrow> (rt_err \<times> kstate) option" where
  "rt_event_control event cmd s = do {
    _ \<leftarrow> assert_type (Obj event) RT_Object_Class_Event s;
    if cmd = RT_IPC_CMD_RESET then do {
      s \<leftarrow> ipc_list_resume_all (SuspendQ event) s;
      s \<leftarrow> upd_event event (\<lambda>e. e\<lparr>evt_set := 0\<rparr>) s;
      s \<leftarrow> rt_schedule s;
      Some (RT_EOK, s)
    } else Some (- RT_ERROR, s) }"

section \<open>Who is woken\<close>

definition wants_all :: "rt_thread \<Rightarrow> bool" where
  "wants_all th \<longleftrightarrow> th_event_info th AND RT_EVENT_FLAG_AND \<noteq> 0"

definition satisfied :: "u32 \<Rightarrow> rt_thread \<Rightarrow> bool" where
  "satisfied eset th \<longleftrightarrow> (if wants_all th then th_event_set th AND eset = th_event_set th
    else th_event_set th AND eset \<noteq> 0)"

definition received :: "u32 \<Rightarrow> rt_thread \<Rightarrow> u32" where
  "received eset th = (if wants_all th then th_event_set th else th_event_set th AND eset)"

definition clears :: "rt_thread \<Rightarrow> bool" where
  "clears th \<longleftrightarrow> th_event_info th AND RT_EVENT_FLAG_CLEAR \<noteq> 0"

text \<open>A waiting thread has one of the two flags.\<close>

definition has_mode :: "rt_thread \<Rightarrow> bool" where
  "has_mode th \<longleftrightarrow> th_event_info th AND RT_EVENT_FLAG_AND \<noteq> 0 \<or> th_event_info th AND RT_EVENT_FLAG_OR \<noteq> 0"

text \<open>What a thread is after it has received its bits.\<close>

definition deliver :: "u32 \<Rightarrow> rt_thread \<Rightarrow> rt_thread" where
  "deliver eset th = th\<lparr>th_event_set := received eset th, th_error := RT_EOK\<rparr>"

lemma event_check_mode:
  "has_mode th \<Longrightarrow> event_check th eset =
    Some (if satisfied eset th then RT_EOK else - RT_ERROR,
          if satisfied eset th then th\<lparr>th_event_set := received eset th\<rparr> else th)"
  by (auto simp: has_mode_def event_check_def satisfied_def received_def wants_all_def)

text \<open>The threads of a list whose condition a set meets, and the bits they clear.\<close>

definition winners :: "(addr \<rightharpoonup> rt_thread) \<Rightarrow> u32 \<Rightarrow> addr list \<Rightarrow> addr list" where
  "winners ths eset ts = filter (\<lambda>t. case ths t of None \<Rightarrow> False | Some th \<Rightarrow> satisfied eset th) ts"

fun cleared :: "(addr \<rightharpoonup> rt_thread) \<Rightarrow> u32 \<Rightarrow> addr list \<Rightarrow> u32" where
  "cleared ths eset [] = 0"
| "cleared ths eset (t # ts) = (case ths t of
      Some th \<Rightarrow> (if satisfied eset th \<and> clears th then received eset th else 0) OR cleared ths eset ts
    | None \<Rightarrow> cleared ths eset ts)"

lemma winners_cong: "(\<And>t. t \<in> set ts \<Longrightarrow> f t = g t) \<Longrightarrow> winners f eset ts = winners g eset ts"
  by (auto simp: winners_def intro: filter_cong)

lemma cleared_cong: "(\<And>t. t \<in> set ts \<Longrightarrow> f t = g t) \<Longrightarrow> cleared f eset ts = cleared g eset ts"
  by (induction ts) (auto split: option.split)

lemma winners_subset: "set (winners ths eset ts) \<subseteq> set ts"
  by (auto simp: winners_def)

lemma event_wake_spec:
  assumes "kwf s" and "k_event s a = Some e" and "distinct ts"
    and "\<And>t. t \<in> set ts \<Longrightarrow> \<exists>th. k_thread s t = Some th \<and> suspended th \<and> has_mode th"
  shows "\<exists>s'. event_wake a ts clr sch s = Some (RT_EOK, clr OR cleared (k_thread s) (evt_set e) ts,
      sch \<or> winners (k_thread s) (evt_set e) ts \<noteq> [], s') \<and> kwf s' \<and>
    all_woken (deliver (evt_set e)) (winners (k_thread s) (evt_set e) ts) s s'"
  using assms
proof (induction ts arbitrary: s clr sch)
  case Nil
  then show ?case by (simp add: winners_def)
next
  case (Cons t ts)
  from Cons.prems(4) [of t] obtain th where th: "k_thread s t = Some th" "suspended th" "has_mode th" by auto
  have d: "t \<notin> set ts" "distinct ts" using Cons.prems(3) by simp_all
  let ?set = "evt_set e"
  show ?case
  proof (cases "satisfied ?set th")
    case False
    have same: "s\<lparr>k_thread := (k_thread s)(t \<mapsto> th)\<rparr> = s" using th(1) by (simp add: map_upd_triv)
    have "event_check th ?set = Some (- 1, th)" using False th by (simp add: event_check_mode)
    moreover have "winners (k_thread s) ?set (t # ts) = winners (k_thread s) ?set ts"
      "cleared (k_thread s) ?set (t # ts) = cleared (k_thread s) ?set ts"
      using False th by (simp_all add: winners_def)
    ultimately show ?thesis
      using Cons.IH [OF Cons.prems(1,2) d(2), of clr sch] Cons.prems th same by simp
  next
    case True
    let ?h = "th\<lparr>th_event_set := received ?set th\<rparr>"
    let ?s = "s\<lparr>k_thread := (k_thread s)(t \<mapsto> ?h)\<rparr>"
    have st: "state_of th \<noteq> 1" using suspended_no_ready [OF th(2)] by simp
    have kw: "kwf ?s" by (rule kwf_thread_data [OF Cons.prems(1) th(1) st]) (simp_all add: stack_ok_def)
    have h: "k_thread ?s t = Some ?h" "suspended ?h" using th by (simp_all add: suspended_def)
    have same: "?s\<lparr>k_thread := (k_thread ?s)(t \<mapsto> ?h\<lparr>th_error := th_error ?h\<rparr>)\<rparr> = ?s" by simp
    note r = resume_woken(1) [OF kwfD(1) [OF kw] h, of "th_error ?h", unfolded same]
    let ?s2 = "woken 0 t ?h ?s"
    have kw2: "kwf ?s2" by (rule woken_kwf [OF kw h])
    have u: "upd_thread t (\<lambda>th. th\<lparr>th_error := 0\<rparr>) (woken (th_error ?h) t ?h ?s) = Some ?s2"
      by (rule upd_woken_error)
    have aw: "all_woken (\<lambda>th. (th\<lparr>th_event_set := received ?set th\<rparr>)\<lparr>th_error := 0\<rparr>) [t] s ?s2"
      by (rule all_woken_prepared [where h = "\<lambda>th. th\<lparr>th_event_set := received ?set th\<rparr>",
            OF woken_all_woken [OF kwfD(1) [OF kw] h(1)] th(1)])
    then have aw: "all_woken (deliver ?set) [t] s ?s2" by (simp add: deliver_def [abs_def])
    have oth: "k_thread ?s2 x = k_thread s x" if "x \<in> set ts" for x
      using that d all_wokenD(4) [OF aw, of x] by auto
    have e2: "k_event ?s2 a = Some e" using Cons.prems(2) ipc_sameD(3) [OF all_wokenD(1) [OF aw]] by simp
    have p2: "\<exists>th. k_thread ?s2 x = Some th \<and> suspended th \<and> has_mode th" if "x \<in> set ts" for x
      using Cons.prems(4) [of x] that oth [OF that] by simp
    let ?clr = "clr OR (if clears th then received ?set th else 0)"
    from Cons.IH [OF kw2 e2 d(2) p2, of ?clr True] obtain s' where
      s': "event_wake a ts ?clr True ?s2 = Some (0, ?clr OR cleared (k_thread ?s2) ?set ts,
          True \<or> winners (k_thread ?s2) ?set ts \<noteq> [], s')" "kwf s'"
        "all_woken (deliver ?set) (winners (k_thread ?s2) ?set ts) ?s2 s'" by blast
    have w: "winners (k_thread ?s2) ?set ts = winners (k_thread s) ?set ts"
      "cleared (k_thread ?s2) ?set ts = cleared (k_thread s) ?set ts"
      using winners_cong [of ts "k_thread ?s2" "k_thread s"] cleared_cong [of ts "k_thread ?s2" "k_thread s"] oth by auto
    have nw: "t \<notin> set (winners (k_thread s) ?set ts)" using winners_subset d by blast
    have ev: "event_check th ?set = Some (0, ?h)" using True th by (simp add: event_check_mode)
    have wt: "winners (k_thread s) ?set (t # ts) = t # winners (k_thread s) ?set ts" using True th by (simp add: winners_def)
    have ct: "clr OR cleared (k_thread s) ?set (t # ts) = ?clr OR cleared (k_thread s) ?set ts"
      using True th by (simp add: or.assoc)
    have "event_wake a (t # ts) clr sch s = event_wake a ts ?clr True ?s2"
      using th Cons.prems(2) ev r u by (simp add: clears_def del: or.assoc)
    moreover have "all_woken (deliver ?set) (t # winners (k_thread s) ?set ts) s s'"
      by (rule all_woken_Cons [OF aw s'(3) [unfolded w] nw])
    moreover have "event_wake a ts ?clr True ?s2 = Some (0, ?clr OR cleared (k_thread s) ?set ts,
        sch \<or> t # winners (k_thread s) ?set ts \<noteq> [], s')" using s'(1) unfolding w by simp
    ultimately show ?thesis using s'(2) unfolding wt ct by auto
  qed
qed

section \<open>Sending\<close>

text \<open>
  Well-formed: every waiting thread has a mode, and its condition does not hold of the current
  set, so that no event is lost.
\<close>

definition pending :: "u32 \<Rightarrow> rt_thread option \<Rightarrow> bool" where
  "pending eset r \<longleftrightarrow> (case r of None \<Rightarrow> False | Some th \<Rightarrow> has_mode th \<and> \<not> satisfied eset th)"

definition event_ok :: "kstate \<Rightarrow> addr \<Rightarrow> bool" where
  "event_ok s a \<longleftrightarrow> (\<exists>e h. k_event s a = Some e \<and> k_obj s (Obj a) = Some h \<and>
    obj_type h AND NOT RT_Object_Class_Static = RT_Object_Class_Event \<and>
    (obj_flag h = RT_IPC_FLAG_FIFO \<or> obj_flag h = RT_IPC_FLAG_PRIO) \<and>
    list_all (\<lambda>t. pending (evt_set e) (k_thread s t)) (k_list s (SuspendQ a)))"

lemma event_okD:
  assumes "event_ok s a"
  shows "is_class (Obj a) RT_Object_Class_Event s" "\<exists>h. k_obj s (Obj a) = Some h \<and> obj_flag h = ipc_flag s a"
    "ipc_flag s a = RT_IPC_FLAG_FIFO \<or> ipc_flag s a = RT_IPC_FLAG_PRIO"
    "k_event s a = Some e \<Longrightarrow> t \<in> set (k_list s (SuspendQ a)) \<Longrightarrow> pending (evt_set e) (k_thread s t)"
  using assms by (auto simp: event_ok_def is_class_def ipc_flag_def list_all_iff)

lemma event_ok_mono:
  assumes "event_ok s a" and "k_event s' a = Some e'" and "k_obj s' (Obj a) = k_obj s (Obj a)"
    and "\<And>t. t \<in> set (k_list s' (SuspendQ a)) \<Longrightarrow> pending (evt_set e') (k_thread s' t)"
  shows "event_ok s' a"
  using assms by (auto simp: event_ok_def list_all_iff)

interpretation ev: ipc_object event_ok
proof
  fix s s' a assume ok: "event_ok s a" and q: "quiet s s'"
  then obtain e where e: "k_event s a = Some e" by (auto simp: event_ok_def)
  show "event_ok s' a"
  proof (rule event_ok_mono [OF ok])
    show "k_event s' a = Some e" "k_obj s' (Obj a) = k_obj s (Obj a)" using ipc_sameD [OF quietD(1) [OF q]] e by simp_all
    fix t assume t: "t \<in> set (k_list s' (SuspendQ a))"
    with event_okD(4) [OF ok e, of t] quietD(3,4) [OF q, of "SuspendQ a" t] show "pending (evt_set e) (k_thread s' t)"
      by simp
  qed
qed

lemma satisfied_subset: "satisfied (x AND y) th \<Longrightarrow> satisfied x th"
proof (cases "wants_all th")
  case True
  assume "satisfied (x AND y) th"
  then have e: "th_event_set th AND (x AND y) = th_event_set th" using True by (simp add: satisfied_def)
  have "th_event_set th AND x = th_event_set th"
  proof (rule bit_word_eqI)
    fix n assume n: "n < LENGTH(32)"
    from arg_cong [OF e, of "\<lambda>w. bit w n"]
    show "bit (th_event_set th AND x) n = bit (th_event_set th) n" by (auto simp: bit_and_iff)
  qed
  with True show ?thesis by (simp add: satisfied_def)
next
  case False
  assume "satisfied (x AND y) th"
  with False have "(th_event_set th AND x) AND y \<noteq> 0" by (simp add: satisfied_def and.assoc)
  then have "th_event_set th AND x \<noteq> 0" by auto
  with False show ?thesis by (simp add: satisfied_def)
qed

lemma event_queue:
  assumes kw: "kwf s" and ok: "event_ok s a" and t: "t \<in> set (k_list s (SuspendQ a))"
  shows "\<exists>th. k_thread s t = Some th \<and> suspended th \<and> has_mode th"
proof -
  obtain e where e: "k_event s a = Some e" using ok by (auto simp: event_ok_def)
  from waitq_suspended [OF kwfD(1) [OF kw] _ t] event_okD(4) [OF ok e t] show ?thesis
    by (auto simp: pending_def)
qed

text \<open>What the whole send does, up to the scheduling step.\<close>

lemma send_wakes:
  assumes kw: "kwf s" and ok: "event_ok s a" and e: "k_event s a = Some e" and cur: "rt_current_thread s \<noteq> None"
    and eset: "eset \<noteq> 0"
  defines "full \<equiv> evt_set e OR eset"
  defines "ws \<equiv> winners (k_thread s) full (k_list s (SuspendQ a))"
  defines "left \<equiv> full AND NOT (cleared (k_thread s) full (k_list s (SuspendQ a)))"
  shows "\<exists>s'. rt_event_send a eset s = Some (RT_EOK, s') \<and> ev.live s' a \<and> k_event s' = (k_event s)(a \<mapsto> \<lparr>evt_set = left\<rparr>) \<and>
    k_list s' (SuspendQ a) = filter (\<lambda>t. t \<notin> set ws) (k_list s (SuspendQ a)) \<and>
    (\<forall>t \<in> set ws. \<exists>th th'. k_thread s t = Some th \<and> k_thread s' t = Some th' \<and> runnable th' \<and> th_error th' = RT_EOK \<and>
      th_event_set th' = received full th) \<and>
    (rt_scheduler_lock_nest s = 0 \<and> (\<exists>t \<in> set ws. rt_current_thread s \<noteq> Some t) \<longrightarrow> highest_running s')"
proof -
  let ?q = "k_list s (SuspendQ a)" and ?c = "cleared (k_thread s) full (k_list s (SuspendQ a))"
  have ee: "e\<lparr>evt_set := x\<rparr> = \<lparr>evt_set = x\<rparr>" for x by (cases e) simp
  let ?s0 = "s\<lparr>k_event := (k_event s)(a \<mapsto> \<lparr>evt_set = full\<rparr>)\<rparr>"
  have kw0: "kwf ?s0" using kwf_same_ipc [of ?s0 s] kw by simp
  have q0: "\<exists>th. k_thread ?s0 t = Some th \<and> suspended th \<and> has_mode th" if "t \<in> set ?q" for t
    using event_queue [OF kw ok that] by simp
  have d: "distinct ?q" by (rule separate_distinct [OF inv_outD(1) [OF kinvD(5) [OF kwfD(1) [OF kw], of "{}"]]])
  have e0: "k_event ?s0 a = Some \<lparr>evt_set = full\<rparr>" by simp
  from event_wake_spec [OF kw0 e0 d q0, of 0 False] obtain s1 where
    s1: "event_wake a ?q 0 False ?s0 = Some (0, ?c, ws \<noteq> [], s1)" "kwf s1" "all_woken (deliver full) ws ?s0 s1"
    by (auto simp: ws_def)
  note aw = all_wokenD [OF s1(3)]
  let ?s2 = "s1\<lparr>k_event := (k_event s)(a \<mapsto> \<lparr>evt_set = left\<rparr>)\<rparr>"
  have ke1: "k_event s1 = (k_event s)(a \<mapsto> \<lparr>evt_set = full\<rparr>)" using ipc_sameD(3) [OF aw(1)] by simp
  have s2: "(if ?c \<noteq> 0 then upd_event a (\<lambda>e. e\<lparr>evt_set := evt_set e AND NOT ?c\<rparr>) s1 else Some s1) = Some ?s2"
  proof (cases "?c = 0")
    case True
    have "s1\<lparr>k_event := k_event s1\<rparr> = s1" by simp
    with True ke1 show ?thesis by (simp add: left_def)
  next
    case False
    with ke1 show ?thesis by (simp add: left_def)
  qed
  have kw2: "kwf ?s2" using kwf_same_ipc [of ?s2 s1] s1(2) by simp
  have q2: "k_list ?s2 (SuspendQ a) = filter (\<lambda>t. t \<notin> set ws) ?q" using aw(3) [of "SuspendQ a"] by simp
  have ok2: "event_ok ?s2 a"
  proof (rule event_ok_mono [OF ok])
    show "k_event ?s2 a = Some \<lparr>evt_set = left\<rparr>" by simp
    show "k_obj ?s2 (Obj a) = k_obj s (Obj a)" using ipc_sameD(11) [OF aw(1), of a] by simp
    fix t assume "t \<in> set (k_list ?s2 (SuspendQ a))"
    with q2 have t: "t \<in> set ?q" "t \<notin> set ws" by auto
    from event_queue [OF kw ok t(1)] obtain th where th: "k_thread s t = Some th" "has_mode th" by auto
    have "\<not> satisfied full th" using t th by (simp add: ws_def winners_def)
    then have "\<not> satisfied left th" unfolding left_def using satisfied_subset by blast
    moreover have "k_thread ?s2 t = Some th" using aw(4) [OF t(2)] th by simp
    ultimately show "pending (evt_set \<lparr>evt_set = left\<rparr>) (k_thread ?s2 t)" using th by (simp add: pending_def)
  qed
  have w2: "\<exists>th th'. k_thread s t = Some th \<and> k_thread ?s2 t = Some th' \<and> runnable th' \<and> th_error th' = RT_EOK \<and>
      th_event_set th' = received full th" if "t \<in> set ws" for t
    using aw(5) [OF that] by (auto simp: deliver_def runnable_def)
  have cur2: "rt_current_thread ?s2 \<noteq> None" using aw(2) cur by simp
  note start = event_okD(1) [OF ok]
  show ?thesis
  proof (cases "?q = []")
    case True
    then have "ws = []" "?c = 0" by (simp_all add: ws_def winners_def)
    then have l: "left = full" by (simp add: left_def)
    have "rt_event_send a eset s = Some (0, ?s0)"
      using start eset e True by (simp add: rt_event_send_def assert_type_class ee full_def)
    moreover have "event_ok ?s0 a"
      by (rule event_ok_mono [OF ok]) (use True in simp_all)
    ultimately show ?thesis using kw0 cur True l \<open>ws = []\<close> by (intro exI [of _ ?s0]) (simp add: ev.live_def)
  next
    case False
    have pre: "rt_event_send a eset s = do { s \<leftarrow> (if ws \<noteq> [] then rt_schedule ?s2 else Some ?s2); Some (RT_EOK, s) }"
    proof -
      have "rt_event_send a eset s = (if ?c \<noteq> 0 then upd_event a (\<lambda>e. e\<lparr>evt_set := evt_set e AND NOT ?c\<rparr>) s1 else Some s1)
          \<bind> (\<lambda>s. (if ws \<noteq> [] then rt_schedule s else Some s) \<bind> (\<lambda>s. Some (RT_EOK, s)))"
        using start eset e False s1(1) by (simp add: rt_event_send_def assert_type_class ee full_def)
      then show ?thesis unfolding s2 by simp
    qed
    show ?thesis
    proof (cases "ws = []")
      case True
      with pre kw2 ok2 cur2 q2 show ?thesis by (intro exI [of _ ?s2]) (simp add: ev.live_def)
    next
      case ne: False
      from ev.live_schedule [OF kw2 ok2 cur2] obtain s' where
        s': "rt_schedule ?s2 = Some s'" "ev.live s' a" "sched_frame ?s2 s'" by blast
      have hr: "highest_running s'" if l: "rt_scheduler_lock_nest s = 0" and t: "t \<in> set ws" "rt_current_thread s \<noteq> Some t" for t
      proof -
        from w2 [OF t(1)] obtain h where "k_thread ?s2 t = Some h" "runnable h" by blast
        from ready_group_nonzero [OF kwfD(1) [OF kw2] this] t(2) aw(2) have "rt_thread_ready_priority_group ?s2 \<noteq> 0" by simp
        moreover have "rt_scheduler_lock_nest ?s2 = 0" using l aw(1) by (simp add: ipc_same_def)
        ultimately show ?thesis using schedule_kinv [OF kwfD(1) [OF kw2] cur2] s'(1) by auto
      qed
      have th': "\<exists>th th'. k_thread s t = Some th \<and> k_thread s' t = Some th' \<and> runnable th' \<and> th_error th' = RT_EOK \<and>
          th_event_set th' = received full th" if "t \<in> set ws" for t
      proof -
        from w2 [OF that] obtain th h where h: "k_thread s t = Some th" "k_thread ?s2 t = Some h" "runnable h"
          "th_error h = 0" "th_event_set h = received full th" by blast
        from sched_frame_runnable [OF s'(3) h(2,3)] sched_frame_thread [OF s'(3) h(2)] h show ?thesis by auto
      qed
      have "k_event s' = (k_event s)(a \<mapsto> \<lparr>evt_set = left\<rparr>)" "k_list s' (SuspendQ a) = filter (\<lambda>t. t \<notin> set ws) ?q"
        using sched_frame_fields [OF s'(3)] sched_frame_queue [OF s'(3), of "SuspendQ a"] q2 by simp_all
      with pre ne s' th' hr show ?thesis by (intro exI [of _ s']) auto
    qed
  qed
qed

section \<open>An example\<close>

text \<open>
  Event 20 holds bit 0. Thread 11 waits for bits 0 and 1 together and clears them, thread 12
  for bit 2.
\<close>

definition ex_want :: "u32 \<Rightarrow> u8 \<Rightarrow> rt_thread" where
  "ex_want eset info = (ex_thread 4 5)\<lparr>th_event_set := eset, th_event_info := info\<rparr>"

definition ex_event :: kstate where
  "ex_event = ex_timed\<lparr>k_thread := [10 \<mapsto> ex_thread 3 5, 11 \<mapsto> ex_want 3 5, 12 \<mapsto> ex_want 4 2],
    k_obj := (k_obj ex_timed)(Obj 20 \<mapsto> ex_ipc_header 4 1), k_event := [20 \<mapsto> \<lparr>evt_set = 1\<rparr>]\<rparr>"

lemma ex_event_simps [simp]:
  "k_event ex_event = [20 \<mapsto> \<lparr>evt_set = 1\<rparr>]" "k_list ex_event = (\<lambda>_. [])(SuspendQ 20 := [11, 12])"
  "k_obj ex_event (Obj 20) = Some (ex_ipc_header 4 1)" "rt_current_thread ex_event = Some 10"
  "k_thread ex_event = [10 \<mapsto> ex_thread 3 5, 11 \<mapsto> ex_want 3 5, 12 \<mapsto> ex_want 4 2]"
  by (simp_all add: ex_event_def)

lemma ex_event_kwf: "kwf ex_event"
proof -
  let ?s1 = "ex_timed\<lparr>k_obj := (k_obj ex_timed)(Obj 20 \<mapsto> ex_ipc_header 4 1), k_event := [20 \<mapsto> \<lparr>evt_set = 1\<rparr>]\<rparr>"
  let ?s2 = "?s1\<lparr>k_thread := (k_thread ?s1)(11 \<mapsto> ex_want 3 5)\<rparr>"
  let ?s3 = "?s2\<lparr>k_thread := (k_thread ?s2)(12 \<mapsto> ex_want 4 2)\<rparr>"
  have k1: "kwf ?s1"
    by (rule kwf_new_object [OF ex_timed_kwf, of 20 _ "ex_ipc_header 4 1"]) (simp_all add: ex_timed_def ex_state_def)
  have w: "th_stat (ex_want x y) = 4" "th_current_priority (ex_want x y) = th_current_priority (ex_thread 4 5)"
    "th_number_mask (ex_want x y) = th_number_mask (ex_thread 4 5)" "stack_ok (ex_want x y) = stack_ok (ex_thread 4 5)"
    "th_stat (ex_thread 4 5) = 4" "state_of (ex_thread 4 5) = 4" for x y
    by (simp_all add: ex_want_def ex_thread_def stack_ok_def state_of_def)
  have "k_thread ?s1 11 = Some (ex_thread 4 5)" by simp
  from kwf_thread_data [OF k1 this, of "ex_want 3 5"] have k2: "kwf ?s2" by (simp add: w)
  have "k_thread ?s2 12 = Some (ex_thread 4 5)" by simp
  from kwf_thread_data [OF k2 this, of "ex_want 4 2"] have k3: "kwf ?s3" by (simp add: w)
  have "?s3 = ex_event" by (simp add: ex_event_def)
  with k3 show ?thesis by simp
qed

lemma ex_event_ok: "event_ok ex_event 20"
  by (simp add: event_ok_def ex_ipc_header_def pending_def has_mode_def satisfied_def wants_all_def ex_want_def)

lemma ex_event_context: "thread_context 10 ex_event"
  by (simp add: thread_context_def ex_event_def ex_timed_def ex_state_def init_kstate_def ex_thread_def state_of_def)

section \<open>The broadcast\<close>

text \<open>C11. \<open>rt_event_send\<close> is a broadcast: exactly the waiting threads whose condition holds of
  the old set joined with the new bits are woken: they are in the queue no more and ready or running, each of them receives its bits as they were
  before any bit was cleared, the others stay queued in order, and afterwards the set is the
  joined set without the bits the woken threads asked to clear; again no waiting thread's
  condition holds. When a thread other than the caller was woken and the scheduler is not locked, the
  processor is then with a thread of the highest priority that is ready.\<close>

theorem rt_event_send_broadcast:
  assumes "kwf s" and "event_ok s a" and "k_event s a = Some e" and "rt_current_thread s \<noteq> None" and "eset \<noteq> 0"
  shows "let full = evt_set e OR eset;
      ws = winners (k_thread s) full (k_list s (SuspendQ a));
      left = full AND NOT (cleared (k_thread s) full (k_list s (SuspendQ a)))
    in \<exists>s'. rt_event_send a eset s = Some (RT_EOK, s') \<and> kwf s' \<and> event_ok s' a \<and> k_event s' a = Some \<lparr>evt_set = left\<rparr> \<and>
      k_list s' (SuspendQ a) = filter (\<lambda>t. t \<notin> set ws) (k_list s (SuspendQ a)) \<and>
      list_all (\<lambda>t. \<exists>th th'. k_thread s t = Some th \<and> suspended th \<and> k_thread s' t = Some th' \<and> runnable th' \<and>
        event_recv_resume t s' = Some (RT_EOK, Some (received full th))) ws \<and>
      (rt_scheduler_lock_nest s = 0 \<and> (\<exists>t \<in> set ws. rt_current_thread s \<noteq> Some t) \<longrightarrow> highest_running s')"
proof -
  have r: "event_recv_resume t s' = Some (0, Some x)" if "k_thread s' t = Some th'" "th_error th' = 0" "th_event_set th' = x"
    for s' t th' x using that by (simp add: event_recv_resume_def)
  let ?ws = "winners (k_thread s) (evt_set e OR eset) (k_list s (SuspendQ a))"
  have q: "\<exists>th. k_thread s t = Some th \<and> suspended th" if "t \<in> set ?ws" for t
    using event_queue [OF assms(1,2), of t] that by (auto simp: winners_def)
  from send_wakes [OF assms] obtain s' where s': "rt_event_send a eset s = Some (RT_EOK, s')" "kwf s'" "event_ok s' a"
    "k_event s' a = Some \<lparr>evt_set = (evt_set e OR eset) AND NOT (cleared (k_thread s) (evt_set e OR eset) (k_list s (SuspendQ a)))\<rparr>"
    "k_list s' (SuspendQ a) = filter (\<lambda>t. t \<notin> set ?ws) (k_list s (SuspendQ a))"
    and w: "\<forall>t \<in> set ?ws. \<exists>th th'. k_thread s t = Some th \<and> k_thread s' t = Some th' \<and> runnable th' \<and> th_error th' = RT_EOK \<and>
      th_event_set th' = received (evt_set e OR eset) th"
    and h: "rt_scheduler_lock_nest s = 0 \<and> (\<exists>t \<in> set ?ws. rt_current_thread s \<noteq> Some t) \<longrightarrow> highest_running s'"
    unfolding ev.live_def fun_upd_same by (elim exE conjE) (rule that, simp_all)
  have "\<exists>th th'. k_thread s t = Some th \<and> suspended th \<and> k_thread s' t = Some th' \<and> runnable th' \<and>
        event_recv_resume t s' = Some (RT_EOK, Some (received (evt_set e OR eset) th))" if "t \<in> set ?ws" for t
    using bspec [OF w that] q [OF that] r by fastforce
  then show ?thesis unfolding Let_def list_all_iff using s' h by blast
qed

lemma rt_event_send_broadcast_witness:
  "\<exists>s'. rt_event_send 20 2 ex_event = Some (RT_EOK, s') \<and> kwf s' \<and> event_ok s' 20 \<and> k_event s' 20 = Some \<lparr>evt_set = 0\<rparr> \<and>
    k_list s' (SuspendQ 20) = [12] \<and> (\<exists>th. k_thread s' 11 = Some th \<and> runnable th) \<and> event_recv_resume 11 s' = Some (RT_EOK, Some 3)"
proof -
  have w: "satisfied 3 (ex_want 3 5)" "\<not> satisfied 3 (ex_want 4 2)" "clears (ex_want 3 5)" "received 3 (ex_want 3 5) = 3"
    by (simp_all add: satisfied_def wants_all_def clears_def received_def ex_want_def)
  from rt_event_send_broadcast [OF ex_event_kwf ex_event_ok, of "\<lparr>evt_set = 1\<rparr>" 2] show ?thesis
    using w by (auto simp: Let_def winners_def)
qed

section \<open>Receiving\<close>

text \<open>The thread as the receive fills it in, and the outcomes of the test.\<close>

definition asking :: "u32 \<Rightarrow> u8 \<Rightarrow> rt_err \<Rightarrow> rt_thread \<Rightarrow> rt_thread" where
  "asking eset opt e th = th\<lparr>th_error := e, th_event_set := eset, th_event_info := opt\<rparr>"

lemma asking_simps [simp]:
  "has_mode (asking eset opt e th) \<longleftrightarrow> opt AND RT_EVENT_FLAG_AND \<noteq> 0 \<or> opt AND RT_EVENT_FLAG_OR \<noteq> 0"
  "satisfied x (asking eset opt e th) \<longleftrightarrow> (if opt AND RT_EVENT_FLAG_AND \<noteq> 0 then eset AND x = eset else eset AND x \<noteq> 0)"
  "state_of (asking eset opt e th) = state_of th" "th_stat (asking eset opt e th) = th_stat th"
  "th_error (asking eset opt e th) = e" "stack_ok (asking eset opt e th) = stack_ok th"
  "th_event_set (asking eset opt e th) = eset" "th_event_info (asking eset opt e th) = opt"
  by (simp_all add: asking_def has_mode_def satisfied_def wants_all_def state_of_def stack_ok_def)

lemma satisfied_cong:
  "th_event_set h = th_event_set th \<Longrightarrow> th_event_info h = th_event_info th \<Longrightarrow> satisfied x h = satisfied x th"
  "th_event_set h = th_event_set th \<Longrightarrow> th_event_info h = th_event_info th \<Longrightarrow> has_mode h = has_mode th"
  by (simp_all add: satisfied_def has_mode_def wants_all_def)

lemma blocked_event_ok:
  assumes b: "blocked (SuspendQ a) t er flag timeout (s\<lparr>k_thread := (k_thread s)(t \<mapsto> h)\<rparr>) s'"
    and kw: "kwf s" and ok: "event_ok s a" and e: "k_event s a = Some e"
    and nq: "t \<notin> set (k_list s (SuspendQ a))" and p: "pending (evt_set e) (Some h)"
  shows "event_ok s' a"
proof (rule event_ok_mono [OF ok])
  let ?s = "s\<lparr>k_thread := (k_thread s)(t \<mapsto> h)\<rparr>"
  show "k_event s' a = Some e" "k_obj s' (Obj a) = k_obj s (Obj a)"
    using ipc_sameD(3,11) [OF blockedD(2) [OF b]] e by simp_all
  fix u assume "u \<in> set (k_list s' (SuspendQ a))"
  then have u: "u = t \<or> u \<in> set (k_list s (SuspendQ a))" using blockedD(4) [OF b, of "SuspendQ a"] by simp
  show "pending (evt_set e) (k_thread s' u)"
  proof (cases "u = t")
    case True
    from b obtain x where "k_thread s' t = Some (set_state x (h\<lparr>th_error := er\<rparr>))" by (auto simp: blocked_def)
    with True p satisfied_cong [of "set_state x (h\<lparr>th_error := er\<rparr>)" h] show ?thesis by (simp add: pending_def)
  next
    case False
    with u have m: "u \<in> set (k_list s (SuspendQ a))" by simp
    from event_queue [OF kw ok m] obtain th where th: "k_thread s u = Some th" "suspended th" by auto
    have "k_thread ?s u = Some th" "\<not> runnable th" using th False suspended_no_ready [of th] by (auto simp: runnable_def)
    with b False have "k_thread s' u = Some th" unfolding blocked_def by presburger
    with event_okD(4) [OF ok e m] th show ?thesis by simp
  qed
qed

text \<open>C12. The outcomes of \<open>rt_event_recv\<close>. When the condition holds, the call returns the
  received bits at once and clears exactly the asked bits if told to; otherwise it times out
  without touching the set, or it blocks with the wanted set and the option filled in. In all
  three cases no waiting thread's condition holds afterwards, the caller's included.\<close>

theorem rt_event_recv_outcomes:
  assumes kw: "kwf s" and ok: "event_ok s a" and e: "k_event s a = Some e" and ctx: "thread_context t s"
    and th: "k_thread s t = Some th" and f: "suspend_stat f \<noteq> None" and to: "timeout \<noteq> 0x7fffffff"
    and eset: "eset \<noteq> 0" and mode: "has_mode (asking eset opt 0 th)"
  shows "if satisfied (evt_set e) (asking eset opt 0 th) then
      \<exists>s'. event_recv a eset opt timeout f s = Some (Return (RT_EOK, Some (evt_set e AND eset)), s') \<and> kwf s' \<and> event_ok s' a \<and>
        k_event s' a = Some \<lparr>evt_set = (if opt AND RT_EVENT_FLAG_CLEAR \<noteq> 0 then evt_set e AND NOT eset else evt_set e)\<rparr>
    else if timeout = 0 then
      \<exists>s'. event_recv a eset opt timeout f s = Some (Return (- RT_ETIMEOUT, None), s') \<and> kwf s' \<and> event_ok s' a \<and>
        k_event s' = k_event s
    else
      \<exists>s'. event_recv a eset opt timeout f s = Some (Blocked, s') \<and> event_ok s' a \<and> k_event s' = k_event s \<and>
        blocked (SuspendQ a) t (- RT_EINTR) (ipc_flag s a) timeout
          (s\<lparr>k_thread := (k_thread s)(t \<mapsto> asking eset opt (- RT_EINTR) th)\<rparr>) s'"
proof -
  have r: "state_of th = 3" "rt_current_thread s = Some t" using ctx th by (simp_all add: thread_context_def)
  have nq: "t \<notin> set (k_list s (SuspendQ a))"
    using unlinkedD [OF running_unlinked [OF kinvD(5) [OF kwfD(1) [OF kw], of "{}"] th]] r by simp
  have ee: "e\<lparr>evt_set := x\<rparr> = \<lparr>evt_set = x\<rparr>" for x by (cases e) simp
  obtain h where h: "k_obj s (Obj a) = Some h" "obj_flag h = ipc_flag s a" using event_okD(2) [OF ok] by blast
  note start = event_okD(1) [OF ok]
  have sat: "satisfied (evt_set e) (asking eset opt 0 th) \<longleftrightarrow>
      (if opt AND RT_EVENT_FLAG_AND \<noteq> 0 then evt_set e AND eset = eset else evt_set e AND eset \<noteq> 0)"
    by (simp add: and.commute)
  have m: "opt AND RT_EVENT_FLAG_AND \<noteq> 0 \<or> opt AND RT_EVENT_FLAG_OR \<noteq> 0" using mode by simp
  have data: "kwf (s\<lparr>k_thread := (k_thread s)(t \<mapsto> h), k_event := k'\<rparr>)"
    if "th_stat h = th_stat th" "th_current_priority h = th_current_priority th"
      "th_number_mask h = th_number_mask th" "stack_ok h = stack_ok th" for h k'
  proof -
    have "kwf (s\<lparr>k_thread := (k_thread s)(t \<mapsto> h)\<rparr>)" by (rule kwf_thread_data [OF kw th]) (use that r in simp_all)
    then show ?thesis using kwf_same_ipc [of "s\<lparr>k_thread := (k_thread s)(t \<mapsto> h), k_event := k'\<rparr>"
        "s\<lparr>k_thread := (k_thread s)(t \<mapsto> h)\<rparr>"] by simp
  qed
  have pend: "event_ok (s\<lparr>k_thread := (k_thread s)(t \<mapsto> h), k_event := (k_event s)(a \<mapsto> \<lparr>evt_set = evt_set e AND x\<rparr>)\<rparr>) a" for h x
  proof (rule event_ok_mono [OF ok])
    fix u assume u: "u \<in> set (k_list (s\<lparr>k_thread := (k_thread s)(t \<mapsto> h),
        k_event := (k_event s)(a \<mapsto> \<lparr>evt_set = evt_set e AND x\<rparr>)\<rparr>) (SuspendQ a))"
    then have "u \<noteq> t" using nq by auto
    with u event_okD(4) [OF ok e, of u] show "pending (evt_set \<lparr>evt_set = evt_set e AND x\<rparr>)
        (k_thread (s\<lparr>k_thread := (k_thread s)(t \<mapsto> h), k_event := (k_event s)(a \<mapsto> \<lparr>evt_set = evt_set e AND x\<rparr>)\<rparr>) u)"
      by (auto simp: pending_def dest: satisfied_subset split: option.splits)
  qed simp_all
  have keep: "(k_event s)(a \<mapsto> \<lparr>evt_set = evt_set e\<rparr>) = k_event s" using e by (cases e) (simp add: map_upd_triv)
  consider (now) "satisfied (evt_set e) (asking eset opt 0 th)"
    | (zero) "\<not> satisfied (evt_set e) (asking eset opt 0 th)" "timeout = 0"
    | (wait) "\<not> satisfied (evt_set e) (asking eset opt 0 th)" "timeout \<noteq> 0" by blast
  then show ?thesis
  proof cases
    case now
    define x where "x = (if opt AND RT_EVENT_FLAG_CLEAR \<noteq> 0 then NOT eset else - 1)"
    let ?s = "s\<lparr>k_thread := (k_thread s)(t \<mapsto> asking (evt_set e AND eset) opt 0 th),
      k_event := (k_event s)(a \<mapsto> \<lparr>evt_set = evt_set e AND x\<rparr>)\<rparr>"
    have "event_recv a eset opt timeout f s = Some (Return (0, Some (evt_set e AND eset)), ?s)"
      using start ctx th e eset r now m keep unfolding sat
      by (auto simp: event_recv_def assert_type_class rt_thread_self_def ee x_def asking_def split: if_splits)
    moreover have "kwf ?s" by (rule data) (simp_all add: asking_def stack_ok_def)
    ultimately show ?thesis using now pend [where h = "asking (evt_set e AND eset) opt 0 th" and x = x]
      by (intro if_P [THEN iffD2] exI [of _ ?s]) (auto simp: x_def)
  next
    case zero
    let ?s = "s\<lparr>k_thread := (k_thread s)(t \<mapsto> th\<lparr>th_error := - 2\<rparr>)\<rparr>"
    have "event_recv a eset opt timeout f s = Some (Return (- 2, None), ?s)"
      using start ctx th e eset r zero m unfolding sat
      by (auto simp: event_recv_def assert_type_class rt_thread_self_def split: if_splits)
    moreover have "kwf ?s" "event_ok ?s a"
      using data [of "th\<lparr>th_error := - 2\<rparr>" "k_event s"] pend [where h = "th\<lparr>th_error := - 2\<rparr>" and x = "- 1"]
      by (simp_all add: keep stack_ok_def)
    ultimately show ?thesis using zero by auto
  next
    case wait
    let ?h = "asking eset opt (- 9) th"
    let ?s = "s\<lparr>k_thread := (k_thread s)(t \<mapsto> ?h)\<rparr>"
    have kw1: "kwf ?s" using data [of ?h "k_event s"] by (simp add: asking_def stack_ok_def)
    have th1: "k_thread ?s t = Some ?h" "state_of ?h = 3" "rt_current_thread ?s = Some t" using r by simp_all
    from f obtain y where y: "suspend_stat f = Some y" by auto
    from block_spec [OF kw1 th1(3,1,2) is_waitq_simps(1) event_okD(3) [OF ok] y to, of a] obtain s1 s2 s3 where
      b: "ipc_list_suspend (SuspendQ a) t (ipc_flag s a) f ?s = Some (0, s1)" "wait_timer t timeout s1 = Some s2"
        "rt_schedule s2 = Some s3" "blocked (SuspendQ a) t (- 9) (ipc_flag s a) timeout ?s s3" by auto
    have "event_recv a eset opt timeout f s = Some (Blocked, s3)"
      using start ctx th e eset r wait m h b(1-3) unfolding sat
      by (auto simp: event_recv_def assert_type_class rt_thread_self_def asking_def split: if_splits)
    moreover have "k_event s3 = k_event s" using ipc_sameD(3) [OF blockedD(2) [OF b(4)]] by simp
    moreover have "event_ok s3 a"
      by (rule blocked_event_ok [OF b(4) kw ok e nq]) (use wait m in \<open>auto simp: pending_def\<close>)
    ultimately show ?thesis using wait b(4) by auto
  qed
qed

lemma rt_event_recv_outcomes_witness:
  "\<exists>s'. rt_event_recv 20 9 2 5 ex_event = Some (Return (RT_EOK, Some 1), s') \<and> kwf s' \<and> event_ok s' 20"
proof -
  have "suspend_stat 2 \<noteq> None" by (simp add: suspend_stat_def)
  with rt_event_recv_outcomes [OF ex_event_kwf ex_event_ok _ ex_event_context, of "\<lparr>evt_set = 1\<rparr>" "ex_thread 3 5" 2 5 9 2]
  show ?thesis by (auto simp: rt_event_recv_def)
qed

end
