(* ===== verification/ObjectProps.thy ===== *)
theory ObjectProps
  imports TimerProps
begin

text \<open>
  The kernel invariants across the registration of an object (\<open>rt-thread/src/object.c\<close>), and
  what a look-up by name finds afterwards. Both take the scheduler lock for a moment, and
  releasing it may switch threads.
\<close>

section \<open>Critical sections\<close>

lemma critical_spec:
  assumes kw: "kwf s" and cur: "rt_current_thread s \<noteq> None" and n: "0 \<le> sint (rt_scheduler_lock_nest s)"
  shows "\<exists>s1. rt_exit_critical (rt_enter_critical s) = Some s1 \<and> kwf s1 \<and> sched_frame s s1 \<and> rt_current_thread s1 \<noteq> None"
proof (cases "rt_scheduler_lock_nest s = 0")
  case False
  then have "0 < sint (rt_scheduler_lock_nest s)" using n by (metis less_le signed_eq_0_iff)
  then have "rt_exit_critical (rt_enter_critical s) = Some s"
    by (simp add: rt_exit_critical_def rt_enter_critical_def Let_def)
  with kw cur show ?thesis by (metis sched_frame_refl)
next
  case True
  then have e: "s\<lparr>rt_scheduler_lock_nest := 0\<rparr> = s" by simp
  from schedule_kinv [OF kwfD(1) [OF kw] cur] obtain s1 where
    s1: "rt_schedule s = Some s1" "kinv s1" "sched_frame s s1" by blast
  have "rt_exit_critical (rt_enter_critical s) = Some s1"
    using True cur s1(1) by (simp add: rt_exit_critical_def rt_enter_critical_def Let_def e)
  with s1 kwf_sched [OF kw s1(2,3)] schedule_current [OF kwfD(1) [OF kw] cur s1(1)] show ?thesis by blast
qed

section \<open>Registration\<close>

text \<open>The class codes that have a list of their objects.\<close>

definition known_class :: "u8 \<Rightarrow> bool" where
  "known_class c \<longleftrightarrow> c \<in> {1, 2, 3, 4, 5, 6, 8, 9, 10, 12}"

text \<open>The state after a new object has been registered in state \<open>s\<close>.\<close>

definition registered :: "addr \<Rightarrow> u8 \<Rightarrow> u8 list \<Rightarrow> kstate \<Rightarrow> kstate" where
  "registered a c nm s = container_insert c (Obj a)
    (s\<lparr>k_obj := (k_obj s)(Obj a \<mapsto> \<lparr>obj_name = copy_name nm, obj_type = c OR RT_Object_Class_Static, obj_flag = k_stale s (Obj a)\<rparr>)\<rparr>)"

lemma registered_simps [simp]:
  "k_obj (registered a c nm s) = (k_obj s)(Obj a \<mapsto> \<lparr>obj_name = copy_name nm, obj_type = c OR RT_Object_Class_Static, obj_flag = k_stale s (Obj a)\<rparr>)"
  "k_thread (registered a c nm s) = k_thread s" "k_timer (registered a c nm s) = k_timer s"
  "k_stale (registered a c nm s) = k_stale s" "k_list (registered a c nm s) = k_list s" "k_timers (registered a c nm s) = k_timers s"
  "rt_thread_ready_priority_group (registered a c nm s) = rt_thread_ready_priority_group s"
  "rt_current_thread (registered a c nm s) = rt_current_thread s"
  "rt_scheduler_lock_nest (registered a c nm s) = rt_scheduler_lock_nest s"
  "rt_interrupt_nest (registered a c nm s) = rt_interrupt_nest s"
  "k_container (registered a c nm s) c = Obj a # k_container s c"
  "k_sem (registered a c nm s) = k_sem s" "k_mutex (registered a c nm s) = k_mutex s"
  "k_event (registered a c nm s) = k_event s" "k_mb (registered a c nm s) = k_mb s"
  "k_mq (registered a c nm s) = k_mq s" "k_taken (registered a c nm s) = k_taken s"
  by (simp_all add: registered_def container_insert_def al_head_def)

text \<open>What an address must satisfy to become an object.\<close>

definition fresh :: "addr \<Rightarrow> u8 \<Rightarrow> kstate \<Rightarrow> bool" where
  "fresh a c s \<longleftrightarrow> k_obj s (Obj a) = None \<and> Obj a \<notin> set (k_container s c)"

lemma fresh_sched: "sched_frame s s1 \<Longrightarrow> fresh a c s1 = fresh a c s"
  using sched_frame_fields [of s s1] by (simp add: fresh_def)

lemma object_init_spec:
  assumes kw: "kwf s" and cur: "rt_current_thread s \<noteq> None" and n: "0 \<le> sint (rt_scheduler_lock_nest s)"
    and c: "known_class c" and f: "fresh a c s"
  shows "\<exists>s1. rt_object_init (Obj a) c nm s = Some (registered a c nm s1) \<and> kwf s1 \<and> kwf (registered a c nm s1) \<and>
    sched_frame s s1 \<and> rt_current_thread s1 \<noteq> None"
proof -
  from critical_spec [OF kw cur n] obtain s1 where
    s1: "rt_exit_critical (rt_enter_critical s) = Some s1" "kwf s1" "sched_frame s s1" "rt_current_thread s1 \<noteq> None" by blast
  have c0: "c \<noteq> 0" "rt_object_get_information c = Some c"
    using c information_known [of c] by (auto simp: known_class_def)
  have f1: "k_obj s1 (Obj a) = None" using f fresh_sched [OF s1(3), of a c] by (simp add: fresh_def)
  have "k_container (rt_enter_critical s) c = k_container s c" by (simp add: rt_enter_critical_def)
  then have "rt_object_init (Obj a) c nm s = Some (registered a c nm s1)"
    using f f1 c0 s1(1) by (simp add: rt_object_init_def fresh_def registered_def Let_def)
  moreover have "kwf (registered a c nm s1)" by (rule kwf_new_object [OF s1(2) f1]) simp_all
  ultimately show ?thesis using s1 by blast
qed

section \<open>Finding an object by its name\<close>

lemma find_spec:
  assumes kw: "kwf s" and cur: "rt_current_thread s \<noteq> None" and n: "0 \<le> sint (rt_scheduler_lock_nest s)"
    and c: "known_class c" and i: "rt_interrupt_nest s = 0"
  shows "\<exists>s1. rt_object_find (Some nm) c s =
      Some (find (\<lambda>ob. case k_obj s ob of None \<Rightarrow> False | Some h \<Rightarrow> same_name (obj_name h) nm) (k_container s c), s1) \<and>
    kwf s1 \<and> sched_frame s s1 \<and> rt_current_thread s1 \<noteq> None"
proof -
  from critical_spec [OF kw cur n] obtain s1 where
    s1: "rt_exit_critical (rt_enter_critical s) = Some s1" "kwf s1" "sched_frame s s1" "rt_current_thread s1 \<noteq> None" by blast
  have c0: "c \<noteq> 0" "rt_object_get_information c = Some c"
    using c information_known [of c] by (auto simp: known_class_def)
  have "k_container (rt_enter_critical s) = k_container s" "k_obj (rt_enter_critical s) = k_obj s"
    by (simp_all add: rt_enter_critical_def)
  then show ?thesis
    using s1 c0 i by (simp add: rt_object_find_def RT_DEBUG_NOT_IN_INTERRUPT_def rt_interrupt_get_nest_def Let_def)
qed

lemma known_class_type: "known_class c \<Longrightarrow> (c OR RT_Object_Class_Static) AND NOT RT_Object_Class_Static = c"
  by (auto simp: known_class_def)

text \<open>C21. Registration and look-up agree: a fresh object (no object is at its address, and the list of its class does not have it)
  that is initialised under a name becomes the first object of its class, a static object of that class whose eight bytes of the name
  hold the first eight characters of the name given, and whose flag byte is what the memory held before, since the code does not write it;
  the kernel stays well-formed, and looking the name up in the class finds the new object, whatever objects of the same name were there
  before. No other object changes.\<close>

theorem rt_object_init_find:
  assumes "kwf s" and "rt_current_thread s \<noteq> None" and "0 \<le> sint (rt_scheduler_lock_nest s)"
    and "known_class c" and "fresh a c s" and "rt_interrupt_nest s = 0"
  shows "\<exists>s1 s2 h. rt_object_init (Obj a) c nm s = Some s1 \<and> kwf s1 \<and>
    k_obj s1 (Obj a) = Some h \<and> length (obj_name h) = RT_NAME_MAX \<and>
    takeWhile (\<lambda>x. x \<noteq> 0) (obj_name h) = take RT_NAME_MAX (takeWhile (\<lambda>x. x \<noteq> 0) nm) \<and> obj_flag h = k_stale s (Obj a) \<and>
    rt_object_get_type (Obj a) s1 = Some c \<and> rt_object_is_systemobject (Obj a) s1 = Some True \<and>
    k_container s1 c = Obj a # k_container s c \<and>
    rt_object_find (Some nm) c s1 = Some (Some (Obj a), s2) \<and> kwf s2 \<and>
    (\<forall>r. r \<noteq> Obj a \<longrightarrow> k_obj s2 r = k_obj s r)"
proof -
  from object_init_spec [OF assms(1-5), of nm] obtain s1 where
    s1: "rt_object_init (Obj a) c nm s = Some (registered a c nm s1)" "kwf (registered a c nm s1)" "sched_frame s s1"
      "rt_current_thread s1 \<noteq> None" by blast
  let ?s1 = "registered a c nm s1"
  note fr = sched_frame_fields [OF s1(3)]
  have p: "rt_current_thread ?s1 \<noteq> None" "0 \<le> sint (rt_scheduler_lock_nest ?s1)" "rt_interrupt_nest ?s1 = 0"
    using s1(4) assms(3,6) fr by simp_all
  from find_spec [OF s1(2) p(1,2) assms(4) p(3), of nm] obtain s2 where
    s2: "rt_object_find (Some nm) c ?s1 = Some (Some (Obj a), s2)" "kwf s2" "sched_frame ?s1 s2"
    by (auto simp: same_name_copy)
  have "rt_object_get_type (Obj a) ?s1 = Some c" using known_class_type [OF assms(4)] by (simp add: rt_object_get_type_def)
  moreover have "rt_object_is_systemobject (Obj a) ?s1 = Some True"
    by (simp add: rt_object_is_systemobject_def bit.conj_disj_distrib2)
  moreover have "k_obj s2 r = k_obj s r" if "r \<noteq> Obj a" for r
    using sched_frame_fields [OF s2(3)] fr that by simp
  moreover have "k_container ?s1 c = Obj a # k_container s c" "k_stale s1 = k_stale s" using fr by simp_all
  ultimately show ?thesis using s1(1,2) s2(1,2) takeWhile_copy [of nm]
    by (intro exI [of _ ?s1] exI [of _ s2] exI [of _ "\<lparr>obj_name = copy_name nm, obj_type = c OR RT_Object_Class_Static, obj_flag = k_stale s1 (Obj a)\<rparr>"])
      simp
qed

lemma rt_object_init_find_witness:
  "\<exists>s1 s2. rt_object_init (Obj 20) RT_Object_Class_Semaphore [115, 0] ex_timed = Some s1 \<and>
    rt_object_find (Some [115, 0]) RT_Object_Class_Semaphore s1 = Some (Some (Obj 20), s2)"
proof -
  have "known_class 2" "fresh 20 2 ex_timed" "rt_scheduler_lock_nest ex_timed = 0" "rt_interrupt_nest ex_timed = 0"
    by (simp_all add: known_class_def fresh_def ex_timed_def ex_state_def init_kstate_def)
  with rt_object_init_find [OF ex_timed_kwf, of 2 20 "[115, 0]"] show ?thesis by auto
qed

end
