(* ===== verification/IpcWait.thy ===== *)
theory IpcWait
  imports IpcBase ObjectProps
begin

text \<open>
  What the mailboxes and the message queues of \<open>rt-thread/src/ipc.c\<close> share: waiting
  inside a loop that tests again with the rest of the timeout, and waking the first thread of a
  queue at the end of an operation; and the laws of both over the whole kernel state.
\<close>

section \<open>Operations\<close>

text \<open>The end of the operations: wake the first thread of the queue, if any.\<close>

definition wake_first :: "lhead \<Rightarrow> kstate \<Rightarrow> kstate option" where
  "wake_first l s =
    (if k_list s l \<noteq> [] then do {
       s \<leftarrow> ipc_list_resume l s;
       rt_schedule s
     } else Some s)"

text \<open>What is left of a timeout after a wake-up; a negative one waits for ever.\<close>

definition time_left :: "u32 \<Rightarrow> u32 \<Rightarrow> u32 \<Rightarrow> u32" where
  "time_left timeout start now =
    (if sint timeout > 0 then
       let timeout = timeout - (now - start) in
       if sint timeout < 0 then 0 else timeout
     else timeout)"

text \<open>
  Suspending inside the loops; \<open>None\<close> as a thread is the null pointer of a call before the
  scheduler runs, which the code dereferences.
\<close>

definition wait_in :: "lhead \<Rightarrow> addr \<Rightarrow> u8 \<Rightarrow> u32 \<Rightarrow> int \<Rightarrow> kstate \<Rightarrow> (rt_err outcome \<times> kstate) option" where
  "wait_in l thread flag timeout suspend_flag s = do {
    (ret, s) \<leftarrow> ipc_list_suspend l thread flag suspend_flag s;
    if ret \<noteq> RT_EOK then Some (Return ret, s)
    else do {
      s \<leftarrow> wait_timer thread timeout s;
      s \<leftarrow> rt_schedule s;
      Some (Blocked, s) } }"

section \<open>Laws\<close>

text \<open>The effect of \<open>wake_first\<close> on the queue \<open>l\<close>.\<close>

definition first_woken :: "lhead \<Rightarrow> kstate \<Rightarrow> kstate \<Rightarrow> bool" where
  "first_woken l s s' \<longleftrightarrow> (\<forall>m. is_waitq m \<longrightarrow> m \<noteq> l \<longrightarrow> k_list s' m = k_list s m) \<and> (case k_list s l of
      [] \<Rightarrow> k_list s' = k_list s \<and> k_thread s' = k_thread s
    | t # rest \<Rightarrow> k_list s' l = rest \<and>
        (\<exists>th. k_thread s' t = Some th \<and> runnable th \<and> th_error th = RT_EOK))"

lemma first_woken_cong:
  "k_list s1 = k_list s \<Longrightarrow> k_thread s1 = k_thread s \<Longrightarrow> first_woken l s1 s' = first_woken l s s'"
  by (simp add: first_woken_def split: list.split)

lemma wake_first_spec:
  assumes kw: "kwf s" and cur: "rt_current_thread s \<noteq> None" and l: "is_waitq l"
  shows "\<exists>s'. wake_first l s = Some s' \<and> kwf s' \<and> rt_current_thread s' \<noteq> None \<and> quiet s s' \<and> first_woken l s s'"
proof (cases "k_list s l")
  case Nil
  have "quiet s s" using quiet_all_woken [OF all_woken_Nil] .
  with Nil kw cur show ?thesis by (simp add: wake_first_def first_woken_def)
next
  case (Cons t rest)
  from list_resume_spec [OF kw l Cons] obtain th where
    th: "k_thread s t = Some th" "suspended th" and r: "ipc_list_resume l s = Some (woken 0 t th s)"
      "kwf (woken 0 t th s)" "k_list (woken 0 t th s) l = rest" by auto
  let ?w = "woken 0 t th s"
  have cw: "rt_current_thread ?w \<noteq> None" using cur by simp
  from schedule_kinv [OF kwfD(1) [OF r(2)] cw] obtain s' where
    s': "rt_schedule ?w = Some s'" "kinv s'" "sched_frame ?w s'" by blast
  have "wake_first l s = Some s'" using Cons r(1) s'(1) by (simp add: wake_first_def)
  moreover have "kwf s'" by (rule kwf_sched [OF r(2) s'(2,3)])
  moreover have "rt_current_thread s' \<noteq> None" by (rule schedule_current [OF kwfD(1) [OF r(2)] cw s'(1)])
  moreover have "quiet s s'"
    by (rule quiet_trans [OF quiet_all_woken [OF woken_all_woken [OF kwfD(1) [OF kw] th(1)]] quiet_sched [OF kwfD(1) [OF r(2)] s'(3)]])
  moreover have nr: "l \<noteq> ReadyQ p" for p using l by auto
  have "k_list s' l = rest" using sched_frame_queue [OF s'(3) nr] r(3) by simp
  moreover define h where "h = set_state (if rt_current_thread s = Some t then 3 else 2) (th\<lparr>th_error := 0\<rparr>)"
  have "k_thread ?w t = Some h" "runnable h" "th_error h = 0" by (simp_all add: h_def)
  with sched_frame_runnable [OF s'(3), of t h] sched_frame_thread [OF s'(3), of t h]
  have "\<exists>th. k_thread s' t = Some th \<and> runnable th \<and> th_error th = 0" by auto
  moreover have "k_list s' m = k_list s m" if m: "is_waitq m" "m \<noteq> l" for m
  proof -
    have nr: "m \<noteq> ReadyQ p" for p using m(1) by auto
    have "t \<in> set (k_list s l)" using Cons by simp
    from waitq_head_only [OF kwfD(1) [OF kw] this m(2)] sched_frame_queue [OF s'(3) nr] woken_queue [OF nr, of 0 t th s]
    show ?thesis by simp
  qed
  ultimately show ?thesis using Cons by (simp add: first_woken_def)
qed

text \<open>Waiting, with the error code \<open>e\<close> written before.\<close>

lemma wait_in_spec:
  assumes "kwf s" and "thread_context t s" and "k_thread s t = Some th"
    and "is_waitq l" and "flag = RT_IPC_FLAG_FIFO \<or> flag = RT_IPC_FLAG_PRIO"
    and "suspend_stat sf \<noteq> None" and "timeout \<noteq> 0x7fffffff"
  shows "\<exists>s'. wait_in l t flag timeout sf (s\<lparr>k_thread := (k_thread s)(t \<mapsto> th\<lparr>th_error := e\<rparr>)\<rparr>) = Some (Blocked, s') \<and>
    blocked l t e flag timeout s s'"
  using block_error_spec [OF assms, of e] by (auto simp: wait_in_def)

text \<open>Waking two queues one after the other.\<close>

lemma all_woken_append:
  assumes a: "all_woken g ts s s1" and b: "all_woken g us s1 s'" and d: "set ts \<inter> set us = {}"
  shows "all_woken g (ts @ us) s s'"
  unfolding all_woken_def
proof (intro conjI allI impI ballI)
  show "ipc_same s s'" by (rule ipc_same_trans [OF all_wokenD(1) [OF a] all_wokenD(1) [OF b]])
  show "rt_current_thread s' = rt_current_thread s" using all_wokenD(2) [OF a] all_wokenD(2) [OF b] by simp
  show "k_list s' l = filter (\<lambda>x. x \<notin> set (ts @ us)) (k_list s l)" if "\<forall>p. l \<noteq> ReadyQ p" for l
    using all_wokenD(3) [OF a, of l] all_wokenD(3) [OF b, of l] that by (simp add: conj_commute)
  show "k_thread s' x = k_thread s x" if "x \<notin> set (ts @ us)" for x
    using that all_wokenD(4) [OF a, of x] all_wokenD(4) [OF b, of x] by simp
  show "\<exists>h c. k_thread s x = Some h \<and> k_thread s' x = Some (set_state c (g h)) \<and> (c = 2 \<or> c = 3)"
    if "x \<in> set (ts @ us)" for x
  proof (cases "x \<in> set ts")
    case True
    then have "k_thread s' x = k_thread s1 x" using d all_wokenD(4) [OF b, of x] by blast
    with all_wokenD(5) [OF a True] show ?thesis by simp
  next
    case False
    then have "x \<in> set us" "k_thread s1 x = k_thread s x" using that all_wokenD(4) [OF a, of x] by auto
    with all_wokenD(5) [OF b, of x] show ?thesis by simp
  qed
qed

lemma resume_both_spec:
  assumes kw: "kwf s" and l: "is_waitq l" "is_waitq m" and ne: "l \<noteq> m"
  shows "\<exists>s1 s'. ipc_list_resume_all l s = Some s1 \<and> ipc_list_resume_all m s1 = Some s' \<and> kwf s' \<and>
    all_woken (\<lambda>th. th\<lparr>th_error := - RT_ERROR\<rparr>) (k_list s l @ k_list s m) s s'"
proof -
  from list_resume_all_spec [OF kw l(1) refl] obtain s1 where
    s1: "ipc_list_resume_all l s = Some s1" "kwf s1" "all_woken (\<lambda>th. th\<lparr>th_error := - 1\<rparr>) (k_list s l) s s1" by auto
  have d: "set (k_list s l) \<inter> set (k_list s m) = {}"
    using separate_eq [OF inv_outD(1) [OF kinvD(5) [OF kwfD(1) [OF kw], of "{}"]]] ne by blast
  have "k_list s1 m = filter (\<lambda>t. t \<notin> set (k_list s l)) (k_list s m)"
    by (rule all_wokenD(3) [OF s1(3)]) (use l in auto)
  also have "\<dots> = k_list s m" using d by (auto simp: filter_id_conv)
  finally have m: "k_list s1 m = k_list s m" .
  from list_resume_all_spec [OF s1(2) l(2) m] obtain s' where
    s': "ipc_list_resume_all m s1 = Some s'" "kwf s'" "all_woken (\<lambda>th. th\<lparr>th_error := - 1\<rparr>) (k_list s m) s1 s'" by auto
  with s1 all_woken_append [OF s1(3) s'(3) d] show ?thesis by auto
qed

text \<open>A queue moved to another head, as the examples need it.\<close>

lemma kwf_move_queue:
  assumes kw: "kwf s" and l: "is_waitq l" "is_waitq m" and m: "k_list s m = []" and ne: "l \<noteq> m"
  shows "kwf (s\<lparr>k_list := (k_list s)(m := k_list s l, l := [])\<rparr>)"
proof -
  let ?s = "s\<lparr>k_list := (k_list s)(m := k_list s l, l := [])\<rparr>"
  note k = kwfD(1) [OF kw]
  note i = kinvD(5) [OF k, of "{}"]
  have nr: "l \<noteq> ReadyQ p" "m \<noteq> ReadyQ p" for p using l by auto
  have "inv_out {} ?s"
  proof (rule inv_outI)
    show "separate (k_list ?s)"
      using inv_outD(1) [OF i] m ne unfolding separate_def by (auto split: if_splits)
    show "\<exists>h. k_thread ?s x = Some h \<and> queue_state q h" if "x \<in> set (k_list ?s q)" for q x
    proof (cases "q = m")
      case True
      then have "x \<in> set (k_list s l)" using that ne by simp
      from waitq_suspended [OF k l(1) this] show ?thesis using l(2) True by (auto simp: is_waitq_def queue_state_def)
    next
      case False
      then have "x \<in> set (k_list s q)" using that by (auto split: if_splits)
      from inv_outD(2) [OF i this] show ?thesis by simp
    qed
    show "prio_ok h" if "k_thread ?s x = Some h" for x h using inv_outD(3) [OF i, of x h] that by simp
    show "state_ok ?s x h" if "k_thread ?s x = Some h" "x \<notin> {}" for x h
      using inv_outD(4) [OF i, of x h] that nr l by (auto simp: state_ok_def)
    show "bit (rt_thread_ready_priority_group ?s) p \<longleftrightarrow> k_list ?s (ReadyQ p) \<noteq> []" if "p < 32" for p
      using inv_outD(5) [OF i that] nr by auto
    show "\<exists>h. k_thread ?s c = Some h" if "rt_current_thread ?s = Some c" for c using inv_outD(6) [OF i] that by simp
  qed
  moreover have "threads_wf ?s" by (rule threads_wf_change [OF kinvD(2) [OF k]]) auto
  moreover have "stacks_ok ?s" using kinvD(3) [OF k] by (simp add: stacks_ok_def)
  moreover have "timers_wf ?s" using kinvD(4) [OF k] timers_wf_cong [of ?s s] by simp
  ultimately have "kinv ?s" by (simp add: kinv_def sched_inv_def)
  then show ?thesis using kwfD(2,3) [OF kw] by (simp add: kwf_def thread_timers_def armed_ok_def)
qed

text \<open>Threads 11 and 12 wait to send.\<close>

definition ex_senders :: kstate where
  "ex_senders = ex_timed\<lparr>k_list := (\<lambda>_. [])(SenderQ 20 := [11, 12])\<rparr>"

lemma ex_senders_simps [simp]:
  "k_list ex_senders = (\<lambda>_. [])(SenderQ 20 := [11, 12])" "rt_current_thread ex_senders = Some 10"
  "k_thread ex_senders = k_thread ex_timed"
  by (simp_all add: ex_senders_def)

lemma ex_senders_kwf: "kwf ex_senders"
proof -
  have "kwf (ex_timed\<lparr>k_list := (k_list ex_timed)(SenderQ 20 := k_list ex_timed (SuspendQ 20), SuspendQ 20 := [])\<rparr>)"
    by (rule kwf_move_queue [OF ex_timed_kwf]) simp_all
  moreover have "(k_list ex_timed)(SenderQ 20 := k_list ex_timed (SuspendQ 20), SuspendQ 20 := []) =
      (\<lambda>_. [])(SenderQ 20 := [11, 12])" by (rule ext) simp
  ultimately show ?thesis by (simp add: ex_senders_def)
qed

end
