(* ===== verification/MessageStore.thy ===== *)
theory MessageStore
  imports Prelude
begin

text \<open>
  The contract a mailbox and a message queue share: a bounded double-ended queue of messages.
  Messages are put at the end, urgent ones in front, and taken from the front; putting is
  refused when the capacity is reached and taking when there is no message. The theories of the
  two IPC objects prove the laws for the code's representations, a ring of words and a linked
  list of slots.
\<close>

datatype 'v msg_call = Send 'v | Urgent 'v | Recv

text \<open>The specification: what each call returns and leaves on the list of messages.\<close>

fun deque_step :: "nat \<Rightarrow> 'v msg_call \<Rightarrow> 'v list \<Rightarrow> 'v option \<times> 'v list" where
  "deque_step c (Send v) q = (None, if length q < c then q @ [v] else q)"
| "deque_step c (Urgent v) q = (None, if length q < c then v # q else q)"
| "deque_step c Recv [] = (None, [])"
| "deque_step c Recv (v # q) = (Some v, q)"

fun deque_run :: "nat \<Rightarrow> 'v msg_call list \<Rightarrow> 'v list \<Rightarrow> 'v option list \<times> 'v list" where
  "deque_run c [] q = ([], q)"
| "deque_run c (x # xs) q = (let (r, q) = deque_step c x q; (rs, q) = deque_run c xs q in (r # rs, q))"

lemma deque_step_bound: "length q \<le> c \<Longrightarrow> length (snd (deque_step c x q)) \<le> c"
  by (cases "(c, x, q)" rule: deque_step.cases) auto

text \<open>
  The implementation: a full store refuses a message, an empty one has none to give.
\<close>

definition store_step ::
    "('m \<Rightarrow> bool) \<Rightarrow> ('m \<Rightarrow> bool) \<Rightarrow> ('v \<Rightarrow> 'm \<Rightarrow> 'm option) \<Rightarrow> ('v \<Rightarrow> 'm \<Rightarrow> 'm option) \<Rightarrow> ('m \<Rightarrow> ('v \<times> 'm) option) \<Rightarrow>
     'v msg_call \<Rightarrow> 'm \<Rightarrow> ('v option \<times> 'm) option" where
  "store_step full drained put urgent get x m = (case x of
      Send v \<Rightarrow> if full m then Some (None, m) else do { m \<leftarrow> put v m; Some (None, m) }
    | Urgent v \<Rightarrow> if full m then Some (None, m) else do { m \<leftarrow> urgent v m; Some (None, m) }
    | Recv \<Rightarrow> if drained m then Some (None, m) else do { (v, m) \<leftarrow> get m; Some (Some v, m) })"

fun store_run ::
    "('v msg_call \<Rightarrow> 'm \<Rightarrow> ('v option \<times> 'm) option) \<Rightarrow> 'v msg_call list \<Rightarrow> 'm \<Rightarrow> ('v option list \<times> 'm) option" where
  "store_run step [] m = Some ([], m)"
| "store_run step (x # xs) m = do {
     (r, m) \<leftarrow> step x m;
     (rs, m) \<leftarrow> store_run step xs m;
     Some (r # rs, m) }"

fun msg_call_ok :: "('v \<Rightarrow> bool) \<Rightarrow> 'v msg_call \<Rightarrow> bool" where
  "msg_call_ok ok (Send v) \<longleftrightarrow> ok v"
| "msg_call_ok ok (Urgent v) \<longleftrightarrow> ok v"
| "msg_call_ok ok Recv \<longleftrightarrow> True"

lemma msg_call_ok_True [simp]: "msg_call_ok (\<lambda>_. True) x"
  by (cases x) simp_all

text \<open>Calls that each agree with the specification agree with it in sequence.\<close>

lemma store_run_sim:
  fixes inv :: "'m \<Rightarrow> bool"
  assumes "\<And>m x. inv m \<Longrightarrow> P m x \<Longrightarrow> \<exists>m'. step x m = Some (fst (deque_step (cap m) x (msgs m)), m') \<and> inv m' \<and>
      msgs m' = snd (deque_step (cap m) x (msgs m)) \<and> cap m' = cap m \<and> P m' = P m"
  shows "inv m \<Longrightarrow> list_all (P m) xs \<Longrightarrow>
    \<exists>m'. store_run step xs m = Some (fst (deque_run (cap m) xs (msgs m)), m') \<and> inv m' \<and>
      msgs m' = snd (deque_run (cap m) xs (msgs m))"
proof (induction xs arbitrary: m)
  case (Cons x xs)
  from assms [OF Cons.prems(1), of x] Cons.prems(2) obtain m1 where
    m1: "step x m = Some (fst (deque_step (cap m) x (msgs m)), m1)" "inv m1"
      "msgs m1 = snd (deque_step (cap m) x (msgs m))" "cap m1 = cap m" "P m1 = P m" by auto
  from Cons.IH [OF m1(2)] Cons.prems(2) m1 obtain m' where
    "store_run step xs m1 = Some (fst (deque_run (cap m) xs (msgs m1)), m')" "inv m'"
    "msgs m' = snd (deque_run (cap m) xs (msgs m1))" by auto
  with m1 show ?case by (auto simp: Let_def split: prod.splits)
qed simp

text \<open>A store without urgent messages.\<close>

locale fifo_store =
  fixes inv :: "'m \<Rightarrow> bool" and msgs :: "'m \<Rightarrow> 'v list" and cap :: "'m \<Rightarrow> nat" and ok :: "'m \<Rightarrow> 'v \<Rightarrow> bool"
    and full :: "'m \<Rightarrow> bool" and drained :: "'m \<Rightarrow> bool"
    and put :: "'v \<Rightarrow> 'm \<Rightarrow> 'm option" and get :: "'m \<Rightarrow> ('v \<times> 'm) option"
  assumes full_iff: "inv m \<Longrightarrow> full m \<longleftrightarrow> length (msgs m) = cap m"
    and empty_iff: "inv m \<Longrightarrow> drained m \<longleftrightarrow> msgs m = []"
    and within: "inv m \<Longrightarrow> length (msgs m) \<le> cap m"
    and put_law: "inv m \<Longrightarrow> ok m v \<Longrightarrow> \<not> full m \<Longrightarrow>
      \<exists>m'. put v m = Some m' \<and> inv m' \<and> msgs m' = msgs m @ [v] \<and> cap m' = cap m \<and> ok m' = ok m"
    and get_law: "inv m \<Longrightarrow> msgs m = v # q \<Longrightarrow>
      \<exists>m'. get m = Some (v, m') \<and> inv m' \<and> msgs m' = q \<and> cap m' = cap m \<and> ok m' = ok m"
begin

lemma send_refines:
  assumes m: "inv m" and v: "ok m v"
  shows "\<exists>m'. store_step full drained put u get (Send v) m = Some (fst (deque_step (cap m) (Send v) (msgs m)), m') \<and> inv m' \<and>
    msgs m' = snd (deque_step (cap m) (Send v) (msgs m)) \<and> cap m' = cap m \<and> ok m' = ok m"
proof (cases "full m")
  case True
  with m full_iff [OF m] show ?thesis by (simp add: store_step_def)
next
  case False
  with put_law [OF m v] obtain m' where
    "put v m = Some m'" "inv m'" "msgs m' = msgs m @ [v]" "cap m' = cap m" "ok m' = ok m" by auto
  moreover have "length (msgs m) < cap m" using False full_iff [OF m] within [OF m] by simp
  ultimately show ?thesis using False by (simp add: store_step_def)
qed

lemma recv_refines:
  assumes m: "inv m"
  shows "\<exists>m'. store_step full drained put u get Recv m = Some (fst (deque_step (cap m) Recv (msgs m)), m') \<and> inv m' \<and>
    msgs m' = snd (deque_step (cap m) Recv (msgs m)) \<and> cap m' = cap m \<and> ok m' = ok m"
proof (cases "msgs m")
  case Nil
  with m empty_iff [OF m] show ?thesis by (simp add: store_step_def)
next
  case (Cons v q)
  with get_law [OF m Cons] empty_iff [OF m] show ?thesis by (auto simp: store_step_def)
qed

end

locale message_store = fifo_store inv msgs cap ok full drained put get
  for inv :: "'m \<Rightarrow> bool" and msgs :: "'m \<Rightarrow> 'v list" and cap :: "'m \<Rightarrow> nat" and ok :: "'m \<Rightarrow> 'v \<Rightarrow> bool"
    and full :: "'m \<Rightarrow> bool" and drained :: "'m \<Rightarrow> bool"
    and put :: "'v \<Rightarrow> 'm \<Rightarrow> 'm option" and get :: "'m \<Rightarrow> ('v \<times> 'm) option" +
  fixes urgent :: "'v \<Rightarrow> 'm \<Rightarrow> 'm option"
  assumes urgent_law: "inv m \<Longrightarrow> ok m v \<Longrightarrow> \<not> full m \<Longrightarrow>
      \<exists>m'. urgent v m = Some m' \<and> inv m' \<and> msgs m' = v # msgs m \<and> cap m' = cap m \<and> ok m' = ok m"
begin

abbreviation step :: "'v msg_call \<Rightarrow> 'm \<Rightarrow> ('v option \<times> 'm) option" where
  "step \<equiv> store_step full drained put urgent get"

lemma urgent_refines:
  assumes m: "inv m" and v: "ok m v"
  shows "\<exists>m'. step (Urgent v) m = Some (fst (deque_step (cap m) (Urgent v) (msgs m)), m') \<and> inv m' \<and>
    msgs m' = snd (deque_step (cap m) (Urgent v) (msgs m)) \<and> cap m' = cap m \<and> ok m' = ok m"
proof (cases "full m")
  case True
  with m full_iff [OF m] show ?thesis by (simp add: store_step_def)
next
  case False
  with urgent_law [OF m v] obtain m' where
    "urgent v m = Some m'" "inv m'" "msgs m' = v # msgs m" "cap m' = cap m" "ok m' = ok m" by auto
  moreover have "length (msgs m) < cap m" using False full_iff [OF m] within [OF m] by simp
  ultimately show ?thesis using False by (simp add: store_step_def)
qed

lemma step_refines:
  assumes m: "inv m" and x: "msg_call_ok (ok m) x"
  shows "\<exists>m'. step x m = Some (fst (deque_step (cap m) x (msgs m)), m') \<and> inv m' \<and>
    msgs m' = snd (deque_step (cap m) x (msgs m)) \<and> cap m' = cap m \<and> ok m' = ok m"
  using x send_refines [OF m] urgent_refines [OF m] recv_refines [OF m] by (cases x) simp_all

text \<open>Any sequence of calls behaves like the bounded double-ended queue.\<close>

lemma run_refines:
  assumes "inv m" and "list_all (msg_call_ok (ok m)) xs"
  shows "\<exists>m'. store_run step xs m = Some (fst (deque_run (cap m) xs (msgs m)), m') \<and> inv m' \<and>
     msgs m' = snd (deque_run (cap m) xs (msgs m))"
proof (rule store_run_sim [where inv = inv and P = "\<lambda>m. msg_call_ok (ok m)"])
  fix m x assume m: "inv m" and x: "msg_call_ok (ok m) x"
  show "\<exists>m'. step x m = Some (fst (deque_step (cap m) x (msgs m)), m') \<and> inv m' \<and>
      msgs m' = snd (deque_step (cap m) x (msgs m)) \<and> cap m' = cap m \<and> msg_call_ok (ok m') = msg_call_ok (ok m)"
    using step_refines [OF m x] by auto
qed (rule assms)+

end

section \<open>Rings\<close>

text \<open>The first \<open>c\<close> words of a ring of \<open>n\<close> words that starts at \<open>off\<close>.\<close>

definition ring_msgs :: "'v list \<Rightarrow> nat \<Rightarrow> nat \<Rightarrow> nat \<Rightarrow> 'v list" where
  "ring_msgs pool n off c = map (\<lambda>i. pool ! ((off + i) mod n)) [0..<c]"

lemma length_ring_msgs [simp]: "length (ring_msgs pool n off c) = c"
  by (simp add: ring_msgs_def)

lemma ring_slot_neq:
  fixes i j n off :: nat
  assumes "i < j" and "j < i + n"
  shows "(off + i) mod n \<noteq> (off + j) mod n"
proof
  assume "(off + i) mod n = (off + j) mod n"
  then have "n dvd (off + j) - (off + i)" using assms(1) by (subst mod_eq_dvd_iff_nat [symmetric]) simp_all
  then have "n dvd j - i" by simp
  with assms show False by (auto dest: dvd_imp_le)
qed

lemma ring_push:
  assumes "c < n" and "n \<le> length pool"
  shows "ring_msgs (pool[(off + c) mod n := v]) n off (Suc c) = ring_msgs pool n off c @ [v]"
proof -
  have "(off + c) mod n < n" using assms(1) by simp
  then have "(off + c) mod n < length pool" using assms(2) by linarith
  moreover have "(off + c) mod n \<noteq> (off + i) mod n" if "i < c" for i
    using ring_slot_neq [OF that, of n off] assms that by simp
  then have "map (\<lambda>i. pool[(off + c) mod n := v] ! ((off + i) mod n)) [0..<c] = map (\<lambda>i. pool ! ((off + i) mod n)) [0..<c]"
    by (intro map_cong) (simp_all add: nth_list_update_neq)
  ultimately show ?thesis by (simp add: ring_msgs_def)
qed

lemma ring_pop:
  assumes "0 < c"
  shows "ring_msgs pool n off c = pool ! (off mod n) # ring_msgs pool n ((off + 1) mod n) (c - 1)"
proof -
  have "[0..<c] = 0 # map Suc [0..<c - 1]" using assms by (simp add: upt_conv_Cons map_Suc_upt)
  then show ?thesis by (simp add: ring_msgs_def mod_add_left_eq)
qed

lemma ring_push_front:
  assumes c: "c < n" and n: "n \<le> length pool" and o: "o' < n"
  shows "ring_msgs (pool[o' := v]) n o' (Suc c) = v # ring_msgs pool n ((o' + 1) mod n) c"
proof -
  have "ring_msgs (pool[o' := v]) n o' (Suc c) = v # ring_msgs (pool[o' := v]) n ((o' + 1) mod n) c"
    using ring_pop [of "Suc c" "pool[o' := v]" n o'] o n by simp
  moreover have "ring_msgs (pool[o' := v]) n ((o' + 1) mod n) c = ring_msgs pool n ((o' + 1) mod n) c"
    unfolding ring_msgs_def
  proof (rule map_cong [OF refl], rule nth_list_update_neq)
    fix i assume "i \<in> set [0..<c]"
    then have "(o' + 0) mod n \<noteq> (o' + Suc i) mod n" using c by (intro ring_slot_neq) simp_all
    then show "o' \<noteq> ((o' + 1) mod n + i) mod n" using o by (simp add: mod_add_left_eq)
  qed
  ultimately show ?thesis by simp
qed

end
