(* ===== verification/MailBox.thy ===== *)
theory MailBox
  imports IpcWait MessageStore
begin

text \<open>
  The mailboxes of \<open>rt-thread/src/ipc.c\<close>: a ring of words with an input and an output
  offset, a queue of threads waiting for mail (\<open>SuspendQ\<close>) and one of threads waiting for
  room (\<open>SenderQ\<close>). A waiting call tests again after every wake-up, with what is left of its
  timeout: \<open>mb_send_resume\<close> and \<open>mb_recv_resume\<close> enter the loop again.
\<close>

section \<open>The ring\<close>

text \<open>An assignment to an element of the pool, which must exist.\<close>

definition pool_set :: "nat \<Rightarrow> 'v \<Rightarrow> 'v list \<Rightarrow> 'v list option" where
  "pool_set i v pool = (if i < length pool then Some (pool[i := v]) else None)"

definition pool_get :: "nat \<Rightarrow> 'v list \<Rightarrow> 'v option" where
  "pool_get i pool = (if i < length pool then Some (pool ! i) else None)"

text \<open>\<open>++ mb->in_offset; if (mb->in_offset >= mb->size) mb->in_offset = 0;\<close>\<close>

definition next_offset :: "u16 \<Rightarrow> u16 \<Rightarrow> u16" where
  "next_offset off sz = (let off = off + 1 in if off \<ge> sz then 0 else off)"

text \<open>The ring part of a send: the result code is \<open>-RT_EFULL\<close> when the counter cannot grow.\<close>

definition mb_push :: "u32 \<Rightarrow> rt_mailbox \<Rightarrow> (rt_err \<times> rt_mailbox) option" where
  "mb_push value mb = do {
    pool \<leftarrow> pool_set (unat (mb_in_offset mb)) value (mb_msg_pool mb);
    let mb = mb\<lparr>mb_msg_pool := pool\<rparr>;
    let mb = mb\<lparr>mb_in_offset := next_offset (mb_in_offset mb) (mb_size mb)\<rparr>;
    if mb_entry mb < RT_MB_ENTRY_MAX then Some (RT_EOK, mb\<lparr>mb_entry := mb_entry mb + 1\<rparr>)
    else Some (- RT_EFULL, mb) }"

definition mb_push_front :: "u32 \<Rightarrow> rt_mailbox \<Rightarrow> rt_mailbox option" where
  "mb_push_front value mb = do {
    let mb = mb\<lparr>mb_out_offset := (if mb_out_offset mb > 0 then mb_out_offset mb - 1 else mb_size mb - 1)\<rparr>;
    pool \<leftarrow> pool_set (unat (mb_out_offset mb)) value (mb_msg_pool mb);
    let mb = mb\<lparr>mb_msg_pool := pool\<rparr>;
    Some (mb\<lparr>mb_entry := mb_entry mb + 1\<rparr>) }"

definition mb_pop :: "rt_mailbox \<Rightarrow> (u32 \<times> rt_mailbox) option" where
  "mb_pop mb = do {
    value \<leftarrow> pool_get (unat (mb_out_offset mb)) (mb_msg_pool mb);
    let mb = mb\<lparr>mb_out_offset := next_offset (mb_out_offset mb) (mb_size mb)\<rparr>;
    Some (value, if mb_entry mb > 0 then mb\<lparr>mb_entry := mb_entry mb - 1\<rparr> else mb) }"

section \<open>Operations\<close>

definition upd_mb :: "addr \<Rightarrow> (rt_mailbox \<Rightarrow> rt_mailbox) \<Rightarrow> kstate \<Rightarrow> kstate option" where
  "upd_mb a f s = do { m \<leftarrow> upd (k_mb s) a f; Some (s\<lparr>k_mb := m\<rparr>) }"

lemma upd_mb_Some [simp]:
  "k_mb s a = Some x \<Longrightarrow> upd_mb a f s = Some (s\<lparr>k_mb := (k_mb s)(a \<mapsto> f x)\<rparr>)"
  by (simp add: upd_mb_def upd_def)

definition sender_queue_init :: "addr \<Rightarrow> kstate \<Rightarrow> kstate" where
  "sender_queue_init a s = s\<lparr>k_list := (k_list s)(SenderQ a := [])\<rparr>"

definition rt_mb_init :: "addr \<Rightarrow> u8 list \<Rightarrow> u32 list \<Rightarrow> u32 \<Rightarrow> u8 \<Rightarrow> kstate \<Rightarrow> (rt_err \<times> kstate) option" where
  "rt_mb_init mb nm msgpool sz flag s = do {
    RT_ASSERT (flag = RT_IPC_FLAG_FIFO \<or> flag = RT_IPC_FLAG_PRIO);
    s \<leftarrow> rt_object_init (Obj mb) RT_Object_Class_MailBox nm s;
    s \<leftarrow> upd_obj (Obj mb) (\<lambda>h. h\<lparr>obj_flag := flag\<rparr>) s;
    let s = ipc_object_init mb s;
    let s = s\<lparr>k_mb := (k_mb s)(mb \<mapsto> \<lparr>mb_msg_pool = msgpool, mb_size = ucast sz, mb_entry = 0,
      mb_in_offset = 0, mb_out_offset = 0\<rparr>)\<rparr>;
    Some (RT_EOK, sender_queue_init mb s) }"

definition rt_mb_detach :: "addr \<Rightarrow> kstate \<Rightarrow> (rt_err \<times> kstate) option" where
  "rt_mb_detach mb s = do {
    _ \<leftarrow> assert_type (Obj mb) RT_Object_Class_MailBox s;
    _ \<leftarrow> assert_static (Obj mb) True s;
    s \<leftarrow> ipc_list_resume_all (SuspendQ mb) s;
    s \<leftarrow> ipc_list_resume_all (SenderQ mb) s;
    s \<leftarrow> rt_object_detach (Obj mb) s;
    Some (RT_EOK, s) }"

text \<open>The two allocations, of the object and of the pool, are parameters.\<close>

definition rt_mb_create :: "addr option \<Rightarrow> (nat \<Rightarrow> u32 list option) \<Rightarrow> u8 list \<Rightarrow> u32 \<Rightarrow> u8 \<Rightarrow> kstate \<Rightarrow>
    (addr option \<times> kstate) option" where
  "rt_mb_create mem malloc nm sz flag s = do {
    RT_ASSERT (flag = RT_IPC_FLAG_FIFO \<or> flag = RT_IPC_FLAG_PRIO);
    _ \<leftarrow> RT_DEBUG_NOT_IN_INTERRUPT s;
    (a, s) \<leftarrow> rt_object_allocate mem RT_Object_Class_MailBox nm s;
    case a of
      None \<Rightarrow> Some (None, s)
    | Some mb \<Rightarrow> do {
        s \<leftarrow> upd_obj (Obj mb) (\<lambda>h. h\<lparr>obj_flag := flag\<rparr>) s;
        let s = ipc_object_init mb s;
        let mb_sz = (ucast sz :: u16);
        case malloc (unat mb_sz * 4) of
          None \<Rightarrow> do { s \<leftarrow> rt_object_delete (Obj mb) s; Some (None, s) }
        | Some pool \<Rightarrow>
            let s = s\<lparr>k_mb := (k_mb s)(mb \<mapsto> \<lparr>mb_msg_pool = pool, mb_size = mb_sz, mb_entry = 0,
              mb_in_offset = 0, mb_out_offset = 0\<rparr>)\<rparr>
            in Some (Some mb, sender_queue_init mb s) } }"

text \<open>The pool goes back to the allocator before the object does: no entry of it can be read any more.\<close>

definition rt_mb_delete :: "addr \<Rightarrow> kstate \<Rightarrow> (rt_err \<times> kstate) option" where
  "rt_mb_delete mb s = do {
    _ \<leftarrow> assert_type (Obj mb) RT_Object_Class_MailBox s;
    _ \<leftarrow> assert_static (Obj mb) False s;
    _ \<leftarrow> RT_DEBUG_NOT_IN_INTERRUPT s;
    s \<leftarrow> ipc_list_resume_all (SuspendQ mb) s;
    s \<leftarrow> ipc_list_resume_all (SenderQ mb) s;
    x \<leftarrow> k_mb s mb;
    let s = s\<lparr>k_mb := (k_mb s)(mb \<mapsto> x\<lparr>mb_msg_pool := []\<rparr>)\<rparr>;
    s \<leftarrow> rt_object_delete (Obj mb) s;
    Some (RT_EOK, s) }"

text \<open>\<open>_rt_mb_send_wait\<close> from the test of its loop on.\<close>

definition mb_send_loop :: "addr \<Rightarrow> u32 \<Rightarrow> addr option \<Rightarrow> u32 \<Rightarrow> int \<Rightarrow> kstate \<Rightarrow> (rt_err outcome \<times> kstate) option" where
  "mb_send_loop mb value thread timeout suspend_flag s = do {
    x \<leftarrow> k_mb s mb;
    if mb_entry x = mb_size x then do {
      t \<leftarrow> thread;
      s \<leftarrow> upd_thread t (\<lambda>th. th\<lparr>th_error := - RT_EINTR\<rparr>) s;
      if timeout = 0 then Some (Return (- RT_EFULL), s)
      else do {
        h \<leftarrow> k_obj s (Obj mb);
        wait_in (SenderQ mb) t (obj_flag h) timeout suspend_flag s }
    } else do {
      (r, x) \<leftarrow> mb_push value x;
      s \<leftarrow> upd_mb mb (\<lambda>_. x) s;
      if r \<noteq> RT_EOK then Some (Return r, s)
      else do {
        s \<leftarrow> wake_first (SuspendQ mb) s;
        Some (Return RT_EOK, s) } } }"

definition mb_send_wait :: "addr \<Rightarrow> u32 \<Rightarrow> u32 \<Rightarrow> int \<Rightarrow> kstate \<Rightarrow> (rt_err outcome \<times> kstate) option" where
  "mb_send_wait mb value timeout suspend_flag s = do {
    _ \<leftarrow> assert_type (Obj mb) RT_Object_Class_MailBox s;
    _ \<leftarrow> RT_DEBUG_SCHEDULER_AVAILABLE (timeout \<noteq> 0) s;
    let thread = rt_thread_self s;
    x \<leftarrow> k_mb s mb;
    if mb_entry x = mb_size x \<and> timeout = 0 then Some (Return (- RT_EFULL), s)
    else mb_send_loop mb value thread timeout suspend_flag s }"

text \<open>The blocked sender when it runs again; \<open>start\<close> is the tick at which it had blocked.\<close>

definition mb_send_resume :: "addr \<Rightarrow> u32 \<Rightarrow> addr \<Rightarrow> u32 \<Rightarrow> u32 \<Rightarrow> int \<Rightarrow> kstate \<Rightarrow> (rt_err outcome \<times> kstate) option" where
  "mb_send_resume mb value thread timeout start suspend_flag s = do {
    th \<leftarrow> k_thread s thread;
    if th_error th \<noteq> RT_EOK then Some (Return (th_error th), s)
    else mb_send_loop mb value (Some thread) (time_left timeout start (rt_tick s)) suspend_flag s }"

definition rt_mb_send_wait :: "addr \<Rightarrow> u32 \<Rightarrow> u32 \<Rightarrow> kstate \<Rightarrow> (rt_err outcome \<times> kstate) option" where
  "rt_mb_send_wait mb value timeout s = mb_send_wait mb value timeout RT_UNINTERRUPTIBLE s"

definition rt_mb_send_wait_interruptible :: "addr \<Rightarrow> u32 \<Rightarrow> u32 \<Rightarrow> kstate \<Rightarrow> (rt_err outcome \<times> kstate) option" where
  "rt_mb_send_wait_interruptible mb value timeout s = mb_send_wait mb value timeout RT_INTERRUPTIBLE s"

definition rt_mb_send_wait_killable :: "addr \<Rightarrow> u32 \<Rightarrow> u32 \<Rightarrow> kstate \<Rightarrow> (rt_err outcome \<times> kstate) option" where
  "rt_mb_send_wait_killable mb value timeout s = mb_send_wait mb value timeout RT_KILLABLE s"

definition rt_mb_send :: "addr \<Rightarrow> u32 \<Rightarrow> kstate \<Rightarrow> (rt_err outcome \<times> kstate) option" where
  "rt_mb_send mb value s = rt_mb_send_wait mb value 0 s"

definition rt_mb_send_interruptible :: "addr \<Rightarrow> u32 \<Rightarrow> kstate \<Rightarrow> (rt_err outcome \<times> kstate) option" where
  "rt_mb_send_interruptible mb value s = rt_mb_send_wait_interruptible mb value 0 s"

definition rt_mb_send_killable :: "addr \<Rightarrow> u32 \<Rightarrow> kstate \<Rightarrow> (rt_err outcome \<times> kstate) option" where
  "rt_mb_send_killable mb value s = rt_mb_send_wait_killable mb value 0 s"

definition rt_mb_urgent :: "addr \<Rightarrow> u32 \<Rightarrow> kstate \<Rightarrow> (rt_err \<times> kstate) option" where
  "rt_mb_urgent mb value s = do {
    _ \<leftarrow> assert_type (Obj mb) RT_Object_Class_MailBox s;
    x \<leftarrow> k_mb s mb;
    if mb_entry x = mb_size x then Some (- RT_EFULL, s)
    else do {
      x \<leftarrow> mb_push_front value x;
      s \<leftarrow> upd_mb mb (\<lambda>_. x) s;
      s \<leftarrow> wake_first (SuspendQ mb) s;
      Some (RT_EOK, s) } }"

text \<open>A receive returns the error code and what it stores to \<open>*value\<close>.\<close>

definition mb_recv_loop :: "addr \<Rightarrow> addr option \<Rightarrow> u32 \<Rightarrow> int \<Rightarrow> kstate \<Rightarrow> ((rt_err \<times> u32 option) outcome \<times> kstate) option" where
  "mb_recv_loop mb thread timeout suspend_flag s = do {
    x \<leftarrow> k_mb s mb;
    if mb_entry x = 0 then do {
      t \<leftarrow> thread;
      s \<leftarrow> upd_thread t (\<lambda>th. th\<lparr>th_error := - RT_EINTR\<rparr>) s;
      if timeout = 0 then do {
        s \<leftarrow> upd_thread t (\<lambda>th. th\<lparr>th_error := - RT_ETIMEOUT\<rparr>) s;
        Some (Return (- RT_ETIMEOUT, None), s)
      } else do {
        h \<leftarrow> k_obj s (Obj mb);
        (r, s) \<leftarrow> wait_in (SuspendQ mb) t (obj_flag h) timeout suspend_flag s;
        Some (case r of Return e \<Rightarrow> Return (e, None) | Blocked \<Rightarrow> Blocked, s) }
    } else do {
      (v, x) \<leftarrow> mb_pop x;
      s \<leftarrow> upd_mb mb (\<lambda>_. x) s;
      s \<leftarrow> wake_first (SenderQ mb) s;
      Some (Return (RT_EOK, Some v), s) } }"

definition mb_recv :: "addr \<Rightarrow> u32 \<Rightarrow> int \<Rightarrow> kstate \<Rightarrow> ((rt_err \<times> u32 option) outcome \<times> kstate) option" where
  "mb_recv mb timeout suspend_flag s = do {
    _ \<leftarrow> assert_type (Obj mb) RT_Object_Class_MailBox s;
    _ \<leftarrow> RT_DEBUG_SCHEDULER_AVAILABLE (timeout \<noteq> 0) s;
    let thread = rt_thread_self s;
    x \<leftarrow> k_mb s mb;
    if mb_entry x = 0 \<and> timeout = 0 then Some (Return (- RT_ETIMEOUT, None), s)
    else mb_recv_loop mb thread timeout suspend_flag s }"

definition mb_recv_resume :: "addr \<Rightarrow> addr \<Rightarrow> u32 \<Rightarrow> u32 \<Rightarrow> int \<Rightarrow> kstate \<Rightarrow> ((rt_err \<times> u32 option) outcome \<times> kstate) option" where
  "mb_recv_resume mb thread timeout start suspend_flag s = do {
    th \<leftarrow> k_thread s thread;
    if th_error th \<noteq> RT_EOK then Some (Return (th_error th, None), s)
    else mb_recv_loop mb (Some thread) (time_left timeout start (rt_tick s)) suspend_flag s }"

definition rt_mb_recv :: "addr \<Rightarrow> u32 \<Rightarrow> kstate \<Rightarrow> ((rt_err \<times> u32 option) outcome \<times> kstate) option" where
  "rt_mb_recv mb timeout s = mb_recv mb timeout RT_UNINTERRUPTIBLE s"

definition rt_mb_recv_interruptibale :: "addr \<Rightarrow> u32 \<Rightarrow> kstate \<Rightarrow> ((rt_err \<times> u32 option) outcome \<times> kstate) option" where
  "rt_mb_recv_interruptibale mb timeout s = mb_recv mb timeout RT_INTERRUPTIBLE s"

definition rt_mb_recv_killable :: "addr \<Rightarrow> u32 \<Rightarrow> kstate \<Rightarrow> ((rt_err \<times> u32 option) outcome \<times> kstate) option" where
  "rt_mb_recv_killable mb timeout s = mb_recv mb timeout RT_KILLABLE s"

definition rt_mb_control :: "addr \<Rightarrow> int \<Rightarrow> kstate \<Rightarrow> (rt_err \<times> kstate) option" where
  "rt_mb_control mb cmd s = do {
    _ \<leftarrow> assert_type (Obj mb) RT_Object_Class_MailBox s;
    if cmd = RT_IPC_CMD_RESET then do {
      s \<leftarrow> ipc_list_resume_all (SuspendQ mb) s;
      s \<leftarrow> ipc_list_resume_all (SenderQ mb) s;
      s \<leftarrow> upd_mb mb (\<lambda>x. x\<lparr>mb_entry := 0, mb_in_offset := 0, mb_out_offset := 0\<rparr>) s;
      s \<leftarrow> rt_schedule s;
      Some (RT_EOK, s)
    } else Some (- RT_ERROR, s) }"

section \<open>The ring as a store of messages\<close>

lemma next_offset_mod:
  assumes "off < sz"
  shows "unat (next_offset off sz) = (unat off + 1) mod unat sz"
proof -
  have "unat (off + 1) = unat off + 1"
    using assms unat_Suc_less [of off sz] by (simp add: word_less_nat_alt)
  moreover have "unat off < unat sz" using assms by (simp only: word_less_nat_alt)
  moreover from this have "Suc (unat off) mod unat sz = (if Suc (unat off) < unat sz then Suc (unat off) else 0)"
    by (cases "Suc (unat off) = unat sz") simp_all
  ultimately show ?thesis by (auto simp: next_offset_def Let_def word_le_nat_alt)
qed

text \<open>The invariant of a mailbox, and the messages it holds.\<close>

definition mb_inv :: "rt_mailbox \<Rightarrow> bool" where
  "mb_inv m \<longleftrightarrow> unat (mb_size m) \<le> length (mb_msg_pool m) \<and> mb_entry m \<le> mb_size m \<and>
    (mb_size m > 0 \<longrightarrow> mb_in_offset m < mb_size m \<and> mb_out_offset m < mb_size m \<and>
      unat (mb_in_offset m) = (unat (mb_out_offset m) + unat (mb_entry m)) mod unat (mb_size m))"

definition mb_msgs :: "rt_mailbox \<Rightarrow> u32 list" where
  "mb_msgs m = ring_msgs (mb_msg_pool m) (unat (mb_size m)) (unat (mb_out_offset m)) (unat (mb_entry m))"

definition mb_full :: "rt_mailbox \<Rightarrow> bool" where
  "mb_full m \<longleftrightarrow> mb_entry m = mb_size m"

definition mb_empty :: "rt_mailbox \<Rightarrow> bool" where
  "mb_empty m \<longleftrightarrow> mb_entry m = 0"

text \<open>A send that the counter refuses is no result.\<close>

definition mb_put :: "u32 \<Rightarrow> rt_mailbox \<Rightarrow> rt_mailbox option" where
  "mb_put v m = do { (r, m) \<leftarrow> mb_push v m; if r = RT_EOK then Some m else None }"

lemma length_mb_msgs [simp]: "length (mb_msgs m) = unat (mb_entry m)"
  by (simp add: mb_msgs_def)

lemma mb_room: "mb_inv m \<Longrightarrow> \<not> mb_full m \<Longrightarrow> mb_entry m < mb_size m"
  by (simp add: mb_inv_def mb_full_def order_less_le)

lemma mb_push_spec:
  assumes m: "mb_inv m" and f: "\<not> mb_full m"
  shows "\<exists>m'. mb_push v m = Some (RT_EOK, m') \<and> mb_inv m' \<and> mb_msgs m' = mb_msgs m @ [v] \<and> mb_size m' = mb_size m"
proof -
  let ?n = "unat (mb_size m)" and ?c = "unat (mb_entry m)" and ?o = "unat (mb_out_offset m)"
  note lt = mb_room [OF m f]
  have c: "?c < ?n" using lt by (simp only: word_less_nat_alt)
  then have sz: "mb_size m > 0" by (simp add: word_less_nat_alt)
  have i: "mb_in_offset m < mb_size m" "mb_out_offset m < mb_size m" "unat (mb_in_offset m) = (?o + ?c) mod ?n"
    and p: "?n \<le> length (mb_msg_pool m)" using m sz by (simp_all add: mb_inv_def)
  have "(?o + ?c) mod ?n < ?n" using c by simp
  then have il: "(?o + ?c) mod ?n < length (mb_msg_pool m)" using p by linarith
  have "?n < 2 ^ LENGTH(16)" by (rule unsigned_less)
  then have mx: "mb_entry m < 0xffff" using c by (simp add: word_less_nat_alt)
  let ?m = "m\<lparr>mb_msg_pool := (mb_msg_pool m)[(?o + ?c) mod ?n := v], mb_entry := mb_entry m + 1,
    mb_in_offset := next_offset (mb_in_offset m) (mb_size m)\<rparr>"
  have "mb_push v m = Some (0, ?m)" using il mx i(3) by (simp add: mb_push_def pool_set_def)
  moreover have u: "unat (mb_entry m + 1) = Suc ?c" using unat_Suc_less [OF c] .
  have "mb_msgs ?m = mb_msgs m @ [v]" using ring_push [OF c p, of ?o v] by (simp add: mb_msgs_def u)
  moreover have "mb_inv ?m"
  proof -
    have "unat (next_offset (mb_in_offset m) (mb_size m)) = (?o + Suc ?c) mod ?n"
      using next_offset_mod [OF i(1)] i(3) by (simp add: mod_Suc_eq)
    moreover have "next_offset (mb_in_offset m) (mb_size m) < mb_size m"
      using next_offset_mod [OF i(1)] c by (simp add: word_less_nat_alt)
    moreover have "mb_entry m + 1 \<le> mb_size m" using u c by (simp add: word_le_nat_alt)
    ultimately show ?thesis using i p u by (simp add: mb_inv_def)
  qed
  ultimately show ?thesis by auto
qed

lemma mb_push_front_spec:
  assumes m: "mb_inv m" and f: "\<not> mb_full m"
  shows "\<exists>m'. mb_push_front v m = Some m' \<and> mb_inv m' \<and> mb_msgs m' = v # mb_msgs m \<and> mb_size m' = mb_size m"
proof -
  let ?n = "unat (mb_size m)" and ?c = "unat (mb_entry m)" and ?o = "unat (mb_out_offset m)"
  note lt = mb_room [OF m f]
  have c: "?c < ?n" using lt by (simp only: word_less_nat_alt)
  then have sz: "mb_size m > 0" by (simp add: word_less_nat_alt)
  have i: "mb_in_offset m < mb_size m" "mb_out_offset m < mb_size m" "unat (mb_in_offset m) = (?o + ?c) mod ?n"
    and p: "?n \<le> length (mb_msg_pool m)" using m sz by (simp_all add: mb_inv_def)
  define off where "off = (if mb_out_offset m > 0 then mb_out_offset m - 1 else mb_size m - 1)"
  have off: "unat off < ?n" "(unat off + 1) mod ?n = ?o"
    using i(2) sz by (auto simp: off_def unat_minus_one word_less_nat_alt unat_gt_0)
  let ?m = "m\<lparr>mb_msg_pool := (mb_msg_pool m)[unat off := v], mb_entry := mb_entry m + 1, mb_out_offset := off\<rparr>"
  have "mb_push_front v m = Some ?m"
    using off p unfolding mb_push_front_def off_def [symmetric] by (simp add: pool_set_def Let_def)
  moreover have u: "unat (mb_entry m + 1) = Suc ?c" using unat_Suc_less [OF c] .
  have "mb_msgs ?m = v # mb_msgs m" using ring_push_front [OF c p off(1), of v] off(2) by (simp add: mb_msgs_def u)
  moreover have "mb_inv ?m"
  proof -
    have "(unat off + Suc ?c) mod ?n = ((unat off + 1) mod ?n + ?c) mod ?n" by (simp add: mod_add_left_eq)
    then have "unat (mb_in_offset m) = (unat off + Suc ?c) mod ?n" using off(2) i(3) by simp
    moreover have "mb_entry m + 1 \<le> mb_size m" using u c by (simp add: word_le_nat_alt)
    ultimately show ?thesis using i p u off by (simp add: mb_inv_def word_less_nat_alt)
  qed
  ultimately show ?thesis by auto
qed

lemma mb_pop_spec:
  assumes m: "mb_inv m" and q: "mb_msgs m = v # q"
  shows "\<exists>m'. mb_pop m = Some (v, m') \<and> mb_inv m' \<and> mb_msgs m' = q \<and> mb_size m' = mb_size m"
proof -
  let ?n = "unat (mb_size m)" and ?c = "unat (mb_entry m)" and ?o = "unat (mb_out_offset m)"
  have c0: "0 < ?c" using arg_cong [OF q, of length] by simp
  have lt: "mb_entry m \<le> mb_size m" using m by (simp add: mb_inv_def)
  then have cn: "?c \<le> ?n" by (simp add: word_le_nat_alt)
  then have sz: "mb_size m > 0" using c0 by (simp add: word_gt_0 unat_gt_0 [symmetric])
  have i: "mb_in_offset m < mb_size m" "mb_out_offset m < mb_size m" "unat (mb_in_offset m) = (?o + ?c) mod ?n"
    and p: "?n \<le> length (mb_msg_pool m)" using m sz by (simp_all add: mb_inv_def)
  have o: "?o < ?n" using i(2) by (simp add: word_less_nat_alt)
  have e0: "mb_entry m > 0" using c0 by (simp add: word_gt_0 unat_gt_0)
  let ?m = "m\<lparr>mb_entry := mb_entry m - 1, mb_out_offset := next_offset (mb_out_offset m) (mb_size m)\<rparr>"
  have u: "unat (mb_entry m - 1) = ?c - 1" using e0 by (simp add: unat_minus_one word_gt_0)
  have n: "unat (next_offset (mb_out_offset m) (mb_size m)) = (?o + 1) mod ?n" by (rule next_offset_mod [OF i(2)])
  have r: "mb_msgs m = mb_msg_pool m ! ?o # mb_msgs ?m"
    using ring_pop [OF c0, of "mb_msg_pool m" ?n ?o] o by (simp add: mb_msgs_def u n)
  have "mb_pop m = Some (v, ?m)" using o p e0 r q by (simp add: mb_pop_def pool_get_def)
  moreover have "mb_msgs ?m = q" using r q by simp
  moreover have "mb_inv ?m"
  proof -
    have "((?o + 1) mod ?n + (?c - 1)) mod ?n = (?o + 1 + (?c - 1)) mod ?n" by (rule mod_add_left_eq)
    also have "?o + 1 + (?c - 1) = ?o + ?c" using c0 by simp
    finally have "((?o + 1) mod ?n + (?c - 1)) mod ?n = (?o + ?c) mod ?n" .
    then have "unat (mb_in_offset m) = (unat (next_offset (mb_out_offset m) (mb_size m)) + unat (mb_entry m - 1)) mod ?n"
      unfolding n u i(3) by (rule sym)
    moreover have "(?o + 1) mod ?n < ?n" using o by simp
    moreover have "mb_entry m - 1 \<le> mb_size m" using u cn by (simp add: word_le_nat_alt)
    ultimately show ?thesis using i p u n o by (simp add: mb_inv_def word_less_nat_alt)
  qed
  ultimately show ?thesis by auto
qed

interpretation mbs: message_store mb_inv mb_msgs "\<lambda>m. unat (mb_size m)" "\<lambda>_ _. True" mb_full mb_empty mb_put mb_pop mb_push_front
proof
  fix m :: rt_mailbox assume m: "mb_inv m"
  show "mb_full m \<longleftrightarrow> length (mb_msgs m) = unat (mb_size m)" by (simp add: mb_full_def word_unat_eq_iff)
  show "mb_empty m \<longleftrightarrow> mb_msgs m = []"
    by (simp add: mb_empty_def length_0_conv [symmetric] unat_eq_0 del: length_0_conv)
  show "length (mb_msgs m) \<le> unat (mb_size m)" using m by (simp add: mb_inv_def word_le_nat_alt)
  show "\<exists>m'. mb_put v m = Some m' \<and> mb_inv m' \<and> mb_msgs m' = mb_msgs m @ [v] \<and> unat (mb_size m') = unat (mb_size m) \<and>
      (\<lambda>_. True) = (\<lambda>_. True)" if "\<not> mb_full m" for v
    using mb_push_spec [OF m that, of v] by (auto simp: mb_put_def)
  show "\<exists>m'. mb_push_front v m = Some m' \<and> mb_inv m' \<and> mb_msgs m' = v # mb_msgs m \<and> unat (mb_size m') = unat (mb_size m) \<and>
      (\<lambda>_. True) = (\<lambda>_. True)" if "\<not> mb_full m" for v
    using mb_push_front_spec [OF m that, of v] by auto
  show "\<exists>m'. mb_pop m = Some (v, m') \<and> mb_inv m' \<and> mb_msgs m' = q \<and> unat (mb_size m') = unat (mb_size m) \<and>
      (\<lambda>_. True) = (\<lambda>_. True)" if "mb_msgs m = v # q" for v q
    using mb_pop_spec [OF m that] by auto
qed

section \<open>The mailbox in the kernel\<close>

definition mb_ok :: "kstate \<Rightarrow> addr \<Rightarrow> bool" where
  "mb_ok s a \<longleftrightarrow> (\<exists>x h. k_mb s a = Some x \<and> mb_inv x \<and> k_obj s (Obj a) = Some h \<and>
    obj_type h AND NOT RT_Object_Class_Static = RT_Object_Class_MailBox \<and>
    (obj_flag h = RT_IPC_FLAG_FIFO \<or> obj_flag h = RT_IPC_FLAG_PRIO))"

lemma mb_okD:
  assumes "mb_ok s a"
  shows "is_class (Obj a) RT_Object_Class_MailBox s" "\<exists>h. k_obj s (Obj a) = Some h \<and> obj_flag h = ipc_flag s a"
    "ipc_flag s a = RT_IPC_FLAG_FIFO \<or> ipc_flag s a = RT_IPC_FLAG_PRIO"
    "k_mb s a = Some x \<Longrightarrow> mb_inv x"
  using assms by (auto simp: mb_ok_def is_class_def ipc_flag_def)

lemma mb_ok_change:
  assumes "mb_ok s a" and "k_mb s' a = Some x" and "mb_inv x" and "k_obj s' (Obj a) = k_obj s (Obj a)"
  shows "mb_ok s' a"
  using assms by (auto simp: mb_ok_def)

interpretation mb: ipc_object mb_ok
proof
  fix s s' a assume ok: "mb_ok s a" and "quiet s s'"
  then have "ipc_same s s'" by (simp add: quiet_def)
  with ok show "mb_ok s' a" using ipc_sameD [of s s'] by (auto simp: mb_ok_def)
qed

text \<open>
  A finished operation that leaves the messages \<open>q\<close> and wakes the first thread of \<open>l\<close>.
\<close>

definition mb_done :: "u32 list \<Rightarrow> lhead \<Rightarrow> addr \<Rightarrow> rt_mailbox \<Rightarrow> kstate \<Rightarrow> kstate \<Rightarrow> bool" where
  "mb_done q l a x s s' \<longleftrightarrow> mb.live s' a \<and> first_woken l s s' \<and>
    (\<exists>x'. k_mb s' a = Some x' \<and> mb_msgs x' = q \<and> mb_size x' = mb_size x)"

lemma mb_stored:
  assumes lv: "mb.live s a" and x: "k_mb s a = Some x" and x': "mb_inv x'" "mb_size x' = mb_size x"
    and l: "is_waitq l"
  shows "\<exists>s'. upd_mb a (\<lambda>_. x') s \<bind> wake_first l = Some s' \<and> mb_done (mb_msgs x') l a x s s'"
proof -
  let ?s = "s\<lparr>k_mb := (k_mb s)(a \<mapsto> x')\<rparr>"
  have kw: "kwf s" and ok: "mb_ok s a" and cur: "rt_current_thread s \<noteq> None" using lv by (simp_all add: mb.live_def)
  have kw1: "kwf ?s" using kwf_same_ipc [of ?s s] kw by simp
  have ok1: "mb_ok ?s a" by (rule mb_ok_change [OF ok _ x'(1)]) simp_all
  have c1: "rt_current_thread ?s \<noteq> None" using cur by simp
  from wake_first_spec [OF kw1 c1 l] obtain s' where s': "wake_first l ?s = Some s'" "kwf s'"
    "rt_current_thread s' \<noteq> None" "quiet ?s s'" "first_woken l ?s s'" by blast
  have "first_woken l s s'" using first_woken_cong [of ?s s l s'] s'(5) by simp
  moreover have "mb.live s' a" using s' mb.wf_quiet [OF ok1 s'(4)] by (simp add: mb.live_def)
  moreover have "k_mb s' a = Some x'" using ipc_sameD(4) [OF quietD(1) [OF s'(4)]] by simp
  ultimately show ?thesis using s'(1) x x' by (simp add: mb_done_def)
qed

lemma send_loop_room:
  assumes lv: "mb.live s a" and x: "k_mb s a = Some x" and f: "\<not> mb_full x"
  shows "\<exists>s'. mb_send_loop a v th timeout sf s = Some (Return RT_EOK, s') \<and> mb_done (mb_msgs x @ [v]) (SuspendQ a) a x s s'"
proof -
  have i: "mb_inv x" using mb_okD(4) [of s a x] lv x by (simp add: mb.live_def)
  from mb_push_spec [OF i f, of v] obtain x' where
    x': "mb_push v x = Some (0, x')" "mb_inv x'" "mb_msgs x' = mb_msgs x @ [v]" "mb_size x' = mb_size x" by auto
  from mb_stored [OF lv x x'(2,4), of "SuspendQ a"] x x' f show ?thesis
    by (auto simp: mb_send_loop_def mb_full_def)
qed

lemma recv_loop_mail:
  assumes lv: "mb.live s a" and x: "k_mb s a = Some x" and q: "mb_msgs x = v # q"
  shows "\<exists>s'. mb_recv_loop a th timeout sf s = Some (Return (RT_EOK, Some v), s') \<and> mb_done q (SenderQ a) a x s s'"
proof -
  have i: "mb_inv x" using mb_okD(4) [of s a x] lv x by (simp add: mb.live_def)
  from mb_pop_spec [OF i q] obtain x' where
    x': "mb_pop x = Some (v, x')" "mb_inv x'" "mb_msgs x' = q" "mb_size x' = mb_size x" by auto
  have "mb_entry x \<noteq> 0" using mbs.empty_iff [OF i] q by (simp add: mb_empty_def)
  with mb_stored [OF lv x x'(2,4), of "SenderQ a"] x x' show ?thesis
    by (auto simp: mb_recv_loop_def)
qed

lemma urgent_room:
  assumes lv: "mb.live s a" and x: "k_mb s a = Some x" and f: "\<not> mb_full x"
  shows "\<exists>s'. rt_mb_urgent a v s = Some (RT_EOK, s') \<and> mb_done (v # mb_msgs x) (SuspendQ a) a x s s'"
proof -
  have ok: "mb_ok s a" using lv by (simp add: mb.live_def)
  from mb_push_front_spec [OF mb_okD(4) [OF ok x] f, of v] obtain x' where
    x': "mb_push_front v x = Some x'" "mb_inv x'" "mb_msgs x' = v # mb_msgs x" "mb_size x' = mb_size x" by auto
  from mb_stored [OF lv x x'(2,4), of "SuspendQ a"] x x' f mb_okD(1) [OF ok] show ?thesis
    by (auto simp: rt_mb_urgent_def mb_full_def assert_type_class)
qed

lemma mb_blocked_live: "mb.live s a \<Longrightarrow> blocked l t e flag timeout s s' \<Longrightarrow> mb.live s' a"
  using blockedD(1,3) [of l t e flag timeout s s'] ipc_sameD [OF blockedD(2) [of l t e flag timeout s s']]
  by (auto simp: mb.live_def mb_ok_def)

lemma send_loop_full:
  assumes lv: "mb.live s a" and x: "k_mb s a = Some x" and f: "mb_full x" and ctx: "thread_context t s"
    and to: "timeout \<noteq> 0" "timeout \<noteq> 0x7fffffff" and sf: "suspend_stat sf \<noteq> None"
  shows "\<exists>s'. mb_send_loop a v (Some t) timeout sf s = Some (Blocked, s') \<and>
    blocked (SenderQ a) t (- RT_EINTR) (ipc_flag s a) timeout s s' \<and> mb.live s' a"
proof -
  have kw: "kwf s" and ok: "mb_ok s a" using lv by (simp_all add: mb.live_def)
  obtain th where th: "k_thread s t = Some th" using ctx by (auto simp: thread_context_def)
  obtain h where h: "k_obj s (Obj a) = Some h" "obj_flag h = ipc_flag s a" using mb_okD(2) [OF ok] by blast
  from wait_in_spec [OF kw ctx th is_waitq_simps(2) mb_okD(3) [OF ok] sf to(2), of a "- 9"] obtain s' where
    s': "wait_in (SenderQ a) t (ipc_flag s a) timeout sf (s\<lparr>k_thread := (k_thread s)(t \<mapsto> th\<lparr>th_error := - 9\<rparr>)\<rparr>) = Some (Blocked, s')"
      "blocked (SenderQ a) t (- 9) (ipc_flag s a) timeout s s'" by blast
  have "mb_send_loop a v (Some t) timeout sf s = Some (Blocked, s')"
    using x f to th h s'(1) by (simp add: mb_send_loop_def mb_full_def)
  with s'(2) mb_blocked_live [OF lv s'(2)] show ?thesis by simp
qed

lemma recv_loop_empty:
  assumes lv: "mb.live s a" and x: "k_mb s a = Some x" and f: "mb_msgs x = []" and ctx: "thread_context t s"
    and to: "timeout \<noteq> 0" "timeout \<noteq> 0x7fffffff" and sf: "suspend_stat sf \<noteq> None"
  shows "\<exists>s'. mb_recv_loop a (Some t) timeout sf s = Some (Blocked, s') \<and>
    blocked (SuspendQ a) t (- RT_EINTR) (ipc_flag s a) timeout s s' \<and> mb.live s' a"
proof -
  have kw: "kwf s" and ok: "mb_ok s a" using lv by (simp_all add: mb.live_def)
  obtain th where th: "k_thread s t = Some th" using ctx by (auto simp: thread_context_def)
  obtain h where h: "k_obj s (Obj a) = Some h" "obj_flag h = ipc_flag s a" using mb_okD(2) [OF ok] by blast
  from wait_in_spec [OF kw ctx th is_waitq_simps(1) mb_okD(3) [OF ok] sf to(2), of a "- 9"] obtain s' where
    s': "wait_in (SuspendQ a) t (ipc_flag s a) timeout sf (s\<lparr>k_thread := (k_thread s)(t \<mapsto> th\<lparr>th_error := - 9\<rparr>)\<rparr>) = Some (Blocked, s')"
      "blocked (SuspendQ a) t (- 9) (ipc_flag s a) timeout s s'" by blast
  have e: "mb_entry x = 0" using mbs.empty_iff [OF mb_okD(4) [OF ok x]] f by (simp add: mb_empty_def)
  have "mb_recv_loop a (Some t) timeout sf s = Some (Blocked, s')"
    using x e to th h s'(1) by (simp add: mb_recv_loop_def)
  with s'(2) mb_blocked_live [OF lv s'(2)] show ?thesis by simp
qed

text \<open>A sender that was woken, by a receiver that made room, completes.\<close>

lemma send_resume_room:
  assumes "mb.live s a" and "k_mb s a = Some x" and "\<not> mb_full x" and "k_thread s t = Some th" and "th_error th = RT_EOK"
  shows "\<exists>s'. mb_send_resume a v t timeout start sf s = Some (Return RT_EOK, s') \<and>
    mb_done (mb_msgs x @ [v]) (SuspendQ a) a x s s'"
  using send_loop_room [OF assms(1-3)] assms(4,5) by (simp add: mb_send_resume_def)

section \<open>Properties\<close>

text \<open>C13. The ring is a bounded double-ended queue: every sequence of sends, urgent sends and
  receives on a well-formed mailbox returns what the queue of \<open>size\<close> messages returns and
  leaves its content; a full mailbox drops the message, an empty one has nothing to give, and
  no access leaves the pool.\<close>

theorem rt_mb_deque:
  assumes "mb_inv m"
  shows "\<exists>m'. store_run (store_step mb_full mb_empty mb_put mb_push_front mb_pop) calls m =
      Some (fst (deque_run (unat (mb_size m)) calls (mb_msgs m)), m') \<and> mb_inv m' \<and>
    mb_msgs m' = snd (deque_run (unat (mb_size m)) calls (mb_msgs m))"
proof (rule mbs.run_refines [OF assms])
  show "list_all (msg_call_ok (\<lambda>_. True)) calls" by (simp add: list_all_iff)
qed

definition ex_mailbox :: rt_mailbox where
  "ex_mailbox = \<lparr>mb_msg_pool = [0, 0], mb_size = 2, mb_entry = 0, mb_in_offset = 1, mb_out_offset = 1\<rparr>"

lemma ex_mailbox_inv: "mb_inv ex_mailbox" "mb_msgs ex_mailbox = []" "mb_size ex_mailbox = 2" "mb_entry ex_mailbox = 0"
  by (simp_all add: ex_mailbox_def mb_inv_def mb_msgs_def ring_msgs_def)

lemma rt_mb_deque_witness:
  "\<exists>m'. store_run (store_step mb_full mb_empty mb_put mb_push_front mb_pop) [Send 5, Urgent 6, Send 7, Recv, Recv, Recv] ex_mailbox =
      Some ([None, None, None, Some 6, Some 5, None], m') \<and> mb_inv m' \<and> mb_msgs m' = []"
  using rt_mb_deque [OF ex_mailbox_inv(1), of "[Send 5, Urgent 6, Send 7, Recv, Recv, Recv]"]
  by (simp add: ex_mailbox_inv)

text \<open>C14. The outcomes of a send with any timeout and suspend flag: with room the message is
  appended and the first waiting receiver made runnable with code \<open>RT_EOK\<close>; a full mailbox
  without waiting is \<open>-RT_EFULL\<close> and changes nothing; otherwise the caller waits in the
  sender queue with its timer armed and code \<open>-RT_EINTR\<close>.\<close>

theorem rt_mb_send_outcomes:
  assumes "kwf s" and "mb_ok s a" and "k_mb s a = Some x" and "thread_context t s"
    and "timeout \<noteq> 0x7fffffff" and "suspend_stat f \<noteq> None"
  shows "if length (mb_msgs x) < unat (mb_size x)
      then \<exists>s'. mb_send_wait a v timeout f s = Some (Return RT_EOK, s') \<and> mb_done (mb_msgs x @ [v]) (SuspendQ a) a x s s'
    else if timeout = 0 then mb_send_wait a v timeout f s = Some (Return (- RT_EFULL), s)
    else \<exists>s'. mb_send_wait a v timeout f s = Some (Blocked, s') \<and>
      blocked (SenderQ a) t (- RT_EINTR) (ipc_flag s a) timeout s s' \<and> mb_ok s' a"
proof -
  have lv: "mb.live s a" and self: "rt_thread_self s = Some t"
    using assms(1,2,4) by (auto simp: mb.live_def thread_context_def rt_thread_self_def)
  note i = mb_okD(4) [OF assms(2,3)]
  have full: "mb_full x \<longleftrightarrow> \<not> length (mb_msgs x) < unat (mb_size x)"
    using mbs.full_iff [OF i] mbs.within [OF i] by auto
  have e: "mb_send_wait a v timeout f s = (if mb_full x \<and> timeout = 0 then Some (Return (- RT_EFULL), s)
      else mb_send_loop a v (Some t) timeout f s)"
    using mb_okD(1) [OF assms(2)] assms(3,4) self by (simp add: mb_send_wait_def assert_type_class mb_full_def)
  show ?thesis
  proof (cases "mb_full x")
    case False
    with full e send_loop_room [OF lv assms(3) False] show ?thesis by simp
  next
    case True
    show ?thesis
    proof (cases "timeout = 0")
      case False
      from send_loop_full [OF lv assms(3) True assms(4) False assms(5,6)] True False full e show ?thesis
        by (auto simp: mb.live_def)
    qed (use True full e in simp)
  qed
qed

text \<open>The mailbox 20 with room for two messages, and threads 11 and 12 waiting for mail.\<close>

definition ex_mb :: kstate where
  "ex_mb = ex_timed\<lparr>k_obj := (k_obj ex_timed)(Obj 20 \<mapsto> ex_ipc_header 5 0), k_mb := [20 \<mapsto> ex_mailbox]\<rparr>"

lemma ex_mb_simps [simp]:
  "k_mb ex_mb = [20 \<mapsto> ex_mailbox]" "k_list ex_mb = (\<lambda>_. [])(SuspendQ 20 := [11, 12])"
  "k_obj ex_mb (Obj 20) = Some (ex_ipc_header 5 0)" "rt_current_thread ex_mb = Some 10"
  by (simp_all add: ex_mb_def)

lemma ex_mb_kwf: "kwf ex_mb"
proof (rule kwf_new_object [OF ex_timed_kwf])
  show "k_obj ex_timed (Obj 20) = None" by (simp add: ex_timed_def ex_state_def)
  show "k_obj ex_mb = (k_obj ex_timed)(Obj 20 \<mapsto> ex_ipc_header 5 0)" by (simp add: ex_mb_def)
qed (simp_all add: ex_mb_def)

lemma ex_mb_ok: "mb_ok ex_mb 20"
  by (simp add: mb_ok_def ex_ipc_header_def ex_mailbox_inv)

lemma ex_mb_context: "thread_context 10 ex_mb"
  by (simp add: thread_context_def ex_mb_def ex_timed_def ex_state_def init_kstate_def ex_thread_def state_of_def)

lemma rt_mb_send_outcomes_witness:
  "\<exists>s' x'. rt_mb_send 20 7 ex_mb = Some (Return RT_EOK, s') \<and> k_mb s' 20 = Some x' \<and> mb_msgs x' = [7] \<and>
    k_list s' (SuspendQ 20) = [12]"
proof -
  have "suspend_stat 2 \<noteq> None" by (simp add: suspend_stat_def)
  with rt_mb_send_outcomes [OF ex_mb_kwf ex_mb_ok _ ex_mb_context, of ex_mailbox 0 2 7] show ?thesis
    by (auto simp: rt_mb_send_def rt_mb_send_wait_def mb_done_def first_woken_def ex_mailbox_inv)
qed

text \<open>The outcomes of a receive: the oldest message, with the first waiting sender made
  runnable with code \<open>RT_EOK\<close>; from an empty mailbox \<open>-RT_ETIMEOUT\<close> with nothing
  changed when the caller does not wait, and otherwise the caller queued in \<open>SuspendQ\<close>.\<close>

theorem rt_mb_recv_outcomes:
  assumes "kwf s" and "mb_ok s a" and "k_mb s a = Some x" and "thread_context t s"
    and "timeout \<noteq> 0x7fffffff" and "suspend_stat f \<noteq> None"
  shows "case mb_msgs x of
      v # q \<Rightarrow> \<exists>s'. mb_recv a timeout f s = Some (Return (RT_EOK, Some v), s') \<and> mb_done q (SenderQ a) a x s s'
    | [] \<Rightarrow> if timeout = 0 then mb_recv a timeout f s = Some (Return (- RT_ETIMEOUT, None), s)
      else \<exists>s'. mb_recv a timeout f s = Some (Blocked, s') \<and>
        blocked (SuspendQ a) t (- RT_EINTR) (ipc_flag s a) timeout s s' \<and> mb_ok s' a"
proof -
  have lv: "mb.live s a" and self: "rt_thread_self s = Some t"
    using assms(1,2,4) by (auto simp: mb.live_def thread_context_def rt_thread_self_def)
  note i = mb_okD(4) [OF assms(2,3)]
  have emp: "mb_entry x = 0 \<longleftrightarrow> mb_msgs x = []" using mbs.empty_iff [OF i] by (simp add: mb_empty_def)
  have e: "mb_recv a timeout f s = (if mb_msgs x = [] \<and> timeout = 0 then Some (Return (- RT_ETIMEOUT, None), s)
      else mb_recv_loop a (Some t) timeout f s)"
    using mb_okD(1) [OF assms(2)] assms(3,4) self emp by (simp add: mb_recv_def assert_type_class)
  show ?thesis
  proof (cases "mb_msgs x")
    case (Cons v q)
    with e recv_loop_mail [OF lv assms(3) Cons] show ?thesis by simp
  next
    case Nil
    show ?thesis
    proof (cases "timeout = 0")
      case False
      from recv_loop_empty [OF lv assms(3) Nil assms(4) False assms(5,6)] Nil False e show ?thesis
        by (auto simp: mb.live_def)
    qed (use Nil e in simp)
  qed
qed

lemma rt_mb_recv_outcomes_witness:
  "\<exists>s'. rt_mb_recv 20 5 ex_mb = Some (Blocked, s') \<and> k_list s' (SuspendQ 20) = [11, 12, 10] \<and> timer_set 10 8 s'"
proof -
  have "suspend_stat 2 \<noteq> None" by (simp add: suspend_stat_def)
  with rt_mb_recv_outcomes [OF ex_mb_kwf ex_mb_ok _ ex_mb_context, of ex_mailbox 5 2] obtain s' where
    s': "mb_recv 20 5 2 ex_mb = Some (Blocked, s')" and b: "blocked (SuspendQ 20) 10 (- 9) (ipc_flag ex_mb 20) 5 ex_mb s'"
    by (auto simp: ex_mailbox_inv)
  have "rt_tick ex_mb = 3" by (simp add: ex_mb_def)
  with s' blockedD(4) [OF b, of "SuspendQ 20"] blockedD(6) [OF b] show ?thesis
    by (auto simp: rt_mb_recv_def enqueue_def ipc_flag_def ex_ipc_header_def)
qed

text \<open>C15. A receive from a full mailbox hands the freed place over: the first waiting sender,
  whatever is left of its timeout, then completes with \<open>RT_EOK\<close>, its message is last, and
  the mailbox is full again.\<close>

theorem rt_mb_sender_completes:
  assumes "kwf s" and "mb_ok s a" and "k_mb s a = Some x" and "thread_context r s"
    and "length (mb_msgs x) = unat (mb_size x)" and "mb_msgs x = w # q" and "k_list s (SenderQ a) = t # rest"
    and "timeout \<noteq> 0x7fffffff" and "suspend_stat f \<noteq> None"
  shows "\<exists>s1 s2 x2. mb_recv a timeout f s = Some (Return (RT_EOK, Some w), s1) \<and>
    mb_send_resume a v t left start g s1 = Some (Return RT_EOK, s2) \<and>
    k_mb s2 a = Some x2 \<and> mb_msgs x2 = q @ [v] \<and> k_list s2 (SenderQ a) = rest \<and> kwf s2 \<and> mb_ok s2 a"
proof -
  have lv: "mb.live s a" and self: "rt_thread_self s = Some r"
    using assms(1,2,4) by (auto simp: mb.live_def thread_context_def rt_thread_self_def)
  have "mb_entry x \<noteq> 0" using mbs.empty_iff [OF mb_okD(4) [OF assms(2,3)]] assms(6) by (simp add: mb_empty_def)
  then have e: "mb_recv a timeout f s = mb_recv_loop a (Some r) timeout f s"
    using mb_okD(1) [OF assms(2)] assms(3,4) self by (simp add: mb_recv_def assert_type_class)
  from recv_loop_mail [OF lv assms(3,6), of "Some r" timeout f] obtain s1 x1 th where
    s1: "mb_recv_loop a (Some r) timeout f s = Some (Return (0, Some w), s1)" "mb.live s1 a" "k_mb s1 a = Some x1"
      "mb_msgs x1 = q" "mb_size x1 = mb_size x" "k_list s1 (SenderQ a) = rest" "k_thread s1 t = Some th" "th_error th = 0"
    using assms(7) by (auto simp: mb_done_def first_woken_def)
  have "mb_inv x1" using s1(2) mb_okD(4) [OF _ s1(3)] by (simp add: mb.live_def)
  then have "\<not> mb_full x1" using mbs.full_iff assms(5,6) s1(4,5) by auto
  from send_resume_room [OF s1(2,3) this s1(7), of v left start g] s1 obtain s2 x2 where
    "mb_send_resume a v t left start g s1 = Some (Return 0, s2)" "mb.live s2 a" "k_mb s2 a = Some x2"
    "mb_msgs x2 = q @ [v]" "k_list s2 (SenderQ a) = rest"
    by (auto simp: mb_done_def first_woken_def)
  with e s1(1) show ?thesis by (auto simp: mb.live_def)
qed

text \<open>The full mailbox 20 with threads 11 and 12 waiting for room.\<close>

definition ex_mb_full :: kstate where
  "ex_mb_full = ex_senders\<lparr>k_obj := (k_obj ex_senders)(Obj 20 \<mapsto> ex_ipc_header 5 0),
    k_mb := [20 \<mapsto> ex_mailbox\<lparr>mb_msg_pool := [4, 3], mb_entry := 2\<rparr>]\<rparr>"

lemma ex_mb_full_simps [simp]:
  "k_mb ex_mb_full = [20 \<mapsto> ex_mailbox\<lparr>mb_msg_pool := [4, 3], mb_entry := 2\<rparr>]"
  "k_list ex_mb_full = (\<lambda>_. [])(SenderQ 20 := [11, 12])"
  "k_obj ex_mb_full (Obj 20) = Some (ex_ipc_header 5 0)" "rt_current_thread ex_mb_full = Some 10"
  by (simp_all add: ex_mb_full_def)

lemma ex_mb_full_kwf: "kwf ex_mb_full"
proof (rule kwf_new_object [OF ex_senders_kwf])
  show "k_obj ex_senders (Obj 20) = None" by (simp add: ex_senders_def ex_timed_def ex_state_def)
  show "k_obj ex_mb_full = (k_obj ex_senders)(Obj 20 \<mapsto> ex_ipc_header 5 0)" by (simp add: ex_mb_full_def)
qed (simp_all add: ex_mb_full_def)

lemma ex_mb_full_ok: "mb_ok ex_mb_full 20"
  by (simp add: mb_ok_def ex_ipc_header_def ex_mailbox_def mb_inv_def)

lemma ex_mb_full_context: "thread_context 10 ex_mb_full"
  by (simp add: thread_context_def ex_mb_full_def ex_senders_def ex_timed_def ex_state_def init_kstate_def ex_thread_def
      state_of_def)

lemma rt_mb_sender_completes_witness:
  "\<exists>s1 s2 x2. rt_mb_recv 20 0 ex_mb_full = Some (Return (RT_EOK, Some 3), s1) \<and>
    mb_send_resume 20 9 11 6 1 2 s1 = Some (Return RT_EOK, s2) \<and> k_mb s2 20 = Some x2 \<and> mb_msgs x2 = [4, 9] \<and>
    k_list s2 (SenderQ 20) = [12]"
proof -
  have "suspend_stat 2 \<noteq> None" by (simp add: suspend_stat_def)
  moreover have "[0..<2] = [0, 1]" by (simp add: upt_rec)
  then have "mb_msgs (ex_mailbox\<lparr>mb_msg_pool := [4, 3], mb_entry := 2\<rparr>) = [3, 4]"
    by (simp add: mb_msgs_def ring_msgs_def ex_mailbox_def)
  ultimately show ?thesis
    using rt_mb_sender_completes [OF ex_mb_full_kwf ex_mb_full_ok _ ex_mb_full_context,
        where x = "ex_mailbox\<lparr>mb_msg_pool := [4, 3], mb_entry := 2\<rparr>" and w = 3 and q = "[4]" and t = 11
          and rest = "[12]" and timeout = 0 and f = 2 and v = 9 and left = 6 and start = 1 and g = 2]
    by (auto simp: rt_mb_recv_def ex_mailbox_inv)
qed

end
