(* ===== verification/MessageQueue.thy ===== *)
theory MessageQueue
  imports IpcWait MessageStore
begin

text \<open>
  The message queues of \<open>rt-thread/src/ipc.c\<close>: messages of at most \<open>msg_size\<close> bytes in
  the slots of a pool. The slots, numbered by their place in the pool, are linked by
  \<open>mq_next\<close> into the list of the queued messages and the list of the free slots;
  \<open>mq_data\<close> holds the bytes of a slot, as many as its length field says. The copies of the
  bytes, which the code makes with interrupts enabled, are atomic with the rest; the option
  \<open>RT_USING_MESSAGEQUEUE_PRIORITY\<close>, off in \<open>rtconfig.h\<close>, is not modelled.
\<close>

section \<open>Slots\<close>

definition upd_mq :: "addr \<Rightarrow> (rt_messagequeue \<Rightarrow> rt_messagequeue) \<Rightarrow> kstate \<Rightarrow> kstate option" where
  "upd_mq a f s = do { m \<leftarrow> upd (k_mq s) a f; Some (s\<lparr>k_mq := m\<rparr>) }"

lemma upd_mq_Some [simp]:
  "k_mq s a = Some x \<Longrightarrow> upd_mq a f s = Some (s\<lparr>k_mq := (k_mq s)(a \<mapsto> f x)\<rparr>)"
  by (simp add: upd_mq_def upd_def)

text \<open>Pushing a slot to the free list.\<close>

definition mq_release :: "nat \<Rightarrow> rt_messagequeue \<Rightarrow> rt_messagequeue" where
  "mq_release msg m = m\<lparr>mq_next := (mq_next m)(msg := mq_free m), mq_free := Some msg\<rparr>"

text \<open>The loop that puts all slots of a new queue there, from slot \<open>temp\<close> on.\<close>

primrec mq_free_slots :: "nat \<Rightarrow> nat \<Rightarrow> rt_messagequeue \<Rightarrow> rt_messagequeue" where
  "mq_free_slots 0 temp m = m"
| "mq_free_slots (Suc n) temp m = mq_free_slots n (Suc temp) (mq_release temp m)"

definition mq_setup :: "(nat \<Rightarrow> u8 list) \<Rightarrow> u16 \<Rightarrow> u16 \<Rightarrow> rt_messagequeue" where
  "mq_setup pool msg_size max_msgs = (let
      m = \<lparr>mq_next = (\<lambda>_. None), mq_data = pool, mq_msg_size = msg_size, mq_max_msgs = max_msgs, mq_entry = 0,
        mq_head = None, mq_tail = None, mq_free = None\<rparr>
    in (mq_free_slots (unat max_msgs) 0 m)\<lparr>mq_entry := 0\<rparr>)"

definition mq_sender_init :: "addr \<Rightarrow> kstate \<Rightarrow> kstate" where
  "mq_sender_init a s = s\<lparr>k_list := (k_list s)(SenderQ a := [])\<rparr>"

text \<open>A free slot filled with the first \<open>size\<close> bytes of the buffer and linked to the end.\<close>

definition mq_fill :: "u8 list \<Rightarrow> u32 \<Rightarrow> nat \<Rightarrow> rt_messagequeue \<Rightarrow> rt_messagequeue option" where
  "mq_fill buffer sz msg m = do {
    RT_ASSERT (unat sz \<le> length buffer);
    Some (m\<lparr>mq_data := (mq_data m)(msg := take (unat sz) buffer)\<rparr>) }"

definition mq_link :: "nat \<Rightarrow> rt_messagequeue \<Rightarrow> rt_messagequeue" where
  "mq_link msg m = (let
      m = (case mq_tail m of None \<Rightarrow> m | Some t \<Rightarrow> m\<lparr>mq_next := (mq_next m)(t := Some msg)\<rparr>);
      m = m\<lparr>mq_tail := Some msg\<rparr>
    in if mq_head m = None then m\<lparr>mq_head := Some msg\<rparr> else m)"

definition mq_count :: "rt_messagequeue \<Rightarrow> rt_err \<times> rt_messagequeue" where
  "mq_count m = (if mq_entry m < RT_MQ_ENTRY_MAX then (RT_EOK, m\<lparr>mq_entry := mq_entry m + 1\<rparr>) else (- RT_EFULL, m))"

definition mq_append :: "u8 list \<Rightarrow> u32 \<Rightarrow> rt_messagequeue \<Rightarrow> (rt_err \<times> rt_messagequeue) option" where
  "mq_append buffer sz m = do {
    msg \<leftarrow> mq_free m;
    let m = m\<lparr>mq_free := mq_next m msg\<rparr>;
    let m = m\<lparr>mq_next := (mq_next m)(msg := None)\<rparr>;
    m \<leftarrow> mq_fill buffer sz msg m;
    Some (mq_count (mq_link msg m)) }"

definition mq_prepend :: "u8 list \<Rightarrow> u32 \<Rightarrow> rt_messagequeue \<Rightarrow> (rt_err \<times> rt_messagequeue) option" where
  "mq_prepend buffer sz m = do {
    msg \<leftarrow> mq_free m;
    let m = m\<lparr>mq_free := mq_next m msg\<rparr>;
    m \<leftarrow> mq_fill buffer sz msg m;
    let m = m\<lparr>mq_next := (mq_next m)(msg := mq_head m)\<rparr>;
    let m = m\<lparr>mq_head := Some msg\<rparr>;
    let m = (if mq_tail m = None then m\<lparr>mq_tail := Some msg\<rparr> else m);
    Some (mq_count m) }"

text \<open>Unlinking the first message, whose slot the head names.\<close>

definition mq_unlink :: "nat \<Rightarrow> rt_messagequeue \<Rightarrow> rt_messagequeue" where
  "mq_unlink msg m = (let m = m\<lparr>mq_head := mq_next m msg\<rparr>
    in if mq_tail m = Some msg then m\<lparr>mq_tail := None\<rparr> else m)"

text \<open>A fetch gives the number of bytes copied and the bytes.\<close>

definition mq_fetch :: "u32 \<Rightarrow> rt_messagequeue \<Rightarrow> (int \<times> u8 list \<times> rt_messagequeue) option" where
  "mq_fetch sz m = do {
    msg \<leftarrow> mq_head m;
    let m = mq_unlink msg m;
    let m = (if mq_entry m > 0 then m\<lparr>mq_entry := mq_entry m - 1\<rparr> else m);
    let len = (of_nat (length (mq_data m msg)) :: u32);
    let len = (if len > sz then sz else len);
    let bytes = take (unat len) (mq_data m msg);
    Some (sint len, bytes, mq_release msg m) }"

text \<open>The loop of a reset that moves every queued message to the free list.\<close>

partial_function (option) mq_release_all :: "rt_messagequeue \<Rightarrow> rt_messagequeue option" where
  "mq_release_all m = (case mq_head m of
      None \<Rightarrow> Some m
    | Some msg \<Rightarrow> mq_release_all (mq_release msg (mq_unlink msg m)))"

section \<open>Operations\<close>

text \<open>
  A pool too small for one message is refused after the object has been registered; the fields
  written before are then set, the others are as the memory had them.
\<close>

definition rt_mq_init :: "addr \<Rightarrow> u8 list \<Rightarrow> (nat \<Rightarrow> u8 list) \<Rightarrow> u32 \<Rightarrow> u32 \<Rightarrow> u8 \<Rightarrow> kstate \<Rightarrow> (rt_err \<times> kstate) option" where
  "rt_mq_init mq nm msgpool msg_size pool_size flag s = do {
    RT_ASSERT (flag = RT_IPC_FLAG_FIFO \<or> flag = RT_IPC_FLAG_PRIO);
    s \<leftarrow> rt_object_init (Obj mq) RT_Object_Class_MessageQueue nm s;
    s \<leftarrow> upd_obj (Obj mq) (\<lambda>h. h\<lparr>obj_flag := flag\<rparr>) s;
    let s = ipc_object_init mq s;
    let msg_align_size = RT_ALIGN msg_size RT_ALIGN_SIZE;
    let max_msgs = (ucast (pool_size div (msg_align_size + 8)) :: u16);
    if max_msgs = 0 then
      Some (- RT_EINVAL, case k_mq s mq of None \<Rightarrow> s
        | Some m \<Rightarrow> s\<lparr>k_mq := (k_mq s)(mq \<mapsto> m\<lparr>mq_data := msgpool, mq_msg_size := ucast msg_size, mq_max_msgs := 0\<rparr>)\<rparr>)
    else do {
      let s = s\<lparr>k_mq := (k_mq s)(mq \<mapsto> mq_setup msgpool (ucast msg_size) max_msgs)\<rparr>;
      Some (RT_EOK, mq_sender_init mq s) } }"

definition rt_mq_detach :: "addr \<Rightarrow> kstate \<Rightarrow> (rt_err \<times> kstate) option" where
  "rt_mq_detach mq s = do {
    _ \<leftarrow> assert_type (Obj mq) RT_Object_Class_MessageQueue s;
    _ \<leftarrow> assert_static (Obj mq) True s;
    s \<leftarrow> ipc_list_resume_all (SuspendQ mq) s;
    s \<leftarrow> ipc_list_resume_all (SenderQ mq) s;
    s \<leftarrow> rt_object_detach (Obj mq) s;
    Some (RT_EOK, s) }"

definition rt_mq_create :: "addr option \<Rightarrow> (u32 \<Rightarrow> (nat \<Rightarrow> u8 list) option) \<Rightarrow> u8 list \<Rightarrow> u32 \<Rightarrow> u32 \<Rightarrow> u8 \<Rightarrow> kstate \<Rightarrow>
    (addr option \<times> kstate) option" where
  "rt_mq_create mem malloc nm msg_size max_msgs flag s = do {
    RT_ASSERT (flag = RT_IPC_FLAG_FIFO \<or> flag = RT_IPC_FLAG_PRIO);
    _ \<leftarrow> RT_DEBUG_NOT_IN_INTERRUPT s;
    (a, s) \<leftarrow> rt_object_allocate mem RT_Object_Class_MessageQueue nm s;
    case a of
      None \<Rightarrow> Some (None, s)
    | Some mq \<Rightarrow> do {
        s \<leftarrow> upd_obj (Obj mq) (\<lambda>h. h\<lparr>obj_flag := flag\<rparr>) s;
        let s = ipc_object_init mq s;
        let msg_align_size = RT_ALIGN msg_size RT_ALIGN_SIZE;
        let max = (ucast max_msgs :: u16);
        case malloc ((msg_align_size + 8) * ucast max) of
          None \<Rightarrow> do { s \<leftarrow> rt_object_delete (Obj mq) s; Some (None, s) }
        | Some pool \<Rightarrow>
            let s = s\<lparr>k_mq := (k_mq s)(mq \<mapsto> mq_setup pool (ucast msg_size) max)\<rparr>
            in Some (Some mq, mq_sender_init mq s) } }"

text \<open>The pool goes back to the allocator before the object does: no slot of it can be read any more.\<close>

definition rt_mq_delete :: "addr \<Rightarrow> kstate \<Rightarrow> (rt_err \<times> kstate) option" where
  "rt_mq_delete mq s = do {
    _ \<leftarrow> assert_type (Obj mq) RT_Object_Class_MessageQueue s;
    _ \<leftarrow> assert_static (Obj mq) False s;
    _ \<leftarrow> RT_DEBUG_NOT_IN_INTERRUPT s;
    s \<leftarrow> ipc_list_resume_all (SuspendQ mq) s;
    s \<leftarrow> ipc_list_resume_all (SenderQ mq) s;
    x \<leftarrow> k_mq s mq;
    let s = s\<lparr>k_mq := (k_mq s)(mq \<mapsto> x\<lparr>mq_next := (\<lambda>_. None), mq_data := (\<lambda>_. [])\<rparr>)\<rparr>;
    s \<leftarrow> rt_object_delete (Obj mq) s;
    Some (RT_EOK, s) }"

text \<open>\<open>_rt_mq_send_wait\<close> from the test of its loop on.\<close>

definition mq_send_loop :: "addr \<Rightarrow> u8 list \<Rightarrow> u32 \<Rightarrow> addr option \<Rightarrow> u32 \<Rightarrow> int \<Rightarrow> kstate \<Rightarrow> (rt_err outcome \<times> kstate) option" where
  "mq_send_loop mq buffer sz thread timeout suspend_flag s = do {
    x \<leftarrow> k_mq s mq;
    if mq_free x = None then do {
      t \<leftarrow> thread;
      s \<leftarrow> upd_thread t (\<lambda>th. th\<lparr>th_error := - RT_EINTR\<rparr>) s;
      if timeout = 0 then Some (Return (- RT_EFULL), s)
      else do {
        h \<leftarrow> k_obj s (Obj mq);
        wait_in (SenderQ mq) t (obj_flag h) timeout suspend_flag s }
    } else do {
      (r, x) \<leftarrow> mq_append buffer sz x;
      s \<leftarrow> upd_mq mq (\<lambda>_. x) s;
      if r \<noteq> RT_EOK then Some (Return r, s)
      else do {
        s \<leftarrow> wake_first (SuspendQ mq) s;
        Some (Return RT_EOK, s) } } }"

definition mq_send_wait :: "addr \<Rightarrow> u8 list \<Rightarrow> u32 \<Rightarrow> u32 \<Rightarrow> int \<Rightarrow> kstate \<Rightarrow> (rt_err outcome \<times> kstate) option" where
  "mq_send_wait mq buffer sz timeout suspend_flag s = do {
    _ \<leftarrow> assert_type (Obj mq) RT_Object_Class_MessageQueue s;
    RT_ASSERT (sz \<noteq> 0);
    _ \<leftarrow> RT_DEBUG_SCHEDULER_AVAILABLE (timeout \<noteq> 0) s;
    x \<leftarrow> k_mq s mq;
    if sz > ucast (mq_msg_size x) then Some (Return (- RT_ERROR), s)
    else do {
      let thread = rt_thread_self s;
      if mq_free x = None \<and> timeout = 0 then Some (Return (- RT_EFULL), s)
      else mq_send_loop mq buffer sz thread timeout suspend_flag s } }"

text \<open>The blocked sender when it runs again; \<open>start\<close> is the tick at which it had blocked.\<close>

definition mq_send_resume :: "addr \<Rightarrow> u8 list \<Rightarrow> u32 \<Rightarrow> addr \<Rightarrow> u32 \<Rightarrow> u32 \<Rightarrow> int \<Rightarrow> kstate \<Rightarrow> (rt_err outcome \<times> kstate) option" where
  "mq_send_resume mq buffer sz thread timeout start suspend_flag s = do {
    th \<leftarrow> k_thread s thread;
    if th_error th \<noteq> RT_EOK then Some (Return (th_error th), s)
    else mq_send_loop mq buffer sz (Some thread) (time_left timeout start (rt_tick s)) suspend_flag s }"

definition rt_mq_send_wait :: "addr \<Rightarrow> u8 list \<Rightarrow> u32 \<Rightarrow> u32 \<Rightarrow> kstate \<Rightarrow> (rt_err outcome \<times> kstate) option" where
  "rt_mq_send_wait mq buffer sz timeout s = mq_send_wait mq buffer sz timeout RT_UNINTERRUPTIBLE s"

definition rt_mq_send_wait_interruptible :: "addr \<Rightarrow> u8 list \<Rightarrow> u32 \<Rightarrow> u32 \<Rightarrow> kstate \<Rightarrow> (rt_err outcome \<times> kstate) option" where
  "rt_mq_send_wait_interruptible mq buffer sz timeout s = mq_send_wait mq buffer sz timeout RT_INTERRUPTIBLE s"

definition rt_mq_send_wait_killable :: "addr \<Rightarrow> u8 list \<Rightarrow> u32 \<Rightarrow> u32 \<Rightarrow> kstate \<Rightarrow> (rt_err outcome \<times> kstate) option" where
  "rt_mq_send_wait_killable mq buffer sz timeout s = mq_send_wait mq buffer sz timeout RT_KILLABLE s"

definition rt_mq_send :: "addr \<Rightarrow> u8 list \<Rightarrow> u32 \<Rightarrow> kstate \<Rightarrow> (rt_err outcome \<times> kstate) option" where
  "rt_mq_send mq buffer sz s = rt_mq_send_wait mq buffer sz 0 s"

definition rt_mq_send_interrupt :: "addr \<Rightarrow> u8 list \<Rightarrow> u32 \<Rightarrow> kstate \<Rightarrow> (rt_err outcome \<times> kstate) option" where
  "rt_mq_send_interrupt mq buffer sz s = rt_mq_send_wait_interruptible mq buffer sz 0 s"

definition rt_mq_send_killable :: "addr \<Rightarrow> u8 list \<Rightarrow> u32 \<Rightarrow> kstate \<Rightarrow> (rt_err outcome \<times> kstate) option" where
  "rt_mq_send_killable mq buffer sz s = rt_mq_send_wait_killable mq buffer sz 0 s"

definition rt_mq_urgent :: "addr \<Rightarrow> u8 list \<Rightarrow> u32 \<Rightarrow> kstate \<Rightarrow> (rt_err \<times> kstate) option" where
  "rt_mq_urgent mq buffer sz s = do {
    _ \<leftarrow> assert_type (Obj mq) RT_Object_Class_MessageQueue s;
    RT_ASSERT (sz \<noteq> 0);
    x \<leftarrow> k_mq s mq;
    if sz > ucast (mq_msg_size x) then Some (- RT_ERROR, s)
    else if mq_free x = None then Some (- RT_EFULL, s)
    else do {
      (r, x) \<leftarrow> mq_prepend buffer sz x;
      s \<leftarrow> upd_mq mq (\<lambda>_. x) s;
      if r \<noteq> RT_EOK then Some (r, s)
      else do {
        s \<leftarrow> wake_first (SuspendQ mq) s;
        Some (RT_EOK, s) } } }"

text \<open>A receive returns the length or an error code, and the bytes stored to the buffer.\<close>

definition mq_recv_loop :: "addr \<Rightarrow> u32 \<Rightarrow> addr option \<Rightarrow> u32 \<Rightarrow> int \<Rightarrow> kstate \<Rightarrow> ((int \<times> u8 list) outcome \<times> kstate) option" where
  "mq_recv_loop mq sz thread timeout suspend_flag s = do {
    x \<leftarrow> k_mq s mq;
    if mq_entry x = 0 then do {
      t \<leftarrow> thread;
      s \<leftarrow> upd_thread t (\<lambda>th. th\<lparr>th_error := - RT_EINTR\<rparr>) s;
      if timeout = 0 then do {
        s \<leftarrow> upd_thread t (\<lambda>th. th\<lparr>th_error := - RT_ETIMEOUT\<rparr>) s;
        Some (Return (- RT_ETIMEOUT, []), s)
      } else do {
        h \<leftarrow> k_obj s (Obj mq);
        (r, s) \<leftarrow> wait_in (SuspendQ mq) t (obj_flag h) timeout suspend_flag s;
        Some (case r of Return e \<Rightarrow> Return (e, []) | Blocked \<Rightarrow> Blocked, s) }
    } else do {
      (len, bytes, x) \<leftarrow> mq_fetch sz x;
      s \<leftarrow> upd_mq mq (\<lambda>_. x) s;
      s \<leftarrow> wake_first (SenderQ mq) s;
      Some (Return (len, bytes), s) } }"

definition mq_recv :: "addr \<Rightarrow> u32 \<Rightarrow> u32 \<Rightarrow> int \<Rightarrow> kstate \<Rightarrow> ((int \<times> u8 list) outcome \<times> kstate) option" where
  "mq_recv mq sz timeout suspend_flag s = do {
    _ \<leftarrow> assert_type (Obj mq) RT_Object_Class_MessageQueue s;
    RT_ASSERT (sz \<noteq> 0);
    _ \<leftarrow> RT_DEBUG_SCHEDULER_AVAILABLE (timeout \<noteq> 0) s;
    let thread = rt_thread_self s;
    x \<leftarrow> k_mq s mq;
    if mq_entry x = 0 \<and> timeout = 0 then Some (Return (- RT_ETIMEOUT, []), s)
    else mq_recv_loop mq sz thread timeout suspend_flag s }"

definition mq_recv_resume :: "addr \<Rightarrow> u32 \<Rightarrow> addr \<Rightarrow> u32 \<Rightarrow> u32 \<Rightarrow> int \<Rightarrow> kstate \<Rightarrow> ((int \<times> u8 list) outcome \<times> kstate) option" where
  "mq_recv_resume mq sz thread timeout start suspend_flag s = do {
    th \<leftarrow> k_thread s thread;
    if th_error th \<noteq> RT_EOK then Some (Return (th_error th, []), s)
    else mq_recv_loop mq sz (Some thread) (time_left timeout start (rt_tick s)) suspend_flag s }"

definition rt_mq_recv :: "addr \<Rightarrow> u32 \<Rightarrow> u32 \<Rightarrow> kstate \<Rightarrow> ((int \<times> u8 list) outcome \<times> kstate) option" where
  "rt_mq_recv mq sz timeout s = mq_recv mq sz timeout RT_UNINTERRUPTIBLE s"

definition rt_mq_recv_interruptible :: "addr \<Rightarrow> u32 \<Rightarrow> u32 \<Rightarrow> kstate \<Rightarrow> ((int \<times> u8 list) outcome \<times> kstate) option" where
  "rt_mq_recv_interruptible mq sz timeout s = mq_recv mq sz timeout RT_INTERRUPTIBLE s"

definition rt_mq_recv_killable :: "addr \<Rightarrow> u32 \<Rightarrow> u32 \<Rightarrow> kstate \<Rightarrow> ((int \<times> u8 list) outcome \<times> kstate) option" where
  "rt_mq_recv_killable mq sz timeout s = mq_recv mq sz timeout RT_KILLABLE s"

definition rt_mq_control :: "addr \<Rightarrow> int \<Rightarrow> kstate \<Rightarrow> (rt_err \<times> kstate) option" where
  "rt_mq_control mq cmd s = do {
    _ \<leftarrow> assert_type (Obj mq) RT_Object_Class_MessageQueue s;
    if cmd = RT_IPC_CMD_RESET then do {
      s \<leftarrow> ipc_list_resume_all (SuspendQ mq) s;
      s \<leftarrow> ipc_list_resume_all (SenderQ mq) s;
      x \<leftarrow> k_mq s mq;
      x \<leftarrow> mq_release_all x;
      s \<leftarrow> upd_mq mq (\<lambda>_. x\<lparr>mq_entry := 0\<rparr>) s;
      s \<leftarrow> rt_schedule s;
      Some (RT_EOK, s)
    } else Some (- RT_ERROR, s) }"

end
