(* ===== verification/MessageQueueProps.thy ===== *)
theory MessageQueueProps
  imports MessageQueue
begin

text \<open>
  The message queues verified: the linked slots keep every message and every free slot exactly
  once and implement the bounded double-ended queue of \<open>MessageStore\<close>, and the operations of
  the kernel keep the whole state well-formed and move messages and threads as they should.
\<close>

section \<open>The slots as a store of messages\<close>

text \<open>A list segment of slots, and the slots found by following the links \<open>n\<close> times.\<close>

fun slots :: "(nat \<Rightarrow> nat option) \<Rightarrow> nat option \<Rightarrow> nat list \<Rightarrow> nat option \<Rightarrow> bool" where
  "slots f p [] r \<longleftrightarrow> p = r"
| "slots f p (i # is) r \<longleftrightarrow> p = Some i \<and> slots f (f i) is r"

fun walk :: "(nat \<Rightarrow> nat option) \<Rightarrow> nat option \<Rightarrow> nat \<Rightarrow> nat list" where
  "walk f p 0 = []"
| "walk f None (Suc n) = []"
| "walk f (Some i) (Suc n) = i # walk f (f i) n"

lemma walk_slots: "slots f p is None \<Longrightarrow> walk f p (length is) = is"
  by (induction f p "is" "None :: nat option" rule: slots.induct) auto

lemma slots_append: "slots f p (xs @ ys) r \<longleftrightarrow> (\<exists>q. slots f p xs q \<and> slots f q ys r)"
  by (induction xs arbitrary: p) auto

lemma slots_upd [simp]: "i \<notin> set is \<Longrightarrow> slots (f(i := v)) p is r = slots f p is r"
  by (induction "is" arbitrary: p) auto

lemma slots_Nil_iff: "slots f p is None \<Longrightarrow> p = None \<longleftrightarrow> is = []"
  by (cases "is") auto

text \<open>A new slot linked behind the last one.\<close>

lemma slots_snoc:
  assumes "slots f p is None" and "i \<notin> set is" and "distinct is"
  shows "slots ((if is = [] then id else (\<lambda>f. f(last is := Some i))) (f(i := None))) (if is = [] then Some i else p) (is @ [i]) None"
proof (cases "is" rule: rev_cases)
  case (snoc ys y)
  then have "slots f p ys (Some y)" "f y = None" using assms(1) by (auto simp: slots_append)
  with assms(2,3) snoc show ?thesis by (auto simp: slots_append)
qed simp

text \<open>
  The invariant: the queued and the free slots together are all the slots, each once, and the
  counter, the tail and the lengths agree.
\<close>

definition mq_queued :: "rt_messagequeue \<Rightarrow> nat list" where
  "mq_queued m = walk (mq_next m) (mq_head m) (unat (mq_entry m))"

definition mq_layout :: "nat list \<Rightarrow> nat list \<Rightarrow> rt_messagequeue \<Rightarrow> bool" where
  "mq_layout qs fs m \<longleftrightarrow> slots (mq_next m) (mq_head m) qs None \<and> slots (mq_next m) (mq_free m) fs None \<and>
    distinct (qs @ fs) \<and> set (qs @ fs) = {..<unat (mq_max_msgs m)} \<and> length qs = unat (mq_entry m) \<and>
    mq_tail m = (if qs = [] then None else Some (last qs)) \<and>
    (\<forall>i \<in> set qs. length (mq_data m i) \<le> unat (mq_msg_size m))"

definition mq_inv :: "rt_messagequeue \<Rightarrow> bool" where
  "mq_inv m \<longleftrightarrow> (\<exists>fs. mq_layout (mq_queued m) fs m)"

definition mq_msgs :: "rt_messagequeue \<Rightarrow> u8 list list" where
  "mq_msgs m = map (mq_data m) (mq_queued m)"

lemma mq_layout_inv:
  assumes "mq_layout qs fs m"
  shows "mq_inv m" "mq_queued m = qs" "mq_msgs m = map (mq_data m) qs"
proof -
  have "mq_queued m = qs" using assms walk_slots [of "mq_next m" "mq_head m" qs] by (simp add: mq_layout_def mq_queued_def)
  with assms show "mq_inv m" "mq_queued m = qs" "mq_msgs m = map (mq_data m) qs" by (auto simp: mq_inv_def mq_msgs_def)
qed

lemma mq_layout_length:
  assumes "mq_layout qs fs m"
  shows "length qs + length fs = unat (mq_max_msgs m)"
proof -
  have "length (qs @ fs) = card (set (qs @ fs))" using assms unfolding mq_layout_def by (metis distinct_card)
  also have "\<dots> = unat (mq_max_msgs m)" using assms unfolding mq_layout_def by (metis card_lessThan)
  finally show ?thesis by simp
qed

lemma mq_count_room:
  assumes "mq_layout qs (i # fs) m" and "mq_entry m' = mq_entry m"
  shows "mq_count m' = (RT_EOK, m'\<lparr>mq_entry := mq_entry m' + 1\<rparr>)" "unat (mq_entry m + 1) = Suc (length qs)"
proof -
  have "unat (mq_entry m) < unat (mq_max_msgs m)"
    using mq_layout_length [OF assms(1)] assms(1) by (simp add: mq_layout_def)
  moreover have "unat (mq_max_msgs m) < 2 ^ LENGTH(16)" by (rule unsigned_less)
  ultimately have "mq_entry m < 0xffff" by (simp add: word_less_nat_alt)
  then show "mq_count m' = (RT_EOK, m'\<lparr>mq_entry := mq_entry m' + 1\<rparr>)" using assms(2) by (simp add: mq_count_def)
  show "unat (mq_entry m + 1) = Suc (length qs)"
    using unat_Suc_less [OF \<open>unat (mq_entry m) < unat (mq_max_msgs m)\<close>] assms(1) by (simp add: mq_layout_def)
qed

text \<open>A message the queue accepts.\<close>

definition mq_fits :: "rt_messagequeue \<Rightarrow> u8 list \<Rightarrow> bool" where
  "mq_fits m v \<longleftrightarrow> v \<noteq> [] \<and> length v \<le> unat (mq_msg_size m)"

lemma unat_length:
  assumes "length v \<le> unat (n :: u16)"
  shows "unat (of_nat (length v) :: u32) = length v"
proof -
  have "unat n < 2 ^ LENGTH(16)" by (rule unsigned_less)
  with assms show ?thesis by (simp add: unat_of_nat take_bit_nat_eq_self)
qed

lemma unat_ucast_16 [simp]: "unat (ucast (x :: u16) :: u32) = unat x"
proof -
  have "unat x < 2 ^ LENGTH(16)" by (rule unsigned_less)
  then show ?thesis by (simp add: unsigned_ucast_eq take_bit_nat_eq_self)
qed

lemma mq_append_layout:
  assumes l: "mq_layout qs (i # fs) m" and v: "unat sz \<le> length buffer" "unat sz \<le> unat (mq_msg_size m)"
  shows "\<exists>m'. mq_append buffer sz m = Some (RT_EOK, m') \<and> mq_layout (qs @ [i]) fs m' \<and>
    map (mq_data m') (qs @ [i]) = map (mq_data m) qs @ [take (unat sz) buffer] \<and>
    mq_max_msgs m' = mq_max_msgs m \<and> mq_msg_size m' = mq_msg_size m"
proof -
  have s: "slots (mq_next m) (mq_head m) qs None" "mq_free m = Some i" "slots (mq_next m) (mq_next m i) fs None"
    and d: "distinct qs" "i \<notin> set qs" "i \<notin> set fs" "distinct fs" "set qs \<inter> set fs = {}"
    and t: "mq_tail m = (if qs = [] then None else Some (last qs))"
    using l by (auto simp: mq_layout_def)
  have hd: "mq_head m = None \<longleftrightarrow> qs = []" by (rule slots_Nil_iff [OF s(1)])
  define m' where "m' = m\<lparr>mq_next := (if qs = [] then id else (\<lambda>f. f(last qs := Some i))) ((mq_next m)(i := None)),
    mq_data := (mq_data m)(i := take (unat sz) buffer), mq_entry := mq_entry m + 1,
    mq_head := (if qs = [] then Some i else mq_head m), mq_tail := Some i, mq_free := mq_next m i\<rparr>"
  have "mq_append buffer sz m = Some (RT_EOK, m')"
    using s(2) v(1) hd t mq_count_room(1) [OF l]
    by (simp add: mq_append_def mq_fill_def mq_link_def m'_def Let_def split: option.splits)
  moreover have "mq_layout (qs @ [i]) fs m'"
    unfolding mq_layout_def
  proof (intro conjI)
    show "slots (mq_next m') (mq_head m') (qs @ [i]) None" using slots_snoc [OF s(1) d(2,1)] by (simp add: m'_def)
    have "last qs \<notin> set fs" if "qs \<noteq> []" using last_in_set [OF that] d(5) by blast
    then show "slots (mq_next m') (mq_free m') fs None" using s(3) d by (simp add: m'_def)
    show "length (qs @ [i]) = unat (mq_entry m')" using mq_count_room(2) [OF l refl] by (simp add: m'_def)
    show "\<forall>j \<in> set (qs @ [i]). length (mq_data m' j) \<le> unat (mq_msg_size m')"
      using l v by (auto simp: m'_def mq_layout_def)
    show "set ((qs @ [i]) @ fs) = {..<unat (mq_max_msgs m')}" using l by (simp add: mq_layout_def m'_def)
  qed (use d in \<open>auto simp: m'_def\<close>)
  moreover have "map (mq_data m') (qs @ [i]) = map (mq_data m) qs @ [take (unat sz) buffer]"
    using d(2) by (auto simp: m'_def)
  ultimately show ?thesis by (auto simp: m'_def)
qed

lemma mq_prepend_layout:
  assumes l: "mq_layout qs (i # fs) m" and v: "unat sz \<le> length buffer" "unat sz \<le> unat (mq_msg_size m)"
  shows "\<exists>m'. mq_prepend buffer sz m = Some (RT_EOK, m') \<and> mq_layout (i # qs) fs m' \<and>
    map (mq_data m') (i # qs) = take (unat sz) buffer # map (mq_data m) qs \<and>
    mq_max_msgs m' = mq_max_msgs m \<and> mq_msg_size m' = mq_msg_size m"
proof -
  have s: "slots (mq_next m) (mq_head m) qs None" "mq_free m = Some i" "slots (mq_next m) (mq_next m i) fs None"
    and d: "distinct qs" "i \<notin> set qs" "i \<notin> set fs" "distinct fs" "set qs \<inter> set fs = {}"
    and t: "mq_tail m = (if qs = [] then None else Some (last qs))"
    using l by (auto simp: mq_layout_def)
  define m' where "m' = m\<lparr>mq_next := (mq_next m)(i := mq_head m),
    mq_data := (mq_data m)(i := take (unat sz) buffer), mq_entry := mq_entry m + 1,
    mq_head := Some i, mq_tail := (if qs = [] then Some i else mq_tail m), mq_free := mq_next m i\<rparr>"
  have "mq_prepend buffer sz m = Some (RT_EOK, m')"
    using s(2) v(1) t mq_count_room(1) [OF l]
    by (simp add: mq_prepend_def mq_fill_def m'_def Let_def)
  moreover have "mq_layout (i # qs) fs m'"
    unfolding mq_layout_def
  proof (intro conjI)
    show "slots (mq_next m') (mq_head m') (i # qs) None" using s(1) d by (simp add: m'_def)
    show "slots (mq_next m') (mq_free m') fs None" using s(3) d by (simp add: m'_def)
    show "length (i # qs) = unat (mq_entry m')" using mq_count_room(2) [OF l refl] by (simp add: m'_def)
    show "\<forall>j \<in> set (i # qs). length (mq_data m' j) \<le> unat (mq_msg_size m')"
      using l v by (auto simp: m'_def mq_layout_def)
    show "set ((i # qs) @ fs) = {..<unat (mq_max_msgs m')}" using l by (auto simp: mq_layout_def m'_def)
  qed (use d t in \<open>auto simp: m'_def\<close>)
  moreover have "map (mq_data m') (i # qs) = take (unat sz) buffer # map (mq_data m) qs"
    using d(2) by (auto simp: m'_def)
  ultimately show ?thesis by (auto simp: m'_def)
qed

lemma mq_unlink_layout:
  assumes l: "mq_layout (i # qs) fs m"
  shows "mq_head m = Some i" "mq_layout qs (i # fs) (mq_release i ((mq_unlink i m)\<lparr>mq_entry := mq_entry m - 1\<rparr>))"
    "0 < mq_entry m" "length (mq_data m i) \<le> unat (mq_msg_size m)"
proof -
  have s: "mq_head m = Some i" "slots (mq_next m) (mq_next m i) qs None" "slots (mq_next m) (mq_free m) fs None"
    and d: "distinct qs" "i \<notin> set qs" "i \<notin> set fs" "distinct fs" "set qs \<inter> set fs = {}"
    and t: "mq_tail m = Some (if qs = [] then i else last qs)" and e: "unat (mq_entry m) = Suc (length qs)"
    using l by (auto simp: mq_layout_def)
  show "mq_head m = Some i" by (rule s(1))
  show "length (mq_data m i) \<le> unat (mq_msg_size m)" using l by (simp add: mq_layout_def)
  show e0: "0 < mq_entry m" using e by (simp add: word_less_nat_alt)
  have u: "unat (mq_entry m - 1) = length qs" using e e0 by (simp add: unat_minus_one word_gt_0)
  have tl: "qs \<noteq> [] \<Longrightarrow> last qs \<noteq> i" using d(2) last_in_set by fastforce
  have f: "mq_max_msgs (mq_unlink i m) = mq_max_msgs m" "mq_msg_size (mq_unlink i m) = mq_msg_size m"
    "mq_data (mq_unlink i m) = mq_data m" "mq_next (mq_unlink i m) = mq_next m" "mq_free (mq_unlink i m) = mq_free m"
    "mq_head (mq_unlink i m) = mq_next m i" "mq_tail (mq_unlink i m) = (if mq_tail m = Some i then None else mq_tail m)"
    by (simp_all add: mq_unlink_def Let_def)
  show "mq_layout qs (i # fs) (mq_release i ((mq_unlink i m)\<lparr>mq_entry := mq_entry m - 1\<rparr>))"
    unfolding mq_layout_def
    using l s d t u tl by (auto simp: mq_release_def f mq_layout_def)
qed

lemma sint_small:
  assumes "unat (x :: u32) < 2 ^ 31"
  shows "sint x = int (unat x)"
proof -
  have u: "uint x = int (unat x)" by simp
  have "int (unat x) < int (2 ^ 31)" using assms by (simp only: of_nat_less_iff)
  then have l: "uint x < 2 ^ 31" unfolding u by simp
  have "0 \<le> uint x" by simp
  moreover have "- (2 ^ 31) \<le> (0 :: int)" by simp
  ultimately have "- (2 ^ 31) \<le> uint x" by (rule order_trans [rotated])
  then have "signed_take_bit 31 (uint x) = uint x" using l by (intro signed_take_bit_int_eq_self)
  then show ?thesis by (simp add: sint_uint)
qed

lemma mq_fetch_layout:
  assumes l: "mq_layout (i # qs) fs m"
  shows "\<exists>m'. mq_fetch sz m = Some (int (min (unat sz) (length (mq_data m i))), take (unat sz) (mq_data m i), m') \<and>
    mq_layout qs (i # fs) m' \<and> mq_data m' = mq_data m \<and> mq_max_msgs m' = mq_max_msgs m \<and> mq_msg_size m' = mq_msg_size m"
proof -
  note u = mq_unlink_layout [OF l]
  let ?n = "length (mq_data m i)" and ?w = "of_nat (length (mq_data m i)) :: u32"
  let ?len = "if ?w > sz then sz else ?w"
  have n: "unat ?w = ?n" by (rule unat_length [OF u(4)])
  then have len: "unat ?len = min (unat sz) ?n" by (auto simp: word_less_nat_alt min_def)
  have "unat (mq_msg_size m) < 2 ^ LENGTH(16)" by (rule unsigned_less)
  then have "unat ?len < 2 ^ 31" using len u(4) by simp
  then have si: "sint ?len = int (min (unat sz) ?n)" using sint_small [of ?len] unfolding len by simp
  have f: "mq_data (mq_unlink i m) = mq_data m" "mq_entry (mq_unlink i m) = mq_entry m"
      "mq_max_msgs (mq_unlink i m) = mq_max_msgs m" "mq_msg_size (mq_unlink i m) = mq_msg_size m"
    by (simp_all add: mq_unlink_def Let_def)
  have tk: "take (min (unat sz) ?n) (mq_data m i) = take (unat sz) (mq_data m i)" by (simp add: min_def)
  let ?m = "mq_release i ((mq_unlink i m)\<lparr>mq_entry := mq_entry m - 1\<rparr>)"
  have "mq_fetch sz m = Some (int (min (unat sz) ?n), take (unat sz) (mq_data m i), ?m)"
    using u(1,3) si len tk by (cases "?w > sz") (simp_all add: mq_fetch_def f Let_def)
  with u(2) show ?thesis by (auto simp: mq_release_def f)
qed

text \<open>The calls as the contract has them: whole messages, received into a buffer of the message size.\<close>

definition mq_full :: "rt_messagequeue \<Rightarrow> bool" where
  "mq_full m \<longleftrightarrow> mq_free m = None"

definition mq_empty :: "rt_messagequeue \<Rightarrow> bool" where
  "mq_empty m \<longleftrightarrow> mq_entry m = 0"

definition accepted :: "(rt_err \<times> 'm) option \<Rightarrow> 'm option" where
  "accepted r = do { (e, m) \<leftarrow> r; if e = RT_EOK then Some m else None }"

definition mq_put :: "u8 list \<Rightarrow> rt_messagequeue \<Rightarrow> rt_messagequeue option" where
  "mq_put v m = accepted (mq_append v (of_nat (length v)) m)"

definition mq_put_front :: "u8 list \<Rightarrow> rt_messagequeue \<Rightarrow> rt_messagequeue option" where
  "mq_put_front v m = accepted (mq_prepend v (of_nat (length v)) m)"

definition mq_get :: "rt_messagequeue \<Rightarrow> (u8 list \<times> rt_messagequeue) option" where
  "mq_get m = do { (_, v, m) \<leftarrow> mq_fetch (ucast (mq_msg_size m)) m; Some (v, m) }"

lemma mq_inv_layout:
  assumes "mq_inv m"
  obtains fs where "mq_layout (mq_queued m) fs m"
  using assms by (auto simp: mq_inv_def)

lemma mq_full_iff:
  assumes "mq_layout qs fs m"
  shows "mq_full m \<longleftrightarrow> fs = []"
  using slots_Nil_iff [of "mq_next m" "mq_free m" fs] assms by (simp add: mq_layout_def mq_full_def)

lemma length_mq_msgs: "mq_layout qs fs m \<Longrightarrow> length (mq_msgs m) = unat (mq_entry m)"
  using mq_layout_inv(3) [of qs fs m] by (simp add: mq_layout_def)

interpretation mqs: message_store mq_inv mq_msgs "\<lambda>m. unat (mq_max_msgs m)" mq_fits mq_full mq_empty mq_put mq_get mq_put_front
proof
  fix m assume m: "mq_inv m"
  from mq_inv_layout [OF m] obtain fs where l: "mq_layout (mq_queued m) fs m" .
  have len: "length (mq_msgs m) + length fs = unat (mq_max_msgs m)" using mq_layout_length [OF l] by (simp add: mq_msgs_def)
  show "mq_full m \<longleftrightarrow> length (mq_msgs m) = unat (mq_max_msgs m)"
    using mq_full_iff [OF l] len by (cases fs) simp_all
  show "length (mq_msgs m) \<le> unat (mq_max_msgs m)" using len by simp
  show "mq_empty m \<longleftrightarrow> mq_msgs m = []"
    using length_mq_msgs [OF l] by (simp add: mq_empty_def length_0_conv [symmetric] unat_eq_0 del: length_0_conv)
  show "\<exists>m'. mq_put v m = Some m' \<and> mq_inv m' \<and> mq_msgs m' = mq_msgs m @ [v] \<and>
      unat (mq_max_msgs m') = unat (mq_max_msgs m) \<and> mq_fits m' = mq_fits m" if "mq_fits m v" "\<not> mq_full m" for v
  proof -
    from that(2) mq_full_iff [OF l] obtain i fs' where fs: "fs = i # fs'" by (cases fs) auto
    have n: "length v \<le> unat (mq_msg_size m)" using that(1) by (simp add: mq_fits_def)
    from mq_append_layout [OF l [unfolded fs], of "of_nat (length v)" v] unat_length [OF n] n obtain m' where
      m': "mq_append v (of_nat (length v)) m = Some (0, m')" "mq_layout (mq_queued m @ [i]) fs' m'"
        "map (mq_data m') (mq_queued m @ [i]) = map (mq_data m) (mq_queued m) @ [v]"
        "mq_max_msgs m' = mq_max_msgs m" "mq_msg_size m' = mq_msg_size m" by auto
    with mq_layout_inv(1,3) [OF m'(2)] show ?thesis
      by (auto simp: mq_put_def accepted_def mq_msgs_def mq_fits_def fun_eq_iff)
  qed
  show "\<exists>m'. mq_put_front v m = Some m' \<and> mq_inv m' \<and> mq_msgs m' = v # mq_msgs m \<and>
      unat (mq_max_msgs m') = unat (mq_max_msgs m) \<and> mq_fits m' = mq_fits m" if "mq_fits m v" "\<not> mq_full m" for v
  proof -
    from that(2) mq_full_iff [OF l] obtain i fs' where fs: "fs = i # fs'" by (cases fs) auto
    have n: "length v \<le> unat (mq_msg_size m)" using that(1) by (simp add: mq_fits_def)
    from mq_prepend_layout [OF l [unfolded fs], of "of_nat (length v)" v] unat_length [OF n] n obtain m' where
      m': "mq_prepend v (of_nat (length v)) m = Some (0, m')" "mq_layout (i # mq_queued m) fs' m'"
        "map (mq_data m') (i # mq_queued m) = v # map (mq_data m) (mq_queued m)"
        "mq_max_msgs m' = mq_max_msgs m" "mq_msg_size m' = mq_msg_size m" by auto
    with mq_layout_inv(1,3) [OF m'(2)] show ?thesis
      by (auto simp: mq_put_front_def accepted_def mq_msgs_def mq_fits_def fun_eq_iff)
  qed
  show "\<exists>m'. mq_get m = Some (v, m') \<and> mq_inv m' \<and> mq_msgs m' = q \<and>
      unat (mq_max_msgs m') = unat (mq_max_msgs m) \<and> mq_fits m' = mq_fits m" if "mq_msgs m = v # q" for v q
  proof -
    from that obtain i qs where q: "mq_queued m = i # qs" "v = mq_data m i" "q = map (mq_data m) qs"
      by (auto simp: mq_msgs_def)
    note l' = l [unfolded q(1)]
    have "length (mq_data m i) \<le> unat (ucast (mq_msg_size m) :: u32)"
      using mq_unlink_layout(4) [OF l'] by simp
    with mq_fetch_layout [OF l', of "ucast (mq_msg_size m)"] q mq_layout_inv(1,3) show ?thesis
      by (fastforce simp: mq_get_def mq_fits_def fun_eq_iff)
  qed
qed

section \<open>Creation and reset\<close>

lemma mq_free_slots_spec:
  assumes "slots (mq_next m) (mq_free m) fs None" and "distinct fs" and "set fs \<inter> {t..<t + n} = {}"
  shows "\<exists>f. mq_free_slots n t m = m\<lparr>mq_next := fst f, mq_free := snd f\<rparr> \<and>
    slots (fst f) (snd f) (rev [t..<t + n] @ fs) None"
  using assms
proof (induction n arbitrary: t m fs)
  case 0
  then show ?case by (intro exI [of _ "(mq_next m, mq_free m)"]) simp
next
  case (Suc n)
  have t: "t \<notin> set fs" using Suc.prems(3) by auto
  then have n: "slots (mq_next (mq_release t m)) (mq_free (mq_release t m)) (t # fs) None"
    using Suc.prems(1) by (simp add: mq_release_def)
  have d: "distinct (t # fs)" "set (t # fs) \<inter> {Suc t..<Suc t + n} = {}" using Suc.prems by auto
  from Suc.IH [OF n d] obtain f where
    f: "mq_free_slots n (Suc t) (mq_release t m) = (mq_release t m)\<lparr>mq_next := fst f, mq_free := snd f\<rparr>"
      "slots (fst f) (snd f) (rev [Suc t..<Suc t + n] @ t # fs) None" by blast
  have "rev [t..<t + Suc n] = rev [Suc t..<Suc t + n] @ [t]" by (simp add: upt_conv_Cons del: upt_Suc)
  with f show ?case by (intro exI [of _ f]) (simp add: mq_release_def)
qed

lemma mq_setup_layout: "mq_layout [] (rev [0..<unat n]) (mq_setup pool msg_size n)"
proof -
  let ?m = "\<lparr>mq_next = (\<lambda>_. None), mq_data = pool, mq_msg_size = msg_size, mq_max_msgs = n, mq_entry = 0,
        mq_head = None, mq_tail = None, mq_free = None\<rparr>"
  from mq_free_slots_spec [of ?m "[]" 0 "unat n"] obtain f where
    "mq_free_slots (unat n) 0 ?m = ?m\<lparr>mq_next := fst f, mq_free := snd f\<rparr>" "slots (fst f) (snd f) (rev [0..<unat n]) None"
    by auto
  then show ?thesis by (auto simp: mq_setup_def mq_layout_def Let_def)
qed

text \<open>The drained list: every slot is free again. The counter is the caller's.\<close>

lemma mq_release_all_spec:
  assumes "slots (mq_next m) (mq_head m) qs None" and "slots (mq_next m) (mq_free m) fs None" and "distinct (qs @ fs)"
    and "mq_tail m = (if qs = [] then None else Some (last qs))"
  shows "\<exists>m'. mq_release_all m = Some m' \<and> mq_head m' = None \<and> mq_tail m' = None \<and>
    slots (mq_next m') (mq_free m') (rev qs @ fs) None \<and> mq_max_msgs m' = mq_max_msgs m \<and>
    mq_msg_size m' = mq_msg_size m"
  using assms
proof (induction qs arbitrary: m fs)
  case Nil
  then show ?case by (subst mq_release_all.simps) simp
next
  case (Cons i qs)
  let ?m = "mq_release i (mq_unlink i m)"
  have tl: "qs \<noteq> [] \<Longrightarrow> last qs \<noteq> i" using Cons.prems(3) last_in_set by fastforce
  have e: "mq_head ?m = mq_next m i" "mq_next ?m = (mq_next m)(i := mq_free m)" "mq_free ?m = Some i"
    "mq_tail ?m = (if mq_tail m = Some i then None else mq_tail m)" "mq_max_msgs ?m = mq_max_msgs m"
    "mq_msg_size ?m = mq_msg_size m"
    by (simp_all add: mq_release_def mq_unlink_def Let_def)
  have "slots (mq_next ?m) (mq_head ?m) qs None" "slots (mq_next ?m) (mq_free ?m) (i # fs) None" "distinct (qs @ i # fs)"
    "mq_tail ?m = (if qs = [] then None else Some (last qs))"
    using Cons.prems tl by (auto simp: e)
  from Cons.IH [OF this] obtain m' where
    m': "mq_release_all ?m = Some m'" "mq_head m' = None" "mq_tail m' = None"
      "slots (mq_next m') (mq_free m') (rev qs @ i # fs) None" "mq_max_msgs m' = mq_max_msgs m" "mq_msg_size m' = mq_msg_size m"
    unfolding e by blast
  have "mq_head m = Some i" using Cons.prems(1) by simp
  then have "mq_release_all m = Some m'" using m'(1) by (subst mq_release_all.simps) simp
  with m' show ?case by simp
qed

lemma mq_reset_layout:
  assumes "mq_layout qs fs m"
  shows "\<exists>m'. mq_release_all m = Some m' \<and> mq_layout [] (rev qs @ fs) (m'\<lparr>mq_entry := 0\<rparr>) \<and> mq_max_msgs m' = mq_max_msgs m"
proof -
  have "slots (mq_next m) (mq_head m) qs None" "slots (mq_next m) (mq_free m) fs None" "distinct (qs @ fs)"
    "mq_tail m = (if qs = [] then None else Some (last qs))" using assms by (simp_all add: mq_layout_def)
  from mq_release_all_spec [OF this] assms show ?thesis by (auto simp: mq_layout_def)
qed

section \<open>The message queue in the kernel\<close>

definition mq_ok :: "kstate \<Rightarrow> addr \<Rightarrow> bool" where
  "mq_ok s a \<longleftrightarrow> (\<exists>x h. k_mq s a = Some x \<and> mq_inv x \<and> k_obj s (Obj a) = Some h \<and>
    obj_type h AND NOT RT_Object_Class_Static = RT_Object_Class_MessageQueue \<and>
    (obj_flag h = RT_IPC_FLAG_FIFO \<or> obj_flag h = RT_IPC_FLAG_PRIO))"

lemma mq_okD:
  assumes "mq_ok s a"
  shows "is_class (Obj a) RT_Object_Class_MessageQueue s" "\<exists>h. k_obj s (Obj a) = Some h \<and> obj_flag h = ipc_flag s a"
    "ipc_flag s a = RT_IPC_FLAG_FIFO \<or> ipc_flag s a = RT_IPC_FLAG_PRIO"
    "k_mq s a = Some x \<Longrightarrow> mq_inv x"
  using assms by (auto simp: mq_ok_def is_class_def ipc_flag_def)

lemma mq_ok_change:
  assumes "mq_ok s a" and "k_mq s' a = Some x" and "mq_inv x" and "k_obj s' (Obj a) = k_obj s (Obj a)"
  shows "mq_ok s' a"
  using assms by (auto simp: mq_ok_def)

interpretation mq: ipc_object mq_ok
proof
  fix s s' a assume ok: "mq_ok s a" and "quiet s s'"
  then have "ipc_same s s'" by (simp add: quiet_def)
  with ok show "mq_ok s' a" using ipc_sameD [of s s'] by (auto simp: mq_ok_def)
qed

text \<open>A finished operation that leaves the messages \<open>q\<close> and wakes the first thread of \<open>l\<close>.\<close>

definition mq_done :: "u8 list list \<Rightarrow> lhead \<Rightarrow> addr \<Rightarrow> rt_messagequeue \<Rightarrow> kstate \<Rightarrow> kstate \<Rightarrow> bool" where
  "mq_done q l a x s s' \<longleftrightarrow> mq.live s' a \<and> first_woken l s s' \<and>
    (\<exists>x'. k_mq s' a = Some x' \<and> mq_msgs x' = q \<and> mq_max_msgs x' = mq_max_msgs x \<and> mq_msg_size x' = mq_msg_size x)"

lemma mq_stored:
  assumes lv: "mq.live s a" and x: "k_mq s a = Some x"
    and x': "mq_layout qs fs x'" "mq_max_msgs x' = mq_max_msgs x" "mq_msg_size x' = mq_msg_size x" and l: "is_waitq l"
  shows "\<exists>s'. upd_mq a (\<lambda>_. x') s \<bind> wake_first l = Some s' \<and> mq_done (map (mq_data x') qs) l a x s s'"
proof -
  let ?s = "s\<lparr>k_mq := (k_mq s)(a \<mapsto> x')\<rparr>"
  have kw: "kwf s" and ok: "mq_ok s a" and cur: "rt_current_thread s \<noteq> None" using lv by (simp_all add: mq.live_def)
  have kw1: "kwf ?s" using kwf_same_ipc [of ?s s] kw by simp
  have ok1: "mq_ok ?s a" by (rule mq_ok_change [OF ok _ mq_layout_inv(1) [OF x'(1)]]) simp_all
  have c1: "rt_current_thread ?s \<noteq> None" using cur by simp
  from wake_first_spec [OF kw1 c1 l] obtain s' where s': "wake_first l ?s = Some s'" "kwf s'"
    "rt_current_thread s' \<noteq> None" "quiet ?s s'" "first_woken l ?s s'" by blast
  have "first_woken l s s'" using first_woken_cong [of ?s s l s'] s'(5) by simp
  moreover have "mq.live s' a" using s' mq.wf_quiet [OF ok1 s'(4)] by (simp add: mq.live_def)
  moreover have "k_mq s' a = Some x'" using ipc_sameD(5) [OF quietD(1) [OF s'(4)]] by simp
  ultimately show ?thesis using s'(1) x x' mq_layout_inv(3) [OF x'(1)] by (simp add: mq_done_def)
qed

text \<open>What a call may send: the bytes are there and fit.\<close>

definition sendable :: "u8 list \<Rightarrow> u32 \<Rightarrow> rt_messagequeue \<Rightarrow> bool" where
  "sendable buffer sz x \<longleftrightarrow> sz \<noteq> 0 \<and> unat sz \<le> length buffer \<and> sz \<le> ucast (mq_msg_size x)"

lemma sendableD:
  assumes "sendable buffer sz x"
  shows "sz \<noteq> 0" "unat sz \<le> length buffer" "unat sz \<le> unat (mq_msg_size x)" "\<not> ucast (mq_msg_size x) < sz"
  using assms unat_ucast_16 [of "mq_msg_size x"] by (simp_all add: sendable_def word_le_nat_alt word_less_nat_alt)

lemma mq_send_loop_room:
  assumes lv: "mq.live s a" and x: "k_mq s a = Some x" and f: "\<not> mq_full x" and b: "sendable buffer sz x"
  shows "\<exists>s'. mq_send_loop a buffer sz th timeout sf s = Some (Return RT_EOK, s') \<and>
    mq_done (mq_msgs x @ [take (unat sz) buffer]) (SuspendQ a) a x s s'"
proof -
  have i: "mq_inv x" using mq_okD(4) [of s a x] lv x by (simp add: mq.live_def)
  from mq_inv_layout [OF i] obtain fs where l: "mq_layout (mq_queued x) fs x" .
  with f mq_full_iff [OF l] obtain j fs' where "fs = j # fs'" by (cases fs) auto
  from mq_append_layout [OF l [unfolded this] sendableD(2,3) [OF b]] obtain x' where
    x': "mq_append buffer sz x = Some (0, x')" "mq_layout (mq_queued x @ [j]) fs' x'"
      "map (mq_data x') (mq_queued x @ [j]) = mq_msgs x @ [take (unat sz) buffer]"
      "mq_max_msgs x' = mq_max_msgs x" "mq_msg_size x' = mq_msg_size x" by (auto simp: mq_msgs_def)
  from mq_stored [OF lv x x'(2,4,5), of "SuspendQ a"] x x'(1) f show ?thesis
    unfolding x'(3) by (auto simp: mq_send_loop_def mq_full_def)
qed

lemma mq_recv_loop_message:
  assumes lv: "mq.live s a" and x: "k_mq s a = Some x" and q: "mq_msgs x = v # q"
  shows "\<exists>s'. mq_recv_loop a sz th timeout sf s = Some (Return (int (min (unat sz) (length v)), take (unat sz) v), s') \<and>
    mq_done q (SenderQ a) a x s s'"
proof -
  have i: "mq_inv x" using mq_okD(4) [of s a x] lv x by (simp add: mq.live_def)
  from mq_inv_layout [OF i] obtain fs where l: "mq_layout (mq_queued x) fs x" .
  from q obtain j qs where qs: "mq_queued x = j # qs" "v = mq_data x j" "q = map (mq_data x) qs" by (auto simp: mq_msgs_def)
  from mq_fetch_layout [OF l [unfolded qs(1)], of sz] obtain x' where
    x': "mq_fetch sz x = Some (int (min (unat sz) (length v)), take (unat sz) v, x')" "mq_layout qs (j # fs) x'"
      "mq_data x' = mq_data x" "mq_max_msgs x' = mq_max_msgs x" "mq_msg_size x' = mq_msg_size x" unfolding qs(2) by blast
  have "mq_entry x \<noteq> 0" using mqs.empty_iff [OF i] q by (simp add: mq_empty_def)
  moreover have "map (mq_data x') qs = q" using x'(3) qs(3) by simp
  ultimately show ?thesis
    using mq_stored [OF lv x x'(2,4,5), of "SenderQ a"] x x'(1) by (auto simp: mq_recv_loop_def simp del: of_nat_min)
qed

lemma mq_urgent_room:
  assumes lv: "mq.live s a" and x: "k_mq s a = Some x" and f: "\<not> mq_full x" and b: "sendable buffer sz x"
  shows "\<exists>s'. rt_mq_urgent a buffer sz s = Some (RT_EOK, s') \<and>
    mq_done (take (unat sz) buffer # mq_msgs x) (SuspendQ a) a x s s'"
proof -
  have ok: "mq_ok s a" using lv by (simp add: mq.live_def)
  from mq_inv_layout [OF mq_okD(4) [OF ok x]] obtain fs where l: "mq_layout (mq_queued x) fs x" .
  with f mq_full_iff [OF l] obtain j fs' where "fs = j # fs'" by (cases fs) auto
  from mq_prepend_layout [OF l [unfolded this] sendableD(2,3) [OF b]] obtain x' where
    x': "mq_prepend buffer sz x = Some (0, x')" "mq_layout (j # mq_queued x) fs' x'"
      "map (mq_data x') (j # mq_queued x) = take (unat sz) buffer # mq_msgs x"
      "mq_max_msgs x' = mq_max_msgs x" "mq_msg_size x' = mq_msg_size x" by (auto simp: mq_msgs_def)
  from mq_stored [OF lv x x'(2,4,5), of "SuspendQ a"] x x'(1) f sendableD(1,4) [OF b] mq_okD(1) [OF ok] show ?thesis
    unfolding x'(3) by (auto simp: rt_mq_urgent_def mq_full_def assert_type_class)
qed

lemma mq_blocked_live: "mq.live s a \<Longrightarrow> blocked l t e flag timeout s s' \<Longrightarrow> mq.live s' a"
  using blockedD(1,3) [of l t e flag timeout s s'] ipc_sameD [OF blockedD(2) [of l t e flag timeout s s']]
  by (auto simp: mq.live_def mq_ok_def)

lemma mq_send_loop_full:
  assumes lv: "mq.live s a" and x: "k_mq s a = Some x" and f: "mq_full x" and ctx: "thread_context t s"
    and to: "timeout \<noteq> 0" "timeout \<noteq> 0x7fffffff" and sf: "suspend_stat sf \<noteq> None"
  shows "\<exists>s'. mq_send_loop a buffer sz (Some t) timeout sf s = Some (Blocked, s') \<and>
    blocked (SenderQ a) t (- RT_EINTR) (ipc_flag s a) timeout s s' \<and> mq.live s' a"
proof -
  have kw: "kwf s" and ok: "mq_ok s a" using lv by (simp_all add: mq.live_def)
  obtain th where th: "k_thread s t = Some th" using ctx by (auto simp: thread_context_def)
  obtain h where h: "k_obj s (Obj a) = Some h" "obj_flag h = ipc_flag s a" using mq_okD(2) [OF ok] by blast
  from wait_in_spec [OF kw ctx th is_waitq_simps(2) mq_okD(3) [OF ok] sf to(2), of a "- 9"] obtain s' where
    s': "wait_in (SenderQ a) t (ipc_flag s a) timeout sf (s\<lparr>k_thread := (k_thread s)(t \<mapsto> th\<lparr>th_error := - 9\<rparr>)\<rparr>) = Some (Blocked, s')"
      "blocked (SenderQ a) t (- 9) (ipc_flag s a) timeout s s'" by blast
  have "mq_send_loop a buffer sz (Some t) timeout sf s = Some (Blocked, s')"
    using x f to th h s'(1) by (simp add: mq_send_loop_def mq_full_def)
  with s'(2) mq_blocked_live [OF lv s'(2)] show ?thesis by simp
qed

lemma mq_recv_loop_empty:
  assumes lv: "mq.live s a" and x: "k_mq s a = Some x" and f: "mq_msgs x = []" and ctx: "thread_context t s"
    and to: "timeout \<noteq> 0" "timeout \<noteq> 0x7fffffff" and sf: "suspend_stat sf \<noteq> None"
  shows "\<exists>s'. mq_recv_loop a sz (Some t) timeout sf s = Some (Blocked, s') \<and>
    blocked (SuspendQ a) t (- RT_EINTR) (ipc_flag s a) timeout s s' \<and> mq.live s' a"
proof -
  have kw: "kwf s" and ok: "mq_ok s a" using lv by (simp_all add: mq.live_def)
  obtain th where th: "k_thread s t = Some th" using ctx by (auto simp: thread_context_def)
  obtain h where h: "k_obj s (Obj a) = Some h" "obj_flag h = ipc_flag s a" using mq_okD(2) [OF ok] by blast
  from wait_in_spec [OF kw ctx th is_waitq_simps(1) mq_okD(3) [OF ok] sf to(2), of a "- 9"] obtain s' where
    s': "wait_in (SuspendQ a) t (ipc_flag s a) timeout sf (s\<lparr>k_thread := (k_thread s)(t \<mapsto> th\<lparr>th_error := - 9\<rparr>)\<rparr>) = Some (Blocked, s')"
      "blocked (SuspendQ a) t (- 9) (ipc_flag s a) timeout s s'" by blast
  have e: "mq_entry x = 0" using mqs.empty_iff [OF mq_okD(4) [OF ok x]] f by (simp add: mq_empty_def)
  have "mq_recv_loop a sz (Some t) timeout sf s = Some (Blocked, s')"
    using x e to th h s'(1) by (simp add: mq_recv_loop_def)
  with s'(2) mq_blocked_live [OF lv s'(2)] show ?thesis by simp
qed

lemma mq_recv_resume_message:
  assumes "mq.live s a" and "k_mq s a = Some x" and "mq_msgs x = v # q" and "k_thread s t = Some th" and "th_error th = RT_EOK"
  shows "\<exists>s'. mq_recv_resume a sz t timeout start sf s =
      Some (Return (int (min (unat sz) (length v)), take (unat sz) v), s') \<and> mq_done q (SenderQ a) a x s s'"
  using mq_recv_loop_message [OF assms(1-3)] assms(4,5) by (simp add: mq_recv_resume_def)

section \<open>Properties\<close>

text \<open>C16. The linked slots are a bounded double-ended queue of byte strings: every sequence of
  sends, urgent sends and receives of messages the queue accepts returns what the queue of
  \<open>max_msgs\<close> messages returns and leaves its content, and no slot is lost or shared.\<close>

theorem rt_mq_deque:
  assumes "mq_inv m" and "list_all (msg_call_ok (mq_fits m)) calls"
  shows "\<exists>m'. store_run (store_step mq_full mq_empty mq_put mq_put_front mq_get) calls m =
      Some (fst (deque_run (unat (mq_max_msgs m)) calls (mq_msgs m)), m') \<and> mq_inv m' \<and>
    mq_msgs m' = snd (deque_run (unat (mq_max_msgs m)) calls (mq_msgs m))"
  by (rule mqs.run_refines [OF assms])

definition ex_queue :: rt_messagequeue where
  "ex_queue = mq_setup (\<lambda>_. []) 4 2"

lemma ex_queue_layout: "mq_layout [] [1, 0] ex_queue"
  using mq_setup_layout [of 2 "\<lambda>_. []" 4] by (simp add: ex_queue_def upt_rec)

lemma mq_setup_fields [simp]: "mq_max_msgs (mq_setup pool sz n) = n" "mq_msg_size (mq_setup pool sz n) = sz"
proof -
  have "mq_max_msgs (mq_free_slots k t m) = mq_max_msgs m \<and> mq_msg_size (mq_free_slots k t m) = mq_msg_size m" for k t m
    by (induction k arbitrary: t m) (simp_all add: mq_release_def)
  then show "mq_max_msgs (mq_setup pool sz n) = n" "mq_msg_size (mq_setup pool sz n) = sz"
    by (simp_all add: mq_setup_def Let_def)
qed

lemma ex_queue_inv: "mq_inv ex_queue" "mq_msgs ex_queue = []" "mq_max_msgs ex_queue = 2" "mq_msg_size ex_queue = 4"
  using mq_layout_inv [OF ex_queue_layout] by (simp_all add: ex_queue_def)

lemma rt_mq_deque_witness:
  "\<exists>m'. store_run (store_step mq_full mq_empty mq_put mq_put_front mq_get) [Send [1, 2], Urgent [3], Send [4], Recv, Recv, Recv] ex_queue =
      Some ([None, None, None, Some [3], Some [1, 2], None], m') \<and> mq_inv m' \<and> mq_msgs m' = []"
  using rt_mq_deque [OF ex_queue_inv(1), of "[Send [1, 2], Urgent [3], Send [4], Recv, Recv, Recv]"]
  by (simp add: ex_queue_inv mq_fits_def)

text \<open>The outcomes of a send: a message longer than \<open>msg_size\<close> is \<open>-RT_ERROR\<close>; with a
  free slot its first \<open>size\<close> bytes are appended and the first waiting receiver made runnable;
  without one \<open>-RT_EFULL\<close> when the caller does not wait, and otherwise it is queued with the
  senders. The two errors change nothing.\<close>

theorem rt_mq_send_outcomes:
  assumes "kwf s" and "mq_ok s a" and "k_mq s a = Some x" and "thread_context t s"
    and "sz \<noteq> 0" and "unat sz \<le> length buffer" and "timeout \<noteq> 0x7fffffff" and "suspend_stat f \<noteq> None"
  shows "if unat (mq_msg_size x) < unat sz then mq_send_wait a buffer sz timeout f s = Some (Return (- RT_ERROR), s)
    else if length (mq_msgs x) < unat (mq_max_msgs x)
      then \<exists>s'. mq_send_wait a buffer sz timeout f s = Some (Return RT_EOK, s') \<and>
        mq_done (mq_msgs x @ [take (unat sz) buffer]) (SuspendQ a) a x s s'
    else if timeout = 0 then mq_send_wait a buffer sz timeout f s = Some (Return (- RT_EFULL), s)
    else \<exists>s'. mq_send_wait a buffer sz timeout f s = Some (Blocked, s') \<and>
      blocked (SenderQ a) t (- RT_EINTR) (ipc_flag s a) timeout s s' \<and> mq_ok s' a"
proof -
  have lv: "mq.live s a" and self: "rt_thread_self s = Some t"
    using assms(1,2,4) by (auto simp: mq.live_def thread_context_def rt_thread_self_def)
  note i = mq_okD(4) [OF assms(2,3)]
  have full: "mq_full x \<longleftrightarrow> \<not> length (mq_msgs x) < unat (mq_max_msgs x)"
    using mqs.full_iff [OF i] mqs.within [OF i] by auto
  have big: "ucast (mq_msg_size x) < sz \<longleftrightarrow> unat (mq_msg_size x) < unat sz" by (simp add: word_less_nat_alt)
  have e: "mq_send_wait a buffer sz timeout f s = (if ucast (mq_msg_size x) < sz then Some (Return (- RT_ERROR), s)
      else if mq_full x \<and> timeout = 0 then Some (Return (- RT_EFULL), s)
      else mq_send_loop a buffer sz (Some t) timeout f s)"
    using mq_okD(1) [OF assms(2)] assms(3,4,5) self by (simp add: mq_send_wait_def assert_type_class mq_full_def)
  show ?thesis
  proof (cases "ucast (mq_msg_size x) < sz")
    case True
    with e big show ?thesis by simp
  next
    case small: False
    then have b: "sendable buffer sz x" using assms(5,6) by (simp add: sendable_def not_less)
    show ?thesis
    proof (cases "mq_full x")
      case False
      with full e big small mq_send_loop_room [OF lv assms(3) False b] show ?thesis by simp
    next
      case True
      show ?thesis
      proof (cases "timeout = 0")
        case False
        from mq_send_loop_full [OF lv assms(3) True assms(4) False assms(7,8)] True False full e big small show ?thesis
          by (auto simp: mq.live_def)
      qed (use True full e big small in simp)
    qed
  qed
qed

text \<open>The queue 20 of two messages of four bytes, with threads 11 and 12 waiting for a message.\<close>

definition ex_mq :: kstate where
  "ex_mq = ex_timed\<lparr>k_obj := (k_obj ex_timed)(Obj 20 \<mapsto> ex_ipc_header 6 0), k_mq := [20 \<mapsto> ex_queue]\<rparr>"

lemma ex_mq_simps [simp]:
  "k_mq ex_mq = [20 \<mapsto> ex_queue]" "k_list ex_mq = (\<lambda>_. [])(SuspendQ 20 := [11, 12])"
  "k_obj ex_mq (Obj 20) = Some (ex_ipc_header 6 0)" "rt_current_thread ex_mq = Some 10"
  by (simp_all add: ex_mq_def)

lemma ex_mq_kwf: "kwf ex_mq"
proof (rule kwf_new_object [OF ex_timed_kwf])
  show "k_obj ex_timed (Obj 20) = None" by (simp add: ex_timed_def ex_state_def)
  show "k_obj ex_mq = (k_obj ex_timed)(Obj 20 \<mapsto> ex_ipc_header 6 0)" by (simp add: ex_mq_def)
qed (simp_all add: ex_mq_def)

lemma ex_mq_ok: "mq_ok ex_mq 20"
  by (simp add: mq_ok_def ex_ipc_header_def ex_queue_inv)

lemma ex_mq_context: "thread_context 10 ex_mq"
  by (simp add: thread_context_def ex_mq_def ex_timed_def ex_state_def init_kstate_def ex_thread_def state_of_def)

lemma rt_mq_send_outcomes_witness:
  "\<exists>s' x'. rt_mq_send 20 [7, 8, 9] 2 ex_mq = Some (Return RT_EOK, s') \<and> k_mq s' 20 = Some x' \<and> mq_msgs x' = [[7, 8]] \<and>
    k_list s' (SuspendQ 20) = [12]"
proof -
  have "suspend_stat 2 \<noteq> None" by (simp add: suspend_stat_def)
  with rt_mq_send_outcomes [OF ex_mq_kwf ex_mq_ok _ ex_mq_context, of ex_queue 2 "[7, 8, 9]" 0 2] show ?thesis
    by (auto simp: rt_mq_send_def rt_mq_send_wait_def mq_done_def first_woken_def ex_queue_inv)
qed

text \<open>A message reaches the thread that waits for it: after a send to an empty queue with
  waiting receivers, the first of them, when it runs again, returns the length (cut to the size
  of its buffer) and the bytes of the message, the queue is empty again, and the rest of the
  receivers still wait.\<close>

theorem rt_mq_receiver_gets:
  assumes "kwf s" and "mq_ok s a" and "k_mq s a = Some x" and "thread_context w s" and "sendable buffer sz x"
    and "mq_msgs x = []" and "mq_max_msgs x \<noteq> 0" and "k_list s (SuspendQ a) = t # rest"
    and "timeout \<noteq> 0x7fffffff" and "suspend_stat f \<noteq> None"
  shows "\<exists>s1 s2 x2. mq_send_wait a buffer sz timeout f s = Some (Return RT_EOK, s1) \<and>
    mq_recv_resume a n t left start g s1 =
      Some (Return (int (min (unat n) (unat sz)), take (min (unat n) (unat sz)) buffer), s2) \<and>
    k_mq s2 a = Some x2 \<and> mq_msgs x2 = [] \<and> k_list s2 (SuspendQ a) = rest \<and> kwf s2 \<and> mq_ok s2 a"
proof -
  have lv: "mq.live s a" and self: "rt_thread_self s = Some w"
    using assms(1,2,4) by (auto simp: mq.live_def thread_context_def rt_thread_self_def)
  note b = sendableD [OF assms(5)] and i = mq_okD(4) [OF assms(2,3)]
  have nf: "\<not> mq_full x" using mqs.full_iff [OF i] assms(6,7) by (simp add: unat_eq_0)
  then have e: "mq_send_wait a buffer sz timeout f s = mq_send_loop a buffer sz (Some w) timeout f s"
    using mq_okD(1) [OF assms(2)] assms(3,4) self b(1,4) by (auto simp: mq_send_wait_def assert_type_class mq_full_def)
  from mq_send_loop_room [OF lv assms(3) nf assms(5), of "Some w" timeout f] obtain s1 x1 th where
    s1: "mq_send_loop a buffer sz (Some w) timeout f s = Some (Return 0, s1)" "mq.live s1 a" "k_mq s1 a = Some x1"
      "mq_msgs x1 = [take (unat sz) buffer]" "k_list s1 (SuspendQ a) = rest" "k_thread s1 t = Some th" "th_error th = 0"
    using assms(6,8) by (auto simp: mq_done_def first_woken_def)
  from mq_recv_resume_message [OF s1(2,3,4,6,7), of n left start g] s1 b(2) obtain s2 x2 where
    "mq_recv_resume a n t left start g s1 = Some (Return (int (min (unat n) (unat sz)), take (min (unat n) (unat sz)) buffer), s2)"
    "mq.live s2 a" "k_mq s2 a = Some x2" "mq_msgs x2 = []" "k_list s2 (SuspendQ a) = rest"
    by (auto simp: mq_done_def first_woken_def min.absorb2 simp del: of_nat_min)
  with e s1(1) show ?thesis by (auto simp: mq.live_def)
qed

lemma rt_mq_receiver_gets_witness:
  "\<exists>s1 s2 x2. rt_mq_send 20 [7, 8, 9] 3 ex_mq = Some (Return RT_EOK, s1) \<and>
    mq_recv_resume 20 2 11 6 1 2 s1 = Some (Return (2, [7, 8]), s2) \<and> k_mq s2 20 = Some x2 \<and> mq_msgs x2 = []"
proof -
  have "suspend_stat 2 \<noteq> None" by (simp add: suspend_stat_def)
  moreover have "sendable [7, 8, 9] 3 ex_queue" by (simp add: sendable_def ex_queue_inv)
  ultimately show ?thesis
    using rt_mq_receiver_gets [OF ex_mq_kwf ex_mq_ok _ ex_mq_context, of ex_queue "[7, 8, 9]" 3 11 "[12]" 0 2 2 6 1 2]
    by (auto simp: rt_mq_send_def rt_mq_send_wait_def ex_queue_inv)
qed

text \<open>A reset ends every wait: all receivers and senders are made runnable with
  \<open>-RT_ERROR\<close> (which their blocked calls return), both queues are empty, every message is
  dropped and its slot free, and the loop over the messages ends.\<close>

theorem rt_mq_control_reset:
  assumes "kwf s" and "mq_ok s a" and "k_mq s a = Some x" and "rt_current_thread s \<noteq> None"
  shows "\<exists>s' x'. rt_mq_control a RT_IPC_CMD_RESET s = Some (RT_EOK, s') \<and> kwf s' \<and> mq_ok s' a \<and>
    k_mq s' a = Some x' \<and> mq_msgs x' = [] \<and> mq_max_msgs x' = mq_max_msgs x \<and>
    k_list s' (SuspendQ a) = [] \<and> k_list s' (SenderQ a) = [] \<and>
    list_all (\<lambda>t. mq_recv_resume a n t left start f s' = Some (Return (- RT_ERROR, []), s')) (k_list s (SuspendQ a)) \<and>
    list_all (\<lambda>t. mq_send_resume a buffer n t left start f s' = Some (Return (- RT_ERROR), s')) (k_list s (SenderQ a))"
proof -
  let ?ts = "k_list s (SuspendQ a) @ k_list s (SenderQ a)"
  from resume_both_spec [OF assms(1), of "SuspendQ a" "SenderQ a"] obtain s1 s2 where
    r: "ipc_list_resume_all (SuspendQ a) s = Some s1" "ipc_list_resume_all (SenderQ a) s1 = Some s2" "kwf s2"
      "all_woken (\<lambda>th. th\<lparr>th_error := - 1\<rparr>) ?ts s s2" by auto
  have x2: "k_mq s2 a = Some x" using ipc_sameD(5) [OF all_wokenD(1) [OF r(4)]] assms(3) by simp
  from mq_inv_layout [OF mq_okD(4) [OF assms(2,3)]] obtain fs where l: "mq_layout (mq_queued x) fs x" .
  from mq_reset_layout [OF l] obtain m where m: "mq_release_all x = Some m"
    "mq_layout [] (rev (mq_queued x) @ fs) (m\<lparr>mq_entry := 0\<rparr>)" "mq_max_msgs m = mq_max_msgs x" by blast
  let ?x = "m\<lparr>mq_entry := 0\<rparr>" let ?s = "s2\<lparr>k_mq := (k_mq s2)(a \<mapsto> ?x)\<rparr>"
  have ok2: "mq_ok s2 a" by (rule mq.wf_quiet [OF assms(2) quiet_all_woken [OF r(4)]])
  have ok: "mq_ok ?s a" by (rule mq_ok_change [OF ok2 _ mq_layout_inv(1) [OF m(2)]]) simp_all
  have kw: "kwf ?s" using kwf_same_ipc [of ?s s2] r(3) by simp
  have cur: "rt_current_thread ?s \<noteq> None" using all_wokenD(2) [OF r(4)] assms(4) by simp
  from mq.live_schedule [OF kw ok cur] obtain s' where
    s': "rt_schedule ?s = Some s'" "mq.live s' a" "sched_frame ?s s'" by blast
  have ctl: "rt_mq_control a 1 s = Some (0, s')"
    using mq_okD(1) [OF assms(2)] r(1,2) x2 m(1) s'(1) by (simp add: rt_mq_control_def assert_type_class)
  have q: "k_list s' l = filter (\<lambda>t. t \<notin> set ?ts) (k_list s l)" if "is_waitq l" for l
  proof -
    have nr: "l \<noteq> ReadyQ p" for p using that by auto
    show ?thesis using sched_frame_queue [OF s'(3) nr] all_wokenD(3) [OF r(4) nr] by simp
  qed
  have th: "\<exists>th. k_thread s' t = Some th \<and> th_error th = - 1" if "t \<in> set ?ts" for t
  proof -
    from all_woken_runnable [OF r(4) that] obtain th where "k_thread ?s t = Some th" "th_error th = - 1" by auto
    with sched_frame_thread [OF s'(3), of t th] show ?thesis by auto
  qed
  have k: "k_mq s' a = Some ?x" using sched_frame_fields [OF s'(3)] by simp
  have "list_all (\<lambda>t. mq_recv_resume a n t left start f s' = Some (Return (- 1, []), s')) (k_list s (SuspendQ a))"
    "list_all (\<lambda>t. mq_send_resume a buffer n t left start f s' = Some (Return (- 1), s')) (k_list s (SenderQ a))"
    using th by (fastforce simp: list_all_iff mq_recv_resume_def mq_send_resume_def)+
  with ctl s'(2) k q [of "SuspendQ a"] q [of "SenderQ a"] m(3) mq_layout_inv(3) [OF m(2)] show ?thesis
    by (auto simp: mq.live_def)
qed

lemma rt_mq_control_reset_witness:
  "\<exists>s' x'. rt_mq_control 20 RT_IPC_CMD_RESET ex_mq = Some (RT_EOK, s') \<and> k_mq s' 20 = Some x' \<and> mq_msgs x' = [] \<and>
    k_list s' (SuspendQ 20) = [] \<and> mq_recv_resume 20 4 12 6 1 2 s' = Some (Return (- RT_ERROR, []), s')"
  using rt_mq_control_reset [OF ex_mq_kwf ex_mq_ok, of ex_queue 4 6 1 2 "[]"] by auto

text \<open>A message queue comes into being well-formed: \<open>rt_mq_init\<close> on a fresh address
  registers the object and leaves an empty queue with as many free slots as messages and their
  headers fit the pool (counted in 16 bits), and the kernel stays well-formed.\<close>

theorem rt_mq_init_wf:
  assumes "kwf s" and "rt_current_thread s \<noteq> None" and "0 \<le> sint (rt_scheduler_lock_nest s)"
    and "fresh a RT_Object_Class_MessageQueue s" and "k_list s (SuspendQ a) = []" and "k_list s (SenderQ a) = []"
    and "flag = RT_IPC_FLAG_FIFO \<or> flag = RT_IPC_FLAG_PRIO"
    and "n = ucast (pool_size div (RT_ALIGN msg_size RT_ALIGN_SIZE + 8))" and "n \<noteq> 0"
  shows "\<exists>s' x. rt_mq_init a nm pool msg_size pool_size flag s = Some (RT_EOK, s') \<and> kwf s' \<and> mq_ok s' a \<and>
    k_mq s' a = Some x \<and> mq_msgs x = [] \<and> mq_max_msgs x = n \<and> mq_msg_size x = ucast msg_size"
proof -
  have c: "known_class 6" by (simp add: known_class_def)
  from object_init_spec [OF assms(1-3) c assms(4), of nm] obtain s1 where
    s1: "rt_object_init (Obj a) 6 nm s = Some (registered a 6 nm s1)" "kwf s1" "sched_frame s s1" by blast
  let ?m = "mq_setup pool (ucast msg_size) n" and ?r = "registered a 6 nm s1"
  let ?h = "\<lparr>obj_name = copy_name nm, obj_type = 6 OR RT_Object_Class_Static, obj_flag = flag\<rparr>"
  let ?s' = "mq_sender_init a ((ipc_object_init a (?r\<lparr>k_obj := (k_obj ?r)(Obj a \<mapsto> ?h)\<rparr>))\<lparr>k_mq := (k_mq s1)(a \<mapsto> ?m)\<rparr>)"
  have q: "k_list s1 (SuspendQ a) = []" "k_list s1 (SenderQ a) = []"
    using sched_frame_queue [OF s1(3)] assms(5,6) by simp_all
  have "rt_mq_init a nm pool msg_size pool_size flag s = Some (0, ?s')"
    using s1(1) assms(7,9) unfolding assms(8) by (auto simp: rt_mq_init_def ipc_object_init_def Let_def)
  moreover have "kwf ?s'"
  proof (rule kwf_new_object [OF s1(2)])
    show "k_obj s1 (Obj a) = None" using fresh_sched [OF s1(3), of a 6] assms(4) by (simp add: fresh_def)
    show "k_obj ?s' = (k_obj s1)(Obj a \<mapsto> ?h)" by (simp add: mq_sender_init_def ipc_object_init_def)
    show "k_list ?s' = k_list s1" by (rule ext) (simp add: mq_sender_init_def ipc_object_init_def q)
  qed (simp_all add: mq_sender_init_def ipc_object_init_def)
  moreover have "k_mq ?s' a = Some ?m" by (simp add: mq_sender_init_def)
  moreover from this have "mq_ok ?s' a"
    using assms(7) mq_layout_inv(1) [OF mq_setup_layout [of n pool "ucast msg_size"]]
    by (simp add: mq_ok_def mq_sender_init_def ipc_object_init_def)
  ultimately show ?thesis using mq_layout_inv(3) [OF mq_setup_layout [of n pool "ucast msg_size"]] by auto
qed

lemma rt_mq_init_wf_witness:
  "\<exists>s' x. rt_mq_init 21 [113, 0] (\<lambda>_. []) 4 40 0 ex_timed = Some (RT_EOK, s') \<and> kwf s' \<and> mq_ok s' 21 \<and>
    k_mq s' 21 = Some x \<and> mq_max_msgs x = 2"
proof -
  have "fresh 21 6 ex_timed" "rt_scheduler_lock_nest ex_timed = 0"
    by (simp_all add: fresh_def ex_timed_def ex_state_def init_kstate_def)
  moreover have "(2 :: u16) = ucast ((40 :: u32) div (RT_ALIGN 4 8 + 8))" by (simp add: RT_ALIGN_def)
  ultimately show ?thesis
    using rt_mq_init_wf [OF ex_timed_kwf, of 21 0 2 40 4 "[113, 0]" "\<lambda>_. []"] by auto
qed

end
