(* ===== verification/ThreadPrio.thy ===== *)
theory ThreadPrio
  imports IpcBase
begin

text \<open>
  Changing the priority of a thread, the command \<open>RT_THREAD_CTRL_CHANGE_PRIORITY\<close> of
  \<open>rt_thread_control\<close> in \<open>rt-thread/src/thread.c\<close>, on which the priority inheritance of the
  mutexes rests: a ready thread moves to the queue of its new priority, any other thread only
  changes its data.
\<close>

section \<open>The operation\<close>

text \<open>\<open>1 << current_priority\<close>: the shift must stay inside the word.\<close>

definition set_priority :: "u8 \<Rightarrow> rt_thread \<Rightarrow> rt_thread" where
  "set_priority p th = (let th = th\<lparr>th_current_priority := p\<rparr>
    in th\<lparr>th_number_mask := push_bit (unat (th_current_priority th)) 1\<rparr>)"

definition change_priority :: "addr \<Rightarrow> u8 \<Rightarrow> kstate \<Rightarrow> kstate option" where
  "change_priority thread p s = do {
    _ \<leftarrow> assert_type (Obj thread) RT_Object_Class_Thread s;
    th \<leftarrow> k_thread s thread;
    in_bounds (unat p < RT_THREAD_PRIORITY_MAX);
    if state_of th = RT_THREAD_READY then do {
      s \<leftarrow> rt_schedule_remove_thread thread s;
      s \<leftarrow> upd_thread thread (set_priority p) s;
      rt_schedule_insert_thread thread s
    } else upd_thread thread (set_priority p) s }"

section \<open>Effect\<close>

lemma set_priority_simps [simp]:
  "th_current_priority (set_priority p th) = p" "th_stat (set_priority p th) = th_stat th"
  "th_init_priority (set_priority p th) = th_init_priority th" "th_error (set_priority p th) = th_error th"
  "th_pending_object (set_priority p th) = th_pending_object th"
  "state_of (set_priority p th) = state_of th" "suspended (set_priority p th) = suspended th"
  "yielding (set_priority p th) = yielding th" "stack_ok (set_priority p th) = stack_ok th"
  "prio (set_priority p th) = unat p" "th_number_mask (set_priority p th) = prio_bit (set_priority p th)"
  by (simp_all add: set_priority_def Let_def state_of_def suspended_def yielding_def stack_ok_def prio_def prio_bit_def)

lemma prio_ok_set_priority: "unat p < 32 \<Longrightarrow> prio_ok (set_priority p th)"
  by (simp add: prio_ok_def)

lemma split_mask: "(x AND m) OR (x AND NOT m) = x" for x m :: "'a::len word"
  by (rule bit_word_eqI) (auto simp: bit_simps)

lemma set_state_same: "state_of th = c \<Longrightarrow> set_state c th = th"
  using split_mask [of "th_stat th" 7] by (cases th) (auto simp: set_state_def state_of_def)

text \<open>The state with a changed priority of one thread.\<close>

definition repriorised :: "addr \<Rightarrow> u8 \<Rightarrow> kstate \<Rightarrow> kstate \<Rightarrow> bool" where
  "repriorised t p s s' \<longleftrightarrow> ipc_same s s' \<and> rt_current_thread s' = rt_current_thread s \<and>
    (\<forall>l. (\<forall>q. l \<noteq> ReadyQ q) \<longrightarrow> k_list s' l = k_list s l) \<and>
    (\<exists>th. k_thread s t = Some th \<and> k_thread s' = (k_thread s)(t \<mapsto> set_priority p th)) \<and>
    k_obj s' = k_obj s \<and> k_timer s' = k_timer s \<and> k_timers s' = k_timers s"

lemma repriorisedD:
  assumes "repriorised t p s s'" and "k_thread s t = Some th"
  shows "ipc_same s s'" "rt_current_thread s' = rt_current_thread s"
    "(\<And>q. l \<noteq> ReadyQ q) \<Longrightarrow> k_list s' l = k_list s l" "k_thread s' = (k_thread s)(t \<mapsto> set_priority p th)"
    "k_obj s' = k_obj s" "k_timer s' = k_timer s" "k_timers s' = k_timers s"
  using assms by (auto simp: repriorised_def)

lemma kwf_repriorised:
  assumes kw: "kwf s" and th: "k_thread s t = Some th" and st: "state_of th \<noteq> RT_THREAD_CLOSE"
    and r: "repriorised t p s s'" and i: "inv_out {} s'"
  shows "kwf s'"
proof -
  note d = repriorisedD [OF r th]
  have "kinv s'" by (rule kinv_one_thread [OF kwfD(1) [OF kw] th i d(4,5,6,7) st]) simp
  moreover have "thread_timers s'" using kwfD(2) [OF kw] thread_timers_cong [OF d(5,6)] by simp
  moreover have "armed_ok s'" by (rule armed_okI [OF kwfD(3) [OF kw]]) (use d th in auto)
  ultimately show ?thesis by (simp add: kwf_def)
qed

lemma change_priority_spec:
  assumes kw: "kwf s" and th: "k_thread s t = Some th" and st: "state_of th \<noteq> RT_THREAD_CLOSE" and p: "unat p < 32"
  shows "\<exists>s'. change_priority t p s = Some s' \<and> kwf s' \<and> repriorised t p s s'"
proof -
  note k = kwfD(1) [OF kw]
  note i = kinvD(5) [OF k, of "{}"]
  have cl: "is_class (Obj t) RT_Object_Class_Thread s" by (rule kinv_thread_class(1) [OF k th st])
  show ?thesis
  proof (cases "state_of th = RT_THREAD_READY")
    case False
    let ?s = "s\<lparr>k_thread := (k_thread s)(t \<mapsto> set_priority p th)\<rparr>"
    have r: "repriorised t p s ?s" using th by (simp add: repriorised_def ipc_same_def is_class_def)
    have ok: "state_ok s t (set_priority p th)" using inv_outD(4) [OF i th] False by (simp add: state_ok_def)
    have "inv_out {} ?s"
    proof (rule inv_outI)
      show "separate (k_list ?s)" using inv_outD(1) [OF i] by simp
      show "\<exists>h. k_thread ?s x = Some h \<and> queue_state l h" if "x \<in> set (k_list ?s l)" for l x
      proof (cases "x = t")
        case True
        have "queue_state l th" using inv_outD(2) [OF i, of x l] that th True by simp
        then have "queue_state l (set_priority p th)" using False by (cases l) (simp_all add: queue_state_def)
        with True show ?thesis by simp
      next
        case False
        with that inv_outD(2) [OF i, of x l] show ?thesis by simp
      qed
      show "prio_ok h" if "k_thread ?s x = Some h" for x h
        using that inv_outD(3) [OF i, of x h] prio_ok_set_priority [OF p, of th] by (cases "x = t") simp_all
      show "state_ok ?s x h" if "k_thread ?s x = Some h" "x \<notin> {}" for x h
        using that inv_outD(4) [OF i, of x h] ok by (cases "x = t") (simp_all add: state_ok_def)
      show "\<exists>h. k_thread ?s c = Some h" if "rt_current_thread ?s = Some c" for c
        using that inv_outD(6) [OF i, of c] by auto
      show "bit (rt_thread_ready_priority_group ?s) q \<longleftrightarrow> k_list ?s (ReadyQ q) \<noteq> []" if "q < 32" for q
        using inv_outD(5) [OF i that] by simp
    qed
    with kwf_repriorised [OF kw th st r] r False th cl p show ?thesis
      by (simp add: change_priority_def assert_type_class)
  next
    case True
    have i1: "inv_out {t} s" by (rule inv_out_mono [OF i]) simp
    from inv_out_remove [OF i1 th] obtain s1 where
      s1: "rt_schedule_remove_thread t s = Some s1" "inv_out {t} s1" "unlinked (k_list s1) t"
        "s1 = s\<lparr>k_list := al_remove t (k_list s), rt_thread_ready_priority_group := rt_thread_ready_priority_group s1\<rparr>"
      by auto
    have t1: "k_thread s1 = k_thread s" "k_list s1 = al_remove t (k_list s)" "rt_current_thread s1 = rt_current_thread s"
      by (subst s1(4), simp)+
    let ?h = "set_priority p th" let ?s2 = "s1\<lparr>k_thread := (k_thread s1)(t \<mapsto> ?h)\<rparr>"
    have i2: "inv_out {t} ?s2"
      by (rule inv_out_set [OF s1(2) _ s1(3) prio_ok_set_priority [OF p]]) (use th t1 in simp_all)
    have nc: "rt_current_thread s \<noteq> Some t" using inv_outD(4) [OF i th] True by (simp add: state_ok_def)
    have th2: "k_thread ?s2 t = Some ?h" and u2: "unlinked (k_list ?s2) t" and nc2: "rt_current_thread ?s2 \<noteq> Some t"
      using s1(3) nc t1 by simp_all
    from inv_out_insert [OF i2 th2 u2 _ nc2] obtain s3 where
      s3: "rt_schedule_insert_thread t ?s2 = Some s3" "inv_out {} s3"
        "s3 = ?s2\<lparr>k_thread := (k_thread ?s2)(t \<mapsto> set_state 2 ?h),
          k_list := (if yielding ?h then al_tail else al_head) (ReadyQ (prio ?h)) t (k_list ?s2),
          rt_thread_ready_priority_group := rt_thread_ready_priority_group ?s2 OR prio_bit ?h\<rparr>" by auto
    have same: "set_state 2 ?h = ?h" by (rule set_state_same) (use True in simp)
    have nq: "k_list s3 l = k_list s l" if "\<forall>q. l \<noteq> ReadyQ q" for l
    proof -
      have "t \<in> set (k_list s (ReadyQ (prio th)))" using inv_outD(4) [OF i th] True by (simp add: state_ok_def)
      then have "t \<notin> set (k_list s l)" using separate_eq [OF inv_outD(1) [OF i]] that by blast
      then show ?thesis using that by (simp add: s3(3) t1 al_tail_def al_head_def al_remove_def remove1_idem)
    qed
    have f1: "k_obj s1 = k_obj s" "k_timer s1 = k_timer s" "k_timers s1 = k_timers s" "ipc_same s s1"
      by (subst s1(4), simp add: ipc_same_def is_class_def)+
    have "repriorised t p s s3"
      using nq same th t1 f1 by (simp add: repriorised_def s3(3) ipc_same_def is_class_def)
    moreover have "change_priority t p s = Some s3"
      using True th cl p s1(1) s3(1) t1 by (simp add: change_priority_def assert_type_class)
    ultimately show ?thesis using kwf_repriorised [OF kw th st _ s3(2)] by blast
  qed
qed

end
