(* ===== verification/Mutex.thy ===== *)
theory Mutex
  imports ThreadPrio
begin

text \<open>
  The mutexes of \<open>rt-thread/src/ipc.c\<close>: recursive locks with an owner, a priority ceiling
  and priority inheritance. A mutex has the priority of its first waiting thread; the owner
  takes the highest of its own priority and those of the mutexes it holds, and when it waits
  for a mutex itself, the change goes on along the chain of owners.
\<close>

section \<open>Access\<close>

definition upd_mutex :: "addr \<Rightarrow> (rt_mutex \<Rightarrow> rt_mutex) \<Rightarrow> kstate \<Rightarrow> kstate option" where
  "upd_mutex a f s = do { m \<leftarrow> upd (k_mutex s) a f; Some (s\<lparr>k_mutex := m\<rparr>) }"

lemma upd_mutex_Some [simp]:
  "k_mutex s a = Some x \<Longrightarrow> upd_mutex a f s = Some (s\<lparr>k_mutex := (k_mutex s)(a \<mapsto> f x)\<rparr>)"
  by (simp add: upd_mutex_def upd_def)

text \<open>The list node \<open>taken_list\<close> of a mutex, in the list of the mutexes a thread holds.\<close>

definition taken_insert :: "addr \<Rightarrow> addr \<Rightarrow> kstate \<Rightarrow> kstate" where
  "taken_insert thread mutex s = s\<lparr>k_taken := al_head thread mutex (k_taken s)\<rparr>"

definition taken_remove :: "addr \<Rightarrow> kstate \<Rightarrow> kstate" where
  "taken_remove mutex s = s\<lparr>k_taken := al_remove mutex (k_taken s)\<rparr>"

text \<open>\<open>rt_set_errno\<close> in a thread writes the thread's error code; the static \<open>__rt_errno\<close>
  it writes otherwise is not part of the state.\<close>

definition rt_set_errno :: "rt_err \<Rightarrow> kstate \<Rightarrow> kstate option" where
  "rt_set_errno error s =
    (if rt_interrupt_get_nest s \<noteq> 0 then Some s
     else case rt_thread_self s of
       None \<Rightarrow> Some s
     | Some tid \<Rightarrow> upd_thread tid (\<lambda>th. th\<lparr>th_error := error\<rparr>) s)"

section \<open>Priorities\<close>

definition mutex_update_priority :: "addr \<Rightarrow> kstate \<Rightarrow> (u8 \<times> kstate) option" where
  "mutex_update_priority mutex s = do {
    p \<leftarrow> (case k_list s (SuspendQ mutex) of
        [] \<Rightarrow> Some 0xff
      | thread # _ \<Rightarrow> do { th \<leftarrow> k_thread s thread; Some (th_current_priority th) });
    s \<leftarrow> upd_mutex mutex (\<lambda>x. x\<lparr>mtx_priority := p\<rparr>) s;
    Some (p, s) }"

fun taken_priority :: "(addr \<rightharpoonup> rt_mutex) \<Rightarrow> u8 \<Rightarrow> addr list \<Rightarrow> u8 option" where
  "taken_priority ms priority [] = Some priority"
| "taken_priority ms priority (m # l) = do {
     mutex \<leftarrow> ms m;
     let mutex_prio = mtx_priority mutex;
     let mutex_prio = (if mutex_prio < mtx_ceiling_priority mutex then mutex_prio else mtx_ceiling_priority mutex);
     taken_priority ms (if priority > mutex_prio then mutex_prio else priority) l }"

definition thread_get_mutex_priority :: "addr \<Rightarrow> kstate \<Rightarrow> u8 option" where
  "thread_get_mutex_priority thread s = do {
    th \<leftarrow> k_thread s thread;
    taken_priority (k_mutex s) (th_init_priority th) (k_taken s thread) }"

partial_function (option) thread_update_priority :: "addr \<Rightarrow> u8 \<Rightarrow> int \<Rightarrow> kstate \<Rightarrow> kstate option" where
  "thread_update_priority thread priority suspend_flag s = do {
    s \<leftarrow> change_priority thread priority s;
    th \<leftarrow> k_thread s thread;
    if suspended th then (case th_pending_object th of
        None \<Rightarrow> Some s
      | Some pending_mutex \<Rightarrow> do {
          type \<leftarrow> rt_object_get_type (Obj pending_mutex) s;
          if type = RT_Object_Class_Mutex then do {
            h \<leftarrow> k_obj s (Obj pending_mutex);
            (ret, s) \<leftarrow> ipc_list_suspend (SuspendQ pending_mutex) thread (obj_flag h) suspend_flag (tlist_remove thread s);
            if ret \<noteq> RT_EOK then Some s
            else do {
              (_, s) \<leftarrow> mutex_update_priority pending_mutex s;
              x \<leftarrow> k_mutex s pending_mutex;
              owner \<leftarrow> mtx_owner x;
              mutex_priority \<leftarrow> thread_get_mutex_priority owner s;
              o' \<leftarrow> k_thread s owner;
              if mutex_priority \<noteq> th_current_priority o'
              then thread_update_priority owner mutex_priority suspend_flag s
              else Some s }
          } else Some s })
    else Some s }"

text \<open>The lines that recompute the priority of the owner.\<close>

definition update_owner :: "addr \<Rightarrow> kstate \<Rightarrow> kstate option" where
  "update_owner mutex s = do {
    x \<leftarrow> k_mutex s mutex;
    owner \<leftarrow> mtx_owner x;
    priority \<leftarrow> thread_get_mutex_priority owner s;
    o' \<leftarrow> k_thread s owner;
    if priority \<noteq> th_current_priority o'
    then thread_update_priority owner priority RT_UNINTERRUPTIBLE s
    else Some s }"

section \<open>Operations\<close>

definition mutex_setup :: "addr \<Rightarrow> kstate \<Rightarrow> kstate option" where
  "mutex_setup mutex s = do {
    let s = ipc_object_init mutex s;
    let s = s\<lparr>k_mutex := (k_mutex s)(mutex \<mapsto> \<lparr>mtx_ceiling_priority = 0xff, mtx_priority = 0xff, mtx_hold = 0,
      mtx_owner = None\<rparr>)\<rparr>;
    upd_obj (Obj mutex) (\<lambda>h. h\<lparr>obj_flag := RT_IPC_FLAG_PRIO\<rparr>) s }"

definition rt_mutex_init :: "addr \<Rightarrow> u8 list \<Rightarrow> u8 \<Rightarrow> kstate \<Rightarrow> (rt_err \<times> kstate) option" where
  "rt_mutex_init mutex nm flag s = do {
    s \<leftarrow> rt_object_init (Obj mutex) RT_Object_Class_Mutex nm s;
    s \<leftarrow> mutex_setup mutex s;
    Some (RT_EOK, s) }"

definition rt_mutex_detach :: "addr \<Rightarrow> kstate \<Rightarrow> (rt_err \<times> kstate) option" where
  "rt_mutex_detach mutex s = do {
    _ \<leftarrow> assert_type (Obj mutex) RT_Object_Class_Mutex s;
    _ \<leftarrow> assert_static (Obj mutex) True s;
    s \<leftarrow> ipc_list_resume_all (SuspendQ mutex) s;
    let s = taken_remove mutex s;
    s \<leftarrow> rt_object_detach (Obj mutex) s;
    Some (RT_EOK, s) }"

text \<open>The thread leaves the queue of the mutex it waits for (it is detached or deleted).\<close>

definition rt_mutex_drop_thread :: "addr \<Rightarrow> addr \<Rightarrow> kstate \<Rightarrow> kstate option" where
  "rt_mutex_drop_thread mutex thread s = do {
    let s = tlist_remove thread s;
    x \<leftarrow> k_mutex s mutex;
    owner \<leftarrow> mtx_owner x;
    o' \<leftarrow> k_thread s owner;
    th \<leftarrow> k_thread s thread;
    let need_update = (th_current_priority o' = th_current_priority th);
    (_, s) \<leftarrow> mutex_update_priority mutex s;
    if need_update then update_owner mutex s else Some s }"

definition rt_mutex_setprioceiling :: "addr option \<Rightarrow> u8 \<Rightarrow> kstate \<Rightarrow> (u8 \<times> kstate) option" where
  "rt_mutex_setprioceiling mutex priority s = (case mutex of
      Some m \<Rightarrow>
        if unat priority < RT_THREAD_PRIORITY_MAX then do {
          x \<leftarrow> k_mutex s m;
          let ret_priority = mtx_ceiling_priority x;
          s \<leftarrow> upd_mutex m (\<lambda>x. x\<lparr>mtx_ceiling_priority := priority\<rparr>) s;
          s \<leftarrow> (if mtx_owner x \<noteq> None then update_owner m s else Some s);
          Some (ret_priority, s)
        } else do { s \<leftarrow> rt_set_errno (- RT_EINVAL) s; Some (0xff, s) }
    | None \<Rightarrow> do { s \<leftarrow> rt_set_errno (- RT_EINVAL) s; Some (0xff, s) })"

definition rt_mutex_getprioceiling :: "addr option \<Rightarrow> kstate \<Rightarrow> u8 option" where
  "rt_mutex_getprioceiling mutex s = (case mutex of
      Some m \<Rightarrow> do { x \<leftarrow> k_mutex s m; Some (mtx_ceiling_priority x) }
    | None \<Rightarrow> Some 0xff)"

definition rt_mutex_create :: "addr option \<Rightarrow> u8 list \<Rightarrow> u8 \<Rightarrow> kstate \<Rightarrow> (addr option \<times> kstate) option" where
  "rt_mutex_create mem nm flag s = do {
    _ \<leftarrow> RT_DEBUG_NOT_IN_INTERRUPT s;
    (a, s) \<leftarrow> rt_object_allocate mem RT_Object_Class_Mutex nm s;
    case a of
      None \<Rightarrow> Some (None, s)
    | Some mutex \<Rightarrow> do { s \<leftarrow> mutex_setup mutex s; Some (Some mutex, s) } }"

definition rt_mutex_delete :: "addr \<Rightarrow> kstate \<Rightarrow> (rt_err \<times> kstate) option" where
  "rt_mutex_delete mutex s = do {
    _ \<leftarrow> assert_type (Obj mutex) RT_Object_Class_Mutex s;
    _ \<leftarrow> assert_static (Obj mutex) False s;
    _ \<leftarrow> RT_DEBUG_NOT_IN_INTERRUPT s;
    s \<leftarrow> ipc_list_resume_all (SuspendQ mutex) s;
    let s = taken_remove mutex s;
    s \<leftarrow> rt_object_delete (Obj mutex) s;
    Some (RT_EOK, s) }"

text \<open>The three cases of \<open>_rt_mutex_take\<close>: held by the caller, free, held by another thread.\<close>

definition mutex_again :: "addr \<Rightarrow> rt_mutex \<Rightarrow> kstate \<Rightarrow> (rt_err outcome \<times> kstate) option" where
  "mutex_again mutex x s =
    (if mtx_hold x < RT_MUTEX_HOLD_MAX then do {
       s \<leftarrow> upd_mutex mutex (\<lambda>x. x\<lparr>mtx_hold := mtx_hold x + 1\<rparr>) s;
       Some (Return RT_EOK, s)
     } else Some (Return (- RT_EFULL), s))"

definition mutex_acquire :: "addr \<Rightarrow> addr \<Rightarrow> int \<Rightarrow> kstate \<Rightarrow> (rt_err outcome \<times> kstate) option" where
  "mutex_acquire mutex thread suspend_flag s = do {
    s \<leftarrow> upd_mutex mutex (\<lambda>x. x\<lparr>mtx_priority := 0xff, mtx_hold := 1, mtx_owner := Some thread\<rparr>) s;
    x \<leftarrow> k_mutex s mutex;
    th \<leftarrow> k_thread s thread;
    s \<leftarrow> (if mtx_ceiling_priority x \<noteq> 0xff \<and> mtx_ceiling_priority x < th_current_priority th
          then thread_update_priority thread (mtx_ceiling_priority x) suspend_flag s else Some s);
    Some (Return RT_EOK, taken_insert thread mutex s) }"

text \<open>A thread of this priority has joined the queue: the owner inherits the priority.\<close>

definition mutex_inherit :: "addr \<Rightarrow> addr \<Rightarrow> u8 \<Rightarrow> kstate \<Rightarrow> kstate option" where
  "mutex_inherit mutex owner priority s = do {
    x \<leftarrow> k_mutex s mutex;
    if priority < mtx_priority x then do {
      s \<leftarrow> upd_mutex mutex (\<lambda>x. x\<lparr>mtx_priority := priority\<rparr>) s;
      o' \<leftarrow> k_thread s owner;
      if priority < th_current_priority o' then thread_update_priority owner priority RT_UNINTERRUPTIBLE s
      else Some s
    } else Some s }"

definition mutex_wait :: "addr \<Rightarrow> addr \<Rightarrow> addr \<Rightarrow> u32 \<Rightarrow> int \<Rightarrow> kstate \<Rightarrow> (rt_err outcome \<times> kstate) option" where
  "mutex_wait mutex owner thread timeout suspend_flag s =
    (if timeout = 0 then do {
       s \<leftarrow> upd_thread thread (\<lambda>th. th\<lparr>th_error := - RT_ETIMEOUT\<rparr>) s;
       Some (Return (- RT_ETIMEOUT), s)
     } else do {
       th \<leftarrow> k_thread s thread;
       let priority = th_current_priority th;
       h \<leftarrow> k_obj s (Obj mutex);
       (ret, s) \<leftarrow> ipc_list_suspend (SuspendQ mutex) thread (obj_flag h) suspend_flag s;
       if ret \<noteq> RT_EOK then Some (Return ret, s)
       else do {
         s \<leftarrow> upd_thread thread (\<lambda>th. th\<lparr>th_pending_object := Some mutex\<rparr>) s;
         s \<leftarrow> mutex_inherit mutex owner priority s;
         s \<leftarrow> wait_timer thread timeout s;
         s \<leftarrow> rt_schedule s;
         Some (Blocked, s) } })"

definition mutex_take :: "addr \<Rightarrow> u32 \<Rightarrow> int \<Rightarrow> kstate \<Rightarrow> (rt_err outcome \<times> kstate) option" where
  "mutex_take mutex timeout suspend_flag s = do {
    _ \<leftarrow> RT_DEBUG_SCHEDULER_AVAILABLE True s;
    _ \<leftarrow> assert_type (Obj mutex) RT_Object_Class_Mutex s;
    thread \<leftarrow> rt_thread_self s;
    s \<leftarrow> upd_thread thread (\<lambda>th. th\<lparr>th_error := RT_EOK\<rparr>) s;
    x \<leftarrow> k_mutex s mutex;
    if mtx_owner x = Some thread then mutex_again mutex x s
    else case mtx_owner x of
      None \<Rightarrow> mutex_acquire mutex thread suspend_flag s
    | Some owner \<Rightarrow> mutex_wait mutex owner thread timeout suspend_flag s }"

text \<open>The blocked thread when it runs again: without an error it owns the mutex.\<close>

definition mutex_take_resume :: "addr \<Rightarrow> addr \<Rightarrow> kstate \<Rightarrow> (rt_err \<times> kstate) option" where
  "mutex_take_resume mutex thread s = do {
    th \<leftarrow> k_thread s thread;
    if th_error th = RT_EOK then Some (RT_EOK, s)
    else do {
      x \<leftarrow> k_mutex s mutex;
      owner \<leftarrow> mtx_owner x;
      o' \<leftarrow> k_thread s owner;
      let need_update = (th_current_priority o' = th_current_priority th);
      (_, s) \<leftarrow> mutex_update_priority mutex s;
      s \<leftarrow> (if need_update then update_owner mutex s else Some s);
      th \<leftarrow> k_thread s thread;
      Some (th_error th, s) } }"

definition rt_mutex_take :: "addr \<Rightarrow> u32 \<Rightarrow> kstate \<Rightarrow> (rt_err outcome \<times> kstate) option" where
  "rt_mutex_take mutex time s = mutex_take mutex time RT_UNINTERRUPTIBLE s"

definition rt_mutex_take_interruptible :: "addr \<Rightarrow> u32 \<Rightarrow> kstate \<Rightarrow> (rt_err outcome \<times> kstate) option" where
  "rt_mutex_take_interruptible mutex time s = mutex_take mutex time RT_INTERRUPTIBLE s"

definition rt_mutex_take_killable :: "addr \<Rightarrow> u32 \<Rightarrow> kstate \<Rightarrow> (rt_err outcome \<times> kstate) option" where
  "rt_mutex_take_killable mutex time s = mutex_take mutex time RT_KILLABLE s"

definition rt_mutex_trytake :: "addr \<Rightarrow> kstate \<Rightarrow> (rt_err outcome \<times> kstate) option" where
  "rt_mutex_trytake mutex s = rt_mutex_take mutex RT_WAITING_NO s"

text \<open>Handing the released mutex to its first waiting thread, or leaving it free; the flag says
  whether a scheduling step is needed.\<close>

definition mutex_pass_on :: "addr \<Rightarrow> bool \<Rightarrow> kstate \<Rightarrow> (bool \<times> kstate) option" where
  "mutex_pass_on mutex need_schedule s = (case k_list s (SuspendQ mutex) of
      next_thread # _ \<Rightarrow> do {
        let s = tlist_remove next_thread s;
        s \<leftarrow> upd_mutex mutex (\<lambda>x. x\<lparr>mtx_hold := 1, mtx_owner := Some next_thread\<rparr>) s;
        let s = taken_insert next_thread mutex s;
        s \<leftarrow> upd_thread next_thread (\<lambda>th. th\<lparr>th_pending_object := None\<rparr>) s;
        (_, s) \<leftarrow> rt_thread_resume next_thread s;
        (_, s) \<leftarrow> mutex_update_priority mutex s;
        Some (True, s)
      }
    | [] \<Rightarrow> do {
        s \<leftarrow> upd_mutex mutex (\<lambda>x. x\<lparr>mtx_priority := 0xff, mtx_owner := None\<rparr>) s;
        Some (need_schedule, s) })"

text \<open>Dropping the priority the released mutex had given to its owner.\<close>

definition mutex_restore :: "addr \<Rightarrow> addr \<Rightarrow> kstate \<Rightarrow> (bool \<times> kstate) option" where
  "mutex_restore mutex thread s = do {
    x \<leftarrow> k_mutex s mutex;
    th \<leftarrow> k_thread s thread;
    if mtx_ceiling_priority x \<noteq> 0xff \<or> th_current_priority th = mtx_priority x then do {
      priority \<leftarrow> thread_get_mutex_priority thread s;
      s \<leftarrow> change_priority thread priority s;
      Some (True, s)
    } else Some (False, s) }"

definition rt_mutex_release :: "addr \<Rightarrow> kstate \<Rightarrow> (rt_err \<times> kstate) option" where
  "rt_mutex_release mutex s = do {
    _ \<leftarrow> assert_type (Obj mutex) RT_Object_Class_Mutex s;
    _ \<leftarrow> RT_DEBUG_IN_THREAD_CONTEXT s;
    thread \<leftarrow> rt_thread_self s;
    x \<leftarrow> k_mutex s mutex;
    if mtx_owner x \<noteq> Some thread then do {
      s \<leftarrow> upd_thread thread (\<lambda>th. th\<lparr>th_error := - RT_ERROR\<rparr>) s;
      Some (- RT_ERROR, s)
    } else do {
      s \<leftarrow> upd_mutex mutex (\<lambda>x. x\<lparr>mtx_hold := mtx_hold x - 1\<rparr>) s;
      x \<leftarrow> k_mutex s mutex;
      if mtx_hold x \<noteq> 0 then Some (RT_EOK, s)
      else do {
        let s = taken_remove mutex s;
        (need_schedule, s) \<leftarrow> mutex_restore mutex thread s;
        (need_schedule, s) \<leftarrow> mutex_pass_on mutex need_schedule s;
        s \<leftarrow> (if need_schedule then rt_schedule s else Some s);
        Some (RT_EOK, s) } } }"

definition rt_mutex_control :: "addr \<Rightarrow> int \<Rightarrow> kstate \<Rightarrow> (rt_err \<times> kstate) option" where
  "rt_mutex_control mutex cmd s = do {
    _ \<leftarrow> assert_type (Obj mutex) RT_Object_Class_Mutex s;
    Some (- RT_ERROR, s) }"

end
