(* ===== verification/MutexPrio.thy ===== *)
theory MutexPrio
  imports Mutex
begin

text \<open>
  Priority inheritance: the invariant that every thread has the priority it deserves, the
  highest of its own and those of the mutexes it holds, and that updating the priority of one
  thread restores it along the whole chain of owners, however long, and ends when the chain does
  or when the priority is raised.
\<close>

section \<open>The priority a thread deserves\<close>

definition mutex_level :: "rt_mutex \<Rightarrow> u8" where
  "mutex_level x = min (mtx_priority x) (mtx_ceiling_priority x)"

definition held_priority :: "(addr \<rightharpoonup> rt_mutex) \<Rightarrow> u8 \<Rightarrow> addr list \<Rightarrow> u8" where
  "held_priority ms p l = Min (insert p ((\<lambda>m. mutex_level (the (ms m))) ` set l))"

lemma taken_priority_Min:
  "(\<And>m. m \<in> set l \<Longrightarrow> ms m \<noteq> None) \<Longrightarrow> taken_priority ms p l = Some (held_priority ms p l)"
proof (induction l arbitrary: p)
  case (Cons m l)
  from Cons.prems [of m] obtain x where x: "ms m = Some x" by auto
  have e: "(if p > (if mtx_priority x < mtx_ceiling_priority x then mtx_priority x else mtx_ceiling_priority x)
      then (if mtx_priority x < mtx_ceiling_priority x then mtx_priority x else mtx_ceiling_priority x) else p) =
    min p (mutex_level x)" by (auto simp: mutex_level_def min_def)
  let ?S = "(\<lambda>m. mutex_level (the (ms m))) ` set l"
  have "held_priority ms (min p (mutex_level x)) l = held_priority ms p (m # l)"
  proof (cases "?S = {}")
    case True
    then show ?thesis using x by (simp add: held_priority_def)
  next
    case False
    then show ?thesis using x by (simp add: held_priority_def min.assoc)
  qed
  with Cons x e show ?case by (simp add: Let_def)
qed (simp add: held_priority_def)

lemma held_priority_le: "held_priority ms p l \<le> p"
  by (simp add: held_priority_def)

lemma held_priority_cong:
  "(\<And>m. m \<in> set l \<Longrightarrow> mutex_level (the (ms' m)) = mutex_level (the (ms m))) \<Longrightarrow> set l' = set l \<Longrightarrow>
   held_priority ms' p l' = held_priority ms p l"
  by (simp add: held_priority_def cong: image_cong)

definition deserved :: "kstate \<Rightarrow> addr \<Rightarrow> rt_thread \<Rightarrow> u8" where
  "deserved s t th = held_priority (k_mutex s) (th_init_priority th) (k_taken s t)"

section \<open>The invariant\<close>

definition prio_sorted :: "kstate \<Rightarrow> addr list \<Rightarrow> bool" where
  "prio_sorted s q \<longleftrightarrow> sorted (map (prio_of (k_thread s)) q)"

definition front_priority :: "kstate \<Rightarrow> addr \<Rightarrow> u8" where
  "front_priority s m = (case k_list s (SuspendQ m) of [] \<Rightarrow> 0xff
    | t # _ \<Rightarrow> (case k_thread s t of None \<Rightarrow> 0xff | Some th \<Rightarrow> th_current_priority th))"

text \<open>A mutex: its header, its sorted queue of threads that wait for it, and its priority.\<close>

definition mutex_sane :: "kstate \<Rightarrow> addr \<Rightarrow> rt_mutex \<Rightarrow> bool" where
  "mutex_sane s m x \<longleftrightarrow> is_class (Obj m) RT_Object_Class_Mutex s \<and> ipc_flag s m = RT_IPC_FLAG_PRIO \<and>
    mtx_priority x = front_priority s m \<and> prio_sorted s (k_list s (SuspendQ m)) \<and>
    (\<forall>t \<in> set (k_list s (SuspendQ m)). \<exists>th. k_thread s t = Some th \<and> th_pending_object th = Some m) \<and>
    (case mtx_owner x of None \<Rightarrow> k_list s (SuspendQ m) = []
      | Some w \<Rightarrow> \<exists>h. k_thread s w = Some h \<and> state_of h \<noteq> RT_THREAD_CLOSE)"

definition mutexes_ok :: "kstate \<Rightarrow> bool" where
  "mutexes_ok s \<longleftrightarrow> (\<forall>m x. k_mutex s m = Some x \<longrightarrow> mutex_sane s m x)"

text \<open>The lists of held mutexes are the owner fields.\<close>

definition taken_ok :: "kstate \<Rightarrow> bool" where
  "taken_ok s \<longleftrightarrow> separate (k_taken s) \<and>
    (\<forall>t m. m \<in> set (k_taken s t) \<longleftrightarrow> (\<exists>x. k_mutex s m = Some x \<and> mtx_owner x = Some t))"

text \<open>A suspended thread with a pending mutex is in the queue of it; the pointer is not dangling.\<close>

definition waits_on :: "kstate \<Rightarrow> addr \<Rightarrow> addr \<Rightarrow> bool" where
  "waits_on s t m \<longleftrightarrow> (\<exists>th. k_thread s t = Some th \<and> suspended th \<and> th_pending_object th = Some m) \<and>
    is_class (Obj m) RT_Object_Class_Mutex s"

definition pending_ok :: "kstate \<Rightarrow> bool" where
  "pending_ok s \<longleftrightarrow> (\<forall>t m. waits_on s t m \<longrightarrow> k_mutex s m \<noteq> None \<and> t \<in> set (k_list s (SuspendQ m))) \<and>
    (\<forall>t th m. k_thread s t = Some th \<longrightarrow> suspended th \<longrightarrow> th_pending_object th = Some m \<longrightarrow> k_obj s (Obj m) \<noteq> None)"

definition priorities_ok :: "addr set \<Rightarrow> kstate \<Rightarrow> bool" where
  "priorities_ok T s \<longleftrightarrow> (\<forall>t th. k_thread s t = Some th \<longrightarrow> unat (th_init_priority th) < 32 \<and>
    (t \<notin> T \<longrightarrow> th_current_priority th = deserved s t th))"

text \<open>All of it, with the threads in \<open>T\<close> about to be given their priority.\<close>

definition pi_inv :: "addr set \<Rightarrow> kstate \<Rightarrow> bool" where
  "pi_inv T s \<longleftrightarrow> mutexes_ok s \<and> taken_ok s \<and> pending_ok s \<and> priorities_ok T s"

lemma pi_invD:
  assumes "pi_inv T s"
  shows "k_mutex s m = Some x \<Longrightarrow> mutex_sane s m x" "separate (k_taken s)"
    "m \<in> set (k_taken s t) \<longleftrightarrow> (\<exists>x. k_mutex s m = Some x \<and> mtx_owner x = Some t)"
    "waits_on s t m \<Longrightarrow> k_mutex s m \<noteq> None \<and> t \<in> set (k_list s (SuspendQ m))"
    "k_thread s t = Some th \<Longrightarrow> unat (th_init_priority th) < 32"
    "k_thread s t = Some th \<Longrightarrow> t \<notin> T \<Longrightarrow> th_current_priority th = deserved s t th"
    "k_thread s t = Some th \<Longrightarrow> suspended th \<Longrightarrow> th_pending_object th = Some m \<Longrightarrow> k_obj s (Obj m) \<noteq> None"
  using assms unfolding pi_inv_def mutexes_ok_def taken_ok_def pending_ok_def priorities_ok_def by blast+

lemma pi_inv_settled:
  assumes "pi_inv {w} s" and "k_thread s w = Some hw" and "th_current_priority hw = deserved s w hw"
  shows "pi_inv {} s"
proof -
  have "priorities_ok {} s"
    unfolding priorities_ok_def
  proof (intro allI impI conjI)
    fix t th assume t: "k_thread s t = Some th"
    show "unat (th_init_priority th) < 32" by (rule pi_invD(5) [OF assms(1) t])
    show "th_current_priority th = deserved s t th"
      using pi_invD(6) [OF assms(1) t] assms(2,3) t by (cases "t = w") simp_all
  qed
  with assms(1) show ?thesis by (simp add: pi_inv_def)
qed

lemma mutex_saneD:
  assumes "mutex_sane s m x"
  shows "is_class (Obj m) RT_Object_Class_Mutex s" "ipc_flag s m = RT_IPC_FLAG_PRIO"
    "mtx_priority x = front_priority s m" "prio_sorted s (k_list s (SuspendQ m))"
    "t \<in> set (k_list s (SuspendQ m)) \<Longrightarrow> \<exists>th. k_thread s t = Some th \<and> th_pending_object th = Some m"
    "mtx_owner x = None \<Longrightarrow> k_list s (SuspendQ m) = []"
    "mtx_owner x = Some w \<Longrightarrow> \<exists>h. k_thread s w = Some h \<and> state_of h \<noteq> RT_THREAD_CLOSE"
  using assms unfolding mutex_sane_def by (simp_all split: option.splits)

lemma get_mutex_priority:
  assumes "pi_inv T s" and "k_thread s t = Some th"
  shows "thread_get_mutex_priority t s = Some (deserved s t th)"
proof -
  have "k_mutex s m \<noteq> None" if "m \<in> set (k_taken s t)" for m using pi_invD(3) [OF assms(1)] that by auto
  with assms(2) show ?thesis by (simp add: thread_get_mutex_priority_def taken_priority_Min deserved_def)
qed

lemma deserved_small:
  assumes "pi_inv T s" and "k_thread s t = Some th"
  shows "unat (deserved s t th) < 32"
proof -
  have "unat (deserved s t th) \<le> unat (th_init_priority th)"
    using held_priority_le unfolding deserved_def by (simp only: word_le_nat_alt)
  with pi_invD(5) [OF assms] show ?thesis by linarith
qed

text \<open>The chain of owners of a thread: each thread waits for a mutex the next one holds.\<close>

fun owner_chain :: "kstate \<Rightarrow> addr \<Rightarrow> addr list \<Rightarrow> bool" where
  "owner_chain s t [] \<longleftrightarrow> (\<forall>m. \<not> waits_on s t m)"
| "owner_chain s t (w # ws) \<longleftrightarrow>
    (\<exists>m x. waits_on s t m \<and> k_mutex s m = Some x \<and> mtx_owner x = Some w) \<and> owner_chain s w ws"

lemma waits_on_unique: "waits_on s t m \<Longrightarrow> waits_on s t m' \<Longrightarrow> m' = m"
  by (auto simp: waits_on_def)

lemma owner_chain_unique: "owner_chain s t ws \<Longrightarrow> owner_chain s t ws' \<Longrightarrow> ws' = ws"
proof (induction ws arbitrary: t ws')
  case Nil
  then show ?case by (cases ws') auto
next
  case (Cons w ws)
  from Cons.prems obtain m x where m: "waits_on s t m" "k_mutex s m = Some x" "mtx_owner x = Some w" "owner_chain s w ws"
    by auto
  from Cons.prems(2) m(1) obtain w' us where ws': "ws' = w' # us" by (cases ws') auto
  with Cons.prems(2) obtain m' x' where "waits_on s t m'" "k_mutex s m' = Some x'" "mtx_owner x' = Some w'" "owner_chain s w' us"
    by auto
  with m waits_on_unique [OF m(1)] have "w' = w" "owner_chain s w us" by auto
  with Cons.IH [OF m(4)] ws' show ?case by simp
qed

text \<open>No thread is its own successor in a chain that ends.\<close>

lemma owner_chain_neq: "owner_chain s t (w # ws) \<Longrightarrow> w \<noteq> t"
  using owner_chain_unique [of s t "w # ws" ws] by auto

section \<open>Moving a thread in the queue it waits in\<close>

lemma requeue_spec:
  assumes kw: "kwf s" and th: "k_thread s t = Some th" "suspended th" and t: "t \<in> set (k_list s l)" and l: "is_waitq l"
  shows "\<exists>s'. ipc_list_suspend l t RT_IPC_FLAG_PRIO sf (tlist_remove t s) = Some (RT_EOK, s') \<and> kwf s' \<and>
    s' = s\<lparr>k_list := (k_list s)(l := prio_insert (prio_of (k_thread s)) t (remove1 t (k_list s l)))\<rparr>"
proof -
  note k = kwfD(1) [OF kw]
  note i = kinvD(5) [OF k, of "{}"]
  note sep = inv_outD(1) [OF i]
  have nr: "state_of th \<noteq> RT_THREAD_READY" using suspended_no_ready [OF th(2)] by simp
  let ?s1 = "tlist_remove t s"
  note u = inv_out_unlink [OF i th(1) nr]
  have l1: "k_list ?s1 = (k_list s)(l := remove1 t (k_list s l))"
  proof (rule ext)
    fix m show "k_list ?s1 m = ((k_list s)(l := remove1 t (k_list s l))) m"
      using waitq_head_only [OF k t, of m] by (simp add: tlist_remove_def al_remove_def)
  qed
  have f1: "k_thread ?s1 = k_thread s" "k_obj ?s1 = k_obj s" "k_timer ?s1 = k_timer s" "k_timers ?s1 = k_timers s"
    "rt_current_thread ?s1 = rt_current_thread s"
    by (simp_all add: tlist_remove_def)
  have k1: "kinv ?s1"
    by (rule kinv_one_thread [OF k th(1) u(1), of th]) (use f1 th suspended_no_ready [OF th(2)] in auto)
  let ?q = "prio_insert (prio_of (k_thread s)) t (remove1 t (k_list s l))"
  let ?s2 = "?s1\<lparr>k_list := (k_list ?s1)(l := ?q)\<rparr>"
  have sep1: "separate (k_list ?s1)" by (rule inv_outD(1) [OF u(1)])
  have live: "k_thread ?s1 p \<noteq> None" if "p \<in> set (k_list ?s1 l)" for p
    using waitq_suspended [OF k1 l that] by auto
  have f: "find_lower (k_thread ?s1) (th_current_priority th) (k_list ?s1 l)
      = Some (find (\<lambda>p. prio_of (k_thread ?s1) t < prio_of (k_thread ?s1) p) (k_list ?s1 l))"
    by (rule find_lower_find) (use live th f1 in simp_all)
  have "k_list (case find (\<lambda>p. prio_of (k_thread ?s1) t < prio_of (k_thread ?s1) p) (k_list ?s1 l) of
      None \<Rightarrow> tlist_tail l t ?s1 | Some p \<Rightarrow> tlist_before p t ?s1) = (k_list ?s1)(l := ?q)"
    using tl.rep_prio [where s = ?s1 and f = "k_list ?s1" and n = t and key = "prio_of (k_thread ?s1)" and l = l] sep1 u(2)
    by (simp add: f1(1) l1)
  then have m: "(case find (\<lambda>p. prio_of (k_thread ?s1) t < prio_of (k_thread ?s1) p) (k_list ?s1 l) of
      None \<Rightarrow> tlist_tail l t ?s1 | Some p \<Rightarrow> tlist_before p t ?s1) = ?s2"
    by (auto simp: tlist_tail_def tlist_before_def split: option.splits)
  have th1: "k_thread ?s1 t = Some th" using th f1 by simp
  have "ipc_list_suspend l t RT_IPC_FLAG_PRIO sf ?s1 = Some (RT_EOK, ?s2)"
    using th1 th(2) f m by (auto simp: ipc_list_suspend_def split: option.splits)
  moreover have lq: "(k_list ?s1)(l := ?q) = (k_list s)(l := ?q)" by (simp add: l1)
  have "?s2 = s\<lparr>k_list := (k_list s)(l := ?q)\<rparr>" unfolding lq by (simp add: tlist_remove_def)
  moreover have "kwf ?s2"
  proof -
    have "kinv ?s2"
      by (rule kinv_enqueue [OF k1 u(2) th1 th(2) l])
        (use separate_distinct [OF sep, of l] in \<open>auto simp: l1 intro!: distinct_prio_insert\<close>)
    moreover have "thread_timers ?s2" using kwfD(2) [OF kw] f1 by (simp add: thread_timers_def)
    moreover have "armed_ok ?s2" using kwfD(3) [OF kw] f1 by (simp add: armed_ok_def)
    ultimately show ?thesis by (simp add: kwf_def)
  qed
  ultimately show ?thesis by auto
qed

section \<open>Restoring the priorities along the chain\<close>

text \<open>What the update leaves alone.\<close>

definition reranked :: "kstate \<Rightarrow> kstate \<Rightarrow> bool" where
  "reranked s s' \<longleftrightarrow> k_obj s' = k_obj s \<and> k_timer s' = k_timer s \<and> k_timers s' = k_timers s \<and> k_taken s' = k_taken s \<and>
    rt_current_thread s' = rt_current_thread s \<and> k_sem s' = k_sem s \<and> k_event s' = k_event s \<and> k_mb s' = k_mb s \<and>
    k_mq s' = k_mq s \<and> rt_tick s' = rt_tick s \<and> rt_scheduler_lock_nest s' = rt_scheduler_lock_nest s \<and>
    rt_interrupt_nest s' = rt_interrupt_nest s \<and> k_container s' = k_container s \<and>
    (\<forall>l. (\<forall>q. l \<noteq> ReadyQ q) \<longrightarrow> set (k_list s' l) = set (k_list s l)) \<and>
    (\<forall>m. map_option mtx_owner (k_mutex s' m) = map_option mtx_owner (k_mutex s m) \<and>
      map_option mtx_hold (k_mutex s' m) = map_option mtx_hold (k_mutex s m) \<and>
      map_option mtx_ceiling_priority (k_mutex s' m) = map_option mtx_ceiling_priority (k_mutex s m)) \<and>
    (\<forall>u. k_thread s' u = k_thread s u \<or>
      (\<exists>th q. k_thread s u = Some th \<and> k_thread s' u = Some (set_priority q th)))"

lemma set_priority_twice [simp]: "set_priority p (set_priority q th) = set_priority p th"
  by (simp add: set_priority_def Let_def)

lemma reranked_refl [simp]: "reranked s s"
  by (simp add: reranked_def)

lemma reranked_thread:
  "reranked s s' \<Longrightarrow> k_thread s u = Some th \<Longrightarrow> k_thread s' u = Some th \<or> (\<exists>q. k_thread s' u = Some (set_priority q th))"
  unfolding reranked_def by (metis option.inject)

lemma reranked_trans:
  assumes a: "reranked s s1" and b: "reranked s1 s2"
  shows "reranked s s2"
proof -
  have "k_thread s2 u = k_thread s u \<or> (\<exists>th q. k_thread s u = Some th \<and> k_thread s2 u = Some (set_priority q th))" for u
  proof (cases "k_thread s u")
    case None
    then have "k_thread s1 u = None" using a unfolding reranked_def by (metis option.distinct(1))
    then have "k_thread s2 u = None" using b unfolding reranked_def by (metis option.distinct(1))
    with None show ?thesis by simp
  next
    case (Some th)
    from reranked_thread [OF a Some] reranked_thread [OF b, of u] Some show ?thesis by fastforce
  qed
  with a b show ?thesis unfolding reranked_def by simp
qed

lemma mutex_queue_member:
  assumes "pi_inv T s" and kw: "kwf s" and "k_mutex s m = Some x" and "t \<in> set (k_list s (SuspendQ m))"
  shows "waits_on s t m"
proof -
  from pi_invD(1) [OF assms(1,3)] have sane: "mutex_sane s m x" .
  from mutex_saneD(5) [OF sane assms(4)] waitq_suspended [OF kwfD(1) [OF kw] is_waitq_simps(1) assms(4)]
  show ?thesis using mutex_saneD(1) [OF sane] by (auto simp: waits_on_def)
qed

lemma front_priority_cong:
  assumes "k_list s' (SuspendQ m) = k_list s (SuspendQ m)"
    and "\<And>u. u \<in> set (k_list s (SuspendQ m)) \<Longrightarrow> k_thread s' u = k_thread s u"
  shows "front_priority s' m = front_priority s m" "prio_sorted s' (k_list s' (SuspendQ m)) = prio_sorted s (k_list s (SuspendQ m))"
proof -
  have "map (prio_of (k_thread s')) (k_list s (SuspendQ m)) = map (prio_of (k_thread s)) (k_list s (SuspendQ m))"
    using assms(2) by (simp add: prio_of_def)
  then show "prio_sorted s' (k_list s' (SuspendQ m)) = prio_sorted s (k_list s (SuspendQ m))"
    by (simp only: prio_sorted_def assms(1))
  show "front_priority s' m = front_priority s m"
    using assms by (auto simp: front_priority_def split: list.split)
qed

text \<open>The queues of the mutexes in which the thread does not wait are as sane as before.\<close>

lemma mutex_sane_outside:
  assumes pi: "pi_inv T s" and th: "k_thread s t = Some th"
    and e: "k_thread s' = (k_thread s)(t \<mapsto> set_priority p th)" "k_obj s' = k_obj s"
    and m: "k_mutex s m = Some x" "k_list s' (SuspendQ m) = k_list s (SuspendQ m)" and n: "t \<notin> set (k_list s (SuspendQ m))"
  shows "mutex_sane s' m x"
proof -
  have q: "k_thread s' u = k_thread s u" if "u \<in> set (k_list s (SuspendQ m))" for u using that e(1) n by auto
  note sane = pi_invD(1) [OF pi m(1)]
  have "ipc_flag s' m = ipc_flag s m" "is_class (Obj m) c s' = is_class (Obj m) c s" for c
    by (simp_all add: e(2) ipc_flag_def is_class_def)
  moreover have "\<exists>h. k_thread s' w = Some h \<and> state_of h \<noteq> RT_THREAD_CLOSE" if "mtx_owner x = Some w" for w
    using mutex_saneD(7) [OF sane that] th e(1) by (cases "w = t") auto
  ultimately show ?thesis
    using mutex_saneD(1-6) [OF sane] front_priority_cong [OF m(2) q] m(2) q
    unfolding mutex_sane_def by (auto split: option.split)
qed

lemma mutex_sane_other:
  assumes pi: "pi_inv T s" and kw: "kwf s" and th: "k_thread s t = Some th"
    and e: "k_thread s' = (k_thread s)(t \<mapsto> set_priority p th)" "k_obj s' = k_obj s"
    and m: "k_mutex s m = Some x" "k_list s' (SuspendQ m) = k_list s (SuspendQ m)" and n: "\<not> waits_on s t m"
  shows "mutex_sane s' m x"
proof -
  have "t \<notin> set (k_list s (SuspendQ m))" using mutex_queue_member [OF pi kw m(1), of t] n by blast
  then show ?thesis by (rule mutex_sane_outside [OF pi th e m])
qed

lemma waits_on_set_priority:
  assumes "k_thread s t = Some th" and "k_thread s' = (k_thread s)(t \<mapsto> set_priority p th)" and "k_obj s' = k_obj s"
  shows "waits_on s' u m = waits_on s u m"
  using assms by (auto simp: waits_on_def is_class_def)

lemma priorities_set_priority:
  assumes pi: "pi_inv (insert t T) s" and th: "k_thread s t = Some th"
    and e: "k_thread s' = (k_thread s)(t \<mapsto> set_priority p th)" "k_taken s' = k_taken s"
    and mx: "\<And>u m. u \<notin> T' \<Longrightarrow> m \<in> set (k_taken s u) \<Longrightarrow> k_mutex s' m = k_mutex s m"
    and p: "t \<in> T' \<or> p = deserved s t th" and T: "T \<subseteq> T'"
  shows "priorities_ok T' s'"
  unfolding priorities_ok_def
proof (intro allI impI conjI)
  fix u h assume h: "k_thread s' u = Some h"
  show "unat (th_init_priority h) < 32" using h pi_invD(5) [OF pi] th e(1) by (auto split: if_splits)
  assume u: "u \<notin> T'"
  have d: "deserved s' u h = held_priority (k_mutex s) (th_init_priority h) (k_taken s u)"
    unfolding deserved_def e(2) by (rule held_priority_cong) (use mx [OF u] in auto)
  show "th_current_priority h = deserved s' u h"
  proof (cases "u = t")
    case True
    then have "h = set_priority p th" using h e(1) by simp
    with True p u d show ?thesis by (simp add: deserved_def)
  next
    case False
    with h e(1) pi_invD(6) [OF pi, of u h] u T d show ?thesis by (auto simp: deserved_def)
  qed
qed

lemma round_free_inv:
  assumes pi: "pi_inv {t} s" and kw: "kwf s" and th: "k_thread s t = Some th"
    and r: "repriorised t p s s'" and p: "p = deserved s t th" and n: "\<And>m. \<not> waits_on s t m"
  shows "pi_inv {} s'" "reranked s s'"
proof -
  note d = repriorisedD [OF r th]
  have same: "k_mutex s' = k_mutex s" "k_taken s' = k_taken s" using ipc_sameD [OF d(1)] by simp_all
  have q: "k_list s' (SuspendQ m) = k_list s (SuspendQ m)" for m by (rule d(3)) simp
  have "mutexes_ok s'" unfolding mutexes_ok_def same using mutex_sane_other [OF pi kw th d(4,5) _ q n] by simp
  moreover have "taken_ok s'" using pi by (simp add: pi_inv_def taken_ok_def same)
  moreover have "pending_ok s'"
    unfolding pending_ok_def waits_on_set_priority [OF th d(4,5)] same q d(4,5)
    using pi_invD(4,7) [OF pi] th by auto
  moreover have "priorities_ok {} s'"
    by (rule priorities_set_priority [OF pi th d(4) same(2)]) (use p same in auto)
  ultimately show "pi_inv {} s'" by (simp add: pi_inv_def)
  show "reranked s s'" unfolding reranked_def
    using d th ipc_sameD [OF d(1)] d(1) by (auto simp: ipc_same_def)
qed

text \<open>A round that goes on: the thread waits for the mutex \<open>m\<close>, which the next thread holds.\<close>

lemma sorted_remove1: "sorted (map f xs) \<Longrightarrow> sorted (map f (remove1 x xs))"
proof (induction xs)
  case (Cons a xs)
  then show ?case using set_remove1_subset [of x xs] by auto
qed simp

lemma prio_of_set_priority:
  "k_thread s' = (k_thread s)(t \<mapsto> set_priority p th) \<Longrightarrow> u \<noteq> t \<Longrightarrow> prio_of (k_thread s') u = prio_of (k_thread s) u"
  by (simp add: prio_of_def)

lemma round_waiting_inv:
  assumes pi: "pi_inv {t} s" and kw: "kwf s" and th: "k_thread s t = Some th" and p: "p = deserved s t th"
    and w: "waits_on s t m" and x: "k_mutex s m = Some x" and o: "mtx_owner x = Some w"
    and k: "k_thread s' = (k_thread s)(t \<mapsto> set_priority p th)"
    and l: "\<And>m'. k_list s' (SuspendQ m') = (if m' = m
        then prio_insert (prio_of (k_thread s')) t (remove1 t (k_list s (SuspendQ m))) else k_list s (SuspendQ m'))"
    and mx: "k_mutex s' = (k_mutex s)(m \<mapsto> x\<lparr>mtx_priority := front_priority s' m\<rparr>)"
    and e: "k_obj s' = k_obj s" "k_taken s' = k_taken s"
  shows "pi_inv {w} s'"
proof -
  note sane = pi_invD(1) [OF pi x]
  have tq: "t \<in> set (k_list s (SuspendQ m))" using pi_invD(4) [OF pi w] by simp
  have dq: "distinct (k_list s (SuspendQ m))"
    by (rule separate_distinct [OF inv_outD(1) [OF kinvD(5) [OF kwfD(1) [OF kw], of "{}"]]])
  have setq: "set (k_list s' (SuspendQ m)) = set (k_list s (SuspendQ m))" using tq dq l [of m] by auto
  have other: "mutex_sane s' m' x'" if "k_mutex s m' = Some x'" "m' \<noteq> m" for m' x'
    by (rule mutex_sane_other [OF pi kw th k e(1) that(1)]) (use that l [of m'] waits_on_unique [OF w] in auto)
  have "mutex_sane s' m (x\<lparr>mtx_priority := front_priority s' m\<rparr>)"
  proof -
    have "sorted (map (prio_of (k_thread s)) (remove1 t (k_list s (SuspendQ m))))"
      using sorted_remove1 mutex_saneD(4) [OF sane] by (simp add: prio_sorted_def)
    also have "map (prio_of (k_thread s)) (remove1 t (k_list s (SuspendQ m))) =
        map (prio_of (k_thread s')) (remove1 t (k_list s (SuspendQ m)))"
      using dq by (intro map_cong) (auto simp: prio_of_set_priority [OF k])
    finally have "prio_sorted s' (k_list s' (SuspendQ m))"
      using sorted_prio_insert l [of m] by (simp add: prio_sorted_def)
    moreover have "\<exists>h. k_thread s' u = Some h \<and> th_pending_object h = Some m" if "u \<in> set (k_list s' (SuspendQ m))" for u
      using mutex_saneD(5) [OF sane, of u] that setq th k by (cases "u = t") auto
    moreover have "\<exists>h. k_thread s' w = Some h \<and> state_of h \<noteq> RT_THREAD_CLOSE"
      using mutex_saneD(7) [OF sane o] th k by (cases "w = t") auto
    ultimately show ?thesis
      using mutex_saneD(1,2) [OF sane] o by (simp add: mutex_sane_def is_class_def ipc_flag_def e)
  qed
  with other have "mutexes_ok s'" by (auto simp: mutexes_ok_def mx)
  moreover have "taken_ok s'" using pi x unfolding pi_inv_def taken_ok_def by (auto simp: mx e)
  moreover have "pending_ok s'"
    unfolding pending_ok_def waits_on_set_priority [OF th k e(1)]
  proof (intro allI impI conjI)
    show "k_obj s' (Obj m') \<noteq> None" if "k_thread s' u = Some h" "suspended h" "th_pending_object h = Some m'" for u h m'
      using that pi_invD(7) [OF pi, of u _ m'] pi_invD(7) [OF pi th, of m'] k e(1) by (cases "u = t") auto
    fix u m' assume "waits_on s u m'"
    then show "k_mutex s' m' \<noteq> None" "u \<in> set (k_list s' (SuspendQ m'))"
      using pi_invD(4) [OF pi \<open>waits_on s u m'\<close>] setq l [of m'] by (auto simp: mx)
  qed
  moreover have "priorities_ok {w} s'"
  proof (rule priorities_set_priority [OF _ th k e(2)])
    show "pi_inv (insert t {}) s" using pi by simp
    show "k_mutex s' m' = k_mutex s m'" if "u \<notin> {w}" "m' \<in> set (k_taken s u)" for u m'
      using that pi_invD(3) [OF pi, of m' u] x o by (auto simp: mx)
  qed (use p in simp_all)
  ultimately show ?thesis by (simp add: pi_inv_def)
qed

lemma owner_chain_cong:
  assumes "\<And>u m. u \<in> set (t # ws) \<Longrightarrow> waits_on s' u m = waits_on s u m"
    and "\<And>m. map_option mtx_owner (k_mutex s' m) = map_option mtx_owner (k_mutex s m)"
  shows "owner_chain s' t ws = owner_chain s t ws"
  using assms(1)
proof (induction ws arbitrary: t)
  case (Cons w ws)
  have "(\<exists>x. k_mutex s' m = Some x \<and> mtx_owner x = Some w) \<longleftrightarrow> (\<exists>x. k_mutex s m = Some x \<and> mtx_owner x = Some w)" for m
    using assms(2) [of m] by (auto simp: map_option_case split: option.splits)
  then have "(\<exists>m x. waits_on s' t m \<and> k_mutex s' m = Some x \<and> mtx_owner x = Some w) \<longleftrightarrow>
      (\<exists>m x. waits_on s t m \<and> k_mutex s m = Some x \<and> mtx_owner x = Some w)"
    using Cons.prems [of t] by simp
  with Cons show ?case by simp
qed simp

lemma update_priority_front:
  assumes "k_mutex s m = Some x" and "\<And>t. t \<in> set (k_list s (SuspendQ m)) \<Longrightarrow> k_thread s t \<noteq> None"
  shows "mutex_update_priority m s = Some (front_priority s m,
    s\<lparr>k_mutex := (k_mutex s)(m \<mapsto> x\<lparr>mtx_priority := front_priority s m\<rparr>)\<rparr>)"
proof (cases "k_list s (SuspendQ m)")
  case Nil
  with assms(1) show ?thesis by (simp add: mutex_update_priority_def front_priority_def)
next
  case (Cons a l)
  with assms(2) [of a] obtain h where "k_thread s a = Some h" by auto
  with assms(1) Cons show ?thesis by (simp add: mutex_update_priority_def front_priority_def)
qed

text \<open>The last round: the thread waits for no mutex.\<close>

lemma update_last:
  assumes kw: "kwf s" and pi: "pi_inv {t} s" and th: "k_thread s t = Some th"
    and cl: "state_of th \<noteq> RT_THREAD_CLOSE" and p: "p = deserved s t th" and n: "\<And>m. \<not> waits_on s t m"
  shows "\<exists>s'. thread_update_priority t p sf s = Some s' \<and> kwf s' \<and> pi_inv {} s' \<and> reranked s s'"
proof -
  have "unat p < 32" using deserved_small [OF pi th] p by simp
  from change_priority_spec [OF kw th cl this] obtain s1 where
    s1: "change_priority t p s = Some s1" "kwf s1" "repriorised t p s s1" by blast
  note d = repriorisedD [OF s1(3) th]
  have n1: "\<not> is_class (Obj m) RT_Object_Class_Mutex s1" "k_obj s1 (Obj m) \<noteq> None"
    if "suspended th" "th_pending_object th = Some m" for m
    using n [of m] th that pi_invD(7) [OF pi th that] d(5) by (auto simp: waits_on_def is_class_def)
  have "thread_update_priority t p sf s = Some s1"
    using s1(1) d(4) n1
    by (subst thread_update_priority.simps)
      (auto simp: is_class_def rt_object_get_type_def split: option.splits)
  with s1(2) round_free_inv [OF pi kw th s1(3) p n] show ?thesis by blast
qed

text \<open>A round that goes on with the owner of the mutex the thread waits for.\<close>

definition next_round :: "addr \<Rightarrow> u8 \<Rightarrow> rt_thread \<Rightarrow> addr \<Rightarrow> rt_mutex \<Rightarrow> addr \<Rightarrow> kstate \<Rightarrow> kstate \<Rightarrow> bool" where
  "next_round t p th m x w s s' \<longleftrightarrow> kwf s' \<and> pi_inv {w} s' \<and> reranked s s' \<and>
    k_thread s' = (k_thread s)(t \<mapsto> set_priority p th) \<and>
    k_mutex s' = (k_mutex s)(m \<mapsto> x\<lparr>mtx_priority := front_priority s' m\<rparr>) \<and> k_obj s' = k_obj s \<and> k_taken s' = k_taken s"

lemma next_round_owner:
  assumes "next_round t p th m x w s s'" and "mtx_owner x = Some w"
  shows "\<exists>h. k_thread s' w = Some h \<and> state_of h \<noteq> RT_THREAD_CLOSE"
proof -
  have pi: "pi_inv {w} s'" and m: "k_mutex s' m = Some (x\<lparr>mtx_priority := front_priority s' m\<rparr>)"
    using assms(1) by (simp_all add: next_round_def)
  show ?thesis by (rule mutex_saneD(7) [OF pi_invD(1) [OF pi m]]) (simp add: assms(2))
qed

lemma update_round:
  assumes kw: "kwf s" and pi: "pi_inv {t} s" and th: "k_thread s t = Some th"
    and cl: "state_of th \<noteq> RT_THREAD_CLOSE" and p: "p = deserved s t th"
    and m: "waits_on s t m" "k_mutex s m = Some x" "mtx_owner x = Some w"
  shows "\<exists>s' hw. next_round t p th m x w s s' \<and> k_thread s' w = Some hw \<and> state_of hw \<noteq> RT_THREAD_CLOSE \<and>
    thread_update_priority t p sf s = (if deserved s' w hw \<noteq> th_current_priority hw
      then thread_update_priority w (deserved s' w hw) sf s' else Some s')"
proof -
  have su: "suspended th" "th_pending_object th = Some m" using m(1) th by (auto simp: waits_on_def)
  have "unat p < 32" using deserved_small [OF pi th] p by simp
  from change_priority_spec [OF kw th cl this] obtain s1 where
    s1: "change_priority t p s = Some s1" "kwf s1" "repriorised t p s s1" by blast
  note d = repriorisedD [OF s1(3) th] and same = ipc_sameD [OF repriorisedD(1) [OF s1(3) th]]
  have th1: "k_thread s1 t = Some (set_priority p th)" "suspended (set_priority p th)" using d(4) su by simp_all
  have q1: "k_list s1 (SuspendQ m') = k_list s (SuspendQ m')" for m' by (rule d(3)) simp
  have t1: "t \<in> set (k_list s1 (SuspendQ m))" using pi_invD(4) [OF pi m(1)] q1 by simp
  from requeue_spec [OF s1(2) th1 t1 is_waitq_simps(1), of sf] obtain s2 where
    s2: "ipc_list_suspend (SuspendQ m) t RT_IPC_FLAG_PRIO sf (tlist_remove t s1) = Some (RT_EOK, s2)" "kwf s2"
    and e2: "s2 = s1\<lparr>k_list := (k_list s1)(SuspendQ m := prio_insert (prio_of (k_thread s1)) t (remove1 t (k_list s1 (SuspendQ m))))\<rparr>"
    by blast
  have t2: "k_thread s2 = k_thread s1" "k_mutex s2 = k_mutex s" using same by (simp_all add: e2)
  let ?s3 = "s2\<lparr>k_mutex := (k_mutex s2)(m \<mapsto> x\<lparr>mtx_priority := front_priority s2 m\<rparr>)\<rparr>"
  have mem: "k_thread s2 u \<noteq> None" if "u \<in> set (k_list s2 (SuspendQ m))" for u
    using waitq_suspended [OF kwfD(1) [OF s2(2)] is_waitq_simps(1) that] by auto
  have u3: "mutex_update_priority m s2 = Some (front_priority s2 m, ?s3)"
    by (rule update_priority_front [OF _ mem]) (use m(2) t2 in simp_all)
  have kw3: "kwf ?s3" using kwf_same_ipc [of ?s3 s2] s2(2) by simp
  have fp: "front_priority ?s3 m = front_priority s2 m" by (simp add: front_priority_def split: list.split)
  have k3: "k_thread ?s3 = (k_thread s)(t \<mapsto> set_priority p th)" using d(4) t2 by simp
  have l3: "k_list ?s3 (SuspendQ m') = (if m' = m
      then prio_insert (prio_of (k_thread ?s3)) t (remove1 t (k_list s (SuspendQ m))) else k_list s (SuspendQ m'))" for m'
    using q1 by (simp add: e2)
  have o3: "k_obj ?s3 = k_obj s" "k_taken ?s3 = k_taken s" using d(5) same by (simp_all add: e2)
  have pi3: "pi_inv {w} ?s3"
    by (rule round_waiting_inv [OF pi kw th p m k3 l3 _ o3]) (simp only: fp, simp add: t2)
  have rr3: "reranked s ?s3"
    unfolding reranked_def
  proof (intro conjI allI impI)
    show "set (k_list ?s3 l) = set (k_list s l)" if "\<forall>q. l \<noteq> ReadyQ q" for l
      using that d(3) [of l] t1 q1 by (auto simp: e2 separate_distinct [OF inv_outD(1) [OF kinvD(5) [OF kwfD(1) [OF kw], of "{}"]]])
    show "k_thread ?s3 u = k_thread s u \<or> (\<exists>th q. k_thread s u = Some th \<and> k_thread ?s3 u = Some (set_priority q th))" for u
      using th by (cases "u = t") (auto simp: k3)
  qed (use d same m(2) t2 in \<open>simp_all add: e2 ipc_same_def\<close>)
  have nr: "next_round t p th m x w s ?s3"
    unfolding next_round_def fp using kw3 pi3 rr3 k3 o3 by (simp add: t2)
  from next_round_owner [OF nr m(3)] obtain hw where hw: "k_thread ?s3 w = Some hw" "state_of hw \<noteq> RT_THREAD_CLOSE"
    by blast
  have gp: "thread_get_mutex_priority w ?s3 = Some (deserved ?s3 w hw)" by (rule get_mutex_priority [OF pi3 hw(1)])
  have ty: "rt_object_get_type (Obj m) s1 = Some RT_Object_Class_Mutex"
    using m(1) d(5) by (auto simp: waits_on_def is_class_def rt_object_get_type_def)
  have fl: "\<exists>h. k_obj s1 (Obj m) = Some h \<and> obj_flag h = RT_IPC_FLAG_PRIO"
    using mutex_saneD(1,2) [OF pi_invD(1) [OF pi m(2)]] d(5) by (auto simp: is_class_def ipc_flag_def)
  have step: "thread_update_priority t p sf s = (if deserved ?s3 w hw \<noteq> th_current_priority hw
      then thread_update_priority w (deserved ?s3 w hw) sf ?s3 else Some ?s3)"
    using s1(1) th1 su ty fl s2(1) u3 gp hw(1) m(3)
    by (subst thread_update_priority.simps) (auto simp: t2)
  with nr hw show ?thesis by blast
qed

lemma update_priority_spec:
  assumes "owner_chain s t ws" and "kwf s" and "pi_inv {t} s" and "k_thread s t = Some th"
    and "state_of th \<noteq> RT_THREAD_CLOSE" and "p = deserved s t th"
  shows "\<exists>s'. thread_update_priority t p sf s = Some s' \<and> kwf s' \<and> pi_inv {} s' \<and> reranked s s'"
  using assms
proof (induction ws arbitrary: s t th p)
  case Nil
  then show ?case by (intro update_last) simp_all
next
  case (Cons w ws)
  note th = Cons.prems(4)
  from Cons.prems(1) obtain m x where m: "waits_on s t m" "k_mutex s m = Some x" "mtx_owner x = Some w" "owner_chain s w ws"
    by auto
  from update_round [OF Cons.prems(2-6) m(1-3), of sf] obtain s3 hw where
    nr: "next_round t p th m x w s s3" and hw: "k_thread s3 w = Some hw" "state_of hw \<noteq> RT_THREAD_CLOSE"
    and step: "thread_update_priority t p sf s = (if deserved s3 w hw \<noteq> th_current_priority hw
      then thread_update_priority w (deserved s3 w hw) sf s3 else Some s3)" by blast
  have r: "kwf s3" "pi_inv {w} s3" "reranked s s3" "k_thread s3 = (k_thread s)(t \<mapsto> set_priority p th)" "k_obj s3 = k_obj s"
    "k_mutex s3 = (k_mutex s)(m \<mapsto> x\<lparr>mtx_priority := front_priority s3 m\<rparr>)"
    using nr by (simp_all add: next_round_def)
  have ch: "owner_chain s3 w ws"
    using m(4) owner_chain_cong [of w ws s3 s, OF waits_on_set_priority [OF th r(4,5)]] m(2) by (simp add: r(6))
  show ?case
  proof (cases "deserved s3 w hw = th_current_priority hw")
    case True
    have "pi_inv {} s3" by (rule pi_inv_settled [OF r(2) hw(1) True [symmetric]])
    with step True r(1,3) show ?thesis by auto
  next
    case False
    from Cons.IH [OF ch r(1,2) hw refl] step False reranked_trans [OF r(3)] show ?thesis by auto
  qed
qed

section \<open>Raising, deadlock or not\<close>

text \<open>
  When a priority is raised the chain of owners need not end: on a cycle of threads that wait
  for each other the update stops as well, since every round raises a thread for good.
\<close>

definition total_priority :: "kstate \<Rightarrow> nat" where
  "total_priority s = (\<Sum>t \<in> dom (k_thread s). unat (th_current_priority (the (k_thread s t))))"

lemma total_priority_raised:
  assumes "finite (dom (k_thread s))" and "k_thread s t = Some th" and "p < th_current_priority th"
    and "k_thread s' = (k_thread s)(t \<mapsto> set_priority p th)"
  shows "total_priority s' < total_priority s"
proof -
  have d: "dom (k_thread s') = dom (k_thread s)" using assms(2,4) by auto
  show ?thesis
    unfolding total_priority_def d
    by (rule sum_strict_mono_ex1 [OF assms(1)]) (use assms(2-4) in \<open>auto simp: word_less_nat_alt\<close>)
qed

lemma front_priority_le:
  assumes "prio_sorted s (k_list s (SuspendQ m))" and "u \<in> set (k_list s (SuspendQ m))" and "k_thread s u = Some h"
    and "\<And>v. v \<in> set (k_list s (SuspendQ m)) \<Longrightarrow> k_thread s v \<noteq> None"
  shows "front_priority s m \<le> th_current_priority h"
proof -
  from assms(2) obtain f q where q: "k_list s (SuspendQ m) = f # q" by (cases "k_list s (SuspendQ m)") auto
  with assms(4) [of f] obtain hf where hf: "k_thread s f = Some hf" by auto
  have "prio_of (k_thread s) f \<le> prio_of (k_thread s) u" using assms(1,2) q by (auto simp: prio_sorted_def)
  then show ?thesis using hf assms(3) q by (simp add: prio_of_def prio_def front_priority_def word_le_nat_alt)
qed

text \<open>After a raise the mutex and its owner are no less important than before.\<close>

lemma next_round_front:
  assumes pi: "pi_inv {t} s" and th: "k_thread s t = Some th" and x: "k_mutex s m = Some x" and w: "waits_on s t m"
    and nr: "next_round t p th m x w s s'" and p: "p \<le> th_current_priority th"
  shows "front_priority s' m \<le> mtx_priority x"
proof -
  note sane = pi_invD(1) [OF pi x]
  have tq: "t \<in> set (k_list s (SuspendQ m))" using pi_invD(4) [OF pi w] by simp
  then obtain f q where q: "k_list s (SuspendQ m) = f # q" by (cases "k_list s (SuspendQ m)") auto
  from mutex_saneD(5) [OF sane, of f] q obtain hf where hf: "k_thread s f = Some hf" by auto
  have r: "pi_inv {w} s'" "reranked s s'" "k_thread s' = (k_thread s)(t \<mapsto> set_priority p th)"
    "k_mutex s' m = Some (x\<lparr>mtx_priority := front_priority s' m\<rparr>)"
    using nr by (simp_all add: next_round_def)
  note sane' = pi_invD(1) [OF r(1,4)]
  have "set (k_list s' (SuspendQ m)) = set (k_list s (SuspendQ m))" using r(2) by (simp add: reranked_def)
  then have fq: "f \<in> set (k_list s' (SuspendQ m))" using q by simp
  obtain h' where h': "k_thread s' f = Some h'" "th_current_priority h' \<le> th_current_priority hf"
    using hf r(3) th p by (cases "f = t") auto
  have "front_priority s' m \<le> th_current_priority h'"
    by (rule front_priority_le [OF mutex_saneD(4) [OF sane'] fq h'(1)]) (use mutex_saneD(5) [OF sane'] in auto)
  also note h'(2)
  also have "th_current_priority hf = mtx_priority x" using mutex_saneD(3) [OF sane] q hf by (simp add: front_priority_def)
  finally show ?thesis .
qed

lemma held_priority_mono:
  assumes "\<And>m. m \<in> set l \<Longrightarrow> mutex_level (the (ms' m)) \<le> mutex_level (the (ms m))"
  shows "held_priority ms' p l \<le> held_priority ms p l"
proof -
  have "held_priority ms' p l \<le> p" by (rule held_priority_le)
  moreover have "held_priority ms' p l \<le> mutex_level (the (ms m))" if m: "m \<in> set l" for m
  proof -
    have "held_priority ms' p l \<le> mutex_level (the (ms' m))"
      unfolding held_priority_def by (rule Min_le) (use m in auto)
    also have "mutex_level (the (ms' m)) \<le> mutex_level (the (ms m))" by (rule assms [OF m])
    finally show ?thesis .
  qed
  ultimately show ?thesis unfolding held_priority_def [of ms] by (intro Min.boundedI) auto
qed

lemma next_round_raises:
  assumes pi: "pi_inv {t} s" and th: "k_thread s t = Some th" and p: "p = deserved s t th" "p < th_current_priority th"
    and x: "k_mutex s m = Some x" and w: "waits_on s t m" and nr: "next_round t p th m x w s s'"
    and hw: "k_thread s' w = Some hw"
  shows "deserved s' w hw \<le> th_current_priority hw"
proof -
  have fp: "front_priority s' m \<le> mtx_priority x"
    by (rule next_round_front [OF pi th x w nr]) (use p(2) in simp)
  have r: "k_thread s' = (k_thread s)(t \<mapsto> set_priority p th)" "k_taken s' = k_taken s"
    "k_mutex s' = (k_mutex s)(m \<mapsto> x\<lparr>mtx_priority := front_priority s' m\<rparr>)" using nr by (simp_all add: next_round_def)
  have le: "held_priority (k_mutex s') i l \<le> held_priority (k_mutex s) i l" for i l
    by (rule held_priority_mono) (use fp x in \<open>auto simp: r(3) mutex_level_def min.coboundedI1\<close>)
  show ?thesis
  proof (cases "w = t")
    case True
    with hw r(1) have "hw = set_priority p th" by simp
    with le [of "th_init_priority th" "k_taken s t"] True p(1) show ?thesis by (simp add: deserved_def r(2))
  next
    case False
    with hw r(1) pi_invD(6) [OF pi, of w hw] le [of "th_init_priority hw" "k_taken s w"] show ?thesis
      by (simp add: deserved_def r(2))
  qed
qed

lemma update_priority_raise:
  assumes "finite (dom (k_thread s))" and "kwf s" and "pi_inv {t} s" and "k_thread s t = Some th"
    and "state_of th \<noteq> RT_THREAD_CLOSE" and "p = deserved s t th" and "p < th_current_priority th"
  shows "\<exists>s'. thread_update_priority t p sf s = Some s' \<and> kwf s' \<and> pi_inv {} s' \<and> reranked s s'"
  using assms
proof (induction "total_priority s" arbitrary: s t th p rule: less_induct)
  case less
  note pi = less.prems(3) and th = less.prems(4)
  show ?case
  proof (cases "\<exists>m. waits_on s t m")
    case False
    with less.prems show ?thesis by (intro update_last) simp_all
  next
    case True
    then obtain m where m: "waits_on s t m" by blast
    with pi_invD(4) [OF pi this] obtain x where x: "k_mutex s m = Some x" "t \<in> set (k_list s (SuspendQ m))" by auto
    with mutex_saneD(6) [OF pi_invD(1) [OF pi x(1)]] obtain w where w: "mtx_owner x = Some w"
      by (cases "mtx_owner x") auto
    from update_round [OF less.prems(2-6) m x(1) w, of sf] obtain s3 hw where
      nr: "next_round t p th m x w s s3" and hw: "k_thread s3 w = Some hw" "state_of hw \<noteq> RT_THREAD_CLOSE"
      and step: "thread_update_priority t p sf s = (if deserved s3 w hw \<noteq> th_current_priority hw
        then thread_update_priority w (deserved s3 w hw) sf s3 else Some s3)" by blast
    have r: "kwf s3" "pi_inv {w} s3" "reranked s s3" "k_thread s3 = (k_thread s)(t \<mapsto> set_priority p th)"
      using nr by (simp_all add: next_round_def)
    have less: "total_priority s3 < total_priority s"
      by (rule total_priority_raised [OF less.prems(1) th less.prems(7) r(4)])
    have fin: "finite (dom (k_thread s3))" using less.prems(1) by (simp add: r(4))
    have le: "deserved s3 w hw \<le> th_current_priority hw"
      by (rule next_round_raises [OF pi th less.prems(6,7) x(1) m nr hw(1)])
    show ?thesis
    proof (cases "deserved s3 w hw = th_current_priority hw")
      case True
      have "pi_inv {} s3" by (rule pi_inv_settled [OF r(2) hw(1) True [symmetric]])
      with step True r(1,3) show ?thesis by auto
    next
      case False
      with le have "deserved s3 w hw < th_current_priority hw" by simp
      from less.hyps [OF less fin r(1,2) hw refl this] step False reranked_trans [OF r(3)] show ?thesis by auto
    qed
  qed
qed

section \<open>Steps that do not touch priorities\<close>

definition thread_alike :: "rt_thread \<Rightarrow> rt_thread \<Rightarrow> bool" where
  "thread_alike h h' \<longleftrightarrow> th_current_priority h' = th_current_priority h \<and> th_init_priority h' = th_init_priority h \<and>
    th_pending_object h' = th_pending_object h \<and> suspended h' = suspended h \<and>
    (state_of h' = RT_THREAD_CLOSE \<longleftrightarrow> state_of h = RT_THREAD_CLOSE)"

lemma thread_alike_refl [simp]: "thread_alike h h"
  by (simp add: thread_alike_def)

lemma thread_alike_error [simp]: "thread_alike h (h\<lparr>th_error := e\<rparr>)"
  by (simp add: thread_alike_def)

lemma pi_inv_transfer:
  assumes pi: "pi_inv T s" and same: "ipc_same s s'"
    and q: "\<And>m. k_list s' (SuspendQ m) = k_list s (SuspendQ m)"
    and th: "\<And>u. rel_option thread_alike (k_thread s u) (k_thread s' u)"
  shows "pi_inv T s'"
proof -
  note e = ipc_sameD [OF same]
  have fwd: "\<exists>h'. k_thread s' u = Some h' \<and> thread_alike h h'" if "k_thread s u = Some h" for u h
    using th [of u] that by (cases "k_thread s' u") auto
  have bwd: "\<exists>h. k_thread s u = Some h \<and> thread_alike h h'" if "k_thread s' u = Some h'" for u h'
    using th [of u] that by (cases "k_thread s u") auto
  have cl: "is_class (Obj m) c s' = is_class (Obj m) c s" "ipc_flag s' m = ipc_flag s m" for m c
    using e(10,11) by (simp_all add: ipc_flag_def)
  have po: "prio_of (k_thread s') = prio_of (k_thread s)"
  proof (rule ext)
    fix u show "prio_of (k_thread s') u = prio_of (k_thread s) u"
      using th [of u] by (cases "k_thread s u"; cases "k_thread s' u") (simp_all add: prio_of_def prio_def thread_alike_def)
  qed
  have fp: "front_priority s' m = front_priority s m" for m
  proof (cases "k_list s (SuspendQ m)")
    case (Cons t l)
    then show ?thesis
      using th [of t] by (cases "k_thread s t"; cases "k_thread s' t") (simp_all add: front_priority_def q thread_alike_def)
  qed (simp add: front_priority_def q)
  have w: "waits_on s' u m = waits_on s u m" for u m
    using th [of u] by (cases "k_thread s u"; cases "k_thread s' u") (simp_all add: waits_on_def cl thread_alike_def)
  have "mutexes_ok s'"
    unfolding mutexes_ok_def
  proof (intro allI impI)
    fix m x assume "k_mutex s' m = Some x"
    then have sane: "mutex_sane s m x" using pi_invD(1) [OF pi] e(2) by simp
    have "\<exists>h'. k_thread s' u = Some h' \<and> th_pending_object h' = Some m" if "u \<in> set (k_list s (SuspendQ m))" for u
      using mutex_saneD(5) [OF sane that] fwd by (metis thread_alike_def)
    moreover have "\<exists>h'. k_thread s' v = Some h' \<and> state_of h' \<noteq> RT_THREAD_CLOSE" if "mtx_owner x = Some v" for v
      using mutex_saneD(7) [OF sane that] fwd by (metis thread_alike_def)
    ultimately show "mutex_sane s' m x"
      using mutex_saneD(1-4,6) [OF sane] unfolding mutex_sane_def cl fp q prio_sorted_def po by (auto split: option.split)
  qed
  moreover have "taken_ok s'" using pi by (simp add: pi_inv_def taken_ok_def e)
  moreover have "pending_ok s'"
    unfolding pending_ok_def w q e(2,11)
  proof (intro conjI allI impI)
    show "k_mutex s m \<noteq> None" "t \<in> set (k_list s (SuspendQ m))" if "waits_on s t m" for t m
      using pi_invD(4) [OF pi that] by auto
    show "k_obj s (Obj m) \<noteq> None" if "k_thread s' t = Some h" "suspended h" "th_pending_object h = Some m" for t h m
      using that bwd [of t h] pi_invD(7) [OF pi] by (auto simp: thread_alike_def)
  qed
  moreover have "priorities_ok T s'"
    unfolding priorities_ok_def
  proof (intro allI impI)
    fix t h' assume "k_thread s' t = Some h'"
    then obtain h where h: "k_thread s t = Some h" "thread_alike h h'" using bwd by blast
    then show "unat (th_init_priority h') < 32 \<and> (t \<notin> T \<longrightarrow> th_current_priority h' = deserved s' t h')"
      using pi_invD(5,6) [OF pi h(1)] by (simp add: thread_alike_def deserved_def e)
  qed
  ultimately show ?thesis by (simp add: pi_inv_def)
qed

lemma pi_inv_sched:
  assumes "pi_inv T s" and f: "sched_frame s s'"
  shows "pi_inv T s'"
proof (rule pi_inv_transfer [OF assms(1) ipc_same_sched [OF f]])
  show "k_list s' (SuspendQ m) = k_list s (SuspendQ m)" for m by (rule sched_frame_queue [OF f]) simp
  show "rel_option thread_alike (k_thread s u) (k_thread s' u)" for u
  proof (cases "k_thread s u")
    case None
    then have "k_thread s' u = None" using sched_frame_back [OF f, of u] by (cases "k_thread s' u") auto
    with None show ?thesis by simp
  next
    case (Some h)
    obtain x where h': "k_thread s' u = Some (h\<lparr>th_stat := x\<rparr>)" using sched_frame_thread [OF f Some] by blast
    show ?thesis
    proof (cases "runnable h")
      case True
      from sched_frame_runnable [OF f Some True] h' have "runnable (h\<lparr>th_stat := x\<rparr>)" by auto
      with True Some h' suspended_no_ready show ?thesis by (auto simp: thread_alike_def runnable_def)
    next
      case False
      with f Some have "k_thread s' u = Some h" by (simp add: sched_frame_def)
      with Some show ?thesis by simp
    qed
  qed
qed

lemma pi_inv_error:
  assumes "pi_inv T s" and "k_thread s t = Some th"
  shows "pi_inv T (s\<lparr>k_thread := (k_thread s)(t \<mapsto> th\<lparr>th_error := e\<rparr>)\<rparr>)"
  by (rule pi_inv_transfer [OF assms(1)]) (use assms(2) in \<open>simp_all add: ipc_same_def is_class_def option.rel_refl\<close>)

section \<open>A mutex that gets more important\<close>

lemma held_priority_lower:
  assumes m: "m \<in> set l" and lv: "mutex_level (the (ms' m)) = min (mutex_level (the (ms m))) p"
    and o: "\<And>m'. m' \<noteq> m \<Longrightarrow> ms' m' = ms m'"
  shows "held_priority ms' i l = min (held_priority ms i l) p"
proof -
  let ?f = "\<lambda>m. mutex_level (the (ms m))" and ?g = "\<lambda>m. mutex_level (the (ms' m))"
  let ?R = "insert i (?f ` (set l - {m}))"
  have g: "insert i (?g ` set l) = insert (min (?f m) p) ?R"
  proof -
    have "?g ` (set l - {m}) = ?f ` (set l - {m})" using o by (intro image_cong) auto
    moreover have "?g ` set l = insert (?g m) (?g ` (set l - {m}))" using m by auto
    ultimately show ?thesis using lv by auto
  qed
  have f: "insert i (?f ` set l) = insert (?f m) ?R" using m by auto
  show ?thesis unfolding held_priority_def g f by (simp add: Min_insert min.assoc min.commute min.left_commute)
qed

lemma word_ff_ge: "(x :: u8) \<le> 0xff"
proof -
  have "unat x < 2 ^ LENGTH(8)" by (rule unsigned_less)
  then show ?thesis by (simp add: word_le_nat_alt)
qed

lemma hd_prio_insert:
  "prio_insert key t [] = [t]"
  "prio_insert key t (u # q) = (if key u \<le> key t then u # prio_insert key t q else t # u # q)"
  by (simp_all add: prio_insert_def)

text \<open>
  The state when the running thread \<open>t\<close> has joined the queue of the mutex \<open>m\<close> and the
  priority of the mutex has been corrected; its owner may now deserve more.
\<close>

lemma joined_inv:
  assumes pi: "pi_inv {} s" and kw: "kwf s" and th: "k_thread s t = Some th" and ns: "\<not> suspended th"
    and x: "k_mutex s m = Some x" and o: "mtx_owner x = Some w" and ne: "w \<noteq> t"
    and h: "th_current_priority h = th_current_priority th" "th_init_priority h = th_init_priority th"
      "suspended h" "th_pending_object h = Some m" "state_of h \<noteq> RT_THREAD_CLOSE"
    and k: "k_thread s' = (k_thread s)(t \<mapsto> h)"
    and l: "\<And>m'. k_list s' (SuspendQ m') = (if m' = m
        then prio_insert (prio_of (k_thread s)) t (k_list s (SuspendQ m)) else k_list s (SuspendQ m'))"
    and mx: "k_mutex s' = (k_mutex s)(m \<mapsto> x\<lparr>mtx_priority := min (mtx_priority x) (th_current_priority th)\<rparr>)"
    and e: "\<And>r. k_obj s' (Obj r) = k_obj s (Obj r)" "k_taken s' = k_taken s"
  shows "pi_inv {w} s'" and "k_thread s w = Some hw \<Longrightarrow> deserved s' w hw = min (th_current_priority hw) (th_current_priority th)"
proof -
  note sane = pi_invD(1) [OF pi x]
  have cl: "is_class (Obj r) c s' = is_class (Obj r) c s" "ipc_flag s' r = ipc_flag s r" for r c
    by (simp_all add: e is_class_def ipc_flag_def)
  have nq: "t \<notin> set (k_list s (SuspendQ r))" for r
    using waitq_suspended [OF kwfD(1) [OF kw] is_waitq_simps(1), of t r] th ns by auto
  have po: "prio_of (k_thread s') = prio_of (k_thread s)"
    using th h(1) by (auto simp: fun_eq_iff prio_of_def prio_def k)
  have sorted: "prio_sorted s' (k_list s' (SuspendQ m))"
    using sorted_prio_insert [of "prio_of (k_thread s)"] mutex_saneD(4) [OF sane] l [of m] by (simp add: prio_sorted_def po)
  have fp: "front_priority s' m = min (mtx_priority x) (th_current_priority th)"
  proof (cases "k_list s (SuspendQ m)")
    case Nil
    have "mtx_priority x = 0xff" using mutex_saneD(3) [OF sane] Nil by (simp add: front_priority_def)
    moreover have "th_current_priority th \<le> 0xff" by (rule word_ff_ge)
    ultimately show ?thesis using Nil l [of m] k h(1) by (simp add: front_priority_def hd_prio_insert)
  next
    case (Cons u q)
    from mutex_saneD(5) [OF sane, of u] Cons obtain hu where hu: "k_thread s u = Some hu" by auto
    have ut: "u \<noteq> t" using nq [of m] Cons by auto
    have mp: "mtx_priority x = th_current_priority hu"
      using mutex_saneD(3) [OF sane] Cons hu by (simp add: front_priority_def)
    have "prio_of (k_thread s) u \<le> prio_of (k_thread s) t \<longleftrightarrow> th_current_priority hu \<le> th_current_priority th"
      using hu th by (simp add: prio_of_def prio_def word_le_nat_alt)
    then show ?thesis using Cons l [of m] k h(1) hu ut mp by (auto simp: front_priority_def hd_prio_insert min_def)
  qed
  have sq: "set (k_list s' (SuspendQ r)) = (if r = m then insert t (set (k_list s (SuspendQ m))) else set (k_list s (SuspendQ r)))" for r
    using l [of r] by simp
  have others: "mutex_sane s' r y" if y: "k_mutex s r = Some y" "r \<noteq> m" for r y
  proof -
    note sr = pi_invD(1) [OF pi y(1)]
    have lr: "k_list s' (SuspendQ r) = k_list s (SuspendQ r)" using l [of r] y(2) by simp
    have sm: "k_thread s' u = k_thread s u" if "u \<in> set (k_list s (SuspendQ r))" for u using that nq [of r] k by auto
    have "\<exists>h. k_thread s' v = Some h \<and> state_of h \<noteq> RT_THREAD_CLOSE" if "mtx_owner y = Some v" for v
      using mutex_saneD(7) [OF sr that] h(5) k by (cases "v = t") auto
    then show ?thesis
      using mutex_saneD(1-6) [OF sr] front_priority_cong [OF lr sm] lr sm unfolding mutex_sane_def cl
      by (auto split: option.split)
  qed
  have "mutex_sane s' m (x\<lparr>mtx_priority := min (mtx_priority x) (th_current_priority th)\<rparr>)"
  proof -
    have "\<exists>h. k_thread s' u = Some h \<and> th_pending_object h = Some m" if "u \<in> set (k_list s' (SuspendQ m))" for u
      using that sq [of m] mutex_saneD(5) [OF sane, of u] h(4) k by (cases "u = t") auto
    moreover have "\<exists>h. k_thread s' w = Some h \<and> state_of h \<noteq> RT_THREAD_CLOSE"
      using mutex_saneD(7) [OF sane o] ne k by simp
    ultimately show ?thesis using mutex_saneD(1,2) [OF sane] o sorted fp by (simp add: mutex_sane_def cl)
  qed
  with others have "mutexes_ok s'" by (auto simp: mutexes_ok_def mx)
  moreover have "taken_ok s'" using pi x unfolding pi_inv_def taken_ok_def by (auto simp: mx e)
  moreover have "pending_ok s'"
    unfolding pending_ok_def
  proof (intro allI impI conjI)
    have om: "k_obj s (Obj m) \<noteq> None" using mutex_saneD(1) [OF sane] by (auto simp: is_class_def)
    show "k_obj s' (Obj r) \<noteq> None" if "k_thread s' u = Some g" "suspended g" "th_pending_object g = Some r" for u g r
      using that pi_invD(7) [OF pi, of u g r] k e(1) om h(4) by (cases "u = t") auto
    fix u r assume w': "waits_on s' u r"
    have "u = t \<and> r = m \<or> waits_on s u r" using w' k h(4) by (cases "u = t") (auto simp: waits_on_def cl)
    with pi_invD(4) [OF pi, of u r] sq [of r] show "k_mutex s' r \<noteq> None" "u \<in> set (k_list s' (SuspendQ r))"
      by (auto simp: mx split: if_splits)
  qed
  moreover have dd: "deserved s' u g' = deserved s u g" if "u \<noteq> w" "th_init_priority g' = th_init_priority g" for u g g'
    unfolding deserved_def e that(2)
    by (rule held_priority_cong) (use that(1) pi_invD(3) [OF pi, of _ u] x o in \<open>auto simp: mx\<close>)
  have "priorities_ok {w} s'"
    unfolding priorities_ok_def
  proof (intro allI impI conjI)
    fix u g assume g: "k_thread s' u = Some g"
    show "unat (th_init_priority g) < 32" using g k h(2) pi_invD(5) [OF pi] th by (auto split: if_splits)
    assume "u \<notin> {w}"
    with g k h(1,2) pi_invD(6) [OF pi, of u] th dd [of u g g] dd [of u g th] show "th_current_priority g = deserved s' u g"
      by (cases "u = t") auto
  qed
  ultimately show "pi_inv {w} s'" by (simp add: pi_inv_def)
  show "deserved s' w hw = min (th_current_priority hw) (th_current_priority th)" if hw: "k_thread s w = Some hw"
  proof -
    have "m \<in> set (k_taken s w)" using pi_invD(3) [OF pi, of m w] x o by simp
    then have "held_priority (k_mutex s') (th_init_priority hw) (k_taken s w) =
        min (held_priority (k_mutex s) (th_init_priority hw) (k_taken s w)) (th_current_priority th)"
      by (rule held_priority_lower) (auto simp: mx x mutex_level_def min.assoc min.commute min.left_commute)
    with pi_invD(6) [OF pi hw] show ?thesis by (simp add: deserved_def e)
  qed
qed

end
