(* ===== verification/MutexTake.thy ===== *)
theory MutexTake
  imports MutexPrio
begin

text \<open>
  Taking a mutex: all outcomes of \<open>_rt_mutex_take\<close>, each of which keeps the priority
  inheritance invariant; a thread that has to wait gives its priority to the owner, and on
  along the chain of owners, which may lead back to the caller.
\<close>

section \<open>Waiting for a mutex\<close>

lemma reranked_waits: "reranked s s' \<Longrightarrow> waits_on s' u m = waits_on s u m"
proof -
  assume r: "reranked s s'"
  then have "is_class (Obj m) c s' = is_class (Obj m) c s" for c by (simp add: reranked_def is_class_def)
  moreover have "k_thread s' u = k_thread s u \<or> (\<exists>th q. k_thread s u = Some th \<and> k_thread s' u = Some (set_priority q th))"
    using r by (simp add: reranked_def)
  ultimately show ?thesis unfolding waits_on_def by (elim disjE) (simp, auto)
qed

lemma reranked_mutex: "reranked s s' \<Longrightarrow> k_mutex s m = Some x \<Longrightarrow>
    \<exists>x'. k_mutex s' m = Some x' \<and> mtx_owner x' = mtx_owner x \<and> mtx_hold x' = mtx_hold x \<and>
      mtx_ceiling_priority x' = mtx_ceiling_priority x"
  unfolding reranked_def by (cases "k_mutex s' m") (metis option.simps(8,9) option.distinct(1), metis option.simps(9) option.inject)

lemma holder_priority:
  assumes pi: "pi_inv {} s" and x: "k_mutex s m = Some x" and o: "mtx_owner x = Some w" and hw: "k_thread s w = Some hw"
  shows "th_current_priority hw \<le> mtx_priority x"
proof -
  have "m \<in> set (k_taken s w)" using pi_invD(3) [OF pi, of m w] x o by simp
  then have "mutex_level x \<in> insert (th_init_priority hw) ((\<lambda>m. mutex_level (the (k_mutex s m))) ` set (k_taken s w))"
    using x by force
  then have "deserved s w hw \<le> mutex_level x" unfolding deserved_def held_priority_def by (intro Min_le) simp_all
  moreover have "mutex_level x \<le> mtx_priority x" by (simp add: mutex_level_def)
  ultimately show ?thesis using pi_invD(6) [OF pi hw] by (auto intro: order_trans)
qed

text \<open>No waiting thread is more important than the owner.\<close>

lemma owner_priority:
  assumes pi: "pi_inv {} s" and w: "waits_on s t m" and x: "k_mutex s m = Some x" and o: "mtx_owner x = Some w"
    and th: "k_thread s t = Some th" and hw: "k_thread s w = Some hw"
  shows "th_current_priority hw \<le> th_current_priority th"
proof -
  note sane = pi_invD(1) [OF pi x]
  have tq: "t \<in> set (k_list s (SuspendQ m))" using pi_invD(4) [OF pi w] by simp
  then obtain f q where q: "k_list s (SuspendQ m) = f # q" by (cases "k_list s (SuspendQ m)") auto
  from mutex_saneD(5) [OF sane, of f] q obtain hf where hf: "k_thread s f = Some hf" by auto
  have "prio_of (k_thread s) f \<le> prio_of (k_thread s) t"
    using mutex_saneD(4) [OF sane] tq q by (auto simp: prio_sorted_def)
  then have "th_current_priority hf \<le> th_current_priority th" using hf th by (simp add: prio_of_def prio_def word_le_nat_alt)
  then have mp: "mtx_priority x \<le> th_current_priority th" using mutex_saneD(3) [OF sane] q hf by (simp add: front_priority_def)
  with holder_priority [OF pi x o hw] show ?thesis by (rule order_trans)
qed

definition mutex_waiting :: "addr \<Rightarrow> addr \<Rightarrow> addr \<Rightarrow> u32 \<Rightarrow> kstate \<Rightarrow> kstate \<Rightarrow> bool" where
  "mutex_waiting m t w timeout s s' \<longleftrightarrow> kwf s' \<and> pi_inv {} s' \<and> waits_on s' t m \<and> rt_current_thread s' \<noteq> None \<and>
    (\<exists>x x'. k_mutex s m = Some x \<and> k_mutex s' m = Some x' \<and> mtx_owner x' = Some w \<and> mtx_hold x' = mtx_hold x) \<and>
    (\<exists>th hw. k_thread s' t = Some th \<and> th_error th = RT_EOK \<and> k_thread s' w = Some hw \<and>
      th_current_priority hw \<le> th_current_priority th) \<and>
    (sint timeout > 0 \<longrightarrow> timer_set t (rt_tick s + timeout) s')"

text \<open>The owner inherits the priority of the thread \<open>t\<close> that has joined the queue.\<close>

lemma mutex_inherit_spec:
  assumes kw: "kwf s" and pi: "pi_inv {} s" and th: "k_thread s t = Some th" and ns: "\<not> suspended th"
    and x: "k_mutex s a = Some x" and o: "mtx_owner x = Some w" and ne: "w \<noteq> t"
    and fin: "finite (dom (k_thread s))"
    and h: "th_current_priority h = th_current_priority th" "th_init_priority h = th_init_priority th"
      "suspended h" "th_pending_object h = Some a" "state_of h \<noteq> RT_THREAD_CLOSE"
    and k: "k_thread s2 = (k_thread s)(t \<mapsto> h)"
    and l: "\<And>m. k_list s2 (SuspendQ m) = (if m = a
        then prio_insert (prio_of (k_thread s)) t (k_list s (SuspendQ a)) else k_list s (SuspendQ m))"
    and mx: "k_mutex s2 = k_mutex s" "k_taken s2 = k_taken s" and ob: "\<And>r. k_obj s2 (Obj r) = k_obj s (Obj r)"
    and kw2: "kwf s2"
  shows "\<exists>s4. mutex_inherit a w (th_current_priority th) s2 = Some s4 \<and> kwf s4 \<and> pi_inv {} s4 \<and>
    reranked (s2\<lparr>k_mutex := (k_mutex s)(a \<mapsto> x\<lparr>mtx_priority := min (mtx_priority x) (th_current_priority th)\<rparr>)\<rparr>) s4"
proof -
  let ?p = "th_current_priority th"
  let ?x = "x\<lparr>mtx_priority := min (mtx_priority x) ?p\<rparr>"
  let ?s3 = "s2\<lparr>k_mutex := (k_mutex s)(a \<mapsto> ?x)\<rparr>"
  have kw3: "kwf ?s3" using kwf_same_ipc [of ?s3 s2] kw2 by simp
  have f3: "k_thread ?s3 = (k_thread s)(t \<mapsto> h)" "k_mutex ?s3 = (k_mutex s)(a \<mapsto> ?x)" "k_taken ?s3 = k_taken s"
    "k_obj ?s3 (Obj r) = k_obj s (Obj r)" "k_list ?s3 (SuspendQ m) = (if m = a
        then prio_insert (prio_of (k_thread s)) t (k_list s (SuspendQ a)) else k_list s (SuspendQ m))" for r m
    using k mx ob l by simp_all
  note j = joined_inv [OF pi kw th ns x o ne h f3(1,5,2,4,3)]
  from mutex_saneD(7) [OF pi_invD(1) [OF pi x] o] obtain hw where
    hw: "k_thread s w = Some hw" "state_of hw \<noteq> RT_THREAD_CLOSE" by blast
  have hw3: "k_thread ?s3 w = Some hw" using hw ne k by simp
  have d3: "deserved ?s3 w hw = min (th_current_priority hw) ?p" by (rule j(2) [OF hw(1)])
  have low: "th_current_priority hw \<le> mtx_priority x" by (rule holder_priority [OF pi x o hw(1)])
  have up: "upd_mutex a (\<lambda>x. x\<lparr>mtx_priority := ?p\<rparr>) s2 = Some ?s3" if "?p < mtx_priority x"
  proof -
    have "x\<lparr>mtx_priority := ?p\<rparr> = ?x" using that by (simp add: min_def)
    then show ?thesis using upd_mutex_Some [of s2 a x "\<lambda>x. x\<lparr>mtx_priority := ?p\<rparr>"] x mx by simp
  qed
  have x2: "k_mutex s2 a = Some x" using x mx by simp
  show ?thesis
  proof (cases "?p < th_current_priority hw")
    case True
    have pe: "?p = deserved ?s3 w hw" unfolding d3 using True by (auto simp: min_def)
    have "finite (dom (k_thread ?s3))" using fin by (simp add: f3(1))
    from update_priority_raise [OF this kw3 j(1) hw3 hw(2) pe True]
    obtain s4 where "thread_update_priority w ?p RT_UNINTERRUPTIBLE ?s3 = Some s4" "kwf s4" "pi_inv {} s4" "reranked ?s3 s4"
      by blast
    then show ?thesis using up low True hw3 x2 by (auto simp: mutex_inherit_def)
  next
    case False
    then have "min (th_current_priority hw) ?p = th_current_priority hw" by (simp only: not_less min.absorb1)
    then have p3: "pi_inv {} ?s3" by (intro pi_inv_settled [OF j(1) hw3]) (simp only: d3)
    show ?thesis
    proof (cases "?p < mtx_priority x")
      case True
      with up False hw3 p3 kw3 x2 show ?thesis by (auto simp: mutex_inherit_def)
    next
      case n: False
      then have "?x = x" by (simp only: not_less) (simp add: min.absorb1)
      then have "?s3 = s2" using x mx by (simp add: fun_upd_idem)
      with n p3 kw3 x2 show ?thesis by (auto simp: mutex_inherit_def)
    qed
  qed
qed

text \<open>The timer is armed and the next thread runs.\<close>

lemma mutex_blocked:
  assumes kw: "kwf s" and pi: "pi_inv {} s" and w: "waits_on s t m" and cur: "rt_current_thread s \<noteq> None"
    and th: "k_thread s t = Some th" and x: "k_mutex s m = Some x" and o: "mtx_owner x = Some w"
    and to: "timeout \<noteq> 0x7fffffff"
  shows "\<exists>s1 s'. wait_timer t timeout s = Some s1 \<and> rt_schedule s1 = Some s' \<and> kwf s' \<and> pi_inv {} s' \<and>
    waits_on s' t m \<and> rt_current_thread s' \<noteq> None \<and> k_mutex s' m = Some x \<and> k_thread s' t = Some th \<and>
    (\<exists>hw. k_thread s' w = Some hw \<and> th_current_priority hw \<le> th_current_priority th) \<and>
    (sint timeout > 0 \<longrightarrow> timer_set t (rt_tick s + timeout) s')"
proof -
  have su: "suspended th" using w th by (simp add: waits_on_def)
  from wait_timer_spec [OF kw th su to] obtain s5 where
    s5: "wait_timer t timeout s = Some s5" "kwf s5" "ipc_same s s5" "k_thread s5 = k_thread s" "k_list s5 = k_list s"
      "rt_current_thread s5 = rt_current_thread s" "sint timeout > 0 \<longrightarrow> timer_set t (rt_tick s + timeout) s5" by blast
  have p5: "pi_inv {} s5" by (rule pi_inv_transfer [OF pi s5(3)]) (simp_all add: s5(4,5) option.rel_refl)
  have c5: "rt_current_thread s5 \<noteq> None" using s5(6) cur by simp
  from schedule_kinv [OF kwfD(1) [OF s5(2)] c5] obtain s6 where
    s6: "rt_schedule s5 = Some s6" "kinv s6" "sched_frame s5 s6" by blast
  note f6 = sched_frame_fields [OF s6(3)]
  have kw6: "kwf s6" by (rule kwf_sched [OF s5(2) s6(2,3)])
  have p6: "pi_inv {} s6" by (rule pi_inv_sched [OF p5 s6(3)])
  have h6: "k_thread s6 t = Some th"
    using sched_frame_quiet [OF s6(3), of t th] th s5(4) suspended_no_ready [OF su] by simp
  have w6: "waits_on s6 t m"
    using w th h6 ipc_sameD(10) [OF s5(3)] ipc_sameD(10) [OF ipc_same_sched [OF s6(3)]] by (auto simp: waits_on_def)
  have x6: "k_mutex s6 m = Some x" using x ipc_sameD(2) [OF s5(3)] f6 by simp
  from mutex_saneD(7) [OF pi_invD(1) [OF p6 x6] o] obtain hw6 where hw6: "k_thread s6 w = Some hw6" by blast
  have "th_current_priority hw6 \<le> th_current_priority th" by (rule owner_priority [OF p6 w6 x6 o h6 hw6])
  moreover have "sint timeout > 0 \<longrightarrow> timer_set t (rt_tick s + timeout) s6"
    using s5(7) f6 by (simp add: timer_set_def)
  moreover have "rt_current_thread s6 \<noteq> None" by (rule schedule_current [OF kwfD(1) [OF s5(2)] c5 s6(1)])
  ultimately show ?thesis using s5(1) s6(1) kw6 p6 w6 x6 h6 hw6 by blast
qed

lemma mutex_wait_spec:
  assumes kw: "kwf s" and pi: "pi_inv {} s" and cur: "rt_current_thread s = Some t" and th: "k_thread s t = Some th"
    and r: "state_of th = RT_THREAD_RUNNING" and er: "th_error th = RT_EOK"
    and x: "k_mutex s a = Some x" and o: "mtx_owner x = Some w" and ne: "w \<noteq> t"
    and fin: "finite (dom (k_thread s))"
    and to: "timeout \<noteq> 0" "timeout \<noteq> 0x7fffffff" and sf: "suspend_stat sf \<noteq> None"
  shows "\<exists>s'. mutex_wait a w t timeout sf s = Some (Blocked, s') \<and> mutex_waiting a t w timeout s s'"
proof -
  note sane = pi_invD(1) [OF pi x]
  let ?p = "th_current_priority th"
  have ns: "\<not> suspended th" using suspended_no_ready [of th] r by auto
  obtain h0 where h0: "k_obj s (Obj a) = Some h0" "obj_flag h0 = 1"
    using mutex_saneD(1,2) [OF sane] by (auto simp: is_class_def ipc_flag_def)
  from sf obtain y0 where "suspend_stat sf = Some y0" by auto
  from list_suspend_spec [OF kw cur th r is_waitq_simps(1) _ this, of 1 a] obtain s1 where
    s1: "ipc_list_suspend (SuspendQ a) t 1 sf s = Some (0, s1)" "kwf s1" "waiting (SuspendQ a) t 1 s s1" by auto
  then obtain y where y: "y \<in> {4, 6, 7}" "k_thread s1 = (k_thread s)(t \<mapsto> set_state y th)"
    and e1: "ipc_same s s1" "rt_current_thread s1 = rt_current_thread s"
      "k_list s1 = (k_list s)(SuspendQ a := enqueue 1 (k_thread s) t (k_list s (SuspendQ a)))"
    using th by (auto simp: waiting_def)
  let ?h = "(set_state y th)\<lparr>th_pending_object := Some a\<rparr>"
  let ?s2 = "s1\<lparr>k_thread := (k_thread s1)(t \<mapsto> ?h)\<rparr>"
  have th1: "k_thread s1 t = Some (set_state y th)" using y by simp
  have stc: "state_of (set_state y th) \<noteq> 1" using suspended_no_ready [OF suspended_set_state [OF y(1), of th]] by simp
  have kw2: "kwf ?s2" by (rule kwf_thread_data [OF s1(2) th1 stc]) (simp_all add: stack_ok_def)
  have su: "suspended ?h" using suspended_set_state [OF y(1)] by (simp add: suspended_def)
  have hf: "th_current_priority ?h = ?p" "th_init_priority ?h = th_init_priority th" "state_of ?h \<noteq> RT_THREAD_CLOSE"
    "th_pending_object ?h = Some a" using stc by (simp_all add: state_of_def)
  have f2: "k_thread ?s2 = (k_thread s)(t \<mapsto> ?h)" "k_mutex ?s2 = k_mutex s" "k_taken ?s2 = k_taken s"
    "k_obj ?s2 (Obj q) = k_obj s (Obj q)" "k_list ?s2 (SuspendQ m) = (if m = a
      then prio_insert (prio_of (k_thread s)) t (k_list s (SuspendQ a)) else k_list s (SuspendQ m))" for q m
    using y(2) ipc_sameD [OF e1(1)] by (simp_all add: e1(3) enqueue_def)
  from mutex_inherit_spec [OF kw pi th ns x o ne fin hf(1,2) su hf(4,3) f2(1,5,2,3,4) kw2] obtain s4 where
    s4: "mutex_inherit a w ?p ?s2 = Some s4" "kwf s4" "pi_inv {} s4"
      "reranked (?s2\<lparr>k_mutex := (k_mutex s)(a \<mapsto> x\<lparr>mtx_priority := min (mtx_priority x) ?p\<rparr>)\<rparr>) s4" by blast
  have w4: "waits_on s4 t a"
    using reranked_waits [OF s4(4), of t a] mutex_saneD(1) [OF sane] su f2(1,4) by (simp add: waits_on_def is_class_def)
  from reranked_thread [OF s4(4), of t ?h] f2(1) er obtain h4 where
    h4: "k_thread s4 t = Some h4" "th_error h4 = 0" by (auto simp: set_state_def)
  from reranked_mutex [OF s4(4), of a] o obtain x4 where
    x4: "k_mutex s4 a = Some x4" "mtx_owner x4 = Some w" "mtx_hold x4 = mtx_hold x" by auto
  have t4: "rt_tick s4 = rt_tick s" "rt_current_thread s4 \<noteq> None"
    using s4(4) ipc_sameD [OF e1(1)] e1(2) cur by (simp_all add: reranked_def)
  from mutex_blocked [OF s4(2,3) w4 t4(2) h4(1) x4(1,2) to(2)] obtain s5 s6 where
    s6: "wait_timer t timeout s4 = Some s5" "rt_schedule s5 = Some s6"
    and f: "kwf s6" "pi_inv {} s6" "waits_on s6 t a" "rt_current_thread s6 \<noteq> None" "k_mutex s6 a = Some x4"
      "k_thread s6 t = Some h4" "\<exists>hw. k_thread s6 w = Some hw \<and> th_current_priority hw \<le> th_current_priority h4"
      "sint timeout > 0 \<longrightarrow> timer_set t (rt_tick s + timeout) s6" unfolding t4(1) by blast
  have u2: "upd_thread t (\<lambda>th. th\<lparr>th_pending_object := Some a\<rparr>) s1 = Some ?s2" using th1 by simp
  have "mutex_wait a w t timeout sf s = Some (Blocked, s6)"
    unfolding mutex_wait_def using to(1) th h0 s1(1) u2 s4(1) s6 by (simp add: Let_def)
  with f x x4 h4 show ?thesis unfolding mutex_waiting_def by blast
qed

section \<open>Taking a free mutex, and taking one again\<close>

lemma held_priority_Cons:
  assumes "m \<notin> set l" and "ms' m = Some x'" and "\<And>r. r \<noteq> m \<Longrightarrow> ms' r = ms r"
  shows "held_priority ms' i (m # l) = min (held_priority ms i l) (mutex_level x')"
proof -
  have "(\<lambda>r. mutex_level (the (ms' r))) ` set l = (\<lambda>r. mutex_level (the (ms r))) ` set l"
  proof (rule image_cong [OF refl])
    fix r assume "r \<in> set l"
    then have "r \<noteq> m" using assms(1) by auto
    then show "mutex_level (the (ms' r)) = mutex_level (the (ms r))" by (simp add: assms(3))
  qed
  then have e: "insert i ((\<lambda>r. mutex_level (the (ms' r))) ` set (m # l)) =
      insert (mutex_level x') (insert i ((\<lambda>r. mutex_level (the (ms r))) ` set l))"
    using assms(2) by auto
  show ?thesis unfolding held_priority_def e by (subst Min_insert) (simp_all add: min.commute)
qed

text \<open>Only the count of a mutex changes.\<close>

lemma pi_inv_hold:
  assumes pi: "pi_inv T s" and x: "k_mutex s a = Some x"
  shows "pi_inv T (s\<lparr>k_mutex := (k_mutex s)(a \<mapsto> x\<lparr>mtx_hold := n\<rparr>)\<rparr>)"
proof -
  let ?s = "s\<lparr>k_mutex := (k_mutex s)(a \<mapsto> x\<lparr>mtx_hold := n\<rparr>)\<rparr>"
  have cl: "is_class r c ?s = is_class r c s" "ipc_flag ?s = ipc_flag s" "front_priority ?s = front_priority s"
    "prio_sorted ?s = prio_sorted s" "waits_on ?s = waits_on s" for r c
    by (auto simp: is_class_def ipc_flag_def front_priority_def prio_sorted_def waits_on_def fun_eq_iff split: list.split)
  have "mutex_sane ?s m y = mutex_sane s m y" for m y by (simp add: mutex_sane_def cl split: option.split)
  moreover have "mutex_sane s a (x\<lparr>mtx_hold := n\<rparr>)" using pi_invD(1) [OF pi x] by (simp add: mutex_sane_def)
  ultimately have "mutexes_ok ?s" using pi_invD(1) [OF pi] by (simp add: mutexes_ok_def)
  moreover have "taken_ok ?s" using pi x by (auto simp: pi_inv_def taken_ok_def)
  moreover have "pending_ok ?s" using pi by (auto simp: pi_inv_def pending_ok_def cl)
  moreover have "deserved ?s t th = deserved s t th" for t th
    unfolding deserved_def using x by (auto intro!: held_priority_cong simp: mutex_level_def)
  then have "priorities_ok T ?s" using pi by (simp add: pi_inv_def priorities_ok_def)
  ultimately show ?thesis by (simp add: pi_inv_def)
qed

lemma acquired_inv:
  assumes pi: "pi_inv {} s" and kw: "kwf s" and th: "k_thread s t = Some th" and ns: "\<not> suspended th"
    and cl: "state_of th \<noteq> RT_THREAD_CLOSE" and x: "k_mutex s a = Some x" and o: "mtx_owner x = None"
    and x': "mtx_priority x' = 0xff" "mtx_owner x' = Some t" "mtx_ceiling_priority x' = mtx_ceiling_priority x"
    and k: "k_thread s' = (k_thread s)(t \<mapsto> set_priority (min (th_current_priority th) (mtx_ceiling_priority x)) th)"
    and l: "\<And>m. k_list s' (SuspendQ m) = k_list s (SuspendQ m)"
    and mx: "k_mutex s' = (k_mutex s)(a \<mapsto> x')" and tk: "k_taken s' = al_head t a (k_taken s)" and ob: "k_obj s' = k_obj s"
  shows "pi_inv {} s'"
proof -
  note sane = pi_invD(1) [OF pi x]
  have nw: "\<not> waits_on s t m" for m using th ns by (simp add: waits_on_def)
  have e: "k_list s (SuspendQ a) = []" by (rule mutex_saneD(6) [OF sane o])
  have na: "a \<notin> set (k_taken s u)" for u using pi_invD(3) [OF pi, of a u] x o by simp
  have "mutex_sane s' m y" if "k_mutex s m = Some y" for m y
    by (rule mutex_sane_other [OF pi kw th k ob that l nw])
  moreover have "mutex_sane s' a x'"
    using calculation [OF x] x' e k l [of a] cl by (simp add: mutex_sane_def front_priority_def prio_sorted_def)
  ultimately have "mutexes_ok s'" by (simp add: mutexes_ok_def mx)
  moreover have "taken_ok s'"
  proof -
    have u: "unlinked (k_taken s) a" using na by (simp add: unlinked_def)
    have sep: "separate (k_taken s)" by (rule pi_invD(2) [OF pi])
    have "separate (al_head t a (k_taken s))"
      using separate_add [OF sep u, of "a # k_taken s t" t] na separate_distinct [OF sep, of t] by (simp add: al_head_def)
    moreover have "m \<in> set (al_head t a (k_taken s) u) \<longleftrightarrow> (\<exists>y. k_mutex s' m = Some y \<and> mtx_owner y = Some u)" for m u
      using pi_invD(3) [OF pi, of m u] na x'(2) by (auto simp: al_head_def mx)
    ultimately show ?thesis by (simp add: taken_ok_def tk)
  qed
  moreover have "pending_ok s'"
    unfolding pending_ok_def waits_on_set_priority [OF th k ob] l ob mx
    using pi_invD(4,7) [OF pi] k th by auto
  moreover have "priorities_ok {} s'"
    unfolding priorities_ok_def
  proof (intro allI impI conjI)
    fix u h assume h: "k_thread s' u = Some h"
    show "unat (th_init_priority h) < 32" using h k pi_invD(5) [OF pi] th by (auto split: if_splits)
    show "th_current_priority h = deserved s' u h"
    proof (cases "u = t")
      case True
      then have he: "h = set_priority (min (th_current_priority th) (mtx_ceiling_priority x)) th" using h k by simp
      have "deserved s' t h = min (deserved s t th) (mutex_level x')"
        unfolding deserved_def tk al_head_def he
        using held_priority_Cons [OF na [of t], of "k_mutex s'" x' "k_mutex s" "th_init_priority th"] by (simp add: mx)
      moreover have "mutex_level x' = mtx_ceiling_priority x" using x'(1,3) word_ff_ge by (simp add: mutex_level_def)
      ultimately show ?thesis using pi_invD(6) [OF pi th] True he by simp
    next
      case False
      then have "deserved s' u h = deserved s u h"
        unfolding deserved_def tk al_head_def
        by (intro held_priority_cong) (use na [of u] in \<open>auto simp: mx\<close>)
      with False h k pi_invD(6) [OF pi, of u h] show ?thesis by simp
    qed
  qed
  ultimately show ?thesis by (simp add: pi_inv_def)
qed

lemma running_set_priority:
  assumes "kwf s" and "k_thread s t = Some th" and "state_of th = RT_THREAD_RUNNING"
  shows "set_priority (th_current_priority th) th = th"
proof -
  have "th_number_mask th = prio_bit th"
    using running_mask [OF kinvD(5) [OF kwfD(1) [OF assms(1)], of "{}"] assms(2)] assms(3) by simp
  then show ?thesis by (cases th) (simp add: set_priority_def prio_bit_def prio_def)
qed

lemma mutex_acquire_spec:
  assumes kw: "kwf s" and pi: "pi_inv {} s" and th: "k_thread s t = Some th" and r: "state_of th = RT_THREAD_RUNNING"
    and x: "k_mutex s a = Some x" and o: "mtx_owner x = None"
  shows "\<exists>s'. mutex_acquire a t sf s = Some (Return RT_EOK, s') \<and> kwf s' \<and> pi_inv {} s' \<and>
    (\<exists>x'. k_mutex s' a = Some x' \<and> mtx_owner x' = Some t \<and> mtx_hold x' = 1) \<and> rt_current_thread s' = rt_current_thread s"
proof -
  let ?x = "x\<lparr>mtx_priority := 0xff, mtx_hold := 1, mtx_owner := Some t\<rparr>" and ?c = "mtx_ceiling_priority x"
  let ?s = "s\<lparr>k_mutex := (k_mutex s)(a \<mapsto> ?x)\<rparr>" and ?p = "min (th_current_priority th) (mtx_ceiling_priority x)"
  have ns: "\<not> suspended th" and cl: "state_of th \<noteq> 1" using suspended_no_ready [of th] r by auto
  have kw1: "kwf ?s" using kwf_same_ipc [of ?s s] kw by simp
  have th1: "k_thread ?s t = Some th" using th by simp
  have p32: "unat (th_current_priority th) < 32" using deserved_small [OF pi th] pi_invD(6) [OF pi th] by simp
  have "\<exists>s1. (if ?c \<noteq> 0xff \<and> ?c < th_current_priority th then thread_update_priority t ?c sf ?s else Some ?s) = Some s1 \<and>
    kwf s1 \<and> repriorised t ?p ?s s1"
  proof (cases "?c < th_current_priority th")
    case True
    then have "unat ?c < 32" using p32 by (simp add: word_less_nat_alt)
    from change_priority_spec [OF kw1 th1 cl this] obtain s1 where
      s1: "change_priority t ?c ?s = Some s1" "kwf s1" "repriorised t ?c ?s s1" by blast
    have "k_thread s1 t = Some (set_priority ?c th)" using repriorisedD(4) [OF s1(3) th1] by simp
    then have "thread_update_priority t ?c sf ?s = Some s1"
      using s1(1) ns by (subst thread_update_priority.simps) simp
    moreover have "?c \<noteq> 0xff" using True word_ff_ge [of "th_current_priority th"] by auto
    moreover have "?p = ?c" using True by (simp add: min.absorb2)
    ultimately show ?thesis using s1(2,3) True by simp
  next
    case False
    then have "?p = th_current_priority th" by (simp add: min.absorb1)
    then have "repriorised t ?p ?s ?s" using running_set_priority [OF kw th r] th by (simp add: repriorised_def fun_upd_idem)
    with False kw1 show ?thesis by simp
  qed
  then obtain s1 where s1: "(if ?c \<noteq> 0xff \<and> ?c < th_current_priority th then thread_update_priority t ?c sf ?s else Some ?s) = Some s1"
    "kwf s1" "repriorised t ?p ?s s1" by blast
  note d = repriorisedD [OF s1(3) th1]
  let ?s' = "taken_insert t a s1"
  have mx: "k_mutex s1 = (k_mutex s)(a \<mapsto> ?x)" "k_taken s1 = k_taken s" using ipc_sameD [OF d(1)] by simp_all
  have "pi_inv {} ?s'"
    by (rule acquired_inv [OF pi kw th ns cl x o, of ?x])
      (use d(3,4,5) mx in \<open>simp_all add: taken_insert_def\<close>)
  moreover have "kwf ?s'" using kwf_same_ipc [of ?s' s1] s1(2) by (simp add: taken_insert_def)
  moreover have "mutex_acquire a t sf s = Some (Return 0, ?s')"
  proof (cases "?c \<noteq> 0xff \<and> ?c < th_current_priority th")
    case True
    with x th s1(1) show ?thesis by (simp add: mutex_acquire_def)
  next
    case False
    then have e: "s1 = ?s" using s1(1) by (simp only: if_not_P if_False simp_thms option.inject)
    show ?thesis unfolding e using False x th by (auto simp: mutex_acquire_def)
  qed
  moreover have "k_mutex ?s' a = Some ?x" "rt_current_thread ?s' = rt_current_thread s"
    using mx d(2) by (simp_all add: taken_insert_def)
  ultimately show ?thesis by auto
qed

section \<open>Taking a mutex\<close>

definition mutex_taken :: "addr \<Rightarrow> addr \<Rightarrow> u8 \<Rightarrow> kstate \<Rightarrow> bool" where
  "mutex_taken m t n s \<longleftrightarrow> kwf s \<and> pi_inv {} s \<and> rt_current_thread s = Some t \<and>
    (\<exists>x. k_mutex s m = Some x \<and> mtx_owner x = Some t \<and> mtx_hold x = n)"

lemma mutex_take_spec:
  assumes kw: "kwf s" and pi: "pi_inv {} s" and ctx: "thread_context t s" and x: "k_mutex s a = Some x"
    and fin: "finite (dom (k_thread s))" and to: "timeout \<noteq> 0x7fffffff" and sf: "suspend_stat sf \<noteq> None"
  shows "case mtx_owner x of
      None \<Rightarrow> \<exists>s'. mutex_take a timeout sf s = Some (Return RT_EOK, s') \<and> mutex_taken a t 1 s'
    | Some w \<Rightarrow>
        if w = t then if mtx_hold x < RT_MUTEX_HOLD_MAX
          then \<exists>s'. mutex_take a timeout sf s = Some (Return RT_EOK, s') \<and> mutex_taken a t (mtx_hold x + 1) s'
          else \<exists>s'. mutex_take a timeout sf s = Some (Return (- RT_EFULL), s') \<and> mutex_taken a t (mtx_hold x) s'
        else if timeout = 0
          then \<exists>s'. mutex_take a timeout sf s = Some (Return (- RT_ETIMEOUT), s') \<and> kwf s' \<and> pi_inv {} s' \<and>
            k_mutex s' = k_mutex s \<and> k_list s' = k_list s
        else \<exists>s'. mutex_take a timeout sf s = Some (Blocked, s') \<and> mutex_waiting a t w timeout s s'"
proof -
  obtain th where th: "k_thread s t = Some th" "state_of th = RT_THREAD_RUNNING" and cur: "rt_current_thread s = Some t"
    using ctx by (auto simp: thread_context_def)
  let ?th = "th\<lparr>th_error := 0\<rparr>" let ?s = "s\<lparr>k_thread := (k_thread s)(t \<mapsto> ?th)\<rparr>"
  note sane = pi_invD(1) [OF pi x]
  have kw0: "kwf ?s" by (rule kwf_error [OF kw th(1)]) (simp add: th(2))
  have pi0: "pi_inv {} ?s" by (rule pi_inv_error [OF pi th(1)])
  have th0: "k_thread ?s t = Some ?th" "state_of ?th = 3" "th_error ?th = 0" using th by simp_all
  have x0: "k_mutex ?s a = Some x" using x by simp
  have e: "mutex_take a timeout sf s = (if mtx_owner x = Some t then mutex_again a x ?s
    else case mtx_owner x of None \<Rightarrow> mutex_acquire a t sf ?s | Some w \<Rightarrow> mutex_wait a w t timeout sf ?s)"
    using mutex_saneD(1) [OF sane] x th cur ctx by (simp add: mutex_take_def assert_type_class rt_thread_self_def)
  show ?thesis
  proof (cases "mtx_owner x")
    case None
    with mutex_acquire_spec [OF kw0 pi0 th0(1,2) x0 None, of sf] e cur show ?thesis by (auto simp: mutex_taken_def)
  next
    case (Some w)
    show ?thesis
    proof (cases "w = t")
      case True
      let ?s1 = "?s\<lparr>k_mutex := (k_mutex ?s)(a \<mapsto> x\<lparr>mtx_hold := mtx_hold x + 1\<rparr>)\<rparr>"
      have "kwf ?s1" using kwf_same_ipc [of ?s1 ?s] kw0 by simp
      with True Some e cur kw0 pi0 x pi_inv_hold [OF pi0 x0, of "mtx_hold x + 1"] show ?thesis
        by (auto simp: mutex_again_def mutex_taken_def)
    next
      case False
      show ?thesis
      proof (cases "timeout = 0")
        case True
        let ?s1 = "?s\<lparr>k_thread := (k_thread ?s)(t \<mapsto> ?th\<lparr>th_error := - 2\<rparr>)\<rparr>"
        have "kwf ?s1" by (rule kwf_error [OF kw0 th0(1)]) (simp add: th(2))
        moreover have "pi_inv {} ?s1" by (rule pi_inv_error [OF pi0 th0(1)])
        ultimately show ?thesis using True False Some e by (auto simp: mutex_wait_def)
      next
        case nz: False
        have "finite (dom (k_thread ?s))" using fin by simp
        from mutex_wait_spec [OF kw0 pi0 _ th0 x0 Some False this nz to sf] cur obtain s' where
          s': "mutex_wait a w t timeout sf ?s = Some (Blocked, s')" "mutex_waiting a t w timeout ?s s'" by auto
        have "mutex_waiting a t w timeout s s'" using s'(2) by (simp add: mutex_waiting_def)
        with s'(1) e Some False nz show ?thesis by auto
      qed
    qed
  qed
qed

end
