(* ===== verification/MutexGive.thy ===== *)
theory MutexGive
  imports MutexTake
begin

text \<open>
  Giving a mutex back: the last release restores the priority of the owner to what its other
  mutexes deserve and hands the mutex to its first waiting thread; the priority inheritance
  invariant holds again.
\<close>

section \<open>A thread leaves the queue of a mutex\<close>

lemma left_inv:
  assumes pi: "pi_inv {} s" and kw: "kwf s" and x: "k_mutex s a = Some x" and o: "mtx_owner x = Some w"
    and n: "n \<in> set (k_list s (SuspendQ a))" and th: "k_thread s n = Some th"
    and h: "th_current_priority h = th_current_priority th" "th_init_priority h = th_init_priority th"
      "th_pending_object h = None" "state_of h \<noteq> RT_THREAD_CLOSE"
    and k: "k_thread s' = (k_thread s)(n \<mapsto> h)"
    and l: "\<And>m. k_list s' (SuspendQ m) = (if m = a then remove1 n (k_list s (SuspendQ a)) else k_list s (SuspendQ m))"
    and mx: "k_mutex s' = (k_mutex s)(a \<mapsto> x\<lparr>mtx_priority := front_priority s' a\<rparr>)"
    and e: "\<And>r. k_obj s' (Obj r) = k_obj s (Obj r)" "k_taken s' = k_taken s"
  shows "pi_inv {w} s'"
proof -
  note sane = pi_invD(1) [OF pi x]
  have cl: "is_class (Obj r) c s' = is_class (Obj r) c s" "ipc_flag s' r = ipc_flag s r" for r c
    by (simp_all add: e is_class_def ipc_flag_def)
  have sep: "separate (k_list s)" by (rule inv_outD(1) [OF kinvD(5) [OF kwfD(1) [OF kw], of "{}"]])
  have nq: "n \<notin> set (k_list s (SuspendQ r))" if "r \<noteq> a" for r using separate_eq [OF sep n] that by blast
  have dq: "distinct (k_list s (SuspendQ a))" by (rule separate_distinct [OF sep])
  have po: "prio_of (k_thread s') = prio_of (k_thread s)"
    using th h(1) by (auto simp: fun_eq_iff prio_of_def prio_def k)
  have owner: "\<exists>h. k_thread s' v = Some h \<and> state_of h \<noteq> RT_THREAD_CLOSE"
    if "k_mutex s r = Some y" "mtx_owner y = Some v" for r y v
    using mutex_saneD(7) [OF pi_invD(1) [OF pi that(1)] that(2)] h(4) k by (cases "v = n") auto
  have "mutex_sane s' r y" if y: "k_mutex s r = Some y" "r \<noteq> a" for r y
  proof -
    have lr: "k_list s' (SuspendQ r) = k_list s (SuspendQ r)" using l [of r] y(2) by simp
    have sm: "k_thread s' u = k_thread s u" if "u \<in> set (k_list s (SuspendQ r))" for u using that nq [OF y(2)] k by auto
    show ?thesis
      using mutex_saneD(1-6) [OF pi_invD(1) [OF pi y(1)]] front_priority_cong [OF lr sm] lr sm owner [OF y(1)]
      unfolding mutex_sane_def cl by (auto split: option.split)
  qed
  moreover have "mutex_sane s' a (x\<lparr>mtx_priority := front_priority s' a\<rparr>)"
  proof -
    have "prio_sorted s' (k_list s' (SuspendQ a))"
      using sorted_remove1 mutex_saneD(4) [OF sane] l [of a] by (simp add: prio_sorted_def po)
    moreover have "\<exists>h. k_thread s' u = Some h \<and> th_pending_object h = Some a" if "u \<in> set (k_list s' (SuspendQ a))" for u
      using that l [of a] dq mutex_saneD(5) [OF sane, of u] k by (cases "u = n") auto
    ultimately show ?thesis using mutex_saneD(1,2) [OF sane] owner [OF x] o by (simp add: mutex_sane_def cl)
  qed
  ultimately have "mutexes_ok s'" by (auto simp: mutexes_ok_def mx)
  moreover have "taken_ok s'" using pi x unfolding pi_inv_def taken_ok_def by (auto simp: mx e)
  moreover have "pending_ok s'"
    unfolding pending_ok_def
  proof (intro allI impI conjI)
    show "k_obj s' (Obj r) \<noteq> None" if "k_thread s' u = Some g" "suspended g" "th_pending_object g = Some r" for u g r
      using that pi_invD(7) [OF pi, of u g r] k e(1) h(3) by (cases "u = n") auto
    fix u r assume w': "waits_on s' u r"
    have un: "u \<noteq> n" using w' k h(3) by (auto simp: waits_on_def)
    then have "waits_on s u r" using w' k by (simp add: waits_on_def cl)
    with pi_invD(4) [OF pi] l [of r] un show "k_mutex s' r \<noteq> None" "u \<in> set (k_list s' (SuspendQ r))"
      by (auto simp: mx)
  qed
  moreover have "priorities_ok {w} s'"
    unfolding priorities_ok_def
  proof (intro allI impI conjI)
    fix u g assume g: "k_thread s' u = Some g"
    show "unat (th_init_priority g) < 32" using g k h(2) pi_invD(5) [OF pi] th by (auto split: if_splits)
    assume u: "u \<notin> {w}"
    have dd: "deserved s' u g = held_priority (k_mutex s) (th_init_priority g) (k_taken s u)"
      unfolding deserved_def e
      by (rule held_priority_cong) (use u pi_invD(3) [OF pi, of _ u] x o in \<open>auto simp: mx\<close>)
    show "th_current_priority g = deserved s' u g"
      using g k h(1,2) pi_invD(6) [OF pi, of u] th dd by (cases "u = n") (auto simp: deserved_def)
  qed
  ultimately show "pi_inv {w} s'" by (simp add: pi_inv_def)
qed

section \<open>A mutex changes hands\<close>

definition take_over :: "addr \<Rightarrow> addr option \<Rightarrow> (addr \<Rightarrow> addr list) \<Rightarrow> addr \<Rightarrow> addr list" where
  "take_over a no f = (case no of None \<Rightarrow> al_remove a f | Some n \<Rightarrow> al_head n a (al_remove a f))"

lemma set_take_over:
  assumes "separate f"
  shows "m \<in> set (take_over a no f u) \<longleftrightarrow> (if m = a then no = Some u else m \<in> set (f u))"
    and "separate (take_over a no f)"
proof -
  have r: "set (al_remove a f u) = set (f u) - {a}" for u
    using separate_distinct [OF assms] by (simp add: al_remove_def)
  show "m \<in> set (take_over a no f u) \<longleftrightarrow> (if m = a then no = Some u else m \<in> set (f u))"
    using r by (auto simp: take_over_def al_head_def split: option.split)
  have sep: "separate (al_remove a f)" using separate_remove [OF assms] by (simp add: al_remove_def)
  have u: "unlinked (al_remove a f) a" using r by (simp add: unlinked_def)
  show "separate (take_over a no f)"
  proof (cases no)
    case (Some n)
    have "distinct (a # al_remove a f n)" using separate_distinct [OF sep, of n] r by simp
    with separate_add [OF sep u, of "a # al_remove a f n" n] Some show ?thesis by (simp add: take_over_def al_head_def)
  qed (simp add: take_over_def sep)
qed

lemma rehomed_inv:
  assumes pi: "pi_inv {t} s" and nq: "\<And>m. t \<notin> set (k_list s (SuspendQ m))"
    and th: "k_thread s t = Some th" and ns: "\<not> suspended th"
    and x: "k_mutex s a = Some x" and o: "mtx_owner x = Some t"
    and p: "p = held_priority (k_mutex s) (th_init_priority th) (remove1 a (k_taken s t))"
    and no: "\<And>n. no = Some n \<Longrightarrow> n \<noteq> t \<and> (\<exists>h. k_thread s n = Some h \<and> state_of h \<noteq> RT_THREAD_CLOSE \<and>
      th_current_priority h \<le> mutex_level x)" "no = None \<Longrightarrow> k_list s (SuspendQ a) = []"
    and x': "mtx_priority x' = mtx_priority x" "mtx_ceiling_priority x' = mtx_ceiling_priority x" "mtx_owner x' = no"
    and k: "k_thread s' = (k_thread s)(t \<mapsto> set_priority p th)"
    and l: "\<And>m. k_list s' (SuspendQ m) = k_list s (SuspendQ m)"
    and mx: "k_mutex s' = (k_mutex s)(a \<mapsto> x')" and tk: "k_taken s' = take_over a no (k_taken s)" and ob: "k_obj s' = k_obj s"
  shows "pi_inv {} s'"
proof -
  note sane = pi_invD(1) [OF pi x]
  have nw: "\<not> waits_on s t m" for m using th ns by (simp add: waits_on_def)
  have sep: "separate (k_taken s)" by (rule pi_invD(2) [OF pi])
  have lv: "mutex_level x' = mutex_level x" using x' by (simp add: mutex_level_def)
  have ms: "mutex_sane s' m y" if "k_mutex s m = Some y" for m y
    by (rule mutex_sane_outside [OF pi th k ob that l nq])
  have "mutex_sane s' a x'"
  proof -
    have "\<exists>h. k_thread s' n = Some h \<and> state_of h \<noteq> RT_THREAD_CLOSE" if "no = Some n" for n
      using no(1) [OF that] k by auto
    moreover have "k_list s' (SuspendQ a) = []" if "no = None" using no(2) [OF that] l [of a] by simp
    ultimately show ?thesis using mutex_saneD(1-5) [OF ms [OF x]] x' by (auto simp: mutex_sane_def split: option.split)
  qed
  with ms have "mutexes_ok s'" by (simp add: mutexes_ok_def mx)
  moreover have "taken_ok s'"
    using set_take_over [OF sep] pi_invD(3) [OF pi] x' by (auto simp: taken_ok_def tk mx split: if_splits)
  moreover have "pending_ok s'"
    unfolding pending_ok_def waits_on_set_priority [OF th k ob] l ob mx
    using pi_invD(4,7) [OF pi] k th by auto
  moreover have "priorities_ok {} s'"
    unfolding priorities_ok_def
  proof (intro allI impI conjI)
    fix u h assume h: "k_thread s' u = Some h"
    show "unat (th_init_priority h) < 32" using h k pi_invD(5) [OF pi] th by (auto split: if_splits)
    show "th_current_priority h = deserved s' u h"
    proof (cases "u = t")
      case True
      then have he: "h = set_priority p th" using h k by simp
      have "no \<noteq> Some t" using no(1) [of t] by auto
      then have "set (take_over a no (k_taken s) t) = set (remove1 a (k_taken s t))"
        using set_take_over(1) [OF sep, of _ a no t] separate_distinct [OF sep, of t] by (auto split: if_splits)
      then have "deserved s' t h = p" unfolding deserved_def tk he p set_priority_simps
        by (intro held_priority_cong) (use separate_distinct [OF sep, of t] in \<open>auto simp: mx\<close>)
      with True he show ?thesis by simp
    next
      case False
      then have g: "k_thread s u = Some h" using h k by simp
      have c: "th_current_priority h = held_priority (k_mutex s) (th_init_priority h) (k_taken s u)"
        using pi_invD(6) [OF pi g] False by (simp add: deserved_def)
      have na: "a \<notin> set (k_taken s u)" using pi_invD(3) [OF pi, of a u] x o False by simp
      have mn: "k_mutex s' r = k_mutex s r" if "r \<noteq> a" for r using that mx by simp
      show ?thesis
      proof (cases "no = Some u")
        case True
        have tu: "take_over a no (k_taken s) u = a # k_taken s u"
          using True na by (simp add: take_over_def al_head_def al_remove_def remove1_idem)
        have "deserved s' u h = min (th_current_priority h) (mutex_level x')"
          unfolding deserved_def tk tu c by (rule held_priority_Cons [OF na _ mn]) (simp add: mx)
        then show ?thesis using no(1) [OF True] g lv by (simp add: min.absorb1)
      next
        case nu: False
        have tu: "set (take_over a no (k_taken s) u) = set (k_taken s u)"
        proof (rule set_eqI)
          show "m \<in> set (take_over a no (k_taken s) u) \<longleftrightarrow> m \<in> set (k_taken s u)" for m
            unfolding set_take_over(1) [OF sep] using nu na by auto
        qed
        have lu: "mutex_level (the (k_mutex s' r)) = mutex_level (the (k_mutex s r))" if "r \<in> set (k_taken s u)" for r
          using that na mn [of r] by (cases "r = a") simp_all
        show ?thesis unfolding deserved_def tk c by (rule held_priority_cong [OF lu tu, symmetric])
      qed
    qed
  qed
  ultimately show ?thesis by (simp add: pi_inv_def)
qed

lemma held_priority_remove1:
  assumes "a \<in> set l" and "distinct l" and "ms a = Some x"
  shows "held_priority ms i l = min (held_priority ms i (remove1 a l)) (mutex_level x)"
proof -
  have "held_priority ms i l = held_priority ms i (a # remove1 a l)"
    by (rule held_priority_cong) (use assms in auto)
  also have "\<dots> = min (held_priority ms i (remove1 a l)) (mutex_level x)"
    by (rule held_priority_Cons) (use assms in auto)
  finally show ?thesis .
qed

lemma pi_inv_mono: "pi_inv {} s \<Longrightarrow> pi_inv T s"
  by (auto simp: pi_inv_def priorities_ok_def)

lemma kwf_unlink:
  assumes kw: "kwf s" and th: "k_thread s t = Some th" and su: "suspended th"
  shows "kwf (tlist_remove t s)"
proof -
  note k = kwfD(1) [OF kw]
  have nr: "state_of th \<noteq> RT_THREAD_READY" using suspended_no_ready [OF su] by simp
  let ?s1 = "tlist_remove t s"
  have f: "k_thread ?s1 = k_thread s" "k_obj ?s1 = k_obj s" "k_timer ?s1 = k_timer s" "k_timers ?s1 = k_timers s"
    by (simp_all add: tlist_remove_def)
  have "kinv ?s1"
    by (rule kinv_one_thread [OF k th inv_out_unlink(1) [OF kinvD(5) [OF k, of "{}"] th nr], of th])
      (use f th suspended_no_ready [OF su] in auto)
  with kwfD(2,3) [OF kw] f show ?thesis by (simp add: kwf_def thread_timers_def armed_ok_def)
qed

section \<open>The last release\<close>

definition kept_priority :: "kstate \<Rightarrow> addr \<Rightarrow> addr \<Rightarrow> rt_thread \<Rightarrow> u8" where
  "kept_priority s a t th = held_priority (k_mutex s) (th_init_priority th) (remove1 a (k_taken s t))"

text \<open>The state after the count has dropped to zero and the mutex has left the owner's list.\<close>

definition given_back :: "addr \<Rightarrow> rt_mutex \<Rightarrow> kstate \<Rightarrow> kstate" where
  "given_back a x s = s\<lparr>k_mutex := (k_mutex s)(a \<mapsto> x\<lparr>mtx_hold := 0\<rparr>), k_taken := al_remove a (k_taken s)\<rparr>"

lemma mutex_restore_spec:
  assumes kw: "kwf s" and pi: "pi_inv {} s" and th: "k_thread s t = Some th" and r: "state_of th = RT_THREAD_RUNNING"
    and x: "k_mutex s a = Some x" and o: "mtx_owner x = Some t"
  shows "\<exists>b s'. mutex_restore a t (given_back a x s) = Some (b, s') \<and> kwf s' \<and>
    repriorised t (kept_priority s a t th) (given_back a x s) s'"
proof -
  let ?s = "given_back a x s" and ?p = "kept_priority s a t th"
  have kw1: "kwf ?s" using kwf_same_ipc [of ?s s] kw by (simp add: given_back_def)
  have e: "k_thread ?s = k_thread s" "k_mutex ?s = (k_mutex s)(a \<mapsto> x\<lparr>mtx_hold := 0\<rparr>)"
    "k_taken ?s t = remove1 a (k_taken s t)" by (simp_all add: given_back_def al_remove_def)
  have at: "a \<in> set (k_taken s t)" using pi_invD(3) [OF pi, of a t] x o by simp
  have dt: "distinct (k_taken s t)" by (rule separate_distinct [OF pi_invD(2) [OF pi]])
  have "held_priority (k_mutex ?s) (th_init_priority th) (remove1 a (k_taken s t)) = ?p"
    unfolding kept_priority_def by (rule held_priority_cong) (use dt in \<open>auto simp: e\<close>)
  moreover have "k_mutex ?s m \<noteq> None" if "m \<in> set (remove1 a (k_taken s t))" for m
    using that pi_invD(3) [OF pi, of m t] e(2) by (auto dest: notin_set_remove1)
  ultimately have g: "thread_get_mutex_priority t ?s = Some ?p"
    using th by (simp add: thread_get_mutex_priority_def e taken_priority_Min)
  have "unat ?p \<le> unat (th_init_priority th)"
    using held_priority_le unfolding kept_priority_def by (simp only: word_le_nat_alt)
  then have p32: "unat ?p < 32" using pi_invD(5) [OF pi th] by linarith
  from r have cl: "state_of th \<noteq> 1" by simp
  have th1: "k_thread ?s t = Some th" using th e by simp
  from change_priority_spec [OF kw1 th1 cl p32] obtain s1 where
    s1: "change_priority t ?p ?s = Some s1" "kwf s1" "repriorised t ?p ?s s1" by blast
  show ?thesis
  proof (cases "mtx_ceiling_priority x \<noteq> 0xff \<or> th_current_priority th = mtx_priority x")
    case True
    with s1 g th1 e(2) show ?thesis by (auto simp: mutex_restore_def)
  next
    case False
    have "th_current_priority th = min ?p (mutex_level x)"
      using pi_invD(6) [OF pi th] held_priority_remove1 [OF at dt, where ms = "k_mutex s", OF x] by (simp add: deserved_def kept_priority_def)
    moreover have "mutex_level x = mtx_priority x"
      using False word_ff_ge [of "mtx_priority x"] by (simp add: mutex_level_def min.absorb1)
    ultimately have "?p = th_current_priority th" using False by (auto simp: min_def split: if_splits)
    then have "set_priority ?p th = th" using running_set_priority [OF kw th r] by simp
    then have "repriorised t ?p ?s ?s" using th1 by (simp add: repriorised_def fun_upd_idem)
    with False kw1 th1 e(2) show ?thesis by (auto simp: mutex_restore_def)
  qed
qed

lemma not_queued: "kwf s \<Longrightarrow> k_thread s t = Some th \<Longrightarrow> \<not> suspended th \<Longrightarrow> t \<notin> set (k_list s (SuspendQ m))"
  using waitq_suspended [of s "SuspendQ m" t] kwfD(1) [of s] by auto

text \<open>No thread waits: the mutex is free.\<close>

lemma pass_on_free:
  assumes kw: "kwf s" and pi: "pi_inv {} s" and th: "k_thread s t = Some th" and ns: "\<not> suspended th"
    and x: "k_mutex s a = Some x" and o: "mtx_owner x = Some t" and q: "k_list s (SuspendQ a) = []"
    and kw2: "kwf s2" and r: "repriorised t (kept_priority s a t th) (given_back a x s) s2"
  shows "\<exists>s'. mutex_pass_on a b s2 = Some (b, s') \<and> kwf s' \<and> pi_inv {} s' \<and>
    k_mutex s' a = Some (x\<lparr>mtx_hold := 0, mtx_priority := 0xff, mtx_owner := None\<rparr>) \<and>
    k_thread s' t = Some (set_priority (kept_priority s a t th) th) \<and> rt_current_thread s' = rt_current_thread s"
proof -
  have th1: "k_thread (given_back a x s) t = Some th" using th by (simp add: given_back_def)
  note d = repriorisedD [OF r th1]
  note e = ipc_sameD [OF d(1)]
  have l2: "k_list s2 (SuspendQ m) = k_list s (SuspendQ m)" for m using d(3) [of "SuspendQ m"] by (simp add: given_back_def)
  let ?x = "x\<lparr>mtx_hold := 0, mtx_priority := 0xff, mtx_owner := None\<rparr>"
  let ?s = "s2\<lparr>k_mutex := (k_mutex s2)(a \<mapsto> ?x)\<rparr>"
  have x2: "k_mutex s2 a = Some (x\<lparr>mtx_hold := 0\<rparr>)" using e by (simp add: given_back_def)
  have p: "mtx_priority x = 0xff" using mutex_saneD(3) [OF pi_invD(1) [OF pi x]] q by (simp add: front_priority_def)
  have "pi_inv {} ?s"
    by (rule rehomed_inv [where no = None and s' = ?s, OF pi_inv_mono [OF pi] not_queued [OF kw th ns] th ns x o kept_priority_def])
      (use q p d l2 e in \<open>simp_all add: given_back_def take_over_def\<close>)
  moreover have "kwf ?s" using kwf_same_ipc [of ?s s2] kw2 by simp
  moreover have "mutex_pass_on a b s2 = Some (b, ?s)" using q l2 x2 by (simp add: mutex_pass_on_def)
  ultimately show ?thesis using d(2,4) by (simp add: given_back_def)
qed

text \<open>The first waiting thread gets the mutex and is ready.\<close>

definition next_thread :: "rt_thread \<Rightarrow> bool \<Rightarrow> rt_thread" where
  "next_thread h cur = set_state (if cur then 3 else 2) (h\<lparr>th_pending_object := None\<rparr>)"

lemma pass_on_steps:
  assumes kw: "kwf s" and hn: "k_thread s n = Some hn" "suspended hn" and q: "k_list s (SuspendQ a) = n # q"
    and x: "k_mutex s a = Some x"
  shows "\<exists>s'. mutex_pass_on a b s = Some (True, s') \<and> kwf s' \<and>
    k_thread s' = (k_thread s)(n \<mapsto> next_thread hn (rt_current_thread s = Some n)) \<and>
    (\<forall>m. k_list s' (SuspendQ m) = (if m = a then q else k_list s (SuspendQ m))) \<and>
    k_mutex s' = (k_mutex s)(a \<mapsto> x\<lparr>mtx_hold := 1, mtx_owner := Some n, mtx_priority := front_priority s' a\<rparr>) \<and>
    k_taken s' = al_head n a (k_taken s) \<and> (\<forall>r. k_obj s' (Obj r) = k_obj s (Obj r)) \<and>
    rt_current_thread s' = rt_current_thread s"
proof -
  let ?h0 = "hn\<lparr>th_pending_object := None\<rparr>" and ?x = "x\<lparr>mtx_hold := 1, mtx_owner := Some n\<rparr>"
  define s1 where "s1 = tlist_remove n s"
  define s2 where "s2 = taken_insert n a (s1\<lparr>k_mutex := (k_mutex s)(a \<mapsto> ?x)\<rparr>)"
  define s3 where "s3 = s2\<lparr>k_thread := (k_thread s)(n \<mapsto> ?h0)\<rparr>"
  define s4 where "s4 = woken (th_error ?h0) n ?h0 s3"
  define s5 where "s5 = s4\<lparr>k_mutex := (k_mutex s4)(a \<mapsto> ?x\<lparr>mtx_priority := front_priority s4 a\<rparr>)\<rparr>"
  have f2: "k_thread s2 = k_thread s" by (simp add: s2_def s1_def taken_insert_def tlist_remove_def)
  have kw2: "kwf s2" using kwf_same_ipc [of s2 s1] kwf_unlink [OF kw hn] by (simp add: s2_def s1_def taken_insert_def)
  have hn2: "k_thread s2 n = Some hn" "state_of hn \<noteq> 1" using hn f2 suspended_no_ready by auto
  have kw3: "kwf s3" using kwf_thread_data [OF kw2 hn2, of ?h0] f2 by (simp add: s3_def stack_ok_def)
  have h3: "k_thread s3 n = Some ?h0" "suspended ?h0" using hn by (simp_all add: s3_def suspended_def)
  have e3: "s3\<lparr>k_thread := (k_thread s3)(n \<mapsto> ?h0\<lparr>th_error := th_error ?h0\<rparr>)\<rparr> = s3" by (simp add: s3_def)
  have r4: "rt_thread_resume n s3 = Some (0, s4)"
    using resume_woken(1) [OF kwfD(1) [OF kw3] h3, of "th_error ?h0"] unfolding e3 s4_def .
  have kw4: "kwf s4" unfolding s4_def by (rule woken_kwf [OF kw3 h3])
  note e4 = ipc_sameD [OF woken_same [of s3 "th_error ?h0" n ?h0], folded s4_def]
  have f4: "k_thread s4 = (k_thread s)(n \<mapsto> next_thread hn (rt_current_thread s = Some n))" "rt_current_thread s4 = rt_current_thread s"
    by (simp_all add: s4_def s3_def s2_def s1_def taken_insert_def tlist_remove_def next_thread_def)
  have nq: "n \<in> set (k_list s (SuspendQ a))" using q by simp
  have l4: "k_list s4 (SuspendQ m) = (if m = a then q else k_list s (SuspendQ m))" for m
  proof -
    have "k_list s4 (SuspendQ m) = remove1 n (remove1 n (k_list s (SuspendQ m)))"
      unfolding s4_def by (subst woken_queue) (simp_all add: s3_def s2_def s1_def taken_insert_def tlist_remove_def al_remove_def)
    moreover have "remove1 n (k_list s (SuspendQ m)) = k_list s (SuspendQ m)" if "m \<noteq> a"
      using waitq_head_only [OF kwfD(1) [OF kw] nq, of "SuspendQ m"] that by simp
    moreover have "n \<notin> set q"
      using separate_distinct [OF inv_outD(1) [OF kinvD(5) [OF kwfD(1) [OF kw], of "{}"]], of "SuspendQ a"] q by simp
    ultimately show ?thesis using q by (simp add: remove1_idem)
  qed
  have x4: "k_mutex s4 a = Some ?x" using e4(2) by (simp add: s3_def s2_def taken_insert_def)
  have "k_thread s4 u \<noteq> None" if "u \<in> set (k_list s4 (SuspendQ a))" for u
    using waitq_suspended [OF kwfD(1) [OF kw4] is_waitq_simps(1) that] by auto
  from update_priority_front [OF x4 this] have u4: "mutex_update_priority a s4 = Some (front_priority s4 a, s5)"
    by (simp add: s5_def)
  have xs: "upd_mutex a (\<lambda>x. x\<lparr>mtx_hold := 1, mtx_owner := Some n\<rparr>) s1 = Some (s1\<lparr>k_mutex := (k_mutex s)(a \<mapsto> ?x)\<rparr>)"
    using upd_mutex_Some [of s1 a x] x by (simp add: s1_def tlist_remove_def)
  have ts: "upd_thread n (\<lambda>th. th\<lparr>th_pending_object := None\<rparr>) s2 = Some s3" using hn2 f2 by (simp add: s3_def)
  have "mutex_pass_on a b s = Some (True, s5)"
    by (simp add: mutex_pass_on_def q s1_def [symmetric] xs s2_def [symmetric] ts r4 u4)
  moreover have "kwf s5" using kwf_same_ipc [of s5 s4] kw4 by (simp add: s5_def)
  moreover have "front_priority s5 a = front_priority s4 a" by (simp add: s5_def front_priority_def split: list.split)
  moreover have "k_mutex s5 = (k_mutex s)(a \<mapsto> ?x\<lparr>mtx_priority := front_priority s4 a\<rparr>)"
    "k_taken s5 = al_head n a (k_taken s)" "k_obj s5 (Obj r) = k_obj s (Obj r)" for r
    using e4 by (simp_all add: s5_def s3_def s2_def s1_def taken_insert_def tlist_remove_def)
  ultimately show ?thesis using l4 f4 by (intro exI [of _ s5]) (simp add: s5_def)
qed

lemma next_thread_simps [simp]:
  "th_current_priority (next_thread h c) = th_current_priority h" "th_init_priority (next_thread h c) = th_init_priority h"
  "th_pending_object (next_thread h c) = None" "runnable (next_thread h c)" "state_of (next_thread h c) \<noteq> RT_THREAD_CLOSE"
  by (simp_all add: next_thread_def runnable_def)

lemma next_lower:
  assumes sane: "mutex_sane s a x" and q: "k_list s (SuspendQ a) = n # q" and hn: "k_thread s n = Some hn"
    and q': "k_list s' (SuspendQ a) = q" and th: "\<And>u. u \<in> set q \<Longrightarrow> k_thread s' u = k_thread s u"
  shows "th_current_priority hn \<le> front_priority s' a"
proof (cases q)
  case Nil
  then show ?thesis using q' word_ff_ge by (simp add: front_priority_def)
next
  case (Cons u us)
  with q mutex_saneD(5) [OF sane, of u] obtain hu where hu: "k_thread s u = Some hu" by auto
  have "prio_of (k_thread s) n \<le> prio_of (k_thread s) u"
    using mutex_saneD(4) [OF sane] q Cons by (simp add: prio_sorted_def)
  then show ?thesis using q' th [of u] Cons hn hu by (simp add: front_priority_def prio_of_def prio_def word_le_nat_alt)
qed

lemma pass_on_next:
  assumes kw: "kwf s" and pi: "pi_inv {} s" and th: "k_thread s t = Some th" and ns: "\<not> suspended th"
    and x: "k_mutex s a = Some x" and o: "mtx_owner x = Some t" and q: "k_list s (SuspendQ a) = n # q"
    and c: "mtx_priority x \<le> mtx_ceiling_priority x"
    and kw2: "kwf s2" and r: "repriorised t (kept_priority s a t th) (given_back a x s) s2"
  shows "\<exists>s' x' h. mutex_pass_on a b s2 = Some (True, s') \<and> kwf s' \<and> pi_inv {} s' \<and>
    k_mutex s' a = Some x' \<and> mtx_hold x' = 1 \<and> mtx_owner x' = Some n \<and> k_list s' (SuspendQ a) = q \<and>
    k_thread s' n = Some h \<and> runnable h \<and> th_pending_object h = None \<and>
    k_thread s' t = Some (set_priority (kept_priority s a t th) th) \<and> rt_current_thread s' = rt_current_thread s"
proof -
  have th1: "k_thread (given_back a x s) t = Some th" using th by (simp add: given_back_def)
  note d = repriorisedD [OF r th1]
  note e = ipc_sameD [OF d(1)]
  note sane = pi_invD(1) [OF pi x]
  have l2: "k_list s2 (SuspendQ m) = k_list s (SuspendQ m)" for m using d(3) [of "SuspendQ m"] by (simp add: given_back_def)
  have nq: "n \<in> set (k_list s (SuspendQ a))" using q by simp
  from waitq_suspended [OF kwfD(1) [OF kw] is_waitq_simps(1) nq] obtain hn where
    hn: "k_thread s n = Some hn" "suspended hn" by auto
  have nt: "n \<noteq> t" using hn th ns by auto
  have dq: "n \<notin> set q"
    using separate_distinct [OF inv_outD(1) [OF kinvD(5) [OF kwfD(1) [OF kw], of "{}"]], of "SuspendQ a"] q by simp
  have hn2: "k_thread s2 n = Some hn" using d(4) hn nt by (simp add: given_back_def)
  let ?h = "next_thread hn (rt_current_thread s2 = Some n)" and ?x2 = "x\<lparr>mtx_hold := 0\<rparr>"
  have x2: "k_mutex s2 a = Some ?x2" using e by (simp add: given_back_def)
  from pass_on_steps [OF kw2 hn2 hn(2) _ x2, of q b] l2 q obtain s' where
    s': "mutex_pass_on a b s2 = Some (True, s')" "kwf s'" "k_thread s' = (k_thread s2)(n \<mapsto> ?h)"
      "\<And>m. k_list s' (SuspendQ m) = (if m = a then q else k_list s (SuspendQ m))"
      "k_mutex s' = (k_mutex s2)(a \<mapsto> ?x2\<lparr>mtx_hold := 1, mtx_owner := Some n, mtx_priority := front_priority s' a\<rparr>)"
      "k_taken s' = al_head n a (k_taken s2)" "\<And>r. k_obj s' (Obj r) = k_obj s2 (Obj r)"
      "rt_current_thread s' = rt_current_thread s2" by auto
  let ?f = "front_priority s' a" and ?x1 = "x\<lparr>mtx_priority := front_priority s' a\<rparr>"
  let ?sA = "s\<lparr>k_thread := (k_thread s)(n \<mapsto> ?h), k_list := k_list s', k_mutex := (k_mutex s)(a \<mapsto> ?x1), k_obj := k_obj s'\<rparr>"
  have tq: "k_thread s' u = k_thread ?sA u" if "u \<in> set (k_list ?sA (SuspendQ a))" for u
    using that waitq_suspended [OF kwfD(1) [OF s'(2)] is_waitq_simps(1), of u a] s'(3) d(4) th ns nt
    by (cases "u = t") (auto simp: given_back_def)
  have fA: "front_priority s' a = front_priority ?sA a" by (rule front_priority_cong(1) [OF _ tq]) simp
  have ob: "k_obj s' (Obj r) = k_obj s (Obj r)" for r using s'(7) d(5) by (simp add: given_back_def)
  have sA: "pi_inv {t} ?sA"
    by (rule left_inv [OF pi kw x o nq hn(1), of ?h])
      (use s'(4) q ob fA in \<open>simp_all\<close>)
  have "pi_inv {} s'"
  proof (rule rehomed_inv [where no = "Some n" and a = a and p = "kept_priority s a t th", OF sA])
    show "t \<notin> set (k_list ?sA (SuspendQ m))" for m using not_queued [OF kw th ns, of m] not_queued [OF kw th ns, of a] s'(4) [of m] q by auto
    show "k_thread ?sA t = Some th" "\<not> suspended th" "k_mutex ?sA a = Some ?x1" "mtx_owner ?x1 = Some t"
      using th ns nt o by simp_all
    show "kept_priority s a t th = held_priority (k_mutex ?sA) (th_init_priority th) (remove1 a (k_taken ?sA t))"
      unfolding kept_priority_def
      by (rule held_priority_cong) (use separate_distinct [OF pi_invD(2) [OF pi], of t] in auto)
    have "th_current_priority hn \<le> ?f"
      by (rule next_lower [OF sane q hn(1)]) (use s'(4) tq in \<open>auto simp: dq\<close>)
    then have "th_current_priority hn \<le> mutex_level ?x1"
      using c mutex_saneD(3) [OF sane] q hn by (simp add: mutex_level_def front_priority_def)
    then show "m \<noteq> t \<and> (\<exists>h. k_thread ?sA m = Some h \<and> state_of h \<noteq> RT_THREAD_CLOSE \<and> th_current_priority h \<le> mutex_level ?x1)"
      if "Some n = Some m" for m using that nt by simp
    show "k_thread s' = (k_thread ?sA)(t \<mapsto> set_priority (kept_priority s a t th) th)"
      using s'(3) d(4) nt by (auto simp: given_back_def)
    show "k_taken s' = take_over a (Some n) (k_taken ?sA)" using s'(6) e by (simp add: take_over_def given_back_def)
  qed (use s'(5) e in \<open>simp_all add: given_back_def\<close>)
  moreover have "k_thread s' t = Some (set_priority (kept_priority s a t th) th)" using s'(3) d(4) nt by simp
  moreover have "rt_current_thread s' = rt_current_thread s" using s'(8) d(2) by (simp add: given_back_def)
  ultimately show ?thesis using s'(1,2,3,4,5) by (intro exI [of _ s'] exI) auto
qed

section \<open>Release\<close>

definition released :: "addr \<Rightarrow> addr \<Rightarrow> kstate \<Rightarrow> kstate \<Rightarrow> bool" where
  "released a t s s' \<longleftrightarrow> kwf s' \<and> pi_inv {} s' \<and> (case k_list s (SuspendQ a) of
      [] \<Rightarrow> \<exists>x'. k_mutex s' a = Some x' \<and> mtx_owner x' = None
    | n # q \<Rightarrow> k_list s' (SuspendQ a) = q \<and>
        (\<exists>x'. k_mutex s' a = Some x' \<and> mtx_owner x' = Some n \<and> mtx_hold x' = 1) \<and>
        (\<exists>h. k_thread s' n = Some h \<and> runnable h \<and> th_pending_object h = None)) \<and>
    (\<exists>th h'. k_thread s t = Some th \<and> k_thread s' t = Some h' \<and> th_current_priority h' = kept_priority s a t th)"

lemma schedule_if:
  assumes kw: "kwf s" and pi: "pi_inv {} s" and cur: "rt_current_thread s \<noteq> None"
  shows "\<exists>s'. (if b then rt_schedule s else Some s) = Some s' \<and> kwf s' \<and> pi_inv {} s' \<and> sched_frame s s'"
proof (cases b)
  case True
  from schedule_kinv [OF kwfD(1) [OF kw] cur] obtain s' where
    "rt_schedule s = Some s'" "kinv s'" "sched_frame s s'" by blast
  with True kwf_sched [OF kw] pi_inv_sched [OF pi] show ?thesis by auto
next
  case False
  with kw pi show ?thesis by simp
qed

lemma released_sched:
  assumes r: "released a t s s1" and f: "sched_frame s1 s2" and kw: "kwf s2" and pi: "pi_inv {} s2"
  shows "released a t s s2"
proof -
  have l: "k_list s2 (SuspendQ a) = k_list s1 (SuspendQ a)" by (rule sched_frame_queue [OF f]) simp
  have m: "k_mutex s2 = k_mutex s1" using ipc_sameD(2) [OF ipc_same_sched [OF f]] .
  have th: "\<exists>h'. k_thread s2 u = Some h' \<and> (runnable h \<longrightarrow> runnable h') \<and> th_pending_object h' = th_pending_object h \<and>
      th_current_priority h' = th_current_priority h" if "k_thread s1 u = Some h" for u h
    using sched_frame_thread [OF f that] sched_frame_runnable [OF f that] by fastforce
  from r obtain th h' where t: "k_thread s t = Some th" "k_thread s1 t = Some h'" "th_current_priority h' = kept_priority s a t th"
    by (auto simp: released_def)
  from th [OF t(2)] t(1,3) have "\<exists>th h'. k_thread s t = Some th \<and> k_thread s2 t = Some h' \<and> th_current_priority h' = kept_priority s a t th"
    by auto
  moreover have "case k_list s (SuspendQ a) of
      [] \<Rightarrow> \<exists>x'. k_mutex s2 a = Some x' \<and> mtx_owner x' = None
    | n # q \<Rightarrow> k_list s2 (SuspendQ a) = q \<and>
        (\<exists>x'. k_mutex s2 a = Some x' \<and> mtx_owner x' = Some n \<and> mtx_hold x' = 1) \<and>
        (\<exists>h. k_thread s2 n = Some h \<and> runnable h \<and> th_pending_object h = None)"
  proof (cases "k_list s (SuspendQ a)")
    case Nil
    with r m show ?thesis by (simp add: released_def)
  next
    case (Cons n q)
    with r obtain h where "k_thread s1 n = Some h" "runnable h" "th_pending_object h = None" by (auto simp: released_def)
    with th [OF this(1)] Cons r l m show ?thesis by (auto simp: released_def)
  qed
  ultimately show ?thesis using kw pi by (simp add: released_def)
qed

lemma in_thread_context [simp]: "thread_context t s \<Longrightarrow> RT_DEBUG_IN_THREAD_CONTEXT s = Some ()"
  by (simp add: thread_context_def RT_DEBUG_IN_THREAD_CONTEXT_def rt_thread_self_def RT_DEBUG_NOT_IN_INTERRUPT_def
      rt_interrupt_get_nest_def)

lemma last_release:
  assumes kw: "kwf s" and pi: "pi_inv {} s" and ctx: "thread_context t s" and x: "k_mutex s a = Some x"
    and o: "mtx_owner x = Some t" and h: "mtx_hold x = 1"
    and c: "k_list s (SuspendQ a) = [] \<or> mtx_priority x \<le> mtx_ceiling_priority x"
  shows "\<exists>s'. rt_mutex_release a s = Some (RT_EOK, s') \<and> released a t s s'"
proof -
  obtain th where th: "k_thread s t = Some th" "state_of th = RT_THREAD_RUNNING" and cur: "rt_current_thread s = Some t"
    using ctx by (auto simp: thread_context_def)
  have ns: "\<not> suspended th" using suspended_no_ready [of th] th(2) by auto
  let ?p = "kept_priority s a t th"
  from mutex_restore_spec [OF kw pi th x o] obtain b s2 where
    s2: "mutex_restore a t (given_back a x s) = Some (b, s2)" "kwf s2" "repriorised t ?p (given_back a x s) s2" by blast
  have "\<exists>b' s3. mutex_pass_on a b s2 = Some (b', s3) \<and> released a t s s3 \<and> rt_current_thread s3 = rt_current_thread s"
  proof (cases "k_list s (SuspendQ a)")
    case Nil
    from pass_on_free [OF kw pi th(1) ns x o Nil s2(2,3)] Nil th(1) show ?thesis by (fastforce simp: released_def)
  next
    case (Cons n q)
    from c Cons have "mtx_priority x \<le> mtx_ceiling_priority x" by simp
    from pass_on_next [OF kw pi th(1) ns x o Cons this s2(2,3), of b] Cons th(1) show ?thesis
      by (auto simp: released_def)
  qed
  then obtain b' s3 where s3: "mutex_pass_on a b s2 = Some (b', s3)" "released a t s s3"
    "rt_current_thread s3 = rt_current_thread s" by blast
  have c3: "rt_current_thread s3 \<noteq> None" using s3(3) cur by simp
  have w3: "kwf s3" "pi_inv {} s3" using s3(2) by (simp_all add: released_def)
  from schedule_if [OF w3 c3, of b'] obtain s4 where
    s4: "(if b' then rt_schedule s3 else Some s3) = Some s4" "kwf s4" "pi_inv {} s4" "sched_frame s3 s4" by blast
  have "released a t s s4" using s3(2) released_sched [OF _ s4(4,2,3)] by blast
  moreover have "rt_mutex_release a s = Some (0, s4)"
  proof -
    have u: "upd_mutex a (\<lambda>x. x\<lparr>mtx_hold := mtx_hold x - 1\<rparr>) s = Some (s\<lparr>k_mutex := (k_mutex s)(a \<mapsto> x\<lparr>mtx_hold := 0\<rparr>)\<rparr>)"
      using x h by simp
    have "taken_remove a (s\<lparr>k_mutex := (k_mutex s)(a \<mapsto> x\<lparr>mtx_hold := 0\<rparr>)\<rparr>) = given_back a x s"
      by (simp add: given_back_def taken_remove_def)
    then show ?thesis
      using mutex_saneD(1) [OF pi_invD(1) [OF pi x]] x o h cur ctx u s2(1) s3(1) s4(1)
      by (simp add: rt_mutex_release_def assert_type_class rt_thread_self_def)
  qed
  ultimately show ?thesis by blast
qed

text \<open>All outcomes: not the owner, held more than once, the last release.\<close>

lemma release_spec:
  assumes kw: "kwf s" and pi: "pi_inv {} s" and ctx: "thread_context t s" and x: "k_mutex s a = Some x"
    and c: "k_list s (SuspendQ a) = [] \<or> mtx_priority x \<le> mtx_ceiling_priority x"
  shows "if mtx_owner x \<noteq> Some t
      then \<exists>s'. rt_mutex_release a s = Some (- RT_ERROR, s') \<and> kwf s' \<and> pi_inv {} s' \<and>
        k_mutex s' = k_mutex s \<and> k_list s' = k_list s
    else if mtx_hold x \<noteq> 1
      then \<exists>s'. rt_mutex_release a s = Some (RT_EOK, s') \<and> mutex_taken a t (mtx_hold x - 1) s'
    else \<exists>s'. rt_mutex_release a s = Some (RT_EOK, s') \<and> released a t s s'"
proof -
  obtain th where th: "k_thread s t = Some th" "state_of th = RT_THREAD_RUNNING" and cur: "rt_current_thread s = Some t"
    using ctx by (auto simp: thread_context_def)
  note cl = mutex_saneD(1) [OF pi_invD(1) [OF pi x]]
  show ?thesis
  proof (cases "mtx_owner x = Some t")
    case False
    let ?s = "s\<lparr>k_thread := (k_thread s)(t \<mapsto> th\<lparr>th_error := - RT_ERROR\<rparr>)\<rparr>"
    have "rt_mutex_release a s = Some (- RT_ERROR, ?s)"
      using False cl ctx cur x th(1) by (simp add: rt_mutex_release_def assert_type_class rt_thread_self_def)
    moreover have "kwf ?s" by (rule kwf_error [OF kw th(1)]) (simp add: th(2))
    moreover have "pi_inv {} ?s" by (rule pi_inv_error [OF pi th(1)])
    ultimately show ?thesis using False by simp
  next
    case True
    show ?thesis
    proof (cases "mtx_hold x = 1")
      case h: True
      with last_release [OF kw pi ctx x True h c] True show ?thesis by simp
    next
      case h: False
      let ?s = "s\<lparr>k_mutex := (k_mutex s)(a \<mapsto> x\<lparr>mtx_hold := mtx_hold x - 1\<rparr>)\<rparr>"
      have "mtx_hold x - 1 \<noteq> 0" using h by (metis eq_iff_diff_eq_0)
      then have "rt_mutex_release a s = Some (RT_EOK, ?s)"
        using True cl ctx cur x by (simp add: rt_mutex_release_def assert_type_class rt_thread_self_def)
      moreover have "kwf ?s" using kwf_same_ipc [of ?s s] kw by simp
      ultimately show ?thesis using h True pi_inv_hold [OF pi x, of "mtx_hold x - 1"] cur by (simp add: mutex_taken_def)
    qed
  qed
qed

end
