(* ===== verification/MutexProps.thy ===== *)
theory MutexProps
  imports MutexGive
begin

text \<open>
  The properties of the mutexes of \<open>rt-thread/src/ipc.c\<close>, with the examples they are applied to:
  taking, releasing, recursion, priority inheritance along a chain of owners, and two ways in
  which the code lets a priority get lost.
\<close>

section \<open>Examples\<close>

text \<open>Thread 10, whose own priority is 8, runs with priority 5: threads 11 and 12 wait for the
  mutex 20 it holds.\<close>

definition ex_waiter :: "addr \<Rightarrow> rt_thread" where
  "ex_waiter m = (ex_thread 4 5)\<lparr>th_pending_object := Some m\<rparr>"

definition ex_holder :: rt_thread where
  "ex_holder = (ex_thread 3 5)\<lparr>th_init_priority := 8\<rparr>"

definition ex_held :: "addr \<Rightarrow> rt_mutex" where
  "ex_held t = \<lparr>mtx_ceiling_priority = 0xff, mtx_priority = 5, mtx_hold = 1, mtx_owner = Some t\<rparr>"

definition ex_mutex :: kstate where
  "ex_mutex = ex_timed\<lparr>k_thread := [10 \<mapsto> ex_holder, 11 \<mapsto> ex_waiter 20, 12 \<mapsto> ex_waiter 20],
    k_obj := (k_obj ex_timed)(Obj 20 \<mapsto> ex_ipc_header 3 1), k_mutex := [20 \<mapsto> ex_held 10],
    k_taken := (\<lambda>_. [])(10 := [20])\<rparr>"

lemma ex_data [simp]:
  "th_stat (ex_waiter m) = 4" "th_current_priority (ex_waiter m) = 5" "th_init_priority (ex_waiter m) = 5"
  "th_pending_object (ex_waiter m) = Some m" "suspended (ex_waiter m)" "state_of (ex_waiter m) = 4"
  "th_stat ex_holder = 3" "th_current_priority ex_holder = 5" "th_init_priority ex_holder = 8"
  "state_of ex_holder = 3" "\<not> suspended ex_holder" "th_error ex_holder = 0"
  "mtx_ceiling_priority (ex_held t) = 0xff" "mtx_priority (ex_held t) = 5" "mtx_hold (ex_held t) = 1"
  "mtx_owner (ex_held t) = Some t"
  by (simp_all add: ex_waiter_def ex_holder_def ex_held_def ex_thread_def state_of_def suspended_def)

lemma ex_mutex_simps [simp]:
  "k_mutex ex_mutex = [20 \<mapsto> ex_held 10]" "k_list ex_mutex = (\<lambda>_. [])(SuspendQ 20 := [11, 12])"
  "k_obj ex_mutex (Obj 20) = Some (ex_ipc_header 3 1)" "rt_current_thread ex_mutex = Some 10"
  "k_taken ex_mutex = (\<lambda>_. [])(10 := [20])"
  "k_thread ex_mutex = [10 \<mapsto> ex_holder, 11 \<mapsto> ex_waiter 20, 12 \<mapsto> ex_waiter 20]"
  by (simp_all add: ex_mutex_def)

lemma ex_thread_data:
  assumes kw: "kwf s" and th: "k_thread s t = Some (ex_thread st 5)" and st: "st \<in> {3, 4}"
  shows "kwf (s\<lparr>k_thread := (k_thread s)(t \<mapsto> (ex_thread st 5)\<lparr>th_pending_object := p, th_init_priority := i\<rparr>)\<rparr>)"
  by (rule kwf_thread_data [OF kw th]) (use st in \<open>auto simp: ex_thread_def stack_ok_def state_of_def\<close>)

lemma ex_mutex_kwf: "kwf ex_mutex"
proof -
  let ?s1 = "ex_timed\<lparr>k_obj := (k_obj ex_timed)(Obj 20 \<mapsto> ex_ipc_header 3 1), k_mutex := [20 \<mapsto> ex_held 10],
    k_taken := (\<lambda>_. [])(10 := [20])\<rparr>"
  let ?s2 = "?s1\<lparr>k_thread := (k_thread ?s1)(10 \<mapsto> (ex_thread 3 5)\<lparr>th_pending_object := None, th_init_priority := 8\<rparr>)\<rparr>"
  let ?s3 = "?s2\<lparr>k_thread := (k_thread ?s2)(11 \<mapsto> (ex_thread 4 5)\<lparr>th_pending_object := Some 20, th_init_priority := 5\<rparr>)\<rparr>"
  let ?s4 = "?s3\<lparr>k_thread := (k_thread ?s3)(12 \<mapsto> (ex_thread 4 5)\<lparr>th_pending_object := Some 20, th_init_priority := 5\<rparr>)\<rparr>"
  have k1: "kwf ?s1"
    by (rule kwf_new_object [OF ex_timed_kwf, of 20 _ "ex_ipc_header 3 1"]) (simp_all add: ex_timed_def ex_state_def)
  have k2: "kwf ?s2" by (rule ex_thread_data [OF k1]) simp_all
  have k3: "kwf ?s3" by (rule ex_thread_data [OF k2]) simp_all
  have k4: "kwf ?s4" by (rule ex_thread_data [OF k3]) simp_all
  have "?s4 = ex_mutex" by (simp add: ex_mutex_def ex_waiter_def ex_holder_def ex_thread_def)
  with k4 show ?thesis by simp
qed

lemma ex_mutex_context: "thread_context 10 ex_mutex"
  by (simp add: thread_context_def) (simp add: ex_mutex_def ex_timed_def ex_state_def init_kstate_def)

lemma ex_mutex_inv: "pi_inv {} ex_mutex"
proof -
  have "mutexes_ok ex_mutex"
    by (simp add: mutexes_ok_def mutex_sane_def is_class_def ipc_flag_def ex_ipc_header_def front_priority_def prio_sorted_def
        prio_of_def prio_def)
  moreover have "taken_ok ex_mutex" by (auto simp: taken_ok_def separate_def)
  moreover have "pending_ok ex_mutex"
    by (auto simp: pending_ok_def waits_on_def split: if_splits)
  moreover have "priorities_ok {} ex_mutex"
    by (auto simp: priorities_ok_def deserved_def held_priority_def mutex_level_def min_def split: if_splits)
  ultimately show ?thesis by (simp add: pi_inv_def)
qed

text \<open>Thread 11 holds the mutex 21 and waits for the mutex 20, which thread 12 holds; 12 sleeps.\<close>

definition ex_chain :: kstate where
  "ex_chain = ex_timed\<lparr>k_thread := [10 \<mapsto> ex_thread 3 5, 11 \<mapsto> ex_waiter 20, 12 \<mapsto> ex_thread 4 5],
    k_list := (\<lambda>_. [])(SuspendQ 20 := [11]),
    k_obj := (k_obj ex_timed)(Obj 20 \<mapsto> ex_ipc_header 3 1, Obj 21 \<mapsto> ex_ipc_header 3 1),
    k_mutex := [20 \<mapsto> ex_held 12, 21 \<mapsto> (ex_held 11)\<lparr>mtx_priority := 0xff\<rparr>],
    k_taken := (\<lambda>_. [])(12 := [20], 11 := [21])\<rparr>"

lemma ex_chain_simps [simp]:
  "k_mutex ex_chain = [20 \<mapsto> ex_held 12, 21 \<mapsto> (ex_held 11)\<lparr>mtx_priority := 0xff\<rparr>]"
  "k_list ex_chain = (\<lambda>_. [])(SuspendQ 20 := [11])" "rt_current_thread ex_chain = Some 10"
  "k_obj ex_chain (Obj 20) = Some (ex_ipc_header 3 1)" "k_obj ex_chain (Obj 21) = Some (ex_ipc_header 3 1)"
  "k_taken ex_chain = (\<lambda>_. [])(12 := [20], 11 := [21])"
  "k_thread ex_chain = [10 \<mapsto> ex_thread 3 5, 11 \<mapsto> ex_waiter 20, 12 \<mapsto> ex_thread 4 5]"
  by (simp_all add: ex_chain_def)

lemma ex_thread_simps [simp]:
  "th_current_priority (ex_thread x p) = p" "th_init_priority (ex_thread x p) = p" "th_pending_object (ex_thread x p) = None"
  "state_of (ex_thread 3 p) = 3" "state_of (ex_thread 4 p) = 4" "th_stat (ex_thread x p) = x"
  by (simp_all add: ex_thread_def state_of_def)

lemma ex_chain_kwf: "kwf ex_chain"
proof -
  let ?s1 = "tlist_remove 12 ex_timed"
  let ?s2 = "?s1\<lparr>k_obj := (k_obj ?s1)(Obj 20 \<mapsto> ex_ipc_header 3 1)\<rparr>"
  let ?s3 = "?s2\<lparr>k_obj := (k_obj ?s2)(Obj 21 \<mapsto> ex_ipc_header 3 1), k_mutex := k_mutex ex_chain, k_taken := k_taken ex_chain\<rparr>"
  let ?s4 = "?s3\<lparr>k_thread := (k_thread ?s3)(11 \<mapsto> (ex_thread 4 5)\<lparr>th_pending_object := Some 20, th_init_priority := 5\<rparr>)\<rparr>"
  have f: "k_obj ?s1 = k_obj ex_timed" "k_thread ?s1 = k_thread ex_timed" "k_list ?s1 = k_list ex_chain"
    by (auto simp: tlist_remove_def al_remove_def)
  have "kwf ?s1" by (rule kwf_unlink [OF ex_timed_kwf, of 12 "ex_thread 4 5"]) (simp_all add: suspended_def)
  then have "kwf ?s2"
    by (rule kwf_new_object [of _ 20 _ "ex_ipc_header 3 1"]) (simp_all add: f, simp_all add: ex_timed_def ex_state_def)
  then have k3: "kwf ?s3"
    by (rule kwf_new_object [of _ 21 _ "ex_ipc_header 3 1"]) (simp_all add: f, simp_all add: ex_timed_def ex_state_def)
  have "kwf ?s4" by (rule ex_thread_data [OF k3]) (simp_all add: f)
  moreover have "?s4 = ex_chain"
  proof (rule kstate.equality)
    have "(ex_thread 4 5)\<lparr>th_pending_object := Some 20, th_init_priority := 5\<rparr> = ex_waiter 20"
      by (simp add: ex_waiter_def ex_thread_def)
    then show "k_thread ?s4 = k_thread ex_chain" by (auto simp: f)
  qed (simp_all add: f(3), simp_all add: tlist_remove_def ex_chain_def)
  ultimately show ?thesis by simp
qed

lemma ex_chain_context: "thread_context 10 ex_chain"
  by (simp add: thread_context_def) (simp add: ex_chain_def ex_timed_def ex_state_def init_kstate_def)

lemma ex_chain_inv: "pi_inv {} ex_chain"
proof -
  have "mutexes_ok ex_chain"
    by (simp add: mutexes_ok_def mutex_sane_def is_class_def ipc_flag_def ex_ipc_header_def front_priority_def prio_sorted_def
        prio_of_def prio_def)
  moreover have "taken_ok ex_chain" by (auto simp: taken_ok_def separate_def)
  moreover have "pending_ok ex_chain"
    by (auto simp: pending_ok_def waits_on_def split: if_splits)
  moreover have "priorities_ok {} ex_chain"
    by (auto simp: priorities_ok_def deserved_def held_priority_def mutex_level_def min_def split: if_splits)
  ultimately show ?thesis by (simp add: pi_inv_def)
qed

lemma ex_chain_waits: "waits_on ex_chain 11 20" "owner_chain ex_chain 11 [12]"
proof -
  show w: "waits_on ex_chain 11 20" by (simp add: waits_on_def is_class_def ex_ipc_header_def)
  have "owner_chain ex_chain 12 []" by (simp add: waits_on_def)
  moreover have "k_mutex ex_chain 20 = Some (ex_held 12)" "mtx_owner (ex_held 12) = Some 12" by simp_all
  ultimately show "owner_chain ex_chain 11 [12]" using w unfolding owner_chain.simps by blast
qed

text \<open>A deadlock in the making: thread 10 holds the mutex 20, for which thread 11 waits, and is
  about to take the mutex 21, which thread 11 holds.\<close>

definition ex_deadlock :: kstate where
  "ex_deadlock = ex_mutex\<lparr>k_obj := (k_obj ex_mutex)(Obj 21 \<mapsto> ex_ipc_header 3 1),
    k_mutex := [20 \<mapsto> ex_held 10, 21 \<mapsto> (ex_held 11)\<lparr>mtx_priority := 0xff\<rparr>],
    k_taken := (\<lambda>_. [])(10 := [20], 11 := [21])\<rparr>"

lemma ex_deadlock_simps [simp]:
  "k_mutex ex_deadlock = [20 \<mapsto> ex_held 10, 21 \<mapsto> (ex_held 11)\<lparr>mtx_priority := 0xff\<rparr>]"
  "k_list ex_deadlock = (\<lambda>_. [])(SuspendQ 20 := [11, 12])"
  "k_obj ex_deadlock (Obj 20) = Some (ex_ipc_header 3 1)" "k_obj ex_deadlock (Obj 21) = Some (ex_ipc_header 3 1)"
  "k_taken ex_deadlock = (\<lambda>_. [])(10 := [20], 11 := [21])"
  "k_thread ex_deadlock = [10 \<mapsto> ex_holder, 11 \<mapsto> ex_waiter 20, 12 \<mapsto> ex_waiter 20]"
  by (simp_all add: ex_deadlock_def)

lemma ex_deadlock_ok: "kwf ex_deadlock" "pi_inv {} ex_deadlock" "thread_context 10 ex_deadlock"
proof -
  show "kwf ex_deadlock"
    by (rule kwf_new_object [OF ex_mutex_kwf, of 21 _ "ex_ipc_header 3 1"])
      (simp_all add: ex_deadlock_def, simp_all add: ex_mutex_def ex_timed_def ex_state_def)
  show "thread_context 10 ex_deadlock" using ex_mutex_context by (simp add: thread_context_def ex_deadlock_def)
  have "mutexes_ok ex_deadlock"
    by (simp add: mutexes_ok_def mutex_sane_def is_class_def ipc_flag_def ex_ipc_header_def front_priority_def prio_sorted_def
        prio_of_def prio_def)
  moreover have "taken_ok ex_deadlock" by (auto simp: taken_ok_def separate_def)
  moreover have "pending_ok ex_deadlock"
    by (auto simp: pending_ok_def waits_on_def split: if_splits)
  moreover have "priorities_ok {} ex_deadlock"
    by (auto simp: priorities_ok_def deserved_def held_priority_def mutex_level_def min_def split: if_splits)
  ultimately show "pi_inv {} ex_deadlock" by (simp add: pi_inv_def)
qed

section \<open>Taking\<close>

text \<open>C1. Every outcome of taking a mutex, each of which keeps the priority inheritance invariant:
  a free mutex becomes the caller's; the owner's count goes up, and an overflowing count is
  refused; with the timeout 0 the caller gets an error; otherwise it waits in the queue of the
  mutex, and the owner then has at least the caller's priority, however long the chain of owners
  that have to be raised. The chain may lead back to the caller: the raise ends for every graph
  of finitely many threads, deadlocked or not. The largest positive timeout, which the timer
  refuses, is left out.\<close>

theorem rt_mutex_take_outcomes:
  assumes "kwf s" and "pi_inv {} s" and "thread_context t s" and "k_mutex s a = Some x"
    and "finite (dom (k_thread s))" and "timeout \<noteq> 0x7fffffff"
  shows "case mtx_owner x of
      None \<Rightarrow> \<exists>s'. rt_mutex_take a timeout s = Some (Return RT_EOK, s') \<and> mutex_taken a t 1 s'
    | Some w \<Rightarrow>
        if w = t then if mtx_hold x < RT_MUTEX_HOLD_MAX
          then \<exists>s'. rt_mutex_take a timeout s = Some (Return RT_EOK, s') \<and> mutex_taken a t (mtx_hold x + 1) s'
          else \<exists>s'. rt_mutex_take a timeout s = Some (Return (- RT_EFULL), s') \<and> mutex_taken a t (mtx_hold x) s'
        else if timeout = 0
          then \<exists>s'. rt_mutex_take a timeout s = Some (Return (- RT_ETIMEOUT), s') \<and> kwf s' \<and> pi_inv {} s' \<and>
            k_mutex s' = k_mutex s \<and> k_list s' = k_list s
        else \<exists>s'. rt_mutex_take a timeout s = Some (Blocked, s') \<and> mutex_waiting a t w timeout s s'"
  unfolding rt_mutex_take_def by (rule mutex_take_spec [OF assms]) (simp add: suspend_stat_def)

lemma rt_mutex_take_outcomes_witness:
  "(\<exists>s'. rt_mutex_take 21 7 ex_chain = Some (Blocked, s') \<and> mutex_waiting 21 10 11 7 ex_chain s') \<and>
   (\<exists>s'. rt_mutex_take 21 7 ex_deadlock = Some (Blocked, s') \<and> mutex_waiting 21 10 11 7 ex_deadlock s')"
  using rt_mutex_take_outcomes [OF ex_chain_kwf ex_chain_inv ex_chain_context, of 21 _ 7]
    rt_mutex_take_outcomes [OF ex_deadlock_ok, of 21 _ 7] by simp

text \<open>C3. Updating the priority of a thread ends and restores the priority inheritance invariant
  for every chain of owners that starts at the thread, whatever its length: each thread on the
  chain moves to its place in the queue it waits in and gets the priority it deserves.\<close>

theorem thread_update_priority_restores:
  assumes "owner_chain s t ws" and "kwf s" and "pi_inv {t} s" and "k_thread s t = Some th"
    and "state_of th \<noteq> RT_THREAD_CLOSE" and "p = deserved s t th"
  shows "\<exists>s'. thread_update_priority t p sf s = Some s' \<and> kwf s' \<and> pi_inv {} s' \<and> reranked s s'"
  by (rule update_priority_spec [OF assms])

lemma thread_update_priority_restores_witness:
  "\<exists>s'. thread_update_priority 11 5 0 ex_chain = Some s' \<and> kwf s' \<and> pi_inv {} s' \<and> reranked ex_chain s'"
proof -
  have "(5 :: u8) = deserved ex_chain 11 (ex_waiter 20)"
    by (simp add: deserved_def held_priority_def mutex_level_def)
  from thread_update_priority_restores [OF ex_chain_waits(2) ex_chain_kwf pi_inv_mono [OF ex_chain_inv] _ _ this]
  show ?thesis by simp
qed

section \<open>Releasing\<close>

text \<open>C2. Every outcome of releasing a mutex: a thread that is not the owner gets an error; a
  count above one goes down; the last release hands the mutex to the first waiting thread, which
  is ready to run and is the new owner, or leaves it free. The old owner drops to the priority
  its other mutexes deserve and the priority inheritance invariant holds. A mutex that threads
  wait for must not have a priority ceiling above the first of them.\<close>

theorem rt_mutex_release_outcomes:
  assumes "kwf s" and "pi_inv {} s" and "thread_context t s" and "k_mutex s a = Some x"
    and "k_list s (SuspendQ a) = [] \<or> mtx_priority x \<le> mtx_ceiling_priority x"
  shows "if mtx_owner x \<noteq> Some t
      then \<exists>s'. rt_mutex_release a s = Some (- RT_ERROR, s') \<and> kwf s' \<and> pi_inv {} s' \<and>
        k_mutex s' = k_mutex s \<and> k_list s' = k_list s
    else if mtx_hold x \<noteq> 1
      then \<exists>s'. rt_mutex_release a s = Some (RT_EOK, s') \<and> mutex_taken a t (mtx_hold x - 1) s'
    else \<exists>s'. rt_mutex_release a s = Some (RT_EOK, s') \<and> released a t s s'"
  by (rule release_spec [OF assms])

lemma rt_mutex_release_outcomes_witness:
  "\<exists>s' h. rt_mutex_release 20 ex_mutex = Some (RT_EOK, s') \<and> pi_inv {} s' \<and> k_list s' (SuspendQ 20) = [12] \<and>
    k_thread s' 10 = Some h \<and> th_current_priority h = 8"
proof -
  have "kept_priority ex_mutex 20 10 ex_holder = 8" by (simp add: kept_priority_def held_priority_def)
  with rt_mutex_release_outcomes [OF ex_mutex_kwf ex_mutex_inv ex_mutex_context, of 20] show ?thesis
    by (auto simp: released_def)
qed

text \<open>A mutex is recursive: taking one that the caller holds and releasing it again gives back
  the kernel as it was, but for the caller's error code, which is cleared.\<close>

theorem rt_mutex_recursion:
  assumes "pi_inv {} s" and "thread_context t s" and "k_mutex s a = Some x" and "mtx_owner x = Some t"
    and "mtx_hold x \<noteq> 0" and "mtx_hold x < RT_MUTEX_HOLD_MAX" and "k_thread s t = Some th"
  shows "\<exists>s1. rt_mutex_take a timeout s = Some (Return RT_EOK, s1) \<and>
    rt_mutex_release a s1 = Some (RT_EOK, s\<lparr>k_thread := (k_thread s)(t \<mapsto> th\<lparr>th_error := RT_EOK\<rparr>)\<rparr>)"
proof -
  let ?s1 = "s\<lparr>k_thread := (k_thread s)(t \<mapsto> th\<lparr>th_error := RT_EOK\<rparr>), k_mutex := (k_mutex s)(a \<mapsto> x\<lparr>mtx_hold := mtx_hold x + 1\<rparr>)\<rparr>"
  note cl = mutex_saneD(1) [OF pi_invD(1) [OF assms(1,3)]]
  have cur: "rt_current_thread s = Some t" using assms(2) by (simp add: thread_context_def)
  have "rt_mutex_take a timeout s = Some (Return RT_EOK, ?s1)"
    using cl assms cur by (simp add: rt_mutex_take_def mutex_take_def mutex_again_def assert_type_class rt_thread_self_def)
  moreover have "thread_context t ?s1" using assms(2,7) by (simp add: thread_context_def)
  then have "rt_mutex_release a ?s1 = Some (RT_EOK, s\<lparr>k_thread := (k_thread s)(t \<mapsto> th\<lparr>th_error := RT_EOK\<rparr>)\<rparr>)"
    using cl assms(3-5) cur
    by (simp add: rt_mutex_release_def assert_type_class rt_thread_self_def is_class_def fun_upd_idem)
  ultimately show ?thesis by blast
qed

lemma rt_mutex_recursion_witness:
  "\<exists>s1. rt_mutex_take 20 0 ex_mutex = Some (Return RT_EOK, s1) \<and> rt_mutex_release 20 s1 = Some (RT_EOK, ex_mutex)"
proof -
  have "ex_mutex\<lparr>k_thread := (k_thread ex_mutex)(10 \<mapsto> ex_holder\<lparr>th_error := RT_EOK\<rparr>)\<rparr> = ex_mutex"
    by (simp add: ex_holder_def ex_thread_def fun_upd_idem)
  with rt_mutex_recursion [OF ex_mutex_inv ex_mutex_context, of 20 "ex_held 10" ex_holder 0] show ?thesis by simp
qed

section \<open>Lost priorities\<close>

text \<open>The priority ceiling is not applied on a hand-over: when the last release passes a mutex
  to its first waiting thread and that thread is less important than the ceiling of the mutex,
  the new owner keeps its priority, although a thread that takes the free mutex is raised to the
  ceiling.\<close>

theorem rt_mutex_ceiling_not_applied:
  assumes "kwf s" and "pi_inv {} s" and "thread_context t s" and "k_mutex s a = Some x" and "mtx_owner x = Some t"
    and "mtx_hold x = 1" and "k_list s (SuspendQ a) = n # q" and "mtx_ceiling_priority x < mtx_priority x"
  shows "\<exists>s' x' h. rt_mutex_release a s = Some (RT_EOK, s') \<and> k_mutex s' a = Some x' \<and> mtx_owner x' = Some n \<and>
    mtx_ceiling_priority x' = mtx_ceiling_priority x \<and> k_thread s' n = Some h \<and>
    th_current_priority h = mtx_priority x"
proof -
  obtain th where th: "k_thread s t = Some th" "state_of th = RT_THREAD_RUNNING" and cur: "rt_current_thread s = Some t"
    using assms(3) by (auto simp: thread_context_def)
  note sane = pi_invD(1) [OF assms(2,4)]
  have ns: "\<not> suspended th" using suspended_no_ready [of th] th(2) by auto
  have nq: "n \<in> set (k_list s (SuspendQ a))" using assms(7) by simp
  from waitq_suspended [OF kwfD(1) [OF assms(1)] is_waitq_simps(1) nq] obtain hn where
    hn: "k_thread s n = Some hn" "suspended hn" by auto
  have nt: "n \<noteq> t" using hn th ns by auto
  have mp: "th_current_priority hn = mtx_priority x"
    using mutex_saneD(3) [OF sane] assms(7) hn by (simp add: front_priority_def)
  from mutex_restore_spec [OF assms(1,2) th assms(4,5)] obtain b s2 where
    s2: "mutex_restore a t (given_back a x s) = Some (b, s2)" "kwf s2"
      "repriorised t (kept_priority s a t th) (given_back a x s) s2" by blast
  have th1: "k_thread (given_back a x s) t = Some th" using th by (simp add: given_back_def)
  note d = repriorisedD [OF s2(3) th1]
  have q2: "k_list s2 (SuspendQ a) = n # q" using d(3) [of "SuspendQ a"] assms(7) by (simp add: given_back_def)
  have x2: "k_mutex s2 a = Some (x\<lparr>mtx_hold := 0\<rparr>)" using ipc_sameD [OF d(1)] by (simp add: given_back_def)
  have hn2: "k_thread s2 n = Some hn" using d(4) hn nt by (simp add: given_back_def)
  from pass_on_steps [OF s2(2) hn2 hn(2) q2 x2, of b] obtain s3 where
    s3: "mutex_pass_on a b s2 = Some (True, s3)" "kwf s3" "k_thread s3 n = Some (next_thread hn (rt_current_thread s2 = Some n))"
      "k_mutex s3 a = Some (x\<lparr>mtx_hold := 0, mtx_hold := 1, mtx_owner := Some n, mtx_priority := front_priority s3 a\<rparr>)"
      "rt_current_thread s3 = rt_current_thread s2" by auto
  have "rt_current_thread s3 \<noteq> None" using s3(5) d(2) cur by (simp add: given_back_def)
  from schedule_kinv [OF kwfD(1) [OF s3(2)] this] obtain s4 where
    s4: "rt_schedule s3 = Some s4" "sched_frame s3 s4" by blast
  have g: "taken_remove a (s\<lparr>k_mutex := (k_mutex s)(a \<mapsto> x\<lparr>mtx_hold := 0\<rparr>)\<rparr>) = given_back a x s"
    by (simp add: given_back_def taken_remove_def)
  have "rt_mutex_release a s = Some (RT_EOK, s4)"
    using mutex_saneD(1) [OF sane] assms(3-6) cur g s2(1) s3(1) s4(1)
    by (simp add: rt_mutex_release_def assert_type_class rt_thread_self_def)
  moreover obtain y where "k_thread s4 n = Some ((next_thread hn (rt_current_thread s2 = Some n))\<lparr>th_stat := y\<rparr>)"
    using sched_frame_thread [OF s4(2) s3(3)] by blast
  moreover have "k_mutex s4 a = k_mutex s3 a" using ipc_sameD(2) [OF ipc_same_sched [OF s4(2)]] by simp
  ultimately show ?thesis using s3(4) mp by auto
qed

text \<open>The example with a ceiling of 2.\<close>

definition ex_ceiling :: kstate where
  "ex_ceiling = ex_mutex\<lparr>k_thread := (k_thread ex_mutex)(10 \<mapsto> set_priority 2 ex_holder),
    k_mutex := [20 \<mapsto> (ex_held 10)\<lparr>mtx_ceiling_priority := 2\<rparr>]\<rparr>"

lemma ex_ceiling_ok: "kwf ex_ceiling" "pi_inv {} ex_ceiling" "thread_context 10 ex_ceiling"
proof -
  let ?s = "ex_mutex\<lparr>k_thread := (k_thread ex_mutex)(10 \<mapsto> set_priority 2 ex_holder)\<rparr>"
  have "k_thread ex_mutex 10 = Some ex_holder" "state_of ex_holder \<noteq> 1" "unat (2 :: u8) < 32" by simp_all
  from change_priority_spec [OF ex_mutex_kwf this] obtain s' where
    s': "change_priority 10 2 ex_mutex = Some s'" "kwf s'" by blast
  have "is_class (Obj 10) 1 ex_mutex" by (simp add: is_class_def ex_mutex_def ex_header_def)
  then have "s' = ?s" using s'(1) by (simp add: change_priority_def assert_type_class)
  with s'(2) have "kwf ?s" by simp
  then show "kwf ex_ceiling" using kwf_same_ipc [of ex_ceiling ?s] by (simp add: ex_ceiling_def)
  have "mutexes_ok ex_ceiling"
    by (simp add: ex_ceiling_def mutexes_ok_def mutex_sane_def is_class_def ipc_flag_def ex_ipc_header_def front_priority_def
        prio_sorted_def prio_of_def prio_def)
  moreover have "taken_ok ex_ceiling" by (auto simp: ex_ceiling_def taken_ok_def separate_def)
  moreover have "pending_ok ex_ceiling"
    by (auto simp: ex_ceiling_def pending_ok_def waits_on_def split: if_splits)
  moreover have "priorities_ok {} ex_ceiling"
    by (auto simp: ex_ceiling_def priorities_ok_def deserved_def held_priority_def mutex_level_def min_def split: if_splits)
  ultimately show "pi_inv {} ex_ceiling" by (simp add: pi_inv_def)
  show "thread_context 10 ex_ceiling" using ex_mutex_context by (simp add: thread_context_def ex_ceiling_def)
qed

lemma rt_mutex_ceiling_not_applied_witness:
  "\<exists>s' x' h. rt_mutex_release 20 ex_ceiling = Some (RT_EOK, s') \<and> k_mutex s' 20 = Some x' \<and> mtx_owner x' = Some 11 \<and>
    mtx_ceiling_priority x' = 2 \<and> k_thread s' 11 = Some h \<and> th_current_priority h = 5"
proof -
  have "k_mutex ex_ceiling 20 = Some ((ex_held 10)\<lparr>mtx_ceiling_priority := 2\<rparr>)" "k_list ex_ceiling (SuspendQ 20) = 11 # [12]"
    by (simp_all add: ex_ceiling_def)
  from rt_mutex_ceiling_not_applied [OF ex_ceiling_ok this(1) _ _ this(2)] show ?thesis by simp
qed

text \<open>
  Thread 11 after its take of the mutex 20, held by thread 10, has timed out, and later, when it
  waits for the object 21.
\<close>

definition ex_late :: kstate where
  "ex_late = ex_timed\<lparr>k_thread := [10 \<mapsto> ex_thread 2 3,
      11 \<mapsto> (ex_thread 3 5)\<lparr>th_pending_object := Some 20, th_error := - RT_ETIMEOUT\<rparr>],
    k_list := (\<lambda>_. [])(ReadyQ 3 := [10]), k_obj := (k_obj ex_timed)(Obj 20 \<mapsto> ex_ipc_header 3 1),
    k_mutex := [20 \<mapsto> (ex_held 10)\<lparr>mtx_priority := 3\<rparr>], k_taken := (\<lambda>_. [])(10 := [20]), rt_current_thread := Some 11\<rparr>"

definition ex_stale :: kstate where
  "ex_stale = ex_late\<lparr>k_thread := (k_thread ex_late)(11 \<mapsto> ex_waiter 20),
    k_list := (\<lambda>_. [])(ReadyQ 3 := [10], SuspendQ 21 := [11])\<rparr>"

lemma ex_late_simps [simp]:
  "k_thread ex_late = [10 \<mapsto> ex_thread 2 3, 11 \<mapsto> (ex_thread 3 5)\<lparr>th_pending_object := Some 20, th_error := - RT_ETIMEOUT\<rparr>]"
  "k_list ex_late = (\<lambda>_. [])(ReadyQ 3 := [10])" "k_mutex ex_late = [20 \<mapsto> (ex_held 10)\<lparr>mtx_priority := 3\<rparr>]"
  "k_taken ex_late = (\<lambda>_. [])(10 := [20])" "k_obj ex_late (Obj 20) = Some (ex_ipc_header 3 1)"
  "k_obj ex_late (Obj 11) = Some (ex_header 1)"
  by (simp_all add: ex_late_def)

lemma stale_update:
  "thread_update_priority 11 3 0 ex_stale = Some (ex_stale\<lparr>k_thread := (k_thread ex_stale)(11 \<mapsto> set_priority 3 (ex_waiter 20)),
    k_list := (\<lambda>_. [])(ReadyQ 3 := [10], SuspendQ 20 := [11])\<rparr>)"
proof -
  have ob: "k_obj ex_stale (Obj 20) = Some (ex_ipc_header 3 1)" "k_obj ex_stale (Obj 11) = Some (ex_header 1)"
    by (simp_all add: ex_stale_def)
  let ?s1 = "ex_stale\<lparr>k_thread := (k_thread ex_stale)(11 \<mapsto> set_priority 3 (ex_waiter 20))\<rparr>"
  have c: "change_priority 11 3 ex_stale = Some ?s1"
    using ob by (simp add: change_priority_def assert_type_class is_class_def ex_header_def) (simp add: ex_stale_def)
  let ?s2 = "?s1\<lparr>k_list := (\<lambda>_. [])(ReadyQ 3 := [10], SuspendQ 20 := [11])\<rparr>"
  have kl: "(\<lambda>l. remove1 11 (k_list ex_stale l))(SuspendQ 20 := [11]) = (\<lambda>_. [])(ReadyQ 3 := [10], SuspendQ 20 := [11])"
    by (rule ext) (simp add: ex_stale_def)
  have e: "k_list ex_stale (SuspendQ 20) = []" "k_thread ?s1 11 = Some (set_priority 3 (ex_waiter 20))"
    by (simp_all add: ex_stale_def)
  have l: "ipc_list_suspend (SuspendQ 20) 11 1 0 (tlist_remove 11 ?s1) = Some (0, ?s2)"
    using e by (simp add: ipc_list_suspend_def tlist_remove_def tlist_tail_def al_tail_def al_remove_def kl)
  let ?s3 = "?s2\<lparr>k_mutex := k_mutex ex_stale\<rparr>"
  have x: "k_mutex ?s2 20 = Some ((ex_held 10)\<lparr>mtx_priority := 3\<rparr>)" "k_mutex ex_stale = [20 \<mapsto> (ex_held 10)\<lparr>mtx_priority := 3\<rparr>]"
    "k_thread ?s2 10 = Some (ex_thread 2 3)" "k_taken ?s2 10 = [20]" "k_thread ?s2 11 = Some (set_priority 3 (ex_waiter 20))"
    "k_list ?s2 (SuspendQ 20) = [11]"
    by (simp_all add: ex_stale_def)
  have u: "mutex_update_priority 20 ?s2 = Some (3, ?s2)"
    using x by (simp add: mutex_update_priority_def)
  have g: "thread_get_mutex_priority 10 ?s2 = Some 3" using x by (simp add: thread_get_mutex_priority_def)
  have "thread_update_priority 11 3 0 ex_stale = Some ?s2"
    using c e ob l u g x
    by (subst thread_update_priority.simps) (simp add: rt_object_get_type_def ex_ipc_header_def)
  then show ?thesis by simp
qed

text \<open>A take that times out leaves the mutex in \<open>pending_object\<close> of the thread. When the
  thread later waits for another object and its priority is changed, it is taken out of the queue
  of that object and put into the queue of the mutex, for which it does not wait.\<close>

theorem rt_mutex_stale_pending:
  "(\<exists>s' th. mutex_take_resume 20 11 ex_late = Some (- RT_ETIMEOUT, s') \<and> k_thread s' 11 = Some th \<and>
      th_pending_object th = Some 20) \<and>
   k_list ex_stale (SuspendQ 21) = [11] \<and>
   (\<exists>s'. thread_update_priority 11 3 0 ex_stale = Some s' \<and>
      k_list s' (SuspendQ 21) = [] \<and> k_list s' (SuspendQ 20) = [11])"
proof (intro conjI)
  show "\<exists>s' th. mutex_take_resume 20 11 ex_late = Some (- RT_ETIMEOUT, s') \<and> k_thread s' 11 = Some th \<and>
      th_pending_object th = Some 20"
    by (simp add: mutex_take_resume_def mutex_update_priority_def)
qed (simp_all add: stale_update, simp add: ex_stale_def)

end
