(* ===== verification/Thread.thy ===== *)
theory Thread
  imports Mutex
begin

text \<open>
  The life of a thread: \<open>rt-thread/src/thread.c\<close> with the initial stack of
  \<open>libcpu/arm/cortex-m4/cpuport.c\<close>, the clock of \<open>clock.c\<close>, the idle thread that frees the
  closed threads (\<open>idle.c\<close>) and the thread of the soft timers (\<open>timer.c\<close>). Of the memory of a
  stack only the byte that the overflow check reads is part of the kernel state.
\<close>

section \<open>The initial stack\<close>

text \<open>
  The stack pointer below a frame of 16 words (the toolchain builds for soft floating point), and
  the words of the frame, lowest address first; \<open>texit\<close> is the address of \<open>_thread_exit\<close>.
\<close>

definition hw_stack_pointer :: "u32 \<Rightarrow> u32" where
  "hw_stack_pointer stack_addr = RT_ALIGN_DOWN (stack_addr + 4) 8 - 64"

definition hw_stack_frame :: "u32 \<Rightarrow> u32 \<Rightarrow> u32 \<Rightarrow> u32 list" where
  "hw_stack_frame tentry parameter texit = (
    let i = replicate 16 0xdeadbeef;
        i = i[8 := parameter];
        i = i[9 := 0];
        i = i[10 := 0];
        i = i[11 := 0];
        i = i[12 := 0];
        i = i[13 := texit];
        i = i[14 := tentry]
    in i[15 := 0x01000000])"

text \<open>
  The frame lies inside the stack. When it starts right at the bottom, its first byte, of
  \<open>0xdeadbeef\<close>, replaces the fill character there.
\<close>

definition frame_fits :: "u32 \<Rightarrow> u32 \<Rightarrow> bool" where
  "frame_fits stack_addr stack_size \<longleftrightarrow> unat stack_addr + unat stack_size < 2 ^ 32 \<and>
    unat stack_addr + 64 \<le> 8 * ((unat stack_addr + unat stack_size) div 8)"

definition bottom_byte :: "u32 \<Rightarrow> u32 \<Rightarrow> u8" where
  "bottom_byte stack_addr sp = (if sp = stack_addr then 0xef else 35)"

section \<open>Creation\<close>

text \<open>The initialised node \<open>tlist\<close> is in no list, as that of an object that is not in use.\<close>

definition thread_init :: "addr \<Rightarrow> u32 \<Rightarrow> u32 \<Rightarrow> u32 \<Rightarrow> u32 \<Rightarrow> u8 \<Rightarrow> u32 \<Rightarrow> kstate \<Rightarrow> (rt_err \<times> kstate) option" where
  "thread_init thread entry parameter stack_start stack_size priority tick s = do {
    in_bounds (frame_fits stack_start stack_size);
    let sp = hw_stack_pointer (stack_start + stack_size - 4);
    RT_ASSERT (unat priority < RT_THREAD_PRIORITY_MAX);
    h \<leftarrow> k_obj s (Obj thread);
    let th = \<lparr>th_sp = sp, th_entry = entry, th_parameter = parameter, th_stack_addr = stack_start,
      th_stack_size = stack_size, th_stack_guard = bottom_byte stack_start sp, th_error = RT_EOK,
      th_stat = RT_THREAD_INIT, th_current_priority = priority, th_init_priority = priority, th_number_mask = 0,
      th_pending_object = None, th_event_set = 0, th_event_info = 0, th_init_tick = tick, th_remaining_tick = tick,
      th_cleanup = None, th_user_data = 0\<rparr>;
    let s = s\<lparr>k_thread := (k_thread s)(thread \<mapsto> th), k_taken := (k_taken s)(thread := [])\<rparr>;
    s \<leftarrow> rt_timer_init (ThreadTimer thread) (obj_name h) Thread_timeout thread 0 RT_TIMER_FLAG_ONE_SHOT s;
    Some (RT_EOK, s) }"

definition rt_thread_init :: "addr \<Rightarrow> u8 list \<Rightarrow> u32 \<Rightarrow> u32 \<Rightarrow> u32 \<Rightarrow> u32 \<Rightarrow> u8 \<Rightarrow> u32 \<Rightarrow> kstate \<Rightarrow> (rt_err \<times> kstate) option" where
  "rt_thread_init thread nm entry parameter stack_start stack_size priority tick s = do {
    RT_ASSERT (stack_start \<noteq> 0);
    s \<leftarrow> rt_object_init (Obj thread) RT_Object_Class_Thread nm s;
    thread_init thread entry parameter stack_start stack_size priority tick s }"

text \<open>The two results of the allocator are parameters.\<close>

definition rt_thread_create :: "addr option \<Rightarrow> u32 option \<Rightarrow> u8 list \<Rightarrow> u32 \<Rightarrow> u32 \<Rightarrow> u32 \<Rightarrow> u8 \<Rightarrow> u32 \<Rightarrow> kstate \<Rightarrow>
    (addr option \<times> kstate) option" where
  "rt_thread_create mem stack_mem nm entry parameter stack_size priority tick s = do {
    (t, s) \<leftarrow> rt_object_allocate mem RT_Object_Class_Thread nm s;
    case t of
      None \<Rightarrow> Some (None, s)
    | Some thread \<Rightarrow> (case stack_mem of
        None \<Rightarrow> do { s \<leftarrow> rt_object_delete (Obj thread) s; Some (None, s) }
      | Some stack_start \<Rightarrow> do {
          (_, s) \<leftarrow> thread_init thread entry parameter stack_start stack_size priority tick s;
          Some (Some thread, s) }) }"

definition rt_thread_startup :: "addr \<Rightarrow> kstate \<Rightarrow> (rt_err \<times> kstate) option" where
  "rt_thread_startup thread s = do {
    th \<leftarrow> k_thread s thread;
    RT_ASSERT (state_of th = RT_THREAD_INIT);
    _ \<leftarrow> assert_type (Obj thread) RT_Object_Class_Thread s;
    s \<leftarrow> upd_thread thread (\<lambda>th. th\<lparr>th_number_mask := push_bit (unat (th_current_priority th)) 1\<rparr>) s;
    s \<leftarrow> upd_thread thread (\<lambda>th. th\<lparr>th_stat := RT_THREAD_SUSPEND\<rparr>) s;
    (_, s) \<leftarrow> rt_thread_resume thread s;
    s \<leftarrow> (if rt_thread_self s \<noteq> None then rt_schedule s else Some s);
    Some (RT_EOK, s) }"

section \<open>Closing\<close>

definition thread_exit :: "kstate \<Rightarrow> kstate option" where
  "thread_exit s = do {
    thread \<leftarrow> rt_thread_self s;
    s \<leftarrow> rt_schedule_remove_thread thread s;
    (_, s) \<leftarrow> rt_timer_detach (ThreadTimer thread) s;
    s \<leftarrow> upd_thread thread (\<lambda>th. th\<lparr>th_stat := RT_THREAD_CLOSE\<rparr>) s;
    let s = rt_thread_defunct_enqueue thread s;
    rt_schedule s }"

text \<open>The thread leaves the mutex it waits for.\<close>

definition leave_mutex :: "addr \<Rightarrow> kstate \<Rightarrow> kstate option" where
  "leave_mutex thread s = do {
    th \<leftarrow> k_thread s thread;
    case th_pending_object th of
      None \<Rightarrow> Some s
    | Some mutex \<Rightarrow> do {
        type \<leftarrow> rt_object_get_type (Obj mutex) s;
        if type = RT_Object_Class_Mutex then do {
          s \<leftarrow> rt_mutex_drop_thread mutex thread s;
          upd_thread thread (\<lambda>th. th\<lparr>th_pending_object := None\<rparr>) s
        } else Some s } }"

text \<open>The common part of \<open>rt_thread_detach\<close> and \<open>rt_thread_delete\<close>, after their checks.\<close>

definition close_thread :: "addr \<Rightarrow> kstate \<Rightarrow> (rt_err \<times> kstate) option" where
  "close_thread thread s = do {
    th \<leftarrow> k_thread s thread;
    if state_of th = RT_THREAD_CLOSE then Some (RT_EOK, s)
    else do {
      s \<leftarrow> (if state_of th \<noteq> RT_THREAD_INIT then rt_schedule_remove_thread thread s else Some s);
      (_, s) \<leftarrow> rt_timer_detach (ThreadTimer thread) s;
      s \<leftarrow> upd_thread thread (\<lambda>th. th\<lparr>th_stat := RT_THREAD_CLOSE\<rparr>) s;
      s \<leftarrow> leave_mutex thread s;
      Some (RT_EOK, rt_thread_defunct_enqueue thread s) } }"

definition rt_thread_detach :: "addr \<Rightarrow> kstate \<Rightarrow> (rt_err \<times> kstate) option" where
  "rt_thread_detach thread s = do {
    _ \<leftarrow> assert_type (Obj thread) RT_Object_Class_Thread s;
    _ \<leftarrow> assert_static (Obj thread) True s;
    close_thread thread s }"

definition rt_thread_delete :: "addr \<Rightarrow> kstate \<Rightarrow> (rt_err \<times> kstate) option" where
  "rt_thread_delete thread s = do {
    _ \<leftarrow> assert_type (Obj thread) RT_Object_Class_Thread s;
    _ \<leftarrow> assert_static (Obj thread) False s;
    close_thread thread s }"

section \<open>Sleeping\<close>

definition thread_sleep_timer :: "addr \<Rightarrow> u32 \<Rightarrow> kstate \<Rightarrow> kstate option" where
  "thread_sleep_timer thread tick s = do {
    (_, _, s) \<leftarrow> rt_timer_control (ThreadTimer thread) (SET_TIME tick) s;
    (_, s) \<leftarrow> rt_timer_start (ThreadTimer thread) s;
    Some s }"

definition rt_thread_sleep :: "u32 \<Rightarrow> kstate \<Rightarrow> (rt_err outcome \<times> kstate) option" where
  "rt_thread_sleep tick s =
    (if tick = 0 then Some (Return (- RT_EINVAL), s)
     else do {
       thread \<leftarrow> rt_thread_self s;
       _ \<leftarrow> assert_type (Obj thread) RT_Object_Class_Thread s;
       _ \<leftarrow> RT_DEBUG_SCHEDULER_AVAILABLE True s;
       s \<leftarrow> upd_thread thread (\<lambda>th. th\<lparr>th_error := RT_EOK\<rparr>) s;
       (err, s) \<leftarrow> rt_thread_suspend_with_flag thread RT_INTERRUPTIBLE s;
       if err = RT_EOK then do {
         s \<leftarrow> thread_sleep_timer thread tick s;
         s \<leftarrow> upd_thread thread (\<lambda>th. th\<lparr>th_error := - RT_EINTR\<rparr>) s;
         s \<leftarrow> rt_schedule s;
         Some (Blocked, s)
       } else Some (Return err, s) })"

definition clear_timeout :: "addr \<Rightarrow> kstate \<Rightarrow> kstate option" where
  "clear_timeout thread s = do {
    th \<leftarrow> k_thread s thread;
    if th_error th = - RT_ETIMEOUT then upd_thread thread (\<lambda>th. th\<lparr>th_error := RT_EOK\<rparr>) s
    else Some s }"

definition thread_sleep_resume :: "addr \<Rightarrow> kstate \<Rightarrow> (rt_err \<times> kstate) option" where
  "thread_sleep_resume thread s = do { s \<leftarrow> clear_timeout thread s; Some (RT_EOK, s) }"

definition rt_thread_delay :: "u32 \<Rightarrow> kstate \<Rightarrow> (rt_err outcome \<times> kstate) option" where
  "rt_thread_delay tick s = rt_thread_sleep tick s"

text \<open>The result has the new value of \<open>*tick\<close>.\<close>

definition rt_thread_delay_until :: "u32 \<Rightarrow> u32 \<Rightarrow> kstate \<Rightarrow> (rt_err outcome \<times> u32 \<times> kstate) option" where
  "rt_thread_delay_until tick inc_tick s = do {
    thread \<leftarrow> rt_thread_self s;
    _ \<leftarrow> assert_type (Obj thread) RT_Object_Class_Thread s;
    s \<leftarrow> upd_thread thread (\<lambda>th. th\<lparr>th_error := RT_EOK\<rparr>) s;
    let cur_tick = rt_tick s;
    if cur_tick - tick < inc_tick then do {
      let tick = tick + inc_tick;
      let left_tick = tick - cur_tick;
      (_, s) \<leftarrow> rt_thread_suspend_with_flag thread RT_UNINTERRUPTIBLE s;
      s \<leftarrow> thread_sleep_timer thread left_tick s;
      s \<leftarrow> rt_schedule s;
      Some (Blocked, tick, s)
    } else do {
      th \<leftarrow> k_thread s thread;
      Some (Return (th_error th), cur_tick, s) } }"

definition thread_delay_until_resume :: "addr \<Rightarrow> kstate \<Rightarrow> (rt_err \<times> kstate) option" where
  "thread_delay_until_resume thread s = do {
    s \<leftarrow> clear_timeout thread s;
    th \<leftarrow> k_thread s thread;
    Some (th_error th, s) }"

section \<open>The clock\<close>

definition rt_tick_get :: "kstate \<Rightarrow> u32" where
  "rt_tick_get s = rt_tick s"

definition rt_tick_set :: "u32 \<Rightarrow> kstate \<Rightarrow> kstate" where
  "rt_tick_set tick s = s\<lparr>rt_tick := tick\<rparr>"

text \<open>The clock interrupt: the time slice of the running thread, then the timers.\<close>

definition time_slice :: "kstate \<Rightarrow> kstate option" where
  "time_slice s = do {
    thread \<leftarrow> rt_thread_self s;
    s \<leftarrow> upd_thread thread (\<lambda>th. th\<lparr>th_remaining_tick := th_remaining_tick th - 1\<rparr>) s;
    th \<leftarrow> k_thread s thread;
    if th_remaining_tick th = 0 then do {
      s \<leftarrow> upd_thread thread (\<lambda>th. th\<lparr>th_remaining_tick := th_init_tick th,
        th_stat := th_stat th OR RT_THREAD_STAT_YIELD\<rparr>) s;
      rt_schedule s
    } else Some s }"

definition rt_tick_increase :: "(nat \<Rightarrow> addr \<Rightarrow> kstate \<Rightarrow> kstate option) \<Rightarrow> kstate \<Rightarrow> kstate option" where
  "rt_tick_increase user s = do {
    let s = s\<lparr>rt_tick := rt_tick s + 1\<rparr>;
    s \<leftarrow> time_slice s;
    rt_timer_check user s }"

abbreviation (input) RT_TICK_PER_SECOND :: int where "RT_TICK_PER_SECOND \<equiv> 100"

text \<open>Signed division of a non-negative number; the products stay below \<open>2 ^ 31\<close>.\<close>

definition rt_tick_from_millisecond :: "u32 \<Rightarrow> u32" where
  "rt_tick_from_millisecond ms =
    (if sint ms < 0 then RT_WAITING_FOREVER
     else let tick = word_of_int (RT_TICK_PER_SECOND * (sint ms div 1000))
       in tick + word_of_int ((RT_TICK_PER_SECOND * (sint ms mod 1000) + 999) div 1000))"

definition rt_tick_get_millisecond :: "kstate \<Rightarrow> u32" where
  "rt_tick_get_millisecond s = rt_tick_get s * 10"

definition rt_thread_mdelay :: "u32 \<Rightarrow> kstate \<Rightarrow> (rt_err outcome \<times> kstate) option" where
  "rt_thread_mdelay ms s = (let tick = rt_tick_from_millisecond ms in rt_thread_sleep tick s)"

section \<open>Control\<close>

datatype thread_cmd = CHANGE_PRIORITY u8 | STARTUP | CLOSE | Other_thread_cmd

definition rt_thread_control :: "addr \<Rightarrow> thread_cmd \<Rightarrow> kstate \<Rightarrow> (rt_err \<times> kstate) option" where
  "rt_thread_control thread cmd s = do {
    _ \<leftarrow> assert_type (Obj thread) RT_Object_Class_Thread s;
    case cmd of
      CHANGE_PRIORITY arg \<Rightarrow> do { s \<leftarrow> change_priority thread arg s; Some (RT_EOK, s) }
    | STARTUP \<Rightarrow> rt_thread_startup thread s
    | CLOSE \<Rightarrow> do {
        b \<leftarrow> rt_object_is_systemobject (Obj thread) s;
        (err, s) \<leftarrow> (if b then rt_thread_detach thread s else rt_thread_delete thread s);
        s \<leftarrow> rt_schedule s;
        Some (err, s) }
    | Other_thread_cmd \<Rightarrow> Some (RT_EOK, s) }"

definition rt_thread_find :: "u8 list option \<Rightarrow> kstate \<Rightarrow> (oref option \<times> kstate) option" where
  "rt_thread_find nm s = rt_object_find nm RT_Object_Class_Thread s"

definition rt_thread_get_name :: "addr option \<Rightarrow> bool \<Rightarrow> nat \<Rightarrow> kstate \<Rightarrow> (rt_err \<times> u8 list) option" where
  "rt_thread_get_name thread name_given name_size s = (case thread of
      None \<Rightarrow> Some (- RT_EINVAL, [])
    | Some t \<Rightarrow> rt_object_get_name (Some (Obj t)) name_given name_size s)"

section \<open>The idle thread\<close>

text \<open>The hooks are pointers in an array of four; \<open>None\<close> is a free entry.\<close>

fun rt_thread_idle_sethook :: "nat \<Rightarrow> nat option list \<Rightarrow> rt_err \<times> nat option list" where
  "rt_thread_idle_sethook hook [] = (- RT_EFULL, [])"
| "rt_thread_idle_sethook hook (h # l) =
    (if h = None then (RT_EOK, Some hook # l)
     else let (ret, l) = rt_thread_idle_sethook hook l in (ret, h # l))"

fun rt_thread_idle_delhook :: "nat \<Rightarrow> nat option list \<Rightarrow> rt_err \<times> nat option list" where
  "rt_thread_idle_delhook hook [] = (- RT_ENOSYS, [])"
| "rt_thread_idle_delhook hook (h # l) =
    (if h = Some hook then (RT_EOK, None # l)
     else let (ret, l) = rt_thread_idle_delhook hook l in (ret, h # l))"

text \<open>
  Cleaning up one closed thread; the clean-up function of the application is a parameter. The
  result has the stack given back to the allocator.
\<close>

definition defunct_one :: "(u32 \<Rightarrow> addr \<Rightarrow> kstate \<Rightarrow> kstate option) \<Rightarrow> addr \<Rightarrow> kstate \<Rightarrow> (u32 list \<times> kstate) option" where
  "defunct_one user thread s = do {
    th \<leftarrow> k_thread s thread;
    b \<leftarrow> rt_object_is_systemobject (Obj thread) s;
    s \<leftarrow> (if b then rt_object_detach (Obj thread) s else Some s);
    s \<leftarrow> (case th_cleanup th of None \<Rightarrow> Some s | Some cleanup \<Rightarrow> user cleanup thread s);
    if \<not> b then do {
      th \<leftarrow> k_thread s thread;
      s \<leftarrow> rt_object_delete (Obj thread) s;
      Some ([th_stack_addr th], s)
    } else Some ([], s) }"

partial_function (option) rt_defunct_execute ::
    "(u32 \<Rightarrow> addr \<Rightarrow> kstate \<Rightarrow> kstate option) \<Rightarrow> kstate \<Rightarrow> (u32 list \<times> kstate) option" where
  "rt_defunct_execute user s = (case rt_thread_defunct_dequeue s of
      (None, s) \<Rightarrow> Some ([], s)
    | (Some thread, s) \<Rightarrow> do {
        (f, s) \<leftarrow> defunct_one user thread s;
        (fs, s) \<leftarrow> rt_defunct_execute user s;
        Some (f @ fs, s) })"

text \<open>The static object \<open>idle_thread[0]\<close>; the addresses of its stack and entry are parameters.\<close>

definition idle_thread :: addr where "idle_thread = 2"

definition rt_thread_idle_init :: "u32 \<Rightarrow> u32 \<Rightarrow> kstate \<Rightarrow> kstate option" where
  "rt_thread_idle_init stack entry s = do {
    (_, s) \<leftarrow> rt_thread_init idle_thread [0x74, 0x69, 0x64, 0x6c, 0x65, 0x30, 0] entry 0 stack 256 31 32 s;
    (_, s) \<leftarrow> rt_thread_startup idle_thread s;
    Some s }"

definition rt_thread_idle_gethandler :: addr where
  "rt_thread_idle_gethandler = idle_thread"

section \<open>The thread of the soft timers\<close>

text \<open>
  One round of \<open>_timer_thread_entry\<close>: up to the point where the thread waits, or to the end, when
  the check of the timers follows at once; the check is what follows a wait.
\<close>

definition timer_thread_round :: "(nat \<Rightarrow> addr \<Rightarrow> kstate \<Rightarrow> kstate option) \<Rightarrow> kstate \<Rightarrow> (unit outcome \<times> kstate) option" where
  "timer_thread_round user s = do {
    (r, next) \<leftarrow> timer_list_next_timeout SoftTimers s;
    case next of
      None \<Rightarrow> do {
        self \<leftarrow> rt_thread_self s;
        (_, s) \<leftarrow> rt_thread_suspend_with_flag self RT_UNINTERRUPTIBLE s;
        s \<leftarrow> rt_schedule s;
        Some (Blocked, s) }
    | Some next_timeout \<Rightarrow> do {
        let current_tick = rt_tick_get s;
        (o', s) \<leftarrow> (if next_timeout - current_tick < RT_TICK_MAX div 2
          then rt_thread_delay (next_timeout - current_tick) s else Some (Return RT_EOK, s));
        case o' of
          Blocked \<Rightarrow> Some (Blocked, s)
        | Return _ \<Rightarrow> do { s \<leftarrow> rt_soft_timer_check user s; Some (Return (), s) } } }"

definition rt_system_timer_thread_init :: "u32 \<Rightarrow> u32 \<Rightarrow> kstate \<Rightarrow> kstate option" where
  "rt_system_timer_thread_init stack entry s = do {
    let s = s\<lparr>k_timers := (k_timers s)(SoftTimers := [])\<rparr>;
    (_, s) \<leftarrow> rt_thread_init timer_thread [0x74, 0x69, 0x6d, 0x65, 0x72, 0] entry 0 stack 512 4 10 s;
    (_, s) \<leftarrow> rt_thread_startup timer_thread s;
    Some s }"

end
