(* ===== verification/ThreadStart.thy ===== *)
theory ThreadStart
  imports Thread ObjectProps
begin

text \<open>
  Creating and starting threads: the initial stack lies inside the memory it is given, the
  kernel stays well-formed, and a started thread runs at once when it is the most important one.
\<close>

section \<open>The initial stack\<close>

lemma stack_pointer:
  assumes "80 \<le> unat n" and "unat a + unat n < 2 ^ 32"
  shows "unat (hw_stack_pointer (a + n - 4)) = 8 * ((unat a + unat n) div 8) - 64"
    and "frame_fits a n" and "\<not> hw_stack_pointer (a + n - 4) \<le> a"
    and "\<not> hw_stack_pointer (a + n - 4) > a + n"
proof -
  have s: "unat (a + n) = unat a + unat n" using unat_plus_less [of a n] assms(2) by simp
  have d: "unat (RT_ALIGN_DOWN (a + n) 8) = 8 * ((unat a + unat n) div 8)" using unat_RT_ALIGN_DOWN [of "a + n"] s by simp
  have e: "8 * ((unat a + unat n) div 8) + 7 \<ge> unat a + unat n" by presburger
  then have ge: "(64 :: u32) \<le> RT_ALIGN_DOWN (a + n) 8" using d assms(1) by (simp add: word_le_nat_alt)
  have "hw_stack_pointer (a + n - 4) = RT_ALIGN_DOWN (a + n) 8 - 64" by (simp add: hw_stack_pointer_def)
  then show u: "unat (hw_stack_pointer (a + n - 4)) = 8 * ((unat a + unat n) div 8) - 64"
    using unat_sub [OF ge] d by simp
  show "frame_fits a n" using e assms by (simp add: frame_fits_def)
  show "\<not> hw_stack_pointer (a + n - 4) \<le> a" using u e assms(1) by (simp add: word_le_nat_alt)
  show "\<not> hw_stack_pointer (a + n - 4) > a + n" using u s by (simp add: word_less_nat_alt)
qed

lemma unused: "inv_out T s \<Longrightarrow> k_thread s t = None \<Longrightarrow> unlinked (k_list s) t \<and> rt_current_thread s \<noteq> Some t"
  using inv_outD(2,6) [of T s] by (fastforce simp: unlinked_def)

section \<open>A new thread\<close>

definition new_thread :: "u32 \<Rightarrow> u32 \<Rightarrow> u32 \<Rightarrow> u32 \<Rightarrow> u8 \<Rightarrow> u32 \<Rightarrow> rt_thread" where
  "new_thread entry parameter a n priority tick = \<lparr>th_sp = hw_stack_pointer (a + n - 4), th_entry = entry,
    th_parameter = parameter, th_stack_addr = a, th_stack_size = n, th_stack_guard = 35, th_error = RT_EOK,
    th_stat = RT_THREAD_INIT, th_current_priority = priority, th_init_priority = priority, th_number_mask = 0,
    th_pending_object = None, th_event_set = 0, th_event_info = 0, th_init_tick = tick, th_remaining_tick = tick,
    th_cleanup = None, th_user_data = 0\<rparr>"

lemma new_thread_simps [simp]:
  "th_stat (new_thread e p a n pr tk) = 0" "state_of (new_thread e p a n pr tk) = 0"
  "th_current_priority (new_thread e p a n pr tk) = pr" "th_init_priority (new_thread e p a n pr tk) = pr"
  "th_number_mask (new_thread e p a n pr tk) = 0" "th_pending_object (new_thread e p a n pr tk) = None"
  "prio (new_thread e p a n pr tk) = unat pr"
  by (simp_all add: new_thread_def state_of_def prio_def)

lemma new_thread_ok: "unat pr < 32 \<Longrightarrow> prio_ok (new_thread e p a n pr tk)" "state_ok s t (new_thread e p a n pr tk)"
  by (simp_all add: prio_ok_def state_ok_def)

lemma new_thread_stack: "80 \<le> unat n \<Longrightarrow> unat a + unat n < 2 ^ 32 \<Longrightarrow> stack_ok (new_thread e p a n pr tk)"
  using stack_pointer(3,4) [of n a] by (simp add: stack_ok_def new_thread_def)

text \<open>The header and the data of its timer.\<close>

definition new_timer :: "addr \<Rightarrow> rt_timer" where
  "new_timer t = \<lparr>tm_func = Thread_timeout, tm_parameter = t, tm_init_tick = 0, tm_timeout_tick = 0\<rparr>"

lemma kwf_new_thread:
  assumes kw: "kwf s" and cl: "is_class (Obj t) RT_Object_Class_Thread s" and nt: "k_thread s t = None"
    and no: "k_obj s (ThreadTimer t) = None" and h: "prio_ok h" "\<And>s. state_ok s t h" "stack_ok h"
    and e0: "k_thread s0 = (k_thread s)(t \<mapsto> h)" "k_obj s0 = k_obj s" "k_timer s0 = k_timer s" "k_timers s0 = k_timers s"
    and f: "sched_frame s0 s1" "sched_inv s1"
    and e: "k_obj s' = (k_obj s1)(ThreadTimer t \<mapsto> ob)" "k_timer s' = (k_timer s1)(ThreadTimer t \<mapsto> new_timer t)"
      "k_thread s' = k_thread s1" "k_list s' = k_list s1" "k_timers s' = k_timers s1"
      "rt_thread_ready_priority_group s' = rt_thread_ready_priority_group s1" "rt_current_thread s' = rt_current_thread s1"
    and ob: "obj_type ob AND NOT RT_Object_Class_Static = RT_Object_Class_Timer" "\<not> is_soft ob" "\<not> periodic ob"
  shows "kwf s'"
proof -
  note k = kwfD(1) [OF kw] and fr = sched_frame_fields [OF f(1)]
  have o1: "k_obj s1 = k_obj s" "k_timer s1 = k_timer s" "k_timers s1 = k_timers s" using fr e0 by simp_all
  have live: "timer_live r s'" if "timer_live r s" for r using that no by (auto simp: timer_live_def e o1)
  have cls: "is_class r c s'" if "is_class r c s" for r c using that no by (auto simp: is_class_def e o1)
  have tl: "timer_live (ThreadTimer t) s'" using ob by (simp add: timer_live_def e)
  have "sched_inv s'" using f(2) inv_out_cong [OF e(3,4,6,7)] by (simp add: sched_inv_def)
  moreover have "threads_wf s'"
    unfolding threads_wf_def
  proof (intro allI impI)
    fix u g assume g: "k_thread s' u = Some g" "state_of g \<noteq> 1"
    show "is_class (Obj u) 1 s' \<and> timer_live (ThreadTimer u) s'"
    proof (cases "u = t")
      case True
      with tl cls [OF cl] show ?thesis by simp
    next
      case False
      from sched_frame_back [OF f(1), of u g] g e(3) e0(1) False obtain g' where "k_thread s u = Some g'" "state_of g' \<noteq> 1" by auto
      with kinvD(2) [OF k] live cls show ?thesis by (simp add: threads_wf_def)
    qed
  qed
  moreover have "stacks_ok s'"
    unfolding stacks_ok_def
  proof (intro allI impI)
    fix u g assume "k_thread s' u = Some g"
    with sched_frame_back [OF f(1), of u g] e(3) e0(1) obtain g' where
      "((k_thread s)(t \<mapsto> h)) u = Some g'" "stack_ok g = stack_ok g'" by auto
    with h(3) kinvD(3) [OF k] show "stack_ok g" by (auto simp: stacks_ok_def split: if_splits)
  qed
  moreover have "timers_wf s'"
    unfolding timers_wf_def
  proof (intro conjI allI impI)
    show "separate (k_timers s')" using kinvD(4) [OF k] by (simp add: timers_wf_def e o1)
    show "timer_live u s'" if "u \<in> set (k_timers s' l)" for l u
      using that timers_wf_live [OF kinvD(4) [OF k]] live by (simp add: e o1)
    show "\<exists>h. k_obj s' u = Some h \<and> activated h" if "l = HardTimers \<or> l = SoftTimers" "u \<in> set (k_timers s' l)" for l u
      using timers_wf_activated [OF kinvD(4) [OF k] that(1), of u] that(2) no by (auto simp: e o1)
  qed
  moreover have "thread_timers s'" using kwfD(2) [OF kw] ob(2,3) by (simp add: thread_timers_def e o1 new_timer_def)
  moreover have "armed_ok s'"
  proof (rule armed_okI [OF kwfD(3) [OF kw]])
    show "ThreadTimer u \<in> set (k_timers s HardTimers)" if "ThreadTimer u \<in> set (k_timers s' HardTimers)" for u
      using that by (simp add: e o1)
    show "\<exists>g. k_thread s' u = Some g \<and> suspended g" if "k_thread s u = Some g'" "suspended g'" for u g'
    proof -
      have "k_thread s0 u = Some g'" using that(1) nt e0(1) by auto
      with sched_frame_quiet [OF f(1), of u g'] suspended_no_ready [OF that(2)] that(2) show ?thesis by (simp add: e)
    qed
  qed
  ultimately show ?thesis by (simp add: kwf_def kinv_def)
qed

lemma critical_sched:
  assumes i: "sched_inv s" "stacks_ok s" and n: "0 \<le> sint (rt_scheduler_lock_nest s)"
  shows "\<exists>s1. rt_exit_critical (rt_enter_critical s) = Some s1 \<and> sched_inv s1 \<and> sched_frame s s1 \<and>
    (rt_current_thread s1 = rt_current_thread s \<or>
      (\<exists>c th. rt_current_thread s1 = Some c \<and> k_thread s1 c = Some th \<and> state_of th = RT_THREAD_RUNNING))"
proof (cases "rt_scheduler_lock_nest s = 0")
  case False
  then have "0 < sint (rt_scheduler_lock_nest s)" using n by (metis less_le signed_eq_0_iff)
  then have "rt_exit_critical (rt_enter_critical s) = Some s"
    by (simp add: rt_exit_critical_def rt_enter_critical_def Let_def)
  with i show ?thesis by (metis sched_frame_refl)
next
  case True
  then have e: "s\<lparr>rt_scheduler_lock_nest := 0\<rparr> = s" by simp
  show ?thesis
  proof (cases "rt_current_thread s")
    case None
    then have "rt_exit_critical (rt_enter_critical s) = Some s"
      using True by (simp add: rt_exit_critical_def rt_enter_critical_def Let_def e)
    with i show ?thesis by (metis sched_frame_refl)
  next
    case c: (Some c)
  from schedule_spec [OF i c] True obtain s1 where
    s1: "rt_schedule s = Some s1" "sched_inv s1" "sched_frame s s1"
    and r: "rt_thread_ready_priority_group s \<noteq> 0 \<longrightarrow>
      (\<exists>c th. rt_current_thread s1 = Some c \<and> k_thread s1 c = Some th \<and> state_of th = RT_THREAD_RUNNING)" by blast
  have "rt_current_thread s1 = rt_current_thread s" if "rt_thread_ready_priority_group s = 0"
    using s1(1) that by (simp add: rt_schedule_def)
  with r have "rt_current_thread s1 = rt_current_thread s \<or>
      (\<exists>c th. rt_current_thread s1 = Some c \<and> k_thread s1 c = Some th \<and> state_of th = RT_THREAD_RUNNING)" by blast
  moreover note s1
  moreover have "rt_exit_critical (rt_enter_critical s) = rt_schedule s"
    using True c by (simp add: rt_exit_critical_def rt_enter_critical_def Let_def e)
  ultimately show ?thesis by auto
  qed
qed

text \<open>What a thread object must satisfy to be initialised.\<close>

definition unused_timer :: "addr \<Rightarrow> kstate \<Rightarrow> bool" where
  "unused_timer t s \<longleftrightarrow> k_thread s t = None \<and> k_obj s (ThreadTimer t) = None \<and> ThreadTimer t \<notin> set (k_container s RT_Object_Class_Timer)"

text \<open>The thread as it is after its initialisation.\<close>

definition initialised :: "addr \<Rightarrow> rt_thread \<Rightarrow> kstate \<Rightarrow> bool" where
  "initialised t h s \<longleftrightarrow> kwf s \<and> k_thread s t = Some h \<and> is_class (Obj t) RT_Object_Class_Thread s \<and>
    unlinked (k_list s) t \<and> rt_current_thread s \<noteq> Some t"

text \<open>The state with the new thread, before its timer is initialised.\<close>

definition with_thread :: "addr \<Rightarrow> rt_thread \<Rightarrow> kstate \<Rightarrow> kstate" where
  "with_thread t h s = s\<lparr>k_thread := (k_thread s)(t \<mapsto> h), k_taken := (k_taken s)(t := [])\<rparr>"

lemma with_thread_inv:
  assumes kw: "kwf s" and nt: "k_thread s t = None" and ok: "prio_ok h" "\<And>q. state_ok q t h" "stack_ok h"
  shows "sched_inv (with_thread t h s)" "stacks_ok (with_thread t h s)"
proof -
  let ?s2 = "with_thread t h s"
  note k = kwfD(1) [OF kw]
  note out = unused [OF kinvD(5) [OF k, of "{}"] nt]
  have "inv_out {} ?s2"
  proof (rule inv_outI)
    note i = kinvD(5) [OF k, of "{}"]
    show "separate (k_list ?s2)" using inv_outD(1) [OF i] by (simp add: with_thread_def)
    show "\<exists>h. k_thread ?s2 x = Some h \<and> queue_state l h" if "x \<in> set (k_list ?s2 l)" for l x
      using inv_outD(2) [OF i, of x l] that out by (cases "x = t") (auto simp: unlinked_def with_thread_def)
    show "prio_ok g" if "k_thread ?s2 x = Some g" for x g
      using inv_outD(3) [OF i, of x g] that ok(1) by (cases "x = t") (simp_all add: with_thread_def)
    show "state_ok ?s2 x g" if "k_thread ?s2 x = Some g" "x \<notin> {}" for x g
      using inv_outD(4) [OF i, of x g] that ok(2) by (cases "x = t") (simp_all add: state_ok_def with_thread_def)
    show "bit (rt_thread_ready_priority_group ?s2) q \<longleftrightarrow> k_list ?s2 (ReadyQ q) \<noteq> []" if "q < 32" for q
      using inv_outD(5) [OF i that] by (simp add: with_thread_def)
    show "\<exists>g. k_thread ?s2 c = Some g" if "rt_current_thread ?s2 = Some c" for c
      using inv_outD(6) [OF i, of c] that by (auto simp: with_thread_def)
  qed
  then show "sched_inv ?s2" by (simp add: sched_inv_def)
  show "stacks_ok ?s2" using kinvD(3) [OF k] ok(3) by (simp add: stacks_ok_def with_thread_def)
qed

text \<open>The initialisation, by what the critical section of the timer's registration gives.\<close>

lemma thread_init_with:
  fixes entry param tick
  assumes kw: "kwf s" and cl: "is_class (Obj t) RT_Object_Class_Thread s" and un: "unused_timer t s"
    and st: "80 \<le> unat sz" "unat a + unat sz < 2 ^ 32" and pr: "unat pr < 32"
  defines "h \<equiv> new_thread entry param a sz pr tick"
  assumes s1: "rt_exit_critical (rt_enter_critical (with_thread t h s)) = Some s1" "sched_inv s1" "sched_frame (with_thread t h s) s1"
    and r1: "rt_current_thread s1 = rt_current_thread s \<or>
      (\<exists>c th. rt_current_thread s1 = Some c \<and> k_thread s1 c = Some th \<and> state_of th = RT_THREAD_RUNNING)"
  shows "\<exists>s'. thread_init t entry param a sz pr tick s = Some (RT_EOK, s') \<and> initialised t h s' \<and>
    rt_current_thread s' = rt_current_thread s1 \<and> rt_scheduler_lock_nest s' = rt_scheduler_lock_nest s \<and>
    rt_interrupt_nest s' = rt_interrupt_nest s \<and> k_thread s' = k_thread s1 \<and> k_timers s' = k_timers s \<and>
    (\<forall>x. x \<noteq> ThreadTimer t \<longrightarrow> k_obj s' x = k_obj s x) \<and>
    k_container s' = al_head RT_Object_Class_Timer (ThreadTimer t) (k_container s)"
proof -
  let ?h = h let ?s2 = "with_thread t ?h s"
  note k = kwfD(1) [OF kw]
  have nt: "k_thread s t = None" "k_obj s (ThreadTimer t) = None" using un by (simp_all add: unused_timer_def)
  note out = unused [OF kinvD(5) [OF k, of "{}"] nt(1)]
  have ok: "prio_ok ?h" "state_ok q t ?h" "stack_ok ?h" for q
    using new_thread_ok pr new_thread_stack [OF st] by (simp_all add: h_def)
  have f1: "k_obj s1 = k_obj s" using sched_frame_fields [OF s1(3)] by (simp add: with_thread_def)
  obtain h0 where h0: "k_obj s (Obj t) = Some h0" using cl by (auto simp: is_class_def)
  define ob where "ob = deactivate \<lparr>obj_name = copy_name (obj_name h0), obj_type = 138, obj_flag = 0\<rparr>"
  define s3 where "s3 = (container_insert 10 (ThreadTimer t) (s1\<lparr>k_obj := (k_obj s1)(ThreadTimer t \<mapsto> ob)\<rparr>))
    \<lparr>k_timer := (k_timer s1)(ThreadTimer t \<mapsto> new_timer t)\<rparr>"
  have "k_container (rt_enter_critical ?s2) = k_container s" "k_obj (rt_enter_critical ?s2) = k_obj s"
    by (simp_all add: rt_enter_critical_def with_thread_def)
  then have oi: "rt_object_init (ThreadTimer t) 10 (obj_name h0) ?s2 =
      Some (container_insert 10 (ThreadTimer t) (s1\<lparr>k_obj := (k_obj s1)(ThreadTimer t \<mapsto>
        \<lparr>obj_name = copy_name (obj_name h0), obj_type = 138, obj_flag = k_stale s1 (ThreadTimer t)\<rparr>)\<rparr>))"
    using s1(1) un f1 information_known [of 10] by (simp add: rt_object_init_def unused_timer_def Let_def)
  have "rt_timer_init (ThreadTimer t) (obj_name h0) Thread_timeout t 0 0 ?s2 = Some s3"
    by (simp add: rt_timer_init_def oi timer_init_def upd_obj_def upd_def container_insert_def s3_def ob_def new_timer_def)
  moreover have "bottom_byte a (hw_stack_pointer (a + sz - 4)) = 35"
    using stack_pointer(3) [OF st] by (auto simp: bottom_byte_def)
  then have "thread_init t entry param a sz pr tick s =
      map_option (Pair 0) (rt_timer_init (ThreadTimer t) (obj_name h0) Thread_timeout t 0 0 ?s2)"
    using stack_pointer(2) [OF st] pr h0
    by (simp add: thread_init_def h_def new_thread_def with_thread_def Let_def map_option_case split: option.split)
  ultimately have "thread_init t entry param a sz pr tick s = Some (0, s3)" by simp
  moreover have f: "k_obj s3 = (k_obj s1)(ThreadTimer t \<mapsto> ob)" "k_timer s3 = (k_timer s1)(ThreadTimer t \<mapsto> new_timer t)"
    "k_thread s3 = k_thread s1" "k_list s3 = k_list s1" "k_timers s3 = k_timers s1"
    "rt_thread_ready_priority_group s3 = rt_thread_ready_priority_group s1" "rt_current_thread s3 = rt_current_thread s1"
    "rt_scheduler_lock_nest s3 = rt_scheduler_lock_nest s1" "rt_interrupt_nest s3 = rt_interrupt_nest s1"
    "k_container s3 = al_head 10 (ThreadTimer t) (k_container s1)"
    by (simp_all add: s3_def container_insert_def)
  have "kwf s3"
    by (rule kwf_new_thread [where s = s and h = ?h and s0 = ?s2, OF kw cl nt ok _ _ _ _ s1(3,2) f(1-7)])
      (simp_all add: ob_def with_thread_def, simp_all add: deactivate_def is_soft_def periodic_def)
  moreover have "k_thread s3 t = Some ?h"
    using sched_frame_quiet [OF s1(3), of t ?h] f(3) by (simp add: with_thread_def) (simp add: h_def)
  moreover have "is_class (Obj t) 1 s3" using cl f(1) f1 by (simp add: is_class_def)
  moreover have "unlinked (k_list s3) t"
  proof -
    have "t \<notin> set (k_list s3 l)" for l
      using calculation(3) inv_outD(2) [OF kinvD(5) [OF kwfD(1) [OF calculation(2)], of "{}"], of t l]
      by (cases l) (auto simp: queue_state_def suspended_def h_def)
    then show ?thesis by (simp add: unlinked_def)
  qed
  moreover have "rt_current_thread s3 \<noteq> Some t" using r1 out calculation(3) f(3,7) by (auto simp: h_def)
  moreover have "rt_scheduler_lock_nest s3 = rt_scheduler_lock_nest s" "rt_interrupt_nest s3 = rt_interrupt_nest s" "k_timers s3 = k_timers s"
    "k_container s3 = al_head 10 (ThreadTimer t) (k_container s)"
    using f sched_frame_fields [OF s1(3)] by (simp_all add: with_thread_def)
  ultimately show ?thesis using f f1 unfolding initialised_def by (intro exI [of _ s3]) simp
qed

lemma thread_init_spec:
  assumes kw: "kwf s" and cl: "is_class (Obj t) RT_Object_Class_Thread s" and un: "unused_timer t s"
    and cur: "rt_current_thread s \<noteq> None" and n: "0 \<le> sint (rt_scheduler_lock_nest s)"
    and st: "80 \<le> unat sz" "unat a + unat sz < 2 ^ 32" and pr: "unat pr < 32"
  shows "\<exists>s'. thread_init t entry param a sz pr tick s = Some (RT_EOK, s') \<and>
    initialised t (new_thread entry param a sz pr tick) s' \<and> rt_current_thread s' \<noteq> None \<and>
    rt_scheduler_lock_nest s' = rt_scheduler_lock_nest s"
proof -
  let ?h = "new_thread entry param a sz pr tick"
  let ?s2 = "with_thread t ?h s"
  have nt: "k_thread s t = None" using un by (simp add: unused_timer_def)
  have ok: "prio_ok ?h" "state_ok q t ?h" "stack_ok ?h" for q using new_thread_ok pr new_thread_stack [OF st] by simp_all
  note i = with_thread_inv [OF kw nt ok]
  have c2: "0 \<le> sint (rt_scheduler_lock_nest ?s2)" "rt_current_thread ?s2 = rt_current_thread s" using n by (simp_all add: with_thread_def)
  from critical_sched [OF i c2(1)] c2(2) obtain s1 where
    s1: "rt_exit_critical (rt_enter_critical ?s2) = Some s1" "sched_inv s1" "sched_frame ?s2 s1"
    and r1: "rt_current_thread s1 = rt_current_thread s \<or>
      (\<exists>c th. rt_current_thread s1 = Some c \<and> k_thread s1 c = Some th \<and> state_of th = RT_THREAD_RUNNING)" by auto
  from thread_init_with [OF kw cl un st pr s1 r1] r1 cur show ?thesis by auto
qed

section \<open>Starting\<close>

definition started :: "addr \<Rightarrow> rt_thread \<Rightarrow> kstate \<Rightarrow> bool" where
  "started t h s \<longleftrightarrow> kwf s \<and> (\<exists>x. k_thread s t = Some (h\<lparr>th_number_mask := prio_bit h, th_stat := x\<rparr>) \<and>
      runnable (h\<lparr>th_stat := x\<rparr>)) \<and>
    (rt_scheduler_lock_nest s = 0 \<longrightarrow> highest_running s)"

text \<open>Up to the scheduling that ends the start.\<close>

lemma startup_resumed:
  assumes i: "initialised t h s" and st: "th_stat h = RT_THREAD_INIT" and pr: "prio_ok h"
  shows "\<exists>s2. rt_thread_startup t s =
      (if rt_current_thread s = None then Some (RT_EOK, s2) else map_option (Pair RT_EOK) (rt_schedule s2)) \<and>
    kwf s2 \<and> k_thread s2 = (k_thread s)(t \<mapsto> set_state RT_THREAD_READY (h\<lparr>th_number_mask := prio_bit h, th_stat := RT_THREAD_SUSPEND\<rparr>)) \<and>
    rt_current_thread s2 = rt_current_thread s \<and> rt_scheduler_lock_nest s2 = rt_scheduler_lock_nest s \<and>
    rt_interrupt_nest s2 = rt_interrupt_nest s \<and>
    rt_thread_ready_priority_group s2 \<noteq> 0 \<and> (\<forall>x. x \<noteq> ThreadTimer t \<longrightarrow> k_obj s2 x = k_obj s x) \<and> k_container s2 = k_container s \<and>
    (\<forall>l. k_timers s l = [] \<longrightarrow> k_timers s2 l = [])"
proof -
  have kw: "kwf s" and th: "k_thread s t = Some h" and cl: "is_class (Obj t) RT_Object_Class_Thread s"
    and un: "unlinked (k_list s) t" and nc: "rt_current_thread s \<noteq> Some t" using i by (simp_all add: initialised_def)
  note k = kwfD(1) [OF kw]
  have s0: "state_of h = 0" "\<not> suspended h" using st by (simp_all add: state_of_def suspended_def)
  let ?g = "h\<lparr>th_number_mask := prio_bit h, th_stat := 4\<rparr>"
  have g: "prio ?g = prio h" "prio_bit ?g = prio_bit h" "state_of ?g = 4" "suspended ?g"
    by (simp_all add: prio_def prio_bit_def state_of_def suspended_def)
  define s1 where "s1 = s\<lparr>k_thread := (k_thread s)(t \<mapsto> ?g)\<rparr>"
  have i1: "inv_out {} s1"
    unfolding s1_def
    by (rule inv_out_set [OF kinvD(5) [OF k, of "{}"] th un]) (use pr g in \<open>simp_all add: prio_ok_def state_ok_def\<close>)
  have "kinv s1"
    by (rule kinv_one_thread [OF k th i1, of ?g]) (use s0 g in \<open>simp_all add: s1_def stack_ok_def\<close>)
  moreover have "thread_timers s1" using kwfD(2) [OF kw] by (simp add: thread_timers_def s1_def)
  moreover have "armed_ok s1" by (rule armed_okI [OF kwfD(3) [OF kw]]) (use g in \<open>auto simp: s1_def\<close>)
  ultimately have kw1: "kwf s1" by (simp add: kwf_def)
  have g1: "k_thread s1 t = Some ?g" by (simp add: s1_def)
  have e1: "s1\<lparr>k_thread := (k_thread s1)(t \<mapsto> ?g\<lparr>th_error := th_error ?g\<rparr>)\<rparr> = s1" by (simp add: s1_def)
  define s2 where "s2 = woken (th_error ?g) t ?g s1"
  have r2: "rt_thread_resume t s1 = Some (0, s2)"
    using resume_woken(1) [OF kwfD(1) [OF kw1] g1 g(4), of "th_error ?g"] unfolding e1 s2_def .
  have kw2: "kwf s2" unfolding s2_def by (rule woken_kwf [OF kw1 g1 g(4)])
  have t2: "k_thread s2 t = Some (set_state 2 ?g)" "rt_current_thread s2 = rt_current_thread s"
    using nc by (simp_all add: s2_def s1_def)
  have "t \<in> set (k_list s2 (ReadyQ (prio h)))"
    using inv_outD(4) [OF kinvD(5) [OF kwfD(1) [OF kw2], of "{}"] t2(1)] g(1) by (simp add: state_ok_def prio_def)
  then have b: "rt_thread_ready_priority_group s2 \<noteq> 0"
    using inv_outD(5) [OF kinvD(5) [OF kwfD(1) [OF kw2], of "{}"], of "prio h"] pr by (auto simp: prio_ok_def)
  have u: "upd_thread t (\<lambda>th. th\<lparr>th_number_mask := push_bit (unat (th_current_priority th)) 1\<rparr>) s =
      Some (s\<lparr>k_thread := (k_thread s)(t \<mapsto> h\<lparr>th_number_mask := prio_bit h\<rparr>)\<rparr>)"
    using th by (simp add: prio_bit_def prio_def)
  have "rt_thread_startup t s = (if rt_current_thread s = None then Some (RT_EOK, s2) else map_option (Pair RT_EOK) (rt_schedule s2))"
    using th s0 cl u r2 t2(2)
    by (simp add: rt_thread_startup_def assert_type_class s1_def rt_thread_self_def map_option_case split: option.split)
  moreover have "k_thread s2 = (k_thread s)(t \<mapsto> set_state 2 ?g)" using nc by (simp add: s2_def s1_def)
  moreover have "rt_scheduler_lock_nest s2 = rt_scheduler_lock_nest s"
    using ipc_sameD [OF woken_same [of s1 "th_error ?g" t ?g]] by (simp_all add: s2_def s1_def)
  moreover have "rt_interrupt_nest s2 = rt_interrupt_nest s \<and> (\<forall>x. x \<noteq> ThreadTimer t \<longrightarrow> k_obj s2 x = k_obj s x) \<and>
      k_container s2 = k_container s \<and> (\<forall>l. k_timers s l = [] \<longrightarrow> k_timers s2 l = [])"
    by (auto simp: s2_def s1_def woken_def wake_def stop_timer_def al_remove_def split: option.split)
  ultimately show ?thesis using b kw2 t2(2) by (intro exI [of _ s2]) simp
qed

lemma startup_spec:
  assumes i: "initialised t h s" and st: "th_stat h = RT_THREAD_INIT" and pr: "prio_ok h" and cur: "rt_current_thread s \<noteq> None"
  shows "\<exists>s'. rt_thread_startup t s = Some (RT_EOK, s') \<and> started t h s' \<and>
    rt_scheduler_lock_nest s' = rt_scheduler_lock_nest s"
proof -
  let ?g = "h\<lparr>th_number_mask := prio_bit h, th_stat := 4\<rparr>"
  from startup_resumed [OF i st pr] cur obtain s2 where
    r: "rt_thread_startup t s = map_option (Pair RT_EOK) (rt_schedule s2)" and kw2: "kwf s2" and t2: "k_thread s2 t = Some (set_state 2 ?g)"
    and c2: "rt_current_thread s2 \<noteq> None" and n2: "rt_scheduler_lock_nest s2 = rt_scheduler_lock_nest s"
    and b: "rt_thread_ready_priority_group s2 \<noteq> 0" by auto
  from schedule_kinv [OF kwfD(1) [OF kw2] c2] obtain s3 where
    s3: "rt_schedule s2 = Some s3" "kinv s3" "sched_frame s2 s3"
      "rt_scheduler_lock_nest s2 = 0 \<and> rt_thread_ready_priority_group s2 \<noteq> 0 \<longrightarrow> highest_running s3" by blast
  have "rt_thread_startup t s = Some (0, s3)" using r s3(1) by simp
  moreover have "kwf s3" by (rule kwf_sched [OF kw2 s3(2,3)])
  moreover obtain x where "k_thread s3 t = Some ((set_state 2 ?g)\<lparr>th_stat := x\<rparr>)"
    using sched_frame_thread [OF s3(3) t2] by blast
  moreover have "\<exists>h'. k_thread s3 t = Some h' \<and> runnable h'" by (rule sched_frame_runnable [OF s3(3) t2]) simp
  moreover have "rt_scheduler_lock_nest s3 = rt_scheduler_lock_nest s" using sched_frame_fields [OF s3(3)] n2 by simp
  ultimately show ?thesis using b s3(4) n2 by (auto simp: started_def set_state_def runnable_def state_of_def)
qed

text \<open>A thread that is initialised over a fresh object and a sufficient stack and then started
  is well-formed and ready or running at its priority, and the kernel stays well-formed; with
  the scheduler unlocked the thread that runs afterwards is of the highest ready priority, so
  the new one preempts a less important caller at once.\<close>

theorem rt_thread_start:
  assumes "kwf s" and "fresh t RT_Object_Class_Thread s" and "unused_timer t s" and "rt_current_thread s \<noteq> None"
    and "0 \<le> sint (rt_scheduler_lock_nest s)" and "stack_start \<noteq> 0" and "80 \<le> unat stack_size"
    and "unat stack_start + unat stack_size < 2 ^ 32" and "unat priority < RT_THREAD_PRIORITY_MAX"
  shows "\<exists>s1 s2. rt_thread_init t nm entry param stack_start stack_size priority tick s = Some (RT_EOK, s1) \<and> kwf s1 \<and>
    rt_thread_startup t s1 = Some (RT_EOK, s2) \<and>
    started t (new_thread entry param stack_start stack_size priority tick) s2"
proof -
  have kc: "known_class 1" by (simp add: known_class_def)
  from object_init_spec [OF assms(1,4,5) kc assms(2), of nm] obtain s0 where
    s0: "rt_object_init (Obj t) 1 nm s = Some (registered t 1 nm s0)" "kwf (registered t 1 nm s0)" "sched_frame s s0"
      "rt_current_thread s0 \<noteq> None" by blast
  let ?r = "registered t 1 nm s0"
  note fr = sched_frame_fields [OF s0(3)]
  have "k_thread s0 t = None" using assms(3) sched_frame_back [OF s0(3), of t] by (cases "k_thread s0 t") (auto simp: unused_timer_def)
  then have un: "unused_timer t ?r" using assms(3) fr by (simp add: unused_timer_def registered_def container_insert_def al_head_def)
  have cl: "is_class (Obj t) 1 ?r" by (simp add: is_class_def)
  have p: "rt_current_thread ?r \<noteq> None" "0 \<le> sint (rt_scheduler_lock_nest ?r)" using s0(4) assms(5) fr by simp_all
  from thread_init_spec [OF s0(2) cl un p assms(7,8,9), of entry param tick] obtain s1 where
    s1: "thread_init t entry param stack_start stack_size priority tick ?r = Some (0, s1)"
      "initialised t (new_thread entry param stack_start stack_size priority tick) s1" "rt_current_thread s1 \<noteq> None" by blast
  from startup_spec [OF s1(2) _ new_thread_ok(1) s1(3)] assms(9) obtain s2 where
    s2: "rt_thread_startup t s1 = Some (0, s2)" "started t (new_thread entry param stack_start stack_size priority tick) s2"
    by auto
  have "rt_thread_init t nm entry param stack_start stack_size priority tick s = Some (0, s1)"
    using assms(6) s0(1) s1(1) by (simp add: rt_thread_init_def)
  moreover have "kwf s1" using s1(2) by (simp add: initialised_def)
  ultimately show ?thesis using s2 by blast
qed

lemma rt_thread_start_witness:
  "\<exists>s1 s2. rt_thread_init 13 [116, 0] 0x8000 0 0x20000400 0x100 3 20 ex_timed = Some (RT_EOK, s1) \<and>
    rt_thread_startup 13 s1 = Some (RT_EOK, s2) \<and> started 13 (new_thread 0x8000 0 0x20000400 0x100 3 20) s2"
proof -
  have "fresh 13 1 ex_timed" "unused_timer 13 ex_timed" "rt_scheduler_lock_nest ex_timed = 0"
    by (simp_all add: fresh_def unused_timer_def) (simp_all add: ex_timed_def ex_state_def init_kstate_def)
  with rt_thread_start [OF ex_timed_kwf, of 13 "0x20000400" "0x100" 3 "[116, 0]" "0x8000" 0 20] show ?thesis by auto
qed

end
