(* ===== verification/ThreadClose.thy ===== *)
theory ThreadClose
  imports ThreadStart
begin

text \<open>
  Closing threads: a deleted thread is taken off every queue and timer list and waits in the
  list of defunct threads, and the idle thread gives back its memory.
\<close>

section \<open>Off the queues\<close>

lemma inv_out_defunct:
  assumes i: "inv_out {} s" and th: "k_thread s t = Some h" "state_of h = RT_THREAD_CLOSE" and un: "unlinked (k_list s) t"
  shows "inv_out {} (rt_thread_defunct_enqueue t s)"
proof -
  let ?s = "rt_thread_defunct_enqueue t s"
  have l: "k_list ?s = al_head Defunct t (k_list s)" "k_thread ?s = k_thread s" "rt_current_thread ?s = rt_current_thread s"
    "rt_thread_ready_priority_group ?s = rt_thread_ready_priority_group s"
    by (simp_all add: rt_thread_defunct_enqueue_def tlist_head_def)
  have r: "k_list ?s (ReadyQ p) = k_list s (ReadyQ p)" for p by (simp add: l al_head_def)
  show ?thesis
  proof (rule inv_outI)
    show "separate (k_list ?s)"
      using separate_add [OF inv_outD(1) [OF i] un, of "t # k_list s Defunct" Defunct] un
        separate_distinct [OF inv_outD(1) [OF i], of Defunct] by (simp add: l al_head_def unlinked_def)
    show "\<exists>g. k_thread ?s x = Some g \<and> queue_state q g" if "x \<in> set (k_list ?s q)" for x q
      using that inv_outD(2) [OF i, of x q] th by (cases "x \<in> set (k_list s q)") (auto simp: l al_head_def queue_state_def split: if_splits)
    show "prio_ok g" if "k_thread ?s x = Some g" for x g using that inv_outD(3) [OF i] by (simp add: l)
    show "state_ok ?s x g" if "k_thread ?s x = Some g" "x \<notin> {}" for x g
      using that inv_outD(4) [OF i, of x g] r by (simp add: l state_ok_def)
    show "bit (rt_thread_ready_priority_group ?s) p \<longleftrightarrow> k_list ?s (ReadyQ p) \<noteq> []" if "p < 32" for p
      using inv_outD(5) [OF i that] r by (simp add: l)
    show "\<exists>g. k_thread ?s c = Some g" if "rt_current_thread ?s = Some c" for c using that inv_outD(6) [OF i] by (simp add: l)
  qed
qed

text \<open>The thread after the scheduler has let go of it.\<close>

lemma off_the_queues:
  assumes kw: "kwf s" and th: "k_thread s t = Some h" and st: "state_of h \<noteq> RT_THREAD_CLOSE"
  shows "\<exists>s1. (if state_of h \<noteq> RT_THREAD_INIT then rt_schedule_remove_thread t s else Some s) = Some s1 \<and>
    inv_out {t} s1 \<and> unlinked (k_list s1) t \<and> k_list s1 Defunct = k_list s Defunct \<and>
    s1 = s\<lparr>k_list := k_list s1, rt_thread_ready_priority_group := rt_thread_ready_priority_group s1\<rparr>"
proof (cases "state_of h = RT_THREAD_INIT")
  case True
  have "t \<notin> set (k_list s l)" for l
    using inv_outD(2) [OF kinvD(5) [OF kwfD(1) [OF kw], of "{}"], of t l] th True
    by (cases l) (auto simp: queue_state_def dest: suspended_no_ready)
  then have "unlinked (k_list s) t" by (simp add: unlinked_def)
  with True inv_out_mono [OF kinvD(5) [OF kwfD(1) [OF kw], of "{}"], of "{t}"] show ?thesis by simp
next
  case False
  have i: "inv_out {t} s" by (rule inv_out_mono [OF kinvD(5) [OF kwfD(1) [OF kw], of "{}"]]) simp
  from inv_out_remove [OF i th] obtain s1 where
    s1: "rt_schedule_remove_thread t s = Some s1" "inv_out {t} s1" "unlinked (k_list s1) t"
      "s1 = s\<lparr>k_list := al_remove t (k_list s), rt_thread_ready_priority_group := rt_thread_ready_priority_group s1\<rparr>" by auto
  have l: "k_list s1 = al_remove t (k_list s)" by (subst s1(4)) simp
  have "t \<notin> set (k_list s Defunct)"
    using inv_outD(2) [OF kinvD(5) [OF kwfD(1) [OF kw], of "{}"], of t Defunct] th st by (auto simp: queue_state_def)
  then have "k_list s1 Defunct = k_list s Defunct" by (simp add: l al_remove_def remove1_idem)
  with False s1 l show ?thesis by auto
qed

section \<open>Closed threads\<close>

definition closed :: "addr \<Rightarrow> rt_thread \<Rightarrow> kstate \<Rightarrow> kstate \<Rightarrow> bool" where
  "closed t h s s' \<longleftrightarrow> kwf s' \<and> k_thread s' = (k_thread s)(t \<mapsto> h\<lparr>th_stat := RT_THREAD_CLOSE\<rparr>) \<and>
    k_list s' Defunct = t # k_list s Defunct \<and> (\<forall>l. l \<noteq> Defunct \<longrightarrow> t \<notin> set (k_list s' l)) \<and>
    (\<forall>l. ThreadTimer t \<notin> set (k_timers s' l)) \<and> \<not> timer_live (ThreadTimer t) s' \<and>
    (\<forall>r. r \<noteq> ThreadTimer t \<longrightarrow> k_obj s' r = k_obj s r) \<and> k_timer s' = k_timer s \<and>
    rt_current_thread s' = rt_current_thread s"

lemma timer_detach_eq:
  assumes "k_obj s (ThreadTimer t) = Some o'" and "is_class (ThreadTimer t) RT_Object_Class_Timer s"
    and "obj_type o' AND RT_Object_Class_Static \<noteq> 0"
  shows "rt_timer_detach (ThreadTimer t) s = Some (RT_EOK, s\<lparr>k_timers := al_remove (ThreadTimer t) (k_timers s),
    k_obj := (k_obj s)(ThreadTimer t \<mapsto> (deactivate o')\<lparr>obj_type := 0\<rparr>),
    k_container := al_remove (ThreadTimer t) (k_container s)\<rparr>)"
  using assms
  by (simp add: rt_timer_detach_def assert_type_class assert_static_def rt_object_is_systemobject_def timer_remove_def
      rt_object_detach_def container_remove_def RT_ASSERT_def)

lemma close_spec:
  assumes kw: "kwf s" and th: "k_thread s t = Some h" and st: "state_of h \<noteq> RT_THREAD_CLOSE"
    and ob: "k_obj s (ThreadTimer t) = Some o'" "obj_type o' AND RT_Object_Class_Static \<noteq> 0"
    and pe: "th_pending_object h = None"
  shows "\<exists>s'. close_thread t s = Some (RT_EOK, s') \<and> closed t h s s'"
proof -
  note k = kwfD(1) [OF kw]
  from off_the_queues [OF kw th st] obtain s1 where
    s1: "(if state_of h \<noteq> RT_THREAD_INIT then rt_schedule_remove_thread t s else Some s) = Some s1"
      "inv_out {t} s1" "unlinked (k_list s1) t" "k_list s1 Defunct = k_list s Defunct"
      "s1 = s\<lparr>k_list := k_list s1, rt_thread_ready_priority_group := rt_thread_ready_priority_group s1\<rparr>" by blast
  have f1: "k_obj s1 = k_obj s" "k_timers s1 = k_timers s" "k_thread s1 = k_thread s" "k_timer s1 = k_timer s"
    "rt_current_thread s1 = rt_current_thread s" "k_container s1 = k_container s"
    by (subst s1(5), simp)+
  have "is_class (ThreadTimer t) 10 s" using kinv_thread_class [OF k th st] timer_live_class by blast
  then have cl1: "is_class (ThreadTimer t) 10 s1" by (simp add: is_class_def f1)
  let ?o = "(deactivate o')\<lparr>obj_type := 0\<rparr>" and ?h = "h\<lparr>th_stat := RT_THREAD_CLOSE\<rparr>"
  define s2 where "s2 = s1\<lparr>k_timers := al_remove (ThreadTimer t) (k_timers s1),
    k_obj := (k_obj s1)(ThreadTimer t \<mapsto> ?o), k_container := al_remove (ThreadTimer t) (k_container s1)\<rparr>"
  have d: "rt_timer_detach (ThreadTimer t) s1 = Some (0, s2)"
    using timer_detach_eq [OF _ cl1 ob(2)] ob(1) by (simp add: s2_def f1)
  define s3 where "s3 = s2\<lparr>k_thread := (k_thread s)(t \<mapsto> ?h)\<rparr>"
  let ?s4 = "rt_thread_defunct_enqueue t s3"
  have u3: "unlinked (k_list s3) t" using s1(3) by (simp add: s3_def s2_def)
  have c: "state_of ?h = 1" by (simp add: state_of_def)
  have "inv_out {t} s2" using s1(2) inv_out_cong [of s2 s1 "{t}"] by (simp add: s2_def)
  then have "inv_out {} (s2\<lparr>k_thread := (k_thread s2)(t \<mapsto> ?h)\<rparr>)"
    by (rule inv_out_set) (use th s1(3) inv_outD(3) [OF kinvD(5) [OF k, of "{}"] th] c in
      \<open>simp_all add: s2_def f1 state_ok_def prio_ok_def prio_def prio_bit_def\<close>)
  then have i3: "inv_out {} s3" by (simp add: s3_def s2_def f1)
  have f4: "k_thread ?s4 = (k_thread s)(t \<mapsto> ?h)" "k_obj ?s4 = (k_obj s)(ThreadTimer t \<mapsto> ?o)" "k_timer ?s4 = k_timer s"
    "k_timers ?s4 = al_remove (ThreadTimer t) (k_timers s)" "k_list ?s4 = al_head Defunct t (k_list s1)"
    "rt_current_thread ?s4 = rt_current_thread s"
    by (simp_all add: rt_thread_defunct_enqueue_def tlist_head_def s3_def s2_def f1)
  have i4: "sched_inv ?s4" using inv_out_defunct [OF i3 _ c u3] by (simp add: sched_inv_def s3_def)
  have mem: "r \<in> set (k_timers ?s4 l) \<longleftrightarrow> r \<noteq> ThreadTimer t \<and> r \<in> set (k_timers s l)" for r l
    using kinvD(4) [OF k] separate_distinct [of "k_timers s" l] by (auto simp: f4 al_remove_def timers_wf_def)
  have nl: "\<not> timer_live (ThreadTimer t) ?s4" by (simp add: timer_live_def f4)
  have live: "timer_live r ?s4" if "timer_live r s" "r \<noteq> ThreadTimer t" for r using that by (auto simp: timer_live_def f4)
  have "threads_wf ?s4"
    unfolding threads_wf_def
  proof (intro allI impI)
    fix u g assume g: "k_thread ?s4 u = Some g" "state_of g \<noteq> 1"
    then have "u \<noteq> t" using c by (auto simp: f4)
    with g kinvD(2) [OF k] live show "is_class (Obj u) 1 ?s4 \<and> timer_live (ThreadTimer u) ?s4"
      by (simp add: threads_wf_def f4 is_class_def)
  qed
  moreover have "stacks_ok ?s4" using kinvD(3) [OF k] th by (auto simp: stacks_ok_def f4 stack_ok_def)
  moreover have "timers_wf ?s4"
    unfolding timers_wf_def
  proof (intro conjI allI impI)
    show "separate (k_timers ?s4)" using kinvD(4) [OF k] separate_remove [of "k_timers s"] by (simp add: timers_wf_def f4 al_remove_def)
    show "timer_live u ?s4" if "u \<in> set (k_timers ?s4 l)" for l u
      using that timers_wf_live [OF kinvD(4) [OF k], of u l] live [of u] mem [of u l] by simp
    show "\<exists>h. k_obj ?s4 u = Some h \<and> activated h" if "l = HardTimers \<or> l = SoftTimers" "u \<in> set (k_timers ?s4 l)" for l u
      using timers_wf_activated [OF kinvD(4) [OF k] that(1), of u] that(2) mem by (simp add: f4)
  qed
  moreover have "is_soft ?o = is_soft (deactivate o')" "periodic ?o = periodic (deactivate o')"
    by (simp_all add: is_soft_def periodic_def)
  then have "thread_timers ?s4" using kwfD(2) [OF kw] ob(1) flag_simps [of o'] by (auto simp: thread_timers_def f4)
  moreover have "armed_ok ?s4" by (rule armed_okI [OF kwfD(3) [OF kw]]) (use mem in \<open>auto simp: f4\<close>)
  ultimately have "kwf ?s4" using i4 by (simp add: kwf_def kinv_def)
  moreover have "close_thread t s = Some (0, ?s4)"
    using th st s1(1) d pe by (simp add: close_thread_def leave_mutex_def s3_def) (simp add: s2_def f1)
  ultimately show ?thesis
    using nl mem s1(3,4) by (auto simp: closed_def f4 al_head_def unlinked_def)
qed

section \<open>Cleaning up\<close>

lemma kwf_objects_gone:
  assumes kw: "kwf s" and th: "k_thread s t = Some h" "state_of h = RT_THREAD_CLOSE" and un: "unlinked (k_list s) t"
    and nl: "\<not> timer_live (ThreadTimer t) s" "\<not> timer_live (Obj t) s" and cur: "rt_current_thread s \<noteq> Some t"
    and k: "\<And>u. u \<noteq> t \<Longrightarrow> k_thread s' u = k_thread s u" "k_thread s' t = None \<or> k_thread s' t = Some h"
    and ob: "\<And>r. r \<noteq> Obj t \<Longrightarrow> r \<noteq> ThreadTimer t \<Longrightarrow> k_obj s' r = k_obj s r \<and> k_timer s' r = k_timer s r"
      "k_obj s' (ThreadTimer t) = None \<or> k_obj s' (ThreadTimer t) = k_obj s (ThreadTimer t)"
      "k_timer s' (ThreadTimer t) = None \<or> k_timer s' (ThreadTimer t) = k_timer s (ThreadTimer t)"
    and e: "k_list s' = k_list s" "k_timers s' = k_timers s" "rt_current_thread s' = rt_current_thread s"
      "rt_thread_ready_priority_group s' = rt_thread_ready_priority_group s"
  shows "kwf s'"
proof -
  note kk = kwfD(1) [OF kw]
  note i = kinvD(5) [OF kk, of "{}"]
  have bk: "k_thread s u = Some g" if "k_thread s' u = Some g" for u g using that k th by (cases "u = t") auto
  have "inv_out {} s'"
  proof (rule inv_outI)
    show "separate (k_list s')" using inv_outD(1) [OF i] by (simp add: e)
    show "\<exists>g. k_thread s' x = Some g \<and> queue_state l g" if "x \<in> set (k_list s' l)" for l x
      using that inv_outD(2) [OF i, of x l] un k(1) [of x] by (cases "x = t") (auto simp: e unlinked_def)
    show "prio_ok g" if "k_thread s' x = Some g" for x g using inv_outD(3) [OF i bk [OF that]] .
    show "state_ok s' x g" if "k_thread s' x = Some g" "x \<notin> {}" for x g
      using inv_outD(4) [OF i bk [OF that(1)]] by (simp add: state_ok_def e)
    show "bit (rt_thread_ready_priority_group s') p \<longleftrightarrow> k_list s' (ReadyQ p) \<noteq> []" if "p < 32" for p
      using inv_outD(5) [OF i that] by (simp add: e)
    show "\<exists>g. k_thread s' c = Some g" if "rt_current_thread s' = Some c" for c
      using that inv_outD(6) [OF i, of c] cur k(1) [of c] by (auto simp: e)
  qed
  have other: "u \<noteq> Obj t \<and> u \<noteq> ThreadTimer t" if "timer_live u s" for u using that nl by auto
  have live: "timer_live u s'" if "timer_live u s" for u
    using that other [OF that] ob(1) [of u] by (auto simp: timer_live_def)
  have "threads_wf s'"
    unfolding threads_wf_def
  proof (intro allI impI)
    fix u g assume g: "k_thread s' u = Some g" "state_of g \<noteq> 1"
    then have "u \<noteq> t" using bk [OF g(1)] th by auto
    with kinvD(2) [OF kk] bk [OF g(1)] g(2) live ob(1) [of "Obj u"] show "is_class (Obj u) 1 s' \<and> timer_live (ThreadTimer u) s'"
      by (auto simp: threads_wf_def is_class_def)
  qed
  moreover have "stacks_ok s'" using kinvD(3) [OF kk] bk by (auto simp: stacks_ok_def)
  moreover have "timers_wf s'"
    unfolding timers_wf_def
  proof (intro conjI allI impI)
    show "separate (k_timers s')" using kinvD(4) [OF kk] by (simp add: timers_wf_def e)
    show "timer_live u s'" if "u \<in> set (k_timers s' l)" for l u
      using that timers_wf_live [OF kinvD(4) [OF kk], of u l] live by (simp add: e)
    show "\<exists>h. k_obj s' u = Some h \<and> activated h" if "l = HardTimers \<or> l = SoftTimers" "u \<in> set (k_timers s' l)" for l u
      using timers_wf_activated [OF kinvD(4) [OF kk] that(1), of u] that(2) timers_wf_live [OF kinvD(4) [OF kk], of u l]
        other [of u] ob(1) [of u] by (simp add: e)
  qed
  moreover have "thread_timers s'"
    unfolding thread_timers_def
  proof (intro conjI allI impI)
    show "\<not> is_soft g" "\<not> periodic g" if "k_obj s' (ThreadTimer u) = Some g" for u g
      using that kwfD(2) [OF kw] ob(1) [of "ThreadTimer u"] ob(2) by (cases "u = t"; auto simp: thread_timers_def)+
    show "tm_func g = Thread_timeout" "tm_parameter g = u" if "k_timer s' (ThreadTimer u) = Some g" for u g
      using that kwfD(2) [OF kw] ob(1) [of "ThreadTimer u"] ob(3) by (cases "u = t"; auto simp: thread_timers_def)+
  qed
  moreover have "armed_ok s'"
    by (rule armed_okI [OF kwfD(3) [OF kw]])
      (use th k(1) suspended_no_ready in \<open>auto simp: e, metis option.inject\<close>)
  ultimately show ?thesis using \<open>inv_out {} s'\<close> by (simp add: kwf_def kinv_def sched_inv_def)
qed

text \<open>
  What the idle thread relies on of a thread in the list: it is still a thread object, its timer
  is detached, and its clean-up function, if it has one, returns and leaves the kernel alone.
\<close>

definition quiet_cleanup :: "(u32 \<Rightarrow> addr \<Rightarrow> kstate \<Rightarrow> kstate option) \<Rightarrow> addr \<Rightarrow> rt_thread \<Rightarrow> bool" where
  "quiet_cleanup user t h \<longleftrightarrow> (\<forall>f. th_cleanup h = Some f \<longrightarrow> user f t = Some)"

definition defunct_ok :: "(u32 \<Rightarrow> addr \<Rightarrow> kstate \<Rightarrow> kstate option) \<Rightarrow> kstate \<Rightarrow> addr \<Rightarrow> bool" where
  "defunct_ok user s t \<longleftrightarrow> (\<exists>h. k_thread s t = Some h \<and> quiet_cleanup user t h) \<and> is_class (Obj t) RT_Object_Class_Thread s \<and>
    \<not> timer_live (ThreadTimer t) s"

definition dynamic :: "kstate \<Rightarrow> addr \<Rightarrow> bool" where
  "dynamic s t \<longleftrightarrow> rt_object_is_systemobject (Obj t) s = Some False"

definition stack_base :: "kstate \<Rightarrow> addr \<Rightarrow> u32" where
  "stack_base s t = th_stack_addr (the (k_thread s t))"

text \<open>One round: nothing but the objects of the thread changes.\<close>

definition gone :: "addr \<Rightarrow> kstate \<Rightarrow> kstate \<Rightarrow> bool" where
  "gone t s s' \<longleftrightarrow> kwf s' \<and> k_list s' = al_remove t (k_list s) \<and> rt_current_thread s' = rt_current_thread s \<and>
    (\<forall>u. u \<noteq> t \<longrightarrow> k_thread s' u = k_thread s u \<and> k_obj s' (Obj u) = k_obj s (Obj u) \<and>
      k_obj s' (ThreadTimer u) = k_obj s (ThreadTimer u) \<and> k_timer s' (ThreadTimer u) = k_timer s (ThreadTimer u)) \<and>
    \<not> is_class (Obj t) RT_Object_Class_Thread s' \<and> (dynamic s t \<longrightarrow> k_thread s' t = None)"

lemma defunct_one_spec:
  assumes kw: "kwf s" and t: "t \<in> set (k_list s Defunct)" and ok: "defunct_ok user s t" and cur: "rt_current_thread s \<noteq> Some t"
  shows "\<exists>s'. defunct_one user t (tlist_remove t s) = Some (if dynamic s t then [stack_base s t] else [], s') \<and> gone t s s'"
proof -
  note k = kwfD(1) [OF kw]
  obtain h where h: "k_thread s t = Some h" "state_of h = 1"
    using inv_outD(2) [OF kinvD(5) [OF k, of "{}"] t] by (auto simp: queue_state_def)
  have cu: "(case th_cleanup h of None \<Rightarrow> Some s' | Some cleanup \<Rightarrow> user cleanup t s') = Some s'" for s'
    using ok h by (auto simp: defunct_ok_def quiet_cleanup_def split: option.split)
  obtain o' where o': "k_obj s (Obj t) = Some o'" "obj_type o' AND NOT 0x80 = 1" using ok by (auto simp: defunct_ok_def is_class_def)
  have nl: "\<not> timer_live (ThreadTimer t) s" "\<not> timer_live (Obj t) s" using ok o' by (auto simp: defunct_ok_def timer_live_def)
  let ?s1 = "tlist_remove t s"
  have f: "k_thread ?s1 = k_thread s" "k_obj ?s1 = k_obj s" "k_timer ?s1 = k_timer s" "k_timers ?s1 = k_timers s"
    "rt_current_thread ?s1 = rt_current_thread s" "k_list ?s1 = al_remove t (k_list s)"
    by (simp_all add: tlist_remove_def)
  have nr: "state_of h \<noteq> 2" using h by simp
  note u = inv_out_unlink [OF kinvD(5) [OF k, of "{}"] h(1) nr]
  have kw1: "kwf ?s1"
  proof -
    have "sched_inv ?s1" using u(1) by (simp add: sched_inv_def)
    moreover have "threads_wf ?s1" "stacks_ok ?s1" "timers_wf ?s1"
      using kinvD(2-4) [OF k] timers_wf_cong [of ?s1 s] f
      by (simp_all add: threads_wf_def stacks_ok_def is_class_def timer_live_def)
    ultimately have "kinv ?s1" by (simp add: kinv_def)
    then show ?thesis using kwfD(2,3) [OF kw] by (simp add: kwf_def thread_timers_def armed_ok_def f)
  qed
  have cur1: "rt_current_thread ?s1 \<noteq> Some t" using cur f by simp
  have nl1: "\<not> timer_live (ThreadTimer t) ?s1" "\<not> timer_live (Obj t) ?s1" using nl by (simp_all add: timer_live_def f)
  have h1: "k_thread ?s1 t = Some h" using h f by simp
  show ?thesis
  proof (cases "dynamic s t")
    case True
    then have z: "obj_type o' AND 0x80 = 0" using o' by (simp add: dynamic_def rt_object_is_systemobject_def)
    let ?s2 = "free_object (Obj t) (container_remove (Obj t) (?s1\<lparr>k_obj := (k_obj s)(Obj t \<mapsto> o'\<lparr>obj_type := 0\<rparr>)\<rparr>))"
    have f2: "k_obj ?s2 = (k_obj s)(Obj t := None, ThreadTimer t := None)" "k_thread ?s2 = (k_thread s)(t := None)"
      "k_timer ?s2 = (k_timer s)(Obj t := None, ThreadTimer t := None)" "k_list ?s2 = k_list ?s1" "k_timers ?s2 = k_timers s"
      "rt_current_thread ?s2 = rt_current_thread s"
      "rt_thread_ready_priority_group ?s2 = rt_thread_ready_priority_group ?s1"
      by (simp_all add: container_remove_def f)
    have "defunct_one user t ?s1 = Some ([th_stack_addr h], ?s2)"
      using h1 o' z cu f
      by (simp add: defunct_one_def rt_object_is_systemobject_def rt_object_delete_def RT_ASSERT_def del: free_object.simps)
    moreover have "kwf ?s2"
      by (rule kwf_objects_gone [OF kw1 h1 h(2) u(2) nl1 cur1]) (use f2 f in simp_all)
    ultimately show ?thesis using True h f2 f by (auto simp: gone_def is_class_def stack_base_def)
  next
    case False
    then have z: "obj_type o' AND 0x80 \<noteq> 0" using o' by (simp add: dynamic_def rt_object_is_systemobject_def)
    let ?s2 = "container_remove (Obj t) (?s1\<lparr>k_obj := (k_obj s)(Obj t \<mapsto> o'\<lparr>obj_type := 0\<rparr>)\<rparr>)"
    have f2: "k_obj ?s2 = (k_obj s)(Obj t \<mapsto> o'\<lparr>obj_type := 0\<rparr>)" "k_thread ?s2 = k_thread s"
      "k_timer ?s2 = k_timer s" "k_list ?s2 = k_list ?s1" "k_timers ?s2 = k_timers s"
      "rt_current_thread ?s2 = rt_current_thread s"
      "rt_thread_ready_priority_group ?s2 = rt_thread_ready_priority_group ?s1"
      by (simp_all add: container_remove_def f)
    have "defunct_one user t ?s1 = Some ([], ?s2)"
      using h1 o' z cu f by (simp add: defunct_one_def rt_object_is_systemobject_def rt_object_detach_def)
    moreover have "kwf ?s2"
      by (rule kwf_objects_gone [OF kw1 h1 h(2) u(2) nl1 cur1]) (use f2 f h in simp_all)
    ultimately show ?thesis using False h f2 f by (auto simp: gone_def is_class_def)
  qed
qed

end
