(* ===== verification/ThreadReclaim.thy ===== *)
theory ThreadReclaim
  imports ThreadClose
begin

text \<open>What the idle thread does with the closed threads, up to the end of its loop.\<close>

section \<open>The idle thread\<close>

definition reclaimed :: "addr list \<Rightarrow> kstate \<Rightarrow> kstate \<Rightarrow> bool" where
  "reclaimed ts s s' \<longleftrightarrow> kwf s' \<and> k_list s' Defunct = [] \<and> rt_current_thread s' = rt_current_thread s \<and>
    (\<forall>t\<in>set ts. \<not> is_class (Obj t) RT_Object_Class_Thread s' \<and> (dynamic s t \<longrightarrow> k_thread s' t = None)) \<and>
    (\<forall>u. u \<notin> set ts \<longrightarrow> k_thread s' u = k_thread s u \<and> k_obj s' (Obj u) = k_obj s (Obj u))"

lemma gone_other:
  assumes "gone t s s'" and "u \<noteq> t"
  shows "defunct_ok user s' u = defunct_ok user s u" and "dynamic s' u = dynamic s u" and "stack_base s' u = stack_base s u"
  using assms by (auto simp: gone_def defunct_ok_def dynamic_def stack_base_def is_class_def timer_live_def rt_object_is_systemobject_def)

lemma defunct_execute_spec:
  assumes "kwf s" and "k_list s Defunct = ts" and "list_all (defunct_ok user s) ts" and "rt_current_thread s \<notin> Some ` set ts"
  shows "\<exists>s'. rt_defunct_execute user s = Some (map (stack_base s) (filter (dynamic s) ts), s') \<and> reclaimed ts s s'"
  using assms
proof (induction ts arbitrary: s)
  case Nil
  then show ?case by (subst rt_defunct_execute.simps) (simp add: rt_thread_defunct_dequeue_def reclaimed_def)
next
  case (Cons t ts)
  note kw = Cons.prems(1) and l = Cons.prems(2) and ok = Cons.prems(3) and cur = Cons.prems(4)
  have sep: "separate (k_list s)" using inv_outD(1) [OF kinvD(5) [OF kwfD(1) [OF kw], of "{}"]] .
  have d: "t \<notin> set ts" using separate_distinct [OF sep, of Defunct] l by simp
  obtain s1 where s1: "defunct_one user t (tlist_remove t s) = Some (if dynamic s t then [stack_base s t] else [], s1)" and g: "gone t s s1"
    using defunct_one_spec [OF kw, of t user] l ok cur by auto
  have l1: "k_list s1 Defunct = ts" using g l by (simp add: gone_def al_remove_def)
  have o1: "list_all (defunct_ok user s1) ts" using ok d gone_other(1) [OF g] by (simp add: list_all_iff) metis
  have k1: "kwf s1" and c1: "rt_current_thread s1 = rt_current_thread s" using g by (simp_all add: gone_def)
  have c1': "rt_current_thread s1 \<notin> Some ` set ts" using cur c1 by auto
  from Cons.IH [OF k1 l1 o1 c1'] obtain s2 where
    s2: "rt_defunct_execute user s1 = Some (map (stack_base s1) (filter (dynamic s1) ts), s2)" and r: "reclaimed ts s1 s2" by blast
  have f: "filter (dynamic s1) ts = filter (dynamic s) ts" by (intro filter_cong refl) (use d gone_other(2) [OF g] in metis)
  have m: "map (stack_base s1) (filter (dynamic s) ts) = map (stack_base s) (filter (dynamic s) ts)"
    by (intro map_cong refl) (use d gone_other(3) [OF g] in \<open>simp, metis\<close>)
  have "rt_defunct_execute user s = Some (map (stack_base s) (filter (dynamic s) (t # ts)), s2)"
    by (subst rt_defunct_execute.simps) (simp add: rt_thread_defunct_dequeue_def l s1 s2 f m)
  moreover have "reclaimed (t # ts) s s2"
  proof -
    have u: "dynamic s1 u = dynamic s u" if "u \<in> set ts" for u using that d gone_other(2) [OF g, of u] by auto
    have t: "k_thread s2 t = k_thread s1 t" "k_obj s2 (Obj t) = k_obj s1 (Obj t)" using r d by (auto simp: reclaimed_def)
    have "\<not> is_class (Obj t) 1 s1" "dynamic s t \<Longrightarrow> k_thread s1 t = None" using g by (simp_all add: gone_def)
    then have "\<not> is_class (Obj t) 1 s2" "dynamic s t \<Longrightarrow> k_thread s2 t = None" using t by (simp_all add: is_class_def)
    with r u g c1 show ?thesis by (auto simp: reclaimed_def gone_def)
  qed
  ultimately show ?case by blast
qed


text \<open>C27. A thread of the heap that is deleted while it is initial, ready or suspended, and
  whether or not its timer runs, is off every queue and timer list at once. The loop of the
  idle thread then ends, having given back its stack and those of the other deleted threads,
  each once; the object is gone, no thread outside the list of closed threads is changed, and
  the kernel stays well-formed. The thread must not be the one whose code is running, must have
  the timer every initialised thread has, and no mutex may be pending in it; it and the threads
  that were in the list before must have no clean-up function or one that returns and leaves the
  kernel alone, and those threads must be objects with detached timers, as a thread is once it
  has been closed, and not run.\<close>

theorem rt_thread_delete_reclaimed:
  assumes "kwf s" and "k_thread s t = Some h" and "state_of h \<noteq> RT_THREAD_CLOSE"
    and "is_class (Obj t) RT_Object_Class_Thread s" and "dynamic s t"
    and "k_obj s (ThreadTimer t) = Some o'" and "obj_type o' AND RT_Object_Class_Static \<noteq> 0"
    and "th_pending_object h = None" and "quiet_cleanup user t h"
    and "list_all (defunct_ok user s) (k_list s Defunct)" and "rt_current_thread s \<notin> Some ` insert t (set (k_list s Defunct))"
  shows "\<exists>s1 s2. rt_thread_delete t s = Some (RT_EOK, s1) \<and> closed t h s s1 \<and>
    rt_defunct_execute user s1 =
      Some (th_stack_addr h # map (stack_base s) (filter (dynamic s) (k_list s Defunct)), s2) \<and>
    kwf s2 \<and> k_thread s2 t = None \<and> k_list s2 Defunct = [] \<and>
    (\<forall>u. u \<notin> insert t (set (k_list s Defunct)) \<longrightarrow> k_thread s2 u = k_thread s u)"
proof -
  obtain s1 where s1: "close_thread t s = Some (RT_EOK, s1)" and c: "closed t h s s1"
    using close_spec [OF assms(1-3,6-8)] by blast
  have del: "rt_thread_delete t s = Some (RT_EOK, s1)"
    using assms(4,5) s1 by (simp add: rt_thread_delete_def assert_type_class assert_static_def dynamic_def RT_ASSERT_def)
  have nt: "u \<noteq> t" if "u \<in> set (k_list s Defunct)" for u
    using that inv_outD(2) [OF kinvD(5) [OF kwfD(1) [OF assms(1)], of "{}"], of u Defunct] assms(2,3) by (auto simp: queue_state_def)
  have obj: "k_obj s1 (Obj u) = k_obj s (Obj u)" for u using c by (simp add: closed_def)
  have dy: "dynamic s1 = dynamic s" by (rule ext) (simp add: dynamic_def rt_object_is_systemobject_def obj)
  have sb: "stack_base s1 = stack_base s" using c assms(2) by (intro ext) (simp add: stack_base_def closed_def)
  have ok: "defunct_ok user s1 u" if "u \<in> set (k_list s Defunct)" for u
    using that assms(10) nt [OF that] c by (auto simp: list_all_iff defunct_ok_def closed_def is_class_def timer_live_def)
  have "defunct_ok user s1 t" using c assms(4,9) obj by (auto simp: defunct_ok_def closed_def is_class_def quiet_cleanup_def)
  with ok c have "list_all (defunct_ok user s1) (k_list s1 Defunct)" by (simp add: list_all_iff closed_def)
  moreover have "kwf s1" "rt_current_thread s1 \<notin> Some ` set (k_list s1 Defunct)" using c assms(11) by (simp_all add: closed_def)
  ultimately obtain s2 where
    s2: "rt_defunct_execute user s1 = Some (map (stack_base s1) (filter (dynamic s1) (k_list s1 Defunct)), s2)"
      "reclaimed (k_list s1 Defunct) s1 s2"
    using defunct_execute_spec [of s1 "k_list s1 Defunct" user] by blast
  have l: "k_list s1 Defunct = t # k_list s Defunct" using c by (simp add: closed_def)
  have "stack_base s1 t = th_stack_addr h" using sb assms(2) by (simp add: stack_base_def)
  then have "rt_defunct_execute user s1 =
      Some (th_stack_addr h # map (stack_base s) (filter (dynamic s) (k_list s Defunct)), s2)"
    using s2(1) l dy sb assms(5) by simp
  moreover have "k_thread s2 u = k_thread s u" if "u \<notin> insert t (set (k_list s Defunct))" for u
    using that s2(2) l c by (simp add: reclaimed_def closed_def)
  moreover have "kwf s2" "k_thread s2 t = None" "k_list s2 Defunct = []" using s2(2) l dy assms(5) by (simp_all add: reclaimed_def)
  ultimately show ?thesis using del c by blast
qed

text \<open>A waiting thread from the heap, its timer armed.\<close>

definition ex_deleted :: kstate where
  "ex_deleted = ex_timed\<lparr>k_obj := (k_obj ex_timed)(Obj 11 \<mapsto> (ex_header 1)\<lparr>obj_type := 1\<rparr>)\<rparr>"

lemma ex_deleted_kwf: "kwf ex_deleted"
proof -
  have c: "is_class r c ex_deleted = is_class r c ex_timed" for r c
    by (cases "r = Obj 11") (auto simp: is_class_def ex_deleted_def ex_header_def)
  have l: "timer_live r ex_timed \<Longrightarrow> timer_live r ex_deleted" for r
    by (cases "r = Obj 11") (auto simp: timer_live_def ex_deleted_def ex_header_def)
  have "kinv ex_deleted"
    using ex_timed_kinv l inv_out_cong [of ex_deleted ex_timed "{}"] unfolding kinv_def sched_inv_def threads_wf_def c stacks_ok_def timers_wf_def
    by (auto simp: ex_deleted_def)
  moreover have "thread_timers ex_deleted" "armed_ok ex_deleted"
    using ex_timed_kwf by (auto simp: kwf_def thread_timers_def armed_ok_def ex_deleted_def)
  ultimately show ?thesis by (simp add: kwf_def)
qed

lemma ex_deleted_simps [simp]:
  "k_thread ex_deleted = k_thread ex_timed" "k_list ex_deleted = k_list ex_timed" "rt_current_thread ex_deleted = Some 10"
  "k_obj ex_deleted (Obj 11) = Some \<lparr>obj_name = [], obj_type = 1, obj_flag = 0\<rparr>"
  "k_obj ex_deleted (ThreadTimer 11) = Some (activate (ex_header 10))"
  by (simp_all add: ex_deleted_def ex_header_def)

lemma rt_thread_delete_reclaimed_witness:
  "\<exists>s1 s2. rt_thread_delete 11 ex_deleted = Some (RT_EOK, s1) \<and> k_list s1 Defunct = [11] \<and>
    rt_defunct_execute (\<lambda>_ _ _. None) s1 = Some ([0x100], s2) \<and> k_thread s2 11 = None \<and> k_thread s2 12 = Some (ex_thread 4 5)"
proof -
  have "dynamic ex_deleted 11" "is_class (Obj 11) RT_Object_Class_Thread ex_deleted" "state_of (ex_thread 4 5) \<noteq> RT_THREAD_CLOSE"
    "obj_type (activate (ex_header 10)) AND RT_Object_Class_Static \<noteq> 0" "quiet_cleanup (\<lambda>_ _ _. None) 11 (ex_thread 4 5)"
    by (simp_all add: quiet_cleanup_def dynamic_def rt_object_is_systemobject_def is_class_def state_of_def ex_thread_def activate_def ex_header_def)
  with rt_thread_delete_reclaimed [OF ex_deleted_kwf, of 11 "ex_thread 4 5" "activate (ex_header 10)" "\<lambda>_ _ _. None"]
  show ?thesis by (force simp: ex_thread_def closed_def)
qed

end
