(* ===== verification/ThreadSleep.thy ===== *)
theory ThreadSleep
  imports Thread
begin

text \<open>
  Sleeping: the thread waits with its own timer only, the clock interrupt wakes it when the time
  is over and not earlier, and the conversion of milliseconds rounds up.
\<close>

section \<open>Going to sleep\<close>

text \<open>Asleep with the timer as the only one, from the tick of \<open>s\<close> on.\<close>

definition asleep :: "addr \<Rightarrow> u32 \<Rightarrow> kstate \<Rightarrow> kstate \<Rightarrow> bool" where
  "asleep t tick s s' \<longleftrightarrow> kwf s' \<and> rt_current_thread s' \<noteq> None \<and>
    (\<exists>h. k_thread s' t = Some h \<and> suspended h \<and> th_error h = - RT_EINTR) \<and>
    set (k_timers s' HardTimers) = insert (ThreadTimer t) (set (k_timers s HardTimers)) \<and>
    (k_timers s HardCheck = [] \<longrightarrow> k_timers s' HardCheck = []) \<and>
    timeout_of (k_timer s') (ThreadTimer t) = rt_tick s + tick \<and> rt_tick s' = rt_tick s"

lemma suspend_kwf:
  assumes kw: "kwf s" and cur: "rt_current_thread s = Some t" and th: "k_thread s t = Some th"
    and r: "state_of th = RT_THREAD_RUNNING" and x: "suspend_stat f = Some x"
  shows "\<exists>s' g. rt_thread_suspend_with_flag t f s = Some (RT_EOK, s') \<and> kwf s' \<and> suspended (set_state x th) \<and>
    s' = stop_timer (ThreadTimer t) (s\<lparr>k_thread := (k_thread s)(t \<mapsto> set_state x th), rt_thread_ready_priority_group := g\<rparr>)"
proof -
  note k = kwfD(1) [OF kw]
  from suspend_spec [OF k cur th r x] obtain s1 g where s1: "rt_thread_suspend_with_flag t f s = Some (RT_EOK, s1)"
    "kinv s1" and e: "s1 = stop_timer (ThreadTimer t) (s\<lparr>k_thread := (k_thread s)(t \<mapsto> set_state x th),
      rt_thread_ready_priority_group := g\<rparr>)" by blast
  let ?s0 = "s\<lparr>k_thread := (k_thread s)(t \<mapsto> set_state x th), rt_thread_ready_priority_group := g\<rparr>"
  have su: "suspended (set_state x th)" by (rule suspended_set_state [OF suspend_stat_cases [OF x]])
  have "thread_timers ?s0" using kwfD(2) [OF kw] by (simp add: thread_timers_def)
  then have "thread_timers s1" unfolding e by (rule thread_timers_stop)
  moreover have "armed_ok s1"
  proof (rule armed_okI [OF kwfD(3) [OF kw]])
    have "timers_wf ?s0" using kinvD(4) [OF k] timers_wf_cong [of ?s0 s] by simp
    then show "ThreadTimer p \<in> set (k_timers s1 HardTimers) \<Longrightarrow> ThreadTimer p \<in> set (k_timers s HardTimers)" for p
      using stop_timer_mem [of ?s0 HardTimers "ThreadTimer p" "ThreadTimer t"] by (simp add: e)
    show "\<exists>g. k_thread s1 u = Some g \<and> suspended g" if "k_thread s u = Some g'" "suspended g'" for u g'
      using that su by (cases "u = t") (simp_all add: e)
  qed
  ultimately have "kwf s1" using s1(2) by (simp add: kwf_def)
  with s1(1) e su show ?thesis by blast
qed

lemma sleep_spec:
  assumes kw: "kwf s" and ctx: "thread_context t s" and pos: "sint tick > 0" and to: "tick \<noteq> 0x7fffffff"
  shows "\<exists>s'. rt_thread_sleep tick s = Some (Blocked, s') \<and> asleep t tick s s'"
proof -
  obtain th where th: "k_thread s t = Some th" "state_of th = RT_THREAD_RUNNING"
    and cur: "rt_current_thread s = Some t" using ctx by (auto simp: thread_context_def)
  have nz: "tick \<noteq> 0" using pos by auto
  have cl: "is_class (Obj t) 1 s" using kinv_thread_class [OF kwfD(1) [OF kw] th(1)] th(2) by simp
  define h0 where "h0 = th\<lparr>th_error := RT_EOK\<rparr>"
  define s0 where "s0 = s\<lparr>k_thread := (k_thread s)(t \<mapsto> h0)\<rparr>"
  have kw0: "kwf s0" unfolding s0_def h0_def by (rule kwf_error [OF kw th(1)]) (simp add: th(2))
  have c0: "rt_current_thread s0 = Some t" and t0: "k_thread s0 t = Some h0" and r0: "state_of h0 = 3"
    using cur th(2) by (simp_all add: s0_def h0_def)
  obtain x where x: "suspend_stat RT_INTERRUPTIBLE = Some x" by (simp add: suspend_stat_def)
  from suspend_kwf [OF kw0 c0 t0 r0 x] obtain s1 g where
    s1: "rt_thread_suspend_with_flag t RT_INTERRUPTIBLE s0 = Some (RT_EOK, s1)" "kwf s1" and su: "suspended (set_state x h0)"
    and e1: "s1 = stop_timer (ThreadTimer t)
      (s0\<lparr>k_thread := (k_thread s0)(t \<mapsto> set_state x h0), rt_thread_ready_priority_group := g\<rparr>)" by blast
  have t1: "k_thread s1 t = Some (set_state x h0)" and f1: "rt_tick s1 = rt_tick s" "rt_current_thread s1 = Some t"
    by (simp_all add: e1 s0_def cur)
  let ?s0' = "s0\<lparr>k_thread := (k_thread s0)(t \<mapsto> set_state x h0), rt_thread_ready_priority_group := g\<rparr>"
  from wait_timer_restarts [OF s1(2) t1 su pos to] obtain h tm l s1' where
    w: "wait_timer t tick s1 = Some (restarted (ThreadTimer t) h tm l s1')" "kwf (restarted (ThreadTimer t) h tm l s1')"
      "tm_init_tick tm = tick" "set l = insert (ThreadTimer t) (set (remove1 (ThreadTimer t) (k_timers s1 HardTimers)))"
    and s1': "s1' = s1\<lparr>k_timer := (k_timer s1)(ThreadTimer t \<mapsto> tm)\<rparr>" by blast
  define s2 where "s2 = restarted (ThreadTimer t) h tm l s1'"
  have w2: "wait_timer t tick s1 = Some s2" "kwf s2" using w by (simp_all add: s2_def)
  then have ti: "thread_sleep_timer t tick s1 = Some s2"
    using pos by (simp add: wait_timer_def thread_sleep_timer_def split: if_splits)
  have t2: "k_thread s2 t = Some (set_state x h0)" "rt_current_thread s2 = Some t" "rt_tick s2 = rt_tick s"
    using t1 f1 by (simp_all add: s2_def s1')
  have hc: "k_timers s HardCheck = [] \<longrightarrow> k_timers s2 HardCheck = []"
    by (simp add: s2_def s1' restarted_def e1 stop_timer_def al_remove_def s0_def split: option.split)
  have tw: "timers_wf ?s0'" using kinvD(4) [OF kwfD(1) [OF kw]] timers_wf_cong [of ?s0' s] by (simp add: s0_def)
  have hm: "set (k_timers s2 HardTimers) = insert (ThreadTimer t) (set (k_timers s HardTimers))"
  proof -
    have "k_timers s2 HardTimers = l" by (simp add: s2_def)
    moreover have "set (k_timers s1 HardTimers) = set (k_timers s HardTimers) - {ThreadTimer t}"
      using stop_timer_mem [OF tw, of HardTimers] by (auto simp: e1 s0_def)
    moreover have "distinct (k_timers s1 HardTimers)"
      using kinvD(4) [OF kwfD(1) [OF s1(2)]] by (auto simp: timers_wf_def intro: separate_distinct)
    ultimately show ?thesis using w(4) by auto
  qed
  define h3 where "h3 = (set_state x h0)\<lparr>th_error := - RT_EINTR\<rparr>"
  define s3 where "s3 = s2\<lparr>k_thread := (k_thread s2)(t \<mapsto> h3)\<rparr>"
  have su3: "suspended h3" "state_of (set_state x h0) \<noteq> 1" using su suspended_no_ready [OF su] by (simp_all add: h3_def)
  have kw3: "kwf s3" unfolding s3_def h3_def by (rule kwf_error [OF w2(2) t2(1) su3(2)])
  have c3: "rt_current_thread s3 \<noteq> None" using t2 by (simp add: s3_def)
  from schedule_kinv [OF kwfD(1) [OF kw3] c3] obtain s4 where
    s4: "rt_schedule s3 = Some s4" "kinv s4" "sched_frame s3 s4" by blast
  have t4: "k_thread s4 t = Some h3"
    using sched_frame_quiet [OF s4(3), of t h3] suspended_no_ready [OF su3(1)] by (simp add: s3_def)
  have "rt_thread_sleep tick s = Some (Blocked, s4)"
    using nz cur cl ctx th s1(1) ti t2 s4(1)
    by (simp add: rt_thread_sleep_def rt_thread_self_def assert_type_class s0_def h0_def s3_def h3_def del: upd_thread_def) 
  moreover have "asleep t tick s s4"
    using kwf_sched [OF kw3 s4(2,3)] schedule_current [OF kwfD(1) [OF kw3] c3 s4(1)] t4 su3(1) hm hc
      sched_frame_fields [OF s4(3)] t2 w(3)
    by (simp add: asleep_def s3_def h3_def s2_def timeout_of_def restarted_def s1' f1)
  ultimately show ?thesis by blast
qed

section \<open>Waking up\<close>

lemma early:
  fixes b k n :: u32
  assumes "k < n" and "sint n > 0"
  shows "half_tick \<le> b + k - (b + n)"
proof -
  have n: "uint n < 2 ^ 31" by (rule sint_positive(2) [OF assms(2)])
  have le: "k \<le> n" and kn: "uint k < uint n" using assms(1) by (simp_all add: word_less_def order.strict_implies_order [OF assms(1)])
  have d: "uint (n - k) = uint n - uint k" using uint_minus_simple_alt [of k n] le by simp
  define x where "x = n - k"
  have e: "b + k - (b + n) = - x" by (simp add: x_def)
  have "uint (- x) = (- uint x) mod 2 ^ 32" by (simp add: uint_word_ariths)
  also have "\<dots> = 2 ^ 32 - uint x" proof -
    have "0 < uint x" "uint x < 2 ^ 31" unfolding x_def d using n kn by (simp, smt (verit) uint_lt_0)
    then show ?thesis by (simp add: zmod_zminus1_eq_if)
  qed
  finally have u: "uint (b + k - (b + n)) = 2 ^ 32 - (uint n - uint k)" using d e by (simp add: x_def)
  have "uint half_tick = 2 ^ 31 - 1" using unat_half_tick by (metis uint_nat of_nat_numeral of_nat_power of_nat_diff one_le_numeral of_nat_1 one_le_power)
  then have "uint half_tick \<le> 2 ^ 32 - uint n" using n by simp
  also have "\<dots> \<le> 2 ^ 32 - (uint n - uint k)" by simp
  finally have "uint half_tick \<le> uint (b + k - (b + n))" using u by simp
  then show ?thesis by (simp only: word_le_def)
qed

lemma distinct_one: "distinct xs \<Longrightarrow> set xs = {a} \<Longrightarrow> xs = [a]"
  by (cases xs; cases "tl xs") auto

section \<open>The clock interrupt\<close>

text \<open>The number of clock interrupts, one after the other.\<close>

fun clock_ticks :: "(nat \<Rightarrow> addr \<Rightarrow> kstate \<Rightarrow> kstate option) \<Rightarrow> nat \<Rightarrow> kstate \<Rightarrow> kstate option" where
  "clock_ticks user 0 s = Some s"
| "clock_ticks user (Suc n) s = do { s \<leftarrow> clock_ticks user n s; rt_tick_increase user s }"

lemma kwf_same_state:
  assumes kw: "kwf s" and th: "k_thread s t = Some th"
    and h: "state_of h = state_of th" "th_current_priority h = th_current_priority th"
      "th_number_mask h = th_number_mask th" "stack_ok h = stack_ok th"
  shows "kwf (s\<lparr>k_thread := (k_thread s)(t \<mapsto> h)\<rparr>)" (is "kwf ?s")
proof -
  note k = kwfD(1) [OF kw]
  have "inv_out {} ?s" by (rule inv_out_keep [OF kinvD(5) [OF k] th h(1-3)])
  moreover have "threads_wf ?s"
    using kinvD(2) [OF k] th h(1) by (auto simp: threads_wf_def is_class_def timer_live_def)
  moreover have "stacks_ok ?s" using kinvD(3) [OF k] th h(1,4) by (auto simp: stacks_ok_def)
  moreover have "timers_wf ?s" using kinvD(4) [OF k] timers_wf_cong [of ?s s] by simp
  moreover have "thread_timers ?s" using kwfD(2) [OF kw] by (simp add: thread_timers_def)
  moreover have "armed_ok ?s"
    by (rule armed_okI [OF kwfD(3) [OF kw]]) (use th h(1) in \<open>auto simp: suspended_state\<close>)
  ultimately show ?thesis by (simp add: kwf_def kinv_def sched_inv_def)
qed

text \<open>The time slice disturbs neither the timers nor a thread that waits.\<close>

definition sliced :: "kstate \<Rightarrow> kstate \<Rightarrow> bool" where
  "sliced s s' \<longleftrightarrow> kwf s' \<and> rt_current_thread s' \<noteq> None \<and> k_timer s' = k_timer s \<and> k_timers s' = k_timers s \<and>
    rt_tick s' = rt_tick s \<and> (\<forall>t h. k_thread s t = Some h \<longrightarrow> suspended h \<longrightarrow>
      (\<exists>h'. k_thread s' t = Some h' \<and> suspended h' \<and> th_error h' = th_error h))"

lemma time_slice_spec:
  assumes kw: "kwf s" and cur: "rt_current_thread s \<noteq> None"
  shows "\<exists>s'. time_slice s = Some s' \<and> sliced s s'"
proof -
  obtain c where c: "rt_current_thread s = Some c" using cur by auto
  obtain h where h: "k_thread s c = Some h" using inv_outD(6) [OF kinvD(5) [OF kwfD(1) [OF kw], of "{}"] c] by blast
  let ?d = "h\<lparr>th_remaining_tick := th_remaining_tick h - 1\<rparr>"
  let ?y = "h\<lparr>th_remaining_tick := th_init_tick h, th_stat := th_stat h OR 8\<rparr>"
  show ?thesis
  proof (cases "th_remaining_tick h - 1 = 0")
    case False
    let ?s = "s\<lparr>k_thread := (k_thread s)(c \<mapsto> ?d)\<rparr>"
    have e: "state_of ?d = state_of h" "suspended ?d = suspended h" by (simp_all add: state_of_def suspended_def)
    have "kwf ?s" by (rule kwf_same_state [OF kw h]) (simp_all add: e stack_ok_def)
    then have "sliced s ?s" using c h e(2) by (auto simp: sliced_def)
    moreover have "time_slice s = Some ?s" using c h False by (simp add: time_slice_def rt_thread_self_def)
    ultimately show ?thesis by blast
  next
    case True
    let ?s = "s\<lparr>k_thread := (k_thread s)(c \<mapsto> ?y)\<rparr>"
    have "(th_stat h OR 8) AND 7 = th_stat h AND 7" by (simp add: bit.conj_disj_distrib2)
    then have e: "state_of ?y = state_of h" by (simp add: state_of_def)
    have kw1: "kwf ?s" by (rule kwf_same_state [OF kw h]) (simp_all add: e stack_ok_def)
    have c1: "rt_current_thread ?s \<noteq> None" using c by simp
    from schedule_kinv [OF kwfD(1) [OF kw1] c1] obtain s' where
      s': "rt_schedule ?s = Some s'" "kinv s'" "sched_frame ?s s'" by blast
    note f = sched_frame_fields [OF s'(3)]
    have "\<exists>g'. k_thread s' t = Some g' \<and> suspended g' \<and> th_error g' = th_error g"
      if g: "k_thread s t = Some g" "suspended g" for t g
    proof -
      obtain g1 where g1: "k_thread ?s t = Some g1" "suspended g1" "th_error g1 = th_error g"
        using g h e by (cases "t = c") (auto simp: suspended_state)
      with sched_frame_quiet [OF s'(3) g1(1)] suspended_no_ready [OF g1(2)] show ?thesis by auto
    qed
    then have "sliced s s'"
      using kwf_sched [OF kw1 s'(2,3)] schedule_current [OF kwfD(1) [OF kw1] c1 s'(1)] f by (auto simp: sliced_def)
    moreover have "time_slice s = Some s'" using c h True s'(1) by (simp add: time_slice_def rt_thread_self_def)
    ultimately show ?thesis by blast
  qed
qed

text \<open>The thread waits for its timer, the only one, to run out at the tick \<open>d\<close>.\<close>

definition waits_until :: "addr \<Rightarrow> u32 \<Rightarrow> kstate \<Rightarrow> bool" where
  "waits_until t d s \<longleftrightarrow> kwf s \<and> rt_current_thread s \<noteq> None \<and> k_timers s HardTimers = [ThreadTimer t] \<and>
    k_timers s HardCheck = [] \<and> timeout_of (k_timer s) (ThreadTimer t) = d \<and>
    (\<exists>h. k_thread s t = Some h \<and> suspended h \<and> th_error h = - RT_EINTR)"

lemma waits_until_sliced: "waits_until t d s \<Longrightarrow> sliced s s' \<Longrightarrow> waits_until t d s'"
  unfolding waits_until_def sliced_def by (metis (no_types, lifting))

lemma waits_until_tick: "waits_until t d (s\<lparr>rt_tick := n\<rparr>) = waits_until t d s"
  using kwf_same_ipc [of "s\<lparr>rt_tick := n\<rparr>" s] by (simp add: waits_until_def)

text \<open>The check of the timers before the time is over, and when it is over.\<close>

lemma check_early:
  assumes w: "waits_until t d s" and e: "half_tick \<le> rt_tick s - d"
  shows "\<exists>s'. rt_timer_check user s = Some s' \<and> waits_until t d s' \<and> rt_tick s' = rt_tick s"
proof -
  have kw: "kwf s" and c: "rt_current_thread s \<noteq> None" "k_timers s HardCheck = []" and l: "k_timers s HardTimers = [ThreadTimer t]"
    and d: "timeout_of (k_timer s) (ThreadTimer t) = d" using w by (simp_all add: waits_until_def)
  obtain h where h: "k_thread s t = Some h" "suspended h" "th_error h = - RT_EINTR" using w by (auto simp: waits_until_def)
  have "timer_live (ThreadTimer t) s" using timers_wf_live [OF kinvD(4) [OF kwfD(1) [OF kw]], of "ThreadTimer t" HardTimers] l by simp
  then obtain tm where tm: "k_timer s (ThreadTimer t) = Some tm" by (auto simp: timer_live_def)
  with d e have "half_tick \<le> rt_tick s - tm_timeout_tick tm" by (auto simp: timeout_of_def)
  have "(k_timers s)(HardCheck := []) = k_timers s" using c(2) by (simp add: fun_upd_idem)
  then have "rt_timer_check user s = Some s"
    using c(2) l tm \<open>half_tick \<le> rt_tick s - tm_timeout_tick tm\<close>
    by (simp add: rt_timer_check_def timer_check_loop.simps leD)
  with w show ?thesis by simp
qed

lemma check_late:
  assumes w: "waits_until t d s" and e: "rt_tick s = d"
  shows "\<exists>s'. rt_timer_check user s = Some s' \<and> kwf s' \<and> k_timers s' HardTimers = [] \<and> timed_out s' t"
proof -
  have "due s t" using w e by (simp add: waits_until_def due_def half_tick_def)
  then show ?thesis
    using timer_check_checked [of s "[t]" "[]" user] w by (auto simp: waits_until_def not_due_def checked_def)
qed

text \<open>Every clock interrupt before the last leaves the thread asleep.\<close>

lemma clock_ticks_early:
  assumes w: "waits_until t (b + k) s" and b: "rt_tick s = b" and k: "sint k > 0" and n: "n < unat k"
  shows "\<exists>s'. clock_ticks user n s = Some s' \<and> waits_until t (b + k) s' \<and> rt_tick s' = b + of_nat n"
  using n
proof (induction n)
  case 0
  with w b show ?case by simp
next
  case (Suc n)
  then obtain s1 where s1: "clock_ticks user n s = Some s1" "waits_until t (b + k) s1" "rt_tick s1 = b + of_nat n" by auto
  let ?i = "of_nat (Suc n) :: u32" and ?s = "s1\<lparr>rt_tick := rt_tick s1 + 1\<rparr>"
  have w1: "waits_until t (b + k) ?s" by (simp only: waits_until_tick s1(2))
  then have "kwf ?s" "rt_current_thread ?s \<noteq> None" by (simp_all add: waits_until_def)
  from time_slice_spec [OF this] obtain s2 where s2: "time_slice ?s = Some s2" "sliced ?s s2" by blast
  have t2: "rt_tick s2 = b + ?i" using s2(2) s1(3) by (simp add: sliced_def add.assoc add.commute)
  have "unat k < 2 ^ LENGTH(32)" by (rule unsigned_less)
  then have "Suc n < 2 ^ 32" using Suc.prems by simp
  then have "unat ?i = Suc n" by (simp only: unat_of_nat) simp
  then have "?i < k" using Suc.prems by (simp add: word_less_nat_alt)
  then have "half_tick \<le> rt_tick s2 - (b + k)" unfolding t2 by (rule early [OF _ k])
  from check_early [OF waits_until_sliced [OF w1 s2(2)] this, of user] obtain s3 where
    "rt_timer_check user s2 = Some s3" "waits_until t (b + k) s3" "rt_tick s3 = b + ?i" using t2 by auto
  then show ?case using s1(1) s2(1) by (simp add: rt_tick_increase_def)
qed

text \<open>C28. A running thread that sleeps for a number of ticks from 1 to \<open>0x7ffffffe\<close>, with no other
  timer armed, is suspended. Of the clock interrupts that follow, with their time slices and
  scheduling steps, each before the one with the number of ticks leaves it suspended, that one
  makes it ready or running, and its call of \<open>rt_thread_sleep\<close> then returns \<open>RT_EOK\<close> with a clean
  error code, also when the tick counter wraps around meanwhile.\<close>

theorem rt_thread_sleep_wakes:
  assumes "kwf s" and "thread_context t s" and "sint tick > 0" and "tick \<noteq> 0x7fffffff"
    and "k_timers s HardTimers = []" and "k_timers s HardCheck = []"
  shows "\<exists>s1 s2 s3 h. rt_thread_sleep tick s = Some (Blocked, s1) \<and> asleep t tick s s1 \<and>
    (\<forall>n < unat tick. \<exists>s' h. clock_ticks user n s1 = Some s' \<and> rt_tick s' = rt_tick s + of_nat n \<and>
      k_thread s' t = Some h \<and> suspended h) \<and>
    clock_ticks user (unat tick) s1 = Some s2 \<and> kwf s2 \<and> k_timers s2 HardTimers = [] \<and>
    (\<exists>h. k_thread s2 t = Some h \<and> runnable h) \<and>
    thread_sleep_resume t s2 = Some (RT_EOK, s3) \<and> k_thread s3 t = Some h \<and> runnable h \<and> th_error h = RT_EOK"
proof -
  let ?d = "rt_tick s + tick"
  from sleep_spec [OF assms(1-4)] obtain s1 where s1: "rt_thread_sleep tick s = Some (Blocked, s1)" and a: "asleep t tick s s1" by blast
  have "distinct (k_timers s1 HardTimers)"
    using a kinvD(4) [OF kwfD(1), of s1] by (auto simp: asleep_def timers_wf_def intro: separate_distinct)
  then have "k_timers s1 HardTimers = [ThreadTimer t]" using a assms(5) by (intro distinct_one) (simp_all add: asleep_def)
  then have w1: "waits_until t ?d s1" and b: "rt_tick s1 = rt_tick s" using a assms(6) by (simp_all add: asleep_def waits_until_def)
  note before = clock_ticks_early [OF w1 b assms(3), of _ user]
  have "0 < unat tick" using assms(3) by (cases "tick = 0") (simp_all add: unat_gt_0)
  then obtain n where n: "unat tick = Suc n" by (cases "unat tick") auto
  with before [of n] obtain s' where s': "clock_ticks user n s1 = Some s'" "waits_until t ?d s'" "rt_tick s' = rt_tick s + of_nat n"
    by auto
  let ?s = "s'\<lparr>rt_tick := rt_tick s' + 1\<rparr>"
  have w: "waits_until t ?d ?s" by (simp only: waits_until_tick s'(2))
  then have "kwf ?s" "rt_current_thread ?s \<noteq> None" by (simp_all add: waits_until_def)
  from time_slice_spec [OF this] obtain s0 where s0: "time_slice ?s = Some s0" "sliced ?s s0" by blast
  have "tick = of_nat (Suc n)" unfolding n [symmetric] by simp
  then have "rt_tick s0 = ?d" using s0(2) s'(3) by (simp add: sliced_def add.assoc add.commute)
  from check_late [OF waits_until_sliced [OF w s0(2)] this, of user] obtain s2 where
    s2: "rt_timer_check user s0 = Some s2" "kwf s2" "k_timers s2 HardTimers = []" "timed_out s2 t" by blast
  have last: "clock_ticks user (unat tick) s1 = Some s2" using n s'(1) s0(1) s2(1) by (simp add: rt_tick_increase_def)
  obtain h where h: "k_thread s2 t = Some h" "runnable h" "th_error h = - RT_ETIMEOUT" using s2(4) by (auto simp: timed_out_def)
  then have r: "thread_sleep_resume t s2 = Some (RT_EOK, s2\<lparr>k_thread := (k_thread s2)(t \<mapsto> h\<lparr>th_error := RT_EOK\<rparr>)\<rparr>)"
    by (simp add: thread_sleep_resume_def clear_timeout_def)
  have "runnable (h\<lparr>th_error := RT_EOK\<rparr>)" using h(2) by (simp add: runnable_def state_of_def)
  moreover have "\<forall>n < unat tick. \<exists>s' h. clock_ticks user n s1 = Some s' \<and> rt_tick s' = rt_tick s + of_nat n \<and>
      k_thread s' t = Some h \<and> suspended h" using before by (fastforce simp: waits_until_def)
  ultimately show ?thesis using s1 a last s2(2,3) h(1,2) r by fastforce
qed

lemma ceil_ten: "1000 * y + z = 100 * r + 999 \<Longrightarrow> 0 \<le> z \<Longrightarrow> z < 1000 \<Longrightarrow> (m :: int) = 1000 * q + r \<Longrightarrow>
    m \<le> 1000 * q + 10 * y \<and> 1000 * q + 10 * y < m + 10"
  by (intro conjI; linarith)

text \<open>\<open>rt_tick_from_millisecond\<close> rounds up: a wait of that many ticks, of 10 milliseconds each,
  lasts at least as long as asked for and less than one tick longer; no product overflows.\<close>

theorem rt_tick_from_millisecond_ceiling:
  assumes "0 \<le> sint ms"
  shows "sint ms \<le> 10 * uint (rt_tick_from_millisecond ms) \<and> 10 * uint (rt_tick_from_millisecond ms) < sint ms + 10"
proof -
  let ?m = "sint ms"
  have b: "?m < 2 ^ 31" using sint_lt [of ms] by simp
  define q r y where "q = ?m div 1000" and "r = ?m mod 1000" and "y = (100 * r + 999) div 1000"
  have m: "?m = 1000 * q + r" by (simp add: q_def r_def)
  have "1000 * y + (100 * r + 999) mod 1000 = 100 * r + 999" by (simp add: y_def)
  then obtain z where "1000 * y + z = 100 * r + 999" "0 \<le> z" "z < 1000" by fastforce
  then have n: "?m \<le> 10 * (100 * q + y)" "10 * (100 * q + y) < ?m + 10" using ceil_ten [of y z r ?m q] m by simp_all
  let ?n = "100 * q + y"
  have "rt_tick_from_millisecond ms = word_of_int ?n"
    using assms by (simp add: rt_tick_from_millisecond_def Let_def q_def r_def y_def)
  moreover have "0 \<le> ?n" using n assms by simp
  moreover have "?n < 2 ^ 32" using n b by simp
  moreover from calculation have "uint (word_of_int ?n :: u32) = ?n" by (subst uint_word_of_int) simp
  ultimately have "uint (rt_tick_from_millisecond ms) = ?n" by simp
  with n show ?thesis by simp
qed


lemma ex_kwf: "kwf ex_state"
proof -
  have "thread_timers ex_state" by (auto simp: thread_timers_def ex_state_def ex_header_def ex_timer_def is_soft_def periodic_def split: if_splits)
  moreover have "armed_ok ex_state" by (simp add: armed_ok_def ex_state_def init_kstate_def)
  ultimately show ?thesis using ex_kinv by (simp add: kwf_def)
qed

lemma rt_thread_sleep_wakes_witness:
  "\<exists>s1 s2 s3 h. rt_thread_sleep 3 ex_state = Some (Blocked, s1) \<and>
    (\<exists>s' h. clock_ticks (\<lambda>_ _ _. None) 2 s1 = Some s' \<and> rt_tick s' = 2 \<and> k_thread s' 10 = Some h \<and> suspended h) \<and>
    clock_ticks (\<lambda>_ _ _. None) 3 s1 = Some s2 \<and>
    thread_sleep_resume 10 s2 = Some (RT_EOK, s3) \<and> k_thread s3 10 = Some h \<and> runnable h \<and> th_error h = RT_EOK"
proof -
  have e: "thread_context 10 ex_state" "k_timers ex_state HardTimers = []" "k_timers ex_state HardCheck = []" "rt_tick ex_state = 0"
    by (simp_all add: thread_context_def ex_state_def init_kstate_def ex_thread_def state_of_def)
  have three: "unat (3 :: u32) = 3" "of_nat 2 = (2 :: u32)" by simp_all
  have p: "sint (3 :: u32) > 0" "(3 :: u32) \<noteq> 0x7fffffff" by simp_all
  obtain s1 s2 s3 h where s: "rt_thread_sleep 3 ex_state = Some (Blocked, s1)"
    "\<forall>n < 3. \<exists>s' h. clock_ticks (\<lambda>_ _ _. None) n s1 = Some s' \<and> rt_tick s' = 0 + of_nat n \<and> k_thread s' 10 = Some h \<and> suspended h"
    "clock_ticks (\<lambda>_ _ _. None) 3 s1 = Some s2" "thread_sleep_resume 10 s2 = Some (RT_EOK, s3)" "k_thread s3 10 = Some h"
    "runnable h" "th_error h = RT_EOK"
    using rt_thread_sleep_wakes [OF ex_kwf e(1) p e(2,3), of "\<lambda>_ _ _. None", unfolded three(1) e(4)] by blast
  from s(2) [rule_format, of 2] have "\<exists>s' h. clock_ticks (\<lambda>_ _ _. None) 2 s1 = Some s' \<and> rt_tick s' = 2 \<and>
      k_thread s' 10 = Some h \<and> suspended h" unfolding three(2) by simp
  with s(1,3-7) show ?thesis by blast
qed

lemma rt_tick_from_millisecond_ceiling_witness: "rt_tick_from_millisecond 11 = 2 \<and> 11 \<le> 10 * uint (rt_tick_from_millisecond 11)"
  using rt_tick_from_millisecond_ceiling [of 11] by (simp add: rt_tick_from_millisecond_def Let_def)

end
