(* ===== verification/SmallMem.thy ===== *)
theory SmallMem
  imports KService Object
begin

text \<open>
  The small memory algorithm of \<open>rt-thread/src/mem.c\<close>, the heap of this configuration: a chain of
  items, each with a header in the memory it manages. The headers are read and written as the
  words of a byte memory; the structure \<open>rt_small_mem\<close> in front of the heap is a record, its
  header an object of the kernel.
\<close>

section \<open>The data\<close>

record rt_small_mem =
  sm_address :: u32
  sm_total :: u32
  sm_used :: u32
  sm_max :: u32
  sm_heap_ptr :: addr
  sm_heap_end :: addr
  sm_lfree :: addr
  sm_mem_size_aligned :: u32

record heap =
  h_mem :: mem
  h_pools :: "addr \<Rightarrow> rt_small_mem option"
  system_heap :: "addr option"

text \<open>\<open>SIZEOF_STRUCT_MEM\<close>: three words, rounded up; \<open>MIN_SIZE_ALIGNED\<close>; the size of \<open>rt_small_mem\<close>.\<close>

abbreviation (input) SIZEOF_STRUCT_MEM :: u32 where "SIZEOF_STRUCT_MEM \<equiv> 16"
abbreviation (input) MIN_SIZE :: u32 where "MIN_SIZE \<equiv> 12"
abbreviation (input) MIN_SIZE_ALIGNED :: u32 where "MIN_SIZE_ALIGNED \<equiv> 16"
abbreviation (input) sizeof_small_mem :: u32 where "sizeof_small_mem \<equiv> 56"

text \<open>The fields of an item at an address.\<close>

definition item_pool_ptr :: "mem \<Rightarrow> addr \<Rightarrow> u32" where "item_pool_ptr m a = load_word m a"
definition item_next :: "mem \<Rightarrow> addr \<Rightarrow> u32" where "item_next m a = load_word m (a + 4)"
definition item_prev :: "mem \<Rightarrow> addr \<Rightarrow> u32" where "item_prev m a = load_word m (a + 8)"

definition set_pool_ptr :: "addr \<Rightarrow> u32 \<Rightarrow> heap \<Rightarrow> heap" where
  "set_pool_ptr a v h = h\<lparr>h_mem := store_word (h_mem h) a v\<rparr>"

definition set_next :: "addr \<Rightarrow> u32 \<Rightarrow> heap \<Rightarrow> heap" where
  "set_next a v h = h\<lparr>h_mem := store_word (h_mem h) (a + 4) v\<rparr>"

definition set_prev :: "addr \<Rightarrow> u32 \<Rightarrow> heap \<Rightarrow> heap" where
  "set_prev a v h = h\<lparr>h_mem := store_word (h_mem h) (a + 8) v\<rparr>"

abbreviation (input) MEM_MASK :: u32 where "MEM_MASK \<equiv> 0xfffffffe"

definition MEM_USED :: "addr \<Rightarrow> u32" where "MEM_USED small_mem = (of_nat small_mem AND MEM_MASK) OR 1"
definition MEM_FREED :: "addr \<Rightarrow> u32" where "MEM_FREED small_mem = (of_nat small_mem AND MEM_MASK) OR 0"
definition MEM_ISUSED :: "mem \<Rightarrow> addr \<Rightarrow> bool" where "MEM_ISUSED m a \<longleftrightarrow> item_pool_ptr m a AND NOT MEM_MASK \<noteq> 0"
definition MEM_POOL :: "mem \<Rightarrow> addr \<Rightarrow> addr" where "MEM_POOL m a = unat (item_pool_ptr m a AND MEM_MASK)"

definition upd_pool :: "addr \<Rightarrow> (rt_small_mem \<Rightarrow> rt_small_mem) \<Rightarrow> heap \<Rightarrow> heap option" where
  "upd_pool p f h = do { m \<leftarrow> upd (h_pools h) p f; Some (h\<lparr>h_pools := m\<rparr>) }"

section \<open>Merging\<close>

text \<open>\<open>&m->heap_ptr[i]\<close>, and the offset of a pointer.\<close>

definition item_at :: "rt_small_mem \<Rightarrow> u32 \<Rightarrow> addr" where
  "item_at m i = sm_heap_ptr m + unat i"

definition offset_of :: "rt_small_mem \<Rightarrow> addr \<Rightarrow> u32" where
  "offset_of m a = of_nat a - of_nat (sm_heap_ptr m)"

definition plug_forward :: "addr \<Rightarrow> addr \<Rightarrow> heap \<Rightarrow> heap option" where
  "plug_forward p mem h = do {
    m \<leftarrow> h_pools h p;
    let nmem = item_at m (item_next (h_mem h) mem);
    if mem \<noteq> nmem \<and> \<not> MEM_ISUSED (h_mem h) nmem \<and> nmem \<noteq> sm_heap_end m then do {
      h \<leftarrow> (if sm_lfree m = nmem then upd_pool p (\<lambda>m. m\<lparr>sm_lfree := mem\<rparr>) h else Some h);
      let h = set_pool_ptr nmem 0 h;
      let h = set_next mem (item_next (h_mem h) nmem) h;
      Some (set_prev (item_at m (item_next (h_mem h) nmem)) (offset_of m mem) h)
    } else Some h }"

definition plug_backward :: "addr \<Rightarrow> addr \<Rightarrow> heap \<Rightarrow> heap option" where
  "plug_backward p mem h = do {
    m \<leftarrow> h_pools h p;
    let pmem = item_at m (item_prev (h_mem h) mem);
    if pmem \<noteq> mem \<and> \<not> MEM_ISUSED (h_mem h) pmem then do {
      h \<leftarrow> (if sm_lfree m = mem then upd_pool p (\<lambda>m. m\<lparr>sm_lfree := pmem\<rparr>) h else Some h);
      let h = set_pool_ptr mem 0 h;
      let h = set_next pmem (item_next (h_mem h) mem) h;
      Some (set_prev (item_at m (item_next (h_mem h) mem)) (offset_of m pmem) h)
    } else Some h }"

definition plug_holes :: "addr \<Rightarrow> addr \<Rightarrow> heap \<Rightarrow> heap option" where
  "plug_holes p mem h = do {
    m \<leftarrow> h_pools h p;
    RT_ASSERT (mem \<ge> sm_heap_ptr m);
    RT_ASSERT (mem < sm_heap_end m);
    h \<leftarrow> plug_forward p mem h;
    plug_backward p mem h }"

section \<open>Setting up\<close>

definition rt_smem_init :: "u8 list \<Rightarrow> u32 \<Rightarrow> u32 \<Rightarrow> kstate \<Rightarrow> heap \<Rightarrow> (addr option \<times> kstate \<times> heap) option" where
  "rt_smem_init nm begin_addr sz s h = (
    let small_mem = RT_ALIGN begin_addr RT_ALIGN_SIZE;
        start_addr = small_mem + sizeof_small_mem;
        begin_align = RT_ALIGN start_addr RT_ALIGN_SIZE;
        end_align = RT_ALIGN_DOWN (begin_addr + sz) RT_ALIGN_SIZE
    in if end_align > 2 * SIZEOF_STRUCT_MEM \<and> end_align - 2 * SIZEOF_STRUCT_MEM \<ge> start_addr then do {
        let mem_size = end_align - begin_align - 2 * SIZEOF_STRUCT_MEM;
        let p = unat small_mem;
        s \<leftarrow> rt_object_init (Obj p) RT_Object_Class_Memory nm s;
        let heap_ptr = unat begin_align;
        let h = set_pool_ptr heap_ptr (MEM_FREED p) h;
        let h = set_next heap_ptr (mem_size + SIZEOF_STRUCT_MEM) h;
        let h = set_prev heap_ptr 0 h;
        let heap_end = heap_ptr + unat (item_next (h_mem h) heap_ptr);
        let h = set_pool_ptr heap_end (MEM_USED p) h;
        let h = set_next heap_end (mem_size + SIZEOF_STRUCT_MEM) h;
        let h = set_prev heap_end (mem_size + SIZEOF_STRUCT_MEM) h;
        let m = \<lparr>sm_address = begin_align, sm_total = mem_size, sm_used = 0, sm_max = 0, sm_heap_ptr = heap_ptr,
          sm_heap_end = heap_end, sm_lfree = heap_ptr, sm_mem_size_aligned = mem_size\<rparr>;
        Some (Some p, s, h\<lparr>h_pools := (h_pools h)(p \<mapsto> m)\<rparr>)
      } else Some (None, s, h))"

text \<open>The checks of the object at the start of an operation.\<close>

definition assert_memory :: "addr \<Rightarrow> kstate \<Rightarrow> unit option" where
  "assert_memory p s = do {
    _ \<leftarrow> assert_type (Obj p) RT_Object_Class_Memory s;
    assert_static (Obj p) True s }"

definition rt_smem_detach :: "addr \<Rightarrow> kstate \<Rightarrow> (rt_err \<times> kstate) option" where
  "rt_smem_detach p s = do {
    _ \<leftarrow> assert_memory p s;
    s \<leftarrow> rt_object_detach (Obj p) s;
    Some (RT_EOK, s) }"

section \<open>Allocating\<close>

text \<open>The search of the first free item that is large enough: its offset, when there is one.\<close>

partial_function (option) alloc_find :: "rt_small_mem \<Rightarrow> mem \<Rightarrow> u32 \<Rightarrow> u32 \<Rightarrow> u32 option option" where
  "alloc_find m mem sz ptr =
    (if ptr \<le> sm_mem_size_aligned m - sz
     then let a = item_at m ptr in
       if \<not> MEM_ISUSED mem a \<and> item_next mem a - (ptr + SIZEOF_STRUCT_MEM) \<ge> sz then Some (Some ptr)
       else alloc_find m mem sz (item_next mem a)
     else Some None)"

partial_function (option) next_lfree :: "rt_small_mem \<Rightarrow> mem \<Rightarrow> addr \<Rightarrow> addr option" where
  "next_lfree m mem lfree =
    (if MEM_ISUSED mem lfree \<and> lfree \<noteq> sm_heap_end m then next_lfree m mem (item_at m (item_next mem lfree))
     else Some lfree)"

text \<open>The statistics, and the item that becomes used.\<close>

definition count_used :: "u32 \<Rightarrow> rt_small_mem \<Rightarrow> rt_small_mem" where
  "count_used n m = (let m = m\<lparr>sm_used := sm_used m + n\<rparr> in if sm_max m < sm_used m then m\<lparr>sm_max := sm_used m\<rparr> else m)"

definition split_item :: "addr \<Rightarrow> rt_small_mem \<Rightarrow> u32 \<Rightarrow> u32 \<Rightarrow> heap \<Rightarrow> heap" where
  "split_item p m ptr ptr2 h = (
    let mem = item_at m ptr;
        mem2 = item_at m ptr2;
        h = set_pool_ptr mem2 (MEM_FREED p) h;
        h = set_next mem2 (item_next (h_mem h) mem) h;
        h = set_prev mem2 ptr h;
        h = set_next mem ptr2 h
    in if item_next (h_mem h) mem2 \<noteq> sm_mem_size_aligned m + SIZEOF_STRUCT_MEM
       then set_prev (item_at m (item_next (h_mem h) mem2)) ptr2 h else h)"

definition alloc_at :: "addr \<Rightarrow> u32 \<Rightarrow> u32 \<Rightarrow> heap \<Rightarrow> (addr \<times> heap) option" where
  "alloc_at p sz ptr h = do {
    m \<leftarrow> h_pools h p;
    let mem = item_at m ptr;
    h \<leftarrow> (if item_next (h_mem h) mem - (ptr + SIZEOF_STRUCT_MEM) \<ge> sz + SIZEOF_STRUCT_MEM + MIN_SIZE_ALIGNED
      then do {
        let h = split_item p m ptr (ptr + SIZEOF_STRUCT_MEM + sz) h;
        upd_pool p (count_used (sz + SIZEOF_STRUCT_MEM)) h }
      else upd_pool p (count_used (item_next (h_mem h) mem - offset_of m mem)) h);
    let h = set_pool_ptr mem (MEM_USED p) h;
    h \<leftarrow> (if mem = sm_lfree m then do {
        l \<leftarrow> next_lfree m (h_mem h) (sm_lfree m);
        h \<leftarrow> upd_pool p (\<lambda>m. m\<lparr>sm_lfree := l\<rparr>) h;
        RT_ASSERT (l = sm_heap_end m \<or> \<not> MEM_ISUSED (h_mem h) l);
        Some h }
      else Some h);
    RT_ASSERT (mem + 16 + unat sz \<le> sm_heap_end m);
    RT_ASSERT ((mem + 16) mod 8 = 0);
    RT_ASSERT (mem mod 8 = 0);
    Some (mem + 16, h) }"

definition rt_smem_alloc :: "addr \<Rightarrow> u32 \<Rightarrow> kstate \<Rightarrow> heap \<Rightarrow> (addr option \<times> heap) option" where
  "rt_smem_alloc p sz s h =
    (if sz = 0 then Some (None, h)
     else do {
       _ \<leftarrow> assert_memory p s;
       m \<leftarrow> h_pools h p;
       let sz = RT_ALIGN sz RT_ALIGN_SIZE;
       let sz = (if sz < MIN_SIZE_ALIGNED then MIN_SIZE_ALIGNED else sz);
       if sz > sm_mem_size_aligned m then Some (None, h)
       else do {
         r \<leftarrow> alloc_find m (h_mem h) sz (offset_of m (sm_lfree m));
         case r of
           None \<Rightarrow> Some (None, h)
         | Some ptr \<Rightarrow> do { (a, h) \<leftarrow> alloc_at p sz ptr h; Some (Some a, h) } } })"

section \<open>Releasing\<close>

definition rt_smem_free :: "addr option \<Rightarrow> kstate \<Rightarrow> heap \<Rightarrow> heap option" where
  "rt_smem_free rmem s h = (case rmem of
      None \<Rightarrow> Some h
    | Some rmem \<Rightarrow> do {
        RT_ASSERT (rmem mod 8 = 0);
        in_bounds (16 \<le> rmem);
        let mem = rmem - 16;
        let p = MEM_POOL (h_mem h) mem;
        RT_ASSERT (p \<noteq> 0);
        RT_ASSERT (MEM_ISUSED (h_mem h) mem);
        _ \<leftarrow> assert_memory p s;
        m \<leftarrow> h_pools h p;
        RT_ASSERT (rmem \<ge> sm_heap_ptr m \<and> rmem < sm_heap_end m);
        RT_ASSERT (MEM_POOL (h_mem h) (item_at m (item_next (h_mem h) mem)) = p);
        let h = set_pool_ptr mem (MEM_FREED p) h;
        h \<leftarrow> (if mem < sm_lfree m then upd_pool p (\<lambda>m. m\<lparr>sm_lfree := mem\<rparr>) h else Some h);
        h \<leftarrow> upd_pool p (\<lambda>m. m\<lparr>sm_used := sm_used m - (item_next (h_mem h) mem - offset_of m mem)\<rparr>) h;
        plug_holes p mem h })"

section \<open>Changing the size\<close>

definition rt_smem_realloc :: "addr \<Rightarrow> addr option \<Rightarrow> u32 \<Rightarrow> kstate \<Rightarrow> heap \<Rightarrow> (addr option \<times> heap) option" where
  "rt_smem_realloc p rmem newsize s h = do {
    _ \<leftarrow> assert_memory p s;
    m \<leftarrow> h_pools h p;
    let newsize = RT_ALIGN newsize RT_ALIGN_SIZE;
    if newsize > sm_mem_size_aligned m then Some (None, h)
    else if newsize = 0 then do { h \<leftarrow> rt_smem_free rmem s h; Some (None, h) }
    else case rmem of
      None \<Rightarrow> rt_smem_alloc p newsize s h
    | Some rmem \<Rightarrow> do {
        RT_ASSERT (rmem mod 8 = 0);
        RT_ASSERT (rmem \<ge> sm_heap_ptr m);
        RT_ASSERT (rmem < sm_heap_end m);
        in_bounds (16 \<le> rmem);
        let mem = rmem - 16;
        let ptr = offset_of m mem;
        let sz = item_next (h_mem h) mem - ptr - SIZEOF_STRUCT_MEM;
        if sz = newsize then Some (Some rmem, h)
        else if newsize + SIZEOF_STRUCT_MEM + MIN_SIZE < sz then do {
          h \<leftarrow> upd_pool p (\<lambda>m. m\<lparr>sm_used := sm_used m - (sz - newsize)\<rparr>) h;
          let ptr2 = ptr + SIZEOF_STRUCT_MEM + newsize;
          let mem2 = item_at m ptr2;
          let h = split_item p m ptr ptr2 h;
          h \<leftarrow> (if mem2 < sm_lfree m then upd_pool p (\<lambda>m. m\<lparr>sm_lfree := mem2\<rparr>) h else Some h);
          h \<leftarrow> plug_holes p mem2 h;
          Some (Some rmem, h)
        } else do {
          (nmem, h) \<leftarrow> rt_smem_alloc p newsize s h;
          case nmem of
            None \<Rightarrow> Some (None, h)
          | Some a \<Rightarrow> do {
              let h = h\<lparr>h_mem := rt_memcpy (h_mem h) a rmem (unat (if sz < newsize then sz else newsize))\<rparr>;
              h \<leftarrow> rt_smem_free (Some rmem) s h;
              Some (Some a, h) } } } }"

end
