(* ===== verification/HeapFront.thy ===== *)
theory HeapFront
  imports SmallMem Mutex
begin

text \<open>
  The heap front end of \<open>rt-thread/src/kservice.c\<close>: \<open>rt_malloc\<close> and its relatives run the small
  memory algorithm on the system heap under the mutex \<open>_lock\<close>, which is left out as long as no
  thread runs. A call that finds the mutex taken blocks; what follows is a \<open>..._resume\<close> definition.
\<close>

section \<open>The lock\<close>

text \<open>The static mutex \<open>_lock\<close>.\<close>

definition heap_mutex :: addr where "heap_mutex = 3"

definition heap_lock_init :: "kstate \<Rightarrow> kstate option" where
  "heap_lock_init s = do {
    (_, s) \<leftarrow> rt_mutex_init heap_mutex [0x68, 0x65, 0x61, 0x70, 0] RT_IPC_FLAG_PRIO s;
    Some s }"

definition heap_lock :: "kstate \<Rightarrow> (rt_err outcome \<times> kstate) option" where
  "heap_lock s =
    (if rt_thread_self s \<noteq> None then rt_mutex_take heap_mutex RT_WAITING_FOREVER s
     else Some (Return RT_EOK, s))"

definition heap_unlock :: "rt_err \<Rightarrow> kstate \<Rightarrow> kstate option" where
  "heap_unlock level s = do {
    RT_ASSERT (level = RT_EOK);
    if rt_thread_self s \<noteq> None then do { (_, s) \<leftarrow> rt_mutex_release heap_mutex s; Some s }
    else Some s }"

text \<open>An operation of the heap between the lock and the unlock, and the same after a wait.\<close>

definition under_lock :: "rt_err \<Rightarrow> (kstate \<Rightarrow> heap \<Rightarrow> ('a \<times> heap) option) \<Rightarrow> kstate \<Rightarrow> heap \<Rightarrow> ('a \<times> kstate \<times> heap) option" where
  "under_lock level f s h = do {
    (r, h) \<leftarrow> f s h;
    s \<leftarrow> heap_unlock level s;
    Some (r, s, h) }"

definition locked :: "(kstate \<Rightarrow> heap \<Rightarrow> ('a \<times> heap) option) \<Rightarrow> kstate \<Rightarrow> heap \<Rightarrow> ('a outcome \<times> kstate \<times> heap) option" where
  "locked f s h = do {
    (level, s) \<leftarrow> heap_lock s;
    case level of
      Blocked \<Rightarrow> Some (Blocked, s, h)
    | Return level \<Rightarrow> do { (r, s, h) \<leftarrow> under_lock level f s h; Some (Return r, s, h) } }"

definition locked_resume :: "addr \<Rightarrow> (kstate \<Rightarrow> heap \<Rightarrow> ('a \<times> heap) option) \<Rightarrow> kstate \<Rightarrow> heap \<Rightarrow> ('a \<times> kstate \<times> heap) option" where
  "locked_resume thread f s h = do {
    (level, s) \<leftarrow> mutex_take_resume heap_mutex thread s;
    under_lock level f s h }"

section \<open>The operations\<close>

definition rt_system_heap_init :: "u32 \<Rightarrow> u32 \<Rightarrow> kstate \<Rightarrow> heap \<Rightarrow> (kstate \<times> heap) option" where
  "rt_system_heap_init begin_addr end_addr s h = do {
    let begin_align = RT_ALIGN begin_addr RT_ALIGN_SIZE;
    let end_align = RT_ALIGN_DOWN end_addr RT_ALIGN_SIZE;
    RT_ASSERT (end_align > begin_align);
    (p, s, h) \<leftarrow> rt_smem_init [0x68, 0x65, 0x61, 0x70, 0] begin_addr (end_align - begin_align) s h;
    let h = h\<lparr>system_heap := p\<rparr>;
    s \<leftarrow> heap_lock_init s;
    Some (s, h) }"

definition heap_alloc :: "u32 \<Rightarrow> kstate \<Rightarrow> heap \<Rightarrow> (addr option \<times> heap) option" where
  "heap_alloc sz s h = do { p \<leftarrow> system_heap h; rt_smem_alloc p sz s h }"

definition heap_realloc :: "addr option \<Rightarrow> u32 \<Rightarrow> kstate \<Rightarrow> heap \<Rightarrow> (addr option \<times> heap) option" where
  "heap_realloc ptr newsize s h = do { p \<leftarrow> system_heap h; rt_smem_realloc p ptr newsize s h }"

definition heap_free :: "addr \<Rightarrow> kstate \<Rightarrow> heap \<Rightarrow> (unit \<times> heap) option" where
  "heap_free ptr s h = do { h \<leftarrow> rt_smem_free (Some ptr) s h; Some ((), h) }"

definition smem_info :: "kstate \<Rightarrow> heap \<Rightarrow> ((u32 \<times> u32 \<times> u32) \<times> heap) option" where
  "smem_info s h = do {
    p \<leftarrow> system_heap h;
    m \<leftarrow> h_pools h p;
    Some ((sm_total m, sm_used m, sm_max m), h) }"

definition rt_malloc :: "u32 \<Rightarrow> kstate \<Rightarrow> heap \<Rightarrow> (addr option outcome \<times> kstate \<times> heap) option" where
  "rt_malloc sz s h = locked (heap_alloc sz) s h"

definition rt_malloc_resume :: "addr \<Rightarrow> u32 \<Rightarrow> kstate \<Rightarrow> heap \<Rightarrow> (addr option \<times> kstate \<times> heap) option" where
  "rt_malloc_resume thread sz s h = locked_resume thread (heap_alloc sz) s h"

definition rt_realloc :: "addr option \<Rightarrow> u32 \<Rightarrow> kstate \<Rightarrow> heap \<Rightarrow> (addr option outcome \<times> kstate \<times> heap) option" where
  "rt_realloc ptr newsize s h = locked (heap_realloc ptr newsize) s h"

definition rt_realloc_resume :: "addr \<Rightarrow> addr option \<Rightarrow> u32 \<Rightarrow> kstate \<Rightarrow> heap \<Rightarrow> (addr option \<times> kstate \<times> heap) option" where
  "rt_realloc_resume thread ptr newsize s h = locked_resume thread (heap_realloc ptr newsize) s h"

definition rt_free :: "addr option \<Rightarrow> kstate \<Rightarrow> heap \<Rightarrow> (unit outcome \<times> kstate \<times> heap) option" where
  "rt_free ptr s h = (case ptr of
      None \<Rightarrow> Some (Return (), s, h)
    | Some ptr \<Rightarrow> locked (heap_free ptr) s h)"

definition rt_free_resume :: "addr \<Rightarrow> addr \<Rightarrow> kstate \<Rightarrow> heap \<Rightarrow> (unit \<times> kstate \<times> heap) option" where
  "rt_free_resume thread ptr s h = locked_resume thread (heap_free ptr) s h"

definition rt_memory_info :: "kstate \<Rightarrow> heap \<Rightarrow> ((u32 \<times> u32 \<times> u32) outcome \<times> kstate \<times> heap) option" where
  "rt_memory_info s h = locked smem_info s h"

text \<open>What \<open>rt_calloc\<close> and \<open>rt_malloc_align\<close> do with the block.\<close>

definition zeroed :: "u32 \<Rightarrow> u32 \<Rightarrow> addr option \<Rightarrow> heap \<Rightarrow> heap" where
  "zeroed count sz p h = (case p of
      None \<Rightarrow> h
    | Some p \<Rightarrow> h\<lparr>h_mem := rt_memset (h_mem h) p 0 (unat (count * sz))\<rparr>)"

definition rt_calloc :: "u32 \<Rightarrow> u32 \<Rightarrow> kstate \<Rightarrow> heap \<Rightarrow> (addr option outcome \<times> kstate \<times> heap) option" where
  "rt_calloc count sz s h = do {
    (p, s, h) \<leftarrow> rt_malloc (count * sz) s h;
    case p of
      Blocked \<Rightarrow> Some (Blocked, s, h)
    | Return p \<Rightarrow> Some (Return p, s, zeroed count sz p h) }"

definition rt_calloc_resume :: "addr \<Rightarrow> u32 \<Rightarrow> u32 \<Rightarrow> kstate \<Rightarrow> heap \<Rightarrow> (addr option \<times> kstate \<times> heap) option" where
  "rt_calloc_resume thread count sz s h = do {
    (p, s, h) \<leftarrow> rt_malloc_resume thread (count * sz) s h;
    Some (p, s, zeroed count sz p h) }"

text \<open>The sizes rounded up to the size of a pointer.\<close>

definition align_up :: "u32 \<Rightarrow> u32" where
  "align_up n = (n + 3) AND NOT 3"

definition align_block :: "u32 \<Rightarrow> addr option \<Rightarrow> heap \<Rightarrow> addr option \<times> heap" where
  "align_block align ptr h = (case ptr of
      None \<Rightarrow> (None, h)
    | Some ptr \<Rightarrow>
        let p = of_nat ptr :: u32;
            align_ptr = (if p AND (align - 1) = 0 then p + align else (p + (align - 1)) AND NOT (align - 1))
        in (Some (unat align_ptr), h\<lparr>h_mem := store_word (h_mem h) (unat (align_ptr - 4)) p\<rparr>))"

definition rt_malloc_align :: "u32 \<Rightarrow> u32 \<Rightarrow> kstate \<Rightarrow> heap \<Rightarrow> (addr option outcome \<times> kstate \<times> heap) option" where
  "rt_malloc_align sz align s h = (
    let align = align_up align;
        align_size = align_up sz + align
    in do {
      (p, s, h) \<leftarrow> rt_malloc align_size s h;
      case p of
        Blocked \<Rightarrow> Some (Blocked, s, h)
      | Return p \<Rightarrow> (let (p, h) = align_block align p h in Some (Return p, s, h)) })"

definition rt_free_align :: "addr option \<Rightarrow> kstate \<Rightarrow> heap \<Rightarrow> (unit outcome \<times> kstate \<times> heap) option" where
  "rt_free_align ptr s h = (case ptr of
      None \<Rightarrow> Some (Return (), s, h)
    | Some ptr \<Rightarrow> (let real_ptr = load_word (h_mem h) (unat (of_nat ptr - 4 :: u32))
        in rt_free (if real_ptr = 0 then None else Some (unat real_ptr)) s h))"

end
