(* ===== verification/SmallMemRep.thy ===== *)
theory SmallMemRep
  imports SmallMem
begin

text \<open>
  The heap as a list of blocks: each is a length, the header included, and a flag that says
  whether it is used. \<open>rep\<close> relates this list to the bytes of the memory and the fields of the
  pool, and the steps of the allocator are proved to keep it.
\<close>

section \<open>Words in memory\<close>

lemma load_store [simp]: "load_word (store_word m a w) a = w"
proof (rule bit_word_eqI)
  fix n assume "n < LENGTH(32)"
  then show "bit (load_word (store_word m a w) a) n = bit w n"
    by (cases "n < 8"; cases "n < 16"; cases "n < 24") (auto simp: load_word_def store_word_def bit_simps)
qed

lemma load_store_other: "a + 4 \<le> b \<or> b + 4 \<le> a \<Longrightarrow> load_word (store_word m a w) b = load_word m b"
  by (auto simp: load_word_def store_word_def)

lemma store_other: "b < a \<or> a + 4 \<le> b \<Longrightarrow> store_word m a w b = m b"
  by (auto simp: store_word_def)

definition apart :: "addr \<Rightarrow> addr \<Rightarrow> bool" where
  "apart a b \<longleftrightarrow> a + 12 \<le> b \<or> b + 12 \<le> a"

lemmas item_defs = item_pool_ptr_def item_next_def item_prev_def set_pool_ptr_def set_next_def set_prev_def

lemma item_set [simp]:
  "item_pool_ptr (h_mem (set_pool_ptr a v h)) a = v"
  "item_next (h_mem (set_pool_ptr a v h)) a = item_next (h_mem h) a"
  "item_prev (h_mem (set_pool_ptr a v h)) a = item_prev (h_mem h) a"
  "item_pool_ptr (h_mem (set_next a v h)) a = item_pool_ptr (h_mem h) a"
  "item_next (h_mem (set_next a v h)) a = v"
  "item_prev (h_mem (set_next a v h)) a = item_prev (h_mem h) a"
  "item_pool_ptr (h_mem (set_prev a v h)) a = item_pool_ptr (h_mem h) a"
  "item_next (h_mem (set_prev a v h)) a = item_next (h_mem h) a"
  "item_prev (h_mem (set_prev a v h)) a = v"
  by (simp_all add: item_defs load_store_other)

lemma item_set_other:
  assumes "apart a b"
  shows "item_pool_ptr (h_mem (set_pool_ptr a v h)) b = item_pool_ptr (h_mem h) b"
    "item_next (h_mem (set_pool_ptr a v h)) b = item_next (h_mem h) b"
    "item_prev (h_mem (set_pool_ptr a v h)) b = item_prev (h_mem h) b"
    "item_pool_ptr (h_mem (set_next a v h)) b = item_pool_ptr (h_mem h) b"
    "item_next (h_mem (set_next a v h)) b = item_next (h_mem h) b"
    "item_prev (h_mem (set_next a v h)) b = item_prev (h_mem h) b"
    "item_pool_ptr (h_mem (set_prev a v h)) b = item_pool_ptr (h_mem h) b"
    "item_next (h_mem (set_prev a v h)) b = item_next (h_mem h) b"
    "item_prev (h_mem (set_prev a v h)) b = item_prev (h_mem h) b"
  using assms by (auto simp: item_defs apart_def intro!: load_store_other)

lemma byte_set_other:
  assumes "b < a \<or> a + 12 \<le> b"
  shows "h_mem (set_pool_ptr a v h) b = h_mem h b" "h_mem (set_next a v h) b = h_mem h b"
    "h_mem (set_prev a v h) b = h_mem h b"
  using assms by (auto simp: item_defs intro!: store_other)

lemma set_pools [simp]:
  "h_pools (set_pool_ptr a v h) = h_pools h" "h_pools (set_next a v h) = h_pools h" "h_pools (set_prev a v h) = h_pools h"
  by (simp_all add: item_defs)

lemma upd_pool_Some [simp]: "h_pools h p = Some m \<Longrightarrow> upd_pool p f h = Some (h\<lparr>h_pools := (h_pools h)(p \<mapsto> f m)\<rparr>)"
  by (simp add: upd_pool_def upd_def)

section \<open>Headers\<close>

text \<open>A pool is at an even address, so the lowest bit of \<open>pool_ptr\<close> is free for the flag.\<close>

definition tag :: "addr \<Rightarrow> bool \<Rightarrow> u32" where
  "tag p u = (if u then MEM_USED p else MEM_FREED p)"

lemma mask_e: "(0xfffffffe :: u32) = NOT 1" "NOT (0xfffffffe :: u32) = 1"
proof -
  show "(0xfffffffe :: u32) = NOT 1" by simp
  then show "NOT (0xfffffffe :: u32) = 1" by (simp only: bit.double_compl)
qed

lemma bit_mask_e: "bit (0xfffffffe :: u32) n \<longleftrightarrow> 0 < n \<and> n < 32"
  unfolding mask_e by (auto simp: bit_simps)

lemma bit_tag_0: "bit (tag p u) 0 = u"
  by (simp add: tag_def MEM_USED_def MEM_FREED_def bit_or_iff bit_and_iff bit_mask_e)

lemma tag_used [simp]: "tag p u AND NOT MEM_MASK \<noteq> 0 \<longleftrightarrow> u"
proof -
  have "tag p u AND 1 \<noteq> 0 \<longleftrightarrow> bit (tag p u) 0" by (simp add: and_one_eq bit_0 odd_iff_mod_2_eq_one)
  then show ?thesis unfolding mask_e(2) by (simp add: bit_tag_0)
qed

lemma tag_pool:
  assumes "even p" and "p < 2 ^ 32"
  shows "unat (tag p u AND MEM_MASK) = p"
proof -
  have "tag p u AND MEM_MASK = (of_nat p :: u32)"
  proof (rule bit_word_eqI)
    fix n assume n: "n < LENGTH(32)"
    have "\<not> bit (of_nat p :: u32) 0" using assms(1) by (simp add: bit_0)
    with n show "bit (tag p u AND MEM_MASK) n = bit (of_nat p :: u32) n"
      unfolding tag_def MEM_USED_def MEM_FREED_def mask_e by (cases "n = 0") (auto simp: bit_and_iff bit_or_iff bit_not_iff bit_1_iff)
  qed
  then show ?thesis using assms(2) by (simp add: unat_of_nat)
qed

section \<open>Blocks\<close>

type_synonym block = "nat \<times> bool"

definition total :: "block list \<Rightarrow> nat" where "total bs = sum_list (map fst bs)"

lemma total_simps [simp]: "total [] = 0" "total (b # bs) = fst b + total bs" "total (xs @ ys) = total xs + total ys"
  by (simp_all add: total_def)

text \<open>A block has room for its header, and a used one for at least eight bytes.\<close>

definition block_ok :: "block \<Rightarrow> bool" where
  "block_ok b \<longleftrightarrow> 16 \<le> fst b \<and> (snd b \<longrightarrow> 24 \<le> fst b) \<and> fst b mod 8 = 0"

text \<open>The headers of the blocks, and the bytes of the used ones, by their offset.\<close>

fun heads :: "nat \<Rightarrow> block list \<Rightarrow> nat set" where
  "heads i [] = {}"
| "heads i (b # bs) = insert i (heads (i + fst b) bs)"

fun area :: "nat \<Rightarrow> block list \<Rightarrow> nat set" where
  "area i [] = {}"
| "area i (b # bs) = (if snd b then {i + 16..<i + fst b} else {}) \<union> area (i + fst b) bs"

lemma heads_append [simp]: "heads i (xs @ ys) = heads i xs \<union> heads (i + total xs) ys"
  by (induction xs arbitrary: i) (simp_all add: add.assoc)

lemma area_append [simp]: "area i (xs @ ys) = area i xs \<union> area (i + total xs) ys"
  by (induction xs arbitrary: i) (simp_all add: add.assoc Un_assoc)

lemma heads_range: "list_all block_ok bs \<Longrightarrow> x \<in> heads i bs \<Longrightarrow> i \<le> x \<and> x + 16 \<le> i + total bs"
proof (induction bs arbitrary: i)
  case (Cons b bs)
  have "x \<in> heads (i + fst b) bs \<Longrightarrow> i + fst b \<le> x \<and> x + 16 \<le> i + fst b + total bs" using Cons.IH Cons.prems(1) by simp
  with Cons.prems show ?case by (auto simp: block_ok_def)
qed simp

lemma area_range: "x \<in> area i bs \<Longrightarrow> i + 16 \<le> x \<and> x < i + total bs"
proof (induction bs arbitrary: i)
  case (Cons b bs)
  have "x \<in> area (i + fst b) bs \<Longrightarrow> i + fst b + 16 \<le> x \<and> x < i + fst b + total bs" by (rule Cons.IH)
  with Cons.prems show ?case by (auto split: if_splits)
qed simp

lemma heads_area:
  assumes "list_all block_ok bs" and "x \<in> heads i bs \<or> x = i + total bs" and "a \<in> area i bs"
  shows "a < x \<or> x + 16 \<le> a"
  using assms
proof (induction bs arbitrary: i)
  case (Cons b bs)
  have b: "16 \<le> fst b" using Cons.prems(1) by (simp add: block_ok_def)
  show ?case
  proof (cases "a \<in> area (i + fst b) bs")
    case True
    show ?thesis
    proof (cases "x = i")
      case True
      with area_range [OF \<open>a \<in> area (i + fst b) bs\<close>] b show ?thesis by simp
    next
      case False
      with Cons.prems(1,2) have "list_all block_ok bs" "x \<in> heads (i + fst b) bs \<or> x = i + fst b + total bs" by auto
      with Cons.IH True show ?thesis by blast
    qed
  next
    case False
    then have a: "i + 16 \<le> a" "a < i + fst b" using Cons.prems(3) by (auto split: if_splits)
    have "x = i \<or> i + fst b \<le> x" using Cons.prems(1,2) heads_range [of bs x "i + fst b"] by auto
    with a show ?thesis by auto
  qed
qed simp

lemma heads_apart:
  assumes "list_all block_ok (xs @ (l, u) # ys)" and "x \<in> heads 0 (xs @ (l, u) # ys) \<or> x = total (xs @ (l, u) # ys)"
    and "x \<noteq> total xs"
  shows "x + 16 \<le> total xs \<or> total xs + l \<le> x"
  using assms heads_range [of xs x 0] heads_range [of ys x "total xs + l"] by auto

section \<open>The chain of items\<close>

text \<open>The headers of a list of blocks from offset \<open>i\<close> on; \<open>q\<close> is the offset of the block before.\<close>

fun chain :: "mem \<Rightarrow> addr \<Rightarrow> addr \<Rightarrow> nat \<Rightarrow> nat \<Rightarrow> block list \<Rightarrow> bool" where
  "chain m p hp q i [] \<longleftrightarrow> True"
| "chain m p hp q i (b # bs) \<longleftrightarrow> item_pool_ptr m (hp + i) = tag p (snd b) \<and> item_next m (hp + i) = of_nat (i + fst b) \<and>
    item_prev m (hp + i) = of_nat q \<and> chain m p hp i (i + fst b) bs"

fun last_head :: "nat \<Rightarrow> nat \<Rightarrow> block list \<Rightarrow> nat" where
  "last_head q i [] = q"
| "last_head q i (b # bs) = last_head i (i + fst b) bs"

lemma last_head_snoc [simp]: "last_head q i (xs @ [b]) = i + total xs"
  by (induction xs arbitrary: q i) (simp_all add: add.assoc)

lemma item_chain_append [simp]:
  "chain m p hp q i (xs @ ys) \<longleftrightarrow> chain m p hp q i xs \<and> chain m p hp (last_head q i xs) (i + total xs) ys"
  by (induction xs arbitrary: q i) (simp_all add: add.assoc)

lemma item_chain_cong:
  assumes "\<And>x. x \<in> heads i bs \<Longrightarrow> item_pool_ptr m' (hp + x) = item_pool_ptr m (hp + x) \<and>
    item_next m' (hp + x) = item_next m (hp + x) \<and> item_prev m' (hp + x) = item_prev m (hp + x)"
  shows "chain m' p hp q i bs = chain m p hp q i bs"
  using assms by (induction bs arbitrary: q i) simp_all

text \<open>What lies before the first free block; no two free blocks are neighbours.\<close>

definition first_free :: "block list \<Rightarrow> nat" where "first_free bs = total (takeWhile snd bs)"

fun no_two_free :: "block list \<Rightarrow> bool" where
  "no_two_free (b # c # bs) \<longleftrightarrow> (snd b \<or> snd c) \<and> no_two_free (c # bs)"
| "no_two_free _ \<longleftrightarrow> True"

definition used_total :: "block list \<Rightarrow> nat" where "used_total bs = total (filter snd bs)"

lemma first_free_append: "first_free (xs @ ys) = (if list_all snd xs then total xs + first_free ys else first_free xs)"
  by (induction xs) (auto simp: first_free_def)

lemma first_free_simps [simp]: "first_free [] = 0" "first_free (b # bs) = (if snd b then fst b + first_free bs else 0)"
  by (simp_all add: first_free_def)

lemma first_free_le: "first_free bs \<le> total bs"
  by (induction bs) simp_all

lemma first_free_less: "list_all block_ok xs \<Longrightarrow> \<not> list_all snd xs \<Longrightarrow> first_free xs < total xs"
  by (induction xs) (auto simp: block_ok_def)

lemma used_total_simps [simp]: "used_total [] = 0" "used_total (b # bs) = (if snd b then fst b else 0) + used_total bs"
  "used_total (xs @ ys) = used_total xs + used_total ys"
  by (simp_all add: used_total_def)

lemma used_total_le: "used_total bs \<le> total bs"
  by (induction bs) auto

lemma no_two_free_append:
  "no_two_free (xs @ ys) \<longleftrightarrow> no_two_free xs \<and> no_two_free ys \<and> (xs \<noteq> [] \<and> ys \<noteq> [] \<longrightarrow> snd (last xs) \<or> snd (hd ys))"
proof (induction xs)
  case (Cons b xs)
  then show ?case by (cases xs; cases ys) auto
qed (cases ys; simp)

section \<open>The representation\<close>

text \<open>The memory, the pool and the blocks agree; \<open>rep0\<close> allows two free neighbours.\<close>

definition pool_at :: "addr \<Rightarrow> block list \<Rightarrow> rt_small_mem \<Rightarrow> bool" where
  "pool_at p bs m \<longleftrightarrow> p mod 8 = 0 \<and> 0 < p \<and> sm_heap_ptr m = p + 56 \<and> 16 \<le> total bs \<and>
    sm_heap_ptr m + total bs + 16 \<le> 2 ^ 32 \<and> unat (sm_mem_size_aligned m) = total bs - 16 \<and>
    sm_heap_end m = sm_heap_ptr m + total bs \<and> list_all block_ok bs"

definition ends_at :: "addr \<Rightarrow> addr \<Rightarrow> nat \<Rightarrow> mem \<Rightarrow> bool" where
  "ends_at p hp n mem \<longleftrightarrow> item_pool_ptr mem (hp + n) = tag p True \<and> item_next mem (hp + n) = of_nat n"

definition rep0 :: "addr \<Rightarrow> block list \<Rightarrow> heap \<Rightarrow> bool" where
  "rep0 p bs h \<longleftrightarrow> (\<exists>m. h_pools h p = Some m \<and> pool_at p bs m \<and> chain (h_mem h) p (sm_heap_ptr m) 0 0 bs \<and>
    ends_at p (sm_heap_ptr m) (total bs) (h_mem h) \<and> sm_lfree m = sm_heap_ptr m + first_free bs \<and>
    sm_used m = of_nat (used_total bs) \<and> sm_used m \<le> sm_max m)"

definition rep :: "addr \<Rightarrow> block list \<Rightarrow> heap \<Rightarrow> bool" where
  "rep p bs h \<longleftrightarrow> rep0 p bs h \<and> no_two_free bs"

text \<open>The bytes of the blocks that stay in use are left alone.\<close>

definition kept :: "addr \<Rightarrow> nat set \<Rightarrow> heap \<Rightarrow> heap \<Rightarrow> bool" where
  "kept p A h h' \<longleftrightarrow> (\<exists>m m'. h_pools h p = Some m \<and> h_pools h' p = Some m' \<and> sm_heap_ptr m' = sm_heap_ptr m \<and>
    (\<forall>a\<in>A. h_mem h' (sm_heap_ptr m + a) = h_mem h (sm_heap_ptr m + a)))"

end
