(* ===== verification/SmallMemOps.thy ===== *)
theory SmallMemOps
  imports SmallMemRep
begin

text \<open>The steps of the allocator on the blocks.\<close>

lemma u32_of_nat: "n < 2 ^ 32 \<Longrightarrow> unat (of_nat n :: u32) = n"
  by (simp add: unat_of_nat)

lemma u32_of_nat_eq: "m < 2 ^ 32 \<Longrightarrow> n < 2 ^ 32 \<Longrightarrow> (of_nat m :: u32) = of_nat n \<longleftrightarrow> m = n"
  using u32_of_nat by metis

lemma offset_of_item: "sm_heap_ptr m + i < 2 ^ 32 \<Longrightarrow> offset_of m (sm_heap_ptr m + i) = of_nat i"
  by (simp add: offset_of_def)

lemma item_at_of_nat: "i < 2 ^ 32 \<Longrightarrow> item_at m (of_nat i) = sm_heap_ptr m + i"
  by (simp add: item_at_def u32_of_nat)

text \<open>What a step changes outside the blocks it is about.\<close>

definition same_item :: "mem \<Rightarrow> mem \<Rightarrow> addr \<Rightarrow> bool" where
  "same_item m m' a \<longleftrightarrow> item_pool_ptr m' a = item_pool_ptr m a \<and> item_next m' a = item_next m a \<and> item_prev m' a = item_prev m a"

lemma chain_same: "(\<And>x. x \<in> heads i bs \<Longrightarrow> same_item m m' (hp + x)) \<Longrightarrow> chain m p hp q i bs \<Longrightarrow> chain m' p hp q i bs"
  using item_chain_cong [of i bs m' hp m p q] by (auto simp: same_item_def)

text \<open>The chain behind a change: only the first header has a new predecessor.\<close>

lemma chain_behind:
  assumes "chain m p hp q i ys" and "list_all block_ok ys"
    and "ys \<noteq> [] \<Longrightarrow> item_pool_ptr m' (hp + i) = item_pool_ptr m (hp + i) \<and> item_next m' (hp + i) = item_next m (hp + i) \<and>
      item_prev m' (hp + i) = of_nat q'"
    and "\<And>x. i + 16 \<le> x \<Longrightarrow> x \<in> heads i ys \<Longrightarrow> same_item m m' (hp + x)"
  shows "chain m' p hp q' i ys"
proof (cases ys)
  case (Cons b zs)
  have "16 \<le> fst b" using assms(2) Cons by (simp add: block_ok_def)
  have "chain m' p hp i (i + fst b) zs"
  proof (rule chain_same)
    show "chain m p hp i (i + fst b) zs" using assms(1) Cons by simp
    show "same_item m m' (hp + x)" if x: "x \<in> heads (i + fst b) zs" for x
    proof (rule assms(4))
      have "i + fst b \<le> x" using heads_range [of zs x "i + fst b"] x assms(2) Cons by simp
      then show "i + 16 \<le> x" using \<open>16 \<le> fst b\<close> by simp
      show "x \<in> heads i ys" using x Cons by simp
    qed
  qed
  then show ?thesis using assms(1,3) Cons by simp
qed simp

lemma split_item_spec:
  assumes po: "pool_at p (xs @ (l, u) # ys) m" and ch: "chain (h_mem h) p (sm_heap_ptr m) 0 0 (xs @ (l, u) # ys)"
    and en: "ends_at p (sm_heap_ptr m) (total (xs @ (l, u) # ys)) (h_mem h)"
    and k: "16 \<le> k" "k + 16 \<le> l"
  defines "h' \<equiv> split_item p m (of_nat (total xs)) (of_nat (total xs + k)) h"
  shows "chain (h_mem h') p (sm_heap_ptr m) 0 0 (xs @ (k, u) # (l - k, False) # ys)"
    and "ends_at p (sm_heap_ptr m) (total (xs @ (l, u) # ys)) (h_mem h')" and "h_pools h' = h_pools h"
    and "\<And>a. a \<in> area 0 xs \<or> total xs + 16 \<le> a \<and> a < total xs + k \<or> a \<in> area (total xs + l) ys \<Longrightarrow>
      h_mem h' (sm_heap_ptr m + a) = h_mem h (sm_heap_ptr m + a)"
proof -
  let ?hp = "sm_heap_ptr m" and ?i = "total xs" and ?T = "total (xs @ (l, u) # ys)"
  have T: "?hp + ?T + 16 \<le> 2 ^ 32" and ok: "list_all block_ok xs" "list_all block_ok ys" "16 \<le> l"
    and sz: "unat (sm_mem_size_aligned m) = ?T - 16"
    using po by (auto simp: pool_at_def block_ok_def)
  have b: "?i < 2 ^ 32" "?i + k < 2 ^ 32" "?i + l < 2 ^ 32" "?T < 2 ^ 32" using T k by simp_all
  have nx: "item_next (h_mem h) (?hp + ?i) = of_nat (?i + l)" using ch by simp
  have M: "sm_mem_size_aligned m + 16 = of_nat ?T"
  proof -
    have "sm_mem_size_aligned m = of_nat (?T - 16)" using sz by (metis of_nat_unat ucast_id)
    then show ?thesis using ok(3) by (simp add: of_nat_diff)
  qed
  define h1 where "h1 = set_next (?hp + ?i) (of_nat (?i + k))
    (set_prev (?hp + (?i + k)) (of_nat ?i) (set_next (?hp + (?i + k)) (of_nat (?i + l)) (set_pool_ptr (?hp + (?i + k)) (MEM_FREED p) h)))"
  have nx': "item_next (h_mem (set_pool_ptr (?hp + (?i + k)) (MEM_FREED p) h)) (?hp + ?i) = of_nat (?i + l)"
    using nx k by (simp add: item_set_other apart_def)
  have n1: "item_next (h_mem h1) (?hp + (?i + k)) = of_nat (?i + l)"
    using k by (simp add: h1_def item_set_other apart_def)
  have h': "h' = (if ?i + l \<noteq> ?T then set_prev (?hp + (?i + l)) (of_nat (?i + k)) h1 else h1)"
    unfolding h'_def split_item_def item_at_of_nat [OF b(1)] item_at_of_nat [OF b(2)] Let_def nx' h1_def [symmetric] n1 M
      u32_of_nat_eq [OF b(3,4)] item_at_of_nat [OF b(3)] by simp
  have same: "same_item (h_mem h) (h_mem h') (?hp + x)" if "x + 16 \<le> ?i \<or> ?i + l + 16 \<le> x" for x
  proof -
    have "apart (?hp + ?i) (?hp + x)" "apart (?hp + (?i + k)) (?hp + x)" "apart (?hp + (?i + l)) (?hp + x)"
      using that k by (auto simp: apart_def)
    then show ?thesis by (simp add: h' h1_def same_item_def item_set_other)
  qed
  have ap: "apart (?hp + ?i) (?hp + (?i + k))" "apart (?hp + (?i + k)) (?hp + ?i)" "apart (?hp + (?i + l)) (?hp + ?i)"
    "apart (?hp + (?i + l)) (?hp + (?i + k))" "apart (?hp + ?i) (?hp + (?i + l))" "apart (?hp + (?i + k)) (?hp + (?i + l))"
    using k by (simp_all add: apart_def)
  show "chain (h_mem h') p ?hp 0 0 (xs @ (k, u) # (l - k, False) # ys)"
  proof -
    have "chain (h_mem h') p ?hp 0 0 xs"
    proof (rule chain_same)
      show "chain (h_mem h) p ?hp 0 0 xs" using ch by simp
      show "same_item (h_mem h) (h_mem h') (?hp + x)" if "x \<in> heads 0 xs" for x
        using heads_range [OF ok(1) that] by (intro same) simp
    qed
    moreover have "item_pool_ptr (h_mem h') (?hp + ?i) = tag p u" "item_next (h_mem h') (?hp + ?i) = of_nat (?i + k)"
        "item_prev (h_mem h') (?hp + ?i) = of_nat (last_head 0 0 xs)"
      using ch by (simp_all add: h' h1_def item_set_other ap)
    moreover have "item_pool_ptr (h_mem h') (?hp + (?i + k)) = tag p False" "item_next (h_mem h') (?hp + (?i + k)) = of_nat (?i + l)"
        "item_prev (h_mem h') (?hp + (?i + k)) = of_nat ?i"
      by (simp_all add: h' h1_def item_set_other ap tag_def)
    moreover have "chain (h_mem h') p ?hp (?i + k) (?i + l) ys"
    proof (rule chain_behind [where m = "h_mem h" and q = ?i])
      show "chain (h_mem h) p ?hp ?i (?i + l) ys" using ch by simp
      show "list_all block_ok ys" by (rule ok(2))
      show "item_pool_ptr (h_mem h') (?hp + (?i + l)) = item_pool_ptr (h_mem h) (?hp + (?i + l)) \<and>
          item_next (h_mem h') (?hp + (?i + l)) = item_next (h_mem h) (?hp + (?i + l)) \<and>
          item_prev (h_mem h') (?hp + (?i + l)) = of_nat (?i + k)" if "ys \<noteq> []"
      proof -
        have "total ys \<noteq> 0" using that ok(2) by (cases ys) (auto simp: block_ok_def)
        then show ?thesis by (simp add: h' h1_def item_set_other ap)
      qed
      show "same_item (h_mem h) (h_mem h') (?hp + x)" if "?i + l + 16 \<le> x" for x using that by (intro same) simp
    qed
    ultimately show ?thesis using k by simp
  qed
  show "ends_at p ?hp ?T (h_mem h')"
  proof (cases "?i + l = ?T")
    case True
    then have "h' = h1" by (simp add: h')
    moreover have "ends_at p ?hp (?i + l) (h_mem h)" using en unfolding True [symmetric] .
    then have "ends_at p ?hp (?i + l) (h_mem h1)" by (simp add: ends_at_def h1_def item_set_other ap)
    ultimately show ?thesis unfolding True [symmetric] by simp
  next
    case False
    then have "?i + l + 16 \<le> ?T" using ok(2) by (cases ys) (auto simp: block_ok_def)
    with same [of ?T] en show ?thesis by (simp add: ends_at_def same_item_def)
  qed
  show "h_pools h' = h_pools h" by (simp add: h' h1_def)
  show "h_mem h' (?hp + a) = h_mem h (?hp + a)" if "a \<in> area 0 xs \<or> ?i + 16 \<le> a \<and> a < ?i + k \<or> a \<in> area (?i + l) ys" for a
  proof -
    have "a < ?i \<or> ?i + 16 \<le> a \<and> a < ?i + k \<or> ?i + l + 16 \<le> a"
      using that area_range [of a 0 xs] area_range [of a "?i + l" ys] by auto
    then show ?thesis using k by (auto simp: h' h1_def byte_set_other)
  qed
qed

section \<open>The search\<close>

text \<open>The first block from which \<open>n\<close> bytes can be taken: what is before, its length, what is behind.\<close>

fun fit :: "nat \<Rightarrow> block list \<Rightarrow> (block list \<times> nat \<times> block list) option" where
  "fit n [] = None"
| "fit n (b # bs) = (if \<not> snd b \<and> n + 16 \<le> fst b then Some ([], fst b, bs)
     else map_option (\<lambda>(xs, l, ys). (b # xs, l, ys)) (fit n bs))"

lemma fit_Some: "fit n bs = Some (xs, l, ys) \<Longrightarrow> bs = xs @ (l, False) # ys \<and> n + 16 \<le> l"
  by (induction bs arbitrary: xs) (auto split: if_splits)

lemma fit_None: "fit n bs = None \<longleftrightarrow> (\<forall>b\<in>set bs. \<not> snd b \<longrightarrow> fst b < n + 16)"
  by (induction bs) auto

lemma fit_used: "list_all snd xs \<Longrightarrow> fit n (xs @ ys) = map_option (\<lambda>(zs, r). (xs @ zs, r)) (fit n ys)"
  by (induction xs) (simp_all add: option.map_comp comp_def case_prod_unfold option.map_ident)

lemma MEM_ISUSED_tag: "item_pool_ptr m a = tag p u \<Longrightarrow> MEM_ISUSED m a = u"
  by (simp only: MEM_ISUSED_def tag_used)

lemma word_size: "j + 16 \<le> k \<Longrightarrow> k < 2 ^ 32 \<Longrightarrow> (of_nat k :: u32) - (of_nat j + 16) = of_nat (k - j - 16)"
  by (simp add: of_nat_diff)

lemma alloc_find_spec:
  assumes "chain mem p (sm_heap_ptr m) q i bs" and "list_all block_ok bs"
    and "i + total bs = unat (sm_mem_size_aligned m) + 16" and "unat sz \<le> unat (sm_mem_size_aligned m)"
    and "sm_heap_ptr m + (i + total bs) < 2 ^ 32"
  shows "alloc_find m mem sz (of_nat i) = Some (map_option (\<lambda>(xs, l, ys). of_nat (i + total xs)) (fit (unat sz) bs))"
  using assms
proof (induction bs arbitrary: q i)
  case Nil
  let ?M = "sm_mem_size_aligned m"
  have le: "sz \<le> ?M" using Nil.prems by (simp add: word_le_nat_alt)
  have "unat (of_nat i :: u32) = i" by (rule u32_of_nat) (use Nil.prems in simp)
  then have "unat (of_nat i :: u32) = unat ?M + 16" using Nil.prems(3) by (metis add_0_right total_simps(1))
  then have "\<not> (of_nat i :: u32) \<le> ?M - sz" by (simp add: word_le_nat_alt unat_minus_le [OF le])
  then show ?case by (simp add: alloc_find.simps)
next
  case (Cons b bs)
  let ?M = "sm_mem_size_aligned m"
  have le: "sz \<le> ?M" using Cons.prems by (simp add: word_le_nat_alt)
  have b: "16 \<le> fst b" using Cons.prems by (simp add: block_ok_def)
  have lt: "i < 2 ^ 32" "i + fst b < 2 ^ 32" using Cons.prems by simp_all
  have at: "item_at m (of_nat i) = sm_heap_ptr m + i" by (rule item_at_of_nat [OF lt(1)])
  have us: "MEM_ISUSED mem (sm_heap_ptr m + i) = snd b" and nx: "item_next mem (sm_heap_ptr m + i) = of_nat (i + fst b)"
    using Cons.prems(1) MEM_ISUSED_tag by simp_all
  have ui: "unat (of_nat i :: u32) = i" using lt by (simp add: u32_of_nat)
  have cond: "(of_nat i :: u32) \<le> ?M - sz \<longleftrightarrow> i + unat sz \<le> unat ?M"
    using Cons.prems(4) by (auto simp: word_le_nat_alt unat_minus_le [OF le] ui)
  have "(of_nat (i + fst b) :: u32) - (of_nat i + 16) = of_nat (fst b - 16)"
    using word_size [of i "i + fst b"] b lt(2) by simp
  moreover have "unat (of_nat (fst b - 16) :: u32) = fst b - 16" using lt(2) by (intro u32_of_nat) simp
  ultimately have sz: "sz \<le> of_nat (i + fst b) - (of_nat i + 16) \<longleftrightarrow> unat sz + 16 \<le> fst b"
    using b by (auto simp: word_le_nat_alt)
  have IH: "alloc_find m mem sz (of_nat (i + fst b)) = Some (map_option (\<lambda>(xs, l, ys). of_nat (i + fst b + total xs)) (fit (unat sz) bs))"
    by (rule Cons.IH [of i]) (use Cons.prems in simp_all)
  show ?case
  proof (cases "i + unat sz \<le> unat ?M")
    case True
    show ?thesis
      by (subst alloc_find.simps) (simp add: Let_def cond True at us nx sz IH option.map_comp comp_def case_prod_unfold add.assoc del: of_nat_add)
  next
    case False
    have "fit (unat sz) (b # bs) = None"
      unfolding fit_None
    proof (intro ballI impI)
      fix c assume "c \<in> set (b # bs)"
      then have "fst c \<le> total (b # bs)" unfolding total_def by (intro member_le_sum_list) auto
      with False Cons.prems(3) show "fst c < unat sz + 16" by linarith
    qed
    then show ?thesis using False by (subst alloc_find.simps) (simp add: cond)
  qed
qed

lemma next_lfree_spec:
  assumes "chain mem p (sm_heap_ptr m) q i bs" and "list_all block_ok bs"
    and "sm_heap_end m = sm_heap_ptr m + (i + total bs)" and "i + total bs < 2 ^ 32"
  shows "next_lfree m mem (sm_heap_ptr m + i) = Some (sm_heap_ptr m + (i + first_free bs))"
  using assms
proof (induction bs arbitrary: q i)
  case Nil
  then show ?case by (simp add: next_lfree.simps)
next
  case (Cons b bs)
  have b: "16 \<le> fst b" using Cons.prems by (simp add: block_ok_def)
  have us: "MEM_ISUSED mem (sm_heap_ptr m + i) = snd b" and nx: "item_next mem (sm_heap_ptr m + i) = of_nat (i + fst b)"
    using Cons.prems(1) MEM_ISUSED_tag by simp_all
  have at: "item_at m (of_nat (i + fst b)) = sm_heap_ptr m + (i + fst b)" by (rule item_at_of_nat) (use Cons.prems in simp)
  have IH: "next_lfree m mem (sm_heap_ptr m + (i + fst b)) = Some (sm_heap_ptr m + (i + fst b + first_free bs))"
    by (rule Cons.IH [of i]) (use Cons.prems in simp_all)
  show ?case using b Cons.prems(3) by (subst next_lfree.simps) (simp add: us nx at IH add.assoc del: of_nat_add)
qed

end
