(* ===== verification/SmallMemAlloc.thy ===== *)
theory SmallMemAlloc
  imports SmallMemOps
begin

text \<open>Allocation is first fit over the blocks.\<close>

lemma pool_atD:
  assumes "pool_at p bs m"
  shows "even p" "p < 2 ^ 32" "0 < p" "sm_heap_ptr m mod 8 = 0" "16 \<le> total bs" "sm_heap_ptr m + total bs + 16 \<le> 2 ^ 32"
    "56 < sm_heap_ptr m" "unat (sm_mem_size_aligned m) = total bs - 16" "sm_heap_end m = sm_heap_ptr m + total bs" "list_all block_ok bs"
  using assms by (auto simp: pool_at_def)

lemma total_mod: "list_all block_ok bs \<Longrightarrow> total bs mod 8 = 0"
  by (induction bs) (auto simp: block_ok_def)

lemma first_free_here: "list_all block_ok xs \<Longrightarrow> first_free (xs @ (l, False) # ys) = total xs \<longleftrightarrow> list_all snd xs"
  using first_free_less [of xs] by (auto simp: first_free_append)

lemma first_free_unused:
  "chain mem p hp q i bs \<Longrightarrow> first_free bs \<noteq> total bs \<Longrightarrow> \<not> MEM_ISUSED mem (hp + (i + first_free bs))"
proof (induction bs arbitrary: q i)
  case (Cons b bs)
  have "MEM_ISUSED mem (hp + i) = snd b" using Cons.prems(1) MEM_ISUSED_tag by simp
  with Cons.prems Cons.IH [of i "i + fst b"] show ?case by (simp add: add.assoc split: if_splits)
qed simp

section \<open>Marking a block\<close>

lemma mark_spec:
  fixes v :: bool
  assumes ok: "list_all block_ok (xs @ (k, u) # ys)" and ch: "chain (h_mem h) p hp 0 0 (xs @ (k, u) # ys)"
    and en: "ends_at p hp (total xs + k + total ys) (h_mem h)"
  defines "h' \<equiv> set_pool_ptr (hp + total xs) (tag p v) h"
  shows "chain (h_mem h') p hp 0 0 (xs @ (k, v) # ys)" and "ends_at p hp (total xs + k + total ys) (h_mem h')"
    and "h_pools h' = h_pools h" and "\<And>a. a < total xs \<or> total xs + 16 \<le> a \<Longrightarrow> h_mem h' (hp + a) = h_mem h (hp + a)"
proof -
  let ?i = "total xs"
  have k: "16 \<le> k" and o: "list_all block_ok xs" "list_all block_ok ys" using ok by (simp_all add: block_ok_def)
  have same: "same_item (h_mem h) (h_mem h') (hp + x)" if "x + 16 \<le> ?i \<or> ?i + 16 \<le> x" for x
  proof -
    have "apart (hp + ?i) (hp + x)" using that by (auto simp: apart_def)
    then show ?thesis by (simp add: h'_def same_item_def item_set_other)
  qed
  have "chain (h_mem h') p hp 0 0 xs"
  proof (rule chain_same)
    show "chain (h_mem h) p hp 0 0 xs" using ch by simp
    show "same_item (h_mem h) (h_mem h') (hp + x)" if "x \<in> heads 0 xs" for x
      using heads_range [OF o(1) that] by (intro same) simp
  qed
  moreover have "chain (h_mem h') p hp ?i (?i + k) ys"
  proof (rule chain_same)
    show "chain (h_mem h) p hp ?i (?i + k) ys" using ch by simp
    show "same_item (h_mem h) (h_mem h') (hp + x)" if "x \<in> heads (?i + k) ys" for x
      using heads_range [OF o(2) that] k by (intro same) simp
  qed
  ultimately show "chain (h_mem h') p hp 0 0 (xs @ (k, v) # ys)" using ch by (simp add: h'_def)
  show "ends_at p hp (total xs + k + total ys) (h_mem h')"
    using en same [of "total xs + k + total ys"] k by (simp add: ends_at_def same_item_def)
  show "h_pools h' = h_pools h" by (simp add: h'_def)
  show "h_mem h' (hp + a) = h_mem h (hp + a)" if "a < total xs \<or> total xs + 16 \<le> a" for a
    using that by (auto simp: h'_def byte_set_other)
qed

section \<open>Taking a block\<close>

definition placed :: "nat \<Rightarrow> nat \<Rightarrow> block list" where
  "placed n l = (if n + 48 \<le> l then [(n + 16, True), (l - n - 16, False)] else [(l, True)])"

lemma placed_total: "n + 16 \<le> l \<Longrightarrow> total (placed n l) = l"
  by (simp add: placed_def)

lemma placed_ok: "block_ok (l, u) \<Longrightarrow> n mod 8 = 0 \<Longrightarrow> 16 \<le> n \<Longrightarrow> n + 16 \<le> l \<Longrightarrow> list_all block_ok (placed n l)"
  unfolding placed_def block_ok_def by (auto simp: mod_eq_0_iff_dvd intro!: dvd_diff_nat)

lemma no_two_free_placed:
  assumes "no_two_free (xs @ (l, False) # ys)"
  shows "no_two_free (xs @ placed n l @ ys)"
  using assms by (cases ys) (auto simp: no_two_free_append placed_def)

lemma alloc_at_spec:
  assumes rp: "rep p (xs @ (l, False) # ys) h" and n: "unat sz + 16 \<le> l" "16 \<le> unat sz" "unat sz mod 8 = 0"
    and m: "h_pools h p = Some m"
  shows "\<exists>h'. alloc_at p sz (of_nat (total xs)) h = Some (sm_heap_ptr m + total xs + 16, h') \<and>
    rep p (xs @ placed (unat sz) l @ ys) h' \<and> kept p (area 0 (xs @ (l, False) # ys)) h h'"
proof -
  let ?hp = "sm_heap_ptr m" and ?i = "total xs" and ?bs = "xs @ (l, False) # ys" and ?n = "unat sz"
  let ?bs' = "xs @ placed ?n l @ ys"
  have po: "pool_at p ?bs m" and ch: "chain (h_mem h) p ?hp 0 0 ?bs" and en: "ends_at p ?hp (total ?bs) (h_mem h)"
    and lf: "sm_lfree m = ?hp + first_free ?bs" and us: "sm_used m = of_nat (used_total ?bs)" and mx: "sm_used m \<le> sm_max m"
    and nf: "no_two_free ?bs"
    using rp m by (auto simp: rep_def rep0_def)
  note pd = pool_atD [OF po]
  have T: "?hp + (?i + l + total ys) + 16 \<le> 2 ^ 32" using pd(6) by (simp add: add.assoc)
  have b: "?i < 2 ^ 32" "?i + l < 2 ^ 32" using T by simp_all
  have ok: "list_all block_ok xs" "list_all block_ok ys" "block_ok (l, False)" using pd(10) by simp_all
  have at: "item_at m (of_nat ?i) = ?hp + ?i" by (rule item_at_of_nat [OF b(1)])
  have nx: "item_next (h_mem h) (?hp + ?i) = of_nat (?i + l)" using ch by simp
  have off: "offset_of m (?hp + ?i) = of_nat ?i" by (rule offset_of_item) (use T in simp)
  have "(of_nat (?i + l) :: u32) - (of_nat ?i + 16) = of_nat (l - 16)" using word_size [of ?i "?i + l"] n b(2) by simp
  moreover have "unat (of_nat (l - 16) :: u32) = l - 16" using b(2) by (intro u32_of_nat) simp
  moreover have "unat (sz + 16 + 16) = ?n + 32"
  proof -
    have "?n + 32 < 2 ^ 32" using T n pd(7) by simp
    then show ?thesis using unat_plus_less [of sz 32] by (simp add: add.assoc)
  qed
  ultimately have spl: "sz + 16 + 16 \<le> item_next (h_mem h) (?hp + ?i) - (of_nat ?i + 16) \<longleftrightarrow> ?n + 48 \<le> l"
    using n(1) unfolding nx by (simp add: word_le_nat_alt) linarith
  define k where "k = (if ?n + 48 \<le> l then ?n + 16 else l)"
  define zs where "zs = (if ?n + 48 \<le> l then (l - ?n - 16, False) # ys else ys)"
  define h1 where "h1 = (if ?n + 48 \<le> l then split_item p m (of_nat ?i) (of_nat (?i + (?n + 16))) h else h)"
  have pz: "placed ?n l @ ys = (k, True) # zs" and tz: "k + total zs = l + total ys" using n by (simp_all add: placed_def k_def zs_def)
  have okz: "list_all block_ok (xs @ (k, u) # zs)" for u
    using placed_ok [OF ok(3) n(3,2,1)] ok pz by (auto simp: block_ok_def k_def zs_def placed_def split: if_splits)
  have ch1: "chain (h_mem h1) p ?hp 0 0 (xs @ (k, False) # zs)" and en1: "ends_at p ?hp (total ?bs) (h_mem h1)"
    and p1: "h_pools h1 = h_pools h" and by1: "\<And>a. a \<in> area 0 ?bs \<Longrightarrow> h_mem h1 (?hp + a) = h_mem h (?hp + a)"
  proof -
    note s = split_item_spec [OF po ch en, of "?n + 16"]
    show "chain (h_mem h1) p ?hp 0 0 (xs @ (k, False) # zs)" "ends_at p ?hp (total ?bs) (h_mem h1)" "h_pools h1 = h_pools h"
      using s(1-3) ch en n by (simp_all add: h1_def k_def zs_def)
    show "h_mem h1 (?hp + a) = h_mem h (?hp + a)" if "a \<in> area 0 ?bs" for a
      using that s(4) [of a] n by (auto simp: h1_def)
  qed
  have e1: "ends_at p ?hp (?i + k + total zs) (h_mem h1)" using en1 tz by (simp add: add.assoc)
  define c where "c = count_used (of_nat k)"
  define h2 where "h2 = set_pool_ptr (?hp + ?i) (tag p True) (h1\<lparr>h_pools := (h_pools h)(p \<mapsto> c m)\<rparr>)"
  note mk = mark_spec [where v = True, OF okz, of "h1\<lparr>h_pools := (h_pools h)(p \<mapsto> c m)\<rparr>" p ?hp False]
  have ch2: "chain (h_mem h2) p ?hp 0 0 (xs @ (k, True) # zs)" and en2: "ends_at p ?hp (?i + k + total zs) (h_mem h2)"
    and p2: "h_pools h2 p = Some (c m)" and by2: "\<And>a. a \<in> area 0 ?bs \<Longrightarrow> h_mem h2 (?hp + a) = h_mem h (?hp + a)"
  proof -
    show "chain (h_mem h2) p ?hp 0 0 (xs @ (k, True) # zs)" "ends_at p ?hp (?i + k + total zs) (h_mem h2)" "h_pools h2 p = Some (c m)"
      using mk(1-3) ch1 e1 by (simp_all add: h2_def)
    show "h_mem h2 (?hp + a) = h_mem h (?hp + a)" if a: "a \<in> area 0 ?bs" for a
    proof -
      have "a < ?i \<or> ?i + 16 \<le> a" using heads_area [OF pd(10) _ a, of ?i] by auto
      then show ?thesis using mk(4) [of a] by1 [OF a] ch1 e1 by (simp add: h2_def)
    qed
  qed
  have cm: "sm_heap_ptr (c m) = ?hp" "sm_heap_end (c m) = sm_heap_end m" "sm_lfree (c m) = sm_lfree m"
    "sm_mem_size_aligned (c m) = sm_mem_size_aligned m" "sm_used (c m) = sm_used m + of_nat k" "sm_used (c m) \<le> sm_max (c m)"
    by (simp_all add: c_def count_used_def Let_def not_less)
  have used: "\<not> MEM_ISUSED (h_mem h) (?hp + ?i)" using ch MEM_ISUSED_tag by simp
  have step: "alloc_at p sz (of_nat ?i) h = do {
    h \<leftarrow> (if ?hp + ?i = sm_lfree m then do {
        l \<leftarrow> next_lfree m (h_mem h2) (sm_lfree m);
        h \<leftarrow> upd_pool p (\<lambda>m. m\<lparr>sm_lfree := l\<rparr>) h2;
        RT_ASSERT (l = sm_heap_end m \<or> \<not> MEM_ISUSED (h_mem h) l);
        Some h }
      else Some h2);
    RT_ASSERT (?hp + ?i + 16 + ?n \<le> sm_heap_end m);
    RT_ASSERT ((?hp + ?i + 16) mod 8 = 0);
    RT_ASSERT ((?hp + ?i) mod 8 = 0);
    Some (?hp + ?i + 16, h) }"
  proof -
    have w: "(of_nat ?i :: u32) + 16 + sz = of_nat (?i + (?n + 16))" by (simp add: add.commute)
    have w': "(of_nat (?n + 16) :: u32) = sz + 16" by simp
    have o: "(of_nat (?i + l) :: u32) - of_nat ?i = of_nat l" by simp
    have st: "(if sz + 16 + 16 \<le> item_next (h_mem h) (?hp + ?i) - (of_nat ?i + 16)
        then let h = split_item p m (of_nat ?i) (of_nat ?i + 16 + sz) h in upd_pool p (count_used (sz + 16)) h
        else upd_pool p (count_used (item_next (h_mem h) (?hp + ?i) - offset_of m (?hp + ?i))) h) =
      Some (h1\<lparr>h_pools := (h_pools h)(p \<mapsto> c m)\<rparr>)"
      unfolding spl w unfolding nx off o using m p1 by (cases "?n + 48 \<le> l") (simp_all add: h1_def c_def k_def w' del: of_nat_add)
    show ?thesis
      unfolding alloc_at_def m at Let_def Option.bind.bind_lunit st [unfolded Let_def] h2_def tag_def by simp
  qed
  have bs': "?bs' = xs @ (k, True) # zs" using pz by simp
  have lz: "?i + k + total zs = total ?bs" using tz by simp
  define f where "f = ?hp + first_free ?bs'"
  have lfree: "(if ?hp + ?i = sm_lfree m then next_lfree m (h_mem h2) (sm_lfree m) else Some (sm_lfree m)) = Some f"
  proof (cases "list_all snd xs")
    case True
    then have "sm_lfree m = ?hp + ?i" unfolding lf using first_free_here [OF ok(1), of l ys] by simp
    moreover have "next_lfree m (h_mem h2) (?hp + ?i) = Some (?hp + (?i + first_free ((k, True) # zs)))"
    proof (rule next_lfree_spec)
      show "chain (h_mem h2) p ?hp (last_head 0 0 xs) ?i ((k, True) # zs)" using ch2 by simp
      show "list_all block_ok ((k, True) # zs)" using okz [of True] by simp
      show "sm_heap_end m = ?hp + (?i + total ((k, True) # zs))" using pd(9) lz by simp
      show "?i + total ((k, True) # zs) < 2 ^ 32" using lz T by simp
    qed
    ultimately show ?thesis using True by (simp add: f_def bs' first_free_append)
  next
    case False
    then have "sm_lfree m \<noteq> ?hp + ?i" unfolding lf using first_free_here [OF ok(1), of l ys] by simp
    moreover have "first_free ?bs = first_free ?bs'" using False by (simp add: first_free_append)
    ultimately show ?thesis using lf by (simp add: f_def)
  qed
  define h3 where "h3 = h2\<lparr>h_pools := (h_pools h2)(p \<mapsto> (c m)\<lparr>sm_lfree := f\<rparr>)\<rparr>"
  have fu: "f = sm_heap_end m \<or> \<not> MEM_ISUSED (h_mem h2) f"
    using first_free_unused [OF ch2] pd(9) lz unfolding f_def bs' by (cases "first_free (xs @ (k, True) # zs) = total (xs @ (k, True) # zs)") simp_all
  have last: "?hp + ?i + 16 + ?n \<le> sm_heap_end m" "(?hp + ?i + 16) mod 8 = 0" "(?hp + ?i) mod 8 = 0"
    using pd(4,9) n(1) total_mod [OF ok(1)] by (simp, presburger+)
  have "alloc_at p sz (of_nat ?i) h = Some (?hp + ?i + 16, h3)"
  proof (cases "?hp + ?i = sm_lfree m")
    case True
    with lfree have "next_lfree m (h_mem h2) (sm_lfree m) = Some f" by simp
    then show ?thesis unfolding step using True p2 fu last by (simp add: h3_def)
  next
    case False
    with lfree have "f = sm_lfree (c m)" using cm by simp
    then have "h3 = h2" using p2 by (simp add: h3_def fun_upd_idem)
    then show ?thesis unfolding step using False last by simp
  qed
  moreover have "pool_at p ?bs' ((c m)\<lparr>sm_lfree := f\<rparr>)"
    using po okz [of True] lz unfolding bs' by (simp add: pool_at_def cm add.assoc)
  then have "rep0 p ?bs' h3"
    using ch2 en2 us cm n unfolding rep0_def bs' h3_def
    by (auto simp: f_def bs' k_def zs_def add.assoc add.commute)
  then have "rep p ?bs' h3" using no_two_free_placed [OF nf] by (simp add: rep_def)
  moreover have "kept p (area 0 ?bs) h h3" using m by2 by (simp add: kept_def h3_def cm)
  ultimately show ?thesis by blast
qed

end
