(* ===== verification/SmallMemFree.thy ===== *)
theory SmallMemFree
  imports SmallMemAlloc
begin

text \<open>Releasing a block merges it with its free neighbours.\<close>

section \<open>Joining two blocks\<close>

definition join :: "rt_small_mem \<Rightarrow> addr \<Rightarrow> addr \<Rightarrow> heap \<Rightarrow> heap" where
  "join m a b h = (let h = set_pool_ptr b 0 h; h = set_next a (item_next (h_mem h) b) h
     in set_prev (item_at m (item_next (h_mem h) b)) (offset_of m a) h)"

lemma join_spec:
  assumes po: "pool_at p (xs @ (l, u) # (k, v) # ys) m" and ch: "chain (h_mem h) p (sm_heap_ptr m) 0 0 (xs @ (l, u) # (k, v) # ys)"
    and en: "ends_at p (sm_heap_ptr m) (total (xs @ (l, u) # (k, v) # ys)) (h_mem h)"
  defines "h' \<equiv> join m (sm_heap_ptr m + total xs) (sm_heap_ptr m + (total xs + l)) h"
  shows "chain (h_mem h') p (sm_heap_ptr m) 0 0 (xs @ (l + k, u) # ys)"
    and "ends_at p (sm_heap_ptr m) (total (xs @ (l + k, u) # ys)) (h_mem h')" and "h_pools h' = h_pools h"
    and "\<And>a. a \<in> area 0 xs \<or> a \<in> area (total xs + (l + k)) ys \<Longrightarrow> h_mem h' (sm_heap_ptr m + a) = h_mem h (sm_heap_ptr m + a)"
proof -
  let ?hp = "sm_heap_ptr m" and ?i = "total xs"
  have T: "?hp + (?i + l + k + total ys) + 16 \<le> 2 ^ 32" using pool_atD(6) [OF po] by (simp add: add.assoc)
  have ok: "list_all block_ok xs" "list_all block_ok ys" "16 \<le> l" "16 \<le> k" using po by (auto simp: pool_at_def block_ok_def)
  have off: "offset_of m (?hp + ?i) = of_nat ?i" by (rule offset_of_item) (use T in simp)
  have at: "item_at m (of_nat (?i + l + k)) = ?hp + (?i + l + k)" by (rule item_at_of_nat) (use T in simp)
  have nx: "item_next (h_mem h) (?hp + (?i + l)) = of_nat (?i + l + k)" using ch by simp
  define h1 where "h1 = set_next (?hp + ?i) (of_nat (?i + l + k)) (set_pool_ptr (?hp + (?i + l)) 0 h)"
  have ap: "apart (?hp + ?i) (?hp + (?i + l))" "apart (?hp + (?i + l)) (?hp + ?i)" "apart (?hp + (?i + l + k)) (?hp + ?i)"
    "apart (?hp + ?i) (?hp + (?i + l + k))" "apart (?hp + (?i + l)) (?hp + (?i + l + k))"
    using ok(3,4) by (simp_all add: apart_def)
  have n1: "item_next (h_mem h1) (?hp + (?i + l)) = of_nat (?i + l + k)" unfolding h1_def by (simp only: item_set_other ap item_set nx)
  have h': "h' = set_prev (?hp + (?i + l + k)) (of_nat ?i) h1"
    unfolding h'_def join_def Let_def item_set nx h1_def [symmetric] n1 at off ..
  have same: "same_item (h_mem h) (h_mem h') (?hp + x)" if "x + 16 \<le> ?i \<or> ?i + l + k + 16 \<le> x" for x
  proof -
    have "apart (?hp + ?i) (?hp + x)" "apart (?hp + (?i + l)) (?hp + x)" "apart (?hp + (?i + l + k)) (?hp + x)"
      using that ok(3,4) by (auto simp: apart_def)
    then show ?thesis by (simp only: h' h1_def same_item_def item_set_other)
  qed
  have "chain (h_mem h') p ?hp 0 0 xs"
  proof (rule chain_same)
    show "chain (h_mem h) p ?hp 0 0 xs" using ch by simp
    show "same_item (h_mem h) (h_mem h') (?hp + x)" if "x \<in> heads 0 xs" for x
      using heads_range [OF ok(1) that] by (intro same) simp
  qed
  moreover have "item_pool_ptr (h_mem h') (?hp + ?i) = tag p u" "item_next (h_mem h') (?hp + ?i) = of_nat (?i + l + k)"
      "item_prev (h_mem h') (?hp + ?i) = of_nat (last_head 0 0 xs)"
    using ch unfolding h' h1_def by (simp_all only: item_set_other ap item_set) simp_all
  moreover have "chain (h_mem h') p ?hp ?i (?i + l + k) ys"
  proof (rule chain_behind [where m = "h_mem h" and q = "?i + l"])
    show "chain (h_mem h) p ?hp (?i + l) (?i + l + k) ys" using ch by simp
    show "list_all block_ok ys" by (rule ok(2))
    show "item_pool_ptr (h_mem h') (?hp + (?i + l + k)) = item_pool_ptr (h_mem h) (?hp + (?i + l + k)) \<and>
        item_next (h_mem h') (?hp + (?i + l + k)) = item_next (h_mem h) (?hp + (?i + l + k)) \<and>
        item_prev (h_mem h') (?hp + (?i + l + k)) = of_nat ?i"
      unfolding h' h1_def by (simp only: item_set item_set_other ap)
    show "same_item (h_mem h) (h_mem h') (?hp + x)" if "?i + l + k + 16 \<le> x" for x using that by (intro same) simp
  qed
  ultimately show "chain (h_mem h') p ?hp 0 0 (xs @ (l + k, u) # ys)" by (simp add: add.assoc)
  have "ends_at p ?hp (?i + l + k + total ys) (h_mem h')"
  proof (cases ys)
    case Nil
    have "ends_at p ?hp (?i + l + k) (h_mem h)" using en Nil by (simp add: add.assoc)
    then have "ends_at p ?hp (?i + l + k) (h_mem h')" unfolding h' h1_def ends_at_def by (simp only: item_set item_set_other ap)
    with Nil show ?thesis by simp
  next
    case (Cons b zs)
    then have "?i + l + k + 16 \<le> ?i + l + k + total ys" using ok(2) by (simp add: block_ok_def)
    with same [of "?i + l + k + total ys"] en show ?thesis by (simp add: ends_at_def same_item_def add.assoc)
  qed
  then show "ends_at p ?hp (total (xs @ (l + k, u) # ys)) (h_mem h')" by (simp add: add.assoc)
  show "h_pools h' = h_pools h" by (simp add: h' h1_def)
  show "h_mem h' (?hp + a) = h_mem h (?hp + a)" if "a \<in> area 0 xs \<or> a \<in> area (?i + (l + k)) ys" for a
  proof -
    have "a < ?i \<or> ?i + l + k + 16 \<le> a"
      using that area_range [of a 0 xs] area_range [of a "?i + (l + k)" ys] by auto
    then show ?thesis by (auto simp: h' h1_def byte_set_other)
  qed
qed

text \<open>The pool that stays, when two free blocks become one.\<close>

lemma rep0_join:
  assumes rp: "rep0 p (xs @ (l, False) # (k, False) # ys) h" and m: "h_pools h p = Some m"
  defines "h' \<equiv> join m (sm_heap_ptr m + total xs) (sm_heap_ptr m + (total xs + l)) h"
  shows "rep0 p (xs @ (l + k, False) # ys) h'" and "h_pools h' p = Some m"
    and "kept p (area 0 xs \<union> area (total xs + (l + k)) ys) h h'"
proof -
  let ?bs = "xs @ (l, False) # (k, False) # ys"
  have po: "pool_at p ?bs m" and ch: "chain (h_mem h) p (sm_heap_ptr m) 0 0 ?bs"
    and en: "ends_at p (sm_heap_ptr m) (total ?bs) (h_mem h)"
    and lf: "sm_lfree m = sm_heap_ptr m + first_free ?bs" "sm_used m = of_nat (used_total ?bs)" "sm_used m \<le> sm_max m"
    using rp m by (auto simp: rep0_def)
  note j = join_spec [OF po ch en, folded h'_def]
  show p: "h_pools h' p = Some m" using j(3) m by simp
  have "pool_at p (xs @ (l + k, False) # ys) m"
    using po by (auto simp: pool_at_def block_ok_def add.assoc mod_add_eq [symmetric])
  with j(1,2) p lf show "rep0 p (xs @ (l + k, False) # ys) h'" by (auto simp: rep0_def first_free_append)
  show "kept p (area 0 xs \<union> area (total xs + (l + k)) ys) h h'" using p m j(4) by (auto simp: kept_def)
qed

section \<open>Plugging the holes\<close>

text \<open>A block takes in a free successor; then the free predecessor takes in the block.\<close>

fun absorb :: "nat \<Rightarrow> block list \<Rightarrow> nat \<times> block list" where
  "absorb l [] = (l, [])"
| "absorb l (b # ys) = (if snd b then (l, b # ys) else (l + fst b, ys))"

definition attach :: "block list \<Rightarrow> nat \<Rightarrow> block list \<Rightarrow> block list" where
  "attach xs l ys = (if xs \<noteq> [] \<and> \<not> snd (last xs) then butlast xs @ (fst (last xs) + l, False) # ys else xs @ (l, False) # ys)"

definition released :: "block list \<Rightarrow> nat \<Rightarrow> block list \<Rightarrow> block list" where
  "released xs l ys = (let (k, zs) = absorb l ys in attach xs k zs)"

lemma rep0D:
  assumes "rep0 p bs h" and "h_pools h p = Some m"
  shows "pool_at p bs m" "chain (h_mem h) p (sm_heap_ptr m) 0 0 bs" "ends_at p (sm_heap_ptr m) (total bs) (h_mem h)"
    "sm_lfree m = sm_heap_ptr m + first_free bs" "sm_used m = of_nat (used_total bs)" "sm_used m \<le> sm_max m"
  using assms by (auto simp: rep0_def)

lemma kept_refl: "h_pools h p = Some m \<Longrightarrow> kept p A h h"
  by (simp add: kept_def)

lemma kept_trans: "kept p A h h1 \<Longrightarrow> kept p B h1 h2 \<Longrightarrow> A \<subseteq> B \<Longrightarrow> kept p A h h2"
  unfolding kept_def by fastforce

lemma kept_mono: "kept p B h h' \<Longrightarrow> A \<subseteq> B \<Longrightarrow> kept p A h h'"
  unfolding kept_def by blast

lemma first_free_le_free: "first_free (xs @ (l, False) # ys) \<le> total xs"
  using first_free_le [of xs] by (simp add: first_free_append)

lemma plug_forward_spec:
  assumes rp: "rep0 p (xs @ (l, False) # ys) h" and m: "h_pools h p = Some m"
  shows "\<exists>h' k zs. plug_forward p (sm_heap_ptr m + total xs) h = Some h' \<and> absorb l ys = (k, zs) \<and>
    rep0 p (xs @ (k, False) # zs) h' \<and> h_pools h' p = Some m \<and> kept p (area 0 (xs @ (l, False) # ys)) h h'"
proof -
  note r = rep0D [OF rp m]
  let ?hp = "sm_heap_ptr m" and ?i = "total xs"
  have T: "?hp + (?i + l + total ys) + 16 \<le> 2 ^ 32" using pool_atD(6) [OF r(1)] by (simp add: add.assoc)
  have l: "16 \<le> l" using r(1) by (simp add: pool_at_def block_ok_def)
  have nx: "item_next (h_mem h) (?hp + ?i) = of_nat (?i + l)" using r(2) by simp
  have at: "item_at m (of_nat (?i + l)) = ?hp + (?i + l)" by (rule item_at_of_nat) (use T in simp)
  have he: "sm_heap_end m = ?hp + (?i + (l + total ys))" using pool_atD(9) [OF r(1)] by simp
  have ne: "?hp + ?i \<noteq> ?hp + (?i + l)" using l by simp
  show ?thesis
  proof (cases ys)
    case Nil
    then have "plug_forward p (?hp + ?i) h = Some h"
      using m he unfolding plug_forward_def Let_def by (simp add: nx at del: of_nat_add)
    with Nil rp m show ?thesis by (auto intro: kept_refl)
  next
    case (Cons b zs)
    have us: "MEM_ISUSED (h_mem h) (?hp + (?i + l)) = snd b" using r(2) Cons MEM_ISUSED_tag by simp
    show ?thesis
    proof (cases "snd b")
      case True
      then have "plug_forward p (?hp + ?i) h = Some h"
        using m us unfolding plug_forward_def Let_def by (simp add: nx at del: of_nat_add)
      with True Cons rp m show ?thesis by (auto intro: kept_refl)
    next
      case False
      then obtain k where b: "b = (k, False)" by (cases b) simp
      have "16 \<le> total ys" using r(1) Cons by (simp add: pool_at_def block_ok_def)
      then have e: "?hp + (?i + l) \<noteq> sm_heap_end m" using he by simp
      have lf: "sm_lfree m \<noteq> ?hp + (?i + l)" using r(4) first_free_le_free [of xs l ys] l by simp
      have pf: "plug_forward p (?hp + ?i) h = Some (join m (?hp + ?i) (?hp + (?i + l)) h)"
        using m us False e lf ne unfolding plug_forward_def Let_def join_def by (simp add: nx at del: of_nat_add)
      have rp': "rep0 p (xs @ (l, False) # (k, False) # zs) h" using rp Cons b by simp
      note j = rep0_join [OF rp' m]
      have "kept p (area 0 (xs @ (l, False) # ys)) h (join m (?hp + ?i) (?hp + (?i + l)) h)"
        by (rule kept_mono [OF j(3)]) (auto simp: Cons b add.assoc)
      with pf j Cons b show ?thesis by auto
    qed
  qed
qed

lemma plug_backward_spec:
  assumes rp: "rep0 p (xs @ (l, False) # ys) h" and m: "h_pools h p = Some m"
  shows "\<exists>h'. plug_backward p (sm_heap_ptr m + total xs) h = Some h' \<and> rep0 p (attach xs l ys) h' \<and>
    h_pools h' p = Some m \<and> kept p (area 0 (xs @ (l, False) # ys)) h h'"
proof -
  note r = rep0D [OF rp m]
  let ?hp = "sm_heap_ptr m" and ?i = "total xs"
  have T: "?hp + (?i + l + total ys) + 16 \<le> 2 ^ 32" using pool_atD(6) [OF r(1)] by (simp add: add.assoc)
  show ?thesis
  proof (cases xs rule: rev_cases)
    case Nil
    then have "item_prev (h_mem h) ?hp = 0" using r(2) by simp
    then have "plug_backward p (?hp + ?i) h = Some h" using m Nil by (simp add: plug_backward_def item_at_def Let_def)
    with Nil rp m show ?thesis by (auto simp: attach_def intro: kept_refl)
  next
    case (snoc zs b)
    have pv: "item_prev (h_mem h) (?hp + ?i) = of_nat (total zs)" using r(2) snoc by simp
    have at: "item_at m (of_nat (total zs)) = ?hp + total zs" by (rule item_at_of_nat) (use T snoc in simp)
    have us: "MEM_ISUSED (h_mem h) (?hp + total zs) = snd b" using r(2) snoc MEM_ISUSED_tag by simp
    have b16: "16 \<le> fst b" using r(1) snoc by (simp add: pool_at_def block_ok_def)
    then have ne: "?hp + total zs \<noteq> ?hp + ?i" using snoc by simp
    show ?thesis
    proof (cases "snd b")
      case True
      then have "plug_backward p (?hp + ?i) h = Some h"
        using m us unfolding plug_backward_def Let_def by (simp add: pv at)
      with True snoc rp m show ?thesis by (auto simp: attach_def intro: kept_refl)
    next
      case False
      then obtain k where b: "b = (k, False)" by (cases b) simp
      have i: "?i = total zs + k" using snoc b by simp
      have lf: "sm_lfree m \<noteq> ?hp + ?i"
        using r(4) first_free_le_free [of zs k "(l, False) # ys"] b16 b by (simp add: snoc)
      have pf: "plug_backward p (?hp + ?i) h = Some (join m (?hp + total zs) (?hp + ?i) h)"
        using m us False lf ne unfolding plug_backward_def Let_def join_def by (simp add: pv at)
      have rp': "rep0 p (zs @ (k, False) # (l, False) # ys) h" using rp snoc b by simp
      note j = rep0_join [OF rp' m]
      have "kept p (area 0 (xs @ (l, False) # ys)) h (join m (?hp + total zs) (?hp + ?i) h)"
        by (rule kept_mono [OF j(3) [folded i]]) (auto simp: snoc b add.assoc)
      with pf j [folded i] snoc b show ?thesis by (auto simp: attach_def)
    qed
  qed
qed

lemma absorb_total: "absorb l ys = (k, zs) \<Longrightarrow> k + total zs = l + total ys"
  by (cases ys) (auto split: if_splits)

lemma absorb_area: "absorb l ys = (k, zs) \<Longrightarrow> area (i + k) zs = area (i + l) ys"
  by (cases ys) (auto simp: add.assoc split: if_splits)

lemma plug_holes_spec:
  assumes rp: "rep0 p (xs @ (l, False) # ys) h" and m: "h_pools h p = Some m"
  shows "\<exists>h'. plug_holes p (sm_heap_ptr m + total xs) h = Some h' \<and> rep0 p (released xs l ys) h' \<and>
    kept p (area 0 (xs @ (l, False) # ys)) h h'"
proof -
  from plug_forward_spec [OF rp m] obtain h1 k zs where
    h1: "plug_forward p (sm_heap_ptr m + total xs) h = Some h1" "absorb l ys = (k, zs)" "rep0 p (xs @ (k, False) # zs) h1"
      "h_pools h1 p = Some m" "kept p (area 0 (xs @ (l, False) # ys)) h h1" by blast
  from plug_backward_spec [OF h1(3,4)] obtain h2 where
    h2: "plug_backward p (sm_heap_ptr m + total xs) h1 = Some h2" "rep0 p (attach xs k zs) h2"
      "kept p (area 0 (xs @ (k, False) # zs)) h1 h2" by blast
  have "area 0 (xs @ (k, False) # zs) = area 0 (xs @ (l, False) # ys)" using absorb_area [OF h1(2)] by simp
  with kept_trans [OF h1(5) h2(3)] have "kept p (area 0 (xs @ (l, False) # ys)) h h2" by simp
  moreover have "sm_heap_ptr m + total xs < sm_heap_end m"
    using pool_atD(9) [OF rep0D(1) [OF rp m]] rep0D(1) [OF rp m] by (simp add: pool_at_def block_ok_def)
  ultimately show ?thesis using m h1 h2 by (simp add: plug_holes_def released_def)
qed

lemma no_two_free_released:
  assumes "no_two_free xs" and "no_two_free ys"
  shows "no_two_free (released xs l ys)"
proof -
  obtain k zs where a: "absorb l ys = (k, zs)" by (cases "absorb l ys")
  have z: "no_two_free zs" "zs = [] \<or> snd (hd zs)"
  proof -
    have "no_two_free zs \<and> (zs = [] \<or> snd (hd zs))"
    proof (cases ys)
      case Nil
      then show ?thesis using a by simp
    next
      case (Cons b ws)
      then show ?thesis using assms(2) a by (cases ws) (auto split: if_splits)
    qed
    then show "no_two_free zs" "zs = [] \<or> snd (hd zs)" by simp_all
  qed
  have b: "no_two_free (butlast xs)" "xs \<noteq> [] \<Longrightarrow> \<not> snd (last xs) \<Longrightarrow> butlast xs = [] \<or> snd (last (butlast xs))"
    using assms(1) by (cases xs rule: rev_cases; auto simp: no_two_free_append)+
  have f: "no_two_free ((n, False) # zs)" for n using z by (cases zs) auto
  show ?thesis using assms(1) b f a by (auto simp: released_def attach_def no_two_free_append)
qed

end
