(* ===== verification/SmallMemSpec.thy ===== *)
theory SmallMemSpec
  imports SmallMemFree
begin

text \<open>
  The operations of the heap against the list of blocks: first fit, merging, the way back from an
  allocation, and the bytes that survive a change of the size.
\<close>

section \<open>Allocating\<close>

text \<open>The size that is looked for.\<close>

definition rounded :: "u32 \<Rightarrow> nat" where "rounded sz = max 16 (8 * ((unat sz + 7) div 8))"

definition alloc_blocks :: "nat \<Rightarrow> block list \<Rightarrow> (nat \<times> block list) option" where
  "alloc_blocks n bs = (case fit n bs of None \<Rightarrow> None | Some (xs, l, ys) \<Rightarrow> Some (total xs, xs @ placed n l @ ys))"

lemma aligned_size:
  assumes "unat sz \<le> 2 ^ 32 - 8"
  shows "unat (if RT_ALIGN sz 8 < 16 then 16 else RT_ALIGN sz 8) = rounded sz"
proof -
  have "unat (RT_ALIGN sz 8) = 8 * ((unat sz + 7) div 8)" by (rule unat_RT_ALIGN) (use assms in simp)
  then show ?thesis by (auto simp: rounded_def word_less_nat_alt)
qed

lemma rounded_props: "16 \<le> rounded sz" "rounded sz mod 8 = 0" "unat sz \<le> rounded sz"
proof -
  show "16 \<le> rounded sz" by (simp add: rounded_def)
  show "rounded sz mod 8 = 0" by (simp add: rounded_def max_def)
  have "unat sz \<le> 8 * ((unat sz + 7) div 8)" by presburger
  then show "unat sz \<le> rounded sz" by (simp add: rounded_def)
qed

lemma repD: "rep p bs h \<Longrightarrow> h_pools h p = Some m \<Longrightarrow> rep0 p bs h \<and> pool_at p bs m"
  using rep0D(1) by (auto simp: rep_def)

lemma smem_alloc_spec:
  assumes rp: "rep p bs h" and ob: "assert_memory p s = Some ()" and m: "h_pools h p = Some m"
    and sz: "sz \<noteq> 0" "unat sz \<le> 2 ^ 32 - 8"
  shows "case alloc_blocks (rounded sz) bs of
      None \<Rightarrow> rt_smem_alloc p sz s h = Some (None, h)
    | Some (i, bs') \<Rightarrow> \<exists>h'. rt_smem_alloc p sz s h = Some (Some (sm_heap_ptr m + i + 16), h') \<and> rep p bs' h' \<and> kept p (area 0 bs) h h'"
proof -
  let ?n = "rounded sz" let ?sz = "if RT_ALIGN sz 8 < 16 then 16 else RT_ALIGN sz 8"
  note r0 = repD [OF rp m, THEN conjunct1] note r = rep0D [OF r0 m] note pd = pool_atD [OF r(1)]
  have n: "unat ?sz = ?n" by (rule aligned_size [OF sz(2)])
  let ?xs = "takeWhile snd bs" and ?ys = "dropWhile snd bs"
  have xy: "bs = ?xs @ ?ys" by simp
  have u: "list_all snd ?xs" by (induction bs) auto
  have tot: "total bs = total ?xs + total ?ys" by (subst xy) (simp only: total_simps)
  have ff: "first_free bs = total ?xs" by (simp add: first_free_def)
  have fb: "fit ?n bs = map_option (\<lambda>(zs, r). (?xs @ zs, r)) (fit ?n ?ys)" using fit_used [OF u, of ?n ?ys] by simp
  show ?thesis
  proof (cases "unat ?sz \<le> unat (sm_mem_size_aligned m)")
    case False
    have "fit ?n bs = None"
      unfolding fit_None
    proof (intro ballI impI)
      fix b assume "b \<in> set bs"
      then have "fst b \<le> total bs" unfolding total_def by (intro member_le_sum_list) auto
      with False n pd(5,8) show "fst b < ?n + 16" by linarith
    qed
    moreover have "rt_smem_alloc p sz s h = Some (None, h)"
      using False sz(1) ob m unfolding rt_smem_alloc_def Let_def by (simp add: word_less_nat_alt [of "sm_mem_size_aligned m"])
    ultimately show ?thesis by (simp add: alloc_blocks_def)
  next
    case True
    have off: "offset_of m (sm_lfree m) = of_nat (total ?xs)"
      unfolding r(4) ff by (rule offset_of_item) (use tot pd(6) in linarith)
    have ch: "chain (h_mem h) p (sm_heap_ptr m) (last_head 0 0 ?xs) (total ?xs) ?ys"
      using r(2) item_chain_append [of "h_mem h" p "sm_heap_ptr m" 0 0 ?xs ?ys] by simp
    have ok: "list_all block_ok ?ys" using pd(10) by (metis list_all_append xy)
    have find: "alloc_find m (h_mem h) ?sz (of_nat (total ?xs)) =
        Some (map_option (\<lambda>(zs, l, ys). of_nat (total ?xs + total zs)) (fit ?n ?ys))"
      using alloc_find_spec [OF ch ok _ True] tot pd(5,6,8) n by simp
    have al: "rt_smem_alloc p sz s h = (case map_option (\<lambda>(zs, l, ys). of_nat (total ?xs + total zs)) (fit ?n ?ys) of
        None \<Rightarrow> Some (None, h) | Some ptr \<Rightarrow> do { (a, h) \<leftarrow> alloc_at p ?sz ptr h; Some (Some a, h) })"
      using True sz(1) ob m unfolding rt_smem_alloc_def Let_def by (simp add: word_less_nat_alt [of "sm_mem_size_aligned m"] off find not_less)
    show ?thesis
    proof (cases "fit ?n ?ys")
      case None
      then show ?thesis using al fb by (simp add: alloc_blocks_def)
    next
      case (Some q)
      obtain zs l ys where q: "q = (zs, l, ys)" by (cases q)
      have fs: "fit ?n bs = Some (?xs @ zs, l, ys)" using fb Some q by simp
      note fd = fit_Some [OF fs]
      have rp': "rep p ((?xs @ zs) @ (l, False) # ys) h" using rp fd by simp
      have "\<exists>h'. alloc_at p ?sz (of_nat (total (?xs @ zs))) h = Some (sm_heap_ptr m + total (?xs @ zs) + 16, h') \<and>
          rep p ((?xs @ zs) @ placed (unat ?sz) l @ ys) h' \<and> kept p (area 0 ((?xs @ zs) @ (l, False) # ys)) h h'"
        by (rule alloc_at_spec [OF rp']) (use fd n rounded_props m in simp_all)
      with fs fd n Some q show ?thesis unfolding al by (auto simp: alloc_blocks_def)
    qed
  qed
qed

section \<open>Releasing\<close>

lemma MEM_POOL_tag: "pool_at p bs m \<Longrightarrow> item_pool_ptr mem a = tag p u \<Longrightarrow> MEM_POOL mem a = p"
  using tag_pool pool_atD(1,2) by (simp only: MEM_POOL_def)

lemma smem_free_spec:
  assumes rp: "rep p (xs @ (l, True) # ys) h" and ob: "assert_memory p s = Some ()" and m: "h_pools h p = Some m"
  shows "\<exists>h'. rt_smem_free (Some (sm_heap_ptr m + total xs + 16)) s h = Some h' \<and> rep p (released xs l ys) h' \<and>
    kept p (area 0 (xs @ (l, False) # ys)) h h'"
proof -
  let ?hp = "sm_heap_ptr m" and ?i = "total xs" and ?bs = "xs @ (l, True) # ys"
  note r0 = repD [OF rp m, THEN conjunct1] note r = rep0D [OF r0 m] note pd = pool_atD [OF r(1)]
  have T: "?hp + (?i + l + total ys) + 16 \<le> 2 ^ 32" using pd(6) by (simp add: add.assoc)
  have ok: "list_all block_ok xs" "24 \<le> l" using pd(10) by (simp_all add: block_ok_def)
  have al: "(?hp + ?i + 16) mod 8 = 0" using pd(4) total_mod [OF ok(1)] by presburger
  have tg: "item_pool_ptr (h_mem h) (?hp + ?i) = tag p True" and nx: "item_next (h_mem h) (?hp + ?i) = of_nat (?i + l)"
    using r(2) by simp_all
  have at: "item_at m (of_nat (?i + l)) = ?hp + (?i + l)" by (rule item_at_of_nat) (use T in simp)
  have off: "offset_of m (?hp + ?i) = of_nat ?i" by (rule offset_of_item) (use T in simp)
  have "\<exists>u. item_pool_ptr (h_mem h) (?hp + (?i + l)) = tag p u"
    using r(2,3) by (cases ys) (auto simp: ends_at_def)
  then have pn: "MEM_POOL (h_mem h) (?hp + (?i + l)) = p" using MEM_POOL_tag [OF r(1)] by auto
  note po = MEM_POOL_tag [OF r(1) tg] and us = MEM_ISUSED_tag [OF tg]
  have he: "?hp + ?i + 16 < sm_heap_end m" "?hp + ?i < sm_heap_end m" using pd(9) ok(2) by simp_all
  define c where "c = m\<lparr>sm_lfree := min (?hp + ?i) (sm_lfree m), sm_used := sm_used m - of_nat l\<rparr>"
  define h1 where "h1 = set_pool_ptr (?hp + ?i) (tag p False) (h\<lparr>h_pools := (h_pools h)(p \<mapsto> c)\<rparr>)"
  have e: "rt_smem_free (Some (?hp + ?i + 16)) s h = plug_holes p (?hp + ?i) h1"
  proof -
    define h0 where "h0 = set_pool_ptr (?hp + ?i) (MEM_FREED p) h"
    have h0: "h_pools h0 p = Some m" "item_next (h_mem h0) (?hp + ?i) - offset_of m (?hp + ?i) = of_nat l"
      using m by (simp_all add: h0_def nx off)
    have h1: "h1 = h0\<lparr>h_pools := (h_pools h0)(p \<mapsto> c)\<rparr>" by (simp add: h1_def h0_def set_pool_ptr_def tag_def)
    have o: "offset_of (m\<lparr>sm_lfree := f\<rparr>) a = offset_of m a" for f a by (simp add: offset_of_def)
    have "do { h \<leftarrow> (if ?hp + ?i < sm_lfree m then upd_pool p (\<lambda>m. m\<lparr>sm_lfree := ?hp + ?i\<rparr>) h0 else Some h0);
        upd_pool p (\<lambda>m. m\<lparr>sm_used := sm_used m - (item_next (h_mem h) (?hp + ?i) - offset_of m (?hp + ?i))\<rparr>) h } = Some h1"
      by (cases "?hp + ?i < sm_lfree m") (simp_all add: h0 h1 c_def o)
    moreover have "rt_smem_free (Some (?hp + ?i + 16)) s h = do {
        h \<leftarrow> (if ?hp + ?i < sm_lfree m then upd_pool p (\<lambda>m. m\<lparr>sm_lfree := ?hp + ?i\<rparr>) h0 else Some h0);
        h \<leftarrow> upd_pool p (\<lambda>m. m\<lparr>sm_used := sm_used m - (item_next (h_mem h) (?hp + ?i) - offset_of m (?hp + ?i))\<rparr>) h;
        plug_holes p (?hp + ?i) h }"
      using al po us ob m he pd(3) pn unfolding rt_smem_free_def
      by (simp add: Let_def nx at h0_def [symmetric] del: of_nat_add)
    ultimately show ?thesis by (simp only: bind_assoc [symmetric] Option.bind.bind_lunit)
  qed
  have okb: "list_all block_ok (xs @ (l, True) # ys)" by (rule pd(10))
  note mk = mark_spec [where v = False, OF okb, of "h\<lparr>h_pools := (h_pools h)(p \<mapsto> c)\<rparr>" p ?hp]
  have en: "ends_at p ?hp (?i + l + total ys) (h_mem h)" using r(3) by (simp add: add.assoc)
  have ch1: "chain (h_mem h1) p ?hp 0 0 (xs @ (l, False) # ys)" and en1: "ends_at p ?hp (?i + l + total ys) (h_mem h1)"
    and p1: "h_pools h1 p = Some c" and by1: "\<And>a. a < ?i \<or> ?i + 16 \<le> a \<Longrightarrow> h_mem h1 (?hp + a) = h_mem h (?hp + a)"
    using mk r(2) en by (simp_all add: h1_def)
  have c: "sm_heap_ptr c = ?hp" "sm_heap_end c = sm_heap_end m" "sm_mem_size_aligned c = sm_mem_size_aligned m" "sm_max c = sm_max m"
    by (simp_all add: c_def)
  have lf: "sm_lfree c = ?hp + first_free (xs @ (l, False) # ys)"
    using r(4) first_free_less [OF ok(1)] by (auto simp: c_def first_free_append min_def)
  have us1: "sm_used c = of_nat (used_total (xs @ (l, False) # ys))" using r(5) by (simp add: c_def)
  have le: "sm_used c \<le> sm_max c"
  proof -
    have b: "used_total ?bs < 2 ^ 32" using used_total_le [of ?bs] T by (simp add: add.assoc)
    have "unat (sm_used c) = used_total (xs @ (l, False) # ys)" unfolding us1 by (rule u32_of_nat) (use b in simp)
    moreover have "unat (sm_used m) = used_total ?bs" unfolding r(5) by (rule u32_of_nat [OF b])
    ultimately have "unat (sm_used c) \<le> unat (sm_used m)" by simp
    with r(6) show ?thesis unfolding c(4) by (simp add: word_le_nat_alt)
  qed
  have "pool_at p (xs @ (l, False) # ys) c" using r(1) by (simp add: pool_at_def c block_ok_def)
  then have rp1: "rep0 p (xs @ (l, False) # ys) h1" using p1 c ch1 en1 lf us1 le by (simp add: rep0_def add.assoc)
  from plug_holes_spec [OF rp1 p1] obtain h2 where
    h2: "plug_holes p (?hp + ?i) h1 = Some h2" "rep0 p (released xs l ys) h2" "kept p (area 0 (xs @ (l, False) # ys)) h1 h2"
    using c by auto
  have "no_two_free xs" "no_two_free ys" using rp by (cases ys; auto simp: rep_def no_two_free_append)+
  then have "rep p (released xs l ys) h2" using h2(2) no_two_free_released by (simp add: rep_def)
  moreover have "kept p (area 0 (xs @ (l, False) # ys)) h h1"
  proof -
    have "h_mem h1 (?hp + a) = h_mem h (?hp + a)" if "a \<in> area 0 (xs @ (l, False) # ys)" for a
      by (rule by1) (use that area_range [of a 0 xs] area_range [of a "?i + l" ys] ok in auto)
    then show ?thesis using m p1 c by (simp add: kept_def)
  qed
  from kept_trans [OF this h2(3)] have "kept p (area 0 (xs @ (l, False) # ys)) h h2" by simp
  ultimately show ?thesis using e h2(1) by (intro exI [of _ h2]) simp
qed

section \<open>There and back\<close>

lemma released_placed:
  assumes "no_two_free (xs @ (l, False) # ys)" and "n + 16 \<le> l"
  shows "\<exists>k zs. placed n l @ ys = (k, True) # zs \<and> released xs k zs = xs @ (l, False) # ys"
proof -
  have x: "xs = [] \<or> snd (last xs)" and y: "ys = [] \<or> snd (hd ys)"
    using assms(1) by (cases ys; auto simp: no_two_free_append)+
  show ?thesis
  proof (cases "n + 48 \<le> l")
    case True
    with x show ?thesis by (auto simp: placed_def released_def attach_def)
  next
    case False
    with x y show ?thesis by (cases ys) (auto simp: placed_def released_def attach_def)
  qed
qed

section \<open>Writing to a block\<close>

text \<open>Bytes inside the used blocks are not part of the representation.\<close>

lemma load_word_cong: "(\<And>i. i < 4 \<Longrightarrow> m' (a + i) = m (a + i)) \<Longrightarrow> load_word m' a = load_word m a"
proof -
  assume e: "\<And>i. i < 4 \<Longrightarrow> m' (a + i) = m (a + i)"
  have "m' a = m a" "m' (a + 1) = m (a + 1)" "m' (a + 2) = m (a + 2)" "m' (a + 3) = m (a + 3)"
    using e [of 0] e [of 1] e [of 2] e [of 3] by simp_all
  then show ?thesis by (simp add: load_word_def)
qed

lemma same_item_bytes:
  assumes "\<And>i. i < 12 \<Longrightarrow> m' (a + i) = m (a + i)"
  shows "same_item m m' a"
  unfolding same_item_def item_defs
  by (intro conjI load_word_cong) (use assms in \<open>simp_all add: add.assoc\<close>)

lemma rep_data:
  assumes rp: "rep p bs h" and m: "h_pools h p = Some m"
    and d: "\<And>a. mem a \<noteq> h_mem h a \<Longrightarrow> \<exists>b\<in>area 0 bs. a = sm_heap_ptr m + b"
  shows "rep p bs (h\<lparr>h_mem := mem\<rparr>)"
proof -
  note r = rep0D [OF repD [OF rp m, THEN conjunct1] m]
  have same: "same_item (h_mem h) mem (sm_heap_ptr m + x)" if x: "x \<in> heads 0 bs \<or> x = 0 + total bs" for x
  proof (rule same_item_bytes)
    fix i :: nat assume i: "i < 12"
    show "mem (sm_heap_ptr m + x + i) = h_mem h (sm_heap_ptr m + x + i)"
    proof (rule ccontr)
      assume "mem (sm_heap_ptr m + x + i) \<noteq> h_mem h (sm_heap_ptr m + x + i)"
      from d [OF this] have "x + i \<in> area 0 bs" by auto
      from heads_area [OF pool_atD(10) [OF r(1)] x this] i show False by auto
    qed
  qed
  have "chain mem p (sm_heap_ptr m) 0 0 bs" by (rule chain_same [OF _ r(2)]) (use same in auto)
  moreover have "ends_at p (sm_heap_ptr m) (total bs) mem" using r(3) same [of "total bs"] by (simp add: ends_at_def same_item_def)
  ultimately show ?thesis using r m rp by (simp add: rep_def rep0_def)
qed

end
