(* ===== verification/SmallMemRealloc.thy ===== *)
theory SmallMemRealloc
  imports SmallMemSpec
begin

text \<open>Changing the size of a block: in place, by splitting, or by moving the bytes.\<close>

section \<open>Where the new block is\<close>

lemma placed_area: "n + 16 \<le> l \<Longrightarrow> {i + 16..<i + 16 + n} \<subseteq> area i (placed n l)"
  by (auto simp: placed_def)

text \<open>The old block after the allocation of the new one.\<close>

lemma alloc_beside:
  assumes f: "fit n (xs @ (l, True) # ys) = Some (X, k, Y)"
  shows "\<exists>us vs. X @ placed n k @ Y = us @ (l, True) # vs \<and> total us = total xs \<and>
    {total X + 16..<total X + 16 + n} \<subseteq> area 0 us \<union> area (total us + l) vs \<and>
    area 0 (xs @ (l, False) # ys) \<subseteq> area 0 us \<union> area (total us + l) vs \<and>
    (\<forall>b\<in>area 0 (xs @ (l, True) # ys). b < total X + 16 \<or> total X + 16 + n \<le> b)"
proof -
  note fd = fit_Some [OF f]
  have e: "xs @ (l, True) # ys = X @ (k, False) # Y" and nk: "n + 16 \<le> k" using fd by simp_all
  note pa = placed_area [OF nk, of "total X"] and pt = placed_total [OF nk]
  have away: "\<forall>b\<in>area 0 (xs @ (l, True) # ys). b < total X + 16 \<or> total X + 16 + n \<le> b"
    unfolding e using area_range [of _ 0 X] area_range [of _ "total X + k" Y] nk by fastforce
  from e consider (left) Z where "xs = X @ (k, False) # Z" "Y = Z @ (l, True) # ys"
    | (right) Z where "X = xs @ (l, True) # Z" "ys = Z @ (k, False) # Y"
    by (auto simp: append_eq_append_conv2 append_eq_Cons_conv Cons_eq_append_conv)
  then show ?thesis
  proof cases
    case left
    then show ?thesis using away pa pt
      by (intro exI [of _ "X @ placed n k @ Z"] exI [of _ ys]) (auto simp: add.assoc)
  next
    case right
    then show ?thesis using away pa pt
      by (intro exI [of _ xs] exI [of _ "Z @ placed n k @ Y"]) (auto simp: add.assoc)
  qed
qed

lemma area_released: "area 0 (released us l vs) = area 0 (us @ (l, False) # vs)"
proof -
  obtain k zs where a: "absorb l vs = (k, zs)" by (cases "absorb l vs")
  have "area 0 (attach us k zs) = area 0 us \<union> area (total us + k) zs"
    by (cases us rule: rev_cases) (auto simp: attach_def add.assoc)
  then show ?thesis using absorb_area [OF a, of "total us"] a by (simp add: released_def)
qed

section \<open>In place\<close>

lemma realloc_split_spec:
  assumes rp: "rep p (xs @ (l, True) # ys) h" and m: "h_pools h p = Some m"
    and n: "unat n mod 8 = 0" "8 \<le> unat n" "unat n + 32 \<le> l"
  defines "ptr2 \<equiv> of_nat (total xs) + 16 + n" and "c \<equiv> m\<lparr>sm_used := sm_used m - (of_nat (l - 16) - n)\<rparr>"
  shows "\<exists>h2. do {
      let mem2 = item_at m ptr2;
      let h = split_item p m (of_nat (total xs)) ptr2 (h\<lparr>h_pools := (h_pools h)(p \<mapsto> c)\<rparr>);
      h \<leftarrow> (if mem2 < sm_lfree m then upd_pool p (\<lambda>m. m\<lparr>sm_lfree := mem2\<rparr>) h else Some h);
      plug_holes p mem2 h } = Some h2 \<and>
    rep p (released (xs @ [(unat n + 16, True)]) (l - unat n - 16) ys) h2 \<and>
    kept p (area 0 (xs @ (unat n + 16, True) # (l - unat n - 16, False) # ys)) h h2"
proof -
  let ?hp = "sm_heap_ptr m" and ?i = "total xs" and ?bs = "xs @ (l, True) # ys" and ?k = "unat n + 16"
  let ?xs = "xs @ [(?k, True)]"
  note r = rep0D [OF repD [OF rp m, THEN conjunct1] m] note pd = pool_atD [OF r(1)]
  have T: "?hp + (?i + l + total ys) + 16 \<le> 2 ^ 32" using pd(6) by (simp add: add.assoc)
  have ok: "list_all block_ok xs" "list_all block_ok ys" "l mod 8 = 0" using pd(10) by (simp_all add: block_ok_def)
  have p2: "ptr2 = of_nat (?i + ?k)" by (simp add: ptr2_def add.commute)
  have at: "item_at m ptr2 = ?hp + (?i + ?k)" unfolding p2 by (rule item_at_of_nat) (use T n in simp)
  define h0 where "h0 = h\<lparr>h_pools := (h_pools h)(p \<mapsto> c)\<rparr>"
  define h1 where "h1 = split_item p m (of_nat ?i) ptr2 h0"
  have "chain (h_mem h0) p ?hp 0 0 ?bs" "ends_at p ?hp (total ?bs) (h_mem h0)" using r by (simp_all add: h0_def)
  note sp = split_item_spec [OF r(1) this, of ?k, folded p2 h1_def]
  have k: "16 \<le> ?k" "?k + 16 \<le> l" using n by simp_all
  define d where "d = c\<lparr>sm_lfree := min (?hp + (?i + ?k)) (sm_lfree m)\<rparr>"
  define h2 where "h2 = h1\<lparr>h_pools := (h_pools h1)(p \<mapsto> d)\<rparr>"
  have p1: "h_pools h1 p = Some c" using sp(3) [OF k] by (simp add: h0_def)
  have d: "sm_heap_ptr d = ?hp" "sm_heap_end d = sm_heap_end m" "sm_mem_size_aligned d = sm_mem_size_aligned m" "sm_max d = sm_max m"
    by (simp_all add: d_def c_def)
  have tot: "total (?xs @ (l - ?k, False) # ys) = total ?bs" using k by simp
  have up: "(if ?hp + (?i + ?k) < sm_lfree m then upd_pool p (\<lambda>m. m\<lparr>sm_lfree := ?hp + (?i + ?k)\<rparr>) h1 else Some h1) = Some h2"
  proof (cases "?hp + (?i + ?k) < sm_lfree m")
    case True
    then show ?thesis using p1 by (simp add: h2_def d_def min_def)
  next
    case False
    then have "d = c" by (simp add: d_def c_def min_def)
    then have "h2 = h1" using p1 by (simp add: h2_def fun_upd_idem)
    with False show ?thesis by simp
  qed
  have rp2: "rep0 p (?xs @ (l - ?k, False) # ys) h2"
  proof -
    have "(l - ?k) mod 8 = 0" using ok(3) n(1) by (metis add.commute dvd_diff_nat mod_eq_0_iff_dvd dvd_add dvd_refl mult_2 numeral_Bit0)
    then have "pool_at p (?xs @ (l - ?k, False) # ys) d"
      using r(1) n k by (auto simp: pool_at_def d block_ok_def) 
    moreover have "sm_lfree d = ?hp + first_free (?xs @ (l - ?k, False) # ys)"
      using r(4) first_free_less [OF ok(1)] k by (auto simp: d_def first_free_append min_def)
    moreover have "sm_used d = of_nat (used_total (?xs @ (l - ?k, False) # ys))"
      using r(5) k by (simp add: d_def c_def of_nat_diff)
    moreover have "sm_used d \<le> sm_max d"
    proof -
      have b: "used_total ?bs < 2 ^ 32" using used_total_le [of ?bs] T by (simp add: add.assoc)
      have "unat (sm_used d) = used_total (?xs @ (l - ?k, False) # ys)" unfolding calculation(3) by (rule u32_of_nat) (use b k in simp)
      moreover have "unat (sm_used m) = used_total ?bs" unfolding r(5) by (rule u32_of_nat [OF b])
      ultimately have "unat (sm_used d) \<le> unat (sm_used m)" using k by simp
      with r(6) show ?thesis unfolding d(4) by (simp add: word_le_nat_alt)
    qed
    moreover have "chain (h_mem h2) p ?hp 0 0 (?xs @ (l - ?k, False) # ys)" using sp(1) [OF k] by (simp add: h2_def)
    moreover have "ends_at p ?hp (total (?xs @ (l - ?k, False) # ys)) (h_mem h2)" using sp(2) [OF k] unfolding tot by (simp add: h2_def)
    ultimately show ?thesis using d(1) by (simp add: rep0_def h2_def)
  qed
  have p2': "h_pools h2 p = Some d" by (simp add: h2_def)
  from plug_holes_spec [OF rp2 p2'] obtain h3 where
    h3: "plug_holes p (?hp + (?i + ?k)) h2 = Some h3" "rep0 p (released ?xs (l - ?k) ys) h3"
      "kept p (area 0 (?xs @ (l - ?k, False) # ys)) h2 h3" using d(1) by auto
  have "no_two_free xs" "no_two_free ys" using rp by (cases ys; auto simp: rep_def no_two_free_append)+
  then have "rep p (released ?xs (l - ?k) ys) h3" using h3(2) no_two_free_released by (simp add: rep_def no_two_free_append)
  moreover have "kept p (area 0 (?xs @ (l - ?k, False) # ys)) h h2"
    using m p2' d(1) sp(4) [OF k] k by (auto simp: kept_def h2_def h0_def)
  from kept_trans [OF this h3(3)] have "kept p (area 0 (xs @ (?k, True) # (l - ?k, False) # ys)) h h3" by simp
  ultimately show ?thesis using up h3(1) unfolding at Let_def h0_def [symmetric] h1_def [symmetric]
    by (intro exI [of _ h3]) simp
qed

section \<open>By moving\<close>

text \<open>The block at \<open>i\<close> has room for \<open>n\<close> bytes, and the old bytes are in it.\<close>

definition resized :: "addr \<Rightarrow> nat \<Rightarrow> addr \<Rightarrow> nat \<Rightarrow> heap \<Rightarrow> addr \<Rightarrow> heap \<Rightarrow> bool" where
  "resized p n old k h a h' \<longleftrightarrow> (\<exists>m bs' i. h_pools h p = Some m \<and> rep p bs' h' \<and> a = sm_heap_ptr m + i + 16 \<and>
    {i + 16..<i + 16 + n} \<subseteq> area 0 bs' \<and> (\<forall>j<min n k. h_mem h' (a + j) = h_mem h (old + j)))"

lemma realloc_move_spec:
  assumes rp: "rep p (xs @ (l, True) # ys) h" and ob: "assert_memory p s = Some ()" and m: "h_pools h p = Some m"
    and n: "n \<noteq> 0" "unat n \<le> 2 ^ 32 - 8"
  shows "\<exists>r h'. do {
      (nmem, h) \<leftarrow> rt_smem_alloc p n s h;
      case nmem of
        None \<Rightarrow> Some (None, h)
      | Some a \<Rightarrow> do {
          let h = h\<lparr>h_mem := rt_memcpy (h_mem h) a (sm_heap_ptr m + total xs + 16) (min (unat n) (l - 16))\<rparr>;
          h \<leftarrow> rt_smem_free (Some (sm_heap_ptr m + total xs + 16)) s h;
          Some (Some a, h) } } = Some (r, h') \<and>
    (case r of None \<Rightarrow> h' = h
     | Some a \<Rightarrow> resized p (unat n) (sm_heap_ptr m + total xs + 16) (l - 16) h a h' \<and> kept p (area 0 (xs @ (l, False) # ys)) h h')"
proof (cases "alloc_blocks (rounded n) (xs @ (l, True) # ys)")
  case None
  with smem_alloc_spec [OF rp ob m n] show ?thesis by simp
next
  case (Some q)
  let ?hp = "sm_heap_ptr m" and ?i = "total xs" and ?bs = "xs @ (l, True) # ys" and ?n = "rounded n" and ?c = "min (unat n) (l - 16)"
  obtain X k Y where f: "fit ?n ?bs = Some (X, k, Y)" and q: "q = (total X, X @ placed ?n k @ Y)"
    using Some by (auto simp: alloc_blocks_def split: option.splits)
  obtain us vs where uv: "X @ placed ?n k @ Y = us @ (l, True) # vs" "total us = ?i"
      "{total X + 16..<total X + 16 + ?n} \<subseteq> area 0 us \<union> area (total us + l) vs"
      "area 0 (xs @ (l, False) # ys) \<subseteq> area 0 us \<union> area (total us + l) vs"
      "\<forall>b\<in>area 0 (xs @ (l, True) # ys). b < total X + 16 \<or> total X + 16 + ?n \<le> b"
    using alloc_beside [OF f] by blast
  define i where "i = total X"
  obtain h1 where h1: "rt_smem_alloc p n s h = Some (Some (?hp + i + 16), h1)" "rep p (us @ (l, True) # vs) h1"
      "kept p (area 0 ?bs) h h1"
    using smem_alloc_spec [OF rp ob m n] Some q uv(1) by (auto simp: i_def)
  obtain m1 where m1: "h_pools h1 p = Some m1" "sm_heap_ptr m1 = ?hp" using h1(3) m by (auto simp: kept_def)
  let ?d = "?hp + i + 16" and ?s = "?hp + ?i + 16"
  have l24: "24 \<le> l" using rep0D(1) [OF repD [OF rp m, THEN conjunct1] m] by (simp add: pool_at_def block_ok_def)
  have nn: "unat n \<le> ?n" by (rule rounded_props)
  have new: "b \<in> area 0 us \<union> area (total us + l) vs" if "i + 16 \<le> b" "b < i + 16 + ?c" for b
    using uv(3) that nn unfolding i_def by (auto simp: subset_iff)
  have fwd: "fwd_ok ?d ?s ?c"
  proof (cases "?c = 0 \<or> i \<le> ?i")
    case True
    then show ?thesis by (auto simp: fwd_ok_def)
  next
    case False
    then have "i + 16 \<in> area 0 us \<union> area (total us + l) vs" by (intro new) simp_all
    then have "?i + l + 16 \<le> i + 16" using False area_range [of "i + 16" 0 us] area_range [of "i + 16" "total us + l" vs] uv(2) by auto
    moreover have "?c \<le> l - 16" by simp
    ultimately have "?s + ?c \<le> ?d" using l24 by linarith
    then show ?thesis by (simp add: fwd_ok_def)
  qed
  define mem where "mem = rt_memcpy (h_mem h1) ?d ?s ?c"
  have mem: "mem = copied (h_mem h1) ?d ?s ?c" unfolding mem_def by (rule rt_memcpy_copied [OF fwd])
  have ch: "\<exists>b\<in>area 0 us \<union> area (total us + l) vs. a = ?hp + b \<and> i + 16 \<le> b \<and> b < i + 16 + ?c" if "mem a \<noteq> h_mem h1 a" for a
  proof -
    have "?d \<le> a \<and> a < ?d + ?c" using that by (auto simp: mem copied_def split: if_splits)
    then have "i + 16 \<le> a - ?hp" "a - ?hp < i + 16 + ?c" "a = ?hp + (a - ?hp)" by auto
    with new [of "a - ?hp"] show ?thesis by blast
  qed
  let ?h2 = "h1\<lparr>h_mem := mem\<rparr>"
  have rp2: "rep p (us @ (l, True) # vs) ?h2"
    by (rule rep_data [OF h1(2) m1(1)]) (use ch m1(2) in \<open>force\<close>)
  have m2: "h_pools ?h2 p = Some m1" using m1 by simp
  from smem_free_spec [OF rp2 ob m2] obtain h3 where
    h3: "rt_smem_free (Some ?s) s ?h2 = Some h3" "rep p (released us l vs) h3" "kept p (area 0 (us @ (l, False) # vs)) ?h2 h3"
    using m1(2) uv(2) by auto
  have sub: "area 0 (us @ (l, False) # vs) = area 0 us \<union> area (total us + l) vs" by simp
  have k3: "h_mem h3 (?hp + b) = mem (?hp + b)" if "b \<in> area 0 us \<union> area (total us + l) vs" for b
    using h3(3) m1 that unfolding sub kept_def by auto
  have "resized p (unat n) ?s (l - 16) h ?d h3"
    unfolding resized_def
  proof (intro exI conjI allI impI)
    show "h_pools h p = Some m" by (rule m)
    show "rep p (released us l vs) h3" by (rule h3(2))
    show "?d = ?hp + i + 16" ..
    show "{i + 16..<i + 16 + unat n} \<subseteq> area 0 (released us l vs)"
      unfolding area_released sub using uv(3) nn unfolding i_def by (auto simp: subset_iff)
    show "h_mem h3 (?d + j) = h_mem h (?s + j)" if j: "j < ?c" for j
    proof -
      have "h_mem h3 (?hp + (i + 16 + j)) = mem (?hp + (i + 16 + j))" by (rule k3 [OF new]) (use j in simp_all)
      moreover have "mem (?d + j) = h_mem h1 (?s + j)" using j by (simp add: mem copied_def)
      moreover have "?i + 16 + j \<in> area 0 ?bs" using j by auto
      then have "h_mem h1 (?hp + (?i + 16 + j)) = h_mem h (?hp + (?i + 16 + j))" using h1(3) m unfolding kept_def by auto
      ultimately show ?thesis by (simp add: add.assoc)
    qed
  qed
  moreover have "kept p (area 0 (xs @ (l, False) # ys)) h h3"
  proof -
    have "h_mem h3 (?hp + b) = h_mem h (?hp + b)" if b: "b \<in> area 0 (xs @ (l, False) # ys)" for b
    proof -
      have "b \<in> area 0 ?bs" using b by auto
      with uv(5) nn have "\<not> (i + 16 \<le> b \<and> b < i + 16 + ?c)" unfolding i_def by fastforce
      then have "mem (?hp + b) = h_mem h1 (?hp + b)" using ch [of "?hp + b"] by auto
      moreover have "h_mem h1 (?hp + b) = h_mem h (?hp + b)" using h1(3) m b unfolding kept_def by auto
      ultimately show ?thesis using k3 [of b] uv(4) b by auto
    qed
    then show ?thesis using m m1 h3(3) by (auto simp: kept_def)
  qed
  moreover have "(let h = h1\<lparr>h_mem := rt_memcpy (h_mem h1) ?d ?s ?c\<rparr> in do { h \<leftarrow> rt_smem_free (Some ?s) s h; Some (Some ?d, h) }) = Some (Some ?d, h3)"
    using h3(1) by (simp add: mem_def)
  ultimately show ?thesis using h1(1) by (intro exI [of _ "Some ?d"] exI [of _ h3]) simp
qed

section \<open>All cases\<close>

text \<open>The two branches of the code: the rest of the block is split off, or the block is moved.\<close>

definition shrunk :: "addr \<Rightarrow> rt_small_mem \<Rightarrow> u32 \<Rightarrow> u32 \<Rightarrow> u32 \<Rightarrow> heap \<Rightarrow> heap option" where
  "shrunk p m ptr k n h = do {
    let mem2 = item_at m (ptr + 16 + n);
    let h = split_item p m ptr (ptr + 16 + n) (h\<lparr>h_pools := (h_pools h)(p \<mapsto> m\<lparr>sm_used := sm_used m - (k - n)\<rparr>)\<rparr>);
    h \<leftarrow> (if mem2 < sm_lfree m then upd_pool p (\<lambda>m. m\<lparr>sm_lfree := mem2\<rparr>) h else Some h);
    plug_holes p mem2 h }"

definition moved :: "addr \<Rightarrow> addr \<Rightarrow> nat \<Rightarrow> u32 \<Rightarrow> kstate \<Rightarrow> heap \<Rightarrow> (addr option \<times> heap) option" where
  "moved p a k n s h = do {
    (nmem, h) \<leftarrow> rt_smem_alloc p n s h;
    case nmem of
      None \<Rightarrow> Some (None, h)
    | Some b \<Rightarrow> do {
        let h = h\<lparr>h_mem := rt_memcpy (h_mem h) b a (min (unat n) k)\<rparr>;
        h \<leftarrow> rt_smem_free (Some a) s h;
        Some (Some b, h) } }"

lemma realloc_start:
  fixes newsize :: u32
  defines "w \<equiv> RT_ALIGN newsize 8"
  assumes rp: "rep p (xs @ (l, True) # ys) h" and ob: "assert_memory p s = Some ()" and m: "h_pools h p = Some m" and wn: "w \<noteq> 0"
  shows "rt_smem_realloc p (Some (sm_heap_ptr m + total xs + 16)) newsize s h =
    (if w > sm_mem_size_aligned m then Some (None, h)
     else if of_nat (l - 16) = w then Some (Some (sm_heap_ptr m + total xs + 16), h)
     else if w + 16 + 12 < of_nat (l - 16) then
       map_option (Pair (Some (sm_heap_ptr m + total xs + 16))) (shrunk p m (of_nat (total xs)) (of_nat (l - 16)) w h)
     else moved p (sm_heap_ptr m + total xs + 16) (l - 16) w s h)"
proof -
  let ?hp = "sm_heap_ptr m" and ?i = "total xs"
  note r = rep0D [OF repD [OF rp m, THEN conjunct1] m] note pd = pool_atD [OF r(1)]
  have T: "?hp + (?i + l + total ys) + 16 \<le> 2 ^ 32" using pd(6) by (simp add: add.assoc)
  have ok: "list_all block_ok xs" "24 \<le> l" using pd(10) by (simp_all add: block_ok_def)
  have al: "(?hp + ?i + 16) mod 8 = 0" using pd(4) total_mod [OF ok(1)] by presburger
  have nx: "item_next (h_mem h) (?hp + ?i) = of_nat (?i + l)" using r(2) by simp
  have off: "offset_of m (?hp + ?i) = of_nat ?i" by (rule offset_of_item) (use T in simp)
  have sz: "item_next (h_mem h) (?hp + ?i) - offset_of m (?hp + ?i) - 16 = of_nat (l - 16)"
    unfolding nx off using ok(2) by (simp add: of_nat_diff)
  have ul: "unat (of_nat (l - 16) :: u32) = l - 16" by (rule u32_of_nat) (use T in simp)
  have mn: "unat (if of_nat (l - 16) < w then of_nat (l - 16) else w) = min (unat w) (l - 16)"
    using ul by (simp add: word_less_nat_alt min_def)
  have he: "?hp + ?i + 16 < sm_heap_end m" using pd(9) ok(2) by simp
  have as: "RT_ASSERT ((?hp + ?i + 16) mod 8 = 0) = Some ()" "RT_ASSERT (?hp \<le> ?hp + ?i + 16) = Some ()"
    "RT_ASSERT (?hp + ?i + 16 < sm_heap_end m) = Some ()" "RT_ASSERT (16 \<le> ?hp + ?i + 16) = Some ()"
    "?hp + ?i + 16 - 16 = ?hp + ?i"
    using al he by simp_all
  have mo: "map_option (Pair a) x = x \<bind> (\<lambda>h. Some (a, h))" for a :: "addr option" and x :: "heap option" by (cases x) simp_all
  show ?thesis
    unfolding rt_smem_realloc_def Let_def ob m Option.bind.bind_lunit option.simps(5) as sz w_def [symmetric] mn upd_pool_Some [OF m] mo
      shrunk_def moved_def bind_assoc
    unfolding off using wn by simp
qed

lemma resized_mono: "resized p n a k h b h' \<Longrightarrow> n' \<le> n \<Longrightarrow> resized p n' a k h b h'"
  unfolding resized_def by (force simp: subset_iff)

lemma realloc_shrink:
  assumes rp: "rep p (xs @ (l, True) # ys) h" and m: "h_pools h p = Some m"
    and n: "unat n mod 8 = 0" "8 \<le> unat n" "unat n + 32 \<le> l"
  shows "\<exists>h2. shrunk p m (of_nat (total xs)) (of_nat (l - 16)) n h = Some h2 \<and>
    resized p (unat n) (sm_heap_ptr m + total xs + 16) (l - 16) h (sm_heap_ptr m + total xs + 16) h2 \<and>
    kept p (area 0 (xs @ (l, False) # ys)) h h2"
proof -
  let ?hp = "sm_heap_ptr m" and ?i = "total xs"
  let ?bs' = "released (xs @ [(unat n + 16, True)]) (l - unat n - 16) ys"
  from realloc_split_spec [OF assms] obtain h2 where
    h2: "shrunk p m (of_nat ?i) (of_nat (l - 16)) n h = Some h2" "rep p ?bs' h2"
      "kept p (area 0 (xs @ (unat n + 16, True) # (l - unat n - 16, False) # ys)) h h2" unfolding shrunk_def by blast
  have ar: "area 0 ?bs' = area 0 xs \<union> {?i + 16..<?i + 16 + unat n} \<union> area (?i + l) ys"
    unfolding area_released using n(3) by (auto simp: add.assoc)
  have "area 0 (xs @ (unat n + 16, True) # (l - unat n - 16, False) # ys) = area 0 ?bs'"
    unfolding ar using n(3) by (auto simp: add.assoc)
  note k2 = h2(3) [unfolded this]
  have "resized p (unat n) (?hp + ?i + 16) (l - 16) h (?hp + ?i + 16) h2"
    unfolding resized_def
  proof (intro exI conjI allI impI)
    show "h_pools h p = Some m" by (rule m)
    show "rep p ?bs' h2" by (rule h2(2))
    show "{?i + 16..<?i + 16 + unat n} \<subseteq> area 0 ?bs'" unfolding ar by auto
    show "h_mem h2 (?hp + ?i + 16 + j) = h_mem h (?hp + ?i + 16 + j)" if "j < min (unat n) (l - 16)" for j
    proof -
      have "?i + 16 + j \<in> area 0 ?bs'" unfolding ar using that by simp
      with k2 m show ?thesis unfolding kept_def by (metis add.assoc option.inject)
    qed
  qed simp
  moreover have "area 0 (xs @ (l, False) # ys) \<subseteq> area 0 ?bs'" unfolding ar by auto
  then have "kept p (area 0 (xs @ (l, False) # ys)) h h2" by (rule kept_mono [OF k2])
  ultimately show ?thesis using h2(1) by blast
qed

lemma aligned_newsize:
  assumes "n \<noteq> 0" and "unat n \<le> 2 ^ 32 - 8"
  shows "unat n \<le> unat (RT_ALIGN n 8)" "8 \<le> unat (RT_ALIGN n 8)" "unat (RT_ALIGN n 8) mod 8 = 0"
    "unat (RT_ALIGN n 8) \<le> 2 ^ 32 - 8"
proof -
  have w: "unat (RT_ALIGN n 8) = 8 * ((unat n + 7) div 8)" by (rule unat_RT_ALIGN) (use assms(2) in simp)
  have "0 < unat n" "unat n \<le> 4294967288" using assms by (simp_all add: unat_gt_0)
  then have "unat n \<le> unat (RT_ALIGN n 8)" "8 \<le> unat (RT_ALIGN n 8)" "unat (RT_ALIGN n 8) mod 8 = 0"
    "unat (RT_ALIGN n 8) \<le> 4294967288"
    unfolding w by presburger+
  then show "unat n \<le> unat (RT_ALIGN n 8)" "8 \<le> unat (RT_ALIGN n 8)" "unat (RT_ALIGN n 8) mod 8 = 0"
    "unat (RT_ALIGN n 8) \<le> 2 ^ 32 - 8" by simp_all
qed

lemma realloc_spec:
  assumes rp: "rep p (xs @ (l, True) # ys) h" and ob: "assert_memory p s = Some ()" and m: "h_pools h p = Some m"
    and n: "newsize \<noteq> 0" "unat newsize \<le> 2 ^ 32 - 8"
  shows "\<exists>r h'. rt_smem_realloc p (Some (sm_heap_ptr m + total xs + 16)) newsize s h = Some (r, h') \<and>
    (case r of None \<Rightarrow> h' = h
     | Some a \<Rightarrow> resized p (unat newsize) (sm_heap_ptr m + total xs + 16) (l - 16) h a h' \<and>
        kept p (area 0 (xs @ (l, False) # ys)) h h')"
proof -
  let ?a = "sm_heap_ptr m + total xs + 16" and ?w = "RT_ALIGN newsize 8"
  note w0 = aligned_newsize [OF n]
  then have wn: "?w \<noteq> 0" by auto
  note start = realloc_start [OF rp ob m wn]
  note r = rep0D [OF repD [OF rp m, THEN conjunct1] m] note pd = pool_atD [OF r(1)]
  have T: "sm_heap_ptr m + (total xs + l + total ys) + 16 \<le> 2 ^ 32" using pd(6) by (simp add: add.assoc)
  have ul: "unat (of_nat (l - 16) :: u32) = l - 16" by (rule u32_of_nat) (use T in simp)
  consider (big) "?w > sm_mem_size_aligned m" | (same) "\<not> ?w > sm_mem_size_aligned m" "of_nat (l - 16) = ?w"
    | (split) "\<not> ?w > sm_mem_size_aligned m" "of_nat (l - 16) \<noteq> ?w" "?w + 16 + 12 < of_nat (l - 16)"
    | (move) "\<not> ?w > sm_mem_size_aligned m" "of_nat (l - 16) \<noteq> ?w" "\<not> ?w + 16 + 12 < of_nat (l - 16)" by blast
  then show ?thesis
  proof cases
    case big
    then show ?thesis unfolding start by simp
  next
    case same
    have "resized p (unat ?w) ?a (l - 16) h ?a h"
      unfolding resized_def using rp m same(2) ul
      by (intro exI [of _ m] exI [of _ "xs @ (l, True) # ys"] exI [of _ "total xs"]) auto
    from resized_mono [OF this w0(1)] same m show ?thesis unfolding start by (auto intro: kept_refl)
  next
    case split
    have "unat ?w \<le> unat (sm_mem_size_aligned m)" using split(1) by (simp add: word_le_nat_alt not_less)
    then have "unat ?w + 28 < 2 ^ 32" using pd(6,7,8) by linarith
    then have "unat (?w + 16 + 12) = unat ?w + 28" using unat_plus_less [of ?w 28] by (simp add: add.assoc)
    then have lt: "unat ?w + 32 \<le> l" using split(3) ul by (simp add: word_less_nat_alt)
    from realloc_shrink [OF rp m w0(3,2) lt] resized_mono [OF _ w0(1)] split show ?thesis unfolding start by fastforce
  next
    case move
    from realloc_move_spec [OF rp ob m wn w0(4), folded moved_def] obtain r h' where
      "moved p ?a (l - 16) ?w s h = Some (r, h')"
      "case r of None \<Rightarrow> h' = h | Some b \<Rightarrow> resized p (unat ?w) ?a (l - 16) h b h' \<and> kept p (area 0 (xs @ (l, False) # ys)) h h'" by blast
    moreover from this(2) have "case r of None \<Rightarrow> h' = h
        | Some b \<Rightarrow> resized p (unat newsize) ?a (l - 16) h b h' \<and> kept p (area 0 (xs @ (l, False) # ys)) h h'"
      using resized_mono [OF _ w0(1)] by (cases r) auto
    ultimately show ?thesis using move unfolding start by auto
  qed
qed

end
