(* ===== verification/SmallMemProps.thy ===== *)
theory SmallMemProps
  imports SmallMemRealloc
begin

text \<open>The heap from its initialisation on, and the properties of its operations.\<close>

section \<open>A new heap\<close>

lemma smem_init_spec:
  fixes begin_addr sz :: u32
  defines "p \<equiv> 8 * ((unat begin_addr + 7) div 8)" and "e \<equiv> 8 * ((unat begin_addr + unat sz) div 8)"
  assumes ob: "rt_object_init (Obj p) RT_Object_Class_Memory nm s = Some s'" and nz: "begin_addr \<noteq> 0"
    and lt: "unat begin_addr + unat sz < 2 ^ 32" and room: "p + 88 \<le> e"
  shows "\<exists>h'. rt_smem_init nm begin_addr sz s h = Some (Some p, s', h') \<and> rep p [(e - (p + 72), False)] h' \<and>
    (\<forall>m. h_pools h' p = Some m \<longrightarrow> sm_heap_ptr m = p + 56)"
proof -
  have el: "e < 2 ^ 32" using lt unfolding e_def by linarith
  have p8: "p mod 8 = 0" "0 < p" using nz by (auto simp: p_def unat_eq_zero Suc_le_eq div_greater_zero_iff intro: Nat.gr0I)
  have e8: "e mod 8 = 0" by (simp add: e_def)
  have u: "unat (RT_ALIGN begin_addr 8) = p"
    unfolding p_def by (rule unat_RT_ALIGN) (use room el in \<open>simp add: p_def\<close>)
  have ps: "RT_ALIGN begin_addr 8 = of_nat p" using u by (metis of_nat_unat ucast_id)
  have st: "unat (of_nat p + 56 :: u32) = p + 56" using u32_of_nat [of "p + 56"] room el by simp
  have al: "RT_ALIGN (of_nat p + 56) 8 = of_nat (p + 56)"
  proof -
    have "unat (RT_ALIGN (of_nat p + 56) 8) = 8 * ((p + 56 + 7) div 8)"
      unfolding st [symmetric] by (rule unat_RT_ALIGN) (use room el st in simp)
    also have "\<dots> = p + 56" using p8(1) by presburger
    finally show ?thesis by (metis of_nat_unat ucast_id)
  qed
  have "unat (begin_addr + sz) = unat begin_addr + unat sz" using unat_plus_less [of begin_addr sz] lt by simp
  then have ue: "unat (RT_ALIGN_DOWN (begin_addr + sz) 8) = e" unfolding unat_RT_ALIGN_DOWN e_def by simp
  have es: "RT_ALIGN_DOWN (begin_addr + sz) 8 = of_nat e" using ue by (metis of_nat_unat ucast_id)
  have c1: "2 * 16 < (of_nat e :: u32)" using ue es room by (simp add: word_less_nat_alt)
  have "(of_nat e :: u32) - 2 * 16 = of_nat (e - 32)" using room by (simp add: of_nat_diff)
  then have c2: "(of_nat p + 56 :: u32) \<le> of_nat e - 2 * 16"
    using u32_of_nat [of "e - 32"] el room st by (simp add: word_le_nat_alt)
  let ?T = "e - (p + 72)" let ?hp = "p + 56"
  have M: "(of_nat e :: u32) - of_nat (p + 56) - 2 * 16 = of_nat (?T - 16)" using room by (simp add: of_nat_diff)
  have T: "16 \<le> ?T" "?hp + ?T + 16 = e" using room by simp_all
  have nx: "(of_nat (?T - 16) :: u32) + 16 = of_nat ?T" using T by (simp add: of_nat_diff)
  have uT: "unat (of_nat ?T :: u32) = ?T" by (rule u32_of_nat) (use el in simp)
  have uh: "unat (of_nat (p + 56) :: u32) = ?hp" by (rule u32_of_nat) (use room el in simp)
  define h1 where "h1 = set_prev ?hp 0 (set_next ?hp (of_nat ?T) (set_pool_ptr ?hp (MEM_FREED p) h))"
  define h2 where "h2 = set_prev (?hp + ?T) (of_nat ?T) (set_next (?hp + ?T) (of_nat ?T) (set_pool_ptr (?hp + ?T) (MEM_USED p) h1))"
  define m where "m = \<lparr>sm_address = of_nat (p + 56), sm_total = of_nat (?T - 16), sm_used = 0, sm_max = 0, sm_heap_ptr = ?hp,
    sm_heap_end = ?hp + ?T, sm_lfree = ?hp, sm_mem_size_aligned = of_nat (?T - 16)\<rparr>"
  have n1: "item_next (h_mem h1) ?hp = of_nat ?T" by (simp add: h1_def)
  have "rt_smem_init nm begin_addr sz s h = Some (Some p, s', h2\<lparr>h_pools := (h_pools h2)(p \<mapsto> m)\<rparr>)"
    unfolding rt_smem_init_def ps es Let_def al u [unfolded ps] M nx uh h1_def [symmetric] n1 uT h2_def [symmetric] m_def [symmetric]
    using c1 c2 ob by simp
  moreover have "rep p [(?T, False)] (h2\<lparr>h_pools := (h_pools h2)(p \<mapsto> m)\<rparr>)"
  proof -
    have ap: "apart (?hp + ?T) ?hp" using room unfolding apart_def by linarith
    have "chain (h_mem h2) p ?hp 0 0 [(?T, False)]" by (simp add: h2_def h1_def item_set_other ap tag_def)
    moreover have "ends_at p ?hp ?T (h_mem h2)" by (simp add: h2_def ends_at_def tag_def)
    moreover have "?T mod 8 = 0" using p8(1) e8 room by presburger
    then have "pool_at p [(?T, False)] m"
      using T p8 el u32_of_nat [of "?T - 16"] by (simp add: pool_at_def m_def block_ok_def)
    ultimately show ?thesis by (simp add: rep_def rep0_def m_def)
  qed
  ultimately show ?thesis by (intro exI [of _ "h2\<lparr>h_pools := (h_pools h2)(p \<mapsto> m)\<rparr>"]) (simp add: m_def)
qed

section \<open>Properties\<close>

text \<open>C7. Allocation is first fit, on the bytes of the heap: when the memory and the pool represent the
  blocks \<open>bs\<close>, a request of up to \<open>2 ^ 32 - 8\<close> bytes takes the first free block with room for the
  size, rounded up to eight bytes and to at least 16, splits it when the rest can be a block of its
  own, and returns the address behind its header; the new memory represents the new blocks, without
  two free neighbours, and no byte of a block in use has changed. The result is \<open>RT_NULL\<close>, and the
  heap the same, exactly when every free block is too small.\<close>

theorem rt_smem_alloc_first_fit:
  assumes "rep p bs h" and "assert_memory p s = Some ()" and "h_pools h p = Some m"
    and "sz \<noteq> 0" and "unat sz \<le> 2 ^ 32 - 8"
  shows "(\<exists>xs l ys h'. fit (rounded sz) bs = Some (xs, l, ys) \<and> bs = xs @ (l, False) # ys \<and> rounded sz + 16 \<le> l \<and>
      rt_smem_alloc p sz s h = Some (Some (sm_heap_ptr m + total xs + 16), h') \<and>
      rep p (xs @ placed (rounded sz) l @ ys) h' \<and> kept p (area 0 bs) h h') \<or>
    ((\<forall>b\<in>set bs. snd b \<or> fst b < rounded sz + 16) \<and> rt_smem_alloc p sz s h = Some (None, h))"
proof (cases "fit (rounded sz) bs")
  case None
  then have "\<forall>b\<in>set bs. snd b \<or> fst b < rounded sz + 16" unfolding fit_None by blast
  with smem_alloc_spec [OF assms] None show ?thesis by (simp add: alloc_blocks_def)
next
  case (Some q)
  obtain xs l ys where q: "q = (xs, l, ys)" by (cases q)
  with smem_alloc_spec [OF assms] Some fit_Some [of "rounded sz" bs xs l ys] show ?thesis by (auto simp: alloc_blocks_def)
qed

text \<open>C8. Releasing a block in use merges it with the free blocks before and behind it, on the bytes of
  the heap: all assertions of \<open>rt_smem_free\<close> hold, the pool counts it as free, two free blocks are
  never neighbours, and no byte of the other blocks in use has changed.\<close>

theorem rt_smem_free_merges:
  assumes "rep p (xs @ (l, True) # ys) h" and "assert_memory p s = Some ()" and "h_pools h p = Some m"
  shows "\<exists>h'. rt_smem_free (Some (sm_heap_ptr m + total xs + 16)) s h = Some h' \<and> rep p (released xs l ys) h' \<and>
    kept p (area 0 (xs @ (l, False) # ys)) h h'"
  by (rule smem_free_spec [OF assms])

text \<open>C9. A block that is allocated and released leaves the heap as it was: the same blocks at the same
  places, also when the allocation split a block or there was no exact fit.\<close>

theorem rt_smem_alloc_free:
  assumes "rep p bs h" and "assert_memory p s = Some ()" and "h_pools h p = Some m"
    and "sz \<noteq> 0" and "unat sz \<le> 2 ^ 32 - 8" and "rt_smem_alloc p sz s h = Some (Some a, h1)"
  shows "\<exists>h2. rt_smem_free (Some a) s h1 = Some h2 \<and> rep p bs h2 \<and> kept p (area 0 bs) h h2"
proof -
  obtain xs l ys where f: "fit (rounded sz) bs = Some (xs, l, ys)"
    and r: "a = sm_heap_ptr m + total xs + 16" "rep p (xs @ placed (rounded sz) l @ ys) h1" "kept p (area 0 bs) h h1"
    using smem_alloc_spec [OF assms(1-5)] assms(6) by (auto simp: alloc_blocks_def split: option.splits)
  note fd = fit_Some [OF f]
  have "no_two_free (xs @ (l, False) # ys)" using assms(1) fd by (simp add: rep_def)
  from released_placed [OF this, of "rounded sz"] fd obtain k zs where kz: "placed (rounded sz) l @ ys = (k, True) # zs" "released xs k zs = bs" by auto
  obtain m1 where m1: "h_pools h1 p = Some m1" "sm_heap_ptr m1 = sm_heap_ptr m" using r(3) assms(3) by (auto simp: kept_def)
  have rp1: "rep p (xs @ (k, True) # zs) h1" using r(2) kz(1) by simp
  from smem_free_spec [OF rp1 assms(2) m1(1)] obtain h2 where
    h2: "rt_smem_free (Some a) s h1 = Some h2" "rep p bs h2" "kept p (area 0 (xs @ (k, False) # zs)) h1 h2"
    using r(1) m1(2) kz(2) by auto
  have "area 0 bs = area 0 (xs @ (k, False) # zs)" unfolding kz(2) [symmetric] by (rule area_released)
  with h2 kept_trans [OF r(3) h2(3)] show ?thesis by auto
qed

text \<open>C10. Changing the size of a block keeps its bytes up to the smaller of the two sizes, and the bytes
  of all other blocks in use, whether the block stays, is split, or is moved; the block that is
  returned has room for the new size and the heap is well-formed. When the result is \<open>RT_NULL\<close> nothing has
  changed, so the old block is still there.\<close>

theorem rt_smem_realloc_keeps:
  assumes "rep p (xs @ (l, True) # ys) h" and "assert_memory p s = Some ()" and "h_pools h p = Some m"
    and "newsize \<noteq> 0" and "unat newsize \<le> 2 ^ 32 - 8"
  shows "\<exists>r h'. rt_smem_realloc p (Some (sm_heap_ptr m + total xs + 16)) newsize s h = Some (r, h') \<and>
    (case r of None \<Rightarrow> h' = h
     | Some a \<Rightarrow> resized p (unat newsize) (sm_heap_ptr m + total xs + 16) (l - 16) h a h' \<and>
        kept p (area 0 (xs @ (l, False) # ys)) h h')"
  using realloc_spec [OF assms] .

text \<open>Setting up a heap over an area of memory: when the area does not wrap around the address space
  and has room for the pool and two headers, the object is registered and the memory represents a
  single free block that reaches from behind the pool to the item at the end.\<close>

theorem rt_smem_init_rep:
  assumes "rt_object_init (Obj (8 * ((unat begin_addr + 7) div 8))) RT_Object_Class_Memory nm s = Some s'"
    and "begin_addr \<noteq> 0" and "unat begin_addr + unat sz < 2 ^ 32"
    and "8 * ((unat begin_addr + 7) div 8) + 88 \<le> 8 * ((unat begin_addr + unat sz) div 8)"
  shows "\<exists>h' n. rt_smem_init nm begin_addr sz s h = Some (Some (8 * ((unat begin_addr + 7) div 8)), s', h') \<and>
    rep (8 * ((unat begin_addr + 7) div 8)) [(n, False)] h' \<and>
    8 * ((unat begin_addr + 7) div 8) + 72 + n = 8 * ((unat begin_addr + unat sz) div 8)"
proof -
  let ?p = "8 * ((unat begin_addr + 7) div 8)" and ?e = "8 * ((unat begin_addr + unat sz) div 8)"
  from smem_init_spec [OF assms, of h] obtain h' where
    "rt_smem_init nm begin_addr sz s h = Some (Some ?p, s', h')" "rep ?p [(?e - (?p + 72), False)] h'" by blast
  moreover have "?p + 72 + (?e - (?p + 72)) = ?e" using assms(4) by simp
  ultimately show ?thesis by blast
qed

section \<open>A concrete heap\<close>

definition ex_heap_kernel :: kstate where
  "ex_heap_kernel = init_kstate\<lparr>k_obj := [Obj 0x1000 \<mapsto> \<lparr>obj_name = replicate 8 0, obj_type = 0x8c, obj_flag = 0\<rparr>],
    k_container := (\<lambda>_. [])(RT_Object_Class_Memory := [Obj 0x1000])\<rparr>"

lemma ex_heap_object: "rt_object_init (Obj 0x1000) RT_Object_Class_Memory [0] init_kstate = Some ex_heap_kernel"
proof -
  have c: "rt_exit_critical (rt_enter_critical init_kstate) = Some init_kstate"
    by (simp add: rt_exit_critical_def rt_enter_critical_def init_kstate_def)
  have i: "rt_object_get_information 12 = Some 12" by (simp add: rt_object_get_information_def object_container_def)
  have l: "k_container (rt_enter_critical init_kstate) 12 = []" by (simp add: rt_enter_critical_def init_kstate_def)
  have n: "copy_name [0] = replicate 8 0" by (simp add: copy_name_def eval_nat_numeral)
  have o: "(12 :: u8) OR 128 = 0x8c" by simp
  have e: "container_insert 12 (Obj 0x1000) (init_kstate\<lparr>k_obj := (k_obj init_kstate)(Obj 0x1000 \<mapsto>
      \<lparr>obj_name = replicate 8 0, obj_type = 0x8c, obj_flag = 0\<rparr>)\<rparr>) = ex_heap_kernel"
    by (rule kstate.equality) (simp_all add: container_insert_def ex_heap_kernel_def al_head_def init_kstate_def)
  show ?thesis unfolding rt_object_init_def i Option.bind.bind_lunit Let_def object_list_def l n o
    using c e by (simp add: init_kstate_def)
qed

lemma ex_heap_ok: "assert_memory 0x1000 ex_heap_kernel = Some ()"
  by (simp add: assert_memory_def assert_type_def assert_static_def rt_object_get_type_def rt_object_is_systemobject_def ex_heap_kernel_def)

definition ex_empty_heap :: heap where
  "ex_empty_heap = \<lparr>h_mem = (\<lambda>_. 0), h_pools = (\<lambda>_. None), system_heap = None\<rparr>"

definition ex_heap :: heap where
  "ex_heap = snd (snd (the (rt_smem_init [0] 0x1000 0x100 init_kstate ex_empty_heap)))"

lemma ex_heap_rep: "rep 0x1000 [(184, False)] ex_heap" "\<exists>m. h_pools ex_heap 0x1000 = Some m \<and> sm_heap_ptr m = 0x1038"
proof -
  have "\<exists>h'. rt_smem_init [0] 0x1000 0x100 init_kstate ex_empty_heap = Some (Some 0x1000, ex_heap_kernel, h') \<and>
      rep 0x1000 [(184, False)] h' \<and> (\<forall>m. h_pools h' 0x1000 = Some m \<longrightarrow> sm_heap_ptr m = 0x1038)"
    using smem_init_spec [of "0x1000" "[0]" init_kstate ex_heap_kernel "0x100" ex_empty_heap] ex_heap_object by simp
  then show "rep 0x1000 [(184, False)] ex_heap" "\<exists>m. h_pools ex_heap 0x1000 = Some m \<and> sm_heap_ptr m = 0x1038"
    by (auto simp: ex_heap_def rep_def rep0_def)
qed

lemma rt_smem_init_rep_witness:
  "\<exists>h'. rt_smem_init [0] 0x1000 0x100 init_kstate ex_empty_heap = Some (Some 0x1000, ex_heap_kernel, h') \<and> rep 0x1000 [(184, False)] h'"
  using rt_smem_init_rep [of "0x1000" "[0]" init_kstate ex_heap_kernel "0x100" ex_empty_heap] ex_heap_object by auto

lemma rt_smem_alloc_first_fit_witness:
  "\<exists>h'. rt_smem_alloc 0x1000 20 ex_heap_kernel ex_heap = Some (Some 0x1048, h') \<and> rep 0x1000 [(40, True), (144, False)] h'"
proof -
  obtain m where "h_pools ex_heap 0x1000 = Some m" "sm_heap_ptr m = 0x1038" using ex_heap_rep by auto
  with rt_smem_alloc_first_fit [OF ex_heap_rep(1) ex_heap_ok, of m 20]
  show ?thesis by (simp add: rounded_def placed_def) blast
qed

text \<open>The heap after that allocation.\<close>

definition ex_heap_one :: heap where
  "ex_heap_one = snd (the (rt_smem_alloc 0x1000 20 ex_heap_kernel ex_heap))"

lemma ex_heap_one_rep:
  "rep 0x1000 [(40, True), (144, False)] ex_heap_one" "\<exists>m. h_pools ex_heap_one 0x1000 = Some m \<and> sm_heap_ptr m = 0x1038"
  "rt_smem_alloc 0x1000 20 ex_heap_kernel ex_heap = Some (Some 0x1048, ex_heap_one)"
proof -
  obtain m where m: "h_pools ex_heap 0x1000 = Some m" "sm_heap_ptr m = 0x1038" using ex_heap_rep by auto
  with smem_alloc_spec [OF ex_heap_rep(1) ex_heap_ok, of m 20] obtain h' where
    h': "rt_smem_alloc 0x1000 20 ex_heap_kernel ex_heap = Some (Some 0x1048, h')" "rep 0x1000 [(40, True), (144, False)] h'"
      "kept 0x1000 (area 0 [(184, False)]) ex_heap h'"
    by (auto simp: rounded_def placed_def alloc_blocks_def)
  then show "rep 0x1000 [(40, True), (144, False)] ex_heap_one" "\<exists>m. h_pools ex_heap_one 0x1000 = Some m \<and> sm_heap_ptr m = 0x1038"
    "rt_smem_alloc 0x1000 20 ex_heap_kernel ex_heap = Some (Some 0x1048, ex_heap_one)"
    using m by (auto simp: ex_heap_one_def kept_def)
qed

lemma rt_smem_free_merges_witness:
  "\<exists>h'. rt_smem_free (Some 0x1048) ex_heap_kernel ex_heap_one = Some h' \<and> rep 0x1000 [(184, False)] h'"
proof -
  obtain m where m: "h_pools ex_heap_one 0x1000 = Some m" "sm_heap_ptr m = 0x1038" using ex_heap_one_rep by auto
  have "rep 0x1000 ([] @ (40, True) # [(144, False)]) ex_heap_one" using ex_heap_one_rep by simp
  from rt_smem_free_merges [OF this ex_heap_ok m(1)] m(2) show ?thesis by (auto simp: released_def attach_def)
qed

lemma rt_smem_alloc_free_witness:
  "\<exists>h'. rt_smem_free (Some 0x1048) ex_heap_kernel ex_heap_one = Some h' \<and> rep 0x1000 [(184, False)] h'"
proof -
  obtain m where m: "h_pools ex_heap 0x1000 = Some m" using ex_heap_rep by auto
  have "(20 :: u32) \<noteq> 0" "unat (20 :: u32) \<le> 2 ^ 32 - 8" by simp_all
  from rt_smem_alloc_free [OF ex_heap_rep(1) ex_heap_ok m this ex_heap_one_rep(3)] show ?thesis by blast
qed

lemma rt_smem_realloc_keeps_witness:
  "\<exists>r h'. rt_smem_realloc 0x1000 (Some 0x1048) 60 ex_heap_kernel ex_heap_one = Some (r, h')"
proof -
  obtain m where m: "h_pools ex_heap_one 0x1000 = Some m" "sm_heap_ptr m = 0x1038" using ex_heap_one_rep by auto
  have "rep 0x1000 ([] @ (40, True) # [(144, False)]) ex_heap_one" using ex_heap_one_rep by simp
  from rt_smem_realloc_keeps [OF this ex_heap_ok m(1), of 60] m(2) show ?thesis by auto
qed

section \<open>Sizes that wrap around\<close>

text \<open>A size within seven bytes of the address space is rounded up to 0, and a block of 16 bytes is found.\<close>

lemma RT_ALIGN_wraps:
  assumes "sz > 0xfffffff8"
  shows "RT_ALIGN sz 8 = 0"
proof -
  have u: "2 ^ 32 \<le> unat sz + 7" using assms by (simp add: word_less_nat_alt)
  have "unat sz < 2 ^ 32" using unsigned_less [of sz] by simp
  then have "unat (sz + 7) < 8" using u by (simp add: unat_word_ariths le_mod_geq)
  then have "unat (RT_ALIGN_DOWN (sz + 7) 8) = 0" unfolding unat_RT_ALIGN_DOWN by simp
  then show ?thesis by (simp add: RT_ALIGN_def RT_ALIGN_DOWN_def unat_eq_zero add.commute)
qed

lemma rt_smem_alloc_wraps: "sz > 0xfffffff8 \<Longrightarrow> rt_smem_alloc p sz s h = rt_smem_alloc p 16 s h"
proof -
  assume w: "sz > 0xfffffff8"
  then have "sz \<noteq> 0" by auto
  moreover have "RT_ALIGN 16 8 = 16" by (simp add: RT_ALIGN_def)
  ultimately show ?thesis using RT_ALIGN_wraps [OF w] by (simp add: rt_smem_alloc_def)
qed

text \<open>Asking for such a size releases the block instead.\<close>

lemma rt_smem_realloc_wraps:
  "newsize > 0xfffffff8 \<Longrightarrow> assert_memory p s = Some () \<Longrightarrow> h_pools h p = Some m \<Longrightarrow>
   rt_smem_realloc p rmem newsize s h = map_option (Pair None) (rt_smem_free rmem s h)"
  using RT_ALIGN_wraps [of newsize] by (simp add: rt_smem_realloc_def map_option_case bind_eq_Some_conv split: option.split)

end
