(* ===== verification/HeapFrontProps.thy ===== *)
theory HeapFrontProps
  imports MutexGive HeapFront SmallMemProps
begin

text \<open>The front end of the heap: the lock is given back, and what the blocks hold.\<close>

section \<open>The lock\<close>

text \<open>The thread \<open>c\<close> runs, and nobody holds the mutex or waits for it.\<close>

definition mutex_idle :: "addr \<Rightarrow> addr \<Rightarrow> kstate \<Rightarrow> bool" where
  "mutex_idle m c s \<longleftrightarrow> (\<exists>th x. thread_context c s \<and> k_thread s c = Some th \<and> th_current_priority th \<noteq> 0xff \<and>
    is_class (Obj m) RT_Object_Class_Mutex s \<and> k_mutex s m = Some x \<and> mtx_owner x = None \<and>
    mtx_ceiling_priority x = 0xff \<and> k_list s (SuspendQ m) = [] \<and> (\<forall>u. m \<notin> set (k_taken s u)))"

lemma idle_take_release:
  assumes "mutex_idle m c s"
  shows "\<exists>s1 s2. rt_mutex_take m RT_WAITING_FOREVER s = Some (Return RT_EOK, s1) \<and> k_obj s1 = k_obj s \<and>
    rt_mutex_release m s1 = Some (RT_EOK, s2) \<and> mutex_idle m c s2 \<and> k_list s2 = k_list s \<and> k_obj s2 = k_obj s \<and>
    rt_current_thread s1 = Some c \<and> rt_current_thread s2 = Some c \<and> rt_interrupt_nest s2 = rt_interrupt_nest s"
proof -
  from assms obtain th x where
    t: "thread_context c s" "k_thread s c = Some th" "th_current_priority th \<noteq> 0xff"
      "is_class (Obj m) RT_Object_Class_Mutex s" "k_mutex s m = Some x" "mtx_owner x = None"
      "mtx_ceiling_priority x = 0xff" "k_list s (SuspendQ m) = []" "\<And>u. m \<notin> set (k_taken s u)"
    by (auto simp: mutex_idle_def)
  have cur: "rt_current_thread s = Some c" using t(1) by (simp add: thread_context_def)
  let ?h = "th\<lparr>th_error := RT_EOK\<rparr>"
  let ?x = "x\<lparr>mtx_priority := 0xff, mtx_hold := 1, mtx_owner := Some c\<rparr>"
  define s1 where "s1 = taken_insert c m (s\<lparr>k_thread := (k_thread s)(c \<mapsto> ?h), k_mutex := (k_mutex s)(m \<mapsto> ?x)\<rparr>)"
  have l: "rt_mutex_take m RT_WAITING_FOREVER s = Some (Return RT_EOK, s1)"
    using t cur by (simp add: rt_thread_self_def rt_mutex_take_def mutex_take_def mutex_acquire_def assert_type_class s1_def)
  define s2 where "s2 = s\<lparr>k_thread := (k_thread s)(c \<mapsto> ?h), k_mutex := (k_mutex s)(m \<mapsto> x\<lparr>mtx_hold := 0, mtx_priority := 0xff, mtx_owner := None\<rparr>)\<rparr>"
  have nt: "al_remove m (al_head c m (k_taken s)) = k_taken s"
    using t(9) by (auto simp: fun_eq_iff al_head_def al_remove_def remove1_idem)
  have e: "is_class (Obj m) RT_Object_Class_Mutex s1" "thread_context c s1"
    using t(1,2,4) by (simp_all add: is_class_def s1_def taken_insert_def thread_context_def )
  have u: "rt_mutex_release m s1 = Some (RT_EOK, s2)"
    using t e cur by (simp add: rt_thread_self_def rt_mutex_release_def assert_type_class s1_def s2_def
        mutex_restore_def mutex_pass_on_def taken_insert_def taken_remove_def nt)
  have "mutex_idle m c s2" unfolding mutex_idle_def
    using t by (auto simp: s2_def is_class_def thread_context_def)
  then show ?thesis using l u cur by (auto simp: s1_def s2_def taken_insert_def)
qed

text \<open>Nobody holds the lock or waits for it, and a thread runs, or none yet.\<close>

definition lock_free :: "kstate \<Rightarrow> bool" where
  "lock_free s \<longleftrightarrow> rt_current_thread s = None \<or> (\<exists>c. mutex_idle heap_mutex c s)"

lemma lock_unlock:
  assumes "lock_free s"
  shows "\<exists>s1 s2. heap_lock s = Some (Return RT_EOK, s1) \<and> k_obj s1 = k_obj s \<and>
    heap_unlock RT_EOK s1 = Some s2 \<and> lock_free s2 \<and> k_list s2 = k_list s \<and> k_obj s2 = k_obj s \<and> rt_current_thread s2 = rt_current_thread s"
proof (cases "rt_current_thread s")
  case None
  then show ?thesis using assms by (simp add: heap_lock_def heap_unlock_def rt_thread_self_def)
next
  case (Some c)
  with assms obtain c' where "mutex_idle heap_mutex c' s" by (auto simp: lock_free_def)
  moreover from this have "c' = c" using Some by (auto simp: mutex_idle_def thread_context_def)
  ultimately obtain s1 s2 where "rt_mutex_take heap_mutex RT_WAITING_FOREVER s = Some (Return RT_EOK, s1)" "k_obj s1 = k_obj s"
    "rt_mutex_release heap_mutex s1 = Some (RT_EOK, s2)" "mutex_idle heap_mutex c s2" "k_list s2 = k_list s" "k_obj s2 = k_obj s"
    "rt_current_thread s1 = Some c" "rt_current_thread s2 = Some c"
    using idle_take_release [of heap_mutex c s] by blast
  then show ?thesis using Some by (auto simp: heap_lock_def heap_unlock_def rt_thread_self_def lock_free_def)
qed

text \<open>An operation of the heap under a free lock.\<close>

lemma locked_free:
  assumes "lock_free s" and "\<And>s1. k_obj s1 = k_obj s \<Longrightarrow> f s1 h = Some (r, h')"
  shows "\<exists>s2. locked f s h = Some (Return r, s2, h') \<and> lock_free s2 \<and> k_list s2 = k_list s \<and>
    k_obj s2 = k_obj s \<and> rt_current_thread s2 = rt_current_thread s"
proof -
  from lock_unlock [OF assms(1)] obtain s1 s2 where s2: "heap_lock s = Some (Return RT_EOK, s1)" "k_obj s1 = k_obj s"
    "heap_unlock RT_EOK s1 = Some s2" "lock_free s2" "k_list s2 = k_list s" "k_obj s2 = k_obj s"
    "rt_current_thread s2 = rt_current_thread s" by blast
  then have "locked f s h = Some (Return r, s2, h')" using assms(2) [OF s2(2)] by (simp add: locked_def under_lock_def)
  with s2 show ?thesis by blast
qed

lemma assert_memory_cong: "k_obj s1 = k_obj s \<Longrightarrow> assert_memory p s1 = assert_memory p s"
  by (simp add: assert_memory_def assert_type_def assert_static_def rt_object_get_type_def rt_object_is_systemobject_def)

lemma smem_alloc_cong: "k_obj s1 = k_obj s \<Longrightarrow> rt_smem_alloc p sz s1 h = rt_smem_alloc p sz s h"
  by (simp only: rt_smem_alloc_def assert_memory_cong [of s1 s])

lemma smem_free_cong: "k_obj s1 = k_obj s \<Longrightarrow> rt_smem_free a s1 h = rt_smem_free a s h"
  by (simp only: rt_smem_free_def assert_memory_cong [of s1 s])

section \<open>A block just allocated\<close>

text \<open>The heap \<open>h'\<close> has a block at \<open>a\<close> with room for \<open>n\<close> bytes; without it the blocks are \<open>bs\<close>.\<close>

definition fresh :: "addr \<Rightarrow> block list \<Rightarrow> heap \<Rightarrow> addr \<Rightarrow> nat \<Rightarrow> heap \<Rightarrow> bool" where
  "fresh p bs h a n h' \<longleftrightarrow> (\<exists>xs k zs m. rep p (xs @ (k, True) # zs) h' \<and> released xs k zs = bs \<and> h_pools h' p = Some m \<and>
    a = sm_heap_ptr m + total xs + 16 \<and> n + 16 \<le> k \<and> kept p (area 0 bs) h h')"

lemma alloc_fresh:
  assumes "rep p bs h" and "assert_memory p s = Some ()" and "sz \<noteq> 0" and "unat sz \<le> 2 ^ 32 - 8"
  shows "\<exists>r h'. rt_smem_alloc p sz s h = Some (r, h') \<and> (case r of None \<Rightarrow> h' = h | Some a \<Rightarrow> fresh p bs h a (unat sz) h')"
proof -
  obtain m where m: "h_pools h p = Some m" using assms(1) by (auto simp: rep_def rep0_def)
  note sp = smem_alloc_spec [OF assms(1,2) m assms(3,4)]
  show ?thesis
  proof (cases "fit (rounded sz) bs")
    case None
    then show ?thesis using sp by (simp add: alloc_blocks_def)
  next
    case (Some q)
    then obtain xs l ys where f: "fit (rounded sz) bs = Some (xs, l, ys)" by (cases q) auto
    note fd = fit_Some [OF f]
    from f sp obtain h' where h': "rt_smem_alloc p sz s h = Some (Some (sm_heap_ptr m + total xs + 16), h')"
      "rep p (xs @ placed (rounded sz) l @ ys) h'" "kept p (area 0 bs) h h'" by (auto simp: alloc_blocks_def)
    have "no_two_free (xs @ (l, False) # ys)" using assms(1) fd by (simp add: rep_def)
    from released_placed [OF this, of "rounded sz"] fd obtain k zs where
      kz: "placed (rounded sz) l @ ys = (k, True) # zs" "released xs k zs = bs" by auto
    have "rounded sz + 16 \<le> k" using kz(1) fd by (auto simp: placed_def split: if_splits)
    then have "unat sz + 16 \<le> k" using rounded_props(3) [of sz] by linarith
    moreover obtain m' where "h_pools h' p = Some m'" "sm_heap_ptr m' = sm_heap_ptr m" using h'(3) m by (auto simp: kept_def)
    ultimately have "fresh p bs h (sm_heap_ptr m + total xs + 16) (unat sz) h'"
      using h'(2,3) kz unfolding fresh_def by (intro exI [of _ xs] exI [of _ k] exI [of _ zs] exI [of _ m']) simp
    with h'(1) show ?thesis by simp
  qed
qed

lemma fresh_area:
  assumes "fresh p bs h a n h'"
  shows "\<exists>bs' m i. rep p bs' h' \<and> h_pools h' p = Some m \<and> a = sm_heap_ptr m + i \<and> {i..<i + n} \<subseteq> area 0 bs' - area 0 bs \<and>
    sm_heap_ptr m mod 8 = 0 \<and> a mod 8 = 0 \<and> 0 < a \<and> a + n + 16 \<le> 2 ^ 32"
proof -
  from assms obtain xs k zs m where f: "rep p (xs @ (k, True) # zs) h'" "released xs k zs = bs" "h_pools h' p = Some m"
    "a = sm_heap_ptr m + total xs + 16" "n + 16 \<le> k" unfolding fresh_def by blast
  note pd = pool_atD [OF repD [OF f(1,3), THEN conjunct2]]
  have ok: "list_all block_ok xs" "list_all block_ok zs" using pd(10) by simp_all
  have ab: "area 0 bs = area 0 xs \<union> area (total xs + k) zs" unfolding f(2) [symmetric] area_released by simp
  have d: "x \<notin> area 0 bs" if "x \<in> {total xs + 16..<total xs + 16 + n}" for x
    using that f(5) area_range [of x 0 xs] area_range [of x "total xs + k" zs] unfolding ab by auto
  have "{total xs + 16..<total xs + 16 + n} \<subseteq> area 0 (xs @ (k, True) # zs)" using f(5) by auto
  with d have "{total xs + 16..<total xs + 16 + n} \<subseteq> area 0 (xs @ (k, True) # zs) - area 0 bs" by blast
  moreover have "a mod 8 = 0" using pd(4) total_mod [OF ok(1)] f(4) by presburger
  moreover have "a + n + 16 \<le> 2 ^ 32" using pd(6) f(4,5) by simp
  ultimately show ?thesis using f pd(4) by (intro exI [of _ "xs @ (k, True) # zs"] exI [of _ m] exI [of _ "total xs + 16"]) simp
qed

lemma fresh_write:
  assumes fr: "fresh p bs h a n h'" and d: "\<And>x. mem x \<noteq> h_mem h' x \<Longrightarrow> a \<le> x \<and> x < a + n"
  shows "fresh p bs h a n (h'\<lparr>h_mem := mem\<rparr>)"
proof -
  from fresh_area [OF fr] obtain bs'' m0 i where i: "h_pools h' p = Some m0" "a = sm_heap_ptr m0 + i" "{i..<i + n} \<inter> area 0 bs = {}" by blast
  from fr obtain xs k zs m where f: "rep p (xs @ (k, True) # zs) h'" "released xs k zs = bs" "h_pools h' p = Some m"
    "a = sm_heap_ptr m + total xs + 16" "n + 16 \<le> k" "kept p (area 0 bs) h h'" unfolding fresh_def by blast
  have "rep p (xs @ (k, True) # zs) (h'\<lparr>h_mem := mem\<rparr>)"
  proof (rule rep_data [OF f(1,3)])
    fix x assume "mem x \<noteq> h_mem h' x"
    from d [OF this] f(4,5) show "\<exists>b\<in>area 0 (xs @ (k, True) # zs). x = sm_heap_ptr m + b"
      by (intro bexI [of _ "x - sm_heap_ptr m"]) auto
  qed
  moreover have "mem (sm_heap_ptr m + b) = h_mem h' (sm_heap_ptr m + b)" if "b \<in> area 0 bs" for b
    using d [of "sm_heap_ptr m + b"] i f(3) that by (fastforce simp: disjoint_iff)
  then have "kept p (area 0 bs) h (h'\<lparr>h_mem := mem\<rparr>)" using f(3,6) by (auto simp: kept_def)
  ultimately show ?thesis unfolding fresh_def using f by (intro exI [of _ xs] exI [of _ k] exI [of _ zs] exI [of _ m]) simp
qed

lemma fresh_free:
  assumes "fresh p bs h a n h'" and "assert_memory p s = Some ()"
  shows "\<exists>h2. rt_smem_free (Some a) s h' = Some h2 \<and> rep p bs h2 \<and> kept p (area 0 bs) h h2"
proof -
  from assms(1) obtain xs k zs m where f: "rep p (xs @ (k, True) # zs) h'" "released xs k zs = bs" "h_pools h' p = Some m"
    "a = sm_heap_ptr m + total xs + 16" "kept p (area 0 bs) h h'" unfolding fresh_def by blast
  from smem_free_spec [OF f(1) assms(2) f(3)] obtain h2 where r:
    "rt_smem_free (Some a) s h' = Some h2" "rep p bs h2" "kept p (area 0 (xs @ (k, False) # zs)) h' h2"
    using f(2,4) by auto
  have "area 0 (xs @ (k, False) # zs) = area 0 bs" unfolding f(2) [symmetric] by (rule area_released [symmetric])
  with r kept_trans [OF f(5)] show ?thesis by auto
qed

lemma malloc_fresh:
  assumes "lock_free s" and "system_heap h = Some p" and "rep p bs h" and "assert_memory p s = Some ()"
    and "sz \<noteq> 0" and "unat sz \<le> 2 ^ 32 - 8"
  shows "\<exists>r s' h'. rt_malloc sz s h = Some (Return r, s', h') \<and> lock_free s' \<and> k_obj s' = k_obj s \<and>
    (case r of None \<Rightarrow> h' = h | Some a \<Rightarrow> fresh p bs h a (unat sz) h')"
proof -
  from alloc_fresh [OF assms(3-6)] obtain r h' where
    r: "rt_smem_alloc p sz s h = Some (r, h')" "case r of None \<Rightarrow> h' = h | Some a \<Rightarrow> fresh p bs h a (unat sz) h'" by blast
  have "heap_alloc sz s1 h = Some (r, h')" if "k_obj s1 = k_obj s" for s1
    using r(1) assms(2) smem_alloc_cong [OF that] by (simp add: heap_alloc_def)
  from locked_free [of s "heap_alloc sz" h r h', OF assms(1) this] r(2) show ?thesis unfolding rt_malloc_def by blast
qed

lemma free_fresh:
  assumes "lock_free s" and "fresh p bs h a n h'" and "assert_memory p s = Some ()"
  shows "\<exists>s' h2. rt_free (Some a) s h' = Some (Return (), s', h2) \<and> lock_free s' \<and> rep p bs h2 \<and> kept p (area 0 bs) h h2"
proof -
  from fresh_free [OF assms(2,3)] obtain h2 where
    h2: "rt_smem_free (Some a) s h' = Some h2" "rep p bs h2" "kept p (area 0 bs) h h2" by blast
  have "heap_free a s1 h' = Some ((), h2)" if "k_obj s1 = k_obj s" for s1
    using h2(1) smem_free_cong [OF that] by (simp add: heap_free_def)
  from locked_free [of s "heap_free a" h' "()" h2, OF assms(1) this] h2 show ?thesis unfolding rt_free_def by auto
qed

section \<open>Aligned addresses\<close>

lemma and_not_mask: "x AND NOT (2 ^ k - 1) = push_bit k (drop_bit k x)" for x :: u32
  by (rule bit_eqI) (auto simp: bit_simps simp flip: mask_eq_exp_minus_1)

lemma unat_and_not_mask: "unat (x AND NOT (2 ^ k - 1)) = 2 ^ k * (unat x div 2 ^ k)" for x :: u32
proof -
  have "2 ^ k * (unat x div 2 ^ k) \<le> unat x" by simp
  also have "\<dots> < 2 ^ 32" using unsigned_less [of x] by simp
  finally have "2 ^ k * (unat x div 2 ^ k) < 2 ^ 32" .
  moreover have "unat x < 4294967296" using unsigned_less [of x] by simp
  ultimately show ?thesis unfolding and_not_mask unsigned_push_bit_eq unsigned_drop_bit_eq
    by (simp add: push_bit_eq_mult drop_bit_eq_div take_bit_eq_mod mult.commute)
qed

lemma and_mask_zero: "x AND (2 ^ k - 1) = 0 \<longleftrightarrow> unat x mod 2 ^ k = 0" for x :: u32
proof -
  have "x AND (2 ^ k - 1) = take_bit k x" by (simp only: take_bit_eq_mask mask_eq_exp_minus_1)
  moreover have "unat (take_bit k x) = unat x mod 2 ^ k" unfolding unsigned_take_bit_eq by (rule take_bit_eq_mod)
  ultimately show ?thesis by (metis unat_eq_zero)
qed

lemma align_up_eq:
  assumes "unat n + 3 < 2 ^ 32"
  shows "unat (align_up n) = 4 * ((unat n + 3) div 4)"
proof -
  have "unat (n + 3) = unat n + 3" using unat_plus_less [of n 3] assms by simp
  then show ?thesis using unat_and_not_mask [of "n + 3" 2] by (simp add: align_up_def)
qed

lemma align_up_pow:
  assumes "2 \<le> k" "k < 32"
  shows "align_up (2 ^ k) = 2 ^ k"
proof -
  have "(2::nat) ^ k \<le> 2 ^ 31" using assms(2) by (intro power_increasing) auto
  then have p: "unat (2 ^ k :: u32) = 2 ^ k" using u32_of_nat [of "2 ^ k"] by simp
  have d: "(4::nat) dvd 2 ^ k" using assms(1) le_imp_power_dvd [of 2 k "2 :: nat"] by simp
  have "unat (align_up (2 ^ k)) = 4 * ((2 ^ k + 3) div 4)" using align_up_eq [of "2 ^ k"] p \<open>2 ^ k \<le> 2 ^ 31\<close> by simp
  also have "\<dots> = 2 ^ k" using d by presburger
  finally show ?thesis using p by (metis unsigned_word_eqI)
qed

text \<open>The aligned address is the next multiple behind the start of the block, in both cases.\<close>

lemma align_block_next:
  assumes a: "a mod 8 = 0" "a + 2 ^ k < 2 ^ 32" and k: "2 \<le> k" "k < 32"
  shows "\<exists>b. align_block (2 ^ k) (Some a) h = (Some b, h\<lparr>h_mem := store_word (h_mem h) (b - 4) (of_nat a)\<rparr>) \<and>
    b mod 2 ^ k = 0 \<and> a + 4 \<le> b \<and> b \<le> a + 2 ^ k"
proof -
  define b where "b = 2 ^ k * (a div 2 ^ k + 1)"
  have d: "(4::nat) dvd 2 ^ k" using k(1) le_imp_power_dvd [of 2 k "2 :: nat"] by simp
  have md: "a = 2 ^ k * (a div 2 ^ k) + a mod 2 ^ k" by simp
  have b: "a < b" "b \<le> a + 2 ^ k" "b mod 2 ^ k = 0"
  proof -
    have "a mod 2 ^ k < 2 ^ k" by simp
    with md show "a < b" "b \<le> a + 2 ^ k" unfolding b_def distrib_left mult_1_right by linarith+
    show "b mod 2 ^ k = 0" by (simp add: b_def)
  qed
  have "4 dvd b" "4 dvd a" using d a(1) by (auto simp: b_def)
  then have b4: "a + 4 \<le> b" using b(1) by presburger
  have ua: "unat (of_nat a :: u32) = a" by (rule u32_of_nat) (use a(2) in simp)
  have ps: "unat (2 ^ k :: u32) = 2 ^ k" using u32_of_nat [of "2 ^ k"] a(2) by simp
  have "unat (if (of_nat a :: u32) AND (2 ^ k - 1) = 0 then of_nat a + 2 ^ k :: u32 else (of_nat a + (2 ^ k - 1)) AND NOT (2 ^ k - 1)) = b"
  proof (cases "a mod 2 ^ k = 0")
    case True
    then have "(of_nat a :: u32) AND (2 ^ k - 1) = 0" unfolding and_mask_zero ua .
    moreover have "unat (of_nat a + 2 ^ k :: u32) = a + 2 ^ k" using unat_plus_less [of "of_nat a :: u32" "2 ^ k"] ua ps a(2) by simp
    moreover have "b = a + 2 ^ k" using True md by (simp add: b_def distrib_left)
    ultimately show ?thesis by simp
  next
    case False
    then have nz: "(of_nat a :: u32) AND (2 ^ k - 1) \<noteq> 0" unfolding and_mask_zero ua by simp
    have "(of_nat a + (2 ^ k - 1) :: u32) = of_nat (a + 2 ^ k - 1)"
      using of_nat_diff [of 1 "a + 2 ^ k", where 'a = "32 word"] by (simp add: Suc_le_eq)
    then have "unat (of_nat a + (2 ^ k - 1) :: u32) = a + 2 ^ k - 1" using u32_of_nat [of "a + 2 ^ k - 1"] a(2) by simp
    moreover have "(a + 2 ^ k - 1) div 2 ^ k = a div 2 ^ k + 1"
    proof -
      have "a + 2 ^ k - 1 = 2 ^ k * (a div 2 ^ k + 1) + (a mod 2 ^ k - 1)" using md False unfolding distrib_left by linarith
      moreover have "a mod 2 ^ k - 1 < 2 ^ k" using mod_less_divisor [of "2 ^ k" a] by (simp add: less_imp_diff_less)
      ultimately show ?thesis by (simp only: div_mult_self4 div_less)
    qed
    ultimately show ?thesis using nz by (simp add: unat_and_not_mask b_def)
  qed
  moreover from this have "unat ((if (of_nat a :: u32) AND (2 ^ k - 1) = 0 then of_nat a + 2 ^ k :: u32 else (of_nat a + (2 ^ k - 1)) AND NOT (2 ^ k - 1)) - 4) = b - 4"
    by (subst unat_sub) (use b4 in \<open>auto simp: word_le_nat_alt\<close>)
  ultimately have "align_block (2 ^ k) (Some a) h = (Some b, h\<lparr>h_mem := store_word (h_mem h) (b - 4) (of_nat a)\<rparr>)"
    by (simp add: align_block_def Let_def)
  then show ?thesis using b b4 by (intro exI [of _ b]) simp
qed

section \<open>Properties\<close>

text \<open>\<open>rt_calloc\<close> under a free lock: when the product of count and size does not wrap around and
  is not 0, it either returns \<open>RT_NULL\<close> and leaves the heap alone, or a block whose bytes, as many as the product,
  are all 0 and belong to no block that was in use; the heap is well-formed, no byte of the other blocks has
  changed, and the lock is free again.\<close>

theorem rt_calloc_zeroed:
  assumes "lock_free s" and "system_heap h = Some p" and "rep p bs h" and "assert_memory p s = Some ()"
    and "0 < unat count * unat sz" and "unat count * unat sz \<le> 2 ^ 32 - 8"
  shows "\<exists>r s' h'. rt_calloc count sz s h = Some (Return r, s', h') \<and> lock_free s' \<and>
    (case r of None \<Rightarrow> h' = h
     | Some a \<Rightarrow> (\<forall>i\<in>{..<unat count * unat sz}. h_mem h' (a + i) = 0) \<and> kept p (area 0 bs) h h' \<and>
         (\<exists>bs' m i. rep p bs' h' \<and> h_pools h' p = Some m \<and> a = sm_heap_ptr m + i \<and>
            {i..<i + unat count * unat sz} \<subseteq> area 0 bs' - area 0 bs))"
proof -
  let ?n = "unat count * unat sz"
  have n: "unat (count * sz) = ?n" using assms(6) by (simp add: unat_word_ariths)
  then have sz: "count * sz \<noteq> 0" "unat (count * sz) \<le> 2 ^ 32 - 8" using assms(5,6) by auto
  from malloc_fresh [OF assms(1-4) sz] obtain r s' h' where
    r: "rt_malloc (count * sz) s h = Some (Return r, s', h')" "lock_free s'"
      "case r of None \<Rightarrow> h' = h | Some a \<Rightarrow> fresh p bs h a ?n h'" unfolding n by blast
  show ?thesis
  proof (cases r)
    case None
    then show ?thesis using r by (auto simp: rt_calloc_def zeroed_def)
  next
    case (Some a)
    let ?mem = "fill (h_mem h') a ?n 0"
    have z: "zeroed count sz r h' = h'\<lparr>h_mem := ?mem\<rparr>" by (simp add: zeroed_def Some n rt_memset_eq)
    have "fresh p bs h a ?n (h'\<lparr>h_mem := ?mem\<rparr>)"
      by (rule fresh_write) (use r(3) Some in \<open>auto simp: fill_def split: if_splits\<close>)
    moreover from this have "kept p (area 0 bs) h (h'\<lparr>h_mem := ?mem\<rparr>)" by (auto simp: fresh_def)
    ultimately show ?thesis using r(1,2) z Some fresh_area [of p bs h a ?n "h'\<lparr>h_mem := ?mem\<rparr>"]
      by (auto simp: rt_calloc_def fill_def)
  qed
qed

text \<open>\<open>rt_malloc_align\<close> and \<open>rt_free_align\<close> for an alignment of \<open>2 ^ k\<close> bytes, at least 4: the address
  returned is a multiple of the alignment, the size fits behind it in a block that was not in use before, and giving the
  address to \<open>rt_free_align\<close> finds the block again: afterwards the heap has the blocks it had before the
  allocation, and no byte of them has changed.\<close>

theorem rt_malloc_align_free_align:
  assumes "lock_free s" and "system_heap h = Some p" and "rep p bs h" and "assert_memory p s = Some ()"
    and "2 \<le> k" and "unat sz + 2 ^ k + 11 \<le> 2 ^ 32"
  shows "\<exists>r s' h'. rt_malloc_align sz (2 ^ k) s h = Some (Return r, s', h') \<and> lock_free s' \<and>
    (case r of None \<Rightarrow> h' = h
     | Some a \<Rightarrow> a mod 2 ^ k = 0 \<and> kept p (area 0 bs) h h' \<and>
         (\<exists>bs' m i. rep p bs' h' \<and> h_pools h' p = Some m \<and> a = sm_heap_ptr m + i \<and> {i..<i + unat sz} \<subseteq> area 0 bs' - area 0 bs) \<and>
         (\<exists>s2 h2. rt_free_align (Some a) s' h' = Some (Return (), s2, h2) \<and> lock_free s2 \<and> rep p bs h2 \<and> kept p (area 0 bs) h h2))"
proof -
  have "(2::nat) ^ k < 2 ^ 32" using assms(6) by linarith
  then have k: "k < 32" by (rule power_less_imp_less_exp [rotated]) simp
  have ps: "unat (2 ^ k :: u32) = 2 ^ k" using u32_of_nat [of "2 ^ k"] \<open>2 ^ k < 2 ^ 32\<close> by simp
  define n where "n = align_up sz + 2 ^ k"
  have "unat (align_up sz) = 4 * ((unat sz + 3) div 4)" by (rule align_up_eq) (use assms(6) in linarith)
  then have up: "unat sz \<le> unat (align_up sz)" "unat (align_up sz) \<le> unat sz + 3" by linarith+
  have un: "unat n = unat (align_up sz) + 2 ^ k"
    unfolding n_def using unat_plus_less [of "align_up sz" "2 ^ k"] ps up(2) assms(6) by simp
  have n: "n \<noteq> 0" "unat n \<le> 2 ^ 32 - 8" using un up assms(6) by auto
  from malloc_fresh [OF assms(1-4) n] obtain r s' h' where
    r: "rt_malloc n s h = Some (Return r, s', h')" "lock_free s'" "k_obj s' = k_obj s"
      "case r of None \<Rightarrow> h' = h | Some a \<Rightarrow> fresh p bs h a (unat n) h'" by blast
  have start: "rt_malloc_align sz (2 ^ k) s h = (let (b, h) = align_block (2 ^ k) r h' in Some (Return b, s', h))"
    using r(1) unfolding rt_malloc_align_def Let_def align_up_pow [OF assms(5) k] n_def by simp
  show ?thesis
  proof (cases r)
    case None
    then show ?thesis using r start by (simp add: align_block_def)
  next
    case (Some a)
    then have fr: "fresh p bs h a (unat n) h'" using r(4) by simp
    from fresh_area [OF fr] have a: "a mod 8 = 0" "0 < a" "a + unat n + 16 \<le> 2 ^ 32" by - (elim exE conjE, assumption)+
    have "a + 2 ^ k < 2 ^ 32" using a(3) un by linarith
    from align_block_next [OF a(1) this assms(5) k, of h'] obtain b where
      b: "align_block (2 ^ k) (Some a) h' = (Some b, h'\<lparr>h_mem := store_word (h_mem h') (b - 4) (of_nat a)\<rparr>)"
        "b mod 2 ^ k = 0" "a + 4 \<le> b" "b \<le> a + 2 ^ k" by (elim exE conjE)
    define h3 where "h3 = h'\<lparr>h_mem := store_word (h_mem h') (b - 4) (of_nat a)\<rparr>"
    have fr3: "fresh p bs h a (unat n) h3"
      unfolding h3_def
    proof (rule fresh_write [OF fr])
      show "a \<le> x \<and> x < a + unat n" if "store_word (h_mem h') (b - 4) (of_nat a) x \<noteq> h_mem h' x" for x
        using that store_other [of x "b - 4" "h_mem h'"] b(3,4) un by fastforce
    qed
    from fresh_area [OF fr3] obtain bs' m i where i: "rep p bs' h3" "h_pools h3 p = Some m" "a = sm_heap_ptr m + i"
      "{i..<i + unat n} \<subseteq> area 0 bs' - area 0 bs" by blast
    have "{i + (b - a)..<i + (b - a) + unat sz} \<subseteq> {i..<i + unat n}" using b(3,4) un up(1) by auto
    then have room: "{i + (b - a)..<i + (b - a) + unat sz} \<subseteq> area 0 bs' - area 0 bs" using i(4) by blast
    have "assert_memory p s' = Some ()" using assms(4) assert_memory_cong [OF r(3)] by simp
    from free_fresh [OF r(2) fr3 this] obtain s2 h2 where
      f: "rt_free (Some a) s' h3 = Some (Return (), s2, h2)" "lock_free s2" "rep p bs h2" "kept p (area 0 bs) h h2" by blast
    have "unat (of_nat b - 4 :: u32) = b - 4"
      using b(3,4) a(3) un u32_of_nat [of "b - 4"] by (simp add: of_nat_diff)
    moreover have "unat (of_nat a :: u32) = a" "(of_nat a :: u32) \<noteq> 0"
      using a(2,3) u32_of_nat [of a] by (auto simp: unat_eq_zero [symmetric])
    ultimately have "rt_free_align (Some b) s' h3 = rt_free (Some a) s' h3"
      by (simp add: rt_free_align_def h3_def)
    moreover have "b = sm_heap_ptr m + (i + (b - a))" using i(3) b(3) by simp
    moreover have "kept p (area 0 bs) h h3" using fr3 by (auto simp: fresh_def)
    ultimately have "b mod 2 ^ k = 0 \<and> kept p (area 0 bs) h h3 \<and>
         (\<exists>bs' m i. rep p bs' h3 \<and> h_pools h3 p = Some m \<and> b = sm_heap_ptr m + i \<and> {i..<i + unat sz} \<subseteq> area 0 bs' - area 0 bs) \<and>
         (\<exists>s2 h2. rt_free_align (Some b) s' h3 = Some (Return (), s2, h2) \<and> lock_free s2 \<and> rep p bs h2 \<and> kept p (area 0 bs) h h2)"
      using b(2) i(1,2) room f by metis
    then show ?thesis using start Some b(1) r(2) by (auto simp: h3_def)
  qed
qed

section \<open>At a concrete input\<close>

definition ex_system_heap :: heap where "ex_system_heap = ex_heap\<lparr>system_heap := Some 0x1000\<rparr>"

lemma ex_system_heap_ok:
  "lock_free ex_heap_kernel" "system_heap ex_system_heap = Some 0x1000" "rep 0x1000 [(184, False)] ex_system_heap"
  using ex_heap_rep(1) by (simp_all add: ex_system_heap_def lock_free_def ex_heap_kernel_def init_kstate_def rep_def rep0_def)

lemma rt_calloc_zeroed_witness:
  "\<exists>r s' h'. rt_calloc 3 8 ex_heap_kernel ex_system_heap = Some (Return r, s', h') \<and> lock_free s'"
  using rt_calloc_zeroed [OF ex_system_heap_ok ex_heap_ok, of 3 8] by auto

lemma rt_malloc_align_free_align_witness:
  "\<exists>r s' h'. rt_malloc_align 20 32 ex_heap_kernel ex_system_heap = Some (Return r, s', h') \<and> lock_free s'"
  using rt_malloc_align_free_align [OF ex_system_heap_ok ex_heap_ok, of 5 20] by auto

text \<open>The product of \<open>rt_calloc\<close> is computed in 32 bits: asking for \<open>2 ^ 30 + 1\<close> objects of four bytes allocates
  one word.\<close>

lemma rt_calloc_wraps: "rt_calloc 0x40000001 4 s h = rt_calloc 1 4 s h"
proof -
  have "0x40000001 * 4 = (1 * 4 :: u32)" by (rule word_unat_eq_iff [THEN iffD2]) simp
  then show ?thesis by (simp only: rt_calloc_def zeroed_def)
qed

end
