(* ===== verification/MemPool.thy ===== *)
theory MemPool
  imports HeapFront IpcWait
begin

text \<open>
  The memory pools of \<open>rt-thread/src/mempool.c\<close>: blocks of one size, the free ones linked through
  the word in front of each block, which in a used block points to the pool. The words are those of the
  byte memory of the heap. A thread that finds the pool empty waits in the queue of the pool, the last one in
  front; a blocking allocation is split at the scheduling point.
\<close>

section \<open>The data\<close>

text \<open>The fields of the structure except for its header and its queue, which are parts of the kernel state.\<close>

record rt_mempool =
  mp_start_address :: u32
  mp_size :: u32
  mp_block_size :: u32
  mp_block_list :: u32
  mp_block_total_count :: u32
  mp_block_free_count :: u32

record mp_state =
  mp_heap :: heap
  mp_pools :: "addr \<Rightarrow> rt_mempool option"

definition mp_mem :: "mp_state \<Rightarrow> mem" where "mp_mem ms = h_mem (mp_heap ms)"

definition set_mem :: "mem \<Rightarrow> mp_state \<Rightarrow> mp_state" where
  "set_mem mem ms = ms\<lparr>mp_heap := (mp_heap ms)\<lparr>h_mem := mem\<rparr>\<rparr>"

definition set_pool :: "addr \<Rightarrow> rt_mempool \<Rightarrow> mp_state \<Rightarrow> mp_state" where
  "set_pool mp x ms = ms\<lparr>mp_pools := (mp_pools ms)(mp \<mapsto> x)\<rparr>"

section \<open>Setting up\<close>

text \<open>The loop that links the blocks from \<open>offset\<close> on, with the step from one to the next, and the end of the list.\<close>

fun link_blocks :: "u32 \<Rightarrow> u32 \<Rightarrow> u32 \<Rightarrow> nat \<Rightarrow> mem \<Rightarrow> mem" where
  "link_blocks block_ptr step offset 0 mem = mem"
| "link_blocks block_ptr step offset (Suc n) mem =
     link_blocks block_ptr step (offset + 1) n
       (store_word mem (unat (block_ptr + offset * step)) (block_ptr + (offset + 1) * step))"

definition free_list :: "u32 \<Rightarrow> u32 \<Rightarrow> u32 \<Rightarrow> mem \<Rightarrow> mem" where
  "free_list block_ptr step num mem =
    store_word (link_blocks block_ptr step 0 (unat num) mem) (unat (block_ptr + (num - 1) * step)) 0"

definition rt_mp_init :: "addr \<Rightarrow> u8 list \<Rightarrow> u32 \<Rightarrow> u32 \<Rightarrow> u32 \<Rightarrow> kstate \<Rightarrow> mp_state \<Rightarrow> (rt_err \<times> kstate \<times> mp_state) option" where
  "rt_mp_init mp nm start sz block_size s ms = do {
    RT_ASSERT (start \<noteq> 0);
    RT_ASSERT (sz > 0 \<and> block_size > 0);
    s \<leftarrow> rt_object_init (Obj mp) RT_Object_Class_MemPool nm s;
    let sz = RT_ALIGN_DOWN sz RT_ALIGN_SIZE;
    let block_size = RT_ALIGN block_size RT_ALIGN_SIZE;
    let num = sz div (block_size + 4);
    let s = ipc_object_init mp s;
    let ms = set_mem (free_list start (block_size + 4) num (mp_mem ms)) ms;
    let ms = set_pool mp \<lparr>mp_start_address = start, mp_size = sz, mp_block_size = block_size, mp_block_list = start,
      mp_block_total_count = num, mp_block_free_count = num\<rparr> ms;
    Some (RT_EOK, s, ms) }"

definition rt_mp_detach :: "addr \<Rightarrow> kstate \<Rightarrow> (rt_err \<times> kstate) option" where
  "rt_mp_detach mp s = do {
    _ \<leftarrow> assert_type (Obj mp) RT_Object_Class_MemPool s;
    _ \<leftarrow> assert_static (Obj mp) True s;
    s \<leftarrow> ipc_list_resume_all (SuspendQ mp) s;
    s \<leftarrow> rt_object_detach (Obj mp) s;
    Some (RT_EOK, s) }"

text \<open>\<open>rt_mp_create\<close> after \<open>rt_malloc\<close> has returned, and the whole of it.\<close>

definition mp_create_blocks :: "addr \<Rightarrow> u32 \<Rightarrow> addr option \<Rightarrow> kstate \<Rightarrow> mp_state \<Rightarrow> (addr option \<times> kstate \<times> mp_state) option" where
  "mp_create_blocks mp block_count start s ms = do {
    x \<leftarrow> mp_pools ms mp;
    case start of
      None \<Rightarrow> do { s \<leftarrow> rt_object_delete (Obj mp) s; Some (None, s, ms) }
    | Some start \<Rightarrow> do {
        let s = ipc_object_init mp s;
        let ms = set_mem (free_list (of_nat start) (mp_block_size x + 4) block_count (mp_mem ms)) ms;
        let ms = set_pool mp (x\<lparr>mp_start_address := of_nat start, mp_block_list := of_nat start,
          mp_block_total_count := block_count, mp_block_free_count := block_count\<rparr>) ms;
        Some (Some mp, s, ms) } }"

definition rt_mp_create :: "addr option \<Rightarrow> u8 list \<Rightarrow> u32 \<Rightarrow> u32 \<Rightarrow> kstate \<Rightarrow> mp_state \<Rightarrow> (addr option outcome \<times> kstate \<times> mp_state) option" where
  "rt_mp_create mem nm block_count block_size s ms = do {
    _ \<leftarrow> RT_DEBUG_NOT_IN_INTERRUPT s;
    RT_ASSERT (block_count > 0 \<and> block_size > 0);
    (a, s) \<leftarrow> rt_object_allocate mem RT_Object_Class_MemPool nm s;
    case a of
      None \<Rightarrow> Some (Return None, s, ms)
    | Some mp \<Rightarrow> do {
        let block_size = RT_ALIGN block_size RT_ALIGN_SIZE;
        let ms = set_pool mp \<lparr>mp_start_address = 0, mp_size = (block_size + 4) * block_count, mp_block_size = block_size,
          mp_block_list = 0, mp_block_total_count = 0, mp_block_free_count = 0\<rparr> ms;
        (start, s, h) \<leftarrow> rt_malloc ((block_size + 4) * block_count) s (mp_heap ms);
        let ms = ms\<lparr>mp_heap := h\<rparr>;
        case start of
          Blocked \<Rightarrow> Some (Blocked, s, ms)
        | Return start \<Rightarrow> do {
            (r, s, ms) \<leftarrow> mp_create_blocks mp block_count start s ms;
            Some (Return r, s, ms) } } }"

definition mp_create_resume :: "addr \<Rightarrow> addr \<Rightarrow> u32 \<Rightarrow> kstate \<Rightarrow> mp_state \<Rightarrow> (addr option \<times> kstate \<times> mp_state) option" where
  "mp_create_resume thread mp block_count s ms = do {
    x \<leftarrow> mp_pools ms mp;
    (start, s, h) \<leftarrow> rt_malloc_resume thread ((mp_block_size x + 4) * block_count) s (mp_heap ms);
    mp_create_blocks mp block_count start s (ms\<lparr>mp_heap := h\<rparr>) }"

definition rt_mp_delete :: "addr \<Rightarrow> kstate \<Rightarrow> mp_state \<Rightarrow> (rt_err outcome \<times> kstate \<times> mp_state) option" where
  "rt_mp_delete mp s ms = do {
    _ \<leftarrow> RT_DEBUG_NOT_IN_INTERRUPT s;
    _ \<leftarrow> assert_type (Obj mp) RT_Object_Class_MemPool s;
    _ \<leftarrow> assert_static (Obj mp) False s;
    s \<leftarrow> ipc_list_resume_all (SuspendQ mp) s;
    x \<leftarrow> mp_pools ms mp;
    let start = (if mp_start_address x = 0 then None else Some (unat (mp_start_address x)));
    (r, s, h) \<leftarrow> rt_free start s (mp_heap ms);
    case r of
      Blocked \<Rightarrow> Some (Blocked, s, ms\<lparr>mp_heap := h\<rparr>)
    | Return _ \<Rightarrow> do {
        s \<leftarrow> rt_object_delete (Obj mp) s;
        Some (Return RT_EOK, s, ms\<lparr>mp_heap := h\<rparr>) } }"

definition mp_delete_resume :: "addr \<Rightarrow> addr \<Rightarrow> kstate \<Rightarrow> mp_state \<Rightarrow> (rt_err \<times> kstate \<times> mp_state) option" where
  "mp_delete_resume thread mp s ms = do {
    x \<leftarrow> mp_pools ms mp;
    (_, s, h) \<leftarrow> rt_free_resume thread (unat (mp_start_address x)) s (mp_heap ms);
    s \<leftarrow> rt_object_delete (Obj mp) s;
    Some (RT_EOK, s, ms\<lparr>mp_heap := h\<rparr>) }"

section \<open>Allocating and releasing\<close>

text \<open>The body of the loop of \<open>rt_mp_alloc\<close>, up to the scheduling point.\<close>

definition mp_wait :: "addr \<Rightarrow> u32 \<Rightarrow> kstate \<Rightarrow> (addr option outcome \<times> kstate) option" where
  "mp_wait mp time s =
    (if time = 0 then do {
       s \<leftarrow> rt_set_errno (- RT_ETIMEOUT) s;
       Some (Return None, s)
     } else do {
       _ \<leftarrow> RT_DEBUG_NOT_IN_INTERRUPT s;
       thread \<leftarrow> rt_thread_self s;
       s \<leftarrow> upd_thread thread (\<lambda>th. th\<lparr>th_error := RT_EOK\<rparr>) s;
       (_, s) \<leftarrow> rt_thread_suspend thread s;
       let s = tlist_head (SuspendQ mp) thread s;
       s \<leftarrow> wait_timer thread time s;
       s \<leftarrow> rt_schedule s;
       Some (Blocked, s) })"

definition mp_take :: "addr \<Rightarrow> mp_state \<Rightarrow> (addr \<times> mp_state) option" where
  "mp_take mp ms = do {
    x \<leftarrow> mp_pools ms mp;
    let block_ptr = mp_block_list x;
    RT_ASSERT (block_ptr \<noteq> 0);
    let ms = set_pool mp (x\<lparr>mp_block_free_count := mp_block_free_count x - 1,
      mp_block_list := load_word (mp_mem ms) (unat block_ptr)\<rparr>) ms;
    let ms = set_mem (store_word (mp_mem ms) (unat block_ptr) (of_nat mp)) ms;
    Some (unat (block_ptr + 4), ms) }"

definition rt_mp_alloc :: "addr \<Rightarrow> u32 \<Rightarrow> kstate \<Rightarrow> mp_state \<Rightarrow> (addr option outcome \<times> kstate \<times> mp_state) option" where
  "rt_mp_alloc mp time s ms = do {
    x \<leftarrow> mp_pools ms mp;
    if mp_block_free_count x = 0 then do { (r, s) \<leftarrow> mp_wait mp time s; Some (r, s, ms) }
    else do { (a, ms) \<leftarrow> mp_take mp ms; Some (Return (Some a), s, ms) } }"

text \<open>The thread when it runs again; \<open>before_sleep\<close> is the tick at which it went to sleep.\<close>

definition mp_alloc_resume :: "addr \<Rightarrow> addr \<Rightarrow> u32 \<Rightarrow> u32 \<Rightarrow> kstate \<Rightarrow> mp_state \<Rightarrow> (addr option outcome \<times> kstate \<times> mp_state) option" where
  "mp_alloc_resume mp thread time before_sleep s ms = do {
    th \<leftarrow> k_thread s thread;
    if th_error th \<noteq> RT_EOK then Some (Return None, s, ms)
    else rt_mp_alloc mp (time_left time before_sleep (rt_tick s)) s ms }"

definition rt_mp_free :: "addr option \<Rightarrow> kstate \<Rightarrow> mp_state \<Rightarrow> (kstate \<times> mp_state) option" where
  "rt_mp_free block s ms = (case block of
      None \<Rightarrow> Some (s, ms)
    | Some block \<Rightarrow> do {
        in_bounds (4 \<le> block);
        let block_ptr = block - 4;
        let mp = unat (load_word (mp_mem ms) block_ptr);
        x \<leftarrow> mp_pools ms mp;
        let ms = set_mem (store_word (mp_mem ms) block_ptr (mp_block_list x)) ms;
        let ms = set_pool mp (x\<lparr>mp_block_free_count := mp_block_free_count x + 1, mp_block_list := of_nat block_ptr\<rparr>) ms;
        s \<leftarrow> wake_first (SuspendQ mp) s;
        Some (s, ms) })"

end
