(* ===== verification/MemPoolProps.thy ===== *)
theory MemPoolProps
  imports MemPool SmallMemProps
begin

text \<open>
  The memory pools are correct: the words in front of the blocks represent the list of the free blocks,
  from which blocks are taken and to which they are returned at the front.
\<close>

section \<open>The representation\<close>

text \<open>The addresses of the blocks, with the word in front of the data.\<close>

definition block_at :: "rt_mempool \<Rightarrow> nat \<Rightarrow> addr" where
  "block_at x i = unat (mp_start_address x) + i * (unat (mp_block_size x) + 4)"

definition first_block :: "rt_mempool \<Rightarrow> nat list \<Rightarrow> u32" where
  "first_block x fr = (case fr of [] \<Rightarrow> 0 | i # _ \<Rightarrow> of_nat (block_at x i))"

fun links :: "rt_mempool \<Rightarrow> mem \<Rightarrow> nat list \<Rightarrow> bool" where
  "links x mem [] \<longleftrightarrow> True"
| "links x mem (i # fr) \<longleftrightarrow> load_word mem (block_at x i) = first_block x fr \<and> links x mem fr"

text \<open>The pool of \<open>n\<close> blocks has the free ones \<open>fr\<close>, in the order in which they will be taken.\<close>

definition pool_ok :: "addr \<Rightarrow> rt_mempool \<Rightarrow> nat \<Rightarrow> nat list \<Rightarrow> mem \<Rightarrow> bool" where
  "pool_ok mp x n fr mem \<longleftrightarrow> mp < 2 ^ 32 \<and> 0 < unat (mp_start_address x) \<and> block_at x n \<le> 2 ^ 32 \<and>
    unat (mp_block_total_count x) = n \<and> unat (mp_block_free_count x) = length fr \<and> distinct fr \<and> set fr \<subseteq> {..<n} \<and>
    mp_block_list x = first_block x fr \<and> links x mem fr \<and> (\<forall>i\<in>{..<n} - set fr. load_word mem (block_at x i) = of_nat mp)"

definition pool_rep :: "addr \<Rightarrow> nat \<Rightarrow> nat list \<Rightarrow> mp_state \<Rightarrow> bool" where
  "pool_rep mp n fr ms \<longleftrightarrow> (\<exists>x. mp_pools ms mp = Some x \<and> pool_ok mp x n fr (mp_mem ms))"

lemma pool_okD:
  assumes "pool_ok mp x n fr mem"
  shows "mp < 2 ^ 32" "0 < unat (mp_start_address x)" "block_at x n \<le> 2 ^ 32" "unat (mp_block_total_count x) = n"
    "unat (mp_block_free_count x) = length fr" "distinct fr" "set fr \<subseteq> {..<n}" "mp_block_list x = first_block x fr"
    "links x mem fr" "i < n \<Longrightarrow> i \<notin> set fr \<Longrightarrow> load_word mem (block_at x i) = of_nat mp"
  using assms by (auto simp: pool_ok_def)

lemma state_simps [simp]:
  "mp_mem (set_mem m ms) = m" "mp_pools (set_mem m ms) = mp_pools ms" "mp_mem (set_pool mp x ms) = mp_mem ms"
  "mp_pools (set_pool mp x ms) = (mp_pools ms)(mp \<mapsto> x)"
  by (simp_all add: mp_mem_def set_mem_def set_pool_def)

lemma block_at_less:
  assumes "i < j"
  shows "block_at x i + (unat (mp_block_size x) + 4) \<le> block_at x j"
proof -
  have "(i + 1) * (unat (mp_block_size x) + 4) \<le> j * (unat (mp_block_size x) + 4)"
    by (rule mult_le_mono1) (use assms in simp)
  then show ?thesis by (simp add: block_at_def)
qed

lemma block_at_apart: "i \<noteq> j \<Longrightarrow> block_at x i + 4 \<le> block_at x j \<or> block_at x j + 4 \<le> block_at x i"
  using block_at_less [of i j x] block_at_less [of j i x] by (cases "i < j") auto

lemma block_at_inj: "block_at x i = block_at x j \<longleftrightarrow> i = j"
  using block_at_apart [of i j x] by fastforce

lemma block_at_word:
  assumes "block_at x n \<le> 2 ^ 32" and "i < n"
  shows "unat (of_nat (block_at x i) :: u32) = block_at x i" "unat (of_nat (block_at x i) + 4 :: u32) = block_at x i + 4 \<or> unat (mp_block_size x) = 0"
proof -
  have l: "block_at x i + (unat (mp_block_size x) + 4) \<le> 2 ^ 32" using block_at_less [OF assms(2), of x] assms(1) by linarith
  then show "unat (of_nat (block_at x i) :: u32) = block_at x i" by (intro u32_of_nat) simp
  show "unat (of_nat (block_at x i) + 4 :: u32) = block_at x i + 4 \<or> unat (mp_block_size x) = 0"
    using u32_of_nat [of "block_at x i + 4"] l by auto
qed

lemma first_block_0:
  assumes "block_at x n \<le> 2 ^ 32" and "0 < unat (mp_start_address x)" and "set fr \<subseteq> {..<n}"
  shows "first_block x fr = 0 \<longleftrightarrow> fr = []"
proof (cases fr)
  case (Cons i l)
  then have "unat (of_nat (block_at x i) :: u32) = block_at x i" using block_at_word(1) [OF assms(1), of i] assms(3) by simp
  moreover have "0 < block_at x i" using assms(2) by (simp add: block_at_def)
  ultimately have "(of_nat (block_at x i) :: u32) \<noteq> 0" by (metis less_numeral_extra(3) unat_0)
  with Cons show ?thesis by (simp add: first_block_def)
qed (simp add: first_block_def)

text \<open>Writing the word of a block that is not in the list.\<close>

lemma links_store:
  assumes "i \<notin> set fr"
  shows "links x (store_word mem (block_at x i) w) fr = links x mem fr"
  using assms
proof (induction fr)
  case (Cons j fr)
  then have "load_word (store_word mem (block_at x i) w) (block_at x j) = load_word mem (block_at x j)"
    using block_at_apart [of i j x] by (intro load_store_other) auto
  with Cons show ?case by simp
qed simp

lemma links_cong:
  assumes "mp_start_address y = mp_start_address x" and "mp_block_size y = mp_block_size x"
  shows "block_at y i = block_at x i" "first_block y fr = first_block x fr" "links y mem fr = links x mem fr"
proof -
  have b: "block_at y = block_at x" using assms by (simp add: fun_eq_iff block_at_def)
  then have f: "first_block y = first_block x" by (simp add: fun_eq_iff first_block_def split: list.split)
  show "block_at y i = block_at x i" "first_block y fr = first_block x fr" using b f by simp_all
  show "links y mem fr = links x mem fr" by (induction fr) (simp_all add: b f)
qed

section \<open>Taking and returning a block\<close>

definition taken_pool :: "mem \<Rightarrow> nat \<Rightarrow> rt_mempool \<Rightarrow> rt_mempool" where
  "taken_pool mem i x = x\<lparr>mp_block_free_count := mp_block_free_count x - 1, mp_block_list := load_word mem (block_at x i)\<rparr>"

definition given_pool :: "nat \<Rightarrow> rt_mempool \<Rightarrow> rt_mempool" where
  "given_pool i x = x\<lparr>mp_block_free_count := mp_block_free_count x + 1, mp_block_list := of_nat (block_at x i)\<rparr>"

lemma pool_change [simp]:
  "mp_start_address (taken_pool mem i x) = mp_start_address x" "mp_block_size (taken_pool mem i x) = mp_block_size x"
  "mp_start_address (given_pool i x) = mp_start_address x" "mp_block_size (given_pool i x) = mp_block_size x"
  by (simp_all add: taken_pool_def given_pool_def)

lemmas pool_same [simp] = links_cong [OF pool_change(1,2)] links_cong [OF pool_change(3,4)]

lemma mp_take_spec:
  fixes ms defines "mem \<equiv> mp_mem ms"
  assumes m: "mp_pools ms mp = Some x" and ok: "pool_ok mp x n (i # fr) mem" and bs: "0 < unat (mp_block_size x)"
  shows "mp_take mp ms = Some (block_at x i + 4,
      set_pool mp (taken_pool mem i x) (set_mem (store_word mem (block_at x i) (of_nat mp)) ms))"
    and "pool_ok mp (taken_pool mem i x) n fr (store_word mem (block_at x i) (of_nat mp))"
proof -
  note d = pool_okD [OF ok]
  have i: "i < n" "i \<notin> set fr" using d(6,7) by auto
  note w = block_at_word [OF d(3) i(1)]
  have bl: "mp_block_list x = of_nat (block_at x i)" using d(8) by (simp add: first_block_def)
  have nz: "mp_block_list x \<noteq> 0" using first_block_0 [OF d(3,2,7)] d(8) by simp
  have "unat (mp_block_free_count x - 1) = length fr"
    using d(5) by (subst unat_minus_one) (auto simp: unat_eq_zero [symmetric])
  moreover have "load_word (store_word mem (block_at x i) (of_nat mp)) (block_at x j) = of_nat mp"
    if "j < n" "j \<notin> set fr" for j
  proof (cases "j = i")
    case False
    then show ?thesis using that d(10) [of j] block_at_apart [of i j x] by (subst load_store_other) auto
  qed simp
  ultimately show "pool_ok mp (taken_pool mem i x) n fr (store_word mem (block_at x i) (of_nat mp))"
    using d i unfolding pool_ok_def pool_same pool_change by (auto simp: taken_pool_def links_store)
  have "unat (mp_block_list x + 4) = block_at x i + 4" using w(2) bs bl by auto
  then show "mp_take mp ms = Some (block_at x i + 4,
      set_pool mp (taken_pool mem i x) (set_mem (store_word mem (block_at x i) (of_nat mp)) ms))"
    using m nz w(1) by (simp add: mp_take_def bl taken_pool_def mem_def) (simp add: set_pool_def set_mem_def)
qed

lemma mp_free_spec:
  fixes ms defines "mem \<equiv> mp_mem ms"
  assumes m: "mp_pools ms mp = Some x" and ok: "pool_ok mp x n fr mem" and i: "i < n" "i \<notin> set fr"
    and w: "wake_first (SuspendQ mp) s = Some s'"
  shows "rt_mp_free (Some (block_at x i + 4)) s ms =
      Some (s', set_pool mp (given_pool i x) (set_mem (store_word mem (block_at x i) (first_block x fr)) ms))"
    and "pool_ok mp (given_pool i x) n (i # fr) (store_word mem (block_at x i) (first_block x fr))"
proof -
  note d = pool_okD [OF ok]
  have lw: "unat (load_word mem (block_at x i)) = mp" using d(10) [OF i] u32_of_nat [OF d(1)] by simp
  have "length fr < n"
  proof -
    have "card (set fr) < card {..<n}" by (rule psubset_card_mono) (use d(7) i in auto)
    then show ?thesis using distinct_card [OF d(6)] by simp
  qed
  then have "unat (mp_block_free_count x + 1) = Suc (length fr)"
    using unat_Suc_less [of "mp_block_free_count x" "mp_block_total_count x"] d(4,5) by (simp add: word_less_nat_alt)
  moreover have "load_word (store_word mem (block_at x i) (first_block x fr)) (block_at x j) = of_nat mp"
    if "j < n" "j \<noteq> i" "j \<notin> set fr" for j
    using that d(10) [of j] block_at_apart [of i j x] by (subst load_store_other) auto
  ultimately show "pool_ok mp (given_pool i x) n (i # fr) (store_word mem (block_at x i) (first_block x fr))"
    using d i unfolding pool_ok_def pool_same pool_change
    by (auto simp: given_pool_def links_store first_block_def [of _ "i # fr"])
  show "rt_mp_free (Some (block_at x i + 4)) s ms =
      Some (s', set_pool mp (given_pool i x) (set_mem (store_word mem (block_at x i) (first_block x fr)) ms))"
    using m w d(8) lw by (simp add: rt_mp_free_def Let_def given_pool_def mem_def)
qed

text \<open>Both together change nothing.\<close>

lemma store_load: "store_word m a (load_word m a) = m"
  by (rule ext) (simp add: store_word_def load_word_bytes fun_upd_def)

lemma store_store: "store_word (store_word m a v) a w = store_word m a w"
  by (rule ext) (simp add: store_word_def)

lemma given_taken:
  assumes "mp_pools ms mp = Some x" and "pool_ok mp x n (i # fr) (mp_mem ms)"
  shows "set_pool mp (given_pool i (taken_pool (mp_mem ms) i x)) (set_mem (store_word (store_word (mp_mem ms) (block_at x i) w) (block_at x i) (first_block x fr))
    (set_pool mp y (set_mem m' ms))) = ms"
proof -
  note d = pool_okD [OF assms(2)]
  have "given_pool i (taken_pool (mp_mem ms) i x) = x"
    unfolding given_pool_def pool_same using d(8) by (simp add: taken_pool_def first_block_def)
  moreover have "store_word (store_word (mp_mem ms) (block_at x i) w) (block_at x i) (first_block x fr) = mp_mem ms"
    using d(9) by (metis links.simps(2) store_load store_store)
  ultimately show ?thesis using assms(1)
    by (intro mp_state.equality) (auto simp: set_pool_def set_mem_def mp_mem_def)
qed

section \<open>A new pool\<close>

lemma link_blocks_spec:
  assumes "4 \<le> k" and "a + (f + c) * k \<le> 2 ^ 32"
  shows "load_word (link_blocks (of_nat a) (of_nat k) (of_nat f) c mem) (a + j * k) =
    (if f \<le> j \<and> j < f + c then of_nat (a + (j + 1) * k) else load_word mem (a + j * k))"
  using assms(2)
proof (induction c arbitrary: f mem)
  case (Suc c)
  have f1: "(of_nat f + 1 :: u32) = of_nat (f + 1)" by simp
  have "f * k + k \<le> (f + Suc c) * k" by (simp add: distrib_right)
  then have u: "unat (of_nat (a + f * k) :: u32) = a + f * k"
    by (intro u32_of_nat) (use assms(1) Suc.prems in linarith)
  have st: "(of_nat a + of_nat f * of_nat k :: u32) = of_nat (a + f * k)" by simp
  have st1: "(of_nat a + of_nat (f + 1) * of_nat k :: u32) = of_nat (a + (f + 1) * k)" by (simp only: of_nat_add of_nat_mult)
  have ap: "a + f * k + 4 \<le> a + j * k \<or> a + j * k + 4 \<le> a + f * k" if "j \<noteq> f"
  proof (cases "j < f")
    case True
    then have "(j + 1) * k \<le> f * k" by (intro mult_le_mono1) simp
    with assms(1) show ?thesis by simp
  next
    case False
    then have "(f + 1) * k \<le> j * k" by (intro mult_le_mono1) (use that in simp)
    with assms(1) show ?thesis by simp
  qed
  have "a + (f + 1 + c) * k \<le> 2 ^ 32" using Suc.prems by simp
  note IH = Suc.IH [OF this]
  have eq: "link_blocks (of_nat a) (of_nat k) (of_nat f) (Suc c) mem =
      link_blocks (of_nat a) (of_nat k) (of_nat (f + 1)) c (store_word mem (a + f * k) (of_nat (a + (f + 1) * k)))"
    unfolding link_blocks.simps(2) f1 st st1 u ..
  show ?case
    unfolding eq IH using ap by (cases "j = f") (auto simp: load_store_other simp del: of_nat_add of_nat_mult)
qed auto

lemma links_upt:
  assumes "\<And>j. a \<le> j \<Longrightarrow> j < n \<Longrightarrow> load_word mem (block_at x j) = (if j + 1 = n then 0 else of_nat (block_at x (j + 1)))"
  shows "links x mem [a..<n]"
  using assms
proof (induction "n - a" arbitrary: a)
  case (Suc c)
  then have a: "a < n" by simp
  have "links x mem [Suc a..<n]" by (rule Suc.hyps(1)) (use Suc in auto)
  moreover have "first_block x [Suc a..<n] = (if a + 1 = n then 0 else of_nat (block_at x (a + 1)))"
    using a by (simp add: first_block_def upt_conv_Cons)
  ultimately show ?case using Suc.prems [of a] a by (simp add: upt_conv_Cons)
qed simp

lemma free_list_spec:
  assumes mp: "mp < 2 ^ 32" and nz: "0 < unat (mp_start_address x)" and b: "block_at x n \<le> 2 ^ 32" and n: "0 < n"
    and c: "unat (mp_block_total_count x) = n" "mp_block_free_count x = mp_block_total_count x" "mp_block_list x = mp_start_address x"
  shows "pool_ok mp x n [0..<n] (free_list (mp_start_address x) (mp_block_size x + 4) (mp_block_total_count x) mem)"
proof -
  let ?k = "unat (mp_block_size x) + 4" and ?a = "unat (mp_start_address x)"
  have st: "mp_start_address x = of_nat ?a" "mp_block_size x + 4 = of_nat ?k" by simp_all
  have tot: "mp_block_total_count x = of_nat n" using c(1) by (metis of_nat_unat ucast_id)
  have nm: "(of_nat n - 1 :: u32) = of_nat (n - 1)" using n by (simp add: of_nat_diff)
  have last: "unat (of_nat ?a + (of_nat n - 1) * of_nat ?k :: u32) = block_at x (n - 1)"
  proof -
    have "(of_nat ?a + (of_nat n - 1) * of_nat ?k :: u32) = of_nat (block_at x (n - 1))"
      unfolding nm block_at_def by (simp only: of_nat_add of_nat_mult)
    then show ?thesis using block_at_word(1) [OF b, of "n - 1"] n by simp
  qed
  let ?m = "free_list (mp_start_address x) (mp_block_size x + 4) (mp_block_total_count x) mem"
  have z: "(0 :: u32) = of_nat 0" by simp
  have eq: "?m = store_word (link_blocks (of_nat ?a) (of_nat ?k) (of_nat 0) n mem) (block_at x (n - 1)) 0"
    unfolding free_list_def last [symmetric] c(1) st(2) by (subst (1 2) st(1)) (simp add: tot)
  have "load_word ?m (block_at x j) = (if j + 1 = n then 0 else of_nat (block_at x (j + 1)))" if "j < n" for j
  proof (cases "j = n - 1")
    case True
    then show ?thesis using n by (simp add: eq)
  next
    case False
    then have "load_word ?m (block_at x j) = load_word (link_blocks (of_nat ?a) (of_nat ?k) (of_nat 0) n mem) (block_at x j)"
      unfolding eq using block_at_apart [of "n - 1" j x] by (intro load_store_other) auto
    moreover have "load_word (link_blocks (of_nat ?a) (of_nat ?k) (of_nat 0) n mem) (block_at x j) = of_nat (block_at x (j + 1))"
      unfolding block_at_def using link_blocks_spec [of ?k ?a 0 n mem j] b that by (simp add: block_at_def)
    moreover have "j + 1 \<noteq> n" using False by linarith
    ultimately show ?thesis by simp
  qed
  then have "links x ?m [0..<n]" by (intro links_upt) simp
  moreover have "first_block x [0..<n] = mp_start_address x"
    using n by (simp add: first_block_def upt_conv_Cons block_at_def)
  ultimately show ?thesis using assms by (auto simp: pool_ok_def)
qed

section \<open>Waiting\<close>

lemma mp_wait_spec:
  assumes kw: "kwf s" and ctx: "thread_context t s" and tm: "time \<noteq> 0" "time \<noteq> 0x7fffffff"
  shows "\<exists>s'. mp_wait mp time s = Some (Blocked, s') \<and> blocked (SuspendQ mp) t RT_EOK 2 time s s'"
proof -
  obtain th where th: "k_thread s t = Some th" and cur: "rt_current_thread s = Some t" and ni: "rt_interrupt_nest s = 0"
    using ctx by (auto simp: thread_context_def)
  have x: "suspend_stat RT_UNINTERRUPTIBLE = Some 7" by (simp add: suspend_stat_def)
  from suspend_block_spec [OF kw ctx th _ x tm(2), of "SuspendQ mp" 0 2] th cur ni tm(1) show ?thesis
    by (auto simp: mp_wait_def RT_DEBUG_NOT_IN_INTERRUPT_def rt_interrupt_get_nest_def rt_thread_self_def rt_thread_suspend_def
        tlist_head_def al_head_def enqueue_def)
qed

section \<open>Properties\<close>

text \<open>C20. A new memory pool: when the area holds \<open>n\<close> blocks of the size, rounded up to eight bytes, with the word in front
  of each, all of them are free in the order of their addresses, they lie inside the area one after the other, and
  no thread waits.\<close>

theorem rt_mp_init_rep:
  assumes "rt_object_init (Obj mp) RT_Object_Class_MemPool nm s = Some s'" and "mp < 2 ^ 32" and "start \<noteq> 0"
    and "unat start + unat sz \<le> 2 ^ 32" and "block_size \<noteq> 0" and "unat block_size \<le> 2 ^ 32 - 8"
    and "n = 8 * (unat sz div 8) div (8 * ((unat block_size + 7) div 8) + 4)" and "0 < n"
  shows "\<exists>s2 ms' x. rt_mp_init mp nm start sz block_size s ms = Some (RT_EOK, s2, ms') \<and> k_list s2 (SuspendQ mp) = [] \<and>
    mp_pools ms' mp = Some x \<and> pool_ok mp x n [0..<n] (mp_mem ms') \<and> block_at x 0 = unat start \<and>
    block_at x n \<le> unat start + unat sz \<and> unat block_size \<le> unat (mp_block_size x) \<and> 0 < unat (mp_block_size x)"
proof -
  let ?b = "RT_ALIGN block_size 8" and ?sz = "RT_ALIGN_DOWN sz 8"
  have b: "unat ?b = 8 * ((unat block_size + 7) div 8)" by (rule unat_RT_ALIGN) (use assms(6) in simp)
  have bb: "unat block_size \<le> unat ?b" "0 < unat ?b" "unat ?b \<le> 2 ^ 32 - 8"
  proof -
    have "0 < unat block_size" "unat block_size \<le> 4294967288" using assms(5,6) by (simp_all add: unat_gt_0)
    then show "unat block_size \<le> unat ?b" "0 < unat ?b" "unat ?b \<le> 2 ^ 32 - 8" unfolding b by (presburger, presburger, simp)
  qed
  have b4: "unat (?b + 4) = unat ?b + 4" using unat_plus_less [of ?b 4] bb(3) by simp
  have z: "unat ?sz = 8 * (unat sz div 8)" by (rule unat_RT_ALIGN_DOWN)
  have num: "unat (?sz div (?b + 4)) = n" unfolding unat_div z b4 b assms(7) ..
  have pos: "0 < sz"
  proof -
    have "sz \<noteq> 0" using assms(7,8) by (intro notI) simp
    then show ?thesis by (simp add: word_neq_0_conv)
  qed
  define x where "x = \<lparr>mp_start_address = start, mp_size = ?sz, mp_block_size = ?b, mp_block_list = start,
      mp_block_total_count = ?sz div (?b + 4), mp_block_free_count = ?sz div (?b + 4)\<rparr>"
  have "n * (unat ?b + 4) \<le> unat ?sz" unfolding num [symmetric] unat_div b4 by (rule div_times_less_eq_dividend)
  also have "\<dots> \<le> unat sz" unfolding z by simp
  finally have area: "block_at x n \<le> unat start + unat sz" by (simp add: block_at_def x_def)
  have nz: "0 < unat start" using assms(3) by (simp add: unat_gt_0)
  have "pool_ok mp x n [0..<n] (free_list start (?b + 4) (?sz div (?b + 4)) (mp_mem ms))"
    using free_list_spec [of mp x n "mp_mem ms"] assms(2,4,8) nz area num by (simp add: x_def)
  moreover have "rt_mp_init mp nm start sz block_size s ms = Some (RT_EOK, ipc_object_init mp s',
      set_pool mp x (set_mem (free_list start (?b + 4) (?sz div (?b + 4)) (mp_mem ms)) ms))"
    using assms(1,3,5) pos by (simp add: rt_mp_init_def Let_def x_def word_neq_0_conv)
  ultimately show ?thesis using area bb(1,2)
    by (intro exI conjI) (assumption | simp add: ipc_object_init_def x_def block_at_def)+
qed

text \<open>Taking a block from a pool that has one: the caller gets the data behind the word of the first free block, without
  waiting, only that word of the memory changes, and the block is no longer free; giving the same address
  back restores the pool and the memory exactly, when no thread waits.\<close>

theorem rt_mp_alloc_free:
  assumes "mp_pools ms mp = Some x" and "pool_ok mp x n (i # fr) (mp_mem ms)" and "0 < unat (mp_block_size x)"
    and "k_list s (SuspendQ mp) = []"
  shows "\<exists>ms1 y. rt_mp_alloc mp time s ms = Some (Return (Some (block_at x i + 4)), s, ms1) \<and>
    mp_pools ms1 mp = Some y \<and> pool_ok mp y n fr (mp_mem ms1) \<and> (\<forall>a\<in>- {block_at x i..<block_at x i + 4}. mp_mem ms1 a = mp_mem ms a) \<and>
    rt_mp_free (Some (block_at x i + 4)) s ms1 = Some (s, ms)"
proof -
  note d = pool_okD [OF assms(2)] and tk = mp_take_spec [OF assms(1-3)]
  let ?y = "taken_pool (mp_mem ms) i x"
  let ?ms1 = "set_pool mp ?y (set_mem (store_word (mp_mem ms) (block_at x i) (of_nat mp)) ms)"
  have nz: "mp_block_free_count x \<noteq> 0" using d(5) by auto
  have al: "rt_mp_alloc mp time s ms = Some (Return (Some (block_at x i + 4)), s, ?ms1)"
    using assms(1) tk(1) nz by (simp add: rt_mp_alloc_def)
  have m1: "mp_pools ?ms1 mp = Some ?y" and ok1: "pool_ok mp ?y n fr (mp_mem ?ms1)" using tk(2) by simp_all
  have i: "i < n" "i \<notin> set fr" using d(6,7) by auto
  have wf: "wake_first (SuspendQ mp) s = Some s" using assms(4) by (simp add: wake_first_def)
  have "rt_mp_free (Some (block_at x i + 4)) s ?ms1 = Some (s, ms)"
    using mp_free_spec(1) [OF m1 ok1 i wf] given_taken [OF assms(1,2)] by simp
  moreover have "mp_mem ?ms1 a = mp_mem ms a" if "a \<in> - {block_at x i..<block_at x i + 4}" for a
    using that store_other [of a "block_at x i"] by auto
  ultimately show ?thesis using al m1 ok1 by blast
qed

text \<open>C18. \<open>rt_mp_alloc\<close> on every branch, from a thread: a free block is handed out at once; from an empty pool the call
  returns \<open>RT_NULL\<close> with the error code \<open>-RT_ETIMEOUT\<close> when the time is 0, and otherwise the thread waits in front
  of the queue of the pool, suspended, with its timer set when the time is positive. The pool is the same in both cases.\<close>

theorem rt_mp_alloc_outcomes:
  assumes "kwf s" and "thread_context t s" and "mp_pools ms mp = Some x" and "pool_ok mp x n fr (mp_mem ms)"
    and "0 < unat (mp_block_size x)" and "time \<noteq> 0x7fffffff"
  shows "case fr of
      i # fr' \<Rightarrow> \<exists>ms'. rt_mp_alloc mp time s ms = Some (Return (Some (block_at x i + 4)), s, ms') \<and> pool_rep mp n fr' ms'
    | [] \<Rightarrow> if time = 0
        then \<exists>th. k_thread s t = Some th \<and>
          rt_mp_alloc mp time s ms = Some (Return None, s\<lparr>k_thread := (k_thread s)(t \<mapsto> th\<lparr>th_error := - RT_ETIMEOUT\<rparr>)\<rparr>, ms)
        else \<exists>s'. rt_mp_alloc mp time s ms = Some (Blocked, s', ms) \<and> kwf s' \<and>
          k_list s' (SuspendQ mp) = t # k_list s (SuspendQ mp) \<and>
          (\<exists>th. k_thread s' t = Some th \<and> suspended th \<and> th_error th = RT_EOK) \<and>
          (if sint time > 0 then timer_set t (rt_tick s + time) s' else True)"
proof (cases fr)
  case (Cons i fr')
  note ok = assms(4) [unfolded Cons]
  note tk = mp_take_spec [OF assms(3) ok assms(5)]
  have "mp_block_free_count x \<noteq> 0" using pool_okD(5) [OF ok] by auto
  then show ?thesis using tk assms(3) Cons unfolding pool_rep_def by (auto simp: rt_mp_alloc_def)
next
  case Nil
  then have z: "mp_block_free_count x = 0" using pool_okD(5) [OF assms(4)] by (simp add: unat_eq_zero)
  obtain th where th: "k_thread s t = Some th" "rt_current_thread s = Some t" "rt_interrupt_nest s = 0"
    using assms(2) by (auto simp: thread_context_def)
  show ?thesis
  proof (cases "time = 0")
    case True
    then show ?thesis using Nil z th assms(3)
      by (simp add: rt_mp_alloc_def mp_wait_def rt_set_errno_def rt_interrupt_get_nest_def rt_thread_self_def)
  next
    case False
    from mp_wait_spec [OF assms(1,2) False assms(6), of mp] obtain s' where
      s': "mp_wait mp time s = Some (Blocked, s')" "blocked (SuspendQ mp) t RT_EOK 2 time s s'" by blast
    note b = blockedD [OF s'(2)]
    have "k_list s' (SuspendQ mp) = t # k_list s (SuspendQ mp)" using b(4) [of "SuspendQ mp"] by (simp add: enqueue_def)
    then show ?thesis using s'(1) b(1,5,6) False Nil z assms(3) by (auto simp: rt_mp_alloc_def)
  qed
qed

text \<open>Releasing a block while the pool is empty and a thread waits: the thread at the front of the queue leaves it and can
  run again without an error, and when it continues, before another thread has taken the block,
  its allocation returns exactly the released block.\<close>

theorem rt_mp_sleeper_gets:
  assumes "kwf s" and "rt_current_thread s \<noteq> None" and "k_list s (SuspendQ mp) = t # rest"
    and "mp_pools ms mp = Some x" and "pool_ok mp x n [] (mp_mem ms)" and "0 < unat (mp_block_size x)" and "i < n"
  shows "\<exists>s1 ms1 ms2 th. rt_mp_free (Some (block_at x i + 4)) s ms = Some (s1, ms1) \<and> kwf s1 \<and>
    k_list s1 (SuspendQ mp) = rest \<and> k_thread s1 t = Some th \<and> runnable th \<and> th_error th = RT_EOK \<and> pool_rep mp n [i] ms1 \<and>
    (\<forall>s2 h. k_thread s2 t = Some h \<longrightarrow> th_error h = RT_EOK \<longrightarrow>
      mp_alloc_resume mp t time before_sleep s2 ms1 = Some (Return (Some (block_at x i + 4)), s2, ms2)) \<and>
    pool_rep mp n [] ms2"
proof -
  from wake_first_spec [OF assms(1,2), of "SuspendQ mp"] obtain s1 where
    s1: "wake_first (SuspendQ mp) s = Some s1" "kwf s1" "first_woken (SuspendQ mp) s s1" by auto
  then obtain th where th: "k_list s1 (SuspendQ mp) = rest" "k_thread s1 t = Some th" "runnable th" "th_error th = RT_EOK"
    using assms(3) by (auto simp: first_woken_def)
  have ni: "i \<notin> set []" by simp
  note fr = mp_free_spec [OF assms(4,5,7) ni s1(1)]
  let ?ms1 = "set_pool mp (given_pool i x) (set_mem (store_word (mp_mem ms) (block_at x i) (first_block x [])) ms)"
  have m1: "mp_pools ?ms1 mp = Some (given_pool i x)" and ok1: "pool_ok mp (given_pool i x) n [i] (mp_mem ?ms1)"
    using fr(2) by simp_all
  have bs: "0 < unat (mp_block_size (given_pool i x))" using assms(6) by simp
  note tk = mp_take_spec [OF m1 ok1 bs]
  let ?ms2 = "set_pool mp (taken_pool (mp_mem ?ms1) i (given_pool i x)) (set_mem (store_word (mp_mem ?ms1) (block_at (given_pool i x) i) (of_nat mp)) ?ms1)"
  have "mp_block_free_count (given_pool i x) \<noteq> 0" using pool_okD(5) [OF ok1] by auto
  then have al: "rt_mp_alloc mp tm s2 ?ms1 = Some (Return (Some (block_at x i + 4)), s2, ?ms2)" for tm s2
    using m1 tk(1) by (simp add: rt_mp_alloc_def)
  have "mp_alloc_resume mp t time before_sleep s2 ?ms1 = Some (Return (Some (block_at x i + 4)), s2, ?ms2)"
    if "k_thread s2 t = Some h" "th_error h = RT_EOK" for s2 h
    using that al by (simp add: mp_alloc_resume_def)
  moreover have "pool_rep mp n [i] ?ms1" "pool_rep mp n [] ?ms2" using m1 ok1 tk(2) unfolding pool_rep_def by auto
  ultimately show ?thesis using fr(1) s1(2) th
    by (intro exI [of _ s1] exI [of _ ?ms1] exI [of _ ?ms2] exI [of _ th] conjI allI impI) assumption+
qed

section \<open>A pool as its users see it\<close>

text \<open>Calls without waiting, with the blocks by number, against a list of numbers: the last block returned is the first to be
  taken again. A client may return only what it has.\<close>

datatype mp_call = Alloc | Free nat

fun lifo_run :: "nat \<Rightarrow> mp_call list \<Rightarrow> nat list \<Rightarrow> (nat option list \<times> nat list) option" where
  "lifo_run n [] fr = Some ([], fr)"
| "lifo_run n (Alloc # cs) fr = (case fr of
      [] \<Rightarrow> do { (rs, fr) \<leftarrow> lifo_run n cs []; Some (None # rs, fr) }
    | i # fr \<Rightarrow> do { (rs, fr) \<leftarrow> lifo_run n cs fr; Some (Some i # rs, fr) })"
| "lifo_run n (Free i # cs) fr = (if i < n \<and> i \<notin> set fr then lifo_run n cs (i # fr) else None)"

fun mp_run :: "addr \<Rightarrow> (nat \<Rightarrow> addr) \<Rightarrow> mp_call list \<Rightarrow> kstate \<Rightarrow> mp_state \<Rightarrow> (addr option list \<times> kstate \<times> mp_state) option" where
  "mp_run mp at [] s ms = Some ([], s, ms)"
| "mp_run mp at (Alloc # cs) s ms = do {
     (r, s, ms) \<leftarrow> rt_mp_alloc mp 0 s ms;
     case r of
       Blocked \<Rightarrow> None
     | Return a \<Rightarrow> do { (rs, s, ms) \<leftarrow> mp_run mp at cs s ms; Some (a # rs, s, ms) } }"
| "mp_run mp at (Free i # cs) s ms = do {
     (s, ms) \<leftarrow> rt_mp_free (Some (at i)) s ms;
     mp_run mp at cs s ms }"

text \<open>The bytes that do not belong to the words in front of the blocks.\<close>

definition data_kept :: "rt_mempool \<Rightarrow> nat \<Rightarrow> mem \<Rightarrow> mem \<Rightarrow> bool" where
  "data_kept x n mem mem' \<longleftrightarrow> (\<forall>a. mem' a \<noteq> mem a \<longrightarrow> (\<exists>i<n. block_at x i \<le> a \<and> a < block_at x i + 4))"

lemma data_kept_refl [simp]: "data_kept x n mem mem"
  by (simp add: data_kept_def)

lemma data_kept_store:
  assumes "data_kept y n (store_word mem (block_at x i) w) mem'" and "i < n" and "block_at y = block_at x"
  shows "data_kept x n mem mem'"
  unfolding data_kept_def
proof (intro allI impI)
  fix a assume "mem' a \<noteq> mem a"
  then consider "mem' a \<noteq> store_word mem (block_at x i) w a" | "store_word mem (block_at x i) w a \<noteq> mem a" by fastforce
  then show "\<exists>i<n. block_at x i \<le> a \<and> a < block_at x i + 4"
  proof cases
    case 1
    then show ?thesis using assms(1,3) by (auto simp: data_kept_def)
  next
    case 2
    then have "\<not> (a < block_at x i \<or> block_at x i + 4 \<le> a)" using store_other [of a "block_at x i" mem w] by blast
    then show ?thesis using assms(2) by (intro exI [of _ i]) auto
  qed
qed

text \<open>C17. Over any sequence of allocations without waiting and releases, the pool behaves like a list of block numbers from whose
  front blocks are taken and returned: the addresses handed out are those of the list, an allocation fails exactly
  when the list is empty, so no block is ever handed out twice, and the data of the blocks is not touched.\<close>

theorem rt_mp_run_lifo:
  assumes "lifo_run n cs fr = Some (rs, fr')" and "mp_pools ms mp = Some x" and "pool_ok mp x n fr (mp_mem ms)"
    and "0 < unat (mp_block_size x)" and "thread_context t s" and "k_list s (SuspendQ mp) = []"
  shows "\<exists>s' ms' y. mp_run mp (\<lambda>i. block_at x i + 4) cs s ms = Some (map (map_option (\<lambda>i. block_at x i + 4)) rs, s', ms') \<and>
    mp_pools ms' mp = Some y \<and> pool_ok mp y n fr' (mp_mem ms') \<and> data_kept x n (mp_mem ms) (mp_mem ms')"
  using assms
proof (induction cs arbitrary: fr rs x s ms)
  case Nil
  then show ?case by auto
next
  case (Cons c cs)
  note m = Cons.prems(2) and ok = Cons.prems(3) and bs = Cons.prems(4) and ctx = Cons.prems(5) and nw = Cons.prems(6)
  show ?case
  proof (cases c)
    case [simp]: Alloc
    show ?thesis
    proof (cases fr)
      case Nil
      then obtain rs' where rs: "lifo_run n cs [] = Some (rs', fr')" "rs = None # rs'"
        using Cons.prems(1) by (auto simp: bind_eq_Some_conv)
      obtain th where th: "k_thread s t = Some th" using ctx by (auto simp: thread_context_def)
      let ?s = "s\<lparr>k_thread := (k_thread s)(t \<mapsto> th\<lparr>th_error := - RT_ETIMEOUT\<rparr>)\<rparr>"
      have "mp_block_free_count x = 0" using pool_okD(5) [OF ok] Nil by (simp add: unat_eq_zero)
      then have al: "rt_mp_alloc mp 0 s ms = Some (Return None, ?s, ms)"
        using m ctx th by (simp add: rt_mp_alloc_def mp_wait_def rt_set_errno_def rt_interrupt_get_nest_def rt_thread_self_def thread_context_def)
      have "k_list ?s (SuspendQ mp) = []" using nw by simp
      from Cons.IH [OF rs(1) m ok [unfolded Nil] bs thread_context_error [OF ctx th] this] al rs(2) show ?thesis by fastforce
    next
      case (Cons i fr1)
      then obtain rs' where rs: "lifo_run n cs fr1 = Some (rs', fr')" "rs = Some i # rs'"
        using Cons.prems(1) by (auto simp: bind_eq_Some_conv)
      note tk = mp_take_spec [OF m ok [unfolded Cons] bs]
      let ?y = "taken_pool (mp_mem ms) i x"
      let ?ms = "set_pool mp ?y (set_mem (store_word (mp_mem ms) (block_at x i) (of_nat mp)) ms)"
      have "mp_block_free_count x \<noteq> 0" using pool_okD(5) [OF ok] Cons by auto
      then have al: "rt_mp_alloc mp 0 s ms = Some (Return (Some (block_at x i + 4)), s, ?ms)"
        using m tk(1) by (simp add: rt_mp_alloc_def)
      have "mp_pools ?ms mp = Some ?y" "pool_ok mp ?y n fr1 (mp_mem ?ms)" "0 < unat (mp_block_size ?y)" using tk(2) bs by simp_all
      from Cons.IH [OF rs(1) this ctx nw] obtain s' ms' y where
        r: "mp_run mp (\<lambda>i. block_at x i + 4) cs s ?ms = Some (map (map_option (\<lambda>i. block_at x i + 4)) rs', s', ms')"
          "mp_pools ms' mp = Some y" "pool_ok mp y n fr' (mp_mem ms')" "data_kept ?y n (mp_mem ?ms) (mp_mem ms')" by auto
      have "i < n" using pool_okD(7) [OF ok] Cons by simp
      from data_kept_store [OF _ this] r(4) have "data_kept x n (mp_mem ms) (mp_mem ms')" by (auto simp: fun_eq_iff)
      with r al rs(2) show ?thesis by auto
    qed
  next
    case [simp]: (Free i)
    have i: "i < n" "i \<notin> set fr" and rs: "lifo_run n cs (i # fr) = Some (rs, fr')"
      using Cons.prems(1) by (auto split: if_splits)
    have "wake_first (SuspendQ mp) s = Some s" using nw by (simp add: wake_first_def)
    note fs = mp_free_spec [OF m ok i this]
    let ?y = "given_pool i x"
    let ?ms = "set_pool mp ?y (set_mem (store_word (mp_mem ms) (block_at x i) (first_block x fr)) ms)"
    have "mp_pools ?ms mp = Some ?y" "pool_ok mp ?y n (i # fr) (mp_mem ?ms)" "0 < unat (mp_block_size ?y)" using fs(2) bs by simp_all
    from Cons.IH [OF rs this ctx nw] obtain s' ms' y where
      r: "mp_run mp (\<lambda>i. block_at x i + 4) cs s ?ms = Some (map (map_option (\<lambda>i. block_at x i + 4)) rs, s', ms')"
        "mp_pools ms' mp = Some y" "pool_ok mp y n fr' (mp_mem ms')" "data_kept ?y n (mp_mem ?ms) (mp_mem ms')" by auto
    from data_kept_store [OF _ i(1)] r(4) have "data_kept x n (mp_mem ms) (mp_mem ms')" by (auto simp: fun_eq_iff)
    with r fs(1) show ?thesis by auto
  qed
qed

section \<open>At a concrete input\<close>

definition ex_pool_kernel :: kstate where
  "ex_pool_kernel = init_kstate\<lparr>k_obj := [Obj 20 \<mapsto> \<lparr>obj_name = replicate 8 0, obj_type = 0x88, obj_flag = 0\<rparr>],
    k_container := (\<lambda>_. [])(RT_Object_Class_MemPool := [Obj 20])\<rparr>"

lemma ex_pool_object: "rt_object_init (Obj 20) RT_Object_Class_MemPool [0] init_kstate = Some ex_pool_kernel"
proof -
  have c: "rt_exit_critical (rt_enter_critical init_kstate) = Some init_kstate"
    by (simp add: rt_exit_critical_def rt_enter_critical_def init_kstate_def)
  have i: "rt_object_get_information 8 = Some 8" by (simp add: rt_object_get_information_def object_container_def)
  have l: "k_container (rt_enter_critical init_kstate) 8 = []" by (simp add: rt_enter_critical_def init_kstate_def)
  have n: "copy_name [0] = replicate 8 0" by (simp add: copy_name_def eval_nat_numeral)
  have o: "(8 :: u8) OR 128 = 0x88" by simp
  have e: "container_insert 8 (Obj 20) (init_kstate\<lparr>k_obj := (k_obj init_kstate)(Obj 20 \<mapsto>
      \<lparr>obj_name = replicate 8 0, obj_type = 0x88, obj_flag = 0\<rparr>)\<rparr>) = ex_pool_kernel"
    by (rule kstate.equality) (simp_all add: container_insert_def ex_pool_kernel_def al_head_def init_kstate_def)
  show ?thesis unfolding rt_object_init_def i Option.bind.bind_lunit Let_def object_list_def l n o
    using c e by (simp add: init_kstate_def)
qed

definition ex_pool :: rt_mempool where
  "ex_pool = \<lparr>mp_start_address = 0x100, mp_size = 24, mp_block_size = 8, mp_block_list = 0x100,
    mp_block_total_count = 2, mp_block_free_count = 2\<rparr>"

definition ex_pool_state :: mp_state where
  "ex_pool_state = \<lparr>mp_heap = ex_empty_heap\<lparr>h_mem := free_list 0x100 12 2 (\<lambda>_. 0)\<rparr>, mp_pools = [20 \<mapsto> ex_pool]\<rparr>"

lemma ex_pool_ok: "mp_pools ex_pool_state 20 = Some ex_pool" "pool_ok 20 ex_pool 2 [0, 1] (mp_mem ex_pool_state)"
proof -
  have u: "[0, 1] = [0..<2::nat]" by (simp add: upt_conv_Cons)
  show "mp_pools ex_pool_state 20 = Some ex_pool" by (simp add: ex_pool_state_def)
  show "pool_ok 20 ex_pool 2 [0, 1] (mp_mem ex_pool_state)"
    using free_list_spec [of 20 ex_pool 2 "\<lambda>_. 0"] unfolding u
    by (simp add: ex_pool_def ex_pool_state_def mp_mem_def block_at_def)
qed

text \<open>The same pool when both blocks are in use.\<close>

definition ex_pool_empty :: mp_state where
  "ex_pool_empty = set_pool 20 (ex_pool\<lparr>mp_block_list := 0, mp_block_free_count := 0\<rparr>)
    (set_mem (store_word (store_word (\<lambda>_. 0) 0x100 20) 0x10c 20) ex_pool_state)"

lemma ex_pool_empty_ok: "mp_pools ex_pool_empty 20 = Some (ex_pool\<lparr>mp_block_list := 0, mp_block_free_count := 0\<rparr>)"
  "pool_ok 20 (ex_pool\<lparr>mp_block_list := 0, mp_block_free_count := 0\<rparr>) 2 [] (mp_mem ex_pool_empty)"
proof -
  show "mp_pools ex_pool_empty 20 = Some (ex_pool\<lparr>mp_block_list := 0, mp_block_free_count := 0\<rparr>)" by (simp add: ex_pool_empty_def)
  have "load_word (store_word (store_word (\<lambda>_. 0) 0x100 20) 0x10c 20) 0x100 = 20"
    by (subst load_store_other) simp_all
  then show "pool_ok 20 (ex_pool\<lparr>mp_block_list := 0, mp_block_free_count := 0\<rparr>) 2 [] (mp_mem ex_pool_empty)"
    by (simp add: pool_ok_def ex_pool_empty_def ex_pool_def block_at_def first_block_def less_2_cases_iff Ball_def)
qed

definition ex_pool_quiet :: kstate where
  "ex_pool_quiet = ex_timed\<lparr>k_list := (\<lambda>_. [])\<rparr>"

lemma ex_pool_quiet_ok: "thread_context 10 ex_pool_quiet" "k_list ex_pool_quiet (SuspendQ 20) = []"
  using ex_timed_context by (simp_all add: ex_pool_quiet_def thread_context_def)

lemma rt_mp_init_rep_witness:
  "\<exists>s2 ms' x. rt_mp_init 20 [0] 0x100 24 8 init_kstate ex_pool_state = Some (RT_EOK, s2, ms') \<and>
    mp_pools ms' 20 = Some x \<and> pool_ok 20 x 2 [0..<2] (mp_mem ms')"
proof -
  have "unat (24 :: u32) = 24" "unat (8 :: u32) = 8" by simp_all
  then have "2 = 8 * (unat (24 :: u32) div 8) div (8 * ((unat (8 :: u32) + 7) div 8) + 4)" by (simp only:) simp
  from rt_mp_init_rep [OF ex_pool_object _ _ _ _ _ this, of "0x100" ex_pool_state] show ?thesis by fastforce
qed

lemma rt_mp_alloc_free_witness:
  "\<exists>ms1. rt_mp_alloc 20 0 init_kstate ex_pool_state = Some (Return (Some 0x104), init_kstate, ms1) \<and>
    rt_mp_free (Some 0x104) init_kstate ms1 = Some (init_kstate, ex_pool_state)"
  using rt_mp_alloc_free [OF ex_pool_ok, of init_kstate 0] by (auto simp: ex_pool_def block_at_def init_kstate_def)

lemma rt_mp_alloc_outcomes_witness:
  "\<exists>s'. rt_mp_alloc 20 5 ex_timed ex_pool_empty = Some (Blocked, s', ex_pool_empty) \<and> k_list s' (SuspendQ 20) = [10, 11, 12]"
  using rt_mp_alloc_outcomes [OF ex_timed_kwf ex_timed_context ex_pool_empty_ok, of 5] by (auto simp: ex_pool_def)

lemma rt_mp_sleeper_gets_witness:
  "\<exists>s1 ms1 th. rt_mp_free (Some 0x110) ex_timed ex_pool_empty = Some (s1, ms1) \<and> k_list s1 (SuspendQ 20) = [12] \<and>
    k_thread s1 11 = Some th \<and> runnable th"
proof -
  have "rt_current_thread ex_timed \<noteq> None" "k_list ex_timed (SuspendQ 20) = 11 # [12]"
    "0 < unat (mp_block_size (ex_pool\<lparr>mp_block_list := 0, mp_block_free_count := 0\<rparr>))" "(1 :: nat) < 2"
    by (simp_all add: ex_timed_def ex_state_def ex_pool_def)
  moreover have "block_at (ex_pool\<lparr>mp_block_list := 0, mp_block_free_count := 0\<rparr>) 1 + 4 = 0x110"
    by (simp add: ex_pool_def block_at_def)
  ultimately show ?thesis using rt_mp_sleeper_gets [OF ex_timed_kwf _ _ ex_pool_empty_ok] by metis
qed

lemma rt_mp_run_lifo_witness:
  "\<exists>s' ms'. mp_run 20 (\<lambda>i. block_at ex_pool i + 4) [Alloc, Alloc, Alloc, Free 0, Alloc] ex_pool_quiet ex_pool_state =
    Some ([Some 0x104, Some 0x110, None, Some 0x104], s', ms')"
proof -
  have l: "lifo_run 2 [Alloc, Alloc, Alloc, Free 0, Alloc] [0, 1] = Some ([Some 0, Some 1, None, Some 0], [])" by simp
  have b: "0 < unat (mp_block_size ex_pool)" "block_at ex_pool 0 + 4 = 0x104" "block_at ex_pool 1 + 4 = 0x110"
    by (simp_all add: ex_pool_def block_at_def)
  from rt_mp_run_lifo [OF l ex_pool_ok b(1) ex_pool_quiet_ok] obtain s' ms' where
    "mp_run 20 (\<lambda>i. block_at ex_pool i + 4) [Alloc, Alloc, Alloc, Free 0, Alloc] ex_pool_quiet ex_pool_state =
      Some (map (map_option (\<lambda>i. block_at ex_pool i + 4)) [Some 0, Some 1, None, Some 0], s', ms')" by blast
  then show ?thesis by (simp only: list.map option.map b) blast
qed

end
