(* ===== verification/DevIpc.thy ===== *)
theory DevIpc
  imports IpcWait Thread
begin

text \<open>
  Waiting in the device layer: the completions and the wait queues of
  \<open>rt-thread/components/drivers/ipc/completion.c\<close> and \<open>waitqueue.c\<close>, and what they and the data
  queues share. The queues of threads are lists of the kernel state; the other fields of a structure are a
  record that an operation returns updated.
\<close>

section \<open>Waiting and waking\<close>

text \<open>The lines that suspend the calling thread at the end of a queue, with its timer when there is a time.\<close>

definition dev_wait :: "lhead \<Rightarrow> addr \<Rightarrow> u32 \<Rightarrow> kstate \<Rightarrow> kstate option" where
  "dev_wait l thread timeout s = do {
    s \<leftarrow> upd_thread thread (\<lambda>th. th\<lparr>th_error := RT_EOK\<rparr>) s;
    (_, s) \<leftarrow> rt_thread_suspend_with_flag thread RT_UNINTERRUPTIBLE s;
    let s = tlist_tail l thread s;
    s \<leftarrow> wait_timer thread timeout s;
    rt_schedule s }"

text \<open>The lines that resume the first thread of a queue, if any; its error code is left as it is.\<close>

definition dev_wake :: "lhead \<Rightarrow> kstate \<Rightarrow> kstate option" where
  "dev_wake l s = (case k_list s l of
      [] \<Rightarrow> Some s
    | thread # _ \<Rightarrow> do { (_, s) \<leftarrow> rt_thread_resume thread s; rt_schedule s })"

section \<open>Completions\<close>

abbreviation (input) RT_COMPLETED :: u32 where "RT_COMPLETED \<equiv> 1"
abbreviation (input) RT_UNCOMPLETED :: u32 where "RT_UNCOMPLETED \<equiv> 0"

record rt_completion =
  cp_flag :: u32

definition rt_completion_init :: "addr \<Rightarrow> kstate \<Rightarrow> kstate \<times> rt_completion" where
  "rt_completion_init c s = (ipc_object_init c s, \<lparr>cp_flag = RT_UNCOMPLETED\<rparr>)"

definition rt_completion_wait :: "addr \<Rightarrow> u32 \<Rightarrow> kstate \<Rightarrow> rt_completion \<Rightarrow> (rt_err outcome \<times> kstate \<times> rt_completion) option" where
  "rt_completion_wait c timeout s x = do {
    _ \<leftarrow> RT_DEBUG_SCHEDULER_AVAILABLE (timeout \<noteq> 0) s;
    if cp_flag x \<noteq> RT_COMPLETED then do {
      RT_ASSERT (k_list s (SuspendQ c) = []);
      if timeout = 0 then Some (Return (- RT_ETIMEOUT), s, x)
      else do {
        thread \<leftarrow> rt_thread_self s;
        _ \<leftarrow> RT_DEBUG_NOT_IN_INTERRUPT s;
        s \<leftarrow> dev_wait (SuspendQ c) thread timeout s;
        Some (Blocked, s, x) }
    } else Some (Return RT_EOK, s, x\<lparr>cp_flag := RT_UNCOMPLETED\<rparr>) }"

definition completion_wait_resume :: "addr \<Rightarrow> kstate \<Rightarrow> rt_completion \<Rightarrow> (rt_err \<times> rt_completion) option" where
  "completion_wait_resume thread s x = do {
    th \<leftarrow> k_thread s thread;
    Some (th_error th, x\<lparr>cp_flag := RT_UNCOMPLETED\<rparr>) }"

definition rt_completion_done :: "addr \<Rightarrow> kstate \<Rightarrow> rt_completion \<Rightarrow> (kstate \<times> rt_completion) option" where
  "rt_completion_done c s x =
    (if cp_flag x = RT_COMPLETED then Some (s, x)
     else do {
       s \<leftarrow> dev_wake (SuspendQ c) s;
       Some (s, x\<lparr>cp_flag := RT_COMPLETED\<rparr>) })"

section \<open>Wait queues\<close>

abbreviation (input) RT_WQ_FLAG_CLEAN :: u32 where "RT_WQ_FLAG_CLEAN \<equiv> 0"
abbreviation (input) RT_WQ_FLAG_WAKEUP :: u32 where "RT_WQ_FLAG_WAKEUP \<equiv> 1"

text \<open>The wake-up function of a node, which answers 0 when its thread is to be woken, is the
  default one or one of the client.\<close>

datatype wqueue_func = Default_wake | Client_wake "nat \<Rightarrow> int"

definition wqueue_default_wake :: "nat \<Rightarrow> int" where "wqueue_default_wake key = 0"

fun call_wakeup :: "wqueue_func \<Rightarrow> nat \<Rightarrow> int" where
  "call_wakeup Default_wake key = wqueue_default_wake key"
| "call_wakeup (Client_wake f) key = f key"

record rt_wqueue_node =
  wn_polling_thread :: addr
  wn_wakeup :: wqueue_func

text \<open>\<open>waiting_list\<close> links the nodes, here with their addresses.\<close>

record rt_wqueue =
  wq_flag :: u32
  wq_waiting_list :: "(addr \<times> rt_wqueue_node) list"

definition rt_wqueue_init :: rt_wqueue where
  "rt_wqueue_init = \<lparr>wq_flag = RT_WQ_FLAG_CLEAN, wq_waiting_list = []\<rparr>"

definition rt_wqueue_add :: "addr \<Rightarrow> rt_wqueue_node \<Rightarrow> rt_wqueue \<Rightarrow> rt_wqueue" where
  "rt_wqueue_add node n q = q\<lparr>wq_waiting_list := wq_waiting_list q @ [(node, n)]\<rparr>"

definition rt_wqueue_remove :: "addr \<Rightarrow> rt_wqueue \<Rightarrow> rt_wqueue" where
  "rt_wqueue_remove node q = q\<lparr>wq_waiting_list := filter (\<lambda>(a, _). a \<noteq> node) (wq_waiting_list q)\<rparr>"

text \<open>The loop over the nodes: the first one whose function accepts the key.\<close>

fun wqueue_find :: "nat \<Rightarrow> (addr \<times> rt_wqueue_node) list \<Rightarrow> (addr \<times> rt_wqueue_node) option" where
  "wqueue_find key [] = None"
| "wqueue_find key ((node, entry) # l) =
    (if call_wakeup (wn_wakeup entry) key = 0 then Some (node, entry) else wqueue_find key l)"

definition rt_wqueue_wakeup :: "nat \<Rightarrow> kstate \<Rightarrow> rt_wqueue \<Rightarrow> (kstate \<times> rt_wqueue) option" where
  "rt_wqueue_wakeup key s q = (
    let q = q\<lparr>wq_flag := RT_WQ_FLAG_WAKEUP\<rparr>
    in case wqueue_find key (wq_waiting_list q) of
        None \<Rightarrow> Some (s, q)
      | Some (node, entry) \<Rightarrow> do {
          (_, s) \<leftarrow> rt_thread_resume (wn_polling_thread entry) s;
          let q = rt_wqueue_remove node q;
          s \<leftarrow> rt_schedule s;
          Some (s, q) })"

text \<open>\<open>node\<close> is the address of the node on the stack of the calling thread.\<close>

definition wqueue_wait :: "addr \<Rightarrow> bool \<Rightarrow> u32 \<Rightarrow> int \<Rightarrow> kstate \<Rightarrow> rt_wqueue \<Rightarrow> (rt_err outcome \<times> kstate \<times> rt_wqueue) option" where
  "wqueue_wait node condition msec suspend_flag s q = do {
    _ \<leftarrow> RT_DEBUG_SCHEDULER_AVAILABLE True s;
    tid \<leftarrow> rt_thread_self s;
    let tick = rt_tick_from_millisecond msec;
    if condition \<or> tick = 0 then Some (Return 0, s, q)
    else do {
      s \<leftarrow> upd_thread tid (\<lambda>th. th\<lparr>th_error := RT_EOK\<rparr>) s;
      if wq_flag q = RT_WQ_FLAG_WAKEUP then Some (Return RT_EOK, s, q\<lparr>wq_flag := RT_WQ_FLAG_CLEAN\<rparr>)
      else do {
        (ret, s) \<leftarrow> rt_thread_suspend_with_flag tid suspend_flag s;
        if ret \<noteq> RT_EOK then Some (Return (- RT_EINTR), s, q)
        else do {
          let q = rt_wqueue_add node \<lparr>wn_polling_thread = tid, wn_wakeup = Default_wake\<rparr> q;
          s \<leftarrow> (if tick \<noteq> RT_WAITING_FOREVER then do {
              (_, _, s) \<leftarrow> rt_timer_control (ThreadTimer tid) (SET_TIME tick) s;
              (_, s) \<leftarrow> rt_timer_start (ThreadTimer tid) s;
              Some s
            } else Some s);
          s \<leftarrow> rt_schedule s;
          Some (Blocked, s, q) } } } }"

definition wqueue_wait_resume :: "addr \<Rightarrow> addr \<Rightarrow> kstate \<Rightarrow> rt_wqueue \<Rightarrow> (rt_err \<times> rt_wqueue) option" where
  "wqueue_wait_resume node tid s q = do {
    th \<leftarrow> k_thread s tid;
    Some (th_error th, rt_wqueue_remove node (q\<lparr>wq_flag := RT_WQ_FLAG_CLEAN\<rparr>)) }"

definition rt_wqueue_wait :: "addr \<Rightarrow> bool \<Rightarrow> u32 \<Rightarrow> kstate \<Rightarrow> rt_wqueue \<Rightarrow> (rt_err outcome \<times> kstate \<times> rt_wqueue) option" where
  "rt_wqueue_wait node condition msec s q = wqueue_wait node condition msec RT_UNINTERRUPTIBLE s q"

definition rt_wqueue_wait_killable :: "addr \<Rightarrow> bool \<Rightarrow> u32 \<Rightarrow> kstate \<Rightarrow> rt_wqueue \<Rightarrow> (rt_err outcome \<times> kstate \<times> rt_wqueue) option" where
  "rt_wqueue_wait_killable node condition msec s q = wqueue_wait node condition msec RT_KILLABLE s q"

definition rt_wqueue_wait_interruptible :: "addr \<Rightarrow> bool \<Rightarrow> u32 \<Rightarrow> kstate \<Rightarrow> rt_wqueue \<Rightarrow> (rt_err outcome \<times> kstate \<times> rt_wqueue) option" where
  "rt_wqueue_wait_interruptible node condition msec s q = wqueue_wait node condition msec RT_INTERRUPTIBLE s q"

end
