(* ===== verification/DataQueue.thy ===== *)
theory DataQueue
  imports DevIpc HeapFront
begin

text \<open>
  The data queues of \<open>rt-thread/components/drivers/ipc/dataqueue.c\<close>: a ring of items, each a pointer
  and a size, with one queue of threads that wait to push and one of threads that wait to pop. The
  call of \<open>evt_notify\<close> is the last thing an operation does; it is returned as an event.
\<close>

section \<open>The data\<close>

abbreviation (input) RT_EEMPTY :: rt_err where "RT_EEMPTY \<equiv> 4"
abbreviation (input) RT_ENOMEM :: rt_err where "RT_ENOMEM \<equiv> 5"
abbreviation (input) DATAQUEUE_MAGIC :: u32 where "DATAQUEUE_MAGIC \<equiv> 0xbead0e0e"
abbreviation (input) RT_DATAQUEUE_EVENT_POP :: u32 where "RT_DATAQUEUE_EVENT_POP \<equiv> 1"
abbreviation (input) RT_DATAQUEUE_EVENT_PUSH :: u32 where "RT_DATAQUEUE_EVENT_PUSH \<equiv> 2"
abbreviation (input) RT_DATAQUEUE_EVENT_LWM :: u32 where "RT_DATAQUEUE_EVENT_LWM \<equiv> 3"

type_synonym data_item = "u32 \<times> u32"

text \<open>\<open>dq_notify\<close>: there is a notification function; \<open>dq_queue\<close>: where the items are, and what they are.
  The two indices are bit fields of 15 bits.\<close>

record rt_data_queue =
  dq_magic :: u32
  dq_size :: u16
  dq_lwm :: u16
  dq_get_index :: u16
  dq_is_empty :: bool
  dq_put_index :: u16
  dq_is_full :: bool
  dq_notify :: bool
  dq_queue :: "addr option \<times> data_item list"

text \<open>The queue of the threads that pop is \<open>SuspendQ\<close>, that of the threads that push \<open>SenderQ\<close>, of the address.\<close>

definition assert_queue :: "rt_data_queue \<Rightarrow> unit option" where
  "assert_queue x = RT_ASSERT (dq_magic x = DATAQUEUE_MAGIC)"

definition dq_event :: "rt_data_queue \<Rightarrow> u32 \<Rightarrow> u32 option" where
  "dq_event x e = (if dq_notify x then Some e else None)"

definition index_field :: "u16 \<Rightarrow> u16" where "index_field i = i AND 0x7fff"

section \<open>Setting up\<close>

text \<open>The items of the memory returned by \<open>rt_malloc\<close> are those of its bytes, \<open>items\<close>.\<close>

definition rt_data_queue_init ::
    "addr \<Rightarrow> u16 \<Rightarrow> u16 \<Rightarrow> bool \<Rightarrow> data_item list \<Rightarrow> kstate \<Rightarrow> heap \<Rightarrow> (rt_err outcome \<times> rt_data_queue \<times> kstate \<times> heap) option" where
  "rt_data_queue_init d sz lwm notify items s h = do {
    RT_ASSERT (sz > 0);
    let x = \<lparr>dq_magic = DATAQUEUE_MAGIC, dq_size = sz, dq_lwm = lwm, dq_get_index = 0, dq_is_empty = True, dq_put_index = 0,
      dq_is_full = False, dq_notify = notify, dq_queue = (None, [])\<rparr>;
    let s = s\<lparr>k_list := (k_list s)(SenderQ d := [], SuspendQ d := [])\<rparr>;
    (p, s, h) \<leftarrow> rt_malloc (8 * ucast sz) s h;
    case p of
      Blocked \<Rightarrow> Some (Blocked, x, s, h)
    | Return None \<Rightarrow> Some (Return (- RT_ENOMEM), x, s, h)
    | Return (Some p) \<Rightarrow> Some (Return RT_EOK, x\<lparr>dq_queue := (Some p, items)\<rparr>, s, h) }"

definition data_queue_init_resume ::
    "addr \<Rightarrow> data_item list \<Rightarrow> rt_data_queue \<Rightarrow> kstate \<Rightarrow> heap \<Rightarrow> (rt_err \<times> rt_data_queue \<times> kstate \<times> heap) option" where
  "data_queue_init_resume thread items x s h = do {
    (p, s, h) \<leftarrow> rt_malloc_resume thread (8 * ucast (dq_size x)) s h;
    case p of
      None \<Rightarrow> Some (- RT_ENOMEM, x, s, h)
    | Some p \<Rightarrow> Some (RT_EOK, x\<lparr>dq_queue := (Some p, items)\<rparr>, s, h) }"

section \<open>Pushing and popping\<close>

definition rt_data_queue_len :: "rt_data_queue \<Rightarrow> u16 option" where
  "rt_data_queue_len x = do {
    _ \<leftarrow> assert_queue x;
    Some (if dq_is_empty x then 0
      else if dq_put_index x > dq_get_index x then dq_put_index x - dq_get_index x
      else dq_size x + dq_put_index x - dq_get_index x) }"

definition dq_put :: "data_item \<Rightarrow> rt_data_queue \<Rightarrow> rt_data_queue option" where
  "dq_put v x = do {
    in_bounds (unat (dq_put_index x) < length (snd (dq_queue x)));
    let x = x\<lparr>dq_queue := (fst (dq_queue x), (snd (dq_queue x))[unat (dq_put_index x) := v])\<rparr>;
    let x = x\<lparr>dq_put_index := index_field (dq_put_index x + 1)\<rparr>;
    let x = (if dq_put_index x = dq_size x then x\<lparr>dq_put_index := 0\<rparr> else x);
    let x = x\<lparr>dq_is_empty := False\<rparr>;
    Some (if dq_put_index x = dq_get_index x then x\<lparr>dq_is_full := True\<rparr> else x) }"

definition dq_get :: "rt_data_queue \<Rightarrow> (data_item \<times> rt_data_queue) option" where
  "dq_get x = do {
    in_bounds (unat (dq_get_index x) < length (snd (dq_queue x)));
    let v = snd (dq_queue x) ! unat (dq_get_index x);
    let x = x\<lparr>dq_get_index := index_field (dq_get_index x + 1)\<rparr>;
    let x = (if dq_get_index x = dq_size x then x\<lparr>dq_get_index := 0\<rparr> else x);
    let x = x\<lparr>dq_is_full := False\<rparr>;
    Some (v, if dq_put_index x = dq_get_index x then x\<lparr>dq_is_empty := True\<rparr> else x) }"

text \<open>One round of the loop, up to the scheduling point or the end.\<close>

definition dq_push_loop :: "addr \<Rightarrow> data_item \<Rightarrow> u32 \<Rightarrow> kstate \<Rightarrow> rt_data_queue \<Rightarrow>
    (rt_err outcome \<times> u32 option \<times> kstate \<times> rt_data_queue) option" where
  "dq_push_loop d v timeout s x =
    (if dq_is_full x then
       if timeout = 0 then Some (Return (- RT_ETIMEOUT), None, s, x)
       else do {
         thread \<leftarrow> rt_thread_self s;
         s \<leftarrow> dev_wait (SenderQ d) thread timeout s;
         Some (Blocked, None, s, x) }
     else do {
       x \<leftarrow> dq_put v x;
       if k_list s (SuspendQ d) \<noteq> [] then do {
         s \<leftarrow> dev_wake (SuspendQ d) s;
         Some (Return RT_EOK, None, s, x)
       } else Some (Return RT_EOK, dq_event x RT_DATAQUEUE_EVENT_PUSH, s, x) })"

definition rt_data_queue_push :: "addr \<Rightarrow> data_item \<Rightarrow> u32 \<Rightarrow> kstate \<Rightarrow> rt_data_queue \<Rightarrow>
    (rt_err outcome \<times> u32 option \<times> kstate \<times> rt_data_queue) option" where
  "rt_data_queue_push d v timeout s x = do {
    _ \<leftarrow> assert_queue x;
    _ \<leftarrow> RT_DEBUG_SCHEDULER_AVAILABLE (timeout \<noteq> 0) s;
    dq_push_loop d v timeout s x }"

definition dq_push_resume :: "addr \<Rightarrow> addr \<Rightarrow> data_item \<Rightarrow> u32 \<Rightarrow> kstate \<Rightarrow> rt_data_queue \<Rightarrow>
    (rt_err outcome \<times> u32 option \<times> kstate \<times> rt_data_queue) option" where
  "dq_push_resume thread d v timeout s x = do {
    th \<leftarrow> k_thread s thread;
    if th_error th \<noteq> RT_EOK then Some (Return (th_error th), None, s, x)
    else dq_push_loop d v timeout s x }"

text \<open>The result has the item, when there is one.\<close>

definition dq_pop_loop :: "addr \<Rightarrow> u32 \<Rightarrow> kstate \<Rightarrow> rt_data_queue \<Rightarrow>
    ((rt_err \<times> data_item option) outcome \<times> u32 option \<times> kstate \<times> rt_data_queue) option" where
  "dq_pop_loop d timeout s x =
    (if dq_is_empty x then
       if timeout = 0 then Some (Return (- RT_ETIMEOUT, None), None, s, x)
       else do {
         thread \<leftarrow> rt_thread_self s;
         s \<leftarrow> dev_wait (SuspendQ d) thread timeout s;
         Some (Blocked, None, s, x) }
     else do {
       (v, x) \<leftarrow> dq_get x;
       len \<leftarrow> rt_data_queue_len x;
       if len \<le> dq_lwm x then do {
         s \<leftarrow> dev_wake (SenderQ d) s;
         Some (Return (RT_EOK, Some v), dq_event x RT_DATAQUEUE_EVENT_LWM, s, x)
       } else Some (Return (RT_EOK, Some v), dq_event x RT_DATAQUEUE_EVENT_POP, s, x) })"

definition rt_data_queue_pop :: "addr \<Rightarrow> u32 \<Rightarrow> kstate \<Rightarrow> rt_data_queue \<Rightarrow>
    ((rt_err \<times> data_item option) outcome \<times> u32 option \<times> kstate \<times> rt_data_queue) option" where
  "rt_data_queue_pop d timeout s x = do {
    _ \<leftarrow> assert_queue x;
    _ \<leftarrow> RT_DEBUG_SCHEDULER_AVAILABLE (timeout \<noteq> 0) s;
    dq_pop_loop d timeout s x }"

definition dq_pop_resume :: "addr \<Rightarrow> addr \<Rightarrow> u32 \<Rightarrow> kstate \<Rightarrow> rt_data_queue \<Rightarrow>
    ((rt_err \<times> data_item option) outcome \<times> u32 option \<times> kstate \<times> rt_data_queue) option" where
  "dq_pop_resume thread d timeout s x = do {
    th \<leftarrow> k_thread s thread;
    if th_error th \<noteq> RT_EOK then Some (Return (th_error th, None), None, s, x)
    else dq_pop_loop d timeout s x }"

definition rt_data_queue_peek :: "rt_data_queue \<Rightarrow> (rt_err \<times> data_item option) option" where
  "rt_data_queue_peek x = do {
    _ \<leftarrow> assert_queue x;
    if dq_is_empty x then Some (- RT_EEMPTY, None)
    else do {
      in_bounds (unat (dq_get_index x) < length (snd (dq_queue x)));
      Some (RT_EOK, Some (snd (dq_queue x) ! unat (dq_get_index x))) } }"

section \<open>Resetting\<close>

definition rt_data_queue_reset :: "addr \<Rightarrow> kstate \<Rightarrow> rt_data_queue \<Rightarrow> (kstate \<times> rt_data_queue) option" where
  "rt_data_queue_reset d s x = do {
    _ \<leftarrow> assert_queue x;
    let x = x\<lparr>dq_get_index := 0, dq_put_index := 0, dq_is_empty := True, dq_is_full := False\<rparr>;
    let s = rt_enter_critical s;
    s \<leftarrow> ipc_list_resume_all (SuspendQ d) s;
    s \<leftarrow> ipc_list_resume_all (SenderQ d) s;
    s \<leftarrow> rt_exit_critical s;
    s \<leftarrow> rt_schedule s;
    Some (s, x) }"

definition rt_data_queue_deinit :: "addr \<Rightarrow> kstate \<Rightarrow> heap \<Rightarrow> rt_data_queue \<Rightarrow> (rt_err outcome \<times> kstate \<times> heap \<times> rt_data_queue) option" where
  "rt_data_queue_deinit d s h x = do {
    _ \<leftarrow> assert_queue x;
    (s, x) \<leftarrow> rt_data_queue_reset d s x;
    let x = x\<lparr>dq_magic := 0\<rparr>;
    (r, s, h) \<leftarrow> rt_free (fst (dq_queue x)) s h;
    case r of
      Blocked \<Rightarrow> Some (Blocked, s, h, x)
    | Return _ \<Rightarrow> Some (Return RT_EOK, s, h, x) }"

definition data_queue_deinit_resume :: "addr \<Rightarrow> kstate \<Rightarrow> heap \<Rightarrow> rt_data_queue \<Rightarrow> (rt_err \<times> kstate \<times> heap \<times> rt_data_queue) option" where
  "data_queue_deinit_resume thread s h x = do {
    p \<leftarrow> fst (dq_queue x);
    (_, s, h) \<leftarrow> rt_free_resume thread p s h;
    Some (RT_EOK, s, h, x) }"

end
