(* ===== verification/DevIpcProps.thy ===== *)
theory DevIpcProps
  imports DevIpc ThreadSleep
begin

text \<open>The properties of the completions and the wait queues.\<close>

section \<open>Waiting and waking\<close>

lemma dev_wait_spec:
  assumes kw: "kwf s" and ctx: "thread_context t s" and l: "is_waitq l" and tm: "timeout \<noteq> 0x7fffffff"
  shows "\<exists>s'. dev_wait l t timeout s = Some s' \<and> blocked l t RT_EOK RT_IPC_FLAG_FIFO timeout s s'"
proof -
  obtain th where th: "k_thread s t = Some th" using ctx by (auto simp: thread_context_def)
  have x: "suspend_stat RT_UNINTERRUPTIBLE = Some 7" by (simp add: suspend_stat_def)
  from suspend_block_spec [OF kw ctx th l x tm, of 0 RT_IPC_FLAG_FIFO] th show ?thesis
    by (auto simp: dev_wait_def tlist_tail_def al_tail_def enqueue_def)
qed

text \<open>The effect of \<open>dev_wake\<close>: the first thread leaves the queue and keeps its error code.\<close>

definition dev_woken :: "lhead \<Rightarrow> kstate \<Rightarrow> kstate \<Rightarrow> bool" where
  "dev_woken l s s' \<longleftrightarrow> (\<forall>m. is_waitq m \<longrightarrow> m \<noteq> l \<longrightarrow> k_list s' m = k_list s m) \<and> (case k_list s l of
      [] \<Rightarrow> s' = s
    | t # rest \<Rightarrow> k_list s' l = rest \<and>
        (\<exists>th th'. k_thread s t = Some th \<and> k_thread s' t = Some th' \<and> runnable th' \<and> th_error th' = th_error th))"

lemma dev_wake_spec:
  assumes kw: "kwf s" and cur: "rt_current_thread s \<noteq> None" and l: "is_waitq l"
  shows "\<exists>s'. dev_wake l s = Some s' \<and> kwf s' \<and> rt_current_thread s' \<noteq> None \<and> quiet s s' \<and> dev_woken l s s'"
proof (cases "k_list s l")
  case Nil
  have "quiet s s" using quiet_all_woken [OF all_woken_Nil] .
  with Nil kw cur show ?thesis by (simp add: dev_wake_def dev_woken_def)
next
  case (Cons t rest)
  note k = kwfD(1) [OF kw]
  from waitq_suspended [OF k l, of t] Cons obtain th where th: "k_thread s t = Some th" "suspended th" by auto
  let ?e = "th_error th" let ?w = "woken ?e t th s"
  have same: "s\<lparr>k_thread := (k_thread s)(t \<mapsto> th\<lparr>th_error := ?e\<rparr>)\<rparr> = s" using th(1) by (simp add: fun_upd_idem)
  note w = resume_woken [OF k th, of ?e] woken_kwf [OF kw th, of ?e]
  have cw: "rt_current_thread ?w \<noteq> None" using cur by simp
  from schedule_kinv [OF kwfD(1) [OF w(3)] cw] obtain s' where
    s': "rt_schedule ?w = Some s'" "kinv s'" "sched_frame ?w s'" by blast
  have "dev_wake l s = Some s'" using Cons w(1) s'(1) same by (simp add: dev_wake_def)
  moreover have "kwf s'" by (rule kwf_sched [OF w(3) s'(2,3)])
  moreover have "rt_current_thread s' \<noteq> None" by (rule schedule_current [OF kwfD(1) [OF w(3)] cw s'(1)])
  moreover have "quiet s s'"
    by (rule quiet_trans [OF quiet_all_woken [OF woken_all_woken [OF k th(1)]] quiet_sched [OF kwfD(1) [OF w(3)] s'(3)]])
  moreover have nr: "l \<noteq> ReadyQ p" for p using l by auto
  have "k_list s' l = rest" using sched_frame_queue [OF s'(3) nr] woken_queue [OF nr, of ?e t th s] Cons by simp
  moreover define h where "h = set_state (if rt_current_thread s = Some t then 3 else 2) (th\<lparr>th_error := ?e\<rparr>)"
  have "k_thread ?w t = Some h" "runnable h" "th_error h = ?e" by (simp_all add: h_def)
  with sched_frame_runnable [OF s'(3), of t h] sched_frame_thread [OF s'(3), of t h]
  have "\<exists>th'. k_thread s' t = Some th' \<and> runnable th' \<and> th_error th' = ?e" by auto
  moreover have "k_list s' m = k_list s m" if m: "is_waitq m" "m \<noteq> l" for m
  proof -
    have nr: "m \<noteq> ReadyQ p" for p using m(1) by auto
    have "t \<in> set (k_list s l)" using Cons by simp
    from waitq_head_only [OF k this m(2)] sched_frame_queue [OF s'(3) nr] woken_queue [OF nr, of ?e t th s]
    show ?thesis by simp
  qed
  ultimately show ?thesis using Cons th(1) by (simp add: dev_woken_def)
qed

text \<open>Any number of steps of the rest of the kernel.\<close>

lemma env_quiet:
  assumes "env_step\<^sup>*\<^sup>* s s'" and "kwf s" and "rt_current_thread s \<noteq> None"
  shows "kwf s' \<and> rt_current_thread s' \<noteq> None \<and> quiet s s'"
  using assms
proof (induction rule: rtranclp_induct)
  case base
  then show ?case using quiet_all_woken [OF all_woken_Nil] by blast
next
  case (step s1 s2)
  then have "kwf s1" "rt_current_thread s1 \<noteq> None" "quiet s s1" by blast+
  with env_step_quiet [OF this(1,2) step.hyps(2)] quiet_trans show ?case by blast
qed

section \<open>Completions\<close>

text \<open>A completion passes the news from one thread to another whatever comes first. A thread that waits before it is
  completed is suspended; after any steps of the rest of the kernel in which its time has not run out, \<open>rt_completion_done\<close>
  makes it runnable, and its wait returns \<open>RT_EOK\<close>, with the completion ready to be used again. A completion that is done before is
  taken by the next wait without suspending.\<close>

theorem rt_completion_handshake:
  assumes "kwf s" and "thread_context t s" and "k_list s (SuspendQ c) = []" and "timeout \<noteq> 0" and "timeout \<noteq> 0x7fffffff"
    and "cp_flag x = RT_UNCOMPLETED"
  shows "(\<exists>s1. rt_completion_wait c timeout s x = Some (Blocked, s1, x) \<and> k_list s1 (SuspendQ c) = [t] \<and>
      (\<forall>s2. env_step\<^sup>*\<^sup>* s1 s2 \<longrightarrow> k_list s2 (SuspendQ c) \<noteq> [] \<longrightarrow>
        (\<exists>s3 x3 th. rt_completion_done c s2 x = Some (s3, x3) \<and> kwf s3 \<and> k_list s3 (SuspendQ c) = [] \<and>
          k_thread s3 t = Some th \<and> runnable th \<and> completion_wait_resume t s3 x3 = Some (RT_EOK, x)))) \<and>
    (\<exists>x1. rt_completion_done c s x = Some (s, x1) \<and> rt_completion_wait c timeout s x1 = Some (Return RT_EOK, s, x))"
proof (intro conjI)
  have ni: "rt_interrupt_nest s = 0" and cur: "rt_current_thread s = Some t" using assms(2) by (simp_all add: thread_context_def)
  from dev_wait_spec [OF assms(1,2) _ assms(5), of "SuspendQ c"] obtain s1 where
    s1: "dev_wait (SuspendQ c) t timeout s = Some s1" and b: "blocked (SuspendQ c) t RT_EOK RT_IPC_FLAG_FIFO timeout s s1" by auto
  note bd = blockedD [OF b]
  have l1: "k_list s1 (SuspendQ c) = [t]" using bd(4) [of "SuspendQ c"] assms(3) by (simp add: enqueue_def)
  have w: "rt_completion_wait c timeout s x = Some (Blocked, s1, x)"
    using assms(2-4,6) s1 cur ni by (simp add: rt_completion_wait_def rt_thread_self_def RT_DEBUG_NOT_IN_INTERRUPT_def rt_interrupt_get_nest_def)
  have "\<exists>s3 x3 th. rt_completion_done c s2 x = Some (s3, x3) \<and> kwf s3 \<and> k_list s3 (SuspendQ c) = [] \<and>
      k_thread s3 t = Some th \<and> runnable th \<and> completion_wait_resume t s3 x3 = Some (RT_EOK, x)"
    if e: "env_step\<^sup>*\<^sup>* s1 s2" and ne: "k_list s2 (SuspendQ c) \<noteq> []" for s2
  proof -
    from env_quiet [OF e bd(1,3)] have s2: "kwf s2" "rt_current_thread s2 \<noteq> None" "quiet s1 s2" by blast+
    have l2: "k_list s2 (SuspendQ c) = [t]" using quietD(2) [OF s2(3), of "SuspendQ c"] l1 ne by (auto split: if_splits)
    then have "k_thread s2 t = k_thread s1 t" using quietD(3) [OF s2(3), of "SuspendQ c" t] by simp
    then obtain h where h: "k_thread s2 t = Some h" "th_error h = RT_EOK" using bd(5) by auto
    from dev_wake_spec [OF s2(1,2), of "SuspendQ c"] obtain s3 where
      s3: "dev_wake (SuspendQ c) s2 = Some s3" "kwf s3" "dev_woken (SuspendQ c) s2 s3" by auto
    then obtain th where th: "k_list s3 (SuspendQ c) = []" "k_thread s3 t = Some th" "runnable th" "th_error th = RT_EOK"
      using l2 h by (auto simp: dev_woken_def)
    have "rt_completion_done c s2 x = Some (s3, x\<lparr>cp_flag := RT_COMPLETED\<rparr>)" using s3(1) assms(6) by (simp add: rt_completion_done_def)
    moreover have "completion_wait_resume t s3 (x\<lparr>cp_flag := RT_COMPLETED\<rparr>) = Some (RT_EOK, x)"
      using th assms(6) by (simp add: completion_wait_resume_def)
    ultimately show ?thesis using s3(2) th by blast
  qed
  with w l1 show "\<exists>s1. rt_completion_wait c timeout s x = Some (Blocked, s1, x) \<and> k_list s1 (SuspendQ c) = [t] \<and>
      (\<forall>s2. env_step\<^sup>*\<^sup>* s1 s2 \<longrightarrow> k_list s2 (SuspendQ c) \<noteq> [] \<longrightarrow>
        (\<exists>s3 x3 th. rt_completion_done c s2 x = Some (s3, x3) \<and> kwf s3 \<and> k_list s3 (SuspendQ c) = [] \<and>
          k_thread s3 t = Some th \<and> runnable th \<and> completion_wait_resume t s3 x3 = Some (RT_EOK, x)))" by blast
  have "rt_completion_done c s x = Some (s, x\<lparr>cp_flag := RT_COMPLETED\<rparr>)"
    using assms(3,6) by (simp add: rt_completion_done_def dev_wake_def)
  moreover have "rt_completion_wait c timeout s (x\<lparr>cp_flag := RT_COMPLETED\<rparr>) = Some (Return RT_EOK, s, x)"
    using assms(2,6) by (simp add: rt_completion_wait_def)
  ultimately show "\<exists>x1. rt_completion_done c s x = Some (s, x1) \<and> rt_completion_wait c timeout s x1 = Some (Return RT_EOK, s, x)"
    by blast
qed

section \<open>Wait queues\<close>

lemma wqueue_find_Some:
  "wqueue_find key l = Some (a, n) \<Longrightarrow> \<exists>xs ys. l = xs @ (a, n) # ys \<and> call_wakeup (wn_wakeup n) key = 0 \<and>
    (\<forall>(b, m)\<in>set xs. call_wakeup (wn_wakeup m) key \<noteq> 0)"
proof (induction l)
  case (Cons x l)
  obtain b m where x: "x = (b, m)" by (cases x)
  show ?case
  proof (cases "call_wakeup (wn_wakeup m) key = 0")
    case True
    with Cons.prems x show ?thesis by (intro exI [of _ "[]"] exI [of _ l]) simp
  next
    case False
    with Cons x obtain xs ys where "l = xs @ (a, n) # ys" "call_wakeup (wn_wakeup n) key = 0"
      "\<forall>(b, m)\<in>set xs. call_wakeup (wn_wakeup m) key \<noteq> 0" by auto
    with False x show ?thesis by (intro exI [of _ "x # xs"] exI [of _ ys]) simp
  qed
qed simp

text \<open>Suspended outside the queues of the kernel, with a timer unless the time is for ever.\<close>

lemma wqueue_block:
  assumes kw: "kwf s" and ctx: "thread_context t s" and th: "k_thread s t = Some th" and x: "suspend_stat f = Some y"
    and tk: "tick = RT_WAITING_FOREVER \<or> 0 < sint tick" "tick \<noteq> 0x7fffffff"
  shows "\<exists>s1 s2 s3. rt_thread_suspend_with_flag t f (s\<lparr>k_thread := (k_thread s)(t \<mapsto> th\<lparr>th_error := RT_EOK\<rparr>)\<rparr>) = Some (RT_EOK, s1) \<and>
    (if tick \<noteq> RT_WAITING_FOREVER then do {
        (_, _, s) \<leftarrow> rt_timer_control (ThreadTimer t) (SET_TIME tick) s1;
        (_, s) \<leftarrow> rt_timer_start (ThreadTimer t) s;
        Some s } else Some s1) = Some s2 \<and>
    rt_schedule s2 = Some s3 \<and> kwf s3 \<and> rt_current_thread s3 \<noteq> None \<and>
    (\<exists>h. k_thread s3 t = Some h \<and> suspended h \<and> th_error h = RT_EOK) \<and> (0 < sint tick \<longrightarrow> timer_set t (rt_tick s + tick) s3)"
proof -
  let ?h = "th\<lparr>th_error := RT_EOK\<rparr>" let ?s = "s\<lparr>k_thread := (k_thread s)(t \<mapsto> ?h)\<rparr>"
  have r: "state_of th = 3" and cur: "rt_current_thread ?s = Some t" using ctx th by (simp_all add: thread_context_def)
  have kw1: "kwf ?s" by (rule kwf_error [OF kw th]) (simp add: r)
  have th1: "k_thread ?s t = Some ?h" "state_of ?h = 3" using r by simp_all
  from suspend_kwf [OF kw1 cur th1 x] obtain s1 g where
    s1: "rt_thread_suspend_with_flag t f ?s = Some (RT_EOK, s1)" "kwf s1" and su: "suspended (set_state y ?h)"
    and e1: "s1 = stop_timer (ThreadTimer t) (?s\<lparr>k_thread := (k_thread ?s)(t \<mapsto> set_state y ?h), rt_thread_ready_priority_group := g\<rparr>)" by blast
  have t1: "k_thread s1 t = Some (set_state y ?h)" "rt_tick s1 = rt_tick s" "rt_current_thread s1 = Some t"
    using cur by (simp_all add: e1)
  from wait_timer_spec [OF s1(2) t1(1) su tk(2)] obtain s2 where
    s2: "wait_timer t tick s1 = Some s2" "kwf s2" "k_thread s2 = k_thread s1" "rt_current_thread s2 = rt_current_thread s1"
      "0 < sint tick \<longrightarrow> timer_set t (rt_tick s1 + tick) s2" by blast
  have neg: "\<not> 0 < sint (RT_WAITING_FOREVER :: u32)" by simp
  have w: "(if tick \<noteq> RT_WAITING_FOREVER then do {
        (_, _, s) \<leftarrow> rt_timer_control (ThreadTimer t) (SET_TIME tick) s1;
        (_, s) \<leftarrow> rt_timer_start (ThreadTimer t) s;
        Some s } else Some s1) = Some s2"
    using s2(1) tk(1) neg by (cases "tick = RT_WAITING_FOREVER") (auto simp: wait_timer_def)
  have c2: "rt_current_thread s2 \<noteq> None" using s2(4) t1(3) by simp
  from schedule_kinv [OF kwfD(1) [OF s2(2)] c2] obtain s3 where
    s3: "rt_schedule s2 = Some s3" "kinv s3" "sched_frame s2 s3" by blast
  have "k_thread s3 t = Some (set_state y ?h)"
    using sched_frame_quiet [OF s3(3), of t "set_state y ?h"] suspended_no_ready [OF su] s2(3) t1(1) by auto
  moreover have "th_error (set_state y ?h) = RT_EOK" by simp
  moreover have "timer_set t (rt_tick s + tick) s3" if "0 < sint tick"
    using s2(5) that t1(2) sched_frame_fields [OF s3(3)] by (simp add: timer_set_def)
  ultimately show ?thesis using s1(1) w s3(1) kwf_sched [OF s2(2) s3(2,3)] schedule_current [OF kwfD(1) [OF s2(2)] c2 s3(1)] su
    by blast
qed

text \<open>Waiting in a wait queue and being woken: a thread that waits with the condition false, a clean flag and a positive or endless time is
  suspended with its node at the end of the list; in any later state in which it is still suspended and its node is the first one to
  accept the key, \<open>rt_wqueue_wakeup\<close> makes it runnable and takes no other node out, and its wait returns \<open>RT_EOK\<close> with a clean
  flag. A wake-up that finds no node is remembered by the flag, and the next wait returns at once.\<close>

theorem rt_wqueue_handshake:
  assumes "kwf s" and "thread_context t s" and "suspend_stat f \<noteq> None" and "wq_flag q = RT_WQ_FLAG_CLEAN"
    and "tick = rt_tick_from_millisecond msec" and "tick = RT_WAITING_FOREVER \<or> 0 < sint tick" and "tick \<noteq> 0x7fffffff"
  shows "(\<exists>s1 n. wqueue_wait node False msec f s q = Some (Blocked, s1, q\<lparr>wq_waiting_list := wq_waiting_list q @ [(node, n)]\<rparr>) \<and>
      wn_polling_thread n = t \<and> kwf s1 \<and> (0 < sint tick \<longrightarrow> timer_set t (rt_tick s + tick) s1) \<and>
      (\<forall>s2 q2 key. kwf s2 \<longrightarrow> rt_current_thread s2 \<noteq> None \<longrightarrow> k_thread s2 t = k_thread s1 t \<longrightarrow>
        wqueue_find key (wq_waiting_list q2) = Some (node, n) \<longrightarrow> distinct (map fst (wq_waiting_list q2)) \<longrightarrow>
        (\<exists>s3 q3 h. rt_wqueue_wakeup key s2 q2 = Some (s3, q3) \<and> kwf s3 \<and> wq_waiting_list q3 = remove1 (node, n) (wq_waiting_list q2) \<and>
          k_thread s3 t = Some h \<and> runnable h \<and>
          wqueue_wait_resume node t s3 q3 = Some (RT_EOK, q3\<lparr>wq_flag := RT_WQ_FLAG_CLEAN\<rparr>)))) \<and>
    (wq_waiting_list q = [] \<longrightarrow> (\<exists>q1 s1. rt_wqueue_wakeup key s q = Some (s, q1) \<and>
      wqueue_wait node False msec f s q1 = Some (Return RT_EOK, s1, q)))"
proof -
  obtain th where th: "k_thread s t = Some th" and cur: "rt_current_thread s = Some t" using assms(2) by (auto simp: thread_context_def)
  obtain y where y: "suspend_stat f = Some y" using assms(3) by auto
  have nz: "rt_tick_from_millisecond msec \<noteq> 0" using assms(5,6) by auto
  define n where "n = \<lparr>wn_polling_thread = t, wn_wakeup = Default_wake\<rparr>"
  from wqueue_block [OF assms(1,2) th y assms(6,7)] obtain s1 s2 s3 where
    s: "rt_thread_suspend_with_flag t f (s\<lparr>k_thread := (k_thread s)(t \<mapsto> th\<lparr>th_error := RT_EOK\<rparr>)\<rparr>) = Some (RT_EOK, s1)"
      "(if tick \<noteq> RT_WAITING_FOREVER then do {
        (_, _, s) \<leftarrow> rt_timer_control (ThreadTimer t) (SET_TIME tick) s1;
        (_, s) \<leftarrow> rt_timer_start (ThreadTimer t) s;
        Some s } else Some s1) = Some s2" "rt_schedule s2 = Some s3" and kw3: "kwf s3"
    and h: "\<exists>h. k_thread s3 t = Some h \<and> suspended h \<and> th_error h = RT_EOK" and ts: "0 < sint tick \<longrightarrow> timer_set t (rt_tick s + tick) s3" by blast
  have wait: "wqueue_wait node False msec f s q = Some (Blocked, s3, q\<lparr>wq_waiting_list := wq_waiting_list q @ [(node, n)]\<rparr>)"
    unfolding wqueue_wait_def scheduler_available [OF assms(2)] rt_thread_self_def cur Let_def Option.bind.bind_lunit upd_thread_Some [OF th]
      assms(5) [symmetric]
    using assms(4) nz [folded assms(5)] s by (simp add: rt_wqueue_add_def n_def)
  have wake: "\<exists>s5 q3 h. rt_wqueue_wakeup key s4 q2 = Some (s5, q3) \<and> kwf s5 \<and> wq_waiting_list q3 = remove1 (node, n) (wq_waiting_list q2) \<and>
      k_thread s5 t = Some h \<and> runnable h \<and> wqueue_wait_resume node t s5 q3 = Some (RT_EOK, q3\<lparr>wq_flag := RT_WQ_FLAG_CLEAN\<rparr>)"
    if kw: "kwf s4" and c: "rt_current_thread s4 \<noteq> None" and st: "k_thread s4 t = k_thread s3 t"
      and f: "wqueue_find key (wq_waiting_list q2) = Some (node, n)" and d: "distinct (map fst (wq_waiting_list q2))" for s4 q2 key
  proof -
    from h st obtain g where g: "k_thread s4 t = Some g" "suspended g" "th_error g = RT_EOK" by auto
    let ?w = "woken RT_EOK t g s4"
    have same: "s4\<lparr>k_thread := (k_thread s4)(t \<mapsto> g\<lparr>th_error := RT_EOK\<rparr>)\<rparr> = s4"
      using g(1,3) by (intro kstate.equality) (simp_all add: fun_eq_iff)
    note w = resume_woken [OF kwfD(1) [OF kw] g(1,2), of RT_EOK] woken_kwf [OF kw g(1,2), of RT_EOK]
    have cw: "rt_current_thread ?w \<noteq> None" using c by simp
    from schedule_kinv [OF kwfD(1) [OF w(3)] cw] obtain s5 where
      s5: "rt_schedule ?w = Some s5" "kinv s5" "sched_frame ?w s5" by blast
    from wqueue_find_Some [OF f] obtain xs ys where l: "wq_waiting_list q2 = xs @ (node, n) # ys" by blast
    have fl: "filter (\<lambda>(a, _). a \<noteq> node) (wq_waiting_list q2) = remove1 (node, n) (wq_waiting_list q2)"
    proof -
      have "node \<notin> fst ` set xs" "node \<notin> fst ` set ys" using d l by auto
      then have "\<forall>(a, m)\<in>set xs \<union> set ys. a \<noteq> node" "(node, n) \<notin> set xs" by force+
      then have "filter (\<lambda>(a, _). a \<noteq> node) xs = xs" "filter (\<lambda>(a, _). a \<noteq> node) ys = ys" "(node, n) \<notin> set xs"
        unfolding filter_id_conv by blast+
      then show ?thesis by (simp add: l remove1_append)
    qed
    define q3 where "q3 = q2\<lparr>wq_flag := RT_WQ_FLAG_WAKEUP, wq_waiting_list := remove1 (node, n) (wq_waiting_list q2)\<rparr>"
    have "rt_wqueue_wakeup key s4 q2 = Some (s5, q3)"
      using f w(1) same s5(1) fl by (simp add: rt_wqueue_wakeup_def n_def rt_wqueue_remove_def q3_def)
    moreover have "kwf s5" by (rule kwf_sched [OF w(3) s5(2,3)])
    moreover define k where "k = set_state (if rt_current_thread s4 = Some t then 3 else 2) (g\<lparr>th_error := RT_EOK\<rparr>)"
    have "k_thread ?w t = Some k" "runnable k" "th_error k = RT_EOK" by (simp_all add: k_def)
    with sched_frame_runnable [OF s5(3), of t k] sched_frame_thread [OF s5(3), of t k]
    obtain h where "k_thread s5 t = Some h" "runnable h" "th_error h = RT_EOK" by auto
    moreover have "filter (\<lambda>(a, _). a \<noteq> node) (remove1 (node, n) (wq_waiting_list q2)) = remove1 (node, n) (wq_waiting_list q2)"
      unfolding fl [symmetric] by simp
    ultimately show ?thesis by (auto simp: wqueue_wait_resume_def rt_wqueue_remove_def q3_def)
  qed
  have "rt_wqueue_wakeup key s q = Some (s, q\<lparr>wq_flag := RT_WQ_FLAG_WAKEUP\<rparr>)" if "wq_waiting_list q = []"
    using that by (simp add: rt_wqueue_wakeup_def)
  moreover have "\<exists>s1. wqueue_wait node False msec f s (q\<lparr>wq_flag := RT_WQ_FLAG_WAKEUP\<rparr>) = Some (Return RT_EOK, s1, q)"
    using assms(2,4) nz th cur by (simp add: wqueue_wait_def rt_thread_self_def)
  moreover have "wn_polling_thread n = t" by (simp add: n_def)
  ultimately show ?thesis using wait wake kw3 ts by blast
qed

section \<open>At a concrete input\<close>

lemma rt_completion_handshake_witness:
  "\<exists>s1. rt_completion_wait 0x500 5 ex_timed \<lparr>cp_flag = 0\<rparr> = Some (Blocked, s1, \<lparr>cp_flag = 0\<rparr>) \<and> k_list s1 (SuspendQ 0x500) = [10]"
  using rt_completion_handshake [OF ex_timed_kwf ex_timed_context, of "0x500" 5 "\<lparr>cp_flag = 0\<rparr>"] by auto

lemma rt_wqueue_handshake_witness:
  "\<exists>s1 q1. wqueue_wait 0x500 False 0xffffffff 2 ex_timed rt_wqueue_init = Some (Blocked, s1, q1) \<and> kwf s1"
proof -
  have tk: "RT_WAITING_FOREVER = rt_tick_from_millisecond 0xffffffff" by (simp add: rt_tick_from_millisecond_def)
  have f: "suspend_stat 2 \<noteq> None" "wq_flag rt_wqueue_init = RT_WQ_FLAG_CLEAN" by (simp_all add: suspend_stat_def rt_wqueue_init_def)
  show ?thesis using rt_wqueue_handshake [OF ex_timed_kwf ex_timed_context f tk] by fastforce
qed

end
