(* ===== verification/DataQueueProps.thy ===== *)
theory DataQueueProps
  imports DataQueue DevIpcProps MessageStore
begin

text \<open>The properties of the data queues: the ring of items and its invariant, the calls with and without waiting, resetting.\<close>

section \<open>The ring of items\<close>

definition next_index :: "u16 \<Rightarrow> u16 \<Rightarrow> u16" where
  "next_index n i = (if index_field (i + 1) = n then 0 else index_field (i + 1))"

lemma next_index_mod:
  assumes n: "n \<le> 0x7fff" and i: "i < n"
  shows "unat (next_index n i) = (unat i + 1) mod unat n"
proof -
  have "0x7fff = (mask 15 :: u16)" by (simp add: mask_eq_exp_minus_1)
  then have f: "index_field (i + 1) = take_bit 15 (i + 1)" by (simp add: index_field_def take_bit_eq_mask)
  have i': "unat i < unat n" "unat n \<le> 0x7fff" using n i by (simp_all add: word_less_nat_alt word_le_nat_alt)
  have "unat (i + 1) = unat i + 1" using i' by (simp add: unat_word_ariths)
  then have u: "unat (index_field (i + 1)) = unat i + 1" using i' by (simp add: f unsigned_take_bit_eq take_bit_nat_eq_self)
  show ?thesis
  proof (cases "index_field (i + 1) = n")
    case True
    with u show ?thesis by (simp add: next_index_def)
  next
    case False
    then have "unat i + 1 \<noteq> unat n" using u by (metis word_unat_eq_iff)
    with i'(1) have "unat i + 1 < unat n" by simp
    with False u show ?thesis by (simp add: next_index_def)
  qed
qed

definition dq_count :: "rt_data_queue \<Rightarrow> nat" where
  "dq_count x = (if dq_is_empty x then 0
    else if dq_put_index x > dq_get_index x then unat (dq_put_index x) - unat (dq_get_index x)
    else unat (dq_size x) + unat (dq_put_index x) - unat (dq_get_index x))"

definition dq_items :: "rt_data_queue \<Rightarrow> data_item list" where
  "dq_items x = ring_msgs (snd (dq_queue x)) (unat (dq_size x)) (unat (dq_get_index x)) (dq_count x)"

definition dq_inv :: "rt_data_queue \<Rightarrow> bool" where
  "dq_inv x \<longleftrightarrow> dq_magic x = DATAQUEUE_MAGIC \<and> 0 < dq_size x \<and> dq_size x \<le> 0x7fff \<and>
    unat (dq_size x) \<le> length (snd (dq_queue x)) \<and> dq_get_index x < dq_size x \<and> dq_put_index x < dq_size x \<and>
    (dq_get_index x = dq_put_index x \<longleftrightarrow> dq_is_empty x \<or> dq_is_full x) \<and> \<not> (dq_is_empty x \<and> dq_is_full x)"

lemma dq_count_facts:
  assumes "dq_inv x"
  shows "dq_count x \<le> unat (dq_size x)" "dq_is_full x \<longleftrightarrow> dq_count x = unat (dq_size x)" "dq_is_empty x \<longleftrightarrow> dq_count x = 0"
    "unat (dq_put_index x) = (unat (dq_get_index x) + dq_count x) mod unat (dq_size x)"
proof -
  let ?g = "unat (dq_get_index x)" and ?p = "unat (dq_put_index x)" and ?n = "unat (dq_size x)"
  have b: "?g < ?n" "?p < ?n" "?g = ?p \<longleftrightarrow> dq_is_empty x \<or> dq_is_full x" "\<not> (dq_is_empty x \<and> dq_is_full x)"
    using assms by (simp_all add: dq_inv_def word_less_nat_alt word_unat_eq_iff)
  have c: "dq_count x = (if dq_is_empty x then 0 else if ?g < ?p then ?p - ?g else ?n + ?p - ?g)"
    by (simp add: dq_count_def word_less_nat_alt)
  from b c show "dq_count x \<le> ?n" "dq_is_full x \<longleftrightarrow> dq_count x = ?n" "dq_is_empty x \<longleftrightarrow> dq_count x = 0" by auto
  show "?p = (?g + dq_count x) mod ?n"
  proof (cases "dq_is_empty x \<or> ?g < ?p")
    case True
    with b c show ?thesis by auto
  next
    case False
    then have "?g + dq_count x = ?p + ?n" using b(1) c by auto
    with b(2) show ?thesis by simp
  qed
qed

lemma length_dq_items [simp]: "length (dq_items x) = dq_count x"
  by (simp add: dq_items_def)

text \<open>The state after the indices have moved: the number of items determines the flags.\<close>

lemma dq_inv_count:
  assumes "dq_magic x = DATAQUEUE_MAGIC" and "0 < dq_size x" and "dq_size x \<le> 0x7fff"
    and "unat (dq_size x) \<le> length (snd (dq_queue x))" and g: "dq_get_index x < dq_size x"
    and p: "unat (dq_put_index x) = (unat (dq_get_index x) + c) mod unat (dq_size x)" and c: "c \<le> unat (dq_size x)"
    and e: "dq_is_empty x \<longleftrightarrow> c = 0" and f: "dq_is_full x \<longleftrightarrow> c = unat (dq_size x)"
  shows "dq_inv x \<and> dq_count x = c"
proof -
  let ?g = "unat (dq_get_index x)" and ?p = "unat (dq_put_index x)" and ?n = "unat (dq_size x)"
  have n: "0 < ?n" "?g < ?n" using assms(2) g by (simp_all add: word_less_nat_alt)
  have pn: "?p < ?n" using n(1) by (simp add: p)
  consider "c = 0" "?p = ?g" | "0 < c" "?g + c < ?n" "?p = ?g + c" | "0 < c" "?n \<le> ?g + c" "?p + ?n = ?g + c"
  proof (cases "?g + c < ?n")
    case True
    with p that(1,2) show ?thesis by fastforce
  next
    case False
    moreover have "?g + c < 2 * ?n" using c n(2) by simp
    ultimately have "?p = ?g + c - ?n" using p by (simp add: mod_if)
    with False n that(3) show ?thesis by simp
  qed
  then show ?thesis
  proof cases
    case 1
    then have "dq_put_index x = dq_get_index x" by (simp add: word_unat_eq_iff)
    with 1 assms n show ?thesis by (simp add: dq_inv_def dq_count_def)
  next
    case 2
    then have "dq_get_index x < dq_put_index x" "dq_put_index x < dq_size x" using pn by (simp_all add: word_less_nat_alt)
    with 2 assms n show ?thesis by (auto simp: dq_inv_def dq_count_def)
  next
    case 3
    then have le: "\<not> dq_get_index x < dq_put_index x" "dq_put_index x < dq_size x" using pn c by (simp_all add: word_less_nat_alt)
    have "dq_get_index x = dq_put_index x \<longleftrightarrow> c = ?n" using 3 by (auto simp: word_unat_eq_iff)
    with 3 le assms n show ?thesis by (auto simp: dq_inv_def dq_count_def)
  qed
qed

lemma dq_put_law:
  assumes x: "dq_inv x" and f: "\<not> dq_is_full x"
  shows "\<exists>x'. dq_put v x = Some x' \<and> dq_inv x' \<and> dq_items x' = dq_items x @ [v] \<and> dq_size x' = dq_size x \<and>
    dq_lwm x' = dq_lwm x \<and> dq_notify x' = dq_notify x"
proof -
  let ?n = "unat (dq_size x)" and ?g = "unat (dq_get_index x)" and ?c = "dq_count x"
  note d = x [unfolded dq_inv_def] and k = dq_count_facts [OF x]
  have c: "?c < ?n" using k(1,2) f by simp
  let ?i = "next_index (dq_size x) (dq_put_index x)"
  have i: "unat ?i = (?g + Suc ?c) mod ?n" using next_index_mod [of "dq_size x" "dq_put_index x"] d k(4)
    by (simp add: mod_Suc_eq)
  have b: "unat (dq_put_index x) < length (snd (dq_queue x))" using d by (simp add: word_less_nat_alt)
  define x' where "x' = x\<lparr>dq_queue := (fst (dq_queue x), (snd (dq_queue x))[unat (dq_put_index x) := v]), dq_put_index := ?i,
    dq_is_empty := False, dq_is_full := (?i = dq_get_index x)\<rparr>"
  have r: "dq_put v x = Some x'" using b f by (simp add: dq_put_def x'_def next_index_def Let_def)
  have "?i = dq_get_index x \<longleftrightarrow> Suc ?c = ?n"
  proof -
    have "?g < ?n" using d by (simp add: word_less_nat_alt)
    then have "(?g + Suc ?c) mod ?n = ?g \<longleftrightarrow> Suc ?c = ?n" using c ring_slot_neq [of 0 "Suc ?c" ?n ?g] by (cases "Suc ?c = ?n") auto
    then show ?thesis by (simp add: word_unat_eq_iff i)
  qed
  then have v: "dq_inv x' \<and> dq_count x' = Suc ?c" using d c i by (intro dq_inv_count) (simp_all add: x'_def)
  moreover have "dq_items x' = dq_items x @ [v]"
    using ring_push [OF c, of "snd (dq_queue x)" ?g v] d v by (simp add: dq_items_def x'_def k(4) [symmetric])
  ultimately show ?thesis using r by (auto simp: x'_def)
qed

lemma dq_get_law:
  assumes x: "dq_inv x" and q: "dq_items x = v # q"
  shows "\<exists>x'. dq_get x = Some (v, x') \<and> dq_inv x' \<and> dq_items x' = q \<and> dq_size x' = dq_size x \<and>
    dq_lwm x' = dq_lwm x \<and> dq_notify x' = dq_notify x"
proof -
  let ?n = "unat (dq_size x)" and ?g = "unat (dq_get_index x)" and ?c = "dq_count x"
  note d = x [unfolded dq_inv_def] and k = dq_count_facts [OF x]
  have c: "0 < ?c" using arg_cong [OF q, of length] by simp
  let ?i = "next_index (dq_size x) (dq_get_index x)"
  have i: "unat ?i = (?g + 1) mod ?n" using next_index_mod [of "dq_size x" "dq_get_index x"] d by simp
  have g: "?g < ?n" "?g < length (snd (dq_queue x))" using d by (simp_all add: word_less_nat_alt)
  define x' where "x' = x\<lparr>dq_get_index := ?i, dq_is_full := False, dq_is_empty := (dq_put_index x = ?i)\<rparr>"
  have e: "dq_is_empty x = False" using k(3) c by simp
  have r: "dq_get x = Some (snd (dq_queue x) ! ?g, x')" using g(2) e by (simp add: dq_get_def x'_def next_index_def Let_def)
  have "((?g + 1) mod ?n + (?c - 1)) mod ?n = (?g + 1 + (?c - 1)) mod ?n" by (rule mod_add_left_eq)
  then have p: "unat (dq_put_index x) = (unat ?i + (?c - 1)) mod ?n" using k(4) c unfolding i by simp
  have "dq_put_index x = ?i \<longleftrightarrow> ?c = 1"
  proof -
    have "(?g + ?c) mod ?n = (?g + 1) mod ?n \<longleftrightarrow> ?c = 1" using c k(1) ring_slot_neq [of 1 ?c ?n ?g] by (cases "?c = 1") auto
    then show ?thesis by (simp add: word_unat_eq_iff i k(4))
  qed
  then have e': "dq_put_index x = ?i \<longleftrightarrow> ?c - 1 = 0" using c by auto
  have "(?g + 1) mod ?n < ?n" using g by simp
  then have l: "?i < dq_size x" unfolding word_less_nat_alt i .
  have v: "dq_inv x' \<and> dq_count x' = ?c - 1"
  proof (rule dq_inv_count)
    show "unat (dq_put_index x') = (unat (dq_get_index x') + (?c - 1)) mod unat (dq_size x')" using p by (simp add: x'_def)
    show "dq_is_empty x' \<longleftrightarrow> ?c - 1 = 0" using e' by (simp add: x'_def)
    show "dq_is_full x' \<longleftrightarrow> ?c - 1 = unat (dq_size x')" "?c - 1 \<le> unat (dq_size x')" using c k(1) by (auto simp: x'_def)
  qed (use d l in \<open>simp_all add: x'_def\<close>)
  have "dq_items x = snd (dq_queue x) ! ?g # dq_items x'"
    using ring_pop [OF c, of "snd (dq_queue x)" ?n ?g] g v by (simp add: dq_items_def x'_def i)
  with r v q show ?thesis by (auto simp: x'_def)
qed

interpretation dqs: fifo_store dq_inv dq_items "\<lambda>x. unat (dq_size x)" "\<lambda>_ _. True" dq_is_full dq_is_empty dq_put dq_get
proof
  fix x assume x: "dq_inv x"
  note k = dq_count_facts [OF x]
  show "dq_is_full x \<longleftrightarrow> length (dq_items x) = unat (dq_size x)" using k(2) by simp
  show "dq_is_empty x \<longleftrightarrow> dq_items x = []" using k(3) by (simp add: length_0_conv [symmetric] del: length_0_conv)
  show "length (dq_items x) \<le> unat (dq_size x)" using k(1) by simp
  show "\<exists>x'. dq_put v x = Some x' \<and> dq_inv x' \<and> dq_items x' = dq_items x @ [v] \<and> unat (dq_size x') = unat (dq_size x) \<and>
      (\<lambda>_. True) = (\<lambda>_. True)" if "\<not> dq_is_full x" for v
    using dq_put_law [OF x that, of v] by auto
  show "\<exists>x'. dq_get x = Some (v, x') \<and> dq_inv x' \<and> dq_items x' = q \<and> unat (dq_size x') = unat (dq_size x) \<and>
      (\<lambda>_. True) = (\<lambda>_. True)" if "dq_items x = v # q" for v q
    using dq_get_law [OF x that] by auto
qed

section \<open>Calls without waiting\<close>

lemma dq_len: "dq_inv x \<Longrightarrow> \<exists>n. rt_data_queue_len x = Some n \<and> unat n = length (dq_items x)"
proof -
  assume x: "dq_inv x"
  note d = x [unfolded dq_inv_def]
  let ?g = "unat (dq_get_index x)" and ?p = "unat (dq_put_index x)" and ?n = "unat (dq_size x)"
  have b: "?g < ?n" "?p < ?n" "?n \<le> 0x7fff" using d by (simp_all add: word_less_nat_alt word_le_nat_alt)
  let ?l = "if dq_is_empty x then 0 else if dq_put_index x > dq_get_index x then dq_put_index x - dq_get_index x
      else dq_size x + dq_put_index x - dq_get_index x"
  have s: "unat (dq_size x + dq_put_index x) = ?n + ?p" using b by (simp add: unat_word_ariths)
  have "dq_get_index x \<le> dq_size x + dq_put_index x" using b(1) by (simp add: word_le_nat_alt s)
  then have "unat (dq_size x + dq_put_index x - dq_get_index x) = ?n + ?p - ?g" by (simp add: unat_sub s)
  moreover have "unat (dq_put_index x - dq_get_index x) = ?p - ?g" if "dq_put_index x > dq_get_index x"
    using that by (simp add: unat_sub)
  ultimately have "unat ?l = dq_count x" by (simp add: dq_count_def)
  moreover have "rt_data_queue_len x = Some ?l" using d by (simp add: rt_data_queue_len_def assert_queue_def)
  ultimately show ?thesis by simp
qed

lemma dq_notify_kept: "dq_put v x = Some x' \<Longrightarrow> dq_notify x' = dq_notify x" "dq_get x = Some (w, y) \<Longrightarrow> dq_notify y = dq_notify x"
  by (auto simp: dq_put_def dq_get_def Let_def split: bind_splits if_splits)

lemma dq_push_spec:
  assumes kw: "kwf s" and cur: "rt_current_thread s \<noteq> None" and x: "dq_inv x" and f: "\<not> dq_is_full x"
  shows "\<exists>e s' x'. dq_push_loop d v timeout s x = Some (Return RT_EOK, e, s', x') \<and> kwf s' \<and> rt_current_thread s' \<noteq> None \<and>
    dev_woken (SuspendQ d) s s' \<and> dq_inv x' \<and> dq_items x' = dq_items x @ [v] \<and> dq_size x' = dq_size x \<and>
    e = (if dq_notify x \<and> k_list s (SuspendQ d) = [] then Some RT_DATAQUEUE_EVENT_PUSH else None)"
proof -
  from dq_put_law [OF x f, of v] obtain x' where
    x': "dq_put v x = Some x'" "dq_inv x'" "dq_items x' = dq_items x @ [v]" "dq_size x' = dq_size x" by blast
  from dev_wake_spec [OF kw cur, of "SuspendQ d"] obtain s' where
    s': "dev_wake (SuspendQ d) s = Some s'" "kwf s'" "rt_current_thread s' \<noteq> None" "dev_woken (SuspendQ d) s s'" by auto
  show ?thesis
  proof (cases "k_list s (SuspendQ d)")
    case Nil
    then have "s' = s" using s'(1) by (simp add: dev_wake_def)
    with Nil s' x' f dq_notify_kept(1) [OF x'(1)] show ?thesis by (auto simp: dq_push_loop_def dq_event_def)
  next
    case (Cons t q)
    with s' x' f show ?thesis by (auto simp: dq_push_loop_def)
  qed
qed

lemma dq_pop_spec:
  assumes kw: "kwf s" and cur: "rt_current_thread s \<noteq> None" and x: "dq_inv x" and q: "dq_items x = v # q"
  shows "\<exists>e s' x'. dq_pop_loop d timeout s x = Some (Return (RT_EOK, Some v), e, s', x') \<and> kwf s' \<and> rt_current_thread s' \<noteq> None \<and>
    (if length q \<le> unat (dq_lwm x) then dev_woken (SenderQ d) s s' else s' = s) \<and> dq_inv x' \<and> dq_items x' = q \<and> dq_size x' = dq_size x \<and>
    e = (if dq_notify x then Some (if length q \<le> unat (dq_lwm x) then RT_DATAQUEUE_EVENT_LWM else RT_DATAQUEUE_EVENT_POP) else None)"
proof -
  from dq_get_law [OF x q] obtain x' where
    x': "dq_get x = Some (v, x')" "dq_inv x'" "dq_items x' = q" "dq_size x' = dq_size x" "dq_lwm x' = dq_lwm x" by blast
  from dq_len [OF x'(2)] x'(3) obtain n where n: "rt_data_queue_len x' = Some n" "unat n = length q" by auto
  have e: "\<not> dq_is_empty x" using dqs.empty_iff [OF x] q by simp
  have lw: "n \<le> dq_lwm x \<longleftrightarrow> length q \<le> unat (dq_lwm x)" by (simp add: word_le_nat_alt n(2))
  from dev_wake_spec [OF kw cur, of "SenderQ d"] obtain s' where
    s': "dev_wake (SenderQ d) s = Some s'" "kwf s'" "rt_current_thread s' \<noteq> None" "dev_woken (SenderQ d) s s'" by auto
  show ?thesis
  proof (cases "length q \<le> unat (dq_lwm x)")
    case True
    with s' x' n e lw dq_notify_kept(2) [OF x'(1)] show ?thesis by (simp add: dq_pop_loop_def dq_event_def)
  next
    case False
    with kw cur x' n e lw dq_notify_kept(2) [OF x'(1)] show ?thesis by (simp add: dq_pop_loop_def dq_event_def)
  qed
qed

text \<open>C19. A call of the data queue that does not wait, in any well-formed state of the kernel. A push refuses a full queue with
  \<open>-RT_ETIMEOUT\<close> and changes nothing; otherwise it appends the item and wakes the first thread that waits to pop. A pop refuses an
  empty queue; otherwise it takes the oldest item and, when no more than the low-water mark are left, wakes the first thread that
  waits to push (the comments of the file promise this only for less than the low-water mark, the code compares with \<open><=\<close>).
  With a notification function, a push that wakes nobody and every pop that takes an item notify their event. Peeking shows the oldest
  item and the length is the number of items.\<close>

theorem rt_data_queue_outcomes:
  assumes "kwf s" and "rt_current_thread s \<noteq> None" and "dq_inv x"
  shows "(\<exists>r e s' x'. rt_data_queue_push d v 0 s x = Some (Return r, e, s', x') \<and> kwf s' \<and> dq_inv x' \<and>
      (if length (dq_items x) < unat (dq_size x)
       then r = RT_EOK \<and> dq_items x' = dq_items x @ [v] \<and> dev_woken (SuspendQ d) s s' \<and>
         e = (if dq_notify x \<and> k_list s (SuspendQ d) = [] then Some RT_DATAQUEUE_EVENT_PUSH else None)
       else r = - RT_ETIMEOUT \<and> x' = x \<and> s' = s \<and> e = None)) \<and>
    (\<exists>r e s' x'. rt_data_queue_pop d 0 s x = Some (Return r, e, s', x') \<and> kwf s' \<and> dq_inv x' \<and>
      (case dq_items x of
        [] \<Rightarrow> r = (- RT_ETIMEOUT, None) \<and> x' = x \<and> s' = s \<and> e = None
      | w # q \<Rightarrow> r = (RT_EOK, Some w) \<and> dq_items x' = q \<and>
          e = (if dq_notify x then Some (if length q \<le> unat (dq_lwm x) then RT_DATAQUEUE_EVENT_LWM else RT_DATAQUEUE_EVENT_POP) else None) \<and>
          (if length q \<le> unat (dq_lwm x) then dev_woken (SenderQ d) s s' else s' = s))) \<and>
    rt_data_queue_peek x = Some (case dq_items x of [] \<Rightarrow> (- RT_EEMPTY, None) | w # _ \<Rightarrow> (RT_EOK, Some w)) \<and>
    (\<exists>n. rt_data_queue_len x = Some n \<and> unat n = length (dq_items x))"
proof (intro conjI)
  note d = assms(3) [unfolded dq_inv_def] and k = dq_count_facts [OF assms(3)]
  have a: "assert_queue x = Some ()" using d by (simp add: assert_queue_def)
  have z: "RT_DEBUG_SCHEDULER_AVAILABLE ((0::u32) \<noteq> 0) s = Some ()" by (simp add: RT_DEBUG_SCHEDULER_AVAILABLE_def)
  show "\<exists>r e s' x'. rt_data_queue_push d v 0 s x = Some (Return r, e, s', x') \<and> kwf s' \<and> dq_inv x' \<and>
      (if length (dq_items x) < unat (dq_size x)
       then r = RT_EOK \<and> dq_items x' = dq_items x @ [v] \<and> dev_woken (SuspendQ d) s s' \<and>
         e = (if dq_notify x \<and> k_list s (SuspendQ d) = [] then Some RT_DATAQUEUE_EVENT_PUSH else None)
       else r = - RT_ETIMEOUT \<and> x' = x \<and> s' = s \<and> e = None)"
  proof (cases "dq_is_full x")
    case True
    with k(2) a z assms show ?thesis by (simp add: rt_data_queue_push_def dq_push_loop_def)
  next
    case False
    then have "dq_count x < unat (dq_size x)" using k(1,2) by simp
    with dq_push_spec [OF assms False, of d v 0] a z show ?thesis by (auto simp: rt_data_queue_push_def)
  qed
  show "\<exists>r e s' x'. rt_data_queue_pop d 0 s x = Some (Return r, e, s', x') \<and> kwf s' \<and> dq_inv x' \<and>
      (case dq_items x of
        [] \<Rightarrow> r = (- RT_ETIMEOUT, None) \<and> x' = x \<and> s' = s \<and> e = None
      | w # q \<Rightarrow> r = (RT_EOK, Some w) \<and> dq_items x' = q \<and>
          e = (if dq_notify x then Some (if length q \<le> unat (dq_lwm x) then RT_DATAQUEUE_EVENT_LWM else RT_DATAQUEUE_EVENT_POP) else None) \<and>
          (if length q \<le> unat (dq_lwm x) then dev_woken (SenderQ d) s s' else s' = s))"
  proof (cases "dq_items x")
    case Nil
    with dqs.empty_iff [OF assms(3)] a z assms show ?thesis by (simp add: rt_data_queue_pop_def dq_pop_loop_def)
  next
    case (Cons w q)
    with dq_pop_spec [OF assms Cons, of d 0] a z show ?thesis by (auto simp: rt_data_queue_pop_def split: if_splits)
  qed
  have "unat (dq_get_index x) < length (snd (dq_queue x)) \<and> snd (dq_queue x) ! unat (dq_get_index x) = w" if "dq_items x = w # q" for w q
    using dq_get_law [OF assms(3) that] by (auto simp: dq_get_def Let_def split: bind_splits)
  with dqs.empty_iff [OF assms(3)] a
  show "rt_data_queue_peek x = Some (case dq_items x of [] \<Rightarrow> (- RT_EEMPTY, None) | w # _ \<Rightarrow> (RT_EOK, Some w))"
    by (cases "dq_items x") (simp_all add: rt_data_queue_peek_def)
  show "\<exists>n. rt_data_queue_len x = Some n \<and> unat n = length (dq_items x)" by (rule dq_len [OF assms(3)])
qed


section \<open>Waiting\<close>

lemma dq_inv_magic:
  assumes x: "dq_inv x"
  shows "assert_queue x = Some ()"
  using x by (simp add: dq_inv_def assert_queue_def)

text \<open>A thread that waits in a queue of threads, alone, until it is woken.\<close>

lemma dev_wait_alone:
  assumes kw: "kwf s" and ctx: "thread_context t s" and l: "is_waitq l" "k_list s l = []" and tm: "timeout \<noteq> 0x7fffffff"
  shows "\<exists>s1. dev_wait l t timeout s = Some s1 \<and> kwf s1 \<and> k_list s1 l = [t] \<and>
    (0 < sint timeout \<longrightarrow> timer_set t (rt_tick s + timeout) s1) \<and>
    (\<forall>s2. env_step\<^sup>*\<^sup>* s1 s2 \<longrightarrow> k_list s2 l \<noteq> [] \<longrightarrow> kwf s2 \<and> rt_current_thread s2 \<noteq> None \<and>
      (\<forall>s3. dev_woken l s2 s3 \<longrightarrow> k_list s3 l = [] \<and> (\<exists>th. k_thread s3 t = Some th \<and> runnable th \<and> th_error th = RT_EOK)))"
proof -
  from dev_wait_spec [OF kw ctx l(1) tm] obtain s1 where
    s1: "dev_wait l t timeout s = Some s1" and b: "blocked l t RT_EOK RT_IPC_FLAG_FIFO timeout s s1" by blast
  note bd = blockedD [OF b]
  have nr: "\<And>p. l \<noteq> ReadyQ p" using l(1) by auto
  have l1: "k_list s1 l = [t]" using bd(4) [of l] l(2) nr by (simp add: enqueue_def)
  have "kwf s2 \<and> rt_current_thread s2 \<noteq> None \<and>
      (\<forall>s3. dev_woken l s2 s3 \<longrightarrow> k_list s3 l = [] \<and> (\<exists>th. k_thread s3 t = Some th \<and> runnable th \<and> th_error th = RT_EOK))"
    if e: "env_step\<^sup>*\<^sup>* s1 s2" and ne: "k_list s2 l \<noteq> []" for s2
  proof -
    from env_quiet [OF e bd(1,3)] have s2: "kwf s2" "rt_current_thread s2 \<noteq> None" "quiet s1 s2" by blast+
    have l2: "k_list s2 l = [t]" using quietD(2) [OF s2(3) l(1)] l1 ne by (auto split: if_splits)
    then have "k_thread s2 t = k_thread s1 t" using quietD(3) [OF s2(3) l(1), of t] by simp
    then obtain h where h: "k_thread s2 t = Some h" "th_error h = RT_EOK" using bd(5) by auto
    with s2 l2 show ?thesis by (auto simp: dev_woken_def)
  qed
  with s1 bd(1,6) l1 show ?thesis by blast
qed

text \<open>A thread that pops from an empty queue waits; after any steps of the rest of the kernel in which its time has not run
  out, a push wakes it, and it returns with the item that was pushed.\<close>

theorem rt_data_queue_popper_gets:
  assumes "kwf s" and "thread_context t s" and "k_list s (SuspendQ d) = []" and "timeout \<noteq> 0" and "timeout \<noteq> 0x7fffffff"
    and "dq_inv x" and "dq_items x = []"
  shows "\<exists>s1. rt_data_queue_pop d timeout s x = Some (Blocked, None, s1, x) \<and> kwf s1 \<and> k_list s1 (SuspendQ d) = [t] \<and>
    (0 < sint timeout \<longrightarrow> timer_set t (rt_tick s + timeout) s1) \<and>
    (\<forall>s2 v. env_step\<^sup>*\<^sup>* s1 s2 \<longrightarrow> k_list s2 (SuspendQ d) \<noteq> [] \<longrightarrow>
      (\<exists>e s3 x3 th. rt_data_queue_push d v 0 s2 x = Some (Return RT_EOK, e, s3, x3) \<and> kwf s3 \<and> k_list s3 (SuspendQ d) = [] \<and>
        k_thread s3 t = Some th \<and> runnable th \<and>
        (\<exists>e s4 x4. dq_pop_resume t d timeout s3 x3 = Some (Return (RT_EOK, Some v), e, s4, x4) \<and> dq_inv x4 \<and> dq_items x4 = [])))"
proof -
  note a = dq_inv_magic [OF assms(6)]
  have cur: "rt_current_thread s = Some t" using assms(2) by (simp add: thread_context_def)
  have e: "dq_is_empty x" "\<not> dq_is_full x" using dqs.empty_iff [OF assms(6)] dq_count_facts(2) [OF assms(6)] assms(6,7)
    by (auto simp: dq_inv_def)
  from dev_wait_alone [OF assms(1,2) _ assms(3,5)] obtain s1 where
    s1: "dev_wait (SuspendQ d) t timeout s = Some s1" "kwf s1" "k_list s1 (SuspendQ d) = [t]"
      "0 < sint timeout \<longrightarrow> timer_set t (rt_tick s + timeout) s1"
    and later: "\<And>s2. env_step\<^sup>*\<^sup>* s1 s2 \<Longrightarrow> k_list s2 (SuspendQ d) \<noteq> [] \<Longrightarrow> kwf s2 \<and> rt_current_thread s2 \<noteq> None \<and>
      (\<forall>s3. dev_woken (SuspendQ d) s2 s3 \<longrightarrow> k_list s3 (SuspendQ d) = [] \<and>
        (\<exists>th. k_thread s3 t = Some th \<and> runnable th \<and> th_error th = RT_EOK))" by auto
  have "rt_data_queue_pop d timeout s x = Some (Blocked, None, s1, x)"
    using a e(1) s1(1) assms(2,4) cur by (simp add: rt_data_queue_pop_def dq_pop_loop_def rt_thread_self_def)
  moreover have "\<exists>e s3 x3 th. rt_data_queue_push d v 0 s2 x = Some (Return RT_EOK, e, s3, x3) \<and> kwf s3 \<and>
      k_list s3 (SuspendQ d) = [] \<and> k_thread s3 t = Some th \<and> runnable th \<and>
      (\<exists>e s4 x4. dq_pop_resume t d timeout s3 x3 = Some (Return (RT_EOK, Some v), e, s4, x4) \<and> dq_inv x4 \<and> dq_items x4 = [])"
    if st: "env_step\<^sup>*\<^sup>* s1 s2" "k_list s2 (SuspendQ d) \<noteq> []" for s2 v
  proof -
    note s2 = later [OF st]
    from dq_push_spec [OF _ _ assms(6) e(2), of s2 d v 0] s2 obtain ev s3 x3 where
      s3: "dq_push_loop d v 0 s2 x = Some (Return RT_EOK, ev, s3, x3)" "kwf s3" "rt_current_thread s3 \<noteq> None"
        "dev_woken (SuspendQ d) s2 s3" and x3: "dq_inv x3" "dq_items x3 = [v]" using assms(7) by auto
    from s2 s3(4) obtain th where th: "k_list s3 (SuspendQ d) = []" "k_thread s3 t = Some th" "runnable th" "th_error th = RT_EOK"
      by blast
    from dq_pop_spec [OF s3(2,3) x3] obtain ev' s4 x4 where
      "dq_pop_loop d timeout s3 x3 = Some (Return (RT_EOK, Some v), ev', s4, x4)" "dq_inv x4" "dq_items x4 = []" by blast
    then have "\<exists>e s4 x4. dq_pop_resume t d timeout s3 x3 = Some (Return (RT_EOK, Some v), e, s4, x4) \<and> dq_inv x4 \<and> dq_items x4 = []"
      using th by (simp add: dq_pop_resume_def)
    with s3 th a show ?thesis by (auto simp: rt_data_queue_push_def RT_DEBUG_SCHEDULER_AVAILABLE_def)
  qed
  ultimately show ?thesis using s1(2-4) by blast
qed

text \<open>A thread that pushes into a full queue waits; after any steps of the rest of the kernel in which its time has not run out,
  a pop that leaves no more items than the low-water mark wakes it, and it returns with its item at the end of the queue.\<close>

theorem rt_data_queue_pusher_puts:
  assumes "kwf s" and "thread_context t s" and "k_list s (SenderQ d) = []" and "timeout \<noteq> 0" and "timeout \<noteq> 0x7fffffff"
    and "dq_inv x" and "dq_items x = w # q" and "length (w # q) = unat (dq_size x)" and "length q \<le> unat (dq_lwm x)"
  shows "\<exists>s1. rt_data_queue_push d v timeout s x = Some (Blocked, None, s1, x) \<and> kwf s1 \<and> k_list s1 (SenderQ d) = [t] \<and>
    (0 < sint timeout \<longrightarrow> timer_set t (rt_tick s + timeout) s1) \<and>
    (\<forall>s2. env_step\<^sup>*\<^sup>* s1 s2 \<longrightarrow> k_list s2 (SenderQ d) \<noteq> [] \<longrightarrow>
      (\<exists>e s3 x3 th. rt_data_queue_pop d 0 s2 x = Some (Return (RT_EOK, Some w), e, s3, x3) \<and> kwf s3 \<and> k_list s3 (SenderQ d) = [] \<and>
        k_thread s3 t = Some th \<and> runnable th \<and>
        (\<exists>e s4 x4. dq_push_resume t d v timeout s3 x3 = Some (Return RT_EOK, e, s4, x4) \<and> dq_inv x4 \<and> dq_items x4 = q @ [v])))"
proof -
  note a = dq_inv_magic [OF assms(6)]
  have cur: "rt_current_thread s = Some t" using assms(2) by (simp add: thread_context_def)
  have f: "dq_is_full x" using dqs.full_iff [OF assms(6)] assms(7,8) by simp
  from dev_wait_alone [OF assms(1,2) _ assms(3,5)] obtain s1 where
    s1: "dev_wait (SenderQ d) t timeout s = Some s1" "kwf s1" "k_list s1 (SenderQ d) = [t]"
      "0 < sint timeout \<longrightarrow> timer_set t (rt_tick s + timeout) s1"
    and later: "\<And>s2. env_step\<^sup>*\<^sup>* s1 s2 \<Longrightarrow> k_list s2 (SenderQ d) \<noteq> [] \<Longrightarrow> kwf s2 \<and> rt_current_thread s2 \<noteq> None \<and>
      (\<forall>s3. dev_woken (SenderQ d) s2 s3 \<longrightarrow> k_list s3 (SenderQ d) = [] \<and>
        (\<exists>th. k_thread s3 t = Some th \<and> runnable th \<and> th_error th = RT_EOK))" by auto
  have "rt_data_queue_push d v timeout s x = Some (Blocked, None, s1, x)"
    using a f s1(1) assms(2,4) cur by (simp add: rt_data_queue_push_def dq_push_loop_def rt_thread_self_def)
  moreover have "\<exists>e s3 x3 th. rt_data_queue_pop d 0 s2 x = Some (Return (RT_EOK, Some w), e, s3, x3) \<and> kwf s3 \<and>
      k_list s3 (SenderQ d) = [] \<and> k_thread s3 t = Some th \<and> runnable th \<and>
      (\<exists>e s4 x4. dq_push_resume t d v timeout s3 x3 = Some (Return RT_EOK, e, s4, x4) \<and> dq_inv x4 \<and> dq_items x4 = q @ [v])"
    if st: "env_step\<^sup>*\<^sup>* s1 s2" "k_list s2 (SenderQ d) \<noteq> []" for s2
  proof -
    note s2 = later [OF st]
    from dq_pop_spec [OF _ _ assms(6,7), of s2 d 0] s2 assms(9) obtain ev s3 x3 where
      s3: "dq_pop_loop d 0 s2 x = Some (Return (RT_EOK, Some w), ev, s3, x3)" "kwf s3" "rt_current_thread s3 \<noteq> None"
        "dev_woken (SenderQ d) s2 s3" and x3: "dq_inv x3" "dq_items x3 = q" "dq_size x3 = dq_size x" by auto
    from s2 s3(4) obtain th where th: "k_list s3 (SenderQ d) = []" "k_thread s3 t = Some th" "runnable th" "th_error th = RT_EOK"
      by blast
    have "\<not> dq_is_full x3" using dqs.full_iff [OF x3(1)] x3(2,3) assms(8) by simp
    from dq_push_spec [OF s3(2,3) x3(1) this, of d v timeout] obtain ev' s4 x4 where
      "dq_push_loop d v timeout s3 x3 = Some (Return RT_EOK, ev', s4, x4)" "dq_inv x4" "dq_items x4 = q @ [v]" using x3(2) by auto
    then have "\<exists>e s4 x4. dq_push_resume t d v timeout s3 x3 = Some (Return RT_EOK, e, s4, x4) \<and> dq_inv x4 \<and> dq_items x4 = q @ [v]"
      using th by (simp add: dq_push_resume_def)
    with s3 th a show ?thesis by (auto simp: rt_data_queue_pop_def RT_DEBUG_SCHEDULER_AVAILABLE_def)
  qed
  ultimately show ?thesis using s1(2-4) by blast
qed

section \<open>Resetting\<close>

lemma kwf_nest: "kwf (s\<lparr>rt_scheduler_lock_nest := n\<rparr>) = kwf s"
  by (rule kwf_same_ipc) simp_all

lemma exit_critical_spec:
  assumes kw: "kwf s" and cur: "rt_current_thread s \<noteq> None"
  shows "\<exists>n s'. rt_exit_critical s = Some s' \<and> kwf s' \<and> rt_current_thread s' \<noteq> None \<and> sched_frame (s\<lparr>rt_scheduler_lock_nest := n\<rparr>) s'"
proof (cases "sint (rt_scheduler_lock_nest s - 1) \<le> 0")
  case True
  let ?s = "s\<lparr>rt_scheduler_lock_nest := 0\<rparr>"
  have k: "kwf ?s" "rt_current_thread ?s \<noteq> None" using kw cur by (simp_all add: kwf_nest)
  from schedule_kinv [OF kwfD(1) [OF k(1)] k(2)] obtain s' where
    s': "rt_schedule ?s = Some s'" "kinv s'" "sched_frame ?s s'" by blast
  with True cur kwf_sched [OF k(1) s'(2,3)] schedule_current [OF kwfD(1) [OF k(1)] k(2) s'(1)] show ?thesis
    by (auto simp: rt_exit_critical_def Let_def)
next
  case False
  let ?n = "rt_scheduler_lock_nest s - 1"
  have "rt_exit_critical s = Some (s\<lparr>rt_scheduler_lock_nest := ?n\<rparr>)" using False by (simp add: rt_exit_critical_def Let_def)
  with kw cur show ?thesis by (intro exI [of _ ?n] exI [of _ "s\<lparr>rt_scheduler_lock_nest := ?n\<rparr>"]) (simp add: kwf_nest)
qed

text \<open>Resetting a data queue empties it and lets no thread wait: every thread of its two queues is runnable afterwards and its
  call fails with \<open>-RT_ERROR\<close>.\<close>

theorem rt_data_queue_reset_wakes:
  assumes "kwf s" and "rt_current_thread s \<noteq> None" and "dq_inv x"
  shows "\<exists>s' x'. rt_data_queue_reset d s x = Some (s', x') \<and> kwf s' \<and> dq_inv x' \<and> dq_items x' = [] \<and>
    k_list s' (SuspendQ d) = [] \<and> k_list s' (SenderQ d) = [] \<and>
    (\<forall>t. t \<in> set (k_list s (SuspendQ d)) \<union> set (k_list s (SenderQ d)) \<longrightarrow>
      (\<exists>th. k_thread s' t = Some th \<and> runnable th \<and> th_error th = - RT_ERROR))"
proof -
  let ?g = "\<lambda>th. th\<lparr>th_error := - RT_ERROR\<rparr> :: rt_thread"
  let ?p = "k_list s (SuspendQ d)" and ?q = "k_list s (SenderQ d)"
  let ?x = "x\<lparr>dq_get_index := 0, dq_put_index := 0, dq_is_empty := True, dq_is_full := False\<rparr>"
  let ?s0 = "rt_enter_critical s"
  have k0: "kwf ?s0" "rt_current_thread ?s0 \<noteq> None" "k_list ?s0 = k_list s" "k_thread ?s0 = k_thread s"
    using assms(1,2) by (simp_all add: rt_enter_critical_def kwf_nest)
  from list_resume_all_spec [OF k0(1), of "SuspendQ d" ?p] k0(3) obtain s1 where
    s1: "ipc_list_resume_all (SuspendQ d) ?s0 = Some s1" "kwf s1" "all_woken ?g ?p ?s0 s1" by auto
  have dj: "set ?p \<inter> set ?q = {}"
    using separate_eq [OF inv_outD(1) [OF kinvD(5) [OF kwfD(1) [OF assms(1)], of "{}"]], of _ "SuspendQ d" "SenderQ d"] by auto
  have l1: "k_list s1 (SuspendQ d) = []" "k_list s1 (SenderQ d) = ?q"
    using all_wokenD(3) [OF s1(3), of "SuspendQ d"] all_wokenD(3) [OF s1(3), of "SenderQ d"] dj k0(3)
    by (auto simp: filter_id_conv)
  from list_resume_all_spec [OF s1(2), of "SenderQ d" ?q] l1(2) obtain s2 where
    s2: "ipc_list_resume_all (SenderQ d) s1 = Some s2" "kwf s2" "all_woken ?g ?q s1 s2" by auto
  have l2: "k_list s2 (SuspendQ d) = []" "k_list s2 (SenderQ d) = []" and c2: "rt_current_thread s2 \<noteq> None"
    using all_wokenD(3) [OF s2(3), of "SuspendQ d"] all_wokenD(3) [OF s2(3), of "SenderQ d"] l1
      all_wokenD(2) [OF s1(3)] all_wokenD(2) [OF s2(3)] k0(2) by simp_all
  have run2: "\<exists>th. k_thread s2 t = Some th \<and> runnable th \<and> th_error th = - RT_ERROR" if "t \<in> set ?p \<union> set ?q" for t
  proof (cases "t \<in> set ?q")
    case True
    from all_woken_runnable [OF s2(3) True] show ?thesis by auto
  next
    case False
    with that all_woken_runnable [OF s1(3), of t] all_wokenD(4) [OF s2(3) False] show ?thesis by auto
  qed
  from exit_critical_spec [OF s2(2) c2] obtain n s3 where
    s3: "rt_exit_critical s2 = Some s3" "kwf s3" "rt_current_thread s3 \<noteq> None" "sched_frame (s2\<lparr>rt_scheduler_lock_nest := n\<rparr>) s3" by blast
  from schedule_kinv [OF kwfD(1) [OF s3(2)] s3(3)] obtain s4 where
    s4: "rt_schedule s3 = Some s4" "kinv s4" "sched_frame s3 s4" by blast
  note f = sched_frame_trans [OF s3(4) s4(3)]
  have "rt_data_queue_reset d s x = Some (s4, ?x)"
    using assms(3) s1(1) s2(1) s3(1) s4(1) by (simp add: rt_data_queue_reset_def dq_inv_def assert_queue_def)
  moreover have "kwf s4" by (rule kwf_sched [OF s3(2) s4(2,3)])
  moreover have "dq_inv ?x \<and> dq_count ?x = 0" using assms(3)
    by (intro dq_inv_count) (simp_all add: dq_inv_def word_less_nat_alt)
  moreover have "k_list s4 (SuspendQ d) = []" "k_list s4 (SenderQ d) = []"
    using sched_frame_queue [OF f, of "SuspendQ d"] sched_frame_queue [OF f, of "SenderQ d"] l2 by simp_all
  moreover have "\<exists>th. k_thread s4 t = Some th \<and> runnable th \<and> th_error th = - RT_ERROR" if t: "t \<in> set ?p \<union> set ?q" for t
  proof -
    from run2 [OF t] obtain th where th: "k_thread s2 t = Some th" "runnable th" "th_error th = - RT_ERROR" by blast
    with sched_frame_runnable [OF f, of t th] sched_frame_thread [OF f, of t th] show ?thesis by auto
  qed
  ultimately show ?thesis by (simp add: dq_items_def ring_msgs_def)
qed

text \<open>Any sequence of items put and taken through the ring behaves like a bounded queue: putting appends unless the queue is full, and
  taking gives the oldest.\<close>

theorem dq_ring_refines:
  assumes "dq_inv x" and "list_all (\<lambda>c. \<forall>v. c \<noteq> Urgent v) calls"
  shows "\<exists>x'. store_run (store_step dq_is_full dq_is_empty dq_put (\<lambda>_ _. None) dq_get) calls x =
      Some (fst (deque_run (unat (dq_size x)) calls (dq_items x)), x') \<and> dq_inv x' \<and>
    dq_items x' = snd (deque_run (unat (dq_size x)) calls (dq_items x))"
proof (rule store_run_sim [where inv = dq_inv and P = "\<lambda>_ c. \<forall>v. c \<noteq> Urgent v"])
  fix x and c :: "data_item msg_call" assume x: "dq_inv x" and c: "\<forall>v. c \<noteq> Urgent v"
  show "\<exists>x'. store_step dq_is_full dq_is_empty dq_put (\<lambda>_ _. None) dq_get c x =
      Some (fst (deque_step (unat (dq_size x)) c (dq_items x)), x') \<and> dq_inv x' \<and>
    dq_items x' = snd (deque_step (unat (dq_size x)) c (dq_items x)) \<and> unat (dq_size x') = unat (dq_size x) \<and>
    (\<lambda>c. \<forall>v. c \<noteq> Urgent v) = (\<lambda>c. \<forall>v. c \<noteq> Urgent v)"
    using c dqs.send_refines [OF x] dqs.recv_refines [OF x] by (cases c) auto
qed (rule assms)+

section \<open>At a concrete input\<close>

definition ex_dq :: rt_data_queue where
  "ex_dq = \<lparr>dq_magic = 0xbead0e0e, dq_size = 2, dq_lwm = 1, dq_get_index = 1, dq_is_empty = False, dq_put_index = 0, dq_is_full = False,
    dq_notify = False, dq_queue = (Some 0x2000, [(1, 2), (3, 4)])\<rparr>"

lemma ex_dq_ok: "dq_inv ex_dq" "dq_items ex_dq = [(3, 4)]"
  by (simp_all add: dq_inv_def ex_dq_def dq_items_def dq_count_def ring_msgs_def)

lemma ex_dq_empty: "dq_inv (ex_dq\<lparr>dq_put_index := 1, dq_is_empty := True\<rparr>)" "dq_items (ex_dq\<lparr>dq_put_index := 1, dq_is_empty := True\<rparr>) = []"
  by (simp_all add: dq_inv_def ex_dq_def dq_items_def dq_count_def ring_msgs_def)

lemma ex_dq_full: "dq_inv (ex_dq\<lparr>dq_put_index := 1, dq_is_full := True\<rparr>)" "dq_items (ex_dq\<lparr>dq_put_index := 1, dq_is_full := True\<rparr>) = [(3, 4), (1, 2)]"
  by (simp_all add: dq_inv_def ex_dq_def dq_items_def dq_count_def ring_msgs_def upt_rec)

lemma rt_data_queue_outcomes_witness:
  "\<exists>r e s' x'. rt_data_queue_pop 20 0 ex_timed ex_dq = Some (Return r, e, s', x') \<and> r = (0, Some (3, 4)) \<and> dq_items x' = []"
  using rt_data_queue_outcomes [OF ex_timed_kwf _ ex_dq_ok(1), of 20 "(5, 6)"] by (auto simp: ex_dq_ok)

lemma rt_data_queue_popper_gets_witness:
  "\<exists>s1. rt_data_queue_pop 0x500 5 ex_timed (ex_dq\<lparr>dq_put_index := 1, dq_is_empty := True\<rparr>) =
    Some (Blocked, None, s1, ex_dq\<lparr>dq_put_index := 1, dq_is_empty := True\<rparr>) \<and> k_list s1 (SuspendQ 0x500) = [10]"
  using rt_data_queue_popper_gets [OF ex_timed_kwf ex_timed_context _ _ _ ex_dq_empty, of "0x500" 5] by auto

lemma rt_data_queue_pusher_puts_witness:
  "\<exists>s1. rt_data_queue_push 0x500 (7, 8) 5 ex_timed (ex_dq\<lparr>dq_put_index := 1, dq_is_full := True\<rparr>) =
    Some (Blocked, None, s1, ex_dq\<lparr>dq_put_index := 1, dq_is_full := True\<rparr>) \<and> k_list s1 (SenderQ 0x500) = [10]"
  using rt_data_queue_pusher_puts [OF ex_timed_kwf ex_timed_context _ _ _ ex_dq_full, of "0x500" 5 "(7, 8)"]
  by (auto simp: ex_dq_def)

lemma rt_data_queue_reset_wakes_witness:
  "\<exists>s' x'. rt_data_queue_reset 20 ex_timed ex_dq = Some (s', x') \<and> k_list s' (SuspendQ 20) = [] \<and>
    (\<exists>th. k_thread s' 12 = Some th \<and> runnable th \<and> th_error th = - 1)"
proof -
  from rt_data_queue_reset_wakes [OF ex_timed_kwf _ ex_dq_ok(1), of 20] obtain s' x' where
    "rt_data_queue_reset 20 ex_timed ex_dq = Some (s', x')" "k_list s' (SuspendQ 20) = []"
    "\<forall>t. t \<in> set (k_list ex_timed (SuspendQ 20)) \<union> set (k_list ex_timed (SenderQ 20)) \<longrightarrow>
      (\<exists>th. k_thread s' t = Some th \<and> runnable th \<and> th_error th = - 1)" by auto
  then show ?thesis by auto
qed

lemma dq_ring_refines_witness:
  "\<exists>x'. store_run (store_step dq_is_full dq_is_empty dq_put (\<lambda>_ _. None) dq_get) [Send (5, 6), Send (7, 8), Recv, Recv, Recv] ex_dq =
      Some ([None, None, Some (3, 4), Some (5, 6), None], x') \<and> dq_items x' = []"
proof -
  have "unat (dq_size ex_dq) = 2" by (simp add: ex_dq_def)
  with dq_ring_refines [OF ex_dq_ok(1), of "[Send (5, 6), Send (7, 8), Recv, Recv, Recv]"] show ?thesis
    by (auto simp: ex_dq_ok)
qed

end
