(* ===== verification/CTime.thy ===== *)
theory CTime
  imports Prelude "HOL-Library.Signed_Division"
begin

text \<open>
  Broken-down time, \<open>components/libc/compilers/common/ctime.c\<close>. The fields of \<open>struct tm\<close> are of type
  \<open>int\<close>, of 32 bits: a sum of the code that leaves their range has no result (\<open>None\<close>), and the cast of the
  number of days to \<open>int\<close> is kept. The values of \<open>time_t\<close> are integers without a bound (the type has 64 bits). The
  division and remainder of C round towards zero. The error number is not modelled, only the result that signals the error.
\<close>

section \<open>The calendar of the code\<close>

record tm =
  tm_sec :: int
  tm_min :: int
  tm_hour :: int
  tm_mday :: int
  tm_mon :: int
  tm_year :: int
  tm_wday :: int
  tm_yday :: int
  tm_isdst :: int

text \<open>Days before a month in a year that is not a leap year.\<close>

definition spm :: "int list" where
  "spm = [0, 31, 31 + 28, 31 + 28 + 31, 31 + 28 + 31 + 30, 31 + 28 + 31 + 30 + 31, 31 + 28 + 31 + 30 + 31 + 30,
    31 + 28 + 31 + 30 + 31 + 30 + 31, 31 + 28 + 31 + 30 + 31 + 30 + 31 + 31, 31 + 28 + 31 + 30 + 31 + 30 + 31 + 31 + 30,
    31 + 28 + 31 + 30 + 31 + 30 + 31 + 31 + 30 + 31, 31 + 28 + 31 + 30 + 31 + 30 + 31 + 31 + 30 + 31 + 30,
    31 + 28 + 31 + 30 + 31 + 30 + 31 + 31 + 30 + 31 + 30 + 31]"

text \<open>A value that a variable of type \<open>int\<close> can have.\<close>

definition int_ok :: "int \<Rightarrow> bool" where "int_ok i \<longleftrightarrow> - (2 ^ 31) \<le> i \<and> i < 2 ^ 31"

definition isleap :: "int \<Rightarrow> bool" where
  "isleap year \<longleftrightarrow> year smod 4 = 0 \<and> (year smod 100 \<noteq> 0 \<or> year smod 400 = 0)"

text \<open>There is no daylight saving time; the time zone is a number of hours.\<close>

definition tz_is_dst :: int where "tz_is_dst = 0"

section \<open>From seconds to the date\<close>

text \<open>The loop over the years: the year, and the days that are left in it.\<close>

function gmtime_year :: "int \<Rightarrow> int \<Rightarrow> int \<times> int" where
  "gmtime_year i work = (let k = (if isleap i then 366 else 365) in if work \<ge> k then gmtime_year (i + 1) (work - k) else (i, work))"
  by auto
termination by (relation "measure (\<lambda>(i, work). nat work)") (auto split: if_splits)

text \<open>The loop over the months.\<close>

fun gmtime_month :: "nat \<Rightarrow> int \<Rightarrow> nat" where
  "gmtime_month 0 work = 0"
| "gmtime_month (Suc i) work = (if spm ! Suc i > work then gmtime_month i work else Suc i)"

declare gmtime_year.simps [simp del]

text \<open>The day of the week is that of \<open>4 + work\<close>, a sum in \<open>int\<close>.\<close>

definition gmtime_r :: "int \<Rightarrow> tm option" where
  "gmtime_r timep = (
    let work = timep smod (24 * 60 * 60);
      sec = work smod 60;
      work = work sdiv 60;
      mi = work smod 60;
      hour = work sdiv 60;
      work = signed_take_bit 31 (timep sdiv (24 * 60 * 60))
    in if \<not> int_ok (4 + work) then None
    else let
      wday = (4 + work) smod 7;
      (i, work) = gmtime_year 1970 work;
      yday = work;
      (mday, work) = (if isleap i \<and> work > 58 then (if work = 59 then 2 else 1, work - 1) else (1, work));
      mon = gmtime_month 11 work;
      mday = mday + (work - spm ! mon)
    in Some \<lparr>tm_sec = sec, tm_min = mi, tm_hour = hour, tm_mday = mday, tm_mon = int mon, tm_year = i - 1900, tm_wday = wday, tm_yday = yday,
      tm_isdst = tz_is_dst\<rparr>)"

text \<open>\<open>tz\<close> is the time zone that \<open>tz_get\<close> returns.\<close>

definition localtime_r :: "int \<Rightarrow> int \<Rightarrow> tm option" where
  "localtime_r tz t = gmtime_r (t + tz * 3600)"

section \<open>From the date to seconds\<close>

lemma spm_from_31: "list_all (\<lambda>k. 31 \<le> spm ! k) [1..<13]"
  by code_simp

lemma spm_pos: "0 < n \<Longrightarrow> n \<le> 12 \<Longrightarrow> 31 \<le> spm ! n"
  using spm_from_31 by (auto simp: list_all_iff)

text \<open>The loop that reduces the day of the month; a month outside the year reads outside the table.\<close>

function timegm_days :: "tm \<Rightarrow> tm option" where
  "timegm_days t =
    (if tm_mon t < 0 \<or> tm_mon t > 11 then None
     else if tm_mday t > spm ! nat (1 + tm_mon t) then
       let t = (if tm_mon t = 1 \<and> isleap (tm_year t + 1900) then t\<lparr>tm_mday := tm_mday t - 1\<rparr> else t);
         t = t\<lparr>tm_mday := tm_mday t - spm ! nat (tm_mon t)\<rparr>;
         t = t\<lparr>tm_mon := tm_mon t + 1\<rparr>;
         t = (if tm_mon t > 11 then t\<lparr>tm_mon := 0, tm_year := tm_year t + 1\<rparr> else t)
       in timegm_days t
     else Some t)"
  by auto

termination
proof (relation "measures [\<lambda>t. nat (tm_mday t), \<lambda>t. nat (12 - tm_mon t)]")
  fix t x xa xb xc :: tm
  assume m: "\<not> (tm_mon t < 0 \<or> tm_mon t > 11)" and d: "tm_mday t > spm ! nat (1 + tm_mon t)"
    and x: "x = (if tm_mon t = 1 \<and> isleap (tm_year t + 1900) then t\<lparr>tm_mday := tm_mday t - 1\<rparr> else t)"
    and xa: "xa = x\<lparr>tm_mday := tm_mday x - spm ! nat (tm_mon x)\<rparr>" and xb: "xb = xa\<lparr>tm_mon := tm_mon xa + 1\<rparr>"
    and xc: "xc = (if tm_mon xb > 11 then xb\<lparr>tm_mon := 0, tm_year := tm_year xb + 1\<rparr> else xb)"
  have "31 \<le> spm ! nat (1 + tm_mon t)" using m by (intro spm_pos) auto
  then have pos: "31 < tm_mday t" using d by simp
  show "(xc, t) \<in> measures [\<lambda>t. nat (tm_mday t), \<lambda>t. nat (12 - tm_mon t)]"
  proof (cases "tm_mon t = 0")
    case True
    then have "tm_mday xc = tm_mday t" "tm_mon xc = 1" by (simp_all add: xc xb xa x spm_def)
    with True show ?thesis by simp
  next
    case False
    then have "31 \<le> spm ! nat (tm_mon t)" using m by (intro spm_pos) auto
    then have "tm_mday xc < tm_mday t" using spm_pos [of 1] by (simp add: xc xb xa x)
    with pos show ?thesis by simp
  qed
qed simp

declare timegm_days.simps [simp del]

text \<open>The carries into the minutes, the hours, the days and the years.\<close>

definition timegm_carry :: "tm \<Rightarrow> tm option" where
  "timegm_carry t = do {
    t \<leftarrow> (if tm_sec t > 60 then
        if int_ok (tm_min t + tm_sec t sdiv 60) then Some (t\<lparr>tm_min := tm_min t + tm_sec t sdiv 60, tm_sec := tm_sec t smod 60\<rparr>) else None
      else Some t);
    t \<leftarrow> (if tm_min t \<ge> 60 then
        if int_ok (tm_hour t + tm_min t sdiv 60) then Some (t\<lparr>tm_hour := tm_hour t + tm_min t sdiv 60, tm_min := tm_min t smod 60\<rparr>) else None
      else Some t);
    t \<leftarrow> (if tm_hour t \<ge> 24 then
        if int_ok (tm_mday t + tm_hour t sdiv 24) then Some (t\<lparr>tm_mday := tm_mday t + tm_hour t sdiv 24, tm_hour := tm_hour t smod 24\<rparr>) else None
      else Some t);
    if tm_mon t \<ge> 12 then
      if int_ok (tm_year t + tm_mon t sdiv 12) then Some (t\<lparr>tm_year := tm_year t + tm_mon t sdiv 12, tm_mon := tm_mon t smod 12\<rparr>) else None
    else Some t }"

text \<open>The days before the year.\<close>

definition timegm_years :: "int \<Rightarrow> int" where
  "timegm_years years = (
    let day = years * 365 + (years + 1) sdiv 4 in
    if years \<ge> 131 then
      let years = (years - 131) sdiv 100;
        day = day - (drop_bit 2 years * 3 + 1);
        years = years AND 3;
        years = (if years = 3 then years - 1 else years)
      in day - years
    else day)"

text \<open>The loop over the days only adds to the year, so the range of \<open>tm_year + 1900\<close> is tested once, behind the loop.\<close>

definition timegm :: "tm \<Rightarrow> (int \<times> tm) option" where
  "timegm t = do {
    let years = tm_year t - 70;
    t \<leftarrow> timegm_carry t;
    t \<leftarrow> timegm_days t;
    if tm_year t < 70 then Some (-1, t)
    else if \<not> int_ok (tm_year t + 1900) \<or> \<not> int_ok (spm ! nat (tm_mon t) + tm_mday t - 1) then None
    else do {
      let yday = spm ! nat (tm_mon t) + tm_mday t - 1 + (if isleap (tm_year t + 1900) \<and> tm_mon t > 1 then 1 else 0);
      let t = t\<lparr>tm_yday := yday\<rparr>;
      let day = timegm_years years + yday;
      let t = t\<lparr>tm_wday := (day + 4) smod 7\<rparr>;
      Some (((day * 24 + tm_hour t) * 60 + tm_min t) * 60 + tm_sec t, t) } }"

definition mktime :: "int \<Rightarrow> tm \<Rightarrow> (int \<times> tm) option" where
  "mktime tz t = (case timegm t of None \<Rightarrow> None | Some (timestamp, t) \<Rightarrow> Some (timestamp - 3600 * tz, t))"

section \<open>The date as text\<close>

definition days :: string where "days = ''Sun Mon Tue Wed Thu Fri Sat ''"
definition months :: string where "months = ''Jan Feb Mar Apr May Jun Jul Aug Sep Oct Nov Dec ''"

text \<open>A number is narrowed to a character.\<close>

definition to_char :: "int \<Rightarrow> char" where "to_char i = char_of (nat (i mod 256))"

definition num2str :: "int \<Rightarrow> string" where
  "num2str i = [to_char (i sdiv 10 + 48), to_char (i smod 10 + 48)]"

text \<open>The copy of four characters of a table; an index before the table has no result.\<close>

definition four_at :: "string \<Rightarrow> int \<Rightarrow> string option" where
  "four_at table k = (if k < 0 \<or> length table < nat k + 4 then None else Some (take 4 (drop (nat k) table)))"

definition asctime_rest :: "tm \<Rightarrow> int \<Rightarrow> string" where
  "asctime_rest t year = (
    let mday = num2str (tm_mday t);
      mday = (if hd mday = CHR ''0'' then CHR '' '' # tl mday else mday)
    in mday @ '' '' @ num2str (tm_hour t) @ '':'' @ num2str (tm_min t) @ '':'' @ num2str (tm_sec t) @ '' '' @
      num2str (year sdiv 100) @ num2str (year smod 100) @ [CHR 0x0a, CHR 0x00])"

text \<open>The 26 bytes of the buffer.\<close>

definition asctime_r :: "tm \<Rightarrow> string option" where
  "asctime_r t =
    (if \<not> int_ok (tm_wday t * 4) \<or> tm_wday t * 4 < int (length days) \<and> \<not> int_ok (tm_mon t * 4) then None
     else if int (length days) \<le> tm_wday t * 4 \<or> int (length months) \<le> tm_mon t * 4 then do {
       d \<leftarrow> four_at days 0;
       m \<leftarrow> four_at months 0;
       Some (d @ m @ asctime_rest t 2000)
     } else if \<not> int_ok (tm_year t + 1900) then None
     else do {
       d \<leftarrow> four_at days (tm_wday t * 4);
       m \<leftarrow> four_at months (tm_mon t * 4);
       Some (d @ m @ asctime_rest t (tm_year t + 1900)) })"

definition ctime_r :: "int \<Rightarrow> int \<Rightarrow> string option" where
  "ctime_r tz tim_p = Option.bind (localtime_r tz tim_p) asctime_r"

end
