(* ===== verification/CTimeProps.thy ===== *)
theory CTimeProps
  imports CTime
begin

text \<open>The conversions of \<open>ctime.c\<close> against the Gregorian calendar.\<close>

section \<open>The Gregorian calendar\<close>

definition leap_year :: "int \<Rightarrow> bool" where
  "leap_year y \<longleftrightarrow> 4 dvd y \<and> (\<not> 100 dvd y \<or> 400 dvd y)"

definition year_days :: "int \<Rightarrow> int" where "year_days y = (if leap_year y then 366 else 365)"

definition month_days :: "int \<Rightarrow> nat \<Rightarrow> int" where
  "month_days y m = (if m = 1 then if leap_year y then 29 else 28 else if m \<in> {3, 5, 8, 10} then 30 else 31)"

text \<open>Days from 1 January 1970 to the start of a year, and from there to the start of a month.\<close>

definition days_to_year :: "int \<Rightarrow> int" where
  "days_to_year y = (\<Sum>k\<in>{1970..<y}. year_days k)"

definition days_to_month :: "int \<Rightarrow> nat \<Rightarrow> int" where
  "days_to_month y m = (\<Sum>k<m. month_days y k)"

text \<open>A date and a time of the calendar, and its number of seconds since 1970.\<close>

definition valid_tm :: "tm \<Rightarrow> bool" where
  "valid_tm t \<longleftrightarrow> 0 \<le> tm_sec t \<and> tm_sec t < 60 \<and> 0 \<le> tm_min t \<and> tm_min t < 60 \<and> 0 \<le> tm_hour t \<and> tm_hour t < 24 \<and>
    0 \<le> tm_mon t \<and> tm_mon t < 12 \<and> 1 \<le> tm_mday t \<and> tm_mday t \<le> month_days (tm_year t + 1900) (nat (tm_mon t)) \<and> 70 \<le> tm_year t \<and>
    tm_year t + 1900 < 2 ^ 31"

definition tm_day :: "tm \<Rightarrow> int" where
  "tm_day t = days_to_year (tm_year t + 1900) + days_to_month (tm_year t + 1900) (nat (tm_mon t)) + tm_mday t - 1"

definition tm_seconds :: "tm \<Rightarrow> int" where
  "tm_seconds t = ((tm_day t * 24 + tm_hour t) * 60 + tm_min t) * 60 + tm_sec t"

section \<open>The tables and the loops of the code\<close>

lemma isleap_leap_year: "0 \<le> y \<Longrightarrow> isleap y = leap_year y"
  by (auto simp: isleap_def leap_year_def smod_mod_positive dvd_eq_mod_eq_0)

lemma month_cases:
  "m < 12 \<Longrightarrow> m = 11 \<or> m = 10 \<or> m = 9 \<or> m = 8 \<or> m = 7 \<or> m = 6 \<or> m = 5 \<or> m = 4 \<or> m = 3 \<or> m = 2 \<or> m = 1 \<or> m = (0 :: nat)"
  by presburger

lemma days_to_month_spm:
  assumes "m \<le> 12"
  shows "days_to_month y m = spm ! m + (if leap_year y \<and> m > 1 then 1 else 0)"
proof -
  have "m = 12 \<or> m < 12" using assms by arith
  then show ?thesis by (elim disjE month_cases [elim_format]) (simp_all add: days_to_month_def month_days_def spm_def lessThan_Suc eval_nat_numeral)
qed

lemma days_to_year_1970 [simp]: "days_to_year 1970 = 0"
  by (simp add: days_to_year_def)

lemma days_to_year_next: "1970 \<le> y \<Longrightarrow> days_to_year (y + 1) = days_to_year y + year_days y"
proof -
  assume "1970 \<le> y"
  then have "{1970..<y + 1} = insert y {1970..<y}" by auto
  then show ?thesis by (simp add: days_to_year_def)
qed

lemma gmtime_year_spec:
  "1970 \<le> i \<Longrightarrow> 0 \<le> work \<Longrightarrow> gmtime_year i work = (y, w) \<Longrightarrow>
   i \<le> y \<and> 0 \<le> w \<and> w < year_days y \<and> days_to_year i + work = days_to_year y + w"
proof (induction i work rule: gmtime_year.induct)
  case (1 i work)
  have k: "(if isleap i then 366 else 365) = year_days i" using isleap_leap_year [of i] 1(2) by (simp add: year_days_def)
  show ?case
  proof (cases "work \<ge> year_days i")
    case True
    have "gmtime_year (i + 1) (work - year_days i) = (y, w)" using 1(4) True by (simp add: gmtime_year.simps [of i] k Let_def)
    from 1(1) [OF _ _ _ _ this] True 1(2) k show ?thesis by (simp add: days_to_year_next)
  next
    case False
    with 1(2-4) show ?thesis by (simp add: gmtime_year.simps [of i] k Let_def)
  qed
qed

lemma gmtime_month_spec: "gmtime_month n work \<le> n \<and> (gmtime_month n work = 0 \<or> spm ! gmtime_month n work \<le> work) \<and>
    (gmtime_month n work < n \<longrightarrow> work < spm ! Suc (gmtime_month n work))"
  by (induction n work rule: gmtime_month.induct) (auto simp: le_Suc_eq less_Suc_eq)

section \<open>The days before a year\<close>

lemma div_Suc_int:
  fixes k d :: int
  assumes "0 < d"
  shows "(k + 1) div d = k div d + (if d dvd k + 1 then 1 else 0)"
proof -
  have "k + 1 = (k mod d + 1) + k div d * d" by simp
  then have "(k + 1) div d = k div d + (k mod d + 1) div d" using assms by (metis div_mult_self1 order_less_irrefl)
  moreover have "(k mod d + 1) div d = (if d dvd k + 1 then 1 else 0)"
  proof (cases "k mod d + 1 = d")
    case True
    have "(k + 1) mod d = (k mod d + 1) mod d" by (simp add: mod_simps)
    with True assms show ?thesis by (simp add: dvd_eq_mod_eq_0)
  next
    case False
    have b: "0 \<le> k mod d + 1" "k mod d + 1 < d" using assms pos_mod_bound [OF assms, of k] pos_mod_sign [OF assms, of k] False by linarith+
    have "(k + 1) mod d = (k mod d + 1) mod d" by (simp add: mod_simps)
    with b assms pos_mod_sign [OF assms, of k] show ?thesis by (simp add: dvd_eq_mod_eq_0 div_pos_pos_trivial mod_pos_pos_trivial)
  qed
  ultimately show ?thesis by simp
qed

lemma leap_count:
  assumes "q \<longrightarrow> p" and "r \<longrightarrow> q"
  shows "(if p \<and> (\<not> q \<or> r) then 366 else 365) = 365 + (if p then 1 else 0) - (if q then 1 else 0) + (if r then 1 else (0::int))"
  using assms by (cases p; cases q; cases r) simp_all

lemma hour_bound:
  fixes w :: int
  assumes "0 \<le> w" and "w < 86400"
  shows "w div 60 div 60 < 24" "0 \<le> w div 60 div 60"
  using assms by linarith+

lemma year_step:
  fixes y days a b c a' b' c' a1 b1 c1 d :: int
  assumes "d = 365 * (y - 1970) + a - b + c" and "days = 365 + a1 - b1 + c1" and "a' = a + a1" and "b' = b + b1" and "c' = c + c1"
  shows "d + days = 365 * (y + 1 - 1970) + a' - b' + c'"
  using assms by (simp add: algebra_simps)

lemma seconds_split:
  fixes t d w n h mi s :: int
  assumes "t = d * 86400 + w" and "w = n * 60 + s" and "n = h * 60 + mi"
  shows "((d * 24 + h) * 60 + mi) * 60 + s = t"
  using assms by simp

lemma century_count:
  fixes c :: int
  shows "c div 4 * 3 + 1 + (if c mod 4 = 3 then c mod 4 - 1 else c mod 4) = c + 2 - (c + 5) div 4"
proof -
  define q r where "q = c div 4" and "r = c mod 4"
  have c: "c = 4 * q + r" by (simp add: q_def r_def)
  have "0 \<le> r" "r < 4" by (simp_all add: r_def)
  then have "r = 3 \<or> r = 2 \<or> r = 1 \<or> r = 0" by arith
  moreover have "(c + 5) div 4 = q + 1 + (r + 1) div 4" unfolding c by linarith
  ultimately show ?thesis unfolding q_def [symmetric] r_def [symmetric] by (auto simp: c)
qed

lemma days_to_year_closed:
  "1970 \<le> y \<Longrightarrow> days_to_year y = 365 * (y - 1970) + (y - 1969) div 4 - (y - 1901) div 100 + (y - 1601) div 400"
proof (induction y rule: int_ge_induct)
  case (step y)
  have v: "4 dvd y - 1968 \<longleftrightarrow> 4 dvd y" "100 dvd y - 1900 \<longleftrightarrow> 100 dvd y" "400 dvd y - 1600 \<longleftrightarrow> 400 dvd y"
    by (rule dvd_diff_left_iff, simp)+
  have e: "y - 1969 + 1 = y - 1968" "y - 1901 + 1 = y - 1900" "y - 1601 + 1 = y - 1600" by simp_all
  have p: "(0::int) < 4" "(0::int) < 100" "(0::int) < 400" by simp_all
  note d = div_Suc_int [OF p(1), of "y - 1969", unfolded e v] div_Suc_int [OF p(2), of "y - 1901", unfolded e v]
    div_Suc_int [OF p(3), of "y - 1601", unfolded e v]
  have l: "100 dvd y \<Longrightarrow> 4 dvd y" "400 dvd y \<Longrightarrow> 100 dvd y" by (erule dvd_trans [rotated], simp)+
  have e2: "y + 1 - 1969 = y - 1968" "y + 1 - 1901 = y - 1900" "y + 1 - 1601 = y - 1600" by simp_all
  have "year_days y = 365 + (if 4 dvd y then 1 else 0) - (if 100 dvd y then 1 else 0) + (if 400 dvd y then 1 else 0)"
    unfolding year_days_def leap_year_def by (rule leap_count) (use l in blast)+
  from year_step [OF step(2) this d] show ?case unfolding days_to_year_next [OF step(1)] e2 .
qed simp

lemma sdiv_div_positive: "0 \<le> a \<Longrightarrow> 0 \<le> b \<Longrightarrow> a sdiv b = a div (b :: int)"
  by (auto simp: signed_divide_int_def sgn_if)

lemma timegm_years_correct:
  assumes "0 \<le> years"
  shows "timegm_years years = days_to_year (years + 1970)"
proof (cases "years \<ge> 131")
  case False
  with assms have b: "(years + 69) div 100 = (if years \<le> 30 then 0 else 1)" "(years + 369) div 400 = (if years \<le> 30 then 0 else 1)"
    by (auto intro: int_div_pos_eq [of _ _ 0 "years + 69"] int_div_pos_eq [of _ _ 1 "years - 31"]
        int_div_pos_eq [of _ _ 0 "years + 369"] int_div_pos_eq [of _ _ 1 "years - 31"])
  have "days_to_year (years + 1970) = 365 * years + (years + 1) div 4 - (years + 69) div 100 + (years + 369) div 400"
    using days_to_year_closed [of "years + 1970"] assms by (simp add: add.commute)
  with False b assms show ?thesis by (simp add: timegm_years_def sdiv_div_positive Let_def)
next
  case True
  define c where "c = (years - 131) div 100"
  have c0: "0 \<le> c" using True by (simp add: c_def pos_imp_zdiv_nonneg_iff)
  have a: "c AND 3 = c mod 4" using take_bit_eq_mask [of 2 c] by (simp add: take_bit_eq_mod mask_eq_exp_minus_1)
  have "years + 69 = (years - 131) + 2 * 100" "years + 369 = (years - 131) + 5 * 100" by simp_all
  then have b: "(years + 69) div 100 = c + 2" "(years + 369) div 100 = c + 5" unfolding c_def by (simp_all only: div_mult_self1)
  have "(years + 369) div (100 * 4) = (years + 369) div 100 div 4" by (rule zdiv_zmult2_eq) simp
  then have b: "(years + 69) div 100 = c + 2" "(years + 369) div 400 = (c + 5) div 4" using b by simp_all
  have "days_to_year (years + 1970) = 365 * years + (years + 1) div 4 - (c + 2) + (c + 5) div 4"
    using days_to_year_closed [of "years + 1970"] assms b by (simp add: add.commute [of _ years])
  moreover have "timegm_years years = years * 365 + (years + 1) div 4 - (c div 4 * 3 + 1) - (if c mod 4 = 3 then c mod 4 - 1 else c mod 4)"
    using True assms by (simp add: timegm_years_def sdiv_div_positive Let_def c_def [symmetric] a drop_bit_eq_div)
  ultimately show ?thesis using century_count [of c] by (simp add: algebra_simps)
qed

section \<open>Converting\<close>

text \<open>The fields that a date determines.\<close>

definition tm_filled :: "tm \<Rightarrow> bool" where
  "tm_filled t \<longleftrightarrow> tm_yday t = days_to_month (tm_year t + 1900) (nat (tm_mon t)) + tm_mday t - 1 \<and> tm_wday t = (tm_day t + 4) mod 7 \<and>
    tm_isdst t = 0"

lemma days_to_month_Suc: "days_to_month y (Suc m) = days_to_month y m + month_days y m"
  by (simp add: days_to_month_def)

lemma year_days_months: "days_to_month y 12 = year_days y"
  by (simp add: days_to_month_spm year_days_def spm_def)

lemma gmtime_month_day:
  fixes w :: int
  assumes w: "0 \<le> w" "w < year_days y"
  defines "d \<equiv> if leap_year y \<and> w > 58 then (if w = 59 then 2 else 1, w - 1) else (1 :: int, w)"
  defines "m \<equiv> gmtime_month 11 (snd d)"
  shows "m < 12 \<and> 1 \<le> fst d + (snd d - spm ! m) \<and> fst d + (snd d - spm ! m) \<le> month_days y m \<and>
    days_to_month y m + (fst d + (snd d - spm ! m)) - 1 = w"
proof -
  have s: "m \<le> 11" "m = 0 \<or> spm ! m \<le> snd d" "m < 11 \<longrightarrow> snd d < spm ! Suc m" using gmtime_month_spec [of 11 "snd d"] by (simp_all add: m_def)
  have y: "snd d < 365" "0 \<le> snd d" using w by (auto simp: d_def year_days_def split: if_splits)
  have m: "m < 12" using s(1) by simp
  have dm: "days_to_month y m = spm ! m + (if leap_year y \<and> m > 1 then 1 else 0)" using s(1) by (intro days_to_month_spm) simp
  have "m < 12 \<and> 1 \<le> fst d + (snd d - spm ! m) \<and> fst d + (snd d - spm ! m) \<le> month_days y m \<and>
    spm ! m + (if leap_year y \<and> m > 1 then 1 else 0) + (fst d + (snd d - spm ! m)) - 1 = w"
    using month_cases [OF m] s(2,3) y w by (elim disjE) (auto simp: d_def spm_def month_days_def year_days_def split: if_splits)
  then show ?thesis unfolding dm .
qed

lemma days_to_year_ge:
  assumes "1970 \<le> y"
  shows "365 * (y - 1970) \<le> days_to_year y"
proof -
  have "(\<Sum>k\<in>{1970..<y}. 365) \<le> (\<Sum>k\<in>{1970..<y}. year_days k)" by (intro sum_mono) (simp add: year_days_def)
  with assms show ?thesis by (simp add: days_to_year_def)
qed

lemma gmtime_r_correct_date:
  assumes "0 \<le> t" and "t div 86400 \<le> 2 ^ 31 - 5"
  shows "\<exists>r. gmtime_r t = Some r \<and> valid_tm r \<and> tm_seconds r = t \<and> tm_filled r"
proof -
  let ?d = "t div 86400" and ?w = "t mod 86400"
  have d: "0 \<le> ?d" using assms(1) by (simp add: pos_imp_zdiv_nonneg_iff)
  have w: "0 \<le> ?w" "?w < 86400" by simp_all
  have cast: "signed_take_bit 31 ?d = ?d" using d assms(2) by (intro signed_take_bit_int_eq_self) simp_all
  obtain y v where yv: "gmtime_year 1970 ?d = (y, v)" by fastforce
  from gmtime_year_spec [OF _ d yv] have y: "1970 \<le> y" "0 \<le> v" "v < year_days y" "?d = days_to_year y + v" by simp_all
  have ly: "isleap y = leap_year y" using y(1) by (intro isleap_leap_year) simp
  define e :: "int \<times> int" where "e = (if leap_year y \<and> v > 58 then (if v = 59 then 2 else 1, v - 1) else (1, v))"
  define m where "m = gmtime_month 11 (snd e)"
  from gmtime_month_day [OF y(2,3)] have m: "m < 12" "1 \<le> fst e + (snd e - spm ! m)" "fst e + (snd e - spm ! m) \<le> month_days y m"
    "days_to_month y m + (fst e + (snd e - spm ! m)) - 1 = v" unfolding e_def m_def by blast+
  define r where r: "r = \<lparr>tm_sec = ?w mod 60, tm_min = ?w div 60 mod 60, tm_hour = ?w div 60 div 60, tm_mday = fst e + (snd e - spm ! m),
      tm_mon = int m, tm_year = y - 1900, tm_wday = (4 + ?d) mod 7, tm_yday = v, tm_isdst = 0\<rparr>"
  have g: "gmtime_r t = Some r"
  proof -
    have s: "t smod (24 * 60 * 60) = ?w" "t sdiv (24 * 60 * 60) = ?d" "?w smod 60 = ?w mod 60" "?w sdiv 60 = ?w div 60"
      "?w div 60 smod 60 = ?w div 60 mod 60" "?w div 60 sdiv 60 = ?w div 60 div 60" "(4 + ?d) smod 7 = (4 + ?d) mod 7"
      using assms(1) w d by (simp_all add: smod_mod_positive sdiv_div_positive pos_imp_zdiv_nonneg_iff)
    have ok: "int_ok (4 + ?d)" using d assms(2) by (simp add: int_ok_def)
    show ?thesis unfolding gmtime_r_def Let_def s cast yv prod.case ly e_def [symmetric] m_def [symmetric]
      using ok by (cases e) (simp add: tz_is_dst_def m_def r)
  qed
  have day: "tm_day r = ?d" using y(4) m(4) by (simp add: r tm_day_def)
  have "((?d * 24 + ?w div 60 div 60) * 60 + ?w div 60 mod 60) * 60 + ?w mod 60 = t"
    by (rule seconds_split [of t ?d ?w "?w div 60"]) (rule div_mult_mod_eq [symmetric])+
  moreover have "tm_hour r = ?w div 60 div 60" "tm_min r = ?w div 60 mod 60" "tm_sec r = ?w mod 60"
    by (simp_all add: r)
  ultimately have "tm_seconds r = t" by (simp only: tm_seconds_def day)
  moreover have "valid_tm r"
  proof -
    note hour_bound [OF w]
    moreover have "y < 2 ^ 31" using days_to_year_ge [OF y(1)] y(2,4) assms(2) by simp
    ultimately show ?thesis using m(1-3) y(1) by (simp add: valid_tm_def r)
  qed
  moreover have "tm_filled r" using m(4) by (simp add: tm_filled_def day) (simp add: r add.commute)
  ultimately show ?thesis using g by blast
qed

text \<open>C39. \<open>gmtime_r\<close> gives the date and the time of the Gregorian calendar: from a number of seconds since 1970 that is not negative and
  is less than 2^31 - 4 days it makes a valid date of which that is the number of seconds, with the right day of the year and of the week.
  (For the four days that follow, the sum \<open>4 + work\<close> of the day of the week overflows, lemma \<open>gmtime_r_overflow\<close>.)\<close>

theorem gmtime_r_correct:
  assumes "0 \<le> t" and "t div 86400 \<le> 2 ^ 31 - 5"
  shows "\<exists>r. gmtime_r t = Some r \<and> valid_tm r \<and> tm_seconds r = t \<and> tm_filled r"
  by (rule gmtime_r_correct_date [OF assms])

lemma gmtime_r_overflow:
  assumes "2 ^ 31 - 5 < t div 86400" and "t div 86400 < 2 ^ 31"
  shows "gmtime_r t = None"
proof -
  have "0 \<le> t div 86400" using assms(1) by simp
  then have t: "0 \<le> t" by (simp add: pos_imp_zdiv_nonneg_iff)
  have d: "t sdiv 86400 = t div 86400" using t by (simp add: sdiv_div_positive)
  moreover have "signed_take_bit 31 (t div 86400) = t div 86400" using assms by (intro signed_take_bit_int_eq_self) simp_all
  ultimately show ?thesis using assms(1) by (simp add: gmtime_r_def int_ok_def)
qed

lemma timegm_days_valid:
  assumes "valid_tm t"
  shows "timegm_carry t = Some t \<and> timegm_days t = Some t"
proof -
  define m where "m = nat (tm_mon t)"
  have v: "tm_mon t = int m" "m < 12" "tm_mday t \<le> month_days (tm_year t + 1900) m" using assms by (auto simp: valid_tm_def m_def)
  have "tm_mday t \<le> spm ! Suc m" using month_cases [OF v(2)] v(3) by (elim disjE) (auto simp: month_days_def spm_def split: if_splits)
  moreover have "nat (1 + int m) = Suc m" by simp
  moreover have "timegm_carry t = Some t" using assms by (simp add: timegm_carry_def valid_tm_def)
  ultimately show ?thesis using v(1,2) by (simp add: timegm_days.simps)
qed

lemma timegm_date:
  assumes "valid_tm t"
  shows "\<exists>t'. timegm t = Some (tm_seconds t, t') \<and> t' = t\<lparr>tm_yday := tm_yday t', tm_wday := tm_wday t'\<rparr> \<and>
    tm_filled (t'\<lparr>tm_isdst := 0\<rparr>)"
proof -
  let ?y = "tm_year t + 1900"
  have v: "0 \<le> tm_mon t" "tm_mon t < 12" "70 \<le> tm_year t" "1 \<le> tm_mday t" using assms by (simp_all add: valid_tm_def)
  have l: "isleap ?y = leap_year ?y" using v(3) by (intro isleap_leap_year) simp
  let ?yday = "spm ! nat (tm_mon t) + tm_mday t - 1 + (if isleap ?y \<and> tm_mon t > 1 then 1 else 0)"
  have yd: "?yday = days_to_month ?y (nat (tm_mon t)) + tm_mday t - 1"
    using days_to_month_spm [of "nat (tm_mon t)" ?y] v(1,2) l by auto
  have day: "timegm_years (tm_year t - 70) + ?yday = tm_day t"
    unfolding yd using timegm_years_correct [of "tm_year t - 70"] v(3) by (simp add: tm_day_def add.commute)
  have "0 \<le> tm_day t + 4"
  proof -
    have "0 \<le> days_to_year ?y" by (simp add: days_to_year_def year_days_def sum_nonneg)
    moreover have "0 \<le> days_to_month ?y (nat (tm_mon t))" by (simp add: days_to_month_def month_days_def sum_nonneg)
    ultimately show ?thesis using v(4) by (simp add: tm_day_def)
  qed
  then have w: "(tm_day t + 4) smod 7 = (tm_day t + 4) mod 7" by (simp add: smod_mod_positive)
  have "nat (tm_mon t) < 12" using v(2) by simp
  from month_cases [OF this] have sp: "0 \<le> spm ! nat (tm_mon t) \<and> spm ! nat (tm_mon t) \<le> 334"
    by (elim disjE) (simp_all add: spm_def)
  have "tm_mday t \<le> 31" using assms by (auto simp: valid_tm_def month_days_def split: if_splits)
  then have ok: "int_ok ?y" "int_ok (spm ! nat (tm_mon t) + tm_mday t - 1)" using sp v(3,4) assms by (simp_all add: int_ok_def valid_tm_def)
  let ?t = "t\<lparr>tm_yday := ?yday, tm_wday := (tm_day t + 4) mod 7\<rparr>"
  have "timegm t = Some (tm_seconds t, ?t)"
    unfolding timegm_def Let_def using timegm_days_valid [OF assms] v(3) day w ok by (simp add: tm_seconds_def)
  moreover have "tm_filled (?t\<lparr>tm_isdst := 0\<rparr>)" using yd by (simp add: tm_filled_def tm_day_def)
  ultimately show ?thesis by (intro exI [of _ ?t]) simp
qed

text \<open>\<open>timegm\<close> of a valid date from 1970 on is its number of seconds, and it fills in the day of the year and of the week.\<close>

theorem timegm_correct:
  assumes "valid_tm t"
  shows "\<exists>t'. timegm t = Some (tm_seconds t, t') \<and> t' = t\<lparr>tm_yday := tm_yday t', tm_wday := tm_wday t'\<rparr> \<and>
    tm_filled (t'\<lparr>tm_isdst := 0\<rparr>)"
  by (rule timegm_date [OF assms])

lemma timegm_gmtime:
  assumes "0 \<le> t" and "t div 86400 \<le> 2 ^ 31 - 5"
  shows "\<exists>r. gmtime_r t = Some r \<and> timegm r = Some (t, r)"
proof -
  from gmtime_r_correct_date [OF assms] obtain r where v: "gmtime_r t = Some r" "valid_tm r" "tm_seconds r = t" "tm_filled r" by blast
  from timegm_date [OF v(2)] v(3) obtain t' where t': "timegm r = Some (t, t')"
    "t' = r\<lparr>tm_yday := tm_yday t', tm_wday := tm_wday t'\<rparr>" "tm_filled (t'\<lparr>tm_isdst := 0\<rparr>)" by metis
  have "tm_year t' = tm_year r" "tm_mon t' = tm_mon r" "tm_mday t' = tm_mday r"
    by (subst t'(2), simp)+
  then have "tm_yday t' = tm_yday r" "tm_wday t' = tm_wday r" using t'(3) v(4) by (simp_all add: tm_filled_def tm_day_def)
  then have "t' = r" using t'(2) by (metis tm.cases tm.update_convs(7,8) tm.select_convs(7,8))
  with t'(1) v(1) show ?thesis by blast
qed

text \<open>C40. The conversions are inverse to each other in every time zone: \<open>localtime_r\<close> makes a date of a number of seconds, and \<open>mktime\<close>
  gives back this number from the date and leaves the date as it is. The local time, \<open>t + 3600 * tz\<close> seconds, is not before 1970 and less than
  2^31 - 4 days after it, the range in which no sum of the code overflows.\<close>

theorem mktime_localtime:
  assumes "0 \<le> t + tz * 3600" and "(t + tz * 3600) div 86400 \<le> 2 ^ 31 - 5"
  shows "\<exists>r. localtime_r tz t = Some r \<and> mktime tz r = Some (t, r)"
proof -
  from timegm_gmtime [OF assms] obtain r where "gmtime_r (t + tz * 3600) = Some r" "timegm r = Some (t + tz * 3600, r)" by blast
  then show ?thesis by (simp add: mktime_def localtime_r_def)
qed

section \<open>Dates that are not normalised\<close>

text \<open>The carry of the months into the year comes too late for the count of the days, and the loop over the days subtracts the days
  before a month instead of those of the month: month 12 of 1970 is taken for January 1970, and 32 January for 4 March.\<close>

lemma timegm_month_12:
  "map_option fst (timegm \<lparr>tm_sec = 0, tm_min = 0, tm_hour = 0, tm_mday = 1, tm_mon = 12, tm_year = 70, tm_wday = 0, tm_yday = 0, tm_isdst = 0\<rparr>) = Some 0"
  by (simp add: timegm_def timegm_carry_def timegm_days.simps timegm_years_def int_ok_def spm_def Let_def isleap_def sdiv_div_positive)

lemma timegm_day_32:
  "map_option fst (timegm \<lparr>tm_sec = 0, tm_min = 0, tm_hour = 0, tm_mday = 32, tm_mon = 0, tm_year = 70, tm_wday = 0, tm_yday = 0, tm_isdst = 0\<rparr>) =
    Some (62 * 86400)"
  by (simp add: timegm_def timegm_carry_def timegm_days.simps timegm_years_def int_ok_def spm_def Let_def isleap_def sdiv_div_positive)

section \<open>The date as text\<close>

lemma num2str_length [simp]: "length (num2str i) = 2"
  by (simp add: num2str_def)

lemma asctime_rest_length: "length (asctime_rest t y) = 18"
  by (simp add: asctime_rest_def Let_def num2str_def)

lemma four_at_Some: "0 \<le> k \<Longrightarrow> nat k + 4 \<le> length table \<Longrightarrow> \<exists>s. four_at table k = Some s \<and> length s = 4"
  by (simp add: four_at_def)

text \<open>\<open>asctime_r\<close> fills its buffer of 26 bytes exactly for every date whose day of the week and month are not negative (and within
  a quarter of an \<open>int\<close>) and whose year fits an \<open>int\<close>, whatever its other fields are; the last two bytes are the end of the line and the terminator.\<close>

theorem asctime_r_buffer:
  assumes "0 \<le> tm_wday t" and "0 \<le> tm_mon t" and "tm_wday t < 2 ^ 29" and "tm_mon t < 2 ^ 29" and "int_ok (tm_year t + 1900)"
  shows "\<exists>s. asctime_r t = Some s \<and> length s = 26 \<and> drop 24 s = [CHR 0x0a, CHR 0x00]"
proof -
  have rest: "length s = 26 \<and> drop 24 s = [CHR 0x0a, CHR 0x00]"
    if "s = d @ m @ asctime_rest t y" "length d = 4" "length m = 4" for s d m y
  proof -
    have "drop 16 (asctime_rest t y) = [CHR 0x0a, CHR 0x00]" by (simp add: asctime_rest_def Let_def num2str_def)
    with that show ?thesis by (simp add: asctime_rest_length)
  qed
  have o: "int_ok (tm_wday t * 4)" "int_ok (tm_mon t * 4)" using assms(1-4) by (simp_all add: int_ok_def)
  have l: "length days = 28" "length months = 48" by (simp_all add: days_def months_def)
  show ?thesis
  proof (cases "int (length days) \<le> tm_wday t * 4 \<or> int (length months) \<le> tm_mon t * 4")
    case True
    from four_at_Some [of 0 days] four_at_Some [of 0 months] l obtain d m where
      "four_at days 0 = Some d" "length d = 4" "four_at months 0 = Some m" "length m = 4" by auto
    with True o rest [OF refl, of d m 2000] show ?thesis by (simp add: asctime_r_def)
  next
    case False
    then have "nat (tm_wday t * 4) + 4 \<le> length days" "nat (tm_mon t * 4) + 4 \<le> length months" using l by auto
    with four_at_Some [of "tm_wday t * 4" days] four_at_Some [of "tm_mon t * 4" months] assms obtain d m where
      "four_at days (tm_wday t * 4) = Some d" "length d = 4" "four_at months (tm_mon t * 4) = Some m" "length m = 4" by auto
    with False o assms(5) rest [OF refl, of d m "tm_year t + 1900"] show ?thesis by (simp add: asctime_r_def)
  qed
qed

section \<open>At a concrete input\<close>

lemma gmtime_r_correct_witness: "\<exists>r. gmtime_r 1700000000 = Some r \<and> valid_tm r \<and> tm_seconds r = 1700000000 \<and> tm_filled r"
  using gmtime_r_correct [of 1700000000] by simp

definition ex_date :: tm where
  "ex_date = \<lparr>tm_sec = 59, tm_min = 59, tm_hour = 23, tm_mday = 29, tm_mon = 1, tm_year = 72, tm_wday = 0, tm_yday = 0, tm_isdst = 0\<rparr>"

lemma ex_date_valid: "valid_tm ex_date"
  by (simp add: valid_tm_def ex_date_def month_days_def leap_year_def)

lemma timegm_correct_witness: "\<exists>t'. timegm ex_date = Some (tm_seconds ex_date, t')"
  using timegm_correct [OF ex_date_valid] by blast

lemma mktime_localtime_witness: "\<exists>r. localtime_r 8 1700000000 = Some r \<and> mktime 8 r = Some (1700000000, r)"
  using mktime_localtime [of 1700000000 8] by simp

lemma asctime_r_buffer_witness: "\<exists>s. asctime_r ex_date = Some s \<and> length s = 26"
  using asctime_r_buffer [of ex_date] by (auto simp: ex_date_def int_ok_def)

lemma asctime_r_value: "asctime_r ex_date = Some (''Sun Feb 29 23:59:59 1972'' @ [CHR 0x0a, CHR 0x00])"
  by (simp add: asctime_r_def int_ok_def ex_date_def four_at_def days_def months_def asctime_rest_def num2str_def to_char_def char_of_def bit_0 Let_def)

end
