(* ===== verification/Device.thy ===== *)
theory Device
  imports ObjectProps Mutex
begin

text \<open>
  The device layer, \<open>rt-thread/components/drivers/core/device.c\<close>: devices are registered by name,
  initialised at their first use, and counted by their users. The operations of the driver are a
  parameter; each acts on the whole state. When one blocks, what the device layer does with its
  result is a definition of its own, \<open>..._done\<close>. RT_USING_DEVICE_OPS and RT_USING_POSIX_DEVIO are off.
\<close>

section \<open>Data\<close>

abbreviation (input) RT_EBUSY :: rt_err where "RT_EBUSY \<equiv> 7"
abbreviation (input) RT_DEVICE_FLAG_RDWR :: u16 where "RT_DEVICE_FLAG_RDWR \<equiv> 0x003"
abbreviation (input) RT_DEVICE_FLAG_REMOVABLE :: u16 where "RT_DEVICE_FLAG_REMOVABLE \<equiv> 0x004"
abbreviation (input) RT_DEVICE_FLAG_STANDALONE :: u16 where "RT_DEVICE_FLAG_STANDALONE \<equiv> 0x008"
abbreviation (input) RT_DEVICE_FLAG_ACTIVATED :: u16 where "RT_DEVICE_FLAG_ACTIVATED \<equiv> 0x010"
abbreviation (input) RT_DEVICE_OFLAG_CLOSE :: u16 where "RT_DEVICE_OFLAG_CLOSE \<equiv> 0x000"
abbreviation (input) RT_DEVICE_OFLAG_OPEN :: u16 where "RT_DEVICE_OFLAG_OPEN \<equiv> 0x008"
abbreviation (input) RT_DEVICE_OFLAG_MASK :: u16 where "RT_DEVICE_OFLAG_MASK \<equiv> 0xf0f"
abbreviation (input) RT_Device_Class_Pipe :: int where "RT_Device_Class_Pipe \<equiv> 16"

text \<open>The two call-backs are opaque words; their null pointer is \<open>None\<close>.\<close>

record rt_device =
  dev_type :: int
  dev_flag :: u16
  dev_open_flag :: u16
  dev_ref_count :: u8
  dev_rx_indicate :: "u32 option"
  dev_tx_complete :: "u32 option"

text \<open>The kernel, the devices by their address, and what the drivers keep.\<close>

record 'x dstate =
  ds_kernel :: kstate
  ds_dev :: "addr \<rightharpoonup> rt_device"
  ds_driver :: 'x

type_synonym ('a, 'x) device_op = "'x dstate \<Rightarrow> ('a outcome \<times> 'x dstate) option"

text \<open>
  The function pointers of a device. A read returns a size and the bytes it stored in the buffer; a
  write is given the bytes of its buffer.
\<close>

record 'x device_ops =
  device_init :: "(rt_err, 'x) device_op option"
  device_open :: "(u16 \<Rightarrow> (rt_err, 'x) device_op) option"
  device_close :: "(rt_err, 'x) device_op option"
  device_read :: "(u32 \<Rightarrow> u32 \<Rightarrow> (u32 \<times> u8 list, 'x) device_op) option"
  device_write :: "(u32 \<Rightarrow> u8 list \<Rightarrow> u32 \<Rightarrow> (u32, 'x) device_op) option"
  device_control :: "(int \<Rightarrow> u32 \<Rightarrow> (rt_err, 'x) device_op) option"

definition on_kernel :: "(kstate \<Rightarrow> kstate option) \<Rightarrow> 'x dstate \<Rightarrow> 'x dstate option" where
  "on_kernel f d = do { s \<leftarrow> f (ds_kernel d); Some (d\<lparr>ds_kernel := s\<rparr>) }"

definition upd_dev :: "addr \<Rightarrow> (rt_device \<Rightarrow> rt_device) \<Rightarrow> 'x dstate \<Rightarrow> 'x dstate option" where
  "upd_dev dev f d = do { m \<leftarrow> upd (ds_dev d) dev f; Some (d\<lparr>ds_dev := m\<rparr>) }"

definition assert_device :: "addr \<Rightarrow> 'x dstate \<Rightarrow> unit option" where
  "assert_device dev d = assert_type (Obj dev) RT_Object_Class_Device (ds_kernel d)"

text \<open>A blocked call is left as it is; a call that returns goes on.\<close>

definition after_call :: "('a outcome \<times> 'x dstate) option \<Rightarrow> ('a \<Rightarrow> 'x dstate \<Rightarrow> ('b outcome \<times> 'x dstate) option) \<Rightarrow>
    ('b outcome \<times> 'x dstate) option" where
  "after_call c f = do {
    (r, d) \<leftarrow> c;
    case r of
      Blocked \<Rightarrow> Some (Blocked, d)
    | Return r \<Rightarrow> f r d }"

section \<open>Registration\<close>

definition rt_device_find :: "u8 list option \<Rightarrow> 'x dstate \<Rightarrow> (oref option \<times> 'x dstate) option" where
  "rt_device_find nm d = do {
    (r, s) \<leftarrow> rt_object_find nm RT_Object_Class_Device (ds_kernel d);
    Some (r, d\<lparr>ds_kernel := s\<rparr>) }"

definition rt_device_register :: "addr option \<Rightarrow> u8 list \<Rightarrow> u16 \<Rightarrow> 'x dstate \<Rightarrow> (rt_err \<times> 'x dstate) option" where
  "rt_device_register dev nm flags d = (case dev of
      None \<Rightarrow> Some (- RT_ERROR, d)
    | Some dev \<Rightarrow> do {
        (r, d) \<leftarrow> rt_device_find (Some nm) d;
        if r \<noteq> None then Some (- RT_ERROR, d)
        else do {
          d \<leftarrow> on_kernel (rt_object_init (Obj dev) RT_Object_Class_Device nm) d;
          d \<leftarrow> upd_dev dev (\<lambda>x. x\<lparr>dev_flag := flags, dev_ref_count := 0, dev_open_flag := 0\<rparr>) d;
          Some (RT_EOK, d) } })"

definition rt_device_unregister :: "addr \<Rightarrow> 'x dstate \<Rightarrow> (rt_err \<times> 'x dstate) option" where
  "rt_device_unregister dev d = do {
    _ \<leftarrow> assert_device dev d;
    _ \<leftarrow> assert_static (Obj dev) True (ds_kernel d);
    d \<leftarrow> on_kernel (rt_object_detach (Obj dev)) d;
    Some (RT_EOK, d) }"

text \<open>\<open>mem\<close>: the address that \<open>rt_malloc\<close> returns; the header and the device are cleared.\<close>

definition rt_device_create :: "addr option \<Rightarrow> int \<Rightarrow> 'x dstate \<Rightarrow> addr option \<times> 'x dstate" where
  "rt_device_create mem type d = (case mem of
      None \<Rightarrow> (None, d)
    | Some a \<Rightarrow> (Some a, d\<lparr>
        ds_kernel := (ds_kernel d)\<lparr>k_obj := (k_obj (ds_kernel d))(Obj a \<mapsto> \<lparr>obj_name = replicate RT_NAME_MAX 0, obj_type = 0, obj_flag = 0\<rparr>)\<rparr>,
        ds_dev := (ds_dev d)(a \<mapsto> \<lparr>dev_type = type, dev_flag = 0, dev_open_flag = 0, dev_ref_count = 0,
          dev_rx_indicate = None, dev_tx_complete = None\<rparr>)\<rparr>))"

definition rt_device_destroy :: "addr \<Rightarrow> 'x dstate \<Rightarrow> 'x dstate option" where
  "rt_device_destroy dev d = do {
    _ \<leftarrow> assert_device dev d;
    _ \<leftarrow> assert_static (Obj dev) False (ds_kernel d);
    d \<leftarrow> on_kernel (rt_object_detach (Obj dev)) d;
    Some (d\<lparr>ds_kernel := free_object (Obj dev) (ds_kernel d), ds_dev := (ds_dev d)(dev := None)\<rparr>) }"

section \<open>Initialisation\<close>

definition activated :: "rt_device \<Rightarrow> bool" where
  "activated x \<longleftrightarrow> dev_flag x AND RT_DEVICE_FLAG_ACTIVATED \<noteq> 0"

definition standalone :: "rt_device \<Rightarrow> bool" where
  "standalone x \<longleftrightarrow> dev_flag x AND RT_DEVICE_FLAG_STANDALONE \<noteq> 0"

definition opened :: "rt_device \<Rightarrow> bool" where
  "opened x \<longleftrightarrow> dev_open_flag x AND RT_DEVICE_OFLAG_OPEN \<noteq> 0"

definition set_activated :: "rt_device \<Rightarrow> rt_device" where
  "set_activated x = x\<lparr>dev_flag := dev_flag x OR RT_DEVICE_FLAG_ACTIVATED\<rparr>"

definition device_init_done :: "addr \<Rightarrow> rt_err \<Rightarrow> 'x dstate \<Rightarrow> (rt_err outcome \<times> 'x dstate) option" where
  "device_init_done dev result d =
    (if result \<noteq> RT_EOK then Some (Return result, d)
     else do { d \<leftarrow> upd_dev dev set_activated d; Some (Return result, d) })"

definition rt_device_init :: "'x device_ops \<Rightarrow> addr \<Rightarrow> 'x dstate \<Rightarrow> (rt_err outcome \<times> 'x dstate) option" where
  "rt_device_init ops dev d = (case device_init ops of
      None \<Rightarrow> Some (Return RT_EOK, d)
    | Some init \<Rightarrow> do {
        x \<leftarrow> ds_dev d dev;
        if activated x then Some (Return RT_EOK, d)
        else after_call (init d) (device_init_done dev) })"

section \<open>Opening and closing\<close>

text \<open>After the open operation of the driver.\<close>

definition device_open_done :: "addr \<Rightarrow> rt_err \<Rightarrow> 'x dstate \<Rightarrow> (rt_err outcome \<times> 'x dstate) option" where
  "device_open_done dev result d =
    (if result = RT_EOK \<or> result = - RT_ENOSYS then do {
       d \<leftarrow> upd_dev dev (\<lambda>x. x\<lparr>dev_open_flag := dev_open_flag x OR RT_DEVICE_OFLAG_OPEN, dev_ref_count := dev_ref_count x + 1\<rparr>) d;
       x \<leftarrow> ds_dev d dev;
       RT_ASSERT (dev_ref_count x \<noteq> 0);
       Some (Return result, d)
     } else Some (Return result, d))"

text \<open>Of an initialised device.\<close>

definition device_open_active :: "'x device_ops \<Rightarrow> addr \<Rightarrow> u16 \<Rightarrow> 'x dstate \<Rightarrow> (rt_err outcome \<times> 'x dstate) option" where
  "device_open_active ops dev oflag d = do {
    x \<leftarrow> ds_dev d dev;
    if standalone x \<and> opened x then Some (Return (- RT_EBUSY), d)
    else if \<not> opened x \<or> dev_open_flag x AND RT_DEVICE_OFLAG_MASK \<noteq> oflag AND RT_DEVICE_OFLAG_MASK then
      (case device_open ops of
         Some open' \<Rightarrow> after_call (open' oflag d) (device_open_done dev)
       | None \<Rightarrow> do {
           d \<leftarrow> upd_dev dev (\<lambda>x. x\<lparr>dev_open_flag := oflag AND RT_DEVICE_OFLAG_MASK\<rparr>) d;
           device_open_done dev RT_EOK d })
    else device_open_done dev RT_EOK d }"

text \<open>After the initialisation by the driver.\<close>

definition device_open_init_done :: "'x device_ops \<Rightarrow> addr \<Rightarrow> u16 \<Rightarrow> rt_err \<Rightarrow> 'x dstate \<Rightarrow> (rt_err outcome \<times> 'x dstate) option" where
  "device_open_init_done ops dev oflag result d =
    (if result \<noteq> RT_EOK then Some (Return result, d)
     else do { d \<leftarrow> upd_dev dev set_activated d; device_open_active ops dev oflag d })"

definition rt_device_open :: "'x device_ops \<Rightarrow> addr \<Rightarrow> u16 \<Rightarrow> 'x dstate \<Rightarrow> (rt_err outcome \<times> 'x dstate) option" where
  "rt_device_open ops dev oflag d = do {
    _ \<leftarrow> assert_device dev d;
    x \<leftarrow> ds_dev d dev;
    if activated x then device_open_active ops dev oflag d
    else case device_init ops of
        None \<Rightarrow> device_open_init_done ops dev oflag RT_EOK d
      | Some init \<Rightarrow> after_call (init d) (device_open_init_done ops dev oflag) }"

definition device_close_done :: "addr \<Rightarrow> rt_err \<Rightarrow> 'x dstate \<Rightarrow> (rt_err outcome \<times> 'x dstate) option" where
  "device_close_done dev result d =
    (if result = RT_EOK \<or> result = - RT_ENOSYS then do {
       d \<leftarrow> upd_dev dev (\<lambda>x. x\<lparr>dev_open_flag := RT_DEVICE_OFLAG_CLOSE\<rparr>) d;
       Some (Return result, d)
     } else Some (Return result, d))"

definition rt_device_close :: "'x device_ops \<Rightarrow> addr \<Rightarrow> 'x dstate \<Rightarrow> (rt_err outcome \<times> 'x dstate) option" where
  "rt_device_close ops dev d = do {
    _ \<leftarrow> assert_device dev d;
    x \<leftarrow> ds_dev d dev;
    if dev_ref_count x = 0 then Some (Return (- RT_ERROR), d)
    else do {
      d \<leftarrow> upd_dev dev (\<lambda>x. x\<lparr>dev_ref_count := dev_ref_count x - 1\<rparr>) d;
      x \<leftarrow> ds_dev d dev;
      if dev_ref_count x \<noteq> 0 then Some (Return RT_EOK, d)
      else case device_close ops of
          Some close \<Rightarrow> after_call (close d) (device_close_done dev)
        | None \<Rightarrow> device_close_done dev RT_EOK d } }"

section \<open>Reading, writing, control\<close>

definition device_errno :: "rt_err \<Rightarrow> 'a \<Rightarrow> 'x dstate \<Rightarrow> ('a outcome \<times> 'x dstate) option" where
  "device_errno error r d = do { d \<leftarrow> on_kernel (rt_set_errno error) d; Some (Return r, d) }"

definition rt_device_read ::
    "'x device_ops \<Rightarrow> addr \<Rightarrow> u32 \<Rightarrow> u32 \<Rightarrow> 'x dstate \<Rightarrow> ((u32 \<times> u8 list) outcome \<times> 'x dstate) option" where
  "rt_device_read ops dev pos sz d = do {
    _ \<leftarrow> assert_device dev d;
    x \<leftarrow> ds_dev d dev;
    if dev_ref_count x = 0 then device_errno (- RT_ERROR) (0, []) d
    else case device_read ops of
        Some read \<Rightarrow> read pos sz d
      | None \<Rightarrow> device_errno (- RT_ENOSYS) (0, []) d }"

definition rt_device_write ::
    "'x device_ops \<Rightarrow> addr \<Rightarrow> u32 \<Rightarrow> u8 list \<Rightarrow> u32 \<Rightarrow> 'x dstate \<Rightarrow> (u32 outcome \<times> 'x dstate) option" where
  "rt_device_write ops dev pos buffer sz d = do {
    _ \<leftarrow> assert_device dev d;
    x \<leftarrow> ds_dev d dev;
    if dev_ref_count x = 0 then device_errno (- RT_ERROR) 0 d
    else case device_write ops of
        Some write \<Rightarrow> write pos buffer sz d
      | None \<Rightarrow> device_errno (- RT_ENOSYS) 0 d }"

definition rt_device_control :: "'x device_ops \<Rightarrow> addr \<Rightarrow> int \<Rightarrow> u32 \<Rightarrow> 'x dstate \<Rightarrow> (rt_err outcome \<times> 'x dstate) option" where
  "rt_device_control ops dev cmd arg d = do {
    _ \<leftarrow> assert_device dev d;
    case device_control ops of
      Some control \<Rightarrow> control cmd arg d
    | None \<Rightarrow> Some (Return (- RT_ENOSYS), d) }"

definition rt_device_set_rx_indicate :: "addr \<Rightarrow> u32 option \<Rightarrow> 'x dstate \<Rightarrow> (rt_err \<times> 'x dstate) option" where
  "rt_device_set_rx_indicate dev rx_ind d = do {
    _ \<leftarrow> assert_device dev d;
    d \<leftarrow> upd_dev dev (\<lambda>x. x\<lparr>dev_rx_indicate := rx_ind\<rparr>) d;
    Some (RT_EOK, d) }"

definition rt_device_set_tx_complete :: "addr \<Rightarrow> u32 option \<Rightarrow> 'x dstate \<Rightarrow> (rt_err \<times> 'x dstate) option" where
  "rt_device_set_tx_complete dev tx_done d = do {
    _ \<leftarrow> assert_device dev d;
    d \<leftarrow> upd_dev dev (\<lambda>x. x\<lparr>dev_tx_complete := tx_done\<rparr>) d;
    Some (RT_EOK, d) }"

end
