(* ===== verification/Pipe.thy ===== *)
theory Pipe
  imports Device DevIpc RingBuffer
begin

text \<open>
  The pipe devices of \<open>rt-thread/components/drivers/ipc/pipe.c\<close>, in this configuration without the
  POSIX part of the file: a ring buffer under a mutex, behind the interface of the device layer. The
  allocator is a parameter. An operation that finds the mutex taken blocks; \<open>pipe_resume\<close> is what follows.
\<close>

section \<open>Data\<close>

abbreviation (input) RT_ENOMEM :: rt_err where "RT_ENOMEM \<equiv> 5"
abbreviation (input) ENODEV :: int where "ENODEV \<equiv> 19"
abbreviation (input) EINVAL :: int where "EINVAL \<equiv> 22"

text \<open>The device in the structure is the device of its address.\<close>

record rt_pipe =
  pp_is_named :: bool
  pp_fifo :: "rt_ringbuffer option"
  pp_bufsz :: u16
  pp_reader_queue :: rt_wqueue
  pp_writer_queue :: rt_wqueue
  pp_writer :: int
  pp_reader :: int

type_synonym pipes = "addr \<Rightarrow> rt_pipe option"

text \<open>The mutex in the structure of a pipe, at its offset.\<close>

definition pipe_lock :: "addr \<Rightarrow> addr" where "pipe_lock pipe = pipe + 112"

definition upd_fifo :: "addr \<Rightarrow> rt_ringbuffer option \<Rightarrow> pipes dstate \<Rightarrow> pipes dstate option" where
  "upd_fifo pipe rb d = do { m \<leftarrow> upd (ds_driver d) pipe (\<lambda>p. p\<lparr>pp_fifo := rb\<rparr>); Some (d\<lparr>ds_driver := m\<rparr>) }"

section \<open>The lock\<close>

text \<open>The results of the mutex are not looked at.\<close>

definition under_pipe_lock :: "addr \<Rightarrow> (pipes dstate \<Rightarrow> ('a \<times> pipes dstate) option) \<Rightarrow> pipes dstate \<Rightarrow> ('a \<times> pipes dstate) option" where
  "under_pipe_lock pipe f d = do {
    (r, d) \<leftarrow> f d;
    (_, s) \<leftarrow> rt_mutex_release (pipe_lock pipe) (ds_kernel d);
    Some (r, d\<lparr>ds_kernel := s\<rparr>) }"

definition pipe_locked :: "addr \<Rightarrow> (pipes dstate \<Rightarrow> ('a \<times> pipes dstate) option) \<Rightarrow> ('a, pipes) device_op" where
  "pipe_locked pipe f d = do {
    (level, s) \<leftarrow> rt_mutex_take (pipe_lock pipe) RT_WAITING_FOREVER (ds_kernel d);
    let d = d\<lparr>ds_kernel := s\<rparr>;
    case level of
      Blocked \<Rightarrow> Some (Blocked, d)
    | Return _ \<Rightarrow> do { (r, d) \<leftarrow> under_pipe_lock pipe f d; Some (Return r, d) } }"

definition pipe_resume :: "addr \<Rightarrow> addr \<Rightarrow> (pipes dstate \<Rightarrow> ('a \<times> pipes dstate) option) \<Rightarrow> pipes dstate \<Rightarrow> ('a \<times> pipes dstate) option" where
  "pipe_resume thread pipe f d = do {
    (_, s) \<leftarrow> mutex_take_resume (pipe_lock pipe) thread (ds_kernel d);
    under_pipe_lock pipe f (d\<lparr>ds_kernel := s\<rparr>) }"

section \<open>The operations of the device\<close>

text \<open>What \<open>rt_malloc\<close> returns for the control block and for the bytes of a ring buffer.\<close>

record allocator =
  al_block :: bool
  al_pool :: "u32 \<Rightarrow> u8 list option"

definition pipe_open_locked :: "allocator \<Rightarrow> addr \<Rightarrow> pipes dstate \<Rightarrow> (rt_err \<times> pipes dstate) option" where
  "pipe_open_locked al pipe d = do {
    p \<leftarrow> ds_driver d pipe;
    if pp_fifo p = None then do {
      r \<leftarrow> rt_ringbuffer_create (al_block al) (al_pool al) (ucast (pp_bufsz p));
      d \<leftarrow> upd_fifo pipe r d;
      Some (if r = None then - RT_ENOMEM else RT_EOK, d)
    } else Some (RT_EOK, d) }"

definition rt_pipe_open :: "allocator \<Rightarrow> addr option \<Rightarrow> u16 \<Rightarrow> (rt_err, pipes) device_op" where
  "rt_pipe_open al device oflag d = (case device of
      None \<Rightarrow> Some (Return (- RT_EINVAL), d)
    | Some pipe \<Rightarrow> pipe_locked pipe (pipe_open_locked al pipe) d)"

definition pipe_close_locked :: "addr \<Rightarrow> pipes dstate \<Rightarrow> (rt_err \<times> pipes dstate) option" where
  "pipe_close_locked pipe d = do {
    p \<leftarrow> ds_driver d pipe;
    RT_ASSERT (pp_fifo p \<noteq> None);
    d \<leftarrow> upd_fifo pipe None d;
    Some (RT_EOK, d) }"

definition rt_pipe_close :: "addr option \<Rightarrow> (rt_err, pipes) device_op" where
  "rt_pipe_close device d = (case device of
      None \<Rightarrow> Some (Return (- RT_EINVAL), d)
    | Some pipe \<Rightarrow> pipe_locked pipe (pipe_close_locked pipe) d)"

partial_function (option) pipe_read_loop ::
    "rt_ringbuffer \<Rightarrow> u32 \<Rightarrow> u32 \<Rightarrow> u8 list \<Rightarrow> (u32 \<times> u8 list \<times> rt_ringbuffer) option" where
  "pipe_read_loop rb count read_bytes pbuf =
    (if read_bytes < count then do {
       (len, xs, rb) \<leftarrow> rt_ringbuffer_get rb (count - read_bytes);
       if sint len \<le> 0 then Some (read_bytes, pbuf, rb)
       else pipe_read_loop rb count (read_bytes + len) (pbuf @ xs)
     } else Some (read_bytes, pbuf, rb))"

definition pipe_read_locked :: "addr \<Rightarrow> u32 \<Rightarrow> pipes dstate \<Rightarrow> ((u32 \<times> u8 list) \<times> pipes dstate) option" where
  "pipe_read_locked pipe count d = do {
    p \<leftarrow> ds_driver d pipe;
    rb \<leftarrow> pp_fifo p;
    (n, xs, rb) \<leftarrow> pipe_read_loop rb count 0 [];
    d \<leftarrow> upd_fifo pipe (Some rb) d;
    Some ((n, xs), d) }"

definition rt_pipe_read :: "addr option \<Rightarrow> u32 \<Rightarrow> u32 \<Rightarrow> (u32 \<times> u8 list, pipes) device_op" where
  "rt_pipe_read device pos count d = (case device of
      None \<Rightarrow> device_errno (- EINVAL) (0, []) d
    | Some pipe \<Rightarrow>
        if count = 0 then Some (Return (0, []), d)
        else pipe_locked pipe (pipe_read_locked pipe count) d)"

partial_function (option) pipe_write_loop :: "rt_ringbuffer \<Rightarrow> u8 list \<Rightarrow> u32 \<Rightarrow> u32 \<Rightarrow> (u32 \<times> rt_ringbuffer) option" where
  "pipe_write_loop rb pbuf count write_bytes =
    (if write_bytes < count then do {
       (len, rb) \<leftarrow> rt_ringbuffer_put rb (drop (unat write_bytes) pbuf) (count - write_bytes);
       if sint len \<le> 0 then Some (write_bytes, rb)
       else pipe_write_loop rb pbuf count (write_bytes + len)
     } else Some (write_bytes, rb))"

definition pipe_write_locked :: "addr \<Rightarrow> u8 list \<Rightarrow> u32 \<Rightarrow> pipes dstate \<Rightarrow> (u32 \<times> pipes dstate) option" where
  "pipe_write_locked pipe buffer count d = do {
    p \<leftarrow> ds_driver d pipe;
    rb \<leftarrow> pp_fifo p;
    (n, rb) \<leftarrow> pipe_write_loop rb buffer count 0;
    d \<leftarrow> upd_fifo pipe (Some rb) d;
    Some (n, d) }"

definition rt_pipe_write :: "addr option \<Rightarrow> u32 \<Rightarrow> u8 list \<Rightarrow> u32 \<Rightarrow> (u32, pipes) device_op" where
  "rt_pipe_write device pos buffer count d = (case device of
      None \<Rightarrow> device_errno (- EINVAL) 0 d
    | Some pipe \<Rightarrow>
        if count = 0 then Some (Return 0, d)
        else pipe_locked pipe (pipe_write_locked pipe buffer count) d)"

definition rt_pipe_control :: "int \<Rightarrow> u32 \<Rightarrow> (rt_err, pipes) device_op" where
  "rt_pipe_control cmd args d = Some (Return RT_EOK, d)"

definition pipe_ops :: "allocator \<Rightarrow> addr \<Rightarrow> pipes device_ops" where
  "pipe_ops al pipe = \<lparr>device_init = None, device_open = Some (rt_pipe_open al (Some pipe)), device_close = Some (rt_pipe_close (Some pipe)),
    device_read = Some (rt_pipe_read (Some pipe)), device_write = Some (rt_pipe_write (Some pipe)), device_control = Some rt_pipe_control\<rparr>"

section \<open>Creation and deletion\<close>

text \<open>\<open>rt_free\<close> of the structure, with the header and the mutex in it.\<close>

definition free_pipe :: "addr \<Rightarrow> pipes dstate \<Rightarrow> pipes dstate" where
  "free_pipe pipe d = d\<lparr>ds_kernel := free_object (Obj (pipe_lock pipe)) (free_object (Obj pipe) (ds_kernel d)),
    ds_dev := (ds_dev d)(pipe := None), ds_driver := (ds_driver d)(pipe := None)\<rparr>"

definition rt_pipe_create :: "addr option \<Rightarrow> u8 list \<Rightarrow> u32 \<Rightarrow> pipes dstate \<Rightarrow> (addr option \<times> pipes dstate) option" where
  "rt_pipe_create mem nm bufsz d = (case mem of
      None \<Rightarrow> Some (None, d)
    | Some pipe \<Rightarrow> do {
        (_, s) \<leftarrow> rt_mutex_init (pipe_lock pipe) nm RT_IPC_FLAG_FIFO (ds_kernel d);
        RT_ASSERT (sint bufsz < 0xffff);
        let d = d\<lparr>ds_kernel := s,
          ds_driver := (ds_driver d)(pipe \<mapsto> \<lparr>pp_is_named = True, pp_fifo = None, pp_bufsz = ucast bufsz,
            pp_reader_queue = rt_wqueue_init, pp_writer_queue = rt_wqueue_init, pp_writer = 0, pp_reader = 0\<rparr>),
          ds_dev := (ds_dev d)(pipe \<mapsto> \<lparr>dev_type = RT_Device_Class_Pipe, dev_flag = 0, dev_open_flag = 0, dev_ref_count = 0,
            dev_rx_indicate = None, dev_tx_complete = None\<rparr>)\<rparr>;
        (r, d) \<leftarrow> rt_device_register (Some pipe) nm (RT_DEVICE_FLAG_RDWR OR RT_DEVICE_FLAG_REMOVABLE) d;
        if r \<noteq> 0 then do {
          (_, s) \<leftarrow> rt_mutex_detach (pipe_lock pipe) (ds_kernel d);
          Some (None, free_pipe pipe (d\<lparr>ds_kernel := s\<rparr>))
        } else Some (Some pipe, d) })"

definition rt_pipe_delete :: "u8 list option \<Rightarrow> pipes dstate \<Rightarrow> (int \<times> pipes dstate) option" where
  "rt_pipe_delete nm d = do {
    (device, d) \<leftarrow> rt_device_find nm d;
    case device of
      Some (Obj pipe) \<Rightarrow> do {
        x \<leftarrow> ds_dev d pipe;
        if dev_type x = RT_Device_Class_Pipe then do {
          (_, s) \<leftarrow> rt_mutex_detach (pipe_lock pipe) (ds_kernel d);
          (_, d) \<leftarrow> rt_device_unregister pipe (d\<lparr>ds_kernel := s\<rparr>);
          p \<leftarrow> ds_driver d pipe;
          d \<leftarrow> (if pp_fifo p \<noteq> None then upd_fifo pipe None d else Some d);
          Some (0, free_pipe pipe d)
        } else Some (- ENODEV, d) }
    | Some _ \<Rightarrow> None
    | None \<Rightarrow> Some (- ENODEV, d) }"

end
