(* ===== verification/DeviceProps.thy ===== *)
theory DeviceProps
  imports Device HeapFrontProps
begin

text \<open>
  The users of a device are counted: what the device layer promises for any driver that leaves the
  count and the header of its device alone (\<open>device_driver\<close>).
\<close>

section \<open>Sessions\<close>

text \<open>A sequence of calls on one device; a read and a write return the size.\<close>

datatype dev_call = Dev_init | Dev_open u16 | Dev_close | Dev_read u32 u32 | Dev_write u32 "u8 list" u32 | Dev_control int u32

definition value_of :: "('a \<Rightarrow> int) \<Rightarrow> ('a outcome \<times> 'x dstate) option \<Rightarrow> (int outcome \<times> 'x dstate) option" where
  "value_of f c = after_call c (\<lambda>r d. Some (Return (f r), d))"

fun dev_step :: "'x device_ops \<Rightarrow> addr \<Rightarrow> dev_call \<Rightarrow> 'x dstate \<Rightarrow> (int outcome \<times> 'x dstate) option" where
  "dev_step ops dev Dev_init d = rt_device_init ops dev d"
| "dev_step ops dev (Dev_open oflag) d = rt_device_open ops dev oflag d"
| "dev_step ops dev Dev_close d = rt_device_close ops dev d"
| "dev_step ops dev (Dev_read pos sz) d = value_of (\<lambda>r. sint (fst r)) (rt_device_read ops dev pos sz d)"
| "dev_step ops dev (Dev_write pos buffer sz) d = value_of sint (rt_device_write ops dev pos buffer sz d)"
| "dev_step ops dev (Dev_control cmd arg) d = rt_device_control ops dev cmd arg d"

fun dev_run :: "'x device_ops \<Rightarrow> addr \<Rightarrow> dev_call list \<Rightarrow> 'x dstate \<Rightarrow> (int list \<times> 'x dstate) option" where
  "dev_run ops dev [] d = Some ([], d)"
| "dev_run ops dev (c # cs) d = do {
     (r, d) \<leftarrow> dev_step ops dev c d;
     case r of
       Blocked \<Rightarrow> None
     | Return r \<Rightarrow> do { (rs, d) \<leftarrow> dev_run ops dev cs d; Some (r # rs, d) } }"

text \<open>The users by the results of the calls.\<close>

fun users_after :: "dev_call \<Rightarrow> int \<Rightarrow> nat \<Rightarrow> nat" where
  "users_after (Dev_open _) r n = (if r = RT_EOK \<or> r = - RT_ENOSYS then n + 1 else n)"
| "users_after Dev_close r n = n - 1"
| "users_after _ r n = n"

fun users_run :: "dev_call list \<Rightarrow> int list \<Rightarrow> nat \<Rightarrow> nat" where
  "users_run (c # cs) (r # rs) n = users_run cs rs (users_after c r n)"
| "users_run _ _ n = n"

text \<open>From \<open>n\<close> users on, the calls never make more than 255 users, the most the counter can hold, even if every open succeeds.\<close>

fun users_fit :: "dev_call list \<Rightarrow> nat \<Rightarrow> bool" where
  "users_fit [] n \<longleftrightarrow> True"
| "users_fit (Dev_open oflag # cs) n \<longleftrightarrow> n < 255 \<and> users_fit cs (n + 1)"
| "users_fit (Dev_close # cs) n \<longleftrightarrow> users_fit cs (n - 1)"
| "users_fit (c # cs) n \<longleftrightarrow> users_fit cs n"

lemma users_fit_mono: "users_fit cs n \<Longrightarrow> m \<le> n \<Longrightarrow> users_fit cs m"
proof (induction cs n arbitrary: m rule: users_fit.induct)
  case (3 cs n)
  from 3(1) [of "m - 1"] 3(2,3) show ?case by simp
qed simp_all

lemma users_fit_step: "users_fit (c # cs) n \<Longrightarrow> users_fit cs (users_after c r n)"
  by (cases c) (auto elim: users_fit_mono)

definition users :: "addr \<Rightarrow> 'x dstate \<Rightarrow> nat" where
  "users dev d = (case ds_dev d dev of None \<Rightarrow> 0 | Some x \<Rightarrow> unat (dev_ref_count x))"

fun buffer_ok :: "dev_call \<Rightarrow> bool" where
  "buffer_ok (Dev_write _ buffer sz) \<longleftrightarrow> unat sz \<le> length buffer"
| "buffer_ok _ \<longleftrightarrow> True"

section \<open>What a driver has to keep\<close>

text \<open>\<open>same_open\<close>: the driver also keeps the open bit.\<close>

definition dev_kept :: "addr \<Rightarrow> bool \<Rightarrow> 'x dstate \<Rightarrow> 'x dstate \<Rightarrow> bool" where
  "dev_kept dev same_open d d' \<longleftrightarrow> k_obj (ds_kernel d') (Obj dev) = k_obj (ds_kernel d) (Obj dev) \<and>
    (\<forall>x. ds_dev d dev = Some x \<longrightarrow> (\<exists>x'. ds_dev d' dev = Some x' \<and> dev_ref_count x' = dev_ref_count x \<and>
      standalone x' = standalone x \<and> (same_open \<longrightarrow> opened x' = opened x)))"

lemma dev_kept_trans:
  "dev_kept dev b d1 d2 \<Longrightarrow> dev_kept dev b d2 d3 \<Longrightarrow> dev_kept dev b d1 d3"
  unfolding dev_kept_def by (metis (no_types, lifting))

lemma dev_kept_weaken: "dev_kept dev True d d' \<Longrightarrow> dev_kept dev b d d'"
  unfolding dev_kept_def by fastforce

definition dev_ready :: "addr \<Rightarrow> 'x dstate \<Rightarrow> bool" where
  "dev_ready dev d \<longleftrightarrow> is_class (Obj dev) RT_Object_Class_Device (ds_kernel d) \<and> ds_dev d dev \<noteq> None"

lemma dev_ready_kept: "dev_ready dev d \<Longrightarrow> dev_kept dev b d d' \<Longrightarrow> dev_ready dev d'"
  unfolding dev_ready_def dev_kept_def is_class_def by fastforce

lemma ready_assert [simp]: "dev_ready dev d \<Longrightarrow> assert_device dev d = Some ()"
  by (simp add: dev_ready_def assert_device_def assert_type_class)

lemma upd_dev_Some: "ds_dev d dev = Some x \<Longrightarrow> upd_dev dev f d = Some (d\<lparr>ds_dev := (ds_dev d)(dev \<mapsto> f x)\<rparr>)"
  by (simp add: upd_dev_def upd_def)

text \<open>The driver is open when there are users, the open bit is set just then, and a standalone device has one user at most.\<close>

definition dev_inv :: "addr \<Rightarrow> (bool \<Rightarrow> 'x dstate \<Rightarrow> bool) \<Rightarrow> 'x dstate \<Rightarrow> bool" where
  "dev_inv dev st d \<longleftrightarrow> dev_ready dev d \<and> st (users dev d \<noteq> 0) d \<and>
    (\<forall>x. ds_dev d dev = Some x \<longrightarrow> (opened x \<longleftrightarrow> users dev d \<noteq> 0) \<and> (standalone x \<longrightarrow> users dev d \<le> 1))"

lemma users_kept: "dev_ready dev d \<Longrightarrow> dev_kept dev b d d' \<Longrightarrow> users dev d' = users dev d"
  unfolding dev_ready_def dev_kept_def users_def by fastforce

lemma set_activated_simps [simp]:
  "dev_ref_count (set_activated x) = dev_ref_count x" "opened (set_activated x) = opened x" "standalone (set_activated x) = standalone x"
  by (simp_all add: set_activated_def opened_def standalone_def bit.conj_disj_distrib2 word_bw_assocs)

lemma opened_set: "opened (x\<lparr>dev_open_flag := f OR RT_DEVICE_OFLAG_OPEN, dev_ref_count := n\<rparr>)"
  by (simp add: opened_def bit.conj_disj_distrib2 word_bw_assocs)

lemma ready_upd: "dev_ready dev d \<Longrightarrow> dev_ready dev (d\<lparr>ds_dev := (ds_dev d)(dev \<mapsto> x)\<rparr>)"
  by (simp add: dev_ready_def)

text \<open>
  \<open>st b d\<close>: the driver and its device are in good order, and the driver has been opened (\<open>b\<close>) or
  not. Nothing that the device layer itself writes disturbs this.
\<close>

locale device_driver =
  fixes ops :: "'x device_ops" and dev :: addr and st :: "bool \<Rightarrow> 'x dstate \<Rightarrow> bool"
  assumes upd_law: "st b d \<Longrightarrow> ds_dev d dev \<noteq> None \<Longrightarrow> st b (d\<lparr>ds_dev := (ds_dev d)(dev \<mapsto> x)\<rparr>)"
    and errno_law: "st b d \<Longrightarrow> \<exists>d'. on_kernel (rt_set_errno e) d = Some d' \<and> st b d' \<and> dev_kept dev True d d'"
    and init_law: "st b d \<Longrightarrow> device_init ops = Some init \<Longrightarrow>
      \<exists>r d'. init d = Some (Return r, d') \<and> r \<noteq> - RT_ENOSYS \<and> st b d' \<and> dev_kept dev True d d'"
    and open_law: "st b d \<Longrightarrow> device_open ops = Some open' \<Longrightarrow>
      \<exists>r d'. open' oflag d = Some (Return r, d') \<and>
        (if r = RT_EOK \<or> r = - RT_ENOSYS then st True d' \<and> dev_kept dev False d d' else st b d' \<and> dev_kept dev True d d')"
    and open_none: "st b d \<Longrightarrow> device_open ops = None \<Longrightarrow> st True d"
    and close_law: "st True d \<Longrightarrow> device_close ops = Some close \<Longrightarrow>
      \<exists>r d'. close d = Some (Return r, d') \<and> (r = RT_EOK \<or> r = - RT_ENOSYS) \<and> st False d' \<and> dev_kept dev False d d'"
    and close_none: "st True d \<Longrightarrow> device_close ops = None \<Longrightarrow> st False d"
    and read_law: "st True d \<Longrightarrow> device_read ops = Some read \<Longrightarrow>
      \<exists>r d'. read pos sz d = Some (Return r, d') \<and> st True d' \<and> dev_kept dev True d d'"
    and write_law: "st True d \<Longrightarrow> device_write ops = Some write \<Longrightarrow> unat sz \<le> length buffer \<Longrightarrow>
      \<exists>r d'. write pos buffer sz d = Some (Return r, d') \<and> st True d' \<and> dev_kept dev True d d'"
    and control_law: "st b d \<Longrightarrow> device_control ops = Some control \<Longrightarrow>
      \<exists>r d'. control cmd arg d = Some (Return r, d') \<and> st b d' \<and> dev_kept dev True d d'"
begin

lemma inv_kept:
  assumes "dev_inv dev st d" and "dev_kept dev True d d'" and "st (users dev d \<noteq> 0) d'"
  shows "dev_inv dev st d' \<and> users dev d' = users dev d"
proof -
  have r: "dev_ready dev d" using assms(1) by (simp add: dev_inv_def)
  then obtain x where x: "ds_dev d dev = Some x" by (auto simp: dev_ready_def)
  then obtain x' where "ds_dev d' dev = Some x'" "standalone x' = standalone x" "opened x' = opened x"
    using assms(2) unfolding dev_kept_def by blast
  then show ?thesis using assms x dev_ready_kept [OF r assms(2)] users_kept [OF r assms(2)] by (simp add: dev_inv_def)
qed

lemma inv_upd:
  assumes "dev_inv dev st d" and "ds_dev d dev = Some x" and "dev_ref_count y = dev_ref_count x" and "opened y = opened x"
    and "standalone y = standalone x"
  shows "dev_inv dev st (d\<lparr>ds_dev := (ds_dev d)(dev \<mapsto> y)\<rparr>)"
  using assms upd_law [of "users dev d \<noteq> 0" d y] by (auto simp: dev_inv_def dev_ready_def users_def)

lemma open_done:
  assumes "dev_ready dev d" and "st True d" and "users dev d < 255" and "r = RT_EOK \<or> r = - RT_ENOSYS"
    and "\<And>x. ds_dev d dev = Some x \<Longrightarrow> standalone x \<Longrightarrow> users dev d = 0"
  shows "\<exists>d'. device_open_done dev r d = Some (Return r, d') \<and> dev_inv dev st d' \<and> users dev d' = users dev d + 1"
proof -
  from assms(1) obtain x where x: "ds_dev d dev = Some x" by (auto simp: dev_ready_def)
  let ?y = "x\<lparr>dev_open_flag := dev_open_flag x OR RT_DEVICE_OFLAG_OPEN, dev_ref_count := dev_ref_count x + 1\<rparr>"
  let ?d = "d\<lparr>ds_dev := (ds_dev d)(dev \<mapsto> ?y)\<rparr>"
  have n: "unat (dev_ref_count x + 1) = unat (dev_ref_count x) + 1"
    using assms(3) x unat_plus_less [of "dev_ref_count x" 1] by (simp add: users_def)
  then have "dev_ref_count x + 1 \<noteq> 0" by (metis add_is_0 one_neq_zero unsigned_0)
  then have "device_open_done dev r d = Some (Return r, ?d)" using assms(4) x by (auto simp: device_open_done_def upd_dev_Some)
  moreover have "dev_inv dev st ?d" using assms(2,5) x n ready_upd [OF assms(1)] upd_law [OF assms(2)] opened_set
    by (auto simp: dev_inv_def users_def standalone_def)
  ultimately show ?thesis using n x by (auto simp: users_def)
qed

lemma open_active:
  assumes inv: "dev_inv dev st d" and u: "users dev d < 255"
  shows "\<exists>r d'. device_open_active ops dev oflag d = Some (Return r, d') \<and> dev_inv dev st d' \<and>
    users dev d' = users_after (Dev_open oflag) r (users dev d)"
proof -
  let ?b = "users dev d \<noteq> 0"
  have rd: "dev_ready dev d" and st: "st ?b d" using inv by (simp_all add: dev_inv_def)
  from rd obtain x where x: "ds_dev d dev = Some x" by (auto simp: dev_ready_def)
  have o: "opened x = ?b" "standalone x \<Longrightarrow> users dev d \<le> 1" using inv x by (simp_all add: dev_inv_def)
  show ?thesis
  proof (cases "standalone x \<and> opened x")
    case True
    then show ?thesis using inv x by (simp add: device_open_active_def)
  next
    case alone: False
    then have sa: "standalone x \<Longrightarrow> users dev d = 0" using o by blast
    show ?thesis
    proof (cases "\<not> opened x \<or> dev_open_flag x AND RT_DEVICE_OFLAG_MASK \<noteq> oflag AND RT_DEVICE_OFLAG_MASK")
      case again: True
      show ?thesis
      proof (cases "device_open ops")
        case None
        let ?d = "d\<lparr>ds_dev := (ds_dev d)(dev \<mapsto> x\<lparr>dev_open_flag := oflag AND RT_DEVICE_OFLAG_MASK\<rparr>)\<rparr>"
        have "st True ?d" using open_none [OF st None] x by (intro upd_law) simp_all
        moreover have "users dev ?d = users dev d" using x by (simp add: users_def)
        moreover have "standalone y \<Longrightarrow> users dev ?d = 0" if "ds_dev ?d dev = Some y" for y
          using that sa x by (auto simp: standalone_def users_def)
        ultimately obtain d' where d': "device_open_done dev RT_EOK ?d = Some (Return RT_EOK, d')" "dev_inv dev st d'" "users dev d' = users dev d + 1"
          using open_done [OF ready_upd [OF rd], of "x\<lparr>dev_open_flag := oflag AND RT_DEVICE_OFLAG_MASK\<rparr>" RT_EOK] u by auto
        have "device_open_active ops dev oflag d = Some (Return RT_EOK, d')"
          using alone again None x d'(1) by (auto simp: device_open_active_def upd_dev_Some)
        then show ?thesis using d' by auto
      next
        case (Some open')
        from open_law [OF st Some, of oflag] obtain r d1 where c: "open' oflag d = Some (Return r, d1)"
          "if r = RT_EOK \<or> r = - RT_ENOSYS then st True d1 \<and> dev_kept dev False d d1 else st ?b d1 \<and> dev_kept dev True d d1" by blast
        show ?thesis
        proof (cases "r = RT_EOK \<or> r = - RT_ENOSYS")
          case ok: True
          then have k: "st True d1" "dev_kept dev False d d1" using c(2) by simp_all
          note us = users_kept [OF rd k(2)]
          have al: "users dev d1 = 0" if "ds_dev d1 dev = Some y" "standalone y" for y
            using k(2) x that sa us by (auto simp: dev_kept_def)
          have "\<exists>d'. device_open_done dev r d1 = Some (Return r, d') \<and> dev_inv dev st d' \<and> users dev d' = users dev d1 + 1"
            by (rule open_done [OF dev_ready_kept [OF rd k(2)] k(1) _ ok al]) (use u us in simp_all)
          then obtain d' where "device_open_done dev r d1 = Some (Return r, d')" "dev_inv dev st d'" "users dev d' = users dev d + 1"
            using us by auto
          then show ?thesis using alone again Some x c(1) ok by (auto simp: device_open_active_def after_call_def)
        next
          case False
          then have "device_open_active ops dev oflag d = Some (Return r, d1)" "dev_inv dev st d1 \<and> users dev d1 = users dev d"
            using c alone again Some x inv_kept [OF inv, of d1] by (auto simp: device_open_active_def after_call_def device_open_done_def)
          then show ?thesis using False by simp
        qed
      qed
    next
      case False
      then have "device_open_active ops dev oflag d = device_open_done dev RT_EOK d" using alone x by (auto simp: device_open_active_def)
      moreover have "st True d" using False o(1) st by simp
      ultimately obtain d' where "device_open_active ops dev oflag d = Some (Return RT_EOK, d')" "dev_inv dev st d'" "users dev d' = users dev d + 1"
        using open_done [OF rd _ u, of RT_EOK] sa x by auto
      then show ?thesis by auto
    qed
  qed
qed

lemma open_inv:
  assumes inv: "dev_inv dev st d" and u: "users dev d < 255"
  shows "\<exists>r d'. rt_device_open ops dev oflag d = Some (Return r, d') \<and> dev_inv dev st d' \<and>
    users dev d' = users_after (Dev_open oflag) r (users dev d)"
proof -
  have rd: "dev_ready dev d" and st: "st (users dev d \<noteq> 0) d" using inv by (simp_all add: dev_inv_def)
  from rd obtain x where x: "ds_dev d dev = Some x" by (auto simp: dev_ready_def)
  have init_done: "\<exists>r d'. device_open_init_done ops dev oflag ri di = Some (Return r, d') \<and> dev_inv dev st d' \<and>
      users dev d' = users_after (Dev_open oflag) r (users dev d)"
    if di: "dev_inv dev st di" "users dev di = users dev d" "ri \<noteq> - RT_ENOSYS" for ri di
  proof -
    from di(1) obtain y where y: "ds_dev di dev = Some y" by (auto simp: dev_inv_def dev_ready_def)
    let ?d = "di\<lparr>ds_dev := (ds_dev di)(dev \<mapsto> set_activated y)\<rparr>"
    have "dev_inv dev st ?d" "users dev ?d = users dev di" using inv_upd [OF di(1) y] y by (simp_all add: users_def)
    then show ?thesis using open_active [of ?d oflag] u di y
      by (cases "ri = RT_EOK") (simp_all add: device_open_init_done_def upd_dev_Some)
  qed
  show ?thesis
  proof (cases "activated x")
    case True
    then show ?thesis using open_active [OF inv u] rd x by (simp add: rt_device_open_def)
  next
    case na: False
    show ?thesis
    proof (cases "device_init ops")
      case None
      then show ?thesis using init_done [OF inv, of RT_EOK] rd x na by (simp add: rt_device_open_def)
    next
      case (Some init)
      from init_law [OF st Some] obtain r d1 where c: "init d = Some (Return r, d1)" "st (users dev d \<noteq> 0) d1" "dev_kept dev True d d1" "r \<noteq> - RT_ENOSYS" by blast
      note ik = inv_kept [OF inv c(3,2)]
      show ?thesis using init_done [of d1 r] ik c(1,4) rd x na Some by (simp add: rt_device_open_def after_call_def)
    qed
  qed
qed

lemma close_inv:
  assumes inv: "dev_inv dev st d"
  shows "\<exists>r d'. rt_device_close ops dev d = Some (Return r, d') \<and> dev_inv dev st d' \<and> users dev d' = users dev d - 1"
proof -
  have rd: "dev_ready dev d" and st: "st (users dev d \<noteq> 0) d" using inv by (simp_all add: dev_inv_def)
  from rd obtain x where x: "ds_dev d dev = Some x" by (auto simp: dev_ready_def)
  show ?thesis
  proof (cases "users dev d = 0")
    case True
    then show ?thesis using inv rd x by (simp add: rt_device_close_def users_def unat_eq_zero)
  next
    case False
    let ?y = "x\<lparr>dev_ref_count := dev_ref_count x - 1\<rparr>"
    let ?d = "d\<lparr>ds_dev := (ds_dev d)(dev \<mapsto> ?y)\<rparr>"
    have n: "unat (dev_ref_count x - 1) = users dev d - 1" "dev_ref_count x \<noteq> 0"
      using False x unat_minus_le [of 1 "dev_ref_count x"] by (auto simp: users_def word_le_nat_alt unat_eq_zero Suc_le_eq unat_gt_0)
    then have ud: "users dev ?d = users dev d - 1" by (simp add: users_def)
    have st1: "st True ?d" using st False x by (intro upd_law) simp_all
    have z: "dev_ref_count x - 1 = 0 \<longleftrightarrow> users dev ?d = 0" using ud n(1) by (metis unat_eq_zero)
    have c: "rt_device_close ops dev d = (if users dev ?d \<noteq> 0 then Some (Return RT_EOK, ?d)
        else case device_close ops of Some close \<Rightarrow> after_call (close ?d) (device_close_done dev) | None \<Rightarrow> device_close_done dev RT_EOK ?d)"
      using rd x n z by (simp add: rt_device_close_def upd_dev_Some del: right_minus_eq)
    show ?thesis
    proof (cases "users dev ?d = 0")
      case more: False
      have "opened ?y = opened x" "standalone ?y = standalone x" by (simp_all add: opened_def standalone_def)
      then have "dev_inv dev st ?d" using more inv x ud False st1 ready_upd [OF rd] by (auto simp: dev_inv_def)
      then show ?thesis using c more ud by simp
    next
      case last: True
      have closed: "\<exists>d'. device_close_done dev r d1 = Some (Return r, d') \<and> dev_inv dev st d' \<and> users dev d' = 0"
        if d1: "dev_ready dev d1" "st False d1" "users dev d1 = 0" "r = RT_EOK \<or> r = - RT_ENOSYS" for r d1
      proof -
        from d1(1) obtain z where z: "ds_dev d1 dev = Some z" by (auto simp: dev_ready_def)
        let ?z = "d1\<lparr>ds_dev := (ds_dev d1)(dev \<mapsto> z\<lparr>dev_open_flag := RT_DEVICE_OFLAG_CLOSE\<rparr>)\<rparr>"
        have u: "users dev ?z = 0" using z d1(3) by (simp add: users_def)
        have "st False ?z" using d1(2) z by (intro upd_law) simp_all
        then have "dev_inv dev st ?z" using u ready_upd [OF d1(1)] by (simp add: dev_inv_def opened_def)
        then show ?thesis using u z d1(4) by (auto simp: device_close_done_def upd_dev_Some)
      qed
      have "\<exists>r d'. (case device_close ops of Some close \<Rightarrow> after_call (close ?d) (device_close_done dev) | None \<Rightarrow> device_close_done dev RT_EOK ?d) =
          Some (Return r, d') \<and> dev_inv dev st d' \<and> users dev d' = 0"
      proof (cases "device_close ops")
        case None
        then show ?thesis using closed [OF ready_upd [OF rd] close_none [OF st1 None] last, of RT_EOK] by auto
      next
        case (Some close)
        from close_law [OF st1 Some] obtain r d1 where k: "close ?d = Some (Return r, d1)" "r = RT_EOK \<or> r = - RT_ENOSYS"
          "st False d1" "dev_kept dev False ?d d1" by blast
        then show ?thesis using closed [OF dev_ready_kept [OF ready_upd [OF rd] k(4)] k(3) _ k(2)]
            users_kept [OF ready_upd [OF rd] k(4)] last Some by (auto simp: after_call_def)
      qed
      then show ?thesis using c last ud by simp
    qed
  qed
qed

lemma errno_inv:
  assumes inv: "dev_inv dev st d"
  shows "\<exists>d'. device_errno e r d = Some (Return r, d') \<and> dev_inv dev st d' \<and> users dev d' = users dev d"
proof -
  have "st (users dev d \<noteq> 0) d" using inv by (simp add: dev_inv_def)
  from errno_law [OF this, of e] obtain d' where
    "on_kernel (rt_set_errno e) d = Some d'" "st (users dev d \<noteq> 0) d'" "dev_kept dev True d d'" by blast
  then show ?thesis using inv_kept [OF inv, of d'] by (simp add: device_errno_def)
qed

lemma init_inv:
  assumes inv: "dev_inv dev st d"
  shows "\<exists>r d'. rt_device_init ops dev d = Some (Return r, d') \<and> dev_inv dev st d' \<and> users dev d' = users dev d"
proof (cases "device_init ops")
  case None
  then show ?thesis using inv by (simp add: rt_device_init_def)
next
  case (Some init)
  have rd: "dev_ready dev d" and st: "st (users dev d \<noteq> 0) d" using inv by (simp_all add: dev_inv_def)
  from rd obtain x where x: "ds_dev d dev = Some x" by (auto simp: dev_ready_def)
  from init_law [OF st Some] obtain r d1 where c: "init d = Some (Return r, d1)" "st (users dev d \<noteq> 0) d1" "dev_kept dev True d d1" by blast
  note ik = inv_kept [OF inv c(3,2)]
  from dev_ready_kept [OF rd c(3)] obtain y where y: "ds_dev d1 dev = Some y" by (auto simp: dev_ready_def)
  have "dev_inv dev st (d1\<lparr>ds_dev := (ds_dev d1)(dev \<mapsto> set_activated y)\<rparr>)" by (rule inv_upd [OF _ y]) (use ik in simp_all)
  then show ?thesis using Some inv x c(1) ik y
    by (cases "r = RT_EOK") (auto simp: rt_device_init_def after_call_def device_init_done_def upd_dev_Some users_def)
qed

lemma read_inv:
  assumes inv: "dev_inv dev st d"
  shows "\<exists>r d'. rt_device_read ops dev pos sz d = Some (Return r, d') \<and> dev_inv dev st d' \<and> users dev d' = users dev d"
proof -
  have rd: "dev_ready dev d" and st: "st (users dev d \<noteq> 0) d" using inv by (simp_all add: dev_inv_def)
  from rd obtain x where x: "ds_dev d dev = Some x" by (auto simp: dev_ready_def)
  have u: "dev_ref_count x = 0 \<longleftrightarrow> users dev d = 0" using x by (simp add: users_def unat_eq_zero)
  show ?thesis
  proof (cases "users dev d = 0 \<or> device_read ops = None")
    case True
    then have "\<exists>e. rt_device_read ops dev pos sz d = device_errno e (0, []) d" using rd x u by (auto simp: rt_device_read_def)
    then show ?thesis using errno_inv [OF inv] by metis
  next
    case False
    then obtain read where f: "device_read ops = Some read" "users dev d \<noteq> 0" by auto
    from read_law [of d read pos sz] st f obtain r d' where "read pos sz d = Some (Return r, d')" "st True d'" "dev_kept dev True d d'" by auto
    then show ?thesis using rd x u f inv_kept [OF inv, of d'] by (simp add: rt_device_read_def)
  qed
qed

lemma write_inv:
  assumes inv: "dev_inv dev st d" and b: "unat sz \<le> length buffer"
  shows "\<exists>r d'. rt_device_write ops dev pos buffer sz d = Some (Return r, d') \<and> dev_inv dev st d' \<and> users dev d' = users dev d"
proof -
  have rd: "dev_ready dev d" and st: "st (users dev d \<noteq> 0) d" using inv by (simp_all add: dev_inv_def)
  from rd obtain x where x: "ds_dev d dev = Some x" by (auto simp: dev_ready_def)
  have u: "dev_ref_count x = 0 \<longleftrightarrow> users dev d = 0" using x by (simp add: users_def unat_eq_zero)
  show ?thesis
  proof (cases "users dev d = 0 \<or> device_write ops = None")
    case True
    then have "\<exists>e. rt_device_write ops dev pos buffer sz d = device_errno e 0 d" using rd x u by (auto simp: rt_device_write_def)
    then show ?thesis using errno_inv [OF inv] by metis
  next
    case False
    then obtain wr where f: "device_write ops = Some wr" "users dev d \<noteq> 0" by auto
    from write_law [OF _ f(1) b, of d pos] st f obtain r d' where
      "wr pos buffer sz d = Some (Return r, d')" "st True d'" "dev_kept dev True d d'" by auto
    then show ?thesis using rd x u f inv_kept [OF inv, of d'] by (simp add: rt_device_write_def)
  qed
qed

lemma control_inv:
  assumes inv: "dev_inv dev st d"
  shows "\<exists>r d'. rt_device_control ops dev cmd arg d = Some (Return r, d') \<and> dev_inv dev st d' \<and> users dev d' = users dev d"
proof (cases "device_control ops")
  case None
  then show ?thesis using inv by (simp add: rt_device_control_def dev_inv_def)
next
  case (Some control)
  have st: "st (users dev d \<noteq> 0) d" and rd: "dev_ready dev d" using inv by (simp_all add: dev_inv_def)
  from control_law [OF st Some, of cmd arg] obtain r d' where
    "control cmd arg d = Some (Return r, d')" "st (users dev d \<noteq> 0) d'" "dev_kept dev True d d'" by blast
  then show ?thesis using Some rd inv_kept [OF inv, of d'] by (simp add: rt_device_control_def)
qed

lemma step_inv:
  assumes inv: "dev_inv dev st d" and "buffer_ok c" and "users_fit (c # cs) (users dev d)"
  shows "\<exists>r d'. dev_step ops dev c d = Some (Return r, d') \<and> dev_inv dev st d' \<and> users dev d' = users_after c r (users dev d)"
proof (cases c)
  case (Dev_read pos sz)
  then show ?thesis using read_inv [OF inv, of pos sz] by (auto simp: value_of_def after_call_def)
next
  case (Dev_write pos buffer sz)
  then show ?thesis using write_inv [OF inv, of sz buffer pos] assms(2) by (auto simp: value_of_def after_call_def)
next
  case (Dev_open oflag)
  then show ?thesis using open_inv [OF inv] assms(3) by simp
qed (use init_inv [OF inv] close_inv [OF inv] control_inv [OF inv] in simp_all)

lemma run_inv:
  assumes "dev_inv dev st d" and "list_all buffer_ok cs" and "users_fit cs (users dev d)"
  shows "\<exists>rs d'. dev_run ops dev cs d = Some (rs, d') \<and> length rs = length cs \<and> dev_inv dev st d' \<and>
    users dev d' = users_run cs rs (users dev d)"
  using assms
proof (induction cs arbitrary: d)
  case (Cons c cs)
  from step_inv [OF Cons.prems(1), of c cs] Cons.prems(2,3) obtain r d1 where
    s: "dev_step ops dev c d = Some (Return r, d1)" "dev_inv dev st d1" "users dev d1 = users_after c r (users dev d)" by auto
  have "users_fit cs (users dev d1)" unfolding s(3) by (rule users_fit_step [OF Cons.prems(3)])
  with Cons.IH [OF s(2)] Cons.prems(2) obtain rs d' where "dev_run ops dev cs d1 = Some (rs, d')" "length rs = length cs" "dev_inv dev st d'"
    "users dev d' = users_run cs rs (users dev d1)" by auto
  with s show ?case by simp
qed simp

end

section \<open>Properties\<close>

text \<open>C35. The users of a device are counted. For any driver that keeps the laws of \<open>device_driver\<close> and any sequence of
  calls of the device layer that never makes more than 255 users, the most the counter can hold, even if every open succeeds, and that
  does not write more bytes than the caller's buffer has, every call returns, the reference count is the number of opens that
  succeeded less the closes, the open bit is set exactly while there are users, the driver is in its open state exactly then,
  and a standalone device never has two users.\<close>

theorem rt_device_users:
  assumes "device_driver ops dev st" and "dev_inv dev st d" and "list_all buffer_ok cs" and "users_fit cs (users dev d)"
  shows "\<exists>rs d'. dev_run ops dev cs d = Some (rs, d') \<and> length rs = length cs \<and> dev_inv dev st d' \<and>
    users dev d' = users_run cs rs (users dev d)"
  by (rule device_driver.run_inv [OF assms])

text \<open>A device whose driver fails to close keeps the open bit without a user: a standalone device is then busy for ever.\<close>

lemma failed_close_busy:
  assumes "dev_ready dev d" and "ds_dev d dev = Some x" and "dev_ref_count x = 1" and "opened x" and "standalone x" and "activated x"
    and "device_close ops = Some close" and "\<And>d. close d = Some (Return (- RT_ERROR), d)"
  shows "\<exists>d'. rt_device_close ops dev d = Some (Return (- RT_ERROR), d') \<and> users dev d' = 0 \<and>
    rt_device_open ops dev oflag d' = Some (Return (- RT_EBUSY), d')"
proof -
  let ?d = "d\<lparr>ds_dev := (ds_dev d)(dev \<mapsto> x\<lparr>dev_ref_count := 0\<rparr>)\<rparr>"
  have "rt_device_close ops dev d = Some (Return (- RT_ERROR), ?d)"
    using assms by (simp add: rt_device_close_def upd_dev_Some after_call_def device_close_done_def)
  moreover have "rt_device_open ops dev oflag ?d = Some (Return (- RT_EBUSY), ?d)"
    using assms(2,4-6) ready_upd [OF assms(1)]
    by (simp add: rt_device_open_def device_open_active_def activated_def standalone_def opened_def)
  moreover have "users dev ?d = 0" by (simp add: users_def)
  ultimately show ?thesis by blast
qed

section \<open>Registration\<close>

definition unnamed :: "u8 list \<Rightarrow> kstate \<Rightarrow> bool" where
  "unnamed nm s \<longleftrightarrow> list_all (\<lambda>ob. case k_obj s ob of None \<Rightarrow> True | Some h \<Rightarrow> \<not> same_name (obj_name h) nm)
    (k_container s RT_Object_Class_Device)"

lemma find_unnamed: "unnamed nm s \<Longrightarrow>
    find (\<lambda>ob. case k_obj s ob of None \<Rightarrow> False | Some h \<Rightarrow> same_name (obj_name h) nm) (k_container s RT_Object_Class_Device) = None"
  by (auto simp: find_None_iff unnamed_def list_all_iff split: option.splits)

text \<open>Registering a device under a name that no device has yet succeeds: the device has the given flags, is closed and has no users,
  the kernel stays well-formed, looking the name up finds this device, and no second device can be registered under the name.\<close>

theorem rt_device_register_find:
  assumes "kwf (ds_kernel d)" and "rt_current_thread (ds_kernel d) \<noteq> None" and "0 \<le> sint (rt_scheduler_lock_nest (ds_kernel d))"
    and "rt_interrupt_nest (ds_kernel d) = 0" and "ObjectProps.fresh a RT_Object_Class_Device (ds_kernel d)" and "ds_dev d a = Some x" and "unnamed nm (ds_kernel d)"
  shows "\<exists>d1 d2 d3. rt_device_register (Some a) nm flags d = Some (RT_EOK, d1) \<and> kwf (ds_kernel d1) \<and> dev_ready a d1 \<and> users a d1 = 0 \<and>
    ds_dev d1 a = Some (x\<lparr>dev_flag := flags, dev_ref_count := 0, dev_open_flag := 0\<rparr>) \<and>
    rt_device_find (Some nm) d1 = Some (Some (Obj a), d2) \<and> rt_device_register (Some b) nm flags' d1 = Some (- RT_ERROR, d3)"
proof -
  have kc: "known_class 9" by (simp add: known_class_def)
  from find_spec [OF assms(1-3) kc assms(4), of nm] find_unnamed [OF assms(7)] obtain s1 where
    f: "rt_object_find (Some nm) RT_Object_Class_Device (ds_kernel d) = Some (None, s1)" "kwf s1" "sched_frame (ds_kernel d) s1"
      "rt_current_thread s1 \<noteq> None" by auto
  note fr = sched_frame_fields [OF f(3)]
  have p: "rt_current_thread s1 \<noteq> None" "0 \<le> sint (rt_scheduler_lock_nest s1)" "ObjectProps.fresh a 9 s1"
    using f(4) assms(3,5) fr fresh_sched [OF f(3)] by simp_all
  from object_init_spec [OF f(2) p(1,2) kc p(3), of nm] obtain s2 where
    i: "rt_object_init (Obj a) RT_Object_Class_Device nm s1 = Some (registered a 9 nm s2)" "kwf (registered a 9 nm s2)" "sched_frame s1 s2"
      "rt_current_thread s2 \<noteq> None" by auto
  note fr2 = sched_frame_fields [OF i(3)]
  let ?s = "registered a 9 nm s2" and ?x = "x\<lparr>dev_flag := flags, dev_ref_count := 0, dev_open_flag := 0\<rparr>"
  let ?d1 = "d\<lparr>ds_kernel := ?s, ds_dev := (ds_dev d)(a \<mapsto> ?x)\<rparr>"
  have r: "rt_device_register (Some a) nm flags d = Some (RT_EOK, ?d1)"
    using f(1) i(1) assms(6) by (simp add: rt_device_register_def rt_device_find_def on_kernel_def upd_dev_Some)
  have q: "rt_current_thread ?s \<noteq> None" "0 \<le> sint (rt_scheduler_lock_nest ?s)" "rt_interrupt_nest ?s = 0"
    using i(4) p(2) assms(4) fr fr2 by simp_all
  from find_spec [OF i(2) q(1,2) kc q(3), of nm] obtain s3 where
    g: "rt_object_find (Some nm) RT_Object_Class_Device ?s = Some (Some (Obj a), s3)" by (auto simp: same_name_copy)
  then have "rt_device_find (Some nm) ?d1 = Some (Some (Obj a), ?d1\<lparr>ds_kernel := s3\<rparr>)" by (simp add: rt_device_find_def)
  moreover from this have "rt_device_register (Some b) nm flags' ?d1 = Some (- RT_ERROR, ?d1\<lparr>ds_kernel := s3\<rparr>)"
    by (simp add: rt_device_register_def)
  moreover have "dev_ready a ?d1" using known_class_type [OF kc] by (simp add: dev_ready_def is_class_def)
  moreover have "users a ?d1 = 0" by (simp add: users_def)
  ultimately show ?thesis using r i(2) by (intro exI [of _ ?d1] exI [of _ "?d1\<lparr>ds_kernel := s3\<rparr>"]) simp
qed

definition ex_device :: rt_device where
  "ex_device = \<lparr>dev_type = 0, dev_flag = 0, dev_open_flag = 0, dev_ref_count = 0, dev_rx_indicate = None, dev_tx_complete = None\<rparr>"

lemma rt_device_register_find_witness:
  "\<exists>d1 d2. rt_device_register (Some 0x500) [0x75, 0] 3 \<lparr>ds_kernel = ex_timed, ds_dev = [0x500 \<mapsto> ex_device], ds_driver = ()\<rparr> = Some (RT_EOK, d1) \<and>
    rt_device_find (Some [0x75, 0]) d1 = Some (Some (Obj 0x500), d2)"
proof -
  have "ObjectProps.fresh 0x500 9 ex_timed" "rt_scheduler_lock_nest ex_timed = 0" "rt_interrupt_nest ex_timed = 0" "unnamed [0x75, 0] ex_timed"
    by (simp_all add: ObjectProps.fresh_def unnamed_def ex_timed_def ex_state_def init_kstate_def)
  with rt_device_register_find [of "\<lparr>ds_kernel = ex_timed, ds_dev = [0x500 \<mapsto> ex_device], ds_driver = ()\<rparr>" "0x500" ex_device "[0x75, 0]" 3 0 0]
    ex_timed_kwf show ?thesis by auto
qed

text \<open>A registered device is static, so \<open>rt_device_destroy\<close> fails its assertion.\<close>

lemma rt_device_destroy_fails:
  assumes "is_class (Obj dev) RT_Object_Class_Device (ds_kernel d)" and "assert_static (Obj dev) True (ds_kernel d) = Some ()"
  shows "rt_device_destroy dev d = None"
  using assms by (auto simp: rt_device_destroy_def assert_device_def assert_type_class assert_static_def Option.bind_eq_Some_conv)

end
