(* ===== verification/PipeProps.thy ===== *)
theory PipeProps
  imports Pipe DeviceProps
begin

text \<open>
  The pipe is a driver in the sense of \<open>device_driver\<close>; through the device layer, an open pipe is a
  bounded queue of bytes.
\<close>

section \<open>The state of a pipe\<close>

definition allocator_ok :: "allocator \<Rightarrow> bool" where
  "allocator_ok al \<longleftrightarrow> (\<forall>sz pool. al_pool al sz = Some pool \<longrightarrow> length pool = unat sz)"

text \<open>The lock is free when the calling thread comes; the ring buffer is there when the driver is open.\<close>

definition pipe_state :: "allocator \<Rightarrow> addr \<Rightarrow> bool \<Rightarrow> pipes dstate \<Rightarrow> bool" where
  "pipe_state al pipe b d \<longleftrightarrow> (\<exists>c. mutex_idle (pipe_lock pipe) c (ds_kernel d)) \<and> allocator_ok al \<and>
    (\<exists>p. ds_driver d pipe = Some p \<and> 8 \<le> unat (pp_bufsz p) \<and>
      (case pp_fifo p of None \<Rightarrow> \<not> b | Some rb \<Rightarrow> b \<and> rb_inv rb))"

text \<open>The bytes in an open pipe, and its room.\<close>

definition pipe_bytes :: "addr \<Rightarrow> pipes dstate \<Rightarrow> u8 list" where
  "pipe_bytes pipe d = (case ds_driver d pipe of
      None \<Rightarrow> []
    | Some p \<Rightarrow> (case pp_fifo p of None \<Rightarrow> [] | Some rb \<Rightarrow> contents rb))"

definition pipe_room :: "addr \<Rightarrow> pipes dstate \<Rightarrow> nat" where
  "pipe_room pipe d = (case ds_driver d pipe of
      None \<Rightarrow> 0
    | Some p \<Rightarrow> (case pp_fifo p of None \<Rightarrow> 0 | Some rb \<Rightarrow> unat (buffer_size rb) - length (contents rb)))"

section \<open>The loops\<close>

lemma count_positive: "unat n < 2 ^ 31 \<Longrightarrow> sint (n :: u32) \<le> 0 \<longleftrightarrow> n = 0"
proof -
  assume "unat n < 2 ^ 31"
  then have "int (unat n) < int (2 ^ 31)" by (simp only: of_nat_less_iff)
  then have u: "uint n < 2 ^ 31" by simp
  have "0 \<le> uint n" by simp
  then have "- (2 ^ 31) \<le> uint n" by (rule order_trans [rotated]) simp
  then have "signed_take_bit 31 (uint n) = uint n" using u by (rule signed_take_bit_int_eq_self)
  then have "sint n = uint n" by (simp add: sint_uint)
  then show ?thesis by (simp add: uint_0_iff order.antisym)
qed

lemma length_contents: "rb_inv rb \<Longrightarrow> length (contents rb) \<le> unat (buffer_size rb)"
  by (rule contents_le)

lemma read_loop:
  assumes inv: "rb_inv rb"
  shows "\<exists>n rb'. pipe_read_loop rb count 0 [] = Some (n, take (unat count) (contents rb), rb') \<and> rb_inv rb' \<and>
    unat n = min (length (contents rb)) (unat count) \<and> contents rb' = drop (unat count) (contents rb)"
proof (cases "count = 0")
  case True
  then show ?thesis using inv by (simp add: pipe_read_loop.simps)
next
  case False
  then have c: "0 < count" by (simp add: word_gt_0)
  let ?k = "min (length (contents rb)) (unat count)"
  from get_spec [OF inv, of count] obtain n rb1 where
    g: "rt_ringbuffer_get rb count = Some (n, take ?k (contents rb), rb1)" "unat n = ?k" "rb_inv rb1" "contents rb1 = drop ?k (contents rb)" by blast
  have small: "unat n < 2 ^ 31" using g(2) contents_le [OF inv] inv by (simp add: rb_inv_def min_def)
  have tk: "take ?k (contents rb) = take (unat count) (contents rb)" "drop ?k (contents rb) = drop (unat count) (contents rb)"
    by (simp_all add: min_def)
  show ?thesis
  proof (cases "n = 0")
    case True
    then have "?k = 0" using g(2) by simp
    moreover have "unat count \<noteq> 0" using False by (simp add: unat_eq_zero)
    ultimately have "contents rb = []" by (simp add: min_def split: if_splits)
    then have "pipe_read_loop rb count 0 [] = Some (0, [], rb1)" using c g(1) True by (subst pipe_read_loop.simps) simp
    then show ?thesis using g \<open>contents rb = []\<close> by simp
  next
    case n0: False
    have "\<exists>rb2. pipe_read_loop rb1 count n (take ?k (contents rb)) = Some (n, take ?k (contents rb), rb2) \<and> rb_inv rb2 \<and> contents rb2 = contents rb1"
    proof (cases "n < count")
      case True
      then have "unat n < unat count" by (simp add: word_less_nat_alt)
      then have e: "contents rb1 = []" using g(2,4) by simp
      from get_spec [OF g(3), of "count - n"] e obtain m rb2 where
        "rt_ringbuffer_get rb1 (count - n) = Some (m, [], rb2)" "unat m = 0" "rb_inv rb2" "contents rb2 = []" by auto
      moreover from this have "m = 0" by (simp add: unat_eq_zero)
      ultimately show ?thesis using True e by (subst pipe_read_loop.simps) simp
    next
      case False
      then show ?thesis using g(3) by (subst pipe_read_loop.simps) simp
    qed
    then obtain rb2 where "pipe_read_loop rb1 count n (take ?k (contents rb)) = Some (n, take ?k (contents rb), rb2)" "rb_inv rb2"
      "contents rb2 = contents rb1" by blast
    moreover have "pipe_read_loop rb count 0 [] = pipe_read_loop rb1 count n (take ?k (contents rb))"
      using c g(1) n0 count_positive [OF small] by (subst pipe_read_loop.simps) simp
    ultimately show ?thesis using g(2,4) tk by simp
  qed
qed

lemma write_loop:
  assumes inv: "rb_inv rb" and len: "unat count \<le> length buf"
  defines "k \<equiv> min (unat (buffer_size rb) - length (contents rb)) (unat count)"
  shows "\<exists>n rb'. pipe_write_loop rb buf count 0 = Some (n, rb') \<and> rb_inv rb' \<and> unat n = k \<and> contents rb' = contents rb @ take k buf"
proof (cases "count = 0")
  case True
  then show ?thesis using inv by (simp add: pipe_write_loop.simps k_def)
next
  case False
  then have c: "0 < count" by (simp add: word_gt_0)
  from put_spec [OF inv len] obtain n rb1 where
    g: "rt_ringbuffer_put rb buf count = Some (n, rb1)" "unat n = k" "rb_inv rb1" "buffer_size rb1 = buffer_size rb"
      "contents rb1 = contents rb @ take k buf" unfolding k_def by blast
  have small: "unat n < 2 ^ 31" using g(2) inv unfolding rb_inv_def k_def by linarith
  show ?thesis
  proof (cases "n = 0")
    case True
    then have "pipe_write_loop rb buf count 0 = Some (0, rb1)" using c g(1) by (subst pipe_write_loop.simps) simp
    then show ?thesis using g True by simp
  next
    case n0: False
    have "\<exists>rb2. pipe_write_loop rb1 buf count n = Some (n, rb2) \<and> rb_inv rb2 \<and> contents rb2 = contents rb1"
    proof (cases "n < count")
      case True
      then have "k < unat count" using g(2) by (simp add: word_less_nat_alt)
      then have k: "k = unat (buffer_size rb) - length (contents rb)" unfolding k_def by simp
      then have full: "unat (buffer_size rb1) - length (contents rb1) = 0" using g(4,5) len \<open>k < unat count\<close> by simp
      have "unat (count - n) = unat count - k" using True g(2) unat_minus_le [of n count] by (simp add: word_less_nat_alt less_imp_le word_le_nat_alt)
      then have "unat (count - n) \<le> length (drop (unat n) buf)" using len g(2) by simp
      from put_spec [OF g(3) this] full obtain m rb2 where
        "rt_ringbuffer_put rb1 (drop (unat n) buf) (count - n) = Some (m, rb2)" "unat m = 0" "rb_inv rb2" "contents rb2 = contents rb1" by auto
      moreover from this have "m = 0" by (simp add: unat_eq_zero)
      ultimately show ?thesis using True by (subst pipe_write_loop.simps) simp
    next
      case False
      then show ?thesis using g(3) by (subst pipe_write_loop.simps) simp
    qed
    then obtain rb2 where "pipe_write_loop rb1 buf count n = Some (n, rb2)" "rb_inv rb2" "contents rb2 = contents rb1" by blast
    moreover have "pipe_write_loop rb buf count 0 = pipe_write_loop rb1 buf count n"
      using c g(1) n0 count_positive [OF small] by (subst pipe_write_loop.simps) simp
    ultimately show ?thesis using g(2,5) by simp
  qed
qed

section \<open>The pipe as a driver\<close>

lemma pipe_locked_idle:
  assumes i: "mutex_idle (pipe_lock pipe) c (ds_kernel d)"
    and f: "\<And>s. f (d\<lparr>ds_kernel := s\<rparr>) = Some (r, d\<lparr>ds_kernel := s, ds_driver := m\<rparr>)"
  shows "\<exists>s. pipe_locked pipe f d = Some (Return r, d\<lparr>ds_kernel := s, ds_driver := m\<rparr>) \<and> mutex_idle (pipe_lock pipe) c s \<and>
    k_obj s = k_obj (ds_kernel d)"
proof -
  from idle_take_release [OF i] obtain s1 s2 where
    "rt_mutex_take (pipe_lock pipe) RT_WAITING_FOREVER (ds_kernel d) = Some (Return RT_EOK, s1)"
    "rt_mutex_release (pipe_lock pipe) s1 = Some (RT_EOK, s2)" "mutex_idle (pipe_lock pipe) c s2" "k_obj s2 = k_obj (ds_kernel d)" by blast
  moreover have "d\<lparr>ds_driver := m, ds_kernel := s2\<rparr> = d\<lparr>ds_kernel := s2, ds_driver := m\<rparr>" by (rule dstate.equality) simp_all
  ultimately show ?thesis using f [of s1] by (auto simp: pipe_locked_def under_pipe_lock_def intro!: exI [of _ s2])
qed

lemma kept_pipe: "k_obj s = k_obj (ds_kernel d) \<Longrightarrow> dev_kept pipe b d (d\<lparr>ds_kernel := s, ds_driver := m\<rparr>)"
  by (simp add: dev_kept_def)

lemma pipe_stateE:
  assumes "pipe_state al pipe b d"
  obtains c p where "mutex_idle (pipe_lock pipe) c (ds_kernel d)" "allocator_ok al" "ds_driver d pipe = Some p" "8 \<le> unat (pp_bufsz p)"
    "case pp_fifo p of None \<Rightarrow> \<not> b | Some rb \<Rightarrow> b \<and> rb_inv rb"
  using assms unfolding pipe_state_def by blast

lemma pipe_openE:
  assumes "pipe_state al pipe True d"
  obtains c p rb where "mutex_idle (pipe_lock pipe) c (ds_kernel d)" "ds_driver d pipe = Some p" "pp_fifo p = Some rb" "rb_inv rb"
proof -
  from pipe_stateE [OF assms] obtain c p where p: "mutex_idle (pipe_lock pipe) c (ds_kernel d)" "ds_driver d pipe = Some p"
    "case pp_fifo p of None \<Rightarrow> False | Some rb \<Rightarrow> rb_inv rb" by (metis (no_types, lifting) option.case_eq_if)
  then show ?thesis using that by (cases "pp_fifo p") auto
qed

lemma upd_fifo_Some: "ds_driver d pipe = Some p \<Longrightarrow> upd_fifo pipe rb d = Some (d\<lparr>ds_driver := (ds_driver d)(pipe \<mapsto> p\<lparr>pp_fifo := rb\<rparr>)\<rparr>)"
  by (simp add: upd_fifo_def upd_def)

lemma pipe_errno:
  assumes "pipe_state al pipe b d"
  shows "\<exists>d'. on_kernel (rt_set_errno e) d = Some d' \<and> pipe_state al pipe b d' \<and> dev_kept dev True d d'"
proof -
  from pipe_stateE [OF assms] obtain c where i: "mutex_idle (pipe_lock pipe) c (ds_kernel d)" by blast
  then obtain th where t: "rt_current_thread (ds_kernel d) = Some c" "rt_interrupt_nest (ds_kernel d) = 0" "k_thread (ds_kernel d) c = Some th"
    by (auto simp: mutex_idle_def thread_context_def)
  let ?s = "(ds_kernel d)\<lparr>k_thread := (k_thread (ds_kernel d))(c \<mapsto> th\<lparr>th_error := e\<rparr>)\<rparr>"
  have "on_kernel (rt_set_errno e) d = Some (d\<lparr>ds_kernel := ?s\<rparr>)"
    using t by (simp add: on_kernel_def rt_set_errno_def rt_interrupt_get_nest_def rt_thread_self_def)
  moreover have "mutex_idle (pipe_lock pipe) c ?s" using i t by (auto simp: mutex_idle_def thread_context_def is_class_def)
  then have "pipe_state al pipe b (d\<lparr>ds_kernel := ?s\<rparr>)" using assms by (auto simp: pipe_state_def)
  moreover have "dev_kept dev True d (d\<lparr>ds_kernel := ?s\<rparr>)" by (simp add: dev_kept_def)
  ultimately show ?thesis by blast
qed

lemma create_ring:
  assumes "allocator_ok al" and "8 \<le> unat (n :: u16)"
  shows "\<exists>r. rt_ringbuffer_create (al_block al) (al_pool al) (ucast n) = Some r \<and>
    (case r of None \<Rightarrow> True | Some rb \<Rightarrow> rb_inv rb \<and> contents rb = [] \<and> unat (buffer_size rb) = 8 * (unat n div 8))"
proof -
  let ?n = "ucast n :: u32" and ?sz = "RT_ALIGN_DOWN (ucast n) 8 :: u32"
  have n16: "unat n < 65536" using unsigned_less [of n] by simp
  then have un: "unat ?n = unat n" by (simp add: unsigned_ucast_eq take_bit_word_eq_self take_bit_nat_eq_self)
  have usz: "unat ?sz = 8 * (unat n div 8)" using unat_RT_ALIGN_DOWN [of ?n] un by simp
  have pos: "0 < ?n" using un assms(2) by (auto simp: word_gt_0 simp flip: unat_eq_zero)
  have sz: "8 \<le> unat ?sz" "unat ?sz < 2 ^ 31" "8 * (unat ?sz div 8) = unat ?sz"
    using assms(2) n16 unfolding usz by auto
  show ?thesis
  proof (cases "al_block al \<and> al_pool al ?sz \<noteq> None")
    case False
    then show ?thesis using pos by (auto simp: rt_ringbuffer_create_def Let_def split: option.splits)
  next
    case True
    then obtain pool where p: "al_pool al ?sz = Some pool" by blast
    then have "length pool = 8 * (unat ?sz div 8)" using assms(1) sz(3) by (simp add: allocator_ok_def)
    from init_spec [OF sz(1,2) this] obtain rb where "rt_ringbuffer_init pool ?sz = Some rb" "rb_inv rb" "contents rb = []" "cap rb = unat ?sz"
      using sz(3) by auto
    then show ?thesis using True p pos usz by (simp add: rt_ringbuffer_create_def Let_def)
  qed
qed

lemma pipe_set:
  assumes "pipe_state al pipe b d" and "mutex_idle (pipe_lock pipe) c s" and "ds_driver d pipe = Some p"
    and "case rb of None \<Rightarrow> \<not> b' | Some r \<Rightarrow> b' \<and> rb_inv r"
  shows "pipe_state al pipe b' (d\<lparr>ds_kernel := s, ds_driver := (ds_driver d)(pipe \<mapsto> p\<lparr>pp_fifo := rb\<rparr>)\<rparr>)"
  using assms unfolding pipe_state_def by auto

lemma pipe_open:
  assumes st: "pipe_state al pipe b d"
  shows "\<exists>r d'. rt_pipe_open al (Some pipe) oflag d = Some (Return r, d') \<and> (r = RT_EOK \<or> r = - 5) \<and> pipe_state al pipe (b \<or> r = RT_EOK) d' \<and>
    dev_kept pipe True d d' \<and> (r = RT_EOK \<and> \<not> b \<longrightarrow> pipe_bytes pipe d' = [])"
proof -
  from pipe_stateE [OF st] obtain c p where p: "mutex_idle (pipe_lock pipe) c (ds_kernel d)" "allocator_ok al" "ds_driver d pipe = Some p"
    "8 \<le> unat (pp_bufsz p)" "case pp_fifo p of None \<Rightarrow> \<not> b | Some rb \<Rightarrow> b \<and> rb_inv rb" by blast
  show ?thesis
  proof (cases "pp_fifo p")
    case (Some rb)
    then have "\<And>s. pipe_open_locked al pipe (d\<lparr>ds_kernel := s\<rparr>) = Some (RT_EOK, d\<lparr>ds_kernel := s, ds_driver := ds_driver d\<rparr>)"
      using p(3) by (simp add: pipe_open_locked_def)
    from pipe_locked_idle [OF p(1) this] obtain s where
      s: "pipe_locked pipe (pipe_open_locked al pipe) d = Some (Return RT_EOK, d\<lparr>ds_kernel := s, ds_driver := ds_driver d\<rparr>)"
        "mutex_idle (pipe_lock pipe) c s" "k_obj s = k_obj (ds_kernel d)" by blast
    have "pipe_state al pipe b (d\<lparr>ds_kernel := s, ds_driver := ds_driver d\<rparr>)" using st s(2) by (auto simp: pipe_state_def)
    moreover have b using p(5) Some by simp
    ultimately show ?thesis using s kept_pipe [OF s(3), of pipe True "ds_driver d"] by (auto simp: rt_pipe_open_def)
  next
    case None
    from create_ring [OF p(2,4)] obtain r where r: "rt_ringbuffer_create (al_block al) (al_pool al) (ucast (pp_bufsz p)) = Some r"
      "case r of None \<Rightarrow> True | Some rb \<Rightarrow> rb_inv rb \<and> contents rb = []" by (auto split: option.splits)
    let ?m = "(ds_driver d)(pipe \<mapsto> p\<lparr>pp_fifo := r\<rparr>)" and ?r = "if r = None then - RT_ENOMEM else RT_EOK"
    have "\<And>s. pipe_open_locked al pipe (d\<lparr>ds_kernel := s\<rparr>) = Some (?r, d\<lparr>ds_kernel := s, ds_driver := ?m\<rparr>)"
      using p(3) None r(1) by (simp add: pipe_open_locked_def upd_fifo_Some)
    from pipe_locked_idle [OF p(1) this] obtain s where
      s: "pipe_locked pipe (pipe_open_locked al pipe) d = Some (Return ?r, d\<lparr>ds_kernel := s, ds_driver := ?m\<rparr>)"
        "mutex_idle (pipe_lock pipe) c s" "k_obj s = k_obj (ds_kernel d)" by blast
    have nb: "\<not> b" using p(5) None by simp
    have "pipe_state al pipe (r \<noteq> None) (d\<lparr>ds_kernel := s, ds_driver := ?m\<rparr>)"
      by (rule pipe_set [OF st s(2) p(3)]) (use r(2) in \<open>simp split: option.splits\<close>)
    then show ?thesis using s kept_pipe [OF s(3)] nb r(2) by (cases r) (auto simp: rt_pipe_open_def pipe_bytes_def)
  qed
qed

lemma pipe_close:
  assumes st: "pipe_state al pipe True d"
  shows "\<exists>d'. rt_pipe_close (Some pipe) d = Some (Return RT_EOK, d') \<and> pipe_state al pipe False d' \<and> dev_kept pipe True d d'"
proof -
  from pipe_openE [OF st] obtain c p rb where p: "mutex_idle (pipe_lock pipe) c (ds_kernel d)" "ds_driver d pipe = Some p" "pp_fifo p = Some rb" .
  let ?m = "(ds_driver d)(pipe \<mapsto> p\<lparr>pp_fifo := None\<rparr>)"
  have "\<And>s. pipe_close_locked pipe (d\<lparr>ds_kernel := s\<rparr>) = Some (RT_EOK, d\<lparr>ds_kernel := s, ds_driver := ?m\<rparr>)"
    using p by (simp add: pipe_close_locked_def upd_fifo_Some)
  from pipe_locked_idle [OF p(1) this] obtain s where
    s: "pipe_locked pipe (pipe_close_locked pipe) d = Some (Return RT_EOK, d\<lparr>ds_kernel := s, ds_driver := ?m\<rparr>)"
      "mutex_idle (pipe_lock pipe) c s" "k_obj s = k_obj (ds_kernel d)" by blast
  have "pipe_state al pipe False (d\<lparr>ds_kernel := s, ds_driver := ?m\<rparr>)" by (rule pipe_set [OF st s(2) p(2)]) simp
  then show ?thesis using s kept_pipe [OF s(3)] by (auto simp: rt_pipe_close_def)
qed

lemma pipe_read:
  assumes st: "pipe_state al pipe True d"
  shows "\<exists>n d'. rt_pipe_read (Some pipe) pos count d = Some (Return (n, take (unat count) (pipe_bytes pipe d)), d') \<and>
    pipe_state al pipe True d' \<and> dev_kept pipe True d d' \<and> unat n = min (length (pipe_bytes pipe d)) (unat count) \<and>
    pipe_bytes pipe d' = drop (unat count) (pipe_bytes pipe d)"
proof (cases "count = 0")
  case True
  then show ?thesis using st by (simp add: rt_pipe_read_def dev_kept_def)
next
  case False
  from pipe_openE [OF st] obtain c p rb where p: "mutex_idle (pipe_lock pipe) c (ds_kernel d)" "ds_driver d pipe = Some p" "pp_fifo p = Some rb"
    "rb_inv rb" .
  from read_loop [OF p(4), of count] obtain n rb' where l: "pipe_read_loop rb count 0 [] = Some (n, take (unat count) (contents rb), rb')"
    "rb_inv rb'" "unat n = min (length (contents rb)) (unat count)" "contents rb' = drop (unat count) (contents rb)" by blast
  let ?m = "(ds_driver d)(pipe \<mapsto> p\<lparr>pp_fifo := Some rb'\<rparr>)"
  have "\<And>s. pipe_read_locked pipe count (d\<lparr>ds_kernel := s\<rparr>) = Some ((n, take (unat count) (contents rb)), d\<lparr>ds_kernel := s, ds_driver := ?m\<rparr>)"
    using p l by (simp add: pipe_read_locked_def upd_fifo_Some)
  from pipe_locked_idle [OF p(1) this] obtain s where
    s: "pipe_locked pipe (pipe_read_locked pipe count) d = Some (Return (n, take (unat count) (contents rb)), d\<lparr>ds_kernel := s, ds_driver := ?m\<rparr>)"
      "mutex_idle (pipe_lock pipe) c s" "k_obj s = k_obj (ds_kernel d)" by blast
  have "pipe_state al pipe True (d\<lparr>ds_kernel := s, ds_driver := ?m\<rparr>)" by (rule pipe_set [OF st s(2) p(2)]) (simp add: l(2))
  moreover have "pipe_bytes pipe d = contents rb" using p by (simp add: pipe_bytes_def)
  ultimately show ?thesis using s kept_pipe [OF s(3)] l(3,4) False by (auto simp: rt_pipe_read_def pipe_bytes_def)
qed

lemma pipe_write:
  assumes st: "pipe_state al pipe True d" and len: "unat count \<le> length buf"
  shows "\<exists>n d'. rt_pipe_write (Some pipe) pos buf count d = Some (Return n, d') \<and>
    pipe_state al pipe True d' \<and> dev_kept pipe True d d' \<and> unat n = min (pipe_room pipe d) (unat count) \<and>
    pipe_bytes pipe d' = pipe_bytes pipe d @ take (min (pipe_room pipe d) (unat count)) buf"
proof (cases "count = 0")
  case True
  then show ?thesis using st by (simp add: rt_pipe_write_def dev_kept_def)
next
  case False
  from pipe_openE [OF st] obtain c p rb where p: "mutex_idle (pipe_lock pipe) c (ds_kernel d)" "ds_driver d pipe = Some p" "pp_fifo p = Some rb"
    "rb_inv rb" .
  let ?k = "min (unat (buffer_size rb) - length (contents rb)) (unat count)"
  from write_loop [OF p(4) len] obtain n rb' where l: "pipe_write_loop rb buf count 0 = Some (n, rb')"
    "rb_inv rb'" "unat n = ?k" "contents rb' = contents rb @ take ?k buf" by blast
  let ?m = "(ds_driver d)(pipe \<mapsto> p\<lparr>pp_fifo := Some rb'\<rparr>)"
  have "\<And>s. pipe_write_locked pipe buf count (d\<lparr>ds_kernel := s\<rparr>) = Some (n, d\<lparr>ds_kernel := s, ds_driver := ?m\<rparr>)"
    using p l by (simp add: pipe_write_locked_def upd_fifo_Some)
  from pipe_locked_idle [OF p(1) this] obtain s where
    s: "pipe_locked pipe (pipe_write_locked pipe buf count) d = Some (Return n, d\<lparr>ds_kernel := s, ds_driver := ?m\<rparr>)"
      "mutex_idle (pipe_lock pipe) c s" "k_obj s = k_obj (ds_kernel d)" by blast
  have "pipe_state al pipe True (d\<lparr>ds_kernel := s, ds_driver := ?m\<rparr>)" by (rule pipe_set [OF st s(2) p(2)]) (simp add: l(2))
  moreover have "pipe_bytes pipe d = contents rb" "pipe_room pipe d = unat (buffer_size rb) - length (contents rb)"
    using p by (simp_all add: pipe_bytes_def pipe_room_def)
  ultimately show ?thesis using s kept_pipe [OF s(3)] l(3,4) False by (auto simp: rt_pipe_write_def pipe_bytes_def)
qed

interpretation pipe: device_driver "pipe_ops al pipe" pipe "pipe_state al pipe" for al pipe
proof
  fix b and d :: "pipes dstate" and x e
  assume st: "pipe_state al pipe b d"
  then show "pipe_state al pipe b (d\<lparr>ds_dev := (ds_dev d)(pipe \<mapsto> x)\<rparr>)" by (auto simp: pipe_state_def)
  show "\<exists>d'. on_kernel (rt_set_errno e) d = Some d' \<and> pipe_state al pipe b d' \<and> dev_kept pipe True d d'" by (rule pipe_errno [OF st])
next
  fix b and d :: "pipes dstate" and open' and oflag
  assume "pipe_state al pipe b d" and "device_open (pipe_ops al pipe) = Some open'"
  with pipe_open [of al pipe b d oflag] obtain r d' where o: "open' oflag d = Some (Return r, d')" "r = RT_EOK \<or> r = - 5"
    "pipe_state al pipe (b \<or> r = RT_EOK) d'" "dev_kept pipe True d d'" by (auto simp: pipe_ops_def)
  then have "if r = RT_EOK \<or> r = - RT_ENOSYS then pipe_state al pipe True d' \<and> dev_kept pipe False d d'
      else pipe_state al pipe b d' \<and> dev_kept pipe True d d'" using dev_kept_weaken [OF o(4)] by auto
  with o(1) show "\<exists>r d'. open' oflag d = Some (Return r, d') \<and> (if r = RT_EOK \<or> r = - RT_ENOSYS
      then pipe_state al pipe True d' \<and> dev_kept pipe False d d' else pipe_state al pipe b d' \<and> dev_kept pipe True d d')" by blast
next
  fix d :: "pipes dstate" and close
  assume "pipe_state al pipe True d" and "device_close (pipe_ops al pipe) = Some close"
  with pipe_close [of al pipe d] dev_kept_weaken show "\<exists>r d'. close d = Some (Return r, d') \<and> (r = RT_EOK \<or> r = - RT_ENOSYS) \<and>
      pipe_state al pipe False d' \<and> dev_kept pipe False d d'" by (fastforce simp: pipe_ops_def)
next
  fix d :: "pipes dstate" and read pos sz
  assume "pipe_state al pipe True d" and "device_read (pipe_ops al pipe) = Some read"
  with pipe_read [of al pipe d pos sz] show "\<exists>r d'. read pos sz d = Some (Return r, d') \<and> pipe_state al pipe True d' \<and> dev_kept pipe True d d'"
    by (auto simp: pipe_ops_def)
next
  fix d :: "pipes dstate" and w and pos sz :: u32 and buffer :: "u8 list"
  assume "pipe_state al pipe True d" and "device_write (pipe_ops al pipe) = Some w" and "unat sz \<le> length buffer"
  with pipe_write [of al pipe d sz buffer pos]
  show "\<exists>r d'. w pos buffer sz d = Some (Return r, d') \<and> pipe_state al pipe True d' \<and> dev_kept pipe True d d'" by (auto simp: pipe_ops_def)
qed (auto simp: pipe_ops_def rt_pipe_control_def dev_kept_def)

section \<open>An open pipe as a queue\<close>

definition pipe_put :: "allocator \<Rightarrow> addr \<Rightarrow> pipes dstate \<Rightarrow> u8 list \<Rightarrow> (nat \<times> pipes dstate) option" where
  "pipe_put al pipe d xs = do {
    (r, d) \<leftarrow> rt_device_write (pipe_ops al pipe) pipe 0 xs (of_nat (length xs)) d;
    case r of Blocked \<Rightarrow> None | Return n \<Rightarrow> Some (unat n, d) }"

definition pipe_get :: "allocator \<Rightarrow> addr \<Rightarrow> pipes dstate \<Rightarrow> nat \<Rightarrow> (u8 list \<times> pipes dstate) option" where
  "pipe_get al pipe d n = do {
    (r, d) \<leftarrow> rt_device_read (pipe_ops al pipe) pipe 0 (of_nat n) d;
    case r of Blocked \<Rightarrow> None | Return (_, xs) \<Rightarrow> Some (xs, d) }"

definition pipe_opened :: "allocator \<Rightarrow> addr \<Rightarrow> pipes dstate \<Rightarrow> bool" where
  "pipe_opened al pipe d \<longleftrightarrow> dev_inv pipe (pipe_state al pipe) d \<and> users pipe d \<noteq> 0"

lemma pipe_openedE:
  assumes "pipe_opened al pipe d"
  obtains x where "dev_inv pipe (pipe_state al pipe) d" "users pipe d \<noteq> 0" "dev_ready pipe d" "pipe_state al pipe True d"
    "ds_dev d pipe = Some x" "dev_ref_count x \<noteq> 0"
proof -
  have d: "dev_inv pipe (pipe_state al pipe) d" "users pipe d \<noteq> 0" "dev_ready pipe d" "pipe_state al pipe True d"
    using assms unfolding pipe_opened_def dev_inv_def by (blast, blast, blast, metis)
  then obtain x where "ds_dev d pipe = Some x" by (auto simp: dev_ready_def)
  moreover from this have "dev_ref_count x \<noteq> 0" using d(2) by (auto simp: users_def)
  ultimately show ?thesis using that d by blast
qed

interpretation pipe_fifo: bounded_fifo "pipe_opened al pipe" "pipe_bytes pipe" "pipe_room pipe" "2 ^ 32" "pipe_put al pipe" "pipe_get al pipe"
  for al pipe
proof
  fix d :: "pipes dstate" and xs :: "u8 list"
  assume o: "pipe_opened al pipe d" and l: "length xs < 2 ^ 32"
  note u = unat_of_nat_32 [OF l]
  from pipe_openedE [OF o] obtain x where d: "dev_inv pipe (pipe_state al pipe) d" "users pipe d \<noteq> 0" "dev_ready pipe d" "pipe_state al pipe True d"
    "ds_dev d pipe = Some x" "dev_ref_count x \<noteq> 0" .
  from pipe_write [OF d(4), of "of_nat (length xs)" xs 0] u obtain n d' where
    w: "rt_pipe_write (Some pipe) 0 xs (of_nat (length xs)) d = Some (Return n, d')" "pipe_state al pipe True d'" "dev_kept pipe True d d'"
      "unat n = min (pipe_room pipe d) (length xs)" "pipe_bytes pipe d' = pipe_bytes pipe d @ take (min (pipe_room pipe d) (length xs)) xs" by auto
  have "pipe_opened al pipe d'" using pipe.inv_kept [OF d(1) w(3)] w(2) d(2) by (simp add: pipe_opened_def)
  moreover have "take (min (pipe_room pipe d) (length xs)) xs = take (pipe_room pipe d) xs" by (simp add: min_def)
  ultimately show "\<exists>d'. pipe_put al pipe d xs = Some (min (pipe_room pipe d) (length xs), d') \<and> pipe_opened al pipe d' \<and>
      pipe_bytes pipe d' = pipe_bytes pipe d @ take (pipe_room pipe d) xs"
    using w d by (simp add: pipe_put_def rt_device_write_def pipe_ops_def)
next
  fix d :: "pipes dstate" and n :: nat
  assume o: "pipe_opened al pipe d" and l: "n < 2 ^ 32"
  note u = unat_of_nat_32 [OF l]
  from pipe_openedE [OF o] obtain x where d: "dev_inv pipe (pipe_state al pipe) d" "users pipe d \<noteq> 0" "dev_ready pipe d" "pipe_state al pipe True d"
    "ds_dev d pipe = Some x" "dev_ref_count x \<noteq> 0" .
  from pipe_read [OF d(4), of 0 "of_nat n"] u obtain k d' where
    r: "rt_pipe_read (Some pipe) 0 (of_nat n) d = Some (Return (k, take n (pipe_bytes pipe d)), d')" "pipe_state al pipe True d'"
      "dev_kept pipe True d d'" "pipe_bytes pipe d' = drop n (pipe_bytes pipe d)" by auto
  have "pipe_opened al pipe d'" using pipe.inv_kept [OF d(1) r(3)] r(2) d(2) by (simp add: pipe_opened_def)
  then show "\<exists>d'. pipe_get al pipe d n = Some (take n (pipe_bytes pipe d), d') \<and> pipe_opened al pipe d' \<and>
      pipe_bytes pipe d' = drop n (pipe_bytes pipe d)"
    using r d by (simp add: pipe_get_def rt_device_read_def pipe_ops_def)
qed

section \<open>Properties\<close>

lemma open_done_driver: "device_open_done dev r d = Some (Return r', d') \<Longrightarrow> r' = r \<and> ds_driver d' = ds_driver d"
  by (auto simp: device_open_done_def upd_dev_def Option.bind_eq_Some_conv split: if_splits)

lemma active_empty:
  assumes inv: "dev_inv pipe (pipe_state al pipe) d" and u: "users pipe d = 0"
    and r: "device_open_active (pipe_ops al pipe) pipe oflag d = Some (Return r, d1)"
  shows "(r = RT_EOK \<longrightarrow> pipe_bytes pipe d1 = []) \<and> (r = RT_EOK \<or> r = - RT_ENOMEM)"
proof -
  from inv u obtain x where x: "ds_dev d pipe = Some x" "\<not> opened x" "pipe_state al pipe False d" by (auto simp: dev_inv_def dev_ready_def)
  from pipe_open [OF x(3), of oflag] obtain r' d' where o: "rt_pipe_open al (Some pipe) oflag d = Some (Return r', d')"
    "r' = RT_EOK \<or> r' = - 5" "r' = RT_EOK \<longrightarrow> pipe_bytes pipe d' = []" by auto
  then have "device_open_done pipe r' d' = Some (Return r, d1)" using r x(1,2) by (simp add: device_open_active_def pipe_ops_def after_call_def)
  then have "r' = r" "pipe_bytes pipe d1 = pipe_bytes pipe d'" using open_done_driver [of pipe r' d' r d1] by (simp_all add: pipe_bytes_def)
  then show ?thesis using o by auto
qed

lemma open_empty:
  assumes inv: "dev_inv pipe (pipe_state al pipe) d" and u: "users pipe d = 0"
    and r: "rt_device_open (pipe_ops al pipe) pipe oflag d = Some (Return r, d1)"
  shows "(r = RT_EOK \<longrightarrow> pipe_bytes pipe d1 = []) \<and> (r = RT_EOK \<or> r = - RT_ENOMEM)"
proof -
  from inv obtain x where x: "ds_dev d pipe = Some x" "dev_ready pipe d" by (auto simp: dev_inv_def dev_ready_def)
  let ?d = "d\<lparr>ds_dev := (ds_dev d)(pipe \<mapsto> set_activated x)\<rparr>"
  have i: "dev_inv pipe (pipe_state al pipe) ?d" "users pipe ?d = 0" using pipe.inv_upd [OF inv x(1), of "set_activated x"] u x(1) by (simp_all add: users_def)
  have "device_open_active (pipe_ops al pipe) pipe oflag (if activated x then d else ?d) = Some (Return r, d1)"
    using r x by (auto simp: rt_device_open_def device_open_init_done_def pipe_ops_def upd_dev_Some)
  then show ?thesis using active_empty [OF inv u] active_empty [OF i] by (auto split: if_splits)
qed

text \<open>C36. The first open of a pipe, through the device layer, either reports that there is no memory and leaves the pipe
  closed, or makes it an empty queue with one user. Whatever then is written to it with \<open>rt_device_write\<close> and read from it
  with \<open>rt_device_read\<close>, no call fails or blocks as long as the lock is free, and the bytes accepted are, in order, the bytes
  handed out plus the bytes still in the pipe.\<close>

theorem rt_pipe_stream:
  assumes "dev_inv pipe (pipe_state al pipe) d" and "users pipe d = 0" and "list_all (call_ok (2 ^ 32)) cs"
  shows "\<exists>r d1. rt_device_open (pipe_ops al pipe) pipe oflag d = Some (Return r, d1) \<and>
    (if r = RT_EOK then users pipe d1 = 1 \<and> (\<exists>acc out d2. fifo_run (pipe_put al pipe) (pipe_get al pipe) cs d1 = Some (acc, out, d2) \<and>
        acc = out @ pipe_bytes pipe d2)
     else r = - RT_ENOMEM \<and> users pipe d1 = 0 \<and> dev_inv pipe (pipe_state al pipe) d1)"
proof -
  from pipe.open_inv [OF assms(1), of oflag] assms(2) obtain r d1 where
    o: "rt_device_open (pipe_ops al pipe) pipe oflag d = Some (Return r, d1)" "dev_inv pipe (pipe_state al pipe) d1"
      "users pipe d1 = users_after (Dev_open oflag) r 0" by auto
  note e = open_empty [OF assms(1,2) o(1)]
  show ?thesis
  proof (cases "r = RT_EOK")
    case True
    then have "pipe_opened al pipe d1" using o by (simp add: pipe_opened_def)
    from pipe_fifo.stream [OF this assms(3)] obtain acc out d2 where
      "fifo_run (pipe_put al pipe) (pipe_get al pipe) cs d1 = Some (acc, out, d2)" "pipe_bytes pipe d1 @ acc = out @ pipe_bytes pipe d2" by blast
    then show ?thesis using o True e by auto
  next
    case False
    then show ?thesis using o e by auto
  qed
qed

definition ex_allocator :: allocator where
  "ex_allocator = \<lparr>al_block = True, al_pool = (\<lambda>sz. Some (replicate (unat sz) 0))\<rparr>"

text \<open>A closed pipe of 16 bytes.\<close>

definition ex_pipe :: "pipes dstate" where
  "ex_pipe = \<lparr>ds_kernel = ex_timed\<lparr>k_obj := (k_obj ex_timed)(Obj 0x500 \<mapsto> \<lparr>obj_name = [0x70, 0, 0, 0, 0, 0, 0, 0], obj_type = 0x89, obj_flag = 0\<rparr>,
        Obj 0x570 \<mapsto> \<lparr>obj_name = [0x70, 0, 0, 0, 0, 0, 0, 0], obj_type = 0x83, obj_flag = 0\<rparr>),
      k_mutex := [0x570 \<mapsto> \<lparr>mtx_ceiling_priority = 0xff, mtx_priority = 0xff, mtx_hold = 0, mtx_owner = None\<rparr>]\<rparr>,
    ds_dev = [0x500 \<mapsto> ex_device\<lparr>dev_type := RT_Device_Class_Pipe, dev_flag := 7\<rparr>],
    ds_driver = [0x500 \<mapsto> \<lparr>pp_is_named = True, pp_fifo = None, pp_bufsz = 16, pp_reader_queue = rt_wqueue_init, pp_writer_queue = rt_wqueue_init,
      pp_writer = 0, pp_reader = 0\<rparr>]\<rparr>"

lemma ex_pipe_inv: "dev_inv 0x500 (pipe_state ex_allocator 0x500) ex_pipe" "users 0x500 ex_pipe = 0"
proof -
  have "is_class (Obj 0x570) RT_Object_Class_Mutex (ds_kernel ex_pipe)" by (simp add: is_class_def ex_pipe_def)
  then have "mutex_idle (pipe_lock 0x500) 10 (ds_kernel ex_pipe)"
    by (simp add: mutex_idle_def pipe_lock_def ex_pipe_def thread_context_def ex_timed_def ex_state_def init_kstate_def ex_thread_def state_of_def)
  then have "pipe_state ex_allocator 0x500 False ex_pipe" by (auto simp: pipe_state_def allocator_ok_def ex_allocator_def ex_pipe_def)
  moreover show "users 0x500 ex_pipe = 0" by (simp add: users_def ex_pipe_def ex_device_def)
  moreover have "dev_ready 0x500 ex_pipe" by (simp add: dev_ready_def is_class_def ex_pipe_def)
  ultimately show "dev_inv 0x500 (pipe_state ex_allocator 0x500) ex_pipe"
    by (simp add: dev_inv_def) (simp add: ex_pipe_def ex_device_def opened_def)
qed

lemma rt_pipe_stream_witness:
  "\<exists>r d1. rt_device_open (pipe_ops ex_allocator 0x500) 0x500 3 ex_pipe = Some (Return r, d1) \<and>
    (if r = RT_EOK then users 0x500 d1 = 1 \<and> (\<exists>acc out d2. fifo_run (pipe_put ex_allocator 0x500) (pipe_get ex_allocator 0x500) [Put [1, 2, 3], Get 2] d1 =
        Some (acc, out, d2) \<and> acc = out @ pipe_bytes 0x500 d2)
     else r = - RT_ENOMEM)"
  using rt_pipe_stream [OF ex_pipe_inv, of "[Put [1, 2, 3], Get 2]" 3] by (auto split: if_splits)

lemma rt_device_users_witness:
  "\<exists>rs d'. dev_run (pipe_ops ex_allocator 0x500) 0x500 [Dev_open 3, Dev_open 3, Dev_close] ex_pipe = Some (rs, d') \<and>
    users 0x500 d' = users_run [Dev_open 3, Dev_open 3, Dev_close] rs 0"
  using rt_device_users [OF pipe.device_driver_axioms ex_pipe_inv(1), of "[Dev_open 3, Dev_open 3, Dev_close]"] ex_pipe_inv(2) by auto

end
