(* ===== verification/StartUp.thy ===== *)
theory StartUp
  imports Thread HeapFront
begin

text \<open>
  Start-up: \<open>rt-thread/src/components.c\<close> and the kernel's part of \<open>board/board.c\<close>. The drivers that the
  board sets up, the console and the initialisation functions that the linker collects are the
  parameter \<open>drivers\<close>; the addresses of the stacks and entries, and the memory of the main thread, are
  parameters as in the creation of a thread.
\<close>

section \<open>The board\<close>

definition SysTick_Handler :: "(nat \<Rightarrow> addr \<Rightarrow> kstate \<Rightarrow> kstate option) \<Rightarrow> kstate \<Rightarrow> kstate option" where
  "SysTick_Handler user s = do {
    let s = rt_interrupt_enter s;
    s \<leftarrow> rt_tick_increase user s;
    Some (rt_interrupt_leave s) }"

definition rt_hw_board_init :: "u32 \<Rightarrow> u32 \<Rightarrow> (kstate \<Rightarrow> heap \<Rightarrow> (kstate \<times> heap) option) \<Rightarrow> kstate \<Rightarrow> heap \<Rightarrow> (kstate \<times> heap) option" where
  "rt_hw_board_init heap_begin heap_end drivers s h = do {
    (s, h) \<leftarrow> rt_system_heap_init heap_begin heap_end s h;
    drivers s h }"

section \<open>The first threads\<close>

definition rt_application_init :: "addr option \<Rightarrow> u32 option \<Rightarrow> u32 \<Rightarrow> kstate \<Rightarrow> kstate option" where
  "rt_application_init mem stack_mem main_entry s = do {
    (tid, s) \<leftarrow> rt_thread_create mem stack_mem [0x6d, 0x61, 0x69, 0x6e, 0] main_entry 0 2048 10 20 s;
    tid \<leftarrow> tid;
    (_, s) \<leftarrow> rt_thread_startup tid s;
    Some s }"

text \<open>Stack and entry of a thread of the kernel.\<close>

record boot_image =
  bi_heap_begin :: u32
  bi_heap_end :: u32
  bi_main :: "addr option"
  bi_main_stack :: "u32 option"
  bi_main_entry :: u32
  bi_timer_stack :: u32
  bi_timer_entry :: u32
  bi_idle_stack :: u32
  bi_idle_entry :: u32

definition rtthread_startup :: "boot_image \<Rightarrow> (kstate \<Rightarrow> heap \<Rightarrow> (kstate \<times> heap) option) \<Rightarrow> kstate \<Rightarrow> heap \<Rightarrow> (kstate \<times> heap) option" where
  "rtthread_startup bi drivers s h = do {
    (s, h) \<leftarrow> rt_hw_board_init (bi_heap_begin bi) (bi_heap_end bi) drivers s h;
    let s = rt_system_timer_init s;
    let s = rt_system_scheduler_init s;
    s \<leftarrow> rt_application_init (bi_main bi) (bi_main_stack bi) (bi_main_entry bi) s;
    s \<leftarrow> rt_system_timer_thread_init (bi_timer_stack bi) (bi_timer_entry bi) s;
    s \<leftarrow> rt_thread_idle_init (bi_idle_stack bi) (bi_idle_entry bi) s;
    s \<leftarrow> rt_system_scheduler_start s;
    Some (s, h) }"

end
