(* ===== verification/StartUpProps.thy ===== *)
theory StartUpProps
  imports StartUp ThreadStart ThreadSleep
begin

text \<open>
  Start-up establishes the well-formedness of the kernel that every operation keeps, and hands the
  processor to the main thread.
\<close>

section \<open>Before the scheduler runs\<close>

text \<open>A kernel without threads, as after a reset: nothing in any list, no thread runs.\<close>

definition bare :: "kstate \<Rightarrow> bool" where
  "bare s \<longleftrightarrow> k_thread s = Map.empty \<and> k_timer s = Map.empty \<and> k_list s = (\<lambda>_. []) \<and> k_timers s = (\<lambda>_. []) \<and>
    (\<forall>t. k_obj s (ThreadTimer t) = None) \<and> rt_current_thread s = None \<and> rt_scheduler_lock_nest s = 0 \<and> rt_interrupt_nest s = 0"

text \<open>The threads of \<open>P\<close> are ready at these priorities, and no other thread is there.\<close>

definition booting :: "(addr \<Rightarrow> nat option) \<Rightarrow> kstate \<Rightarrow> bool" where
  "booting P s \<longleftrightarrow> kwf s \<and> rt_current_thread s = None \<and> rt_scheduler_lock_nest s = 0 \<and> rt_interrupt_nest s = 0 \<and>
    (\<forall>l. k_timers s l = []) \<and>
    (\<forall>t. case k_thread s t of None \<Rightarrow> P t = None | Some th \<Rightarrow> P t = Some (prio th) \<and> th_stat th = RT_THREAD_READY)"

text \<open>A place for a thread object.\<close>

definition spare :: "addr \<Rightarrow> kstate \<Rightarrow> bool" where
  "spare t s \<longleftrightarrow> fresh t RT_Object_Class_Thread s \<and> k_obj s (ThreadTimer t) = None \<and> ThreadTimer t \<notin> set (k_container s RT_Object_Class_Timer)"

lemma bare_kwf: "bare s \<Longrightarrow> rt_thread_ready_priority_group s = 0 \<Longrightarrow> kwf s"
  by (simp add: bare_def kwf_def kinv_def sched_inv_def inv_out_def separate_def threads_wf_def stacks_ok_def timers_wf_def thread_timers_def armed_ok_def)

lemma bare_booting:
  assumes "bare s"
  shows "booting Map.empty (rt_system_scheduler_init (rt_system_timer_init s))"
proof -
  let ?s = "rt_system_scheduler_init (rt_system_timer_init s)"
  have "bare ?s"
    using assms by (auto simp: bare_def rt_system_scheduler_init_def rt_system_timer_init_def fun_eq_iff split: lhead.split)
  moreover from this have "kwf ?s" by (rule bare_kwf) (simp add: rt_system_scheduler_init_def)
  ultimately show ?thesis by (simp add: booting_def bare_def)
qed

lemma critical_idle:
  "rt_current_thread s = None \<Longrightarrow> rt_scheduler_lock_nest s = 0 \<Longrightarrow> rt_exit_critical (rt_enter_critical s) = Some s"
  by (simp add: rt_exit_critical_def rt_enter_critical_def Let_def)

text \<open>Registering the header keeps the threads.\<close>

lemma booting_header:
  assumes b: "booting P s" and f: "spare t s" and h: "obj_type h AND NOT RT_Object_Class_Static = RT_Object_Class_Thread"
  defines "s' \<equiv> container_insert RT_Object_Class_Thread (Obj t) (s\<lparr>k_obj := (k_obj s)(Obj t \<mapsto> h)\<rparr>)"
  shows "booting P s'" "is_class (Obj t) RT_Object_Class_Thread s'"
    "P t = None \<Longrightarrow> unused_timer t s'" "\<And>u. u \<noteq> t \<Longrightarrow> spare u s \<Longrightarrow> spare u s'"
proof -
  have e: "k_obj s' = (k_obj s)(Obj t \<mapsto> h)" "k_thread s' = k_thread s" "k_timer s' = k_timer s" "k_list s' = k_list s" "k_timers s' = k_timers s"
    "rt_thread_ready_priority_group s' = rt_thread_ready_priority_group s" "rt_current_thread s' = rt_current_thread s"
    "rt_scheduler_lock_nest s' = rt_scheduler_lock_nest s" "rt_interrupt_nest s' = rt_interrupt_nest s"
    "k_container s' = al_head RT_Object_Class_Thread (Obj t) (k_container s)"
    by (simp_all add: s'_def container_insert_def)
  have "kwf s'" by (rule kwf_new_object [OF _ _ e(1-7)]) (use b f in \<open>auto simp: booting_def spare_def ObjectProps.fresh_def\<close>)
  then show "booting P s'" using b e unfolding booting_def by simp
  show "is_class (Obj t) RT_Object_Class_Thread s'" using h by (simp add: is_class_def e(1))
  show "unused_timer t s'" if "P t = None"
    using b f that e by (auto simp: booting_def spare_def unused_timer_def al_head_def dest: spec [of _ t] split: option.splits)
  show "spare u s'" if "u \<noteq> t" "spare u s" for u using that e by (auto simp: spare_def ObjectProps.fresh_def al_head_def)
qed

text \<open>Initialising and starting a thread makes it ready.\<close>

lemma boot_thread:
  assumes b: "booting P s" and cl: "is_class (Obj t) RT_Object_Class_Thread s" and un: "unused_timer t s"
    and st: "80 \<le> unat sz" "unat a + unat sz < 2 ^ 32" and pr: "unat pr < 32"
  shows "\<exists>s1 s2. thread_init t entry param a sz pr tick s = Some (RT_EOK, s1) \<and> rt_thread_startup t s1 = Some (RT_EOK, s2) \<and>
    booting (P(t \<mapsto> unat pr)) s2 \<and> (\<forall>u. u \<noteq> t \<longrightarrow> spare u s \<longrightarrow> spare u s2)"
proof -
  let ?h = "new_thread entry param a sz pr tick"
  let ?s2 = "with_thread t ?h s"
  have b': "kwf s" "rt_current_thread s = None" "rt_scheduler_lock_nest s = 0" "\<And>l. k_timers s l = []" using b by (simp_all add: booting_def)
  have nt: "k_thread s t = None" using un by (simp add: unused_timer_def)
  have ok: "prio_ok ?h" "state_ok q t ?h" "stack_ok ?h" for q using new_thread_ok pr new_thread_stack [OF st] by simp_all
  have c: "rt_exit_critical (rt_enter_critical ?s2) = Some ?s2" using b' by (intro critical_idle) (simp_all add: with_thread_def)
  have "rt_current_thread ?s2 = rt_current_thread s" by (simp add: with_thread_def)
  from thread_init_with [OF b'(1) cl un st pr c with_thread_inv(1) [OF b'(1) nt ok] sched_frame_refl disjI1 [OF this]] obtain s1 where
    s1: "thread_init t entry param a sz pr tick s = Some (RT_EOK, s1)" "initialised t ?h s1" "rt_current_thread s1 = None"
      "rt_scheduler_lock_nest s1 = 0" "rt_interrupt_nest s1 = rt_interrupt_nest s" "k_thread s1 = (k_thread s)(t \<mapsto> ?h)" "\<And>l. k_timers s1 l = []"
      "\<And>x. x \<noteq> ThreadTimer t \<Longrightarrow> k_obj s1 x = k_obj s x" "k_container s1 = al_head RT_Object_Class_Timer (ThreadTimer t) (k_container s)"
    using b' by (auto simp: with_thread_def)
  from startup_resumed [OF s1(2) _ ok(1)] s1(3,4) obtain s2 where
    s2: "rt_thread_startup t s1 = Some (RT_EOK, s2)" "kwf s2" "rt_current_thread s2 = None" "rt_scheduler_lock_nest s2 = 0"
      "rt_interrupt_nest s2 = rt_interrupt_nest s1" "k_container s2 = k_container s1"
      "k_thread s2 = (k_thread s1)(t \<mapsto> set_state RT_THREAD_READY (?h\<lparr>th_number_mask := prio_bit ?h, th_stat := RT_THREAD_SUSPEND\<rparr>))"
      "\<forall>x. x \<noteq> ThreadTimer t \<longrightarrow> k_obj s2 x = k_obj s1 x" "\<forall>l. k_timers s1 l = [] \<longrightarrow> k_timers s2 l = []" by auto
  let ?g = "set_state RT_THREAD_READY (?h\<lparr>th_number_mask := prio_bit ?h, th_stat := RT_THREAD_SUSPEND\<rparr>)"
  have g: "prio ?g = unat pr" "th_stat ?g = RT_THREAD_READY" by (simp_all add: set_state_def prio_def new_thread_def)
  have "case k_thread s2 u of None \<Rightarrow> (P(t \<mapsto> unat pr)) u = None
      | Some th \<Rightarrow> (P(t \<mapsto> unat pr)) u = Some (prio th) \<and> th_stat th = RT_THREAD_READY" for u
  proof (cases "u = t")
    case True
    then show ?thesis using s2(7) g by simp
  next
    case False
    then have "k_thread s2 u = k_thread s u" using s1(6) s2(7) by simp
    moreover have "case k_thread s u of None \<Rightarrow> P u = None | Some th \<Rightarrow> P u = Some (prio th) \<and> th_stat th = RT_THREAD_READY"
      using b by (simp add: booting_def)
    ultimately show ?thesis using False by (cases "k_thread s u") simp_all
  qed
  moreover have "rt_interrupt_nest s = 0" using b by (simp add: booting_def)
  ultimately have "booting (P(t \<mapsto> unat pr)) s2" using s1(5,7) s2(2-5,9) by (simp add: booting_def)
  moreover have "spare u s2" if "u \<noteq> t" "spare u s" for u
    using that s1(8,9) s2(6,8) by (auto simp: spare_def ObjectProps.fresh_def al_head_def)
  ultimately show ?thesis using s1(1) s2(1) by blast
qed

lemma booting_fresh: "booting P s \<Longrightarrow> k_thread s t = None \<Longrightarrow> P t = None"
  by (auto simp: booting_def dest: spec [of _ t])

lemma boot_init:
  assumes b: "booting P s" and p: "P t = None" and f: "spare t s"
    and st: "a \<noteq> 0" "80 \<le> unat sz" "unat a + unat sz < 2 ^ 32" and pr: "unat pr < 32"
  shows "\<exists>s1 s2. rt_thread_init t nm entry param a sz pr tick s = Some (RT_EOK, s1) \<and> rt_thread_startup t s1 = Some (RT_EOK, s2) \<and>
    booting (P(t \<mapsto> unat pr)) s2 \<and> (\<forall>u. u \<noteq> t \<longrightarrow> spare u s \<longrightarrow> spare u s2)"
proof -
  let ?h = "\<lparr>obj_name = copy_name nm, obj_type = 0x81, obj_flag = k_stale s (Obj t)\<rparr>"
  note hd = booting_header [OF b f, of ?h, simplified]
  let ?s = "container_insert 1 (Obj t) (s\<lparr>k_obj := (k_obj s)(Obj t \<mapsto> ?h)\<rparr>)"
  have "rt_exit_critical (rt_enter_critical s) = Some s" using b by (intro critical_idle) (simp_all add: booting_def)
  moreover have "k_container (rt_enter_critical s) = k_container s" by (simp add: rt_enter_critical_def)
  ultimately have "rt_object_init (Obj t) 1 nm s = Some ?s"
    using f information_known [of 1] by (simp add: rt_object_init_def spare_def ObjectProps.fresh_def Let_def)
  moreover from boot_thread [OF hd(1,2) hd(3) [OF p] st(2,3) pr] obtain s1 s2 where
    "thread_init t entry param a sz pr tick ?s = Some (RT_EOK, s1)" "rt_thread_startup t s1 = Some (RT_EOK, s2)"
    "booting (P(t \<mapsto> unat pr)) s2" "\<forall>u. u \<noteq> t \<longrightarrow> spare u ?s \<longrightarrow> spare u s2" by blast
  ultimately show ?thesis using st(1) hd(4) by (auto simp: rt_thread_init_def)
qed

lemma boot_create:
  assumes b: "booting P s" and p: "P t = None" and f: "spare t s"
    and st: "80 \<le> unat sz" "unat a + unat sz < 2 ^ 32" and pr: "unat pr < 32"
  shows "\<exists>s1 s2. rt_thread_create (Some t) (Some a) nm entry param sz pr tick s = Some (Some t, s1) \<and>
    rt_thread_startup t s1 = Some (RT_EOK, s2) \<and> booting (P(t \<mapsto> unat pr)) s2 \<and> (\<forall>u. u \<noteq> t \<longrightarrow> spare u s \<longrightarrow> spare u s2)"
proof -
  let ?h = "\<lparr>obj_name = copy_name nm, obj_type = 1, obj_flag = 0\<rparr>"
  note hd = booting_header [OF b f, of ?h, simplified]
  let ?s = "container_insert 1 (Obj t) (s\<lparr>k_obj := (k_obj s)(Obj t \<mapsto> ?h)\<rparr>)"
  have "rt_interrupt_nest s = 0" using b by (simp add: booting_def)
  then have "rt_object_allocate (Some t) 1 nm s = Some (Some t, ?s)"
    using information_known [of 1] by (simp add: rt_object_allocate_def RT_DEBUG_NOT_IN_INTERRUPT_def rt_interrupt_get_nest_def Let_def)
  moreover from boot_thread [OF hd(1,2) hd(3) [OF p] st pr] obtain s1 s2 where
    "thread_init t entry param a sz pr tick ?s = Some (RT_EOK, s1)" "rt_thread_startup t s1 = Some (RT_EOK, s2)"
    "booting (P(t \<mapsto> unat pr)) s2" "\<forall>u. u \<noteq> t \<longrightarrow> spare u ?s \<longrightarrow> spare u s2" by blast
  ultimately show ?thesis using hd(4) by (auto simp: rt_thread_create_def)
qed

section \<open>The first scheduling decision\<close>

lemma booting_thread:
  assumes b: "booting P s" and p: "P t = Some p"
  shows "\<exists>th. k_thread s t = Some th \<and> prio th = p \<and> th_stat th = RT_THREAD_READY \<and> t \<in> set (k_list s (ReadyQ p)) \<and>
    th_number_mask th = prio_bit th \<and> p < 32"
proof -
  have "case k_thread s t of None \<Rightarrow> P t = None | Some th \<Rightarrow> P t = Some (prio th) \<and> th_stat th = RT_THREAD_READY"
    using b by (simp add: booting_def)
  with p obtain th where th: "k_thread s t = Some th" "prio th = p" "th_stat th = 2" by (auto split: option.splits)
  moreover from th(3) have "state_of th = 2" by (simp add: state_of_def)
  moreover have i: "inv_out {} s" using b by (simp add: booting_def kwf_def kinv_def sched_inv_def)
  ultimately show ?thesis using inv_outD(4) [OF i th(1)] inv_outD(3) [OF i th(1)] by (auto simp: state_ok_def prio_ok_def)
qed

lemma start_highest:
  assumes b: "booting P s" and p: "P t = Some p" and low: "\<And>u q. P u = Some q \<Longrightarrow> u \<noteq> t \<Longrightarrow> p < q"
  shows "\<exists>s'. rt_system_scheduler_start s = Some s' \<and> kwf s' \<and> thread_context t s' \<and> (\<forall>l. k_timers s' l = []) \<and>
    (\<forall>u. u \<noteq> t \<longrightarrow> k_thread s' u = k_thread s u)"
proof -
  have kw: "kwf s" and cur: "rt_current_thread s = None" "rt_scheduler_lock_nest s = 0" "rt_interrupt_nest s = 0" and tm: "\<And>l. k_timers s l = []"
    using b by (simp_all add: booting_def)
  note k = kwfD(1) [OF kw]
  have i: "inv_out {} s" by (rule kinvD(5) [OF k])
  from booting_thread [OF b p] obtain th where th: "k_thread s t = Some th" "prio th = p" "th_stat th = 2"
    "t \<in> set (k_list s (ReadyQ p))" "th_number_mask th = prio_bit th" "p < 32" by blast
  have "bit (rt_thread_ready_priority_group s) p" using inv_outD(5) [OF i th(6)] th(4) by auto
  then have "rt_thread_ready_priority_group s \<noteq> 0" by auto
  from get_highest [OF i this] obtain u rest q where h: "scheduler_get_highest_priority_thread s = Some (u, q)" "q < 32"
    "k_list s (ReadyQ q) = u # rest" "\<forall>q' < q. k_list s (ReadyQ q') = []" by blast
  have "q \<le> p" using h(4) th(4) by (metis empty_iff empty_set not_le)
  from inv_outD(2) [OF i, of u "ReadyQ q"] h(3) obtain uh where u: "k_thread s u = Some uh" "prio uh = q" by (auto simp: queue_state_def)
  have "case k_thread s u of None \<Rightarrow> P u = None | Some th \<Rightarrow> P u = Some (prio th) \<and> th_stat th = RT_THREAD_READY"
    using b by (simp add: booting_def)
  then have "P u = Some q" using u by simp
  with low [of u q] \<open>q \<le> p\<close> have ut: "u = t" by fastforce
  let ?s1 = "s\<lparr>rt_current_thread := Some t\<rparr>"
  have "inv_out {t} ?s1"
  proof (rule inv_outI)
    show "separate (k_list ?s1)" using inv_outD(1) [OF i] by simp
    show "\<exists>h. k_thread ?s1 x = Some h \<and> queue_state l h" if "x \<in> set (k_list ?s1 l)" for l x using inv_outD(2) [OF i, of x l] that by simp
    show "prio_ok g" if "k_thread ?s1 x = Some g" for x g using inv_outD(3) [OF i, of x g] that by simp
    show "state_ok ?s1 x g" if "k_thread ?s1 x = Some g" "x \<notin> {t}" for x g
      using inv_outD(4) [OF i, of x g] that cur by (auto simp: state_ok_def)
    show "bit (rt_thread_ready_priority_group ?s1) q \<longleftrightarrow> k_list ?s1 (ReadyQ q) \<noteq> []" if "q < 32" for q using inv_outD(5) [OF i that] by simp
    show "\<exists>g. k_thread ?s1 c = Some g" if "rt_current_thread ?s1 = Some c" for c using that th(1) by simp
  qed
  from run_thread [OF this, of th] th(1,5) obtain s1 s2 where
    r: "rt_schedule_remove_thread t ?s1 = Some s1" "upd_thread t (set_state RT_THREAD_RUNNING) s1 = Some s2" "sched_inv s2"
      "s2 = ?s1\<lparr>k_thread := (k_thread ?s1)(t \<mapsto> set_state RT_THREAD_RUNNING th), k_list := al_remove t (k_list ?s1),
        rt_thread_ready_priority_group := rt_thread_ready_priority_group s2\<rparr>" by auto
  have e: "k_thread s2 = (k_thread s)(t \<mapsto> set_state 3 th)" "k_obj s2 = k_obj s" "k_timer s2 = k_timer s" "k_timers s2 = k_timers s"
    "k_list s2 = al_remove t (k_list s)" "rt_current_thread s2 = Some t" "rt_scheduler_lock_nest s2 = 0" "rt_interrupt_nest s2 = 0"
    "no_sched s2 = no_sched s"
    using cur by (subst r(4); simp add: no_sched_def)+
  have t1: "k_thread s1 t = Some th" using r(1) th(1) by (auto simp: rt_schedule_remove_thread_def tlist_remove_def Let_def split: if_splits bind_split)
  have "set_state 3 th = th\<lparr>th_stat := 3\<rparr>" using th(3) by (simp add: set_state_def)
  then have "upd_thread t (\<lambda>th. th\<lparr>th_stat := RT_THREAD_RUNNING\<rparr>) s1 = Some s2" using r(2) t1 by simp
  then have start: "rt_system_scheduler_start s = Some s2" using h(1) ut r(1) by (simp add: rt_system_scheduler_start_def)
  have k2: "kinv s2" by (rule kinv_one_thread [OF k th(1) _ e(1-4)]) (use r(3) th(3) in \<open>simp_all add: sched_inv_def state_of_def stack_ok_def set_state_def\<close>)
  have "k_list s2 l = k_list s l" if "\<forall>p. l \<noteq> ReadyQ p" for l
  proof -
    have "t \<notin> set (k_list s l)"
      using inv_outD(2) [OF i, of t l] th(1,3) that by (cases l) (auto simp: queue_state_def suspended_def state_of_def)
    then show ?thesis by (simp add: e(5) al_remove_def remove1_idem)
  qed
  moreover have "stat_frame s s2" using th(1) by (simp add: stat_frame_def e(1))
  moreover have "runnable th" using th(3) by (simp add: runnable_def state_of_def)
  ultimately have "sched_frame s s2" using th(1) by (auto simp: sched_frame_def e(1,9))
  then have "kwf s2" by (rule kwf_sched [OF kw k2])
  moreover have "thread_context t s2" using e th(3) by (simp add: thread_context_def state_of_def set_state_def)
  ultimately show ?thesis using start e(1,4) tm by (intro exI [of _ s2]) simp
qed

section \<open>From the timer thread to the main thread\<close>

text \<open>When the running thread suspends itself, the thread \<open>m\<close> runs that is ready at the highest priority of the others.\<close>

lemma suspend_hands_over:
  assumes kw: "kwf s" and ctx: "thread_context t s" and tm: "\<And>l. k_timers s l = []" and m: "k_thread s m = Some mh" "state_of mh = RT_THREAD_READY"
    and others: "\<And>u uh. k_thread s u = Some uh \<Longrightarrow> u \<noteq> t \<Longrightarrow> u \<noteq> m \<Longrightarrow> prio mh < prio uh"
  shows "\<exists>s1 s2. rt_thread_suspend_with_flag t RT_UNINTERRUPTIBLE s = Some (RT_EOK, s1) \<and> rt_schedule s1 = Some s2 \<and> kwf s2 \<and> thread_context m s2"
proof -
  note k = kwfD(1) [OF kw]
  from ctx obtain th where c: "rt_current_thread s = Some t" "rt_scheduler_lock_nest s = 0" "rt_interrupt_nest s = 0"
    and th: "k_thread s t = Some th" "state_of th = 3" by (auto simp: thread_context_def)
  have mt: "m \<noteq> t" using m th by auto
  from suspend_spec [OF k c(1) th, of RT_UNINTERRUPTIBLE 7] obtain s1 g where
    s1: "rt_thread_suspend_with_flag t RT_UNINTERRUPTIBLE s = Some (RT_EOK, s1)" "kinv s1"
      "s1 = stop_timer (ThreadTimer t) (s\<lparr>k_thread := (k_thread s)(t \<mapsto> set_state 7 th), rt_thread_ready_priority_group := g\<rparr>)"
    by (auto simp: suspend_stat_def)
  have e: "k_thread s1 = (k_thread s)(t \<mapsto> set_state 7 th)" "rt_current_thread s1 = Some t" "rt_scheduler_lock_nest s1 = 0" "rt_interrupt_nest s1 = 0"
    "k_list s1 = k_list s" "\<And>l. k_timers s1 l = []"
    using c tm by (auto simp: s1(3) stop_timer_def al_remove_def split: option.split)
  have "thread_timers s1" unfolding s1(3) by (rule thread_timers_stop) (use kwfD(2) [OF kw] in \<open>simp add: thread_timers_def\<close>)
  then have kw1: "kwf s1" using s1(2) e(6) by (simp add: kwf_def armed_ok_def)
  have m1: "k_thread s1 m = Some mh" using m(1) mt e(1) by simp
  have "m \<in> set (k_list s1 (ReadyQ (prio mh)))" "prio mh < 32"
    using inv_outD(3,4) [OF kinvD(5) [OF s1(2), of "{}"] m1] m(2) by (auto simp: state_ok_def prio_ok_def)
  then have "bit (rt_thread_ready_priority_group s1) (prio mh)" using inv_outD(5) [OF kinvD(5) [OF s1(2), of "{}"]] by auto
  then have "rt_thread_ready_priority_group s1 \<noteq> 0" by auto
  with schedule_kinv [OF s1(2)] e obtain s2 where s2: "rt_schedule s1 = Some s2" "kinv s2" "sched_frame s1 s2" "highest_running s2" by auto
  note fr = sched_frame_fields [OF s2(3)]
  from s2(4) obtain u uh where u: "rt_current_thread s2 = Some u" "k_thread s2 u = Some uh" "state_of uh = 3"
    "\<And>p. k_list s2 (ReadyQ p) \<noteq> [] \<Longrightarrow> prio uh \<le> p" by (auto simp: highest_running_def)
  have ut: "u \<noteq> t"
  proof
    assume "u = t"
    have "state_of (set_state 7 th) = 7" by (simp add: state_of_def set_state_def bit.conj_disj_distrib2 word_bw_assocs)
    with sched_frame_quiet [OF s2(3), of t "set_state 7 th"] e(1) u(2,3) \<open>u = t\<close> show False by simp
  qed
  have "u = m"
  proof (rule ccontr)
    assume um: "u \<noteq> m"
    from sched_frame_back [OF s2(3) u(2)] obtain h where "k_thread s1 u = Some h" by blast
    with sched_frame_thread [OF s2(3), of u h] u(2) have "prio uh = prio h" "k_thread s u = Some h" using e(1) ut by (auto simp: prio_def)
    with others ut um have lt: "prio mh < prio uh" by simp
    from sched_frame_runnable [OF s2(3) m1] m(2) obtain m2 where m2: "k_thread s2 m = Some m2" "runnable m2" by (auto simp: runnable_def)
    from sched_frame_thread [OF s2(3) m1] m2(1) have pm: "prio m2 = prio mh" by (auto simp: prio_def)
    have "state_of m2 \<noteq> 3" using inv_outD(4) [OF kinvD(5) [OF s2(2), of "{}"] m2(1)] u(1) um by (auto simp: state_ok_def)
    then have "m \<in> set (k_list s2 (ReadyQ (prio mh)))"
      using inv_outD(4) [OF kinvD(5) [OF s2(2), of "{}"] m2(1)] m2(2) pm by (auto simp: state_ok_def runnable_def)
    then have "k_list s2 (ReadyQ (prio mh)) \<noteq> []" by (metis empty_iff empty_set)
    with u(4) [of "prio mh"] lt show False by simp
  qed
  then have "thread_context m s2" using u fr e(3,4) by (simp add: thread_context_def)
  then show ?thesis using s1(1) s2 kwf_sched [OF kw1 s2(2,3)] by blast
qed

section \<open>Properties\<close>

text \<open>C24. Start-up brings the kernel into the well-formed state that every operation keeps: from a board that has
  set up its heap and drivers and no thread, with room for the objects and stacks of the three first threads,
  \<open>rtthread_startup\<close> ends with the timer thread running. Its first round finds no timer and suspends it, and then
  the main thread runs in a well-formed kernel.\<close>

theorem rtthread_startup_runs_main:
  assumes "rt_hw_board_init (bi_heap_begin bi) (bi_heap_end bi) drivers s h = Some (s0, h0)" and "bare s0"
    and "bi_main bi = Some m" and "m \<noteq> timer_thread" and "m \<noteq> idle_thread"
    and "spare m s0" and "spare timer_thread s0" and "spare idle_thread s0"
    and "bi_main_stack bi = Some ms" and "unat ms + 2048 < 2 ^ 32"
    and "bi_timer_stack bi \<noteq> 0" and "unat (bi_timer_stack bi) + 512 < 2 ^ 32"
    and "bi_idle_stack bi \<noteq> 0" and "unat (bi_idle_stack bi) + 256 < 2 ^ 32"
  shows "\<exists>s1 s2. rtthread_startup bi drivers s h = Some (s1, h0) \<and> kwf s1 \<and> thread_context timer_thread s1 \<and>
    timer_thread_round user s1 = Some (Blocked, s2) \<and> kwf s2 \<and> thread_context m s2"
proof -
  let ?a = "rt_system_scheduler_init (rt_system_timer_init s0)"
  have sp: "spare u ?a" if "spare u s0" for u
    using that by (simp add: spare_def ObjectProps.fresh_def rt_system_scheduler_init_def rt_system_timer_init_def)
  have ne: "timer_thread \<noteq> idle_thread" by (simp add: timer_thread_def idle_thread_def)
  from boot_create [OF bare_booting [OF assms(2)] _ sp [OF assms(6)], of 2048 ms 10 "[0x6d, 0x61, 0x69, 0x6e, 0]" "bi_main_entry bi" 0 20] assms(10)
  obtain a1 b where a: "rt_thread_create (Some m) (Some ms) [0x6d, 0x61, 0x69, 0x6e, 0] (bi_main_entry bi) 0 2048 10 20 ?a = Some (Some m, a1)"
    "rt_thread_startup m a1 = Some (RT_EOK, b)" "booting [m \<mapsto> 10] b" "\<forall>u. u \<noteq> m \<longrightarrow> spare u ?a \<longrightarrow> spare u b" by auto
  have bt: "b\<lparr>k_timers := (k_timers b)(SoftTimers := [])\<rparr> = b" using a(3) by (intro kstate.equality) (auto simp: booting_def fun_eq_iff)
  from boot_init [OF a(3), of timer_thread "bi_timer_stack bi" 512 4 "[0x74, 0x69, 0x6d, 0x65, 0x72, 0]" "bi_timer_entry bi" 0 10]
    a(4) sp [OF assms(7)] assms(4,11,12)
  obtain b1 c where b: "rt_thread_init timer_thread [0x74, 0x69, 0x6d, 0x65, 0x72, 0] (bi_timer_entry bi) 0 (bi_timer_stack bi) 512 4 10 b = Some (RT_EOK, b1)"
    "rt_thread_startup timer_thread b1 = Some (RT_EOK, c)" "booting [m \<mapsto> 10, timer_thread \<mapsto> 4] c" "\<forall>u. u \<noteq> timer_thread \<longrightarrow> spare u b \<longrightarrow> spare u c" by auto
  from boot_init [OF b(3), of idle_thread "bi_idle_stack bi" 256 31 "[0x74, 0x69, 0x64, 0x6c, 0x65, 0x30, 0]" "bi_idle_entry bi" 0 32]
    b(4) a(4) sp [OF assms(8)] assms(5,13,14) ne
  obtain c1 d where c: "rt_thread_init idle_thread [0x74, 0x69, 0x64, 0x6c, 0x65, 0x30, 0] (bi_idle_entry bi) 0 (bi_idle_stack bi) 256 31 32 c = Some (RT_EOK, c1)"
    "rt_thread_startup idle_thread c1 = Some (RT_EOK, d)" "booting [m \<mapsto> 10, timer_thread \<mapsto> 4, idle_thread \<mapsto> 31] d" by auto
  have "\<exists>e. rt_system_scheduler_start d = Some e \<and> kwf e \<and> thread_context timer_thread e \<and> (\<forall>l. k_timers e l = []) \<and>
      (\<forall>u. u \<noteq> timer_thread \<longrightarrow> k_thread e u = k_thread d u)"
    by (rule start_highest [OF c(3), of _ 4]) (use ne in \<open>auto split: if_splits\<close>)
  then obtain e where
    e: "rt_system_scheduler_start d = Some e" "kwf e" "thread_context timer_thread e" "\<And>l. k_timers e l = []" "\<And>u. u \<noteq> timer_thread \<Longrightarrow> k_thread e u = k_thread d u"
    by auto
  have start: "rtthread_startup bi drivers s h = Some (e, h0)"
    using assms(1,3,9) a(1,2) bt b(1,2) c(1,2) e(1)
    by (simp add: rtthread_startup_def rt_application_init_def rt_system_timer_thread_init_def rt_thread_idle_init_def)
  from booting_thread [OF c(3), of m 10] assms(4,5) obtain mh where mh: "k_thread d m = Some mh" "prio mh = 10" "th_stat mh = 2" by auto
  have others: "prio mh < prio uh" if "k_thread e u = Some uh" "u \<noteq> timer_thread" "u \<noteq> m" for u uh
  proof -
    have "k_thread d u = Some uh" using that e(5) by simp
    moreover have "case k_thread d u of None \<Rightarrow> [m \<mapsto> 10 :: nat, timer_thread \<mapsto> 4, idle_thread \<mapsto> 31] u = None
        | Some th \<Rightarrow> [m \<mapsto> 10, timer_thread \<mapsto> 4, idle_thread \<mapsto> 31] u = Some (prio th) \<and> th_stat th = 2"
      using c(3) by (simp add: booting_def)
    ultimately show ?thesis using that(2,3) mh(2) by (auto split: if_splits)
  qed
  have "k_thread e m = Some mh" "state_of mh = 2" using e(5) assms(4) mh by (simp_all add: state_of_def)
  have "\<exists>f g. rt_thread_suspend_with_flag timer_thread RT_UNINTERRUPTIBLE e = Some (RT_EOK, f) \<and> rt_schedule f = Some g \<and> kwf g \<and> thread_context m g"
    by (rule suspend_hands_over [OF e(2,3,4) \<open>k_thread e m = Some mh\<close> \<open>state_of mh = 2\<close> others])
  then obtain f g where
    "rt_thread_suspend_with_flag timer_thread RT_UNINTERRUPTIBLE e = Some (RT_EOK, f)" "rt_schedule f = Some g" "kwf g" "thread_context m g" by blast
  moreover from e(3) have "rt_current_thread e = Some timer_thread" by (simp add: thread_context_def)
  ultimately have "timer_thread_round user e = Some (Blocked, g)"
    using e(4) by (simp add: timer_thread_round_def timer_list_next_timeout_def rt_thread_self_def)
  with start e(2,3) \<open>kwf g\<close> \<open>thread_context m g\<close> show ?thesis by blast
qed

text \<open>The heap of a bare kernel is set up without a thread.\<close>

lemma bare_object_init:
  assumes "bare s" and "known_class c" and "Obj a \<notin> set (k_container s c)" and "k_obj s (Obj a) = None"
  shows "rt_object_init (Obj a) c nm s = Some (registered a c nm s)" "bare (registered a c nm s)"
proof -
  have c: "rt_exit_critical (rt_enter_critical s) = Some s" using assms(1) by (intro critical_idle) (simp_all add: bare_def)
  have "c \<noteq> 0" "rt_object_get_information c = Some c" using assms(2) information_known [of c] by (auto simp: known_class_def)
  moreover have "k_container (rt_enter_critical s) = k_container s" by (simp add: rt_enter_critical_def)
  ultimately show "rt_object_init (Obj a) c nm s = Some (registered a c nm s)"
    using assms(3,4) c by (simp add: rt_object_init_def registered_def Let_def)
  show "bare (registered a c nm s)" using assms(1) by (simp add: bare_def)
qed

definition ex_image :: boot_image where
  "ex_image = \<lparr>bi_heap_begin = 0x20004000, bi_heap_end = 0x20008000, bi_main = Some 0x20004020, bi_main_stack = Some 0x20004100,
    bi_main_entry = 0x8000, bi_timer_stack = 0x20001000, bi_timer_entry = 0x9000, bi_idle_stack = 0x20002000, bi_idle_entry = 0xa000\<rparr>"

definition ex_reset_heap :: heap where
  "ex_reset_heap = \<lparr>h_mem = (\<lambda>_. 0), h_pools = Map.empty, system_heap = None\<rparr>"

lemma ex_board:
  "\<exists>s0 h0. rt_hw_board_init (bi_heap_begin ex_image) (bi_heap_end ex_image) (\<lambda>s h. Some (s, h)) init_kstate ex_reset_heap = Some (s0, h0) \<and>
    bare s0 \<and> spare 0x20004020 s0 \<and> spare timer_thread s0 \<and> spare idle_thread s0"
proof -
  have b: "bare init_kstate" by (simp add: bare_def init_kstate_def)
  have kc: "known_class 12" "known_class 3" by (simp_all add: known_class_def)
  let ?s1 = "registered 0x20004000 12 [0x68, 0x65, 0x61, 0x70, 0] init_kstate"
  let ?s2 = "registered heap_mutex 3 [0x68, 0x65, 0x61, 0x70, 0] ?s1"
  note r1 = bare_object_init [OF b kc(1), of "0x20004000" "[0x68, 0x65, 0x61, 0x70, 0]"]
  have s1: "rt_object_init (Obj 0x20004000) 12 [0x68, 0x65, 0x61, 0x70, 0] init_kstate = Some ?s1" "bare ?s1"
    by (rule r1; simp add: init_kstate_def)+
  have s2: "rt_object_init (Obj heap_mutex) 3 [0x68, 0x65, 0x61, 0x70, 0] ?s1 = Some ?s2" "bare ?s2"
    by (rule bare_object_init [OF s1(2) kc(2)]; simp add: heap_mutex_def registered_def container_insert_def al_head_def init_kstate_def)+
  have "\<exists>h1. rt_smem_init [0x68, 0x65, 0x61, 0x70, 0] 0x20004000 0x4000 init_kstate ex_reset_heap = Some (Some 0x20004000, ?s1, h1)"
    using s1(1) by (simp add: rt_smem_init_def Let_def RT_ALIGN_def RT_ALIGN_DOWN_def)
  then obtain h1 where h1: "rt_smem_init [0x68, 0x65, 0x61, 0x70, 0] 0x20004000 0x4000 init_kstate ex_reset_heap = Some (Some 0x20004000, ?s1, h1)" ..
  obtain s3 where s3: "mutex_setup heap_mutex ?s2 = Some s3" by (simp add: mutex_setup_def ipc_object_init_def upd_obj_def upd_def)
  then have "bare s3" "spare 0x20004020 s3" "spare timer_thread s3" "spare idle_thread s3"
    using s2(2) by (auto simp: mutex_setup_def ipc_object_init_def upd_obj_def upd_def bare_def spare_def ObjectProps.fresh_def heap_mutex_def
        timer_thread_def idle_thread_def registered_def container_insert_def al_head_def init_kstate_def)
  moreover have "rt_hw_board_init (bi_heap_begin ex_image) (bi_heap_end ex_image) (\<lambda>s h. Some (s, h)) init_kstate ex_reset_heap =
      Some (s3, h1\<lparr>system_heap := Some 0x20004000\<rparr>)"
    using h1 s2(1) s3 by (simp add: rt_hw_board_init_def ex_image_def rt_system_heap_init_def RT_ALIGN_def RT_ALIGN_DOWN_def heap_lock_init_def rt_mutex_init_def)
  ultimately show ?thesis by blast
qed

lemma rtthread_startup_runs_main_witness:
  "\<exists>s1 h0 s2. rtthread_startup ex_image (\<lambda>s h. Some (s, h)) init_kstate ex_reset_heap = Some (s1, h0) \<and>
    timer_thread_round (\<lambda>f a s. Some s) s1 = Some (Blocked, s2) \<and> kwf s2 \<and> thread_context 0x20004020 s2"
proof -
  from ex_board obtain s0 h0 where b: "rt_hw_board_init (bi_heap_begin ex_image) (bi_heap_end ex_image) (\<lambda>s h. Some (s, h)) init_kstate ex_reset_heap = Some (s0, h0)"
    "bare s0" "spare 0x20004020 s0" "spare timer_thread s0" "spare idle_thread s0" by blast
  have "bi_main ex_image = Some 0x20004020" "bi_main_stack ex_image = Some 0x20004100" by (simp_all add: ex_image_def)
  from rtthread_startup_runs_main [OF b(1,2) this(1) _ _ b(3-5) this(2)] show ?thesis
    by (fastforce simp: timer_thread_def idle_thread_def ex_image_def)
qed

end
