(* ===== verification/RingBlk.thy ===== *)
theory RingBlk
  imports RtList
begin

text \<open>
  The ring of blocks of \<open>components/drivers/ipc/ringblk_buf.c\<close>: a buffer cut into blocks
  of any size that are allocated, put, got and freed without copying. The blocks are an array,
  \<open>rbb_set\<close>, and a pointer to a block is its index. Each block carries a list node; the
  nodes, the list of the blocks in use and the list of the free ones are cells of the singly
  linked lists of \<open>RtList\<close>. Buffer pointers are 32-bit addresses. Every operation runs
  with interrupts off, or writes one field, and is one step.
\<close>

section \<open>State\<close>

datatype rbb_status = RT_RBB_BLK_UNUSED | RT_RBB_BLK_INITED | RT_RBB_BLK_PUT | RT_RBB_BLK_GET

record rt_rbb_blk =
  blk_status :: rbb_status
  blk_size :: u32
  blk_buf :: u32

text \<open>The cells of the lists: the two heads in \<open>struct rt_rbb\<close> and the node in each block.\<close>

datatype rcell = BlkList | FreeList | Blk nat

record rt_rbb =
  rbb_buf :: u32
  rbb_size :: u32
  rbb_set :: "rt_rbb_blk list"
  rbb_max :: u32
  rbb_tail :: rcell
  rbb_links :: "rcell slinks"

record rt_rbb_blk_queue =
  q_blocks :: "nat option"
  q_num :: u32

text \<open>The block of a node, \<open>rt_slist_entry\<close>; a head is no part of a block. A block
  outside the array is not memory of the ring.\<close>

fun entry :: "rcell \<Rightarrow> nat option" where
  "entry (Blk i) = Some i"
| "entry BlkList = None"
| "entry FreeList = None"

definition get_blk :: "nat \<Rightarrow> rt_rbb \<Rightarrow> rt_rbb_blk option" where
  "get_blk i s = (if i < length (rbb_set s) then Some (rbb_set s ! i) else None)"

definition set_blk :: "nat \<Rightarrow> rt_rbb_blk \<Rightarrow> rt_rbb \<Rightarrow> rt_rbb" where
  "set_blk i b s = s\<lparr>rbb_set := (rbb_set s)[i := b]\<rparr>"

definition set_links :: "rcell slinks \<Rightarrow> rt_rbb \<Rightarrow> rt_rbb" where
  "set_links h s = s\<lparr>rbb_links := h\<rparr>"

section \<open>Initialisation\<close>

fun rbb_init_blks :: "nat \<Rightarrow> nat \<Rightarrow> rt_rbb \<Rightarrow> rt_rbb option" where
  "rbb_init_blks i 0 s = Some s"
| "rbb_init_blks i (Suc n) s = do {
     b \<leftarrow> get_blk i s;
     let s = set_blk i (b\<lparr>blk_status := RT_RBB_BLK_UNUSED\<rparr>) s;
     let s = set_links (rt_slist_init (Blk i) (rbb_links s)) s;
     let s = set_links (rt_slist_insert FreeList (Blk i) (rbb_links s)) s;
     rbb_init_blks (Suc i) n s }"

text \<open>\<open>h\<close> holds what the nodes contained before.\<close>

definition rt_rbb_init :: "u32 \<Rightarrow> u32 \<Rightarrow> rt_rbb_blk list \<Rightarrow> u32 \<Rightarrow> rcell slinks \<Rightarrow> rt_rbb option" where
  "rt_rbb_init buf buf_size block_set blk_max_num h =
    (if buf = 0 then None
     else let h = rt_slist_init BlkList h;
         h = rt_slist_init FreeList h
     in rbb_init_blks 0 (unat blk_max_num)
          \<lparr>rbb_buf = buf, rbb_size = buf_size, rbb_set = block_set, rbb_max = blk_max_num,
           rbb_tail = BlkList, rbb_links = h\<rparr>)"

text \<open>The three allocations of \<open>rt_rbb_create\<close> are arguments; the second result lists
  the allocations it gives back, by their number.\<close>

definition rt_rbb_create ::
  "bool \<Rightarrow> u32 option \<Rightarrow> rt_rbb_blk list option \<Rightarrow> rcell slinks \<Rightarrow> u32 \<Rightarrow> u32 \<Rightarrow> (rt_rbb option \<times> nat list) option" where
  "rt_rbb_create rbb_mem buf_mem set_mem h buf_size blk_max_num =
    (if \<not> rbb_mem then Some (None, [])
     else case buf_mem of
       None \<Rightarrow> Some (None, [1])
     | Some buf \<Rightarrow>
        (case set_mem of
           None \<Rightarrow> Some (None, [2, 1])
         | Some blk_set \<Rightarrow> do {
             s \<leftarrow> rt_rbb_init buf buf_size blk_set blk_max_num h;
             Some (Some s, []) }))"

section \<open>Allocation\<close>

definition find_empty_blk_in_set :: "rt_rbb \<Rightarrow> (nat option \<times> rt_rbb) option" where
  "find_empty_blk_in_set s =
    (if rt_slist_isempty FreeList (rbb_links s) then Some (None, s)
     else do {
       n \<leftarrow> rt_slist_first FreeList (rbb_links s);
       i \<leftarrow> entry n;
       h \<leftarrow> rt_slist_remove FreeList (Blk i) (rbb_links s);
       let s = set_links h s;
       b \<leftarrow> get_blk i s;
       RT_ASSERT (blk_status b = RT_RBB_BLK_UNUSED);
       Some (Some i, s) })"

definition rbb_list_append :: "rcell \<Rightarrow> rt_rbb \<Rightarrow> rt_rbb" where
  "rbb_list_append n s =
    (let s = set_links ((rbb_links s)(rbb_tail s := Some n)) s;
         s = set_links ((rbb_links s)(n := None)) s
     in s\<lparr>rbb_tail := n\<rparr>)"

definition rbb_list_remove :: "rcell \<Rightarrow> rt_rbb \<Rightarrow> rt_rbb option" where
  "rbb_list_remove n s = do {
    node \<leftarrow> slist_find_prev BlkList n (rbb_links s);
    Some (case rbb_links s node of
        None \<Rightarrow> s
      | Some m \<Rightarrow>
         let s = set_links ((rbb_links s)(node := rbb_links s m)) s;
             s = set_links ((rbb_links s)(n := None)) s
         in if rbb_tail s = n then s\<lparr>rbb_tail := node\<rparr> else s) }"

text \<open>What the four successful branches of \<open>rt_rbb_blk_alloc\<close> do to the new block.\<close>

definition rbb_take :: "nat \<Rightarrow> u32 \<Rightarrow> u32 \<Rightarrow> rt_rbb \<Rightarrow> (nat option \<times> rt_rbb) option" where
  "rbb_take i buf n s = do {
    let s = rbb_list_append (Blk i) s;
    b \<leftarrow> get_blk i s;
    Some (Some i, set_blk i (b\<lparr>blk_status := RT_RBB_BLK_INITED, blk_buf := buf, blk_size := n\<rparr>) s) }"

definition rt_rbb_blk_alloc :: "u32 \<Rightarrow> rt_rbb \<Rightarrow> (nat option \<times> rt_rbb) option" where
  "rt_rbb_blk_alloc n s = do {
    RT_ASSERT (n < 2 ^ 24);
    (new_rbb, s) \<leftarrow> find_empty_blk_in_set s;
    (case new_rbb of
       None \<Rightarrow> Some (None, s)
     | Some i \<Rightarrow>
        if \<not> rt_slist_isempty BlkList (rbb_links s) then do {
          hn \<leftarrow> rt_slist_first BlkList (rbb_links s);
          hi \<leftarrow> entry hn;
          head \<leftarrow> get_blk hi s;
          ti \<leftarrow> entry (rbb_tail s);
          tail \<leftarrow> get_blk ti s;
          if blk_buf head \<le> blk_buf tail then do {
            let empty1 = (rbb_buf s + rbb_size s) - (blk_buf tail + blk_size tail);
            let empty2 = blk_buf head - rbb_buf s;
            if empty1 \<ge> n then rbb_take i (blk_buf tail + blk_size tail) n s
            else if empty2 \<ge> n then rbb_take i (rbb_buf s) n s
            else Some (None, s) }
          else do {
            let empty1 = blk_buf head - (blk_buf tail + blk_size tail);
            if empty1 \<ge> n then rbb_take i (blk_buf tail + blk_size tail) n s
            else Some (None, s) } }
        else rbb_take i (rbb_buf s) n s) }"

section \<open>Put, get and free\<close>

definition rt_rbb_blk_put :: "nat \<Rightarrow> rt_rbb \<Rightarrow> rt_rbb option" where
  "rt_rbb_blk_put i s = do {
    b \<leftarrow> get_blk i s;
    RT_ASSERT (blk_status b = RT_RBB_BLK_INITED);
    Some (set_blk i (b\<lparr>blk_status := RT_RBB_BLK_PUT\<rparr>) s) }"

partial_function (option) rbb_get_from :: "rcell option \<Rightarrow> rt_rbb \<Rightarrow> (nat option \<times> rt_rbb) option" where
  "rbb_get_from node s =
    (case node of
       None \<Rightarrow> Some (None, s)
     | Some n \<Rightarrow> do {
         i \<leftarrow> entry n;
         b \<leftarrow> get_blk i s;
         if blk_status b = RT_RBB_BLK_PUT
         then Some (Some i, set_blk i (b\<lparr>blk_status := RT_RBB_BLK_GET\<rparr>) s)
         else rbb_get_from (rbb_links s n) s })"

definition rt_rbb_blk_get :: "rt_rbb \<Rightarrow> (nat option \<times> rt_rbb) option" where
  "rt_rbb_blk_get s =
    (if rt_slist_isempty BlkList (rbb_links s) then Some (None, s)
     else rbb_get_from (rt_slist_first BlkList (rbb_links s)) s)"

definition rt_rbb_blk_size :: "nat \<Rightarrow> rt_rbb \<Rightarrow> u32 option" where
  "rt_rbb_blk_size i s = do { b \<leftarrow> get_blk i s; Some (blk_size b) }"

definition rt_rbb_blk_buf :: "nat \<Rightarrow> rt_rbb \<Rightarrow> u32 option" where
  "rt_rbb_blk_buf i s = do { b \<leftarrow> get_blk i s; Some (blk_buf b) }"

definition rt_rbb_blk_free :: "nat \<Rightarrow> rt_rbb \<Rightarrow> rt_rbb option" where
  "rt_rbb_blk_free i s = do {
    b \<leftarrow> get_blk i s;
    RT_ASSERT (blk_status b \<noteq> RT_RBB_BLK_UNUSED);
    s \<leftarrow> rbb_list_remove (Blk i) s;
    b \<leftarrow> get_blk i s;
    let s = set_blk i (b\<lparr>blk_status := RT_RBB_BLK_UNUSED\<rparr>) s;
    Some (set_links (rt_slist_insert FreeList (Blk i) (rbb_links s)) s) }"

definition rt_rbb_get_buf_size :: "rt_rbb \<Rightarrow> u32" where
  "rt_rbb_get_buf_size s = rbb_size s"

section \<open>Queues of blocks\<close>

text \<open>The loop of \<open>rt_rbb_blk_queue_get\<close>. Its step is \<open>node = tmp, tmp =
  rt_slist_next(node)\<close>, which reads the node after the last one through a null pointer.\<close>

partial_function (option) rbb_queue_from ::
  "rcell option \<Rightarrow> rcell option \<Rightarrow> nat option \<Rightarrow> u32 \<Rightarrow> u32 \<Rightarrow> rt_rbb_blk_queue \<Rightarrow> rt_rbb \<Rightarrow>
   (u32 \<times> rt_rbb_blk_queue \<times> rt_rbb) option" where
  "rbb_queue_from node tmp last_block data_total queue_data_len q s =
    (case node of
       None \<Rightarrow> Some (data_total, q, s)
     | Some n \<Rightarrow> do {
         i \<leftarrow> entry n;
         b \<leftarrow> get_blk i s;
         (case last_block of
            None \<Rightarrow>
              if blk_status b = RT_RBB_BLK_PUT then do {
                let q = q\<lparr>q_blocks := Some i, q_num := 0\<rparr>;
                let data_total = data_total + blk_size b;
                let s = set_blk i (b\<lparr>blk_status := RT_RBB_BLK_GET\<rparr>) s;
                m \<leftarrow> tmp;
                rbb_queue_from (Some m) (rbb_links s m) (Some i) data_total queue_data_len
                  (q\<lparr>q_num := q_num q + 1\<rparr>) s }
              else do {
                m \<leftarrow> tmp;
                rbb_queue_from (Some m) (rbb_links s m) None data_total queue_data_len q s }
          | Some l \<Rightarrow> do {
              lb \<leftarrow> get_blk l s;
              if blk_status b \<noteq> RT_RBB_BLK_PUT \<or> blk_buf lb > blk_buf b
                \<or> data_total + blk_size b > queue_data_len
              then Some (data_total, q, s)
              else do {
                let data_total = data_total + blk_size b;
                let s = set_blk i (b\<lparr>blk_status := RT_RBB_BLK_GET\<rparr>) s;
                m \<leftarrow> tmp;
                rbb_queue_from (Some m) (rbb_links s m) (Some i) data_total queue_data_len
                  (q\<lparr>q_num := q_num q + 1\<rparr>) s } }) })"

definition rt_rbb_blk_queue_get ::
  "u32 \<Rightarrow> rt_rbb_blk_queue \<Rightarrow> rt_rbb \<Rightarrow> (u32 \<times> rt_rbb_blk_queue \<times> rt_rbb) option" where
  "rt_rbb_blk_queue_get queue_data_len q s =
    (if rt_slist_isempty BlkList (rbb_links s) then Some (0, q, s)
     else case rt_slist_first BlkList (rbb_links s) of
       None \<Rightarrow> Some (0, q, s)
     | Some n \<Rightarrow> rbb_queue_from (Some n) (rbb_links s n) None 0 queue_data_len q s)"

text \<open>The loops over the blocks of a queue; the block after the last one is only computed.\<close>

fun rbb_queue_sum :: "nat \<Rightarrow> nat option \<Rightarrow> u32 \<Rightarrow> rt_rbb \<Rightarrow> u32 option" where
  "rbb_queue_sum 0 blk data_total s = Some data_total"
| "rbb_queue_sum (Suc n) blk data_total s = do {
     i \<leftarrow> blk;
     b \<leftarrow> get_blk i s;
     rbb_queue_sum n (rbb_links s (Blk i) \<bind> entry) (data_total + blk_size b) s }"

definition rt_rbb_blk_queue_len :: "rt_rbb_blk_queue \<Rightarrow> rt_rbb \<Rightarrow> u32 option" where
  "rt_rbb_blk_queue_len q s = rbb_queue_sum (unat (q_num q)) (q_blocks q) 0 s"

definition rt_rbb_blk_queue_buf :: "rt_rbb_blk_queue \<Rightarrow> rt_rbb \<Rightarrow> u32 option" where
  "rt_rbb_blk_queue_buf q s = do { i \<leftarrow> q_blocks q; b \<leftarrow> get_blk i s; Some (blk_buf b) }"

fun rbb_queue_release :: "nat \<Rightarrow> nat option \<Rightarrow> rt_rbb \<Rightarrow> rt_rbb option" where
  "rbb_queue_release 0 blk s = Some s"
| "rbb_queue_release (Suc n) blk s = do {
     i \<leftarrow> blk;
     get_blk i s;
     let next_blk = rbb_links s (Blk i) \<bind> entry;
     s \<leftarrow> rt_rbb_blk_free i s;
     rbb_queue_release n next_blk s }"

definition rt_rbb_blk_queue_free :: "rt_rbb_blk_queue \<Rightarrow> rt_rbb \<Rightarrow> rt_rbb option" where
  "rt_rbb_blk_queue_free q s = rbb_queue_release (unat (q_num q)) (q_blocks q) s"

partial_function (option) rbb_next_len_from :: "rcell option \<Rightarrow> nat option \<Rightarrow> u32 \<Rightarrow> rt_rbb \<Rightarrow> u32 option" where
  "rbb_next_len_from node last_block data_len s =
    (case node of
       None \<Rightarrow> Some data_len
     | Some n \<Rightarrow> do {
         i \<leftarrow> entry n;
         b \<leftarrow> get_blk i s;
         (case last_block of
            None \<Rightarrow>
              if blk_status b \<noteq> RT_RBB_BLK_PUT then rbb_next_len_from (rbb_links s n) None data_len s
              else rbb_next_len_from (rbb_links s n) (Some i) (data_len + blk_size b) s
          | Some l \<Rightarrow> do {
              lb \<leftarrow> get_blk l s;
              if blk_status b \<noteq> RT_RBB_BLK_PUT \<or> blk_buf lb > blk_buf b then Some data_len
              else rbb_next_len_from (rbb_links s n) (Some i) (data_len + blk_size b) s }) })"

definition rt_rbb_next_blk_queue_len :: "rt_rbb \<Rightarrow> u32 option" where
  "rt_rbb_next_blk_queue_len s =
    (if rt_slist_isempty BlkList (rbb_links s) then Some 0
     else rbb_next_len_from (rt_slist_first BlkList (rbb_links s)) None 0 s)"

end
