(* ===== verification/RingBlkProps.thy ===== *)
theory RingBlkProps
  imports RingBlk
begin

text \<open>
  What the ring of blocks promises. \<open>rbb_rep\<close> reads the pointers as two lists of block
  indices, the blocks in use in the order of their allocation and the free blocks, and
  \<open>ring_ok\<close> says how the blocks in use lie in the buffer: one ascending run, or two of
  which the second starts again at the bottom and ends before the first block. The operations
  are proved to act on the two lists, and the invariant gives that the memory of two blocks
  never overlaps.
\<close>

section \<open>Ascending runs of ranges\<close>

fun asc :: "nat \<Rightarrow> (nat \<times> nat) list \<Rightarrow> nat \<Rightarrow> bool" where
  "asc lo [] hi \<longleftrightarrow> lo \<le> hi"
| "asc lo ((a, n) # r) hi \<longleftrightarrow> lo \<le> a \<and> 0 < n \<and> asc (a + n) r hi"

definition ring_runs :: "nat \<Rightarrow> nat \<Rightarrow> (nat \<times> nat) list \<Rightarrow> (nat \<times> nat) list \<Rightarrow> bool" where
  "ring_runs lo hi ys zs \<longleftrightarrow> asc lo ys hi \<and> (zs = [] \<or> ys \<noteq> [] \<and> asc lo zs (fst (hd ys)))"

definition ring_ok :: "nat \<Rightarrow> nat \<Rightarrow> (nat \<times> nat) list \<Rightarrow> bool" where
  "ring_ok lo hi r \<longleftrightarrow> (\<exists>ys zs. r = ys @ zs \<and> ring_runs lo hi ys zs)"

lemma asc_le: "asc lo r hi \<Longrightarrow> lo \<le> hi"
proof (induction r arbitrary: lo)
  case (Cons p r)
  obtain b m where p: "p = (b, m)" by (cases p)
  then have "b + m \<le> hi" using Cons by simp
  with Cons.prems p show ?case by simp
qed simp

lemma asc_bounds: "asc lo r hi \<Longrightarrow> (a, n) \<in> set r \<Longrightarrow> lo \<le> a \<and> 0 < n \<and> a + n \<le> hi"
proof (induction r arbitrary: lo)
  case (Cons p r)
  obtain b m where p: "p = (b, m)" by (cases p)
  then have r: "lo \<le> b" "0 < m" "asc (b + m) r hi" using Cons.prems(1) by simp_all
  show ?case
  proof (cases "(a, n) \<in> set r")
    case True
    with Cons.IH [OF r(3)] r show ?thesis by simp
  next
    case False
    with p Cons.prems(2) r asc_le [OF r(3)] show ?thesis by simp
  qed
qed simp

lemma asc_mono: "asc lo r hi \<Longrightarrow> lo' \<le> lo \<Longrightarrow> hi \<le> hi' \<Longrightarrow> asc lo' r hi'"
  by (induction r arbitrary: lo lo') auto

lemma asc_append: "asc lo (r @ r') hi \<longleftrightarrow> (\<exists>m. asc lo r m \<and> asc m r' hi)"
proof (induction r arbitrary: lo)
  case Nil
  show ?case by (auto intro: asc_mono)
qed auto

lemma asc_snoc:
  assumes "asc lo r hi"
  shows "asc lo (r @ [(if r = [] then lo else fst (last r) + snd (last r), n)]) hi' \<longleftrightarrow>
    0 < n \<and> (if r = [] then lo else fst (last r) + snd (last r)) + n \<le> hi'"
proof -
  have "asc lo r hi \<Longrightarrow> r \<noteq> [] \<Longrightarrow>
    asc lo (r @ [(a, n)]) hi' \<longleftrightarrow> fst (last r) + snd (last r) \<le> a \<and> 0 < n \<and> a + n \<le> hi'" for a
    by (induction r arbitrary: lo) auto
  with assms show ?thesis by auto
qed

lemma asc_drop:
  assumes "asc lo (r @ p # r') hi"
  shows "asc lo (r @ r') hi"
proof -
  from assms obtain m where m: "asc lo r m" "asc m (p # r') hi" by (auto simp: asc_append)
  then have "asc m r' hi" by (cases p) (auto elim: asc_mono)
  with m show "asc lo (r @ r') hi" by (auto simp: asc_append)
qed

lemma ring_ok_drop:
  assumes "ring_ok lo hi (r @ p # r')"
  shows "ring_ok lo hi (r @ r')"
proof -
  from assms obtain ys zs where s: "r @ p # r' = ys @ zs" and k: "ring_runs lo hi ys zs"
    by (auto simp: ring_ok_def)
  from s consider u where "ys = r @ p # u" "r' = u @ zs" | u where "r = ys @ u" "zs = u @ p # r'"
    by (auto simp: append_eq_append_conv2 Cons_eq_append_conv append_eq_Cons_conv)
  then show ?thesis
  proof cases
    case 1
    have ad: "asc lo (r @ u) hi" using k 1 asc_drop [of lo r p u hi] by (auto simp: ring_runs_def)
    show ?thesis
    proof (cases "r @ u = []")
      case True
      with 1 k have "zs = [] \<or> asc lo zs (fst p)" "asc lo [p] hi" by (auto simp: ring_runs_def)
      then have "asc lo zs hi" using asc_le by (cases p) (fastforce elim: asc_mono)
      with True 1 show ?thesis by (auto simp: ring_ok_def ring_runs_def)
    next
      case False
      have "fst (hd ys) \<le> fst (hd (r @ u))"
      proof (cases r)
        case Nil
        with k 1 False show ?thesis by (cases u; cases p) (auto simp: ring_runs_def)
      qed (use 1 in auto)
      with k ad False asc_mono [of lo zs "fst (hd ys)" lo "fst (hd (r @ u))"]
      have "ring_runs lo hi (r @ u) zs" by (auto simp: ring_runs_def)
      with 1 show ?thesis unfolding ring_ok_def by (metis append.assoc)
    qed
  next
    case 2
    with k have "ring_runs lo hi ys (u @ r')"
      using asc_drop [of lo u p r'] by (auto simp: ring_runs_def)
    with 2 show ?thesis unfolding ring_ok_def by (metis append.assoc)
  qed
qed

lemma asc_disjoint:
  assumes "asc lo r hi" "i < j" "j < length r"
  shows "fst (r ! i) + snd (r ! i) \<le> fst (r ! j)"
  using assms
proof (induction r arbitrary: lo i j)
  case (Cons p r)
  obtain a n where p: "p = (a, n)" by (cases p)
  show ?case
  proof (cases i)
    case 0
    with Cons.prems obtain j' where j: "j = Suc j'" by (cases j) auto
    with Cons.prems p have "asc (a + n) r hi" "r ! j' \<in> set r" by auto
    then have "a + n \<le> fst (r ! j')" using asc_bounds by (metis prod.collapse)
    with 0 j p show ?thesis by simp
  next
    case (Suc i')
    with Cons.prems obtain j' where "j = Suc j'" by (cases j) auto
    with Suc Cons p show ?thesis by auto
  qed
qed simp

definition apart :: "nat \<times> nat \<Rightarrow> nat \<times> nat \<Rightarrow> bool" where
  "apart p q \<longleftrightarrow> fst p + snd p \<le> fst q \<or> fst q + snd q \<le> fst p"

lemma ring_ok_bounds:
  assumes "ring_ok lo hi r" "(a, n) \<in> set r"
  shows "lo \<le> a \<and> 0 < n \<and> a + n \<le> hi"
proof -
  from assms(1) obtain ys zs where s: "r = ys @ zs" and k: "ring_runs lo hi ys zs"
    by (auto simp: ring_ok_def)
  show ?thesis
  proof (cases "(a, n) \<in> set ys")
    case True
    with k asc_bounds show ?thesis unfolding ring_runs_def by blast
  next
    case False
    with s assms(2) have z: "(a, n) \<in> set zs" by auto
    with k have y: "ys \<noteq> []" "asc lo zs (fst (hd ys))" "asc lo ys hi" by (auto simp: ring_runs_def)
    have "fst (hd ys) \<le> hi" using asc_bounds [OF y(3), of "fst (hd ys)" "snd (hd ys)"] y(1) by auto
    with asc_bounds [OF y(2) z] show ?thesis by linarith
  qed
qed

lemma ring_ok_apart:
  assumes "ring_ok lo hi r" "i < j" "j < length r"
  shows "apart (r ! i) (r ! j)"
proof -
  from assms(1) obtain ys zs where s: "r = ys @ zs" and k: "ring_runs lo hi ys zs"
    by (auto simp: ring_ok_def)
  consider "j < length ys" | "length ys \<le> i" | "i < length ys" "length ys \<le> j" by linarith
  then show ?thesis
  proof cases
    case 1
    with s k assms asc_disjoint [of lo ys hi i j] show ?thesis
      by (auto simp: nth_append apart_def ring_runs_def)
  next
    case 2
    with s k assms asc_disjoint [of lo zs _ "i - length ys" "j - length ys"] show ?thesis
      by (auto simp: nth_append apart_def ring_runs_def)
  next
    case 3
    then have z: "zs ! (j - length ys) \<in> set zs" using s assms(3) by auto
    with k have y: "ys \<noteq> []" "asc lo zs (fst (hd ys))" "asc lo ys hi" by (auto simp: ring_runs_def)
    have "fst (hd ys) \<le> fst (ys ! i)"
      using asc_disjoint [OF y(3), of 0 i] 3(1) y(1) by (cases "i = 0") (auto simp: hd_conv_nth)
    with asc_bounds [OF y(2), of "fst (zs ! (j - length ys))" "snd (zs ! (j - length ys))"] z
    show ?thesis using s 3 by (auto simp: nth_append apart_def)
  qed
qed

section \<open>The two lists\<close>

definition rbb_rep :: "rt_rbb \<Rightarrow> nat list \<Rightarrow> nat list \<Rightarrow> bool" where
  "rbb_rep s xs fs \<longleftrightarrow>
    sl_chain (rbb_links s) BlkList (map Blk xs) \<and> sl_chain (rbb_links s) FreeList (map Blk fs) \<and>
    distinct (xs @ fs) \<and> rbb_tail s = last (BlkList # map Blk xs) \<and>
    length (rbb_set s) = unat (rbb_max s) \<and> set (xs @ fs) \<subseteq> {..<length (rbb_set s)} \<and>
    (\<forall>i < length (rbb_set s). blk_status (rbb_set s ! i) = RT_RBB_BLK_UNUSED \<longleftrightarrow> i \<notin> set xs)"

lemma inj_Blk [simp]: "inj_on Blk A"
  by (simp add: inj_on_def)

lemma set_simps [simp]:
  "rbb_set (set_links h s) = rbb_set s" "rbb_links (set_links h s) = h"
  "rbb_tail (set_links h s) = rbb_tail s" "rbb_max (set_links h s) = rbb_max s"
  "rbb_buf (set_links h s) = rbb_buf s" "rbb_size (set_links h s) = rbb_size s"
  "rbb_set (set_blk i b s) = (rbb_set s)[i := b]" "rbb_links (set_blk i b s) = rbb_links s"
  "rbb_tail (set_blk i b s) = rbb_tail s" "rbb_max (set_blk i b s) = rbb_max s"
  "rbb_buf (set_blk i b s) = rbb_buf s" "rbb_size (set_blk i b s) = rbb_size s"
  by (simp_all add: set_links_def set_blk_def)

lemma get_blk_Some [simp]: "i < length (rbb_set s) \<Longrightarrow> get_blk i s = Some (rbb_set s ! i)"
  by (simp add: get_blk_def)

lemma get_blk_eq: "get_blk i s = Some b \<longleftrightarrow> i < length (rbb_set s) \<and> b = rbb_set s ! i"
  by (auto simp: get_blk_def)

text \<open>Unlinking a node in the middle of a chain.\<close>

lemma sl_chain_cut:
  "sl_chain h a (ys @ n # zs) \<Longrightarrow> distinct (a # ys @ n # zs) \<Longrightarrow>
   slist_find_prev a n h = Some (last (a # ys)) \<and> h (last (a # ys)) = Some n \<and>
   sl_chain (h(last (a # ys) := h n, n := None)) a (ys @ zs)"
proof (induction ys arbitrary: a)
  case Nil
  have "sl_chain (h(a := h n, n := None)) a zs"
  proof (cases zs)
    case (Cons z zs')
    have "sl_chain (h(a := h n, n := None)) z zs'"
      by (rule sl_chain_cong [of h]) (use Nil Cons in auto)
    with Nil Cons show ?thesis by auto
  qed (use Nil in auto)
  with Nil show ?case by (auto simp: slist_find_prev.simps fun_upd_def)
next
  case (Cons y ys)
  have "a \<noteq> last (y # ys)" using Cons.prems(2) last_in_set [of "y # ys"] by auto
  with Cons show ?case by (auto simp: slist_find_prev.simps [of a])
qed

lemma sl_chain_frame:
  "sl_chain h a (map Blk xs) \<Longrightarrow> (\<And>i. i \<in> set xs \<Longrightarrow> h' (Blk i) = h (Blk i)) \<Longrightarrow> h' a = h a \<Longrightarrow>
   sl_chain h' a (map Blk xs)"
  by (rule sl_chain_cong [of h]) auto

lemma last_Blk: "last (map Blk xs) \<in> Blk ` set xs" if "xs \<noteq> []"
  using that by (simp add: last_map)

lemma last_in_use:
  assumes "set xs \<inter> set fs = {}"
  shows "last (BlkList # map Blk xs) \<notin> insert FreeList (Blk ` set fs)"
proof (cases "xs = []")
  case False
  then have "last xs \<notin> set fs" using assms last_in_set [of xs] by blast
  with False show ?thesis by (auto simp: last_map)
qed auto

lemma free_frame:
  "sl_chain h FreeList (map Blk fs) \<Longrightarrow> c \<notin> insert FreeList (Blk ` set fs) \<Longrightarrow> d \<notin> insert FreeList (Blk ` set fs) \<Longrightarrow>
   sl_chain (h(c := x, d := y)) FreeList (map Blk fs)"
  by (rule sl_chain_frame [of h]) auto

section \<open>The operations on the two lists\<close>

lemma find_empty_none: "rbb_rep s xs [] \<Longrightarrow> find_empty_blk_in_set s = Some (None, s)"
  by (simp add: find_empty_blk_in_set_def rt_slist_isempty_def rbb_rep_def)

lemma find_empty_some:
  assumes "rbb_rep s xs (f # fs)"
  shows "\<exists>s'. find_empty_blk_in_set s = Some (Some f, s') \<and> rbb_rep s' xs fs \<and>
    rbb_set s' = rbb_set s \<and> rbb_buf s' = rbb_buf s \<and> rbb_size s' = rbb_size s"
proof -
  let ?h = "rbb_links s"
  have c: "?h FreeList = Some (Blk f)" "sl_chain ?h (Blk f) (map Blk fs)" using assms by (auto simp: rbb_rep_def)
  have k: "f \<notin> set xs" "f \<notin> set fs" "f < length (rbb_set s)"
    "blk_status (rbb_set s ! f) = RT_RBB_BLK_UNUSED" using assms by (auto simp: rbb_rep_def)
  have p: "slist_find_prev FreeList (Blk f) ?h = Some FreeList" using c by (simp add: slist_find_prev.simps)
  let ?h' = "?h(FreeList := ?h (Blk f))"
  have "sl_chain ?h' FreeList (map Blk fs)"
    using c(2) sl_chain_frame [of ?h _ "tl fs" ?h'] by (cases fs) auto
  moreover have "sl_chain ?h' BlkList (map Blk xs)"
    by (rule sl_chain_frame [of ?h]) (use assms in \<open>auto simp: rbb_rep_def\<close>)
  ultimately have "rbb_rep (set_links ?h' s) xs fs" using assms by (auto simp: rbb_rep_def)
  with c p k show ?thesis
    by (simp add: find_empty_blk_in_set_def rt_slist_isempty_def rt_slist_first_def rt_slist_remove_def)
qed

definition taken :: "u32 \<Rightarrow> u32 \<Rightarrow> rt_rbb_blk \<Rightarrow> rt_rbb_blk" where
  "taken buf n b = b\<lparr>blk_status := RT_RBB_BLK_INITED, blk_buf := buf, blk_size := n\<rparr>"

lemma rbb_take_rep:
  assumes r: "rbb_rep s xs fs" and i: "i \<notin> set (xs @ fs)" "i < length (rbb_set s)"
  shows "\<exists>s'. rbb_take i buf n s = Some (Some i, s') \<and> rbb_rep s' (xs @ [i]) fs \<and>
    rbb_set s' = (rbb_set s)[i := taken buf n (rbb_set s ! i)] \<and>
    rbb_buf s' = rbb_buf s \<and> rbb_size s' = rbb_size s"
proof -
  let ?h = "rbb_links s"
  let ?h' = "?h(last (BlkList # map Blk xs) := Some (Blk i), Blk i := None)"
  have t: "rbb_tail s = last (BlkList # map Blk xs)" using r by (simp add: rbb_rep_def)
  have "sl_chain ?h' BlkList (map Blk xs @ [Blk i])"
    by (rule sl_chain_snoc) (use r i in \<open>auto simp: rbb_rep_def distinct_map\<close>)
  moreover have "sl_chain ?h' FreeList (map Blk fs)"
    by (rule free_frame [OF _ last_in_use]) (use r i in \<open>auto simp: rbb_rep_def\<close>)
  ultimately have q: "rbb_rep (set_blk i (taken buf n (rbb_set s ! i)) ((set_links ?h' s)\<lparr>rbb_tail := Blk i\<rparr>)) (xs @ [i]) fs"
    using r i by (simp add: rbb_rep_def taken_def nth_list_update del: last.simps)
      (auto simp: last_map)
  have "rbb_list_append (Blk i) s = (set_links ?h' s)\<lparr>rbb_tail := Blk i\<rparr>"
    unfolding rbb_list_append_def t by (simp add: Let_def set_links_def del: last.simps)
  then have "rbb_take i buf n s =
      Some (Some i, set_blk i (taken buf n (rbb_set s ! i)) ((set_links ?h' s)\<lparr>rbb_tail := Blk i\<rparr>))"
    using i by (simp add: rbb_take_def taken_def del: last.simps)
  with q show ?thesis by (simp del: last.simps)
qed

lemma rbb_list_remove_rep:
  assumes r: "rbb_rep s (ys @ i # zs) fs"
  shows "\<exists>s'. rbb_list_remove (Blk i) s = Some s' \<and> rbb_links s' (Blk i) = None \<and>
    sl_chain (rbb_links s') BlkList (map Blk (ys @ zs)) \<and> sl_chain (rbb_links s') FreeList (map Blk fs) \<and>
    rbb_tail s' = last (BlkList # map Blk (ys @ zs)) \<and> rbb_set s' = rbb_set s \<and>
    rbb_max s' = rbb_max s \<and> rbb_buf s' = rbb_buf s \<and> rbb_size s' = rbb_size s"
proof -
  let ?h = "rbb_links s" and ?p = "last (BlkList # map Blk ys)"
  have c: "slist_find_prev BlkList (Blk i) ?h = Some ?p" "?h ?p = Some (Blk i)"
    "sl_chain (?h(?p := ?h (Blk i), Blk i := None)) BlkList (map Blk (ys @ zs))"
  proof -
    have "sl_chain ?h BlkList (map Blk ys @ Blk i # map Blk zs)"
      "distinct (BlkList # map Blk ys @ Blk i # map Blk zs)"
      using r by (auto simp: rbb_rep_def distinct_map)
    from sl_chain_cut [OF this] show "slist_find_prev BlkList (Blk i) ?h = Some ?p" "?h ?p = Some (Blk i)"
      "sl_chain (?h(?p := ?h (Blk i), Blk i := None)) BlkList (map Blk (ys @ zs))"
      by (simp_all only: map_append simp_thms)
  qed
  have f: "sl_chain (?h(?p := ?h (Blk i), Blk i := None)) FreeList (map Blk fs)"
    by (rule free_frame [OF _ last_in_use]) (use r in \<open>auto simp: rbb_rep_def\<close>)
  have "rbb_tail s = Blk i \<longleftrightarrow> zs = []"
    using r last_Blk [of zs] by (cases "zs = []") (auto simp: rbb_rep_def)
  with c f r show ?thesis
    by (auto simp: rbb_list_remove_def Let_def rbb_rep_def set_links_def)
qed

lemma rbb_free_rep:
  assumes r: "rbb_rep s (ys @ i # zs) fs"
  shows "\<exists>s'. rt_rbb_blk_free i s = Some s' \<and> rbb_rep s' (ys @ zs) (i # fs) \<and>
    rbb_set s' = (rbb_set s)[i := (rbb_set s ! i)\<lparr>blk_status := RT_RBB_BLK_UNUSED\<rparr>] \<and>
    rbb_buf s' = rbb_buf s \<and> rbb_size s' = rbb_size s"
proof -
  from rbb_list_remove_rep [OF r] obtain s1 where s1: "rbb_list_remove (Blk i) s = Some s1"
    "rbb_links s1 (Blk i) = None"
    "sl_chain (rbb_links s1) BlkList (map Blk (ys @ zs))" "sl_chain (rbb_links s1) FreeList (map Blk fs)"
    "rbb_tail s1 = last (BlkList # map Blk (ys @ zs))" "rbb_set s1 = rbb_set s"
    "rbb_max s1 = rbb_max s" "rbb_buf s1 = rbb_buf s" "rbb_size s1 = rbb_size s" by (elim exE conjE)
  have k: "i < length (rbb_set s)" "blk_status (rbb_set s ! i) \<noteq> RT_RBB_BLK_UNUSED"
    "i \<notin> set (ys @ zs @ fs)" using r by (auto simp: rbb_rep_def)
  let ?h = "rt_slist_insert FreeList (Blk i) (rbb_links s1)"
  have h: "?h = (rbb_links s1)(Blk i := rbb_links s1 FreeList, FreeList := Some (Blk i))"
    by (simp add: rt_slist_insert_def)
  have "sl_chain ?h BlkList (map Blk (ys @ zs))"
    by (rule sl_chain_frame [OF s1(3)]) (use k in \<open>auto simp: h\<close>)
  moreover have "sl_chain ?h FreeList (map Blk (i # fs))"
    using slist_insert [of "rbb_links s1" FreeList "map Blk fs" "Blk i"] s1(4) k r
    by (auto simp: slist_def rbb_rep_def distinct_map)
  ultimately show ?thesis
    using r k s1 by (auto simp: rt_rbb_blk_free_def rbb_rep_def nth_list_update)
qed

section \<open>Where a block is placed\<close>

definition span :: "rt_rbb \<Rightarrow> nat \<Rightarrow> nat \<times> nat" where
  "span s i = (unat (blk_buf (rbb_set s ! i)), unat (blk_size (rbb_set s ! i)))"

definition rbb_lo :: "rt_rbb \<Rightarrow> nat" where
  "rbb_lo s = unat (rbb_buf s)"

definition rbb_hi :: "rt_rbb \<Rightarrow> nat" where
  "rbb_hi s = unat (rbb_buf s) + unat (rbb_size s)"

definition rbb_inv :: "rt_rbb \<Rightarrow> nat list \<Rightarrow> nat list \<Rightarrow> bool" where
  "rbb_inv s xs fs \<longleftrightarrow> rbb_rep s xs fs \<and> rbb_hi s < 2 ^ 32 \<and>
    ring_ok (rbb_lo s) (rbb_hi s) (map (span s) xs)"

text \<open>The choice of the address, on the ranges of the blocks in use: behind the youngest block
  while that stays inside the buffer, or else at the bottom of the buffer below the oldest one;
  once the blocks have wrapped, only in the gap up to the oldest one.\<close>

definition place :: "nat \<Rightarrow> nat \<Rightarrow> (nat \<times> nat) list \<Rightarrow> nat \<Rightarrow> nat option" where
  "place lo hi r n =
    (if r = [] then Some lo
     else let a = fst (hd r); e = fst (last r) + snd (last r)
       in if a \<le> fst (last r)
          then if e + n \<le> hi then Some e else if lo + n \<le> a then Some lo else None
          else if e + n \<le> a then Some e else None)"

lemma ring_runs_wrapped:
  assumes "ring_runs lo hi ys zs" "ys \<noteq> []"
  shows "fst (hd ys) \<le> fst (last (ys @ zs)) \<longleftrightarrow> zs = []"
proof (cases "zs = []")
  case True
  have "asc lo ys hi" using assms by (simp add: ring_runs_def)
  then have "fst (hd ys) \<le> fst (last ys)"
    using asc_disjoint [of lo ys hi 0 "length ys - 1"] assms(2)
    by (cases "length ys = 1") (auto simp: hd_conv_nth last_conv_nth)
  with True show ?thesis by simp
next
  case False
  then have "asc lo zs (fst (hd ys))" "last zs \<in> set zs" using assms by (auto simp: ring_runs_def)
  from asc_bounds [OF this(1), of "fst (last zs)" "snd (last zs)"] this(2) False show ?thesis by simp
qed

lemma ring_ok_place:
  assumes r: "ring_ok lo hi r" and n: "0 < n" "lo + n \<le> hi" and p: "place lo hi r n = Some a"
  shows "ring_ok lo hi (r @ [(a, n)])"
proof -
  from r obtain ys zs where s: "r = ys @ zs" and k: "ring_runs lo hi ys zs" by (auto simp: ring_ok_def)
  show ?thesis
  proof (cases "ys = []")
    case True
    with k s have "r = []" by (auto simp: ring_runs_def)
    with n p have "ring_runs lo hi [(a, n)] []" by (auto simp: ring_runs_def place_def)
    with \<open>r = []\<close> show ?thesis unfolding ring_ok_def by (intro exI [of _ "[(a, n)]"] exI [of _ "[]"]) simp
  next
    case False
    note w = ring_runs_wrapped [OF k False]
    show ?thesis
    proof (cases "zs = []")
      case True
      from p w s True False consider "a = fst (last ys) + snd (last ys)" "a + n \<le> hi" | "a = lo" "lo + n \<le> fst (hd ys)"
        by (auto simp: place_def Let_def split: if_splits)
      then show ?thesis
      proof cases
        case 1
        then have "ring_runs lo hi (ys @ [(a, n)]) []"
          using asc_snoc [of lo ys hi n hi] k False n by (auto simp: ring_runs_def)
        with s True show ?thesis unfolding ring_ok_def by (intro exI [of _ "ys @ [(a, n)]"] exI [of _ "[]"]) simp
      next
        case 2
        with k False n have "ring_runs lo hi ys [(a, n)]" by (auto simp: ring_runs_def)
        with s True show ?thesis unfolding ring_ok_def by (intro exI [of _ ys] exI [of _ "[(a, n)]"]) simp
      qed
    next
      case zs: False
      with p w s False have "a = fst (last zs) + snd (last zs)" "a + n \<le> fst (hd ys)"
        by (auto simp: place_def Let_def split: if_splits)
      then have "ring_runs lo hi ys (zs @ [(a, n)])"
        using asc_snoc [of lo zs "fst (hd ys)" n "fst (hd ys)"] k False zs n by (auto simp: ring_runs_def)
      with s show ?thesis unfolding ring_ok_def by (intro exI [of _ ys] exI [of _ "zs @ [(a, n)]"]) simp
    qed
  qed
qed

section \<open>Allocation\<close>

lemma span_frame:
  "i \<notin> set xs \<Longrightarrow> rbb_set s' = (rbb_set s)[i := b] \<Longrightarrow> map (span s') xs = map (span s) xs"
  by (intro map_cong refl) (metis nth_list_update_neq span_def)

lemma rbb_take_inv:
  assumes r: "rbb_rep s xs fs" and i: "i \<notin> set (xs @ fs)" "i < length (rbb_set s)"
    and k: "rbb_hi s < 2 ^ 32" "ring_ok (rbb_lo s) (rbb_hi s) (map (span s) xs @ [(unat buf, unat n)])"
  shows "\<exists>s'. rbb_take i buf n s = Some (Some i, s') \<and> rbb_inv s' (xs @ [i]) fs \<and>
    rbb_set s' = (rbb_set s)[i := taken buf n (rbb_set s ! i)]"
proof -
  from rbb_take_rep [OF r i, of buf n] obtain s' where s': "rbb_take i buf n s = Some (Some i, s')"
    "rbb_rep s' (xs @ [i]) fs" "rbb_set s' = (rbb_set s)[i := taken buf n (rbb_set s ! i)]"
    "rbb_buf s' = rbb_buf s" "rbb_size s' = rbb_size s" by (elim exE conjE)
  have "map (span s') (xs @ [i]) = map (span s) xs @ [(unat buf, unat n)]"
    using span_frame [OF _ s'(3), of xs] i s'(3) by (auto simp: span_def taken_def)
  then have "rbb_inv s' (xs @ [i]) fs" using k s' unfolding rbb_inv_def rbb_lo_def rbb_hi_def by argo
  with s' show ?thesis by simp
qed

lemma rbb_inv_set_links:
  "rbb_inv s xs fs \<Longrightarrow> rbb_rep s' xs fs' \<Longrightarrow> rbb_set s' = rbb_set s \<Longrightarrow> rbb_buf s' = rbb_buf s \<Longrightarrow>
   rbb_size s' = rbb_size s \<Longrightarrow> rbb_inv s' xs fs'"
  by (simp add: rbb_inv_def rbb_lo_def rbb_hi_def span_def [abs_def])

lemma unat_gap:
  assumes "unat (a :: u32) + unat b \<le> unat c"
  shows "unat (a + b) = unat a + unat b" and "unat (c - (a + b)) = unat c - (unat a + unat b)"
proof -
  have "unat c < 2 ^ 32" using unsigned_less [of c] by simp
  with assms show s: "unat (a + b) = unat a + unat b" by (intro unat_plus_less) simp
  with assms show "unat (c - (a + b)) = unat c - (unat a + unat b)"
    by (subst unat_minus_le) (simp_all add: word_le_nat_alt)
qed

text \<open>The code's comparisons agree with \<open>place\<close> on the ranges.\<close>

definition alloc_choice :: "u32 \<Rightarrow> rt_rbb_blk \<Rightarrow> rt_rbb_blk \<Rightarrow> rt_rbb \<Rightarrow> u32 option" where
  "alloc_choice n head tail s =
    (if blk_buf head \<le> blk_buf tail
     then if (rbb_buf s + rbb_size s) - (blk_buf tail + blk_size tail) \<ge> n then Some (blk_buf tail + blk_size tail)
       else if blk_buf head - rbb_buf s \<ge> n then Some (rbb_buf s) else None
     else if blk_buf head - (blk_buf tail + blk_size tail) \<ge> n then Some (blk_buf tail + blk_size tail)
       else None)"

lemma alloc_choice_place:
  assumes i: "rbb_inv s xs fs" and xs: "xs \<noteq> []"
  shows "map_option unat (alloc_choice n (rbb_set s ! hd xs) (rbb_set s ! last xs) s) =
    place (rbb_lo s) (rbb_hi s) (map (span s) xs) (unat n)"
proof -
  let ?h = "rbb_set s ! hd xs" and ?t = "rbb_set s ! last xs" and ?r = "map (span s) xs"
  have ok: "ring_ok (rbb_lo s) (rbb_hi s) ?r" and hi: "rbb_hi s < 2 ^ 32" using i by (auto simp: rbb_inv_def)
  have h: "hd ?r = (unat (blk_buf ?h), unat (blk_size ?h))" using xs by (simp add: hd_map span_def)
  have t: "last ?r = (unat (blk_buf ?t), unat (blk_size ?t))" using xs by (simp add: last_map span_def)
  have "hd ?r \<in> set ?r" "last ?r \<in> set ?r" using xs by (metis hd_in_set list.map_disc_iff, metis last_in_set list.map_disc_iff)
  then have b: "rbb_lo s \<le> unat (blk_buf ?h)" "unat (blk_buf ?t) + unat (blk_size ?t) \<le> rbb_hi s"
    using ring_ok_bounds [OF ok] h t by (metis, metis)
  have top: "unat (rbb_buf s + rbb_size s) = rbb_hi s"
    using hi by (subst unat_plus_less) (simp_all add: rbb_hi_def)
  have e: "unat (blk_buf ?t) + unat (blk_size ?t) \<le> unat (rbb_buf s + rbb_size s)" using b top by simp
  have e2: "unat (blk_buf ?h - rbb_buf s) = unat (blk_buf ?h) - rbb_lo s"
    using b(1) by (subst unat_minus_le) (simp_all add: word_le_nat_alt rbb_lo_def)
  have w: "unat (blk_buf ?t) + unat (blk_size ?t) \<le> unat (blk_buf ?h)" if "\<not> blk_buf ?h \<le> blk_buf ?t"
  proof -
    obtain ys zs where s: "?r = ys @ zs" "ring_runs (rbb_lo s) (rbb_hi s) ys zs" using ok by (auto simp: ring_ok_def)
    have ys: "ys \<noteq> []" using s xs by (auto simp: ring_runs_def)
    have "zs \<noteq> []" using ring_runs_wrapped [OF s(2) ys] that h t s(1) ys by (auto simp: word_le_nat_alt)
    then have "asc (rbb_lo s) zs (fst (hd ys))" "last ?r \<in> set zs" "hd ys = hd ?r"
      using s ys by (auto simp: ring_runs_def)
    with asc_bounds [of "rbb_lo s" zs "fst (hd ys)"] h t show ?thesis by (metis fst_conv)
  qed
  have g: "unat (blk_buf ?h - (blk_buf ?t + blk_size ?t)) =
      unat (blk_buf ?h) - (unat (blk_buf ?t) + unat (blk_size ?t))" if "\<not> blk_buf ?h \<le> blk_buf ?t"
    by (rule unat_gap(2) [OF w [OF that]])
  show ?thesis
  proof (cases "blk_buf ?h \<le> blk_buf ?t")
    case True
    then show ?thesis using xs unat_gap [OF e] e2 top b h t
      by (simp add: alloc_choice_def place_def Let_def word_le_nat_alt)
        (auto simp: rbb_lo_def le_diff_conv2 add.commute)
  next
    case False
    then show ?thesis using xs unat_gap(1) [OF e] g [OF False] w [OF False] h t
      by (auto simp: alloc_choice_def place_def Let_def word_le_nat_alt)
  qed
qed

lemma alloc_unfold:
  assumes r: "rbb_rep s xs (f # fs)" and n: "n < 2 ^ 24"
  shows "\<exists>s1. rbb_rep s1 xs fs \<and> rbb_set s1 = rbb_set s \<and> rbb_buf s1 = rbb_buf s \<and> rbb_size s1 = rbb_size s \<and>
    rt_rbb_blk_alloc n s =
      (case (if xs = [] then Some (rbb_buf s)
             else alloc_choice n (rbb_set s ! hd xs) (rbb_set s ! last xs) s) of
         None \<Rightarrow> Some (None, s1)
       | Some a \<Rightarrow> rbb_take f a n s1)"
proof -
  from find_empty_some [OF r] obtain s1 where s1: "find_empty_blk_in_set s = Some (Some f, s1)"
    "rbb_rep s1 xs fs" "rbb_set s1 = rbb_set s" "rbb_buf s1 = rbb_buf s" "rbb_size s1 = rbb_size s"
    by (elim exE conjE)
  have "rt_rbb_blk_alloc n s =
      (case (if xs = [] then Some (rbb_buf s)
             else alloc_choice n (rbb_set s ! hd xs) (rbb_set s ! last xs) s) of
         None \<Rightarrow> Some (None, s1) | Some a \<Rightarrow> rbb_take f a n s1)"
  proof (cases xs)
    case Nil
    with s1 n show ?thesis by (simp add: rt_rbb_blk_alloc_def rt_slist_isempty_def rbb_rep_def)
  next
    case (Cons x ys)
    then have k: "rbb_links s1 BlkList = Some (Blk x)" "rbb_tail s1 = Blk (last xs)"
      "x < length (rbb_set s)" "last xs < length (rbb_set s)"
      using s1(2,3) last_in_set [of xs] by (auto simp: rbb_rep_def last_map)
    with s1 n Cons show ?thesis
      by (simp add: rt_rbb_blk_alloc_def rt_slist_isempty_def rt_slist_first_def alloc_choice_def Let_def)
  qed
  with s1 show ?thesis by (intro exI [of _ s1] conjI)
qed

lemma alloc_place:
  assumes i: "rbb_inv s xs (f # fs)" and n: "0 < n" "n < 2 ^ 24" "n \<le> rbb_size s"
  shows "\<exists>s'. case place (rbb_lo s) (rbb_hi s) (map (span s) xs) (unat n) of
      None \<Rightarrow> rt_rbb_blk_alloc n s = Some (None, s') \<and> rbb_inv s' xs fs \<and> rbb_set s' = rbb_set s
    | Some a \<Rightarrow> rt_rbb_blk_alloc n s = Some (Some f, s') \<and> rbb_inv s' (xs @ [f]) fs \<and>
        rbb_set s' = (rbb_set s)[f := taken (of_nat a) n (rbb_set s ! f)]"
proof -
  let ?p = "place (rbb_lo s) (rbb_hi s) (map (span s) xs) (unat n)"
  define c where "c = (if xs = [] then Some (rbb_buf s)
    else alloc_choice n (rbb_set s ! hd xs) (rbb_set s ! last xs) s)"
  have r: "rbb_rep s xs (f # fs)" and ok: "ring_ok (rbb_lo s) (rbb_hi s) (map (span s) xs)"
    and hi: "rbb_hi s < 2 ^ 32" using i by (auto simp: rbb_inv_def)
  have c: "map_option unat c = ?p"
    using alloc_choice_place [OF i, of n] by (auto simp: c_def place_def rbb_lo_def)
  from alloc_unfold [OF r n(2)] obtain s1 where s1: "rbb_rep s1 xs fs" "rbb_set s1 = rbb_set s"
    "rbb_buf s1 = rbb_buf s" "rbb_size s1 = rbb_size s"
    "rt_rbb_blk_alloc n s = (case c of None \<Rightarrow> Some (None, s1) | Some a \<Rightarrow> rbb_take f a n s1)"
    unfolding c_def [symmetric] by (elim exE conjE)
  have i1: "rbb_inv s1 xs fs" by (rule rbb_inv_set_links [OF i s1(1-4)])
  have l: "rbb_lo s1 = rbb_lo s" "rbb_hi s1 = rbb_hi s" "map (span s1) xs = map (span s) xs"
    using s1 by (simp_all add: rbb_lo_def rbb_hi_def span_def)
  show ?thesis
  proof (cases c)
    case None
    with s1 i1 c show ?thesis by (intro exI [of _ s1]) auto
  next
    case (Some a)
    then have p: "?p = Some (unat a)" using c by simp
    have f: "f \<notin> set (xs @ fs)" "f < length (rbb_set s1)" using r s1(2) by (auto simp: rbb_rep_def)
    have "0 < unat n" "rbb_lo s + unat n \<le> rbb_hi s"
      using n by (simp_all add: unat_gt_0 rbb_lo_def rbb_hi_def word_le_nat_alt)
    from ring_ok_place [OF ok this p]
    have "ring_ok (rbb_lo s1) (rbb_hi s1) (map (span s1) xs @ [(unat a, unat n)])" unfolding l .
    from rbb_take_inv [OF s1(1) f _ this] l hi obtain s' where
      "rbb_take f a n s1 = Some (Some f, s')" "rbb_inv s' (xs @ [f]) fs"
      "rbb_set s' = (rbb_set s1)[f := taken a n (rbb_set s1 ! f)]" by auto
    with p s1 Some show ?thesis by (intro exI [of _ s']) simp
  qed
qed

section \<open>The other operations\<close>

lemma rbb_status_inv:
  assumes "rbb_inv s xs fs" "i \<in> set xs" "st \<noteq> RT_RBB_BLK_UNUSED"
  shows "rbb_inv (set_blk i ((rbb_set s ! i)\<lparr>blk_status := st\<rparr>) s) xs fs"
proof -
  have i: "i < length (rbb_set s)" using assms by (auto simp: rbb_inv_def rbb_rep_def)
  have "span (set_blk i ((rbb_set s ! i)\<lparr>blk_status := st\<rparr>) s) = span s"
    using i by (intro ext) (simp add: span_def nth_list_update)
  moreover have "blk_status ((rbb_set s)[i := b\<lparr>blk_status := st\<rparr>] ! j) =
      (if j = i then st else blk_status (rbb_set s ! j))" for b j
    using i by (simp add: nth_list_update)
  ultimately show ?thesis using assms
    by (auto simp: rbb_inv_def rbb_rep_def rbb_lo_def rbb_hi_def)
qed

lemma in_use: "rbb_inv s xs fs \<Longrightarrow> i < length (rbb_set s) \<Longrightarrow> i \<in> set xs \<longleftrightarrow> blk_status (rbb_set s ! i) \<noteq> RT_RBB_BLK_UNUSED"
  by (auto simp: rbb_inv_def rbb_rep_def)

lemma rbb_put_inv:
  assumes "rbb_inv s xs fs" "rt_rbb_blk_put i s = Some s'"
  shows "rbb_inv s' xs fs"
  using assms rbb_status_inv [of s xs fs i RT_RBB_BLK_PUT] in_use [of s xs fs i]
  by (auto simp: rt_rbb_blk_put_def get_blk_eq elim!: bind_SomeE)

lemma sl_chain_next: "sl_chain h a (ys @ n # zs) \<Longrightarrow> sl_chain h n zs"
  by (induction ys arbitrary: a) auto

lemma rbb_free_inv:
  assumes i: "rbb_inv s xs fs" and f: "rt_rbb_blk_free i s = Some s'"
  shows "i \<in> set xs \<and> rbb_inv s' (remove1 i xs) (i # fs) \<and>
    rbb_set s' = (rbb_set s)[i := (rbb_set s ! i)\<lparr>blk_status := RT_RBB_BLK_UNUSED\<rparr>]"
proof -
  have k: "i < length (rbb_set s)" "blk_status (rbb_set s ! i) \<noteq> RT_RBB_BLK_UNUSED"
    using f by (auto simp: rt_rbb_blk_free_def get_blk_eq elim!: bind_SomeE)
  then have x: "i \<in> set xs" using in_use [OF i] by simp
  then obtain ys zs where s: "xs = ys @ i # zs" by (metis split_list)
  have r: "rbb_rep s (ys @ i # zs) fs" using i s by (simp add: rbb_inv_def)
  from rbb_free_rep [OF r] f have s': "rbb_rep s' (ys @ zs) (i # fs)"
    "rbb_set s' = (rbb_set s)[i := (rbb_set s ! i)\<lparr>blk_status := RT_RBB_BLK_UNUSED\<rparr>]"
    "rbb_buf s' = rbb_buf s" "rbb_size s' = rbb_size s" by auto
  have d: "i \<notin> set (ys @ zs)" using r by (auto simp: rbb_rep_def)
  have "ring_ok (rbb_lo s) (rbb_hi s) (map (span s) (ys @ zs))"
    using ring_ok_drop [of _ _ "map (span s) ys" "span s i" "map (span s) zs"] i s by (simp add: rbb_inv_def)
  moreover have "map (span s') (ys @ zs) = map (span s) (ys @ zs)" by (rule span_frame [OF d s'(2)])
  ultimately have "rbb_inv s' (ys @ zs) (i # fs)"
    using i s' unfolding rbb_inv_def rbb_lo_def rbb_hi_def by argo
  moreover have "remove1 i xs = ys @ zs" using s d by (simp add: remove1_append)
  ultimately show ?thesis using x s' by simp
qed

definition is_put :: "rt_rbb \<Rightarrow> nat \<Rightarrow> bool" where
  "is_put s i \<longleftrightarrow> blk_status (rbb_set s ! i) = RT_RBB_BLK_PUT"

definition mark_got :: "nat \<Rightarrow> rt_rbb \<Rightarrow> rt_rbb" where
  "mark_got i s = set_blk i ((rbb_set s ! i)\<lparr>blk_status := RT_RBB_BLK_GET\<rparr>) s"

lemma get_from_find:
  "sl_chain (rbb_links s) a (map Blk xs) \<Longrightarrow> set xs \<subseteq> {..<length (rbb_set s)} \<Longrightarrow>
   rbb_get_from (rbb_links s a) s =
     (case find (is_put s) xs of None \<Rightarrow> Some (None, s) | Some i \<Rightarrow> Some (Some i, mark_got i s))"
proof (induction xs arbitrary: a)
  case Nil
  then show ?case by (simp add: rbb_get_from.simps)
next
  case (Cons x xs)
  then show ?case by (simp add: rbb_get_from.simps [of "Some (Blk x)"] is_put_def mark_got_def)
qed

lemma get_find:
  assumes "rbb_inv s xs fs"
  shows "rt_rbb_blk_get s =
    (case find (is_put s) xs of None \<Rightarrow> Some (None, s) | Some i \<Rightarrow> Some (Some i, mark_got i s))"
  using assms get_from_find [of s BlkList xs]
  by (cases xs) (auto simp: rt_rbb_blk_get_def rt_slist_isempty_def rt_slist_first_def rbb_inv_def rbb_rep_def)

lemma mark_got_inv: "rbb_inv s xs fs \<Longrightarrow> i \<in> set xs \<Longrightarrow> rbb_inv (mark_got i s) xs fs"
  unfolding mark_got_def by (rule rbb_status_inv) auto

lemma rbb_get_inv:
  assumes "rbb_inv s xs fs" "rt_rbb_blk_get s = Some (r, s')"
  shows "rbb_inv s' xs fs"
  using assms mark_got_inv [OF assms(1)]
  by (auto simp: get_find [OF assms(1)] find_Some_iff split: option.splits)

section \<open>Queues of blocks\<close>

text \<open>The blocks a queue takes after its block \<open>l\<close>: as long as they are put, lie above
  the one before and fit. \<open>None\<close> is a run that no block ends.\<close>

fun run_from :: "rt_rbb \<Rightarrow> u32 \<Rightarrow> nat \<Rightarrow> u32 \<Rightarrow> nat list \<Rightarrow> (u32 \<times> nat list) option" where
  "run_from s len l t [] = None"
| "run_from s len l t (i # is) =
    (if \<not> is_put s i \<or> blk_buf (rbb_set s ! l) > blk_buf (rbb_set s ! i) \<or> t + blk_size (rbb_set s ! i) > len
     then Some (t, [])
     else map_option (\<lambda>(t', r). (t', i # r)) (run_from s len i (t + blk_size (rbb_set s ! i)) is))"

definition queue_run :: "rt_rbb \<Rightarrow> u32 \<Rightarrow> nat list \<Rightarrow> (u32 \<times> nat list) option" where
  "queue_run s len xs =
    (case dropWhile (\<lambda>i. \<not> is_put s i) xs of
       [] \<Rightarrow> None
     | i # is \<Rightarrow> map_option (\<lambda>(t, r). (t, i # r)) (run_from s len i (blk_size (rbb_set s ! i)) is))"

lemma update_same:
  "f (g b) = f b \<Longrightarrow> b = bs ! i \<Longrightarrow> f (bs[i := g b] ! j) = f (bs ! j)"
  by (cases "i < length bs"; cases "i = j") (simp_all add: list_update_beyond)

lemma mark_got_simps [simp]:
  "rbb_links (mark_got i s) = rbb_links s" "length (rbb_set (mark_got i s)) = length (rbb_set s)"
  "blk_buf (rbb_set (mark_got i s) ! j) = blk_buf (rbb_set s ! j)"
  "blk_size (rbb_set (mark_got i s) ! j) = blk_size (rbb_set s ! j)"
  by (simp_all add: mark_got_def update_same)

lemma is_put_mark_got [simp]: "j \<noteq> i \<Longrightarrow> is_put (mark_got i s) j = is_put s j"
  by (simp add: is_put_def mark_got_def)

lemma run_from_mark: "i \<notin> set is \<Longrightarrow> run_from (mark_got i s) len l t is = run_from s len l t is"
  by (induction "is" arbitrary: l t) (auto intro!: option.map_cong)

lemma queue_from_step:
  assumes "n < length (rbb_set s)" "l < length (rbb_set s)"
  shows "rbb_queue_from (Some (Blk n)) tmp (Some l) t len q s =
    (if \<not> is_put s n \<or> blk_buf (rbb_set s ! l) > blk_buf (rbb_set s ! n) \<or> t + blk_size (rbb_set s ! n) > len
     then Some (t, q, s)
     else case tmp of None \<Rightarrow> None
      | Some m \<Rightarrow> rbb_queue_from (Some m) (rbb_links s m) (Some n) (t + blk_size (rbb_set s ! n)) len
          (q\<lparr>q_num := q_num q + 1\<rparr>) (mark_got n s))"
  using assms
  by (cases tmp) (simp_all add: rbb_queue_from.simps [of "Some (Blk n)"] is_put_def mark_got_def)

lemma queue_from_run:
  "sl_chain (rbb_links s) (Blk n) (map Blk is) \<Longrightarrow>
   distinct (n # is) \<Longrightarrow> set (n # is) \<subseteq> {..<length (rbb_set s)} \<Longrightarrow> l < length (rbb_set s) \<Longrightarrow>
   rbb_queue_from (Some (Blk n)) (rbb_links s (Blk n)) (Some l) t len q s =
   (case run_from s len l t (n # is) of None \<Rightarrow> None
    | Some (t', r) \<Rightarrow> Some (t', q\<lparr>q_num := q_num q + of_nat (length r)\<rparr>, fold mark_got r s))"
proof (induction "is" arbitrary: n l t q s)
  case Nil
  then show ?case by (simp add: queue_from_step)
next
  case (Cons i "is")
  then have m: "rbb_links s (Blk n) = Some (Blk i)" "sl_chain (rbb_links s) (Blk i) (map Blk is)" by auto
  let ?t = "t + blk_size (rbb_set s ! n)" and ?q = "q\<lparr>q_num := q_num q + 1\<rparr>"
  have "rbb_queue_from (Some (Blk i)) (rbb_links (mark_got n s) (Blk i)) (Some n) ?t len ?q (mark_got n s) =
    (case run_from (mark_got n s) len n ?t (i # is) of None \<Rightarrow> None
     | Some (t', r) \<Rightarrow> Some (t', ?q\<lparr>q_num := q_num ?q + of_nat (length r)\<rparr>, fold mark_got r (mark_got n s)))"
    by (rule Cons.IH) (use Cons.prems m in auto)
  moreover have "run_from (mark_got n s) len n ?t (i # is) = run_from s len n ?t (i # is)"
    by (rule run_from_mark) (use Cons.prems in auto)
  ultimately have rec: "rbb_queue_from (Some (Blk i)) (rbb_links s (Blk i)) (Some n) ?t len ?q (mark_got n s) =
    (case run_from s len n ?t (i # is) of None \<Rightarrow> None
     | Some (t', r) \<Rightarrow> Some (t', ?q\<lparr>q_num := q_num ?q + of_nat (length r)\<rparr>, fold mark_got r (mark_got n s)))"
    by (simp only: mark_got_simps)
  have len: "n < length (rbb_set s)" using Cons.prems by simp
  show ?case
    unfolding queue_from_step [OF len Cons.prems(4)] m(1) option.case rec run_from.simps(2) [of s len l t n]
    by (cases "run_from s len n ?t (i # is)") (auto simp del: run_from.simps simp: add_ac)
qed

lemma queue_first_run:
  "sl_chain (rbb_links s) (Blk n) (map Blk is) \<Longrightarrow>
   distinct (n # is) \<Longrightarrow> set (n # is) \<subseteq> {..<length (rbb_set s)} \<Longrightarrow>
   rbb_queue_from (Some (Blk n)) (rbb_links s (Blk n)) None 0 len q s =
   (case queue_run s len (n # is) of None \<Rightarrow> None
    | Some (t, r) \<Rightarrow> Some (t, \<lparr>q_blocks = Some (hd r), q_num = of_nat (length r)\<rparr>, fold mark_got r s))"
proof (induction "is" arbitrary: n)
  case Nil
  then show ?case by (simp add: rbb_queue_from.simps [of "Some (Blk n)"] queue_run_def)
next
  case (Cons i "is")
  then have m: "rbb_links s (Blk n) = Some (Blk i)" "sl_chain (rbb_links s) (Blk i) (map Blk is)"
    and len: "n < length (rbb_set s)" by auto
  show ?case
  proof (cases "is_put s n")
    case False
    moreover have "queue_run s len (n # i # is) = queue_run s len (i # is)"
      using False by (simp add: queue_run_def)
    ultimately show ?thesis
      using Cons.IH [of i] Cons.prems m
      by (simp add: rbb_queue_from.simps [of "Some (Blk n)"] is_put_def)
  next
    case True
    let ?t = "blk_size (rbb_set s ! n)"
    have "rbb_queue_from (Some (Blk i)) (rbb_links (mark_got n s) (Blk i)) (Some n) ?t len
        \<lparr>q_blocks = Some n, q_num = 1\<rparr> (mark_got n s) =
      (case run_from (mark_got n s) len n ?t (i # is) of None \<Rightarrow> None
       | Some (t', r) \<Rightarrow> Some (t', \<lparr>q_blocks = Some n, q_num = 1\<rparr>\<lparr>q_num := q_num \<lparr>q_blocks = Some n, q_num = 1\<rparr> + of_nat (length r)\<rparr>,
           fold mark_got r (mark_got n s)))"
      by (rule queue_from_run) (use Cons.prems m in auto)
    moreover have "run_from (mark_got n s) len n ?t (i # is) = run_from s len n ?t (i # is)"
      by (rule run_from_mark) (use Cons.prems in auto)
    moreover have "rbb_queue_from (Some (Blk n)) (rbb_links s (Blk n)) None 0 len q s =
      rbb_queue_from (Some (Blk i)) (rbb_links (mark_got n s) (Blk i)) (Some n) ?t len
        \<lparr>q_blocks = Some n, q_num = 1\<rparr> (mark_got n s)"
      using True len m(1) unfolding rbb_queue_from.simps [of "Some (Blk n)"]
      by (cases q) (simp add: is_put_def mark_got_def)
    ultimately show ?thesis using True
      by (cases "run_from s len n ?t (i # is)") (auto simp del: run_from.simps simp: queue_run_def)
  qed
qed

lemma queue_get_run:
  assumes i: "rbb_inv s xs fs"
  shows "rt_rbb_blk_queue_get len q s =
    (if xs = [] then Some (0, q, s)
     else case queue_run s len xs of None \<Rightarrow> None
     | Some (t, r) \<Rightarrow> Some (t, \<lparr>q_blocks = Some (hd r), q_num = of_nat (length r)\<rparr>, fold mark_got r s))"
proof (cases xs)
  case (Cons n "is")
  with i queue_first_run [of s n "is" len q] show ?thesis
    by (auto simp: rt_rbb_blk_queue_get_def rt_slist_isempty_def rt_slist_first_def rbb_inv_def rbb_rep_def)
qed (use i in \<open>simp add: rt_rbb_blk_queue_get_def rt_slist_isempty_def rbb_inv_def rbb_rep_def\<close>)

definition total_size :: "rt_rbb \<Rightarrow> nat list \<Rightarrow> u32" where
  "total_size s r = sum_list (map (\<lambda>i. blk_size (rbb_set s ! i)) r)"

definition run_ends :: "rt_rbb \<Rightarrow> u32 \<Rightarrow> nat \<Rightarrow> u32 \<Rightarrow> nat \<Rightarrow> bool" where
  "run_ends s len l t j \<longleftrightarrow> \<not> is_put s j \<or> blk_buf (rbb_set s ! l) > blk_buf (rbb_set s ! j) \<or>
    t + blk_size (rbb_set s ! j) > len"

lemma run_from_split:
  "run_from s len l t is = Some (t', r) \<Longrightarrow>
   \<exists>j js. is = r @ j # js \<and> (\<forall>i \<in> set r. is_put s i) \<and> sorted (map (\<lambda>i. blk_buf (rbb_set s ! i)) (l # r)) \<and>
     t' = t + total_size s r \<and> (r = [] \<or> t' \<le> len) \<and> run_ends s len (last (l # r)) t' j"
proof (induction "is" arbitrary: l t t' r)
  case (Cons i "is")
  show ?case
  proof (cases "run_ends s len l t i")
    case True
    with Cons.prems have "t' = t" "r = []" by (auto simp: run_ends_def)
    with True show ?thesis by (simp add: total_size_def)
  next
    case False
    let ?t = "t + blk_size (rbb_set s ! i)"
    from False Cons.prems obtain r' where r: "run_from s len i ?t is = Some (t', r')" "r = i # r'"
      by (auto simp: run_ends_def)
    from Cons.IH [OF r(1)] obtain j js where k: "is = r' @ j # js" "\<forall>i \<in> set r'. is_put s i"
      "sorted (map (\<lambda>i. blk_buf (rbb_set s ! i)) (i # r'))" "t' = ?t + total_size s r'"
      "r' = [] \<or> t' \<le> len" "run_ends s len (last (i # r')) t' j" by (elim exE conjE)
    have "t' \<le> len" using k(4,5) False by (auto simp: run_ends_def total_size_def not_less)
    moreover have "t' = t + total_size s r" using k(4) r(2) by (simp add: total_size_def add_ac)
    moreover have "sorted (map (\<lambda>i. blk_buf (rbb_set s ! i)) (l # r))" "\<forall>i \<in> set r. is_put s i"
      using k(2,3) False r(2) by (auto simp: run_ends_def not_less)
    moreover have "i # is = r @ j # js" "last (l # r) = last (i # r')" using k(1) r(2) by simp_all
    ultimately show ?thesis using k(6) by (intro exI [of _ j] exI [of _ js] conjI disjI2) simp_all
  qed
qed simp

lemma queue_run_split:
  assumes "queue_run s len xs = Some (t, r)"
  shows "\<exists>pre j js. xs = pre @ r @ j # js \<and> r \<noteq> [] \<and> (\<forall>i \<in> set pre. \<not> is_put s i) \<and>
    (\<forall>i \<in> set r. is_put s i) \<and> sorted (map (\<lambda>i. blk_buf (rbb_set s ! i)) r) \<and> t = total_size s r \<and>
    (length r = 1 \<or> t \<le> len) \<and> run_ends s len (last r) t j"
proof -
  from assms obtain i is' r' where d: "dropWhile (\<lambda>i. \<not> is_put s i) xs = i # is'" "r = i # r'"
    "run_from s len i (blk_size (rbb_set s ! i)) is' = Some (t, r')"
    by (auto simp: queue_run_def split: list.splits)
  from run_from_split [OF d(3)] obtain j js where k: "is' = r' @ j # js" "\<forall>i \<in> set r'. is_put s i"
    "sorted (map (\<lambda>i. blk_buf (rbb_set s ! i)) (i # r'))" "t = blk_size (rbb_set s ! i) + total_size s r'"
    "r' = [] \<or> t \<le> len" "run_ends s len (last (i # r')) t j" by (elim exE conjE)
  have x: "xs = takeWhile (\<lambda>i. \<not> is_put s i) xs @ r @ j # js"
    using d k(1) by (metis append_Cons append_assoc takeWhile_dropWhile_id)
  have p: "is_put s i" using d(1) by (simp add: dropWhile_eq_Cons_conv)
  have t: "t = total_size s r" using d(2) k(4) by (simp add: total_size_def)
  show ?thesis
    by (intro exI [of _ "takeWhile (\<lambda>i. \<not> is_put s i) xs"] exI [of _ j] exI [of _ js] conjI)
      (use x p t d(2) k in \<open>auto dest: set_takeWhileD\<close>)
qed

text \<open>A run that no block ends goes on to the end of the list.\<close>

lemma run_from_none:
  "run_from s len l t is = None \<Longrightarrow>
   (\<forall>i \<in> set is. is_put s i) \<and> sorted (map (\<lambda>i. blk_buf (rbb_set s ! i)) (l # is)) \<and>
     (is = [] \<or> t + total_size s is \<le> len)"
proof (induction "is" arbitrary: l t)
  case (Cons i "is")
  let ?t = "t + blk_size (rbb_set s ! i)"
  have c: "is_put s i" "blk_buf (rbb_set s ! l) \<le> blk_buf (rbb_set s ! i)" "?t \<le> len" "run_from s len i ?t is = None"
    using Cons.prems by (auto simp: not_less split: if_splits)
  from Cons.IH [OF c(4)] c(1-3) show ?case by (auto simp: total_size_def add_ac)
qed (simp add: total_size_def)

lemma queue_run_none:
  assumes "queue_run s len xs = None"
  shows "\<exists>pre r. xs = pre @ r \<and> (\<forall>i \<in> set pre. \<not> is_put s i) \<and> (\<forall>i \<in> set r. is_put s i) \<and>
    sorted (map (\<lambda>i. blk_buf (rbb_set s ! i)) r) \<and> (length r \<le> 1 \<or> total_size s r \<le> len)"
proof (cases "dropWhile (\<lambda>i. \<not> is_put s i) xs")
  case Nil
  then show ?thesis by (intro exI [of _ xs] exI [of _ "[]"]) (simp add: dropWhile_eq_Nil_conv)
next
  case (Cons i is')
  with assms have "run_from s len i (blk_size (rbb_set s ! i)) is' = None" by (simp add: queue_run_def)
  note k = run_from_none [OF this]
  have p: "is_put s i" using Cons by (simp add: dropWhile_eq_Cons_conv)
  have x: "xs = takeWhile (\<lambda>i. \<not> is_put s i) xs @ i # is'" using Cons by (metis takeWhile_dropWhile_id)
  have t: "length (i # is') \<le> 1 \<or> total_size s (i # is') \<le> len" using k by (auto simp: total_size_def)
  show ?thesis
    by (intro exI [of _ "takeWhile (\<lambda>i. \<not> is_put s i) xs"] exI [of _ "i # is'"] conjI)
      (use x p t k in \<open>auto dest: set_takeWhileD\<close>)
qed

text \<open>A ring without gaps: each block in use starts where the one allocated before it ends, or
  at the bottom of the buffer. Allocation keeps this, and so does the release of the oldest block.
  The blocks of a queue then follow each other without a gap.\<close>

definition tight :: "rt_rbb \<Rightarrow> nat list \<Rightarrow> bool" where
  "tight s xs \<longleftrightarrow> (\<forall>k. Suc k < length xs \<longrightarrow>
    fst (span s (xs ! Suc k)) = rbb_lo s \<or>
    fst (span s (xs ! Suc k)) = fst (span s (xs ! k)) + snd (span s (xs ! k)))"

definition contiguous :: "rt_rbb \<Rightarrow> nat list \<Rightarrow> bool" where
  "contiguous s r \<longleftrightarrow> (\<forall>k. Suc k < length r \<longrightarrow>
    fst (span s (r ! Suc k)) = fst (span s (r ! k)) + snd (span s (r ! k)))"

lemma tight_contiguous:
  assumes i: "rbb_inv s (pre @ r @ rest) fs" and t: "tight s (pre @ r @ rest)"
    and o: "sorted (map (\<lambda>i. blk_buf (rbb_set s ! i)) r)"
  shows "contiguous s r"
  unfolding contiguous_def
proof (intro allI impI)
  fix k
  assume k: "Suc k < length r"
  let ?xs = "pre @ r @ rest" and ?n = "length pre + k"
  have n: "?xs ! ?n = r ! k" "?xs ! Suc ?n = r ! Suc k" "Suc ?n < length ?xs" using k by (auto simp: nth_append)
  have ok: "ring_ok (rbb_lo s) (rbb_hi s) (map (span s) ?xs)" using i by (simp add: rbb_inv_def)
  have "span s (r ! k) \<in> set (map (span s) ?xs)" using k by simp
  with ring_ok_bounds [OF ok, of "fst (span s (r ! k))" "snd (span s (r ! k))"]
  have b: "rbb_lo s \<le> fst (span s (r ! k))" "0 < snd (span s (r ! k))" by simp_all
  have b2: "0 < snd (span s (r ! Suc k))"
    using ring_ok_bounds [OF ok, of "fst (span s (r ! Suc k))" "snd (span s (r ! Suc k))"] k by simp
  have a: "apart (span s (r ! k)) (span s (r ! Suc k))"
    using ring_ok_apart [OF ok, of ?n "Suc ?n"] nth_map [of ?n ?xs "span s"] nth_map [of "Suc ?n" ?xs "span s"] n
    by (simp del: map_append)
  have "blk_buf (rbb_set s ! (r ! k)) \<le> blk_buf (rbb_set s ! (r ! Suc k))"
    using sorted_nth_mono [OF o, of k "Suc k"] k by simp
  then have le: "fst (span s (r ! k)) \<le> fst (span s (r ! Suc k))" by (simp add: span_def word_le_nat_alt)
  have "fst (span s (r ! Suc k)) \<noteq> rbb_lo s" using a b b2 le by (auto simp: apart_def)
  moreover have "fst (span s (r ! Suc k)) = rbb_lo s \<or>
    fst (span s (r ! Suc k)) = fst (span s (r ! k)) + snd (span s (r ! k))"
    using t n unfolding tight_def by metis
  ultimately show "fst (span s (r ! Suc k)) = fst (span s (r ! k)) + snd (span s (r ! k))" by blast
qed

lemma tight_oldest: "tight s (i # xs) \<Longrightarrow> tight s xs"
  unfolding tight_def by (metis Suc_less_eq length_Cons nth_Cons_Suc)

lemma mark_all_inv: "rbb_inv s xs fs \<Longrightarrow> set r \<subseteq> set xs \<Longrightarrow> rbb_inv (fold mark_got r s) xs fs"
  by (induction r arbitrary: s) (auto intro: mark_got_inv)

lemma queue_get_inv:
  assumes i: "rbb_inv s xs fs" and g: "rt_rbb_blk_queue_get len q s = Some (t, q', s')"
  shows "rbb_inv s' xs fs"
proof (cases "xs = []")
  case True
  with i g show ?thesis by (simp add: queue_get_run [OF i])
next
  case False
  with g obtain r where r: "queue_run s len xs = Some (t, r)" "s' = fold mark_got r s"
    by (auto simp: queue_get_run [OF i] split: option.splits)
  from queue_run_split [OF r(1)] have "set r \<subseteq> set xs" by auto
  from mark_all_inv [OF i this] r(2) show ?thesis by simp
qed

lemma queue_release_inv:
  "rbb_inv s xs fs \<Longrightarrow> rbb_queue_release n blk s = Some s' \<Longrightarrow> \<exists>xs' fs'. rbb_inv s' xs' fs'"
proof (induction n arbitrary: blk s xs fs)
  case (Suc n)
  from Suc.prems(2) obtain i s1 where k: "rt_rbb_blk_free i s = Some s1"
    "rbb_queue_release n (rbb_links s (Blk i) \<bind> entry) s1 = Some s'"
    by (auto simp: Let_def elim!: bind_SomeE)
  from rbb_free_inv [OF Suc.prems(1) k(1)] have "rbb_inv s1 (remove1 i xs) (i # fs)" by simp
  from Suc.IH [OF this k(2)] show ?case .
qed auto

lemma queue_sum_run:
  "sl_chain (rbb_links s) (Blk i) (map Blk (r @ js)) \<Longrightarrow> set (i # r) \<subseteq> {..<length (rbb_set s)} \<Longrightarrow>
   rbb_queue_sum (Suc (length r)) (Some i) t s = Some (t + total_size s (i # r))"
proof (induction r arbitrary: i t)
  case (Cons k r)
  then have "rbb_links s (Blk i) = Some (Blk k)" by simp
  with Cons.prems Cons.IH [of k "t + blk_size (rbb_set s ! i)"] show ?case
    by (simp add: total_size_def add.assoc)
qed (simp add: total_size_def)

lemma queue_release_run:
  "rbb_inv s (pre @ i # r @ js) fs \<Longrightarrow>
   \<exists>s'. rbb_queue_release (Suc (length r)) (Some i) s = Some s' \<and> rbb_inv s' (pre @ js) (rev (i # r) @ fs)"
proof (induction r arbitrary: i s fs)
  case Nil
  then have k: "i < length (rbb_set s)" "i \<notin> set (pre @ js)" "rbb_rep s (pre @ i # js) fs"
    by (auto simp: rbb_inv_def rbb_rep_def)
  from rbb_free_rep [OF k(3)] obtain s1 where s1: "rt_rbb_blk_free i s = Some s1" by (elim exE conjE)
  from rbb_free_inv [OF Nil s1] k have "rbb_inv s1 (pre @ js) (i # fs)" by (simp add: remove1_append)
  with s1 k show ?case by (simp add: Let_def)
next
  case (Cons k r)
  then have d: "i < length (rbb_set s)" "i \<notin> set (pre @ (k # r) @ js)" "rbb_rep s (pre @ i # (k # r) @ js) fs"
    "sl_chain (rbb_links s) BlkList (map Blk pre @ Blk i # map Blk (k # r @ js))"
    by (auto simp: rbb_inv_def rbb_rep_def)
  from sl_chain_next [OF d(4)] have m: "rbb_links s (Blk i) = Some (Blk k)" by simp
  from rbb_free_rep [OF d(3)] obtain s1 where s1: "rt_rbb_blk_free i s = Some s1" by (elim exE conjE)
  from rbb_free_inv [OF Cons.prems s1] d(2) have "rbb_inv s1 (pre @ k # r @ js) (i # fs)" by (simp add: remove1_append)
  from Cons.IH [OF this] s1 d(1) m show ?case by (simp add: Let_def)
qed

section \<open>Initialisation\<close>

lemma init_blks:
  "sl_chain (rbb_links s) FreeList (map Blk (rev [0..<i])) \<Longrightarrow> rbb_links s BlkList = None \<Longrightarrow>
   i + n = length (rbb_set s) \<Longrightarrow> (\<forall>j < i. blk_status (rbb_set s ! j) = RT_RBB_BLK_UNUSED) \<Longrightarrow>
   \<exists>s'. rbb_init_blks i n s = Some s' \<and>
     sl_chain (rbb_links s') FreeList (map Blk (rev [0..<i + n])) \<and> rbb_links s' BlkList = None \<and>
     length (rbb_set s') = length (rbb_set s) \<and>
     (\<forall>j < i + n. blk_status (rbb_set s' ! j) = RT_RBB_BLK_UNUSED) \<and>
     rbb_tail s' = rbb_tail s \<and> rbb_max s' = rbb_max s \<and> rbb_buf s' = rbb_buf s \<and> rbb_size s' = rbb_size s"
proof (induction n arbitrary: i s)
  case (Suc n)
  let ?b = "(rbb_set s ! i)\<lparr>blk_status := RT_RBB_BLK_UNUSED\<rparr>"
  let ?h = "rt_slist_insert FreeList (Blk i) (rt_slist_init (Blk i) (rbb_links s))"
  let ?s = "set_links ?h (set_links (rt_slist_init (Blk i) (rbb_links s)) (set_blk i ?b s))"
  have "sl_chain (rt_slist_init (Blk i) (rbb_links s)) FreeList (map Blk (rev [0..<i]))"
    by (rule sl_chain_frame [OF Suc.prems(1)]) (simp_all add: rt_slist_init_def)
  then have "slist ?h FreeList (Blk i # map Blk (rev [0..<i]))"
    by (intro slist_insert) (auto simp: slist_def distinct_map)
  then have "sl_chain (rbb_links ?s) FreeList (map Blk (rev [0..<Suc i]))" by (simp add: slist_def)
  moreover have "rbb_links ?s BlkList = None" using Suc.prems(2) by (simp add: rt_slist_insert_def rt_slist_init_def)
  moreover have "Suc i + n = length (rbb_set ?s)" using Suc.prems(3) by simp
  moreover have "\<forall>j < Suc i. blk_status (rbb_set ?s ! j) = RT_RBB_BLK_UNUSED"
    using Suc.prems by (auto simp: nth_list_update less_Suc_eq)
  ultimately have "\<exists>s'. rbb_init_blks (Suc i) n ?s = Some s' \<and>
     sl_chain (rbb_links s') FreeList (map Blk (rev [0..<Suc i + n])) \<and> rbb_links s' BlkList = None \<and>
     length (rbb_set s') = length (rbb_set ?s) \<and>
     (\<forall>j < Suc i + n. blk_status (rbb_set s' ! j) = RT_RBB_BLK_UNUSED) \<and>
     rbb_tail s' = rbb_tail ?s \<and> rbb_max s' = rbb_max ?s \<and> rbb_buf s' = rbb_buf ?s \<and> rbb_size s' = rbb_size ?s"
    by (rule Suc.IH)
  moreover have "rbb_init_blks i (Suc n) s = rbb_init_blks (Suc i) n ?s" using Suc.prems(3) by simp
  ultimately show ?case by simp
qed auto

lemma rbb_init_inv:
  assumes "length block_set = unat blk_max_num" "unat buf + unat buf_size < 2 ^ 32" "buf \<noteq> 0"
  shows "\<exists>s. rt_rbb_init buf buf_size block_set blk_max_num h = Some s \<and>
    rbb_inv s [] (rev [0..<unat blk_max_num])"
proof -
  let ?s = "\<lparr>rbb_buf = buf, rbb_size = buf_size, rbb_set = block_set, rbb_max = blk_max_num,
    rbb_tail = BlkList, rbb_links = rt_slist_init FreeList (rt_slist_init BlkList h)\<rparr>"
  from init_blks [of ?s 0 "unat blk_max_num"] assms obtain s where
    "rbb_init_blks 0 (unat blk_max_num) ?s = Some s" "rbb_inv s [] (rev [0..<unat blk_max_num])"
    by (auto simp: rt_slist_init_def rbb_inv_def rbb_rep_def rbb_hi_def rbb_lo_def ring_ok_def ring_runs_def
          atLeast0LessThan)
  with assms(3) show ?thesis by (simp add: rt_rbb_init_def Let_def)
qed

section \<open>The life of a ring\<close>

text \<open>What clients do: they ask for at least one byte and at most the buffer.\<close>

inductive rbb_step :: "rt_rbb \<Rightarrow> rt_rbb \<Rightarrow> bool" where
  alloc: "n \<noteq> 0 \<Longrightarrow> n \<le> rbb_size s \<Longrightarrow> rt_rbb_blk_alloc n s = Some (r, s') \<Longrightarrow> rbb_step s s'"
| put: "rt_rbb_blk_put i s = Some s' \<Longrightarrow> rbb_step s s'"
| get: "rt_rbb_blk_get s = Some (r, s') \<Longrightarrow> rbb_step s s'"
| free: "rt_rbb_blk_free i s = Some s' \<Longrightarrow> rbb_step s s'"
| queue_get: "rt_rbb_blk_queue_get len q s = Some (t, q', s') \<Longrightarrow> rbb_step s s'"
| queue_free: "rt_rbb_blk_queue_free q s = Some s' \<Longrightarrow> rbb_step s s'"

inductive rbb_reach :: "rt_rbb \<Rightarrow> bool" where
  init: "length block_set = unat blk_max_num \<Longrightarrow> unat buf + unat buf_size < 2 ^ 32 \<Longrightarrow>
    rt_rbb_init buf buf_size block_set blk_max_num h = Some s \<Longrightarrow> rbb_reach s"
| step: "rbb_reach s \<Longrightarrow> rbb_step s s' \<Longrightarrow> rbb_reach s'"

lemma rbb_alloc_inv:
  assumes i: "rbb_inv s xs fs" and n: "n \<noteq> 0" "n \<le> rbb_size s" and a: "rt_rbb_blk_alloc n s = Some (r, s')"
  shows "\<exists>xs' fs'. rbb_inv s' xs' fs'"
proof (cases fs)
  case Nil
  with i a find_empty_none [of s xs] have "s' = s"
    by (auto simp: rt_rbb_blk_alloc_def rbb_inv_def elim!: bind_SomeE)
  with i show ?thesis by blast
next
  case (Cons f fs')
  have "n < 2 ^ 24" using a by (auto simp: rt_rbb_blk_alloc_def elim!: bind_SomeE)
  from alloc_place [OF _ _ this n(2), of xs f fs'] i n Cons a show ?thesis
    by (auto simp: word_neq_0_conv split: option.splits)
qed

lemma rbb_step_inv: "rbb_step s s' \<Longrightarrow> rbb_inv s xs fs \<Longrightarrow> \<exists>xs' fs'. rbb_inv s' xs' fs'"
proof (induction rule: rbb_step.induct)
  case alloc
  then show ?case using rbb_alloc_inv by blast
next
  case put
  then show ?case using rbb_put_inv by blast
next
  case get
  then show ?case using rbb_get_inv by blast
next
  case free
  then show ?case using rbb_free_inv by blast
next
  case queue_get
  then show ?case using queue_get_inv by blast
next
  case queue_free
  then show ?case unfolding rt_rbb_blk_queue_free_def using queue_release_inv by blast
qed

lemma rbb_reach_inv: "rbb_reach s \<Longrightarrow> \<exists>xs fs. rbb_inv s xs fs"
proof (induction rule: rbb_reach.induct)
  case (init block_set blk_max_num buf buf_size h s)
  then have "buf \<noteq> 0" by (auto simp: rt_rbb_init_def split: if_splits)
  with rbb_init_inv [OF init(1,2), of h] init show ?case by auto
next
  case step
  then show ?case using rbb_step_inv by blast
qed

section \<open>Traces\<close>

definition blank :: rt_rbb_blk where
  "blank = \<lparr>blk_status = RT_RBB_BLK_GET, blk_size = 0, blk_buf = 0\<rparr>"

definition ring4 :: "u32 \<Rightarrow> rt_rbb option" where
  "ring4 n = rt_rbb_init 0x20000000 n [blank, blank, blank, blank] 4 (\<lambda>_. None)"

lemma init_four: "rbb_init_blks 0 4 s = rbb_init_blks 0 (Suc (Suc (Suc (Suc 0)))) s"
  by (simp add: eval_nat_numeral)

lemmas trace_simps = ring4_def init_four blank_def rt_rbb_init_def Let_def
  rt_slist_init_def rt_slist_insert_def rt_rbb_blk_alloc_def find_empty_blk_in_set_def rt_slist_isempty_def
  rt_slist_first_def rt_slist_remove_def slist_find_prev.simps [of FreeList] slist_find_prev.simps [of BlkList]
  slist_find_prev.simps [of "Blk i" for i] get_blk_def rbb_take_def rbb_list_append_def set_links_def
  set_blk_def rt_rbb_blk_free_def rbb_list_remove_def

definition two_blocks :: "rt_rbb option" where
  "two_blocks = do {
    s \<leftarrow> ring4 8;
    (_, s) \<leftarrow> rt_rbb_blk_alloc 3 s;
    (_, s) \<leftarrow> rt_rbb_blk_alloc 4 s;
    Some s }"

lemma two_blocks_spans:
  "\<exists>s. two_blocks = Some s \<and> map blk_status (rbb_set s) =
      [RT_RBB_BLK_UNUSED, RT_RBB_BLK_UNUSED, RT_RBB_BLK_INITED, RT_RBB_BLK_INITED] \<and>
    map (span s) [3, 2] = [(0x20000000, 3), (0x20000003, 4)]"
  by (simp add: two_blocks_def trace_simps span_def)

definition zero_sized :: "rt_rbb option" where
  "zero_sized = do {
    s \<leftarrow> ring4 10;
    (_, s) \<leftarrow> rt_rbb_blk_alloc 4 s;
    (_, s) \<leftarrow> rt_rbb_blk_alloc 6 s;
    s \<leftarrow> rt_rbb_blk_free 3 s;
    (_, s) \<leftarrow> rt_rbb_blk_alloc 4 s;
    (_, s) \<leftarrow> rt_rbb_blk_alloc 0 s;
    (_, s) \<leftarrow> rt_rbb_blk_alloc 6 s;
    Some s }"

lemma zero_sized_overlap:
  "\<exists>s. zero_sized = Some s \<and> 
    map blk_status (rbb_set s) =
      [RT_RBB_BLK_INITED, RT_RBB_BLK_INITED, RT_RBB_BLK_INITED, RT_RBB_BLK_INITED] \<and>
    map (span s) [3, 2, 1, 0] =
      [(0x20000000, 4), (0x20000004, 6), (0x20000004, 0), (0x20000004, 6)]"
  by (simp add: zero_sized_def trace_simps span_def)

definition gapped :: "(u32 \<times> rt_rbb_blk_queue \<times> rt_rbb) option" where
  "gapped = do {
    s \<leftarrow> ring4 10;
    (_, s) \<leftarrow> rt_rbb_blk_alloc 2 s;
    (_, s) \<leftarrow> rt_rbb_blk_alloc 2 s;
    (_, s) \<leftarrow> rt_rbb_blk_alloc 2 s;
    (_, s) \<leftarrow> rt_rbb_blk_alloc 1 s;
    s \<leftarrow> rt_rbb_blk_put 3 s;
    s \<leftarrow> rt_rbb_blk_put 1 s;
    s \<leftarrow> rt_rbb_blk_free 2 s;
    rt_rbb_blk_queue_get 10 \<lparr>q_blocks = None, q_num = 0\<rparr> s }"

text \<open>A block freed out of order leaves a gap inside a queue, whose memory is then not one
  piece: the queue of the blocks 3 and 1 has 4 bytes and starts at \<open>0x20000000\<close>.\<close>

lemma gapped_queue:
  "\<exists>s. gapped = Some (4, \<lparr>q_blocks = Some 3, q_num = 2\<rparr>, s) \<and>
    map (span s) [3, 1] = [(0x20000000, 2), (0x20000004, 2)]"
  by (simp add: gapped_def trace_simps span_def rt_rbb_blk_put_def rt_rbb_blk_queue_get_def
      rbb_queue_from.simps [of "Some (Blk i)" for i])

lemma alloc_reach:
  "rbb_reach s \<Longrightarrow> n \<noteq> 0 \<Longrightarrow> n \<le> rbb_size s \<Longrightarrow> rt_rbb_blk_alloc n s = Some (r, s') \<Longrightarrow> rbb_reach s'"
  by (rule rbb_reach.step [OF _ rbb_step.alloc])

lemma alloc_size: "rt_rbb_blk_alloc n s = Some (r, s') \<Longrightarrow> rbb_size s' = rbb_size s"
  by (auto simp: rt_rbb_blk_alloc_def find_empty_blk_in_set_def rbb_take_def rbb_list_append_def Let_def
      split: if_splits option.splits elim!: bind_SomeE)

lemma two_blocks_reach:
  assumes "two_blocks = Some s"
  shows "rbb_reach s"
proof -
  from assms obtain s0 s1 r1 r2 where k: "ring4 8 = Some s0" "rt_rbb_blk_alloc 3 s0 = Some (r1, s1)"
    "rt_rbb_blk_alloc 4 s1 = Some (r2, s)"
    by (auto simp: two_blocks_def elim!: bind_SomeE)
  have "rbb_reach s0"
    using k(1) unfolding ring4_def by (rule rbb_reach.init [rotated 2]) simp_all
  moreover have "rbb_size s0 = 8" using k(1) by (auto simp: trace_simps)
  ultimately have "rbb_reach s1" "rbb_size s1 = 8"
    using alloc_reach [OF _ _ _ k(2)] alloc_size [OF k(2)] by simp_all
  with alloc_reach [OF _ _ _ k(3)] show ?thesis by simp
qed

text \<open>What the functions on a queue make of one that was got.\<close>

lemma queue_got:
  assumes i: "rbb_inv s xs fs"
    and g: "rt_rbb_blk_queue_get len q s = Some (t, \<lparr>q_blocks = Some (hd r), q_num = of_nat (length r)\<rparr>, fold mark_got r s)"
    and x: "xs = pre @ r @ j # js" "r \<noteq> []" and t: "t = total_size s r"
  defines "q' \<equiv> \<lparr>q_blocks = Some (hd r), q_num = of_nat (length r)\<rparr>" and "s' \<equiv> fold mark_got r s"
  shows "rt_rbb_blk_queue_len q' s' = Some t \<and> rt_rbb_blk_queue_buf q' s' = Some (blk_buf (rbb_set s ! hd r)) \<and>
    (\<exists>s''. rt_rbb_blk_queue_free q' s' = Some s'' \<and> rbb_inv s'' (pre @ j # js) (rev r @ fs))"
proof -
  obtain h r' where r: "r = h # r'" using x(2) by (cases r) auto
  have v: "rbb_inv s' (pre @ h # r' @ j # js) fs" using queue_get_inv [OF i g] x(1) r by (simp add: s'_def)
  have c: "distinct r" "set r \<subseteq> {..<unat (rbb_max s')}" "set r \<subseteq> {..<length (rbb_set s')}"
    "sl_chain (rbb_links s') BlkList (map Blk pre @ Blk h # map Blk (r' @ j # js))"
    using v r by (auto simp: rbb_inv_def rbb_rep_def)
  have "length r \<le> unat (rbb_max s')" using c(1,2) by (metis card_lessThan card_mono distinct_card finite_lessThan)
  moreover have "unat (rbb_max s') < 2 ^ 32" using unsigned_less [of "rbb_max s'"] by simp
  ultimately have "length r < 2 ^ 32" by linarith
  then have n: "unat (of_nat (length r) :: u32) = Suc (length r')"
    using r unfolding unat_of_nat by simp
  have m: "total_size (fold mark_got ys s) r = total_size s r \<and> blk_buf (rbb_set (fold mark_got ys s) ! k) = blk_buf (rbb_set s ! k)" for ys k
    by (induction ys arbitrary: s) (simp_all add: total_size_def)
  then have "total_size s' (h # r') = t" using t r s'_def by metis
  then have "rt_rbb_blk_queue_len q' s' = Some t"
    using queue_sum_run [OF sl_chain_next [OF c(4)], of 0] c(3) n r
    by (simp add: rt_rbb_blk_queue_len_def q'_def)
  moreover have "rt_rbb_blk_queue_buf q' s' = Some (blk_buf (rbb_set s ! hd r))"
    using c(3) r m [of r h] by (simp add: rt_rbb_blk_queue_buf_def q'_def s'_def)
  moreover have "\<exists>s''. rt_rbb_blk_queue_free q' s' = Some s'' \<and> rbb_inv s'' (pre @ j # js) (rev r @ fs)"
    using queue_release_run [OF v] n r by (simp add: rt_rbb_blk_queue_free_def q'_def)
  ultimately show ?thesis by blast
qed

text \<open>Allocation keeps a ring without gaps.\<close>

lemma alloc_buf: "rt_rbb_blk_alloc n s = Some (r, s') \<Longrightarrow> rbb_buf s' = rbb_buf s"
  by (auto simp: rt_rbb_blk_alloc_def find_empty_blk_in_set_def rbb_take_def rbb_list_append_def Let_def
      split: if_splits option.splits elim!: bind_SomeE)

lemma tight_alloc:
  assumes i: "rbb_inv s xs (f # fs)" and n: "0 < n" "n < 2 ^ 24" "n \<le> rbb_size s" and t: "tight s xs"
    and a: "rt_rbb_blk_alloc n s = Some (Some f, s')"
  shows "tight s' (xs @ [f])"
  unfolding tight_def
proof (intro allI impI)
  fix k
  assume k: "Suc k < length (xs @ [f])"
  have lo: "rbb_lo s' = rbb_lo s" using alloc_buf [OF a] by (simp add: rbb_lo_def)
  have fx: "f \<notin> set xs" "f < length (rbb_set s)" using i by (auto simp: rbb_inv_def rbb_rep_def)
  from alloc_place [OF i n] a obtain p where p: "place (rbb_lo s) (rbb_hi s) (map (span s) xs) (unat n) = Some p"
    "rbb_inv s' (xs @ [f]) fs" "rbb_set s' = (rbb_set s)[f := taken (of_nat p) n (rbb_set s ! f)]"
    by (auto split: option.splits)
  have old: "span s' j = span s j" if "j \<in> set xs" for j using that fx p(3) by (auto simp: span_def nth_list_update)
  have xs: "xs ! k' \<in> set xs" if "k' < length xs" for k' using that by simp
  show "fst (span s' ((xs @ [f]) ! Suc k)) = rbb_lo s' \<or>
    fst (span s' ((xs @ [f]) ! Suc k)) = fst (span s' ((xs @ [f]) ! k)) + snd (span s' ((xs @ [f]) ! k))"
  proof (cases "Suc k < length xs")
    case True
    with t old xs lo show ?thesis unfolding tight_def by (simp add: nth_append)
  next
    case False
    with k have e: "k = length xs - 1" "xs \<noteq> []" by auto
    have "last (map (span s) xs) = span s (xs ! k)" using e by (simp add: last_map last_conv_nth)
    then have q: "p = rbb_lo s \<or> p = fst (span s (xs ! k)) + snd (span s (xs ! k))"
      using p(1) e(2) by (auto simp: place_def Let_def split: if_splits)
    have ok: "ring_ok (rbb_lo s) (rbb_hi s) (map (span s) xs)" "rbb_hi s < 2 ^ 32" using i by (simp_all add: rbb_inv_def)
    have "fst (span s (xs ! k)) + snd (span s (xs ! k)) \<le> rbb_hi s"
      using ring_ok_bounds [OF ok(1), of "fst (span s (xs ! k))" "snd (span s (xs ! k))"] e by simp
    then have "p < 2 ^ 32" using q ok(2) by (auto simp: rbb_lo_def rbb_hi_def)
    then have "fst (span s' f) = p" using p(3) fx by (simp add: span_def taken_def unat_of_nat)
    moreover have "(xs @ [f]) ! Suc k = f" "(xs @ [f]) ! k = xs ! k" using e by (simp_all add: nth_append)
    moreover have "span s' (xs ! k) = span s (xs ! k)" using e by (intro old) simp
    ultimately show ?thesis using q lo by simp
  qed
qed

section \<open>Properties\<close>

text \<open>C32. In every state that clients reach who ask for at least one byte and at most the
  buffer, whatever the order of allocation, put, get and release, the blocks in use are inside
  the buffer and no two of them share a byte.\<close>

theorem rt_rbb_blocks_apart:
  assumes "rbb_reach s" and "i < length (rbb_set s)" "blk_status (rbb_set s ! i) \<noteq> RT_RBB_BLK_UNUSED"
    and "j < length (rbb_set s)" "blk_status (rbb_set s ! j) \<noteq> RT_RBB_BLK_UNUSED" "i \<noteq> j"
  shows "rbb_lo s \<le> fst (span s i) \<and> fst (span s i) + snd (span s i) \<le> rbb_hi s \<and>
    apart (span s i) (span s j)"
proof -
  from rbb_reach_inv [OF assms(1)] obtain xs fs where v: "rbb_inv s xs fs" by (elim exE)
  then have ok: "ring_ok (rbb_lo s) (rbb_hi s) (map (span s) xs)" by (simp add: rbb_inv_def)
  have m: "i \<in> set xs" "j \<in> set xs" using in_use [OF v] assms by auto
  then obtain a b where ab: "a < length xs" "xs ! a = i" "b < length xs" "xs ! b = j"
    by (metis in_set_conv_nth)
  then have "a < b \<or> b < a" using assms(6) by (metis linorder_neqE_nat)
  then have "apart (span s i) (span s j)"
    using ring_ok_apart [OF ok, of a b] ring_ok_apart [OF ok, of b a] ab by (auto simp: apart_def)
  moreover have "span s i \<in> set (map (span s) xs)" using m by simp
  ultimately show ?thesis using ring_ok_bounds [OF ok, of "fst (span s i)" "snd (span s i)"] by simp
qed

lemma rt_rbb_blocks_apart_witness:
  "\<exists>s. two_blocks = Some s \<and> apart (span s 3) (span s 2)"
proof -
  from two_blocks_spans obtain s where s: "two_blocks = Some s" "map blk_status (rbb_set s) =
      [RT_RBB_BLK_UNUSED, RT_RBB_BLK_UNUSED, RT_RBB_BLK_INITED, RT_RBB_BLK_INITED]" by (elim exE conjE)
  have l: "length (rbb_set s) = 4" using arg_cong [OF s(2), of length] by simp
  have st: "blk_status (rbb_set s ! k) = [RT_RBB_BLK_UNUSED, RT_RBB_BLK_UNUSED, RT_RBB_BLK_INITED, RT_RBB_BLK_INITED] ! k"
    if "k < 4" for k
    using nth_map [of k "rbb_set s" blk_status] that l unfolding s(2) by simp
  have "apart (span s 3) (span s 2)"
    using rt_rbb_blocks_apart [OF two_blocks_reach [OF s(1)], of 3 2] st [of 3] st [of 2] l by simp
  with s(1) show ?thesis by (intro exI [of _ s]) simp
qed

text \<open>C33. \<open>rt_rbb_blk_alloc\<close> implements the choice of an address on the list of the ranges in
  use: it takes the first free block and gives it the place behind the youngest block, or else
  the bottom of the buffer, when the range fits there, and links it as the youngest. When there
  is no place it answers null, but the free block it had taken is in neither list any more.\<close>

theorem rt_rbb_alloc_places:
  assumes "rbb_inv s xs (f # fs)" and "0 < n" "n < 2 ^ 24" "n \<le> rbb_size s"
  shows "\<exists>s'. case place (rbb_lo s) (rbb_hi s) (map (span s) xs) (unat n) of
      None \<Rightarrow> rt_rbb_blk_alloc n s = Some (None, s') \<and> rbb_inv s' xs fs \<and> rbb_set s' = rbb_set s
    | Some a \<Rightarrow> rt_rbb_blk_alloc n s = Some (Some f, s') \<and> rbb_inv s' (xs @ [f]) fs \<and>
        rbb_set s' = (rbb_set s)[f := taken (of_nat a) n (rbb_set s ! f)]"
  by (rule alloc_place [OF assms])

lemma ring4_inv: "\<exists>s. ring4 n = Some s \<and> rbb_inv s [] [3, 2, 1, 0] \<and> rbb_lo s = 0x20000000 \<and> rbb_size s = n"
  if "unat n < 2 ^ 31"
proof -
  from rbb_init_inv [of "[blank, blank, blank, blank]" 4 "0x20000000" n "\<lambda>_. None"] that
  obtain s where s: "ring4 n = Some s" "rbb_inv s [] (rev [0..<4])" by (auto simp: ring4_def)
  moreover have "rbb_lo s = 0x20000000" "rbb_size s = n" using s(1) by (auto simp: trace_simps rbb_lo_def)
  moreover have "rev [0..<4] = [3, 2, 1, 0 :: nat]" by (simp add: upt_rec)
  ultimately show ?thesis by metis
qed

lemma rt_rbb_alloc_places_witness:
  "\<exists>s s'. ring4 8 = Some s \<and> rt_rbb_blk_alloc 3 s = Some (Some 3, s') \<and> rbb_inv s' [3] [2, 1, 0]"
proof -
  from ring4_inv [of 8] obtain s where s: "ring4 8 = Some s" "rbb_inv s [] [3, 2, 1, 0]"
    "rbb_lo s = 0x20000000" "rbb_size s = 8" by auto
  have "\<exists>s'. rt_rbb_blk_alloc 3 s = Some (Some 3, s') \<and> rbb_inv s' [3] [2, 1, 0]"
    using rt_rbb_alloc_places [OF s(2), where n = 3] s(4) by (auto simp: place_def)
  with s(1) show ?thesis by blast
qed

text \<open>C34. The queue of \<open>rt_rbb_blk_queue_get\<close>, in every state of a ring with blocks in use. It
  is a run of the list of these blocks that begins at the first put block; its blocks are put and ascend in
  memory. When a block ends the run, the answer is the total of its sizes, and the run is maximal;
  \<open>rt_rbb_blk_queue_len\<close> computes the same total, \<open>rt_rbb_blk_queue_buf\<close> is the address of the first block, and
  \<open>rt_rbb_blk_queue_free\<close> gives exactly these blocks back and keeps the others. When the run goes on to the
  end of the list, or no block is put, the scan reads the link of a null node instead. The comments promise
  more than the code does: the total is at most the length asked for unless the first block alone is larger, and the
  memory of the queue is one piece provided that the ring has no gap, which blocks freed out of order leave.\<close>

theorem rt_rbb_queue_roundtrip:
  assumes i: "rbb_inv s xs fs" and x: "xs \<noteq> []"
  shows "\<exists>pre r rest. xs = pre @ r @ rest \<and> (\<forall>i \<in> set pre. \<not> is_put s i) \<and> (\<forall>i \<in> set r. is_put s i) \<and>
    sorted (map (\<lambda>i. blk_buf (rbb_set s ! i)) r) \<and> (tight s xs \<longrightarrow> contiguous s r) \<and>
    (length r \<le> 1 \<or> total_size s r \<le> len) \<and>
    (case rest of
       [] \<Rightarrow> rt_rbb_blk_queue_get len q s = None
     | j # js \<Rightarrow> r \<noteq> [] \<and> run_ends s len (last r) (total_size s r) j \<and>
        (\<exists>q' s' s''. rt_rbb_blk_queue_get len q s = Some (total_size s r, q', s') \<and>
          rt_rbb_blk_queue_len q' s' = Some (total_size s r) \<and>
          rt_rbb_blk_queue_buf q' s' = Some (blk_buf (rbb_set s ! hd r)) \<and>
          rt_rbb_blk_queue_free q' s' = Some s'' \<and> rbb_inv s'' (pre @ rest) (rev r @ fs)))"
proof (cases "queue_run s len xs")
  case None
  then have "rt_rbb_blk_queue_get len q s = None" using x by (simp add: queue_get_run [OF i])
  moreover from queue_run_none [OF None] obtain pre r where p: "xs = pre @ r" "\<forall>i \<in> set pre. \<not> is_put s i"
    "\<forall>i \<in> set r. is_put s i" "sorted (map (\<lambda>i. blk_buf (rbb_set s ! i)) r)" "length r \<le> 1 \<or> total_size s r \<le> len"
    by (elim exE conjE)
  moreover have "tight s xs \<longrightarrow> contiguous s r" using tight_contiguous [of s pre r "[]" fs] i p by simp
  ultimately show ?thesis by (intro exI [of _ pre] exI [of _ r] exI [of _ "[]"]) simp
next
  case (Some u)
  obtain t r where u: "u = (t, r)" by (cases u)
  let ?q = "\<lparr>q_blocks = Some (hd r), q_num = of_nat (length r)\<rparr>" and ?s = "fold mark_got r s"
  have g: "rt_rbb_blk_queue_get len q s = Some (t, ?q, ?s)" using x Some u by (simp add: queue_get_run [OF i])
  from queue_run_split [OF Some [unfolded u]] obtain pre j js where p: "xs = pre @ r @ j # js" "r \<noteq> []"
    "\<forall>i \<in> set pre. \<not> is_put s i" "\<forall>i \<in> set r. is_put s i" "sorted (map (\<lambda>i. blk_buf (rbb_set s ! i)) r)"
    "t = total_size s r" "length r = 1 \<or> t \<le> len" "run_ends s len (last r) t j" by (elim exE conjE)
  have f: "rt_rbb_blk_queue_len ?q ?s = Some t \<and> rt_rbb_blk_queue_buf ?q ?s = Some (blk_buf (rbb_set s ! hd r)) \<and>
      (\<exists>s''. rt_rbb_blk_queue_free ?q ?s = Some s'' \<and> rbb_inv s'' (pre @ j # js) (rev r @ fs))"
    using queue_got [OF i g p(1,2,6)] .
  then obtain s'' where s'': "rt_rbb_blk_queue_free ?q ?s = Some s''" "rbb_inv s'' (pre @ j # js) (rev r @ fs)" by blast
  have "tight s xs \<longrightarrow> contiguous s r" using tight_contiguous [of s pre r "j # js" fs] i p by simp
  moreover have "length r \<le> 1 \<or> total_size s r \<le> len" using p(6,7) by auto
  moreover have "\<exists>q' s' s''. rt_rbb_blk_queue_get len q s = Some (total_size s r, q', s') \<and>
      rt_rbb_blk_queue_len q' s' = Some (total_size s r) \<and> rt_rbb_blk_queue_buf q' s' = Some (blk_buf (rbb_set s ! hd r)) \<and>
      rt_rbb_blk_queue_free q' s' = Some s'' \<and> rbb_inv s'' (pre @ j # js) (rev r @ fs)"
    using g f s'' p(6) by (intro exI [of _ ?q] exI [of _ ?s] exI [of _ s'']) simp
  ultimately show ?thesis using p by (intro exI [of _ pre] exI [of _ r] exI [of _ "j # js"]) simp
qed

definition one_put :: "rt_rbb option" where
  "one_put = do { s \<leftarrow> two_blocks; rt_rbb_blk_put 3 s }"

lemma one_put_queue:
  "\<exists>s q' s'. one_put = Some s \<and> length (rbb_set s) = 4 \<and> is_put s 3 \<and>
    rt_rbb_blk_queue_get 10 \<lparr>q_blocks = None, q_num = 0\<rparr> s = Some (3, q', s')"
  by (simp add: one_put_def two_blocks_def trace_simps rt_rbb_blk_put_def is_put_def rt_rbb_blk_queue_get_def
      rbb_queue_from.simps [of "Some (Blk i)" for i])

lemma rt_rbb_queue_roundtrip_witness:
  "\<exists>s q' s' s''. one_put = Some s \<and>
    rt_rbb_blk_queue_get 10 \<lparr>q_blocks = None, q_num = 0\<rparr> s = Some (3, q', s') \<and>
    rt_rbb_blk_queue_len q' s' = Some 3 \<and> rt_rbb_blk_queue_free q' s' = Some s''"
proof -
  from one_put_queue obtain s q' s' where s: "one_put = Some s" "length (rbb_set s) = 4" "is_put s 3"
    "rt_rbb_blk_queue_get 10 \<lparr>q_blocks = None, q_num = 0\<rparr> s = Some (3, q', s')" by (elim exE conjE)
  from s(1) obtain s0 where s0: "two_blocks = Some s0" "rt_rbb_blk_put 3 s0 = Some s"
    by (auto simp: one_put_def elim!: bind_SomeE)
  from rbb_reach_inv [OF rbb_reach.step [OF two_blocks_reach [OF s0(1)] rbb_step.put [OF s0(2)]]]
  obtain xs fs where v: "rbb_inv s xs fs" by (elim exE)
  have "xs \<noteq> []" using in_use [OF v, of 3] s(2,3) by (auto simp: is_put_def)
  from rt_rbb_queue_roundtrip [OF v this, of 10 "\<lparr>q_blocks = None, q_num = 0\<rparr>"] s(1,4) show ?thesis
    by (fastforce split: list.splits)
qed

text \<open>The scan does not end at the end of the list: when every block is put, in ascending
  order and within the length, it reads the link of a null node.\<close>

lemma rt_rbb_queue_get_null:
  assumes "rbb_inv s [i] fs" "is_put s i"
  shows "rt_rbb_blk_queue_get len q s = None"
  using assms by (simp add: queue_get_run queue_run_def)

text \<open>The first block of an empty ring is not compared with the size of the buffer.\<close>

lemma rt_rbb_alloc_first_any_size:
  assumes "rbb_rep s [] (f # fs)" "n < 2 ^ 24"
  shows "\<exists>s'. rt_rbb_blk_alloc n s = Some (Some f, s') \<and> span s' f = (rbb_lo s, unat n)"
proof -
  from alloc_unfold [OF assms] obtain s1 where s1: "rbb_rep s1 [] fs" "rbb_set s1 = rbb_set s"
    "rt_rbb_blk_alloc n s = rbb_take f (rbb_buf s) n s1" by auto
  have f: "f \<notin> set ([] @ fs)" "f < length (rbb_set s1)" using assms s1 by (auto simp: rbb_rep_def)
  from rbb_take_rep [OF s1(1) f, of "rbb_buf s" n] f(2) s1(3) show ?thesis
    by (auto simp: span_def taken_def rbb_lo_def)
qed

end
