(* ===== verification/Workqueue.thy ===== *)
theory Workqueue
  imports Semaphore Thread
begin

text \<open>
  The work queues of \<open>rt-thread/components/drivers/ipc/workqueue.c\<close>: a thread that calls the functions of
  submitted work items one after the other, a list of the items that are due and one of the items
  whose timer runs. The queue of the system is not configured. A queue's thread, its semaphore and the timer of an item are objects of the
  kernel; the lists are a family of lists like those of the kernel state. A work function is called
  between two definitions: \<open>worker_round\<close> returns the item to run, \<open>worker_done\<close> is what follows.
\<close>

section \<open>State\<close>

abbreviation (input) RT_EBUSY :: rt_err where "RT_EBUSY \<equiv> 7"
abbreviation (input) RT_WORK_STATE_PENDING :: u16 where "RT_WORK_STATE_PENDING \<equiv> 1"
abbreviation (input) RT_WORK_STATE_SUBMITTING :: u16 where "RT_WORK_STATE_SUBMITTING \<equiv> 2"

datatype work_head = WorkList addr | DelayedList addr

record rt_work =
  wk_func :: nat
  wk_data :: u32
  wk_flags :: u16
  wk_type :: u16
  wk_queue :: "addr option"

record rt_workqueue =
  wq_current :: "addr option"
  wq_thread :: "addr option"

record wstate =
  ws_kernel :: kstate
  ws_queue :: "addr \<rightharpoonup> rt_workqueue"
  ws_work :: "addr \<rightharpoonup> rt_work"
  ws_list :: "work_head \<Rightarrow> addr list"

text \<open>The objects inside the two structures, at their offsets, and the timeout function of the items.\<close>

definition work_sem :: "addr \<Rightarrow> addr" where "work_sem queue = queue + 20"

definition work_timer :: "addr \<Rightarrow> oref" where "work_timer work = Obj (work + 20)"

definition delayed_work_timeout :: timer_func where "delayed_work_timeout = User_func 0"

definition upd_work :: "addr \<Rightarrow> (rt_work \<Rightarrow> rt_work) \<Rightarrow> wstate \<Rightarrow> wstate option" where
  "upd_work w f ws = do { m \<leftarrow> upd (ws_work ws) w f; Some (ws\<lparr>ws_work := m\<rparr>) }"

definition upd_queue :: "addr \<Rightarrow> (rt_workqueue \<Rightarrow> rt_workqueue) \<Rightarrow> wstate \<Rightarrow> wstate option" where
  "upd_queue q f ws = do { m \<leftarrow> upd (ws_queue ws) q f; Some (ws\<lparr>ws_queue := m\<rparr>) }"

definition set_kernel :: "kstate \<Rightarrow> wstate \<Rightarrow> wstate" where
  "set_kernel s ws = ws\<lparr>ws_kernel := s\<rparr>"

definition wlist_remove :: "addr \<Rightarrow> wstate \<Rightarrow> wstate" where
  "wlist_remove w ws = ws\<lparr>ws_list := al_remove w (ws_list ws)\<rparr>"

definition wlist_tail :: "work_head \<Rightarrow> addr \<Rightarrow> wstate \<Rightarrow> wstate" where
  "wlist_tail l w ws = ws\<lparr>ws_list := al_tail l w (ws_list ws)\<rparr>"

definition wlist_head :: "work_head \<Rightarrow> addr \<Rightarrow> wstate \<Rightarrow> wstate" where
  "wlist_head l w ws = ws\<lparr>ws_list := al_head l w (ws_list ws)\<rparr>"

definition clear_pending :: "rt_work \<Rightarrow> rt_work" where
  "clear_pending x = x\<lparr>wk_flags := wk_flags x AND NOT RT_WORK_STATE_PENDING\<rparr>"

definition set_pending :: "rt_work \<Rightarrow> rt_work" where
  "set_pending x = x\<lparr>wk_flags := wk_flags x OR RT_WORK_STATE_PENDING\<rparr>"

definition clear_submitting :: "rt_work \<Rightarrow> rt_work" where
  "clear_submitting x = x\<lparr>wk_flags := wk_flags x AND NOT RT_WORK_STATE_SUBMITTING\<rparr>"

definition set_submitting :: "rt_work \<Rightarrow> rt_work" where
  "set_submitting x = x\<lparr>wk_flags := wk_flags x OR RT_WORK_STATE_SUBMITTING\<rparr>"

definition submitting :: "rt_work \<Rightarrow> bool" where
  "submitting x \<longleftrightarrow> wk_flags x AND RT_WORK_STATE_SUBMITTING \<noteq> 0"

section \<open>The thread of a queue\<close>

partial_function (option) work_completion_loop :: "addr \<Rightarrow> kstate \<Rightarrow> (rt_err \<times> kstate) option" where
  "work_completion_loop sem s = do {
    (result, s) \<leftarrow> rt_sem_trytake sem s;
    if result = Return (- RT_ETIMEOUT) then do {
      (_, s) \<leftarrow> rt_sem_release sem s;
      work_completion_loop sem s }
    else if result = Return RT_EOK then Some (RT_EOK, s)
    else Some (- RT_ERROR, s) }"

definition workqueue_work_completion :: "addr \<Rightarrow> kstate \<Rightarrow> (rt_err \<times> kstate) option" where
  "workqueue_work_completion queue s = do {
    let s = rt_enter_critical s;
    (result, s) \<leftarrow> work_completion_loop (work_sem queue) s;
    s \<leftarrow> rt_exit_critical s;
    Some (result, s) }"

text \<open>One round of \<open>_workqueue_thread_entry\<close>, up to the call of the work function or to the point
  where the thread waits for work.\<close>

definition worker_round :: "addr \<Rightarrow> wstate \<Rightarrow> ((addr \<times> nat \<times> u32) outcome \<times> wstate) option" where
  "worker_round queue ws = (case ws_list ws (WorkList queue) of
      [] \<Rightarrow> do {
        self \<leftarrow> rt_thread_self (ws_kernel ws);
        (_, s) \<leftarrow> rt_thread_suspend_with_flag self RT_UNINTERRUPTIBLE (ws_kernel ws);
        s \<leftarrow> rt_schedule s;
        Some (Blocked, set_kernel s ws) }
    | work # _ \<Rightarrow> do {
        let ws = wlist_remove work ws;
        ws \<leftarrow> upd_queue queue (\<lambda>x. x\<lparr>wq_current := Some work\<rparr>) ws;
        ws \<leftarrow> upd_work work clear_pending ws;
        ws \<leftarrow> upd_work work (\<lambda>x. x\<lparr>wk_queue := None\<rparr>) ws;
        x \<leftarrow> ws_work ws work;
        Some (Return (work, wk_func x, wk_data x), ws) })"

definition worker_done :: "addr \<Rightarrow> wstate \<Rightarrow> wstate option" where
  "worker_done queue ws = do {
    ws \<leftarrow> upd_queue queue (\<lambda>x. x\<lparr>wq_current := None\<rparr>) ws;
    (_, s) \<leftarrow> workqueue_work_completion queue (ws_kernel ws);
    Some (set_kernel s ws) }"

text \<open>The lines that resume the thread of a queue when it waits for work.\<close>

definition wake_worker :: "addr \<Rightarrow> wstate \<Rightarrow> wstate option" where
  "wake_worker queue ws = do {
    x \<leftarrow> ws_queue ws queue;
    idle \<leftarrow> (if wq_current x = None then do {
        t \<leftarrow> wq_thread x;
        th \<leftarrow> k_thread (ws_kernel ws) t;
        Some (suspended th) }
      else Some False);
    if idle then do {
      t \<leftarrow> wq_thread x;
      (_, s) \<leftarrow> rt_thread_resume t (ws_kernel ws);
      s \<leftarrow> rt_schedule s;
      Some (set_kernel s ws) }
    else Some ws }"

section \<open>Submitting and cancelling\<close>

definition workqueue_submit_work :: "addr \<Rightarrow> addr \<Rightarrow> u32 \<Rightarrow> wstate \<Rightarrow> (rt_err \<times> wstate) option" where
  "workqueue_submit_work queue work ticks ws = do {
    let ws = wlist_remove work ws;
    ws \<leftarrow> upd_work work clear_pending ws;
    if ticks = 0 then do {
      let ws = wlist_tail (WorkList queue) work ws;
      ws \<leftarrow> upd_work work set_pending ws;
      ws \<leftarrow> upd_work work (\<lambda>x. x\<lparr>wk_queue := Some queue\<rparr>) ws;
      ws \<leftarrow> wake_worker queue ws;
      Some (RT_EOK, ws) }
    else if ticks < RT_TICK_MAX div 2 then do {
      x \<leftarrow> ws_work ws work;
      ws \<leftarrow> (if submitting x then do {
          (_, s) \<leftarrow> rt_timer_stop (work_timer work) (ws_kernel ws);
          (_, _, s) \<leftarrow> rt_timer_control (work_timer work) (SET_TIME ticks) s;
          Some (set_kernel s ws) }
        else do {
          s \<leftarrow> rt_timer_init (work_timer work) [0x77, 0x6f, 0x72, 0x6b, 0] delayed_work_timeout work ticks
            (RT_TIMER_FLAG_ONE_SHOT OR RT_TIMER_FLAG_SOFT_TIMER) (ws_kernel ws);
          upd_work work set_submitting (set_kernel s ws) });
      ws \<leftarrow> upd_work work (\<lambda>x. x\<lparr>wk_queue := Some queue\<rparr>) ws;
      let ws = wlist_tail (DelayedList queue) work ws;
      (_, s) \<leftarrow> rt_timer_start (work_timer work) (ws_kernel ws);
      Some (RT_EOK, set_kernel s ws) }
    else Some (- RT_ERROR, ws) }"

definition workqueue_cancel_work :: "addr \<Rightarrow> addr \<Rightarrow> wstate \<Rightarrow> (rt_err \<times> wstate) option" where
  "workqueue_cancel_work queue work ws = do {
    let ws = wlist_remove work ws;
    ws \<leftarrow> upd_work work clear_pending ws;
    x \<leftarrow> ws_work ws work;
    ws \<leftarrow> (if submitting x then do {
        (_, s) \<leftarrow> rt_timer_stop (work_timer work) (ws_kernel ws);
        (_, s) \<leftarrow> rt_timer_detach (work_timer work) s;
        upd_work work clear_submitting (set_kernel s ws) }
      else Some ws);
    q \<leftarrow> ws_queue ws queue;
    let err = (if wq_current q \<noteq> Some work then RT_EOK else - RT_EBUSY);
    ws \<leftarrow> upd_work work (\<lambda>x. x\<lparr>wk_queue := None\<rparr>) ws;
    Some (err, ws) }"

text \<open>The timeout function of the timer of an item.\<close>

definition delayed_work_timeout_handler :: "addr \<Rightarrow> wstate \<Rightarrow> wstate option" where
  "delayed_work_timeout_handler work ws = do {
    x \<leftarrow> ws_work ws work;
    RT_ASSERT (wk_queue x \<noteq> None);
    queue \<leftarrow> wk_queue x;
    (_, s) \<leftarrow> rt_timer_detach (work_timer work) (ws_kernel ws);
    ws \<leftarrow> upd_work work clear_submitting (set_kernel s ws);
    let ws = wlist_remove work ws;
    q \<leftarrow> ws_queue ws queue;
    ws \<leftarrow> (if wq_current q \<noteq> Some work
      then upd_work work set_pending (wlist_tail (WorkList queue) work ws) else Some ws);
    wake_worker queue ws }"

section \<open>The interface\<close>

text \<open>The node of a new item is in no list.\<close>

definition rt_work_init :: "addr \<Rightarrow> nat \<Rightarrow> u32 \<Rightarrow> wstate \<Rightarrow> wstate" where
  "rt_work_init work work_func work_data ws =
    ws\<lparr>ws_work := (ws_work ws)(work \<mapsto> \<lparr>wk_func = work_func, wk_data = work_data, wk_flags = 0,
      wk_type = 0, wk_queue = None\<rparr>)\<rparr>"

text \<open>The results of the three allocations are arguments, and so is the address of the code of the
  thread. The semaphore keeps its place in the list of the objects when the thread cannot be created.\<close>

definition rt_workqueue_create ::
    "addr option \<Rightarrow> addr option \<Rightarrow> u32 option \<Rightarrow> u32 \<Rightarrow> u8 list \<Rightarrow> u16 \<Rightarrow> u8 \<Rightarrow> wstate \<Rightarrow> (addr option \<times> wstate) option" where
  "rt_workqueue_create mem thread_mem stack_mem entry nm stack_size priority ws = (case mem of
      None \<Rightarrow> Some (None, ws)
    | Some queue \<Rightarrow> do {
        let ws = ws\<lparr>ws_list := (ws_list ws)(WorkList queue := [], DelayedList queue := []),
          ws_queue := (ws_queue ws)(queue \<mapsto> \<lparr>wq_current = None, wq_thread = None\<rparr>)\<rparr>;
        (_, s) \<leftarrow> rt_sem_init (work_sem queue) [0x77, 0x71, 0x75, 0x65, 0x75, 0x65, 0] 0 RT_IPC_FLAG_FIFO (ws_kernel ws);
        (t, s) \<leftarrow> rt_thread_create thread_mem stack_mem nm entry (of_nat queue) (ucast stack_size) priority 10 s;
        ws \<leftarrow> upd_queue queue (\<lambda>x. x\<lparr>wq_thread := t\<rparr>) (set_kernel s ws);
        (case t of
           None \<Rightarrow> Some (None, ws\<lparr>ws_queue := (ws_queue ws)(queue := None)\<rparr>)
         | Some thread \<Rightarrow> do {
             (_, s) \<leftarrow> rt_thread_startup thread (ws_kernel ws);
             Some (Some queue, set_kernel s ws) }) })"

definition rt_workqueue_dowork :: "addr \<Rightarrow> addr \<Rightarrow> wstate \<Rightarrow> (rt_err \<times> wstate) option" where
  "rt_workqueue_dowork queue work ws = workqueue_submit_work queue work 0 ws"

definition rt_workqueue_submit_work :: "addr \<Rightarrow> addr \<Rightarrow> u32 \<Rightarrow> wstate \<Rightarrow> (rt_err \<times> wstate) option" where
  "rt_workqueue_submit_work queue work ticks ws = do {
    RT_ASSERT (ticks < RT_TICK_MAX div 2);
    workqueue_submit_work queue work ticks ws }"

definition rt_workqueue_urgent_work :: "addr \<Rightarrow> addr \<Rightarrow> wstate \<Rightarrow> (rt_err \<times> wstate) option" where
  "rt_workqueue_urgent_work queue work ws = do {
    let ws = wlist_remove work ws;
    let ws = wlist_head (WorkList queue) work ws;
    ws \<leftarrow> wake_worker queue ws;
    Some (RT_EOK, ws) }"

definition rt_workqueue_cancel_work :: "addr \<Rightarrow> addr \<Rightarrow> wstate \<Rightarrow> (rt_err \<times> wstate) option" where
  "rt_workqueue_cancel_work queue work ws = workqueue_cancel_work queue work ws"

text \<open>The result of the wait is not looked at, and neither is that of the cancellation.\<close>

definition rt_workqueue_cancel_work_sync :: "addr \<Rightarrow> addr \<Rightarrow> wstate \<Rightarrow> (rt_err outcome \<times> wstate) option" where
  "rt_workqueue_cancel_work_sync queue work ws = do {
    q \<leftarrow> ws_queue ws queue;
    if wq_current q = Some work then do {
      (r, s) \<leftarrow> rt_sem_take (work_sem queue) RT_WAITING_FOREVER (ws_kernel ws);
      Some (case r of Blocked \<Rightarrow> Blocked | Return _ \<Rightarrow> Return RT_EOK, set_kernel s ws) }
    else do {
      (_, ws) \<leftarrow> workqueue_cancel_work queue work ws;
      Some (Return RT_EOK, ws) } }"

definition cancel_work_sync_resume :: rt_err where
  "cancel_work_sync_resume = RT_EOK"

partial_function (option) cancel_list :: "addr \<Rightarrow> work_head \<Rightarrow> wstate \<Rightarrow> wstate option" where
  "cancel_list queue l ws = (case ws_list ws l of
      [] \<Rightarrow> Some ws
    | work # _ \<Rightarrow> do {
        (_, ws) \<leftarrow> workqueue_cancel_work queue work ws;
        cancel_list queue l ws })"

definition rt_workqueue_cancel_all_work :: "addr \<Rightarrow> wstate \<Rightarrow> (rt_err \<times> wstate) option" where
  "rt_workqueue_cancel_all_work queue ws = do {
    let ws = set_kernel (rt_enter_critical (ws_kernel ws)) ws;
    ws \<leftarrow> cancel_list queue (WorkList queue) ws;
    ws \<leftarrow> cancel_list queue (DelayedList queue) ws;
    s \<leftarrow> rt_exit_critical (ws_kernel ws);
    Some (RT_EOK, set_kernel s ws) }"

definition rt_workqueue_destroy :: "addr \<Rightarrow> wstate \<Rightarrow> (rt_err \<times> wstate) option" where
  "rt_workqueue_destroy queue ws = do {
    (_, ws) \<leftarrow> rt_workqueue_cancel_all_work queue ws;
    q \<leftarrow> ws_queue ws queue;
    t \<leftarrow> wq_thread q;
    (_, s) \<leftarrow> rt_thread_delete t (ws_kernel ws);
    (_, s) \<leftarrow> rt_sem_detach (work_sem queue) s;
    Some (RT_EOK, (set_kernel s ws)\<lparr>ws_queue := (ws_queue ws)(queue := None)\<rparr>) }"

end
