(* ===== verification/WorkqueueProps.thy ===== *)
theory WorkqueueProps
  imports Workqueue DevIpcProps ThreadStart
begin

text \<open>
  The properties of the work queues: the acknowledgement of a finished item terminates and wakes every
  thread that waits for it; submitted items run in their order; the cancellation of all items terminates.
\<close>

section \<open>Waking\<close>

text \<open>Resuming a suspended thread, whatever it waits for, and a scheduling step.\<close>

lemma resume_schedule:
  assumes kw: "kwf s" and cur: "rt_current_thread s \<noteq> None" and th: "k_thread s t = Some th" "suspended th"
  shows "\<exists>s1 s'. rt_thread_resume t s = Some (RT_EOK, s1) \<and> rt_schedule s1 = Some s' \<and> kwf s' \<and> quiet s s' \<and>
    rt_current_thread s' \<noteq> None \<and> (\<exists>h. k_thread s' t = Some h \<and> runnable h)"
proof -
  note k = kwfD(1) [OF kw]
  let ?e = "th_error th" let ?w = "woken ?e t th s"
  have same: "s\<lparr>k_thread := (k_thread s)(t \<mapsto> th\<lparr>th_error := ?e\<rparr>)\<rparr> = s" using th(1) by (simp add: fun_upd_idem)
  note w = resume_woken [OF k th, of ?e] woken_kwf [OF kw th, of ?e]
  have cw: "rt_current_thread ?w \<noteq> None" using cur by simp
  from schedule_kinv [OF kwfD(1) [OF w(3)] cw] obtain s' where
    s': "rt_schedule ?w = Some s'" "kinv s'" "sched_frame ?w s'" by blast
  define h where "h = set_state (if rt_current_thread s = Some t then 3 else 2) (th\<lparr>th_error := ?e\<rparr>)"
  have "k_thread ?w t = Some h" "runnable h" by (simp_all add: h_def)
  with sched_frame_runnable [OF s'(3), of t h] have "\<exists>h. k_thread s' t = Some h \<and> runnable h" by auto
  moreover have "rt_thread_resume t s = Some (RT_EOK, ?w)" using w(1) same by simp
  moreover have "kwf s'" by (rule kwf_sched [OF w(3) s'(2,3)])
  moreover have "rt_current_thread s' \<noteq> None" by (rule schedule_current [OF kwfD(1) [OF w(3)] cw s'(1)])
  moreover have "quiet s s'"
    by (rule quiet_trans [OF quiet_all_woken [OF woken_all_woken [OF k th(1)]] quiet_sched [OF kwfD(1) [OF w(3)] s'(3)]])
  ultimately show ?thesis using s'(1) by blast
qed

section \<open>The acknowledgement\<close>

text \<open>A release while the scheduler is locked only wakes.\<close>

lemma release_locked:
  assumes kw: "kwf s" and ok: "sem_ok s a" and q: "k_list s (SuspendQ a) = t # rest" and lock: "rt_scheduler_lock_nest s \<noteq> 0"
  shows "\<exists>th. k_thread s t = Some th \<and> suspended th \<and> rt_sem_release a s = Some (RT_EOK, woken 0 t th s) \<and>
    kwf (woken 0 t th s) \<and> sem_ok (woken 0 t th s) a \<and> k_list (woken 0 t th s) (SuspendQ a) = rest"
proof -
  from list_resume_spec [OF kw is_waitq_simps(1) q] obtain th where
    th: "k_thread s t = Some th" "suspended th" and r: "ipc_list_resume (SuspendQ a) s = Some (woken 0 t th s)"
      "kwf (woken 0 t th s)" "k_list (woken 0 t th s) (SuspendQ a) = rest" by blast
  have "rt_scheduler_lock_nest (woken 0 t th s) \<noteq> 0" using lock ipc_sameD(7) [OF woken_same] by metis
  then have "rt_schedule (woken 0 t th s) = Some (woken 0 t th s)" by (simp add: rt_schedule_def)
  then have "rt_sem_release a s = Some (RT_EOK, woken 0 t th s)"
    using sem_okD(1) [OF ok] q r(1) by (simp add: rt_sem_release_def assert_type_class)
  moreover have "sem_ok (woken 0 t th s) a"
    by (rule sem_ok_mono [OF ok]) (use ipc_sameD [OF woken_same] q in simp_all)
  ultimately show ?thesis using th r by blast
qed

abbreviation (input) acknowledged :: "rt_thread \<Rightarrow> rt_thread" where
  "acknowledged th \<equiv> th\<lparr>th_error := 0\<rparr>"

lemma completion_loop_spec:
  assumes "kwf s" and "sem_ok s a" and "k_sem s a = Some x" and "sem_value x = 0" and "k_list s (SuspendQ a) = ts"
    and "rt_scheduler_lock_nest s \<noteq> 0"
  shows "\<exists>s'. work_completion_loop a s = Some (RT_EOK, s') \<and> kwf s' \<and> all_woken (\<lambda>th. acknowledged th) ts s s'"
  using assms
proof (induction ts arbitrary: s)
  case Nil
  let ?s = "s\<lparr>k_sem := (k_sem s)(a \<mapsto> x\<lparr>sem_value := sem_value x + 1\<rparr>)\<rparr>"
  have x: "x\<lparr>sem_value := 0\<rparr> = x" using Nil.prems(4) by (cases x) simp
  have t: "rt_sem_trytake a s = Some (Return (- RT_ETIMEOUT), s)"
    using take_empty [OF Nil.prems(2-4)] by (simp add: rt_sem_trytake_def rt_sem_take_def)
  have r: "rt_sem_release a s = Some (RT_EOK, ?s)"
    using release_count [OF Nil.prems(2,3,5)] Nil.prems(4) by simp
  have "sem_ok ?s a" using Nil.prems by (auto simp: sem_ok_def)
  from take_available [OF this, of "x\<lparr>sem_value := sem_value x + 1\<rparr>"] Nil.prems(3,4) x
  have t2: "rt_sem_trytake a ?s = Some (Return RT_EOK, s)"
    by (simp add: rt_sem_trytake_def rt_sem_take_def fun_upd_idem)
  have "work_completion_loop a ?s = Some (RT_EOK, s)"
    by (subst work_completion_loop.simps) (simp add: t2)
  then have "work_completion_loop a s = Some (RT_EOK, s)"
    by (subst work_completion_loop.simps) (simp add: t r)
  with Nil.prems(1) show ?case by simp
next
  case (Cons t ts)
  have k: "kinv s" using Cons.prems(1) by (rule kwfD)
  have tt: "rt_sem_trytake a s = Some (Return (- RT_ETIMEOUT), s)"
    using take_empty [OF Cons.prems(2-4)] by (simp add: rt_sem_trytake_def rt_sem_take_def)
  from release_locked [OF Cons.prems(1,2,5,6)] obtain th where th: "k_thread s t = Some th"
    "rt_sem_release a s = Some (RT_EOK, woken 0 t th s)" "kwf (woken 0 t th s)" "sem_ok (woken 0 t th s) a"
    "k_list (woken 0 t th s) (SuspendQ a) = ts" by blast
  let ?w = "woken 0 t th s"
  note same = ipc_sameD [OF woken_same [of s 0 t th]]
  have "k_sem ?w a = Some x" "rt_scheduler_lock_nest ?w \<noteq> 0" using Cons.prems(3,6) same by simp_all
  from Cons.IH [OF th(3,4) this(1) Cons.prems(4) th(5) this(2)] obtain s' where
    s': "work_completion_loop a ?w = Some (RT_EOK, s')" "kwf s'" "all_woken (\<lambda>th. acknowledged th) ts ?w s'" by blast
  have "work_completion_loop a s = Some (RT_EOK, s')"
    by (subst work_completion_loop.simps) (simp add: tt th(2) s'(1))
  moreover have "t \<notin> set ts"
    using separate_distinct [OF inv_outD(1) [OF kinvD(5) [OF k, of "{}"]], of "SuspendQ a"] Cons.prems(5) by simp
  ultimately show ?case using s'(2) all_woken_Cons [OF woken_all_woken [OF k th(1)] s'(3)] by blast
qed

lemma completion_spec:
  assumes kw: "kwf s" and ok: "sem_ok s (work_sem q)" and x: "k_sem s (work_sem q) = Some x" "sem_value x = 0"
    and l: "k_list s (SuspendQ (work_sem q)) = ts" and cur: "rt_current_thread s \<noteq> None" and lock: "rt_scheduler_lock_nest s = 0"
  shows "\<exists>s'. workqueue_work_completion q s = Some (RT_EOK, s') \<and> kwf s' \<and> rt_current_thread s' \<noteq> None \<and> quiet s s' \<and>
    k_list s' (SuspendQ (work_sem q)) = [] \<and>
    (\<forall>t \<in> set ts. \<exists>th. k_thread s' t = Some th \<and> runnable th \<and> th_error th = RT_EOK)"
proof -
  let ?a = "work_sem q" let ?c = "rt_enter_critical s"
  have c: "kwf ?c" using kw kwf_same_ipc [of ?c s] by (simp add: rt_enter_critical_def)
  have okc: "sem_ok ?c ?a" using ok by (simp add: sem_ok_def rt_enter_critical_def)
  have "k_sem ?c ?a = Some x" "k_list ?c (SuspendQ ?a) = ts" "rt_scheduler_lock_nest ?c \<noteq> 0"
    using x l lock by (simp_all add: rt_enter_critical_def)
  from completion_loop_spec [OF c okc this(1) x(2) this(2,3)] obtain s1 where
    s1: "work_completion_loop ?a ?c = Some (RT_EOK, s1)" "kwf s1" "all_woken (\<lambda>th. acknowledged th) ts ?c s1" by blast
  let ?s2 = "s1\<lparr>rt_scheduler_lock_nest := 0\<rparr>"
  have n: "rt_scheduler_lock_nest s1 = 1"
    using ipc_sameD(7) [OF all_wokenD(1) [OF s1(3)]] lock by (simp add: rt_enter_critical_def)
  have s2: "kwf ?s2" using s1(2) kwf_same_ipc [of ?s2 s1] by simp
  have c1: "rt_current_thread s1 \<noteq> None" using all_wokenD(2) [OF s1(3)] cur by (simp add: rt_enter_critical_def)
  have aw: "all_woken (\<lambda>th. acknowledged th) ts s ?s2"
    using s1(3) lock by (simp add: all_woken_def ipc_same_def is_class_def rt_enter_critical_def)
  from schedule_kinv [OF kwfD(1) [OF s2]] c1 obtain s' where
    s': "rt_schedule ?s2 = Some s'" "kinv s'" "sched_frame ?s2 s'" by auto
  have "rt_exit_critical s1 = Some s'"
    using n c1 s'(1) by (simp add: rt_exit_critical_def Let_def)
  then have "workqueue_work_completion q s = Some (RT_EOK, s')"
    using s1(1) by (simp add: workqueue_work_completion_def Let_def)
  moreover have "kwf s'" by (rule kwf_sched [OF s2 s'(2,3)])
  moreover have "rt_current_thread s' \<noteq> None" using schedule_current [OF kwfD(1) [OF s2] _ s'(1)] c1 by simp
  moreover have qu: "quiet s s'"
    by (rule quiet_trans [OF quiet_all_woken [OF aw] quiet_sched [OF kwfD(1) [OF s2] s'(3)]])
  moreover have "k_list s' (SuspendQ ?a) = []"
    using sched_frame_queue [OF s'(3), of "SuspendQ ?a"] all_wokenD(3) [OF aw, of "SuspendQ ?a"] l
    by (simp add: filter_empty_conv)
  moreover have "\<exists>th. k_thread s' t = Some th \<and> runnable th \<and> th_error th = RT_EOK" if "t \<in> set ts" for t
  proof -
    from all_woken_runnable [OF aw that] obtain h where h: "k_thread ?s2 t = Some h" "runnable h" "th_error h = 0" by auto
    with sched_frame_runnable [OF s'(3) h(1,2)] sched_frame_thread [OF s'(3) h(1)] show ?thesis by auto
  qed
  ultimately show ?thesis by blast
qed

section \<open>Submitting\<close>

lemma set_kernel_simps [simp]:
  "ws_kernel (set_kernel s ws) = s" "ws_queue (set_kernel s ws) = ws_queue ws" "ws_work (set_kernel s ws) = ws_work ws"
  "ws_list (set_kernel s ws) = ws_list ws"
  "ws_kernel (wlist_remove w ws) = ws_kernel ws" "ws_queue (wlist_remove w ws) = ws_queue ws"
  "ws_work (wlist_remove w ws) = ws_work ws" "ws_list (wlist_remove w ws) = al_remove w (ws_list ws)"
  "ws_kernel (wlist_tail l w ws) = ws_kernel ws" "ws_queue (wlist_tail l w ws) = ws_queue ws"
  "ws_work (wlist_tail l w ws) = ws_work ws" "ws_list (wlist_tail l w ws) = al_tail l w (ws_list ws)"
  "ws_kernel (wlist_head l w ws) = ws_kernel ws" "ws_queue (wlist_head l w ws) = ws_queue ws"
  "ws_work (wlist_head l w ws) = ws_work ws" "ws_list (wlist_head l w ws) = al_head l w (ws_list ws)"
  by (simp_all add: set_kernel_def wlist_remove_def wlist_tail_def wlist_head_def)

lemma upd_work_Some [simp]: "ws_work ws w = Some x \<Longrightarrow> upd_work w f ws = Some (ws\<lparr>ws_work := (ws_work ws)(w \<mapsto> f x)\<rparr>)"
  by (simp add: upd_work_def upd_def)

lemma upd_queue_Some [simp]: "ws_queue ws q = Some x \<Longrightarrow> upd_queue q f ws = Some (ws\<lparr>ws_queue := (ws_queue ws)(q \<mapsto> f x)\<rparr>)"
  by (simp add: upd_queue_def upd_def)

lemma upd_work_iff:
  "upd_work w f ws = Some ws' \<longleftrightarrow> (\<exists>x. ws_work ws w = Some x \<and> ws' = ws\<lparr>ws_work := (ws_work ws)(w \<mapsto> f x)\<rparr>)"
  by (auto simp: upd_work_def upd_def split: option.splits)

lemma upd_queue_iff:
  "upd_queue q f ws = Some ws' \<longleftrightarrow> (\<exists>x. ws_queue ws q = Some x \<and> ws' = ws\<lparr>ws_queue := (ws_queue ws)(q \<mapsto> f x)\<rparr>)"
  by (auto simp: upd_queue_def upd_def split: option.splits)

lemma wake_worker_frame:
  assumes "wake_worker q ws = Some ws'"
  shows "ws' = set_kernel (ws_kernel ws') ws"
proof -
  have "ws = set_kernel (ws_kernel ws) ws" by (simp add: set_kernel_def)
  with assms show ?thesis by (auto simp: wake_worker_def split: if_splits elim!: bind_SomeE)
qed

lemma wake_worker_keeps:
  assumes "wake_worker q ws = Some ws'"
  shows "ws_list ws' = ws_list ws" and "ws_work ws' = ws_work ws"
  by (subst wake_worker_frame [OF assms], simp)+

text \<open>Whether the thread of a queue waits for work.\<close>

definition worker_waits :: "addr \<Rightarrow> wstate \<Rightarrow> bool" where
  "worker_waits q ws \<longleftrightarrow> (\<exists>x t th. ws_queue ws q = Some x \<and> wq_current x = None \<and> wq_thread x = Some t \<and>
    k_thread (ws_kernel ws) t = Some th \<and> suspended th)"

lemma wake_worker_spec:
  assumes "kwf (ws_kernel ws)" and "rt_current_thread (ws_kernel ws) \<noteq> None" and "ws_queue ws q = Some x"
    and "wq_thread x = Some t" and "k_thread (ws_kernel ws) t = Some th"
  shows "\<exists>s'. wake_worker q ws = Some (set_kernel s' ws) \<and> kwf s' \<and>
    (if worker_waits q ws then \<exists>h. k_thread s' t = Some h \<and> runnable h else s' = ws_kernel ws)"
proof (cases "worker_waits q ws")
  case True
  then have w: "wq_current x = None" "suspended th" using assms by (auto simp: worker_waits_def)
  from resume_schedule [OF assms(1,2,5) w(2)] True w assms(3-5) show ?thesis by (auto simp: wake_worker_def)
next
  case False
  moreover have "ws = set_kernel (ws_kernel ws) ws" by (simp add: set_kernel_def)
  ultimately show ?thesis using assms
    by (intro exI [of _ "ws_kernel ws"]) (auto simp: wake_worker_def worker_waits_def)
qed

text \<open>\<open>rt_workqueue_dowork\<close> succeeds and puts the item at the end of the list of the items that are due, in which
  it was not twice, and takes it out of every other list. The item is pending in this queue. When the thread of the
  queue waits for work it is made runnable; otherwise the kernel is not changed.\<close>

theorem rt_workqueue_dowork_wakes:
  assumes "kwf (ws_kernel ws)" and "rt_current_thread (ws_kernel ws) \<noteq> None" and "ws_queue ws q = Some x"
    and "wq_thread x = Some t" and "k_thread (ws_kernel ws) t = Some th" and "ws_work ws w = Some y" and "separate (ws_list ws)"
  shows "\<exists>ws' y'. rt_workqueue_dowork q w ws = Some (RT_EOK, ws') \<and> kwf (ws_kernel ws') \<and>
    ws_list ws' (WorkList q) = remove1 w (ws_list ws (WorkList q)) @ [w] \<and> separate (ws_list ws') \<and>
    (\<forall>l. l \<noteq> WorkList q \<longrightarrow> ws_list ws' l = remove1 w (ws_list ws l)) \<and>
    ws_work ws' = (ws_work ws)(w \<mapsto> y') \<and> wk_queue y' = Some q \<and> wk_flags y' = wk_flags y OR RT_WORK_STATE_PENDING \<and>
    (if worker_waits q ws then \<exists>h. k_thread (ws_kernel ws') t = Some h \<and> runnable h else ws_kernel ws' = ws_kernel ws)"
proof -
  let ?y = "(set_pending (clear_pending y))\<lparr>wk_queue := Some q\<rparr>"
  let ?ws = "ws\<lparr>ws_list := al_tail (WorkList q) w (al_remove w (ws_list ws)), ws_work := (ws_work ws)(w \<mapsto> ?y)\<rparr>"
  have ww: "worker_waits q ?ws = worker_waits q ws" by (simp add: worker_waits_def)
  from wake_worker_spec [of ?ws q x t th] assms(1-5) obtain s' where
    s': "wake_worker q ?ws = Some (set_kernel s' ?ws)" "kwf s'"
      "if worker_waits q ws then \<exists>h. k_thread s' t = Some h \<and> runnable h else s' = ws_kernel ws"
    unfolding ww by auto
  have "rt_workqueue_dowork q w ws = Some (RT_EOK, set_kernel s' ?ws)"
    using assms(6) s'(1)
    by (simp add: rt_workqueue_dowork_def workqueue_submit_work_def wlist_remove_def wlist_tail_def Let_def)
  moreover have "separate (al_tail (WorkList q) w (al_remove w (ws_list ws)))"
    using fam.rep_rem [of "ws_list ws" "ws_list ws" w] fam.rep_tail [of "al_remove w (ws_list ws)" _ w "WorkList q"]
      unlinked_remove [OF assms(7), of w] assms(7) by (simp add: al_remove_def)
  moreover have "wk_flags ?y = wk_flags y OR RT_WORK_STATE_PENDING"
    by (simp add: set_pending_def clear_pending_def bit.disj_conj_distrib2)
  ultimately show ?thesis using s'(2,3)
    by (intro exI [of _ "set_kernel s' ?ws"] exI [of _ ?y]) (simp add: al_tail_def al_remove_def)
qed

section \<open>The order of the work\<close>

text \<open>The effect of each operation on the lists, whichever queue it is called for.\<close>

lemma dowork_list:
  "rt_workqueue_dowork p w ws = Some (e, ws') \<Longrightarrow> ws_list ws' = al_tail (WorkList p) w (al_remove w (ws_list ws))"
  by (auto simp: rt_workqueue_dowork_def workqueue_submit_work_def Let_def upd_work_iff elim!: bind_SomeE dest!: wake_worker_keeps(1))

lemma submit_list:
  "rt_workqueue_submit_work p w ticks ws = Some (e, ws') \<Longrightarrow>
   ws_list ws' = al_tail (if ticks = 0 then WorkList p else DelayedList p) w (al_remove w (ws_list ws))"
  by (auto simp: rt_workqueue_submit_work_def workqueue_submit_work_def Let_def upd_work_iff split: if_splits elim!: bind_SomeE
      dest!: wake_worker_keeps(1))

lemma urgent_list:
  "rt_workqueue_urgent_work p w ws = Some (e, ws') \<Longrightarrow> ws_list ws' = al_head (WorkList p) w (al_remove w (ws_list ws))"
  by (auto simp: rt_workqueue_urgent_work_def Let_def elim!: bind_SomeE dest!: wake_worker_keeps(1))

lemma cancel_list1:
  "workqueue_cancel_work p w ws = Some (e, ws') \<Longrightarrow> ws_list ws' = al_remove w (ws_list ws)"
  by (auto simp: workqueue_cancel_work_def Let_def upd_work_iff split: if_splits elim!: bind_SomeE)

lemma cancel_sync_list:
  "rt_workqueue_cancel_work_sync p w ws = Some (r, ws') \<Longrightarrow>
   ws_list ws' = (if map_option wq_current (ws_queue ws p) = Some (Some w) then ws_list ws else al_remove w (ws_list ws))"
  by (auto simp: rt_workqueue_cancel_work_sync_def split: if_splits elim!: bind_SomeE dest!: cancel_list1)

lemma handler_queue:
  "delayed_work_timeout_handler w ws = Some ws' \<Longrightarrow>
   \<exists>x p y. ws_work ws w = Some x \<and> wk_queue x = Some p \<and> ws_queue ws p = Some y"
  by (auto simp: delayed_work_timeout_handler_def Let_def upd_work_iff elim!: bind_SomeE)

lemma handler_list:
  "delayed_work_timeout_handler w ws = Some ws' \<Longrightarrow> ws_work ws w = Some x \<Longrightarrow> wk_queue x = Some p \<Longrightarrow> ws_queue ws p = Some y \<Longrightarrow>
   ws_list ws' = (if wq_current y \<noteq> Some w then al_tail (WorkList p) w (al_remove w (ws_list ws)) else al_remove w (ws_list ws))"
  by (auto simp: delayed_work_timeout_handler_def Let_def upd_work_iff split: if_splits elim!: bind_SomeE dest!: wake_worker_keeps(1))

lemma round_list:
  "worker_round p ws = Some (Return (w, f, d), ws') \<Longrightarrow>
   ws_list ws' = al_remove w (ws_list ws) \<and> (\<exists>rest. ws_list ws (WorkList p) = w # rest)"
  by (auto simp: worker_round_def Let_def upd_work_iff upd_queue_iff split: list.splits elim!: bind_SomeE)

lemma round_waits: "worker_round p ws = Some (Blocked, ws') \<Longrightarrow> ws_list ws' = ws_list ws"
  by (auto simp: worker_round_def Let_def split: list.splits elim!: bind_SomeE)

lemma done_list: "worker_done p ws = Some ws' \<Longrightarrow> ws_list ws' = ws_list ws"
  by (auto simp: worker_done_def upd_queue_iff elim!: bind_SomeE)

lemma cancel_list_lists:
  "cancel_list p l ws = Some ws' \<Longrightarrow> separate (ws_list ws) \<Longrightarrow> ws_list ws' = (ws_list ws)(l := [])"
proof (induction "ws_list ws l" arbitrary: ws)
  case Nil
  then show ?case by (subst (asm) cancel_list.simps) (auto simp: fun_upd_idem)
next
  case (Cons w xs)
  have l: "ws_list ws l = w # xs" by (rule Cons.hyps(2) [symmetric])
  from Cons.prems(1) l obtain e ws1 where
    c: "workqueue_cancel_work p w ws = Some (e, ws1)" "cancel_list p l ws1 = Some ws'"
    by (subst (asm) cancel_list.simps) (auto elim!: bind_SomeE)
  have only: "w \<notin> set (ws_list ws m)" if "m \<noteq> l" for m
    using l Cons.prems(2) that by (metis separate_eq list.set_intros(1))
  have l1: "ws_list ws1 = (ws_list ws)(l := xs)"
    using l only by (auto simp: cancel_list1 [OF c(1)] al_remove_def remove1_idem fun_eq_iff)
  have "separate (ws_list ws1)" using separate_remove [OF Cons.prems(2), of w] by (simp add: cancel_list1 [OF c(1)] al_remove_def)
  from Cons.hyps(1) [OF _ c(2) this] show ?case by (simp add: l1)
qed

lemma cancel_all_lists:
  assumes "rt_workqueue_cancel_all_work p ws = Some (e, ws')" and "separate (ws_list ws)"
  shows "ws_list ws' = (ws_list ws)(WorkList p := [], DelayedList p := [])"
proof -
  from assms(1) obtain ws1 ws2 where c: "cancel_list p (WorkList p) (set_kernel (rt_enter_critical (ws_kernel ws)) ws) = Some ws1"
    "cancel_list p (DelayedList p) ws1 = Some ws2" "ws_list ws' = ws_list ws2"
    by (auto simp: rt_workqueue_cancel_all_work_def Let_def elim!: bind_SomeE)
  have l1: "ws_list ws1 = (ws_list ws)(WorkList p := [])" using cancel_list_lists [OF c(1)] assms(2) by simp
  then have "separate (ws_list ws1)" using assms(2) by (auto simp: separate_def)
  from cancel_list_lists [OF c(2) this] c(3) l1 show ?thesis by simp
qed

lemma destroy_lists:
  assumes "rt_workqueue_destroy p ws = Some (e, ws')" and "separate (ws_list ws)"
  shows "ws_list ws' = (ws_list ws)(WorkList p := [], DelayedList p := [])"
  using assms by (auto simp: rt_workqueue_destroy_def elim!: bind_SomeE dest!: cancel_all_lists)

lemma create_lists:
  "rt_workqueue_create mem tm sm entry nm sz pr ws = Some (r, ws') \<Longrightarrow>
   ws_list ws' = (case mem of None \<Rightarrow> ws_list ws | Some p \<Rightarrow> (ws_list ws)(WorkList p := [], DelayedList p := []))"
  by (auto simp: rt_workqueue_create_def Let_def upd_queue_iff split: option.splits elim!: bind_SomeE)

text \<open>
  The history of the queue \<open>q\<close> as a log: an item that is put at the end, one that goes ahead of
  the others, items that are withdrawn, and the item that the thread of the queue takes. What a
  call logs depends on its arguments and on the item that is running, not on the lists.
\<close>

datatype wq_event = Put addr | Ahead addr | Withdrawn "addr list" | Taken addr | Nothing

definition due_event :: "addr \<Rightarrow> addr \<Rightarrow> addr \<Rightarrow> wq_event" where
  "due_event q p w = (if p = q then Put w else Withdrawn [w])"

text \<open>An item that comes due while its own function is running is not put into the list.\<close>

definition expiry_event :: "addr \<Rightarrow> addr \<Rightarrow> wstate \<Rightarrow> wq_event" where
  "expiry_event q w ws = (if (\<exists>x y. ws_work ws w = Some x \<and> wk_queue x = Some q \<and> ws_queue ws q = Some y \<and> wq_current y \<noteq> Some w)
    then Put w else Withdrawn [w])"

inductive wq_step :: "addr \<Rightarrow> wstate \<Rightarrow> wq_event \<Rightarrow> wstate \<Rightarrow> bool" for q where
  wq_dowork: "rt_workqueue_dowork p w ws = Some (e, ws') \<Longrightarrow> wq_step q ws (due_event q p w) ws'"
| wq_submit: "rt_workqueue_submit_work p w ticks ws = Some (e, ws') \<Longrightarrow>
    wq_step q ws (if ticks = 0 then due_event q p w else Withdrawn [w]) ws'"
| wq_expires: "delayed_work_timeout_handler w ws = Some ws' \<Longrightarrow> wq_step q ws (expiry_event q w ws) ws'"
| wq_urgent: "rt_workqueue_urgent_work p w ws = Some (e, ws') \<Longrightarrow>
    wq_step q ws (if p = q then Ahead w else Withdrawn [w]) ws'"
| wq_cancel: "rt_workqueue_cancel_work p w ws = Some (e, ws') \<Longrightarrow> wq_step q ws (Withdrawn [w]) ws'"
| wq_cancel_sync: "rt_workqueue_cancel_work_sync p w ws = Some (r, ws') \<Longrightarrow>
    wq_step q ws (if map_option wq_current (ws_queue ws p) = Some (Some w) then Nothing else Withdrawn [w]) ws'"
| wq_cancel_all: "rt_workqueue_cancel_all_work p ws = Some (e, ws') \<Longrightarrow>
    wq_step q ws (Withdrawn (ws_list ws (WorkList p))) ws'"
| wq_destroy: "rt_workqueue_destroy p ws = Some (e, ws') \<Longrightarrow> wq_step q ws (Withdrawn (ws_list ws (WorkList p))) ws'"
| wq_create: "rt_workqueue_create mem tm sm entry nm sz pr ws = Some (r, ws') \<Longrightarrow> mem \<noteq> Some q \<Longrightarrow> wq_step q ws Nothing ws'"
| wq_init: "(\<And>l. w \<notin> set (ws_list ws l)) \<Longrightarrow> wq_step q ws Nothing (rt_work_init w f d ws)"
| wq_takes: "worker_round p ws = Some (Return (w, f, d), ws') \<Longrightarrow>
    wq_step q ws (if p = q then Taken w else Withdrawn [w]) ws'"
| wq_waits: "worker_round p ws = Some (Blocked, ws') \<Longrightarrow> wq_step q ws Nothing ws'"
| wq_done: "worker_done p ws = Some ws' \<Longrightarrow> wq_step q ws Nothing ws'"
| wq_kernel: "wq_step q ws Nothing (set_kernel s ws)"

inductive wq_run :: "addr \<Rightarrow> wstate \<Rightarrow> wq_event list \<Rightarrow> wstate \<Rightarrow> bool" for q where
  wq_start: "wq_run q ws [] ws"
| wq_next: "wq_step q ws e ws1 \<Longrightarrow> wq_run q ws1 log ws' \<Longrightarrow> wq_run q ws (e # log) ws'"

inductive_simps wq_run_simps [simp]: "wq_run q ws [] ws'" "wq_run q ws (e # log) ws'"

text \<open>The reference: a plain list, from whose front the items are taken.\<close>

fun wq_apply :: "wq_event \<Rightarrow> addr list \<Rightarrow> addr list" where
  "wq_apply (Put w) l = remove1 w l @ [w]"
| "wq_apply (Ahead w) l = w # remove1 w l"
| "wq_apply (Withdrawn ws) l = filter (\<lambda>w. w \<notin> set ws) l"
| "wq_apply (Taken w) l = tl l"
| "wq_apply Nothing l = l"

fun wq_reference :: "wq_event list \<Rightarrow> addr list \<Rightarrow> addr list \<times> addr list" where
  "wq_reference [] l = ([], l)"
| "wq_reference (e # log) l = (let (ts, l') = wq_reference log (wq_apply e l)
    in (case e of Taken w \<Rightarrow> take 1 l @ ts | _ \<Rightarrow> ts, l'))"

fun taken :: "wq_event list \<Rightarrow> addr list" where
  "taken [] = []"
| "taken (Taken w # log) = w # taken log"
| "taken (e # log) = taken log"

lemma al_remove_filter: "separate l \<Longrightarrow> al_remove w l m = filter (\<lambda>v. v \<notin> set [w]) (l m)"
  using remove1_eq_filter [of "l m" w] separate_distinct [of l m] by (simp add: al_remove_def)

lemma separate_tail: "separate l \<Longrightarrow> separate (al_tail m w (al_remove w l))"
  unfolding al_tail_def using separate_remove [of l w] unlinked_remove [of l w]
  by (intro separate_add) (auto simp: al_remove_def separate_distinct)

lemma separate_head: "separate l \<Longrightarrow> separate (al_head m w (al_remove w l))"
  unfolding al_head_def using separate_remove [of l w] unlinked_remove [of l w]
  by (intro separate_add) (auto simp: al_remove_def separate_distinct)

lemma separate_cleared: "separate l \<Longrightarrow> separate (l(a := [], b := []))"
  by (auto simp: separate_def)

lemma cleared_filter: "separate l \<Longrightarrow> (l(WorkList p := [], DelayedList p := [])) (WorkList q) = filter (\<lambda>v. v \<notin> set (l (WorkList p))) (l (WorkList q))"
proof (cases "p = q")
  case False
  assume s: "separate l"
  have "v \<notin> set (l (WorkList p))" if "v \<in> set (l (WorkList q))" for v
    using separate_eq [OF s, of v "WorkList p" "WorkList q"] that False by auto
  with False show ?thesis by (simp add: filter_id_conv [THEN iffD2])
qed (simp add: filter_empty_conv)

lemma wq_step_list:
  assumes "wq_step q ws e ws'" and "separate (ws_list ws)"
  shows "separate (ws_list ws') \<and> ws_list ws' (WorkList q) = wq_apply e (ws_list ws (WorkList q)) \<and>
    (\<forall>w. e = Taken w \<longrightarrow> take 1 (ws_list ws (WorkList q)) = [w])"
proof -
  note sep = assms(2)
  have rem: "separate (al_remove w (ws_list ws))" for w using separate_remove [OF sep] by (simp add: al_remove_def)
  from assms(1) show ?thesis
  proof cases
    case (wq_dowork p w e)
    with dowork_list [OF wq_dowork(2)] separate_tail [OF sep] al_remove_filter [OF sep] show ?thesis
      by (simp add: due_event_def al_tail_def al_remove_def)
  next
    case (wq_submit p w ticks e)
    with submit_list [OF wq_submit(2)] separate_tail [OF sep] al_remove_filter [OF sep] show ?thesis
      by (simp add: due_event_def al_tail_def al_remove_def)
  next
    case (wq_expires w)
    from handler_queue [OF wq_expires(2)] obtain x p y where h: "ws_work ws w = Some x" "wk_queue x = Some p" "ws_queue ws p = Some y"
      by blast
    with handler_list [OF wq_expires(2) h] wq_expires(1) separate_tail [OF sep] rem al_remove_filter [OF sep] show ?thesis
      by (simp add: expiry_event_def al_tail_def al_remove_def)
  next
    case (wq_urgent p w e)
    with urgent_list [OF wq_urgent(2)] separate_head [OF sep] al_remove_filter [OF sep] show ?thesis
      by (simp add: al_head_def al_remove_def)
  next
    case (wq_cancel p w e)
    with cancel_list1 [of p w ws e ws'] rem al_remove_filter [OF sep] show ?thesis
      by (simp add: rt_workqueue_cancel_work_def)
  next
    case (wq_cancel_sync p w r)
    with cancel_sync_list [OF wq_cancel_sync(2)] rem sep al_remove_filter [OF sep] show ?thesis by auto
  next
    case (wq_cancel_all p e)
    with cancel_all_lists [OF wq_cancel_all(2) sep] separate_cleared [OF sep] cleared_filter [OF sep] show ?thesis by simp
  next
    case (wq_destroy p e)
    with destroy_lists [OF wq_destroy(2) sep] separate_cleared [OF sep] cleared_filter [OF sep] show ?thesis by simp
  next
    case (wq_create mem tm sm entry nm sz pr r)
    with create_lists [OF wq_create(2)] separate_cleared [OF sep] sep show ?thesis by (cases mem) simp_all
  next
    case (wq_init w f d)
    with sep show ?thesis by (simp add: rt_work_init_def)
  next
    case (wq_takes p w f d)
    from round_list [OF wq_takes(2)] obtain rest where
      r: "ws_list ws' = al_remove w (ws_list ws)" "ws_list ws (WorkList p) = w # rest" by blast
    show ?thesis
    proof (cases "p = q")
      case True
      with r wq_takes(1) rem [of w] show ?thesis by (simp add: al_remove_def)
    next
      case False
      with r wq_takes(1) rem [of w] al_remove_filter [OF sep, of w] show ?thesis by simp
    qed
  next
    case wq_waits
    with round_waits sep show ?thesis by simp
  next
    case wq_done
    with done_list sep show ?thesis by simp
  next
    case wq_kernel
    with sep show ?thesis by simp
  qed
qed

text \<open>Events that leave the items \<open>zs\<close> and their turn alone.\<close>

fun leaves :: "addr set \<Rightarrow> wq_event \<Rightarrow> bool" where
  "leaves Z (Put w) = (w \<notin> Z)"
| "leaves Z (Ahead w) = False"
| "leaves Z (Withdrawn ws) = (Z \<inter> set ws = {})"
| "leaves Z _ = True"

lemma run_in_turn:
  assumes "wq_run q ws log ws'" and "separate (ws_list ws)" and "ws_list ws (WorkList q) = zs @ ys" and "list_all (leaves (set zs)) log"
  shows "\<exists>rest. taken log @ ws_list ws' (WorkList q) = zs @ rest"
  using assms
proof (induction arbitrary: zs ys rule: wq_run.induct)
  case (wq_next ws e ws1 log ws')
  note st = wq_step_list [OF wq_next.hyps(1) wq_next.prems(1)]
  show ?case
  proof (cases "\<exists>w. e = Taken w")
    case True
    then obtain w where w: "e = Taken w" by blast
    show ?thesis
    proof (cases zs)
      case (Cons z zs')
      then have "ws_list ws1 (WorkList q) = zs' @ ys" "w = z" using st w wq_next.prems(2) by auto
      moreover have "list_all (leaves (set zs')) log"
      proof (rule list.pred_mono_strong)
        show "list_all (leaves (set zs)) log" using wq_next.prems(3) by simp
        show "leaves (set zs') e" if "leaves (set zs) e" for e using that Cons by (cases e) auto
      qed
      ultimately show ?thesis using wq_next.IH [of zs' ys] st w Cons by auto
    qed simp
  next
    case False
    have "\<exists>ys'. ws_list ws1 (WorkList q) = zs @ ys'"
    proof (cases e)
      case (Put w)
      then show ?thesis using st wq_next.prems(2,3) by (simp add: remove1_append)
    next
      case (Withdrawn xs)
      then have "filter (\<lambda>w. w \<notin> set xs) zs = zs" using wq_next.prems(3) by (auto simp: filter_id_conv)
      with Withdrawn show ?thesis using st wq_next.prems(2) by simp
    qed (use False st wq_next.prems(2,3) in auto)
    then obtain ys' where "ws_list ws1 (WorkList q) = zs @ ys'" by blast
    moreover have "taken (e # log) = taken log" using False by (cases e) auto
    ultimately show ?thesis using wq_next.IH [of zs ys'] st wq_next.prems(3) by auto
  qed
qed simp

lemma run_reference:
  assumes "wq_run q ws log ws'" and "separate (ws_list ws)"
  shows "wq_reference log (ws_list ws (WorkList q)) = (taken log, ws_list ws' (WorkList q))"
  using assms
proof (induction rule: wq_run.induct)
  case (wq_next ws e ws1 log ws')
  with wq_step_list [OF wq_next.hyps(1) wq_next.prems] show ?case by (cases e) auto
qed simp

text \<open>C30. In every history of the work queues, with any calls for any queues and any steps of the
  kernel in between, the items that the thread of a queue takes, and those left in its list, are
  those that a plain list gives: an item that is submitted, or whose delay ends, goes to the end
  of it, an urgent one to its front, and a cancelled one, or one that goes to another queue or is
  submitted with a delay, out of it. So the items that are due first run first, in their order
  and each once, as long as they are not submitted again or withdrawn and no urgent item comes. An
  item whose delay ends while its own function is running counts as withdrawn: it is dropped. A
  synchronous cancel of the item that is running counts for nothing. An item is initialised only
  while it is in no list, and no queue is created at the address of the one that is looked at.\<close>

theorem workqueue_in_order:
  assumes "wq_run q ws log ws'" and "separate (ws_list ws)"
  shows "wq_reference log (ws_list ws (WorkList q)) = (taken log, ws_list ws' (WorkList q)) \<and>
    (\<forall>zs ys. ws_list ws (WorkList q) = zs @ ys \<longrightarrow> list_all (leaves (set zs)) log \<longrightarrow>
      (\<exists>rest. taken log @ ws_list ws' (WorkList q) = zs @ rest))"
  using run_reference [OF assms] run_in_turn [OF assms] by blast

section \<open>Cancelling\<close>

text \<open>What a cancelled item looks like, and when its timer can be taken off.\<close>

definition cancelled :: "rt_work \<Rightarrow> bool" where
  "cancelled x \<longleftrightarrow> wk_flags x AND 3 = 0 \<and> wk_queue x = None"

definition item_ok :: "wstate \<Rightarrow> addr \<Rightarrow> bool" where
  "item_ok ws w \<longleftrightarrow> (\<exists>x. ws_work ws w = Some x \<and> wk_flags x AND NOT 3 = 0 \<and> (submitting x \<longrightarrow>
    (\<exists>h. k_obj (ws_kernel ws) (work_timer w) = Some h \<and> obj_type h = RT_Object_Class_Timer OR RT_Object_Class_Static)))"

text \<open>The kernel after timers were taken off.\<close>

definition timers_off :: "addr set \<Rightarrow> kstate \<Rightarrow> kstate \<Rightarrow> bool" where
  "timers_off W s s' \<longleftrightarrow> s' = s\<lparr>k_obj := k_obj s', k_timers := k_timers s', k_container := k_container s'\<rparr> \<and>
    (\<forall>r. r \<notin> work_timer ` W \<longrightarrow> k_obj s' r = k_obj s r)"

lemma timers_off_refl: "timers_off W s s"
  by (simp add: timers_off_def)

lemma timers_off_trans: "timers_off W s s1 \<Longrightarrow> timers_off W' s1 s2 \<Longrightarrow> timers_off (W \<union> W') s s2"
proof -
  assume a: "timers_off W s s1" and b: "timers_off W' s1 s2"
  have "s2 = s1\<lparr>k_obj := k_obj s2, k_timers := k_timers s2, k_container := k_container s2\<rparr>" using b by (simp add: timers_off_def)
  also have "\<dots> = s\<lparr>k_obj := k_obj s2, k_timers := k_timers s2, k_container := k_container s2\<rparr>"
    using a by (cases s; cases s1) (simp add: timers_off_def)
  finally have e: "s2 = s\<lparr>k_obj := k_obj s2, k_timers := k_timers s2, k_container := k_container s2\<rparr>" .
  have "k_obj s1 r = k_obj s r" if "r \<notin> work_timer ` W" for r using a that by (simp add: timers_off_def)
  moreover have "k_obj s2 r = k_obj s1 r" if "r \<notin> work_timer ` W'" for r using b that by (simp add: timers_off_def)
  ultimately have "\<forall>r. r \<notin> work_timer ` (W \<union> W') \<longrightarrow> k_obj s2 r = k_obj s r" by (simp add: image_Un)
  with e show ?thesis unfolding timers_off_def by (rule conjI)
qed

lemma work_timer_eq [simp]: "work_timer v = work_timer w \<longleftrightarrow> v = w"
  by (simp add: work_timer_def)

lemma work_timer_image [simp]: "work_timer w \<in> work_timer ` A \<longleftrightarrow> w \<in> A"
  by auto

lemma work_timer_off:
  assumes "k_obj s (work_timer w) = Some h" and "obj_type h = RT_Object_Class_Timer OR RT_Object_Class_Static"
  shows "\<exists>r s1 s'. rt_timer_stop (work_timer w) s = Some (r, s1) \<and> rt_timer_detach (work_timer w) s1 = Some (RT_EOK, s') \<and>
    timers_off {w} s s'"
proof -
  have t: "obj_type h AND NOT RT_Object_Class_Static = RT_Object_Class_Timer" "obj_type h AND RT_Object_Class_Static \<noteq> 0"
    using assms(2) by simp_all
  let ?s1 = "if activated h then s\<lparr>k_timers := al_remove (work_timer w) (k_timers s), k_obj := (k_obj s)(work_timer w \<mapsto> deactivate h)\<rparr> else s"
  obtain g where g: "k_obj ?s1 (work_timer w) = Some g" "obj_type g = obj_type h"
    using assms(1) by (cases "activated h") auto
  have "\<exists>r. rt_timer_stop (work_timer w) s = Some (r, ?s1)" using rt_timer_stop_eq [OF assms(1) t(1)] by simp
  moreover have "\<exists>s'. rt_timer_detach (work_timer w) ?s1 = Some (RT_EOK, s') \<and> timers_off {w} s s'"
    using g t by (auto simp: rt_timer_detach_def assert_type_class is_class_def assert_static_def
        rt_object_is_systemobject_def timer_remove_def rt_object_detach_def container_remove_def RT_ASSERT_def timers_off_def)
  ultimately show ?thesis by blast
qed

lemma cancelled_flags:
  fixes f :: u16
  assumes "f AND NOT 3 = 0"
  shows "(f AND NOT 1) AND NOT 2 = 0" and "(f AND NOT 1) AND 2 = 0 \<Longrightarrow> f AND NOT 1 = 0"
    and "(f AND NOT 1) AND 2 = f AND 2"
proof -
  have f: "f = f AND 3" using assms by (metis and.right_neutral bit.conj_disj_distrib bit.disj_cancel_right or.right_neutral)
  show "(f AND NOT 1) AND NOT 2 = 0" by (subst f) (simp add: and.assoc)
  show "(f AND NOT 1) AND 2 = f AND 2" by (simp add: and.assoc)
  have "f AND NOT 1 = f AND 2" by (subst (1) f) (simp add: and.assoc)
  then show "(f AND NOT 1) AND 2 = 0 \<Longrightarrow> f AND NOT 1 = 0" by (simp add: and.assoc)
qed

lemma cancel_spec:
  assumes ok: "item_ok ws w" and q: "ws_queue ws q = Some x"
  shows "\<exists>e ws' y. workqueue_cancel_work q w ws = Some (e, ws') \<and> ws_list ws' = al_remove w (ws_list ws) \<and>
    ws_work ws' = (ws_work ws)(w \<mapsto> y) \<and> cancelled y \<and> ws_queue ws' = ws_queue ws \<and>
    timers_off {w} (ws_kernel ws) (ws_kernel ws')"
proof -
  obtain y where y: "ws_work ws w = Some y" "wk_flags y AND NOT 3 = 0" using ok by (auto simp: item_ok_def)
  let ?ws = "ws\<lparr>ws_list := al_remove w (ws_list ws), ws_work := (ws_work ws)(w \<mapsto> clear_pending y)\<rparr>"
  have s: "submitting (clear_pending y) = submitting y"
    using cancelled_flags(3) [OF y(2)] by (simp add: submitting_def clear_pending_def)
  let ?e = "if wq_current x \<noteq> Some w then RT_EOK else - RT_EBUSY"
  show ?thesis
  proof (cases "submitting y")
    case True
    with ok y(1) obtain h where "k_obj (ws_kernel ws) (work_timer w) = Some h"
      "obj_type h = RT_Object_Class_Timer OR RT_Object_Class_Static" by (auto simp: item_ok_def)
    from work_timer_off [OF this] obtain r s1 s2 where k: "rt_timer_stop (work_timer w) (ws_kernel ws) = Some (r, s1)"
      "rt_timer_detach (work_timer w) s1 = Some (0, s2)" "timers_off {w} (ws_kernel ws) s2" by (elim exE conjE)
    let ?y = "(clear_submitting (clear_pending y))\<lparr>wk_queue := None\<rparr>"
    have "cancelled ?y" using cancelled_flags(1) [OF y(2)]
      by (simp add: cancelled_def clear_submitting_def clear_pending_def)
    moreover have "workqueue_cancel_work q w ws =
        Some (?e, (set_kernel s2 ?ws)\<lparr>ws_work := (ws_work ws)(w \<mapsto> ?y)\<rparr>)"
      using y(1) True s k(1,2) q
      by (simp add: workqueue_cancel_work_def wlist_remove_def set_kernel_def Let_def)
    ultimately show ?thesis using k(3)
      by (intro exI [of _ ?e] exI [of _ "(set_kernel s2 ?ws)\<lparr>ws_work := (ws_work ws)(w \<mapsto> ?y)\<rparr>"] exI [of _ ?y])
        (simp add: set_kernel_def)
  next
    case False
    let ?y = "(clear_pending y)\<lparr>wk_queue := None\<rparr>"
    have "cancelled ?y" using cancelled_flags(2) [OF y(2)] False s
      by (simp add: cancelled_def clear_pending_def submitting_def)
    moreover have "workqueue_cancel_work q w ws = Some (?e, ?ws\<lparr>ws_work := (ws_work ws)(w \<mapsto> ?y)\<rparr>)"
      using y(1) False s q by (simp add: workqueue_cancel_work_def wlist_remove_def Let_def)
    ultimately show ?thesis using timers_off_refl
      by (intro exI [of _ ?e] exI [of _ "?ws\<lparr>ws_work := (ws_work ws)(w \<mapsto> ?y)\<rparr>"] exI [of _ ?y]) simp
  qed
qed

lemma item_ok_frame:
  assumes "item_ok ws v" and "v \<noteq> w" and "ws_work ws' = (ws_work ws)(w \<mapsto> y)" and "timers_off {w} (ws_kernel ws) (ws_kernel ws')"
  shows "item_ok ws' v"
proof -
  have "k_obj (ws_kernel ws') (work_timer v) = k_obj (ws_kernel ws) (work_timer v)"
    using assms(2,4) by (simp add: timers_off_def)
  with assms(1-3) show ?thesis by (auto simp: item_ok_def)
qed

lemma cancel_list_spec:
  assumes "ws_list ws l = xs" and "separate (ws_list ws)" and "\<forall>m. \<forall>w \<in> set (ws_list ws m). item_ok ws w" and "ws_queue ws q = Some x"
  shows "\<exists>ws'. cancel_list q l ws = Some ws' \<and> ws_list ws' = (ws_list ws)(l := []) \<and> ws_queue ws' = ws_queue ws \<and>
    (\<forall>w \<in> set xs. \<exists>y. ws_work ws' w = Some y \<and> cancelled y) \<and> (\<forall>w. w \<notin> set xs \<longrightarrow> ws_work ws' w = ws_work ws w) \<and>
    timers_off (set xs) (ws_kernel ws) (ws_kernel ws')"
  using assms
proof (induction xs arbitrary: ws)
  case Nil
  then show ?case using timers_off_refl by (subst cancel_list.simps) (auto simp: fun_upd_idem)
next
  case (Cons w xs)
  have d: "w \<notin> set xs" using separate_distinct [OF Cons.prems(2), of l] Cons.prems(1) by simp
  have o': "item_ok ws w" using Cons.prems(1,3) by (metis list.set_intros(1))
  from cancel_spec [OF o' Cons.prems(4)] obtain e ws1 y where c: "workqueue_cancel_work q w ws = Some (e, ws1)"
    "ws_list ws1 = al_remove w (ws_list ws)" "ws_work ws1 = (ws_work ws)(w \<mapsto> y)" "cancelled y"
    "ws_queue ws1 = ws_queue ws" "timers_off {w} (ws_kernel ws) (ws_kernel ws1)" by (elim exE conjE)
  have only: "w \<notin> set (ws_list ws m)" if "m \<noteq> l" for m
    using Cons.prems(1,2) that by (metis separate_eq list.set_intros(1))
  have l1: "ws_list ws1 = (ws_list ws)(l := xs)"
    using Cons.prems(1) only by (auto simp: c(2) al_remove_def remove1_idem fun_eq_iff)
  have "item_ok ws1 v" if "v \<in> set (ws_list ws1 m)" for m v
  proof (rule item_ok_frame [OF _ _ c(3,6)])
    have "v \<in> set (ws_list ws m)" using that c(2) set_remove1_subset [of w "ws_list ws m"] by (auto simp: al_remove_def)
    then show "item_ok ws v" using Cons.prems(3) by blast
    show "v \<noteq> w" using that l1 d only by (auto split: if_splits)
  qed
  then have "\<forall>m. \<forall>v \<in> set (ws_list ws1 m). item_ok ws1 v" by blast
  moreover have "separate (ws_list ws1)" using separate_remove [OF Cons.prems(2), of w] by (simp add: c(2) al_remove_def)
  ultimately obtain ws' where w': "cancel_list q l ws1 = Some ws'" "ws_list ws' = (ws_list ws1)(l := [])" "ws_queue ws' = ws_queue ws1"
    "\<forall>w \<in> set xs. \<exists>y. ws_work ws' w = Some y \<and> cancelled y" "\<forall>w. w \<notin> set xs \<longrightarrow> ws_work ws' w = ws_work ws1 w"
    "timers_off (set xs) (ws_kernel ws1) (ws_kernel ws')"
    using Cons.IH [of ws1] Cons.prems(4) c(5) l1 by (metis fun_upd_same)
  have "cancel_list q l ws = Some ws'" using Cons.prems(1) c(1) w'(1) by (subst cancel_list.simps) simp
  moreover have "timers_off (set (w # xs)) (ws_kernel ws) (ws_kernel ws')" using timers_off_trans [OF c(6) w'(6)] by simp
  moreover have "ws_list ws' = (ws_list ws)(l := [])" using w'(2) l1 by simp
  ultimately show ?case using w'(3-5) c(3-5) d by (intro exI [of _ ws']) auto
qed

text \<open>\<open>rt_workqueue_cancel_all_work\<close> terminates: both lists of the queue are empty afterwards, every item that was in
  one of them is neither pending nor submitting and belongs to no queue, its timer is off, and the items and lists of other
  queues are as before.\<close>

theorem rt_workqueue_cancel_all_empties:
  assumes "kinv (ws_kernel ws)" and "0 \<le> sint (rt_scheduler_lock_nest (ws_kernel ws))" and "separate (ws_list ws)"
    and "\<forall>m. \<forall>w \<in> set (ws_list ws m). item_ok ws w" and "ws_queue ws q = Some x"
  shows "\<exists>ws'. rt_workqueue_cancel_all_work q ws = Some (RT_EOK, ws') \<and>
    ws_list ws' = (ws_list ws)(WorkList q := [], DelayedList q := []) \<and> ws_queue ws' = ws_queue ws \<and>
    (\<forall>w \<in> set (ws_list ws (WorkList q)) \<union> set (ws_list ws (DelayedList q)). \<exists>y. ws_work ws' w = Some y \<and> cancelled y) \<and>
    (\<forall>w. w \<notin> set (ws_list ws (WorkList q)) \<union> set (ws_list ws (DelayedList q)) \<longrightarrow> ws_work ws' w = ws_work ws w)"
proof -
  let ?s = "ws_kernel ws"
  let ?ws0 = "set_kernel (rt_enter_critical ?s) ws"
  have o0: "\<forall>m. \<forall>w \<in> set (ws_list ?ws0 m). item_ok ?ws0 w"
    using assms(4) by (simp add: item_ok_def rt_enter_critical_def)
  from cancel_list_spec [OF refl _ o0, where q = q and x = x and l = "WorkList q"] assms(3,5) obtain ws1 where
    w1: "cancel_list q (WorkList q) ?ws0 = Some ws1" "ws_list ws1 = (ws_list ws)(WorkList q := [])" "ws_queue ws1 = ws_queue ws"
      "\<forall>w \<in> set (ws_list ws (WorkList q)). \<exists>y. ws_work ws1 w = Some y \<and> cancelled y"
      "\<forall>w. w \<notin> set (ws_list ws (WorkList q)) \<longrightarrow> ws_work ws1 w = ws_work ws w"
      "timers_off (set (ws_list ws (WorkList q))) (rt_enter_critical ?s) (ws_kernel ws1)" by auto
  have s1: "separate (ws_list ws1)" using assms(3) by (auto simp: w1(2) separate_def)
  have o1: "\<forall>m. \<forall>w \<in> set (ws_list ws1 m). item_ok ws1 w"
  proof (intro allI ballI)
    fix m w assume m: "w \<in> set (ws_list ws1 m)"
    have ne: "m \<noteq> WorkList q" and l: "w \<in> set (ws_list ws m)" using m by (auto simp: w1(2) split: if_splits)
    then have n: "w \<notin> set (ws_list ws (WorkList q))" using separate_eq [OF assms(3)] by metis
    then have "k_obj (ws_kernel ws1) (work_timer w) = k_obj ?s (work_timer w)"
      using w1(6) by (auto simp: timers_off_def rt_enter_critical_def)
    moreover have "item_ok ws w" using assms(4) l by blast
    ultimately show "item_ok ws1 w" using w1(5) n by (auto simp: item_ok_def)
  qed
  from cancel_list_spec [OF refl s1 o1, where q = q and x = x and l = "DelayedList q"] w1(3) assms(5) obtain ws2 where
    w2: "cancel_list q (DelayedList q) ws1 = Some ws2" "ws_list ws2 = (ws_list ws1)(DelayedList q := [])"
      "ws_queue ws2 = ws_queue ws1" "\<forall>w \<in> set (ws_list ws1 (DelayedList q)). \<exists>y. ws_work ws2 w = Some y \<and> cancelled y"
      "\<forall>w. w \<notin> set (ws_list ws1 (DelayedList q)) \<longrightarrow> ws_work ws2 w = ws_work ws1 w"
      "timers_off (set (ws_list ws1 (DelayedList q))) (ws_kernel ws1) (ws_kernel ws2)" by auto
  let ?s2 = "(ws_kernel ws2)\<lparr>rt_scheduler_lock_nest := rt_scheduler_lock_nest ?s\<rparr>"
  from timers_off_trans [OF w1(6) w2(6)] obtain m ts c where
    e: "ws_kernel ws2 = (rt_enter_critical ?s)\<lparr>k_obj := m, k_timers := ts, k_container := c\<rparr>"
    unfolding timers_off_def by blast
  have "sched_inv ?s2" using kinvD(1) [OF assms(1)] inv_out_cong [of ?s2 ?s "{}"]
    by (simp add: sched_inv_def e rt_enter_critical_def)
  moreover have "stacks_ok ?s2" using kinvD(3) [OF assms(1)] by (simp add: stacks_ok_def e rt_enter_critical_def)
  moreover have "rt_enter_critical ?s2 = ws_kernel ws2" by (simp add: e rt_enter_critical_def)
  ultimately obtain s3 where "rt_exit_critical (ws_kernel ws2) = Some s3"
    using critical_sched [of ?s2] assms(2) by auto
  then have "rt_workqueue_cancel_all_work q ws = Some (RT_EOK, set_kernel s3 ws2)"
    using w1(1) w2(1) by (simp add: rt_workqueue_cancel_all_work_def Let_def)
  moreover have "\<exists>y. ws_work ws2 w = Some y \<and> cancelled y"
    if "w \<in> set (ws_list ws (WorkList q)) \<union> set (ws_list ws (DelayedList q))" for w
    using that w1(2,4) w2(4,5) by (cases "w \<in> set (ws_list ws1 (DelayedList q))") auto
  ultimately show ?thesis using w1(2,3,5) w2(2,3,5)
    by (intro exI [of _ "set_kernel s3 ws2"]) simp
qed

section \<open>The acknowledgement, again\<close>

text \<open>C31. The loop by which the thread of a queue acknowledges a finished item terminates with \<open>RT_EOK\<close> for any number of threads
  in \<open>rt_workqueue_cancel_work_sync\<close>: each of them is runnable afterwards and its wait was successful, nobody waits any more,
  and the counter of the semaphore is 0 as before.\<close>

theorem workqueue_work_completion_wakes:
  assumes "kwf s" and "sem_ok s (work_sem q)" and "k_sem s (work_sem q) = Some x" and "sem_value x = 0"
    and "rt_current_thread s \<noteq> None" and "rt_scheduler_lock_nest s = 0"
  shows "\<exists>s'. workqueue_work_completion q s = Some (RT_EOK, s') \<and> kwf s' \<and> k_sem s' = k_sem s \<and>
    k_list s' (SuspendQ (work_sem q)) = [] \<and>
    (\<forall>t \<in> set (k_list s (SuspendQ (work_sem q))). \<exists>th. k_thread s' t = Some th \<and> runnable th \<and> sem_take_resume t s' = Some RT_EOK)"
proof -
  from completion_spec [OF assms(1-4) refl assms(5,6)] obtain s' where
    "workqueue_work_completion q s = Some (0, s')" "kwf s'" "quiet s s'" "k_list s' (SuspendQ (work_sem q)) = []"
    "\<forall>t \<in> set (k_list s (SuspendQ (work_sem q))). \<exists>th. k_thread s' t = Some th \<and> runnable th \<and> th_error th = 0" by auto
  then show ?thesis using ipc_sameD(1) [OF quietD(1)] by (intro exI [of _ s']) (auto simp: sem_take_resume_def)
qed

lemma workqueue_work_completion_wakes_witness:
  "\<exists>s'. workqueue_work_completion 0 ex_sem = Some (RT_EOK, s') \<and> k_list s' (SuspendQ 20) = [] \<and>
    sem_take_resume 11 s' = Some RT_EOK \<and> sem_take_resume 12 s' = Some RT_EOK"
proof -
  have a: "sem_ok ex_sem (work_sem 0)" "k_sem ex_sem (work_sem 0) = Some \<lparr>sem_value = 0\<rparr>"
    "k_list ex_sem (SuspendQ (work_sem 0)) = [11, 12]" "work_sem 0 = 20" using ex_sem_ok by (simp_all add: work_sem_def)
  have "rt_scheduler_lock_nest ex_sem = 0" by (simp add: ex_sem_def ex_timed_def ex_state_def init_kstate_def)
  with workqueue_work_completion_wakes [OF ex_sem_kwf a(1,2)] a(3,4) obtain s' where
    "workqueue_work_completion 0 ex_sem = Some (0, s')" "k_list s' (SuspendQ (work_sem 0)) = []"
    "\<forall>t \<in> {11, 12}. sem_take_resume t s' = Some 0" by auto
  then show ?thesis by (intro exI [of _ s']) (simp add: work_sem_def)
qed

section \<open>An example\<close>

text \<open>The queue 0 with the suspended thread 11; the item 30 is new and the item 31 waits for its timer.\<close>

definition ex_item :: "u16 \<Rightarrow> rt_work" where
  "ex_item flags = \<lparr>wk_func = 0, wk_data = 0, wk_flags = flags, wk_type = 0, wk_queue = None\<rparr>"

definition ex_work :: wstate where
  "ex_work = \<lparr>ws_kernel = ex_timed\<lparr>k_obj := (k_obj ex_timed)(Obj 51 \<mapsto> ex_header 10)\<rparr>,
    ws_queue = [0 \<mapsto> \<lparr>wq_current = None, wq_thread = Some 11\<rparr>], ws_work = [30 \<mapsto> ex_item 0, 31 \<mapsto> ex_item 2],
    ws_list = (\<lambda>_. [])(DelayedList 0 := [31])\<rparr>"

lemma ex_work_simps [simp]:
  "ws_queue ex_work = [0 \<mapsto> \<lparr>wq_current = None, wq_thread = Some 11\<rparr>]" "ws_work ex_work = [30 \<mapsto> ex_item 0, 31 \<mapsto> ex_item 2]"
  "ws_list ex_work = (\<lambda>_. [])(DelayedList 0 := [31])" "k_thread (ws_kernel ex_work) 11 = Some (ex_thread 4 5)"
  "k_obj (ws_kernel ex_work) (Obj 51) = Some (ex_header 10)" "rt_current_thread (ws_kernel ex_work) = Some 10"
  "rt_scheduler_lock_nest (ws_kernel ex_work) = 0"
  by (simp_all add: ex_work_def ex_timed_def ex_state_def init_kstate_def)

lemma ex_work_kwf: "kwf (ws_kernel ex_work)"
proof (rule kwf_new_object [OF ex_timed_kwf])
  show "k_obj ex_timed (Obj 51) = None" by (simp add: ex_timed_def ex_state_def)
  show "k_obj (ws_kernel ex_work) = (k_obj ex_timed)(Obj 51 \<mapsto> ex_header 10)" by (simp add: ex_work_def)
qed (simp_all add: ex_work_def)

lemma ex_work_separate: "separate (ws_list ex_work)"
  by (auto simp: separate_def)

lemma rt_workqueue_dowork_wakes_witness:
  "\<exists>ws' h. rt_workqueue_dowork 0 30 ex_work = Some (RT_EOK, ws') \<and> ws_list ws' (WorkList 0) = [30] \<and>
    k_thread (ws_kernel ws') 11 = Some h \<and> runnable h"
proof -
  have "worker_waits 0 ex_work" by (simp add: worker_waits_def ex_thread_def suspended_def)
  with rt_workqueue_dowork_wakes [OF ex_work_kwf _ _ _ _ _ ex_work_separate, of 0 "\<lparr>wq_current = None, wq_thread = Some 11\<rparr>" 11 "ex_thread 4 5" 30 "ex_item 0"]
  show ?thesis by auto
qed

lemma rt_workqueue_cancel_all_empties_witness:
  "\<exists>ws' y. rt_workqueue_cancel_all_work 0 ex_work = Some (RT_EOK, ws') \<and> ws_list ws' (DelayedList 0) = [] \<and>
    ws_work ws' 31 = Some y \<and> cancelled y"
proof -
  have "\<forall>m. \<forall>w \<in> set (ws_list ex_work m). item_ok ex_work w"
    by (auto simp: item_ok_def work_timer_def ex_item_def ex_header_def)
  from rt_workqueue_cancel_all_empties [OF kwfD(1) [OF ex_work_kwf] _ ex_work_separate this, of 0]
  show ?thesis by auto
qed

text \<open>The same queue while its thread, 10, runs.\<close>

definition ex_busy :: wstate where
  "ex_busy = ex_work\<lparr>ws_queue := [0 \<mapsto> \<lparr>wq_current = None, wq_thread = Some 10\<rparr>]\<rparr>"

lemma workqueue_in_order_witness:
  "\<exists>ws ws'. wq_run 0 ex_busy [Put 30, Put 31, Taken 30] ws \<and> ws_list ws (WorkList 0) = [31] \<and>
    rt_workqueue_urgent_work 0 30 ws = Some (RT_EOK, ws') \<and> ws_list ws' (WorkList 0) = [30, 31]"
proof -
  have eb: "ws_kernel ex_busy = ws_kernel ex_work" "ws_queue ex_busy = [0 \<mapsto> \<lparr>wq_current = None, wq_thread = Some 10\<rparr>]"
    "ws_work ex_busy = ws_work ex_work" by (simp_all add: ex_busy_def)
  have th: "k_thread (ws_kernel ex_work) 10 = Some (ex_thread 3 5)" by (simp add: ex_work_def)
  have ns: "\<not> suspended (ex_thread 3 5)" by (simp add: ex_thread_def suspended_def)
  have idle: "wake_worker 0 ws = Some ws"
    if "ws_queue ws = [0 \<mapsto> \<lparr>wq_current = c, wq_thread = Some 10\<rparr>]" "ws_kernel ws = ws_kernel ex_work" for ws c
    using that th ns by (auto simp: wake_worker_def)
  obtain ws1 where w1: "rt_workqueue_dowork 0 30 ex_busy = Some (0, ws1)" "ws_queue ws1 = ws_queue ex_busy"
    "ws_kernel ws1 = ws_kernel ex_work" "ws_work ws1 31 = Some (ex_item 2)" "ws_work ws1 30 \<noteq> None"
    using eb by (simp add: rt_workqueue_dowork_def workqueue_submit_work_def Let_def idle)
  obtain ws2 where w2: "rt_workqueue_dowork 0 31 ws1 = Some (0, ws2)" "ws_queue ws2 = ws_queue ex_busy" "ws_work ws2 30 \<noteq> None"
    "ws_kernel ws2 = ws_kernel ex_work"
    using w1 eb by (simp add: rt_workqueue_dowork_def workqueue_submit_work_def Let_def idle)
  have s: "separate (ws_list ex_busy)" using ex_work_separate by (simp add: ex_busy_def)
  have "wq_run 0 ex_busy [Put 30, Put 31] ws2"
    using wq_dowork [OF w1(1), of 0] wq_dowork [OF w2(1), of 0] by (auto simp: due_event_def)
  with workqueue_in_order [OF this s] have l2: "ws_list ws2 (WorkList 0) = [30, 31]" by (simp add: ex_busy_def)
  obtain y where y: "ws_work ws2 30 = Some y" using w2(3) by auto
  obtain ws3 f d where w3: "worker_round 0 ws2 = Some (Return (30, f, d), ws3)" "ws_kernel ws3 = ws_kernel ex_work"
    "ws_queue ws3 = [0 \<mapsto> \<lparr>wq_current = Some 30, wq_thread = Some 10\<rparr>]"
    using l2 w2(2,4) y eb by (simp add: worker_round_def Let_def)
  have r: "wq_run 0 ex_busy [Put 30, Put 31, Taken 30] ws3"
    using wq_dowork [OF w1(1), of 0] wq_dowork [OF w2(1), of 0] wq_takes [OF w3(1), of 0]
    by (auto simp: due_event_def)
  have l3: "ws_list ws3 (WorkList 0) = [31]" using workqueue_in_order [OF r s] by (simp add: ex_busy_def)
  have "rt_workqueue_urgent_work 0 30 ws3 = Some (RT_EOK, wlist_head (WorkList 0) 30 (wlist_remove 30 ws3))"
    using w3(2,3) idle by (simp add: rt_workqueue_urgent_work_def Let_def)
  moreover have "ws_list (wlist_head (WorkList 0) 30 (wlist_remove 30 ws3)) (WorkList 0) = [30, 31]"
    using l3 by (simp add: al_head_def al_remove_def)
  ultimately show ?thesis using r l3 by blast
qed

section \<open>What the flags do not cover\<close>

text \<open>An item that is submitted with a delay and then without one keeps its timer and the flag of the timer. Once the
  thread has taken it, the timeout function of that timer fails its assertion.\<close>

lemma stale_timer:
  assumes "rt_workqueue_dowork q w ws = Some (e, ws1)" and "ws_work ws w = Some x" and "submitting x"
    and "worker_round q ws1 = Some (Return (w, f, d), ws2)"
  shows "\<exists>y. ws_work ws2 w = Some y \<and> submitting y \<and> delayed_work_timeout_handler w ws2 = None"
proof -
  have "ws_work ws1 w = Some ((set_pending (clear_pending x))\<lparr>wk_queue := Some q\<rparr>)"
    using assms(1,2) by (auto simp: rt_workqueue_dowork_def workqueue_submit_work_def Let_def
        elim!: bind_SomeE dest!: wake_worker_keeps(2))
  with assms(4) have "ws_work ws2 w = Some ((clear_pending (set_pending (clear_pending x)))\<lparr>wk_queue := None\<rparr>)"
    by (auto simp: worker_round_def Let_def upd_work_iff upd_queue_iff clear_pending_def split: list.splits elim!: bind_SomeE)
  moreover have "submitting (clear_pending (set_pending (clear_pending x)))"
    using assms(3) by (simp add: submitting_def clear_pending_def set_pending_def and.assoc bit.conj_disj_distrib2)
  ultimately show ?thesis by (simp add: delayed_work_timeout_handler_def submitting_def)
qed

text \<open>A delayed item whose time comes while it is still running is dropped.\<close>

lemma running_item_dropped:
  assumes "delayed_work_timeout_handler w ws = Some ws'" and "ws_work ws w = Some x" and "wk_queue x = Some q"
    and "ws_queue ws q = Some y" and "wq_current y = Some w"
  shows "ws_list ws' = al_remove w (ws_list ws)"
  using assms by (auto simp: delayed_work_timeout_handler_def Let_def upd_work_iff elim!: bind_SomeE dest!: wake_worker_keeps(1))

text \<open>An item that is running and was submitted again stays in the list when it is cancelled and waited for.\<close>

lemma cancel_sync_keeps_pending:
  assumes "rt_workqueue_cancel_work_sync q w ws = Some (r, ws')" and "ws_queue ws q = Some y" and "wq_current y = Some w"
  shows "ws_list ws' = ws_list ws"
  using assms by (auto simp: rt_workqueue_cancel_work_sync_def elim!: bind_SomeE)

end
