(* ===== verification/Spec2Isabelle.thy ===== *)
theory Spec2Isabelle
  imports RtFfs KService KString KPrintfProps RingBuffer Semaphore Event MailBox MessageQueueProps MutexProps ThreadReclaim ThreadSleep HeapFrontProps MemPoolProps DataQueueProps CTimeProps PipeProps StartUpProps RingBlkProps WorkqueueProps
begin

text \<open>
  A model of the RT-Thread kernel under \<open>src/rt-thread/\<close>, as this repository configures it for a
  single-core Cortex-M4 (\<open>src/rtconfig.h\<close>), and its correctness.

  The program. The kernel (\<open>rt-thread/src\<close>) runs threads by priority. Every kernel object has a
  header in a container of its class (\<open>object.c\<close>). The scheduler (\<open>scheduler_up.c\<close>) keeps one
  ready queue per priority and a bitmap of the non-empty ones. Threads (\<open>thread.c\<close>) suspend and
  resume; each has a timer, and the timers (\<open>timer.c\<close>) sit in a list sorted by their wrapping
  tick. The IPC objects (\<open>ipc.c\<close>), which are semaphores, mutexes, events, mailboxes and message
  queues, each have a queue of suspended threads and wake them through the scheduler.

  State. \<open>KState\<close> has the record \<open>kstate\<close>: the headers, the threads, the timers and the IPC
  objects as maps from addresses to records with the fields of the C structures, and the intrusive
  lists as functions from list heads to lists of nodes (\<open>k_list\<close>: ready queues, suspend queues;
  \<open>k_timers\<close>: timer lists; \<open>k_taken\<close>: mutexes a thread holds; \<open>k_container\<close>). That the real doubly
  linked lists behave this way is proved in \<open>RtList\<close>. Machine integers are words of their width.
  An operation is a function from the state to an optional result and state: \<open>None\<close> is a failed
  assertion, a null or dead pointer, an access out of bounds, or a loop that does not end; the
  error codes of the code are values. A call that blocks ends with \<open>Blocked\<close> at the scheduling
  point, and a second definition, named \<open>..._resume\<close>, is what the thread does when it runs again.

  Theories. \<open>Prelude\<close>, \<open>RtDef\<close>: types and shared lemmas. \<open>RtFfs\<close>, \<open>KService\<close>, \<open>KString\<close>,
  \<open>KPrintf\<close>, \<open>KPrintfProps\<close>: the find-first-set, memory and string routines and the formatted output of \<open>kservice.c\<close>. \<open>RtList\<close>: \<open>rtservice.h\<close>.
  \<open>RingBuffer\<close>: \<open>components/drivers/ipc/ringbuffer.c\<close>. \<open>RingBlk\<close>, \<open>RingBlkProps\<close>: the ring
  of blocks of \<open>ringblk_buf.c\<close>, on the pointers of \<open>RtList\<close>. \<open>Scheduler\<close>, \<open>SchedInv\<close>, \<open>SchedProps\<close>: the
  scheduler, its invariant and its laws. \<open>Object\<close>, \<open>ObjectProps\<close>: the objects. \<open>TimerBase\<close>,
  \<open>Timer\<close>, \<open>TimerProps\<close>: the timers. \<open>ThreadBase\<close>, \<open>ThreadPrio\<close>: suspending threads and
  changing their priority. \<open>IpcBase\<close>,
  \<open>IpcWait\<close>: the queues of suspended threads. \<open>Semaphore\<close>, \<open>Event\<close>, \<open>MessageStore\<close> (an interface
  for a bounded store of messages), \<open>MailBox\<close>, \<open>MessageQueue\<close>, \<open>MessageQueueProps\<close>: these objects.
  \<open>Mutex\<close>: the mutexes; \<open>MutexPrio\<close>: the priority inheritance invariant and its restoration along
  a chain of owners; \<open>MutexTake\<close>, \<open>MutexGive\<close>, \<open>MutexProps\<close>: taking, releasing, the properties.
  \<open>Thread\<close>: the life of a thread from its initial stack to the idle thread (\<open>thread.c\<close>, \<open>idle.c\<close>,
  \<open>clock.c\<close>, \<open>cpuport.c\<close>); \<open>ThreadStart\<close>, \<open>ThreadClose\<close>, \<open>ThreadReclaim\<close>, \<open>ThreadSleep\<close>: creation,
  deletion and sleep. \<open>StartUp\<close>, \<open>StartUpProps\<close>: \<open>components.c\<close> and the kernel's part of
  \<open>board/board.c\<close>, which bring the kernel into its well-formed state. \<open>SmallMem\<close>: the heap of \<open>mem.c\<close>, on the bytes of the memory; \<open>SmallMemRep\<close>: when the
  memory represents a list of blocks; \<open>SmallMemOps\<close>, \<open>SmallMemAlloc\<close>, \<open>SmallMemFree\<close>, \<open>SmallMemSpec\<close>,
  \<open>SmallMemRealloc\<close>, \<open>SmallMemProps\<close>: its operations on the blocks. \<open>HeapFront\<close>, \<open>HeapFrontProps\<close>:
  \<open>rt_malloc\<close> and its relatives in \<open>kservice.c\<close>, which run it under a mutex. \<open>MemPool\<close>,
  \<open>MemPoolProps\<close>: the pools of blocks of one size (\<open>mempool.c\<close>). \<open>DevIpc\<close>, \<open>DevIpcProps\<close>: the
  completions and wait queues of the device layer; \<open>DataQueue\<close>, \<open>DataQueueProps\<close>: its data queues
  (\<open>components/drivers/ipc\<close>). Their wait lists are the \<open>SuspendQ\<close> and \<open>SenderQ\<close> of their address.
  \<open>Workqueue\<close>, \<open>WorkqueueProps\<close>: the work queues (\<open>workqueue.c\<close>).
  \<open>Device\<close>, \<open>DeviceProps\<close>: the device layer (\<open>components/drivers/core/device.c\<close>), with the
  interface of a driver (\<open>device_driver\<close>); \<open>Pipe\<close>, \<open>PipeProps\<close>: the pipes (\<open>pipe.c\<close>), a driver of that interface.
  \<open>CTime\<close>, \<open>CTimeProps\<close>: the conversions between seconds and dates of
  \<open>components/libc/compilers/common/ctime.c\<close>, against the Gregorian calendar.

  What the lemmas show. The well-formedness of the kernel, \<open>kinv\<close> and \<open>kwf\<close> (each thread is in at
  most one queue, the one its state asks for; the bitmap is that of the non-empty ready queues;
  the timer lists hold live timers; each suspended thread with a running timer is found by it), is
  established by start-up and kept by every operation it is stated for. On top of it, each IPC operation has a theorem for all
  of its outcomes. Mutexes add \<open>pi_inv\<close>: every thread has the highest priority of its own and of
  the mutexes it holds; taking a mutex keeps it in every graph of finitely many waiting threads,
  deadlocked or not. A sleep is followed through the single clock interrupts, and the work queues
  through the log of all calls for them. The heap is refined: its bytes represent a list of blocks (\<open>rep\<close>), on which
  allocation is first fit and release merges neighbours, and the bytes of blocks in use are kept.

  Bounds. Loops that the code does not bound are \<open>partial_function (option)\<close>, and their
  termination is a theorem (\<open>thread_update_priority_restores\<close>, \<open>rt_timer_check_wakes\<close>,
  \<open>rt_mq_control_reset\<close>); the raise of priorities by a waiting thread ends because every round
  raises a thread for good (\<open>update_priority_raise\<close>). Sums of the type \<open>int\<close> that overflow in C make the result
  \<open>None\<close>: the day of the week in \<open>gmtime_r\<close> (\<open>int_ok\<close>), the size in \<open>print_number\<close>; the write
  pointer of the formatted output wraps at \<open>2 ^ 32\<close>. Timeouts are below \<open>2 ^ 31 - 1\<close>: the largest one fails the assertion in
  \<open>rt_timer_control\<close>. \<open>rt_object_init\<close> does not write the flag byte of the header, so a new static
  object has in it what the memory held before, the field \<open>k_stale\<close>.

  Not modelled. Hooks are unset, interrupts come between operations (the code disables them inside),
  the memory of a dynamic object comes from an allocator that is a parameter of its creation. SMP, signals, modules and
  \<open>RT_USING_MESSAGEQUEUE_PRIORITY\<close> are not configured. Output (\<open>rt_kprintf\<close>), the heap
  algorithms that are not configured (\<open>memheap.c\<close>, \<open>slab.c\<close>), the rest of the device layer, drivers, file systems, network stacks, the shell, \<open>lwp\<close>,
  the clocks and POSIX timers of \<open>ctime.c\<close> (they read the RTC device), the
  assembly of the processor ports and the vendored libraries are outside the model.
\<close>

end
